(* ===== verification/Lb_Prelude.thy ===== *)
theory Lb_Prelude
  imports Main "HOL-Library.Word" "HOL-Library.Monad_Syntax"
begin

text \<open>
  What the component theories share: the machine integer types of the firmware (a 32-bit
  ARM target: \<open>int\<close>, \<open>unsigned int\<close>, \<open>uint32_t\<close> and pointers are 32 bits wide), byte
  buffers with checked accesses (\<open>None\<close> is an access outside the object, which is undefined
  in C), the ring-buffer arithmetic that \<^verbatim>\<open>utils/cqueue\<close>, \<^verbatim>\<open>services/cp_accel/cp_queue.c\<close>
  and \<^verbatim>\<open>utils/kfifo\<close> have in common, and the lemma collections
  \<open>mem_simps\<close> and \<open>bind_simps\<close>.
\<close>

unbundle bit_operations_syntax

type_synonym u8 = "8 word"
type_synonym u16 = "16 word"
type_synonym u32 = "32 word"

named_theorems mem_simps "checked reads and writes of byte buffers"
named_theorems bind_simps "results of option binds"

section \<open>Results\<close>

lemma bind_eq_Some_iff [bind_simps]:
  "Option.bind m f = Some y \<longleftrightarrow> (\<exists>x. m = Some x \<and> f x = Some y)"
  by (cases m) auto

lemma bind_eq_None_iff [bind_simps]:
  "Option.bind m f = None \<longleftrightarrow> (\<forall>x. m = Some x \<longrightarrow> f x = None)"
  by (cases m) auto

definition check :: "bool \<Rightarrow> unit option" where
  "check b = (if b then Some () else None)"

lemma check_Some [bind_simps, simp]: "check b = Some u \<longleftrightarrow> b"
  by (simp add: check_def)

lemma check_True [simp]: "check True = Some ()"
  by (simp add: check_def)

section \<open>Words\<close>

lemma unat_add_small:
  fixes a b :: "'a::len word"
  assumes "unat a + unat b < 2 ^ LENGTH('a)"
  shows "unat (a + b) = unat a + unat b"
  using assms by (simp add: unat_word_ariths)

lemma unat_sub_small:
  fixes a b :: "'a::len word"
  assumes "unat b \<le> unat a"
  shows "unat (a - b) = unat a - unat b"
  using assms by (simp add: unat_sub word_le_nat_alt)

lemma sint_eq_unat:
  fixes a :: u32
  assumes "unat a < 2 ^ 31"
  shows "sint a = int (unat a)"
proof -
  have "int (unat a) < int (2 ^ 31)"
    using assms by (simp only: of_nat_less_iff)
  then have le: "uint a < 2 ^ 31"
    by simp
  then have "\<not> bit (uint a) 31"
    by (simp add: bit_iff_odd)
  then have "\<not> bit a 31"
    by (simp add: bit_uint_iff)
  then show ?thesis
    using le by (simp add: sint_uint signed_take_bit_eq_if_positive bit_uint_iff take_bit_int_eq_self)
qed

section \<open>Checked byte buffers\<close>

definition mem_read :: "'a list \<Rightarrow> nat \<Rightarrow> nat \<Rightarrow> 'a list option" where
  "mem_read m off n = (if off + n \<le> length m then Some (take n (drop off m)) else None)"

definition mem_write :: "'a list \<Rightarrow> nat \<Rightarrow> 'a list \<Rightarrow> 'a list option" where
  "mem_write m off xs =
     (if off + length xs \<le> length m
      then Some (take off m @ xs @ drop (off + length xs) m) else None)"

text \<open>\<open>memcpy(dst + doff, src + soff, n)\<close> between two different objects.\<close>

definition memcpy :: "'a list \<Rightarrow> nat \<Rightarrow> 'a list \<Rightarrow> nat \<Rightarrow> nat \<Rightarrow> 'a list option" where
  "memcpy dst doff src soff n = do { xs \<leftarrow> mem_read src soff n; mem_write dst doff xs }"

lemma mem_read_Some [mem_simps]:
  "off + n \<le> length m \<Longrightarrow> mem_read m off n = Some (take n (drop off m))"
  by (simp add: mem_read_def)

lemma mem_write_Some [mem_simps]:
  "off + length xs \<le> length m \<Longrightarrow>
   mem_write m off xs = Some (take off m @ xs @ drop (off + length xs) m)"
  by (simp add: mem_write_def)

lemma memcpy_Some [mem_simps]:
  "soff + n \<le> length src \<Longrightarrow> doff + n \<le> length dst \<Longrightarrow>
   memcpy dst doff src soff n =
     Some (take doff dst @ take n (drop soff src) @ drop (doff + n) dst)"
  by (simp add: memcpy_def mem_read_def mem_write_def)

section \<open>Ring buffers\<close>

text \<open>The \<open>n\<close> elements of a ring of \<open>sz\<close> slots from slot \<open>r\<close> on.\<close>

definition ring_slice :: "'a list \<Rightarrow> nat \<Rightarrow> nat \<Rightarrow> nat \<Rightarrow> 'a list" where
  "ring_slice b sz r n = map (\<lambda>i. b ! ((r + i) mod sz)) [0..<n]"

text \<open>The buffer after \<open>xs\<close> was written from slot \<open>w\<close> on, wrapping at \<open>sz\<close>.\<close>

definition ring_put :: "'a list \<Rightarrow> nat \<Rightarrow> nat \<Rightarrow> 'a list \<Rightarrow> 'a list" where
  "ring_put b sz w xs =
     (let k = sz - w in
      if length xs \<le> k then take w b @ xs @ drop (w + length xs) b
      else drop k xs @ take (w - (length xs - k)) (drop (length xs - k) b) @ take k xs @ drop sz b)"

lemma length_ring_slice [simp]: "length (ring_slice b sz r n) = n"
  by (simp add: ring_slice_def)

lemma ring_slice_0 [simp]: "ring_slice b sz r 0 = []"
  by (simp add: ring_slice_def)

lemma ring_mod:
  fixes r i sz :: nat
  assumes "r < sz" "i \<le> sz"
  shows "(r + i) mod sz = (if r + i < sz then r + i else r + i - sz)"
  using assms by (simp add: mod_if)

lemma ring_slice_mod [simp]: "ring_slice b sz (r mod sz) n = ring_slice b sz r n"
  by (simp add: ring_slice_def mod_add_left_eq)

lemma ring_slice_add:
  "ring_slice b sz r (m + n) = ring_slice b sz r m @ ring_slice b sz (r + m) n"
  by (rule nth_equalityI) (auto simp: ring_slice_def nth_append)

lemma ring_slice_take:
  "m \<le> n \<Longrightarrow> take m (ring_slice b sz r n) = ring_slice b sz r m"
  by (simp add: ring_slice_def take_map)

lemma ring_slice_drop:
  "m \<le> n \<Longrightarrow> drop m (ring_slice b sz r n) = ring_slice b sz (r + m) (n - m)"
  using ring_slice_add [of b sz r m "n - m"] by simp

text \<open>A slice is one chunk, or two when it crosses the end of the buffer.\<close>

lemma ring_slice_one_chunk:
  assumes "r + n \<le> sz" "sz \<le> length b"
  shows "ring_slice b sz r n = take n (drop r b)"
proof (rule nth_equalityI)
  fix i assume "i < length (ring_slice b sz r n)"
  then show "ring_slice b sz r n ! i = take n (drop r b) ! i"
    using assms by (simp add: ring_slice_def)
qed (use assms in simp)

lemma ring_slice_two_chunks:
  assumes "r < sz" "sz - r \<le> n" "n \<le> sz" "sz \<le> length b"
  shows "ring_slice b sz r n = take (sz - r) (drop r b) @ take (n - (sz - r)) b"
proof -
  have "ring_slice b sz r ((sz - r) + (n - (sz - r))) =
      ring_slice b sz r (sz - r) @ ring_slice b sz (r + (sz - r)) (n - (sz - r))"
    by (rule ring_slice_add)
  moreover have "ring_slice b sz (r + (sz - r)) (n - (sz - r)) = ring_slice b sz 0 (n - (sz - r))"
    using assms ring_slice_mod [of b sz sz] by simp
  ultimately show ?thesis
    using assms by (simp add: ring_slice_one_chunk)
qed

lemma length_ring_put [simp]:
  assumes "w \<le> sz" "length xs \<le> sz" "sz \<le> length b"
  shows "length (ring_put b sz w xs) = length b"
  using assms by (simp add: ring_put_def Let_def)

lemma nth_ring_put:
  assumes "w < sz" "length xs \<le> sz" "sz \<le> length b" "j < length b"
  shows "ring_put b sz w xs ! j =
    (if w \<le> j \<and> j < w + length xs \<and> j < sz then xs ! (j - w)
     else if j + sz < w + length xs then xs ! (j + sz - w) else b ! j)"
proof (cases "length xs \<le> sz - w")
  case True
  then have "ring_put b sz w xs = take w b @ xs @ drop (w + length xs) b"
    by (simp add: ring_put_def Let_def)
  moreover have "\<not> j + sz < w + length xs" "w + length xs \<le> sz"
    using True assms by auto
  ultimately show ?thesis
    using assms by (cases "j < w"; cases "j - w < length xs") (auto simp: nth_append)
next
  case False
  define k m where "k = sz - w" and "m = length xs - k"
  have eq: "ring_put b sz w xs = drop k xs @ take (w - m) (drop m b) @ take k xs @ drop sz b"
    using False by (simp add: ring_put_def Let_def k_def m_def)
  have facts: "length xs = k + m" "sz = w + k" "m \<le> w" "0 < k"
    using False assms by (auto simp: k_def m_def)
  then have len: "length (drop k xs) = m" "length (take (w - m) (drop m b)) = w - m"
    "length (take k xs) = k"
    using assms by auto
  consider "j < m" | "m \<le> j" "j < w" | "w \<le> j" "j < sz" | "sz \<le> j" by linarith
  then show ?thesis
  proof cases
    case 1
    then have "ring_put b sz w xs ! j = xs ! (k + j)" and "j + sz - w = k + j"
      unfolding eq using facts len by (simp_all add: nth_append)
    then show ?thesis using 1 facts by (simp add: add.commute)
  next
    case 2
    then have "\<not> j < m" "j - m < w - m" by simp_all
    then show ?thesis unfolding eq using 2 facts len assms by (simp add: nth_append)
  next
    case 3
    then have "\<not> j < m" "\<not> j - m < w - m" "j - m - (w - m) = j - w" "j - w < k"
      using facts by simp_all
    then show ?thesis unfolding eq using 3 facts len assms by (simp add: nth_append)
  next
    case 4
    then have "\<not> j < m" "\<not> j - m < w - m" "j - m - (w - m) = j - w" "\<not> j - w < k"
      using facts by simp_all
    then show ?thesis unfolding eq using 4 facts len assms by (simp add: nth_append)
  qed
qed

lemma ring_put_hit:
  assumes "w < sz" "length xs \<le> sz" "sz \<le> length b" "i < length xs"
  shows "ring_put b sz w xs ! ((w + i) mod sz) = xs ! i"
proof (cases "w + i < sz")
  case True
  with assms nth_ring_put [of w sz xs b "w + i"] show ?thesis by simp
next
  case False
  then have "\<not> w \<le> w + i - sz" "w + i - sz + sz - w = i" "w + i - sz + sz < w + length xs"
    using assms by auto
  with False assms nth_ring_put [of w sz xs b "w + i - sz"] ring_mod [of w sz i]
  show ?thesis by simp
qed

lemma ring_put_miss:
  assumes "r < sz" "n + length xs \<le> sz" "sz \<le> length b" "i < n"
  shows "ring_put b sz ((r + n) mod sz) xs ! ((r + i) mod sz) = b ! ((r + i) mod sz)"
proof -
  define w j where "w = (r + n) mod sz" and "j = (r + i) mod sz"
  have "w = (if r + n < sz then r + n else r + n - sz)"
    and "j = (if r + i < sz then r + i else r + i - sz)"
    using assms by (simp_all add: w_def j_def ring_mod)
  then have "w < sz" "j < length b" "\<not> (w \<le> j \<and> j < w + length xs)" "\<not> j + sz < w + length xs"
    using assms by (auto split: if_splits)
  with assms nth_ring_put [of w sz xs b j] show ?thesis
    unfolding w_def [symmetric] j_def [symmetric] by auto
qed

lemma ring_slice_put:
  assumes "w = (r + n) mod sz" and "r < sz" "n + length xs \<le> sz" "sz \<le> length b"
  shows "ring_slice (ring_put b sz w xs) sz r (n + length xs) = ring_slice b sz r n @ xs"
proof (rule nth_equalityI)
  fix i assume i: "i < length (ring_slice (ring_put b sz w xs) sz r (n + length xs))"
  show "ring_slice (ring_put b sz w xs) sz r (n + length xs) ! i = (ring_slice b sz r n @ xs) ! i"
  proof (cases "i < n")
    case True
    with assms show ?thesis
      by (simp add: ring_slice_def nth_append ring_put_miss)
  next
    case False
    have "(w + (i - n)) mod sz = (r + n + (i - n)) mod sz"
      by (simp only: assms(1) mod_add_left_eq)
    then have "(w + (i - n)) mod sz = (r + i) mod sz"
      using False by simp
    moreover have "w < sz" "i - n < length xs"
      using assms i False by auto
    ultimately show ?thesis
      using False i assms ring_put_hit [of w sz xs b "i - n"]
      by (simp add: ring_slice_def nth_append)
  qed
qed simp

text \<open>Writing more than fits, with the read index moved on by the same amount: the last
  \<open>m\<close> elements remain.\<close>

lemma ring_slice_overwrite:
  assumes w: "w = (r + m) mod sz" and "r < sz" "m \<le> sz" "length xs \<le> sz" "sz \<le> length b"
  shows "ring_slice (ring_put b sz w xs) sz (r + length xs) m =
    drop (length xs) (ring_slice b sz r m @ xs)"
proof (cases "length xs \<le> m")
  case True
  define r' where "r' = (r + length xs) mod sz"
  have "w = (r + length xs + (m - length xs)) mod sz"
    using True w by simp
  then have "w = (r' + (m - length xs)) mod sz"
    by (simp only: r'_def mod_add_left_eq)
  then have "ring_slice (ring_put b sz w xs) sz r' (m - length xs + length xs) =
      ring_slice b sz r' (m - length xs) @ xs"
    using assms True by (intro ring_slice_put) (simp_all add: r'_def)
  with True show ?thesis
    by (simp add: r'_def ring_slice_drop)
next
  case False
  have "w < sz" using assms by simp
  then have "ring_slice (ring_put b sz w xs) sz w (0 + length xs) = ring_slice b sz w 0 @ xs"
    using assms by (intro ring_slice_put) simp_all
  then have "drop (length xs - m) xs = ring_slice (ring_put b sz w xs) sz (w + (length xs - m)) m"
    using False ring_slice_drop [of "length xs - m" "length xs" "ring_put b sz w xs" sz w] by simp
  also have "\<dots> = ring_slice (ring_put b sz w xs) sz ((w + (length xs - m)) mod sz) m"
    by simp
  also have "(w + (length xs - m)) mod sz = (r + length xs) mod sz"
  proof -
    have "(w + (length xs - m)) mod sz = (r + m + (length xs - m)) mod sz"
      by (simp only: w mod_add_left_eq)
    with False show ?thesis by simp
  qed
  finally show ?thesis using False by simp
qed

text \<open>Prepending one element in front of a slice.\<close>

lemma ring_slice_front:
  assumes "p < sz" "m < sz" "sz \<le> length b"
  shows "ring_slice (b[p := x]) sz p (Suc m) = x # ring_slice b sz (Suc p) m"
proof (rule nth_equalityI)
  fix i assume i: "i < length (ring_slice (b[p := x]) sz p (Suc m))"
  have "(p + i) mod sz = p \<longleftrightarrow> i = 0"
    using ring_mod [of p sz i] assms i by auto
  then show "ring_slice (b[p := x]) sz p (Suc m) ! i = (x # ring_slice b sz (Suc p) m) ! i"
    using assms i by (cases i) (simp_all add: ring_slice_def del: upt_Suc)
qed simp

text \<open>Reading a slice out in two copies.\<close>

lemma ring_slice_chunks:
  assumes "r < sz" "n \<le> sz" "sz \<le> length b"
  shows "ring_slice b sz r n =
    (if n < sz - r then take n (drop r b) else take (sz - r) (drop r b) @ take (n - (sz - r)) b)"
  using assms ring_slice_one_chunk [of r n sz b] ring_slice_two_chunks [of r sz n b] by simp

text \<open>The copies \<open>memcpy\<close> splits at the end of the buffer, into and out of a ring.\<close>

lemma memcpy_into_ring:
  assumes "w < sz" "n \<le> sz" "sz \<le> length b" "n \<le> length e"
  shows "do { b1 \<leftarrow> memcpy b w e 0 (min n (sz - w));
              memcpy b1 0 e (min n (sz - w)) (n - min n (sz - w)) } =
    Some (ring_put b sz w (take n e))"
proof (cases "n \<le> sz - w")
  case True
  with assms show ?thesis
    by (simp add: ring_put_def mem_simps min_absorb1 min_absorb2)
next
  case False
  then have "take (n - (sz - w)) (drop (sz - w) e) = drop (sz - w) (take n e)"
    by (simp add: drop_take)
  with False assms show ?thesis
    by (simp add: ring_put_def mem_simps min_absorb1 min_absorb2 Let_def take_drop)
qed

lemma memcpy_from_ring:
  assumes "r < sz" "n \<le> sz" "sz \<le> length b" "n \<le> length d"
  shows "do { d1 \<leftarrow> memcpy d 0 b r (min n (sz - r));
              memcpy d1 (min n (sz - r)) b 0 (n - min n (sz - r)) } =
    Some (ring_slice b sz r n @ drop n d)"
proof (cases "n < sz - r")
  case True
  with assms show ?thesis
    by (simp add: mem_simps min_absorb1 min_absorb2 ring_slice_chunks)
next
  case False
  with assms show ?thesis
    by (simp add: mem_simps min_absorb1 min_absorb2 ring_slice_chunks)
qed

end
