(* ===== verification/Byte_Fifo.thy ===== *)
theory Byte_Fifo
  imports Lb_Prelude
begin

text \<open>
  The contract the firmware's byte queues offer to their clients, and what a client can
  conclude from it alone. Three implementations interpret the locale: the circle queue of
  \<^verbatim>\<open>utils/cqueue/cqueue.c\<close>, its copy for the coprocessor \<^verbatim>\<open>services/cp_accel/cp_queue.c\<close>
  and the free-running fifo of \<^verbatim>\<open>utils/kfifo/kfifo.c\<close>.

  \<open>put q xs\<close> offers the bytes \<open>xs\<close> and returns how many of them (a prefix) were accepted;
  \<open>get q n\<close> asks for \<open>n\<close> bytes and returns the ones delivered. \<open>None\<close> is undefined
  behaviour (an access outside the buffer), which the laws exclude.
\<close>

datatype fifo_op = Put "u8 list" | Get nat

fun fifo_run ::
  "('q \<Rightarrow> u8 list \<Rightarrow> ('q \<times> nat) option) \<Rightarrow> ('q \<Rightarrow> nat \<Rightarrow> ('q \<times> u8 list) option) \<Rightarrow>
   'q \<Rightarrow> fifo_op list \<Rightarrow> ('q \<times> u8 list \<times> u8 list) option" where
  "fifo_run put get q [] = Some (q, [], [])"
| "fifo_run put get q (Put xs # ops) = do {
     (q', n) \<leftarrow> put q xs;
     (q'', ins, outs) \<leftarrow> fifo_run put get q' ops;
     Some (q'', take n xs @ ins, outs) }"
| "fifo_run put get q (Get n # ops) = do {
     (q', ys) \<leftarrow> get q n;
     (q'', ins, outs) \<leftarrow> fifo_run put get q' ops;
     Some (q'', ins, ys @ outs) }"

text \<open>Requests of at least \<open>2 ^ 31\<close> bytes do not fit the C interface's signed lengths.\<close>

fun small_op :: "fifo_op \<Rightarrow> bool" where
  "small_op (Put xs) \<longleftrightarrow> length xs < 2 ^ 31"
| "small_op (Get n) \<longleftrightarrow> n < 2 ^ 31"

locale byte_fifo =
  fixes invar :: "'q \<Rightarrow> bool"
    and contents :: "'q \<Rightarrow> u8 list"
    and cap :: "'q \<Rightarrow> nat"
    and put :: "'q \<Rightarrow> u8 list \<Rightarrow> ('q \<times> nat) option"
    and get :: "'q \<Rightarrow> nat \<Rightarrow> ('q \<times> u8 list) option"
  assumes put_ok: "invar q \<Longrightarrow> length xs < 2 ^ 31 \<Longrightarrow>
      \<exists>q' n. put q xs = Some (q', n) \<and> invar q' \<and> cap q' = cap q \<and> n \<le> length xs \<and>
        contents q' = contents q @ take n xs"
    and get_ok: "invar q \<Longrightarrow> n < 2 ^ 31 \<Longrightarrow>
      \<exists>q' ys. get q n = Some (q', ys) \<and> invar q' \<and> cap q' = cap q \<and> length ys \<le> n \<and>
        contents q = ys @ contents q'"
    and bounded: "invar q \<Longrightarrow> length (contents q) \<le> cap q"
begin

lemma run_stream:
  assumes "invar q" "list_all small_op ops"
  shows "\<exists>q' ins outs. fifo_run put get q ops = Some (q', ins, outs) \<and> invar q' \<and>
    cap q' = cap q \<and> contents q @ ins = outs @ contents q'"
  using assms
proof (induction ops arbitrary: q)
  case Nil
  then show ?case by simp
next
  case (Cons x ops)
  show ?case
  proof (cases x)
    case (Put xs)
    with Cons.prems put_ok [of q xs] obtain q1 n where
      "put q xs = Some (q1, n)" "invar q1" "cap q1 = cap q" "contents q1 = contents q @ take n xs"
      by auto
    moreover with Cons.IH [of q1] Cons.prems obtain q2 ins outs where
      "fifo_run put get q1 ops = Some (q2, ins, outs)" "invar q2" "cap q2 = cap q1"
      "contents q1 @ ins = outs @ contents q2"
      by auto
    ultimately show ?thesis using Put by simp
  next
    case (Get n)
    with Cons.prems get_ok [of q n] obtain q1 ys where
      "get q n = Some (q1, ys)" "invar q1" "cap q1 = cap q" "contents q = ys @ contents q1"
      by auto
    moreover with Cons.IH [of q1] Cons.prems obtain q2 ins outs where
      "fifo_run put get q1 ops = Some (q2, ins, outs)" "invar q2" "cap q2 = cap q1"
      "contents q1 @ ins = outs @ contents q2"
      by auto
    ultimately show ?thesis using Get by simp
  qed
qed

text \<open>No byte is lost, reordered or invented, and at most \<open>cap\<close> bytes are in flight.\<close>

lemma stream_prefix:
  assumes "invar q" "contents q = []" "list_all small_op ops"
  shows "\<exists>q' ins outs. fifo_run put get q ops = Some (q', ins, outs) \<and>
    ins = outs @ contents q' \<and> length ins \<le> length outs + cap q"
proof -
  obtain q' ins outs where *: "fifo_run put get q ops = Some (q', ins, outs)" "invar q'"
    "cap q' = cap q" "contents q @ ins = outs @ contents q'"
    using run_stream [OF assms(1,3)] by blast
  with assms(2) bounded [of q'] show ?thesis by auto
qed

end

end
