(* ===== verification/Cqueue.thy ===== *)
theory Cqueue
  imports Byte_Fifo
begin

text \<open>
  \<^verbatim>\<open>utils/cqueue/cqueue.c\<close>: the circle queue of bytes. The four \<open>int\<close> fields are 32-bit
  words: additions and the comparisons of an \<open>int\<close> with an \<open>unsigned int\<close> are done
  unsigned in C; where both operands are \<open>int\<close> the model compares \<open>sint\<close>. \<open>base\<close> is \<open>None\<close>
  for a null pointer, else the buffer object. Operations return \<open>None\<close> where the C accesses
  memory outside an object.
\<close>

datatype cq_status = CQ_OK | CQ_ERR

record cqueue =
  cq_read :: u32
  cq_write :: u32
  cq_size :: u32
  cq_len :: u32
  cq_base :: "u8 list option"

definition InitCQueue :: "cqueue \<Rightarrow> u32 \<Rightarrow> u8 list option \<Rightarrow> cq_status \<times> cqueue" where
  "InitCQueue Q sz buf =
     (let Q = Q\<lparr>cq_size := sz, cq_base := buf, cq_len := 0\<rparr> in
      if cq_base Q = None then (CQ_ERR, Q)
      else (CQ_OK, Q\<lparr>cq_read := 0, cq_write := 0\<rparr>))"

definition IsEmptyCQueue :: "cqueue \<Rightarrow> cq_status" where
  "IsEmptyCQueue Q = (if cq_len Q = 0 then CQ_OK else CQ_ERR)"

definition LengthOfCQueue :: "cqueue \<Rightarrow> u32" where
  "LengthOfCQueue Q = cq_len Q"

definition AvailableOfCQueue :: "cqueue \<Rightarrow> u32" where
  "AvailableOfCQueue Q = cq_size Q - cq_len Q"

text \<open>The two copies of \<open>EnCQueue\<close> and \<open>EnCQueue_AI\<close>, up to the new write index.\<close>

definition cq_store :: "u8 list \<Rightarrow> u32 \<Rightarrow> u32 \<Rightarrow> u8 list \<Rightarrow> u32 \<Rightarrow> (u8 list \<times> u32) option" where
  "cq_store base sz write e len =
     (let bytesToTheEnd = sz - write in
      if len < bytesToTheEnd then do {
        b \<leftarrow> memcpy base (unat write) e 0 (unat len);
        Some (b, write + len) }
      else do {
        b \<leftarrow> memcpy base (unat write) e 0 (unat bytesToTheEnd);
        b \<leftarrow> memcpy b 0 e (unat bytesToTheEnd) (unat (len - bytesToTheEnd));
        Some (b, len - bytesToTheEnd) })"

definition EnCQueue :: "cqueue \<Rightarrow> u8 list \<Rightarrow> u32 \<Rightarrow> (cq_status \<times> cqueue) option" where
  "EnCQueue Q e len =
     (if AvailableOfCQueue Q < len then Some (CQ_ERR, Q)
      else do {
        let Q = Q\<lparr>cq_len := cq_len Q + len\<rparr>;
        base \<leftarrow> cq_base Q;
        (b, w) \<leftarrow> cq_store base (cq_size Q) (cq_write Q) e len;
        Some (CQ_OK, Q\<lparr>cq_base := Some b, cq_write := w\<rparr>) })"

definition EnCQueue_AI :: "cqueue \<Rightarrow> u8 list \<Rightarrow> u32 \<Rightarrow> (cq_status \<times> cqueue) option" where
  "EnCQueue_AI Q e len = do {
     let readBytesToTheEnd = cq_size Q - cq_read Q;
     let Q = (if AvailableOfCQueue Q < len then
                (if len < readBytesToTheEnd then Q\<lparr>cq_read := cq_read Q + len\<rparr>
                 else Q\<lparr>cq_read := len - readBytesToTheEnd\<rparr>)
              else Q\<lparr>cq_len := cq_len Q + len\<rparr>);
     base \<leftarrow> cq_base Q;
     (b, w) \<leftarrow> cq_store base (cq_size Q) (cq_write Q) e len;
     Some (CQ_OK, Q\<lparr>cq_base := Some b, cq_write := w\<rparr>) }"

text \<open>
  The backwards copy of \<open>EnCQueueFront\<close>: with \<open>n\<close> bytes left, \<open>*e\<close> is byte \<open>n - 1\<close> of the
  source.
\<close>

fun encqueue_front_loop :: "cqueue \<Rightarrow> u8 list \<Rightarrow> nat \<Rightarrow> cqueue option" where
  "encqueue_front_loop Q e 0 = Some Q"
| "encqueue_front_loop Q e (Suc n) = do {
     base \<leftarrow> cq_base Q;
     x \<leftarrow> mem_read e n 1;
     b \<leftarrow> mem_write base (unat (cq_read Q)) x;
     let r = cq_read Q - 1;
     let r = (if sint r < 0 then cq_size Q - 1 else r);
     encqueue_front_loop (Q\<lparr>cq_base := Some b, cq_read := r\<rparr>) e n }"

definition EnCQueueFront :: "cqueue \<Rightarrow> u8 list \<Rightarrow> u32 \<Rightarrow> (cq_status \<times> cqueue) option" where
  "EnCQueueFront Q e len =
     (if AvailableOfCQueue Q < len then Some (CQ_ERR, Q)
      else do {
        let Q = Q\<lparr>cq_len := cq_len Q + len\<rparr>;
        let Q = Q\<lparr>cq_read := (if cq_read Q = 0 then cq_size Q - 1 else cq_read Q - 1)\<rparr>;
        Q \<leftarrow> encqueue_front_loop Q e (unat len);
        Some (CQ_OK, Q\<lparr>cq_read := (if cq_read Q = cq_size Q - 1 then 0 else cq_read Q + 1)\<rparr>) })"

text \<open>\<open>e\<close> is the destination object, \<open>None\<close> when the caller passes \<open>NULL\<close> to drop bytes.\<close>

definition DeCQueue ::
  "cqueue \<Rightarrow> u8 list option \<Rightarrow> u32 \<Rightarrow> (cq_status \<times> cqueue \<times> u8 list option) option" where
  "DeCQueue Q e len =
     (if LengthOfCQueue Q < len then Some (CQ_ERR, Q, e)
      else
       (let Q = Q\<lparr>cq_len := cq_len Q - len\<rparr> in
        case e of
          Some dst \<Rightarrow> do {
            base \<leftarrow> cq_base Q;
            let bytesToTheEnd = cq_size Q - cq_read Q;
            if len < bytesToTheEnd then do {
              dst \<leftarrow> memcpy dst 0 base (unat (cq_read Q)) (unat len);
              Some (CQ_OK, Q\<lparr>cq_read := cq_read Q + len\<rparr>, Some dst) }
            else do {
              dst \<leftarrow> memcpy dst 0 base (unat (cq_read Q)) (unat bytesToTheEnd);
              dst \<leftarrow> memcpy dst (unat bytesToTheEnd) base 0 (unat (len - bytesToTheEnd));
              Some (CQ_OK, Q\<lparr>cq_read := len - bytesToTheEnd\<rparr>, Some dst) } }
        | None \<Rightarrow>
            (if 0 < sint (cq_size Q)
             then Some (CQ_OK, Q\<lparr>cq_read := (cq_read Q + len) mod cq_size Q\<rparr>, None)
             else Some (CQ_OK, Q\<lparr>cq_read := 0\<rparr>, None))))"

text \<open>The out parameters of \<open>PeekCQueue\<close>: pointers into \<open>base\<close> as offsets.\<close>

record cq_peek =
  pk_e1 :: "u32 option"
  pk_len1 :: u32
  pk_e2 :: "u32 option"
  pk_len2 :: u32

definition PeekCQueue :: "cqueue \<Rightarrow> u32 \<Rightarrow> cq_peek \<Rightarrow> cq_status \<times> cq_peek" where
  "PeekCQueue Q len_want out =
     (if LengthOfCQueue Q < len_want then (CQ_ERR, out)
      else
        (let out = out\<lparr>pk_e1 := Some (cq_read Q)\<rparr> in
         if sint (cq_read Q) < sint (cq_write Q) \<or> len_want \<le> cq_size Q - cq_read Q
         then (CQ_OK, out\<lparr>pk_len1 := len_want, pk_e2 := None, pk_len2 := 0\<rparr>)
         else
           (let len1 = cq_size Q - cq_read Q in
            (CQ_OK, out\<lparr>pk_len1 := len1, pk_e2 := Some 0, pk_len2 := len_want - len1\<rparr>))))"

text \<open>Reading \<open>n\<close> bytes at a pointer of \<open>PeekCQueue\<close>; nothing is read at \<open>NULL\<close>.\<close>

definition cq_at :: "cqueue \<Rightarrow> u32 option \<Rightarrow> u32 \<Rightarrow> u8 list option" where
  "cq_at Q p n =
     (case p of
        None \<Rightarrow> if n = 0 then Some [] else None
      | Some off \<Rightarrow> do { base \<leftarrow> cq_base Q; mem_read base (unat off) (unat n) })"

definition cq_peek_copy :: "cqueue \<Rightarrow> u8 list \<Rightarrow> cq_peek \<Rightarrow> u8 list option" where
  "cq_peek_copy Q e pk = do {
     x1 \<leftarrow> cq_at Q (pk_e1 pk) (pk_len1 pk);
     e \<leftarrow> mem_write e 0 x1;
     x2 \<leftarrow> cq_at Q (pk_e2 pk) (pk_len2 pk);
     mem_write e (unat (pk_len1 pk)) x2 }"

definition no_peek :: cq_peek where
  "no_peek = \<lparr>pk_e1 = None, pk_len1 = 0, pk_e2 = None, pk_len2 = 0\<rparr>"

definition PeekCQueueToBuf :: "cqueue \<Rightarrow> u8 list \<Rightarrow> u32 \<Rightarrow> (cq_status \<times> u8 list) option" where
  "PeekCQueueToBuf Q e len =
     (case PeekCQueue Q len no_peek of
        (CQ_OK, pk) \<Rightarrow>
          if len = pk_len1 pk + pk_len2 pk
          then do { e \<leftarrow> cq_peek_copy Q e pk; Some (CQ_OK, e) }
          else Some (CQ_ERR, e)
      | (CQ_ERR, pk) \<Rightarrow> Some (CQ_ERR, e))"

definition PullCQueue :: "cqueue \<Rightarrow> u8 list \<Rightarrow> u32 \<Rightarrow> (cq_status \<times> cqueue \<times> u8 list) option" where
  "PullCQueue Q e len =
     (case PeekCQueue Q len no_peek of
        (CQ_OK, pk) \<Rightarrow>
          if len = pk_len1 pk + pk_len2 pk
          then do {
            e \<leftarrow> cq_peek_copy Q e pk;
            (st, Q, x) \<leftarrow> DeCQueue Q None len;
            Some (CQ_OK, Q, e) }
          else Some (CQ_ERR, Q, e)
      | (CQ_ERR, pk) \<Rightarrow> Some (CQ_ERR, Q, e))"

definition ResetCQueue :: "cqueue \<Rightarrow> cqueue" where
  "ResetCQueue Q = Q\<lparr>cq_len := 0, cq_read := 0, cq_write := 0\<rparr>"

section \<open>Invariant and abstraction\<close>

definition cq_inv :: "cqueue \<Rightarrow> bool" where
  "cq_inv Q \<longleftrightarrow> (case cq_base Q of None \<Rightarrow> False | Some b \<Rightarrow>
     unat (cq_size Q) \<le> length b \<and> unat (cq_size Q) < 2 ^ 31 \<and>
     unat (cq_read Q) < unat (cq_size Q) \<and> unat (cq_len Q) \<le> unat (cq_size Q) \<and>
     unat (cq_write Q) = (unat (cq_read Q) + unat (cq_len Q)) mod unat (cq_size Q))"

definition cq_contents :: "cqueue \<Rightarrow> u8 list" where
  "cq_contents Q = (case cq_base Q of None \<Rightarrow> [] | Some b \<Rightarrow>
     ring_slice b (unat (cq_size Q)) (unat (cq_read Q)) (unat (cq_len Q)))"

text \<open>The invariant with the buffer named, and the facts it gives.\<close>

definition cq_rep :: "cqueue \<Rightarrow> u8 list \<Rightarrow> bool" where
  "cq_rep Q b \<longleftrightarrow> cq_base Q = Some b \<and> unat (cq_size Q) \<le> length b \<and>
     unat (cq_size Q) < 2 ^ 31 \<and> unat (cq_read Q) < unat (cq_size Q) \<and>
     unat (cq_len Q) \<le> unat (cq_size Q) \<and>
     unat (cq_write Q) = (unat (cq_read Q) + unat (cq_len Q)) mod unat (cq_size Q) \<and>
     unat (cq_write Q) < unat (cq_size Q) \<and>
     cq_contents Q = ring_slice b (unat (cq_size Q)) (unat (cq_read Q)) (unat (cq_len Q))"

lemma cq_invE:
  assumes "cq_inv Q"
  obtains b where "cq_rep Q b"
  using assms by (auto simp: cq_inv_def cq_contents_def cq_rep_def split: option.splits)

lemma cq_rep_inv: "cq_rep Q b \<Longrightarrow> cq_inv Q"
  by (simp add: cq_rep_def cq_inv_def)

lemma cq_repD:
  assumes "cq_rep Q b"
  shows "cq_base Q = Some b" "unat (cq_size Q) \<le> length b" "unat (cq_size Q) < 2 ^ 31"
    "unat (cq_read Q) < unat (cq_size Q)" "unat (cq_len Q) \<le> unat (cq_size Q)"
    "unat (cq_write Q) = (unat (cq_read Q) + unat (cq_len Q)) mod unat (cq_size Q)"
    "unat (cq_write Q) < unat (cq_size Q)"
    "cq_contents Q = ring_slice b (unat (cq_size Q)) (unat (cq_read Q)) (unat (cq_len Q))"
  using assms by (simp_all add: cq_rep_def)

lemma length_cq_contents: "cq_inv Q \<Longrightarrow> length (cq_contents Q) = unat (cq_len Q)"
  by (erule cq_invE) (simp add: cq_rep_def)

lemma AvailableOfCQueue_unat:
  "cq_inv Q \<Longrightarrow> unat (AvailableOfCQueue Q) = unat (cq_size Q) - unat (cq_len Q)"
  by (erule cq_invE) (simp add: AvailableOfCQueue_def unat_sub_small cq_rep_def)

lemma ring_wrap:
  fixes w n sz :: nat
  assumes "w < sz" "n \<le> sz"
  shows "(w + n) mod sz = (if n < sz - w then w + n else n - (sz - w))"
  using ring_mod [OF assms] assms by auto

lemma cq_store_spec:
  assumes "unat write < unat sz" "unat sz < 2 ^ 31" "unat len \<le> unat sz"
    "unat sz \<le> length base" "unat len \<le> length e"
  shows "\<exists>w. cq_store base sz write e len =
      Some (ring_put base (unat sz) (unat write) (take (unat len) e), w) \<and>
    unat w = (unat write + unat len) mod unat sz"
proof -
  have k: "unat (sz - write) = unat sz - unat write"
    using assms by (simp add: unat_sub_small)
  show ?thesis
  proof (cases "len < sz - write")
    case True
    then have lt: "unat len < unat sz - unat write"
      by (simp add: word_less_nat_alt k)
    then have "unat (write + len) = unat write + unat len"
      using assms by (intro unat_add_small) simp
    with True lt assms show ?thesis
      by (simp add: cq_store_def Let_def mem_simps ring_put_def min_absorb2)
  next
    case False
    then have ge: "unat sz - unat write \<le> unat len"
      by (simp add: word_less_nat_alt k)
    then have d: "unat (len - (sz - write)) = unat len - (unat sz - unat write)"
      by (simp add: unat_sub_small k)
    have "take (unat len - (unat sz - unat write)) (drop (unat sz - unat write) e) =
        drop (unat sz - unat write) (take (unat len) e)"
      by (simp add: drop_take)
    with False ge d assms k show ?thesis
      by (simp add: cq_store_def Let_def mem_simps ring_put_def min_absorb2 min_absorb1 ring_wrap take_drop)
  qed
qed

lemma cq_full_cases:
  assumes "cq_inv Q"
  shows "AvailableOfCQueue Q < len \<longleftrightarrow> unat (cq_size Q) < unat (cq_len Q) + unat len"
  using AvailableOfCQueue_unat [OF assms] assms
  by (auto simp: word_less_nat_alt cq_rep_def elim!: cq_invE)

lemma EnCQueue_full:
  "cq_inv Q \<Longrightarrow> unat (cq_size Q) < unat (cq_len Q) + unat len \<Longrightarrow> EnCQueue Q e len = Some (CQ_ERR, Q)"
  by (simp add: EnCQueue_def cq_full_cases)

lemma EnCQueue_ok:
  assumes inv: "cq_inv Q" and fits: "unat (cq_len Q) + unat len \<le> unat (cq_size Q)"
    and e: "unat len \<le> length e"
  shows "\<exists>Q'. EnCQueue Q e len = Some (CQ_OK, Q') \<and> cq_inv Q' \<and> cq_size Q' = cq_size Q \<and>
    cq_contents Q' = cq_contents Q @ take (unat len) e"
proof -
  obtain b where "cq_rep Q b"
    using inv by (rule cq_invE)
  note b = cq_repD [OF this]
  obtain w where w: "cq_store b (cq_size Q) (cq_write Q) e len =
      Some (ring_put b (unat (cq_size Q)) (unat (cq_write Q)) (take (unat len) e), w)"
    "unat w = (unat (cq_write Q) + unat len) mod unat (cq_size Q)"
    using cq_store_spec [of "cq_write Q" "cq_size Q" len b e] b fits e by auto
  have l: "unat (cq_len Q + len) = unat (cq_len Q) + unat len"
    using fits b by (intro unat_add_small) simp
  define Q' where "Q' = Q\<lparr>cq_len := cq_len Q + len,
    cq_base := Some (ring_put b (unat (cq_size Q)) (unat (cq_write Q)) (take (unat len) e)),
    cq_write := w\<rparr>"
  have "EnCQueue Q e len = Some (CQ_OK, Q')"
    using inv fits b(1) w(1) by (simp add: EnCQueue_def cq_full_cases Q'_def Let_def)
  moreover have "cq_inv Q'"
    using b w l fits e by (simp add: Q'_def cq_inv_def mod_add_left_eq add.assoc)
  moreover have "cq_contents Q' = cq_contents Q @ take (unat len) e"
    using b l fits e ring_slice_put [of "unat (cq_write Q)" "unat (cq_read Q)" "unat (cq_len Q)"
        "unat (cq_size Q)" "take (unat len) e" b]
    by (simp add: Q'_def cq_contents_def min_absorb2)
  ultimately show ?thesis by (auto simp: Q'_def)
qed

lemma EnCQueue_AI_overrun:
  assumes inv: "cq_inv Q" and over: "unat (cq_size Q) < unat (cq_len Q) + unat len"
    and len: "unat len \<le> unat (cq_size Q)" and e: "unat len \<le> length e"
  shows "\<exists>Q'. EnCQueue_AI Q e len = Some (CQ_OK, Q') \<and> cq_inv Q' \<and> cq_size Q' = cq_size Q \<and>
    cq_len Q' = cq_len Q \<and>
    cq_contents Q' = drop (unat len) (cq_contents Q @ take (unat len) e)"
proof -
  obtain b where "cq_rep Q b"
    using inv by (rule cq_invE)
  note b = cq_repD [OF this]
  obtain w where w: "cq_store b (cq_size Q) (cq_write Q) e len =
      Some (ring_put b (unat (cq_size Q)) (unat (cq_write Q)) (take (unat len) e), w)"
    "unat w = (unat (cq_write Q) + unat len) mod unat (cq_size Q)"
    using cq_store_spec [of "cq_write Q" "cq_size Q" len b e] b len e by auto
  define r where "r = (if len < cq_size Q - cq_read Q then cq_read Q + len
    else len - (cq_size Q - cq_read Q))"
  have k: "unat (cq_size Q - cq_read Q) = unat (cq_size Q) - unat (cq_read Q)"
    using b by (simp add: unat_sub_small)
  have r: "unat r = (unat (cq_read Q) + unat len) mod unat (cq_size Q)"
    using b len ring_wrap [of "unat (cq_read Q)" "unat (cq_size Q)" "unat len"]
    by (auto simp: r_def word_less_nat_alt k unat_sub_small unat_add_small)
  define Q' where "Q' = Q\<lparr>cq_read := r,
    cq_base := Some (ring_put b (unat (cq_size Q)) (unat (cq_write Q)) (take (unat len) e)),
    cq_write := w\<rparr>"
  have "EnCQueue_AI Q e len = Some (CQ_OK, Q')"
    using inv over b(1) w(1) by (simp add: EnCQueue_AI_def cq_full_cases Q'_def Let_def r_def)
  moreover have "cq_inv Q'"
    using b w r len e by (simp add: Q'_def cq_inv_def mod_add_left_eq mod_add_right_eq ac_simps)
  moreover have "cq_contents Q' = drop (unat len) (cq_contents Q @ take (unat len) e)"
    using b r len e ring_slice_overwrite [of "unat (cq_write Q)" "unat (cq_read Q)"
        "unat (cq_len Q)" "unat (cq_size Q)" "take (unat len) e" b]
    by (simp add: Q'_def cq_contents_def min_absorb2)
  ultimately show ?thesis by (auto simp: Q'_def)
qed

lemma prev_slot:
  fixes r sz :: u32
  assumes "unat r < unat sz"
  shows "unat (if r = 0 then sz - 1 else r - 1) < unat sz"
    "unat r = Suc (unat (if r = 0 then sz - 1 else r - 1)) mod unat sz"
proof -
  have "unat (if r = 0 then sz - 1 else r - 1) = (if unat r = 0 then unat sz - 1 else unat r - 1)"
    using assms by (cases "r = 0") (simp_all add: unat_sub_small unat_eq_zero Suc_le_eq unat_gt_0)
  with assms show "unat (if r = 0 then sz - 1 else r - 1) < unat sz"
    "unat r = Suc (unat (if r = 0 then sz - 1 else r - 1)) mod unat sz"
    by auto
qed

lemma encqueue_front_loop_spec:
  assumes "cq_base Q = Some b" "unat (cq_size Q) \<le> length b" "unat (cq_size Q) < 2 ^ 31"
    "unat (cq_read Q) < unat (cq_size Q)" "n + m \<le> unat (cq_size Q)" "n \<le> length e"
  shows "\<exists>b' r. encqueue_front_loop Q e n = Some (Q\<lparr>cq_base := Some b', cq_read := r\<rparr>) \<and>
    length b' = length b \<and> unat r < unat (cq_size Q) \<and>
    unat (cq_read Q) = (unat r + n) mod unat (cq_size Q) \<and>
    ring_slice b' (unat (cq_size Q)) (Suc (unat r)) (n + m) =
      take n e @ ring_slice b (unat (cq_size Q)) (Suc (unat (cq_read Q))) m"
  using assms
proof (induction n arbitrary: Q b m)
  case 0
  then show ?case
    by (intro exI [of _ b] exI [of _ "cq_read Q"]) simp
next
  case (Suc n)
  let ?sz = "unat (cq_size Q)" and ?p = "unat (cq_read Q)"
  define r1 where "r1 = (if sint (cq_read Q - 1) < 0 then cq_size Q - 1 else cq_read Q - 1)"
  have r1: "unat r1 = (if ?p = 0 then ?sz - 1 else ?p - 1)"
  proof (cases "?p = 0")
    case True
    then have "cq_read Q = 0" by (simp add: unat_eq_zero)
    with True Suc.prems show ?thesis by (simp add: r1_def unat_sub_small)
  next
    case False
    then have "unat (cq_read Q - 1) = ?p - 1" by (simp add: unat_sub_small)
    moreover from this have "sint (cq_read Q - 1) = int (unat (cq_read Q - 1))"
      using Suc.prems by (intro sint_eq_unat) simp
    then have "\<not> sint (cq_read Q - 1) < 0"
      by (simp only: of_nat_less_0_iff simp_thms)
    ultimately show ?thesis using False by (simp add: r1_def)
  qed
  then have r1lt: "unat r1 < ?sz"
    using Suc.prems by auto
  define b1 where "b1 = b[?p := e ! n]"
  define Q1 where "Q1 = Q\<lparr>cq_base := Some b1, cq_read := r1\<rparr>"
  have step: "encqueue_front_loop Q e (Suc n) = encqueue_front_loop Q1 e n"
    using Suc.prems
    by (simp add: mem_simps Q1_def b1_def r1_def Let_def upd_conv_take_nth_drop take_Suc_conv_app_nth
        Cons_nth_drop_Suc [symmetric])
  obtain b' r where IH: "encqueue_front_loop Q1 e n = Some (Q1\<lparr>cq_base := Some b', cq_read := r\<rparr>)"
    "length b' = length b1" "unat r < ?sz" "unat r1 = (unat r + n) mod ?sz"
    "ring_slice b' ?sz (Suc (unat r)) (n + Suc m) = take n e @ ring_slice b1 ?sz (Suc (unat r1)) (Suc m)"
    using Suc.IH [of Q1 b1 "Suc m"] Suc.prems r1lt by (auto simp: Q1_def b1_def)
  have p: "?p = Suc (unat r1) mod ?sz"
    using r1 Suc.prems by auto
  have "ring_slice b1 ?sz (Suc (unat r1)) (Suc m) = ring_slice b1 ?sz ?p (Suc m)"
    by (simp add: p)
  also have "\<dots> = e ! n # ring_slice b ?sz (Suc ?p) m"
    unfolding b1_def using Suc.prems by (intro ring_slice_front) simp_all
  finally have "ring_slice b' ?sz (Suc (unat r)) (Suc n + m) =
      take (Suc n) e @ ring_slice b ?sz (Suc ?p) m"
    using IH(5) Suc.prems by (simp add: take_Suc_conv_app_nth)
  moreover have "?p = (unat r + Suc n) mod ?sz"
    using p IH(4) by (simp add: mod_Suc_eq)
  ultimately show ?case
    unfolding step IH(1) using IH(2,3)
    by (intro exI [of _ b'] exI [of _ r]) (simp add: Q1_def b1_def)
qed

lemma EnCQueueFront_full:
  "cq_inv Q \<Longrightarrow> unat (cq_size Q) < unat (cq_len Q) + unat len \<Longrightarrow>
   EnCQueueFront Q e len = Some (CQ_ERR, Q)"
  by (simp add: EnCQueueFront_def cq_full_cases)

lemma EnCQueueFront_ok:
  assumes inv: "cq_inv Q" and fits: "unat (cq_len Q) + unat len \<le> unat (cq_size Q)"
    and e: "unat len \<le> length e"
  shows "\<exists>Q'. EnCQueueFront Q e len = Some (CQ_OK, Q') \<and> cq_inv Q' \<and> cq_size Q' = cq_size Q \<and>
    cq_contents Q' = take (unat len) e @ cq_contents Q"
proof -
  obtain b where "cq_rep Q b"
    using inv by (rule cq_invE)
  note b = cq_repD [OF this]
  let ?sz = "unat (cq_size Q)"
  define r0 where "r0 = (if cq_read Q = 0 then cq_size Q - 1 else cq_read Q - 1)"
  have r0: "unat r0 < ?sz" "unat (cq_read Q) = Suc (unat r0) mod ?sz"
    using prev_slot [OF b(4)] by (simp_all add: r0_def)
  define Q1 where "Q1 = Q\<lparr>cq_len := cq_len Q + len, cq_read := r0\<rparr>"
  obtain b' r where loop: "encqueue_front_loop Q1 e (unat len) = Some (Q1\<lparr>cq_base := Some b', cq_read := r\<rparr>)"
    "length b' = length b" "unat r < ?sz" "unat r0 = (unat r + unat len) mod ?sz"
    "ring_slice b' ?sz (Suc (unat r)) (unat len + unat (cq_len Q)) =
      take (unat len) e @ ring_slice b ?sz (Suc (unat r0)) (unat (cq_len Q))"
    using encqueue_front_loop_spec [of Q1 b "unat len" "unat (cq_len Q)" e] b r0 fits e
    by (auto simp: Q1_def)
  define r' where "r' = (if r = cq_size Q - 1 then 0 else r + 1)"
  have r': "unat r' = Suc (unat r) mod ?sz"
  proof (cases "r = cq_size Q - 1")
    case True
    then have "Suc (unat r) = ?sz" using b by (simp add: unat_sub_small)
    with True show ?thesis by (simp add: r'_def)
  next
    case False
    have "unat (cq_size Q - 1) = ?sz - 1"
      using b by (simp add: unat_sub_small)
    with False have "unat r \<noteq> ?sz - 1"
      by (metis unsigned_word_eqI)
    with False loop(3) b show ?thesis by (simp add: r'_def unat_add_small)
  qed
  have l: "unat (cq_len Q + len) = unat (cq_len Q) + unat len"
    using fits b by (intro unat_add_small) simp
  define Q' where "Q' = Q\<lparr>cq_len := cq_len Q + len, cq_base := Some b', cq_read := r'\<rparr>"
  have "EnCQueueFront Q e len = do {
      Q \<leftarrow> encqueue_front_loop Q1 e (unat len);
      Some (CQ_OK, Q\<lparr>cq_read := (if cq_read Q = cq_size Q - 1 then 0 else cq_read Q + 1)\<rparr>) }"
    unfolding EnCQueueFront_def Q1_def r0_def using inv fits by (simp add: cq_full_cases Let_def)
  then have "EnCQueueFront Q e len = Some (CQ_OK, Q')"
    unfolding loop(1) by (simp add: Q1_def Q'_def r'_def)
  moreover have "unat (cq_write Q) = (unat r' + (unat (cq_len Q) + unat len)) mod ?sz"
  proof -
    have "(unat r' + (unat (cq_len Q) + unat len)) mod ?sz =
        (Suc (unat r + unat len) + unat (cq_len Q)) mod ?sz"
      unfolding r' mod_add_left_eq by (simp add: ac_simps)
    also have "\<dots> = (Suc (unat r + unat len) mod ?sz + unat (cq_len Q)) mod ?sz"
      by (simp only: mod_add_left_eq)
    also have "Suc (unat r + unat len) mod ?sz = unat (cq_read Q)"
      using r0(2) loop(4) by (simp add: mod_Suc_eq)
    finally show ?thesis using b(6) by simp
  qed
  then have "cq_inv Q'"
    using b loop(2,3) l fits r' by (simp add: cq_inv_def Q'_def)
  moreover have "cq_contents Q' = take (unat len) e @ cq_contents Q"
    using loop(5) b r0(2) ring_slice_mod [of b ?sz "Suc (unat r0)" "unat (cq_len Q)"]
    by (simp add: cq_contents_def Q'_def r' l add.commute [of "unat len"])
  ultimately show ?thesis by (auto simp: Q'_def)
qed

lemma DeCQueue_short:
  "cq_inv Q \<Longrightarrow> unat (cq_len Q) < unat len \<Longrightarrow> DeCQueue Q e len = Some (CQ_ERR, Q, e)"
  by (simp add: DeCQueue_def LengthOfCQueue_def word_less_nat_alt)

lemma DeCQueue_ok:
  assumes inv: "cq_inv Q" and fits: "unat len \<le> unat (cq_len Q)"
    and dst: "\<And>d. e = Some d \<Longrightarrow> unat len \<le> length d"
  shows "\<exists>Q'. DeCQueue Q e len = Some (CQ_OK, Q',
      map_option (\<lambda>d. take (unat len) (cq_contents Q) @ drop (unat len) d) e) \<and>
    Q' = Q\<lparr>cq_len := cq_len Q - len, cq_read := (cq_read Q + len) mod cq_size Q\<rparr> \<and>
    cq_inv Q' \<and> cq_size Q' = cq_size Q \<and> cq_contents Q' = drop (unat len) (cq_contents Q)"
proof -
  obtain b where "cq_rep Q b"
    using inv by (rule cq_invE)
  note b = cq_repD [OF this]
  let ?sz = "unat (cq_size Q)" and ?r = "unat (cq_read Q)" and ?n = "unat len"
  have k: "unat (cq_size Q - cq_read Q) = ?sz - ?r"
    using b by (simp add: unat_sub_small)
  have l: "unat (cq_len Q - len) = unat (cq_len Q) - ?n"
    using fits by (simp add: unat_sub_small)
  have nolt: "\<not> cq_len Q < len"
    using fits by (simp add: word_less_nat_alt)
  define r' where "r' = (if e = None then (cq_read Q + len) mod cq_size Q
    else if len < cq_size Q - cq_read Q then cq_read Q + len else len - (cq_size Q - cq_read Q))"
  have "sint (cq_size Q) = int ?sz"
    by (rule sint_eq_unat [OF b(3)])
  moreover have "0 < ?sz"
    using b(4) by (rule le_less_trans [OF le0])
  ultimately have pos: "0 < sint (cq_size Q)"
    by (simp only: of_nat_0_less_iff)
  have r': "unat r' = (?r + ?n) mod ?sz"
    using b fits ring_wrap [of ?r ?sz ?n]
    by (auto simp: r'_def word_less_nat_alt k unat_sub_small unat_add_small unat_mod)
  have r'_eq: "r' = (cq_read Q + len) mod cq_size Q"
    using r' b fits by (simp add: word_unat_eq_iff unat_mod unat_add_small)
  define Q' where "Q' = Q\<lparr>cq_len := cq_len Q - len, cq_read := r'\<rparr>"
  have "DeCQueue Q e len = Some (CQ_OK, Q',
      map_option (\<lambda>d. take ?n (cq_contents Q) @ drop ?n d) e)"
  proof (cases e)
    case None
    with nolt pos show ?thesis
      by (simp add: DeCQueue_def LengthOfCQueue_def Let_def Q'_def r'_def)
  next
    case (Some d)
    have t: "take ?n (cq_contents Q) = ring_slice b ?sz ?r ?n"
      using b fits by (simp add: ring_slice_take)
    have ch: "ring_slice b ?sz ?r ?n = (if ?n < ?sz - ?r then take ?n (drop ?r b)
        else take (?sz - ?r) (drop ?r b) @ take (?n - (?sz - ?r)) b)"
      using b fits by (intro ring_slice_chunks) simp_all
    show ?thesis
    proof (cases "len < cq_size Q - cq_read Q")
      case True
      then have "?n < ?sz - ?r" by (simp add: word_less_nat_alt k)
      with True Some nolt b(1,2,4) dst t ch show ?thesis
        by (simp add: DeCQueue_def LengthOfCQueue_def Let_def Q'_def r'_def mem_simps)
    next
      case False
      then have "\<not> ?n < ?sz - ?r" by (simp add: word_less_nat_alt k)
      moreover from this have "unat (len - (cq_size Q - cq_read Q)) = ?n - (?sz - ?r)"
        by (simp add: unat_sub_small k)
      ultimately show ?thesis
        using False Some nolt b(1,2,4,5) dst t ch k fits
        by (simp add: DeCQueue_def LengthOfCQueue_def Let_def Q'_def r'_def mem_simps)
    qed
  qed
  moreover have "cq_inv Q'"
  proof -
    have "(unat r' + (unat (cq_len Q) - ?n)) mod ?sz = (?r + ?n + (unat (cq_len Q) - ?n)) mod ?sz"
      by (simp only: r' mod_add_left_eq)
    then have "unat (cq_write Q) = (unat r' + (unat (cq_len Q) - ?n)) mod ?sz"
      using b(6) fits by simp
    moreover have "unat r' < ?sz" "unat (cq_len Q) - ?n \<le> ?sz"
      using b(4,5) r' by simp_all
    ultimately show ?thesis
      using b(1-3) l by (simp add: cq_inv_def Q'_def)
  qed
  moreover have "cq_contents Q' = drop ?n (cq_contents Q)"
    using b fits l r' by (simp add: cq_contents_def Q'_def ring_slice_drop)
  ultimately show ?thesis
    by (intro exI [of _ Q']) (simp add: Q'_def flip: r'_eq)
qed

lemma PeekCQueue_ok:
  assumes inv: "cq_inv Q" and fits: "unat len \<le> unat (cq_len Q)"
  shows "\<exists>pk x1 x2. PeekCQueue Q len out = (CQ_OK, pk) \<and> len = pk_len1 pk + pk_len2 pk \<and>
    cq_at Q (pk_e1 pk) (pk_len1 pk) = Some x1 \<and> cq_at Q (pk_e2 pk) (pk_len2 pk) = Some x2 \<and>
    length x1 = unat (pk_len1 pk) \<and> x1 @ x2 = take (unat len) (cq_contents Q)"
proof -
  obtain b where "cq_rep Q b"
    using inv by (rule cq_invE)
  note b = cq_repD [OF this]
  let ?sz = "unat (cq_size Q)" and ?r = "unat (cq_read Q)" and ?n = "unat len"
  have k: "unat (cq_size Q - cq_read Q) = ?sz - ?r"
    using b by (simp add: unat_sub_small)
  have nolt: "\<not> cq_len Q < len"
    using fits by (simp add: word_less_nat_alt)
  have t: "take ?n (cq_contents Q) = ring_slice b ?sz ?r ?n"
    using b fits by (simp add: ring_slice_take)
  have "sint (cq_read Q) = int ?r" "sint (cq_write Q) = int (unat (cq_write Q))"
    using b(3,4,7) by (auto intro: sint_eq_unat simp del: of_nat_unat)
  then have less: "sint (cq_read Q) < sint (cq_write Q) \<longleftrightarrow> ?r < unat (cq_write Q)"
    by (simp only: of_nat_less_iff)
  have one: "?n \<le> ?sz - ?r" if "?r < unat (cq_write Q)"
  proof (rule ccontr)
    assume "\<not> ?n \<le> ?sz - ?r"
    then have "unat (cq_write Q) = ?r + unat (cq_len Q) - ?sz"
      using b fits ring_mod [of ?r ?sz "unat (cq_len Q)"] by simp
    with that b(5) show False by simp
  qed
  show ?thesis
  proof (cases "?n \<le> ?sz - ?r")
    case True
    then have "ring_slice b ?sz ?r ?n = take ?n (drop ?r b)"
      using b by (intro ring_slice_one_chunk) simp_all
    with True nolt b(1,2,4) t k show ?thesis
      by (simp add: PeekCQueue_def LengthOfCQueue_def Let_def cq_at_def mem_simps word_le_nat_alt
          min_absorb2)
  next
    case False
    then have d: "unat (len - (cq_size Q - cq_read Q)) = ?n - (?sz - ?r)"
      by (simp add: unat_sub_small k)
    have "ring_slice b ?sz ?r ?n = take (?sz - ?r) (drop ?r b) @ take (?n - (?sz - ?r)) b"
      using False b fits by (intro ring_slice_two_chunks) simp_all
    moreover have "\<not> ?r < unat (cq_write Q)"
      using False one by blast
    ultimately show ?thesis
      using False nolt b(1,2,4,5) fits t k d less
      by (simp add: PeekCQueue_def LengthOfCQueue_def Let_def cq_at_def mem_simps word_le_nat_alt
          min_absorb2)
  qed
qed

lemma PeekCQueue_short:
  "unat (cq_len Q) < unat len \<Longrightarrow> PeekCQueue Q len out = (CQ_ERR, out)"
  by (simp add: PeekCQueue_def LengthOfCQueue_def word_less_nat_alt)

lemma PeekCQueueToBuf_ok:
  assumes "cq_inv Q" "unat len \<le> unat (cq_len Q)" "unat len \<le> length e"
  shows "PeekCQueueToBuf Q e len = Some (CQ_OK, take (unat len) (cq_contents Q) @ drop (unat len) e)"
proof -
  obtain pk x1 x2 where pk: "PeekCQueue Q len no_peek = (CQ_OK, pk)" "len = pk_len1 pk + pk_len2 pk"
    "cq_at Q (pk_e1 pk) (pk_len1 pk) = Some x1" "cq_at Q (pk_e2 pk) (pk_len2 pk) = Some x2"
    "length x1 = unat (pk_len1 pk)" "x1 @ x2 = take (unat len) (cq_contents Q)"
    using PeekCQueue_ok [OF assms(1,2)] by blast
  from pk(6) have l: "length x1 + length x2 = unat len"
    using assms(2) length_cq_contents [OF assms(1)] by (metis length_append length_take min.absorb2)
  then have "cq_peek_copy Q e pk = Some ((x1 @ x2) @ drop (unat len) e)"
    using pk(3-5) assms(3) by (simp add: cq_peek_copy_def mem_simps add.commute)
  with pk(1,2,6) show ?thesis by (simp add: PeekCQueueToBuf_def)
qed

lemma PullCQueue_ok:
  assumes "cq_inv Q" "unat len \<le> unat (cq_len Q)" "unat len \<le> length e"
  shows "\<exists>Q'. PullCQueue Q e len = Some (CQ_OK, Q', take (unat len) (cq_contents Q) @ drop (unat len) e) \<and>
    Q' = Q\<lparr>cq_len := cq_len Q - len, cq_read := (cq_read Q + len) mod cq_size Q\<rparr> \<and>
    cq_inv Q' \<and> cq_size Q' = cq_size Q \<and> cq_contents Q' = drop (unat len) (cq_contents Q)"
proof -
  obtain pk where pk: "PeekCQueue Q len no_peek = (CQ_OK, pk)" "len = pk_len1 pk + pk_len2 pk"
    using PeekCQueue_ok [OF assms(1,2)] by blast
  with PeekCQueueToBuf_ok [OF assms]
  have "cq_peek_copy Q e pk = Some (take (unat len) (cq_contents Q) @ drop (unat len) e)"
    by (auto simp: PeekCQueueToBuf_def bind_simps)
  moreover obtain Q' where "DeCQueue Q None len = Some (CQ_OK, Q', None)"
    "Q' = Q\<lparr>cq_len := cq_len Q - len, cq_read := (cq_read Q + len) mod cq_size Q\<rparr>"
    "cq_inv Q'" "cq_size Q' = cq_size Q" "cq_contents Q' = drop (unat len) (cq_contents Q)"
    using DeCQueue_ok [OF assms(1,2), of None] by auto
  ultimately show ?thesis using pk by (simp add: PullCQueue_def)
qed

lemma ResetCQueue_inv: "cq_inv Q \<Longrightarrow> cq_inv (ResetCQueue Q) \<and> cq_contents (ResetCQueue Q) = []"
  by (auto simp: cq_inv_def cq_contents_def ResetCQueue_def split: option.splits)

lemma InitCQueue_inv:
  assumes "0 < unat sz" "unat sz < 2 ^ 31" "unat sz \<le> length b"
  shows "\<exists>Q'. InitCQueue Q sz (Some b) = (CQ_OK, Q') \<and> cq_inv Q' \<and> cq_contents Q' = [] \<and>
    cq_size Q' = sz"
  using assms by (simp add: InitCQueue_def cq_inv_def cq_contents_def Let_def)

section \<open>The queue as a byte fifo\<close>

definition cq_put :: "cqueue \<Rightarrow> u8 list \<Rightarrow> (cqueue \<times> nat) option" where
  "cq_put Q xs = do {
     (st, Q') \<leftarrow> EnCQueue Q xs (word_of_nat (length xs));
     Some (Q', if st = CQ_OK then length xs else 0) }"

definition cq_get :: "cqueue \<Rightarrow> nat \<Rightarrow> (cqueue \<times> u8 list) option" where
  "cq_get Q n = do {
     (st, Q', e) \<leftarrow> PullCQueue Q (replicate n 0) (word_of_nat n);
     Some (Q', if st = CQ_OK then e else []) }"

lemma unat_of_nat_small: "n < 2 ^ 31 \<Longrightarrow> unat (word_of_nat n :: u32) = n"
  by (simp add: unat_of_nat)

interpretation cq: byte_fifo cq_inv cq_contents "\<lambda>Q. unat (cq_size Q)" cq_put cq_get
proof
  fix Q and xs :: "u8 list"
  assume Q: "cq_inv Q" and xs: "length xs < 2 ^ 31"
  let ?l = "word_of_nat (length xs) :: u32"
  have l: "unat ?l = length xs" using xs by (rule unat_of_nat_small)
  show "\<exists>Q' n. cq_put Q xs = Some (Q', n) \<and> cq_inv Q' \<and> unat (cq_size Q') = unat (cq_size Q) \<and>
      n \<le> length xs \<and> cq_contents Q' = cq_contents Q @ take n xs"
  proof (cases "unat (cq_len Q) + unat ?l \<le> unat (cq_size Q)")
    case True
    with EnCQueue_ok [OF Q True, of xs] l show ?thesis by (auto simp: cq_put_def)
  next
    case False
    with EnCQueue_full [OF Q] Q show ?thesis by (simp add: cq_put_def)
  qed
next
  fix Q n
  assume Q: "cq_inv Q" and n: "n < (2::nat) ^ 31"
  have l: "unat (word_of_nat n :: u32) = n" using n by (rule unat_of_nat_small)
  show "\<exists>Q' ys. cq_get Q n = Some (Q', ys) \<and> cq_inv Q' \<and> unat (cq_size Q') = unat (cq_size Q) \<and>
      length ys \<le> n \<and> cq_contents Q = ys @ cq_contents Q'"
  proof (cases "n \<le> unat (cq_len Q)")
    case True
    with PullCQueue_ok [OF Q, of "word_of_nat n" "replicate n 0"] l show ?thesis
      by (auto simp: cq_get_def)
  next
    case False
    with Q l show ?thesis by (simp add: cq_get_def PullCQueue_def PeekCQueue_short)
  qed
next
  fix Q assume "cq_inv Q"
  then show "length (cq_contents Q) \<le> unat (cq_size Q)"
    by (auto simp: length_cq_contents cq_rep_def elim!: cq_invE)
qed

section \<open>Properties\<close>

definition cq_example :: cqueue where
  "cq_example = \<lparr>cq_read = 2, cq_write = 1, cq_size = 4, cq_len = 3, cq_base = Some [30, 0, 10, 20]\<rparr>"

lemma cq_example_facts: "cq_inv cq_example" "cq_contents cq_example = [10, 20, 30]"
  "unat (cq_len cq_example) = 3" "unat (cq_size cq_example) = 4"
  by (simp_all add: cq_inv_def cq_contents_def ring_slice_def cq_example_def upt_conv_Cons)

text \<open>C30: a queue set up by \<open>InitCQueue\<close> on a buffer of at least \<open>sz\<close> bytes behaves, under every
  sequence of enqueues and pulls, as an unbounded stream with at most \<open>sz\<close> bytes in flight: no
  operation leaves the buffer, and the bytes accepted are exactly the bytes delivered
  followed by the current contents.\<close>

theorem cqueue_stream:
  assumes "0 < unat sz" "unat sz < 2 ^ 31" "unat sz \<le> length buf" "list_all small_op ops"
  shows "\<exists>Q. InitCQueue Q0 sz (Some buf) = (CQ_OK, Q) \<and>
    (\<exists>Q' ins outs. fifo_run cq_put cq_get Q ops = Some (Q', ins, outs) \<and>
      ins = outs @ cq_contents Q' \<and> length ins \<le> length outs + unat sz)"
proof -
  obtain Q where Q: "InitCQueue Q0 sz (Some buf) = (CQ_OK, Q)" "cq_inv Q" "cq_contents Q = []" "cq_size Q = sz"
    using InitCQueue_inv [OF assms(1-3)] by blast
  with cq.stream_prefix [OF Q(2,3) assms(4)] show ?thesis by auto
qed

theorem cqueue_stream_witness:
  "\<exists>Q. InitCQueue cq_example 2 (Some [0, 0, 0]) = (CQ_OK, Q) \<and>
    (\<exists>Q' ins outs. fifo_run cq_put cq_get Q [Put [7, 8], Put [9], Get 1, Put [5]] = Some (Q', ins, outs) \<and>
      ins = outs @ cq_contents Q' \<and> length ins \<le> length outs + 2)"
  using cqueue_stream [of 2 "[0, 0, 0]" "[Put [7, 8], Put [9], Get 1, Put [5]]" cq_example] by simp

text \<open>\<open>EnCQueue\<close> appends the first \<open>len\<close> bytes of the source when they fit, and otherwise
  reports \<open>CQ_ERR\<close> and leaves the queue unchanged; the invariant is kept.\<close>

theorem cqueue_enqueue_refines:
  assumes "cq_inv Q" "unat len \<le> length e"
  shows "if length (cq_contents Q) + unat len \<le> unat (cq_size Q)
    then (\<exists>Q'. EnCQueue Q e len = Some (CQ_OK, Q') \<and> cq_inv Q' \<and> cq_size Q' = cq_size Q \<and>
      cq_contents Q' = cq_contents Q @ take (unat len) e)
    else EnCQueue Q e len = Some (CQ_ERR, Q)"
  using EnCQueue_ok [OF assms(1) _ assms(2)] EnCQueue_full [OF assms(1)] length_cq_contents [OF assms(1)]
  by simp

theorem cqueue_enqueue_refines_witness:
  "(\<exists>Q'. EnCQueue cq_example [40, 50] 1 = Some (CQ_OK, Q') \<and> cq_inv Q' \<and>
      cq_contents Q' = [10, 20, 30, 40]) \<and>
   EnCQueue cq_example [40, 50] 2 = Some (CQ_ERR, cq_example)"
  using cqueue_enqueue_refines [of cq_example 1 "[40, 50]"] cqueue_enqueue_refines [of cq_example 2 "[40, 50]"]
  by (simp add: cq_example_facts split: if_splits) blast

text \<open>C31: \<open>EnCQueueFront\<close> puts the first \<open>len\<close> bytes of the source in front of the contents,
  in order, whatever the position of the read index, and refuses what does not fit.\<close>

theorem cqueue_front_refines:
  assumes "cq_inv Q" "unat len \<le> length e"
  shows "if length (cq_contents Q) + unat len \<le> unat (cq_size Q)
    then (\<exists>Q'. EnCQueueFront Q e len = Some (CQ_OK, Q') \<and> cq_inv Q' \<and> cq_size Q' = cq_size Q \<and>
      cq_contents Q' = take (unat len) e @ cq_contents Q)
    else EnCQueueFront Q e len = Some (CQ_ERR, Q)"
  using EnCQueueFront_ok [OF assms(1) _ assms(2)] EnCQueueFront_full [OF assms(1)] length_cq_contents [OF assms(1)]
  by simp

theorem cqueue_front_refines_witness:
  "\<exists>Q'. EnCQueueFront cq_example [5] 1 = Some (CQ_OK, Q') \<and> cq_inv Q' \<and>
      cq_contents Q' = [5, 10, 20, 30]"
  using cqueue_front_refines [of cq_example 1 "[5]"]
  by (simp add: cq_example_facts split: if_splits) blast

text \<open>\<open>EnCQueue_AI\<close> never refuses: when \<open>len\<close> (at most the size of the queue) bytes do not
  fit, it drops \<open>len\<close> bytes from the front of old contents and new bytes together and keeps
  the filled length, so the queue holds the newest bytes and stays well formed.\<close>

theorem cqueue_overrun_keeps_newest:
  assumes "cq_inv Q" "unat len \<le> length e" "unat len \<le> unat (cq_size Q)"
    "unat (cq_size Q) < length (cq_contents Q) + unat len"
  shows "\<exists>Q'. EnCQueue_AI Q e len = Some (CQ_OK, Q') \<and> cq_inv Q' \<and> cq_len Q' = cq_len Q \<and>
    cq_contents Q' = drop (unat len) (cq_contents Q @ take (unat len) e)"
  using EnCQueue_AI_overrun [OF assms(1) _ assms(3,2)] assms(4) length_cq_contents [OF assms(1)] by auto

theorem cqueue_overrun_keeps_newest_witness:
  "\<exists>Q'. EnCQueue_AI cq_example [40, 50] 2 = Some (CQ_OK, Q') \<and> cq_inv Q' \<and> cq_contents Q' = [30, 40, 50]"
  using cqueue_overrun_keeps_newest [of cq_example 2 "[40, 50]"]
  by (auto simp: cq_example_facts)

text \<open>the three ways to read agree: \<open>DeCQueue\<close> (into a buffer or dropping the bytes) and
  \<open>PullCQueue\<close> deliver and remove the oldest \<open>len\<close> bytes, \<open>PeekCQueueToBuf\<close> delivers them and
  leaves the queue; all report \<open>CQ_ERR\<close> and change nothing when fewer bytes are queued.\<close>

theorem cqueue_reads_agree:
  assumes "cq_inv Q" "unat len \<le> length d"
  shows "if unat len \<le> length (cq_contents Q)
    then (\<exists>Q' Q''. DeCQueue Q (Some d) len =
        Some (CQ_OK, Q', Some (take (unat len) (cq_contents Q) @ drop (unat len) d)) \<and>
      DeCQueue Q None len = Some (CQ_OK, Q', None) \<and>
      PullCQueue Q d len = Some (CQ_OK, Q'', take (unat len) (cq_contents Q) @ drop (unat len) d) \<and>
      PeekCQueueToBuf Q d len = Some (CQ_OK, take (unat len) (cq_contents Q) @ drop (unat len) d) \<and>
      Q'' = Q' \<and> cq_inv Q' \<and> cq_contents Q' = drop (unat len) (cq_contents Q))
    else DeCQueue Q (Some d) len = Some (CQ_ERR, Q, Some d) \<and> DeCQueue Q None len = Some (CQ_ERR, Q, None) \<and>
      PullCQueue Q d len = Some (CQ_ERR, Q, d) \<and> PeekCQueueToBuf Q d len = Some (CQ_ERR, d)"
proof (cases "unat len \<le> unat (cq_len Q)")
  case True
  note dec = DeCQueue_ok [OF assms(1) True] and pull = PullCQueue_ok [OF assms(1) True assms(2)]
  show ?thesis
    using dec [of "Some d"] dec [of None] pull PeekCQueueToBuf_ok [OF assms(1) True assms(2)] True assms(2)
    by (auto simp: length_cq_contents [OF assms(1)])
next
  case False
  then show ?thesis
    by (simp add: length_cq_contents [OF assms(1)] DeCQueue_short [OF assms(1)] PullCQueue_def
        PeekCQueueToBuf_def PeekCQueue_short)
qed

theorem cqueue_reads_agree_witness:
  "(\<exists>Q'. DeCQueue cq_example None 2 = Some (CQ_OK, Q', None) \<and>
     PullCQueue cq_example [0, 0, 9] 2 = Some (CQ_OK, Q', [10, 20, 9]) \<and> cq_contents Q' = [30]) \<and>
   PullCQueue cq_example [0, 0, 0, 0] 4 = Some (CQ_ERR, cq_example, [0, 0, 0, 0])"
  using cqueue_reads_agree [of cq_example 2 "[0, 0, 9]"] cqueue_reads_agree [of cq_example 4 "[0, 0, 0, 0]"]
  by (auto simp: cq_example_facts)

end
