(* ===== verification/Cp_Queue.thy ===== *)
theory Cp_Queue
  imports Cqueue
begin


definition IsEmptyCpQueue :: "cqueue \<Rightarrow> cq_status" where
  "IsEmptyCpQueue Q = (if cq_len Q = 0 then CQ_OK else CQ_ERR)"

definition LengthOfCpQueue :: "cqueue \<Rightarrow> u32" where
  "LengthOfCpQueue Q = cq_len Q"

definition AvailableOfCpQueue :: "cqueue \<Rightarrow> u32" where
  "AvailableOfCpQueue Q = cq_size Q - cq_len Q"

definition EnCpQueue :: "cqueue \<Rightarrow> u8 list \<Rightarrow> u32 \<Rightarrow> (cq_status \<times> cqueue) option" where
  "EnCpQueue Q e len =
     (if AvailableOfCQueue Q < len then Some (CQ_ERR, Q)
      else
       (let Q = Q\<lparr>cq_len := cq_len Q + len\<rparr>; bytesToTheEnd = cq_size Q - cq_write Q in
        if len < bytesToTheEnd then do {
          base \<leftarrow> cq_base Q;
          b \<leftarrow> memcpy base (unat (cq_write Q)) e 0 (unat len);
          Some (CQ_OK, Q\<lparr>cq_base := Some b, cq_write := cq_write Q + len\<rparr>) }
        else do {
          base \<leftarrow> cq_base Q;
          b \<leftarrow> memcpy base (unat (cq_write Q)) e 0 (unat bytesToTheEnd);
          b \<leftarrow> memcpy b 0 e (unat bytesToTheEnd) (unat (len - bytesToTheEnd));
          Some (CQ_OK, Q\<lparr>cq_base := Some b, cq_write := len - bytesToTheEnd\<rparr>) }))"

definition DeCpQueue ::
  "cqueue \<Rightarrow> u8 list option \<Rightarrow> u32 \<Rightarrow> (cq_status \<times> cqueue \<times> u8 list option) option" where
  "DeCpQueue Q e len =
     (if LengthOfCQueue Q < len then Some (CQ_ERR, Q, e)
      else
       (let Q = Q\<lparr>cq_len := cq_len Q - len\<rparr> in
        case e of
          Some dst \<Rightarrow>
           (let bytesToTheEnd = cq_size Q - cq_read Q in
            if len < bytesToTheEnd then do {
              base \<leftarrow> cq_base Q;
              dst \<leftarrow> memcpy dst 0 base (unat (cq_read Q)) (unat len);
              Some (CQ_OK, Q\<lparr>cq_read := cq_read Q + len\<rparr>, Some dst) }
            else do {
              base \<leftarrow> cq_base Q;
              dst \<leftarrow> memcpy dst 0 base (unat (cq_read Q)) (unat bytesToTheEnd);
              dst \<leftarrow> memcpy dst (unat bytesToTheEnd) base 0 (unat (len - bytesToTheEnd));
              Some (CQ_OK, Q\<lparr>cq_read := len - bytesToTheEnd\<rparr>, Some dst) })
        | None \<Rightarrow>
            if cq_size Q = 0 then None
            else Some (CQ_OK, Q\<lparr>cq_read := (cq_read Q + len) mod cq_size Q\<rparr>, None)))"



section \<open>Agreement with the original\<close>


lemma EnCpQueue_eq: "EnCpQueue Q e len = EnCQueue Q e len"
  by (cases "cq_base Q") (simp_all add: EnCpQueue_def EnCQueue_def cq_store_def Let_def)

lemma DeCpQueue_eq:
  assumes "cq_inv Q"
  shows "DeCpQueue Q e len = DeCQueue Q e len"
proof -
  obtain b where "cq_rep Q b"
    using assms by (rule cq_invE)
  note b = cq_repD [OF this]
  have "sint (cq_size Q) = int (unat (cq_size Q))"
    by (rule sint_eq_unat [OF b(3)])
  moreover have "0 < unat (cq_size Q)"
    using b(4) by (rule le_less_trans [OF le0])
  ultimately have "0 < sint (cq_size Q)" "cq_size Q \<noteq> 0"
    by (simp_all only: of_nat_0_less_iff unat_gt_0 not_False_eq_True)
  then show ?thesis
    using b(1) by (simp add: DeCpQueue_def DeCQueue_def Let_def split: option.splits)
qed


section \<open>The copy as a byte fifo\<close>

definition cp_put :: "cqueue \<Rightarrow> u8 list \<Rightarrow> (cqueue \<times> nat) option" where
  "cp_put Q xs = do {
     (st, Q') \<leftarrow> EnCpQueue Q xs (word_of_nat (length xs));
     Some (Q', if st = CQ_OK then length xs else 0) }"

definition cp_get :: "cqueue \<Rightarrow> nat \<Rightarrow> (cqueue \<times> u8 list) option" where
  "cp_get Q n = do {
     (st, Q', e) \<leftarrow> DeCpQueue Q (Some (replicate n 0)) (word_of_nat n);
     Some (Q', if st = CQ_OK then (case e of None \<Rightarrow> [] | Some d \<Rightarrow> d) else []) }"

lemma cp_put_eq: "cp_put = cq_put"
  by (rule ext)+ (simp add: cp_put_def cq_put_def EnCpQueue_eq)

interpretation cp: byte_fifo cq_inv cq_contents "\<lambda>Q. unat (cq_size Q)" cp_put cp_get
proof
  fix Q and xs :: "u8 list"
  assume "cq_inv Q" "length xs < 2 ^ 31"
  then show "\<exists>Q' n. cp_put Q xs = Some (Q', n) \<and> cq_inv Q' \<and> unat (cq_size Q') = unat (cq_size Q) \<and>
      n \<le> length xs \<and> cq_contents Q' = cq_contents Q @ take n xs"
    unfolding cp_put_eq by (rule cq.put_ok)
next
  fix Q n
  assume Q: "cq_inv Q" and n: "n < (2::nat) ^ 31"
  have l: "unat (word_of_nat n :: u32) = n" using n by (rule unat_of_nat_small)
  show "\<exists>Q' ys. cp_get Q n = Some (Q', ys) \<and> cq_inv Q' \<and> unat (cq_size Q') = unat (cq_size Q) \<and>
      length ys \<le> n \<and> cq_contents Q = ys @ cq_contents Q'"
  proof (cases "n \<le> unat (cq_len Q)")
    case True
    with DeCQueue_ok [OF Q, of "word_of_nat n" "Some (replicate n 0)"] l Q show ?thesis
      by (auto simp: cp_get_def DeCpQueue_eq length_cq_contents)
  next
    case False
    with Q l show ?thesis by (simp add: cp_get_def DeCpQueue_eq DeCQueue_short)
  qed
next
  fix Q assume "cq_inv Q"
  then show "length (cq_contents Q) \<le> unat (cq_size Q)" by (rule cq.bounded)
qed

section \<open>Properties\<close>



end
