(* ===== verification/Kfifo.thy ===== *)
theory Kfifo
  imports Byte_Fifo
begin

text \<open>
  \<^verbatim>\<open>utils/kfifo/kfifo.c\<close>: a byte fifo with free-running 32-bit indices. \<open>in\<close> and \<open>out\<close> only
  grow and wrap at \<open>2 ^ 32\<close>; the position in the buffer is the index masked with \<open>size - 1\<close>,
  which is why \<open>kfifo_init\<close> insists on a power of two. An operation that would touch memory
  outside the buffer, or whose assertion fails, is \<open>None\<close>.
\<close>

record kfifo =
  kf_buffer :: "u8 list"
  kf_size :: u32
  kf_in :: u32
  kf_out :: u32

definition is_power_of_2 :: "u32 \<Rightarrow> bool" where
  "is_power_of_2 n = (n \<noteq> 0 \<and> n AND (n - 1) = 0)"

definition kfifo_init :: "u8 list \<Rightarrow> u32 \<Rightarrow> kfifo option" where
  "kfifo_init buffer len = do {
     check (is_power_of_2 len);
     Some \<lparr>kf_buffer = buffer, kf_size = len, kf_in = 0, kf_out = 0\<rparr> }"

definition kfifo_put :: "kfifo \<Rightarrow> u8 list \<Rightarrow> u32 \<Rightarrow> (u32 \<times> kfifo) option" where
  "kfifo_put f buffer len = do {
     let len = min len (kf_size f - kf_in f + kf_out f);
     let l = min len (kf_size f - (kf_in f AND (kf_size f - 1)));
     b \<leftarrow> memcpy (kf_buffer f) (unat (kf_in f AND (kf_size f - 1))) buffer 0 (unat l);
     b \<leftarrow> memcpy b 0 buffer (unat l) (unat (len - l));
     Some (len, f\<lparr>kf_buffer := b, kf_in := kf_in f + len\<rparr>) }"

definition kfifo_get :: "kfifo \<Rightarrow> u8 list \<Rightarrow> u32 \<Rightarrow> (u32 \<times> kfifo \<times> u8 list) option" where
  "kfifo_get f buffer len = do {
     let len = min len (kf_in f - kf_out f);
     let l = min len (kf_size f - (kf_out f AND (kf_size f - 1)));
     d \<leftarrow> memcpy buffer 0 (kf_buffer f) (unat (kf_out f AND (kf_size f - 1))) (unat l);
     d \<leftarrow> memcpy d (unat l) (kf_buffer f) 0 (unat (len - l));
     Some (len, f\<lparr>kf_out := kf_out f + len\<rparr>, d) }"

text \<open>The out parameters of \<open>kfifo_peek\<close>: pointers into the buffer as offsets.\<close>

record kf_peek =
  kp_buff1 :: "u32 option"
  kp_buff2 :: "u32 option"
  kp_len1 :: u32
  kp_len2 :: u32

definition kfifo_peek :: "kfifo \<Rightarrow> u32 \<Rightarrow> u32 \<times> kf_peek" where
  "kfifo_peek f len_want =
     (let none = \<lparr>kp_buff1 = None, kp_buff2 = None, kp_len1 = 0, kp_len2 = 0\<rparr>;
          len = min len_want (kf_in f - kf_out f) in
      if len < len_want then (0, none)
      else
        (let l = min len (kf_size f - (kf_out f AND (kf_size f - 1)));
             pk = none\<lparr>kp_buff1 := Some (kf_out f AND (kf_size f - 1)), kp_len1 := l\<rparr> in
         if l < len then (len_want, pk\<lparr>kp_buff2 := Some 0, kp_len2 := len - l\<rparr>)
         else (len_want, pk)))"

definition kf_at :: "kfifo \<Rightarrow> u32 option \<Rightarrow> u32 \<Rightarrow> u8 list option" where
  "kf_at f p n =
     (case p of
        None \<Rightarrow> if n = 0 then Some [] else None
      | Some off \<Rightarrow> mem_read (kf_buffer f) (unat off) (unat n))"

definition kfifo_peek_to_buf :: "kfifo \<Rightarrow> u8 list \<Rightarrow> u32 \<Rightarrow> (u32 \<times> u8 list) option" where
  "kfifo_peek_to_buf f buff len =
     (case kfifo_peek f len of (r, pk) \<Rightarrow>
        if len = kp_len1 pk + kp_len2 pk then do {
          x1 \<leftarrow> kf_at f (kp_buff1 pk) (kp_len1 pk);
          d \<leftarrow> mem_write buff 0 x1;
          x2 \<leftarrow> kf_at f (kp_buff2 pk) (kp_len2 pk);
          d \<leftarrow> mem_write d (unat (kp_len1 pk)) x2;
          Some (len, d) }
        else Some (0, buff))"

definition kfifo_len :: "kfifo \<Rightarrow> u32" where
  "kfifo_len f = kf_in f - kf_out f"

section \<open>Powers of two and masks\<close>

lemma unat_exp:
  assumes "k < 32"
  shows "unat (2 ^ k :: u32) = 2 ^ k"
proof -
  have "(2::nat) ^ k < 2 ^ 32"
    using assms by (intro power_strict_increasing) simp_all
  then have "unat (word_of_nat (2 ^ k) :: u32) = 2 ^ k"
    by (subst unat_of_nat) simp
  then show ?thesis by simp
qed

lemma is_power_of_2_iff: "is_power_of_2 n \<longleftrightarrow> (\<exists>k<32. n = 2 ^ k)"
proof
  assume n: "is_power_of_2 n"
  then have pos: "0 < unat n"
    by (simp add: is_power_of_2_def unat_gt_0)
  then obtain k where k: "2 ^ k \<le> unat n" "unat n < 2 ^ Suc k"
    using ex_power_ivl1 [of 2 "unat n"] by auto
  have k32: "k < 32"
  proof (rule ccontr)
    assume "\<not> k < 32"
    then have "(2::nat) ^ 32 \<le> 2 ^ k" by (intro power_increasing) simp_all
    with k(1) unsigned_less [of n, where ?'a = nat] show False by simp
  qed
  have "unat n = 2 ^ k"
  proof (rule ccontr)
    assume ne: "unat n \<noteq> 2 ^ k"
    have bitk: "bit m k" if "2 ^ k \<le> unat m" "unat m < 2 ^ Suc k" for m :: u32
    proof -
      have "unat m div 2 ^ k = 1"
        using that by (intro div_nat_eqI) simp_all
      then have "bit (unat m) k" by (simp add: bit_iff_odd)
      then show ?thesis using k32 by (simp add: bit_unsigned_iff)
    qed
    have "unat (n - 1) = unat n - 1" using pos by (simp add: unat_sub_small)
    with ne k have "bit n k" "bit (n - 1) k" by (auto intro!: bitk)
    then have "bit (n AND (n - 1)) k" by (simp add: bit_and_iff)
    with n show False by (simp add: is_power_of_2_def)
  qed
  then have "n = 2 ^ k"
    using k32 by (simp add: word_unat_eq_iff unat_exp)
  with k32 show "\<exists>k<32. n = 2 ^ k" by blast
next
  assume "\<exists>k<32. n = 2 ^ k"
  then obtain k where "k < 32" "n = 2 ^ k" by blast
  moreover have "take_bit k (2 ^ k :: u32) = 0"
    by (rule bit_eqI) (simp add: bit_take_bit_iff bit_exp_iff)
  ultimately have "n AND (n - 1) = 0" and "0 < unat n"
    by (simp_all add: take_bit_eq_mask mask_eq_exp_minus_1 unat_exp)
  then show "is_power_of_2 n"
    by (simp add: is_power_of_2_def unat_gt_0)
qed

lemma is_power_of_2_dvd:
  assumes "is_power_of_2 n"
  shows "unat n dvd 2 ^ 32" "0 < unat n" "unat n \<le> 2 ^ 31"
proof -
  obtain k where k: "k < 32" "n = 2 ^ k" using assms is_power_of_2_iff by blast
  then have "unat n = 2 ^ k" by (simp add: unat_exp)
  moreover have "(2::nat) ^ k \<le> 2 ^ 31" "(2::nat) ^ k dvd 2 ^ 32"
    using k(1) by (intro power_increasing le_imp_power_dvd; simp)+
  ultimately show "unat n dvd 2 ^ 32" "0 < unat n" "unat n \<le> 2 ^ 31"
    by simp_all
qed

lemma mask_mod:
  assumes "is_power_of_2 n"
  shows "unat (x AND (n - 1)) = unat x mod unat n"
proof -
  obtain k where k: "k < 32" "n = 2 ^ k" using assms is_power_of_2_iff by blast
  then have "x AND (n - 1) = take_bit k x"
    by (simp add: take_bit_eq_mask mask_eq_exp_minus_1)
  then have "unat (x AND (n - 1)) = take_bit k (unat x)"
    by (simp add: unsigned_take_bit_eq)
  with k show ?thesis by (simp add: take_bit_eq_mod unat_exp)
qed

text \<open>A wrapping index stays in step with the buffer because the size divides \<open>2 ^ 32\<close>.\<close>

lemma unat_add_mod:
  fixes x y n :: u32
  assumes "is_power_of_2 n"
  shows "unat (x + y) mod unat n = (unat x + unat y) mod unat n"
  using is_power_of_2_dvd(1) [OF assms] by (simp add: unat_word_ariths mod_mod_cancel)

section \<open>Invariant and abstraction\<close>

definition kf_inv :: "kfifo \<Rightarrow> bool" where
  "kf_inv f \<longleftrightarrow> is_power_of_2 (kf_size f) \<and> unat (kf_size f) \<le> length (kf_buffer f) \<and>
     unat (kf_in f - kf_out f) \<le> unat (kf_size f)"

definition kf_contents :: "kfifo \<Rightarrow> u8 list" where
  "kf_contents f = ring_slice (kf_buffer f) (unat (kf_size f)) (unat (kf_out f)) (unat (kf_in f - kf_out f))"

lemma kf_invD:
  assumes "kf_inv f"
  shows "0 < unat (kf_size f)" "unat (kf_size f) \<le> 2 ^ 31" "unat (kf_size f) \<le> length (kf_buffer f)"
    "unat (kf_in f - kf_out f) \<le> unat (kf_size f)"
    "unat (x AND (kf_size f - 1)) = unat x mod unat (kf_size f)"
    "unat (x + y) mod unat (kf_size f) = (unat x + unat y) mod unat (kf_size f)"
  using assms is_power_of_2_dvd mask_mod unat_add_mod by (simp_all add: kf_inv_def)

lemma kf_contents_mod:
  "kf_contents f = ring_slice (kf_buffer f) (unat (kf_size f)) (unat (kf_out f) mod unat (kf_size f))
     (unat (kf_in f - kf_out f))"
  by (simp add: kf_contents_def)

lemma kf_free:
  assumes "kf_inv f"
  shows "unat (kf_size f - kf_in f + kf_out f) = unat (kf_size f) - unat (kf_in f - kf_out f)"
proof -
  have "kf_size f - kf_in f + kf_out f = kf_size f - (kf_in f - kf_out f)"
    by simp
  with kf_invD(4) [OF assms] show ?thesis by (simp only: unat_sub_small)
qed

lemma kf_in_mod:
  assumes "kf_inv f"
  shows "unat (kf_in f) mod unat (kf_size f) =
    (unat (kf_out f) mod unat (kf_size f) + unat (kf_in f - kf_out f)) mod unat (kf_size f)"
  using kf_invD(6) [OF assms, of "kf_out f" "kf_in f - kf_out f"] by (simp add: mod_add_left_eq)

lemma unat_min: "unat (min a b :: u32) = min (unat a) (unat b)"
  by (simp add: min_def word_le_nat_alt)

lemma kfifo_put_ok:
  assumes inv: "kf_inv f" and e: "unat len \<le> length e"
  defines "n \<equiv> min (unat len) (unat (kf_size f) - unat (kf_in f - kf_out f))"
  shows "\<exists>r f'. kfifo_put f e len = Some (r, f') \<and> unat r = n \<and> kf_inv f' \<and>
    kf_size f' = kf_size f \<and> kf_out f' = kf_out f \<and> kf_contents f' = kf_contents f @ take n e"
proof -
  let ?sz = "unat (kf_size f)" and ?w = "unat (kf_in f) mod unat (kf_size f)"
  note d = kf_invD [OF inv]
  define r l where "r = min len (kf_size f - kf_in f + kf_out f)"
    and "l = min r (kf_size f - (kf_in f AND (kf_size f - 1)))"
  have r: "unat r = n"
    by (simp add: r_def n_def unat_min kf_free [OF inv])
  have w: "?w < ?sz" using d(1) by simp
  then have k: "unat (kf_size f - (kf_in f AND (kf_size f - 1))) = ?sz - ?w"
    using d(5) [of "kf_in f"] by (simp add: unat_sub_small)
  then have l: "unat l = min n (?sz - ?w)" "unat (r - l) = n - min n (?sz - ?w)"
    using r by (simp_all add: l_def unat_min unat_sub_small)
  have n: "n \<le> length e" "n \<le> ?sz" "n + unat (kf_in f - kf_out f) \<le> ?sz"
    using e d(4) by (auto simp: n_def)
  define b where "b = ring_put (kf_buffer f) ?sz ?w (take n e)"
  have chunks: "do { b1 \<leftarrow> memcpy (kf_buffer f) ?w e 0 (min n (?sz - ?w));
      memcpy b1 0 e (min n (?sz - ?w)) (n - min n (?sz - ?w)) } = Some b"
    unfolding b_def using w n d(3) by (intro memcpy_into_ring)
  define f' where "f' = f\<lparr>kf_buffer := b, kf_in := kf_in f + r\<rparr>"
  have "kfifo_put f e len = Some (r, f')"
    using chunks d(5) [of "kf_in f"] l
    by (simp add: kfifo_put_def f'_def r_def [symmetric] l_def [symmetric] Let_def bind_simps) blast
  moreover have in': "unat (kf_in f + r - kf_out f) = unat (kf_in f - kf_out f) + n"
  proof -
    have "kf_in f + r - kf_out f = (kf_in f - kf_out f) + r" by simp
    then show ?thesis using r n(3) d(2) by (simp only: unat_add_small) (simp add: unat_add_small)
  qed
  moreover have "kf_inv f'"
    using inv in' n w d(3) by (simp add: kf_inv_def f'_def b_def)
  moreover have "kf_contents f' = kf_contents f @ take n e"
    using ring_slice_put [OF kf_in_mod [OF inv], of "take n e" "kf_buffer f"] n d in'
    by (simp add: kf_contents_def f'_def b_def min_absorb2 add.commute [of n])
  ultimately show ?thesis using r by (auto simp: f'_def)
qed

lemma kfifo_get_ok:
  assumes inv: "kf_inv f" and e: "unat len \<le> length e"
  defines "n \<equiv> min (unat len) (unat (kf_in f - kf_out f))"
  shows "\<exists>r f'. kfifo_get f e len = Some (r, f', take n (kf_contents f) @ drop n e) \<and> unat r = n \<and>
    kf_inv f' \<and> kf_size f' = kf_size f \<and> kf_contents f' = drop n (kf_contents f)"
proof -
  let ?sz = "unat (kf_size f)" and ?r = "unat (kf_out f) mod unat (kf_size f)"
  note d = kf_invD [OF inv]
  define r l where "r = min len (kf_in f - kf_out f)"
    and "l = min r (kf_size f - (kf_out f AND (kf_size f - 1)))"
  have r: "unat r = n"
    by (simp add: r_def n_def unat_min)
  have w: "?r < ?sz" using d(1) by simp
  then have k: "unat (kf_size f - (kf_out f AND (kf_size f - 1))) = ?sz - ?r"
    using d(5) [of "kf_out f"] by (simp add: unat_sub_small)
  then have l: "unat l = min n (?sz - ?r)" "unat (r - l) = n - min n (?sz - ?r)"
    using r by (simp_all add: l_def unat_min unat_sub_small)
  have n: "n \<le> length e" "n \<le> ?sz" "n \<le> unat (kf_in f - kf_out f)"
    using e d(4) by (auto simp: n_def)
  have t: "take n (kf_contents f) = ring_slice (kf_buffer f) ?sz ?r n"
    using n(3) by (simp add: kf_contents_mod ring_slice_take)
  have chunks: "do { d1 \<leftarrow> memcpy e 0 (kf_buffer f) ?r (min n (?sz - ?r));
      memcpy d1 (min n (?sz - ?r)) (kf_buffer f) 0 (n - min n (?sz - ?r)) } =
      Some (take n (kf_contents f) @ drop n e)"
    unfolding t using w n d(3) by (intro memcpy_from_ring)
  define f' where "f' = f\<lparr>kf_out := kf_out f + r\<rparr>"
  have "kfifo_get f e len = Some (r, f', take n (kf_contents f) @ drop n e)"
    using chunks d(5) [of "kf_out f"] l
    by (simp add: kfifo_get_def f'_def r_def [symmetric] l_def [symmetric] Let_def bind_simps)
  moreover have out': "unat (kf_in f - (kf_out f + r)) = unat (kf_in f - kf_out f) - n"
  proof -
    have "kf_in f - (kf_out f + r) = (kf_in f - kf_out f) - r" by simp
    then show ?thesis using r n(3) by (simp only: unat_sub_small)
  qed
  moreover have "kf_inv f'"
    using inv out' diff_le_self [THEN le_trans, OF d(4), of n] by (simp add: kf_inv_def f'_def)
  moreover have "kf_contents f' = drop n (kf_contents f)"
  proof -
    have "kf_contents f' = ring_slice (kf_buffer f) ?sz (unat (kf_out f + r) mod ?sz)
        (unat (kf_in f - kf_out f) - n)"
      by (simp add: kf_contents_def f'_def out')
    also have "\<dots> = ring_slice (kf_buffer f) ?sz (unat (kf_out f) + n) (unat (kf_in f - kf_out f) - n)"
      by (simp only: d(6) r ring_slice_mod)
    finally show ?thesis using n(3) by (simp add: kf_contents_def ring_slice_drop)
  qed
  ultimately show ?thesis using r by (auto simp: f'_def)
qed

lemma kfifo_peek_to_buf_short:
  assumes "unat (kf_in f - kf_out f) < unat len"
  shows "kfifo_peek_to_buf f e len = Some (0, e)"
proof -
  define a where "a = kf_in f - kf_out f"
  have a: "a < len" using assms by (simp add: a_def word_less_nat_alt)
  then have "min len a = a" by (simp add: min_absorb2)
  with a have "kfifo_peek f len = (0, \<lparr>kp_buff1 = None, kp_buff2 = None, kp_len1 = 0, kp_len2 = 0\<rparr>)"
    by (simp add: kfifo_peek_def Let_def flip: a_def)
  moreover have "len \<noteq> 0" using a by auto
  ultimately show ?thesis by (simp add: kfifo_peek_to_buf_def)
qed

lemma kfifo_peek_to_buf_ok:
  assumes inv: "kf_inv f" and fits: "unat len \<le> unat (kf_in f - kf_out f)" and e: "unat len \<le> length e"
  shows "kfifo_peek_to_buf f e len = Some (len, take (unat len) (kf_contents f) @ drop (unat len) e)"
proof -
  let ?sz = "unat (kf_size f)" and ?r = "unat (kf_out f) mod unat (kf_size f)" and ?n = "unat len"
  note d = kf_invD [OF inv]
  have w: "?r < ?sz" using d(1) by simp
  then have k: "unat (kf_size f - (kf_out f AND (kf_size f - 1))) = ?sz - ?r"
    using d(5) [of "kf_out f"] by (simp add: unat_sub_small)
  have m: "min len (kf_in f - kf_out f) = len"
    using fits by (simp add: min_def word_le_nat_alt)
  have t: "take ?n (kf_contents f) = ring_slice (kf_buffer f) ?sz ?r ?n"
    using fits by (simp add: kf_contents_mod ring_slice_take)
  have n: "?n \<le> ?sz" using fits d(4) by simp
  show ?thesis
  proof (cases "?n \<le> ?sz - ?r")
    case True
    then have "min len (kf_size f - (kf_out f AND (kf_size f - 1))) = len"
      using k by (simp add: min_def word_le_nat_alt)
    with m have pk: "kfifo_peek f len = (len, \<lparr>kp_buff1 = Some (kf_out f AND (kf_size f - 1)),
        kp_buff2 = None, kp_len1 = len, kp_len2 = 0\<rparr>)"
      by (simp add: kfifo_peek_def Let_def)
    have "ring_slice (kf_buffer f) ?sz ?r ?n = take ?n (drop ?r (kf_buffer f))"
      using True w d(3) by (intro ring_slice_one_chunk) simp_all
    with True w d(3) e show ?thesis
      by (simp add: kfifo_peek_to_buf_def pk kf_at_def d(5) mem_simps t min_absorb2)
  next
    case False
    define l where "l = kf_size f - (kf_out f AND (kf_size f - 1))"
    have l: "unat l = ?sz - ?r" "l < len" "min len l = l" "unat (len - l) = ?n - (?sz - ?r)"
      using k False by (simp_all add: l_def min_def word_le_nat_alt word_less_nat_alt unat_sub_small)
    with m have pk: "kfifo_peek f len = (len, \<lparr>kp_buff1 = Some (kf_out f AND (kf_size f - 1)),
        kp_buff2 = Some 0, kp_len1 = l, kp_len2 = len - l\<rparr>)"
      by (simp add: kfifo_peek_def Let_def flip: l_def)
    have "ring_slice (kf_buffer f) ?sz ?r ?n =
        take (?sz - ?r) (drop ?r (kf_buffer f)) @ take (?n - (?sz - ?r)) (kf_buffer f)"
      using False w n d(3) by (intro ring_slice_two_chunks) simp_all
    moreover define k m where "k = ?sz - ?r" and "m = ?n - k"
    ultimately have t: "take ?n (kf_contents f) = take k (drop ?r (kf_buffer f)) @ take m (kf_buffer f)"
      and lm: "unat l = k" "unat (len - l) = m" using l t by simp_all
    have "m \<le> length (kf_buffer f)" "?n = k + m" "?r + k \<le> length (kf_buffer f)"
      using False n d(3) w unfolding m_def k_def by linarith+
    with t lm e l show ?thesis
      by (simp add: kfifo_peek_to_buf_def pk kf_at_def d(5) mem_simps min_absorb2 add.commute)
  qed
qed

lemma kfifo_init_inv:
  assumes "kfifo_init buf len = Some f" "unat len \<le> length buf"
  shows "kf_inv f \<and> kf_contents f = [] \<and> kf_size f = len"
  using assms by (auto simp: kfifo_init_def kf_inv_def kf_contents_def bind_simps)

section \<open>The fifo as a byte fifo\<close>

definition kf_put :: "kfifo \<Rightarrow> u8 list \<Rightarrow> (kfifo \<times> nat) option" where
  "kf_put f xs = do { (r, f') \<leftarrow> kfifo_put f xs (word_of_nat (length xs)); Some (f', unat r) }"

definition kf_get :: "kfifo \<Rightarrow> nat \<Rightarrow> (kfifo \<times> u8 list) option" where
  "kf_get f n = do {
     (r, f', d) \<leftarrow> kfifo_get f (replicate n 0) (word_of_nat n);
     Some (f', take (unat r) d) }"

lemma unat_of_nat_below: "n < 2 ^ 31 \<Longrightarrow> unat (word_of_nat n :: u32) = n"
  by (simp add: unat_of_nat)

interpretation kf: byte_fifo kf_inv kf_contents "\<lambda>f. unat (kf_size f)" kf_put kf_get
proof
  fix f and xs :: "u8 list"
  assume f: "kf_inv f" and "length xs < 2 ^ 31"
  then have l: "unat (word_of_nat (length xs) :: u32) = length xs"
    by (intro unat_of_nat_below)
  show "\<exists>f' n. kf_put f xs = Some (f', n) \<and> kf_inv f' \<and> unat (kf_size f') = unat (kf_size f) \<and>
      n \<le> length xs \<and> kf_contents f' = kf_contents f @ take n xs"
    using kfifo_put_ok [OF f, of "word_of_nat (length xs)" xs] l by (auto simp: kf_put_def)
next
  fix f n
  assume f: "kf_inv f" and "n < (2::nat) ^ 31"
  then have l: "unat (word_of_nat n :: u32) = n"
    by (intro unat_of_nat_below)
  show "\<exists>f' ys. kf_get f n = Some (f', ys) \<and> kf_inv f' \<and> unat (kf_size f') = unat (kf_size f) \<and>
      length ys \<le> n \<and> kf_contents f = ys @ kf_contents f'"
    using kfifo_get_ok [OF f, of "word_of_nat n" "replicate n 0"] l
    by (auto simp: kf_get_def kf_contents_def min_def)
next
  fix f assume "kf_inv f"
  then show "length (kf_contents f) \<le> unat (kf_size f)"
    by (simp add: kf_inv_def kf_contents_def)
qed

section \<open>Properties\<close>

text \<open>\<open>kfifo_init\<close> accepts exactly the powers of two, and a fifo it sets up on a large enough
  buffer transports bytes as a stream under every sequence of puts and gets, also when the
  32-bit indices wrap: no byte is lost, reordered or invented.\<close>

theorem kfifo_stream:
  assumes "unat len \<le> length buf" "list_all small_op ops"
  shows "(kfifo_init buf len \<noteq> None) = (\<exists>k<32. len = 2 ^ k) \<and>
    (\<forall>f. kfifo_init buf len = Some f \<longrightarrow>
      (\<exists>f' ins outs. fifo_run kf_put kf_get f ops = Some (f', ins, outs) \<and>
        ins = outs @ kf_contents f' \<and> length ins \<le> length outs + unat len))"
proof
  show "(kfifo_init buf len \<noteq> None) = (\<exists>k<32. len = 2 ^ k)"
    by (simp add: kfifo_init_def check_def is_power_of_2_iff)
next
  show "\<forall>f. kfifo_init buf len = Some f \<longrightarrow>
      (\<exists>f' ins outs. fifo_run kf_put kf_get f ops = Some (f', ins, outs) \<and>
        ins = outs @ kf_contents f' \<and> length ins \<le> length outs + unat len)"
  proof (intro allI impI)
    fix f assume "kfifo_init buf len = Some f"
    then have f: "kf_inv f" "kf_contents f = []" "kf_size f = len"
      using kfifo_init_inv assms(1) by blast+
    show "\<exists>f' ins outs. fifo_run kf_put kf_get f ops = Some (f', ins, outs) \<and>
        ins = outs @ kf_contents f' \<and> length ins \<le> length outs + unat len"
      using kf.stream_prefix [OF f(1,2) assms(2)] f(3) by simp
  qed
qed

theorem kfifo_stream_witness:
  "\<exists>f f' ins outs. kfifo_init [0, 0, 0, 0] 4 = Some f \<and>
     fifo_run kf_put kf_get f [Put [1, 2, 3], Get 2, Put [4, 5, 6, 7], Get 9] = Some (f', ins, outs) \<and>
     ins = outs @ kf_contents f'"
proof -
  have "kfifo_init [0, 0, 0, 0] 4 = Some \<lparr>kf_buffer = [0, 0, 0, 0], kf_size = 4, kf_in = 0, kf_out = 0\<rparr>"
    by (simp add: kfifo_init_def is_power_of_2_def check_def)
  with kfifo_stream [of 4 "[0, 0, 0, 0]" "[Put [1, 2, 3], Get 2, Put [4, 5, 6, 7], Get 9]"]
  show ?thesis by fastforce
qed

definition kf_example :: kfifo where
  "kf_example = \<lparr>kf_buffer = [3, 9, 1, 2], kf_size = 4, kf_in = 1, kf_out = 0xFFFFFFFE\<rparr>"

lemma kf_example_facts: "kf_inv kf_example" "kf_contents kf_example = [1, 2, 3]"
  "unat (kf_size kf_example) = 4" "unat (kf_in kf_example - kf_out kf_example) = 3"
  by (simp_all add: kf_inv_def kf_contents_def ring_slice_def kf_example_def is_power_of_2_def upt_conv_Cons)

text \<open>C23: \<open>kfifo_put\<close> stores the longest prefix that fits and returns its length, \<open>kfifo_get\<close>
  delivers and removes as many of the oldest bytes as there are, for all positions of the
  free-running indices, past the wrap at \<open>2 ^ 32\<close> too.\<close>

theorem kfifo_put_get_refine:
  assumes "kf_inv f" "unat len \<le> length e" "unat want \<le> length d"
  shows "(\<exists>f'. kfifo_put f e len =
      Some (min len (kf_size f - kfifo_len f), f') \<and> kf_inv f' \<and>
      kf_contents f' = kf_contents f @ take (min (unat len) (unat (kf_size f) - length (kf_contents f))) e) \<and>
    (\<exists>f'. kfifo_get f d want = Some (min want (kfifo_len f), f',
        take (unat want) (kf_contents f) @ drop (min (unat want) (length (kf_contents f))) d) \<and>
      kf_inv f' \<and> kf_contents f' = drop (unat want) (kf_contents f))"
proof
  have l: "length (kf_contents f) = unat (kf_in f - kf_out f)" by (simp add: kf_contents_def)
  obtain r f' where p: "kfifo_put f e len = Some (r, f')" "kf_inv f'"
    "unat r = min (unat len) (unat (kf_size f) - unat (kf_in f - kf_out f))"
    "kf_contents f' = kf_contents f @ take (min (unat len) (unat (kf_size f) - unat (kf_in f - kf_out f))) e"
    using kfifo_put_ok [OF assms(1,2)] by blast
  have "r = min len (kf_size f - kfifo_len f)"
    using p(3) kf_invD(4) [OF assms(1)]
    by (simp add: word_unat_eq_iff unat_min kfifo_len_def unat_sub_small)
  with p l show "\<exists>f'. kfifo_put f e len = Some (min len (kf_size f - kfifo_len f), f') \<and> kf_inv f' \<and>
      kf_contents f' = kf_contents f @ take (min (unat len) (unat (kf_size f) - length (kf_contents f))) e"
    by auto
  obtain r f' where g: "kfifo_get f d want = Some (r, f',
      take (min (unat want) (unat (kf_in f - kf_out f))) (kf_contents f) @
      drop (min (unat want) (unat (kf_in f - kf_out f))) d)"
    "unat r = min (unat want) (unat (kf_in f - kf_out f))" "kf_inv f'"
    "kf_contents f' = drop (min (unat want) (unat (kf_in f - kf_out f))) (kf_contents f)"
    using kfifo_get_ok [OF assms(1,3)] by blast
  have "r = min want (kfifo_len f)"
    using g(2) by (simp add: word_unat_eq_iff unat_min kfifo_len_def)
  moreover have "take (min (unat want) (unat (kf_in f - kf_out f))) (kf_contents f) = take (unat want) (kf_contents f)"
    "drop (min (unat want) (unat (kf_in f - kf_out f))) (kf_contents f) = drop (unat want) (kf_contents f)"
    using l by (simp_all add: min_def)
  ultimately show "\<exists>f'. kfifo_get f d want = Some (min want (kfifo_len f), f',
        take (unat want) (kf_contents f) @ drop (min (unat want) (length (kf_contents f))) d) \<and>
      kf_inv f' \<and> kf_contents f' = drop (unat want) (kf_contents f)"
    using g l by simp
qed

theorem kfifo_put_get_refine_witness:
  "(\<exists>r f'. kfifo_put kf_example [4, 5] 2 = Some (r, f') \<and> kf_contents f' = [1, 2, 3, 4]) \<and>
   (\<exists>r f'. kfifo_get kf_example [0, 0] 2 = Some (r, f', [1, 2]) \<and> kf_contents f' = [3])"
  using kfifo_put_get_refine [of kf_example 2 "[4, 5]" 2 "[0, 0]"]
  by (auto simp: kf_example_facts)

text \<open>\<open>kfifo_peek_to_buf\<close> delivers exactly the bytes \<open>kfifo_get\<close> would, without removing them,
  and reports 0 and leaves the destination alone when fewer are queued.\<close>

theorem kfifo_peek_agrees_with_get:
  assumes "kf_inv f" "unat len \<le> length e"
  shows "if unat len \<le> length (kf_contents f)
    then (\<exists>f' d. kfifo_get f e len = Some (len, f', d) \<and> kfifo_peek_to_buf f e len = Some (len, d))
    else kfifo_peek_to_buf f e len = Some (0, e)"
proof (cases "unat len \<le> length (kf_contents f)")
  case True
  then have "unat len \<le> unat (kf_in f - kf_out f)" by (simp add: kf_contents_def)
  with kfifo_get_ok [OF assms] kfifo_peek_to_buf_ok [OF assms(1) _ assms(2)] True show ?thesis
    by (auto simp: word_unat_eq_iff min_def)
next
  case False
  then show ?thesis by (simp add: kf_contents_def kfifo_peek_to_buf_short)
qed

theorem kfifo_peek_agrees_with_get_witness:
  "(\<exists>f' d. kfifo_get kf_example [0, 0, 0] 3 = Some (3, f', d) \<and>
     kfifo_peek_to_buf kf_example [0, 0, 0] 3 = Some (3, d)) \<and>
   kfifo_peek_to_buf kf_example [0, 0, 0, 0] 4 = Some (0, [0, 0, 0, 0])"
  using kfifo_peek_agrees_with_get [of kf_example 3 "[0, 0, 0]"]
    kfifo_peek_agrees_with_get [of kf_example 4 "[0, 0, 0, 0]"]
  by (simp add: kf_example_facts)

end
