(* ===== verification/Crc.thy ===== *)
theory Crc
  imports Lb_Prelude
begin

text \<open>
  \<^verbatim>\<open>utils/crc16/crc16.c\<close>, \<^verbatim>\<open>utils/crc16/crc16.h\<close> and \<^verbatim>\<open>utils/crc32/crc32.c\<close>: the table-driven checksums,
  with the tables as they stand in the source and, for the CRC-32, the \<open>MAKE_CRC32_TABLE\<close> variant
  that computes its table. \<open>unsigned long\<close> has 32 bits on the target. A read past the end of the
  data is \<open>None\<close>.

  The locale \<open>crc_engine\<close> states what a table-driven checksum needs of its table and polynomial and
  proves the algebra once, for every width: the shift step is linear and injective, a byte step is
  eight shift steps, and a burst no longer than the register is always detected. Both programs
  are interpretations.
\<close>

section \<open>The programs\<close>

definition crc16_table :: "u16 list" where
  "crc16_table =
    [0x0000, 0xC0C1, 0xC181, 0x0140, 0xC301, 0x03C0, 0x0280, 0xC241,
     0xC601, 0x06C0, 0x0780, 0xC741, 0x0500, 0xC5C1, 0xC481, 0x0440,
     0xCC01, 0x0CC0, 0x0D80, 0xCD41, 0x0F00, 0xCFC1, 0xCE81, 0x0E40,
     0x0A00, 0xCAC1, 0xCB81, 0x0B40, 0xC901, 0x09C0, 0x0880, 0xC841,
     0xD801, 0x18C0, 0x1980, 0xD941, 0x1B00, 0xDBC1, 0xDA81, 0x1A40,
     0x1E00, 0xDEC1, 0xDF81, 0x1F40, 0xDD01, 0x1DC0, 0x1C80, 0xDC41,
     0x1400, 0xD4C1, 0xD581, 0x1540, 0xD701, 0x17C0, 0x1680, 0xD641,
     0xD201, 0x12C0, 0x1380, 0xD341, 0x1100, 0xD1C1, 0xD081, 0x1040,
     0xF001, 0x30C0, 0x3180, 0xF141, 0x3300, 0xF3C1, 0xF281, 0x3240,
     0x3600, 0xF6C1, 0xF781, 0x3740, 0xF501, 0x35C0, 0x3480, 0xF441,
     0x3C00, 0xFCC1, 0xFD81, 0x3D40, 0xFF01, 0x3FC0, 0x3E80, 0xFE41,
     0xFA01, 0x3AC0, 0x3B80, 0xFB41, 0x3900, 0xF9C1, 0xF881, 0x3840,
     0x2800, 0xE8C1, 0xE981, 0x2940, 0xEB01, 0x2BC0, 0x2A80, 0xEA41,
     0xEE01, 0x2EC0, 0x2F80, 0xEF41, 0x2D00, 0xEDC1, 0xEC81, 0x2C40,
     0xE401, 0x24C0, 0x2580, 0xE541, 0x2700, 0xE7C1, 0xE681, 0x2640,
     0x2200, 0xE2C1, 0xE381, 0x2340, 0xE101, 0x21C0, 0x2080, 0xE041,
     0xA001, 0x60C0, 0x6180, 0xA141, 0x6300, 0xA3C1, 0xA281, 0x6240,
     0x6600, 0xA6C1, 0xA781, 0x6740, 0xA501, 0x65C0, 0x6480, 0xA441,
     0x6C00, 0xACC1, 0xAD81, 0x6D40, 0xAF01, 0x6FC0, 0x6E80, 0xAE41,
     0xAA01, 0x6AC0, 0x6B80, 0xAB41, 0x6900, 0xA9C1, 0xA881, 0x6840,
     0x7800, 0xB8C1, 0xB981, 0x7940, 0xBB01, 0x7BC0, 0x7A80, 0xBA41,
     0xBE01, 0x7EC0, 0x7F80, 0xBF41, 0x7D00, 0xBDC1, 0xBC81, 0x7C40,
     0xB401, 0x74C0, 0x7580, 0xB541, 0x7700, 0xB7C1, 0xB681, 0x7640,
     0x7200, 0xB2C1, 0xB381, 0x7340, 0xB101, 0x71C0, 0x7080, 0xB041,
     0x5000, 0x90C1, 0x9181, 0x5140, 0x9301, 0x53C0, 0x5280, 0x9241,
     0x9601, 0x56C0, 0x5780, 0x9741, 0x5500, 0x95C1, 0x9481, 0x5440,
     0x9C01, 0x5CC0, 0x5D80, 0x9D41, 0x5F00, 0x9FC1, 0x9E81, 0x5E40,
     0x5A00, 0x9AC1, 0x9B81, 0x5B40, 0x9901, 0x59C0, 0x5880, 0x9841,
     0x8801, 0x48C0, 0x4980, 0x8941, 0x4B00, 0x8BC1, 0x8A81, 0x4A40,
     0x4E00, 0x8EC1, 0x8F81, 0x4F40, 0x8D01, 0x4DC0, 0x4C80, 0x8C41,
     0x4400, 0x84C1, 0x8581, 0x4540, 0x8701, 0x47C0, 0x4680, 0x8641,
     0x8201, 0x42C0, 0x4380, 0x8341, 0x4100, 0x81C1, 0x8081, 0x4040]"

definition crc16_byte :: "u16 \<Rightarrow> u8 \<Rightarrow> u16" where
  "crc16_byte crc data = drop_bit 8 crc XOR crc16_table ! unat ((crc XOR ucast data) AND 0xff)"

fun crc16 :: "u16 \<Rightarrow> u8 list \<Rightarrow> nat \<Rightarrow> u16 option" where
  "crc16 crc buffer 0 = Some crc"
| "crc16 crc [] (Suc len) = None"
| "crc16 crc (b # buffer) (Suc len) = crc16 (crc16_byte crc b) buffer len"

definition crc32_table :: "u32 list" where
  "crc32_table =
    [0x00000000, 0x77073096, 0xEE0E612C, 0x990951BA, 0x076DC419, 0x706AF48F,
     0xE963A535, 0x9E6495A3, 0x0EDB8832, 0x79DCB8A4, 0xE0D5E91E, 0x97D2D988,
     0x09B64C2B, 0x7EB17CBD, 0xE7B82D07, 0x90BF1D91, 0x1DB71064, 0x6AB020F2,
     0xF3B97148, 0x84BE41DE, 0x1ADAD47D, 0x6DDDE4EB, 0xF4D4B551, 0x83D385C7,
     0x136C9856, 0x646BA8C0, 0xFD62F97A, 0x8A65C9EC, 0x14015C4F, 0x63066CD9,
     0xFA0F3D63, 0x8D080DF5, 0x3B6E20C8, 0x4C69105E, 0xD56041E4, 0xA2677172,
     0x3C03E4D1, 0x4B04D447, 0xD20D85FD, 0xA50AB56B, 0x35B5A8FA, 0x42B2986C,
     0xDBBBC9D6, 0xACBCF940, 0x32D86CE3, 0x45DF5C75, 0xDCD60DCF, 0xABD13D59,
     0x26D930AC, 0x51DE003A, 0xC8D75180, 0xBFD06116, 0x21B4F4B5, 0x56B3C423,
     0xCFBA9599, 0xB8BDA50F, 0x2802B89E, 0x5F058808, 0xC60CD9B2, 0xB10BE924,
     0x2F6F7C87, 0x58684C11, 0xC1611DAB, 0xB6662D3D, 0x76DC4190, 0x01DB7106,
     0x98D220BC, 0xEFD5102A, 0x71B18589, 0x06B6B51F, 0x9FBFE4A5, 0xE8B8D433,
     0x7807C9A2, 0x0F00F934, 0x9609A88E, 0xE10E9818, 0x7F6A0DBB, 0x086D3D2D,
     0x91646C97, 0xE6635C01, 0x6B6B51F4, 0x1C6C6162, 0x856530D8, 0xF262004E,
     0x6C0695ED, 0x1B01A57B, 0x8208F4C1, 0xF50FC457, 0x65B0D9C6, 0x12B7E950,
     0x8BBEB8EA, 0xFCB9887C, 0x62DD1DDF, 0x15DA2D49, 0x8CD37CF3, 0xFBD44C65,
     0x4DB26158, 0x3AB551CE, 0xA3BC0074, 0xD4BB30E2, 0x4ADFA541, 0x3DD895D7,
     0xA4D1C46D, 0xD3D6F4FB, 0x4369E96A, 0x346ED9FC, 0xAD678846, 0xDA60B8D0,
     0x44042D73, 0x33031DE5, 0xAA0A4C5F, 0xDD0D7CC9, 0x5005713C, 0x270241AA,
     0xBE0B1010, 0xC90C2086, 0x5768B525, 0x206F85B3, 0xB966D409, 0xCE61E49F,
     0x5EDEF90E, 0x29D9C998, 0xB0D09822, 0xC7D7A8B4, 0x59B33D17, 0x2EB40D81,
     0xB7BD5C3B, 0xC0BA6CAD, 0xEDB88320, 0x9ABFB3B6, 0x03B6E20C, 0x74B1D29A,
     0xEAD54739, 0x9DD277AF, 0x04DB2615, 0x73DC1683, 0xE3630B12, 0x94643B84,
     0x0D6D6A3E, 0x7A6A5AA8, 0xE40ECF0B, 0x9309FF9D, 0x0A00AE27, 0x7D079EB1,
     0xF00F9344, 0x8708A3D2, 0x1E01F268, 0x6906C2FE, 0xF762575D, 0x806567CB,
     0x196C3671, 0x6E6B06E7, 0xFED41B76, 0x89D32BE0, 0x10DA7A5A, 0x67DD4ACC,
     0xF9B9DF6F, 0x8EBEEFF9, 0x17B7BE43, 0x60B08ED5, 0xD6D6A3E8, 0xA1D1937E,
     0x38D8C2C4, 0x4FDFF252, 0xD1BB67F1, 0xA6BC5767, 0x3FB506DD, 0x48B2364B,
     0xD80D2BDA, 0xAF0A1B4C, 0x36034AF6, 0x41047A60, 0xDF60EFC3, 0xA867DF55,
     0x316E8EEF, 0x4669BE79, 0xCB61B38C, 0xBC66831A, 0x256FD2A0, 0x5268E236,
     0xCC0C7795, 0xBB0B4703, 0x220216B9, 0x5505262F, 0xC5BA3BBE, 0xB2BD0B28,
     0x2BB45A92, 0x5CB36A04, 0xC2D7FFA7, 0xB5D0CF31, 0x2CD99E8B, 0x5BDEAE1D,
     0x9B64C2B0, 0xEC63F226, 0x756AA39C, 0x026D930A, 0x9C0906A9, 0xEB0E363F,
     0x72076785, 0x05005713, 0x95BF4A82, 0xE2B87A14, 0x7BB12BAE, 0x0CB61B38,
     0x92D28E9B, 0xE5D5BE0D, 0x7CDCEFB7, 0x0BDBDF21, 0x86D3D2D4, 0xF1D4E242,
     0x68DDB3F8, 0x1FDA836E, 0x81BE16CD, 0xF6B9265B, 0x6FB077E1, 0x18B74777,
     0x88085AE6, 0xFF0F6A70, 0x66063BCA, 0x11010B5C, 0x8F659EFF, 0xF862AE69,
     0x616BFFD3, 0x166CCF45, 0xA00AE278, 0xD70DD2EE, 0x4E048354, 0x3903B3C2,
     0xA7672661, 0xD06016F7, 0x4969474D, 0x3E6E77DB, 0xAED16A4A, 0xD9D65ADC,
     0x40DF0B66, 0x37D83BF0, 0xA9BCAE53, 0xDEBB9EC5, 0x47B2CF7F, 0x30B5FFE9,
     0xBDBDF21C, 0xCABAC28A, 0x53B39330, 0x24B4A3A6, 0xBAD03605, 0xCDD70693,
     0x54DE5729, 0x23D967BF, 0xB3667A2E, 0xC4614AB8, 0x5D681B02, 0x2A6F2B94,
     0xB40BBE37, 0xC30C8EA1, 0x5A05DF1B, 0x2D02EF8D]"

definition crc_shift :: "'w::len word \<Rightarrow> 'w word \<Rightarrow> 'w word" where
  "crc_shift poly c = (if c AND 1 \<noteq> 0 then poly XOR drop_bit 1 c else drop_bit 1 c)"

definition make_crc_table :: "u32 list" where
  "make_crc_table = map (\<lambda>n. (crc_shift 0xedb88320 ^^ 8) (word_of_nat n)) [0..<256]"

fun crc32_loop :: "u32 list \<Rightarrow> u32 \<Rightarrow> u8 list \<Rightarrow> nat \<Rightarrow> u32 option" where
  "crc32_loop table c buf 0 = Some c"
| "crc32_loop table c [] (Suc len) = None"
| "crc32_loop table c (b # buf) (Suc len) =
     crc32_loop table (table ! unat ((c XOR ucast b) AND 0xff) XOR drop_bit 8 c) buf len"

definition crc32 :: "u32 list \<Rightarrow> u32 \<Rightarrow> u8 list \<Rightarrow> nat \<Rightarrow> u32 option" where
  "crc32 table crc buf len =
     map_option (\<lambda>c. c XOR 0xffffffff) (crc32_loop table (crc XOR 0xffffffff) buf len)"

section \<open>The shift step\<close>

lemma crc_shift_odd: "crc_shift poly c = (if bit c 0 then poly XOR drop_bit 1 c else drop_bit 1 c)"
proof -
  have "(c AND 1 \<noteq> 0) = bit c 0" by (simp add: bit_0 and_one_eq odd_iff_mod_2_eq_one)
  then show ?thesis by (simp add: crc_shift_def)
qed

lemma crc_shift_xor: "crc_shift poly (a XOR b) = crc_shift poly a XOR crc_shift poly b"
  by (rule bit_word_eqI) (auto simp: crc_shift_odd bit_simps)

lemma crc_shifts_xor:
  "(crc_shift poly ^^ n) (a XOR b) = (crc_shift poly ^^ n) a XOR (crc_shift poly ^^ n) b"
  by (induction n) (simp_all add: crc_shift_xor)

lemma crc_shifts_drop:
  assumes "\<forall>i<n. \<not> bit x i"
  shows "(crc_shift poly ^^ n) x = drop_bit n x"
  using assms
proof (induction n)
  case (Suc n)
  then have "\<not> bit (drop_bit n x) 0" by (simp add: bit_simps)
  with Suc show ?case by (simp add: crc_shift_odd)
qed simp

lemma crc_shifts_push:
  assumes "\<forall>i\<ge>LENGTH('w) - n. \<not> bit (x :: 'w::len word) i"
  shows "(crc_shift poly ^^ n) (push_bit n x) = x"
proof -
  have "(crc_shift poly ^^ n) (push_bit n x) = drop_bit n (push_bit n x)"
    by (intro crc_shifts_drop) (simp add: bit_simps)
  also have "\<dots> = x"
  proof (rule bit_word_eqI)
    fix i assume "i < LENGTH('w)"
    show "bit (drop_bit n (push_bit n x)) i = bit x i"
    proof (cases "n + i < LENGTH('w)")
      case True then show ?thesis by (simp add: bit_simps)
    next
      case False then show ?thesis using assms by (simp add: bit_simps)
    qed
  qed
  finally show ?thesis .
qed

section \<open>The reference: serial polynomial division\<close>

text \<open>One shift of the division register per message bit, least significant bit first.\<close>

definition lfsr_bit :: "'w::len word \<Rightarrow> 'w word \<Rightarrow> bool \<Rightarrow> 'w word" where
  "lfsr_bit poly c b = (if bit c 0 \<noteq> b then drop_bit 1 c XOR poly else drop_bit 1 c)"

definition message_bits :: "u8 list \<Rightarrow> bool list" where
  "message_bits xs = concat (map (\<lambda>b. map (bit b) [0..<8]) xs)"

definition lfsr :: "'w::len word \<Rightarrow> 'w word \<Rightarrow> u8 list \<Rightarrow> 'w word" where
  "lfsr poly c xs = foldl (lfsr_bit poly) c (message_bits xs)"

lemma lfsr_bit_shift: "lfsr_bit poly c b = crc_shift poly (c XOR of_bool b)"
  by (rule bit_word_eqI) (auto simp: lfsr_bit_def crc_shift_odd bit_simps bit_1_iff)

lemma lfsr_bits:
  fixes x c :: "'w::len word"
  assumes "n \<le> LENGTH('w)"
  shows "foldl (lfsr_bit poly) c (map (bit x) [0..<n]) = (crc_shift poly ^^ n) (c XOR take_bit n x)"
  using assms
proof (induction n)
  case (Suc n)
  have "\<forall>i\<ge>LENGTH('w) - n. \<not> bit (of_bool (bit x n) :: 'w word) i"
    using Suc.prems by (auto simp: bit_1_iff)
  then have p: "(crc_shift poly ^^ n) (push_bit n (of_bool (bit x n))) = of_bool (bit x n)"
    by (rule crc_shifts_push)
  have "take_bit (Suc n) x = take_bit n x XOR push_bit n (of_bool (bit x n))"
    using Suc.prems by (intro bit_word_eqI) (auto simp: bit_simps bit_1_iff less_Suc_eq)
  with Suc p show ?case
    by (simp add: lfsr_bit_shift crc_shifts_xor flip: xor.assoc)
qed simp

section \<open>The engine\<close>

text \<open>What the register holds after \<open>ds\<close> has been fed into it, before it is shifted.\<close>

fun crc_pack :: "u8 list \<Rightarrow> 'w::len word" where
  "crc_pack [] = 0"
| "crc_pack (d # ds) = ucast d XOR push_bit 8 (crc_pack ds)"

lemma bit_byte_high: "8 \<le> i \<Longrightarrow> \<not> bit (d :: u8) i"
  by (auto dest: bit_imp_le_length)

lemma bit_ucast_byte: "bit (ucast (d :: u8) :: 'w::len word) i \<longleftrightarrow> i < LENGTH('w) \<and> bit d i"
  by (simp add: bit_ucast_iff)

lemma xor_zero_eq: "a XOR b = 0 \<Longrightarrow> a = (b :: 'w::len word)"
  by (metis xor.assoc xor.left_neutral xor.right_neutral xor_self_eq)

lemma crc_pack_high: "8 * length ds \<le> i \<Longrightarrow> \<not> bit (crc_pack ds :: 'w::len word) i"
  by (induction ds arbitrary: i) (auto simp: bit_simps bit_ucast_byte bit_byte_high)

lemma crc_pack_inj:
  assumes "length ds = length es" "8 * length ds \<le> LENGTH('w)" "(crc_pack ds :: 'w::len word) = crc_pack es"
  shows "ds = es"
  using assms
proof (induction ds es rule: list_induct2)
  case (Cons d ds e es)
  have eq: "bit (crc_pack (d # ds) :: 'w word) i = bit (crc_pack (e # es) :: 'w word) i" for i
    using Cons.prems(2) by simp
  have "bit d i = bit e i" if "i < 8" for i
    using eq [of i] that Cons.prems(1) by (simp add: bit_simps bit_ucast_byte)
  moreover have "bit (crc_pack ds :: 'w word) i = bit (crc_pack es :: 'w word) i" for i
  proof (cases "i < 8 * length ds")
    case True
    then show ?thesis
      using eq [of "i + 8"] Cons.prems(1) by (simp add: bit_simps bit_ucast_byte bit_byte_high)
  next
    case False then show ?thesis using Cons.hyps by (simp add: crc_pack_high)
  qed
  ultimately show ?case using Cons.IH Cons.prems(1) by (simp add: bit_word_eqI bit_eq_iff)
qed simp

locale crc_engine =
  fixes poly :: "'w::len word" and table :: "'w word list"
  assumes table: "table = map (\<lambda>n. (crc_shift poly ^^ 8) (word_of_nat n)) [0..<256]"
    and top: "bit poly (LENGTH('w) - 1)"
    and wide: "8 < LENGTH('w)"
begin

lemma shifts_inj: "(crc_shift poly ^^ n) a = (crc_shift poly ^^ n) b \<Longrightarrow> a = b"
proof (induction n)
  case (Suc n)
  define d where "d = (crc_shift poly ^^ n) a XOR (crc_shift poly ^^ n) b"
  have z: "crc_shift poly d = 0" using Suc.prems by (simp add: d_def crc_shift_xor)
  have "\<not> bit (drop_bit 1 d) (LENGTH('w) - 1)" using wide by (simp add: bit_simps)
  with top have "poly XOR drop_bit 1 d \<noteq> 0" by (metis bit_0_eq bit_xor_iff bot_apply bot_bool_def)
  with z have d: "\<not> bit d 0" "drop_bit 1 d = 0" by (auto simp: crc_shift_odd split: if_splits)
  have "\<not> bit d i" for i
  proof (cases i)
    case (Suc j) then show ?thesis using arg_cong [OF d(2), of "\<lambda>x. bit x j"] by (simp add: bit_simps)
  qed (use d in simp)
  then have "d = 0" by (intro bit_word_eqI) simp
  then have "(crc_shift poly ^^ n) a = (crc_shift poly ^^ n) b"
    by (simp add: d_def xor_zero_eq)
  then show ?case by (rule Suc.IH)
qed simp

lemma table_step:
  "table ! unat ((c XOR ucast (b :: u8)) AND 0xff) XOR drop_bit 8 c = (crc_shift poly ^^ 8) (c XOR ucast b)"
proof -
  let ?x = "c XOR ucast b"
  have m: "?x AND 0xff = take_bit 8 ?x"
    using take_bit_eq_mask [of 8 ?x] by (simp add: mask_eq_exp_minus_1)
  have "unat (take_bit 8 ?x) = take_bit 8 (unat ?x)"
    by (rule unsigned_take_bit_eq)
  then have "unat (take_bit 8 ?x) < 256" by (simp add: take_bit_eq_mod)
  then have "table ! unat (?x AND 0xff) = (crc_shift poly ^^ 8) (take_bit 8 ?x)"
    by (simp add: table m)
  moreover have "drop_bit 8 c = (crc_shift poly ^^ 8) (?x AND NOT (mask 8))"
  proof -
    have "(crc_shift poly ^^ 8) (?x AND NOT (mask 8)) = drop_bit 8 (?x AND NOT (mask 8))"
      by (rule crc_shifts_drop) (simp add: bit_simps)
    also have "\<dots> = drop_bit 8 c"
      by (rule bit_word_eqI) (auto simp: bit_simps bit_ucast_byte bit_byte_high dest: bit_imp_le_length)
    finally show ?thesis by simp
  qed
  moreover have "take_bit 8 ?x XOR (?x AND NOT (mask 8)) = ?x"
    by (rule bit_word_eqI) (auto simp: bit_simps)
  ultimately show ?thesis by (metis crc_shifts_xor)
qed

definition feed :: "'w word \<Rightarrow> u8 \<Rightarrow> 'w word" where
  "feed c b = (crc_shift poly ^^ 8) (c XOR ucast b)"

lemma feed_lfsr: "foldl feed c xs = lfsr poly c xs"
proof (induction xs arbitrary: c)
  case (Cons b xs)
  have m: "map (bit b) [0..<8] = map (bit (ucast b :: 'w word)) [0..<8]"
    using wide by (intro map_cong) (auto simp: bit_ucast_byte)
  have t: "take_bit 8 (ucast b :: 'w word) = ucast b"
    by (rule bit_word_eqI) (auto simp: bit_simps bit_ucast_byte dest: bit_imp_le_length)
  have "foldl (lfsr_bit poly) c (map (bit b) [0..<8]) = feed c b"
    unfolding m feed_def using lfsr_bits [of 8 poly c "ucast b"] wide t by simp
  then show ?case using Cons by (simp add: lfsr_def message_bits_def)
qed (simp add: lfsr_def message_bits_def)

lemma feed_inj: "foldl feed a xs = foldl feed b xs \<Longrightarrow> a = b"
proof (induction xs arbitrary: a b)
  case (Cons x xs)
  from Cons.IH [OF Cons.prems [simplified]] have "a XOR ucast x = b XOR ucast x"
    by (auto simp: feed_def dest: shifts_inj)
  then have "(a XOR ucast x) XOR ucast x = (b XOR ucast x) XOR ucast x" by simp
  then show ?case by (simp only: xor.assoc xor_self_eq xor.right_neutral)
qed simp

lemma feed_pack:
  assumes "8 * length ds \<le> LENGTH('w)"
  shows "foldl feed c ds = (crc_shift poly ^^ (8 * length ds)) (c XOR crc_pack ds)"
  using assms
proof (induction ds arbitrary: c)
  case (Cons d ds)
  have "\<forall>i\<ge>LENGTH('w) - 8. \<not> bit (crc_pack ds :: 'w word) i"
    using Cons.prems by (auto intro!: crc_pack_high)
  then have "feed c d XOR crc_pack ds = (crc_shift poly ^^ 8) (c XOR crc_pack (d # ds))"
    by (simp add: feed_def crc_shifts_xor crc_shifts_push flip: xor.assoc)
  moreover have "8 * length (d # ds) = 8 * length ds + 8" by simp
  ultimately show ?case using Cons by (simp only: funpow_add comp_apply foldl_Cons)
qed simp

lemma burst_detected:
  assumes "length ds = length es" "8 * length ds \<le> LENGTH('w)" "ds \<noteq> es"
  shows "foldl feed c (xs @ ds @ zs) \<noteq> foldl feed c (xs @ es @ zs)"
proof
  define a where "a = foldl feed c xs"
  assume "foldl feed c (xs @ ds @ zs) = foldl feed c (xs @ es @ zs)"
  then have "foldl feed a ds = foldl feed a es" by (simp add: a_def feed_inj)
  then have "a XOR crc_pack ds = a XOR crc_pack es"
    using assms by (simp add: feed_pack shifts_inj)
  then have "a XOR (a XOR crc_pack ds) = a XOR (a XOR crc_pack es)" by simp
  then have "(crc_pack ds :: 'w word) = crc_pack es" by (simp flip: xor.assoc)
  with crc_pack_inj assms show False by blast
qed

end

section \<open>The tables\<close>

text \<open>
  A table by doubling: for the register contents \<open>2 m\<close> and \<open>2 m + 1\<close> the first shift gives \<open>m\<close> and
  \<open>m XOR poly\<close>, so each further bit doubles the table with one \<open>XOR\<close> per entry. This evaluates the
  256 entries quickly in the kernel.
\<close>

fun crc_doubling :: "'w::len word list \<Rightarrow> 'w word list" where
  "crc_doubling [] = [0]"
| "crc_doubling (c # cs) = concat (map (\<lambda>x. [x, x XOR c]) (crc_doubling cs))"

lemma upt_double: "[0..<2 * n] = concat (map (\<lambda>m. [2 * m, 2 * m + 1]) [0..<n])"
  by (induction n) simp_all

lemma crc_shift_double:
  assumes "2 * n + 1 < 2 ^ LENGTH('w::len)"
  shows "crc_shift (poly :: 'w word) (word_of_nat (2 * n)) = word_of_nat n"
    "crc_shift poly (word_of_nat (2 * n + 1)) = word_of_nat n XOR poly"
proof -
  have d: "drop_bit 1 (word_of_nat m :: 'w word) = word_of_nat (m div 2)" if "m < 2 ^ LENGTH('w)" for m
  proof -
    have "unat (drop_bit 1 (word_of_nat m :: 'w word)) = m div 2"
      using unsigned_drop_bit_eq [of 1 "word_of_nat m :: 'w word", where ?'a = nat] that
      by (simp only: unat_of_nat take_bit_eq_mod mod_mod_trivial mod_less drop_bit_Suc One_nat_def drop_bit_0 id_apply)
    moreover have "m div 2 < 2 ^ LENGTH('w)" using that by simp
    ultimately show ?thesis by (simp only: word_unat_eq_iff unat_of_nat mod_less)
  qed
  show "crc_shift (poly :: 'w word) (word_of_nat (2 * n)) = word_of_nat n"
    "crc_shift poly (word_of_nat (2 * n + 1)) = word_of_nat n XOR poly"
    unfolding crc_shift_odd using d [of "2 * n"] d [of "2 * n + 1"] assms
    by (simp_all add: bit_0 xor.commute)
qed

lemma crc_table_doubling:
  assumes "k \<le> LENGTH('w::len)"
  shows "map (\<lambda>n. (crc_shift (poly :: 'w word) ^^ k) (word_of_nat n)) [0..<2 ^ k] =
    crc_doubling (map (\<lambda>i. (crc_shift poly ^^ i) poly) (rev [0..<k]))"
  using assms
proof (induction k)
  case (Suc k)
  let ?L = "crc_shift poly"
  have b: "2 * m + 1 < 2 ^ LENGTH('w)" if "m < 2 ^ k" for m :: nat
  proof -
    have "2 * m + 1 < (2::nat) ^ Suc k" using that by simp
    also have "(2::nat) ^ Suc k \<le> 2 ^ LENGTH('w)" using Suc.prems by (intro power_increasing) simp_all
    finally show ?thesis .
  qed
  have "map (\<lambda>n. (?L ^^ Suc k) (word_of_nat n)) [0..<2 ^ Suc k] =
      concat (map (\<lambda>m. [(?L ^^ Suc k) (word_of_nat (2 * m)), (?L ^^ Suc k) (word_of_nat (2 * m + 1))]) [0..<2 ^ k])"
    by (simp only: power_Suc upt_double map_concat map_map comp_def list.map)
  also have "\<dots> = concat (map (\<lambda>m. [(?L ^^ k) (word_of_nat m), (?L ^^ k) (word_of_nat m) XOR (?L ^^ k) poly]) [0..<2 ^ k])"
    using b by (intro arg_cong [of _ _ concat] map_cong refl)
      (simp only: funpow_Suc_right comp_def crc_shift_double crc_shifts_xor set_upt atLeastLessThan_iff)
  also have "\<dots> = concat (map (\<lambda>x. [x, x XOR (?L ^^ k) poly])
      (map (\<lambda>n. (?L ^^ k) (word_of_nat n)) [0..<2 ^ k]))"
    by (simp add: comp_def)
  finally show ?case using Suc by simp
qed simp

lemma crc_shift_steps:
  "crc_shift 0xedb88320 0xedb88320 = (0x76dc4190 :: u32)"
  "crc_shift 0xedb88320 0x76dc4190 = (0x3b6e20c8 :: u32)"
  "crc_shift 0xedb88320 0x3b6e20c8 = (0x1db71064 :: u32)"
  "crc_shift 0xedb88320 0x1db71064 = (0xedb8832 :: u32)"
  "crc_shift 0xedb88320 0xedb8832 = (0x76dc419 :: u32)"
  "crc_shift 0xedb88320 0x76dc419 = (0xee0e612c :: u32)"
  "crc_shift 0xedb88320 0xee0e612c = (0x77073096 :: u32)"
  "crc_shift 0xa001 0xa001 = (0xf001 :: u16)"
  "crc_shift 0xa001 0xf001 = (0xd801 :: u16)"
  "crc_shift 0xa001 0xd801 = (0xcc01 :: u16)"
  "crc_shift 0xa001 0xcc01 = (0xc601 :: u16)"
  "crc_shift 0xa001 0xc601 = (0xc301 :: u16)"
  "crc_shift 0xa001 0xc301 = (0xc181 :: u16)"
  "crc_shift 0xa001 0xc181 = (0xc0c1 :: u16)"
  by (simp_all add: crc_shift_def)

lemma crc_table_constants:
  "map (\<lambda>i. (crc_shift 0xedb88320 ^^ i) 0xedb88320) (rev [0..<8]) =
    ([0x77073096, 0xee0e612c, 0x76dc419, 0xedb8832, 0x1db71064, 0x3b6e20c8, 0x76dc4190, 0xedb88320] :: u32 list)"
  "map (\<lambda>i. (crc_shift 0xa001 ^^ i) 0xa001) (rev [0..<8]) =
    ([0xc0c1, 0xc181, 0xc301, 0xc601, 0xcc01, 0xd801, 0xf001, 0xa001] :: u16 list)"
  by (simp_all add: eval_nat_numeral crc_shift_steps)

lemma crc32_table_ok: "crc32_table = map (\<lambda>n. (crc_shift 0xedb88320 ^^ 8) (word_of_nat n)) [0..<256]"
proof -
  have "crc32_table = crc_doubling (map (\<lambda>i. (crc_shift 0xedb88320 ^^ i) 0xedb88320) (rev [0..<8]))"
    unfolding crc_table_constants by (simp add: crc32_table_def)
  also have "\<dots> = map (\<lambda>n. (crc_shift 0xedb88320 ^^ 8) (word_of_nat n)) [0..<2 ^ 8]"
    by (rule crc_table_doubling [symmetric]) simp
  also have "(2::nat) ^ 8 = 256" by simp
  finally show ?thesis .
qed

lemma crc16_table_ok: "crc16_table = map (\<lambda>n. (crc_shift 0xa001 ^^ 8) (word_of_nat n)) [0..<256]"
proof -
  have "crc16_table = crc_doubling (map (\<lambda>i. (crc_shift 0xa001 ^^ i) 0xa001) (rev [0..<8]))"
    unfolding crc_table_constants by (simp add: crc16_table_def)
  also have "\<dots> = map (\<lambda>n. (crc_shift 0xa001 ^^ 8) (word_of_nat n)) [0..<2 ^ 8]"
    by (rule crc_table_doubling [symmetric]) simp
  also have "(2::nat) ^ 8 = 256" by simp
  finally show ?thesis .
qed

interpretation c16: crc_engine "0xa001 :: u16" crc16_table
  by unfold_locales (simp_all add: crc16_table_ok)

interpretation c32: crc_engine "0xedb88320 :: u32" crc32_table
  by unfold_locales (simp_all add: crc32_table_ok)

lemma make_crc_table_eq: "make_crc_table = crc32_table"
  by (simp only: make_crc_table_def crc32_table_ok)

section \<open>The loops\<close>

lemma crc16_feed: "crc16_byte c b = c16.feed c b"
  using c16.table_step [of c b] by (simp add: crc16_byte_def c16.feed_def xor.commute)

lemma crc16_foldl:
  "crc16 c xs n = (if n \<le> length xs then Some (foldl c16.feed c (take n xs)) else None)"
  by (induction c xs n rule: crc16.induct) (simp_all add: crc16_feed)

lemma crc32_loop_foldl:
  "crc32_loop crc32_table c xs n = (if n \<le> length xs then Some (foldl c32.feed c (take n xs)) else None)"
proof (induction crc32_table c xs n rule: crc32_loop.induct)
  case (3 c b xs n)
  then show ?case using c32.table_step [of c b] by (simp add: c32.feed_def)
qed simp_all

lemma crc32_foldl:
  "crc32 crc32_table c xs n = (if n \<le> length xs
     then Some (foldl c32.feed (c XOR 0xffffffff) (take n xs) XOR 0xffffffff) else None)"
  by (simp add: crc32_def crc32_loop_foldl)

lemma crc_continue:
  "Option.bind (crc16 a xs n) (\<lambda>a'. crc16 a' (drop n xs) m) = crc16 a xs (n + m)"
  "Option.bind (crc32 crc32_table c xs n) (\<lambda>c'. crc32 crc32_table c' (drop n xs) m) =
     crc32 crc32_table c xs (n + m)"
  by (auto simp: crc16_foldl crc32_foldl take_add xor.assoc simp flip: foldl_append)

section \<open>Properties\<close>

text \<open>C32: Both table-driven checksums compute the serial division of the message, bit by bit, by their
  polynomial (reflected \<open>0x8005\<close>, resp. the PNG polynomial with its pre- and post-inversion),
  whichever of the two CRC-32 table variants is built; they read exactly \<open>len\<close> bytes, and a
  checksum can be continued over consecutive pieces of a message.\<close>

theorem crc_is_serial_division:
  assumes "n + m \<le> length xs"
  shows "crc16 a xs n = Some (lfsr 0xa001 a (take n xs)) \<and>
    (\<forall>table \<in> {crc32_table, make_crc_table}.
      crc32 table c xs n = Some (lfsr 0xedb88320 (c XOR 0xffffffff) (take n xs) XOR 0xffffffff)) \<and>
    Option.bind (crc16 a xs n) (\<lambda>a'. crc16 a' (drop n xs) m) = crc16 a xs (n + m) \<and>
    Option.bind (crc32 crc32_table c xs n) (\<lambda>c'. crc32 crc32_table c' (drop n xs) m) =
      crc32 crc32_table c xs (n + m)"
proof -
  have "crc16 a xs n = Some (lfsr 0xa001 a (take n xs))"
    using assms by (simp add: crc16_foldl c16.feed_lfsr)
  moreover have "crc32 crc32_table c xs n =
      Some (lfsr 0xedb88320 (c XOR 0xffffffff) (take n xs) XOR 0xffffffff)"
    using assms by (simp add: crc32_foldl c32.feed_lfsr)
  ultimately show ?thesis
    by (intro conjI crc_continue ballI) (simp_all add: make_crc_table_eq)
qed

theorem crc_is_serial_division_witness:
  "crc16 0 [1, 2, 3] 2 = Some (lfsr 0xa001 0 [1, 2]) \<and>
   crc32 make_crc_table 7 [1, 2, 3] 2 = Some (lfsr 0xedb88320 (7 XOR 0xffffffff) [1, 2] XOR 0xffffffff)"
  using crc_is_serial_division [of 2 1 "[1, 2, 3]" 0 7] by simp

text \<open>C33: A burst of errors is always detected: two messages of the same length that differ only within
  two adjacent bytes have different CRC-16s, and within four adjacent bytes different CRC-32s.\<close>

theorem crc_detects_bursts:
  assumes "length ds = length es" "ds \<noteq> es"
  shows "(length ds \<le> 2 \<longrightarrow>
      crc16 a (xs @ ds @ zs) (length (xs @ ds @ zs)) \<noteq> crc16 a (xs @ es @ zs) (length (xs @ es @ zs))) \<and>
    (length ds \<le> 4 \<longrightarrow> crc32 crc32_table c (xs @ ds @ zs) (length (xs @ ds @ zs)) \<noteq>
      crc32 crc32_table c (xs @ es @ zs) (length (xs @ es @ zs)))"
proof -
  have "x = y" if "x XOR 0xffffffff = y XOR 0xffffffff" for x y :: u32
    using arg_cong [OF that, of "\<lambda>z. z XOR 0xffffffff"] by (simp only: xor.assoc xor_self_eq xor.right_neutral)
  then show ?thesis
    using c16.burst_detected [OF assms(1) _ assms(2), of a xs zs]
      c32.burst_detected [OF assms(1) _ assms(2), of "c XOR 0xffffffff" xs zs]
    by (auto simp: crc16_foldl crc32_foldl simp del: foldl_append)
qed

theorem crc_detects_bursts_witness:
  "crc16 0 [9, 1, 2, 7] 4 \<noteq> crc16 0 [9, 3, 4, 7] 4 \<and>
   crc32 crc32_table 0 [9, 1, 2, 7] 4 \<noteq> crc32 crc32_table 0 [9, 3, 4, 7] 4"
  using crc_detects_bursts [of "[1, 2]" "[3, 4]" 0 "[9]" "[7]" 0] by (simp add: numeral_eq_Suc del: crc16.simps)

end
