(* ===== verification/Sysfreq.thy ===== *)
theory Sysfreq
  imports Lb_Prelude
begin

text \<open>
  \<^verbatim>\<open>platform/hal/hal_sysfreq.c\<close>: every user of the system clock files a frequency request, the clock
  runs at the highest one, but never below a floor. \<open>top_user\<close> caches who holds the highest request;
  \<open>HAL_SYSFREQ_USER_QTY\<close> there means that nobody has asked yet. The interrupt lock makes each call
  atomic. The drivers \<open>hal_cmu_sys_set_freq\<close> and \<open>pmu_sys_freq_config\<close> are seen through what they
  set: the clock and, in order, the list of hardware events. \<open>ULTRA_LOW_POWER\<close> and \<open>ROM_BUILD\<close> are off,
  as in this repository's build.
\<close>

datatype hal_cmu_freq = HAL_CMU_FREQ_32K | HAL_CMU_FREQ_26M | HAL_CMU_FREQ_52M
  | HAL_CMU_FREQ_78M | HAL_CMU_FREQ_104M | HAL_CMU_FREQ_208M | HAL_CMU_FREQ_QTY

fun freq_code :: "hal_cmu_freq \<Rightarrow> nat" where
  "freq_code HAL_CMU_FREQ_32K = 0"
| "freq_code HAL_CMU_FREQ_26M = 1"
| "freq_code HAL_CMU_FREQ_52M = 2"
| "freq_code HAL_CMU_FREQ_78M = 3"
| "freq_code HAL_CMU_FREQ_104M = 4"
| "freq_code HAL_CMU_FREQ_208M = 5"
| "freq_code HAL_CMU_FREQ_QTY = 6"

lemma freq_code_inj: "freq_code a = freq_code b \<Longrightarrow> a = b"
  by (cases a; cases b) simp_all

instantiation hal_cmu_freq :: linorder
begin

definition less_eq_hal_cmu_freq :: "hal_cmu_freq \<Rightarrow> hal_cmu_freq \<Rightarrow> bool" where
  "less_eq_hal_cmu_freq a b = (freq_code a \<le> freq_code b)"

definition less_hal_cmu_freq :: "hal_cmu_freq \<Rightarrow> hal_cmu_freq \<Rightarrow> bool" where
  "less_hal_cmu_freq a b = (freq_code a < freq_code b)"

instance
  by standard (auto simp: less_eq_hal_cmu_freq_def less_hal_cmu_freq_def freq_code_inj)

end

definition HAL_SYSFREQ_USER_QTY :: nat where
  "HAL_SYSFREQ_USER_QTY = 21"

datatype hw_event = Cmu_Set hal_cmu_freq | Pmu_Config hal_cmu_freq

text \<open>\<open>sysfreq_per_user\<close> is the byte view of the six words of \<open>sysfreq_bundle\<close>: 21 users, 3 bytes of padding.\<close>

record sysfreq =
  sysfreq_per_user :: "hal_cmu_freq list"
  top_user :: nat
  min_sysfreq :: hal_cmu_freq
  cmu_freq :: hal_cmu_freq
  hw_events :: "hw_event list"

definition sysfreq_init :: "hal_cmu_freq \<Rightarrow> sysfreq" where
  "sysfreq_init boot = \<lparr>sysfreq_per_user = replicate 24 HAL_CMU_FREQ_32K,
     top_user = HAL_SYSFREQ_USER_QTY, min_sysfreq = HAL_CMU_FREQ_26M, cmu_freq = boot, hw_events = []\<rparr>"

definition hal_cmu_sys_set_freq :: "hal_cmu_freq \<Rightarrow> sysfreq \<Rightarrow> sysfreq" where
  "hal_cmu_sys_set_freq freq s =
     (if freq \<ge> HAL_CMU_FREQ_QTY then s
      else s\<lparr>cmu_freq := freq, hw_events := hw_events s @ [Cmu_Set freq]\<rparr>)"

definition pmu_sys_freq_config :: "hal_cmu_freq \<Rightarrow> sysfreq \<Rightarrow> sysfreq" where
  "pmu_sys_freq_config freq s = s\<lparr>hw_events := hw_events s @ [Pmu_Config freq]\<rparr>"

definition hal_sysfreq_revise_freq :: "sysfreq \<Rightarrow> hal_cmu_freq \<Rightarrow> hal_cmu_freq" where
  "hal_sysfreq_revise_freq s freq = (if freq > min_sysfreq s then freq else min_sysfreq s)"

definition hal_sysfreq_get :: "sysfreq \<Rightarrow> hal_cmu_freq" where
  "hal_sysfreq_get s =
     (if top_user s < HAL_SYSFREQ_USER_QTY then sysfreq_per_user s ! top_user s else cmu_freq s)"



text \<open>The loop that looks for the highest request, over the users 1 to 20.\<close>

definition top_scan :: "hal_cmu_freq list \<Rightarrow> hal_cmu_freq \<times> nat" where
  "top_scan per_user =
     foldl (\<lambda>(freq, user) i. if freq < per_user ! i then (per_user ! i, i) else (freq, user))
       (per_user ! 0, 0) [1..<HAL_SYSFREQ_USER_QTY]"

definition hal_sysfreq_req :: "nat \<Rightarrow> hal_cmu_freq \<Rightarrow> sysfreq \<Rightarrow> nat \<times> sysfreq" where
  "hal_sysfreq_req user freq s =
     (if user \<ge> HAL_SYSFREQ_USER_QTY then (1, s)
      else if freq \<ge> HAL_CMU_FREQ_QTY then (2, s)
      else
        (let cur_sys_freq = hal_sysfreq_get s;
             s = s\<lparr>sysfreq_per_user := (sysfreq_per_user s)[user := freq]\<rparr> in
         if freq = cur_sys_freq then (0, s\<lparr>top_user := user\<rparr>)
         else if freq > cur_sys_freq then
           (let s = s\<lparr>top_user := user\<rparr>;
                freq = hal_sysfreq_revise_freq s freq;
                s = pmu_sys_freq_config freq s;
                s = hal_cmu_sys_set_freq freq s in
            (0, s))
         else if top_user s = user \<or> top_user s = HAL_SYSFREQ_USER_QTY then
           (let (freq, user) = (if top_user s = user then top_scan (sysfreq_per_user s) else (freq, user));
                s = s\<lparr>top_user := user\<rparr> in
            if freq \<noteq> cur_sys_freq then
              (let freq = hal_sysfreq_revise_freq s freq;
                   s = hal_cmu_sys_set_freq freq s;
                   s = pmu_sys_freq_config freq s in
               (0, s))
            else (0, s))
         else (0, s)))"

definition sysfreq_bundle :: "sysfreq \<Rightarrow> nat \<Rightarrow> nat" where
  "sysfreq_bundle s i = (\<Sum>j<4. freq_code (sysfreq_per_user s ! (4 * i + j)) * 256 ^ j)"

definition hal_sysfreq_busy :: "sysfreq \<Rightarrow> nat" where
  "hal_sysfreq_busy s = (if list_ex (\<lambda>i. sysfreq_bundle s i \<noteq> 0) [0..<6] then 1 else 0)"

section \<open>The abstract specification: votes and a floor\<close>






section \<open>Invariant\<close>

definition votes_ok :: "hal_cmu_freq list \<Rightarrow> bool" where
  "votes_ok per \<longleftrightarrow> length per = 24 \<and> (\<forall>i<24. per ! i < HAL_CMU_FREQ_QTY) \<and>
     (\<forall>i<24. 21 \<le> i \<longrightarrow> per ! i = HAL_CMU_FREQ_32K)"

definition sf_inv :: "sysfreq \<Rightarrow> bool" where
  "sf_inv s \<longleftrightarrow> votes_ok (sysfreq_per_user s) \<and>
     min_sysfreq s < HAL_CMU_FREQ_QTY \<and> cmu_freq s < HAL_CMU_FREQ_QTY \<and>
     (if top_user s < HAL_SYSFREQ_USER_QTY
      then (\<forall>i<21. sysfreq_per_user s ! i \<le> sysfreq_per_user s ! top_user s) \<and>
        cmu_freq s = max (min_sysfreq s) (sysfreq_per_user s ! top_user s)
      else top_user s = HAL_SYSFREQ_USER_QTY \<and>
        (\<forall>i<21. sysfreq_per_user s ! i = HAL_CMU_FREQ_32K) \<and> min_sysfreq s \<le> cmu_freq s)"

lemmas sysfreq_set_defs = hal_cmu_sys_set_freq_def pmu_sys_freq_config_def

lemma freq_least [simp]: "HAL_CMU_FREQ_32K \<le> f"
  by (simp add: less_eq_hal_cmu_freq_def)

lemma freq_floor_const: "HAL_CMU_FREQ_26M < HAL_CMU_FREQ_QTY" "HAL_CMU_FREQ_32K < HAL_CMU_FREQ_QTY"
  by (simp_all add: less_hal_cmu_freq_def)

lemma revise_max: "hal_sysfreq_revise_freq s f = max (min_sysfreq s) f"
  by (auto simp: hal_sysfreq_revise_freq_def max_def not_less)

lemma top_scan_upto:
  fixes per :: "hal_cmu_freq list"
  assumes "foldl (\<lambda>(freq, user) i. if freq < per ! i then (per ! i, i) else (freq, user)) (per ! 0, 0) [1..<Suc n] = (f, u)"
  shows "u \<le> n \<and> f = per ! u \<and> (\<forall>i\<le>n. per ! i \<le> f)"
  using assms
proof (induction n arbitrary: f u)
  case (Suc n)
  let ?step = "\<lambda>(freq, user) i. if freq < per ! i then (per ! i, i) else (freq, user)"
  obtain g v where gv: "foldl ?step (per ! 0, 0) [1..<Suc n] = (g, v)" by force
  note IH = Suc.IH [OF this]
  have "(f, u) = (if g < per ! Suc n then (per ! Suc n, Suc n) else (g, v))"
    using Suc.prems gv by simp
  with IH show ?case by (fastforce simp: le_Suc_eq split: if_splits)
qed simp

lemma top_scan_max:
  assumes "top_scan per = (f, u)"
  shows "u < 21 \<and> f = per ! u \<and> (\<forall>i<21. per ! i \<le> f)"
proof -
  have "u \<le> 20 \<and> f = per ! u \<and> (\<forall>i\<le>20. per ! i \<le> f)"
    using assms by (intro top_scan_upto) (simp add: top_scan_def HAL_SYSFREQ_USER_QTY_def)
  then show ?thesis by (auto simp: less_Suc_eq_le)
qed

lemma votes_ok_update:
  assumes "votes_ok per" "u < 21" "f < HAL_CMU_FREQ_QTY"
  shows "votes_ok (per[u := f])" "per[u := f] ! u = f"
    "\<forall>i<21. per ! i \<le> g \<Longrightarrow> f \<le> g \<Longrightarrow> \<forall>i<21. per[u := f] ! i \<le> g"
  using assms by (auto simp: votes_ok_def nth_list_update)

lemma sf_get:
  assumes "sf_inv s"
  shows "\<forall>i<21. sysfreq_per_user s ! i \<le> hal_sysfreq_get s"
    "cmu_freq s = max (min_sysfreq s) (hal_sysfreq_get s)"
    "hal_sysfreq_get s < HAL_CMU_FREQ_QTY"
  using assms by (auto simp: sf_inv_def hal_sysfreq_get_def votes_ok_def HAL_SYSFREQ_USER_QTY_def max_def)


lemma max_below_qty: "a < HAL_CMU_FREQ_QTY \<Longrightarrow> b < HAL_CMU_FREQ_QTY \<Longrightarrow> \<not> HAL_CMU_FREQ_QTY \<le> max a b"
  by (simp add: max_def not_le)

text \<open>What an accepted request does, in the three cases of the code.\<close>

lemma hal_sysfreq_req_same:
  assumes "sf_inv s" "u < 21" "f < HAL_CMU_FREQ_QTY" "f = hal_sysfreq_get s"
  shows "hal_sysfreq_req u f s = (0, s\<lparr>sysfreq_per_user := (sysfreq_per_user s)[u := f], top_user := u\<rparr>)"
  using assms by (simp add: hal_sysfreq_req_def HAL_SYSFREQ_USER_QTY_def Let_def not_le)

lemma hal_sysfreq_req_up:
  assumes "sf_inv s" "u < 21" "f < HAL_CMU_FREQ_QTY" "f > hal_sysfreq_get s"
  shows "hal_sysfreq_req u f s = (0, s\<lparr>sysfreq_per_user := (sysfreq_per_user s)[u := f], top_user := u,
    cmu_freq := max (min_sysfreq s) f,
    hw_events := hw_events s @ [Pmu_Config (max (min_sysfreq s) f), Cmu_Set (max (min_sysfreq s) f)]\<rparr>)"
proof -
  have "min_sysfreq s < HAL_CMU_FREQ_QTY" using assms by (simp add: sf_inv_def)
  with assms show ?thesis
    by (simp add: max_below_qty less_imp_neq hal_sysfreq_req_def HAL_SYSFREQ_USER_QTY_def Let_def not_le sysfreq_set_defs revise_max)
qed

lemma hal_sysfreq_req_down:
  assumes inv: "sf_inv s" and u: "u < 21" and f: "f < HAL_CMU_FREQ_QTY" "f < hal_sysfreq_get s"
  shows "\<exists>w g es. hal_sysfreq_req u f s = (0, s\<lparr>sysfreq_per_user := (sysfreq_per_user s)[u := f], top_user := w,
      cmu_freq := max (min_sysfreq s) g, hw_events := hw_events s @ es\<rparr>) \<and> w < 21 \<and>
    (sysfreq_per_user s)[u := f] ! w = g \<and> (\<forall>i<21. (sysfreq_per_user s)[u := f] ! i \<le> g) \<and>
    g \<le> hal_sysfreq_get s \<and>
    (es = [] \<and> cmu_freq s = max (min_sysfreq s) g \<or>
     es = [Cmu_Set (max (min_sysfreq s) g), Pmu_Config (max (min_sysfreq s) g)])"
proof -
  let ?per = "sysfreq_per_user s" and ?cur = "hal_sysfreq_get s"
  have ok: "votes_ok ?per" "min_sysfreq s < HAL_CMU_FREQ_QTY" using inv by (simp_all add: sf_inv_def)
  note up = votes_ok_update [OF ok(1) u f(1)]
  have head: "\<not> 21 \<le> u" "\<not> HAL_CMU_FREQ_QTY \<le> f" "f \<noteq> ?cur" "\<not> f > ?cur"
    using u f by auto
  consider (own) "top_user s = u" | (first) "top_user s = 21" | (other) "top_user s \<noteq> u" "top_user s \<noteq> 21"
    by blast
  then show ?thesis
  proof cases
    case own
    obtain g w where gw: "top_scan (?per[u := f]) = (g, w)" by force
    note m = top_scan_max [OF gw]
    have g: "g < HAL_CMU_FREQ_QTY" using m up(1) by (auto simp: votes_ok_def)
    have le: "g \<le> ?cur" using m up(3) [of ?cur] sf_get(1) [OF inv] f(2) by auto
    have q: "\<not> HAL_CMU_FREQ_QTY \<le> max (min_sysfreq s) g" by (rule max_below_qty [OF ok(2) g])
    show ?thesis
    proof (cases "g = ?cur")
      case True
      then have "hal_sysfreq_req u f s = (0, s\<lparr>sysfreq_per_user := ?per[u := f], top_user := w\<rparr>)"
        using head own gw by (simp add: hal_sysfreq_req_def HAL_SYSFREQ_USER_QTY_def)
      then show ?thesis
        using m le sf_get(2) [OF inv] True by (intro exI [of _ w] exI [of _ g] exI [of _ "[]"]) auto
    next
      case False
      then have "hal_sysfreq_req u f s = (0, s\<lparr>sysfreq_per_user := ?per[u := f], top_user := w,
          cmu_freq := max (min_sysfreq s) g,
          hw_events := hw_events s @ [Cmu_Set (max (min_sysfreq s) g), Pmu_Config (max (min_sysfreq s) g)]\<rparr>)"
        using head own gw q
        by (simp add: hal_sysfreq_req_def HAL_SYSFREQ_USER_QTY_def Let_def sysfreq_set_defs revise_max)
      then show ?thesis using m le by blast
    qed
  next
    case first
    have q: "\<not> HAL_CMU_FREQ_QTY \<le> max (min_sysfreq s) f" by (rule max_below_qty [OF ok(2) f(1)])
    have "hal_sysfreq_req u f s = (0, s\<lparr>sysfreq_per_user := ?per[u := f], top_user := u,
        cmu_freq := max (min_sysfreq s) f,
        hw_events := hw_events s @ [Cmu_Set (max (min_sysfreq s) f), Pmu_Config (max (min_sysfreq s) f)]\<rparr>)"
      using head first q u
      by (simp add: hal_sysfreq_req_def HAL_SYSFREQ_USER_QTY_def Let_def sysfreq_set_defs revise_max)
    moreover have "\<forall>i<21. ?per[u := f] ! i \<le> f"
      using inv first up(3) [of f] by (simp add: sf_inv_def HAL_SYSFREQ_USER_QTY_def)
    ultimately show ?thesis using u up(2) f(2) less_imp_le by blast
  next
    case other
    then have top: "top_user s < 21" "?per ! top_user s = ?cur"
      using inv by (auto simp: sf_inv_def HAL_SYSFREQ_USER_QTY_def hal_sysfreq_get_def split: if_splits)
    have "hal_sysfreq_req u f s = (0, s\<lparr>sysfreq_per_user := ?per[u := f]\<rparr>)"
      using head other by (simp add: hal_sysfreq_req_def HAL_SYSFREQ_USER_QTY_def)
    moreover have "\<forall>i<21. ?per[u := f] ! i \<le> ?cur"
      using up(3) [of ?cur] sf_get(1) [OF inv] f(2) by simp
    ultimately show ?thesis
      using top other sf_get(2) [OF inv]
      by (intro exI [of _ "top_user s"] exI [of _ ?cur] exI [of _ "[]"]) simp
  qed
qed

lemma hal_sysfreq_req_ok:
  assumes inv: "sf_inv s" and u: "u < 21" and f: "f < HAL_CMU_FREQ_QTY"
  shows "\<exists>w g es. hal_sysfreq_req u f s = (0, s\<lparr>sysfreq_per_user := (sysfreq_per_user s)[u := f], top_user := w,
      cmu_freq := max (min_sysfreq s) g, hw_events := hw_events s @ es\<rparr>) \<and> w < 21 \<and>
    (sysfreq_per_user s)[u := f] ! w = g \<and> (\<forall>i<21. (sysfreq_per_user s)[u := f] ! i \<le> g) \<and>
    (es = [] \<and> cmu_freq s = max (min_sysfreq s) g \<or>
     es = [Cmu_Set (max (min_sysfreq s) g), Pmu_Config (max (min_sysfreq s) g)] \<and>
       max (min_sysfreq s) g \<le> cmu_freq s \<or>
     es = [Pmu_Config (max (min_sysfreq s) g), Cmu_Set (max (min_sysfreq s) g)] \<and>
       cmu_freq s \<le> max (min_sysfreq s) g)"
proof -
  note up = votes_ok_update [OF _ u f, of "sysfreq_per_user s"]
  have ok: "votes_ok (sysfreq_per_user s)" using inv by (simp add: sf_inv_def)
  note get = sf_get [OF inv]
  consider (same) "f = hal_sysfreq_get s" | (up) "hal_sysfreq_get s < f" | (down) "f < hal_sysfreq_get s"
    by fastforce
  then show ?thesis
  proof cases
    case same
    show ?thesis
      using hal_sysfreq_req_same [OF inv u f same] get same up(2,3) [OF ok] u
      by (intro exI [of _ u] exI [of _ f] exI [of _ "[]"]) simp
  next
    case up
    moreover have "\<forall>i<21. sysfreq_per_user s ! i \<le> f" using get(1) up by (auto intro: order.trans less_imp_le)
    moreover have "cmu_freq s \<le> max (min_sysfreq s) f" using get(2) up by (auto simp: le_max_iff_disj)
    ultimately show ?thesis
      using hal_sysfreq_req_up [OF inv u f up] votes_ok_update(2,3) [OF ok u f] u by blast
  next
    case down
    have "max (min_sysfreq s) g \<le> cmu_freq s" if "g \<le> hal_sysfreq_get s" for g
      using get(2) that by (auto simp: le_max_iff_disj)
    then show ?thesis using hal_sysfreq_req_down [OF inv u f down] by blast
  qed
qed



lemma sf_inv_init:
  assumes "HAL_CMU_FREQ_26M \<le> boot" "boot < HAL_CMU_FREQ_QTY"
  shows "sf_inv (sysfreq_init boot)"
  using assms freq_floor_const
  by (auto simp: sf_inv_def sysfreq_init_def votes_ok_def HAL_SYSFREQ_USER_QTY_def nth_Cons split: nat.splits)

section \<open>Properties\<close>









text \<open>A request with a user or a frequency out of range is refused with 1 or 2 and changes nothing,
  every other one succeeds; \<open>hal_sysfreq_busy\<close>, which tests the votes word by word, reports whether
  any user holds a vote above the 32 kHz clock.\<close>

theorem sysfreq_errors_and_busy:
  assumes "sf_inv s"
  shows "fst (hal_sysfreq_req u f s) = (if 21 \<le> u then 1 else if f = HAL_CMU_FREQ_QTY then 2 else 0) \<and>
    (fst (hal_sysfreq_req u f s) \<noteq> 0 \<longrightarrow> snd (hal_sysfreq_req u f s) = s) \<and>
    (hal_sysfreq_busy s = 1) = (\<exists>v<21. sysfreq_per_user s ! v \<noteq> HAL_CMU_FREQ_32K) \<and>
    hal_sysfreq_busy s \<in> {0, 1}"
proof -
  have q: "(HAL_CMU_FREQ_QTY \<le> f) = (f = HAL_CMU_FREQ_QTY)"
    by (cases f) (simp_all add: less_eq_hal_cmu_freq_def)
  have z: "(freq_code g = 0) = (g = HAL_CMU_FREQ_32K)" for g by (cases g) simp_all
  have r: "fst (hal_sysfreq_req u f s) = (if 21 \<le> u then 1 else if f = HAL_CMU_FREQ_QTY then 2 else 0) \<and>
    (fst (hal_sysfreq_req u f s) \<noteq> 0 \<longrightarrow> snd (hal_sysfreq_req u f s) = s)"
  proof (cases "21 \<le> u \<or> f = HAL_CMU_FREQ_QTY")
    case True
    then show ?thesis by (auto simp: hal_sysfreq_req_def HAL_SYSFREQ_USER_QTY_def)
  next
    case False
    then have "u < 21" "f < HAL_CMU_FREQ_QTY" using q by auto
    from hal_sysfreq_req_ok [OF assms this] False show ?thesis by auto
  qed
  have "(hal_sysfreq_busy s = 1) = (\<exists>i<6. \<exists>j<4. sysfreq_per_user s ! (4 * i + j) \<noteq> HAL_CMU_FREQ_32K)"
    by (auto simp: hal_sysfreq_busy_def sysfreq_bundle_def list_ex_iff z)
  also have "\<dots> = (\<exists>v<24. sysfreq_per_user s ! v \<noteq> HAL_CMU_FREQ_32K)"
  proof safe
    fix v :: nat assume v: "v < 24" "sysfreq_per_user s ! v \<noteq> HAL_CMU_FREQ_32K"
    have "v = 4 * (v div 4) + v mod 4" "v div 4 < 6" "v mod 4 < 4" using v(1) by simp_all
    with v(2) show "\<exists>i<6. \<exists>j<4. sysfreq_per_user s ! (4 * i + j) \<noteq> HAL_CMU_FREQ_32K" by metis
  next
    fix i j :: nat assume "i < 6" "j < 4" "sysfreq_per_user s ! (4 * i + j) \<noteq> HAL_CMU_FREQ_32K"
    then show "\<exists>v<24. sysfreq_per_user s ! v \<noteq> HAL_CMU_FREQ_32K"
      by (intro exI [of _ "4 * i + j"]) simp
  qed
  also have "\<dots> = (\<exists>v<21. sysfreq_per_user s ! v \<noteq> HAL_CMU_FREQ_32K)"
  proof -
    have "v < 21" if "v < 24" "sysfreq_per_user s ! v \<noteq> HAL_CMU_FREQ_32K" for v
      using assms that unfolding sf_inv_def votes_ok_def by (meson not_le)
    moreover have "v < 24" if "v < 21" for v :: nat using that by simp
    ultimately show ?thesis by blast
  qed
  finally have "(hal_sysfreq_busy s = 1) = (\<exists>v<21. sysfreq_per_user s ! v \<noteq> HAL_CMU_FREQ_32K)" .
  moreover have "hal_sysfreq_busy s \<in> {0, 1}" by (simp add: hal_sysfreq_busy_def)
  ultimately show ?thesis using r by blast
qed

theorem sysfreq_errors_and_busy_witness:
  "fst (hal_sysfreq_req 21 HAL_CMU_FREQ_52M (sysfreq_init HAL_CMU_FREQ_26M)) = 1 \<and>
   fst (hal_sysfreq_req 20 HAL_CMU_FREQ_QTY (sysfreq_init HAL_CMU_FREQ_26M)) = 2"
  using sysfreq_errors_and_busy [OF sf_inv_init, of HAL_CMU_FREQ_26M 21 HAL_CMU_FREQ_52M]
    sysfreq_errors_and_busy [OF sf_inv_init, of HAL_CMU_FREQ_26M 20 HAL_CMU_FREQ_QTY]
  by (simp add: less_hal_cmu_freq_def)

text \<open>The clock and the supply level over a list of hardware events, every step with the clock no higher
  than the level.\<close>

fun supply_safe :: "hal_cmu_freq \<Rightarrow> hal_cmu_freq \<Rightarrow> hw_event list \<Rightarrow> bool" where
  "supply_safe clk level [] = (clk \<le> level)"
| "supply_safe clk level (Cmu_Set f # es) = (clk \<le> level \<and> supply_safe f level es)"
| "supply_safe clk level (Pmu_Config f # es) = (clk \<le> level \<and> supply_safe clk f es)"

text \<open>Supply before speed: a request raises the supply level before the clock and lowers it after,
  so that at no moment of a request the clock is faster than the level allows.\<close>

theorem sysfreq_supply_before_clock:
  assumes "sf_inv s" "cmu_freq s \<le> level"
  shows "\<exists>es. hw_events (snd (hal_sysfreq_req u f s)) = hw_events s @ es \<and> supply_safe (cmu_freq s) level es"
proof (cases "u < 21 \<and> f < HAL_CMU_FREQ_QTY")
  case True
  then obtain w g es where g: "hal_sysfreq_req u f s = (0, s\<lparr>sysfreq_per_user := (sysfreq_per_user s)[u := f],
      top_user := w, cmu_freq := max (min_sysfreq s) g, hw_events := hw_events s @ es\<rparr>)"
    and es: "es = [] \<and> cmu_freq s = max (min_sysfreq s) g \<or>
     es = [Cmu_Set (max (min_sysfreq s) g), Pmu_Config (max (min_sysfreq s) g)] \<and>
       max (min_sysfreq s) g \<le> cmu_freq s \<or>
     es = [Pmu_Config (max (min_sysfreq s) g), Cmu_Set (max (min_sysfreq s) g)] \<and>
       cmu_freq s \<le> max (min_sysfreq s) g"
    using hal_sysfreq_req_ok [OF assms(1), of u f] by blast
  have "supply_safe (cmu_freq s) level es"
    using es assms(2) by auto
  with g show ?thesis by auto
next
  case False
  then have "snd (hal_sysfreq_req u f s) = s"
    by (auto simp: hal_sysfreq_req_def HAL_SYSFREQ_USER_QTY_def)
  with assms(2) show ?thesis by simp
qed

theorem sysfreq_supply_before_clock_witness:
  "\<exists>es. hw_events (snd (hal_sysfreq_req 3 HAL_CMU_FREQ_208M (sysfreq_init HAL_CMU_FREQ_26M))) = [] @ es \<and>
     supply_safe HAL_CMU_FREQ_26M HAL_CMU_FREQ_52M es"
  using sysfreq_supply_before_clock [OF sf_inv_init, of HAL_CMU_FREQ_26M HAL_CMU_FREQ_52M 3 HAL_CMU_FREQ_208M]
  by (simp add: less_hal_cmu_freq_def less_eq_hal_cmu_freq_def sysfreq_init_def)

end
