(* ===== verification/Links.thy ===== *)
theory Links
  imports Lb_Prelude
begin

text \<open>
  Singly linked lists threaded through a \<open>next\<close> field, for the components that chain statically allocated
  or heap nodes: \<open>lseg nx p xs q\<close> says that following \<open>nx\<close> from \<open>p\<close> visits the nodes \<open>xs\<close> and arrives
  at \<open>q\<close>; \<open>None\<close> is the null pointer. The lemmas say which writes to the field leave a chain alone
  and how insertion and removal change it.
\<close>

fun lseg :: "('a \<Rightarrow> 'a option) \<Rightarrow> 'a option \<Rightarrow> 'a list \<Rightarrow> 'a option \<Rightarrow> bool" where
  "lseg nx p [] q = (p = q)"
| "lseg nx p (x # xs) q = (p = Some x \<and> lseg nx (nx x) xs q)"

abbreviation lpath :: "('a \<Rightarrow> 'a option) \<Rightarrow> 'a option \<Rightarrow> 'a list \<Rightarrow> bool" where
  "lpath nx p xs \<equiv> lseg nx p xs None"

fun link :: "'a list \<Rightarrow> 'a option" where
  "link [] = None"
| "link (x # xs) = Some x"

lemma link_eq_None [simp]: "link xs = None \<longleftrightarrow> xs = []"
  by (cases xs) simp_all

lemma link_append [simp]: "link (xs @ ys) = (if xs = [] then link ys else link xs)"
  by (cases xs) simp_all

lemma link_hd: "xs \<noteq> [] \<Longrightarrow> link xs = Some (hd xs)"
  by (cases xs) simp_all

lemma lpath_link: "lpath nx p xs \<Longrightarrow> p = link xs"
  by (cases xs) simp_all

lemma lseg_append: "lseg nx p (xs @ ys) q \<longleftrightarrow> (\<exists>r. lseg nx p xs r \<and> lseg nx r ys q)"
  by (induction xs arbitrary: p) auto

lemma lpath_append: "lpath nx p (xs @ ys) \<longleftrightarrow> lseg nx p xs (link ys) \<and> lpath nx (link ys) ys"
  by (auto simp: lseg_append dest: lpath_link)

lemma lseg_upd [simp]: "x \<notin> set xs \<Longrightarrow> lseg (nx(x := v)) p xs q = lseg nx p xs q"
  by (induction xs arbitrary: p) auto

lemma lseg_cong:
  assumes "\<And>x. x \<in> set xs \<Longrightarrow> nx x = ny x"
  shows "lseg nx p xs q = lseg ny p xs q"
  using assms by (induction xs arbitrary: p) auto

lemma lseg_next:
  assumes "lpath nx p (xs @ x # ys)"
  shows "nx x = link ys"
  using assms by (auto simp: lpath_append dest: lpath_link)

lemma lseg_last:
  assumes "lseg nx p xs q" "xs \<noteq> []"
  shows "nx (last xs) = q"
  using assms by (induction xs arbitrary: p) (auto split: if_splits)

lemma lseg_redirect:
  assumes "lseg nx p xs q" "xs \<noteq> []" "distinct xs"
  shows "lseg (nx(last xs := r)) p xs r"
  using assms by (induction xs arbitrary: p) auto

lemma lpath_insert:
  assumes "lpath nx p (xs @ zs)" "xs \<noteq> []" "distinct (xs @ zs)" "x \<notin> set (xs @ zs)"
  shows "lpath (nx(last xs := Some x, x := link zs)) p (xs @ x # zs)"
proof -
  have "last xs \<in> set xs" using assms(2) by simp
  then have "last xs \<notin> set zs" "last xs \<noteq> x" using assms(3,4) by auto
  moreover have "lseg (nx(last xs := Some x)) p xs (Some x)"
    using assms by (intro lseg_redirect) (auto simp: lpath_append)
  ultimately show ?thesis using assms by (auto simp: lpath_append)
qed

lemma lpath_remove:
  assumes "lpath nx p (xs @ x # zs)" "xs \<noteq> []" "distinct (xs @ x # zs)"
  shows "lpath (nx(last xs := link zs)) p (xs @ zs)"
proof -
  have "last xs \<in> set xs" using assms(2) by simp
  then have "last xs \<notin> set zs" using assms(3) by auto
  moreover have "lseg (nx(last xs := link zs)) p xs (link zs)"
    using assms by (intro lseg_redirect) (auto simp: lpath_append)
  moreover have "lpath nx (link zs) zs"
    using assms(1) lseg_next [OF assms(1)] by (simp add: lpath_append)
  ultimately show ?thesis by (simp add: lpath_append)
qed

lemma lpath_unique: "lpath nx p xs \<Longrightarrow> lpath nx p ys \<Longrightarrow> xs = ys"
proof (induction xs arbitrary: p ys)
  case Nil then show ?case by (cases ys) simp_all
next
  case (Cons x xs) then show ?case by (cases ys) auto
qed

end
