(* ===== verification/Hwtimer.thy ===== *)
theory Hwtimer
  imports Links
begin

text \<open>
  \<^verbatim>\<open>utils/hwtimer_list/hwtimer_list.c\<close> over the raw timer of \<^verbatim>\<open>platform/hal/hal_timer.c\<close>: ten software
  timers share one hardware one-shot. The active ones form a list in the order they are due, each
  holding the time after its predecessor; the hardware counter runs for the head.

  A timer is named by its index in the static array, a pointer outside the array by an index above 9.
  The linked lists are chains through the \<open>next\<close> field. A failed assertion, and a loop that does not
  end, are \<open>None\<close>. The counter of the hardware is a function of the time that has passed since it was
  loaded; it is only read while it has been started.
\<close>

datatype hwtimer_state = HWTIMER_STATE_FREE | HWTIMER_STATE_ALLOC | HWTIMER_STATE_ACTIVE
  | HWTIMER_STATE_FIRED | HWTIMER_STATE_CALLBACK

datatype e_hwtimer = E_HWTIMER_OK | E_HWTIMER_FAILED | E_HWTIMER_INVAL_ID | E_HWTIMER_INVAL_ST
  | E_HWTIMER_IN_CALLBACK | E_HWTIMER_NOT_FOUND

record hwtimer =
  tm_state :: hwtimer_state
  tm_next :: "nat option"
  tm_time :: u32
  tm_callback :: "nat option"
  tm_param :: nat

record hwtimers =
  ht_timer :: "nat \<Rightarrow> hwtimer"
  ht_free :: "nat option"
  ht_active :: "nat option"
  ht_fired :: "nat option"
  err_irq_active_null :: u32
  err_irq_early :: u32
  rt_now :: u32
  rt_start_time :: u32
  rt_load :: u32
  rt_enabled :: bool

definition HWTIMER_NUM :: nat where "HWTIMER_NUM = 10"

definition HAL_TIMER_LOAD_DELTA :: u32 where "HAL_TIMER_LOAD_DELTA = 1"

section \<open>The raw timer\<close>

definition hal_timer_reload :: "u32 \<Rightarrow> hwtimers \<Rightarrow> hwtimers" where
  "hal_timer_reload load s =
     (let load = (if load > HAL_TIMER_LOAD_DELTA then load - HAL_TIMER_LOAD_DELTA else 1) in
      s\<lparr>rt_load := load\<rparr>)"

definition hal_timer_continue :: "hwtimers \<Rightarrow> hwtimers" where
  "hal_timer_continue s = s\<lparr>rt_enabled := True\<rparr>"

definition hal_timer_start :: "u32 \<Rightarrow> hwtimers \<Rightarrow> hwtimers" where
  "hal_timer_start load s = hal_timer_continue (hal_timer_reload load (s\<lparr>rt_start_time := rt_now s\<rparr>))"

definition hal_timer_stop :: "hwtimers \<Rightarrow> hwtimers" where
  "hal_timer_stop s = s\<lparr>rt_enabled := False\<rparr>"

definition hal_timer_is_enabled :: "hwtimers \<Rightarrow> bool" where
  "hal_timer_is_enabled s = rt_enabled s"

definition hal_timer_get_elapsed_time :: "hwtimers \<Rightarrow> u32" where
  "hal_timer_get_elapsed_time s = rt_now s - rt_start_time s"

definition hal_timer_get :: "hwtimers \<Rightarrow> u32" where
  "hal_timer_get s =
     (if hal_timer_get_elapsed_time s < rt_load s then rt_load s - hal_timer_get_elapsed_time s else 0)"

text \<open>Time passes by \<open>n\<close> ticks.\<close>

definition pass_time :: "u32 \<Rightarrow> hwtimers \<Rightarrow> hwtimers" where
  "pass_time n s = s\<lparr>rt_now := rt_now s + n\<rparr>"

section \<open>Operations\<close>

definition upd_timer :: "nat \<Rightarrow> (hwtimer \<Rightarrow> hwtimer) \<Rightarrow> hwtimers \<Rightarrow> hwtimers" where
  "upd_timer i f s = s\<lparr>ht_timer := (ht_timer s)(i := f (ht_timer s i))\<rparr>"

definition hwtimer_boot :: hwtimers where
  "hwtimer_boot = \<lparr>
     ht_timer = (\<lambda>_. \<lparr>tm_state = HWTIMER_STATE_FREE, tm_next = None, tm_time = 0, tm_callback = None, tm_param = 0\<rparr>),
     ht_free = None, ht_active = None, ht_fired = None, err_irq_active_null = 0, err_irq_early = 0,
     rt_now = 0, rt_start_time = 0, rt_load = 0, rt_enabled = False\<rparr>"

definition hwtimer_init :: "hwtimers \<Rightarrow> hwtimers" where
  "hwtimer_init s =
     (let s = fold (\<lambda>i. upd_timer i (\<lambda>t. t\<lparr>tm_state := HWTIMER_STATE_FREE, tm_next := Some (i + 1)\<rparr>))
                [0..<HWTIMER_NUM - 1] s;
          s = upd_timer (HWTIMER_NUM - 1) (\<lambda>t. t\<lparr>tm_next := None\<rparr>) s in
      s\<lparr>ht_free := Some 0, ht_active := None, ht_fired := None, rt_enabled := False\<rparr>)"

definition hwtimer_alloc :: "nat option \<Rightarrow> nat \<Rightarrow> hwtimers \<Rightarrow> (nat option \<times> hwtimers) option" where
  "hwtimer_alloc callback param s =
     (case ht_free s of
        None \<Rightarrow> Some (None, s)
      | Some timer \<Rightarrow> do {
          let s = s\<lparr>ht_free := tm_next (ht_timer s timer)\<rparr>;
          check (tm_state (ht_timer s timer) = HWTIMER_STATE_FREE);
          Some (Some timer, upd_timer timer (\<lambda>t. t\<lparr>tm_state := HWTIMER_STATE_ALLOC,
            tm_callback := callback, tm_param := param, tm_next := None\<rparr>) s) })"

definition hwtimer_free :: "nat \<Rightarrow> hwtimers \<Rightarrow> e_hwtimer \<times> hwtimers" where
  "hwtimer_free tid s =
     (if tid \<ge> HWTIMER_NUM then (E_HWTIMER_INVAL_ID, s)
      else if tm_state (ht_timer s tid) \<noteq> HWTIMER_STATE_ALLOC then (E_HWTIMER_INVAL_ST, s)
      else (E_HWTIMER_OK,
        (upd_timer tid (\<lambda>t. t\<lparr>tm_state := HWTIMER_STATE_FREE, tm_next := ht_free s\<rparr>) s)\<lparr>ht_free := Some tid\<rparr>))"

text \<open>The loop of \<open>__hwtimer_start_int\<close> that looks for the place of the new timer.\<close>

partial_function (option) start_walk ::
  "(nat \<Rightarrow> hwtimer) \<Rightarrow> nat \<Rightarrow> nat option \<Rightarrow> u32 \<Rightarrow> (nat \<times> nat option \<times> u32) option" where
  "start_walk tm pre next ticks =
     (case next of
        None \<Rightarrow> Some (pre, None, ticks)
      | Some n \<Rightarrow>
          if tm_time (tm n) < ticks
          then start_walk tm n (tm_next (tm n)) (ticks - tm_time (tm n))
          else Some (pre, Some n, ticks))"

definition hwtimer_start_int ::
  "nat \<Rightarrow> bool \<Rightarrow> nat option \<Rightarrow> nat \<Rightarrow> u32 \<Rightarrow> hwtimers \<Rightarrow> (e_hwtimer \<times> hwtimers) option" where
  "hwtimer_start_int tid update callback param ticks s =
     (if tid \<ge> HWTIMER_NUM then Some (E_HWTIMER_INVAL_ID, s)
      else
        (let ticks = (if ticks < HAL_TIMER_LOAD_DELTA then HAL_TIMER_LOAD_DELTA else ticks) in
         if tm_state (ht_timer s tid) \<noteq> HWTIMER_STATE_ALLOC \<and> tm_state (ht_timer s tid) \<noteq> HWTIMER_STATE_CALLBACK
         then Some (E_HWTIMER_INVAL_ST, s)
         else do {
           let s = upd_timer tid (\<lambda>t. t\<lparr>tm_state := HWTIMER_STATE_ACTIVE\<rparr>) s;
           let s = (if update then upd_timer tid (\<lambda>t. t\<lparr>tm_callback := callback, tm_param := param\<rparr>) s else s);
           (s, ticks) \<leftarrow>
             (case ht_active s of
                None \<Rightarrow>
                  Some (hal_timer_start ticks ((upd_timer tid (\<lambda>t. t\<lparr>tm_next := None\<rparr>) s)\<lparr>ht_active := Some tid\<rparr>), ticks)
              | Some a \<Rightarrow> do {
                  let cur_time = hal_timer_get s;
                  check (cur_time \<le> tm_time (ht_timer s a) \<or> cur_time \<le> HAL_TIMER_LOAD_DELTA);
                  if cur_time > ticks then
                    (let s = upd_timer a (\<lambda>t. t\<lparr>tm_time := cur_time - ticks\<rparr>) s;
                         s = (upd_timer tid (\<lambda>t. t\<lparr>tm_next := Some a\<rparr>) s)\<lparr>ht_active := Some tid\<rparr> in
                     Some (hal_timer_start ticks (hal_timer_stop s), ticks))
                  else do {
                    (pre, next, ticks) \<leftarrow> start_walk (ht_timer s) a (tm_next (ht_timer s a)) (ticks - cur_time);
                    let s = (case next of None \<Rightarrow> s
                             | Some n \<Rightarrow> upd_timer n (\<lambda>t. t\<lparr>tm_time := tm_time t - ticks\<rparr>) s);
                    let s = upd_timer pre (\<lambda>t. t\<lparr>tm_next := Some tid\<rparr>) s;
                    Some (upd_timer tid (\<lambda>t. t\<lparr>tm_next := next\<rparr>) s, ticks) } });
           Some (E_HWTIMER_OK, upd_timer tid (\<lambda>t. t\<lparr>tm_time := ticks\<rparr>) s) }))"

definition hwtimer_start :: "nat \<Rightarrow> u32 \<Rightarrow> hwtimers \<Rightarrow> (e_hwtimer \<times> hwtimers) option" where
  "hwtimer_start tid ticks s = hwtimer_start_int tid False None 0 ticks s"

definition hwtimer_update_then_start ::
  "nat \<Rightarrow> nat option \<Rightarrow> nat \<Rightarrow> u32 \<Rightarrow> hwtimers \<Rightarrow> (e_hwtimer \<times> hwtimers) option" where
  "hwtimer_update_then_start tid callback param ticks s = hwtimer_start_int tid True callback param ticks s"

definition hwtimer_update :: "nat \<Rightarrow> nat option \<Rightarrow> nat \<Rightarrow> hwtimers \<Rightarrow> e_hwtimer \<times> hwtimers" where
  "hwtimer_update tid callback param s =
     (if tid \<ge> HWTIMER_NUM then (E_HWTIMER_INVAL_ID, s)
      else if tm_state (ht_timer s tid) = HWTIMER_STATE_ALLOC \<or> tm_state (ht_timer s tid) = HWTIMER_STATE_CALLBACK
      then (E_HWTIMER_OK, upd_timer tid (\<lambda>t. t\<lparr>tm_callback := callback, tm_param := param\<rparr>) s)
      else (E_HWTIMER_INVAL_ST, s))"


text \<open>The loops of \<open>hwtimer_stop\<close> that look for a timer behind the head of a list.\<close>

partial_function (option) stop_find ::
  "(nat \<Rightarrow> hwtimer) \<Rightarrow> nat \<Rightarrow> nat \<Rightarrow> nat option \<Rightarrow> (nat \<times> nat option) option" where
  "stop_find tm timer pre next =
     (case next of
        None \<Rightarrow> Some (pre, None)
      | Some n \<Rightarrow> if n \<noteq> timer then stop_find tm timer n (tm_next (tm n)) else Some (pre, next))"

text \<open>The loop that charges a late stop to the timers that are due already.\<close>

partial_function (option) stop_late ::
  "(nat \<Rightarrow> hwtimer) \<Rightarrow> nat option \<Rightarrow> u32 \<Rightarrow> ((nat \<Rightarrow> hwtimer) \<times> nat option \<times> u32) option" where
  "stop_late tm pre elapsed_time =
     (case pre of
        None \<Rightarrow> Some (tm, None, elapsed_time)
      | Some p \<Rightarrow>
          if tm_time (tm p) \<le> elapsed_time
          then stop_late (tm(p := (tm p)\<lparr>tm_time := 0\<rparr>)) (tm_next (tm p)) (elapsed_time - tm_time (tm p))
          else Some (tm, Some p, elapsed_time))"

definition stop_active_head :: "nat \<Rightarrow> hwtimers \<Rightarrow> hwtimers option" where
  "stop_active_head timer s = do {
     let cur_time = hal_timer_get s;
     check (cur_time \<le> tm_time (ht_timer s timer) \<or> cur_time \<le> HAL_TIMER_LOAD_DELTA);
     let s = hal_timer_stop s;
     let next = tm_next (ht_timer s timer);
     s \<leftarrow> (case next of
        None \<Rightarrow> Some s
      | Some n \<Rightarrow> do {
          s \<leftarrow> (if cur_time = 0 then do {
              let elapsed_time = hal_timer_get_elapsed_time s;
              check (elapsed_time + HAL_TIMER_LOAD_DELTA \<ge> tm_time (ht_timer s timer));
              let elapsed_time = (if elapsed_time > tm_time (ht_timer s timer)
                                  then elapsed_time - tm_time (ht_timer s timer) else 0);
              (tm, pre, elapsed_time) \<leftarrow> stop_late (ht_timer s) next elapsed_time;
              let s = s\<lparr>ht_timer := tm\<rparr>;
              Some (case pre of None \<Rightarrow> s
                    | Some p \<Rightarrow> upd_timer p (\<lambda>t. t\<lparr>tm_time := tm_time t - elapsed_time\<rparr>) s) }
            else Some (upd_timer n (\<lambda>t. t\<lparr>tm_time := tm_time t + cur_time\<rparr>) s));
          Some (hal_timer_start (tm_time (ht_timer s n)) s) });
     Some (s\<lparr>ht_active := next\<rparr>) }"

definition hwtimer_stop :: "nat \<Rightarrow> hwtimers \<Rightarrow> (e_hwtimer \<times> hwtimers) option" where
  "hwtimer_stop timer s =
     (if timer \<ge> HWTIMER_NUM then Some (E_HWTIMER_INVAL_ID, s)
      else
        (let stopped = (\<lambda>s. upd_timer timer (\<lambda>t. t\<lparr>tm_state := HWTIMER_STATE_ALLOC, tm_next := None\<rparr>) s) in
         case tm_state (ht_timer s timer) of
           HWTIMER_STATE_ALLOC \<Rightarrow> Some (E_HWTIMER_OK, s)
         | HWTIMER_STATE_ACTIVE \<Rightarrow>
             (case ht_active s of
                None \<Rightarrow> None
              | Some a \<Rightarrow>
                  if a = timer then map_option (\<lambda>s. (E_HWTIMER_OK, stopped s)) (stop_active_head timer s)
                  else do {
                    (pre, next) \<leftarrow> stop_find (ht_timer s) timer a (tm_next (ht_timer s a));
                    check (next = Some timer);
                    let s = upd_timer pre (\<lambda>t. t\<lparr>tm_next := tm_next (ht_timer s timer)\<rparr>) s;
                    let s = (case tm_next (ht_timer s timer) of None \<Rightarrow> s
                             | Some n \<Rightarrow> upd_timer n (\<lambda>t. t\<lparr>tm_time := tm_time t + tm_time (ht_timer s timer)\<rparr>) s);
                    Some (E_HWTIMER_OK, stopped s) })
         | HWTIMER_STATE_FIRED \<Rightarrow>
             (case ht_fired s of
                None \<Rightarrow> None
              | Some f \<Rightarrow>
                  if f = timer
                  then Some (E_HWTIMER_OK, stopped (s\<lparr>ht_fired := tm_next (ht_timer s f)\<rparr>))
                  else do {
                    (pre, next) \<leftarrow> stop_find (ht_timer s) timer f (tm_next (ht_timer s f));
                    check (next = Some timer);
                    Some (E_HWTIMER_OK, stopped (upd_timer pre (\<lambda>t. t\<lparr>tm_next := tm_next (ht_timer s timer)\<rparr>) s)) })
         | HWTIMER_STATE_CALLBACK \<Rightarrow> Some (E_HWTIMER_IN_CALLBACK, s)
         | HWTIMER_STATE_FREE \<Rightarrow> Some (E_HWTIMER_INVAL_ST, s)))"

section \<open>The interrupt handler\<close>

text \<open>The loop that marks the timers that are due.\<close>

partial_function (option) fire_walk ::
  "(nat \<Rightarrow> hwtimer) \<Rightarrow> nat \<Rightarrow> nat option \<Rightarrow> u32 \<Rightarrow> ((nat \<Rightarrow> hwtimer) \<times> nat \<times> nat option \<times> u32) option" where
  "fire_walk tm pre lst elapsed =
     (case lst of
        None \<Rightarrow> Some (tm, pre, None, elapsed)
      | Some l \<Rightarrow>
          if tm_time (tm l) \<le> elapsed
          then fire_walk (tm(l := (tm l)\<lparr>tm_state := HWTIMER_STATE_FIRED\<rparr>)) l (tm_next (tm l)) (elapsed - tm_time (tm l))
          else Some (tm, pre, Some l, elapsed))"

text \<open>The first half of the handler: the due timers move to the fired list, the hardware is set up
  for the next one. The result says whether the handler goes on to the callbacks.\<close>

definition hwtimer_fire :: "hwtimers \<Rightarrow> (bool \<times> hwtimers) option" where
  "hwtimer_fire s =
     (case ht_active s of
        None \<Rightarrow> do {
          check (\<not> hal_timer_is_enabled s);
          Some (False, s\<lparr>err_irq_active_null := err_irq_active_null s + 1\<rparr>) }
      | Some a \<Rightarrow>
          let elapsed = hal_timer_get_elapsed_time s in
          if tm_time (ht_timer s a) > elapsed + HAL_TIMER_LOAD_DELTA then do {
            check (hal_timer_is_enabled s);
            Some (False, s\<lparr>err_irq_early := err_irq_early s + 1\<rparr>) }
          else do {
            let elapsed = (if elapsed > tm_time (ht_timer s a) then elapsed - tm_time (ht_timer s a) else 0);
            let s = upd_timer a (\<lambda>t. t\<lparr>tm_state := HWTIMER_STATE_FIRED\<rparr>) s;
            (tm, pre, lst, elapsed) \<leftarrow> fire_walk (ht_timer s) a (tm_next (ht_timer s a)) elapsed;
            let s = upd_timer pre (\<lambda>t. t\<lparr>tm_next := None\<rparr>) (s\<lparr>ht_timer := tm\<rparr>);
            let s = s\<lparr>ht_fired := ht_active s, ht_active := lst\<rparr>;
            Some (True, case lst of
                None \<Rightarrow> hal_timer_stop s
              | Some l \<Rightarrow>
                  (let s = upd_timer l (\<lambda>t. t\<lparr>tm_time := tm_time t - elapsed\<rparr>) s in
                   hal_timer_start (tm_time (ht_timer s l)) s)) })"

text \<open>The second half calls back for every fired timer, with \<open>call\<close> for the callbacks.\<close>

partial_function (option) hwtimer_callbacks ::
  "(nat \<Rightarrow> nat \<Rightarrow> hwtimers \<Rightarrow> hwtimers option) \<Rightarrow> hwtimers \<Rightarrow> hwtimers option" where
  "hwtimer_callbacks call s =
     (case ht_fired s of
        None \<Rightarrow> Some s
      | Some lst \<Rightarrow> do {
          let s = s\<lparr>ht_fired := tm_next (ht_timer s lst)\<rparr>;
          let s = upd_timer lst (\<lambda>t. t\<lparr>tm_state := HWTIMER_STATE_CALLBACK, tm_next := None\<rparr>) s;
          s \<leftarrow> (case tm_callback (ht_timer s lst) of
                 None \<Rightarrow> Some s
               | Some c \<Rightarrow> call c (tm_param (ht_timer s lst)) s);
          let s = (if tm_state (ht_timer s lst) = HWTIMER_STATE_CALLBACK
                   then upd_timer lst (\<lambda>t. t\<lparr>tm_state := HWTIMER_STATE_ALLOC\<rparr>) s else s);
          hwtimer_callbacks call s })"

definition hwtimer_handler ::
  "(nat \<Rightarrow> nat \<Rightarrow> hwtimers \<Rightarrow> hwtimers option) \<Rightarrow> hwtimers \<Rightarrow> hwtimers option" where
  "hwtimer_handler call s = do {
     (run, s) \<leftarrow> hwtimer_fire s;
     if run then hwtimer_callbacks call s else Some s }"

end
