(* ===== verification/Hwtimer_Lists.thy ===== *)
theory Hwtimer_Lists
  imports Hwtimer
begin

text \<open>
  The lists behind the timers: what the four loops of \<^verbatim>\<open>hwtimer_list.c\<close> compute on a chain, the times
  at which the timers of a chain are due, and the invariant of the timer service.
\<close>

section \<open>Fields\<close>

definition nx :: "(nat \<Rightarrow> hwtimer) \<Rightarrow> nat \<Rightarrow> nat option" where
  "nx tm i = tm_next (tm i)"

lemma nx_upd [simp]: "nx (tm(i := t)) = (nx tm)(i := tm_next t)"
  by (auto simp: nx_def)

lemma nx_upd_same [simp]: "tm_next t = tm_next (tm i) \<Longrightarrow> nx (tm(i := t)) = nx tm"
  by (auto simp: nx_def)

lemma lseg_nx [simp]:
  "lseg (nx tm) p (x # xs) q = (p = Some x \<and> lseg (nx tm) (tm_next (tm x)) xs q)"
  by (simp add: nx_def)

lemma lseg_nx_upd [simp]:
  "lseg ((nx tm)(i := v)) p (x # xs) q =
    (p = Some x \<and> lseg ((nx tm)(i := v)) (if x = i then v else tm_next (tm x)) xs q)"
  by (simp add: nx_def)

declare lseg.simps(2) [simp del]

lemma nx_upd_next [simp]: "(nx tm)(i := tm_next (tm i)) = nx tm"
  by (auto simp: nx_def)

lemma upd_timer_fields [simp]:
  "ht_timer (upd_timer i f s) = (ht_timer s)(i := f (ht_timer s i))"
  "ht_free (upd_timer i f s) = ht_free s" "ht_active (upd_timer i f s) = ht_active s"
  "ht_fired (upd_timer i f s) = ht_fired s" "rt_now (upd_timer i f s) = rt_now s"
  "rt_start_time (upd_timer i f s) = rt_start_time s" "rt_load (upd_timer i f s) = rt_load s"
  "rt_enabled (upd_timer i f s) = rt_enabled s"
  by (simp_all add: upd_timer_def)

definition load_of :: "u32 \<Rightarrow> u32" where
  "load_of t = (if t > 1 then t - 1 else 1)"

lemma hal_timer_start_fields [simp]:
  "ht_timer (hal_timer_start n s) = ht_timer s" "ht_free (hal_timer_start n s) = ht_free s"
  "ht_active (hal_timer_start n s) = ht_active s" "ht_fired (hal_timer_start n s) = ht_fired s"
  "rt_now (hal_timer_start n s) = rt_now s" "rt_start_time (hal_timer_start n s) = rt_now s"
  "rt_load (hal_timer_start n s) = load_of n" "rt_enabled (hal_timer_start n s)"
  by (simp_all add: hal_timer_start_def hal_timer_continue_def hal_timer_reload_def load_of_def
    HAL_TIMER_LOAD_DELTA_def Let_def)

lemma hal_timer_stop_fields [simp]:
  "ht_timer (hal_timer_stop s) = ht_timer s" "ht_free (hal_timer_stop s) = ht_free s"
  "ht_active (hal_timer_stop s) = ht_active s" "ht_fired (hal_timer_stop s) = ht_fired s"
  "rt_now (hal_timer_stop s) = rt_now s" "rt_start_time (hal_timer_stop s) = rt_start_time s"
  "rt_load (hal_timer_stop s) = rt_load s" "\<not> rt_enabled (hal_timer_stop s)"
  by (simp_all add: hal_timer_stop_def)

lemma hal_timer_get_fresh: "hal_timer_get (hal_timer_start n s) = load_of n"
  by (simp add: hal_timer_get_def hal_timer_get_elapsed_time_def load_of_def word_greater_zero_iff)

lemma hal_timer_get_cong:
  "rt_now s = rt_now s' \<Longrightarrow> rt_start_time s = rt_start_time s' \<Longrightarrow> rt_load s = rt_load s' \<Longrightarrow>
    hal_timer_get s = hal_timer_get s'"
  by (simp add: hal_timer_get_def hal_timer_get_elapsed_time_def)

lemma load_of_bound: "unat (load_of t) \<le> max 1 (unat t)"
  by (auto simp: load_of_def word_less_nat_alt unat_sub_small)

section \<open>When the timers of a chain are due\<close>

abbreviation time_of :: "(nat \<Rightarrow> hwtimer) \<Rightarrow> nat \<Rightarrow> nat" where
  "time_of tm i \<equiv> unat (tm_time (tm i))"

definition tsum :: "(nat \<Rightarrow> hwtimer) \<Rightarrow> nat list \<Rightarrow> nat" where
  "tsum tm xs = sum_list (map (time_of tm) xs)"

fun due :: "(nat \<Rightarrow> hwtimer) \<Rightarrow> nat \<Rightarrow> nat list \<Rightarrow> (nat \<times> nat) list" where
  "due tm b [] = []"
| "due tm b (x # xs) = (x, b + time_of tm x) # due tm (b + time_of tm x) xs"

text \<open>The agenda of the active list: the head is due after \<open>cur\<close> ticks, what the counter reads, the
  others follow at their distances.\<close>

fun agenda :: "nat \<Rightarrow> (nat \<Rightarrow> hwtimer) \<Rightarrow> nat list \<Rightarrow> (nat \<times> nat) list" where
  "agenda cur tm [] = []"
| "agenda cur tm (a # xs) = (a, cur) # due tm cur xs"

lemma tsum_simps [simp]:
  "tsum tm [] = 0" "tsum tm (x # xs) = time_of tm x + tsum tm xs" "tsum tm (xs @ ys) = tsum tm xs + tsum tm ys"
  by (simp_all add: tsum_def)

lemma tsum_cong: "(\<And>x. x \<in> set xs \<Longrightarrow> tm_time (tm x) = tm_time (tm' x)) \<Longrightarrow> tsum tm xs = tsum tm' xs"
  by (induction xs) simp_all

lemma due_append: "due tm b (xs @ ys) = due tm b xs @ due tm (b + tsum tm xs) ys"
  by (induction xs arbitrary: b) (simp_all add: add.assoc)

lemma due_cong: "(\<And>x. x \<in> set xs \<Longrightarrow> tm_time (tm x) = tm_time (tm' x)) \<Longrightarrow> due tm b xs = due tm' b xs"
  by (induction xs arbitrary: b) simp_all

lemma map_fst_due [simp]: "map fst (due tm b xs) = xs"
  by (induction xs arbitrary: b) simp_all

lemma length_due [simp]: "length (due tm b xs) = length xs"
  by (induction xs arbitrary: b) simp_all

lemma map_fst_agenda [simp]: "map fst (agenda c tm xs) = xs"
  by (cases xs) simp_all

lemma due_bounds: "(x, d) \<in> set (due tm b xs) \<Longrightarrow> b \<le> d \<and> d \<le> b + tsum tm xs"
  by (induction xs arbitrary: b) fastforce+

lemma due_shift: "due tm (b + k) xs = map (\<lambda>(x, d). (x, d + k)) (due tm b xs)"
proof (induction xs arbitrary: b)
  case (Cons x xs)
  have "b + k + time_of tm x = b + time_of tm x + k" by simp
  then show ?case using Cons by (simp only: due.simps list.map prod.case)
qed simp

text \<open>The distance of the first timer may move between the base and its field.\<close>

lemma due_rebase:
  assumes "k \<le> time_of tm z" "z \<notin> set zs" "time_of tm' z = time_of tm z - k"
    "\<And>x. x \<in> set zs \<Longrightarrow> tm_time (tm' x) = tm_time (tm x)"
  shows "due tm' (b + k) (z # zs) = due tm b (z # zs)"
  using assms(1,3) due_cong [of zs tm' tm, OF assms(4)] by simp

section \<open>The loops\<close>

lemma start_walk_ok:
  assumes "lpath (nx tm) next xs"
  shows "\<exists>ys zs k. xs = ys @ zs \<and> start_walk tm pre next t = Some (last (pre # ys), link zs, k) \<and>
    unat t = tsum tm ys + unat k \<and> (ys \<noteq> [] \<longrightarrow> 0 < unat k) \<and> (zs \<noteq> [] \<longrightarrow> unat k \<le> time_of tm (hd zs))"
  using assms
proof (induction xs arbitrary: pre "next" t)
  case Nil
  then show ?case by (simp add: start_walk.simps)
next
  case (Cons x xs)
  show ?case
  proof (cases "tm_time (tm x) < t")
    case True
    then have t: "unat t = time_of tm x + unat (t - tm_time (tm x))" "0 < unat (t - tm_time (tm x))"
      by (simp_all add: word_less_nat_alt unat_sub_small)
    obtain ys zs k where w: "xs = ys @ zs"
      "start_walk tm x (tm_next (tm x)) (t - tm_time (tm x)) = Some (last (x # ys), link zs, k)"
      "unat (t - tm_time (tm x)) = tsum tm ys + unat k" "ys \<noteq> [] \<longrightarrow> 0 < unat k"
      "zs \<noteq> [] \<longrightarrow> unat k \<le> time_of tm (hd zs)"
      using Cons.IH [of "tm_next (tm x)" x "t - tm_time (tm x)"] Cons.prems by auto
    have "start_walk tm pre next t = Some (last (pre # x # ys), link zs, k)"
      using True Cons.prems w(2) by (subst start_walk.simps) simp
    moreover have "0 < unat k" using w(3,4) t(2) by (cases "ys = []") simp_all
    ultimately show ?thesis
      using w t by (intro exI [of _ "x # ys"] exI [of _ zs] exI [of _ k]) simp
  next
    case False
    then have "start_walk tm pre next t = Some (pre, Some x, t)"
      using Cons.prems by (subst start_walk.simps) simp
    with False show ?thesis
      by (intro exI [of _ "[]"] exI [of _ "x # xs"] exI [of _ t]) (simp add: word_less_nat_alt)
  qed
qed

lemma stop_find_ok:
  assumes "lpath (nx tm) next (ys @ timer # zs)" "timer \<notin> set ys"
  shows "stop_find tm timer pre next = Some (last (pre # ys), Some timer)"
  using assms
proof (induction ys arbitrary: pre "next")
  case Nil
  then show ?case by (simp add: stop_find.simps)
next
  case (Cons y ys)
  then show ?case by (subst stop_find.simps) auto
qed

definition clear_times :: "nat list \<Rightarrow> (nat \<Rightarrow> hwtimer) \<Rightarrow> nat \<Rightarrow> hwtimer" where
  "clear_times ys tm = (\<lambda>i. if i \<in> set ys then (tm i)\<lparr>tm_time := 0\<rparr> else tm i)"

definition mark_fired :: "nat list \<Rightarrow> (nat \<Rightarrow> hwtimer) \<Rightarrow> nat \<Rightarrow> hwtimer" where
  "mark_fired ys tm = (\<lambda>i. if i \<in> set ys then (tm i)\<lparr>tm_state := HWTIMER_STATE_FIRED\<rparr> else tm i)"

lemma late_step:
  assumes "t \<le> (e :: u32)" "unat (e - t) = n + unat k"
  shows "unat e = unat t + n + unat k"
  using assms by (simp add: word_le_nat_alt unat_sub_small)

lemma stop_late_ok:
  assumes "lpath (nx tm) p xs" "distinct xs"
  shows "\<exists>ys zs k. xs = ys @ zs \<and> stop_late tm p e = Some (clear_times ys tm, link zs, k) \<and>
    unat e = tsum tm ys + unat k \<and> (zs \<noteq> [] \<longrightarrow> unat k < time_of tm (hd zs))"
  using assms
proof (induction xs arbitrary: tm p e)
  case Nil
  then show ?case by (simp add: stop_late.simps clear_times_def)
next
  case (Cons x xs)
  show ?case
  proof (cases "tm_time (tm x) \<le> e")
    case True
    let ?tm = "tm(x := (tm x)\<lparr>tm_time := 0\<rparr>)"
    have same: "tsum ?tm ys = tsum tm ys" if "x \<notin> set ys" for ys
      using that by (intro tsum_cong) auto
    obtain ys zs k where w: "xs = ys @ zs"
      "stop_late ?tm (tm_next (tm x)) (e - tm_time (tm x)) = Some (clear_times ys ?tm, link zs, k)"
      "unat (e - tm_time (tm x)) = tsum ?tm ys + unat k" "zs \<noteq> [] \<longrightarrow> unat k < time_of ?tm (hd zs)"
      using Cons.IH [of ?tm "tm_next (tm x)" "e - tm_time (tm x)"] Cons.prems by (auto simp del: fun_upd_apply)
    have "clear_times ys ?tm = clear_times (x # ys) tm"
      using w(1) Cons.prems(2) by (auto simp: clear_times_def)
    then have "stop_late tm p e = Some (clear_times (x # ys) tm, link zs, k)"
      using True Cons.prems w(2) by (subst stop_late.simps) simp
    moreover have "unat e = tsum tm (x # ys) + unat k"
      using late_step [OF True w(3)] w(1) Cons.prems(2) same by simp
    moreover have "zs \<noteq> [] \<longrightarrow> unat k < time_of tm (hd zs)"
      using w(1,4) Cons.prems(2) by (cases zs) auto
    ultimately show ?thesis
      using w(1) by (intro exI [of _ "x # ys"] exI [of _ zs] exI [of _ k]) simp
  next
    case False
    then have "stop_late tm p e = Some (tm, Some x, e)"
      using Cons.prems by (subst stop_late.simps) simp
    with False show ?thesis
      by (intro exI [of _ "[]"] exI [of _ "x # xs"] exI [of _ e]) (simp add: word_le_nat_alt clear_times_def)
  qed
qed

lemma fire_walk_ok:
  assumes "lpath (nx tm) lst xs" "distinct xs"
  shows "\<exists>ys zs k. xs = ys @ zs \<and> fire_walk tm pre lst e = Some (mark_fired ys tm, last (pre # ys), link zs, k) \<and>
    unat e = tsum tm ys + unat k \<and> (zs \<noteq> [] \<longrightarrow> unat k < time_of tm (hd zs))"
  using assms
proof (induction xs arbitrary: tm pre lst e)
  case Nil
  then show ?case by (simp add: fire_walk.simps mark_fired_def)
next
  case (Cons x xs)
  show ?case
  proof (cases "tm_time (tm x) \<le> e")
    case True
    let ?tm = "tm(x := (tm x)\<lparr>tm_state := HWTIMER_STATE_FIRED\<rparr>)"
    have same: "tsum ?tm ys = tsum tm ys" for ys
      by (intro tsum_cong) auto
    obtain ys zs k where w: "xs = ys @ zs"
      "fire_walk ?tm x (tm_next (tm x)) (e - tm_time (tm x)) = Some (mark_fired ys ?tm, last (x # ys), link zs, k)"
      "unat (e - tm_time (tm x)) = tsum ?tm ys + unat k" "zs \<noteq> [] \<longrightarrow> unat k < time_of ?tm (hd zs)"
      using Cons.IH [of ?tm "tm_next (tm x)" x "e - tm_time (tm x)"] Cons.prems
      by (auto simp del: fun_upd_apply last.simps)
    have "mark_fired ys ?tm = mark_fired (x # ys) tm"
      using w(1) Cons.prems(2) by (auto simp: mark_fired_def)
    then have "fire_walk tm pre lst e = Some (mark_fired (x # ys) tm, last (pre # x # ys), link zs, k)"
      using True Cons.prems w(2) by (subst fire_walk.simps) simp
    moreover have "unat e = tsum tm (x # ys) + unat k"
      using late_step [OF True w(3)] same by simp
    moreover have "zs \<noteq> [] \<longrightarrow> unat k < time_of tm (hd zs)"
      using w(1,4) Cons.prems(2) by (cases zs) auto
    ultimately show ?thesis
      using w(1) by (intro exI [of _ "x # ys"] exI [of _ zs] exI [of _ k]) simp
  next
    case False
    then have "fire_walk tm pre lst e = Some (tm, pre, Some x, e)"
      using Cons.prems by (subst fire_walk.simps) simp
    with False show ?thesis
      by (intro exI [of _ "[]"] exI [of _ "x # xs"] exI [of _ e]) (simp add: word_le_nat_alt mark_fired_def)
  qed
qed

section \<open>The invariant\<close>

text \<open>
  The free, active and fired timers are on disjoint lists, and the state of a timer says on which;
  a timer on none of them is allocated or being called back. The hardware runs exactly when a timer
  is active, loaded for the head of the list, and no later timer is further away than 32 bits.
\<close>

definition states_ok :: "(nat \<Rightarrow> hwtimer) \<Rightarrow> nat list \<Rightarrow> nat list \<Rightarrow> nat list \<Rightarrow> bool" where
  "states_ok tm fs as es \<longleftrightarrow> distinct (fs @ as @ es) \<and> set (fs @ as @ es) \<subseteq> {..<10} \<and>
     (\<forall>i<10. (tm_state (tm i) = HWTIMER_STATE_FREE \<longleftrightarrow> i \<in> set fs) \<and>
       (tm_state (tm i) = HWTIMER_STATE_ACTIVE \<longleftrightarrow> i \<in> set as) \<and>
       (tm_state (tm i) = HWTIMER_STATE_FIRED \<longleftrightarrow> i \<in> set es))"

fun clock_ok :: "hwtimers \<Rightarrow> nat list \<Rightarrow> bool" where
  "clock_ok s [] = (\<not> rt_enabled s)"
| "clock_ok s (a # as) = (rt_enabled s \<and> rt_load s = load_of (tm_time (ht_timer s a)) \<and>
     unat (hal_timer_get s) + tsum (ht_timer s) as \<le> 2 ^ 32 - 1 \<and> tsum (ht_timer s) as \<le> 2 ^ 32 - 2)"

definition ht_rep :: "hwtimers \<Rightarrow> nat list \<Rightarrow> nat list \<Rightarrow> nat list \<Rightarrow> bool" where
  "ht_rep s fs as es \<longleftrightarrow> lpath (nx (ht_timer s)) (ht_free s) fs \<and> lpath (nx (ht_timer s)) (ht_active s) as \<and>
     lpath (nx (ht_timer s)) (ht_fired s) es \<and> states_ok (ht_timer s) fs as es \<and> clock_ok s as"

definition ht_inv :: "hwtimers \<Rightarrow> bool" where
  "ht_inv s \<longleftrightarrow> (\<exists>fs as es. ht_rep s fs as es)"

lemma ht_repD:
  assumes "ht_rep s fs as es"
  shows "ht_free s = link fs" "ht_active s = link as" "ht_fired s = link es"
    "lpath (nx (ht_timer s)) (link fs) fs" "lpath (nx (ht_timer s)) (link as) as"
    "lpath (nx (ht_timer s)) (link es) es" "states_ok (ht_timer s) fs as es" "clock_ok s as"
proof -
  show f: "ht_free s = link fs" "ht_active s = link as" "ht_fired s = link es"
    using assms by (auto simp: ht_rep_def dest: lpath_link)
  show "lpath (nx (ht_timer s)) (link fs) fs" "lpath (nx (ht_timer s)) (link as) as"
    "lpath (nx (ht_timer s)) (link es) es" "states_ok (ht_timer s) fs as es" "clock_ok s as"
    using assms by (simp_all add: ht_rep_def flip: f)
qed

lemma states_okD:
  assumes "states_ok tm fs as es" "i < 10"
  shows "tm_state (tm i) = HWTIMER_STATE_FREE \<longleftrightarrow> i \<in> set fs"
    "tm_state (tm i) = HWTIMER_STATE_ACTIVE \<longleftrightarrow> i \<in> set as"
    "tm_state (tm i) = HWTIMER_STATE_FIRED \<longleftrightarrow> i \<in> set es"
  using assms by (simp_all add: states_ok_def)

lemma states_ok_outside:
  assumes "states_ok tm fs as es" "i < 10"
    "tm_state (tm i) = HWTIMER_STATE_ALLOC \<or> tm_state (tm i) = HWTIMER_STATE_CALLBACK"
  shows "i \<notin> set fs" "i \<notin> set as" "i \<notin> set es"
  using states_okD [OF assms(1,2)] assms(3) by auto

text \<open>What the counter reads never exceeds what was loaded, and shortly before expiry the elapsed time is
  nearly the time of the head.\<close>

lemma hal_timer_get_le: "unat (hal_timer_get s) \<le> unat (rt_load s)"
  by (auto simp: hal_timer_get_def unat_sub_small word_less_nat_alt)

lemma counter_ok:
  assumes "clock_ok s (a # as)"
  shows "hal_timer_get s \<le> tm_time (ht_timer s a) \<or> hal_timer_get s \<le> HAL_TIMER_LOAD_DELTA"
proof -
  have "unat (hal_timer_get s) \<le> max 1 (time_of (ht_timer s) a)"
    using assms hal_timer_get_le [of s] load_of_bound [of "tm_time (ht_timer s a)"] by simp
  then show ?thesis by (auto simp: word_le_nat_alt HAL_TIMER_LOAD_DELTA_def)
qed

lemma expired_ok:
  assumes "clock_ok s (a # as)" "hal_timer_get s = 0"
    "unat (hal_timer_get_elapsed_time s) < 2 ^ 32 - 1"
  shows "tm_time (ht_timer s a) \<le> hal_timer_get_elapsed_time s + HAL_TIMER_LOAD_DELTA"
proof -
  have "\<not> hal_timer_get_elapsed_time s < rt_load s"
  proof
    assume *: "hal_timer_get_elapsed_time s < rt_load s"
    then have "unat (rt_load s - hal_timer_get_elapsed_time s) = 0"
      using assms(2) by (simp add: hal_timer_get_def)
    with * show False by (simp add: word_less_nat_alt unat_sub_small)
  qed
  then have "time_of (ht_timer s) a \<le> unat (hal_timer_get_elapsed_time s) + 1"
    using assms(1) by (auto simp: load_of_def word_less_nat_alt word_le_nat_alt unat_sub_small split: if_splits)
  moreover have "unat (hal_timer_get_elapsed_time s + HAL_TIMER_LOAD_DELTA) = unat (hal_timer_get_elapsed_time s) + 1"
    using assms(3) by (simp add: HAL_TIMER_LOAD_DELTA_def unat_add_small)
  ultimately show ?thesis by (simp add: word_le_nat_alt)
qed

end
