(* ===== verification/Hwtimer_Ops.thy ===== *)
theory Hwtimer_Ops
  imports Hwtimer_Lists
begin

text \<open>
  What each operation of the timer service does to the lists and the agenda, and that every operation
  keeps the invariant and never fails an assertion.
\<close>

section \<open>Shared steps\<close>

lemma states_ok_change:
  assumes "states_ok tm fs as es" "t < 10"
    "\<And>i. i < 10 \<Longrightarrow> i \<noteq> t \<Longrightarrow> tm_state (tm' i) = tm_state (tm i)"
    "distinct (fs' @ as' @ es')"
    "set fs' - {t} = set fs - {t}" "set as' - {t} = set as - {t}" "set es' - {t} = set es - {t}"
    "tm_state (tm' t) = HWTIMER_STATE_FREE \<longleftrightarrow> t \<in> set fs'"
    "tm_state (tm' t) = HWTIMER_STATE_ACTIVE \<longleftrightarrow> t \<in> set as'"
    "tm_state (tm' t) = HWTIMER_STATE_FIRED \<longleftrightarrow> t \<in> set es'"
  shows "states_ok tm' fs' as' es'"
proof -
  have m: "i \<in> set xs' \<longleftrightarrow> i \<in> set xs" if "set xs' - {t} = set xs - {t}" "i \<noteq> t" for i and xs xs' :: "nat list"
    using that by blast
  have "set (fs' @ as' @ es') \<subseteq> insert t (set (fs @ as @ es))"
    using assms(5-7) by (simp only: set_append) blast
  then have "set (fs' @ as' @ es') \<subseteq> {..<10}"
    using assms(1,2) by (auto simp: states_ok_def)
  moreover have "(tm_state (tm' i) = HWTIMER_STATE_FREE \<longleftrightarrow> i \<in> set fs') \<and>
      (tm_state (tm' i) = HWTIMER_STATE_ACTIVE \<longleftrightarrow> i \<in> set as') \<and>
      (tm_state (tm' i) = HWTIMER_STATE_FIRED \<longleftrightarrow> i \<in> set es')" if "i < 10" for i
    using assms(3) [OF that] assms(8-10) states_okD [OF assms(1) that]
      m [OF assms(5), of i] m [OF assms(6), of i] m [OF assms(7), of i] by (cases "i = t") simp_all
  ultimately show ?thesis using assms(4) by (simp add: states_ok_def)
qed

lemma clock_ok_cong:
  assumes "clock_ok s as" "rt_now s' = rt_now s" "rt_start_time s' = rt_start_time s"
    "rt_load s' = rt_load s" "rt_enabled s' = rt_enabled s"
    "\<And>x. x \<in> set as \<Longrightarrow> tm_time (ht_timer s' x) = tm_time (ht_timer s x)"
  shows "clock_ok s' as"
proof (cases as)
  case (Cons a r)
  have "hal_timer_get s' = hal_timer_get s" using assms(2-4) by (intro hal_timer_get_cong) simp_all
  moreover have "tsum (ht_timer s') r = tsum (ht_timer s) r" using assms(6) Cons by (intro tsum_cong) simp
  ultimately show ?thesis using assms Cons by simp
qed (use assms in simp)

lemma ht_repI:
  assumes "ht_free s = link fs" "ht_active s = link as" "ht_fired s = link es"
    "lpath (nx (ht_timer s)) (link fs) fs" "lpath (nx (ht_timer s)) (link as) as"
    "lpath (nx (ht_timer s)) (link es) es" "states_ok (ht_timer s) fs as es" "clock_ok s as"
  shows "ht_rep s fs as es"
  using assms by (simp add: ht_rep_def)

lemma states_ok_lt: "states_ok tm fs as es \<Longrightarrow> x \<in> set fs \<or> x \<in> set as \<or> x \<in> set es \<Longrightarrow> x < 10"
  by (auto simp: states_ok_def)

lemma states_ok_distinct: "states_ok tm fs as es \<Longrightarrow> distinct fs \<and> distinct as \<and> distinct es"
  by (simp add: states_ok_def)

section \<open>Initialisation, allocation, update\<close>

lemma hwtimer_init_rep: "ht_rep (hwtimer_init hwtimer_boot) [0..<10] [] []"
proof -
  have n: "[0..<9] = [0, 1, 2, 3, 4, 5, 6, 7, 8 :: nat]" "[0..<10] = [0, 1, 2, 3, 4, 5, 6, 7, 8, 9 :: nat]"
    by (simp_all add: upt_conv_Cons)
  have "states_ok (ht_timer (hwtimer_init hwtimer_boot)) [0..<10] [] []"
    by (simp add: states_ok_def hwtimer_init_def hwtimer_boot_def HWTIMER_NUM_def n Let_def)
  then show ?thesis
    by (simp add: ht_rep_def hwtimer_init_def hwtimer_boot_def HWTIMER_NUM_def n Let_def lseg.simps(2))
qed

lemma hwtimer_alloc_none:
  assumes "ht_rep s [] as es"
  shows "hwtimer_alloc c p s = Some (None, s)"
  using ht_repD(1) [OF assms] by (simp add: hwtimer_alloc_def)

lemma hwtimer_alloc_ok:
  assumes "ht_rep s (f # fs) as es"
  shows "\<exists>s'. hwtimer_alloc c p s = Some (Some f, s') \<and> ht_rep s' fs as es \<and> f < 10 \<and>
    tm_state (ht_timer s' f) = HWTIMER_STATE_ALLOC \<and> tm_callback (ht_timer s' f) = c \<and>
    tm_param (ht_timer s' f) = p \<and> (\<forall>i. i \<noteq> f \<longrightarrow> ht_timer s' i = ht_timer s i)"
proof -
  note r = ht_repD [OF assms]
  have f: "f < 10" "f \<notin> set fs" "f \<notin> set as" "f \<notin> set es" "tm_state (ht_timer s f) = HWTIMER_STATE_FREE"
    using r(7) by (auto simp: states_ok_def)
  define s' where "s' = upd_timer f (\<lambda>t. t\<lparr>tm_state := HWTIMER_STATE_ALLOC, tm_callback := c,
    tm_param := p, tm_next := None\<rparr>) (s\<lparr>ht_free := link fs\<rparr>)"
  have n: "tm_next (ht_timer s f) = link fs" using r(4) by (auto dest: lpath_link)
  then have "hwtimer_alloc c p s = Some (Some f, s')"
    using r(1) f(5) by (simp add: hwtimer_alloc_def s'_def)
  moreover have "states_ok (ht_timer s') fs as es"
    using f r(7) by (intro states_ok_change [OF r(7) f(1)]) (auto simp: s'_def states_ok_def)
  moreover have "clock_ok s' as"
    by (rule clock_ok_cong [OF r(8)]) (use f(3) in \<open>auto simp: s'_def\<close>)
  ultimately show ?thesis
    using r f n by (intro exI [of _ s'] conjI ht_repI) (auto simp: s'_def)
qed

lemma hwtimer_free_ok:
  assumes "ht_rep s fs as es" "t < 10" "tm_state (ht_timer s t) = HWTIMER_STATE_ALLOC"
  shows "\<exists>s'. hwtimer_free t s = (E_HWTIMER_OK, s') \<and> ht_rep s' (t # fs) as es"
proof -
  note r = ht_repD [OF assms(1)]
  have t: "t \<notin> set fs" "t \<notin> set as" "t \<notin> set es"
    using states_ok_outside [OF r(7) assms(2)] assms(3) by auto
  define s' where "s' = (upd_timer t (\<lambda>x. x\<lparr>tm_state := HWTIMER_STATE_FREE, tm_next := ht_free s\<rparr>) s)\<lparr>ht_free := Some t\<rparr>"
  have "hwtimer_free t s = (E_HWTIMER_OK, s')"
    using assms by (simp add: hwtimer_free_def HWTIMER_NUM_def s'_def)
  moreover have "states_ok (ht_timer s') (t # fs) as es"
    using t r(7) by (intro states_ok_change [OF r(7) assms(2)]) (auto simp: s'_def states_ok_def)
  moreover have "clock_ok s' as"
    by (rule clock_ok_cong [OF r(8)]) (use t(2) in \<open>auto simp: s'_def\<close>)
  ultimately show ?thesis
    using r t by (intro exI [of _ s'] conjI ht_repI) (auto simp: s'_def)
qed

lemma hwtimer_free_refused:
  assumes "t \<ge> 10 \<or> tm_state (ht_timer s t) \<noteq> HWTIMER_STATE_ALLOC"
  shows "hwtimer_free t s = (if t \<ge> 10 then E_HWTIMER_INVAL_ID else E_HWTIMER_INVAL_ST, s)"
  using assms by (auto simp: hwtimer_free_def HWTIMER_NUM_def)

text \<open>A change of callback and parameter is invisible to the lists.\<close>

lemma ht_rep_callback:
  assumes "ht_rep s fs as es"
  shows "ht_rep (upd_timer t (\<lambda>x. x\<lparr>tm_callback := c, tm_param := p\<rparr>) s) fs as es"
proof -
  note r = ht_repD [OF assms]
  let ?s = "upd_timer t (\<lambda>x. x\<lparr>tm_callback := c, tm_param := p\<rparr>) s"
  have "states_ok (ht_timer ?s) fs as es" using r(7) by (simp add: states_ok_def)
  moreover have "clock_ok ?s as" by (rule clock_ok_cong [OF r(8)]) auto
  ultimately show ?thesis using r by (intro ht_repI) simp_all
qed

lemma hwtimer_update_ok:
  assumes "ht_rep s fs as es"
  shows "\<exists>r s'. hwtimer_update t c p s = (r, s') \<and> ht_rep s' fs as es \<and>
    (\<forall>i. tm_state (ht_timer s' i) = tm_state (ht_timer s i))"
  using assms ht_rep_callback [OF assms] by (auto simp: hwtimer_update_def)

section \<open>Starting a timer\<close>

text \<open>Starting on the empty list, before the head, and behind the head.\<close>

lemma start_empty:
  assumes "ht_rep s fs [] es" "t < 10" "1 \<le> ticks" "unat ticks \<le> 2 ^ 32 - 2"
    "tm_state (ht_timer s t) = HWTIMER_STATE_ALLOC \<or> tm_state (ht_timer s t) = HWTIMER_STATE_CALLBACK"
  defines "s' \<equiv> upd_timer t (\<lambda>x. x\<lparr>tm_state := HWTIMER_STATE_ACTIVE, tm_next := None, tm_time := ticks\<rparr>)
    (hal_timer_start ticks (s\<lparr>ht_active := Some t\<rparr>))"
  shows "ht_rep s' fs [t] es"
proof -
  note r = ht_repD [OF assms(1)]
  note t = states_ok_outside [OF r(7) assms(2,5)]
  have "states_ok (ht_timer s') fs [t] es"
    using t r(7) by (intro states_ok_change [OF r(7) assms(2)]) (auto simp: s'_def states_ok_def)
  moreover have "hal_timer_get s' = load_of ticks"
    using hal_timer_get_cong [of s' "hal_timer_start ticks (s\<lparr>ht_active := Some t\<rparr>)"]
    by (simp add: s'_def hal_timer_get_fresh)
  then have "clock_ok s' [t]"
    using load_of_bound [of ticks] assms(3,4) by (simp add: s'_def)
  ultimately show ?thesis
    using r t by (intro ht_repI) (simp_all add: s'_def)
qed

lemma start_front:
  assumes "ht_rep s fs (a # as) es" "t < 10" "1 \<le> ticks" "ticks < hal_timer_get s"
    "tm_state (ht_timer s t) = HWTIMER_STATE_ALLOC \<or> tm_state (ht_timer s t) = HWTIMER_STATE_CALLBACK"
  defines "s' \<equiv> upd_timer t (\<lambda>x. x\<lparr>tm_state := HWTIMER_STATE_ACTIVE, tm_next := Some a, tm_time := ticks\<rparr>)
    (upd_timer a (\<lambda>x. x\<lparr>tm_time := hal_timer_get s - ticks\<rparr>)
    (hal_timer_start ticks (s\<lparr>ht_active := Some t\<rparr>)))"
  shows "ht_rep s' fs (t # a # as) es \<and>
    agenda (unat ticks) (ht_timer s') (t # a # as) =
      (t, unat ticks) # agenda (unat (hal_timer_get s)) (ht_timer s) (a # as)"
proof -
  note r = ht_repD [OF assms(1)]
  note t = states_ok_outside [OF r(7) assms(2,5)]
  have a: "a < 10" "a \<notin> set as" "a \<noteq> t" "a \<notin> set fs" "a \<notin> set es" using r(7) t by (auto simp: states_ok_def)
  have d: "unat (hal_timer_get s - ticks) = unat (hal_timer_get s) - unat ticks"
    "unat ticks < unat (hal_timer_get s)" "1 \<le> unat ticks"
    using assms(3,4) by (simp_all add: word_less_nat_alt word_le_nat_alt unat_sub_small)
  have "states_ok (ht_timer s') fs (t # a # as) es"
    using t a r(7) by (intro states_ok_change [OF r(7) assms(2)]) (auto simp: s'_def states_ok_def)
  moreover have same: "tsum (ht_timer s') as = tsum (ht_timer s) as"
    using t a by (intro tsum_cong) (auto simp: s'_def)
  moreover have "hal_timer_get s' = load_of ticks"
    using hal_timer_get_cong [of s' "hal_timer_start ticks (s\<lparr>ht_active := Some t\<rparr>)"]
    by (simp add: s'_def hal_timer_get_fresh)
  then have "clock_ok s' (t # a # as)"
    using load_of_bound [of ticks] r(8) d a(3) same by (auto simp: s'_def)
  ultimately have rep: "ht_rep s' fs (t # a # as) es"
    using r t a by (intro ht_repI) (simp_all add: s'_def)
  have "due (ht_timer s') (unat (hal_timer_get s)) as = due (ht_timer s) (unat (hal_timer_get s)) as"
    using t a by (intro due_cong) (auto simp: s'_def)
  then have "agenda (unat ticks) (ht_timer s') (t # a # as) =
      (t, unat ticks) # agenda (unat (hal_timer_get s)) (ht_timer s) (a # as)"
    using d a(3) by (simp add: s'_def)
  with rep show ?thesis by blast
qed

lemma start_behind:
  assumes "ht_rep s fs (a # ys @ zs) es" "t < 10"
    "tm_state (ht_timer s t) = HWTIMER_STATE_ALLOC \<or> tm_state (ht_timer s t) = HWTIMER_STATE_CALLBACK"
    "hal_timer_get s \<le> ticks" "unat ticks \<le> 2 ^ 32 - 2"
    "unat (ticks - hal_timer_get s) = tsum (ht_timer s) ys + unat k"
    "zs \<noteq> [] \<longrightarrow> unat k \<le> time_of (ht_timer s) (hd zs)"
  defines "s' \<equiv> upd_timer t (\<lambda>x. x\<lparr>tm_state := HWTIMER_STATE_ACTIVE, tm_next := link zs, tm_time := k\<rparr>)
    (upd_timer (last (a # ys)) (\<lambda>x. x\<lparr>tm_next := Some t\<rparr>)
    (case link zs of None \<Rightarrow> s | Some n \<Rightarrow> upd_timer n (\<lambda>x. x\<lparr>tm_time := tm_time x - k\<rparr>) s))"
  shows "ht_rep s' fs (a # ys @ t # zs) es \<and>
    agenda (unat (hal_timer_get s)) (ht_timer s') (a # ys @ t # zs) =
      agenda (unat (hal_timer_get s)) (ht_timer s) (a # ys) @ (t, unat ticks) #
      due (ht_timer s) (unat (hal_timer_get s) + tsum (ht_timer s) ys) zs"
proof -
  note r = ht_repD [OF assms(1)]
  note t = states_ok_outside [OF r(7) assms(2,3)]
  let ?c = "unat (hal_timer_get s)" and ?p = "last (a # ys)"
  have p: "?p \<in> set (a # ys)" by (rule last_in_set) simp
  have dis: "distinct (a # ys @ zs)" "set (a # ys @ zs) \<inter> set fs = {}" "set (a # ys @ zs) \<inter> set es = {}"
    using r(7) by (auto simp: states_ok_def)
  then have pt: "?p \<noteq> t" "?p \<notin> set zs" "?p \<notin> set fs" "?p \<notin> set es" using p t by auto
  have c: "?c + tsum (ht_timer s) ys + unat k = unat ticks"
    using assms(4,6) by (simp add: word_le_nat_alt unat_sub_small)
  define h where "h i = (zs \<noteq> [] \<and> i = hd zs)" for i
  have s': "ht_free s' = ht_free s" "ht_active s' = ht_active s" "ht_fired s' = ht_fired s"
    "rt_now s' = rt_now s" "rt_start_time s' = rt_start_time s" "rt_load s' = rt_load s" "rt_enabled s' = rt_enabled s"
    by (cases zs; simp add: s'_def)+
  have tt: "tm_time (ht_timer s' t) = k" "tm_state (ht_timer s' t) = HWTIMER_STATE_ACTIVE"
    by (simp_all add: s'_def)
  have ti: "tm_time (ht_timer s' i) = (if h i then tm_time (ht_timer s i) - k else tm_time (ht_timer s i))"
    "tm_state (ht_timer s' i) = tm_state (ht_timer s i)" if "i \<noteq> t" for i
    using that pt by (cases zs; auto simp: s'_def h_def)+
  have nx': "nx (ht_timer s') = (nx (ht_timer s))(?p := Some t, t := link zs)"
    by (cases zs) (auto simp: s'_def nx_def)
  have same: "tm_time (ht_timer s' i) = tm_time (ht_timer s i)" if "i \<in> set (a # ys)" for i
  proof -
    have "i \<noteq> t" "\<not> h i" using that t dis(1) by (auto simp: h_def)
    then show ?thesis by (simp add: ti)
  qed
  have rest: "due (ht_timer s') (b + unat k) zs = due (ht_timer s) b zs" for b
  proof (cases zs)
    case (Cons z zs')
    have z: "z \<noteq> t" "z \<notin> set zs'" using t dis(1) Cons by auto
    have "time_of (ht_timer s') z = time_of (ht_timer s) z - unat k"
      using ti(1) [OF z(1)] assms(7) Cons by (simp add: h_def unat_sub_small)
    moreover have "tm_time (ht_timer s' x) = tm_time (ht_timer s x)" if "x \<in> set zs'" for x
    proof -
      have "x \<noteq> t" "\<not> h x" using that t z Cons by (auto simp: h_def)
      then show ?thesis by (simp add: ti)
    qed
    ultimately show ?thesis
      unfolding Cons using assms(7) Cons z(2) by (intro due_rebase) simp_all
  qed simp
  have tzs: "unat k + tsum (ht_timer s') zs = max (unat k) (tsum (ht_timer s) zs)"
  proof (cases zs)
    case (Cons z zs')
    have z: "z \<noteq> t" "z \<notin> set zs'" using t dis(1) Cons by auto
    have "time_of (ht_timer s') z = time_of (ht_timer s) z - unat k"
      using ti(1) [OF z(1)] assms(7) Cons by (simp add: h_def unat_sub_small)
    moreover have "tsum (ht_timer s') zs' = tsum (ht_timer s) zs'"
    proof (rule tsum_cong)
      fix x assume "x \<in> set zs'"
      then have "x \<noteq> t" "\<not> h x" using t z Cons by (auto simp: h_def)
      then show "tm_time (ht_timer s' x) = tm_time (ht_timer s x)" by (simp add: ti)
    qed
    ultimately show ?thesis using assms(7) Cons by simp
  qed simp
  have tys: "tsum (ht_timer s') ys = tsum (ht_timer s) ys" using same by (intro tsum_cong) simp
  have "states_ok (ht_timer s') fs (a # ys @ t # zs) es"
    using t r(7) tt(2) ti(2) by (intro states_ok_change [OF r(7) assms(2)]) (auto simp: states_ok_def)
  moreover have "hal_timer_get s' = hal_timer_get s" using s' by (intro hal_timer_get_cong) simp_all
  then have "clock_ok s' (a # ys @ t # zs)"
    using r(8) s' same [of a] tys tzs tt(1) c assms(5) by (simp add: max_def split: if_splits)
  moreover have "lpath (nx (ht_timer s')) (Some a) ((a # ys) @ t # zs)"
    unfolding nx' using r(5) dis t by (intro lpath_insert) auto
  moreover have "lpath (nx (ht_timer s')) (link fs) fs" "lpath (nx (ht_timer s')) (link es) es"
    unfolding nx' using r t pt by simp_all
  ultimately have "ht_rep s' fs (a # ys @ t # zs) es"
    using r(1-3) s' by (intro ht_repI) (simp_all del: lseg_nx)
  moreover have "due (ht_timer s') ?c ys = due (ht_timer s) ?c ys" using same by (intro due_cong) simp
  then have "agenda ?c (ht_timer s') (a # ys @ t # zs) = agenda ?c (ht_timer s) (a # ys) @ (t, unat ticks) #
      due (ht_timer s) (?c + tsum (ht_timer s) ys) zs"
    using rest [of "?c + tsum (ht_timer s) ys"] c tys tt(1) by (simp add: due_append)
  ultimately show ?thesis by blast
qed

lemma upd_timer_compose: "upd_timer t f (upd_timer t g s) = upd_timer t (\<lambda>x. f (g x)) s"
  by (simp add: upd_timer_def)

lemma upd_timer_commute: "a \<noteq> b \<Longrightarrow> upd_timer a f (upd_timer b g s) = upd_timer b g (upd_timer a f s)"
  by (simp add: upd_timer_def fun_upd_twist)

lemma upd_timer_outside:
  "hal_timer_start n (upd_timer t f s) = upd_timer t f (hal_timer_start n s)"
  "hal_timer_stop (upd_timer t f s) = upd_timer t f (hal_timer_stop s)"
  "(upd_timer t f s)\<lparr>ht_active := p\<rparr> = upd_timer t f (s\<lparr>ht_active := p\<rparr>)"
  "hal_timer_start n (hal_timer_stop s) = hal_timer_start n s"
  by (simp_all add: upd_timer_def hal_timer_start_def hal_timer_stop_def hal_timer_continue_def
    hal_timer_reload_def Let_def)

lemma hal_timer_get_upd [simp]: "hal_timer_get (upd_timer t f s) = hal_timer_get s"
  by (rule hal_timer_get_cong) simp_all

text \<open>The outcome of a start: the timer enters the agenda at its time, all others keep theirs.\<close>

definition started :: "hwtimers \<Rightarrow> hwtimers \<Rightarrow> nat \<Rightarrow> nat \<Rightarrow> nat list \<Rightarrow> nat list \<Rightarrow> bool" where
  "started s s' t n xs ys \<longleftrightarrow>
     (\<exists>before after. agenda (unat (hal_timer_get s)) (ht_timer s) (xs @ ys) = before @ after \<and>
       agenda (if xs = [] then n else unat (hal_timer_get s)) (ht_timer s') (xs @ t # ys) = before @ (t, n) # after \<and>
       map fst before = xs \<and> (\<forall>(x, d) \<in> set before. d \<le> n) \<and> (\<forall>(x, d) \<in> set after. n \<le> d))"

lemma agenda_ge: "(x, d) \<in> set (agenda c tm xs) \<Longrightarrow> c \<le> d"
  by (cases xs) (auto dest: due_bounds)

lemma hwtimer_start_core:
  assumes rep: "ht_rep s fs as es" and t: "t < 10" and n: "1 \<le> ticks" "unat ticks \<le> 2 ^ 32 - 2"
    and st: "tm_state (ht_timer s t) = HWTIMER_STATE_ALLOC \<or> tm_state (ht_timer s t) = HWTIMER_STATE_CALLBACK"
  shows "\<exists>s' xs ys. hwtimer_start_int t False c p ticks s = Some (E_HWTIMER_OK, s') \<and> as = xs @ ys \<and>
    ht_rep s' fs (xs @ t # ys) es \<and> started s s' t (unat ticks) xs ys"
proof -
  note r = ht_repD [OF rep]
  note out = states_ok_outside [OF r(7) t st]
  have head: "\<not> HWTIMER_NUM \<le> t" "(if ticks < HAL_TIMER_LOAD_DELTA then HAL_TIMER_LOAD_DELTA else ticks) = ticks"
    "\<not> (tm_state (ht_timer s t) \<noteq> HWTIMER_STATE_ALLOC \<and> tm_state (ht_timer s t) \<noteq> HWTIMER_STATE_CALLBACK)"
    using t n(1) st by (auto simp: HWTIMER_NUM_def HAL_TIMER_LOAD_DELTA_def not_less)
  show ?thesis
  proof (cases as)
    case Nil
    let ?s' = "upd_timer t (\<lambda>x. x\<lparr>tm_state := HWTIMER_STATE_ACTIVE, tm_next := None, tm_time := ticks\<rparr>)
      (hal_timer_start ticks (s\<lparr>ht_active := Some t\<rparr>))"
    have "hwtimer_start_int t False c p ticks s = Some (E_HWTIMER_OK, ?s')"
      unfolding hwtimer_start_int_def Let_def if_not_P [OF head(1)] head(2) if_not_P [OF head(3)]
      using r(2) Nil by (simp add: upd_timer_outside upd_timer_compose)
    moreover have "started s ?s' t (unat ticks) [] []" by (simp add: started_def)
    ultimately show ?thesis
      using start_empty [OF rep [unfolded Nil] t n st] Nil
      by (intro exI [of _ ?s'] exI [of _ "[]"]) simp
  next
    case (Cons a r')
    have a: "ht_active s = Some a" "a \<noteq> t" using r(2) out Cons by auto
    let ?s1 = "upd_timer t (\<lambda>x. x\<lparr>tm_state := HWTIMER_STATE_ACTIVE\<rparr>) s"
    have chk: "check (hal_timer_get s \<le> tm_time (ht_timer s a) \<or> hal_timer_get s \<le> HAL_TIMER_LOAD_DELTA) = Some ()"
      using counter_ok r(8) Cons by (simp add: check_def)
    show ?thesis
    proof (cases "ticks < hal_timer_get s")
      case True
      let ?s' = "upd_timer t (\<lambda>x. x\<lparr>tm_state := HWTIMER_STATE_ACTIVE, tm_next := Some a, tm_time := ticks\<rparr>)
        (upd_timer a (\<lambda>x. x\<lparr>tm_time := hal_timer_get s - ticks\<rparr>)
        (hal_timer_start ticks (s\<lparr>ht_active := Some t\<rparr>)))"
      have "hwtimer_start_int t False c p ticks s = Some (E_HWTIMER_OK, ?s')"
        unfolding hwtimer_start_int_def Let_def if_not_P [OF head(1)] head(2) if_not_P [OF head(3)]
        using a True
        by (simp add: chk upd_timer_outside upd_timer_compose upd_timer_commute [of a t])
      moreover note front = start_front [OF rep [unfolded Cons] t n(1) True st]
      moreover have "started s ?s' t (unat ticks) [] (a # r')"
      proof -
        have "unat ticks \<le> unat (hal_timer_get s)" using True by (simp add: word_less_nat_alt)
        moreover note front [THEN conjunct2]
        ultimately show ?thesis
          unfolding started_def
          by (intro exI [of _ "[]"] exI [of _ "agenda (unat (hal_timer_get s)) (ht_timer s) (a # r')"])
            (auto dest: due_bounds)
      qed
      ultimately show ?thesis using Cons by (intro exI [of _ ?s'] exI [of _ "[]"] exI [of _ "a # r'"]) simp
    next
      case False
      then have le: "hal_timer_get s \<le> ticks" by simp
      have path: "lpath (nx (ht_timer ?s1)) (tm_next (ht_timer ?s1 a)) r'"
        using r(5) Cons a(2) by simp
      have same: "tsum (ht_timer ?s1) xs = tsum (ht_timer s) xs" for xs
        by (intro tsum_cong) simp
      have same_time: "time_of (ht_timer ?s1) x = time_of (ht_timer s) x" for x by simp
      obtain ys zs k where w: "r' = ys @ zs"
        "start_walk (ht_timer ?s1) a (tm_next (ht_timer ?s1 a)) (ticks - hal_timer_get s) =
          Some (last (a # ys), link zs, k)"
        "unat (ticks - hal_timer_get s) = tsum (ht_timer s) ys + unat k"
        "zs \<noteq> [] \<longrightarrow> unat k \<le> time_of (ht_timer s) (hd zs)"
        using start_walk_ok [OF path, of a "ticks - hal_timer_get s", unfolded same same_time] by blast
      let ?p = "last (a # ys)"
      let ?s' = "upd_timer t (\<lambda>x. x\<lparr>tm_state := HWTIMER_STATE_ACTIVE, tm_next := link zs, tm_time := k\<rparr>)
        (upd_timer ?p (\<lambda>x. x\<lparr>tm_next := Some t\<rparr>)
        (case link zs of None \<Rightarrow> s | Some n \<Rightarrow> upd_timer n (\<lambda>x. x\<lparr>tm_time := tm_time x - k\<rparr>) s))"
      note behind = start_behind [OF rep [unfolded Cons w(1)] t st le n(2) w(3,4)]
      have "?p \<in> set (a # ys)" by (rule last_in_set) simp
      then have pt: "?p \<noteq> t" using out Cons w(1) by auto
      have zt: "z \<noteq> t" if "link zs = Some z" for z using that out Cons w(1) by (cases zs) auto
      have "hwtimer_start_int t False c p ticks s = Some (E_HWTIMER_OK, ?s')"
        unfolding hwtimer_start_int_def Let_def if_not_P [OF head(1)] head(2) if_not_P [OF head(3)]
        using a False w(2) pt zt
        by (cases "link zs") (simp_all add: chk upd_timer_compose upd_timer_commute [of _ t])
      moreover have "started s ?s' t (unat ticks) (a # ys) zs"
      proof -
        let ?c = "unat (hal_timer_get s)"
        have c: "?c + tsum (ht_timer s) ys + unat k = unat ticks"
          using le w(3) by (simp add: word_le_nat_alt unat_sub_small)
        have "agenda ?c (ht_timer s) ((a # ys) @ zs) =
            agenda ?c (ht_timer s) (a # ys) @ due (ht_timer s) (?c + tsum (ht_timer s) ys) zs"
          by (simp add: due_append)
        moreover have "d \<le> unat ticks" if "(x, d) \<in> set (agenda ?c (ht_timer s) (a # ys))" for x d
          using that c by (auto dest: due_bounds)
        moreover have "unat ticks \<le> d" if "(x, d) \<in> set (due (ht_timer s) (?c + tsum (ht_timer s) ys) zs)" for x d
        proof (cases zs)
          case (Cons z zs')
          have "?c + tsum (ht_timer s) ys + time_of (ht_timer s) z \<le> d"
            using that Cons by (auto dest: due_bounds)
          then show ?thesis using w(4) c Cons by simp
        qed (use that in simp)
        ultimately show ?thesis
          unfolding started_def using behind [THEN conjunct2]
          by (intro exI [of _ "agenda ?c (ht_timer s) (a # ys)"]
            exI [of _ "due (ht_timer s) (?c + tsum (ht_timer s) ys) zs"]) auto
      qed
      ultimately show ?thesis
        using behind Cons w(1) by (intro exI [of _ ?s'] exI [of _ "a # ys"] exI [of _ zs]) simp
    qed
  qed
qed

end
