(* ===== verification/Hwtimer_Stop.thy ===== *)
theory Hwtimer_Stop
  imports Hwtimer_Ops
begin

text \<open>
  Stopping a timer in each of its states: the timer leaves its list and everything else in the agenda
  stays, except that a stop after the head has expired first charges the time that is overdue.
\<close>

lemma hwtimer_start_int_ok:
  assumes rep: "ht_rep s fs as es" and t: "t < 10" and n: "unat ticks \<le> 2 ^ 32 - 2"
    and st: "tm_state (ht_timer s t) = HWTIMER_STATE_ALLOC \<or> tm_state (ht_timer s t) = HWTIMER_STATE_CALLBACK"
  shows "\<exists>s' xs ys. hwtimer_start_int t upd c p ticks s = Some (E_HWTIMER_OK, s') \<and> as = xs @ ys \<and>
    ht_rep s' fs (xs @ t # ys) es \<and> started s s' t (max 1 (unat ticks)) xs ys"
proof -
  define m where "m = (if ticks < HAL_TIMER_LOAD_DELTA then HAL_TIMER_LOAD_DELTA else ticks)"
  define s0 where "s0 = (if upd then upd_timer t (\<lambda>x. x\<lparr>tm_callback := c, tm_param := p\<rparr>) s else s)"
  have m: "1 \<le> m" "unat m \<le> 2 ^ 32 - 2" "unat m = max 1 (unat ticks)"
    using n by (auto simp: m_def HAL_TIMER_LOAD_DELTA_def word_less_nat_alt word_le_nat_alt max_def)
  have same: "hwtimer_start_int t upd c p ticks s = hwtimer_start_int t False c p m s0"
  proof -
    have mm: "(if m < HAL_TIMER_LOAD_DELTA then HAL_TIMER_LOAD_DELTA else m) = m"
      using m(1) by (auto simp: HAL_TIMER_LOAD_DELTA_def not_less)
    have swap: "upd_timer t (\<lambda>x. x\<lparr>tm_callback := c, tm_param := p\<rparr>) (upd_timer t (\<lambda>x. x\<lparr>tm_state := HWTIMER_STATE_ACTIVE\<rparr>) s) =
        upd_timer t (\<lambda>x. x\<lparr>tm_state := HWTIMER_STATE_ACTIVE\<rparr>) (upd_timer t (\<lambda>x. x\<lparr>tm_callback := c, tm_param := p\<rparr>) s)"
      by (cases "ht_timer s t") (simp add: upd_timer_def)
    have state: "tm_state (ht_timer (upd_timer t (\<lambda>x. x\<lparr>tm_callback := c, tm_param := p\<rparr>) s) t) = tm_state (ht_timer s t)"
      by simp
    have ok: "(HWTIMER_NUM \<le> t) = False" "(tm_state (ht_timer s t) \<noteq> HWTIMER_STATE_ALLOC \<and>
        tm_state (ht_timer s t) \<noteq> HWTIMER_STATE_CALLBACK) = False"
      using t st by (auto simp: HWTIMER_NUM_def)
    show ?thesis
      unfolding hwtimer_start_int_def m_def [symmetric] mm s0_def
      by (cases upd) (simp_all only: Let_def if_True if_False swap state ok)
  qed
  have "ht_rep s0 fs as es" using rep ht_rep_callback [OF rep] by (simp add: s0_def)
  moreover have "tm_state (ht_timer s0 t) = HWTIMER_STATE_ALLOC \<or> tm_state (ht_timer s0 t) = HWTIMER_STATE_CALLBACK"
    using st by (simp add: s0_def)
  ultimately obtain s' xs ys where w: "hwtimer_start_int t False c p m s0 = Some (E_HWTIMER_OK, s')"
    "as = xs @ ys" "ht_rep s' fs (xs @ t # ys) es" "started s0 s' t (unat m) xs ys"
    using hwtimer_start_core [OF _ t m(1,2)] by blast
  have "agenda b (ht_timer s0) zs = agenda b (ht_timer s) zs" for b zs
    by (cases zs) (auto simp: s0_def intro!: due_cong)
  moreover have "hal_timer_get s0 = hal_timer_get s" by (simp add: s0_def)
  ultimately have "started s s' t (max 1 (unat ticks)) xs ys"
    using w(4) unfolding m(3) started_def by (simp only:)
  with w same show ?thesis by auto
qed

lemma hwtimer_start_int_refused:
  "t \<ge> 10 \<Longrightarrow> hwtimer_start_int t upd c p ticks s = Some (E_HWTIMER_INVAL_ID, s)"
  "t < 10 \<Longrightarrow> tm_state (ht_timer s t) \<noteq> HWTIMER_STATE_ALLOC \<Longrightarrow> tm_state (ht_timer s t) \<noteq> HWTIMER_STATE_CALLBACK \<Longrightarrow>
    hwtimer_start_int t upd c p ticks s = Some (E_HWTIMER_INVAL_ST, s)"
  by (auto simp: hwtimer_start_int_def HWTIMER_NUM_def)

section \<open>Stopping behind the head\<close>

definition stopped :: "nat \<Rightarrow> hwtimers \<Rightarrow> hwtimers" where
  "stopped t s = upd_timer t (\<lambda>x. x\<lparr>tm_state := HWTIMER_STATE_ALLOC, tm_next := None\<rparr>) s"

lemma stopped_fields [simp]:
  "ht_timer (stopped t s) = (ht_timer s)(t := (ht_timer s t)\<lparr>tm_state := HWTIMER_STATE_ALLOC, tm_next := None\<rparr>)"
  "ht_free (stopped t s) = ht_free s" "ht_active (stopped t s) = ht_active s"
  "ht_fired (stopped t s) = ht_fired s" "rt_now (stopped t s) = rt_now s"
  "rt_start_time (stopped t s) = rt_start_time s" "rt_load (stopped t s) = rt_load s"
  "rt_enabled (stopped t s) = rt_enabled s"
  by (simp_all add: stopped_def)

lemma due_skip:
  assumes "t \<notin> set zs" "\<And>x. x \<in> set zs \<Longrightarrow> x \<noteq> hd zs \<Longrightarrow> tm_time (tm' x) = tm_time (tm x)"
    "zs \<noteq> [] \<longrightarrow> time_of tm' (hd zs) = d + time_of tm (hd zs)" "distinct zs"
  shows "due tm' b zs = due tm (b + d) zs" "tsum tm' zs = (if zs = [] then 0 else d) + tsum tm zs"
proof -
  have "due tm' b zs = due tm (b + d) zs \<and> tsum tm' zs = (if zs = [] then 0 else d) + tsum tm zs"
  proof (cases zs)
    case (Cons z zs')
    then have e: "\<And>x. x \<in> set zs' \<Longrightarrow> tm_time (tm' x) = tm_time (tm x)" using assms by auto
    have "due tm' b' zs' = due tm b' zs'" for b' using e by (rule due_cong)
    moreover have "tsum tm' zs' = tsum tm zs'" using e by (rule tsum_cong)
    ultimately show ?thesis using assms(3) Cons by (simp add: add.assoc)
  qed simp
  then show "due tm' b zs = due tm (b + d) zs" "tsum tm' zs = (if zs = [] then 0 else d) + tsum tm zs"
    by simp_all
qed

lemma filter_due: "t \<notin> set xs \<Longrightarrow> filter (\<lambda>(x, _). x \<noteq> t) (due tm b xs) = due tm b xs"
  by (induction xs arbitrary: b) auto

lemma stop_behind:
  assumes "ht_rep s fs (a # xs @ t # zs) es"
  defines "s' \<equiv> stopped t (case link zs of None \<Rightarrow> upd_timer (last (a # xs)) (\<lambda>x. x\<lparr>tm_next := link zs\<rparr>) s
    | Some n \<Rightarrow> upd_timer n (\<lambda>x. x\<lparr>tm_time := tm_time x + tm_time (ht_timer s t)\<rparr>)
        (upd_timer (last (a # xs)) (\<lambda>x. x\<lparr>tm_next := link zs\<rparr>) s))"
  shows "hwtimer_stop t s = Some (E_HWTIMER_OK, s') \<and> ht_rep s' fs (a # xs @ zs) es \<and>
    agenda (unat (hal_timer_get s)) (ht_timer s') (a # xs @ zs) =
      filter (\<lambda>(x, _). x \<noteq> t) (agenda (unat (hal_timer_get s)) (ht_timer s) (a # xs @ t # zs))"
proof -
  note r = ht_repD [OF assms(1)]
  let ?c = "unat (hal_timer_get s)" and ?p = "last (a # xs)"
  have dis: "distinct (a # xs @ t # zs)" "set (a # xs @ t # zs) \<inter> set fs = {}" "set (a # xs @ t # zs) \<inter> set es = {}"
    "t < 10" using r(7) by (auto simp: states_ok_def)
  have "?p \<in> set (a # xs)" by (rule last_in_set) simp
  then have p: "?p \<noteq> t" "?p \<notin> set zs" "?p \<notin> set fs" "?p \<notin> set es" using dis by auto
  have act: "tm_state (ht_timer s t) = HWTIMER_STATE_ACTIVE"
    using states_okD(2) [OF r(7) dis(4)] by simp
  have nxt: "tm_next (ht_timer s t) = link zs"
    using lseg_next [of "nx (ht_timer s)" _ "a # xs" t zs] r(5) by (auto simp: nx_def)
  have path: "lpath (nx (ht_timer s)) (tm_next (ht_timer s a)) (xs @ t # zs)" using r(5) by simp
  have find: "stop_find (ht_timer s) t a (tm_next (ht_timer s a)) = Some (?p, Some t)"
    using stop_find_ok [OF path] dis(1) by simp
  have a: "ht_active s = Some a" "a \<noteq> t" using r(2) dis(1) by auto
  have st: "hwtimer_stop t s = Some (E_HWTIMER_OK, s')"
    using a find act dis(4) nxt p(1)
    by (cases zs) (auto simp: hwtimer_stop_def HWTIMER_NUM_def s'_def stopped_def Let_def)
  have s': "ht_free s' = ht_free s" "ht_active s' = ht_active s" "ht_fired s' = ht_fired s"
    "rt_now s' = rt_now s" "rt_start_time s' = rt_start_time s" "rt_load s' = rt_load s" "rt_enabled s' = rt_enabled s"
    by (cases zs; simp add: s'_def)+
  have nx': "nx (ht_timer s') = ((nx (ht_timer s))(?p := link zs))(t := None)"
    using p dis(1) by (cases zs) (auto simp: s'_def nx_def)
  have ti: "tm_time (ht_timer s' i) = (if zs \<noteq> [] \<and> i = hd zs then tm_time (ht_timer s i) + tm_time (ht_timer s t)
      else tm_time (ht_timer s i))"
    "tm_state (ht_timer s' i) = tm_state (ht_timer s i)" if "i \<noteq> t" for i
    using that p by (cases zs; auto simp: s'_def)+
  have tt: "tm_state (ht_timer s' t) = HWTIMER_STATE_ALLOC" by (simp add: s'_def)
  have same: "tm_time (ht_timer s' i) = tm_time (ht_timer s i)" if "i \<in> set (a # xs)" for i
  proof -
    have "i \<noteq> t" "\<not> (zs \<noteq> [] \<and> i = hd zs)" using that dis(1) by (cases zs; auto)+
    then show ?thesis using ti(1) by auto
  qed
  have bnd: "tsum (ht_timer s) xs + time_of (ht_timer s) t + tsum (ht_timer s) zs \<le> 2 ^ 32 - 2"
    using r(8) by simp
  have zs: "due (ht_timer s') b zs = due (ht_timer s) (b + time_of (ht_timer s) t) zs"
    "tsum (ht_timer s') zs \<le> time_of (ht_timer s) t + tsum (ht_timer s) zs" for b
  proof -
    have "zs \<noteq> [] \<longrightarrow> time_of (ht_timer s') (hd zs) = time_of (ht_timer s) t + time_of (ht_timer s) (hd zs)"
    proof
      assume zs: "zs \<noteq> []"
      then have "hd zs \<noteq> t" using dis(1) by (cases zs) auto
      moreover have "time_of (ht_timer s) (hd zs) \<le> tsum (ht_timer s) zs" using zs by (cases zs) simp_all
      ultimately show "time_of (ht_timer s') (hd zs) = time_of (ht_timer s) t + time_of (ht_timer s) (hd zs)"
        using bnd zs ti(1) [of "hd zs"] by (simp add: unat_add_small)
    qed
    moreover have "tm_time (ht_timer s' x) = tm_time (ht_timer s x)" if "x \<in> set zs" "x \<noteq> hd zs" for x
    proof -
      have "x \<noteq> t" using that dis(1) by auto
      then show ?thesis using that ti(1) by simp
    qed
    ultimately show "due (ht_timer s') b zs = due (ht_timer s) (b + time_of (ht_timer s) t) zs"
      "tsum (ht_timer s') zs \<le> time_of (ht_timer s) t + tsum (ht_timer s) zs"
      using due_skip [of t zs "ht_timer s'" "ht_timer s" "time_of (ht_timer s) t"] dis(1) by auto
  qed
  have xs: "due (ht_timer s') b xs = due (ht_timer s) b xs" "tsum (ht_timer s') xs = tsum (ht_timer s) xs" for b
    using same by (auto intro!: due_cong tsum_cong)
  have "states_ok (ht_timer s') fs (a # xs @ zs) es"
    using dis r(7) tt ti(2) by (intro states_ok_change [OF r(7) dis(4)]) (auto simp: states_ok_def)
  moreover have "hal_timer_get s' = hal_timer_get s" using s' by (intro hal_timer_get_cong) simp_all
  then have "clock_ok s' (a # xs @ zs)"
    using r(8) s' same [of a] xs(2) zs(2) by simp
  moreover have "lpath (nx (ht_timer s')) (Some a) ((a # xs) @ zs)"
  proof -
    have "lpath ((nx (ht_timer s))(?p := link zs)) (Some a) ((a # xs) @ zs)"
      using r(5) dis(1) by (intro lpath_remove [of _ _ _ t]) auto
    then show ?thesis unfolding nx' using dis(1) by (subst lseg_upd) auto
  qed
  moreover have "lpath (nx (ht_timer s')) (link fs) fs" "lpath (nx (ht_timer s')) (link es) es"
    unfolding nx' using r dis p by simp_all
  ultimately have "ht_rep s' fs (a # xs @ zs) es"
    using r(1-3) s' by (intro ht_repI) (simp_all del: lseg_nx)
  moreover have "agenda ?c (ht_timer s') (a # xs @ zs) =
      filter (\<lambda>(x, _). x \<noteq> t) (agenda ?c (ht_timer s) (a # xs @ t # zs))"
    using dis(1) xs zs(1) by (simp add: due_append filter_due)
  ultimately show ?thesis using st by blast
qed

end
