(* ===== verification/Hwtimer_Head.thy ===== *)
theory Hwtimer_Head
  imports Hwtimer_Stop
begin

text \<open>
  Stopping the head of the active list, stopping a fired timer, and the interrupt: the paths that
  depend on what the hardware counter says.
\<close>

section \<open>Stopping the head\<close>

text \<open>How far the head is overdue; while a timer is active the elapsed time must not run through all 32 bits
  (74 hours at 16 kHz).\<close>

definition timely :: "hwtimers \<Rightarrow> bool" where
  "timely s \<longleftrightarrow> ht_active s = None \<or> unat (hal_timer_get_elapsed_time s) < 2 ^ 32 - 1"

definition overdue :: "hwtimers \<Rightarrow> nat \<Rightarrow> nat" where
  "overdue s a = (if hal_timer_get s = 0
     then unat (hal_timer_get_elapsed_time s) - time_of (ht_timer s) a else 0)"

definition head_time :: "hwtimers \<Rightarrow> nat list \<Rightarrow> nat" where
  "head_time s xs = (case xs of [] \<Rightarrow> 0 | x # _ \<Rightarrow> time_of (ht_timer s) x)"

lemma late_elapsed:
  "unat (if e > t then e - t else 0 :: u32) = unat e - unat t"
  by (auto simp: word_less_nat_alt unat_sub_small)

lemma agenda_head_time: "agenda (head_time s xs) (ht_timer s) xs = due (ht_timer s) 0 xs"
  by (cases xs) (simp_all add: head_time_def)

lemma due_clear:
  assumes "distinct xs" "set ys \<inter> set xs = {}"
  shows "due (clear_times ys tm) b xs = due tm b xs" "tsum (clear_times ys tm) xs = tsum tm xs"
  using assms by (auto intro!: due_cong tsum_cong simp: clear_times_def)

lemma due_zero: "(\<And>y. y \<in> set ys \<Longrightarrow> time_of tm y = 0) \<Longrightarrow> due tm b ys = map (\<lambda>y. (y, b)) ys"
  by (induction ys arbitrary: b) simp_all

text \<open>Charging \<open>tsum ys + k\<close> to a chain: the timers of \<open>ys\<close> become due at once, the others sooner.\<close>

lemma due_charge_rest:
  assumes "distinct zs" "zs \<noteq> [] \<longrightarrow> unat k < time_of tm (hd zs)"
    "\<And>i. i \<in> set zs \<Longrightarrow> tm_time (tm' i) = (if i = hd zs then tm_time (tm i) - k else tm_time (tm i))"
  shows "due tm' 0 zs = map (\<lambda>(x, d). (x, d - (n + unat k))) (due tm n zs)"
    "tsum tm' zs \<le> tsum tm zs"
proof -
  have "due tm' 0 zs = map (\<lambda>(x, d). (x, d - (n + unat k))) (due tm n zs) \<and> tsum tm' zs \<le> tsum tm zs"
  proof (cases zs)
    case (Cons w ws)
    have w: "time_of tm' w = time_of tm w - unat k" "unat k \<le> time_of tm w"
      using assms(2) assms(3) [of w] Cons by (simp_all add: unat_sub_small)
    have ws: "tm_time (tm' x) = tm_time (tm x)" if "x \<in> set ws" for x
      using assms(1) assms(3) [of x] that Cons by auto
    have "map (\<lambda>(x, d). (x, d - (n + unat k))) (due tm (n + time_of tm w) ws) =
        map (\<lambda>(x, d). (x, d - (n + unat k))) (due tm (time_of tm' w + (n + unat k)) ws)"
      using w by (simp add: add.commute)
    also have "\<dots> = due tm (time_of tm' w) ws"
      by (simp only: due_shift [of tm "time_of tm' w"] map_map comp_def case_prod_beta fst_conv snd_conv
        add_diff_cancel_right' prod.collapse) simp
    also have "\<dots> = due tm' (time_of tm' w) ws" using ws by (intro due_cong) simp
    finally show ?thesis using Cons w tsum_cong [of ws tm' tm, OF ws] by simp
  qed simp
  then show "due tm' 0 zs = map (\<lambda>(x, d). (x, d - (n + unat k))) (due tm n zs)"
    "tsum tm' zs \<le> tsum tm zs" by simp_all
qed

lemma due_charge:
  assumes "distinct (ys @ zs)" "zs \<noteq> [] \<longrightarrow> unat k < time_of tm (hd zs)"
    "\<And>i. i \<in> set ys \<Longrightarrow> tm_time (tm' i) = 0"
    "\<And>i. i \<in> set zs \<Longrightarrow> tm_time (tm' i) = (if i = hd zs then tm_time (tm i) - k else tm_time (tm i))"
  shows "due tm' 0 (ys @ zs) = map (\<lambda>(x, d). (x, d - (tsum tm ys + unat k))) (due tm 0 (ys @ zs))"
    "tsum tm' (ys @ zs) \<le> tsum tm (ys @ zs)"
proof -
  have ys: "due tm' 0 ys = map (\<lambda>(x, d). (x, d - (tsum tm ys + unat k))) (due tm 0 ys)"
  proof -
    have "map (\<lambda>(x, d). (x, d - (tsum tm ys + unat k))) (due tm 0 ys) = map (\<lambda>(x, d). (x, 0)) (due tm 0 ys)"
      by (intro map_cong refl) (auto dest: due_bounds)
    also have "\<dots> = map (\<lambda>y. (y, 0)) (map fst (due tm 0 ys))"
      unfolding map_map comp_def by (intro map_cong refl) auto
    also have "\<dots> = due tm' 0 ys" using assms(3) by (simp add: due_zero)
    finally show ?thesis by simp
  qed
  have z: "tsum tm' ys = 0" using assms(3) by (induction ys) simp_all
  note rest = due_charge_rest [of zs k tm tm', OF _ assms(2,4)]
  show "due tm' 0 (ys @ zs) = map (\<lambda>(x, d). (x, d - (tsum tm ys + unat k))) (due tm 0 (ys @ zs))"
    "tsum tm' (ys @ zs) \<le> tsum tm (ys @ zs)"
    using ys z rest assms(1) by (simp_all add: due_append)
qed

text \<open>What \<open>stop_active_head\<close> leaves behind, whichever way it goes.\<close>

lemma stop_active_head_ok:
  assumes rep: "ht_rep s fs (t # zs) es" and late: "timely s"
  shows "\<exists>s'. stop_active_head t s = Some s' \<and> ht_active s' = link zs \<and> ht_free s' = ht_free s \<and>
    ht_fired s' = ht_fired s \<and> nx (ht_timer s') = nx (ht_timer s) \<and>
    (\<forall>i. tm_state (ht_timer s' i) = tm_state (ht_timer s i)) \<and> clock_ok s' zs \<and>
    due (ht_timer s') 0 zs = map (\<lambda>(x, d). (x, d - overdue s t)) (due (ht_timer s) (unat (hal_timer_get s)) zs)"
proof -
  note r = ht_repD [OF rep]
  let ?c = "hal_timer_get s" and ?e = "hal_timer_get_elapsed_time s"
  have dis: "t \<notin> set zs" "distinct zs" using r(7) by (auto simp: states_ok_def)
  have path: "lpath (nx (ht_timer s)) (tm_next (ht_timer s t)) zs" using r(5) by simp
  then have nxt: "tm_next (ht_timer s t) = link zs" "lpath (nx (ht_timer s)) (link zs) zs"
    using lpath_link [OF path] by simp_all
  have chk: "check (?c \<le> tm_time (ht_timer s t) \<or> ?c \<le> HAL_TIMER_LOAD_DELTA) = Some ()"
    using counter_ok [OF r(8)] by (simp add: check_def)
  have bnd: "unat ?c + tsum (ht_timer s) zs \<le> 2 ^ 32 - 1" "tsum (ht_timer s) zs \<le> 2 ^ 32 - 2"
    using r(8) by simp_all
  show ?thesis
  proof (cases zs)
    case Nil
    let ?s' = "(hal_timer_stop s)\<lparr>ht_active := None\<rparr>"
    have "stop_active_head t s = Some ?s'"
      using nxt Nil by (simp add: stop_active_head_def chk)
    then show ?thesis using Nil by (intro exI [of _ ?s']) simp
  next
    case (Cons z zs')
    have fresh: "hal_timer_get ((hal_timer_start n s1)\<lparr>ht_active := p\<rparr>) = load_of n" for n s1 p
      using hal_timer_get_cong [of "(hal_timer_start n s1)\<lparr>ht_active := p\<rparr>" "hal_timer_start n s1"]
      by (simp add: hal_timer_get_fresh)
    show ?thesis
    proof (cases "?c = 0")
      case True
      define l where "l = (if ?e > tm_time (ht_timer s t) then ?e - tm_time (ht_timer s t) else 0)"
      have l: "unat l = overdue s t" using True by (simp add: l_def overdue_def late_elapsed)
      have chk2: "check (tm_time (ht_timer s t) \<le> ?e + HAL_TIMER_LOAD_DELTA) = Some ()"
        using expired_ok [OF r(8) True] late r(2) by (simp add: check_def timely_def)
      obtain ys ws k where w: "zs = ys @ ws"
        "stop_late (ht_timer s) (link zs) l = Some (clear_times ys (ht_timer s), link ws, k)"
        "unat l = tsum (ht_timer s) ys + unat k" "ws \<noteq> [] \<longrightarrow> unat k < time_of (ht_timer s) (hd ws)"
        using stop_late_ok [OF nxt(2) dis(2)] by blast
      define s1 where "s1 = (hal_timer_stop s)\<lparr>ht_timer := clear_times ys (ht_timer s)\<rparr>"
      define s2 where "s2 = (case link ws of None \<Rightarrow> s1 | Some p \<Rightarrow> upd_timer p (\<lambda>x. x\<lparr>tm_time := tm_time x - k\<rparr>) s1)"
      let ?s' = "(hal_timer_start (tm_time (ht_timer s2 z)) s2)\<lparr>ht_active := link zs\<rparr>"
      have el: "hal_timer_get_elapsed_time (hal_timer_stop s) = ?e" by (simp add: hal_timer_get_elapsed_time_def)
      have st: "stop_active_head t s = Some ?s'"
        unfolding stop_active_head_def Let_def chk
        using nxt(1) Cons True chk2 w(2)
        by (simp add: el l_def [symmetric] s2_def s1_def [symmetric] split del: if_split cong: option.case_cong if_cong)
      have ti: "ht_timer s2 i = (if i \<in> set ys then (ht_timer s i)\<lparr>tm_time := 0\<rparr>
          else if ws \<noteq> [] \<and> i = hd ws then (ht_timer s i)\<lparr>tm_time := tm_time (ht_timer s i) - k\<rparr> else ht_timer s i)" for i
        using dis(2) w(1) by (cases ws) (auto simp: s2_def s1_def clear_times_def)
      have d: "due (ht_timer s2) 0 zs = map (\<lambda>(x, d). (x, d - overdue s t)) (due (ht_timer s) 0 zs)"
        "tsum (ht_timer s2) zs \<le> tsum (ht_timer s) zs"
      proof -
        have "tm_time (ht_timer s2 i) = 0" if "i \<in> set ys" for i using that ti by simp
        moreover have "tm_time (ht_timer s2 i) =
            (if i = hd ws then tm_time (ht_timer s i) - k else tm_time (ht_timer s i))" if "i \<in> set ws" for i
          using that ti dis(2) w(1) by (cases ws) auto
        moreover have "distinct (ys @ ws)" using dis(2) w(1) by simp
        ultimately show "due (ht_timer s2) 0 zs = map (\<lambda>(x, d). (x, d - overdue s t)) (due (ht_timer s) 0 zs)"
          "tsum (ht_timer s2) zs \<le> tsum (ht_timer s) zs"
          unfolding w(1) l [symmetric] w(3) using w(4) by (intro due_charge; blast)+
      qed
      have "clock_ok ?s' zs"
        using Cons d(2) bnd(2) load_of_bound [of "tm_time (ht_timer s2 z)"] by (simp add: fresh)
      moreover have "nx (ht_timer s2) = nx (ht_timer s)" "\<forall>i. tm_state (ht_timer s2 i) = tm_state (ht_timer s i)"
        using ti by (auto simp: nx_def)
      moreover have "ht_free s2 = ht_free s" "ht_fired s2 = ht_fired s"
        by (cases ws; simp add: s2_def s1_def)+
      ultimately show ?thesis using st d(1) True by (intro exI [of _ ?s']) simp
    next
      case False
      define s2 where "s2 = upd_timer z (\<lambda>x. x\<lparr>tm_time := tm_time x + ?c\<rparr>) (hal_timer_stop s)"
      let ?s' = "(hal_timer_start (tm_time (ht_timer s2 z)) s2)\<lparr>ht_active := link zs\<rparr>"
      have st: "stop_active_head t s = Some ?s'"
        unfolding stop_active_head_def Let_def chk using nxt(1) Cons False by (simp add: s2_def)
      have tz: "time_of (ht_timer s2) z = time_of (ht_timer s) z + unat ?c" "0 < unat ?c"
        using bnd(1) Cons False by (simp_all add: s2_def unat_add_small unat_gt_0)
      have zs': "tsum (ht_timer s2) zs' = tsum (ht_timer s) zs'" "due (ht_timer s2) b zs' = due (ht_timer s) b zs'" for b
        using dis(2) Cons by (auto simp: s2_def intro!: tsum_cong due_cong)
      have "clock_ok ?s' zs"
        using Cons bnd tz zs' load_of_bound [of "tm_time (ht_timer s2 z)"] by (simp add: fresh)
      moreover have "due (ht_timer s2) 0 zs = due (ht_timer s) (unat ?c) zs"
        using Cons tz zs' by (simp add: add.commute)
      moreover have "overdue s t = 0" using False by (simp add: overdue_def)
      moreover have "nx (ht_timer s2) = nx (ht_timer s)" "ht_free s2 = ht_free s" "ht_fired s2 = ht_fired s"
        "\<forall>i. tm_state (ht_timer s2 i) = tm_state (ht_timer s i)"
        by (simp_all add: s2_def)
      ultimately show ?thesis using st by (intro exI [of _ ?s']) simp
    qed
  qed
qed

lemma stop_head:
  assumes rep: "ht_rep s fs (t # zs) es" and late: "timely s"
  shows "\<exists>s'. hwtimer_stop t s = Some (E_HWTIMER_OK, s') \<and> ht_rep s' fs zs es \<and>
    due (ht_timer s') 0 zs = map (\<lambda>(x, d). (x, d - overdue s t)) (due (ht_timer s) (unat (hal_timer_get s)) zs)"
proof -
  note r = ht_repD [OF rep]
  have t: "t < 10" "t \<notin> set zs" "t \<notin> set fs" "t \<notin> set es" "tm_state (ht_timer s t) = HWTIMER_STATE_ACTIVE"
    using r(7) by (auto simp: states_ok_def)
  obtain s1 where s1: "stop_active_head t s = Some s1" "ht_active s1 = link zs" "ht_free s1 = ht_free s"
    "ht_fired s1 = ht_fired s" "nx (ht_timer s1) = nx (ht_timer s)"
    "\<forall>i. tm_state (ht_timer s1 i) = tm_state (ht_timer s i)" "clock_ok s1 zs"
    "due (ht_timer s1) 0 zs = map (\<lambda>(x, d). (x, d - overdue s t)) (due (ht_timer s) (unat (hal_timer_get s)) zs)"
    using stop_active_head_ok [OF rep late] by blast
  have "hwtimer_stop t s = Some (E_HWTIMER_OK, stopped t s1)"
    using t r(2) s1(1) by (simp add: hwtimer_stop_def HWTIMER_NUM_def stopped_def Let_def)
  moreover have "states_ok (ht_timer (stopped t s1)) fs zs es"
    using t r(7) s1(6) by (intro states_ok_change [OF r(7) t(1)]) (auto simp: states_ok_def)
  moreover have "clock_ok (stopped t s1) zs"
    using t(2) by (intro clock_ok_cong [OF s1(7)]) auto
  moreover have "lpath (nx (ht_timer s)) (link zs) zs"
    using r(5) lpath_link [of "nx (ht_timer s)" "tm_next (ht_timer s t)" zs] by simp
  moreover have "due (ht_timer (stopped t s1)) 0 zs = due (ht_timer s1) 0 zs"
    using t(2) by (intro due_cong) auto
  ultimately show ?thesis
    using r s1 t by (intro exI [of _ "stopped t s1"] conjI ht_repI) (simp_all del: stopped_fields(1) add: stopped_fields(1))
qed

section \<open>Stopping a fired timer\<close>

lemma stop_fired:
  assumes rep: "ht_rep s fs as (xs @ t # zs)"
  shows "\<exists>s'. hwtimer_stop t s = Some (E_HWTIMER_OK, s') \<and> ht_rep s' fs as (xs @ zs) \<and>
    agenda (unat (hal_timer_get s')) (ht_timer s') as = agenda (unat (hal_timer_get s)) (ht_timer s) as"
proof -
  note r = ht_repD [OF rep]
  have dis: "distinct (xs @ t # zs)" "set (xs @ t # zs) \<inter> set fs = {}" "set (xs @ t # zs) \<inter> set as = {}"
    "t < 10" using r(7) by (auto simp: states_ok_def)
  have st: "tm_state (ht_timer s t) = HWTIMER_STATE_FIRED" using states_okD(3) [OF r(7) dis(4)] by simp
  have nxt: "tm_next (ht_timer s t) = link zs"
    using lseg_next [of "nx (ht_timer s)" _ xs t zs] r(6) by (simp add: nx_def)
  define s1 where "s1 = (if xs = [] then s\<lparr>ht_fired := link zs\<rparr>
    else upd_timer (last xs) (\<lambda>x. x\<lparr>tm_next := link zs\<rparr>) s)"
  have run: "hwtimer_stop t s = Some (E_HWTIMER_OK, stopped t s1)"
  proof (cases xs)
    case Nil
    then show ?thesis using r(3) st dis(4) nxt
      by (simp add: hwtimer_stop_def HWTIMER_NUM_def stopped_def s1_def)
  next
    case (Cons f xs')
    have "stop_find (ht_timer s) t f (tm_next (ht_timer s f)) = Some (last (f # xs'), Some t)"
      using r(6) dis(1) Cons by (intro stop_find_ok) auto
    then show ?thesis using r(3) st dis nxt Cons
      by (auto simp: hwtimer_stop_def HWTIMER_NUM_def stopped_def s1_def Let_def)
  qed
  have s1: "ht_free s1 = ht_free s" "ht_active s1 = ht_active s" "rt_now s1 = rt_now s"
    "rt_start_time s1 = rt_start_time s" "rt_load s1 = rt_load s" "rt_enabled s1 = rt_enabled s"
    by (simp_all add: s1_def)
  have ti: "tm_state (ht_timer s1 i) = tm_state (ht_timer s i)" "tm_time (ht_timer s1 i) = tm_time (ht_timer s i)" for i
    by (simp_all add: s1_def)
  have path: "lpath (nx (ht_timer s1)) (link (xs @ zs)) (xs @ zs) \<and> ht_fired s1 = link (xs @ zs)"
  proof (cases "xs = []")
    case True
    then show ?thesis
      using r(6) lpath_link [of "nx (ht_timer s)" "tm_next (ht_timer s t)" zs] by (simp add: s1_def)
  next
    case False
    have "lpath ((nx (ht_timer s))(last xs := link zs)) (link xs) (xs @ zs)"
      using r(6) dis(1) False by (intro lpath_remove [of _ _ _ t]) auto
    then show ?thesis using r(3) False by (simp add: s1_def)
  qed
  have other: "lpath (nx (ht_timer s1)) (link fs) fs" "lpath (nx (ht_timer s1)) (link as) as"
  proof -
    have "last xs \<notin> set fs" "last xs \<notin> set as" if "xs \<noteq> []" using that dis(2,3) last_in_set by fastforce+
    then show "lpath (nx (ht_timer s1)) (link fs) fs" "lpath (nx (ht_timer s1)) (link as) as"
      using r by (simp_all add: s1_def)
  qed
  have "states_ok (ht_timer (stopped t s1)) fs as (xs @ zs)"
    using dis r(7) ti by (intro states_ok_change [OF r(7) dis(4)]) (auto simp: states_ok_def)
  moreover have "clock_ok (stopped t s1) as"
    by (rule clock_ok_cong [OF r(8)]) (auto simp: s1 ti)
  moreover have "agenda (unat (hal_timer_get (stopped t s1))) (ht_timer (stopped t s1)) as =
      agenda (unat (hal_timer_get s)) (ht_timer s) as"
  proof -
    have "hal_timer_get (stopped t s1) = hal_timer_get s" using s1 by (intro hal_timer_get_cong) simp_all
    moreover have "due (ht_timer (stopped t s1)) b ys = due (ht_timer s) b ys" for b ys
      by (intro due_cong) (simp add: ti)
    ultimately show ?thesis by (cases as) simp_all
  qed
  moreover have "ht_rep (stopped t s1) fs as (xs @ zs)" if "states_ok (ht_timer (stopped t s1)) fs as (xs @ zs)"
    "clock_ok (stopped t s1) as"
    using that path other dis r(1-3) s1 by (intro ht_repI) simp_all
  ultimately show ?thesis using run by blast
qed

lemma hwtimer_stop_other:
  "t \<ge> 10 \<Longrightarrow> hwtimer_stop t s = Some (E_HWTIMER_INVAL_ID, s)"
  "t < 10 \<Longrightarrow> tm_state (ht_timer s t) = HWTIMER_STATE_ALLOC \<Longrightarrow> hwtimer_stop t s = Some (E_HWTIMER_OK, s)"
  "t < 10 \<Longrightarrow> tm_state (ht_timer s t) = HWTIMER_STATE_CALLBACK \<Longrightarrow> hwtimer_stop t s = Some (E_HWTIMER_IN_CALLBACK, s)"
  "t < 10 \<Longrightarrow> tm_state (ht_timer s t) = HWTIMER_STATE_FREE \<Longrightarrow> hwtimer_stop t s = Some (E_HWTIMER_INVAL_ST, s)"
  by (simp_all add: hwtimer_stop_def HWTIMER_NUM_def)

end
