(* ===== verification/Hwtimer_Irq.thy ===== *)
theory Hwtimer_Irq
  imports Hwtimer_Head
begin

text \<open>
  The interrupt: which timers fire, what is left in the agenda, and that the callbacks, each of which may
  use the timer service itself, are all run.
\<close>

section \<open>Firing\<close>

text \<open>The time that has passed since the head was started, at least the time of the head.\<close>

definition fire_time :: "hwtimers \<Rightarrow> nat \<Rightarrow> nat" where
  "fire_time s a = max (time_of (ht_timer s) a) (unat (hal_timer_get_elapsed_time s))"

lemma hwtimer_fire_idle:
  assumes "ht_rep s fs as []" "as = [] \<or> hal_timer_get_elapsed_time s + HAL_TIMER_LOAD_DELTA < tm_time (ht_timer s (hd as))"
  shows "\<exists>s'. hwtimer_fire s = Some (False, s') \<and> ht_rep s' fs as [] \<and> rt_now s' = rt_now s \<and>
    rt_start_time s' = rt_start_time s"
proof (cases as)
  case Nil
  let ?s' = "s\<lparr>err_irq_active_null := err_irq_active_null s + 1\<rparr>"
  have "hwtimer_fire s = Some (False, ?s')"
    using ht_repD [OF assms(1)] Nil by (simp add: hwtimer_fire_def hal_timer_is_enabled_def)
  moreover have "ht_rep ?s' fs as []" using assms(1) Nil by (simp add: ht_rep_def)
  ultimately show ?thesis by (intro exI [of _ ?s']) simp
next
  case (Cons a r)
  let ?s' = "s\<lparr>err_irq_early := err_irq_early s + 1\<rparr>"
  have "hwtimer_fire s = Some (False, ?s')"
    using ht_repD [OF assms(1)] assms(2) Cons
    by (simp add: hwtimer_fire_def hal_timer_is_enabled_def Let_def)
  moreover have "hal_timer_get ?s' = hal_timer_get s" by (intro hal_timer_get_cong) simp_all
  then have "ht_rep ?s' fs as []" using assms(1) Cons by (simp add: ht_rep_def)
  ultimately show ?thesis by (intro exI [of _ ?s']) simp
qed

lemma hwtimer_fire_ok:
  assumes rep: "ht_rep s fs (a # r) []"
    and now: "\<not> hal_timer_get_elapsed_time s + HAL_TIMER_LOAD_DELTA < tm_time (ht_timer s a)"
  shows "\<exists>s' ys zs. hwtimer_fire s = Some (True, s') \<and> r = ys @ zs \<and> ht_rep s' fs zs (a # ys) \<and>
    (\<forall>(x, d) \<in> set (due (ht_timer s) 0 (a # ys)). d \<le> fire_time s a) \<and>
    (\<forall>(x, d) \<in> set (due (ht_timer s) (tsum (ht_timer s) (a # ys)) zs). fire_time s a < d) \<and>
    due (ht_timer s') 0 zs =
      map (\<lambda>(x, d). (x, d - fire_time s a)) (due (ht_timer s) (tsum (ht_timer s) (a # ys)) zs) \<and>
    rt_now s' = rt_now s \<and> (zs \<noteq> [] \<longrightarrow> rt_start_time s' = rt_now s) \<and>
    (zs = [] \<longrightarrow> rt_start_time s' = rt_start_time s)"
proof -
  note r = ht_repD [OF rep]
  let ?e = "hal_timer_get_elapsed_time s" and ?A = "tm_time (ht_timer s a)"
  have dis: "distinct (a # r)" "a < 10" "set (a # r) \<inter> set fs = {}" "set (a # r) \<subseteq> {..<10}"
    using r(7) by (auto simp: states_ok_def)
  define l where "l = (if ?e > ?A then ?e - ?A else 0)"
  have l: "fire_time s a = time_of (ht_timer s) a + unat l"
    by (simp add: l_def fire_time_def late_elapsed max_def)
  let ?s1 = "upd_timer a (\<lambda>x. x\<lparr>tm_state := HWTIMER_STATE_FIRED\<rparr>) s"
  have path: "lpath (nx (ht_timer ?s1)) (tm_next (ht_timer ?s1 a)) r" using r(5) by simp
  have same: "tsum (ht_timer ?s1) xs = tsum (ht_timer s) xs" for xs by (intro tsum_cong) simp
  have same_time: "time_of (ht_timer ?s1) x = time_of (ht_timer s) x" for x by simp
  obtain ys zs k where w: "r = ys @ zs"
    "fire_walk (ht_timer ?s1) a (tm_next (ht_timer ?s1 a)) l =
      Some (mark_fired ys (ht_timer ?s1), last (a # ys), link zs, k)"
    "unat l = tsum (ht_timer s) ys + unat k" "zs \<noteq> [] \<longrightarrow> unat k < time_of (ht_timer s) (hd zs)"
    using fire_walk_ok [OF path, of a l, unfolded same same_time] dis(1) by auto
  let ?p = "last (a # ys)"
  define s2 where "s2 = (upd_timer ?p (\<lambda>x. x\<lparr>tm_next := None\<rparr>)
    (s\<lparr>ht_timer := mark_fired (a # ys) (ht_timer s)\<rparr>))\<lparr>ht_fired := Some a, ht_active := link zs\<rparr>"
  define s' where "s' = (case link zs of None \<Rightarrow> hal_timer_stop s2
    | Some z \<Rightarrow> (let s3 = upd_timer z (\<lambda>x. x\<lparr>tm_time := tm_time x - k\<rparr>) s2 in
        hal_timer_start (tm_time (ht_timer s3 z)) s3))"
  have mark: "mark_fired ys (ht_timer ?s1) = mark_fired (a # ys) (ht_timer s)"
    using dis(1) w(1) by (auto simp: mark_fired_def)
  have run: "hwtimer_fire s = Some (True, s')"
  proof -
    have "hwtimer_fire s = (case fire_walk (ht_timer ?s1) a (tm_next (ht_timer ?s1 a)) l of
        None \<Rightarrow> None
      | Some (tm, pre, lst, elapsed) \<Rightarrow>
          (let s = upd_timer pre (\<lambda>t. t\<lparr>tm_next := None\<rparr>) (?s1\<lparr>ht_timer := tm\<rparr>);
               s = s\<lparr>ht_fired := ht_active s, ht_active := lst\<rparr> in
           Some (True, case lst of
                None \<Rightarrow> hal_timer_stop s
              | Some l \<Rightarrow>
                  (let s = upd_timer l (\<lambda>t. t\<lparr>tm_time := tm_time t - elapsed\<rparr>) s in
                   hal_timer_start (tm_time (ht_timer s l)) s))))"
      using r(2) now unfolding hwtimer_fire_def l_def
      by (simp add: Let_def bind_split split del: if_split split: option.splits prod.splits)
    also have "\<dots> = Some (True, s')"
    proof -
      have "(upd_timer ?p (\<lambda>t. t\<lparr>tm_next := None\<rparr>) (?s1\<lparr>ht_timer := mark_fired (a # ys) (ht_timer s)\<rparr>))
          \<lparr>ht_fired := ht_active (upd_timer ?p (\<lambda>t. t\<lparr>tm_next := None\<rparr>) (?s1\<lparr>ht_timer := mark_fired (a # ys) (ht_timer s)\<rparr>)),
            ht_active := link zs\<rparr> = s2"
        unfolding s2_def by (simp only: upd_timer_fields) (simp add: r(2) upd_timer_def)
      then show ?thesis unfolding w(2) mark s'_def by (simp only: option.case prod.case Let_def)
    qed
    finally show ?thesis .
  qed
  have p: "?p \<in> set (a # ys)" by (rule last_in_set) simp
  then have pn: "?p \<notin> set zs" "?p \<notin> set fs" using dis w(1) by auto
  have s': "ht_free s' = ht_free s" "ht_active s' = link zs" "ht_fired s' = Some a" "rt_now s' = rt_now s"
    "zs \<noteq> [] \<Longrightarrow> rt_start_time s' = rt_now s" "zs = [] \<Longrightarrow> rt_start_time s' = rt_start_time s"
    "zs = [] \<Longrightarrow> \<not> rt_enabled s'" "zs \<noteq> [] \<Longrightarrow> rt_enabled s'"
    by (cases zs; simp add: s'_def s2_def Let_def)+
  have ti: "tm_state (ht_timer s' i) = (if i \<in> set (a # ys) then HWTIMER_STATE_FIRED else tm_state (ht_timer s i))"
    "tm_time (ht_timer s' i) = (if zs \<noteq> [] \<and> i = hd zs then tm_time (ht_timer s i) - k else tm_time (ht_timer s i))" for i
    using pn dis w(1) by (cases zs; auto simp: s'_def s2_def mark_fired_def Let_def)+
  have nx': "nx (ht_timer s') = (nx (ht_timer s))(?p := None)"
    using pn by (cases zs) (auto simp: s'_def s2_def mark_fired_def Let_def nx_def)
  have charge: "due (ht_timer s') 0 zs = map (\<lambda>(x, d). (x, d - (n + unat k))) (due (ht_timer s) n zs)"
    "tsum (ht_timer s') zs \<le> tsum (ht_timer s) zs" for n
  proof -
    have dz: "distinct zs" using dis(1) w(1) by simp
    have tz: "tm_time (ht_timer s' i) = (if i = hd zs then tm_time (ht_timer s i) - k else tm_time (ht_timer s i))"
      if "i \<in> set zs" for i using that ti(2) by auto
    show "due (ht_timer s') 0 zs = map (\<lambda>(x, d). (x, d - (n + unat k))) (due (ht_timer s) n zs)"
      "tsum (ht_timer s') zs \<le> tsum (ht_timer s) zs"
      using due_charge_rest [OF dz w(4) tz] by blast+
  qed
  have ft: "fire_time s a = tsum (ht_timer s) (a # ys) + unat k" using l w(3) by simp
  have "clock_ok s' zs"
  proof (cases zs)
    case (Cons z zs')
    have "hal_timer_get s' = load_of (tm_time (ht_timer s' z))"
      using Cons by (simp add: s'_def Let_def hal_timer_get_fresh)
    moreover have "rt_load s' = load_of (tm_time (ht_timer s' z))" using Cons by (simp add: s'_def Let_def)
    moreover have "tsum (ht_timer s) zs \<le> 2 ^ 32 - 2" using r(8) w(1) by simp
    ultimately show ?thesis
      using charge(2) s'(8) load_of_bound [of "tm_time (ht_timer s' z)"] Cons by simp
  qed (use s'(7) in simp)
  moreover have "states_ok (ht_timer s') fs zs (a # ys)"
    using r(7) ti(1) w(1) by (fastforce simp: states_ok_def)
  moreover have "lpath (nx (ht_timer s')) (link (a # ys)) (a # ys)"
  proof -
    have "lseg (nx (ht_timer s)) (link (a # ys)) (a # ys) (link zs)"
      using r(5) w(1) lpath_append [of "nx (ht_timer s)" "Some a" "a # ys" zs] by simp
    then show ?thesis unfolding nx' using dis(1) w(1) by (intro lseg_redirect) auto
  qed
  moreover have "lpath (nx (ht_timer s')) (link zs) zs"
    using r(5) w(1) lpath_append [of "nx (ht_timer s)" "Some a" "a # ys" zs] pn unfolding nx' by simp
  moreover have "lpath (nx (ht_timer s')) (link fs) fs" unfolding nx' using r(4) pn by simp
  ultimately have "ht_rep s' fs zs (a # ys)"
    using r(1) s' by (intro ht_repI) (simp_all del: lseg_nx)
  moreover have "d \<le> fire_time s a" if "(x, d) \<in> set (due (ht_timer s) 0 (a # ys))" for x d
    using due_bounds [OF that] ft by simp
  moreover have "fire_time s a < d" if "(x, d) \<in> set (due (ht_timer s) (tsum (ht_timer s) (a # ys)) zs)" for x d
  proof (cases zs)
    case (Cons z zs')
    have "tsum (ht_timer s) (a # ys) + time_of (ht_timer s) z \<le> d"
      using that Cons by (auto dest: due_bounds)
    then show ?thesis using ft w(4) Cons by simp
  qed (use that in simp)
  ultimately show ?thesis
    using run w(1) charge(1) [of "tsum (ht_timer s) (a # ys)"] ft s'
    by (intro exI [of _ s'] exI [of _ ys] exI [of _ zs]) (auto simp del: due.simps tsum_simps)
qed

end
