(* ===== verification/Hwtimer_Safety.thy ===== *)
theory Hwtimer_Safety
  imports Hwtimer_Irq
begin

text \<open>
  The timer service as a whole: callbacks behind an interface, sequences of calls, interrupts and passing
  time as a step relation.
\<close>

section \<open>Time\<close>

definition clock_kept :: "hwtimers \<Rightarrow> hwtimers \<Rightarrow> bool" where
  "clock_kept s s' \<longleftrightarrow> rt_now s' = rt_now s \<and>
     (rt_start_time s' = rt_now s \<or>
      rt_start_time s' = rt_start_time s \<and> (ht_active s = None \<longrightarrow> ht_active s' = None))"

lemma clock_kept_timely: "clock_kept s s' \<Longrightarrow> timely s \<Longrightarrow> timely s'"
  by (auto simp: clock_kept_def timely_def hal_timer_get_elapsed_time_def)

lemma clock_kept_refl [simp]: "clock_kept s s"
  by (simp add: clock_kept_def)

lemma clock_kept_alloc: "hwtimer_alloc c p s = Some (r, s') \<Longrightarrow> clock_kept s s'"
  by (auto simp: hwtimer_alloc_def clock_kept_def bind_simps split: option.splits)

lemma clock_kept_free: "hwtimer_free t s = (r, s') \<Longrightarrow> clock_kept s s'"
  by (auto simp: hwtimer_free_def clock_kept_def split: if_splits)

lemma clock_kept_update: "hwtimer_update t c p s = (r, s') \<Longrightarrow> clock_kept s s'"
  by (auto simp: hwtimer_update_def clock_kept_def split: if_splits)

lemma clock_kept_start: "hwtimer_start_int t u c p n s = Some (r, s') \<Longrightarrow> clock_kept s s'"
proof -
  assume run: "hwtimer_start_int t u c p n s = Some (r, s')"
  show ?thesis
  proof (cases "t < 10 \<and> (tm_state (ht_timer s t) = HWTIMER_STATE_ALLOC \<or> tm_state (ht_timer s t) = HWTIMER_STATE_CALLBACK)")
    case False
    then show ?thesis using run hwtimer_start_int_refused [of t] by (cases "t < 10") auto
  next
    case True
    then have ok: "(HWTIMER_NUM \<le> t) = False" "(tm_state (ht_timer s t) \<noteq> HWTIMER_STATE_ALLOC \<and>
        tm_state (ht_timer s t) \<noteq> HWTIMER_STATE_CALLBACK) = False"
      by (auto simp: HWTIMER_NUM_def)
    define s0 where "s0 = (if u then upd_timer t (\<lambda>t. t\<lparr>tm_callback := c, tm_param := p\<rparr>)
      (upd_timer t (\<lambda>t. t\<lparr>tm_state := HWTIMER_STATE_ACTIVE\<rparr>) s)
      else upd_timer t (\<lambda>t. t\<lparr>tm_state := HWTIMER_STATE_ACTIVE\<rparr>) s)"
    have s0: "rt_now s0 = rt_now s" "rt_start_time s0 = rt_start_time s" "ht_active s0 = ht_active s"
      by (simp_all add: s0_def)
    show ?thesis
      using run unfolding hwtimer_start_int_def ok if_False Let_def s0_def [symmetric]
      by (cases "ht_active s0")
        (auto simp: clock_kept_def Option.bind_eq_Some_conv s0 split: if_splits option.splits)
  qed
qed

lemma clock_kept_stop_head: "stop_active_head t s = Some s' \<Longrightarrow> ht_active s \<noteq> None \<Longrightarrow> clock_kept s s'"
  by (auto simp: stop_active_head_def clock_kept_def Let_def Option.bind_eq_Some_conv split: if_splits option.splits)

lemma clock_kept_stop: "hwtimer_stop t s = Some (r, s') \<Longrightarrow> clock_kept s s'"
  by (auto simp: hwtimer_stop_def Let_def Option.bind_eq_Some_conv clock_kept_def
    split: if_splits option.splits hwtimer_state.splits dest: clock_kept_stop_head [unfolded clock_kept_def])

section \<open>Callbacks\<close>

text \<open>What the service relies on in a callback: it returns, keeps the invariant and adds nothing to the
  fired list.\<close>

locale timer_callbacks =
  fixes call :: "nat \<Rightarrow> nat \<Rightarrow> hwtimers \<Rightarrow> hwtimers option"
  assumes call_ok: "ht_rep s fs as es \<Longrightarrow> timely s \<Longrightarrow>
    \<exists>s' fs' as' es'. call c p s = Some s' \<and> ht_rep s' fs' as' es' \<and> length es' \<le> length es \<and> timely s'"
begin

lemma callbacks_ok:
  assumes "ht_rep s fs as es" "timely s"
  shows "\<exists>s' fs' as'. hwtimer_callbacks call s = Some s' \<and> ht_rep s' fs' as' [] \<and> timely s'"
  using assms
proof (induction es arbitrary: s fs as rule: length_induct)
  case (1 es)
  note r = ht_repD [OF 1(2)]
  show ?case
  proof (cases es)
    case Nil
    then have "hwtimer_callbacks call s = Some s"
      using r(3) by (subst hwtimer_callbacks.simps) simp
    with 1 Nil show ?thesis by blast
  next
    case (Cons t es')
    have t: "t < 10" "t \<notin> set fs" "t \<notin> set as" "t \<notin> set es'"
      using r(7) Cons by (auto simp: states_ok_def)
    define s1 where "s1 = upd_timer t (\<lambda>x. x\<lparr>tm_state := HWTIMER_STATE_CALLBACK, tm_next := None\<rparr>)
      (s\<lparr>ht_fired := tm_next (ht_timer s t)\<rparr>)"
    have path: "lpath (nx (ht_timer s)) (tm_next (ht_timer s t)) es'" using r(6) Cons by simp
    then have nxt: "tm_next (ht_timer s t) = link es'" by (rule lpath_link)
    have "states_ok (ht_timer s1) fs as es'"
      using t r(7) Cons by (intro states_ok_change [OF r(7) t(1)]) (auto simp: states_ok_def s1_def)
    moreover have "clock_ok s1 as"
      by (rule clock_ok_cong [OF r(8)]) (use t(3) in \<open>auto simp: s1_def\<close>)
    ultimately have rep1: "ht_rep s1 fs as es'"
      using r t path nxt by (intro ht_repI) (simp_all add: s1_def)
    have time1: "timely s1" using 1(3) by (simp add: timely_def hal_timer_get_elapsed_time_def s1_def)
    have "\<exists>s2 fs2 as2 es2. (case tm_callback (ht_timer s1 t) of None \<Rightarrow> Some s1
        | Some c \<Rightarrow> call c (tm_param (ht_timer s1 t)) s1) = Some s2 \<and> ht_rep s2 fs2 as2 es2 \<and>
        length es2 \<le> length es' \<and> timely s2"
      using rep1 time1 call_ok [OF rep1 time1] by (cases "tm_callback (ht_timer s1 t)") auto
    then obtain s2 fs2 as2 es2 where s2: "(case tm_callback (ht_timer s1 t) of None \<Rightarrow> Some s1
        | Some c \<Rightarrow> call c (tm_param (ht_timer s1 t)) s1) = Some s2"
      "ht_rep s2 fs2 as2 es2" "length es2 \<le> length es'" "timely s2" by blast
    define s3 where "s3 = (if tm_state (ht_timer s2 t) = HWTIMER_STATE_CALLBACK
      then upd_timer t (\<lambda>x. x\<lparr>tm_state := HWTIMER_STATE_ALLOC\<rparr>) s2 else s2)"
    note r2 = ht_repD [OF s2(2)]
    have "ht_rep s3 fs2 as2 es2"
    proof (cases "tm_state (ht_timer s2 t) = HWTIMER_STATE_CALLBACK")
      case True
      note out = states_ok_outside [OF r2(7) t(1)]
      have "states_ok (ht_timer s3) fs2 as2 es2"
        using True out r2(7) by (intro states_ok_change [OF r2(7) t(1)]) (auto simp: s3_def states_ok_def)
      moreover have "clock_ok s3 as2" by (rule clock_ok_cong [OF r2(8)]) (auto simp: s3_def)
      ultimately show ?thesis using r2 by (intro ht_repI) (simp_all add: s3_def)
    qed (use s2(2) in \<open>simp add: s3_def\<close>)
    moreover have "timely s3" using s2(4) by (simp add: timely_def hal_timer_get_elapsed_time_def s3_def)
    moreover have "length es2 < length es" using s2(3) Cons by simp
    ultimately obtain s' fs' as' where s': "hwtimer_callbacks call s3 = Some s'" "ht_rep s' fs' as' []" "timely s'"
      using 1(1) by blast
    have fired: "ht_fired s = Some t" using r(3) Cons by simp
    have "hwtimer_callbacks call s = Some s'"
      by (subst hwtimer_callbacks.simps)
        (simp only: fired option.case Let_def s1_def [symmetric] s2(1) bind.bind_lunit s3_def [symmetric] s'(1))
    with s' show ?thesis by blast
  qed
qed

lemma handler_ok:
  assumes "ht_rep s fs as []" "timely s"
  shows "\<exists>s' fs' as'. hwtimer_handler call s = Some s' \<and> ht_rep s' fs' as' [] \<and> timely s'"
proof (cases "as = [] \<or> hal_timer_get_elapsed_time s + HAL_TIMER_LOAD_DELTA < tm_time (ht_timer s (hd as))")
  case True
  then obtain s1 where "hwtimer_fire s = Some (False, s1)" "ht_rep s1 fs as []"
    "rt_now s1 = rt_now s" "rt_start_time s1 = rt_start_time s"
    using hwtimer_fire_idle [OF assms(1)] by blast
  moreover from this have "ht_active s1 = ht_active s"
    using ht_repD(2) assms(1) by metis
  ultimately show ?thesis
    using assms(2) by (auto simp: hwtimer_handler_def timely_def hal_timer_get_elapsed_time_def)
next
  case False
  then obtain a r where as: "as = a # r" by (cases as) auto
  obtain s1 ys zs where s1: "hwtimer_fire s = Some (True, s1)" "ht_rep s1 fs zs (a # ys)"
    "rt_now s1 = rt_now s" "zs \<noteq> [] \<longrightarrow> rt_start_time s1 = rt_now s" "zs = [] \<longrightarrow> rt_start_time s1 = rt_start_time s"
    using hwtimer_fire_ok [of s fs a r] assms(1) False as by auto
  then have "timely s1"
    using ht_repD(2) [OF s1(2)] by (cases "zs = []") (simp_all add: timely_def hal_timer_get_elapsed_time_def)
  from callbacks_ok [OF s1(2) this] s1(1) show ?thesis by (simp add: hwtimer_handler_def)
qed

end

section \<open>Calls of the service\<close>

datatype ht_op = Alloc_Op "nat option" nat | Free_Op nat | Start_Op nat u32
  | Update_Op nat "nat option" nat | Update_Start_Op nat "nat option" nat u32 | Stop_Op nat

fun valid_ht_op :: "ht_op \<Rightarrow> bool" where
  "valid_ht_op (Start_Op t n) = (unat n \<le> 2 ^ 32 - 2)"
| "valid_ht_op (Update_Start_Op t c p n) = (unat n \<le> 2 ^ 32 - 2)"
| "valid_ht_op _ = True"

fun run_ht_op :: "ht_op \<Rightarrow> hwtimers \<Rightarrow> hwtimers option" where
  "run_ht_op (Alloc_Op c p) s = map_option snd (hwtimer_alloc c p s)"
| "run_ht_op (Free_Op t) s = Some (snd (hwtimer_free t s))"
| "run_ht_op (Start_Op t n) s = map_option snd (hwtimer_start t n s)"
| "run_ht_op (Update_Op t c p) s = Some (snd (hwtimer_update t c p s))"
| "run_ht_op (Update_Start_Op t c p n) s = map_option snd (hwtimer_update_then_start t c p n s)"
| "run_ht_op (Stop_Op t) s = map_option snd (hwtimer_stop t s)"

fun run_ht_ops :: "ht_op list \<Rightarrow> hwtimers \<Rightarrow> hwtimers option" where
  "run_ht_ops [] s = Some s"
| "run_ht_ops (op # ops) s = Option.bind (run_ht_op op s) (run_ht_ops ops)"

text \<open>Callbacks that do nothing but call the service, with valid times; what they do is looked up in
  \<open>scripts\<close>.\<close>

definition call_script :: "(nat \<Rightarrow> nat \<Rightarrow> ht_op list) \<Rightarrow> nat \<Rightarrow> nat \<Rightarrow> hwtimers \<Rightarrow> hwtimers option" where
  "call_script scripts c p s = run_ht_ops (filter valid_ht_op (scripts c p)) s"

lemma start_int_step:
  assumes "ht_rep s fs as es" "unat n \<le> 2 ^ 32 - 2"
  shows "\<exists>r s' as'. hwtimer_start_int t u c p n s = Some (r, s') \<and> ht_rep s' fs as' es"
proof (cases "t < 10 \<and> (tm_state (ht_timer s t) = HWTIMER_STATE_ALLOC \<or> tm_state (ht_timer s t) = HWTIMER_STATE_CALLBACK)")
  case True
  then show ?thesis using hwtimer_start_int_ok [OF assms(1) _ assms(2)] by blast
next
  case False
  then have "\<exists>r. hwtimer_start_int t u c p n s = Some (r, s)"
    using hwtimer_start_int_refused by (cases "t < 10") auto
  with assms show ?thesis by blast
qed

lemma stop_step:
  assumes "ht_rep s fs as es" "timely s"
  shows "\<exists>r s' as' es'. hwtimer_stop t s = Some (r, s') \<and> ht_rep s' fs as' es' \<and> length es' \<le> length es"
proof (cases "t < 10")
  case True
  note st = states_okD [OF ht_repD(7) [OF assms(1)] True]
  show ?thesis
  proof (cases "tm_state (ht_timer s t)")
    case HWTIMER_STATE_ACTIVE
    then have "t \<in> set as" using st by simp
    then obtain xs zs where as: "as = xs @ t # zs" by (auto dest: split_list)
    show ?thesis
    proof (cases xs)
      case Nil
      then show ?thesis using stop_head [of s fs t zs es] assms as by auto
    next
      case (Cons a xs')
      then show ?thesis using stop_behind [of s fs a xs' t zs es] assms as by auto
    qed
  next
    case HWTIMER_STATE_FIRED
    then have "t \<in> set es" using st by simp
    then obtain xs zs where es: "es = xs @ t # zs" by (auto dest: split_list)
    then obtain s' where "hwtimer_stop t s = Some (E_HWTIMER_OK, s')" "ht_rep s' fs as (xs @ zs)"
      using stop_fired [of s fs as xs t zs] assms by blast
    moreover have "length (xs @ zs) \<le> length es" using es by simp
    ultimately show ?thesis by blast
  qed (use hwtimer_stop_other [of t s] True assms in auto)
next
  case False
  then have "hwtimer_stop t s = Some (E_HWTIMER_INVAL_ID, s)" by (intro hwtimer_stop_other) simp
  with assms show ?thesis by blast
qed

lemma run_ht_op_ok:
  assumes rep: "ht_rep s fs as es" and now: "timely s" and ok: "valid_ht_op op"
  shows "\<exists>s' fs' as' es'. run_ht_op op s = Some s' \<and> ht_rep s' fs' as' es' \<and> length es' \<le> length es \<and> timely s'"
proof (cases op)
  case (Alloc_Op c p)
  show ?thesis
  proof (cases fs)
    case Nil
    then show ?thesis using rep now hwtimer_alloc_none Alloc_Op by fastforce
  next
    case (Cons f fs')
    then obtain s' where "hwtimer_alloc c p s = Some (Some f, s')" "ht_rep s' fs' as es"
      using hwtimer_alloc_ok rep by blast
    then show ?thesis using Alloc_Op now clock_kept_timely [OF clock_kept_alloc] by fastforce
  qed
next
  case (Free_Op t)
  show ?thesis
  proof (cases "t < 10 \<and> tm_state (ht_timer s t) = HWTIMER_STATE_ALLOC")
    case True
    then obtain s' where "hwtimer_free t s = (E_HWTIMER_OK, s')" "ht_rep s' (t # fs) as es"
      using hwtimer_free_ok rep by blast
    then show ?thesis using Free_Op now clock_kept_timely [OF clock_kept_free] by fastforce
  next
    case False
    then have "snd (hwtimer_free t s) = s" using hwtimer_free_refused [of t s] by auto
    then show ?thesis using rep now Free_Op by fastforce
  qed
next
  case (Update_Op t c p)
  obtain r s' where "hwtimer_update t c p s = (r, s')" "ht_rep s' fs as es"
    using hwtimer_update_ok [OF rep] by blast
  then show ?thesis using Update_Op now clock_kept_timely [OF clock_kept_update] by fastforce
next
  case (Start_Op t n)
  then obtain r s' as' where "hwtimer_start_int t False None 0 n s = Some (r, s')" "ht_rep s' fs as' es"
    using start_int_step [OF rep] ok by fastforce
  then show ?thesis
    using Start_Op now clock_kept_timely [OF clock_kept_start] by (fastforce simp: hwtimer_start_def)
next
  case (Update_Start_Op t c p n)
  then obtain r s' as' where "hwtimer_start_int t True c p n s = Some (r, s')" "ht_rep s' fs as' es"
    using start_int_step [OF rep] ok by fastforce
  then show ?thesis
    using Update_Start_Op now clock_kept_timely [OF clock_kept_start] by (fastforce simp: hwtimer_update_then_start_def)
next
  case (Stop_Op t)
  obtain r s' as' es' where "hwtimer_stop t s = Some (r, s')" "ht_rep s' fs as' es'" "length es' \<le> length es"
    using stop_step [OF rep now] by blast
  then show ?thesis using Stop_Op now clock_kept_timely [OF clock_kept_stop] by fastforce
qed

lemma run_ht_ops_ok:
  assumes "ht_rep s fs as es" "timely s" "list_all valid_ht_op ops"
  shows "\<exists>s' fs' as' es'. run_ht_ops ops s = Some s' \<and> ht_rep s' fs' as' es' \<and> length es' \<le> length es \<and> timely s'"
  using assms
proof (induction ops arbitrary: s fs as es)
  case (Cons op ops)
  obtain s1 fs1 as1 es1 where s1: "run_ht_op op s = Some s1" "ht_rep s1 fs1 as1 es1"
    "length es1 \<le> length es" "timely s1"
    using run_ht_op_ok [OF Cons.prems(1,2), of op] Cons.prems(3) by fastforce
  obtain s2 fs2 as2 es2 where "run_ht_ops ops s1 = Some s2" "ht_rep s2 fs2 as2 es2"
    "length es2 \<le> length es1" "timely s2"
    using Cons.IH [OF s1(2,4)] Cons.prems(3) by auto
  with s1 show ?case by (auto intro: order.trans)
qed auto

interpretation scripted: timer_callbacks "call_script scripts" for scripts
proof
  fix s fs as es c p
  assume "ht_rep s fs as es" "timely s"
  then show "\<exists>s' fs' as' es'. call_script scripts c p s = Some s' \<and> ht_rep s' fs' as' es' \<and>
      length es' \<le> length es \<and> timely s'"
    unfolding call_script_def by (intro run_ht_ops_ok) (simp_all add: list_all_iff)
qed

section \<open>Reachable states\<close>

lemma pass_time_get:
  assumes "unat (hal_timer_get_elapsed_time s) + unat n < 2 ^ 32"
  shows "hal_timer_get (pass_time n s) \<le> hal_timer_get s"
proof -
  have "hal_timer_get_elapsed_time (pass_time n s) = hal_timer_get_elapsed_time s + n"
    by (simp add: pass_time_def hal_timer_get_elapsed_time_def)
  moreover have "unat (hal_timer_get_elapsed_time s + n) = unat (hal_timer_get_elapsed_time s) + unat n"
    using assms by (simp add: unat_add_small)
  moreover have "rt_load (pass_time n s) = rt_load s" by (simp add: pass_time_def)
  ultimately show ?thesis
    by (auto simp: hal_timer_get_def word_le_nat_alt word_less_nat_alt unat_sub_small)
qed

lemma pass_time_rep:
  assumes "ht_rep s fs as es" "ht_active s = None \<or> unat (hal_timer_get_elapsed_time s) + unat n < 2 ^ 32 - 1"
  shows "ht_rep (pass_time n s) fs as es" "timely (pass_time n s)"
proof -
  note r = ht_repD [OF assms(1)]
  have same: "ht_timer (pass_time n s) = ht_timer s" "ht_free (pass_time n s) = ht_free s"
    "ht_active (pass_time n s) = ht_active s" "ht_fired (pass_time n s) = ht_fired s"
    "rt_enabled (pass_time n s) = rt_enabled s" "rt_load (pass_time n s) = rt_load s"
    by (simp_all add: pass_time_def)
  have "clock_ok (pass_time n s) as"
  proof (cases as)
    case (Cons a xs)
    then have "unat (hal_timer_get_elapsed_time s) + unat n < 2 ^ 32" using assms(2) r(2) by auto
    then have "unat (hal_timer_get (pass_time n s)) \<le> unat (hal_timer_get s)"
      using pass_time_get by (simp add: word_le_nat_alt)
    then show ?thesis using r(8) Cons same by simp
  qed (use r(8) same in simp)
  then show "ht_rep (pass_time n s) fs as es" using r same by (intro ht_repI) simp_all
  show "timely (pass_time n s)"
  proof (cases "ht_active s = None")
    case False
    from assms(2) have b: "unat (hal_timer_get_elapsed_time s) + unat n < 2 ^ 32 - 1"
    proof
      assume "ht_active s = None"
      with False show ?thesis by simp
    qed
    moreover have "hal_timer_get_elapsed_time (pass_time n s) = hal_timer_get_elapsed_time s + n"
      by (simp add: pass_time_def hal_timer_get_elapsed_time_def)
    ultimately show ?thesis by (simp add: timely_def unat_add_small)
  qed (simp add: timely_def same)
qed

text \<open>The states the service can get into: calls with valid times, interrupts at any moment, and time passing,
  but not for 74 hours without the hardware interrupt of an active timer being served.\<close>

inductive ht_reach :: "(nat \<Rightarrow> nat \<Rightarrow> ht_op list) \<Rightarrow> hwtimers \<Rightarrow> bool" for scripts where
  boot: "ht_reach scripts (hwtimer_init hwtimer_boot)"
| call: "ht_reach scripts s \<Longrightarrow> valid_ht_op op \<Longrightarrow> run_ht_op op s = Some s' \<Longrightarrow> ht_reach scripts s'"
| irq: "ht_reach scripts s \<Longrightarrow> hwtimer_handler (call_script scripts) s = Some s' \<Longrightarrow> ht_reach scripts s'"
| pass: "ht_reach scripts s \<Longrightarrow>
    ht_active s = None \<or> unat (hal_timer_get_elapsed_time s) + unat n < 2 ^ 32 - 1 \<Longrightarrow>
    ht_reach scripts (pass_time n s)"

lemma ht_reach_rep:
  assumes "ht_reach scripts s"
  shows "\<exists>fs as. ht_rep s fs as [] \<and> timely s"
  using assms
proof (induction rule: ht_reach.induct)
  case boot
  have "timely (hwtimer_init hwtimer_boot)" by (simp add: timely_def hwtimer_init_def Let_def)
  with hwtimer_init_rep show ?case by blast
next
  case (call s op s')
  then show ?case using run_ht_op_ok [of s _ _ "[]" op] by fastforce
next
  case (irq s s')
  then obtain fs as where "ht_rep s fs as []" "timely s" by blast
  from scripted.handler_ok [OF this, of scripts] irq.hyps(2) show ?case by auto
next
  case (pass s n)
  then show ?case using pass_time_rep [of s _ _ "[]" n] by blast
qed

section \<open>The lists as the reader sees them\<close>

fun chain :: "nat \<Rightarrow> (nat \<Rightarrow> nat option) \<Rightarrow> nat option \<Rightarrow> nat list" where
  "chain 0 nxt p = []"
| "chain (Suc n) nxt None = []"
| "chain (Suc n) nxt (Some i) = i # chain n nxt (nxt i)"

definition active_timers :: "hwtimers \<Rightarrow> nat list" where
  "active_timers s = chain 10 (nx (ht_timer s)) (ht_active s)"

lemma chain_lpath: "lpath nxt p xs \<Longrightarrow> length xs \<le> n \<Longrightarrow> chain n nxt p = xs"
proof (induction xs arbitrary: n p)
  case Nil
  then show ?case by (cases n) simp_all
next
  case (Cons x xs)
  then show ?case by (cases n) (simp_all add: lseg.simps(2))
qed

lemma active_timers_rep:
  assumes "ht_rep s fs as es"
  shows "active_timers s = as"
proof -
  have "distinct as" "set as \<subseteq> {..<10}" using assms by (auto simp: ht_rep_def states_ok_def)
  then have "length as \<le> 10" using card_mono [of "{..<10::nat}" "set as"] by (simp add: distinct_card)
  with assms show ?thesis by (simp add: active_timers_def ht_rep_def chain_lpath)
qed

end
