(* ===== verification/Hwtimer_Props.thy ===== *)
theory Hwtimer_Props
  imports Hwtimer_Safety
begin

text \<open>The properties of the timer service.\<close>

text \<open>C2: The service never panics: in every state it can reach, with any callbacks that use it, every call
  and every interrupt returns without failing an assertion or looping forever, and leaves a state
  with the invariant: disjoint lists that agree with the timers' states, the hardware loaded for
  the head, the fired list emptied.\<close>

theorem hwtimer_never_asserts:
  assumes "ht_reach scripts s"
  shows "ht_inv s \<and> ht_fired s = None \<and>
    (\<forall>op. valid_ht_op op \<longrightarrow> run_ht_op op s \<noteq> None) \<and> hwtimer_handler (call_script scripts) s \<noteq> None"
proof -
  obtain fs as where rep: "ht_rep s fs as []" and now: "timely s" using ht_reach_rep [OF assms] by blast
  have "ht_inv s" using rep by (auto simp: ht_inv_def)
  moreover have "ht_fired s = None" using ht_repD(3) [OF rep] by simp
  moreover have "run_ht_op op s \<noteq> None" if "valid_ht_op op" for op
    using run_ht_op_ok [OF rep now that] by auto
  moreover have "hwtimer_handler (call_script scripts) s \<noteq> None"
    using scripted.handler_ok [OF rep now, of scripts] by auto
  ultimately show ?thesis by blast
qed

theorem hwtimer_never_asserts_witness:
  "hwtimer_handler (call_script (\<lambda>_ _. [Start_Op 0 5])) (hwtimer_init hwtimer_boot) \<noteq> None"
  using hwtimer_never_asserts [OF ht_reach.boot, of "\<lambda>_ _. [Start_Op 0 5]"] by blast

text \<open>C24: Starting a timer that is allocated or being called back enters it into the active list at its time
  (at least one tick); measured by the hardware counter, no other timer's due time changes.\<close>

theorem hwtimer_start_schedules:
  assumes "ht_inv s" "t < 10" "unat ticks \<le> 2 ^ 32 - 2"
    "tm_state (ht_timer s t) = HWTIMER_STATE_ALLOC \<or> tm_state (ht_timer s t) = HWTIMER_STATE_CALLBACK"
  shows "\<exists>s' xs ys. hwtimer_start t ticks s = Some (E_HWTIMER_OK, s') \<and> ht_inv s' \<and>
    active_timers s = xs @ ys \<and> active_timers s' = xs @ t # ys \<and>
    started s s' t (max 1 (unat ticks)) xs ys"
proof -
  obtain fs as es where rep: "ht_rep s fs as es" using assms(1) by (auto simp: ht_inv_def)
  obtain s' xs ys where w: "hwtimer_start_int t False None 0 ticks s = Some (E_HWTIMER_OK, s')" "as = xs @ ys"
    "ht_rep s' fs (xs @ t # ys) es" "started s s' t (max 1 (unat ticks)) xs ys"
    using hwtimer_start_int_ok [OF rep assms(2-4)] by blast
  moreover have "ht_inv s'" using w(3) by (auto simp: ht_inv_def)
  moreover have "active_timers s = xs @ ys" using active_timers_rep [OF rep] w(2) by simp
  moreover have "active_timers s' = xs @ t # ys" using active_timers_rep [OF w(3)] .
  ultimately show ?thesis by (auto simp: hwtimer_start_def)
qed

definition ht_one :: hwtimers where
  "ht_one = the (map_option snd (hwtimer_alloc None 0 (hwtimer_init hwtimer_boot)))"

lemma ht_one_facts: "ht_inv ht_one" "timely ht_one" "tm_state (ht_timer ht_one 0) = HWTIMER_STATE_ALLOC"
proof -
  have "[0..<10] = 0 # [1..<10 :: nat]" by (simp add: upt_conv_Cons)
  then obtain s' where s': "hwtimer_alloc None 0 (hwtimer_init hwtimer_boot) = Some (Some 0, s')"
    "ht_rep s' [1..<10] [] []" "tm_state (ht_timer s' 0) = HWTIMER_STATE_ALLOC"
    using hwtimer_alloc_ok [of "hwtimer_init hwtimer_boot" 0 "[1..<10]" "[]" "[]" None 0] hwtimer_init_rep by auto
  then have one: "ht_one = s'" by (simp add: ht_one_def)
  show "ht_inv ht_one" "tm_state (ht_timer ht_one 0) = HWTIMER_STATE_ALLOC"
    using s' one by (auto simp: ht_inv_def)
  show "timely ht_one" using ht_repD(2) [OF s'(2)] one by (simp add: timely_def)
qed

theorem hwtimer_start_schedules_witness:
  "\<exists>s' xs ys. hwtimer_start 0 100 ht_one = Some (E_HWTIMER_OK, s') \<and> ht_inv s' \<and>
    active_timers ht_one = xs @ ys \<and> active_timers s' = xs @ 0 # ys \<and> started ht_one s' 0 (max 1 (unat (100 :: u32))) xs ys"
  using hwtimer_start_schedules [OF ht_one_facts(1), of 0 100] ht_one_facts(3) by simp

text \<open>C25: Stopping an active timer removes it and nothing else. Behind the head every other due time is
  unchanged; stopping the head leaves the others due as the counter says, less what the head is
  overdue when it has expired already.\<close>

theorem hwtimer_stop_unschedules:
  assumes "ht_inv s" "timely s" "t \<in> set (active_timers s)"
  shows "\<exists>s'. hwtimer_stop t s = Some (E_HWTIMER_OK, s') \<and> ht_inv s' \<and>
    active_timers s' = remove1 t (active_timers s) \<and>
    (if hd (active_timers s) = t
     then due (ht_timer s') 0 (active_timers s') =
       map (\<lambda>(x, d). (x, d - overdue s t)) (due (ht_timer s) (unat (hal_timer_get s)) (active_timers s'))
     else agenda (unat (hal_timer_get s)) (ht_timer s') (active_timers s') =
       filter (\<lambda>(x, _). x \<noteq> t) (agenda (unat (hal_timer_get s)) (ht_timer s) (active_timers s)))"
proof -
  obtain fs as es where rep: "ht_rep s fs as es" using assms(1) by (auto simp: ht_inv_def)
  note act = active_timers_rep [OF rep]
  have dis: "distinct as" using rep by (auto simp: ht_rep_def states_ok_def)
  obtain xs zs where as: "as = xs @ t # zs" using assms(3) act by (metis split_list)
  show ?thesis
  proof (cases xs)
    case Nil
    then obtain s' where s': "hwtimer_stop t s = Some (E_HWTIMER_OK, s')" "ht_rep s' fs zs es"
      "due (ht_timer s') 0 zs = map (\<lambda>(x, d). (x, d - overdue s t)) (due (ht_timer s) (unat (hal_timer_get s)) zs)"
      using stop_head [of s fs t zs es] rep assms(2) as by auto
    then show ?thesis
      using act as Nil active_timers_rep [OF s'(2)]
      by (intro exI [of _ s']) (auto simp: ht_inv_def)
  next
    case (Cons a xs')
    then obtain s' where s': "hwtimer_stop t s = Some (E_HWTIMER_OK, s')" "ht_rep s' fs (a # xs' @ zs) es"
      "agenda (unat (hal_timer_get s)) (ht_timer s') (a # xs' @ zs) =
        filter (\<lambda>(x, _). x \<noteq> t) (agenda (unat (hal_timer_get s)) (ht_timer s) (a # xs' @ t # zs))"
      using stop_behind [of s fs a xs' t zs es] rep as by auto
    have "a \<noteq> t" "remove1 t as = a # xs' @ zs" using dis as Cons by (auto simp: remove1_append)
    with s' show ?thesis
      using act as Cons active_timers_rep [OF s'(2)]
      by (intro exI [of _ s']) (auto simp: ht_inv_def)
  qed
qed

lemma ht_running:
  "\<exists>s'. hwtimer_start 0 100 ht_one = Some (E_HWTIMER_OK, s') \<and> ht_inv s' \<and> timely s' \<and> 0 \<in> set (active_timers s')"
proof -
  obtain fs as es where rep: "ht_rep ht_one fs as es" using ht_one_facts(1) by (auto simp: ht_inv_def)
  obtain s' xs ys where s': "hwtimer_start_int 0 False None 0 100 ht_one = Some (E_HWTIMER_OK, s')"
    "ht_rep s' fs (xs @ 0 # ys) es"
    using hwtimer_start_int_ok [OF rep, of 0 100] ht_one_facts(3) by fastforce
  moreover have "timely s'" using clock_kept_timely [OF clock_kept_start [OF s'(1)] ht_one_facts(2)] .
  ultimately show ?thesis
    using active_timers_rep [OF s'(2)] by (auto simp: hwtimer_start_def ht_inv_def)
qed

theorem hwtimer_stop_unschedules_witness:
  "\<exists>s s'. hwtimer_start 0 100 ht_one = Some (E_HWTIMER_OK, s) \<and> hwtimer_stop 0 s = Some (E_HWTIMER_OK, s') \<and>
     active_timers s' = remove1 0 (active_timers s)"
  using ht_running hwtimer_stop_unschedules [of _ 0] by blast

text \<open>C26: The interrupt fires exactly the timers that are due by the elapsed time (the head and whatever
  follows within that time), in order, and re-arms the hardware for the rest, whose due times shrink by
  the elapsed time; an early or stray interrupt changes no list.\<close>

theorem hwtimer_fire_exact:
  assumes "ht_inv s" "ht_fired s = None"
  shows "\<exists>run s' fired rest. hwtimer_fire s = Some (run, s') \<and> ht_inv s' \<and>
    active_timers s = fired @ rest \<and> active_timers s' = rest \<and> chain 10 (nx (ht_timer s')) (ht_fired s') = fired \<and>
    (if active_timers s = [] \<or>
        hal_timer_get_elapsed_time s + HAL_TIMER_LOAD_DELTA < tm_time (ht_timer s (hd (active_timers s)))
     then \<not> run \<and> fired = []
     else run \<and> fired \<noteq> [] \<and>
       (\<forall>(x, d) \<in> set (due (ht_timer s) 0 fired). d \<le> fire_time s (hd fired)) \<and>
       (\<forall>(x, d) \<in> set (due (ht_timer s) (tsum (ht_timer s) fired) rest). fire_time s (hd fired) < d) \<and>
       due (ht_timer s') 0 rest = map (\<lambda>(x, d). (x, d - fire_time s (hd fired)))
         (due (ht_timer s) (tsum (ht_timer s) fired) rest))"
proof -
  obtain fs as es where rep: "ht_rep s fs as es" using assms(1) by (auto simp: ht_inv_def)
  have es: "es = []" using ht_repD(3) [OF rep] assms(2) by (cases es) simp_all
  note act = active_timers_rep [OF rep]
  show ?thesis
  proof (cases "as = [] \<or> hal_timer_get_elapsed_time s + HAL_TIMER_LOAD_DELTA < tm_time (ht_timer s (hd as))")
    case True
    then obtain s' where s': "hwtimer_fire s = Some (False, s')" "ht_rep s' fs as []"
      using hwtimer_fire_idle rep es by blast
    moreover have "chain 10 (nx (ht_timer s')) (ht_fired s') = []"
      using ht_repD(3) [OF s'(2)] by (simp add: eval_nat_numeral)
    ultimately show ?thesis
      using act active_timers_rep [OF s'(2)] True
      by (intro exI [of _ False] exI [of _ s'] exI [of _ "[]"] exI [of _ as]) (auto simp: ht_inv_def)
  next
    case False
    then obtain a r where as: "as = a # r" by (cases as) auto
    obtain s' ys zs where s': "hwtimer_fire s = Some (True, s')" "r = ys @ zs" "ht_rep s' fs zs (a # ys)"
      "\<forall>(x, d) \<in> set (due (ht_timer s) 0 (a # ys)). d \<le> fire_time s a"
      "\<forall>(x, d) \<in> set (due (ht_timer s) (tsum (ht_timer s) (a # ys)) zs). fire_time s a < d"
      "due (ht_timer s') 0 zs =
        map (\<lambda>(x, d). (x, d - fire_time s a)) (due (ht_timer s) (tsum (ht_timer s) (a # ys)) zs)"
      using hwtimer_fire_ok [of s fs a r] rep es False as by auto
    have "distinct (a # ys)" "set (a # ys) \<subseteq> {..<10}" using s'(3) by (auto simp: ht_rep_def states_ok_def)
    then have "length (a # ys) \<le> 10"
      using card_mono [of "{..<10::nat}" "set (a # ys)"] by (simp only: distinct_card finite_lessThan card_lessThan)
    then have "chain 10 (nx (ht_timer s')) (ht_fired s') = a # ys"
      using s'(3) by (intro chain_lpath) (simp_all only: ht_rep_def)
    moreover have "ht_inv s'" using s'(3) by (auto simp: ht_inv_def)
    moreover have "active_timers s = (a # ys) @ zs" using act as s'(2) by simp
    ultimately show ?thesis
      unfolding act if_not_P [OF False]
      using s'(1,4-6) active_timers_rep [OF s'(3)] as s'(2)
      by (intro exI [of _ True] exI [of _ s'] exI [of _ "a # ys"] exI [of _ zs] conjI)
        (simp_all only: list.sel append_Cons simp_thms list.distinct(2))
  qed
qed

definition ht_due :: hwtimers where
  "ht_due = pass_time 100 (the (map_option snd (hwtimer_start 0 100 ht_one)))"

lemma ht_due_facts: "ht_inv ht_due" "ht_fired ht_due = None" "active_timers ht_due = [0]"
  "hal_timer_get_elapsed_time ht_due = 100" "tm_time (ht_timer ht_due 0) = 100"
proof -
  have n: "[0..<9] = [0, 1, 2, 3, 4, 5, 6, 7, 8 :: nat]" by (simp add: upt_conv_Cons)
  note defs = ht_one_def hwtimer_alloc_def hwtimer_init_def hwtimer_boot_def HWTIMER_NUM_def n Let_def
  have start: "hwtimer_start 0 100 ht_one = Some (E_HWTIMER_OK,
      upd_timer 0 (\<lambda>t. t\<lparr>tm_state := HWTIMER_STATE_ACTIVE, tm_next := None, tm_time := 100\<rparr>)
        (hal_timer_start 100 (ht_one\<lparr>ht_active := Some 0\<rparr>)))"
    by (simp add: defs hwtimer_start_def hwtimer_start_int_def HAL_TIMER_LOAD_DELTA_def upd_timer_outside upd_timer_compose)
  obtain s' where s': "hwtimer_start 0 100 ht_one = Some (E_HWTIMER_OK, s')" "ht_inv s'" "timely s'"
    using ht_running by blast
  have two: "ht_due = pass_time 100 s'" using s'(1) by (simp add: ht_due_def)
  have e: "hal_timer_get_elapsed_time s' = 0"
    using s'(1) start by (auto simp: hal_timer_get_elapsed_time_def)
  then show "ht_inv ht_due"
    using s'(2) pass_time_rep(1) [of s' _ _ _ 100] unfolding two ht_inv_def by fastforce
  show "ht_fired ht_due = None" "active_timers ht_due = [0]" "hal_timer_get_elapsed_time ht_due = 100"
    "tm_time (ht_timer ht_due 0) = 100"
    by (simp_all add: ht_due_def start pass_time_def active_timers_def eval_nat_numeral
      hal_timer_get_elapsed_time_def) (simp add: defs)
qed

theorem hwtimer_fire_exact_witness:
  "\<exists>s' fired rest. hwtimer_fire ht_due = Some (True, s') \<and> ht_inv s' \<and> [0] = fired @ rest \<and> fired \<noteq> [] \<and>
     active_timers s' = rest"
proof -
  have now: "\<not> ([0::nat] = [] \<or> (100::u32) + HAL_TIMER_LOAD_DELTA < tm_time (ht_timer ht_due (hd [0])))"
    by (simp add: HAL_TIMER_LOAD_DELTA_def ht_due_facts)
  show ?thesis
    using hwtimer_fire_exact [OF ht_due_facts(1,2), unfolded ht_due_facts(3,4) if_not_P [OF now]]
    by metis
qed

end
