(* ===== verification/Bit_Loops.thy ===== *)
theory Bit_Loops
  imports Lb_Prelude
begin

text \<open>
  The loops of \<^verbatim>\<open>platform/hal/hal_key.c\<close> over the bits of a map, \<open>while (map) { if (map & (1 << index))
  { map &= ~(1 << index); ... } index++; }\<close>: the body runs once for every bit that is set, from the
  lowest up. A shift by 32 or more is undefined and is \<open>None\<close>; the loop never gets there.
\<close>

function bit_loop :: "(nat \<Rightarrow> 's \<Rightarrow> 's option) \<Rightarrow> nat \<Rightarrow> u32 \<Rightarrow> 's \<Rightarrow> 's option" where
  "bit_loop body index m s =
     (if m = 0 then Some s
      else if 32 \<le> index then None
      else if m AND push_bit index 1 \<noteq> 0
      then Option.bind (body index s) (bit_loop body (index + 1) (m AND NOT (push_bit index 1)))
      else bit_loop body (index + 1) m s)"
  by auto
termination by (relation "measure (\<lambda>(_, index, _, _). 32 - index)") auto

declare bit_loop.simps [simp del]

definition bits_from :: "nat \<Rightarrow> u32 \<Rightarrow> nat list" where
  "bits_from i m = filter (bit m) [i..<32]"

primrec fold_opt :: "('a \<Rightarrow> 's \<Rightarrow> 's option) \<Rightarrow> 'a list \<Rightarrow> 's \<Rightarrow> 's option" where
  "fold_opt f [] s = Some s"
| "fold_opt f (x # xs) s = Option.bind (f x s) (fold_opt f xs)"

lemma bit_one_bit: "bit (2 ^ i :: u32) j \<longleftrightarrow> j = i \<and> i < 32"
  by (auto simp: bit_exp_iff possible_bit_def)

lemma one_bit_set [simp]:
  fixes m :: u32
  shows "m AND 2 ^ i = 0 \<longleftrightarrow> \<not> bit m i"
proof
  assume "m AND 2 ^ i = 0"
  then have "\<not> bit (m AND 2 ^ i) i" by simp
  then show "\<not> bit m i" using bit_imp_le_length [of m i] by (auto simp: bit_and_iff bit_one_bit)
next
  assume "\<not> bit m i"
  then show "m AND 2 ^ i = 0" by (intro bit_word_eqI) (auto simp: bit_and_iff bit_one_bit)
qed

lemma bit_clear [simp]:
  fixes m :: u32
  shows "bit (m AND NOT (2 ^ i)) j \<longleftrightarrow> bit m j \<and> j \<noteq> i"
  using bit_imp_le_length [of m j] by (auto simp: bit_and_iff bit_not_iff bit_one_bit possible_bit_def)

lemma bit_set_or [simp]:
  fixes m :: u32
  shows "bit (m OR 2 ^ i) j \<longleftrightarrow> bit m j \<or> j = i \<and> i < 32"
  using bit_imp_le_length [of m j] by (auto simp: bit_or_iff bit_one_bit)

lemma bits_from_clear: "bits_from (Suc i) (m AND NOT (2 ^ i)) = bits_from (Suc i) m"
  by (auto simp: bits_from_def intro!: filter_cong)

lemma word_no_bits: "(\<And>j. j < 32 \<Longrightarrow> \<not> bit (m :: u32) j) \<Longrightarrow> m = 0"
  by (rule bit_word_eqI) simp

text \<open>The loop is a fold over the set bits.\<close>

lemma bit_loop_from:
  assumes "\<forall>j < i. \<not> bit m j"
  shows "bit_loop body i m s = fold_opt body (bits_from i m) s"
  using assms
proof (induction "32 - i" arbitrary: i m s)
  case 0
  then have "m = 0" by (intro word_no_bits) simp
  with 0 show ?case by (subst bit_loop.simps) (simp add: bits_from_def)
next
  case (Suc n)
  then have i: "i < 32" "n = 32 - Suc i" by simp_all
  then have up: "[i..<32] = i # [Suc i..<32]" by (simp add: upt_conv_Cons)
  show ?case
  proof (cases "m = 0")
    case True
    then show ?thesis by (subst bit_loop.simps) (simp add: bits_from_def)
  next
    case False
    show ?thesis
    proof (cases "bit m i")
      case True
      have "\<forall>j < Suc i. \<not> bit (m AND NOT (2 ^ i)) j"
        using Suc.prems by (auto simp: less_Suc_eq)
      note ih = Suc.hyps(1) [OF i(2) this]
      have "bits_from i m = i # bits_from (Suc i) m" using True up by (simp add: bits_from_def)
      with True False i ih show ?thesis
        by (subst bit_loop.simps) (simp add: bits_from_clear cong: Option.bind_cong)
    next
      case bf: False
      have "\<forall>j < Suc i. \<not> bit m j" using Suc.prems bf by (auto simp: less_Suc_eq)
      note ih = Suc.hyps(1) [OF i(2) this]
      have "bits_from i m = bits_from (Suc i) m" using bf up by (simp add: bits_from_def)
      with bf False i ih show ?thesis by (subst bit_loop.simps) simp
    qed
  qed
qed

lemma bit_loop_fold: "bit_loop body 0 m s = fold_opt body (bits_from 0 m) s"
  by (rule bit_loop_from) simp

lemma set_bits_from [simp]: "set (bits_from 0 m) = {i. bit m i}"
  using bit_imp_le_length [of m] by (auto simp: bits_from_def)

lemma distinct_bits_from [simp]: "distinct (bits_from 0 m)"
  by (simp add: bits_from_def)

text \<open>An invariant indexed by the bits already handled carries through the fold.\<close>

lemma fold_opt_inv:
  assumes "P [] s"
    and "\<And>ys x zs s. xs = ys @ x # zs \<Longrightarrow> P ys s \<Longrightarrow> \<exists>s'. f x s = Some s' \<and> P (ys @ [x]) s'"
  shows "\<exists>s'. fold_opt f xs s = Some s' \<and> P xs s'"
proof -
  have "\<exists>s'. fold_opt f zs s = Some s' \<and> P xs s'" if "xs = ys @ zs" "P ys s" for ys zs s
    using that
  proof (induction zs arbitrary: ys s)
    case (Cons z zs)
    obtain s1 where s1: "f z s = Some s1" "P (ys @ [z]) s1"
      using assms(2) [of ys z zs s] Cons.prems by blast
    with Cons.IH [of "ys @ [z]" s1] Cons.prems show ?case by simp
  qed simp
  from this [of "[]" xs s] assms(1) show ?thesis by simp
qed

lemma bit_loop_inv:
  assumes "P {} s"
    and "\<And>S i s. bit m i \<Longrightarrow> i < 32 \<Longrightarrow> S \<subseteq> {i. bit m i} \<Longrightarrow> i \<notin> S \<Longrightarrow> P S s \<Longrightarrow>
      \<exists>s'. body i s = Some s' \<and> P (insert i S) s'"
  shows "\<exists>s'. bit_loop body 0 m s = Some s' \<and> P {i. bit m i} s'"
proof -
  have "\<exists>s'. fold_opt body (bits_from 0 m) s = Some s' \<and> P (set (bits_from 0 m)) s'"
  proof (rule fold_opt_inv [where P = "\<lambda>xs. P (set xs)"])
    fix ys x zs s
    assume split: "bits_from 0 m = ys @ x # zs" and P: "P (set ys) s"
    then have "set (bits_from 0 m) = set ys \<union> insert x (set zs)" "x \<notin> set ys"
      using distinct_bits_from [of m] by (simp_all only: split) auto
    then have "bit m x" "set ys \<subseteq> {i. bit m i}" by (simp_all only: set_bits_from) auto
    moreover have "x < 32" using \<open>bit m x\<close> bit_imp_le_length [of m x] by simp
    ultimately show "\<exists>s'. body x s = Some s' \<and> P (set (ys @ [x])) s'"
      using assms(2) [of x "set ys" s] \<open>x \<notin> set ys\<close> P by simp
  qed (use assms(1) in simp)
  then show ?thesis by (simp add: bit_loop_fold)
qed

end
