(* ===== verification/Hal_Key.thy ===== *)
theory Hal_Key
  imports Bit_Loops Hwtimer_Safety
begin

text \<open>
  The key driver, \<^verbatim>\<open>platform/hal/hal_key.c\<close>: the power key, the keys on an ADC resistor ladder and the
  keys on GPIO pins are debounced by one periodic software timer, and what is held down is turned into
  down, up, click, long press and repeat events.

  The build modelled has a power key, group keys allowed (\<^verbatim>\<open>NO_GROUPKEY\<close> and
  \<^verbatim>\<open>__POWERKEY_CTRL_ONOFF_ONLY__\<close> undefined), 32 GPIO pins and the default thresholds. The tables of
  the board (GPIO keys, ADC keys and their voltages) are a parameter, \<open>key_cfg\<close>; what a handler reads from
  the hardware is \<open>key_env\<close>. \<open>key_events\<close> records the calls of the registered callback. The debounce timer
  is one of the timers of \<open>Hwtimer\<close>; \<open>hk_timers\<close> is their state. A failed assertion is \<open>None\<close>.
\<close>

section \<open>Data\<close>

datatype key_level = HAL_KEY_GPIOKEY_VAL_LOW | HAL_KEY_GPIOKEY_VAL_HIGH

datatype gpio_polarity = HAL_GPIO_IRQ_POLARITY_LOW_FALLING | HAL_GPIO_IRQ_POLARITY_HIGH_RISING

record gpiokey_cfg =
  key_code :: u32
  key_pin :: nat
  key_down :: key_level

record key_cfg =
  cfg_hw_gpio_key_cfg :: "gpiokey_cfg list"
  CFG_HW_ADCKEY_NUMBER :: nat
  CFG_HW_ADCKEY_MAP_TABLE :: "u32 list"
  CFG_HW_ADCKEY_ADC_KEYVOLT_BASE :: u32
  CFG_HW_ADCKEY_ADC_MINVOLT :: u32
  CFG_HW_ADCKEY_ADC_MAXVOLT :: u32

record key_env =
  hal_sys_timer_get :: u32
  hal_pwrkey_pressed :: bool
  hal_gpio_pin_get_val :: "nat \<Rightarrow> key_level"

definition HAL_KEY_CODE_NONE :: u32 where [simp]: "HAL_KEY_CODE_NONE = 0"
definition HAL_KEY_CODE_PWR :: u32 where "HAL_KEY_CODE_PWR = 1"

definition HAL_KEY_EVENT_NONE :: u8 where "HAL_KEY_EVENT_NONE = 0"
definition HAL_KEY_EVENT_DOWN :: u8 where "HAL_KEY_EVENT_DOWN = 1"
definition HAL_KEY_EVENT_FIRST_DOWN :: u8 where "HAL_KEY_EVENT_FIRST_DOWN = 2"
definition HAL_KEY_EVENT_CONTINUED_DOWN :: u8 where "HAL_KEY_EVENT_CONTINUED_DOWN = 3"
definition HAL_KEY_EVENT_UP :: u8 where "HAL_KEY_EVENT_UP = 4"
definition HAL_KEY_EVENT_UP_AFTER_LONGPRESS :: u8 where "HAL_KEY_EVENT_UP_AFTER_LONGPRESS = 5"
definition HAL_KEY_EVENT_LONGPRESS :: u8 where "HAL_KEY_EVENT_LONGPRESS = 6"
definition HAL_KEY_EVENT_LONGLONGPRESS :: u8 where "HAL_KEY_EVENT_LONGLONGPRESS = 7"
definition HAL_KEY_EVENT_CLICK :: u8 where "HAL_KEY_EVENT_CLICK = 8"
definition HAL_KEY_EVENT_RAMPAGECLICK :: u8 where "HAL_KEY_EVENT_RAMPAGECLICK = 12"
definition HAL_KEY_EVENT_REPEAT :: u8 where "HAL_KEY_EVENT_REPEAT = 18"

lemmas key_event_defs = HAL_KEY_EVENT_NONE_def HAL_KEY_EVENT_DOWN_def HAL_KEY_EVENT_FIRST_DOWN_def
  HAL_KEY_EVENT_CONTINUED_DOWN_def HAL_KEY_EVENT_UP_def HAL_KEY_EVENT_UP_AFTER_LONGPRESS_def
  HAL_KEY_EVENT_LONGPRESS_def HAL_KEY_EVENT_LONGLONGPRESS_def HAL_KEY_EVENT_CLICK_def
  HAL_KEY_EVENT_RAMPAGECLICK_def HAL_KEY_EVENT_REPEAT_def

definition MS_TO_TICKS :: "u32 \<Rightarrow> u32" where "MS_TO_TICKS ms = ms * 16"

definition KEY_LONGLONGPRESS_THRESHOLD :: u32 where "KEY_LONGLONGPRESS_THRESHOLD = MS_TO_TICKS 5000"
definition KEY_LONGPRESS_THRESHOLD :: u32 where "KEY_LONGPRESS_THRESHOLD = MS_TO_TICKS 1500"
definition KEY_DOUBLECLICK_THRESHOLD :: u32 where "KEY_DOUBLECLICK_THRESHOLD = MS_TO_TICKS 400"
definition KEY_LONGPRESS_REPEAT_THRESHOLD :: u32 where "KEY_LONGPRESS_REPEAT_THRESHOLD = MS_TO_TICKS 500"
definition KEY_CHECKER_INTERVAL :: u32 where "KEY_CHECKER_INTERVAL = MS_TO_TICKS 40"
definition KEY_DEBOUNCE_INTERVAL :: u32 where "KEY_DEBOUNCE_INTERVAL = KEY_CHECKER_INTERVAL * 2"
definition KEY_DITHER_INTERVAL :: u32 where "KEY_DITHER_INTERVAL = KEY_CHECKER_INTERVAL * 1"
definition MAX_KEY_CLICK_COUNT :: u8 where
  "MAX_KEY_CLICK_COUNT = HAL_KEY_EVENT_RAMPAGECLICK - HAL_KEY_EVENT_CLICK"

datatype pwrkey_irq = HAL_PWRKEY_IRQ_NONE | HAL_PWRKEY_IRQ_FALLING_EDGE
datatype adckey_irq = HAL_ADCKEY_IRQ_NONE | HAL_ADCKEY_IRQ_PRESSED

definition PWRKEY_FALLING :: u8 where "PWRKEY_FALLING = 1"
definition HAL_ADCKEY_ADC_VALID :: u32 where "HAL_ADCKEY_ADC_VALID = 1"
definition HAL_ADCKEY_RELEASED :: u32 where "HAL_ADCKEY_RELEASED = 2"
definition HAL_ADCKEY_PRESSED :: u32 where "HAL_ADCKEY_PRESSED = 4"
definition HAL_ADCKEY_ERR0 :: u32 where "HAL_ADCKEY_ERR0 = 8"
definition HAL_ADCKEY_ERR1 :: u32 where "HAL_ADCKEY_ERR1 = 16"

record hal_key_adckey =
  ak_debounce :: bool
  ak_dither :: bool
  ak_code_debounce :: u32
  ak_code_down :: u32
  ak_time :: u32

record hal_key_gpiokey =
  gk_pin_debounce :: u32
  gk_pin_dither :: u32
  gk_pin_down :: u32
  gk_time_debounce :: u32
  gk_time_dither :: u32

record hal_key_pwrkey =
  pk_debounce :: bool
  pk_dither :: bool
  pk_pressed :: bool
  pk_time :: u32

record hal_key_status =
  ks_code_down :: u32
  ks_code_ready :: u32
  ks_code_click :: u32
  ks_event :: u8
  ks_time_updown :: u32
  ks_time_click :: u32
  ks_cnt_repeat :: u8
  ks_cnt_click :: u8

record hal_key =
  key_detected_callback :: bool
  key_events :: "(u32 \<times> u8) list"
  debounce_timer :: "nat option"
  timer_active :: bool
  key_status :: hal_key_status
  pwr_key :: hal_key_pwrkey
  adc_key :: hal_key_adckey
  adckey_volt_table :: "u16 list"
  gpio_key :: hal_key_gpiokey
  pwr_irq :: pwrkey_irq
  adc_irq :: adckey_irq
  adc_channel :: bool
  gpio_irq :: "nat \<Rightarrow> gpio_polarity option"
  hk_timers :: hwtimers

definition upd_status :: "(hal_key_status \<Rightarrow> hal_key_status) \<Rightarrow> hal_key \<Rightarrow> hal_key" where
  "upd_status f s = s\<lparr>key_status := f (key_status s)\<rparr>"

definition upd_pwr :: "(hal_key_pwrkey \<Rightarrow> hal_key_pwrkey) \<Rightarrow> hal_key \<Rightarrow> hal_key" where
  "upd_pwr f s = s\<lparr>pwr_key := f (pwr_key s)\<rparr>"

definition upd_adc :: "(hal_key_adckey \<Rightarrow> hal_key_adckey) \<Rightarrow> hal_key \<Rightarrow> hal_key" where
  "upd_adc f s = s\<lparr>adc_key := f (adc_key s)\<rparr>"

definition upd_gpio :: "(hal_key_gpiokey \<Rightarrow> hal_key_gpiokey) \<Rightarrow> hal_key \<Rightarrow> hal_key" where
  "upd_gpio f s = s\<lparr>gpio_key := f (gpio_key s)\<rparr>"

definition status_zero :: hal_key_status where
  "status_zero = \<lparr>ks_code_down = 0, ks_code_ready = 0, ks_code_click = 0, ks_event = 0, ks_time_updown = 0,
     ks_time_click = 0, ks_cnt_repeat = 0, ks_cnt_click = 0\<rparr>"

section \<open>Events and the timer\<close>

definition send_key_event :: "u32 \<Rightarrow> u8 \<Rightarrow> hal_key \<Rightarrow> hal_key" where
  "send_key_event code event s =
     (if key_detected_callback s then s\<lparr>key_events := key_events s @ [(code, event)]\<rparr> else s)"

text \<open>The identifier the driver passes on; the null pointer is not one of the timers.\<close>

definition timer_id :: "hal_key \<Rightarrow> nat" where
  "timer_id s = (case debounce_timer s of None \<Rightarrow> HWTIMER_NUM | Some t \<Rightarrow> t)"

definition hal_key_debounce_timer_restart :: "hal_key \<Rightarrow> hal_key option" where
  "hal_key_debounce_timer_restart s =
     (if \<not> timer_active s then do {
        let s = s\<lparr>timer_active := True\<rparr>;
        (_, h) \<leftarrow> hwtimer_stop (timer_id s) (hk_timers s);
        (_, h) \<leftarrow> hwtimer_start (timer_id s) KEY_CHECKER_INTERVAL h;
        Some (s\<lparr>hk_timers := h\<rparr>) }
      else Some s)"

section \<open>ADC keys\<close>

definition hal_adckey_enable_press_int :: "hal_key \<Rightarrow> hal_key" where
  "hal_adckey_enable_press_int s = s\<lparr>adc_irq := HAL_ADCKEY_IRQ_PRESSED\<rparr>"

definition hal_adckey_enable_adc_int :: "hal_key \<Rightarrow> hal_key" where
  "hal_adckey_enable_adc_int s = s\<lparr>adc_channel := True\<rparr>"

definition hal_adckey_disable_allint :: "hal_key \<Rightarrow> hal_key" where
  "hal_adckey_disable_allint s = s\<lparr>adc_channel := False, adc_irq := HAL_ADCKEY_IRQ_NONE\<rparr>"

definition hal_adckey_reset :: "hal_key \<Rightarrow> hal_key" where
  "hal_adckey_reset s =
     s\<lparr>adc_key := \<lparr>ak_debounce = False, ak_dither = False, ak_code_debounce = 0, ak_code_down = 0, ak_time = 0\<rparr>\<rparr>"

text \<open>The loop of \<open>hal_adckey_findkey\<close> over the voltage table.\<close>

fun findkey_loop :: "u16 list \<Rightarrow> u32 list \<Rightarrow> u16 \<Rightarrow> u32" where
  "findkey_loop (v # vs) (k # ks) volt = (if volt \<le> v then k else findkey_loop vs ks volt)"
| "findkey_loop _ _ volt = HAL_KEY_CODE_NONE"

definition hal_adckey_findkey :: "key_cfg \<Rightarrow> u16 \<Rightarrow> hal_key \<Rightarrow> u32" where
  "hal_adckey_findkey cfg volt s =
     (if CFG_HW_ADCKEY_ADC_KEYVOLT_BASE cfg < ucast volt \<and> ucast volt < CFG_HW_ADCKEY_ADC_MAXVOLT cfg
      then findkey_loop (adckey_volt_table s) (CFG_HW_ADCKEY_MAP_TABLE cfg) volt
      else HAL_KEY_CODE_NONE)"

definition hal_adckey_irqhandler :: "key_cfg \<Rightarrow> key_env \<Rightarrow> u32 \<Rightarrow> u16 \<Rightarrow> hal_key \<Rightarrow> hal_key option" where
  "hal_adckey_irqhandler cfg env irq_status val s =
     (let s = hal_adckey_disable_allint s in
      if irq_status AND (HAL_ADCKEY_ERR0 OR HAL_ADCKEY_ERR1) \<noteq> 0 then
        hal_key_debounce_timer_restart
          (upd_adc (\<lambda>k. k\<lparr>ak_debounce := True, ak_code_debounce := HAL_KEY_CODE_NONE\<rparr>) s)
      else if irq_status AND HAL_ADCKEY_PRESSED \<noteq> 0 then
        Some (hal_adckey_enable_adc_int
          (upd_adc (\<lambda>k. k\<lparr>ak_debounce := True, ak_code_debounce := HAL_KEY_CODE_NONE,
             ak_time := hal_sys_timer_get env\<rparr>) s))
      else if irq_status AND HAL_ADCKEY_RELEASED \<noteq> 0 then
        hal_key_debounce_timer_restart (upd_adc (\<lambda>k. k\<lparr>ak_code_debounce := HAL_KEY_CODE_NONE\<rparr>) s)
      else
        hal_key_debounce_timer_restart
          (if irq_status AND HAL_ADCKEY_ADC_VALID \<noteq> 0 then
             (let code = hal_adckey_findkey cfg val s in
              if ak_code_debounce (adc_key s) = HAL_KEY_CODE_NONE
              then upd_adc (\<lambda>k. k\<lparr>ak_code_debounce := code\<rparr>) s
              else if ak_code_debounce (adc_key s) \<noteq> code
              then upd_adc (\<lambda>k. k\<lparr>ak_code_debounce := HAL_KEY_CODE_NONE\<rparr>) s
              else s)
           else s))"

definition adckey_basevolt :: "key_cfg \<Rightarrow> u32" where
  "adckey_basevolt cfg =
     (CFG_HW_ADCKEY_ADC_MAXVOLT cfg - CFG_HW_ADCKEY_ADC_MINVOLT cfg) div (of_nat (CFG_HW_ADCKEY_NUMBER cfg) + 2)"

definition hal_adckey_open :: "key_cfg \<Rightarrow> hal_key \<Rightarrow> hal_key" where
  "hal_adckey_open cfg s =
     (let s = hal_adckey_reset s;
          n = CFG_HW_ADCKEY_NUMBER cfg;
          basevolt = adckey_basevolt cfg;
          tab = replicate n 0;
          tab = tab[0 := ucast (CFG_HW_ADCKEY_ADC_KEYVOLT_BASE cfg + basevolt)];
          tab = fold (\<lambda>i tab. tab[i := ucast (ucast (tab ! (i - 1)) + basevolt)]) [1..<n - 1] tab;
          tab = tab[n - 1 := ucast (CFG_HW_ADCKEY_ADC_MAXVOLT cfg)] in
      s\<lparr>adckey_volt_table := tab\<rparr>)"

definition hal_adckey_close :: "hal_key \<Rightarrow> hal_key" where
  "hal_adckey_close s = hal_adckey_disable_allint (hal_adckey_reset s)"

section \<open>The power key\<close>

definition hal_pwrkey_enable_int :: "hal_key \<Rightarrow> hal_key" where
  "hal_pwrkey_enable_int s = s\<lparr>pwr_irq := HAL_PWRKEY_IRQ_FALLING_EDGE\<rparr>"

definition hal_pwrkey_disable_int :: "hal_key \<Rightarrow> hal_key" where
  "hal_pwrkey_disable_int s = s\<lparr>pwr_irq := HAL_PWRKEY_IRQ_NONE\<rparr>"

definition hal_pwrkey_reset :: "hal_key \<Rightarrow> hal_key" where
  "hal_pwrkey_reset s =
     s\<lparr>pwr_key := \<lparr>pk_debounce = False, pk_dither = False, pk_pressed = False, pk_time = 0\<rparr>\<rparr>"

definition hal_pwrkey_get_status :: "key_env \<Rightarrow> bool" where
  "hal_pwrkey_get_status env = hal_pwrkey_pressed env"

definition hal_pwrkey_handle_irq_state :: "key_env \<Rightarrow> u8 \<Rightarrow> hal_key \<Rightarrow> hal_key option" where
  "hal_pwrkey_handle_irq_state env state s =
     (let s = hal_pwrkey_disable_int s;
          s = (if state AND PWRKEY_FALLING \<noteq> 0 then
                 (let s = upd_pwr (\<lambda>k. k\<lparr>pk_pressed := hal_pwrkey_pressed env\<rparr>) s in
                  if pk_pressed (pwr_key s) then upd_pwr (\<lambda>k. k\<lparr>pk_debounce := True\<rparr>) s
                  else upd_pwr (\<lambda>k. k\<lparr>pk_dither := True\<rparr>) s)
               else s) in
      hal_key_debounce_timer_restart s)"

definition hal_pwrkey_open :: "hal_key \<Rightarrow> hal_key" where
  "hal_pwrkey_open s = hal_pwrkey_reset s"

definition hal_pwrkey_close :: "hal_key \<Rightarrow> hal_key" where
  "hal_pwrkey_close s = hal_pwrkey_disable_int (hal_pwrkey_reset s)"

section \<open>GPIO keys\<close>

definition hal_gpiokey_reset :: "hal_key \<Rightarrow> hal_key" where
  "hal_gpiokey_reset s =
     s\<lparr>gpio_key := \<lparr>gk_pin_debounce = 0, gk_pin_dither = 0, gk_pin_down = 0, gk_time_debounce = 0, gk_time_dither = 0\<rparr>\<rparr>"

fun find_index_loop :: "gpiokey_cfg list \<Rightarrow> nat \<Rightarrow> nat \<Rightarrow> nat option" where
  "find_index_loop [] i pin = None"
| "find_index_loop (k # ks) i pin = (if key_pin k = pin then Some i else find_index_loop ks (i + 1) pin)"

definition hal_gpiokey_find_index :: "key_cfg \<Rightarrow> nat \<Rightarrow> nat option" where
  "hal_gpiokey_find_index cfg pin = find_index_loop (cfg_hw_gpio_key_cfg cfg) 0 pin"

definition hal_gpiokey_pressed :: "key_cfg \<Rightarrow> key_env \<Rightarrow> nat \<Rightarrow> bool option" where
  "hal_gpiokey_pressed cfg env pin = do {
     i \<leftarrow> hal_gpiokey_find_index cfg pin;
     Some (hal_gpio_pin_get_val env pin = key_down (cfg_hw_gpio_key_cfg cfg ! i)) }"

definition hal_gpiokey_enable_irq :: "nat \<Rightarrow> gpio_polarity \<Rightarrow> hal_key \<Rightarrow> hal_key" where
  "hal_gpiokey_enable_irq pin polarity s = s\<lparr>gpio_irq := (gpio_irq s)(pin := Some polarity)\<rparr>"

definition hal_gpiokey_disable_irq :: "nat \<Rightarrow> hal_key \<Rightarrow> hal_key" where
  "hal_gpiokey_disable_irq pin s = s\<lparr>gpio_irq := (gpio_irq s)(pin := None)\<rparr>"

definition hal_gpiokey_irqhandler :: "key_cfg \<Rightarrow> key_env \<Rightarrow> nat \<Rightarrow> hal_key \<Rightarrow> hal_key option" where
  "hal_gpiokey_irqhandler cfg env pin s = do {
     let s = hal_gpiokey_disable_irq pin s;
     pressed \<leftarrow> hal_gpiokey_pressed cfg env pin;
     let time = hal_sys_timer_get env;
     let s = (if pressed
              then upd_gpio (\<lambda>k. k\<lparr>gk_pin_debounce := gk_pin_debounce k OR push_bit pin 1, gk_time_debounce := time\<rparr>) s
              else upd_gpio (\<lambda>k. k\<lparr>gk_pin_dither := gk_pin_dither k OR push_bit pin 1, gk_time_dither := time\<rparr>) s);
     hal_key_debounce_timer_restart s }"

definition polarity_of :: "gpiokey_cfg \<Rightarrow> gpio_polarity" where
  "polarity_of k = (if key_down k = HAL_KEY_GPIOKEY_VAL_LOW then HAL_GPIO_IRQ_POLARITY_LOW_FALLING
     else HAL_GPIO_IRQ_POLARITY_HIGH_RISING)"

definition hal_gpiokey_enable_allint :: "key_cfg \<Rightarrow> hal_key \<Rightarrow> hal_key" where
  "hal_gpiokey_enable_allint cfg s =
     fold (\<lambda>k s. if key_code k = HAL_KEY_CODE_NONE then s
                 else hal_gpiokey_enable_irq (key_pin k) (polarity_of k) s) (cfg_hw_gpio_key_cfg cfg) s"

definition hal_gpiokey_disable_allint :: "key_cfg \<Rightarrow> hal_key \<Rightarrow> hal_key" where
  "hal_gpiokey_disable_allint cfg s =
     fold (\<lambda>k s. if key_code k = HAL_KEY_CODE_NONE then s
                 else hal_gpiokey_disable_irq (key_pin k) s) (cfg_hw_gpio_key_cfg cfg) s"

definition hal_gpiokey_open :: "hal_key \<Rightarrow> hal_key" where
  "hal_gpiokey_open s = hal_gpiokey_reset s"

definition hal_gpiokey_close :: "key_cfg \<Rightarrow> hal_key \<Rightarrow> hal_key" where
  "hal_gpiokey_close cfg s = hal_gpiokey_disable_allint cfg (hal_gpiokey_reset s)"

text \<open>The loop of \<open>hal_key_read_status\<close> over the configured keys.\<close>

fun read_status_loop :: "key_env \<Rightarrow> gpiokey_cfg list \<Rightarrow> u32 \<Rightarrow> u8" where
  "read_status_loop env [] code = HAL_KEY_EVENT_NONE"
| "read_status_loop env (k # ks) code =
     (if key_code k = code
      then (if hal_gpio_pin_get_val env (key_pin k) = key_down k then HAL_KEY_EVENT_DOWN else HAL_KEY_EVENT_UP)
      else read_status_loop env ks code)"

definition hal_key_read_status :: "key_cfg \<Rightarrow> key_env \<Rightarrow> u32 \<Rightarrow> u8" where
  "hal_key_read_status cfg env code =
     (if code = HAL_KEY_CODE_PWR
      then (if hal_pwrkey_pressed env then HAL_KEY_EVENT_DOWN else HAL_KEY_EVENT_UP)
      else read_status_loop env (cfg_hw_gpio_key_cfg cfg) code)"

definition hal_key_disable_allint :: "key_cfg \<Rightarrow> hal_key \<Rightarrow> hal_key" where
  "hal_key_disable_allint cfg s =
     (let s = hal_pwrkey_disable_int s;
          s = (if CFG_HW_ADCKEY_NUMBER cfg > 0 then hal_adckey_disable_allint s else s) in
      hal_gpiokey_disable_allint cfg s)"

definition hal_key_enable_allint :: "key_cfg \<Rightarrow> hal_key \<Rightarrow> hal_key" where
  "hal_key_enable_allint cfg s =
     (let s = hal_pwrkey_enable_int s;
          s = (if CFG_HW_ADCKEY_NUMBER cfg > 0 then hal_adckey_enable_press_int s else s) in
      hal_gpiokey_enable_allint cfg s)"

section \<open>The debounce handler: what is held down\<close>

text \<open>The handler collects the codes of the keys that are down in \<open>code_down\<close>, key group by key group.\<close>

definition debounce_pwr :: "key_env \<Rightarrow> hal_key \<Rightarrow> u32 \<times> hal_key" where
  "debounce_pwr env s =
     (let time = hal_sys_timer_get env; k = pwr_key s in
      if pk_debounce k \<or> pk_dither k \<or> pk_pressed k then
        (let pressed = hal_pwrkey_get_status env in
         if pk_debounce k then
           (let s = upd_pwr (\<lambda>k. k\<lparr>pk_pressed := pressed\<rparr>) s in
            if pressed then
              (let s = upd_pwr (\<lambda>k. k\<lparr>pk_dither := False\<rparr>) s in
               if time - pk_time (pwr_key s) \<ge> KEY_DEBOUNCE_INTERVAL
               then (HAL_KEY_CODE_PWR, upd_pwr (\<lambda>k. k\<lparr>pk_debounce := False, pk_dither := False\<rparr>) s)
               else (HAL_KEY_CODE_NONE, s))
            else (HAL_KEY_CODE_NONE, upd_pwr (\<lambda>k. k\<lparr>pk_debounce := False, pk_dither := True, pk_time := time\<rparr>) s))
         else if pk_dither k then
           (if time - pk_time k \<ge> KEY_DITHER_INTERVAL
            then (HAL_KEY_CODE_NONE, hal_pwrkey_enable_int (upd_pwr (\<lambda>k. k\<lparr>pk_dither := False, pk_pressed := False\<rparr>) s))
            else (HAL_KEY_CODE_NONE, s))
         else
           (if pressed then (HAL_KEY_CODE_PWR, s)
            else (HAL_KEY_CODE_NONE, hal_pwrkey_enable_int (upd_pwr (\<lambda>k. k\<lparr>pk_pressed := False\<rparr>) s))))
      else (HAL_KEY_CODE_NONE, s))"

definition debounce_adc :: "key_env \<Rightarrow> u32 \<times> hal_key \<Rightarrow> u32 \<times> hal_key" where
  "debounce_adc env = (\<lambda>(code_down, s).
     (let time = hal_sys_timer_get env; k = adc_key s in
      if ak_debounce k \<or> ak_dither k \<or> ak_code_down k \<noteq> HAL_KEY_CODE_NONE then
        (let (skip_check, code_down, s) =
           (if ak_debounce k then
              (if ak_code_debounce k = HAL_KEY_CODE_NONE
               then (False, code_down, upd_adc (\<lambda>k. k\<lparr>ak_debounce := False, ak_dither := True, ak_time := time\<rparr>) s)
               else if time - ak_time k \<ge> KEY_DEBOUNCE_INTERVAL
               then (False, code_down OR ak_code_debounce k,
                 upd_adc (\<lambda>k. k\<lparr>ak_debounce := False, ak_dither := False, ak_code_down := ak_code_debounce k,
                   ak_code_debounce := HAL_KEY_CODE_NONE\<rparr>) s)
               else (False, code_down, s))
            else if ak_dither k then
              (True, code_down,
               (if time - ak_time k \<ge> KEY_DITHER_INTERVAL
                then hal_adckey_enable_press_int (upd_adc (\<lambda>k. k\<lparr>ak_dither := False,
                  ak_code_debounce := HAL_KEY_CODE_NONE, ak_code_down := HAL_KEY_CODE_NONE\<rparr>) s)
                else s))
            else if ak_code_debounce k = ak_code_down k then (False, code_down OR ak_code_down k, s)
            else (True, code_down,
              hal_adckey_enable_press_int (upd_adc (\<lambda>k. k\<lparr>ak_code_down := HAL_KEY_CODE_NONE\<rparr>) s))) in
         (code_down, if \<not> skip_check then hal_adckey_enable_adc_int s else s))
      else (code_down, s)))"

definition enable_pin :: "key_cfg \<Rightarrow> nat \<Rightarrow> hal_key \<Rightarrow> hal_key option" where
  "enable_pin cfg gpio s = do {
     index \<leftarrow> hal_gpiokey_find_index cfg gpio;
     Some (hal_gpiokey_enable_irq gpio (polarity_of (cfg_hw_gpio_key_cfg cfg ! index)) s) }"

definition gpio_dither :: "key_cfg \<Rightarrow> key_env \<Rightarrow> hal_key \<Rightarrow> hal_key option" where
  "gpio_dither cfg env s =
     (if gk_pin_dither (gpio_key s) \<noteq> 0 \<and>
         hal_sys_timer_get env - gk_time_dither (gpio_key s) \<ge> KEY_DITHER_INTERVAL
      then (let pin = gk_pin_dither (gpio_key s);
                s = upd_gpio (\<lambda>k. k\<lparr>gk_pin_dither := gk_pin_dither k AND NOT pin\<rparr>) s in
            bit_loop (enable_pin cfg) 0 pin s)
      else Some s)"

definition gpio_down_body :: "key_cfg \<Rightarrow> key_env \<Rightarrow> nat \<Rightarrow> u32 \<times> hal_key \<Rightarrow> (u32 \<times> hal_key) option" where
  "gpio_down_body cfg env gpio = (\<lambda>(code_down, s). do {
     index \<leftarrow> hal_gpiokey_find_index cfg gpio;
     if hal_gpio_pin_get_val env gpio = key_down (cfg_hw_gpio_key_cfg cfg ! index)
     then Some (code_down OR key_code (cfg_hw_gpio_key_cfg cfg ! index), s)
     else Some (code_down, hal_gpiokey_enable_irq gpio (polarity_of (cfg_hw_gpio_key_cfg cfg ! index))
       (upd_gpio (\<lambda>k. k\<lparr>gk_pin_down := gk_pin_down k AND NOT (push_bit gpio 1)\<rparr>) s)) })"

definition gpio_down :: "key_cfg \<Rightarrow> key_env \<Rightarrow> u32 \<times> hal_key \<Rightarrow> (u32 \<times> hal_key) option" where
  "gpio_down cfg env = (\<lambda>(code_down, s).
     bit_loop (gpio_down_body cfg env) 0 (gk_pin_down (gpio_key s)) (code_down, s))"

definition gpio_debounce_body ::
  "key_cfg \<Rightarrow> key_env \<Rightarrow> nat \<Rightarrow> u32 \<times> u32 \<times> u32 \<times> hal_key \<Rightarrow> (u32 \<times> u32 \<times> u32 \<times> hal_key) option" where
  "gpio_debounce_body cfg env gpio = (\<lambda>(down_added, dither_added, code_down, s). do {
     index \<leftarrow> hal_gpiokey_find_index cfg gpio;
     if hal_gpio_pin_get_val env gpio = key_down (cfg_hw_gpio_key_cfg cfg ! index) then
       (if hal_sys_timer_get env - gk_time_debounce (gpio_key s) \<ge> KEY_DEBOUNCE_INTERVAL
        then Some (down_added OR push_bit gpio 1, dither_added,
          code_down OR key_code (cfg_hw_gpio_key_cfg cfg ! index),
          upd_gpio (\<lambda>k. k\<lparr>gk_pin_down := gk_pin_down k OR push_bit gpio 1\<rparr>) s)
        else Some (down_added, dither_added, code_down, s))
     else Some (down_added, dither_added OR push_bit gpio 1, code_down, s) })"

definition gpio_debounce :: "key_cfg \<Rightarrow> key_env \<Rightarrow> u32 \<times> hal_key \<Rightarrow> (u32 \<times> hal_key) option" where
  "gpio_debounce cfg env = (\<lambda>(code_down, s).
     if gk_pin_debounce (gpio_key s) \<noteq> 0 then do {
       (down_added, dither_added, code_down, s) \<leftarrow>
         bit_loop (gpio_debounce_body cfg env) 0 (gk_pin_debounce (gpio_key s)) (0, 0, code_down, s);
       Some (code_down, upd_gpio (\<lambda>k. k\<lparr>gk_pin_debounce := gk_pin_debounce k AND NOT (down_added OR dither_added),
         gk_pin_dither := gk_pin_dither k OR dither_added\<rparr>) s) }
     else Some (code_down, s))"

definition debounce_gpio :: "key_cfg \<Rightarrow> key_env \<Rightarrow> u32 \<times> hal_key \<Rightarrow> (u32 \<times> hal_key) option" where
  "debounce_gpio cfg env = (\<lambda>(code_down, s). do {
     check (gk_pin_debounce (gpio_key s) AND gk_pin_dither (gpio_key s) = 0);
     s \<leftarrow> gpio_dither cfg env s;
     (code_down, s) \<leftarrow> gpio_down cfg env (code_down, s);
     gpio_debounce cfg env (code_down, s) })"

section \<open>The debounce handler: what it means\<close>

abbreviation "in_long_press s \<equiv>
  ks_event (key_status s) = HAL_KEY_EVENT_LONGPRESS \<or> ks_event (key_status s) = HAL_KEY_EVENT_LONGLONGPRESS"

definition up_body :: "u32 \<Rightarrow> nat \<Rightarrow> hal_key \<Rightarrow> hal_key option" where
  "up_body time index s =
     (let s = send_key_event (push_bit index 1) HAL_KEY_EVENT_UP s;
          s = (if in_long_press s then send_key_event (push_bit index 1) HAL_KEY_EVENT_UP_AFTER_LONGPRESS s else s) in
      Some (upd_status (\<lambda>k. k\<lparr>ks_time_updown := time\<rparr>) s))"

definition status_up :: "u32 \<Rightarrow> u32 \<Rightarrow> hal_key \<Rightarrow> hal_key" where
  "status_up up_new code_down s =
     (if up_new \<noteq> 0 then
        (if in_long_press s then
           (if code_down AND ks_code_ready (key_status s) = 0
            then upd_status (\<lambda>k. k\<lparr>ks_event := HAL_KEY_EVENT_NONE\<rparr>) s else s)
         else if ks_event (key_status s) = HAL_KEY_EVENT_DOWN
         then upd_status (\<lambda>k. k\<lparr>ks_event := HAL_KEY_EVENT_UP\<rparr>) s
         else s)
      else s)"

definition status_click :: "u32 \<Rightarrow> u32 \<Rightarrow> hal_key \<Rightarrow> hal_key" where
  "status_click time up_new s =
     (if ks_event (key_status s) = HAL_KEY_EVENT_UP then
        (let s =
           (if ks_code_click (key_status s) = HAL_KEY_CODE_NONE \<or>
               ks_code_click (key_status s) \<noteq> ks_code_ready (key_status s) then
              (let s = (if ks_code_click (key_status s) \<noteq> HAL_KEY_CODE_NONE
                        then send_key_event (ks_code_click (key_status s))
                          (HAL_KEY_EVENT_CLICK + ks_cnt_click (key_status s)) s
                        else s) in
               upd_status (\<lambda>k. k\<lparr>ks_code_click := ks_code_ready k, ks_cnt_click := 0, ks_time_click := time\<rparr>) s)
            else if up_new \<noteq> 0 \<and> up_new OR ks_code_down (key_status s) = ks_code_click (key_status s)
            then upd_status (\<lambda>k. k\<lparr>ks_cnt_click := ks_cnt_click k + 1, ks_time_click := time\<rparr>) s
            else s) in
         if time - ks_time_click (key_status s) \<ge> KEY_DOUBLECLICK_THRESHOLD \<or>
            ks_cnt_click (key_status s) \<ge> MAX_KEY_CLICK_COUNT
         then upd_status (\<lambda>k. k\<lparr>ks_code_click := HAL_KEY_CODE_NONE, ks_cnt_click := 0, ks_event := HAL_KEY_EVENT_NONE\<rparr>)
           (send_key_event (ks_code_click (key_status s)) (HAL_KEY_EVENT_CLICK + ks_cnt_click (key_status s)) s)
         else s)
      else s)"

definition down_body :: "u32 \<Rightarrow> u32 \<Rightarrow> nat \<Rightarrow> hal_key \<Rightarrow> hal_key option" where
  "down_body time code_down index s =
     (let s = send_key_event (push_bit index 1) HAL_KEY_EVENT_DOWN s;
          s = send_key_event (push_bit index 1)
            (if ks_event (key_status s) = HAL_KEY_EVENT_NONE then HAL_KEY_EVENT_FIRST_DOWN
             else HAL_KEY_EVENT_CONTINUED_DOWN) s;
          s = (if ks_event (key_status s) = HAL_KEY_EVENT_NONE \<or> ks_event (key_status s) = HAL_KEY_EVENT_DOWN \<or>
                  ks_event (key_status s) = HAL_KEY_EVENT_UP
               then upd_status (\<lambda>k. k\<lparr>ks_code_ready := code_down\<rparr>) s else s) in
      Some (upd_status (\<lambda>k. k\<lparr>ks_time_updown := time\<rparr>) s))"

definition status_down :: "u32 \<Rightarrow> hal_key \<Rightarrow> hal_key" where
  "status_down down_new s =
     (if down_new \<noteq> 0 \<and>
         (ks_event (key_status s) = HAL_KEY_EVENT_NONE \<or> ks_event (key_status s) = HAL_KEY_EVENT_UP)
      then upd_status (\<lambda>k. k\<lparr>ks_event := HAL_KEY_EVENT_DOWN\<rparr>) s else s)"

definition status_long :: "u32 \<Rightarrow> u32 \<Rightarrow> hal_key \<Rightarrow> hal_key" where
  "status_long time code_down s =
     (if code_down AND ks_code_ready (key_status s) = ks_code_ready (key_status s) then
        (if ks_event (key_status s) = HAL_KEY_EVENT_DOWN then
           (if time - ks_time_updown (key_status s) \<ge> KEY_LONGPRESS_THRESHOLD
            then (let s = upd_status (\<lambda>k. k\<lparr>ks_cnt_repeat := 0, ks_event := HAL_KEY_EVENT_LONGPRESS\<rparr>) s in
                  send_key_event (ks_code_ready (key_status s)) (ks_event (key_status s)) s)
            else s)
         else if in_long_press s then
           (let s = upd_status (\<lambda>k. k\<lparr>ks_cnt_repeat := ks_cnt_repeat k + 1\<rparr>) s;
                s = (if ucast (ks_cnt_repeat (key_status s)) = KEY_LONGPRESS_REPEAT_THRESHOLD div KEY_CHECKER_INTERVAL
                     then send_key_event (ks_code_ready (key_status s)) HAL_KEY_EVENT_REPEAT
                       (upd_status (\<lambda>k. k\<lparr>ks_cnt_repeat := 0\<rparr>) s)
                     else s) in
            if ks_event (key_status s) = HAL_KEY_EVENT_LONGPRESS \<and>
               time - ks_time_updown (key_status s) \<ge> KEY_LONGLONGPRESS_THRESHOLD
            then (let s = upd_status (\<lambda>k. k\<lparr>ks_event := HAL_KEY_EVENT_LONGLONGPRESS\<rparr>) s in
                  send_key_event (ks_code_ready (key_status s)) (ks_event (key_status s)) s)
            else s)
         else s)
      else s)"

definition status_tick :: "u32 \<Rightarrow> u32 \<Rightarrow> hal_key \<Rightarrow> hal_key option" where
  "status_tick time code_down s = do {
     let down_new = code_down AND NOT (ks_code_down (key_status s));
     let up_new = NOT code_down AND ks_code_down (key_status s);
     s \<leftarrow> bit_loop (up_body time) 0 up_new s;
     let s = status_up up_new code_down s;
     let s = status_click time up_new s;
     let s = upd_status (\<lambda>k. k\<lparr>ks_code_down := code_down\<rparr>) s;
     s \<leftarrow> bit_loop (down_body time code_down) 0 down_new s;
     let s = status_down down_new s;
     Some (status_long time code_down s) }"

definition hal_key_debounce_handler :: "key_cfg \<Rightarrow> key_env \<Rightarrow> hal_key \<Rightarrow> hal_key option" where
  "hal_key_debounce_handler cfg env s = do {
     let s = s\<lparr>timer_active := False\<rparr>;
     let (code_down, s) = debounce_pwr env s;
     let need_timer = (pk_debounce (pwr_key s) \<or> pk_dither (pwr_key s) \<or> pk_pressed (pwr_key s));
     let (code_down, s) = (if CFG_HW_ADCKEY_NUMBER cfg > 0 then debounce_adc env (code_down, s) else (code_down, s));
     let need_timer = (need_timer \<or> CFG_HW_ADCKEY_NUMBER cfg > 0 \<and>
       (ak_debounce (adc_key s) \<or> ak_dither (adc_key s) \<or> ak_code_down (adc_key s) \<noteq> HAL_KEY_CODE_NONE));
     (code_down, s) \<leftarrow> debounce_gpio cfg env (code_down, s);
     let need_timer = (need_timer \<or> gk_pin_dither (gpio_key s) \<noteq> 0 \<or> gk_pin_down (gpio_key s) \<noteq> 0 \<or>
       gk_pin_debounce (gpio_key s) \<noteq> 0);
     s \<leftarrow> status_tick (hal_sys_timer_get env) code_down s;
     let need_timer = (need_timer \<or> ks_event (key_status s) \<noteq> HAL_KEY_EVENT_NONE);
     if need_timer then hal_key_debounce_timer_restart s else Some s }"

section \<open>Opening and closing\<close>

definition hal_key_open :: "key_cfg \<Rightarrow> bool \<Rightarrow> hal_key \<Rightarrow> (32 word \<times> hal_key) option" where
  "hal_key_open cfg cb s = do {
     let s = s\<lparr>key_detected_callback := cb\<rparr>;
     let s = s\<lparr>key_status := status_zero\<rparr>;
     let s = hal_pwrkey_open s;
     let s = (if CFG_HW_ADCKEY_NUMBER cfg > 0 then hal_adckey_open cfg s else s);
     let s = hal_gpiokey_open s;
     (t, h) \<leftarrow> hwtimer_alloc (Some 0) 0 (hk_timers s);
     let s = s\<lparr>debounce_timer := t, hk_timers := h\<rparr>;
     let s = hal_key_enable_allint cfg s;
     check (debounce_timer s \<noteq> None);
     Some (0, s) }"

definition hal_key_close :: "key_cfg \<Rightarrow> hal_key \<Rightarrow> (32 word \<times> hal_key) option" where
  "hal_key_close cfg s = do {
     let s = hal_key_disable_allint cfg s;
     let s = hal_pwrkey_close s;
     let s = (if CFG_HW_ADCKEY_NUMBER cfg > 0 then hal_adckey_close s else s);
     let s = hal_gpiokey_close cfg s;
     s \<leftarrow> (case debounce_timer s of
              None \<Rightarrow> Some s
            | Some t \<Rightarrow> do {
                (_, h) \<leftarrow> hwtimer_stop t (hk_timers s);
                let h = snd (hwtimer_free t h);
                Some (s\<lparr>hk_timers := h, debounce_timer := None\<rparr>) });
     Some (0, s\<lparr>timer_active := False, key_detected_callback := False\<rparr>) }"

end
