(* ===== verification/Key_Track.thy ===== *)
theory Key_Track
  imports Hal_Key
begin

text \<open>
  The first half of the debounce handler: every key is either waiting for its interrupt or tracked by
  the debounce timer, and no step of the interrupt handlers or of the debounce handler loses one.
\<close>

named_theorems key_simps "definitions of the small state changes of the key driver"

lemmas [key_simps] = upd_status_def upd_pwr_def upd_adc_def upd_gpio_def HAL_KEY_CODE_NONE_def
  hal_adckey_enable_press_int_def hal_adckey_enable_adc_int_def hal_adckey_disable_allint_def
  hal_adckey_reset_def hal_pwrkey_enable_int_def hal_pwrkey_disable_int_def hal_pwrkey_reset_def
  hal_pwrkey_get_status_def hal_gpiokey_enable_irq_def hal_gpiokey_disable_irq_def hal_gpiokey_reset_def

section \<open>The timer behind the driver\<close>

text \<open>What the driver relies on in a timer service: a timer that is in use can be stopped in whatever
  state it is, and then be started.\<close>

locale key_timer =
  fixes ok :: "'h \<Rightarrow> bool"
    and in_use startable running :: "'h \<Rightarrow> nat \<Rightarrow> bool"
    and stop :: "nat \<Rightarrow> 'h \<Rightarrow> ('r \<times> 'h) option"
    and start :: "nat \<Rightarrow> u32 \<Rightarrow> 'h \<Rightarrow> ('r \<times> 'h) option"
  assumes stop_ok: "ok h \<Longrightarrow> in_use h t \<Longrightarrow> \<exists>r h'. stop t h = Some (r, h') \<and> ok h' \<and> startable h' t"
    and start_ok: "ok h \<Longrightarrow> startable h t \<Longrightarrow> unat n \<le> 2 ^ 32 - 2 \<Longrightarrow>
      \<exists>r h'. start t n h = Some (r, h') \<and> ok h' \<and> running h' t"
    and running_in_use: "running h t \<Longrightarrow> in_use h t"
begin

lemma restart_ok:
  assumes "ok h" "in_use h t" "unat n \<le> 2 ^ 32 - 2"
  shows "\<exists>r h1 r' h'. stop t h = Some (r, h1) \<and> start t n h1 = Some (r', h') \<and>
    ok h' \<and> running h' t \<and> in_use h' t"
  using stop_ok [OF assms(1,2)] start_ok [OF _ _ assms(3)] running_in_use by metis

end

definition timers_ok :: "hwtimers \<Rightarrow> bool" where
  "timers_ok h \<longleftrightarrow> ht_inv h \<and> timely h"

definition timer_in_use :: "hwtimers \<Rightarrow> nat \<Rightarrow> bool" where
  "timer_in_use h t \<longleftrightarrow> t < 10 \<and> tm_state (ht_timer h t) \<noteq> HWTIMER_STATE_FREE"

definition timer_startable :: "hwtimers \<Rightarrow> nat \<Rightarrow> bool" where
  "timer_startable h t \<longleftrightarrow> t < 10 \<and> (tm_state (ht_timer h t) = HWTIMER_STATE_ALLOC \<or>
     tm_state (ht_timer h t) = HWTIMER_STATE_CALLBACK)"

definition timer_running :: "hwtimers \<Rightarrow> nat \<Rightarrow> bool" where
  "timer_running h t \<longleftrightarrow> t < 10 \<and> (tm_state (ht_timer h t) = HWTIMER_STATE_ACTIVE \<or>
     tm_state (ht_timer h t) = HWTIMER_STATE_FIRED)"

lemma stop_state:
  assumes "hwtimer_stop t h = Some (r, h')" "timer_in_use h t"
  shows "timer_startable h' t"
  using assms
  by (auto simp: hwtimer_stop_def timer_in_use_def timer_startable_def HWTIMER_NUM_def Let_def
    Option.bind_eq_Some_conv split: hwtimer_state.splits option.splits if_splits)

interpretation kt: key_timer timers_ok timer_in_use timer_startable timer_running hwtimer_stop hwtimer_start
proof
  fix h t
  assume ok: "timers_ok h" and u: "timer_in_use h t"
  then obtain fs as es where rep: "ht_rep h fs as es" and now: "timely h"
    by (auto simp: timers_ok_def ht_inv_def)
  obtain r h' as' es' where h': "hwtimer_stop t h = Some (r, h')" "ht_rep h' fs as' es'"
    using stop_step [OF rep now] by blast
  then have "timers_ok h'"
    using clock_kept_timely [OF clock_kept_stop [OF h'(1)] now] by (auto simp: timers_ok_def ht_inv_def)
  with h' stop_state [OF h'(1) u] show "\<exists>r h'. hwtimer_stop t h = Some (r, h') \<and> timers_ok h' \<and> timer_startable h' t"
    by blast
next
  fix h t and n :: u32
  assume ok: "timers_ok h" and st: "timer_startable h t" and n: "unat n \<le> 2 ^ 32 - 2"
  then obtain fs as es where rep: "ht_rep h fs as es" and now: "timely h"
    by (auto simp: timers_ok_def ht_inv_def)
  obtain h' xs ys where h': "hwtimer_start_int t False None 0 n h = Some (E_HWTIMER_OK, h')" "ht_rep h' fs (xs @ t # ys) es"
    using hwtimer_start_int_ok [OF rep _ n] st unfolding timer_startable_def by blast
  have "timers_ok h'"
    using clock_kept_timely [OF clock_kept_start [OF h'(1)] now] h'(2) by (auto simp: timers_ok_def ht_inv_def)
  moreover have "timer_running h' t"
    using states_okD(2) [OF ht_repD(7) [OF h'(2)], of t] st by (auto simp: timer_running_def timer_startable_def)
  ultimately show "\<exists>r h'. hwtimer_start t n h = Some (r, h') \<and> timers_ok h' \<and> timer_running h' t"
    using h'(1) by (auto simp: hwtimer_start_def)
qed (auto simp: timer_running_def timer_in_use_def)

text \<open>The timer part of the state: the debounce timer is allocated, and runs when \<open>timer_active\<close> says so.\<close>

definition timer_part_ok :: "hal_key \<Rightarrow> bool" where
  "timer_part_ok s \<longleftrightarrow> timers_ok (hk_timers s) \<and>
     (\<exists>t. debounce_timer s = Some t \<and> timer_in_use (hk_timers s) t \<and>
       (timer_active s \<longrightarrow> timer_running (hk_timers s) t))"

lemma interval_small: "unat KEY_CHECKER_INTERVAL \<le> 2 ^ 32 - 2"
  by (simp add: KEY_CHECKER_INTERVAL_def MS_TO_TICKS_def)

lemma debounce_restart_ok:
  assumes "timer_part_ok s"
  shows "\<exists>h. hal_key_debounce_timer_restart s = Some (s\<lparr>timer_active := True, hk_timers := h\<rparr>) \<and>
    timer_part_ok (s\<lparr>timer_active := True, hk_timers := h\<rparr>)"
proof (cases "timer_active s")
  case True
  then have same: "s\<lparr>timer_active := True, hk_timers := hk_timers s\<rparr> = s" by (cases s) simp
  have "hal_key_debounce_timer_restart s = Some s" using True by (simp add: hal_key_debounce_timer_restart_def)
  with same assms show ?thesis by metis
next
  case False
  from assms obtain t where t: "timers_ok (hk_timers s)" "debounce_timer s = Some t" "timer_in_use (hk_timers s) t"
    by (auto simp: timer_part_ok_def)
  obtain r h1 r' h where h: "hwtimer_stop t (hk_timers s) = Some (r, h1)"
    "hwtimer_start t KEY_CHECKER_INTERVAL h1 = Some (r', h)" "timers_ok h" "timer_running h t" "timer_in_use h t"
    using kt.restart_ok [OF t(1,3) interval_small] by blast
  with t False show ?thesis
    by (intro exI [of _ h]) (simp add: hal_key_debounce_timer_restart_def timer_id_def timer_part_ok_def)
qed

section \<open>The power key\<close>

definition pwr_tracked :: "hal_key \<Rightarrow> bool" where
  "pwr_tracked s \<longleftrightarrow> pk_debounce (pwr_key s) \<or> pk_dither (pwr_key s) \<or> pk_pressed (pwr_key s)"

definition pwr_ok :: "hal_key \<Rightarrow> bool" where
  "pwr_ok s \<longleftrightarrow> (pwr_irq s = HAL_PWRKEY_IRQ_FALLING_EDGE \<longleftrightarrow> \<not> pwr_tracked s)"

lemma debounce_pwr_ok:
  assumes "pwr_ok s"
  shows "\<exists>k i. snd (debounce_pwr env s) = s\<lparr>pwr_key := k, pwr_irq := i\<rparr> \<and> pwr_ok (s\<lparr>pwr_key := k, pwr_irq := i\<rparr>)"
proof -
  define s' where "s' = snd (debounce_pwr env s)"
  have "s' = s\<lparr>pwr_key := pwr_key s', pwr_irq := pwr_irq s'\<rparr>"
    by (cases s) (simp add: s'_def debounce_pwr_def Let_def key_simps)
  moreover have "pwr_ok s'"
    using assms by (auto simp: s'_def debounce_pwr_def Let_def key_simps pwr_ok_def pwr_tracked_def)
  ultimately show ?thesis unfolding s'_def by metis
qed

section \<open>The ADC keys\<close>

definition adc_tracked :: "hal_key \<Rightarrow> bool" where
  "adc_tracked s \<longleftrightarrow> ak_debounce (adc_key s) \<or> ak_dither (adc_key s) \<or> ak_code_down (adc_key s) \<noteq> HAL_KEY_CODE_NONE"

definition adc_ok :: "hal_key \<Rightarrow> bool" where
  "adc_ok s \<longleftrightarrow> (adc_irq s = HAL_ADCKEY_IRQ_PRESSED \<longleftrightarrow> \<not> adc_tracked s) \<and> (adc_channel s \<longrightarrow> adc_tracked s)"

lemma debounce_adc_ok:
  assumes "adc_ok s" "\<not> adc_channel s"
  shows "\<exists>k i c. snd (debounce_adc env (cd, s)) = s\<lparr>adc_key := k, adc_irq := i, adc_channel := c\<rparr> \<and>
    adc_ok (s\<lparr>adc_key := k, adc_irq := i, adc_channel := c\<rparr>)"
proof -
  define s' where "s' = snd (debounce_adc env (cd, s))"
  have "s' = s\<lparr>adc_key := adc_key s', adc_irq := adc_irq s', adc_channel := adc_channel s'\<rparr>"
    by (cases s) (simp add: s'_def debounce_adc_def Let_def key_simps)
  moreover have "adc_ok s'"
    using assms by (auto simp: s'_def debounce_adc_def Let_def key_simps adc_ok_def adc_tracked_def)
  ultimately show ?thesis unfolding s'_def by metis
qed

end
