(* ===== verification/Key_Gpio.thy ===== *)
theory Key_Gpio
  imports Key_Track
begin

text \<open>
  The GPIO half of the tracking: each configured pin is in exactly one of four places, its interrupt or one
  of the three maps of the driver, and every loop of the debounce handler keeps it so.
\<close>

definition key_pins :: "key_cfg \<Rightarrow> nat set" where
  "key_pins cfg = {key_pin k |k. k \<in> set (cfg_hw_gpio_key_cfg cfg) \<and> key_code k \<noteq> HAL_KEY_CODE_NONE}"

definition key_cfg_ok :: "key_cfg \<Rightarrow> bool" where
  "key_cfg_ok cfg \<longleftrightarrow> distinct (map key_pin (cfg_hw_gpio_key_cfg cfg)) \<and>
     (\<forall>k \<in> set (cfg_hw_gpio_key_cfg cfg). key_pin k < 32)"

text \<open>How many of the four places hold the pin: its interrupt, or one of the three maps.\<close>

definition pin_places :: "hal_key \<Rightarrow> nat \<Rightarrow> nat" where
  "pin_places s p = of_bool (gpio_irq s p \<noteq> None) + of_bool (bit (gk_pin_debounce (gpio_key s)) p) +
     of_bool (bit (gk_pin_dither (gpio_key s)) p) + of_bool (bit (gk_pin_down (gpio_key s)) p)"

definition gpio_ok :: "key_cfg \<Rightarrow> hal_key \<Rightarrow> bool" where
  "gpio_ok cfg s \<longleftrightarrow> (\<forall>p. pin_places s p = of_bool (p \<in> key_pins cfg))"

lemma find_index_loop_ok:
  assumes "pin \<in> key_pin ` set ks"
  shows "\<exists>j. find_index_loop ks i pin = Some (i + j) \<and> j < length ks \<and> key_pin (ks ! j) = pin"
  using assms
proof (induction ks arbitrary: i)
  case (Cons k ks)
  show ?case
  proof (cases "key_pin k = pin")
    case False
    with Cons.prems have "pin \<in> key_pin ` set ks" by auto
    from Cons.IH [OF this, of "i + 1"] obtain j where
      "find_index_loop ks (i + 1) pin = Some (i + 1 + j)" "j < length ks" "key_pin (ks ! j) = pin" by blast
    with False show ?thesis by (intro exI [of _ "Suc j"]) simp
  qed (intro exI [of _ 0], simp)
qed simp

lemma find_index_ok:
  assumes "p \<in> key_pins cfg"
  shows "\<exists>j. hal_gpiokey_find_index cfg p = Some j \<and> j < length (cfg_hw_gpio_key_cfg cfg) \<and>
    key_pin (cfg_hw_gpio_key_cfg cfg ! j) = p"
  using find_index_loop_ok [of p "cfg_hw_gpio_key_cfg cfg" 0] assms
  by (auto simp: key_pins_def hal_gpiokey_find_index_def)

text \<open>Pins on the move: those of \<open>M\<close> are in no place for the moment.\<close>

definition gpio_ok_but :: "key_cfg \<Rightarrow> nat set \<Rightarrow> hal_key \<Rightarrow> bool" where
  "gpio_ok_but cfg M s \<longleftrightarrow> M \<subseteq> key_pins cfg \<and> (\<forall>p. pin_places s p = of_bool (p \<in> key_pins cfg - M))"

lemma gpio_ok_but_empty [simp]: "gpio_ok_but cfg {} s = gpio_ok cfg s"
  by (simp add: gpio_ok_but_def gpio_ok_def)

definition gpio_frame :: "hal_key \<Rightarrow> hal_key \<Rightarrow> bool" where
  "gpio_frame s s' \<longleftrightarrow> s' = s\<lparr>gpio_key := gpio_key s', gpio_irq := gpio_irq s'\<rparr>"

lemma gpio_frame_refl [simp]: "gpio_frame s s"
  by (simp add: gpio_frame_def)

lemma gpio_frame_trans: "gpio_frame s s1 \<Longrightarrow> gpio_frame s1 s2 \<Longrightarrow> gpio_frame s s2"
  by (cases s; cases s1; cases s2) (simp add: gpio_frame_def)

lemma gpio_frame_upd [simp]: "gpio_frame s (upd_gpio f s)" "gpio_frame s (hal_gpiokey_enable_irq p q s)"
  "gpio_frame s (hal_gpiokey_disable_irq p s)"
  by (cases s; simp add: gpio_frame_def key_simps)+

lemma pin_in_map:
  assumes "gpio_ok cfg s"
  shows "bit (gk_pin_debounce (gpio_key s)) p \<Longrightarrow> p \<in> key_pins cfg"
    "bit (gk_pin_dither (gpio_key s)) p \<Longrightarrow> p \<in> key_pins cfg"
    "bit (gk_pin_down (gpio_key s)) p \<Longrightarrow> p \<in> key_pins cfg"
  using assms by (auto simp: gpio_ok_def pin_places_def of_bool_def split: if_splits dest: spec [of _ p])

lemma gpio_maps_disjoint:
  assumes "gpio_ok cfg s"
  shows "gk_pin_debounce (gpio_key s) AND gk_pin_dither (gpio_key s) = 0"
proof (rule word_no_bits)
  fix j
  show "\<not> bit (gk_pin_debounce (gpio_key s) AND gk_pin_dither (gpio_key s)) j"
    using assms by (auto simp: gpio_ok_def pin_places_def bit_and_iff of_bool_def split: if_splits dest: spec [of _ j])
qed

lemma enable_pin_ok:
  assumes "gpio_ok_but cfg M s" "p \<in> M"
  shows "\<exists>s'. enable_pin cfg p s = Some s' \<and> gpio_ok_but cfg (M - {p}) s' \<and> gpio_frame s s'"
proof -
  have p: "p \<in> key_pins cfg" using assms by (auto simp: gpio_ok_but_def)
  obtain j where j: "hal_gpiokey_find_index cfg p = Some j" using find_index_ok [OF p] by blast
  define s' where "s' = hal_gpiokey_enable_irq p (polarity_of (cfg_hw_gpio_key_cfg cfg ! j)) s"
  have "pin_places s' q = (if q = p then 1 else pin_places s q)" for q
    using assms by (auto simp: pin_places_def s'_def key_simps gpio_ok_but_def of_bool_def
      split: if_splits dest!: spec [of _ p])
  then have "gpio_ok_but cfg (M - {p}) s'"
    using assms p by (auto simp: gpio_ok_but_def)
  with j show ?thesis by (simp add: enable_pin_def s'_def)
qed

lemma gpio_dither_ok:
  assumes "gpio_ok cfg s"
  shows "\<exists>s'. gpio_dither cfg env s = Some s' \<and> gpio_ok cfg s' \<and> gpio_frame s s'"
proof (cases "gk_pin_dither (gpio_key s) \<noteq> 0 \<and>
    hal_sys_timer_get env - gk_time_dither (gpio_key s) \<ge> KEY_DITHER_INTERVAL")
  case True
  define m where "m = gk_pin_dither (gpio_key s)"
  define s1 where "s1 = upd_gpio (\<lambda>k. k\<lparr>gk_pin_dither := gk_pin_dither k AND NOT m\<rparr>) s"
  have "gpio_ok_but cfg {i. bit m i} s1"
    unfolding gpio_ok_but_def
  proof (intro conjI allI subsetI)
    fix i assume "i \<in> {i. bit m i}"
    then show "i \<in> key_pins cfg" using pin_in_map(2) [OF assms] by (simp add: m_def)
  next
    fix q
    show "pin_places s1 q = of_bool (q \<in> key_pins cfg - {i. bit m i})"
      using assms by (auto simp: gpio_ok_def pin_places_def s1_def key_simps m_def bit_and_iff bit_not_iff
        possible_bit_def of_bool_def split: if_splits dest: spec [of _ q])
  qed
  then have "\<exists>s'. bit_loop (enable_pin cfg) 0 m s1 = Some s' \<and>
      gpio_ok_but cfg ({i. bit m i} - {i. bit m i}) s' \<and> gpio_frame s1 s'"
  proof (intro bit_loop_inv [where P = "\<lambda>S s'. gpio_ok_but cfg ({i. bit m i} - S) s' \<and> gpio_frame s1 s'"])
    fix S i s'
    assume i: "bit m i" "i \<notin> S" and P: "gpio_ok_but cfg ({i. bit m i} - S) s' \<and> gpio_frame s1 s'"
    have "{i. bit m i} - S - {i} = {i. bit m i} - insert i S" by blast
    with enable_pin_ok [of cfg "{i. bit m i} - S" s' i] i P
    show "\<exists>s''. enable_pin cfg i s' = Some s'' \<and> gpio_ok_but cfg ({i. bit m i} - insert i S) s'' \<and> gpio_frame s1 s''"
      using gpio_frame_trans by fastforce
  qed simp
  moreover have "gpio_frame s s1" by (simp add: s1_def)
  ultimately show ?thesis
    using True gpio_frame_trans unfolding gpio_dither_def m_def s1_def Let_def by fastforce
next
  case False
  then show ?thesis using assms by (simp only: gpio_dither_def if_False) simp
qed

lemma only_down:
  assumes "gpio_ok cfg s" "bit (gk_pin_down (gpio_key s)) p"
  shows "gpio_irq s p = None" "\<not> bit (gk_pin_debounce (gpio_key s)) p" "\<not> bit (gk_pin_dither (gpio_key s)) p"
proof -
  have "pin_places s p \<le> 1" using assms(1) by (simp add: gpio_ok_def of_bool_def)
  then show "gpio_irq s p = None" "\<not> bit (gk_pin_debounce (gpio_key s)) p" "\<not> bit (gk_pin_dither (gpio_key s)) p"
    using assms(2) by (simp_all add: pin_places_def)
qed

lemma move_places:
  fixes a b c d x y :: bool
  assumes "of_bool a + of_bool b + of_bool c + of_bool d \<le> (1 :: nat)" "x \<or> y \<Longrightarrow> b" "\<not> (x \<and> y)"
  shows "of_bool a + of_bool (b \<and> \<not> x \<and> \<not> y) + of_bool (c \<or> y) + of_bool (d \<or> x) =
    (of_bool a + of_bool b + of_bool c + of_bool d :: nat)"
  using assms by (cases a; cases b; cases c; cases d; cases x; cases y) simp_all

lemma gpio_down_body_ok:
  assumes "gpio_ok cfg s" "bit (gk_pin_down (gpio_key s)) p"
  shows "\<exists>cd' s'. gpio_down_body cfg env p (cd, s) = Some (cd', s') \<and> gpio_ok cfg s' \<and> gpio_frame s s' \<and>
    (\<forall>j. j \<noteq> p \<longrightarrow> bit (gk_pin_down (gpio_key s')) j = bit (gk_pin_down (gpio_key s)) j)"
proof -
  have p: "p \<in> key_pins cfg" using pin_in_map(3) [OF assms(1,2)] .
  obtain i where i: "hal_gpiokey_find_index cfg p = Some i" using find_index_ok [OF p] by blast
  define k where "k = cfg_hw_gpio_key_cfg cfg ! i"
  define s' where "s' = hal_gpiokey_enable_irq p (polarity_of k)
    (upd_gpio (\<lambda>k. k\<lparr>gk_pin_down := gk_pin_down k AND NOT (push_bit p 1)\<rparr>) s)"
  show ?thesis
  proof (cases "hal_gpio_pin_get_val env p = key_down k")
    case True
    with i assms show ?thesis by (simp add: gpio_down_body_def k_def)
  next
    case False
    have b: "bit (gk_pin_down (gpio_key s')) j \<longleftrightarrow> bit (gk_pin_down (gpio_key s)) j \<and> j \<noteq> p" for j
      by (simp add: s'_def key_simps)
    have rest: "gk_pin_debounce (gpio_key s') = gk_pin_debounce (gpio_key s)"
      "gk_pin_dither (gpio_key s') = gk_pin_dither (gpio_key s)" "gpio_irq s' = (gpio_irq s)(p := Some (polarity_of k))"
      by (simp_all add: s'_def key_simps)
    have "pin_places s' q = pin_places s q" for q
      using only_down [OF assms] assms(2) by (cases "q = p") (simp_all add: pin_places_def b rest)
    then have "gpio_ok cfg s'" using assms(1) by (simp add: gpio_ok_def)
    moreover have "gpio_frame s s'" unfolding s'_def
      by (rule gpio_frame_trans [OF gpio_frame_upd(1) gpio_frame_upd(2)])
    moreover have "gpio_down_body cfg env p (cd, s) = Some (cd, s')"
      using False i by (simp add: gpio_down_body_def k_def s'_def)
    ultimately show ?thesis using b by blast
  qed
qed

lemma gpio_down_ok:
  assumes "gpio_ok cfg s"
  shows "\<exists>cd' s'. gpio_down cfg env (cd, s) = Some (cd', s') \<and> gpio_ok cfg s' \<and> gpio_frame s s'"
proof -
  define m where "m = gk_pin_down (gpio_key s)"
  define P :: "nat set \<Rightarrow> u32 \<times> hal_key \<Rightarrow> bool" where "P S x = (gpio_ok cfg (snd x) \<and> gpio_frame s (snd x) \<and>
    (\<forall>j. j \<notin> S \<longrightarrow> bit (gk_pin_down (gpio_key (snd x))) j = bit m j))" for S x
  have "\<exists>x. bit_loop (gpio_down_body cfg env) 0 m (cd, s) = Some x \<and> P {i. bit m i} x"
  proof (rule bit_loop_inv)
    show "P {} (cd, s)" using assms by (simp add: P_def m_def)
  next
    fix S i x assume i: "bit m i" "i \<notin> S" and P: "P S x"
    obtain c s1 where x: "x = (c, s1)" by (cases x)
    have "gpio_ok cfg s1" "bit (gk_pin_down (gpio_key s1)) i" using P i by (simp_all add: P_def x)
    from gpio_down_body_ok [OF this, of env c] obtain c2 s2 where
      "gpio_down_body cfg env i (c, s1) = Some (c2, s2)" "gpio_ok cfg s2" "gpio_frame s1 s2"
      "\<forall>j. j \<noteq> i \<longrightarrow> bit (gk_pin_down (gpio_key s2)) j = bit (gk_pin_down (gpio_key s1)) j" by blast
    with P show "\<exists>x'. gpio_down_body cfg env i x = Some x' \<and> P (insert i S) x'"
      by (intro exI [of _ "(c2, s2)"]) (auto simp: P_def x dest: gpio_frame_trans)
  qed
  then show ?thesis by (auto simp: gpio_down_def m_def P_def)
qed

text \<open>The debounce loop collects the pins that leave the debounce map in two disjoint sets.\<close>

definition debouncing :: "hal_key \<Rightarrow> nat set \<Rightarrow> u32 \<times> u32 \<times> u32 \<times> hal_key \<Rightarrow> bool" where
  "debouncing s S = (\<lambda>(da, ta, cd, s'). gpio_frame s s' \<and> gpio_irq s' = gpio_irq s \<and>
     gk_pin_debounce (gpio_key s') = gk_pin_debounce (gpio_key s) \<and>
     gk_pin_dither (gpio_key s') = gk_pin_dither (gpio_key s) \<and>
     (\<forall>j. bit (gk_pin_down (gpio_key s')) j \<longleftrightarrow> bit (gk_pin_down (gpio_key s)) j \<or> bit da j) \<and>
     (\<forall>j. bit da j \<or> bit ta j \<longrightarrow> j \<in> S) \<and> (\<forall>j. \<not> (bit da j \<and> bit ta j)))"

lemma debouncing_frame: "debouncing s S (da, ta, cd, s') \<Longrightarrow> gpio_frame s s'"
  unfolding debouncing_def prod.case by (rule conjunct1)

lemma gpio_debounce_body_ok:
  assumes "debouncing s S x" "p \<in> key_pins cfg" "p < 32" "p \<notin> S"
  shows "\<exists>x'. gpio_debounce_body cfg env p x = Some x' \<and> debouncing s (insert p S) x'"
proof -
  obtain i where i: "hal_gpiokey_find_index cfg p = Some i" using find_index_ok [OF assms(2)] by blast
  obtain da ta cd s' where x: "x = (da, ta, cd, s')" by (cases x)
  have fr: "gpio_frame s (upd_gpio (\<lambda>k. k\<lparr>gk_pin_down := gk_pin_down k OR 2 ^ p\<rparr>) s')"
    using gpio_frame_trans [OF debouncing_frame [OF assms(1) [unfolded x]] gpio_frame_upd(1)] .
  note d = assms(1) [unfolded x debouncing_def prod.case]
  have fields: "gpio_irq (upd_gpio f s') = gpio_irq s'" "gpio_key (upd_gpio f s') = f (gpio_key s')" for f
    by (simp_all add: upd_gpio_def)
  define k where "k = cfg_hw_gpio_key_cfg cfg ! i"
  show ?thesis
  proof (cases "hal_gpio_pin_get_val env p = key_down k")
    case up: False
    then have "gpio_debounce_body cfg env p x = Some (da, ta OR 2 ^ p, cd, s')"
      using i by (simp add: gpio_debounce_body_def x k_def)
    moreover have "debouncing s (insert p S) (da, ta OR 2 ^ p, cd, s')"
      using d assms(3,4) by (simp add: debouncing_def) blast
    ultimately show ?thesis by blast
  next
    case down: True
    show ?thesis
    proof (cases "hal_sys_timer_get env - gk_time_debounce (gpio_key s') \<ge> KEY_DEBOUNCE_INTERVAL")
      case True
      then have "gpio_debounce_body cfg env p x = Some (da OR 2 ^ p, ta, cd OR key_code k,
          upd_gpio (\<lambda>k. k\<lparr>gk_pin_down := gk_pin_down k OR 2 ^ p\<rparr>) s')"
        using i down by (simp add: gpio_debounce_body_def x k_def)
      moreover have "debouncing s (insert p S) (da OR 2 ^ p, ta, cd OR key_code k,
          upd_gpio (\<lambda>k. k\<lparr>gk_pin_down := gk_pin_down k OR 2 ^ p\<rparr>) s')"
        using d fr assms(3,4) by (simp add: debouncing_def fields) blast
      ultimately show ?thesis by blast
    next
      case False
      then have "gpio_debounce_body cfg env p x = Some x"
        using i down by (simp add: gpio_debounce_body_def x k_def)
      moreover have "debouncing s (insert p S) x"
        using d by (simp add: debouncing_def x)
      ultimately show ?thesis by blast
    qed
  qed
qed

lemma gpio_debounce_ok:
  assumes "gpio_ok cfg s"
  shows "\<exists>cd' s'. gpio_debounce cfg env (cd, s) = Some (cd', s') \<and> gpio_ok cfg s' \<and> gpio_frame s s'"
proof (cases "gk_pin_debounce (gpio_key s) = 0")
  case True
  with assms show ?thesis by (simp add: gpio_debounce_def)
next
  case False
  define m where "m = gk_pin_debounce (gpio_key s)"
  have "\<exists>x. bit_loop (gpio_debounce_body cfg env) 0 m (0, 0, cd, s) = Some x \<and> debouncing s {i. bit m i} x"
  proof (rule bit_loop_inv)
    show "debouncing s {} (0, 0, cd, s)" by (simp add: debouncing_def)
  next
    fix S i x assume "bit m i" "i < 32" "i \<notin> S" "debouncing s S x"
    then show "\<exists>x'. gpio_debounce_body cfg env i x = Some x' \<and> debouncing s (insert i S) x'"
      using pin_in_map(1) [OF assms] by (intro gpio_debounce_body_ok) (simp_all add: m_def)
  qed
  then obtain da ta cd' s1 where run: "bit_loop (gpio_debounce_body cfg env) 0 m (0, 0, cd, s) = Some (da, ta, cd', s1)"
    and d: "debouncing s {i. bit m i} (da, ta, cd', s1)" by auto
  define s' where "s' = upd_gpio (\<lambda>k. k\<lparr>gk_pin_debounce := gk_pin_debounce k AND NOT (da OR ta),
    gk_pin_dither := gk_pin_dither k OR ta\<rparr>) s1"
  have in_m: "bit da j \<or> bit ta j \<Longrightarrow> bit (gk_pin_debounce (gpio_key s)) j" "\<not> (bit da j \<and> bit ta j)" for j
    using d by (auto simp: debouncing_def m_def)
  have b: "bit (gk_pin_debounce (gpio_key s')) j \<longleftrightarrow> bit (gk_pin_debounce (gpio_key s)) j \<and> \<not> bit da j \<and> \<not> bit ta j"
    "bit (gk_pin_dither (gpio_key s')) j \<longleftrightarrow> bit (gk_pin_dither (gpio_key s)) j \<or> bit ta j"
    "bit (gk_pin_down (gpio_key s')) j \<longleftrightarrow> bit (gk_pin_down (gpio_key s)) j \<or> bit da j"
    "gpio_irq s' = gpio_irq s" for j
    using d bit_imp_le_length [of "gk_pin_debounce (gpio_key s)" j]
    by (auto simp: debouncing_def s'_def upd_gpio_def bit_and_iff bit_or_iff bit_not_iff possible_bit_def)
  have "pin_places s' q = pin_places s q" for q
  proof -
    have "pin_places s q \<le> 1" using assms by (simp add: gpio_ok_def of_bool_def)
    then show ?thesis unfolding pin_places_def b using in_m [of q] by (intro move_places) simp_all
  qed
  then have "gpio_ok cfg s'" using assms by (simp add: gpio_ok_def)
  moreover have "gpio_frame s s'"
    unfolding s'_def by (rule gpio_frame_trans [OF debouncing_frame [OF d] gpio_frame_upd(1)])
  moreover have "gpio_debounce cfg env (cd, s) = Some (cd', s')"
    using False run by (simp add: gpio_debounce_def m_def s'_def)
  ultimately show ?thesis by blast
qed

lemma debounce_gpio_ok:
  assumes "gpio_ok cfg s"
  shows "\<exists>cd' s'. debounce_gpio cfg env (cd, s) = Some (cd', s') \<and> gpio_ok cfg s' \<and> gpio_frame s s'"
proof -
  obtain s1 where s1: "gpio_dither cfg env s = Some s1" "gpio_ok cfg s1" "gpio_frame s s1"
    using gpio_dither_ok [OF assms] by blast
  obtain c2 s2 where s2: "gpio_down cfg env (cd, s1) = Some (c2, s2)" "gpio_ok cfg s2" "gpio_frame s1 s2"
    using gpio_down_ok [OF s1(2)] by blast
  obtain c3 s3 where s3: "gpio_debounce cfg env (c2, s2) = Some (c3, s3)" "gpio_ok cfg s3" "gpio_frame s2 s3"
    using gpio_debounce_ok [OF s2(2)] by blast
  have "gpio_frame s s3" using s1(3) s2(3) s3(3) gpio_frame_trans by blast
  with s1(1) s2(1) s3(1,2) show ?thesis
    by (simp add: debounce_gpio_def gpio_maps_disjoint [OF assms])
qed

end
