(* ===== verification/Key_Status.thy ===== *)
theory Key_Status
  imports Key_Gpio
begin

text \<open>
  The second half of the debounce handler: what the sequence of reports to the application means. The down
  and up reports replay exactly what is held; clicks and repeats stay within their bounds.
\<close>

section \<open>Replaying the reports\<close>

text \<open>What the application believes to be held after a sequence of reports, starting from \<open>h\<close>: \<open>None\<close> if a
  key is reported down that is down, or up that is not.\<close>

fun held_after :: "(u32 \<times> u8) list \<Rightarrow> u32 \<Rightarrow> u32 option" where
  "held_after [] h = Some h"
| "held_after ((c, e) # xs) h =
     (if e = HAL_KEY_EVENT_DOWN then (if c AND h = 0 then held_after xs (h OR c) else None)
      else if e = HAL_KEY_EVENT_UP then (if c AND h = c then held_after xs (h AND NOT c) else None)
      else held_after xs h)"

lemma held_after_append:
  "held_after (xs @ ys) h = Option.bind (held_after xs h) (held_after ys)"
  by (induction xs arbitrary: h) auto

lemma held_after_other:
  assumes "e \<noteq> HAL_KEY_EVENT_DOWN" "e \<noteq> HAL_KEY_EVENT_UP"
  shows "held_after (xs @ [(c, e)]) h = held_after xs h"
  using assms by (simp add: held_after_append Option.bind_eq_Some_conv split: bind_splits)

definition reports_replay :: "hal_key \<Rightarrow> u32 \<Rightarrow> bool" where
  "reports_replay s h \<longleftrightarrow> key_detected_callback s \<longrightarrow> held_after (key_events s) 0 = Some h"

text \<open>What the second half of the handler leaves alone.\<close>

definition status_frame :: "hal_key \<Rightarrow> hal_key \<Rightarrow> bool" where
  "status_frame s s' \<longleftrightarrow> s' = s\<lparr>key_events := key_events s', key_status := key_status s'\<rparr>"

lemma status_frame_refl [simp]: "status_frame s s"
  by (simp add: status_frame_def)

lemma status_frame_trans: "status_frame s s1 \<Longrightarrow> status_frame s1 s2 \<Longrightarrow> status_frame s s2"
  by (cases s; cases s1; cases s2) (simp add: status_frame_def)

lemma status_frame_upd [simp]: "status_frame s (upd_status f s)" "status_frame s (send_key_event c e s)"
  by (cases s; simp add: status_frame_def upd_status_def send_key_event_def)+

lemma send_fields [simp]:
  "key_status (send_key_event c e s) = key_status s"
  "key_detected_callback (send_key_event c e s) = key_detected_callback s"
  "key_events (send_key_event c e s) = (if key_detected_callback s then key_events s @ [(c, e)] else key_events s)"
  by (simp_all add: send_key_event_def)

lemma upd_status_fields [simp]:
  "key_status (upd_status f s) = f (key_status s)"
  "key_detected_callback (upd_status f s) = key_detected_callback s"
  "key_events (upd_status f s) = key_events s"
  by (simp_all add: upd_status_def)

lemma replay_other [simp]:
  "e \<noteq> HAL_KEY_EVENT_DOWN \<Longrightarrow> e \<noteq> HAL_KEY_EVENT_UP \<Longrightarrow>
   reports_replay (send_key_event c e s) h = reports_replay s h"
  by (simp add: reports_replay_def held_after_other)

lemma replay_upd [simp]: "reports_replay (upd_status f s) h = reports_replay s h"
  by (simp add: reports_replay_def)

lemma replay_down:
  "reports_replay s h \<Longrightarrow> c AND h = 0 \<Longrightarrow> reports_replay (send_key_event c HAL_KEY_EVENT_DOWN s) (h OR c)"
  by (simp add: reports_replay_def held_after_append)

lemma replay_up:
  "reports_replay s h \<Longrightarrow> c AND h = c \<Longrightarrow> reports_replay (send_key_event c HAL_KEY_EVENT_UP s) (h AND NOT c)"
  by (simp add: reports_replay_def held_after_append key_event_defs)

section \<open>The state of the click machine\<close>

definition status_ok :: "hal_key \<Rightarrow> bool" where
  "status_ok s \<longleftrightarrow> ks_event (key_status s) \<in> {HAL_KEY_EVENT_NONE, HAL_KEY_EVENT_DOWN, HAL_KEY_EVENT_UP,
       HAL_KEY_EVENT_LONGPRESS, HAL_KEY_EVENT_LONGLONGPRESS} \<and>
     unat (ks_cnt_click (key_status s)) < 4 \<and> unat (ks_cnt_repeat (key_status s)) < 12"

text \<open>The reports themselves: none outside the enumeration the application knows for keys, and at most
  five clicks in one report.\<close>

definition report_ok :: "u32 \<times> u8 \<Rightarrow> bool" where
  "report_ok = (\<lambda>(_, e). unat e \<in> {1..12} \<or> e = HAL_KEY_EVENT_REPEAT)"

lemma click_event:
  assumes "unat n \<le> 4"
  shows "HAL_KEY_EVENT_CLICK + n \<noteq> HAL_KEY_EVENT_DOWN" "HAL_KEY_EVENT_CLICK + n \<noteq> HAL_KEY_EVENT_UP"
    "report_ok (c, HAL_KEY_EVENT_CLICK + n)"
proof -
  have u: "unat (8 + n :: u8) = 8 + unat n" using assms by (simp add: unat_add_small)
  have "8 + n \<noteq> 1" "8 + n \<noteq> 4"
  proof -
    have "unat (8 + n :: u8) \<noteq> unat (1 :: u8)" "unat (8 + n :: u8) \<noteq> unat (4 :: u8)" using u by simp_all
    then show "8 + n \<noteq> 1" "8 + n \<noteq> 4" by metis+
  qed
  with u assms show "HAL_KEY_EVENT_CLICK + n \<noteq> HAL_KEY_EVENT_DOWN" "HAL_KEY_EVENT_CLICK + n \<noteq> HAL_KEY_EVENT_UP"
    "report_ok (c, HAL_KEY_EVENT_CLICK + n)"
    by (simp_all add: key_event_defs report_ok_def)
qed

definition reports_ok :: "hal_key \<Rightarrow> bool" where
  "reports_ok s \<longleftrightarrow> list_all report_ok (key_events s)"

lemma reports_ok_send [simp]: "reports_ok s \<Longrightarrow> report_ok (c, e) \<Longrightarrow> reports_ok (send_key_event c e s)"
  by (simp add: reports_ok_def)

lemma reports_ok_upd [simp]: "reports_ok (upd_status f s) = reports_ok s"
  by (simp add: reports_ok_def)

definition machine_ok :: "hal_key \<Rightarrow> u32 \<Rightarrow> bool" where
  "machine_ok s h \<longleftrightarrow> status_ok s \<and> reports_ok s \<and> reports_replay s h"

lemma key_event_distinct [simp]:
  "HAL_KEY_EVENT_UP_AFTER_LONGPRESS \<noteq> HAL_KEY_EVENT_DOWN" "HAL_KEY_EVENT_UP_AFTER_LONGPRESS \<noteq> HAL_KEY_EVENT_UP"
  "HAL_KEY_EVENT_FIRST_DOWN \<noteq> HAL_KEY_EVENT_DOWN" "HAL_KEY_EVENT_FIRST_DOWN \<noteq> HAL_KEY_EVENT_UP"
  "HAL_KEY_EVENT_CONTINUED_DOWN \<noteq> HAL_KEY_EVENT_DOWN" "HAL_KEY_EVENT_CONTINUED_DOWN \<noteq> HAL_KEY_EVENT_UP"
  "HAL_KEY_EVENT_LONGPRESS \<noteq> HAL_KEY_EVENT_DOWN" "HAL_KEY_EVENT_LONGPRESS \<noteq> HAL_KEY_EVENT_UP"
  "HAL_KEY_EVENT_LONGLONGPRESS \<noteq> HAL_KEY_EVENT_DOWN" "HAL_KEY_EVENT_LONGLONGPRESS \<noteq> HAL_KEY_EVENT_UP"
  "HAL_KEY_EVENT_REPEAT \<noteq> HAL_KEY_EVENT_DOWN" "HAL_KEY_EVENT_REPEAT \<noteq> HAL_KEY_EVENT_UP"
  by (simp_all add: key_event_defs)

lemma report_ok_events [simp]:
  "report_ok (c, HAL_KEY_EVENT_DOWN)" "report_ok (c, HAL_KEY_EVENT_UP)" "report_ok (c, HAL_KEY_EVENT_FIRST_DOWN)"
  "report_ok (c, HAL_KEY_EVENT_CONTINUED_DOWN)" "report_ok (c, HAL_KEY_EVENT_UP_AFTER_LONGPRESS)"
  "report_ok (c, HAL_KEY_EVENT_LONGPRESS)" "report_ok (c, HAL_KEY_EVENT_LONGLONGPRESS)" "report_ok (c, HAL_KEY_EVENT_REPEAT)"
  by (simp_all add: report_ok_def key_event_defs)

lemma one_key_up: "i < 32 \<Longrightarrow> bit h i \<Longrightarrow> 2 ^ i AND h = (2 ^ i :: u32)"
  by (intro bit_word_eqI) (auto simp: bit_and_iff bit_one_bit)

lemma one_key_down: "\<not> bit h i \<Longrightarrow> 2 ^ i AND h = (0 :: u32)"
  by (simp add: and.commute)

section \<open>The loops\<close>

definition timed :: "u32 \<Rightarrow> hal_key_status \<Rightarrow> hal_key_status" where
  "timed time k = k\<lparr>ks_time_updown := time\<rparr>"

definition readied :: "u32 \<Rightarrow> u32 \<Rightarrow> hal_key_status \<Rightarrow> hal_key_status" where
  "readied time cd k =
     (if ks_event k = HAL_KEY_EVENT_NONE \<or> ks_event k = HAL_KEY_EVENT_DOWN \<or> ks_event k = HAL_KEY_EVENT_UP
      then k\<lparr>ks_code_ready := cd, ks_time_updown := time\<rparr> else timed time k)"

lemma timed_twice [simp]: "timed t (timed t k) = timed t k"
  by (simp add: timed_def)

lemma readied_twice [simp]: "readied t cd (readied t cd k) = readied t cd k"
  by (simp add: readied_def timed_def)

lemma status_ok_cong:
  "status_ok s \<Longrightarrow> ks_event (key_status s') = ks_event (key_status s) \<Longrightarrow>
   ks_cnt_click (key_status s') = ks_cnt_click (key_status s) \<Longrightarrow>
   ks_cnt_repeat (key_status s') = ks_cnt_repeat (key_status s) \<Longrightarrow> status_ok s'"
  by (simp add: status_ok_def)

lemma timed_fields [simp]:
  "ks_event (timed t k) = ks_event k" "ks_cnt_click (timed t k) = ks_cnt_click k"
  "ks_cnt_repeat (timed t k) = ks_cnt_repeat k" "ks_code_down (timed t k) = ks_code_down k"
  "ks_code_ready (timed t k) = ks_code_ready k" "ks_code_click (timed t k) = ks_code_click k"
  "ks_time_click (timed t k) = ks_time_click k" "ks_time_updown (timed t k) = t"
  by (simp_all add: timed_def)

lemma readied_fields [simp]:
  "ks_event (readied t cd k) = ks_event k" "ks_cnt_click (readied t cd k) = ks_cnt_click k"
  "ks_cnt_repeat (readied t cd k) = ks_cnt_repeat k" "ks_code_down (readied t cd k) = ks_code_down k"
  "ks_code_click (readied t cd k) = ks_code_click k" "ks_time_click (readied t cd k) = ks_time_click k"
  "ks_time_updown (readied t cd k) = t"
  by (simp_all add: readied_def)

lemma up_body_ok:
  assumes "machine_ok s h" "i < 32" "bit h i"
  shows "\<exists>s'. up_body time i s = Some s' \<and> machine_ok s' (h AND NOT (2 ^ i)) \<and> status_frame s s' \<and>
    key_status s' = timed time (key_status s)"
proof -
  define s1 where "s1 = send_key_event (2 ^ i) HAL_KEY_EVENT_UP s"
  define s2 where "s2 = (if in_long_press s1 then send_key_event (2 ^ i) HAL_KEY_EVENT_UP_AFTER_LONGPRESS s1 else s1)"
  define s3 where "s3 = upd_status (timed time) s2"
  have "reports_replay s1 (h AND NOT (2 ^ i))"
    using assms by (simp add: s1_def machine_ok_def replay_up one_key_up)
  moreover have "reports_ok s1" using assms by (simp add: s1_def machine_ok_def)
  moreover have "key_status s2 = key_status s" by (simp add: s2_def s1_def)
  ultimately have "machine_ok s3 (h AND NOT (2 ^ i))" "key_status s3 = timed time (key_status s)"
    using assms by (simp_all add: machine_ok_def s3_def s2_def status_ok_def)
  moreover have "status_frame s s3"
  proof -
    have "status_frame s s1" "status_frame s1 s2" "status_frame s2 s3"
      by (simp_all add: s1_def s2_def s3_def)
    then show ?thesis by (rule status_frame_trans [OF status_frame_trans])
  qed
  moreover have "up_body time i s = Some s3"
    by (simp add: up_body_def Let_def s1_def s2_def s3_def timed_def [abs_def])
  ultimately show ?thesis by blast
qed

lemma up_loop_ok:
  assumes "machine_ok s h" "\<And>j. bit m j \<Longrightarrow> bit h j"
  shows "\<exists>s'. bit_loop (up_body time) 0 m s = Some s' \<and> machine_ok s' (h AND NOT m) \<and> status_frame s s' \<and>
    key_status s' = (if m = 0 then key_status s else timed time (key_status s))"
proof -
  define P where "P S s' = (status_frame s s' \<and> (\<exists>h'. machine_ok s' h' \<and> (\<forall>j. bit h' j \<longleftrightarrow> bit h j \<and> j \<notin> S)) \<and>
    key_status s' = (if S = {} then key_status s else timed time (key_status s)))" for S :: "nat set" and s'
  have "\<exists>s'. bit_loop (up_body time) 0 m s = Some s' \<and> P {i. bit m i} s'"
  proof (rule bit_loop_inv)
    show "P {} s" using assms(1) by (auto simp: P_def)
  next
    fix S i s' assume i: "bit m i" "i < 32" "i \<notin> S" and P: "P S s'"
    then obtain h' where h': "machine_ok s' h'" "\<forall>j. bit h' j \<longleftrightarrow> bit h j \<and> j \<notin> S" by (auto simp: P_def)
    then have "bit h' i" using assms(2) [OF i(1)] i by simp
    from up_body_ok [OF h'(1) i(2) this, of time] obtain s2 where
      "up_body time i s' = Some s2" "machine_ok s2 (h' AND NOT (2 ^ i))" "status_frame s' s2"
      "key_status s2 = timed time (key_status s')" by blast
    moreover have "\<forall>j. bit (h' AND NOT (2 ^ i)) j \<longleftrightarrow> bit h j \<and> j \<notin> insert i S" using h'(2) by auto
    moreover have "status_frame s s2" using P \<open>status_frame s' s2\<close> status_frame_trans by (simp only: P_def) blast
    moreover have "key_status s2 = timed time (key_status s)"
      using P \<open>key_status s2 = timed time (key_status s')\<close> by (simp add: P_def split: if_splits)
    ultimately show "\<exists>s2. up_body time i s' = Some s2 \<and> P (insert i S) s2"
      by (intro exI [of _ s2]) (simp only: P_def insert_not_empty if_False simp_thms, intro exI [of _ "h' AND NOT (2 ^ i)"], simp only: simp_thms)
  qed
  then obtain s' h' where s': "bit_loop (up_body time) 0 m s = Some s'" "status_frame s s'" "machine_ok s' h'"
    "\<forall>j. bit h' j \<longleftrightarrow> bit h j \<and> j \<notin> {i. bit m i}"
    "key_status s' = (if {i. bit m i} = {} then key_status s else timed time (key_status s))"
    by (auto simp: P_def)
  have "h' = h AND NOT m"
    using s'(4) by (intro bit_word_eqI) (auto simp: bit_and_iff bit_not_iff possible_bit_def)
  moreover have "{i. bit m i} = {} \<longleftrightarrow> m = 0" using word_no_bits [of m] by auto
  ultimately show ?thesis using s' by auto
qed

lemma down_body_ok:
  assumes "machine_ok s h" "i < 32" "\<not> bit h i"
  shows "\<exists>s'. down_body time cd i s = Some s' \<and> machine_ok s' (h OR 2 ^ i) \<and> status_frame s s' \<and>
    key_status s' = readied time cd (key_status s)"
proof -
  define s1 where "s1 = send_key_event (2 ^ i) HAL_KEY_EVENT_DOWN s"
  define s2 where "s2 = send_key_event (2 ^ i) (if ks_event (key_status s1) = HAL_KEY_EVENT_NONE
    then HAL_KEY_EVENT_FIRST_DOWN else HAL_KEY_EVENT_CONTINUED_DOWN) s1"
  define s3 where "s3 = upd_status (readied time cd) s2"
  have "reports_replay s1 (h OR 2 ^ i)"
    using assms by (simp add: s1_def machine_ok_def replay_down one_key_down)
  moreover have "reports_ok s1" using assms by (simp add: s1_def machine_ok_def)
  moreover have "key_status s2 = key_status s" by (simp add: s2_def s1_def)
  ultimately have "machine_ok s3 (h OR 2 ^ i)" "key_status s3 = readied time cd (key_status s)"
    using assms by (simp_all add: machine_ok_def s3_def s2_def status_ok_def)
  moreover have "status_frame s s3"
  proof -
    have "status_frame s s1" "status_frame s1 s2" "status_frame s2 s3"
      by (simp_all add: s1_def s2_def s3_def)
    then show ?thesis by (rule status_frame_trans [OF status_frame_trans])
  qed
  moreover have "down_body time cd i s = Some s3"
    by (simp add: down_body_def Let_def s1_def s2_def s3_def readied_def [abs_def] timed_def [abs_def] upd_status_def)
  ultimately show ?thesis by blast
qed

lemma down_loop_ok:
  assumes "machine_ok s h" "\<And>j. bit m j \<Longrightarrow> \<not> bit h j"
  shows "\<exists>s'. bit_loop (down_body time cd) 0 m s = Some s' \<and> machine_ok s' (h OR m) \<and> status_frame s s' \<and>
    key_status s' = (if m = 0 then key_status s else readied time cd (key_status s))"
proof -
  define P where "P S s' = (status_frame s s' \<and> (\<exists>h'. machine_ok s' h' \<and> (\<forall>j. bit h' j \<longleftrightarrow> bit h j \<or> j \<in> S)) \<and>
    key_status s' = (if S = {} then key_status s else readied time cd (key_status s)))" for S :: "nat set" and s'
  have "\<exists>s'. bit_loop (down_body time cd) 0 m s = Some s' \<and> P {i. bit m i} s'"
  proof (rule bit_loop_inv)
    show "P {} s" using assms(1) by (auto simp: P_def)
  next
    fix S i s' assume i: "bit m i" "i < 32" "i \<notin> S" and P: "P S s'"
    then obtain h' where h': "machine_ok s' h'" "\<forall>j. bit h' j \<longleftrightarrow> bit h j \<or> j \<in> S" by (auto simp: P_def)
    then have "\<not> bit h' i" using assms(2) [OF i(1)] i by simp
    from down_body_ok [OF h'(1) i(2) this, of time cd] obtain s2 where
      "down_body time cd i s' = Some s2" "machine_ok s2 (h' OR 2 ^ i)" "status_frame s' s2"
      "key_status s2 = readied time cd (key_status s')" by blast
    moreover have "\<forall>j. bit (h' OR 2 ^ i) j \<longleftrightarrow> bit h j \<or> j \<in> insert i S" using h'(2) i(2) by auto
    moreover have "status_frame s s2" using P \<open>status_frame s' s2\<close> status_frame_trans by (simp only: P_def) blast
    moreover have "key_status s2 = readied time cd (key_status s)"
      using P \<open>key_status s2 = readied time cd (key_status s')\<close> by (simp add: P_def split: if_splits)
    ultimately show "\<exists>s2. down_body time cd i s' = Some s2 \<and> P (insert i S) s2"
      by (intro exI [of _ s2]) (simp only: P_def insert_not_empty if_False simp_thms, intro exI [of _ "h' OR 2 ^ i"], simp only: simp_thms)
  qed
  then obtain s' h' where s': "bit_loop (down_body time cd) 0 m s = Some s'" "status_frame s s'" "machine_ok s' h'"
    "\<forall>j. bit h' j \<longleftrightarrow> bit h j \<or> j \<in> {i. bit m i}"
    "key_status s' = (if {i. bit m i} = {} then key_status s else readied time cd (key_status s))"
    by (auto simp: P_def)
  have "h' = h OR m" using s'(4) by (intro bit_word_eqI) (auto simp: bit_or_iff)
  moreover have "{i. bit m i} = {} \<longleftrightarrow> m = 0" using word_no_bits [of m] by auto
  ultimately show ?thesis using s' by auto
qed

section \<open>The whole update\<close>

lemma status_up_ok:
  assumes "machine_ok s h"
  shows "machine_ok (status_up up cd s) h" "status_frame s (status_up up cd s)"
  using assms by (auto simp: status_up_def machine_ok_def status_ok_def)

lemma status_down_ok:
  assumes "machine_ok s h"
  shows "machine_ok (status_down dn s) h" "status_frame s (status_down dn s)"
  using assms by (simp_all add: status_down_def machine_ok_def status_ok_def)

lemma machine_ok_send:
  assumes "machine_ok s h" "e \<noteq> HAL_KEY_EVENT_DOWN" "e \<noteq> HAL_KEY_EVENT_UP" "report_ok (c, e)"
  shows "machine_ok (send_key_event c e s) h"
  using assms by (simp add: machine_ok_def status_ok_def)

lemma machine_ok_click:
  assumes "machine_ok s h" "unat n \<le> 4"
  shows "machine_ok (send_key_event c (HAL_KEY_EVENT_CLICK + n) s) h"
  using machine_ok_send [OF assms(1) click_event [OF assms(2)]] .

text \<open>The first step of the click handling settles a click of other keys and counts this one.\<close>

definition click_count :: "u32 \<Rightarrow> u32 \<Rightarrow> hal_key \<Rightarrow> hal_key" where
  "click_count time up_new s =
     (if ks_code_click (key_status s) = HAL_KEY_CODE_NONE \<or> ks_code_click (key_status s) \<noteq> ks_code_ready (key_status s)
      then upd_status (\<lambda>k. k\<lparr>ks_code_click := ks_code_ready k, ks_cnt_click := 0, ks_time_click := time\<rparr>)
        (if ks_code_click (key_status s) \<noteq> HAL_KEY_CODE_NONE
         then send_key_event (ks_code_click (key_status s)) (HAL_KEY_EVENT_CLICK + ks_cnt_click (key_status s)) s else s)
      else if up_new \<noteq> 0 \<and> up_new OR ks_code_down (key_status s) = ks_code_click (key_status s)
      then upd_status (\<lambda>k. k\<lparr>ks_cnt_click := ks_cnt_click k + 1, ks_time_click := time\<rparr>) s
      else s)"

definition click_settle :: "u32 \<Rightarrow> hal_key \<Rightarrow> hal_key" where
  "click_settle time s =
     (if time - ks_time_click (key_status s) \<ge> KEY_DOUBLECLICK_THRESHOLD \<or>
         ks_cnt_click (key_status s) \<ge> MAX_KEY_CLICK_COUNT
      then upd_status (\<lambda>k. k\<lparr>ks_code_click := HAL_KEY_CODE_NONE, ks_cnt_click := 0, ks_event := HAL_KEY_EVENT_NONE\<rparr>)
        (send_key_event (ks_code_click (key_status s)) (HAL_KEY_EVENT_CLICK + ks_cnt_click (key_status s)) s)
      else s)"

lemma status_click_steps:
  "status_click time up_new s =
     (if ks_event (key_status s) = HAL_KEY_EVENT_UP then click_settle time (click_count time up_new s) else s)"
  by (simp add: status_click_def click_count_def click_settle_def Let_def)

lemma status_click_ok:
  assumes "machine_ok s h"
  shows "machine_ok (status_click time up s) h" "status_frame s (status_click time up s)"
proof -
  have n: "unat (ks_cnt_click (key_status s)) < 4" using assms by (simp add: machine_ok_def status_ok_def)
  then have n1: "unat (ks_cnt_click (key_status s) + 1) = unat (ks_cnt_click (key_status s)) + 1"
    by (simp add: unat_add_small)
  define s1 where "s1 = click_count time up s"
  have ev: "ks_event (key_status s1) = ks_event (key_status s)"
    "ks_cnt_repeat (key_status s1) = ks_cnt_repeat (key_status s)"
    by (simp_all add: s1_def click_count_def)
  have cnt: "unat (ks_cnt_click (key_status s1)) \<le> 4" using n n1 by (simp add: s1_def click_count_def)
  have rest: "reports_ok s1 \<and> reports_replay s1 h"
    using machine_ok_click [OF assms, of "ks_cnt_click (key_status s)" "ks_code_click (key_status s)"] n assms
    by (simp add: s1_def click_count_def machine_ok_def)
  have fr: "status_frame s s1"
    unfolding s1_def click_count_def by (auto intro: status_frame_trans [OF status_frame_upd(2) status_frame_upd(1)])
  have "machine_ok (click_settle time s1) h"
  proof (cases "time - ks_time_click (key_status s1) \<ge> KEY_DOUBLECLICK_THRESHOLD \<or>
      ks_cnt_click (key_status s1) \<ge> MAX_KEY_CLICK_COUNT")
    case True
    then have run: "click_settle time s1 =
        upd_status (\<lambda>k. k\<lparr>ks_code_click := HAL_KEY_CODE_NONE, ks_cnt_click := 0, ks_event := HAL_KEY_EVENT_NONE\<rparr>)
        (send_key_event (ks_code_click (key_status s1)) (HAL_KEY_EVENT_CLICK + ks_cnt_click (key_status s1)) s1)"
      by (simp only: click_settle_def if_True)
    show ?thesis
      unfolding run using rest click_event [OF cnt] ev assms
      by (simp add: machine_ok_def status_ok_def)
  next
    case False
    then have "click_settle time s1 = s1" by (simp only: click_settle_def if_False)
    moreover have "unat (ks_cnt_click (key_status s1)) < 4"
      using False by (auto simp: MAX_KEY_CLICK_COUNT_def key_event_defs word_le_nat_alt)
    ultimately show ?thesis using rest ev assms by (simp add: machine_ok_def status_ok_def)
  qed
  moreover have "status_frame s1 (click_settle time s1)"
    unfolding click_settle_def by (auto intro: status_frame_trans [OF status_frame_upd(2) status_frame_upd(1)])
  ultimately show "machine_ok (status_click time up s) h" "status_frame s (status_click time up s)"
    using assms fr status_frame_trans by (auto simp: status_click_steps s1_def)
qed

lemma repeat_ticks: "KEY_LONGPRESS_REPEAT_THRESHOLD div KEY_CHECKER_INTERVAL = 12"
  by (simp add: KEY_LONGPRESS_REPEAT_THRESHOLD_def KEY_CHECKER_INTERVAL_def MS_TO_TICKS_def)

text \<open>The repeat counter of a long press.\<close>

definition repeat_step :: "hal_key \<Rightarrow> hal_key" where
  "repeat_step s =
     (if ks_cnt_repeat (key_status s) = 11
      then send_key_event (ks_code_ready (key_status s)) HAL_KEY_EVENT_REPEAT
        (upd_status (\<lambda>k. k\<lparr>ks_cnt_repeat := 0\<rparr>) s)
      else upd_status (\<lambda>k. k\<lparr>ks_cnt_repeat := ks_cnt_repeat k + 1\<rparr>) s)"

lemma upd_status_twice [simp]: "upd_status f (upd_status g s) = upd_status (\<lambda>k. f (g k)) s"
  by (simp add: upd_status_def)

lemma repeat_cast: "ucast (n + 1) = (12 :: u32) \<longleftrightarrow> n = (11 :: u8)"
proof
  assume "ucast (n + 1) = (12 :: u32)"
  then have "unat (ucast (n + 1) :: u32) = 12" by simp
  moreover have "unat (n + 1) < 2 ^ 32" using unsigned_less [of "n + 1", where ?'a = nat] by simp
  ultimately have "unat (n + 1) = 12" by (simp add: unsigned_ucast_eq take_bit_nat_eq_self)
  then have "n + 1 = 12" by (intro word_unat_eq_iff [THEN iffD2]) simp
  then show "n = 11" by (simp add: eq_diff_eq [symmetric])
qed simp

lemma status_long_steps:
  "status_long time cd s =
     (if cd AND ks_code_ready (key_status s) = ks_code_ready (key_status s) then
        (if ks_event (key_status s) = HAL_KEY_EVENT_DOWN then
           (if time - ks_time_updown (key_status s) \<ge> KEY_LONGPRESS_THRESHOLD
            then send_key_event (ks_code_ready (key_status s)) HAL_KEY_EVENT_LONGPRESS
              (upd_status (\<lambda>k. k\<lparr>ks_cnt_repeat := 0, ks_event := HAL_KEY_EVENT_LONGPRESS\<rparr>) s)
            else s)
         else if in_long_press s then
           (if ks_event (key_status s) = HAL_KEY_EVENT_LONGPRESS \<and>
               time - ks_time_updown (key_status s) \<ge> KEY_LONGLONGPRESS_THRESHOLD
            then send_key_event (ks_code_ready (key_status s)) HAL_KEY_EVENT_LONGLONGPRESS
              (upd_status (\<lambda>k. k\<lparr>ks_event := HAL_KEY_EVENT_LONGLONGPRESS\<rparr>) (repeat_step s))
            else repeat_step s)
         else s)
      else s)"
  by (simp add: status_long_def repeat_step_def repeat_ticks repeat_cast Let_def)

lemma repeat_step_ok:
  assumes "machine_ok s h"
  shows "machine_ok (repeat_step s) h" "status_frame s (repeat_step s)"
    "ks_event (key_status (repeat_step s)) = ks_event (key_status s)"
proof -
  have n: "unat (ks_cnt_repeat (key_status s)) < 12" using assms by (simp add: machine_ok_def status_ok_def)
  show "ks_event (key_status (repeat_step s)) = ks_event (key_status s)" by (simp add: repeat_step_def)
  show "status_frame s (repeat_step s)"
    unfolding repeat_step_def by (auto intro: status_frame_trans [OF status_frame_upd(1) status_frame_upd(2)])
  show "machine_ok (repeat_step s) h"
  proof (cases "ks_cnt_repeat (key_status s) = 11")
    case False
    then have "unat (ks_cnt_repeat (key_status s)) \<noteq> unat (11 :: u8)" by (simp only: word_unat_eq_iff [symmetric]) simp
    then have "unat (ks_cnt_repeat (key_status s) + 1) < 12" using n by (simp add: unat_add_small)
    then show ?thesis using False assms by (simp add: repeat_step_def machine_ok_def status_ok_def)
  qed (use assms in \<open>simp add: repeat_step_def machine_ok_def status_ok_def\<close>)
qed

lemma status_long_ok:
  assumes "machine_ok s h"
  shows "machine_ok (status_long time cd s) h" "status_frame s (status_long time cd s)"
proof -
  note r = repeat_step_ok [OF assms]
  have m: "machine_ok (send_key_event c HAL_KEY_EVENT_LONGPRESS
      (upd_status (\<lambda>k. k\<lparr>ks_cnt_repeat := 0, ks_event := HAL_KEY_EVENT_LONGPRESS\<rparr>) s)) h"
    "machine_ok (send_key_event c HAL_KEY_EVENT_LONGLONGPRESS
      (upd_status (\<lambda>k. k\<lparr>ks_event := HAL_KEY_EVENT_LONGLONGPRESS\<rparr>) (repeat_step s))) h" for c
    using assms r(1) by (simp_all add: machine_ok_def status_ok_def)
  show "machine_ok (status_long time cd s) h"
    using assms r(1) m by (simp only: status_long_steps split: if_split) simp
  have f: "status_frame s (send_key_event c HAL_KEY_EVENT_LONGPRESS
      (upd_status (\<lambda>k. k\<lparr>ks_cnt_repeat := 0, ks_event := HAL_KEY_EVENT_LONGPRESS\<rparr>) s))"
    "status_frame s (send_key_event c HAL_KEY_EVENT_LONGLONGPRESS
      (upd_status (\<lambda>k. k\<lparr>ks_event := HAL_KEY_EVENT_LONGLONGPRESS\<rparr>) (repeat_step s)))" for c
    by (rule status_frame_trans [OF status_frame_upd(1) status_frame_upd(2)],
      rule status_frame_trans [OF r(2) status_frame_trans [OF status_frame_upd(1) status_frame_upd(2)]])
  show "status_frame s (status_long time cd s)"
    using r(2) f by (simp only: status_long_steps split: if_split) simp
qed

lemma status_tick_ok:
  assumes "machine_ok s (ks_code_down (key_status s))"
  shows "\<exists>s'. status_tick time cd s = Some s' \<and> machine_ok s' cd \<and> status_frame s s'"
proof -
  define old dn up where "old = ks_code_down (key_status s)" and "dn = cd AND NOT old" and "up = NOT cd AND old"
  obtain s1 where s1: "bit_loop (up_body time) 0 up s = Some s1" "machine_ok s1 (old AND NOT up)" "status_frame s s1"
    using up_loop_ok [OF assms, of up time] by (auto simp: old_def up_def bit_and_iff)
  define s2 where "s2 = upd_status (\<lambda>k. k\<lparr>ks_code_down := cd\<rparr>) (status_click time up (status_up up cd s1))"
  have "machine_ok (status_click time up (status_up up cd s1)) (old AND NOT up)"
    by (intro status_click_ok(1) status_up_ok(1) s1(2))
  then have s2: "machine_ok s2 (old AND NOT up)" by (simp add: s2_def machine_ok_def status_ok_def)
  have f2: "status_frame s1 s2"
    unfolding s2_def
    by (rule status_frame_trans [OF status_up_ok(2) [OF s1(2)]
      status_frame_trans [OF status_click_ok(2) [OF status_up_ok(1) [OF s1(2)]] status_frame_upd(1)]])
  obtain s3 where s3: "bit_loop (down_body time cd) 0 dn s2 = Some s3" "machine_ok s3 (old AND NOT up OR dn)" "status_frame s2 s3"
    using down_loop_ok [OF s2, of dn time cd] by (auto simp: dn_def bit_and_iff bit_not_iff possible_bit_def)
  have cd: "old AND NOT up OR dn = cd"
    by (intro bit_word_eqI) (auto simp: dn_def up_def bit_and_iff bit_or_iff bit_not_iff possible_bit_def)
  define s4 where "s4 = status_long time cd (status_down dn s3)"
  have m3: "machine_ok s3 cd" using s3(2) cd by simp
  then have "machine_ok s4 cd" unfolding s4_def by (intro status_long_ok(1) status_down_ok(1))
  moreover have "status_frame s s4"
    unfolding s4_def
    by (intro status_frame_trans [OF status_frame_trans [OF status_frame_trans [OF s1(3) f2] s3(3)]]
      status_frame_trans [OF status_down_ok(2) [OF m3] status_long_ok(2) [OF status_down_ok(1) [OF m3]]])
  moreover have "status_tick time cd s = Some s4"
    using s1(1) s3(1) by (simp add: status_tick_def old_def up_def dn_def s2_def s4_def)
  ultimately show ?thesis by blast
qed

text \<open>The recorded state of the keys follows.\<close>

lemma status_tick_code_down:
  assumes "status_tick time cd s = Some s'"
  shows "ks_code_down (key_status s') = cd"
proof -
  have keep: "ks_code_down (key_status x') = ks_code_down (key_status x)"
    if "bit_loop (down_body time cd) 0 m x = Some x'" for m x x'
  proof -
    have "\<exists>y. bit_loop (down_body time cd) 0 m x = Some y \<and> ks_code_down (key_status y) = ks_code_down (key_status x)"
      by (rule bit_loop_inv [where P = "\<lambda>_ y. ks_code_down (key_status y) = ks_code_down (key_status x)"])
        (auto simp: down_body_def Let_def)
    with that show ?thesis by simp
  qed
  have "ks_code_down (key_status (status_long time cd x)) = ks_code_down (key_status x)"
    "ks_code_down (key_status (status_down dn x)) = ks_code_down (key_status x)" for dn x
    by (simp_all add: status_long_def status_down_def Let_def)
  with assms keep show ?thesis
    by (auto simp: status_tick_def Let_def Option.bind_eq_Some_conv)
qed

end
