(* ===== verification/Key_Safety.thy ===== *)
theory Key_Safety
  imports Key_Status
begin

text \<open>
  The key driver as a whole: its invariant, every entry point, and the states it can reach from
  \<open>hal_key_open\<close> on, with the interrupts of the pins, the power key and the ADC and the ticks of the
  debounce timer in any order.
\<close>

section \<open>The invariant\<close>

text \<open>Something that only the debounce timer can bring forward.\<close>

definition key_waiting :: "key_cfg \<Rightarrow> hal_key \<Rightarrow> bool" where
  "key_waiting cfg s \<longleftrightarrow> pwr_tracked s \<or> CFG_HW_ADCKEY_NUMBER cfg > 0 \<and> adc_tracked s \<and> \<not> adc_channel s \<or>
     gk_pin_dither (gpio_key s) \<noteq> 0 \<or> gk_pin_down (gpio_key s) \<noteq> 0 \<or> gk_pin_debounce (gpio_key s) \<noteq> 0 \<or>
     ks_event (key_status s) \<noteq> HAL_KEY_EVENT_NONE"

definition key_core_ok :: "key_cfg \<Rightarrow> hal_key \<Rightarrow> bool" where
  "key_core_ok cfg s \<longleftrightarrow> pwr_ok s \<and> gpio_ok cfg s \<and>
     (CFG_HW_ADCKEY_NUMBER cfg > 0 \<longrightarrow> adc_ok s) \<and>
     (CFG_HW_ADCKEY_NUMBER cfg = 0 \<longrightarrow> adc_irq s = HAL_ADCKEY_IRQ_NONE \<and> \<not> adc_channel s) \<and>
     machine_ok s (ks_code_down (key_status s))"

definition key_inv :: "key_cfg \<Rightarrow> hal_key \<Rightarrow> bool" where
  "key_inv cfg s \<longleftrightarrow> key_core_ok cfg s \<and> timer_part_ok s \<and> (key_waiting cfg s \<longrightarrow> timer_active s)"

text \<open>The invariant does not look at the parts the timer service owns, nor the other way round.\<close>

lemma core_timer [simp]:
  "key_core_ok cfg (s\<lparr>timer_active := a, hk_timers := h\<rparr>) = key_core_ok cfg s"
  "key_core_ok cfg (s\<lparr>timer_active := a\<rparr>) = key_core_ok cfg s"
  "key_core_ok cfg (s\<lparr>hk_timers := h\<rparr>) = key_core_ok cfg s"
  "key_waiting cfg (s\<lparr>timer_active := a, hk_timers := h\<rparr>) = key_waiting cfg s"
  "key_waiting cfg (s\<lparr>timer_active := a\<rparr>) = key_waiting cfg s"
  "key_waiting cfg (s\<lparr>hk_timers := h\<rparr>) = key_waiting cfg s"
  by (simp_all add: key_core_ok_def key_waiting_def pwr_ok_def pwr_tracked_def adc_ok_def adc_tracked_def
    gpio_ok_def pin_places_def machine_ok_def status_ok_def reports_ok_def reports_replay_def)

lemma restart_inv:
  assumes "key_core_ok cfg s" "timer_part_ok s"
  shows "\<exists>s'. hal_key_debounce_timer_restart s = Some s' \<and> key_inv cfg s'"
  using debounce_restart_ok [OF assms(2)] assms(1) by (auto simp: key_inv_def)

lemma timer_part_cong:
  "timer_part_ok s \<Longrightarrow> hk_timers s' = hk_timers s \<Longrightarrow> debounce_timer s' = debounce_timer s \<Longrightarrow>
   timer_active s' = timer_active s \<Longrightarrow> timer_part_ok s'"
  by (simp add: timer_part_ok_def)

section \<open>The interrupts\<close>

lemma pwrkey_irq_ok:
  assumes "key_inv cfg s" "pwr_irq s = HAL_PWRKEY_IRQ_FALLING_EDGE" "state AND PWRKEY_FALLING \<noteq> 0"
  shows "\<exists>s'. hal_pwrkey_handle_irq_state env state s = Some s' \<and> key_inv cfg s'"
proof -
  define s1 where "s1 = s\<lparr>pwr_irq := HAL_PWRKEY_IRQ_NONE, pwr_key := (pwr_key s)\<lparr>pk_pressed := hal_pwrkey_pressed env,
    pk_debounce := hal_pwrkey_pressed env \<or> pk_debounce (pwr_key s), pk_dither := \<not> hal_pwrkey_pressed env \<or> pk_dither (pwr_key s)\<rparr>\<rparr>"
  have idle: "\<not> pwr_tracked s" using assms(1,2) by (simp add: key_inv_def key_core_ok_def pwr_ok_def)
  have "hal_pwrkey_handle_irq_state env state s = hal_key_debounce_timer_restart s1"
    using assms(3) idle by (cases s; cases "pwr_key s")
      (auto simp: hal_pwrkey_handle_irq_state_def Let_def key_simps s1_def pwr_tracked_def)
  moreover have "key_core_ok cfg s1" using assms(1)
    by (auto simp: s1_def key_inv_def key_core_ok_def pwr_ok_def pwr_tracked_def adc_ok_def adc_tracked_def gpio_ok_def
      pin_places_def machine_ok_def status_ok_def reports_ok_def reports_replay_def)
  moreover have "timer_part_ok s1" using assms(1) by (auto simp: s1_def key_inv_def elim: timer_part_cong)
  ultimately show ?thesis using restart_inv by simp
qed

lemma core_adc:
  assumes "key_core_ok cfg s" "CFG_HW_ADCKEY_NUMBER cfg > 0" "adc_ok (s\<lparr>adc_key := k, adc_irq := i, adc_channel := c\<rparr>)"
  shows "key_core_ok cfg (s\<lparr>adc_key := k, adc_irq := i, adc_channel := c\<rparr>)"
  using assms by (simp add: key_core_ok_def pwr_ok_def pwr_tracked_def gpio_ok_def pin_places_def machine_ok_def
    status_ok_def reports_ok_def reports_replay_def)

text \<open>The ADC interrupt: a press is reported while the press interrupt is armed, a conversion while the channel is open.\<close>

definition adc_irq_due :: "hal_key \<Rightarrow> u32 \<Rightarrow> bool" where
  "adc_irq_due s status \<longleftrightarrow> adc_channel s \<or> adc_irq s = HAL_ADCKEY_IRQ_PRESSED \<and>
     (status AND (HAL_ADCKEY_ERR0 OR HAL_ADCKEY_ERR1) \<noteq> 0 \<or> status AND HAL_ADCKEY_PRESSED \<noteq> 0)"

lemma adckey_irq_ok:
  assumes "key_inv cfg s" "CFG_HW_ADCKEY_NUMBER cfg > 0" "adc_irq_due s status"
  shows "\<exists>s'. hal_adckey_irqhandler cfg env status val s = Some s' \<and> key_inv cfg s'"
proof -
  have core: "key_core_ok cfg s" "timer_part_ok s" using assms(1) by (simp_all add: key_inv_def)
  have adc: "adc_ok s" using core assms(2) by (simp add: key_core_ok_def)
  define s1 where "s1 k = s\<lparr>adc_key := k, adc_irq := HAL_ADCKEY_IRQ_NONE, adc_channel := False\<rparr>" for k
  have restart: "\<exists>s'. hal_key_debounce_timer_restart (s1 k) = Some s' \<and> key_inv cfg s'"
    if "ak_debounce k \<or> ak_dither k \<or> ak_code_down k \<noteq> 0" for k
    using that core assms(2) unfolding s1_def
    by (intro restart_inv core_adc) (auto simp: adc_ok_def adc_tracked_def elim: timer_part_cong)
  note defs = hal_adckey_irqhandler_def Let_def key_simps
  have swap: "s\<lparr>adc_channel := False, adc_irq := HAL_ADCKEY_IRQ_NONE, adc_key := k\<rparr> = s1 k"
    "s\<lparr>adc_channel := False, adc_irq := HAL_ADCKEY_IRQ_NONE\<rparr> = s1 (adc_key s)"
    "(s1 k)\<lparr>adc_key := k'\<rparr> = s1 k'" "adc_key (s1 k) = k" for k k'
    by (cases s; simp add: s1_def)+
  consider (err) "status AND (HAL_ADCKEY_ERR0 OR HAL_ADCKEY_ERR1) \<noteq> 0"
    | (press) "status AND (HAL_ADCKEY_ERR0 OR HAL_ADCKEY_ERR1) = 0" "status AND HAL_ADCKEY_PRESSED \<noteq> 0"
    | (other) "status AND (HAL_ADCKEY_ERR0 OR HAL_ADCKEY_ERR1) = 0" "status AND HAL_ADCKEY_PRESSED = 0" by blast
  then show ?thesis
  proof cases
    case err
    then show ?thesis using restart [of "(adc_key s)\<lparr>ak_debounce := True, ak_code_debounce := 0\<rparr>"]
      by (simp add: defs swap)
  next
    case press
    define k where "k = (adc_key s)\<lparr>ak_debounce := True, ak_code_debounce := 0, ak_time := hal_sys_timer_get env\<rparr>"
    define s2 where "s2 = s\<lparr>adc_key := k, adc_irq := HAL_ADCKEY_IRQ_NONE, adc_channel := True\<rparr>"
    have "hal_adckey_irqhandler cfg env status val s = Some s2"
      using press by (cases s) (simp add: defs k_def s2_def)
    moreover have "key_core_ok cfg s2"
      unfolding s2_def using core assms(2) by (intro core_adc) (auto simp: adc_ok_def adc_tracked_def k_def)
    moreover have "timer_part_ok s2" using core by (auto simp: s2_def elim: timer_part_cong)
    moreover have "key_waiting cfg s2 \<Longrightarrow> timer_active s2"
      using assms(1) by (auto simp: key_inv_def key_waiting_def s2_def pwr_tracked_def)
    ultimately show ?thesis by (auto simp: key_inv_def)
  next
    case other
    have "adc_channel s" using assms(3) other by (simp add: adc_irq_due_def)
    then have t: "ak_debounce (adc_key s) \<or> ak_dither (adc_key s) \<or> ak_code_down (adc_key s) \<noteq> 0"
      using adc by (simp add: adc_ok_def adc_tracked_def)
    define c where "c = (if status AND HAL_ADCKEY_RELEASED \<noteq> 0 then 0
      else if status AND HAL_ADCKEY_ADC_VALID = 0 then ak_code_debounce (adc_key s)
      else if ak_code_debounce (adc_key s) = 0 then hal_adckey_findkey cfg val (s1 (adc_key s))
      else if ak_code_debounce (adc_key s) \<noteq> hal_adckey_findkey cfg val (s1 (adc_key s)) then 0
      else ak_code_debounce (adc_key s))"
    have "hal_adckey_irqhandler cfg env status val s =
        hal_key_debounce_timer_restart (s1 ((adc_key s)\<lparr>ak_code_debounce := c\<rparr>))"
      using other by (cases "adc_key s") (simp add: defs swap c_def)
    then show ?thesis using restart [of "(adc_key s)\<lparr>ak_code_debounce := c\<rparr>"] t by simp
  qed
qed

lemma core_gpio:
  assumes "key_core_ok cfg s" "gpio_frame s s'" "gpio_ok cfg s'"
  shows "key_core_ok cfg s'"
proof -
  have "s' = s\<lparr>gpio_key := gpio_key s', gpio_irq := gpio_irq s'\<rparr>" using assms(2) by (simp add: gpio_frame_def)
  then obtain k i where s': "s' = s\<lparr>gpio_key := k, gpio_irq := i\<rparr>" by blast
  show ?thesis
    using assms(1,3) unfolding s'
    by (simp add: key_core_ok_def pwr_ok_def pwr_tracked_def adc_ok_def adc_tracked_def machine_ok_def status_ok_def
      reports_ok_def reports_replay_def)
qed

lemma timer_gpio: "timer_part_ok s \<Longrightarrow> gpio_frame s s' \<Longrightarrow> timer_part_ok s'"
  unfolding gpio_frame_def by (erule ssubst, erule timer_part_cong) simp_all

lemma only_irq:
  assumes "gpio_ok cfg s" "gpio_irq s p \<noteq> None"
  shows "p \<in> key_pins cfg" "\<not> bit (gk_pin_debounce (gpio_key s)) p" "\<not> bit (gk_pin_dither (gpio_key s)) p"
    "\<not> bit (gk_pin_down (gpio_key s)) p"
proof -
  have "pin_places s p \<le> 1" "pin_places s p = of_bool (p \<in> key_pins cfg)" using assms(1) by (simp_all add: gpio_ok_def)
  then show "p \<in> key_pins cfg" "\<not> bit (gk_pin_debounce (gpio_key s)) p" "\<not> bit (gk_pin_dither (gpio_key s)) p"
    "\<not> bit (gk_pin_down (gpio_key s)) p"
    using assms(2) by (simp_all add: pin_places_def of_bool_def split: if_splits)
qed

lemma gpiokey_irq_ok:
  assumes "key_inv cfg s" "key_cfg_ok cfg" "gpio_irq s p \<noteq> None"
  shows "\<exists>s'. hal_gpiokey_irqhandler cfg env p s = Some s' \<and> key_inv cfg s'"
proof -
  have core: "key_core_ok cfg s" "timer_part_ok s" "gpio_ok cfg s" using assms(1) by (simp_all add: key_inv_def key_core_ok_def)
  note only = only_irq [OF core(3) assms(3)]
  have p: "p < 32" using only(1) assms(2) by (auto simp: key_pins_def key_cfg_ok_def)
  obtain i where i: "hal_gpiokey_find_index cfg p = Some i" using find_index_ok [OF only(1)] by blast
  define pressed where "pressed = (hal_gpio_pin_get_val env p = key_down (cfg_hw_gpio_key_cfg cfg ! i))"
  define s1 where "s1 = hal_gpiokey_disable_irq p s"
  define s2 where "s2 = (if pressed
    then upd_gpio (\<lambda>k. k\<lparr>gk_pin_debounce := gk_pin_debounce k OR 2 ^ p, gk_time_debounce := hal_sys_timer_get env\<rparr>) s1
    else upd_gpio (\<lambda>k. k\<lparr>gk_pin_dither := gk_pin_dither k OR 2 ^ p, gk_time_dither := hal_sys_timer_get env\<rparr>) s1)"
  have fr: "gpio_frame s s2"
    using gpio_frame_trans [OF gpio_frame_upd(3) gpio_frame_upd(1)] by (simp add: s2_def s1_def)
  have b: "bit (gk_pin_debounce (gpio_key s2)) j \<longleftrightarrow> bit (gk_pin_debounce (gpio_key s)) j \<or> pressed \<and> j = p"
    "bit (gk_pin_dither (gpio_key s2)) j \<longleftrightarrow> bit (gk_pin_dither (gpio_key s)) j \<or> \<not> pressed \<and> j = p"
    "gk_pin_down (gpio_key s2) = gk_pin_down (gpio_key s)" "gpio_irq s2 = (gpio_irq s)(p := None)" for j
    using p by (simp_all add: s2_def s1_def key_simps)
  have "pin_places s2 q = pin_places s q" for q
    using only assms(3) by (cases "q = p"; cases pressed) (simp_all add: pin_places_def b)
  then have "gpio_ok cfg s2" using core(3) by (simp add: gpio_ok_def)
  then have "key_core_ok cfg s2" using core_gpio [OF core(1) fr] by simp
  moreover have "hal_gpiokey_irqhandler cfg env p s = hal_key_debounce_timer_restart s2"
    using i by (simp add: hal_gpiokey_irqhandler_def hal_gpiokey_pressed_def s2_def s1_def pressed_def)
  ultimately show ?thesis using restart_inv timer_gpio [OF core(2) fr] by simp
qed

section \<open>The tick\<close>

lemma core_pwr:
  assumes "key_core_ok cfg s" "pwr_ok (s\<lparr>pwr_key := k, pwr_irq := i\<rparr>)"
  shows "key_core_ok cfg (s\<lparr>pwr_key := k, pwr_irq := i\<rparr>)"
  using assms by (simp add: key_core_ok_def adc_ok_def adc_tracked_def gpio_ok_def pin_places_def machine_ok_def
    status_ok_def reports_ok_def reports_replay_def)

lemma core_status:
  assumes "key_core_ok cfg s" "status_frame s s'" "machine_ok s' (ks_code_down (key_status s'))"
  shows "key_core_ok cfg s'"
proof -
  have "s' = s\<lparr>key_events := key_events s', key_status := key_status s'\<rparr>" using assms(2) by (simp add: status_frame_def)
  then obtain e k where s': "s' = s\<lparr>key_events := e, key_status := k\<rparr>" by blast
  show ?thesis
    using assms(1,3) unfolding s'
    by (simp add: key_core_ok_def pwr_ok_def pwr_tracked_def adc_ok_def adc_tracked_def gpio_ok_def pin_places_def)
qed

lemma timer_status: "timer_part_ok s \<Longrightarrow> status_frame s s' \<Longrightarrow> timer_part_ok s'"
  unfolding status_frame_def by (erule ssubst, erule timer_part_cong) simp_all

lemma gpio_frame_fields:
  assumes "gpio_frame s s'"
  shows "pwr_key s' = pwr_key s" "adc_key s' = adc_key s"
proof -
  from assms obtain k i where "s' = s\<lparr>gpio_key := k, gpio_irq := i\<rparr>" unfolding gpio_frame_def by blast
  then show "pwr_key s' = pwr_key s" "adc_key s' = adc_key s" by simp_all
qed

lemma status_frame_fields:
  assumes "status_frame s s'"
  shows "pwr_key s' = pwr_key s" "adc_key s' = adc_key s" "gpio_key s' = gpio_key s"
proof -
  from assms obtain e k where "s' = s\<lparr>key_events := e, key_status := k\<rparr>" unfolding status_frame_def by blast
  then show "pwr_key s' = pwr_key s" "adc_key s' = adc_key s" "gpio_key s' = gpio_key s" by simp_all
qed

lemma debounce_handler_ok:
  assumes "key_core_ok cfg s" "timer_part_ok (s\<lparr>timer_active := False\<rparr>)"
    "CFG_HW_ADCKEY_NUMBER cfg > 0 \<longrightarrow> \<not> adc_channel s"
  shows "\<exists>s'. hal_key_debounce_handler cfg env s = Some s' \<and> key_inv cfg s'"
proof -
  define s0 where "s0 = s\<lparr>timer_active := False\<rparr>"
  have core0: "key_core_ok cfg s0" "timer_part_ok s0" using assms by (simp_all add: s0_def)
  obtain cd1 s1 where pw: "debounce_pwr env s0 = (cd1, s1)" by (cases "debounce_pwr env s0")
  obtain k i where s1: "s1 = s0\<lparr>pwr_key := k, pwr_irq := i\<rparr>" "pwr_ok s1"
    using debounce_pwr_ok [of s0 env] core0(1) pw by (auto simp: key_core_ok_def)
  have core1: "key_core_ok cfg s1" using core_pwr [OF core0(1)] s1 by simp
  have time1: "timer_part_ok s1" using core0(2) unfolding s1(1) by (rule timer_part_cong) simp_all
  have ch1: "adc_channel s1 = adc_channel s" by (simp add: s1(1) s0_def)
  obtain cd2 s2 where ad: "(if CFG_HW_ADCKEY_NUMBER cfg > 0 then debounce_adc env (cd1, s1) else (cd1, s1)) = (cd2, s2)"
    by (cases "if CFG_HW_ADCKEY_NUMBER cfg > 0 then debounce_adc env (cd1, s1) else (cd1, s1)")
  have core2: "key_core_ok cfg s2 \<and> timer_part_ok s2 \<and> pwr_key s2 = pwr_key s1"
  proof (cases "CFG_HW_ADCKEY_NUMBER cfg > 0")
    case True
    then have "adc_ok s1" "\<not> adc_channel s1" using core1 ch1 assms(3) by (simp_all add: key_core_ok_def)
    from debounce_adc_ok [OF this, of env cd1] ad True obtain k' i' c' where
      s2: "s2 = s1\<lparr>adc_key := k', adc_irq := i', adc_channel := c'\<rparr>" "adc_ok s2" by auto
    then have "key_core_ok cfg s2" using core_adc [OF core1 True] by simp
    moreover have "timer_part_ok s2" using time1 unfolding s2(1) by (rule timer_part_cong) simp_all
    ultimately show ?thesis by (simp add: s2(1))
  qed (use ad core1 time1 in simp)
  obtain cd3 s3 where gp: "debounce_gpio cfg env (cd2, s2) = Some (cd3, s3)" "gpio_ok cfg s3" "gpio_frame s2 s3"
    using debounce_gpio_ok [of cfg s2 env cd2] core2 by (auto simp: key_core_ok_def)
  have core3: "key_core_ok cfg s3" "timer_part_ok s3"
    using core_gpio [OF _ gp(3,2)] timer_gpio [OF _ gp(3)] core2 by blast+
  obtain s4 where st: "status_tick (hal_sys_timer_get env) cd3 s3 = Some s4" "machine_ok s4 cd3" "status_frame s3 s4"
    using status_tick_ok [of s3 "hal_sys_timer_get env" cd3] core3(1) by (auto simp: key_core_ok_def)
  have core4: "key_core_ok cfg s4" "timer_part_ok s4"
    using core_status [OF core3(1) st(3)] timer_status [OF core3(2) st(3)] st(2) status_tick_code_down [OF st(1)]
    by simp_all
  have same: "pwr_key s4 = pwr_key s1" "adc_key s4 = adc_key s2" "gpio_key s4 = gpio_key s3"
    using status_frame_fields [OF st(3)] gpio_frame_fields [OF gp(3)] core2 by simp_all
  define need where "need \<longleftrightarrow> (pk_debounce (pwr_key s1) \<or> pk_dither (pwr_key s1) \<or> pk_pressed (pwr_key s1)) \<or>
    (CFG_HW_ADCKEY_NUMBER cfg > 0 \<and> (ak_debounce (adc_key s2) \<or> ak_dither (adc_key s2) \<or> ak_code_down (adc_key s2) \<noteq> HAL_KEY_CODE_NONE)) \<or>
    (gk_pin_dither (gpio_key s3) \<noteq> 0 \<or> gk_pin_down (gpio_key s3) \<noteq> 0 \<or> gk_pin_debounce (gpio_key s3) \<noteq> 0) \<or>
    ks_event (key_status s4) \<noteq> HAL_KEY_EVENT_NONE"
  have run: "hal_key_debounce_handler cfg env s = (if need then hal_key_debounce_timer_restart s4 else Some s4)"
    unfolding hal_key_debounce_handler_def Let_def s0_def [symmetric] pw prod.case ad gp(1) bind.bind_lunit st(1) need_def
    by (simp only: disj_assoc)
  show ?thesis
  proof (cases need)
    case True
    with run restart_inv [OF core4] show ?thesis by simp
  next
    case False
    then have "\<not> key_waiting cfg s4"
      by (auto simp: need_def key_waiting_def pwr_tracked_def adc_tracked_def same)
    with run False core4 show ?thesis by (simp add: key_inv_def)
  qed
qed

section \<open>Opening and closing\<close>

lemma enable_allint_fold:
  "fold (\<lambda>k s. if key_code k = HAL_KEY_CODE_NONE then s
      else hal_gpiokey_enable_irq (key_pin k) (polarity_of k) s) ks s = s\<lparr>gpio_irq := i\<rparr> \<Longrightarrow>
   (i p \<noteq> None) = (gpio_irq s p \<noteq> None \<or> (\<exists>k \<in> set ks. key_pin k = p \<and> key_code k \<noteq> HAL_KEY_CODE_NONE))"
proof (induction ks arbitrary: s)
  case Nil
  then have "i = gpio_irq s" by (cases s) simp
  then show ?case by simp
next
  case (Cons k ks)
  show ?case
  proof (cases "key_code k = HAL_KEY_CODE_NONE")
    case True
    with Cons.IH [of s] Cons.prems show ?thesis by auto
  next
    case False
    define s1 where "s1 = hal_gpiokey_enable_irq (key_pin k) (polarity_of k) s"
    have "s\<lparr>gpio_irq := i\<rparr> = s1\<lparr>gpio_irq := i\<rparr>" by (simp add: s1_def key_simps)
    with Cons.IH [of s1] Cons.prems False have
      "(i p \<noteq> None) = (gpio_irq s1 p \<noteq> None \<or> (\<exists>k \<in> set ks. key_pin k = p \<and> key_code k \<noteq> HAL_KEY_CODE_NONE))"
      by (simp add: s1_def)
    with False show ?thesis by (auto simp: s1_def key_simps)
  qed
qed

lemma enable_allint_frame:
  "\<exists>i. hal_gpiokey_enable_allint cfg s = s\<lparr>gpio_irq := i\<rparr>"
proof -
  have "\<exists>i. fold (\<lambda>k s. if key_code k = HAL_KEY_CODE_NONE then s
      else hal_gpiokey_enable_irq (key_pin k) (polarity_of k) s) ks s = s\<lparr>gpio_irq := i\<rparr>" for ks
  proof (induction ks arbitrary: s)
    case Nil
    have "s = s\<lparr>gpio_irq := gpio_irq s\<rparr>" by simp
    then show ?case by (metis fold_simps(1))
  next
    case (Cons k ks)
    show ?case
      using Cons.IH [of s] Cons.IH [of "hal_gpiokey_enable_irq (key_pin k) (polarity_of k) s"]
      by (auto simp: key_simps)
  qed
  then show ?thesis by (simp add: hal_gpiokey_enable_allint_def)
qed

lemma enable_allint_ok:
  obtains i where "hal_gpiokey_enable_allint cfg s = s\<lparr>gpio_irq := i\<rparr>"
    "\<And>p. (i p \<noteq> None) = (gpio_irq s p \<noteq> None \<or> p \<in> key_pins cfg)"
proof -
  obtain i where i: "hal_gpiokey_enable_allint cfg s = s\<lparr>gpio_irq := i\<rparr>" using enable_allint_frame by blast
  from enable_allint_fold [OF this [unfolded hal_gpiokey_enable_allint_def]]
  have "(i p \<noteq> None) = (gpio_irq s p \<noteq> None \<or> p \<in> key_pins cfg)" for p by (auto simp: key_pins_def)
  with i that show ?thesis by blast
qed

lemma disable_allint_ok:
  obtains i where "hal_gpiokey_disable_allint cfg s = s\<lparr>gpio_irq := i\<rparr>"
    "\<And>p. (i p \<noteq> None) = (gpio_irq s p \<noteq> None \<and> p \<notin> key_pins cfg)"
proof -
  have "\<exists>i. fold (\<lambda>k s. if key_code k = HAL_KEY_CODE_NONE then s
        else hal_gpiokey_disable_irq (key_pin k) s) ks s = s\<lparr>gpio_irq := i\<rparr> \<and>
      (\<forall>p. (i p \<noteq> None) = (gpio_irq s p \<noteq> None \<and> (\<forall>k \<in> set ks. key_pin k = p \<longrightarrow> key_code k = HAL_KEY_CODE_NONE)))" for ks
  proof (induction ks arbitrary: s)
    case Nil
    show ?case by (intro exI [of _ "gpio_irq s"]) simp
  next
    case (Cons k ks)
    define s1 where "s1 = (if key_code k = HAL_KEY_CODE_NONE then s else hal_gpiokey_disable_irq (key_pin k) s)"
    have upd: "s1\<lparr>gpio_irq := i\<rparr> = s\<lparr>gpio_irq := i\<rparr>" for i by (simp add: s1_def key_simps)
    obtain i where i: "fold (\<lambda>k s. if key_code k = HAL_KEY_CODE_NONE then s
        else hal_gpiokey_disable_irq (key_pin k) s) ks s1 = s\<lparr>gpio_irq := i\<rparr>"
      "\<And>p. (i p \<noteq> None) = (gpio_irq s1 p \<noteq> None \<and> (\<forall>k \<in> set ks. key_pin k = p \<longrightarrow> key_code k = HAL_KEY_CODE_NONE))"
      using Cons.IH [of s1] unfolding upd by blast
    have "(gpio_irq s1 p \<noteq> None) = (gpio_irq s p \<noteq> None \<and> (key_pin k = p \<longrightarrow> key_code k = HAL_KEY_CODE_NONE))" for p
      by (auto simp: s1_def key_simps)
    with i show ?case by (intro exI [of _ i]) (auto simp: s1_def)
  qed
  then obtain i where "hal_gpiokey_disable_allint cfg s = s\<lparr>gpio_irq := i\<rparr>"
    "\<forall>p. (i p \<noteq> None) = (gpio_irq s p \<noteq> None \<and>
      (\<forall>k \<in> set (cfg_hw_gpio_key_cfg cfg). key_pin k = p \<longrightarrow> key_code k = HAL_KEY_CODE_NONE))"
    unfolding hal_gpiokey_disable_allint_def by blast
  moreover from this(2) have "(i p \<noteq> None) = (gpio_irq s p \<noteq> None \<and> p \<notin> key_pins cfg)" for p
    by (auto simp: key_pins_def)
  ultimately show ?thesis using that [of i] by blast
qed

text \<open>The state before \<open>hal_key_open\<close>, at boot and after \<open>hal_key_close\<close>.\<close>

definition key_closed :: "hal_key \<Rightarrow> bool" where
  "key_closed s \<longleftrightarrow> timers_ok (hk_timers s) \<and> \<not> timer_active s \<and> debounce_timer s = None \<and>
     adc_irq s = HAL_ADCKEY_IRQ_NONE \<and> \<not> adc_channel s \<and> pwr_irq s = HAL_PWRKEY_IRQ_NONE \<and> (\<forall>p. gpio_irq s p = None)"

lemma alloc_timers_ok:
  assumes "timers_ok h" "hwtimer_alloc c p h = Some (Some t, h')"
  shows "timers_ok h' \<and> timer_in_use h' t"
proof -
  obtain fs as es where rep: "ht_rep h fs as es" and now: "timely h"
    using assms(1) by (auto simp: timers_ok_def ht_inv_def)
  show ?thesis
  proof (cases fs)
    case Nil
    with rep assms(2) hwtimer_alloc_none show ?thesis by fastforce
  next
    case (Cons f fs')
    then have "t = f" "ht_rep h' fs' as es" "t < 10" "tm_state (ht_timer h' t) = HWTIMER_STATE_ALLOC"
      using hwtimer_alloc_ok [of h f fs' as es c p] rep assms(2) by auto
    with clock_kept_timely [OF clock_kept_alloc [OF assms(2)] now] show ?thesis
      by (auto simp: timers_ok_def ht_inv_def timer_in_use_def)
  qed
qed

definition opened :: "key_cfg \<Rightarrow> bool \<Rightarrow> nat option \<Rightarrow> hwtimers \<Rightarrow> hal_key \<Rightarrow> hal_key" where
  "opened cfg cb t h s = s\<lparr>key_detected_callback := cb, key_status := status_zero,
     pwr_key := \<lparr>pk_debounce = False, pk_dither = False, pk_pressed = False, pk_time = 0\<rparr>,
     adc_key := (if CFG_HW_ADCKEY_NUMBER cfg > 0 then adc_key (hal_adckey_reset s) else adc_key s),
     adckey_volt_table := (if CFG_HW_ADCKEY_NUMBER cfg > 0 then adckey_volt_table (hal_adckey_open cfg s) else adckey_volt_table s),
     gpio_key := gpio_key (hal_gpiokey_reset s), debounce_timer := t, hk_timers := h,
     pwr_irq := HAL_PWRKEY_IRQ_FALLING_EDGE,
     adc_irq := (if CFG_HW_ADCKEY_NUMBER cfg > 0 then HAL_ADCKEY_IRQ_PRESSED else adc_irq s)\<rparr>"

lemma open_steps:
  "hal_key_open cfg cb s = do {
     (t, h) \<leftarrow> hwtimer_alloc (Some 0) 0 (hk_timers s);
     check (t \<noteq> None);
     Some (0, hal_gpiokey_enable_allint cfg (opened cfg cb t h s)) }"
proof -
  have t: "debounce_timer (hal_gpiokey_enable_allint cfg x) = debounce_timer x" for x
    using enable_allint_frame [of cfg x] by auto
  show ?thesis
    by (cases s; cases "CFG_HW_ADCKEY_NUMBER cfg > 0")
      (simp_all add: hal_key_open_def hal_key_enable_allint_def hal_pwrkey_open_def hal_adckey_open_def
        hal_gpiokey_open_def key_simps Let_def opened_def t)
qed

lemma open_ok:
  assumes "key_closed s" "key_events s = []" "hal_key_open cfg cb s = Some (r, s')"
  shows "key_inv cfg s'"
proof -
  obtain t h where t: "hwtimer_alloc (Some 0) 0 (hk_timers s) = Some (Some t, h)"
    and s': "s' = hal_gpiokey_enable_allint cfg (opened cfg cb (Some t) h s)"
    using assms(3) by (auto simp: open_steps Option.bind_eq_Some_conv)
  have tm: "timers_ok h" "timer_in_use h t"
    using alloc_timers_ok [OF _ t] assms(1) by (auto simp: key_closed_def)
  obtain i where i: "s' = (opened cfg cb (Some t) h s)\<lparr>gpio_irq := i\<rparr>"
    "\<And>p. (i p \<noteq> None) = (gpio_irq (opened cfg cb (Some t) h s) p \<noteq> None \<or> p \<in> key_pins cfg)"
    using enable_allint_ok s' by metis
  then have irq: "(i p \<noteq> None) = (p \<in> key_pins cfg)" for p
    using assms(1) by (simp add: opened_def key_closed_def)
  have "gpio_ok cfg s'" unfolding gpio_ok_def pin_places_def using irq
    by (simp add: i(1) opened_def hal_gpiokey_reset_def)
  moreover have "machine_ok s' (ks_code_down (key_status s'))"
    using assms(2) by (simp add: i(1) opened_def machine_ok_def status_ok_def reports_ok_def reports_replay_def
      status_zero_def key_event_defs)
  moreover have "pwr_ok s'" "CFG_HW_ADCKEY_NUMBER cfg > 0 \<longrightarrow> adc_ok s'"
    "CFG_HW_ADCKEY_NUMBER cfg = 0 \<longrightarrow> adc_irq s' = HAL_ADCKEY_IRQ_NONE \<and> \<not> adc_channel s'"
    using assms(1) by (simp_all add: i(1) opened_def pwr_ok_def pwr_tracked_def adc_ok_def adc_tracked_def
      hal_adckey_reset_def key_closed_def)
  moreover have "timer_part_ok s'"
    using tm assms(1) by (simp add: i(1) opened_def timer_part_ok_def key_closed_def)
  moreover have "\<not> key_waiting cfg s'"
    by (simp add: i(1) opened_def key_waiting_def pwr_tracked_def adc_tracked_def hal_adckey_reset_def
      hal_gpiokey_reset_def status_zero_def key_event_defs)
  ultimately show ?thesis by (simp add: key_inv_def key_core_ok_def)
qed

lemma stop_alloc:
  assumes "hwtimer_stop t h = Some (r, h')" "timer_in_use h t" "tm_state (ht_timer h t) \<noteq> HWTIMER_STATE_CALLBACK"
  shows "tm_state (ht_timer h' t) = HWTIMER_STATE_ALLOC"
  using assms
  by (auto simp: hwtimer_stop_def timer_in_use_def HWTIMER_NUM_def Let_def
    Option.bind_eq_Some_conv split: hwtimer_state.splits option.splits if_splits)

lemma free_timers_ok:
  assumes "timers_ok h" "t < 10" "tm_state (ht_timer h t) = HWTIMER_STATE_ALLOC"
  shows "timers_ok (snd (hwtimer_free t h))" "tm_state (ht_timer (snd (hwtimer_free t h)) t) = HWTIMER_STATE_FREE"
proof -
  obtain fs as es where rep: "ht_rep h fs as es" and now: "timely h"
    using assms(1) by (auto simp: timers_ok_def ht_inv_def)
  obtain h' where h': "hwtimer_free t h = (E_HWTIMER_OK, h')" "ht_rep h' (t # fs) as es"
    using hwtimer_free_ok [OF rep assms(2,3)] by blast
  have "timely h'" using clock_kept_timely [OF clock_kept_free [OF h'(1)] now] .
  with h' show "timers_ok (snd (hwtimer_free t h))" by (auto simp: timers_ok_def ht_inv_def)
  show "tm_state (ht_timer (snd (hwtimer_free t h)) t) = HWTIMER_STATE_FREE"
    using assms(2,3) by (simp add: hwtimer_free_def HWTIMER_NUM_def)
qed

lemma close_ok:
  assumes "key_inv cfg s" "debounce_timer s = Some t" "tm_state (ht_timer (hk_timers s) t) \<noteq> HWTIMER_STATE_CALLBACK"
  shows "\<exists>s'. hal_key_close cfg s = Some (0, s') \<and> key_closed s' \<and> \<not> key_detected_callback s' \<and>
    tm_state (ht_timer (hk_timers s') t) = HWTIMER_STATE_FREE \<and>
    key_events s' = key_events s"
proof -
  have tp: "timers_ok (hk_timers s)" "timer_in_use (hk_timers s) t" and gp: "gpio_ok cfg s"
    and ad: "CFG_HW_ADCKEY_NUMBER cfg = 0 \<longrightarrow> adc_irq s = HAL_ADCKEY_IRQ_NONE \<and> \<not> adc_channel s"
    using assms(1,2) by (auto simp: key_inv_def timer_part_ok_def key_core_ok_def)
  obtain r h where h: "hwtimer_stop t (hk_timers s) = Some (r, h)" "timers_ok h" "timer_startable h t"
    using kt.stop_ok [OF tp] by blast
  note freed = free_timers_ok [OF h(2) _ stop_alloc [OF h(1) tp(2) assms(3)]]
  have t: "t < 10" using tp(2) by (simp add: timer_in_use_def)
  define s1 where "s1 = (if CFG_HW_ADCKEY_NUMBER cfg > 0 then hal_adckey_disable_allint (hal_pwrkey_disable_int s)
    else hal_pwrkey_disable_int s)"
  obtain i where i: "hal_gpiokey_disable_allint cfg s1 = s1\<lparr>gpio_irq := i\<rparr>"
    "\<And>p. (i p \<noteq> None) = (gpio_irq s1 p \<noteq> None \<and> p \<notin> key_pins cfg)" using disable_allint_ok by metis
  have off: "i p = None" for p
  proof -
    have "gpio_irq s1 p = gpio_irq s p" by (simp add: s1_def key_simps)
    then show ?thesis using i(2) [of p] only_irq(1) [OF gp, of p] by (cases "i p") auto
  qed
  define s2 where "s2 = hal_gpiokey_reset ((\<lambda>s. if CFG_HW_ADCKEY_NUMBER cfg > 0 then hal_adckey_close s else s)
    (hal_pwrkey_close (s1\<lparr>gpio_irq := i\<rparr>)))"
  obtain j where j: "hal_gpiokey_disable_allint cfg s2 = s2\<lparr>gpio_irq := j\<rparr>"
    "\<And>p. (j p \<noteq> None) = (gpio_irq s2 p \<noteq> None \<and> p \<notin> key_pins cfg)" using disable_allint_ok by metis
  have "gpio_irq s2 = i" by (simp add: s2_def key_simps hal_adckey_close_def hal_pwrkey_close_def)
  then have off2: "j p = None" for p using j(2) [of p] off by simp
  have s2: "debounce_timer s2 = Some t" "hk_timers s2 = hk_timers s" "key_events s2 = key_events s"
    "pwr_irq s2 = HAL_PWRKEY_IRQ_NONE" "adc_irq s2 = HAL_ADCKEY_IRQ_NONE" "\<not> adc_channel s2"
    using assms(2) ad by (auto simp: s2_def s1_def key_simps hal_adckey_close_def hal_pwrkey_close_def)
  define s' where "s' = s2\<lparr>gpio_irq := j, hk_timers := snd (hwtimer_free t h), debounce_timer := None,
    timer_active := False, key_detected_callback := False\<rparr>"
  have eq: "hal_gpiokey_reset (if CFG_HW_ADCKEY_NUMBER cfg > 0 then hal_adckey_close (hal_pwrkey_close (s1\<lparr>gpio_irq := i\<rparr>))
      else hal_pwrkey_close (s1\<lparr>gpio_irq := i\<rparr>)) = s2"
    by (simp add: s2_def)
  have "hal_key_close cfg s = Some (0, s')"
    unfolding hal_key_close_def hal_key_disable_allint_def hal_gpiokey_close_def Let_def s1_def [symmetric] i(1) eq j(1)
    using h(1) s2(1,2) by (simp add: s'_def)
  moreover have "key_closed s'"
    using freed(1) t off2 s2 by (simp add: key_closed_def s'_def)
  ultimately show ?thesis using freed(2) t s2(3) by (auto simp: s'_def)
qed

section \<open>Reachable states\<close>

text \<open>What happens to an open driver: its interrupts, when they are enabled; a tick of its timer, in the
  state \<open>h\<close> in which the timer service calls back; and, between those, anything else the timer service
  does for others, as long as the debounce timer stays in use and running.\<close>

inductive key_reach :: "key_cfg \<Rightarrow> hal_key \<Rightarrow> bool" for cfg where
  opened: "key_closed s \<Longrightarrow> key_events s = [] \<Longrightarrow> hal_key_open cfg cb s = Some (r, s') \<Longrightarrow> key_reach cfg s'"
| pwrkey: "key_reach cfg s \<Longrightarrow> pwr_irq s = HAL_PWRKEY_IRQ_FALLING_EDGE \<Longrightarrow> state AND PWRKEY_FALLING \<noteq> 0 \<Longrightarrow>
    hal_pwrkey_handle_irq_state env state s = Some s' \<Longrightarrow> key_reach cfg s'"
| adckey: "key_reach cfg s \<Longrightarrow> CFG_HW_ADCKEY_NUMBER cfg > 0 \<Longrightarrow> adc_irq_due s status \<Longrightarrow>
    hal_adckey_irqhandler cfg env status val s = Some s' \<Longrightarrow> key_reach cfg s'"
| gpiokey: "key_reach cfg s \<Longrightarrow> gpio_irq s pin \<noteq> None \<Longrightarrow>
    hal_gpiokey_irqhandler cfg env pin s = Some s' \<Longrightarrow> key_reach cfg s'"
| tick: "key_reach cfg s \<Longrightarrow> timer_active s \<Longrightarrow> timers_ok h \<Longrightarrow> timer_in_use h (timer_id s) \<Longrightarrow>
    CFG_HW_ADCKEY_NUMBER cfg > 0 \<longrightarrow> \<not> adc_channel s \<Longrightarrow>
    hal_key_debounce_handler cfg env (s\<lparr>hk_timers := h\<rparr>) = Some s' \<Longrightarrow> key_reach cfg s'"
| others: "key_reach cfg s \<Longrightarrow> timers_ok h \<Longrightarrow> timer_in_use h (timer_id s) \<Longrightarrow>
    timer_active s \<longrightarrow> timer_running h (timer_id s) \<Longrightarrow> key_reach cfg (s\<lparr>hk_timers := h\<rparr>)"

lemma tick_ok:
  assumes "key_inv cfg s" "timers_ok h" "timer_in_use h (timer_id s)"
    "CFG_HW_ADCKEY_NUMBER cfg > 0 \<longrightarrow> \<not> adc_channel s"
  shows "\<exists>s'. hal_key_debounce_handler cfg env (s\<lparr>hk_timers := h\<rparr>) = Some s' \<and> key_inv cfg s'"
  using assms by (intro debounce_handler_ok) (auto simp: key_inv_def timer_part_ok_def timer_id_def)

lemma key_reach_inv:
  assumes "key_cfg_ok cfg" "key_reach cfg s"
  shows "key_inv cfg s"
  using assms(2)
proof induction
  case (opened s cb r s')
  then show ?case using open_ok by blast
next
  case (pwrkey s state env s')
  then show ?case using pwrkey_irq_ok by (metis option.inject)
next
  case (adckey s status env val s')
  then show ?case using adckey_irq_ok by (metis option.inject)
next
  case (gpiokey s pin env s')
  then show ?case using gpiokey_irq_ok [OF _ assms(1)] by (metis option.inject)
next
  case (tick s h env s')
  then show ?case using tick_ok by (metis option.inject)
next
  case (others s h)
  then show ?case by (auto simp: key_inv_def timer_part_ok_def timer_id_def)
qed

end
