(* ===== verification/Key_Gestures.thy ===== *)
theory Key_Gestures
  imports Key_Safety
begin

text \<open>
  What the application is told about whole gestures on one key: presses in quick succession are counted
  into one click report, and a held key is reported as a long press with repeats at a fixed pace.
\<close>

lemma distinct_one: "distinct xs \<Longrightarrow> set xs = {x} \<Longrightarrow> xs = [x]"
  by (cases xs) (auto simp: subset_singleton_iff)

lemma bits_from_one: "i < 32 \<Longrightarrow> bits_from 0 (2 ^ i) = [i]"
  by (intro distinct_one) (auto simp: bit_one_bit)

lemma bit_loop_one: "i < 32 \<Longrightarrow> bit_loop body 0 (2 ^ i) s = body i s"
  by (cases "body i s") (simp_all add: bit_loop_fold bits_from_one)

lemma bit_loop_none [simp]: "bit_loop body i 0 s = Some s"
  by (subst bit_loop.simps) simp

text \<open>One tick of the machine, on the status and the new reports alone.\<close>

definition with_reports :: "(u32 \<times> u8) list \<Rightarrow> hal_key_status \<Rightarrow> hal_key \<Rightarrow> hal_key" where
  "with_reports es k s = s\<lparr>key_events := key_events s @ es, key_status := k\<rparr>"

lemma with_reports_simps [simp]:
  "key_status (with_reports es k s) = k"
  "key_detected_callback (with_reports es k s) = key_detected_callback s"
  "key_events (with_reports es k s) = key_events s @ es"
  "with_reports es' k' (with_reports es k s) = with_reports (es @ es') k' s"
  "upd_status f (with_reports es k s) = with_reports es (f k) s"
  by (simp_all add: with_reports_def upd_status_def)

lemma with_reports_send [simp]:
  "key_detected_callback s \<Longrightarrow> send_key_event c e (with_reports es k s) = with_reports (es @ [(c, e)]) k s"
  by (simp add: with_reports_def send_key_event_def)

lemma with_reports_self: "s = with_reports [] (key_status s) s"
  by (simp add: with_reports_def)

lemma nonzero_key: "i < 32 \<Longrightarrow> (2 ^ i :: u32) \<noteq> 0"
  by (metis bit_one_bit bit_0_eq bot_apply bot_bool_def)

text \<open>The states of a click gesture: nothing going on; the key held; the key up and \<open>n\<close> presses counted.\<close>

definition idle :: "hal_key_status \<Rightarrow> bool" where
  "idle k \<longleftrightarrow> ks_event k = HAL_KEY_EVENT_NONE \<and> ks_code_down k = 0 \<and> ks_code_click k = 0 \<and> ks_cnt_click k = 0"

definition counted :: "u32 \<Rightarrow> nat \<Rightarrow> hal_key_status \<Rightarrow> bool" where
  "counted c n k \<longleftrightarrow> (if n = 0 then ks_code_click k = 0 else ks_code_click k = c \<and> unat (ks_cnt_click k) = n - 1)"

definition holding :: "u32 \<Rightarrow> nat \<Rightarrow> u32 \<Rightarrow> hal_key_status \<Rightarrow> bool" where
  "holding c n t k \<longleftrightarrow> ks_event k = HAL_KEY_EVENT_DOWN \<and> ks_code_down k = c \<and> ks_code_ready k = c \<and>
     ks_time_updown k = t \<and> counted c n k"

definition released :: "u32 \<Rightarrow> nat \<Rightarrow> u32 \<Rightarrow> hal_key_status \<Rightarrow> bool" where
  "released c n t k \<longleftrightarrow> ks_event k = HAL_KEY_EVENT_UP \<and> ks_code_down k = 0 \<and> ks_code_ready k = c \<and>
     ks_time_click k = t \<and> counted c n k \<and> 0 < n"

lemma thresholds: "KEY_LONGPRESS_THRESHOLD \<noteq> 0" "KEY_DOUBLECLICK_THRESHOLD \<noteq> 0" "KEY_LONGLONGPRESS_THRESHOLD \<noteq> 0"
  by (simp_all add: KEY_LONGPRESS_THRESHOLD_def KEY_DOUBLECLICK_THRESHOLD_def KEY_LONGLONGPRESS_THRESHOLD_def MS_TO_TICKS_def)

lemma click_count_bound: "unat n < 4 \<Longrightarrow> \<not> MAX_KEY_CLICK_COUNT \<le> n"
  by (simp add: MAX_KEY_CLICK_COUNT_def key_event_defs word_le_nat_alt)

lemma key_events_differ [simp]:
  "HAL_KEY_EVENT_UP \<noteq> HAL_KEY_EVENT_NONE" "HAL_KEY_EVENT_UP \<noteq> HAL_KEY_EVENT_DOWN" "HAL_KEY_EVENT_DOWN \<noteq> HAL_KEY_EVENT_NONE"
  "HAL_KEY_EVENT_UP \<noteq> HAL_KEY_EVENT_LONGPRESS" "HAL_KEY_EVENT_UP \<noteq> HAL_KEY_EVENT_LONGLONGPRESS"
  "HAL_KEY_EVENT_DOWN \<noteq> HAL_KEY_EVENT_LONGPRESS" "HAL_KEY_EVENT_DOWN \<noteq> HAL_KEY_EVENT_LONGLONGPRESS"
  "HAL_KEY_EVENT_NONE \<noteq> HAL_KEY_EVENT_LONGPRESS" "HAL_KEY_EVENT_NONE \<noteq> HAL_KEY_EVENT_LONGLONGPRESS"
  "HAL_KEY_EVENT_NONE \<noteq> HAL_KEY_EVENT_UP" "HAL_KEY_EVENT_DOWN \<noteq> HAL_KEY_EVENT_UP" "HAL_KEY_EVENT_NONE \<noteq> HAL_KEY_EVENT_DOWN"
  "HAL_KEY_EVENT_LONGPRESS \<noteq> HAL_KEY_EVENT_LONGLONGPRESS" "HAL_KEY_EVENT_LONGLONGPRESS \<noteq> HAL_KEY_EVENT_LONGPRESS"
  "HAL_KEY_EVENT_LONGPRESS \<noteq> HAL_KEY_EVENT_NONE" "HAL_KEY_EVENT_LONGLONGPRESS \<noteq> HAL_KEY_EVENT_NONE"
  by (simp_all add: key_event_defs)

lemma press_tick:
  assumes "key_detected_callback s" "i < 32" "c = 2 ^ i"
    and "n = 0 \<and> idle (key_status s) \<or> released c n u (key_status s) \<and> n \<le> 4 \<and> t - u < KEY_DOUBLECLICK_THRESHOLD"
  shows "\<exists>k. status_tick t c s = Some (with_reports
      [(c, HAL_KEY_EVENT_DOWN), (c, if n = 0 then HAL_KEY_EVENT_FIRST_DOWN else HAL_KEY_EVENT_CONTINUED_DOWN)] k s) \<and>
    holding c n t k"
proof -
  have st: "ks_code_down (key_status s) = 0" using assms(4) by (auto simp: idle_def released_def)
  have "c \<noteq> 0" using assms(2,3) nonzero_key by simp
  then have click: "status_click t 0 s = s"
    using assms(4) by (auto simp: status_click_steps idle_def released_def click_count_def click_settle_def counted_def
      click_count_bound not_le)
  have ev: "ks_event (key_status s) = (if n = 0 then HAL_KEY_EVENT_NONE else HAL_KEY_EVENT_UP)"
    using assms(4) by (auto simp: idle_def released_def)
  have "status_tick t c s = Some (status_long t c (status_down c
      (the (down_body t c i (upd_status (\<lambda>k. k\<lparr>ks_code_down := c\<rparr>) s)))))"
    using assms(2,3) st click by (simp add: status_tick_def status_up_def bit_loop_one) (simp add: down_body_def Let_def)
  also have "\<dots> = Some (with_reports
      [(c, HAL_KEY_EVENT_DOWN), (c, if n = 0 then HAL_KEY_EVENT_FIRST_DOWN else HAL_KEY_EVENT_CONTINUED_DOWN)]
      ((key_status s)\<lparr>ks_code_down := c, ks_code_ready := c, ks_time_updown := t, ks_event := HAL_KEY_EVENT_DOWN\<rparr>) s)"
    using assms(1,3) \<open>c \<noteq> 0\<close> thresholds ev
    by (cases "n = 0") (simp_all add: down_body_def Let_def status_down_def status_long_steps
      with_reports_def upd_status_def send_key_event_def)
  finally have "status_tick t c s = Some (with_reports
      [(c, HAL_KEY_EVENT_DOWN), (c, if n = 0 then HAL_KEY_EVENT_FIRST_DOWN else HAL_KEY_EVENT_CONTINUED_DOWN)]
      ((key_status s)\<lparr>ks_code_down := c, ks_code_ready := c, ks_time_updown := t, ks_event := HAL_KEY_EVENT_DOWN\<rparr>) s)" .
  moreover have "holding c n t ((key_status s)\<lparr>ks_code_down := c, ks_code_ready := c, ks_time_updown := t, ks_event := HAL_KEY_EVENT_DOWN\<rparr>)"
    using assms(4) by (auto simp: holding_def counted_def idle_def released_def)
  ultimately show ?thesis by blast
qed

lemma hold_tick:
  assumes "holding c n t (key_status s)" "t' - t < KEY_LONGPRESS_THRESHOLD"
  shows "status_tick t' c s = Some s"
proof -
  have "upd_status (\<lambda>k. k\<lparr>ks_code_down := c\<rparr>) s = s"
    using assms(1) by (cases s; cases "key_status s") (simp add: holding_def upd_status_def)
  with assms show ?thesis
    by (simp add: holding_def status_tick_def status_up_def status_click_def status_down_def status_long_steps)
qed

lemma release_tick:
  assumes "key_detected_callback s" "i < 32" "c = 2 ^ i" "holding c n t (key_status s)" "n < 4"
  shows "\<exists>k. status_tick t' 0 s = Some (with_reports [(c, HAL_KEY_EVENT_UP)] k s) \<and> released c (Suc n) t' k"
proof -
  have "c \<noteq> 0" using assms(2,3) nonzero_key by simp
  define k where "k = (key_status s)\<lparr>ks_time_updown := t', ks_event := HAL_KEY_EVENT_UP\<rparr>"
  define k' where "k' = (if n = 0 then k\<lparr>ks_code_click := c, ks_cnt_click := 0, ks_time_click := t'\<rparr>
    else k\<lparr>ks_cnt_click := ks_cnt_click k + 1, ks_time_click := t'\<rparr>)"
  have cnt: "unat (ks_cnt_click k') = n"
  proof (cases "n = 0")
    case False
    then have "unat (ks_cnt_click (key_status s)) = n - 1" using assms(4) by (simp add: holding_def counted_def)
    with False assms(5) show ?thesis by (simp add: k'_def k_def unat_add_small)
  qed (simp add: k'_def)
  have up: "status_up c 0 (the (up_body t' i s)) = with_reports [(c, HAL_KEY_EVENT_UP)] k s"
    using assms(1,3,4) \<open>c \<noteq> 0\<close>
    by (simp add: up_body_def Let_def holding_def status_up_def k_def with_reports_def upd_status_def send_key_event_def)
  have "click_count t' c (with_reports [(c, HAL_KEY_EVENT_UP)] k s) = with_reports [(c, HAL_KEY_EVENT_UP)] k' s"
    using assms(4) \<open>c \<noteq> 0\<close> by (simp add: click_count_def k_def k'_def holding_def counted_def)
  moreover have "click_settle t' (with_reports [(c, HAL_KEY_EVENT_UP)] k' s) = with_reports [(c, HAL_KEY_EVENT_UP)] k' s"
  proof -
    have "\<not> MAX_KEY_CLICK_COUNT \<le> ks_cnt_click k'" using cnt assms(5) by (intro click_count_bound) simp
    moreover have "ks_time_click k' = t'" by (simp add: k'_def)
    ultimately show ?thesis using thresholds by (simp add: click_settle_def)
  qed
  ultimately have click: "status_click t' c (with_reports [(c, HAL_KEY_EVENT_UP)] k s) = with_reports [(c, HAL_KEY_EVENT_UP)] k' s"
    by (simp add: status_click_steps k_def)
  have "status_tick t' 0 s = Some (status_long t' 0 (status_down 0 (upd_status (\<lambda>k. k\<lparr>ks_code_down := 0\<rparr>)
      (with_reports [(c, HAL_KEY_EVENT_UP)] k' s))))"
    using assms(2-4) up click
    by (simp add: status_tick_def holding_def bit_loop_one) (simp add: up_body_def Let_def)
  also have "\<dots> = Some (with_reports [(c, HAL_KEY_EVENT_UP)] (k'\<lparr>ks_code_down := 0\<rparr>) s)"
    using assms(4) \<open>c \<noteq> 0\<close> by (simp add: status_down_def status_long_steps k'_def k_def holding_def)
  finally have "status_tick t' 0 s = Some (with_reports [(c, HAL_KEY_EVENT_UP)] (k'\<lparr>ks_code_down := 0\<rparr>) s)" .
  moreover have "released c (Suc n) t' (k'\<lparr>ks_code_down := 0\<rparr>)"
    using assms(4) cnt by (simp add: released_def counted_def k'_def k_def holding_def)
  ultimately show ?thesis by blast
qed

lemma rest_tick:
  assumes "released c n u (key_status s)" "c \<noteq> 0" "n \<le> 4" "t - u < KEY_DOUBLECLICK_THRESHOLD"
  shows "status_tick t 0 s = Some s"
proof -
  have "upd_status (\<lambda>k. k\<lparr>ks_code_down := 0\<rparr>) s = s"
    using assms(1) by (cases s; cases "key_status s") (simp add: released_def upd_status_def)
  moreover have "unat (ks_cnt_click (key_status s)) < 4" using assms(1,3) by (simp add: released_def counted_def)
  then have "\<not> MAX_KEY_CLICK_COUNT \<le> ks_cnt_click (key_status s)" by (rule click_count_bound)
  then have "status_click t 0 s = s"
    using assms by (simp add: status_click_steps released_def counted_def click_count_def click_settle_def not_le)
  ultimately show ?thesis
    using assms(1,2) by (simp add: released_def status_tick_def status_up_def status_down_def status_long_steps)
qed

lemma settle_tick:
  assumes "key_detected_callback s" "released c n u (key_status s)" "c \<noteq> 0" "t - u \<ge> KEY_DOUBLECLICK_THRESHOLD"
  shows "\<exists>k. status_tick t 0 s = Some (with_reports [(c, HAL_KEY_EVENT_CLICK + of_nat (n - 1))] k s) \<and> idle k"
proof -
  define k where "k = (key_status s)\<lparr>ks_code_click := 0, ks_cnt_click := 0, ks_event := HAL_KEY_EVENT_NONE, ks_code_down := 0\<rparr>"
  have n: "ks_cnt_click (key_status s) = of_nat (n - 1)"
  proof -
    have "unat (ks_cnt_click (key_status s)) = n - 1" using assms(2) by (simp add: released_def counted_def)
    then have "of_nat (unat (ks_cnt_click (key_status s))) = (of_nat (n - 1) :: u8)" by (simp only:)
    then show ?thesis by simp
  qed
  have "status_click t 0 s = upd_status (\<lambda>k. k\<lparr>ks_code_click := HAL_KEY_CODE_NONE, ks_cnt_click := 0, ks_event := HAL_KEY_EVENT_NONE\<rparr>)
      (send_key_event c (HAL_KEY_EVENT_CLICK + of_nat (n - 1)) s)"
    using assms(2-4) n by (simp add: status_click_steps click_count_def click_settle_def released_def counted_def)
  moreover have "upd_status (\<lambda>k. k\<lparr>ks_code_down := 0\<rparr>) (upd_status (\<lambda>k. k\<lparr>ks_code_click := HAL_KEY_CODE_NONE, ks_cnt_click := 0,
      ks_event := HAL_KEY_EVENT_NONE\<rparr>) (send_key_event c (HAL_KEY_EVENT_CLICK + of_nat (n - 1)) s)) =
      with_reports [(c, HAL_KEY_EVENT_CLICK + of_nat (n - 1))] k s"
    using assms(1) by (simp add: with_reports_def upd_status_def send_key_event_def k_def)
  ultimately have "status_tick t 0 s = Some (with_reports [(c, HAL_KEY_EVENT_CLICK + of_nat (n - 1))] k s)"
    using assms(2) by (simp add: released_def status_tick_def status_up_def status_down_def status_long_steps k_def)
  moreover have "idle k" by (simp add: idle_def k_def)
  ultimately show ?thesis by blast
qed

section \<open>Gestures\<close>

text \<open>The handler's ticks, each with its time and the keys found down.\<close>

fun status_ticks :: "(u32 \<times> u32) list \<Rightarrow> hal_key \<Rightarrow> hal_key option" where
  "status_ticks [] s = Some s"
| "status_ticks ((t, cd) # xs) s = Option.bind (status_tick t cd s) (status_ticks xs)"

lemma status_ticks_append: "status_ticks (xs @ ys) s = Option.bind (status_ticks xs s) (status_ticks ys)"
  by (induction xs arbitrary: s) (auto split: bind_splits)

text \<open>Presses: down at \<open>d\<close>, held for the ticks \<open>hs\<close>, up at \<open>u\<close>, then the ticks \<open>rs\<close> with nothing down.\<close>

type_synonym press = "u32 \<times> u32 list \<times> u32 \<times> u32 list"

fun gesture :: "u32 \<Rightarrow> press list \<Rightarrow> (u32 \<times> u32) list" where
  "gesture c [] = []"
| "gesture c ((d, hs, u, rs) # ps) = (d, c) # map (\<lambda>t. (t, c)) hs @ (u, 0) # map (\<lambda>t. (t, 0)) rs @ gesture c ps"

fun paced :: "u32 option \<Rightarrow> press list \<Rightarrow> bool" where
  "paced prev [] = True"
| "paced prev ((d, hs, u, rs) # ps) \<longleftrightarrow>
     (case prev of None \<Rightarrow> True | Some p \<Rightarrow> d - p < KEY_DOUBLECLICK_THRESHOLD) \<and>
     (\<forall>h \<in> set hs. h - d < KEY_LONGPRESS_THRESHOLD) \<and> (\<forall>r \<in> set rs. r - u < KEY_DOUBLECLICK_THRESHOLD) \<and>
     paced (Some u) ps"

fun last_up :: "press list \<Rightarrow> u32" where
  "last_up [(d, hs, u, rs)] = u"
| "last_up (p # ps) = last_up ps"
| "last_up [] = 0"

definition press_reports :: "u32 \<Rightarrow> nat \<Rightarrow> (u32 \<times> u8) list" where
  "press_reports c n = [(c, HAL_KEY_EVENT_DOWN), (c, HAL_KEY_EVENT_FIRST_DOWN), (c, HAL_KEY_EVENT_UP)] @
     concat (replicate (n - 1) [(c, HAL_KEY_EVENT_DOWN), (c, HAL_KEY_EVENT_CONTINUED_DOWN), (c, HAL_KEY_EVENT_UP)])"

lemma hold_ticks:
  "holding c n t (key_status s) \<Longrightarrow> \<forall>h \<in> set hs. h - t < KEY_LONGPRESS_THRESHOLD \<Longrightarrow>
   status_ticks (map (\<lambda>t. (t, c)) hs) s = Some s"
  by (induction hs) (simp_all add: hold_tick)

lemma rest_ticks:
  "released c n u (key_status s) \<Longrightarrow> c \<noteq> 0 \<Longrightarrow> n \<le> 4 \<Longrightarrow> \<forall>r \<in> set rs. r - u < KEY_DOUBLECLICK_THRESHOLD \<Longrightarrow>
   status_ticks (map (\<lambda>t. (t, 0)) rs) s = Some s"
  by (induction rs) (simp_all add: rest_tick)

lemma one_press:
  assumes "key_detected_callback s" "i < 32" "c = 2 ^ i" "n < 4"
    and "n = 0 \<and> idle (key_status s) \<or> released c n p (key_status s) \<and> d - p < KEY_DOUBLECLICK_THRESHOLD"
    and "\<forall>h \<in> set hs. h - d < KEY_LONGPRESS_THRESHOLD" "\<forall>r \<in> set rs. r - u < KEY_DOUBLECLICK_THRESHOLD"
  shows "\<exists>k. status_ticks (gesture c [(d, hs, u, rs)]) s = Some (with_reports [(c, HAL_KEY_EVENT_DOWN),
      (c, if n = 0 then HAL_KEY_EVENT_FIRST_DOWN else HAL_KEY_EVENT_CONTINUED_DOWN), (c, HAL_KEY_EVENT_UP)] k s) \<and>
    released c (Suc n) u k"
proof -
  have c: "c \<noteq> 0" using assms(2,3) nonzero_key by simp
  obtain k1 where k1: "status_tick d c s = Some (with_reports
      [(c, HAL_KEY_EVENT_DOWN), (c, if n = 0 then HAL_KEY_EVENT_FIRST_DOWN else HAL_KEY_EVENT_CONTINUED_DOWN)] k1 s)"
    "holding c n d k1"
    using press_tick [OF assms(1-3), of n p d] assms(4,5) by auto
  define s1 where "s1 = with_reports
      [(c, HAL_KEY_EVENT_DOWN), (c, if n = 0 then HAL_KEY_EVENT_FIRST_DOWN else HAL_KEY_EVENT_CONTINUED_DOWN)] k1 s"
  have s1: "key_detected_callback s1" "holding c n d (key_status s1)" using assms(1) k1(2) by (simp_all add: s1_def)
  obtain k2 where k2: "status_tick u 0 s1 = Some (with_reports [(c, HAL_KEY_EVENT_UP)] k2 s1)" "released c (Suc n) u k2"
    using release_tick [OF s1(1) assms(2,3) s1(2) assms(4), of u] by blast
  have "status_ticks (map (\<lambda>t. (t, 0)) rs) (with_reports [(c, HAL_KEY_EVENT_UP)] k2 s1) =
      Some (with_reports [(c, HAL_KEY_EVENT_UP)] k2 s1)"
    using k2(2) c assms(4,7) by (intro rest_ticks [of c "Suc n" u]) simp_all
  then have "status_ticks (gesture c [(d, hs, u, rs)]) s = Some (with_reports [(c, HAL_KEY_EVENT_UP)] k2 s1)"
    using k1(1) k2(1) hold_ticks [OF s1(2) assms(6)]
    by (simp add: status_ticks_append s1_def [symmetric])
  with k2(2) show ?thesis by (intro exI [of _ k2]) (simp add: s1_def)
qed

lemma gesture_append: "gesture c (ps @ qs) = gesture c ps @ gesture c qs"
  by (induction c ps rule: gesture.induct) simp_all

lemma gesture_cons: "gesture c (p # ps) = gesture c [p] @ gesture c ps"
  using gesture_append [of c "[p]" ps] by simp

lemma more_presses:
  assumes "key_detected_callback s" "i < 32" "c = 2 ^ i" "0 < n" "released c n p (key_status s)"
    and "n + length ps \<le> 4" "paced (Some p) ps"
  shows "\<exists>k. status_ticks (gesture c ps) s = Some (with_reports (concat (replicate (length ps) [(c, HAL_KEY_EVENT_DOWN),
      (c, HAL_KEY_EVENT_CONTINUED_DOWN), (c, HAL_KEY_EVENT_UP)])) k s) \<and>
    released c (n + length ps) (if ps = [] then p else last_up ps) k"
  using assms
proof (induction ps arbitrary: n p s)
  case Nil
  then show ?case by (intro exI [of _ "key_status s"]) (simp add: with_reports_self [symmetric])
next
  case (Cons q ps)
  obtain d hs u rs where q: "q = (d, hs, u, rs)" by (cases q)
  obtain k1 where k1: "status_ticks (gesture c [(d, hs, u, rs)]) s = Some (with_reports [(c, HAL_KEY_EVENT_DOWN),
      (c, HAL_KEY_EVENT_CONTINUED_DOWN), (c, HAL_KEY_EVENT_UP)] k1 s)" "released c (Suc n) u k1"
    using one_press [OF Cons.prems(1-3), of n p d hs rs u] Cons.prems(4-7) q by auto
  define s1 where "s1 = with_reports [(c, HAL_KEY_EVENT_DOWN),
      (c, HAL_KEY_EVENT_CONTINUED_DOWN), (c, HAL_KEY_EVENT_UP)] k1 s"
  obtain k2 where k2: "status_ticks (gesture c ps) s1 = Some (with_reports (concat (replicate (length ps)
      [(c, HAL_KEY_EVENT_DOWN), (c, HAL_KEY_EVENT_CONTINUED_DOWN), (c, HAL_KEY_EVENT_UP)])) k2 s1)"
    "released c (Suc n + length ps) (if ps = [] then u else last_up ps) k2"
    using Cons.IH [of s1 "Suc n" u] Cons.prems k1(2) q by (auto simp: s1_def)
  have "status_ticks (gesture c (q # ps)) s = Some (with_reports (concat (replicate (length (q # ps))
      [(c, HAL_KEY_EVENT_DOWN), (c, HAL_KEY_EVENT_CONTINUED_DOWN), (c, HAL_KEY_EVENT_UP)])) k2 s)"
    using k1(1) k2(1) unfolding q gesture_cons [of c _ ps] status_ticks_append
    by (simp add: s1_def del: gesture.simps)
  moreover have "last_up (q # ps) = (if ps = [] then u else last_up ps)"
    by (cases ps) (simp_all add: q)
  ultimately show ?case using k2(2) by auto
qed

lemma presses:
  assumes "key_detected_callback s" "i < 32" "c = 2 ^ i" "idle (key_status s)"
    and "ps \<noteq> []" "length ps \<le> 4" "paced None ps"
  shows "\<exists>k. status_ticks (gesture c ps) s = Some (with_reports (press_reports c (length ps)) k s) \<and>
    released c (length ps) (last_up ps) k"
proof -
  obtain d hs u rs ps' where ps: "ps = (d, hs, u, rs) # ps'" using assms(5) by (cases ps) auto
  obtain k1 where k1: "status_ticks (gesture c [(d, hs, u, rs)]) s = Some (with_reports [(c, HAL_KEY_EVENT_DOWN),
      (c, HAL_KEY_EVENT_FIRST_DOWN), (c, HAL_KEY_EVENT_UP)] k1 s)" "released c 1 u k1"
    using one_press [OF assms(1-3), of 0 0 d hs rs u] assms(4,7) ps by auto
  define s1 where "s1 = with_reports [(c, HAL_KEY_EVENT_DOWN), (c, HAL_KEY_EVENT_FIRST_DOWN), (c, HAL_KEY_EVENT_UP)] k1 s"
  obtain k2 where k2: "status_ticks (gesture c ps') s1 = Some (with_reports (concat (replicate (length ps')
      [(c, HAL_KEY_EVENT_DOWN), (c, HAL_KEY_EVENT_CONTINUED_DOWN), (c, HAL_KEY_EVENT_UP)])) k2 s1)"
    "released c (1 + length ps') (if ps' = [] then u else last_up ps') k2"
    using more_presses [of s1 i c 1 u ps'] assms ps k1(2) by (auto simp: s1_def)
  have "status_ticks (gesture c ps) s = Some (with_reports (press_reports c (length ps)) k2 s)"
    using k1(1) k2(1) unfolding ps gesture_cons [of c _ ps'] status_ticks_append
    by (simp add: s1_def press_reports_def del: gesture.simps)
  moreover have "last_up ps = (if ps' = [] then u else last_up ps')" by (cases ps') (simp_all add: ps)
  ultimately show ?thesis using k2(2) ps by auto
qed

section \<open>A held key\<close>

definition in_long :: "u32 \<Rightarrow> u32 \<Rightarrow> hal_key_status \<Rightarrow> bool" where
  "in_long c t k \<longleftrightarrow> ks_event k \<in> {HAL_KEY_EVENT_LONGPRESS, HAL_KEY_EVENT_LONGLONGPRESS} \<and> ks_code_down k = c \<and>
     ks_code_ready k = c \<and> ks_time_updown k = t"

definition long_reports :: "u32 \<Rightarrow> nat \<Rightarrow> bool \<Rightarrow> (u32 \<times> u8) list" where
  "long_reports c r ll = (if r = 11 then [(c, HAL_KEY_EVENT_REPEAT)] else []) @
     (if ll then [(c, HAL_KEY_EVENT_LONGLONGPRESS)] else [])"

lemma long_start:
  assumes "key_detected_callback s" "c \<noteq> 0" "holding c n t (key_status s)" "t' - t \<ge> KEY_LONGPRESS_THRESHOLD"
  shows "\<exists>k. status_tick t' c s = Some (with_reports [(c, HAL_KEY_EVENT_LONGPRESS)] k s) \<and>
    in_long c t k \<and> ks_cnt_repeat k = 0 \<and> ks_event k = HAL_KEY_EVENT_LONGPRESS"
proof -
  define k where "k = (key_status s)\<lparr>ks_cnt_repeat := 0, ks_event := HAL_KEY_EVENT_LONGPRESS\<rparr>"
  have same: "upd_status (\<lambda>k. k\<lparr>ks_code_down := c\<rparr>) s = s"
    using assms(3) by (cases s; cases "key_status s") (simp add: holding_def upd_status_def)
  then have "status_tick t' c s = Some (with_reports [(c, HAL_KEY_EVENT_LONGPRESS)] k s)"
    using assms by (simp add: holding_def status_tick_def status_up_def status_click_def status_down_def status_long_steps
      k_def with_reports_def upd_status_def send_key_event_def)
  moreover have "in_long c t k" using assms(3) by (simp add: in_long_def k_def holding_def)
  ultimately show ?thesis by (intro exI [of _ k]) (simp add: k_def)
qed

lemma long_tick:
  assumes "key_detected_callback s" "c \<noteq> 0" "in_long c t (key_status s)" "unat (ks_cnt_repeat (key_status s)) = r" "r < 12"
  shows "\<exists>k. status_tick t' c s = Some (with_reports (long_reports c r
      (ks_event (key_status s) = HAL_KEY_EVENT_LONGPRESS \<and> t' - t \<ge> KEY_LONGLONGPRESS_THRESHOLD)) k s) \<and>
    in_long c t k \<and> unat (ks_cnt_repeat k) = Suc r mod 12 \<and>
    (ks_event k = HAL_KEY_EVENT_LONGPRESS \<longleftrightarrow>
      ks_event (key_status s) = HAL_KEY_EVENT_LONGPRESS \<and> \<not> t' - t \<ge> KEY_LONGLONGPRESS_THRESHOLD)"
proof -
  define ll where "ll \<longleftrightarrow> ks_event (key_status s) = HAL_KEY_EVENT_LONGPRESS \<and> t' - t \<ge> KEY_LONGLONGPRESS_THRESHOLD"
  define k0 where "k0 = (if r = 11 then (key_status s)\<lparr>ks_cnt_repeat := 0\<rparr>
    else (key_status s)\<lparr>ks_cnt_repeat := ks_cnt_repeat (key_status s) + 1\<rparr>)"
  define k where "k = (if ll then k0\<lparr>ks_event := HAL_KEY_EVENT_LONGLONGPRESS\<rparr> else k0)"
  have same: "upd_status (\<lambda>k. k\<lparr>ks_code_down := c\<rparr>) s = s"
    using assms(3) by (cases s; cases "key_status s") (simp add: in_long_def upd_status_def)
  have r11: "ks_cnt_repeat (key_status s) = 11 \<longleftrightarrow> r = 11"
    using assms(4) by (auto simp: word_unat_eq_iff)
  have step: "repeat_step s = with_reports (if r = 11 then [(c, HAL_KEY_EVENT_REPEAT)] else []) k0 s"
    using assms(1,3) r11 by (simp add: repeat_step_def k0_def in_long_def with_reports_def upd_status_def send_key_event_def)
  have ev: "ks_event (key_status s) \<noteq> HAL_KEY_EVENT_NONE" "ks_event (key_status s) \<noteq> HAL_KEY_EVENT_UP"
    "ks_event (key_status s) \<noteq> HAL_KEY_EVENT_DOWN" "in_long_press s"
    using assms(3) by (auto simp: in_long_def)
  have "status_tick t' c s = Some (status_long t' c s)"
    using assms(3) same ev by (simp add: in_long_def status_tick_def status_up_def status_click_def status_down_def)
  also have "status_long t' c s = with_reports (long_reports c r ll) k s"
    using assms(1,3) ev by (simp add: status_long_steps in_long_def step long_reports_def k_def ll_def [symmetric])
  finally have "status_tick t' c s = Some (with_reports (long_reports c r ll) k s)" .
  moreover have "in_long c t k" using assms(3) by (simp add: in_long_def k_def k0_def)
  moreover have "unat (ks_cnt_repeat k) = Suc r mod 12"
    using assms(4,5) by (auto simp: k_def k0_def unat_add_small)
  moreover have "ks_event k = HAL_KEY_EVENT_LONGPRESS \<longleftrightarrow>
      ks_event (key_status s) = HAL_KEY_EVENT_LONGPRESS \<and> \<not> t' - t \<ge> KEY_LONGLONGPRESS_THRESHOLD"
    using assms(3) by (auto simp: k_def k0_def ll_def)
  ultimately show ?thesis unfolding ll_def by blast
qed

lemma long_ticks:
  assumes "key_detected_callback s" "c \<noteq> 0" "in_long c t (key_status s)" "unat (ks_cnt_repeat (key_status s)) = r" "r < 12"
  shows "\<exists>k es. status_ticks (map (\<lambda>t. (t, c)) ts) s = Some (with_reports es k s) \<and>
    in_long c t k \<and> unat (ks_cnt_repeat k) = (r + length ts) mod 12 \<and>
    length (filter (\<lambda>x. x = (c, HAL_KEY_EVENT_REPEAT)) es) = (r + length ts) div 12 \<and>
    filter (\<lambda>x. x \<noteq> (c, HAL_KEY_EVENT_REPEAT)) es =
      (if ks_event (key_status s) = HAL_KEY_EVENT_LONGPRESS \<and> (\<exists>t' \<in> set ts. t' - t \<ge> KEY_LONGLONGPRESS_THRESHOLD)
       then [(c, HAL_KEY_EVENT_LONGLONGPRESS)] else [])"
  using assms
proof (induction ts arbitrary: s r)
  case Nil
  then show ?case by (intro exI [of _ "key_status s"] exI [of _ "[]"]) (simp add: with_reports_self [symmetric])
next
  case (Cons t' ts)
  define ll where "ll \<longleftrightarrow> ks_event (key_status s) = HAL_KEY_EVENT_LONGPRESS \<and> t' - t \<ge> KEY_LONGLONGPRESS_THRESHOLD"
  obtain k1 where k1: "status_tick t' c s = Some (with_reports (long_reports c r ll) k1 s)" "in_long c t k1"
    "unat (ks_cnt_repeat k1) = Suc r mod 12" "ks_event k1 = HAL_KEY_EVENT_LONGPRESS \<longleftrightarrow>
      ks_event (key_status s) = HAL_KEY_EVENT_LONGPRESS \<and> \<not> t' - t \<ge> KEY_LONGLONGPRESS_THRESHOLD"
    using long_tick [OF Cons.prems, of t'] by (auto simp: ll_def)
  define s1 where "s1 = with_reports (long_reports c r ll) k1 s"
  obtain k es where k: "status_ticks (map (\<lambda>t. (t, c)) ts) s1 = Some (with_reports es k s1)" "in_long c t k"
    "unat (ks_cnt_repeat k) = (Suc r mod 12 + length ts) mod 12"
    "length (filter (\<lambda>x. x = (c, HAL_KEY_EVENT_REPEAT)) es) = (Suc r mod 12 + length ts) div 12"
    "filter (\<lambda>x. x \<noteq> (c, HAL_KEY_EVENT_REPEAT)) es =
      (if ks_event k1 = HAL_KEY_EVENT_LONGPRESS \<and> (\<exists>t' \<in> set ts. t' - t \<ge> KEY_LONGLONGPRESS_THRESHOLD)
       then [(c, HAL_KEY_EVENT_LONGLONGPRESS)] else [])"
    using Cons.IH [of s1 "Suc r mod 12"] Cons.prems k1(2,3) by (auto simp: s1_def)
  have len: "length (filter (\<lambda>x. x = (c, HAL_KEY_EVENT_REPEAT)) (long_reports c r ll)) = of_bool (r = 11)"
    "filter (\<lambda>x. x \<noteq> (c, HAL_KEY_EVENT_REPEAT)) (long_reports c r ll) = (if ll then [(c, HAL_KEY_EVENT_LONGLONGPRESS)] else [])"
    by (simp_all add: long_reports_def key_event_defs)
  have "status_ticks (map (\<lambda>t. (t, c)) (t' # ts)) s = Some (with_reports (long_reports c r ll @ es) k s)"
    using k1(1) k(1) by (simp add: s1_def)
  moreover have "unat (ks_cnt_repeat k) = (r + length (t' # ts)) mod 12" using k(3) by (simp add: mod_add_left_eq)
  moreover have "(r + length (t' # ts)) div 12 = of_bool (r = 11) + (Suc r mod 12 + length ts) div 12"
    using Cons.prems(5) by (cases "r = 11") simp_all
  ultimately show ?case
    using k(2,4,5) len k1(4) by (intro exI [of _ k] exI [of _ "long_reports c r ll @ es"]) (auto simp: ll_def)
qed

end
