(* ===== verification/Key_Props.thy ===== *)
theory Key_Props
  imports Key_Gestures
begin

text \<open>The properties of the key driver.\<close>

text \<open>A driver to try the properties on: a board with two GPIO keys and two ADC keys, and the state at boot.\<close>

definition board :: key_cfg where
  "board = \<lparr>cfg_hw_gpio_key_cfg = [\<lparr>key_code = 2, key_pin = 3, key_down = HAL_KEY_GPIOKEY_VAL_LOW\<rparr>,
       \<lparr>key_code = 4, key_pin = 7, key_down = HAL_KEY_GPIOKEY_VAL_HIGH\<rparr>],
     CFG_HW_ADCKEY_NUMBER = 3, CFG_HW_ADCKEY_MAP_TABLE = [8, 16, 32], CFG_HW_ADCKEY_ADC_KEYVOLT_BASE = 100,
     CFG_HW_ADCKEY_ADC_MINVOLT = 0, CFG_HW_ADCKEY_ADC_MAXVOLT = 1000\<rparr>"

definition key_boot :: hal_key where
  "key_boot = \<lparr>key_detected_callback = False, key_events = [], debounce_timer = None, timer_active = False,
     key_status = status_zero,
     pwr_key = \<lparr>pk_debounce = False, pk_dither = False, pk_pressed = False, pk_time = 0\<rparr>,
     adc_key = \<lparr>ak_debounce = False, ak_dither = False, ak_code_debounce = 0, ak_code_down = 0, ak_time = 0\<rparr>,
     adckey_volt_table = [],
     gpio_key = \<lparr>gk_pin_debounce = 0, gk_pin_dither = 0, gk_pin_down = 0, gk_time_debounce = 0, gk_time_dither = 0\<rparr>,
     pwr_irq = HAL_PWRKEY_IRQ_NONE, adc_irq = HAL_ADCKEY_IRQ_NONE, adc_channel = False, gpio_irq = (\<lambda>_. None),
     hk_timers = hwtimer_init hwtimer_boot\<rparr>"

lemma board_ok: "key_cfg_ok board"
  by (simp add: key_cfg_ok_def board_def)

lemma boot_closed: "key_closed key_boot" "key_events key_boot = []"
proof -
  have "ht_inv (hwtimer_init hwtimer_boot)" using hwtimer_init_rep by (auto simp: ht_inv_def)
  moreover have "timely (hwtimer_init hwtimer_boot)" by (simp add: timely_def hwtimer_init_def Let_def)
  ultimately show "key_closed key_boot" "key_events key_boot = []"
    by (simp_all add: key_closed_def key_boot_def timers_ok_def)
qed

lemma boot_opens: "\<exists>s. hal_key_open board True key_boot = Some (0, s)"
proof -
  have "[0..<10] = 0 # [1..<10 :: nat]" by (simp add: upt_conv_Cons)
  then obtain h where "hwtimer_alloc (Some 0) 0 (hwtimer_init hwtimer_boot) = Some (Some 0, h)"
    using hwtimer_alloc_ok [of "hwtimer_init hwtimer_boot" 0 "[1..<10]" "[]" "[]" "Some 0" 0] hwtimer_init_rep by auto
  then have "hwtimer_alloc (Some 0) 0 (hk_timers key_boot) = Some (Some 0, h)" by (simp add: key_boot_def)
  then show ?thesis by (simp add: open_steps)
qed

lemma board_reach: "\<exists>s. hal_key_open board True key_boot = Some (0, s) \<and> key_reach board s"
  using boot_opens key_reach.opened [OF boot_closed] by blast




text \<open>C27: The reports tell the application exactly what is held: replaying the down and up reports since the
  driver was opened gives the keys found down by the last tick; no key is reported down twice without an up
  between, nor up without a down.\<close>

theorem key_reports_replay:
  assumes "key_cfg_ok cfg" "key_reach cfg s" "key_detected_callback s"
  shows "held_after (key_events s) 0 = Some (ks_code_down (key_status s))"
  using key_reach_inv [OF assms(1,2)] assms(3)
  by (simp add: key_inv_def key_core_ok_def machine_ok_def reports_replay_def)

theorem key_reports_replay_witness:
  "\<exists>s. hal_key_open board True key_boot = Some (0, s) \<and>
     held_after (key_events s) 0 = Some (ks_code_down (key_status s))"
proof -
  obtain s where s: "hal_key_open board True key_boot = Some (0, s)" "key_reach board s" using board_reach by blast
  obtain t h where "s = hal_gpiokey_enable_allint board (opened board True t h key_boot)"
    using s(1) by (auto simp: open_steps Option.bind_eq_Some_conv)
  then have "key_detected_callback s" using enable_allint_frame [of board "opened board True t h key_boot"]
    by (auto simp: opened_def)
  with s key_reports_replay [OF board_ok] show ?thesis by blast
qed

text \<open>C40: The click and repeat counters stay below their limits, the status is one of the five states of the
  machine, and every report is one of the twelve key events up to a fivefold click, or a repeat.\<close>

theorem key_counts_bounded:
  assumes "key_cfg_ok cfg" "key_reach cfg s"
  shows "ks_cnt_click (key_status s) < MAX_KEY_CLICK_COUNT \<and>
    ucast (ks_cnt_repeat (key_status s)) < KEY_LONGPRESS_REPEAT_THRESHOLD div KEY_CHECKER_INTERVAL \<and>
    ks_event (key_status s) \<in> {HAL_KEY_EVENT_NONE, HAL_KEY_EVENT_DOWN, HAL_KEY_EVENT_UP,
      HAL_KEY_EVENT_LONGPRESS, HAL_KEY_EVENT_LONGLONGPRESS} \<and>
    (\<forall>(c, e) \<in> set (key_events s). HAL_KEY_EVENT_DOWN \<le> e \<and> e \<le> HAL_KEY_EVENT_RAMPAGECLICK \<or> e = HAL_KEY_EVENT_REPEAT)"
proof -
  have m: "status_ok s" "reports_ok s"
    using key_reach_inv [OF assms] by (simp_all add: key_inv_def key_core_ok_def machine_ok_def)
  have "unat (ks_cnt_repeat (key_status s)) < 12" using m(1) by (simp add: status_ok_def)
  then have "(ucast (ks_cnt_repeat (key_status s)) :: u32) < 12"
    by (simp add: word_less_nat_alt unsigned_ucast_eq take_bit_nat_eq_self)
  moreover have "ks_cnt_click (key_status s) < MAX_KEY_CLICK_COUNT"
    using m(1) by (simp add: status_ok_def MAX_KEY_CLICK_COUNT_def key_event_defs word_less_nat_alt)
  moreover have "HAL_KEY_EVENT_DOWN \<le> e \<and> e \<le> HAL_KEY_EVENT_RAMPAGECLICK \<or> e = HAL_KEY_EVENT_REPEAT"
    if "(c, e) \<in> set (key_events s)" for c e
  proof -
    have "report_ok (c, e)" using m(2) that by (auto simp: reports_ok_def list_all_iff)
    then show ?thesis by (auto simp: report_ok_def HAL_KEY_EVENT_DOWN_def HAL_KEY_EVENT_RAMPAGECLICK_def word_le_nat_alt)
  qed
  ultimately show ?thesis using m(1) by (auto simp: status_ok_def repeat_ticks)
qed

theorem key_counts_bounded_witness:
  "\<exists>s. hal_key_open board True key_boot = Some (0, s) \<and> ks_cnt_click (key_status s) < MAX_KEY_CLICK_COUNT"
  using board_reach key_counts_bounded [OF board_ok] by blast

text \<open>C28: Presses of one key in quick succession become one click report: after one to four presses, each
  shorter than a long press and each soon after the one before, the first quiet tick past the
  double-click time reports a click of that multiplicity, after exactly one down and one up per press,
  and the machine is idle again.\<close>

theorem key_clicks_counted:
  assumes "key_detected_callback s" "i < 32" "idle (key_status s)"
    and "ps \<noteq> []" "length ps \<le> 4" "paced None ps" "t - last_up ps \<ge> KEY_DOUBLECLICK_THRESHOLD"
  shows "\<exists>s'. status_ticks (gesture (2 ^ i) ps @ [(t, 0)]) s = Some s' \<and> idle (key_status s') \<and>
    key_events s' = key_events s @ press_reports (2 ^ i) (length ps) @
      [(2 ^ i, HAL_KEY_EVENT_CLICK + of_nat (length ps - 1))]"
proof -
  obtain k where k: "status_ticks (gesture (2 ^ i) ps) s = Some (with_reports (press_reports (2 ^ i) (length ps)) k s)"
    "released (2 ^ i) (length ps) (last_up ps) k"
    using presses [OF assms(1,2) refl assms(3-6)] by blast
  define s1 where "s1 = with_reports (press_reports (2 ^ i) (length ps)) k s"
  have "key_detected_callback s1" "released (2 ^ i) (length ps) (last_up ps) (key_status s1)"
    using assms(1) k(2) by (simp_all add: s1_def)
  from settle_tick [OF this nonzero_key [OF assms(2)] assms(7)] obtain k' where
    "status_tick t 0 s1 = Some (with_reports [(2 ^ i, HAL_KEY_EVENT_CLICK + of_nat (length ps - 1))] k' s1)" "idle k'" by blast
  with k(1) show ?thesis by (simp add: status_ticks_append s1_def)
qed

definition key_idle :: hal_key where
  "key_idle = key_boot\<lparr>key_detected_callback := True\<rparr>"

lemma key_idle_facts: "key_detected_callback key_idle" "idle (key_status key_idle)" "key_events key_idle = []"
  by (simp_all add: key_idle_def key_boot_def idle_def status_zero_def key_event_defs)

theorem key_clicks_counted_witness:
  "\<exists>s'. status_ticks (gesture 8 [(1000, [1640], 2280, []), (2920, [], 3560, [4200])] @ [(10000, 0)]) key_idle = Some s' \<and>
     key_events s' = [(8, 1), (8, 2), (8, 4), (8, 1), (8, 3), (8, 4), (8, 9)]"
proof -
  note defs = KEY_DOUBLECLICK_THRESHOLD_def KEY_LONGPRESS_THRESHOLD_def MS_TO_TICKS_def
  have "\<exists>s'. status_ticks (gesture (2 ^ 3) [(1000, [1640], 2280, []), (2920, [], 3560, [4200])] @ [(10000, 0)]) key_idle = Some s' \<and>
      idle (key_status s') \<and> key_events s' = key_events key_idle @
        press_reports (2 ^ 3) (length [(1000 :: u32, [1640 :: u32], 2280 :: u32, [] :: u32 list), (2920, [], 3560, [4200])]) @
        [(2 ^ 3, HAL_KEY_EVENT_CLICK + of_nat (length [(1000 :: u32, [1640 :: u32], 2280 :: u32, [] :: u32 list), (2920, [], 3560, [4200])] - 1))]"
    by (rule key_clicks_counted) (simp_all add: key_idle_facts defs)
  then show ?thesis by (simp add: key_idle_facts press_reports_def key_event_defs) blast
qed

text \<open>A key held past the threshold is reported as one long press; while it stays held there is one repeat
  report every twelve ticks, exactly one long-long press at the first tick past that threshold, and
  nothing else.\<close>

theorem key_hold_reports:
  assumes "key_detected_callback s" "c \<noteq> 0" "holding c n t (key_status s)" "t0 - t \<ge> KEY_LONGPRESS_THRESHOLD"
  shows "\<exists>s' es. status_ticks (map (\<lambda>t. (t, c)) (t0 # ts)) s = Some s' \<and>
    key_events s' = key_events s @ (c, HAL_KEY_EVENT_LONGPRESS) # es \<and>
    length (filter (\<lambda>x. x = (c, HAL_KEY_EVENT_REPEAT)) es) = length ts div 12 \<and>
    filter (\<lambda>x. x \<noteq> (c, HAL_KEY_EVENT_REPEAT)) es =
      (if \<exists>t' \<in> set ts. t' - t \<ge> KEY_LONGLONGPRESS_THRESHOLD then [(c, HAL_KEY_EVENT_LONGLONGPRESS)] else [])"
proof -
  obtain k where k: "status_tick t0 c s = Some (with_reports [(c, HAL_KEY_EVENT_LONGPRESS)] k s)"
    "in_long c t k" "ks_cnt_repeat k = 0" "ks_event k = HAL_KEY_EVENT_LONGPRESS"
    using long_start [OF assms] by blast
  define s1 where "s1 = with_reports [(c, HAL_KEY_EVENT_LONGPRESS)] k s"
  have s1: "key_detected_callback s1" "in_long c t (key_status s1)" "unat (ks_cnt_repeat (key_status s1)) = 0"
    "ks_event (key_status s1) = HAL_KEY_EVENT_LONGPRESS"
    using assms(1) k by (simp_all add: s1_def)
  from long_ticks [OF s1(1) assms(2) s1(2,3), of ts] obtain k' es where
    "status_ticks (map (\<lambda>t. (t, c)) ts) s1 = Some (with_reports es k' s1)"
    "length (filter (\<lambda>x. x = (c, HAL_KEY_EVENT_REPEAT)) es) = length ts div 12"
    "filter (\<lambda>x. x \<noteq> (c, HAL_KEY_EVENT_REPEAT)) es =
      (if \<exists>t' \<in> set ts. t' - t \<ge> KEY_LONGLONGPRESS_THRESHOLD then [(c, HAL_KEY_EVENT_LONGLONGPRESS)] else [])"
    by (auto simp: s1(4))
  then show ?thesis
    using k(1) by (intro exI [of _ "with_reports es k' s1"] exI [of _ es]) (simp add: s1_def)
qed

theorem key_hold_reports_witness:
  "\<exists>s s'. holding 2 0 0 (key_status s) \<and> status_ticks (map (\<lambda>t. (t, 2)) (24000 # [24640])) s = Some s' \<and>
     key_events s' = [(2, HAL_KEY_EVENT_LONGPRESS)]"
proof -
  define s where "s = upd_status (\<lambda>k. k\<lparr>ks_event := HAL_KEY_EVENT_DOWN, ks_code_down := 2, ks_code_ready := 2\<rparr>) key_idle"
  have s: "key_detected_callback s" "holding 2 0 0 (key_status s)" "key_events s = []"
    by (simp_all add: s_def key_idle_def key_boot_def holding_def counted_def status_zero_def)
  have "(24000 :: u32) - 0 \<ge> KEY_LONGPRESS_THRESHOLD" "\<not> (24640 :: u32) - 0 \<ge> KEY_LONGLONGPRESS_THRESHOLD"
    by (simp_all add: KEY_LONGPRESS_THRESHOLD_def KEY_LONGLONGPRESS_THRESHOLD_def MS_TO_TICKS_def)
  with key_hold_reports [OF s(1) _ s(2), of 24000 "[24640]"] obtain s' es where
    "status_ticks (map (\<lambda>t. (t, 2)) (24000 # [24640])) s = Some s'" "key_events s' = (2, HAL_KEY_EVENT_LONGPRESS) # es"
    "length (filter (\<lambda>x. x = (2, HAL_KEY_EVENT_REPEAT)) es) = 0" "filter (\<lambda>x. x \<noteq> (2, HAL_KEY_EVENT_REPEAT)) es = []"
    using s(3) by auto
  moreover from this(3,4) have "es = []" by (auto simp: filter_empty_conv)
  ultimately show ?thesis using s(2) by blast
qed

text \<open>Closing an open driver outside its own callback always succeeds: every interrupt is off, nothing is
  reported any more, its timer is free again; the driver can then be opened again and is back in a state
  that meets all of the above.\<close>

theorem key_close_open:
  assumes "key_cfg_ok cfg" "key_reach cfg s"
    "tm_state (ht_timer (hk_timers s) (timer_id s)) \<noteq> HWTIMER_STATE_CALLBACK"
  shows "\<exists>s1. hal_key_close cfg s = Some (0, s1) \<and> key_closed s1 \<and> \<not> key_detected_callback s1 \<and>
    tm_state (ht_timer (hk_timers s1) (timer_id s)) = HWTIMER_STATE_FREE \<and>
    (\<exists>s2. hal_key_open cfg cb (s1\<lparr>key_events := []\<rparr>) = Some (0, s2) \<and> key_reach cfg s2)"
proof -
  have inv: "key_inv cfg s" using key_reach_inv [OF assms(1,2)] .
  obtain t where t: "debounce_timer s = Some t" "t < 10"
    using inv by (auto simp: key_inv_def timer_part_ok_def timer_in_use_def)
  then have id: "timer_id s = t" by (simp add: timer_id_def)
  obtain s1 where s1: "hal_key_close cfg s = Some (0, s1)" "key_closed s1" "\<not> key_detected_callback s1"
    "tm_state (ht_timer (hk_timers s1) t) = HWTIMER_STATE_FREE"
    using close_ok [OF inv t(1)] assms(3) id by auto
  then obtain fs as es where rep: "ht_rep (hk_timers s1) fs as es" by (auto simp: key_closed_def timers_ok_def ht_inv_def)
  have "t \<in> set fs" using states_okD(1) [OF ht_repD(7) [OF rep] t(2)] s1(4) by simp
  then obtain f fs' where fs: "fs = f # fs'" by (cases fs) auto
  obtain h where "hwtimer_alloc (Some 0) 0 (hk_timers s1) = Some (Some f, h)"
    using hwtimer_alloc_ok [of "hk_timers s1" f fs' as es "Some 0" 0] rep fs by blast
  then obtain s2 where s2: "hal_key_open cfg cb (s1\<lparr>key_events := []\<rparr>) = Some (0, s2)"
    by (simp add: open_steps)
  have "key_closed (s1\<lparr>key_events := []\<rparr>)" using s1(2) by (simp add: key_closed_def)
  then have "key_reach cfg s2" using key_reach.opened [OF _ _ s2] by simp
  with s1 s2 id show ?thesis by blast
qed

theorem key_close_open_witness:
  "\<exists>s s1. hal_key_open board True key_boot = Some (0, s) \<and> hal_key_close board s = Some (0, s1) \<and> key_closed s1"
proof -
  obtain s where s: "hal_key_open board True key_boot = Some (0, s)" "key_reach board s" using board_reach by blast
  obtain t h where t: "hwtimer_alloc (Some 0) 0 (hk_timers key_boot) = Some (Some t, h)"
    "s = hal_gpiokey_enable_allint board (opened board True (Some t) h key_boot)"
    using s(1) by (auto simp: open_steps Option.bind_eq_Some_conv)
  have "tm_state (ht_timer h t) = HWTIMER_STATE_ALLOC"
    using t(1) by (auto simp: hwtimer_alloc_def Option.bind_eq_Some_conv split: option.splits)
  moreover have "hk_timers s = h" "timer_id s = t"
    using enable_allint_frame [of board "opened board True (Some t) h key_boot"] t(2)
    by (auto simp: opened_def timer_id_def)
  ultimately show ?thesis using s key_close_open [OF board_ok s(2), of True] by auto
qed

end
