(* ===== verification/Key_Adc.thy ===== *)
theory Key_Adc
  imports Hal_Key
begin

text \<open>The resistor ladder of the ADC keys: the voltage table of \<open>hal_adckey_open\<close> cuts the range into windows of
  equal width, one per key.\<close>

lemma findkey_loop_first:
  assumes "i < length vs" "length vs \<le> length ks" "volt \<le> vs ! i" "\<And>j. j < i \<Longrightarrow> \<not> volt \<le> vs ! j"
  shows "findkey_loop vs ks volt = ks ! i"
  using assms
proof (induction vs ks volt arbitrary: i rule: findkey_loop.induct)
  case (1 v vs k ks volt)
  show ?case
  proof (cases i)
    case (Suc i')
    have "\<not> volt \<le> v" using 1(5) [of 0] Suc by simp
    moreover have "findkey_loop vs ks volt = ks ! i'"
      using 1(2-4) Suc 1(5) [of "Suc j" for j] by (intro 1(1) [OF \<open>\<not> volt \<le> v\<close>]) auto
    ultimately show ?thesis using Suc by simp
  qed (use 1 in simp)
qed auto

lemma ladder_fold:
  assumes "m \<le> n" "0 < n" "length tab = n" "tab ! 0 = v0" "1 \<le> m"
  shows "length (fold (\<lambda>i tab. tab[i := f (tab ! (i - 1))]) [1..<m] tab) = n \<and>
    (\<forall>j < m. fold (\<lambda>i tab. tab[i := f (tab ! (i - 1))]) [1..<m] tab ! j = (f ^^ j) v0)"
  using assms(5,1)
proof (induction m rule: dec_induct)
  case base
  then show ?case using assms by simp
next
  case (step m)
  define t where "t = fold (\<lambda>i tab. tab[i := f (tab ! (i - 1))]) [1..<m] tab"
  have t: "length t = n" "\<forall>j < m. t ! j = (f ^^ j) v0" using step by (simp_all add: t_def)
  have up: "[1..<Suc m] = [1..<m] @ [m]" using step.hyps by simp
  have "t ! (m - 1) = (f ^^ (m - 1)) v0" using t(2) step.hyps by simp
  then have fm: "f (t ! (m - 1)) = (f ^^ m) v0"
    using step.hyps by (metis (no_types) Suc_pred' comp_apply funpow.simps(2) less_le_trans zero_less_one)
  have "t[m := f (t ! (m - 1))] ! j = (f ^^ j) v0" if "j < Suc m" for j
    using that t fm step by (cases "j = m") auto
  then show ?case using t(1) by (simp only: up fold_append comp_apply fold_simps t_def [symmetric] length_list_update) simp
qed

lemma ladder_step:
  assumes "b + Suc j * v < 2 ^ 16"
  shows "((\<lambda>x :: u16. ucast (ucast x + of_nat v :: u32) :: u16) ^^ j) (of_nat (b + v)) = of_nat (b + Suc j * v)"
  using assms
proof (induction j)
  case (Suc j)
  have u: "ucast (of_nat k :: u16) = (of_nat k :: u32)" if "k < 2 ^ 16" for k
    using that by (intro word_unat_eq_iff [THEN iffD2]) (simp add: unsigned_ucast_eq unat_of_nat take_bit_nat_eq_self)
  have narrow: "ucast (of_nat k :: u32) = (of_nat k :: u16)" for k
    by (simp add: unsigned_of_nat word_of_nat_eq_iff)
  have le: "b + Suc j * v < 2 ^ 16" using Suc.prems by simp
  have "((\<lambda>x :: u16. ucast (ucast x + of_nat v :: u32) :: u16) ^^ Suc j) (of_nat (b + v)) =
      ucast (of_nat (b + Suc j * v) + of_nat v :: u32)"
    by (simp only: funpow.simps(2) comp_apply Suc.IH [OF le] u [OF le])
  also have "\<dots> = of_nat (b + Suc (Suc j) * v)"
    unfolding of_nat_add [symmetric] narrow by (simp add: algebra_simps)
  finally show ?case .
qed simp

text \<open>The width of a window and the window a voltage falls into.\<close>

definition window :: "key_cfg \<Rightarrow> u16 \<Rightarrow> nat" where
  "window cfg volt = min ((unat volt - unat (CFG_HW_ADCKEY_ADC_KEYVOLT_BASE cfg) - 1) div unat (adckey_basevolt cfg))
     (CFG_HW_ADCKEY_NUMBER cfg - 1)"

definition ladder_ok :: "key_cfg \<Rightarrow> bool" where
  "ladder_ok cfg \<longleftrightarrow> 0 < CFG_HW_ADCKEY_NUMBER cfg \<and> length (CFG_HW_ADCKEY_MAP_TABLE cfg) = CFG_HW_ADCKEY_NUMBER cfg \<and>
     0 < unat (adckey_basevolt cfg) \<and> unat (CFG_HW_ADCKEY_ADC_MAXVOLT cfg) < 2 ^ 16 \<and>
     unat (CFG_HW_ADCKEY_ADC_KEYVOLT_BASE cfg) + CFG_HW_ADCKEY_NUMBER cfg * unat (adckey_basevolt cfg) < 2 ^ 16"

lemma open_table:
  fixes s :: hal_key
  assumes "ladder_ok cfg"
  defines "n \<equiv> CFG_HW_ADCKEY_NUMBER cfg"
  defines "tab \<equiv> adckey_volt_table (hal_adckey_open cfg s)"
  shows "length tab = n" "tab ! (n - 1) = ucast (CFG_HW_ADCKEY_ADC_MAXVOLT cfg)"
    "\<And>j. j < n - 1 \<Longrightarrow> unat (tab ! j) = unat (CFG_HW_ADCKEY_ADC_KEYVOLT_BASE cfg) + Suc j * unat (adckey_basevolt cfg)"
proof -
  define b v where "b = unat (CFG_HW_ADCKEY_ADC_KEYVOLT_BASE cfg)" and "v = unat (adckey_basevolt cfg)"
  have bv: "CFG_HW_ADCKEY_ADC_KEYVOLT_BASE cfg = of_nat b" "adckey_basevolt cfg = of_nat v"
    by (simp_all add: b_def v_def)
  have n: "0 < n" "b + n * v < 2 ^ 16" using assms(1) by (simp_all add: ladder_ok_def n_def b_def v_def)
  define f where "f = (\<lambda>x :: u16. ucast (ucast x + of_nat v :: u32) :: u16)"
  define t0 where "t0 = (replicate n (0 :: u16))[0 := ucast (of_nat b + of_nat v :: u32)]"
  have t0: "length t0 = n" "t0 ! 0 = of_nat (b + v)"
    using n(1) by (simp_all add: t0_def of_nat_add [symmetric] unsigned_of_nat word_of_nat_eq_iff del: of_nat_add)
  define t1 where "t1 = fold (\<lambda>i tab. tab[i := f (tab ! (i - 1))]) [1..<n - 1] t0"
  have tab: "tab = t1[n - 1 := ucast (CFG_HW_ADCKEY_ADC_MAXVOLT cfg)]"
    by (simp add: tab_def hal_adckey_open_def Let_def t1_def t0_def f_def n_def [symmetric] bv)
  have len: "length t1 = n"
  proof (cases "1 \<le> n - 1")
    case True
    then show ?thesis using ladder_fold [OF _ n(1) t0, of "n - 1" f] by (simp add: t1_def)
  qed (use t0(1) in \<open>simp add: t1_def\<close>)
  have el: "t1 ! j = (f ^^ j) (of_nat (b + v))" if "j < n - 1" for j
    using that ladder_fold [OF _ n(1) t0, of "n - 1" f] by (simp add: t1_def)
  show "length tab = n" using len by (simp add: tab)
  show "tab ! (n - 1) = ucast (CFG_HW_ADCKEY_ADC_MAXVOLT cfg)" using len n(1) by (simp add: tab)
  fix j assume j: "j < n - 1"
  have le: "b + Suc j * v < 2 ^ 16"
  proof -
    have "Suc j * v \<le> n * v" using j by (intro mult_le_mono1) simp
    with n(2) show ?thesis by simp
  qed
  have "tab ! j = of_nat (b + Suc j * v)"
    using el [OF j] j ladder_step [OF le] by (simp add: tab f_def)
  then show "unat (tab ! j) = unat (CFG_HW_ADCKEY_ADC_KEYVOLT_BASE cfg) + Suc j * unat (adckey_basevolt cfg)"
    using le by (simp only: unat_of_nat b_def [symmetric] v_def [symmetric]) (simp add: take_bit_nat_eq_self)
qed

lemma window_bounds:
  fixes x b v q :: nat
  assumes "0 < v" "b < x" "q = (x - b - 1) div v"
  shows "x \<le> b + Suc q * v" "j < q \<Longrightarrow> b + Suc j * v < x"
proof -
  have "x - b - 1 < Suc q * v" using dividend_less_div_times [OF assms(1), of "x - b - 1"] by (simp add: assms(3) add.commute)
  then show "x \<le> b + Suc q * v" by simp
  assume "j < q"
  then have "Suc j * v \<le> q * v" by (intro mult_le_mono1) simp
  also have "\<dots> \<le> x - b - 1" by (simp add: assms(3) div_times_less_eq_dividend)
  finally show "b + Suc j * v < x" using assms(2) by linarith
qed

text \<open>After the driver is opened, a voltage between the base and the maximum selects the key of its window, the
  windows being equally wide from the base up and the last one reaching to the maximum; any other voltage
  selects no key.\<close>

theorem adckey_windows:
  assumes "ladder_ok cfg"
  shows "hal_adckey_findkey cfg volt (hal_adckey_open cfg s) =
    (if unat (CFG_HW_ADCKEY_ADC_KEYVOLT_BASE cfg) < unat volt \<and> unat volt < unat (CFG_HW_ADCKEY_ADC_MAXVOLT cfg)
     then CFG_HW_ADCKEY_MAP_TABLE cfg ! window cfg volt else HAL_KEY_CODE_NONE)"
proof -
  define b v n where "b = unat (CFG_HW_ADCKEY_ADC_KEYVOLT_BASE cfg)" and "v = unat (adckey_basevolt cfg)"
    and "n = CFG_HW_ADCKEY_NUMBER cfg"
  define tab where "tab = adckey_volt_table (hal_adckey_open cfg s)"
  have c: "0 < n" "length (CFG_HW_ADCKEY_MAP_TABLE cfg) = n" "0 < v" "unat (CFG_HW_ADCKEY_ADC_MAXVOLT cfg) < 2 ^ 16"
    using assms by (simp_all add: ladder_ok_def n_def v_def)
  note t = open_table [OF assms, where s = s, folded tab_def n_def b_def v_def]
  have cast: "unat (ucast volt :: u32) = unat volt"
    using unsigned_less [of volt, where ?'a = nat] by (simp add: unsigned_ucast_eq take_bit_nat_eq_self)
  have "findkey_loop tab (CFG_HW_ADCKEY_MAP_TABLE cfg) volt = CFG_HW_ADCKEY_MAP_TABLE cfg ! window cfg volt"
    if range: "b < unat volt" "unat volt < unat (CFG_HW_ADCKEY_ADC_MAXVOLT cfg)"
  proof (rule findkey_loop_first)
    define q where "q = (unat volt - b - 1) div v"
    have w: "window cfg volt = min q (n - 1)" by (simp add: window_def q_def b_def v_def n_def)
    note wb = window_bounds [OF c(3) range(1) q_def]
    show "window cfg volt < length tab" using t(1) c(1) by (simp add: w)
    show "length tab \<le> length (CFG_HW_ADCKEY_MAP_TABLE cfg)" using t(1) c(2) by simp
    show "volt \<le> tab ! window cfg volt"
    proof (cases "q < n - 1")
      case True
      then show ?thesis using wb(1) t(3) [OF True] by (simp add: w word_le_nat_alt)
    next
      case False
      have "unat (ucast (CFG_HW_ADCKEY_ADC_MAXVOLT cfg) :: u16) = unat (CFG_HW_ADCKEY_ADC_MAXVOLT cfg)"
        using c(4) by (simp add: unsigned_ucast_eq take_bit_nat_eq_self)
      with False range(2) t(2) show ?thesis by (simp add: w word_le_nat_alt)
    qed
    fix j assume "j < window cfg volt"
    then have j: "j < q" "j < n - 1" by (simp_all add: w)
    show "\<not> volt \<le> tab ! j" using wb(2) [OF j(1)] t(3) [OF j(2)] by (simp add: word_le_nat_alt)
  qed
  then show ?thesis
    by (simp add: hal_adckey_findkey_def word_less_nat_alt cast tab_def [symmetric] b_def [symmetric])
qed

definition ladder_board :: key_cfg where
  "ladder_board = \<lparr>cfg_hw_gpio_key_cfg = [], CFG_HW_ADCKEY_NUMBER = 3, CFG_HW_ADCKEY_MAP_TABLE = [8, 16, 32],
     CFG_HW_ADCKEY_ADC_KEYVOLT_BASE = 100, CFG_HW_ADCKEY_ADC_MINVOLT = 0, CFG_HW_ADCKEY_ADC_MAXVOLT = 1000\<rparr>"

theorem adckey_windows_witness:
  "\<forall>s. hal_adckey_findkey ladder_board 350 (hal_adckey_open ladder_board s) = 16"
  by (rule allI, subst adckey_windows)
    (simp_all add: ladder_ok_def ladder_board_def adckey_basevolt_def window_def unat_div)

end
