(* ===== verification/Transq.thy ===== *)
theory Transq
  imports Bit_Loops
begin

text \<open>
  The message queues between two processors, \<^verbatim>\<open>platform/hal/hal_transq.c\<close>. A queue is a block of 32 slots in
  shared hardware: the sender writes the address and length of a message into a slot and raises its request
  bit; the receiver takes the message and clears the bit, and the hardware raises the slot's done bit for
  the sender. The slots of a block are divided into two rings, of normal and of high priority.

  A processor sends on its own block (\<open>transq[id]\<close>) and receives on its peer's (\<open>peer_transq[id]\<close>). The
  registers that are not plain storage are the request bits, which are set by writing \<open>RMT_INTSET\<close> and
  cleared by writing \<open>RMT_INTCLR\<close>, the done and error bits and the masked views \<open>MIS\<close>. The handlers that the
  client registers are recorded in \<open>tq_rx_calls\<close> and \<open>tq_tx_calls\<close>. A failed assertion and a shift by 32 are \<open>None\<close>.
  The number of queues, \<open>qty\<close>, is 1 or 2 in the builds that have them.
\<close>

section \<open>Data\<close>

datatype transq_ret = HAL_TRANSQ_RET_OK | HAL_TRANSQ_RET_BAD_ID | HAL_TRANSQ_RET_BAD_PRI | HAL_TRANSQ_RET_BAD_CFG
  | HAL_TRANSQ_RET_BAD_SLOT | HAL_TRANSQ_RET_BAD_TX_NUM | HAL_TRANSQ_RET_BAD_RX_NUM | HAL_TRANSQ_RET_BAD_MODE
  | HAL_TRANSQ_RET_RX_EMPTY | HAL_TRANSQ_RET_TX_FULL

definition TRANSQ_SLOT_NUM :: nat where "TRANSQ_SLOT_NUM = 32"

definition HAL_TRANSQ_PRI_NORMAL :: nat where [simp]: "HAL_TRANSQ_PRI_NORMAL = 0"
definition HAL_TRANSQ_PRI_HIGH :: nat where [simp]: "HAL_TRANSQ_PRI_HIGH = 1"
definition HAL_TRANSQ_PRI_QTY :: nat where "HAL_TRANSQ_PRI_QTY = 2"

type_synonym msg = "u32 \<times> u32"

record transq_block =
  tb_ctrl :: u32
  tb_rmt_intmask :: u32
  tb_rmt_ris :: u32
  tb_ldone_intmask :: u32
  tb_ldone_ris :: u32
  tb_lerr_intmask :: u32
  tb_lerr_ris :: u32
  tb_slot :: "nat \<Rightarrow> msg"

definition rmt_intset :: "u32 \<Rightarrow> transq_block \<Rightarrow> transq_block" where
  "rmt_intset w b = b\<lparr>tb_rmt_ris := tb_rmt_ris b OR w, tb_lerr_ris := tb_lerr_ris b OR (tb_rmt_ris b AND w)\<rparr>"

definition rmt_intclr :: "u32 \<Rightarrow> transq_block \<Rightarrow> transq_block" where
  "rmt_intclr w b = b\<lparr>tb_rmt_ris := tb_rmt_ris b AND NOT w, tb_ldone_ris := tb_ldone_ris b OR (tb_rmt_ris b AND w)\<rparr>"

definition ldone_intclr :: "u32 \<Rightarrow> transq_block \<Rightarrow> transq_block" where
  "ldone_intclr w b = b\<lparr>tb_ldone_ris := tb_ldone_ris b AND NOT w\<rparr>"

definition lerr_intclr :: "u32 \<Rightarrow> transq_block \<Rightarrow> transq_block" where
  "lerr_intclr w b = b\<lparr>tb_lerr_ris := tb_lerr_ris b AND NOT w\<rparr>"

definition rmt_mis :: "transq_block \<Rightarrow> u32" where "rmt_mis b = tb_rmt_ris b AND tb_rmt_intmask b"
definition ldone_mis :: "transq_block \<Rightarrow> u32" where "ldone_mis b = tb_ldone_ris b AND tb_ldone_intmask b"
definition lerr_mis :: "transq_block \<Rightarrow> u32" where "lerr_mis b = tb_lerr_ris b AND tb_lerr_intmask b"

record slot_num =
  sn_tx_num :: "nat \<Rightarrow> nat"
  sn_rx_num :: "nat \<Rightarrow> nat"

record transq_cfg =
  tc_slot :: slot_num
  tc_rx_handler :: bool
  tc_tx_handler :: bool

record transq =
  tq_cfg :: transq_cfg
  next_tx_slot :: "nat \<Rightarrow> nat"
  active_tx_slot :: "nat \<Rightarrow> nat"
  tx_slot_full :: "nat \<Rightarrow> bool"
  next_rx_slot :: "nat \<Rightarrow> nat"
  rx_irq_mask :: "nat \<Rightarrow> u32"
  tq_local :: transq_block
  tq_peer :: transq_block
  tq_remote_irq :: bool
  tq_local_irq :: bool
  tq_rx_calls :: "nat list"
  tq_tx_calls :: "(nat \<times> msg) list"

definition upd_local :: "(transq_block \<Rightarrow> transq_block) \<Rightarrow> transq \<Rightarrow> transq" where
  "upd_local f c = c\<lparr>tq_local := f (tq_local c)\<rparr>"

definition upd_peer :: "(transq_block \<Rightarrow> transq_block) \<Rightarrow> transq \<Rightarrow> transq" where
  "upd_peer f c = c\<lparr>tq_peer := f (tq_peer c)\<rparr>"

abbreviation "tx_num c \<equiv> sn_tx_num (tc_slot (tq_cfg c))"
abbreviation "rx_num c \<equiv> sn_rx_num (tc_slot (tq_cfg c))"

section \<open>One queue\<close>

definition construct_mask :: "nat \<Rightarrow> nat \<Rightarrow> u32" where
  "construct_mask lsb width =
     (if lsb \<ge> 32 \<or> width = 0 then 0 else fold (\<lambda>i result. result OR push_bit i 1) [lsb..<lsb + width] 0)"

definition get_next_rx_slot :: "nat \<Rightarrow> nat \<Rightarrow> transq \<Rightarrow> nat" where
  "get_next_rx_slot pri slot c =
     (let slot = slot + 1 in
      if pri = HAL_TRANSQ_PRI_HIGH
      then (if slot \<ge> TRANSQ_SLOT_NUM then TRANSQ_SLOT_NUM - rx_num c pri else slot)
      else (if slot \<ge> rx_num c pri then 0 else slot))"

definition get_next_tx_slot :: "nat \<Rightarrow> nat \<Rightarrow> transq \<Rightarrow> nat" where
  "get_next_tx_slot pri slot c =
     (let slot = slot + 1 in
      if pri = HAL_TRANSQ_PRI_HIGH
      then (if slot \<ge> TRANSQ_SLOT_NUM then TRANSQ_SLOT_NUM - tx_num c pri else slot)
      else (if slot \<ge> tx_num c pri then 0 else slot))"

definition slot_pending :: "u32 \<Rightarrow> nat \<Rightarrow> bool" where
  "slot_pending status slot \<longleftrightarrow> slot < TRANSQ_SLOT_NUM \<and> status AND push_bit slot 1 \<noteq> 0"

text \<open>One round of the loop of \<open>hal_transq_remote_irq_handler\<close>.\<close>

definition remote_irq_step :: "transq \<Rightarrow> transq option" where
  "remote_irq_step c = do {
     let status = rmt_mis (tq_peer c);
     pri \<leftarrow> (if slot_pending status (next_rx_slot c HAL_TRANSQ_PRI_HIGH) then Some HAL_TRANSQ_PRI_HIGH
             else do {
               check (slot_pending status (next_rx_slot c HAL_TRANSQ_PRI_NORMAL));
               Some HAL_TRANSQ_PRI_NORMAL });
     let c = upd_peer (\<lambda>b. b\<lparr>tb_rmt_intmask := tb_rmt_intmask b AND NOT (rx_irq_mask c pri)\<rparr>) c;
     Some (if tc_rx_handler (tq_cfg c) then c\<lparr>tq_rx_calls := tq_rx_calls c @ [pri]\<rparr> else c) }"

partial_function (option) hal_transq_remote_irq_handler :: "transq \<Rightarrow> transq option" where
  "hal_transq_remote_irq_handler c =
     (if rmt_mis (tq_peer c) \<noteq> 0 then Option.bind (remote_irq_step c) hal_transq_remote_irq_handler else Some c)"

definition hal_transq_active_tx_valid :: "nat \<Rightarrow> transq \<Rightarrow> bool" where
  "hal_transq_active_tx_valid pri c \<longleftrightarrow> active_tx_slot c pri \<ge> TRANSQ_SLOT_NUM \<or>
     active_tx_slot c pri \<noteq> next_tx_slot c pri \<or> tx_slot_full c pri"

text \<open>What the handler and \<open>hal_transq_get_tx_status\<close> do with a slot that is done.\<close>

definition tx_done :: "nat \<Rightarrow> nat \<Rightarrow> transq \<Rightarrow> transq" where
  "tx_done pri slot c =
     (let c = upd_local (ldone_intclr (push_bit slot 1)) c;
          next_slot = get_next_tx_slot pri slot c in
      if \<not> tx_slot_full c pri \<and> next_slot = next_tx_slot c pri
      then c\<lparr>active_tx_slot := (active_tx_slot c)(pri := TRANSQ_SLOT_NUM)\<rparr>
      else (let c = c\<lparr>tx_slot_full := (tx_slot_full c)(pri := False)\<rparr> in
            if tx_num c pri = 1
            then c\<lparr>active_tx_slot := (active_tx_slot c)(pri := TRANSQ_SLOT_NUM)\<rparr>
            else c\<lparr>active_tx_slot := (active_tx_slot c)(pri := next_slot)\<rparr>))"

text \<open>One round of the second loop of \<open>hal_transq_local_irq_handler\<close>.\<close>

definition local_irq_step :: "transq \<Rightarrow> transq option" where
  "local_irq_step c =
     (if tc_tx_handler (tq_cfg c) then do {
        let status = ldone_mis (tq_local c);
        check (hal_transq_active_tx_valid HAL_TRANSQ_PRI_HIGH c);
        check (hal_transq_active_tx_valid HAL_TRANSQ_PRI_NORMAL c);
        pri \<leftarrow> (if slot_pending status (active_tx_slot c HAL_TRANSQ_PRI_HIGH) then Some HAL_TRANSQ_PRI_HIGH
                else do {
                  check (slot_pending status (active_tx_slot c HAL_TRANSQ_PRI_NORMAL));
                  Some HAL_TRANSQ_PRI_NORMAL });
        let slot = active_tx_slot c pri;
        let c = tx_done pri slot c;
        Some (c\<lparr>tq_tx_calls := tq_tx_calls c @ [(pri, tb_slot (tq_local c) slot)]\<rparr>) }
      else Some (upd_local (\<lambda>b. b\<lparr>tb_ldone_intmask := 0\<rparr>) c))"

partial_function (option) local_irq_loop :: "transq \<Rightarrow> transq option" where
  "local_irq_loop c =
     (if ldone_mis (tq_local c) \<noteq> 0 then Option.bind (local_irq_step c) local_irq_loop else Some c)"

definition hal_transq_local_irq_handler :: "transq \<Rightarrow> transq option" where
  "hal_transq_local_irq_handler c = do {
     check (lerr_mis (tq_local c) = 0);
     local_irq_loop c }"

section \<open>The queues of a processor\<close>

type_synonym transqs = "nat \<Rightarrow> transq"

definition hal_transq_get_rx_status :: "nat \<Rightarrow> nat \<Rightarrow> nat \<Rightarrow> transqs \<Rightarrow> transq_ret \<times> bool" where
  "hal_transq_get_rx_status qty qid pri S =
     (if qid \<ge> qty then (HAL_TRANSQ_RET_BAD_ID, False)
      else if pri \<ge> HAL_TRANSQ_PRI_QTY then (HAL_TRANSQ_RET_BAD_PRI, False)
      else if rx_num (S qid) pri = 0 then (HAL_TRANSQ_RET_BAD_RX_NUM, False)
      else if tc_rx_handler (tq_cfg (S qid)) then (HAL_TRANSQ_RET_BAD_MODE, False)
      else (HAL_TRANSQ_RET_OK, slot_pending (tb_rmt_ris (tq_peer (S qid))) (next_rx_slot (S qid) pri)))"

definition get_tx_status :: "nat \<Rightarrow> transq \<Rightarrow> (bool \<times> transq) option" where
  "get_tx_status pri c = do {
     let slot = active_tx_slot c pri;
     check (hal_transq_active_tx_valid pri c);
     check (slot < 32);
     if tb_ldone_ris (tq_local c) AND push_bit slot 1 \<noteq> 0 then Some (True, tx_done pri slot c) else Some (False, c) }"

definition hal_transq_get_tx_status :: "nat \<Rightarrow> nat \<Rightarrow> nat \<Rightarrow> transqs \<Rightarrow> (transq_ret \<times> bool \<times> transqs) option" where
  "hal_transq_get_tx_status qty qid pri S =
     (if qid \<ge> qty then Some (HAL_TRANSQ_RET_BAD_ID, False, S)
      else if pri \<ge> HAL_TRANSQ_PRI_QTY then Some (HAL_TRANSQ_RET_BAD_PRI, False, S)
      else if tx_num (S qid) pri = 0 then Some (HAL_TRANSQ_RET_BAD_TX_NUM, False, S)
      else if tc_tx_handler (tq_cfg (S qid)) then Some (HAL_TRANSQ_RET_BAD_MODE, False, S)
      else do {
        (done, c) \<leftarrow> get_tx_status pri (S qid);
        Some (HAL_TRANSQ_RET_OK, done, S(qid := c)) })"

definition rx_first :: "nat \<Rightarrow> transq \<Rightarrow> transq_ret \<times> msg \<times> transq" where
  "rx_first pri c =
     (let slot = next_rx_slot c pri in
      if slot_pending (tb_rmt_ris (tq_peer c)) slot then (HAL_TRANSQ_RET_OK, tb_slot (tq_peer c) slot, c)
      else (HAL_TRANSQ_RET_RX_EMPTY, (0, 0),
        upd_peer (\<lambda>b. b\<lparr>tb_rmt_intmask := tb_rmt_intmask b OR rx_irq_mask c pri\<rparr>) c))"

definition rx_next :: "nat \<Rightarrow> transq \<Rightarrow> transq_ret \<times> msg \<times> transq" where
  "rx_next pri c =
     (let slot = next_rx_slot c pri;
          enable = (\<lambda>c. upd_peer (\<lambda>b. b\<lparr>tb_rmt_intmask := tb_rmt_intmask b OR rx_irq_mask c pri\<rparr>) c) in
      if slot_pending (tb_rmt_ris (tq_peer c)) slot then
        (let c = upd_peer (rmt_intclr (push_bit slot 1)) c;
             slot = get_next_rx_slot pri slot c;
             c = c\<lparr>next_rx_slot := (next_rx_slot c)(pri := slot)\<rparr> in
         if slot_pending (tb_rmt_ris (tq_peer c)) slot then (HAL_TRANSQ_RET_OK, tb_slot (tq_peer c) slot, c)
         else (HAL_TRANSQ_RET_RX_EMPTY, (0, 0), enable c))
      else (HAL_TRANSQ_RET_RX_EMPTY, (0, 0), enable c))"

definition rx_call ::
  "(nat \<Rightarrow> transq \<Rightarrow> transq_ret \<times> msg \<times> transq) \<Rightarrow> nat \<Rightarrow> nat \<Rightarrow> nat \<Rightarrow> transqs \<Rightarrow> transq_ret \<times> msg \<times> transqs" where
  "rx_call f qty qid pri S =
     (if qid \<ge> qty then (HAL_TRANSQ_RET_BAD_ID, (0, 0), S)
      else if pri \<ge> HAL_TRANSQ_PRI_QTY then (HAL_TRANSQ_RET_BAD_PRI, (0, 0), S)
      else if rx_num (S qid) pri = 0 then (HAL_TRANSQ_RET_BAD_RX_NUM, (0, 0), S)
      else (let (ret, m, c) = f pri (S qid) in (ret, m, S(qid := c))))"

definition hal_transq_rx_first :: "nat \<Rightarrow> nat \<Rightarrow> nat \<Rightarrow> transqs \<Rightarrow> transq_ret \<times> msg \<times> transqs" where
  "hal_transq_rx_first = rx_call rx_first"

definition hal_transq_rx_next :: "nat \<Rightarrow> nat \<Rightarrow> nat \<Rightarrow> transqs \<Rightarrow> transq_ret \<times> msg \<times> transqs" where
  "hal_transq_rx_next = rx_call rx_next"

definition tx :: "nat \<Rightarrow> msg \<Rightarrow> transq \<Rightarrow> transq_ret \<times> transq" where
  "tx pri m c =
     (if tx_slot_full c pri then (HAL_TRANSQ_RET_TX_FULL, c)
      else
        (let slot = next_tx_slot c pri;
             c = upd_local (\<lambda>b. b\<lparr>tb_slot := (tb_slot b)(slot := m)\<rparr>) c;
             c = upd_local (rmt_intset (push_bit slot 1)) c;
             c = (if active_tx_slot c pri \<ge> TRANSQ_SLOT_NUM
                  then c\<lparr>active_tx_slot := (active_tx_slot c)(pri := slot)\<rparr> else c);
             c = c\<lparr>next_tx_slot := (next_tx_slot c)(pri := get_next_tx_slot pri slot c)\<rparr>;
             c = (if next_tx_slot c pri = active_tx_slot c pri
                  then c\<lparr>tx_slot_full := (tx_slot_full c)(pri := True)\<rparr> else c) in
         (HAL_TRANSQ_RET_OK, c)))"

definition hal_transq_tx :: "nat \<Rightarrow> nat \<Rightarrow> nat \<Rightarrow> msg \<Rightarrow> transqs \<Rightarrow> transq_ret \<times> transqs" where
  "hal_transq_tx qty qid pri m S =
     (if qid \<ge> qty then (HAL_TRANSQ_RET_BAD_ID, S)
      else if pri \<ge> HAL_TRANSQ_PRI_QTY then (HAL_TRANSQ_RET_BAD_PRI, S)
      else if tx_num (S qid) pri = 0 then (HAL_TRANSQ_RET_BAD_TX_NUM, S)
      else (let (ret, c) = tx pri m (S qid) in (ret, S(qid := c))))"

definition update_num :: "slot_num \<Rightarrow> transq \<Rightarrow> transq_ret \<times> transq" where
  "update_num slot c =
     (if sn_tx_num slot HAL_TRANSQ_PRI_NORMAL + sn_tx_num slot HAL_TRANSQ_PRI_HIGH > TRANSQ_SLOT_NUM
      then (HAL_TRANSQ_RET_BAD_TX_NUM, c)
      else if sn_rx_num slot HAL_TRANSQ_PRI_NORMAL + sn_rx_num slot HAL_TRANSQ_PRI_HIGH > TRANSQ_SLOT_NUM
      then (HAL_TRANSQ_RET_BAD_RX_NUM, c)
      else
        (let c = c\<lparr>tq_cfg := (tq_cfg c)\<lparr>tc_slot := slot\<rparr>\<rparr>;
             c = c\<lparr>rx_irq_mask := (rx_irq_mask c)
               (HAL_TRANSQ_PRI_NORMAL := construct_mask 0 (sn_rx_num slot HAL_TRANSQ_PRI_NORMAL),
                HAL_TRANSQ_PRI_HIGH := construct_mask (TRANSQ_SLOT_NUM - sn_rx_num slot HAL_TRANSQ_PRI_HIGH)
                  (sn_rx_num slot HAL_TRANSQ_PRI_HIGH))\<rparr>;
             tx_mask = construct_mask 0 (sn_tx_num slot HAL_TRANSQ_PRI_NORMAL) OR
               construct_mask (TRANSQ_SLOT_NUM - sn_tx_num slot HAL_TRANSQ_PRI_HIGH) (sn_tx_num slot HAL_TRANSQ_PRI_HIGH) in
         (HAL_TRANSQ_RET_OK, upd_local (\<lambda>b. b\<lparr>tb_rmt_intmask := tx_mask, tb_lerr_intmask := tx_mask,
           tb_ldone_intmask := (if tc_tx_handler (tq_cfg c) then tx_mask else 0)\<rparr>) c)))"

definition hal_transq_update_num :: "nat \<Rightarrow> nat \<Rightarrow> slot_num option \<Rightarrow> transqs \<Rightarrow> transq_ret \<times> transqs" where
  "hal_transq_update_num qty qid slot S =
     (if qid \<ge> qty then (HAL_TRANSQ_RET_BAD_ID, S)
      else case slot of None \<Rightarrow> (HAL_TRANSQ_RET_BAD_SLOT, S)
        | Some sl \<Rightarrow> (let (ret, c) = update_num sl (S qid) in (ret, S(qid := c))))"

definition open_slots :: "slot_num \<Rightarrow> transq \<Rightarrow> transq" where
  "open_slots slot c = c\<lparr>
     next_tx_slot := (next_tx_slot c)
       (HAL_TRANSQ_PRI_NORMAL := if sn_tx_num slot HAL_TRANSQ_PRI_NORMAL \<noteq> 0 then 0 else TRANSQ_SLOT_NUM,
        HAL_TRANSQ_PRI_HIGH := if sn_tx_num slot HAL_TRANSQ_PRI_HIGH \<noteq> 0
          then TRANSQ_SLOT_NUM - sn_tx_num slot HAL_TRANSQ_PRI_HIGH else TRANSQ_SLOT_NUM),
     active_tx_slot := (active_tx_slot c)(HAL_TRANSQ_PRI_NORMAL := TRANSQ_SLOT_NUM, HAL_TRANSQ_PRI_HIGH := TRANSQ_SLOT_NUM),
     tx_slot_full := (tx_slot_full c)(HAL_TRANSQ_PRI_NORMAL := False, HAL_TRANSQ_PRI_HIGH := False),
     next_rx_slot := (next_rx_slot c)
       (HAL_TRANSQ_PRI_NORMAL := if sn_rx_num slot HAL_TRANSQ_PRI_NORMAL \<noteq> 0 then 0 else TRANSQ_SLOT_NUM,
        HAL_TRANSQ_PRI_HIGH := if sn_rx_num slot HAL_TRANSQ_PRI_HIGH \<noteq> 0
          then TRANSQ_SLOT_NUM - sn_rx_num slot HAL_TRANSQ_PRI_HIGH else TRANSQ_SLOT_NUM)\<rparr>"

definition hal_transq_open :: "nat \<Rightarrow> nat \<Rightarrow> transq_cfg option \<Rightarrow> transqs \<Rightarrow> transq_ret \<times> transqs" where
  "hal_transq_open qty qid cfg S =
     (if qid \<ge> qty then (HAL_TRANSQ_RET_BAD_ID, S)
      else case cfg of None \<Rightarrow> (HAL_TRANSQ_RET_BAD_CFG, S)
        | Some cf \<Rightarrow>
            (let S = S(qid := (S qid)\<lparr>tq_cfg := cf\<rparr>);
                 (ret, S) = hal_transq_update_num qty qid (Some (tc_slot cf)) S in
             if ret \<noteq> HAL_TRANSQ_RET_OK then (ret, S)
             else
               (let c = open_slots (tc_slot cf) (S qid);
                    c = upd_local (\<lambda>b. rmt_intclr (NOT 0) (lerr_intclr (NOT 0) (ldone_intclr (NOT 0) b))) c;
                    c = upd_local (\<lambda>b. b\<lparr>tb_ctrl := (if tc_tx_handler cf then 7 else 5)\<rparr>) c;
                    c = (if tc_rx_handler cf then c\<lparr>tq_remote_irq := True\<rparr> else c);
                    c = c\<lparr>tq_local_irq := True\<rparr> in
                (HAL_TRANSQ_RET_OK, S(qid := c)))))"

definition hal_transq_close :: "nat \<Rightarrow> nat \<Rightarrow> transqs \<Rightarrow> transq_ret \<times> transqs" where
  "hal_transq_close qty qid S =
     (if qid \<ge> qty then (HAL_TRANSQ_RET_BAD_ID, S)
      else (HAL_TRANSQ_RET_OK,
        S(qid := (upd_local (\<lambda>b. b\<lparr>tb_ctrl := 0\<rparr>) (S qid))\<lparr>tq_remote_irq := False, tq_local_irq := False\<rparr>)))"

end
