(* ===== verification/Transq_Ring.thy ===== *)
theory Transq_Ring
  imports Transq
begin

text \<open>
  One queue from end to end: the sender on its block and the receiver on the same block. The messages of a
  priority are numbered in the order they are sent; slot \<open>slot_of n p j\<close> carries message \<open>j\<close>. Of the messages
  sent the first \<open>r\<close> have been taken by the receiver and the first \<open>c\<close> of those confirmed to the sender.
\<close>

section \<open>Slots\<close>

definition slot_of :: "nat \<Rightarrow> nat \<Rightarrow> nat \<Rightarrow> nat" where
  "slot_of n p j = (if p = 0 then j mod n else 32 - n + j mod n)"

definition slots_ok :: "(nat \<Rightarrow> nat) \<Rightarrow> bool" where
  "slots_ok n \<longleftrightarrow> n 0 + n 1 \<le> 32"

lemma pri_cases: "p < 2 \<Longrightarrow> p = 0 \<or> p = (1 :: nat)"
  by auto

lemma slot_lt: "slots_ok n \<Longrightarrow> p < 2 \<Longrightarrow> 0 < n p \<Longrightarrow> slot_of (n p) p j < 32"
proof -
  assume a: "slots_ok n" "p < 2" "0 < n p"
  have "j mod n p < n p" using a(3) by simp
  then show ?thesis using pri_cases [OF a(2)] a(1) unfolding slot_of_def slots_ok_def by (elim disjE) simp_all
qed

lemma mod_window:
  fixes i j c n :: nat
  assumes "i mod n = j mod n" "c \<le> i" "i < c + n" "c \<le> j" "j < c + n"
  shows "i = j"
proof -
  have "int i mod int n = int j mod int n" using assms(1) by (metis of_nat_mod)
  then have "int n dvd int i - int j" by (simp add: mod_eq_dvd_iff)
  moreover have "\<bar>int i - int j\<bar> < int n" using assms by auto
  ultimately have "int i - int j = 0" using dvd_imp_le_int [of "int i - int j" "int n"] by fastforce
  then show ?thesis by simp
qed

lemma slot_eq:
  assumes "slots_ok n" "p < 2" "q < 2" "c p \<le> i" "i < c p + n p" "c q \<le> j" "j < c q + n q"
  shows "slot_of (n p) p i = slot_of (n q) q j \<longleftrightarrow> p = q \<and> i = j"
proof (cases "p = q")
  case True
  then have "slot_of (n p) p i = slot_of (n q) q j \<longleftrightarrow> i mod n p = j mod n p" by (auto simp: slot_of_def)
  with True assms mod_window [of i "n p" j "c p"] show ?thesis by auto
next
  case False
  have "i mod n p < n p" "j mod n q < n q" using assms by simp_all
  with False pri_cases [OF assms(2)] pri_cases [OF assms(3)] assms(1) show ?thesis
    by (auto simp: slot_of_def slots_ok_def)
qed

lemma slot_same: "slot_of n p i = slot_of n p j \<longleftrightarrow> i mod n = j mod n"
  by (simp add: slot_of_def)

definition ring_next :: "nat \<Rightarrow> nat \<Rightarrow> nat \<Rightarrow> nat" where
  "ring_next n p s = (if p = 1 then (if 32 \<le> Suc s then 32 - n else Suc s) else (if n \<le> Suc s then 0 else Suc s))"

lemma ring_next_slot:
  assumes "slots_ok n" "p < 2" "0 < n p"
  shows "ring_next (n p) p (slot_of (n p) p j) = slot_of (n p) p (Suc j)"
proof -
  have m: "j mod n p < n p" using assms(3) by simp
  have suc: "Suc j mod n p = (if Suc (j mod n p) = n p then 0 else Suc (j mod n p))" by (rule mod_Suc)
  from pri_cases [OF assms(2)] show ?thesis
  proof
    assume "p = 0"
    then show ?thesis using m suc by (simp add: ring_next_def slot_of_def)
  next
    assume p: "p = 1"
    then have "32 \<le> Suc (32 - n p + j mod n p) \<longleftrightarrow> Suc (j mod n p) = n p"
      using m assms(1) by (auto simp: slots_ok_def)
    then show ?thesis using p suc by (simp add: ring_next_def slot_of_def)
  qed
qed

lemma slot_next:
  assumes "slots_ok n" "p < 2" "0 < n p"
  shows "tx_num c p = n p \<Longrightarrow> get_next_tx_slot p (slot_of (n p) p j) c = slot_of (n p) p (Suc j)"
    "rx_num c p = n p \<Longrightarrow> get_next_rx_slot p (slot_of (n p) p j) c = slot_of (n p) p (Suc j)"
proof -
  have "get_next_tx_slot p s c = ring_next (tx_num c p) p s" "get_next_rx_slot p s c = ring_next (rx_num c p) p s" for s
    using assms(2) by (auto simp: get_next_tx_slot_def get_next_rx_slot_def ring_next_def TRANSQ_SLOT_NUM_def Let_def)
  then show "tx_num c p = n p \<Longrightarrow> get_next_tx_slot p (slot_of (n p) p j) c = slot_of (n p) p (Suc j)"
    "rx_num c p = n p \<Longrightarrow> get_next_rx_slot p (slot_of (n p) p j) c = slot_of (n p) p (Suc j)"
    using ring_next_slot [OF assms] by simp_all
qed

lemma slot_pending_bit: "slot_pending w s \<longleftrightarrow> bit w s"
  using bit_imp_le_length [of w s] by (auto simp: slot_pending_def TRANSQ_SLOT_NUM_def)

section \<open>The invariant\<close>

type_synonym counts = "nat \<Rightarrow> nat"

definition tx_ok :: "counts \<Rightarrow> (nat \<Rightarrow> msg list) \<Rightarrow> counts \<Rightarrow> transq \<Rightarrow> bool" where
  "tx_ok n ms c a \<longleftrightarrow> (\<forall>p < 2. tx_num a p = n p \<and> c p \<le> length (ms p) \<and> length (ms p) \<le> c p + n p \<and>
     next_tx_slot a p = (if n p = 0 then 32 else slot_of (n p) p (length (ms p))) \<and>
     active_tx_slot a p = (if c p = length (ms p) then 32 else slot_of (n p) p (c p)) \<and>
     (tx_slot_full a p \<longleftrightarrow> 0 < n p \<and> length (ms p) = c p + n p))"

definition rx_ok :: "counts \<Rightarrow> counts \<Rightarrow> transq \<Rightarrow> bool" where
  "rx_ok n r b \<longleftrightarrow> (\<forall>p < 2. rx_num b p = n p \<and> next_rx_slot b p = (if n p = 0 then 32 else slot_of (n p) p (r p)) \<and>
     (0 < n p \<longrightarrow> (\<forall>q < 2. \<forall>j. 0 < n q \<longrightarrow> (bit (rx_irq_mask b p) (slot_of (n q) q j) \<longleftrightarrow> p = q))))"

definition in_slots :: "counts \<Rightarrow> counts \<Rightarrow> counts \<Rightarrow> nat \<Rightarrow> bool" where
  "in_slots n lo hi s \<longleftrightarrow> (\<exists>p < 2. \<exists>j. lo p \<le> j \<and> j < hi p \<and> s = slot_of (n p) p j)"

definition blk_ok :: "counts \<Rightarrow> (nat \<Rightarrow> msg list) \<Rightarrow> counts \<Rightarrow> counts \<Rightarrow> transq_block \<Rightarrow> bool" where
  "blk_ok n ms c r B \<longleftrightarrow> slots_ok n \<and> (\<forall>p < 2. c p \<le> r p \<and> r p \<le> length (ms p) \<and> length (ms p) \<le> c p + n p) \<and>
     (\<forall>s. bit (tb_rmt_ris B) s \<longleftrightarrow> in_slots n r (\<lambda>p. length (ms p)) s) \<and>
     (\<forall>s. bit (tb_ldone_ris B) s \<longleftrightarrow> in_slots n c r s) \<and> tb_lerr_ris B = 0 \<and>
     (\<forall>p < 2. \<forall>j. c p \<le> j \<and> j < length (ms p) \<longrightarrow> tb_slot B (slot_of (n p) p j) = ms p ! j) \<and>
     (\<forall>p < 2. \<forall>i j. 0 < n p \<longrightarrow> bit (tb_rmt_intmask B) (slot_of (n p) p i) = bit (tb_rmt_intmask B) (slot_of (n p) p j))"

lemma in_slots_iff:
  assumes "slots_ok n" "p < 2" "c p \<le> j" "j < c p + n p" "\<And>q. q < 2 \<Longrightarrow> c q \<le> lo q \<and> hi q \<le> c q + n q"
  shows "in_slots n lo hi (slot_of (n p) p j) \<longleftrightarrow> lo p \<le> j \<and> j < hi p"
proof
  assume "in_slots n lo hi (slot_of (n p) p j)"
  then obtain q i where qi: "q < 2" "lo q \<le> i" "i < hi q" "slot_of (n p) p j = slot_of (n q) q i"
    by (auto simp: in_slots_def)
  moreover have "c q \<le> i" "i < c q + n q" using assms(5) [OF qi(1)] qi(2,3) by auto
  ultimately have "p = q \<and> j = i" using slot_eq [where c = c, OF assms(1,2) qi(1) assms(3,4)] by blast
  with qi show "lo p \<le> j \<and> j < hi p" by simp
qed (use assms(2) in \<open>auto simp: in_slots_def\<close>)

text \<open>The bits when one of the counts moves on by one.\<close>

lemma in_slots_grow:
  assumes "p < 2" "lo p \<le> hi p"
  shows "in_slots n lo (hi(p := Suc (hi p))) s \<longleftrightarrow> in_slots n lo hi s \<or> s = slot_of (n p) p (hi p)"
proof -
  have "j < (hi(p := Suc (hi p))) q \<longleftrightarrow> j < hi q \<or> q = p \<and> j = hi p" for j q by auto
  then show ?thesis using assms unfolding in_slots_def by blast
qed

lemma in_slots_shrink:
  assumes "slots_ok n" "p < 2" "c p \<le> lo p" "lo p < hi p" "\<And>q. q < 2 \<Longrightarrow> c q \<le> lo q \<and> hi q \<le> c q + n q"
  shows "in_slots n (lo(p := Suc (lo p))) hi s \<longleftrightarrow> in_slots n lo hi s \<and> s \<noteq> slot_of (n p) p (lo p)"
proof
  assume L: "in_slots n (lo(p := Suc (lo p))) hi s"
  then have "in_slots n lo hi s" unfolding in_slots_def by (metis Suc_leD fun_upd_apply)
  moreover have "s \<noteq> slot_of (n p) p (lo p)"
  proof
    assume s: "s = slot_of (n p) p (lo p)"
    have "in_slots n (lo(p := Suc (lo p))) hi (slot_of (n p) p (lo p)) \<longleftrightarrow>
        (lo(p := Suc (lo p))) p \<le> lo p \<and> lo p < hi p"
      using assms by (intro in_slots_iff [where c = c]) (auto intro: le_SucI less_le_trans)
    with L s show False by simp
  qed
  ultimately show "in_slots n lo hi s \<and> s \<noteq> slot_of (n p) p (lo p)" by blast
next
  assume R: "in_slots n lo hi s \<and> s \<noteq> slot_of (n p) p (lo p)"
  then obtain q j where q: "q < 2" "lo q \<le> j" "j < hi q" "s = slot_of (n q) q j" by (auto simp: in_slots_def)
  then have "\<not> (q = p \<and> j = lo p)" using R by auto
  then have "(lo(p := Suc (lo p))) q \<le> j" using q(2) by auto
  with q show "in_slots n (lo(p := Suc (lo p))) hi s" unfolding in_slots_def by blast
qed

section \<open>Sending\<close>

lemma upd_local_fields [simp]:
  "tq_local (upd_local f c) = f (tq_local c)" "tq_peer (upd_local f c) = tq_peer c" "tq_cfg (upd_local f c) = tq_cfg c"
  "next_tx_slot (upd_local f c) = next_tx_slot c" "active_tx_slot (upd_local f c) = active_tx_slot c"
  "tx_slot_full (upd_local f c) = tx_slot_full c" "next_rx_slot (upd_local f c) = next_rx_slot c"
  "rx_irq_mask (upd_local f c) = rx_irq_mask c" "tq_tx_calls (upd_local f c) = tq_tx_calls c"
  "tq_rx_calls (upd_local f c) = tq_rx_calls c"
  by (simp_all add: upd_local_def)

lemma upd_peer_fields [simp]:
  "tq_peer (upd_peer f c) = f (tq_peer c)" "tq_local (upd_peer f c) = tq_local c" "tq_cfg (upd_peer f c) = tq_cfg c"
  "next_tx_slot (upd_peer f c) = next_tx_slot c" "active_tx_slot (upd_peer f c) = active_tx_slot c"
  "tx_slot_full (upd_peer f c) = tx_slot_full c" "next_rx_slot (upd_peer f c) = next_rx_slot c"
  "rx_irq_mask (upd_peer f c) = rx_irq_mask c" "tq_tx_calls (upd_peer f c) = tq_tx_calls c"
  "tq_rx_calls (upd_peer f c) = tq_rx_calls c"
  by (simp_all add: upd_peer_def)

lemma next_cong: "tq_cfg c = tq_cfg c' \<Longrightarrow> get_next_tx_slot p s c = get_next_tx_slot p s c'"
  "tq_cfg c = tq_cfg c' \<Longrightarrow> get_next_rx_slot p s c = get_next_rx_slot p s c'"
  by (simp_all add: get_next_tx_slot_def get_next_rx_slot_def)

lemma tx_okD:
  assumes "tx_ok n ms c a" "p < 2"
  shows "tx_num a p = n p" "c p \<le> length (ms p)" "length (ms p) \<le> c p + n p"
    "next_tx_slot a p = (if n p = 0 then 32 else slot_of (n p) p (length (ms p)))"
    "active_tx_slot a p = (if c p = length (ms p) then 32 else slot_of (n p) p (c p))"
    "tx_slot_full a p \<longleftrightarrow> 0 < n p \<and> length (ms p) = c p + n p"
  using assms by (simp_all add: tx_ok_def)

lemma blk_okD:
  assumes "blk_ok n ms c r B"
  shows "slots_ok n" "p < 2 \<Longrightarrow> c p \<le> r p \<and> r p \<le> length (ms p) \<and> length (ms p) \<le> c p + n p"
    "bit (tb_rmt_ris B) s \<longleftrightarrow> in_slots n r (\<lambda>p. length (ms p)) s" "bit (tb_ldone_ris B) s \<longleftrightarrow> in_slots n c r s"
    "tb_lerr_ris B = 0" "p < 2 \<Longrightarrow> c p \<le> j \<Longrightarrow> j < length (ms p) \<Longrightarrow> tb_slot B (slot_of (n p) p j) = ms p ! j"
    "p < 2 \<Longrightarrow> 0 < n p \<Longrightarrow> bit (tb_rmt_intmask B) (slot_of (n p) p i) = bit (tb_rmt_intmask B) (slot_of (n p) p j)"
  using assms unfolding blk_ok_def by blast+

lemma one_bit_and: "\<not> bit w s \<Longrightarrow> w AND 2 ^ s = (0 :: u32)"
  by simp

lemma tx_blk:
  assumes "blk_ok n ms c r B" "p < 2" "length (ms p) < c p + n p" "s = slot_of (n p) p (length (ms p))"
  shows "blk_ok n (ms(p := ms p @ [m])) c r (rmt_intset (2 ^ s) (B\<lparr>tb_slot := (tb_slot B)(s := m)\<rparr>))"
proof -
  note b = blk_okD [OF assms(1)]
  have np: "0 < n p" using b(2) [OF assms(2)] assms(3) by simp
  have s: "s < 32" using slot_lt [OF b(1) assms(2) np] assms(4) by simp
  have free: "\<not> in_slots n r (\<lambda>p. length (ms p)) s"
  proof -
    have "c p \<le> length (ms p)" using b(2) [OF assms(2)] by simp
    then show ?thesis
      using in_slots_iff [where c = c, OF b(1) assms(2) _ assms(3), of r "\<lambda>p. length (ms p)"] b(2) assms(4) by simp
  qed
  let ?ms = "ms(p := ms p @ [m])"
  have len: "(\<lambda>q. length (?ms q)) = (\<lambda>q. length (ms q))(p := Suc (length (ms p)))" by auto
  have grow: "in_slots n r (\<lambda>q. length (?ms q)) x \<longleftrightarrow> in_slots n r (\<lambda>q. length (ms q)) x \<or> x = s" for x
    unfolding len assms(4) using in_slots_grow [OF assms(2), of r "\<lambda>q. length (ms q)"] b(2) [OF assms(2)] by simp
  have slot: "((tb_slot B)(s := m)) (slot_of (n q) q j) = ?ms q ! j"
    if q: "q < 2" and j: "c q \<le> j" "j < length (?ms q)" for q j
  proof -
    have "j < c q + n q" using b(2) [OF q] assms(3) j(2) by (auto split: if_splits)
    then have "slot_of (n q) q j = s \<longleftrightarrow> q = p \<and> j = length (ms p)"
      using slot_eq [where c = c, OF b(1) q assms(2) j(1)] b(2) [OF assms(2)] assms(3,4) by simp
    then show ?thesis using b(6) [OF q j(1)] j(2) by (auto simp: nth_append split: if_splits)
  qed
  show ?thesis
    unfolding blk_ok_def
  proof (intro conjI allI impI, goal_cases)
    case (5 x)
    then show ?case unfolding grow using s by (auto simp: rmt_intset_def bit_or_iff bit_one_bit b(3))
  next
    case 7
    then show ?case using free b(3,5) by (simp add: rmt_intset_def)
  next
    case (8 q j)
    then show ?case using slot by (simp add: rmt_intset_def)
  qed (use b(1,2,4,7) b(2) [OF assms(2)] assms(3) in \<open>auto simp: rmt_intset_def split: if_splits\<close>)
qed

lemma tx_full:
  assumes "tx_ok n ms c a" "p < 2" "0 < n p" "length (ms p) = c p + n p"
  shows "tx p m a = (HAL_TRANSQ_RET_TX_FULL, a)"
  using tx_okD(6) [OF assms(1,2)] assms(3,4) by (simp add: tx_def)

lemma tx_room:
  assumes "tx_ok n ms c a" "blk_ok n ms c r (tq_local a)" "p < 2" "length (ms p) < c p + n p"
  shows "\<exists>a'. tx p m a = (HAL_TRANSQ_RET_OK, a') \<and> tx_ok n (ms(p := ms p @ [m])) c a' \<and>
    blk_ok n (ms(p := ms p @ [m])) c r (tq_local a') \<and> tq_cfg a' = tq_cfg a \<and> tq_peer a' = tq_peer a \<and>
    tq_tx_calls a' = tq_tx_calls a \<and> tb_ldone_intmask (tq_local a') = tb_ldone_intmask (tq_local a) \<and>
    next_rx_slot a' = next_rx_slot a \<and> rx_irq_mask a' = rx_irq_mask a"
proof -
  note t = tx_okD [OF assms(1,3)]
  note b = blk_okD(1) [OF assms(2)]
  have np: "0 < n p" using t(2) assms(4) by simp
  define s where "s = slot_of (n p) p (length (ms p))"
  define B where "B = rmt_intset (2 ^ s) ((tq_local a)\<lparr>tb_slot := (tb_slot (tq_local a))(s := m)\<rparr>)"
  define nx where "nx = slot_of (n p) p (Suc (length (ms p)))"
  define ac where "ac = slot_of (n p) p (c p)"
  have nt: "next_tx_slot a p = s" using t(4) np by (simp add: s_def)
  have sl: "ac < 32" using slot_lt [OF b assms(3) np] by (simp add: ac_def)
  have act: "(if active_tx_slot a p \<ge> TRANSQ_SLOT_NUM then s else active_tx_slot a p) = ac"
    using t(5) sl by (auto simp: TRANSQ_SLOT_NUM_def s_def ac_def)
  have nxt: "get_next_tx_slot p s x = nx" if "tq_cfg x = tq_cfg a" for x
    using slot_next(1) [OF b assms(3) np, of x "length (ms p)"] t(1) that by (simp add: s_def nx_def)
  have full: "nx = ac \<longleftrightarrow> Suc (length (ms p)) = c p + n p"
  proof
    assume "nx = ac"
    then have e: "Suc (length (ms p)) mod n p = (c p + n p) mod n p" by (simp add: nx_def ac_def slot_same)
    show "Suc (length (ms p)) = c p + n p"
      using mod_window [OF e, of "Suc (c p)"] t(2) assms(4) np by simp
  next
    assume "Suc (length (ms p)) = c p + n p"
    then show "nx = ac" by (simp add: nx_def ac_def slot_same)
  qed
  define a' where "a' = a\<lparr>tq_local := B, active_tx_slot := (active_tx_slot a)(p := ac), next_tx_slot := (next_tx_slot a)(p := nx),
    tx_slot_full := (tx_slot_full a)(p := (nx = ac))\<rparr>"
  have nf: "\<not> tx_slot_full a p" using t(6) assms(4) by simp
  have "tx p m a = (HAL_TRANSQ_RET_OK, a')"
  proof -
    define a2 where "a2 = (upd_local (\<lambda>_. B) a)\<lparr>active_tx_slot := (active_tx_slot a)(p := ac)\<rparr>"
    have e1: "upd_local (rmt_intset (push_bit s 1)) (upd_local (\<lambda>b. b\<lparr>tb_slot := (tb_slot b)(s := m)\<rparr>) a) = upd_local (\<lambda>_. B) a"
      by (simp add: upd_local_def B_def)
    have e2: "(if TRANSQ_SLOT_NUM \<le> active_tx_slot a p
        then (upd_local (\<lambda>_. B) a)\<lparr>active_tx_slot := (active_tx_slot a)(p := s)\<rparr> else upd_local (\<lambda>_. B) a) = a2"
      using act by (auto simp: a2_def upd_local_def fun_upd_idem)
    have e3: "get_next_tx_slot p s a2 = nx" by (rule nxt) (simp add: a2_def)
    define a3 where "a3 = a2\<lparr>next_tx_slot := (next_tx_slot a)(p := nx)\<rparr>"
    have e4: "next_tx_slot a2 = next_tx_slot a" "next_tx_slot a3 p = nx" "active_tx_slot a3 p = ac" "tx_slot_full a3 = tx_slot_full a"
      by (simp_all add: a3_def a2_def)
    have e5: "(if nx = ac then a3\<lparr>tx_slot_full := (tx_slot_full a)(p := True)\<rparr> else a3) = a'"
    proof -
      have "(tx_slot_full a)(p := False) = tx_slot_full a" using nf by (simp add: fun_upd_idem)
      then show ?thesis by (cases a) (auto simp: a'_def a3_def a2_def upd_local_def)
    qed
    show ?thesis
      by (simp only: tx_def nf if_False Let_def nt e1 upd_local_fields e2 e3 e4(1) a3_def [symmetric] e4 e5)
  qed
  moreover have "tx_ok n (ms(p := ms p @ [m])) c a'"
    unfolding tx_ok_def
  proof (intro allI impI)
    fix q :: nat assume q: "q < 2"
    note tq = tx_okD [OF assms(1) q]
    show "tx_num a' q = n q \<and> c q \<le> length ((ms(p := ms p @ [m])) q) \<and> length ((ms(p := ms p @ [m])) q) \<le> c q + n q \<and>
      next_tx_slot a' q = (if n q = 0 then 32 else slot_of (n q) q (length ((ms(p := ms p @ [m])) q))) \<and>
      active_tx_slot a' q = (if c q = length ((ms(p := ms p @ [m])) q) then 32 else slot_of (n q) q (c q)) \<and>
      (tx_slot_full a' q \<longleftrightarrow> 0 < n q \<and> length ((ms(p := ms p @ [m])) q) = c q + n q)"
      using tq t np assms(4) full by (cases "q = p") (simp_all add: a'_def nx_def ac_def)
  qed
  moreover have "blk_ok n (ms(p := ms p @ [m])) c r (tq_local a')"
    using tx_blk [OF assms(2-4) s_def] by (simp add: a'_def B_def)
  ultimately show ?thesis by (intro exI [of _ a']) (simp add: a'_def B_def rmt_intset_def)
qed

section \<open>Confirming\<close>

lemma done_blk:
  assumes "blk_ok n ms c r B" "p < 2" "c p < r p" "s = slot_of (n p) p (c p)"
  shows "blk_ok n ms (c(p := Suc (c p))) r (ldone_intclr (2 ^ s) B)" "bit (tb_ldone_ris B) s"
proof -
  note b = blk_okD [OF assms(1)]
  have hi: "c q \<le> c q \<and> r q \<le> c q + n q" if "q < 2" for q using b(2) [OF that] by simp
  have sh: "in_slots n (c(p := Suc (c p))) r x \<longleftrightarrow> in_slots n c r x \<and> x \<noteq> s" for x
    using in_slots_shrink [where c = c and lo = c, OF b(1) assms(2) _ assms(3) hi] assms(4) by simp
  show "bit (tb_ldone_ris B) s" using b(4) assms(2-4) by (auto simp: in_slots_def)
  show "blk_ok n ms (c(p := Suc (c p))) r (ldone_intclr (2 ^ s) B)"
    unfolding blk_ok_def
  proof (intro conjI allI impI, goal_cases)
    case (6 x)
    then show ?case by (simp add: ldone_intclr_def b(4) sh)
  qed (use b assms(3) in \<open>auto simp: ldone_intclr_def split: if_splits intro: le_SucI\<close>)
qed

end
