(* ===== verification/Transq_Link.thy ===== *)
theory Transq_Link
  imports Transq_Ring
begin

text \<open>
  The operations of the sender and the receiver on a block that satisfies the invariant of \<^verbatim>\<open>Transq_Ring\<close>:
  confirming a message, taking one, and the two interrupt handlers, which return and do not fail.
\<close>

lemma push_bit_u32_one: "push_bit i (1 :: u32) = 2 ^ i"
  by simp

section \<open>Confirming a message\<close>

lemma tx_done_ok:
  assumes "tx_ok n ms c a" "blk_ok n ms c r (tq_local a)" "p < 2" "c p < r p"
    and a': "a' = tx_done p (slot_of (n p) p (c p)) a"
  shows "tx_ok n ms (c(p := Suc (c p))) a'" "blk_ok n ms (c(p := Suc (c p))) r (tq_local a')"
    "tq_cfg a' = tq_cfg a" "tq_peer a' = tq_peer a" "tq_tx_calls a' = tq_tx_calls a"
    "tb_slot (tq_local a') = tb_slot (tq_local a)" "tb_ldone_intmask (tq_local a') = tb_ldone_intmask (tq_local a)"
proof -
  note t = tx_okD [OF assms(1,3)]
  note b = blk_okD(1) [OF assms(2)]
  have len: "c p < length (ms p)" using blk_okD(2) [OF assms(2,3)] assms(4) by simp
  then have np: "0 < n p" using t(3) by simp
  define s where "s = slot_of (n p) p (c p)"
  define nx where "nx = slot_of (n p) p (Suc (c p))"
  define a1 where "a1 = upd_local (ldone_intclr (2 ^ s)) a"
  have nxt: "get_next_tx_slot p s a1 = nx"
    using slot_next(1) [OF b assms(3) np, of a1 "c p"] t(1) by (simp add: s_def nx_def a1_def)
  have last: "nx = next_tx_slot a p \<longleftrightarrow> Suc (c p) = length (ms p)" if "\<not> tx_slot_full a p"
  proof
    assume "nx = next_tx_slot a p"
    then have e: "Suc (c p) mod n p = length (ms p) mod n p" using t(4) np by (simp add: nx_def slot_same)
    have "length (ms p) < c p + n p" using t(3,6) np that by linarith
    then show "Suc (c p) = length (ms p)" using mod_window [OF e, of "Suc (c p)"] len by simp
  qed (use t(4) np in \<open>simp add: nx_def\<close>)
  define ac where "ac = (if Suc (c p) = length (ms p) then 32 else nx)"
  have f: "tx_slot_full a1 = tx_slot_full a" "next_tx_slot a1 = next_tx_slot a" "active_tx_slot a1 = active_tx_slot a"
    "tq_cfg a1 = tq_cfg a" by (simp_all add: a1_def)
  have e: "a' = a1\<lparr>tx_slot_full := (tx_slot_full a)(p := False), active_tx_slot := (active_tx_slot a)(p := ac)\<rparr>"
  proof (cases "tx_slot_full a p")
    case True
    then have l: "length (ms p) = c p + n p" using t(6) by simp
    have "(if tx_num a p = 1 then 32 else nx) = ac" using l t(1) by (auto simp: ac_def)
    then show ?thesis unfolding a' s_def [symmetric] tx_done_def push_bit_u32_one a1_def [symmetric] Let_def nxt
      using True f by (simp add: TRANSQ_SLOT_NUM_def split: if_splits)
  next
    case False
    have np1: "n p \<noteq> 1" if "Suc (c p) \<noteq> length (ms p)" using t(3,6) False len that by auto
    have idem: "(tx_slot_full a)(p := False) = tx_slot_full a" using False by (simp add: fun_upd_idem)
    have same: "a1\<lparr>tx_slot_full := tx_slot_full a\<rparr> = a1" by (cases a) (simp add: a1_def upd_local_def)
    show ?thesis unfolding a' s_def [symmetric] tx_done_def push_bit_u32_one a1_def [symmetric] Let_def nxt ac_def
      using False last [OF False] np1 t(1) f same by (cases "Suc (c p) = length (ms p)") (simp_all add: TRANSQ_SLOT_NUM_def idem)
  qed
  show "tx_ok n ms (c(p := Suc (c p))) a'"
    unfolding tx_ok_def
  proof (intro allI impI)
    fix q :: nat assume q: "q < 2"
    show "tx_num a' q = n q \<and> (c(p := Suc (c p))) q \<le> length (ms q) \<and> length (ms q) \<le> (c(p := Suc (c p))) q + n q \<and>
      next_tx_slot a' q = (if n q = 0 then 32 else slot_of (n q) q (length (ms q))) \<and>
      active_tx_slot a' q = (if (c(p := Suc (c p))) q = length (ms q) then 32 else slot_of (n q) q ((c(p := Suc (c p))) q)) \<and>
      (tx_slot_full a' q \<longleftrightarrow> 0 < n q \<and> length (ms q) = (c(p := Suc (c p))) q + n q)"
      using tx_okD [OF assms(1) q] t len by (cases "q = p") (simp_all add: e a1_def ac_def nx_def)
  qed
  show "blk_ok n ms (c(p := Suc (c p))) r (tq_local a')"
    using done_blk(1) [OF assms(2-4) refl] by (simp add: e a1_def s_def)
qed (simp_all add: a' tx_done_def Let_def ldone_intclr_def)


section \<open>Taking a message\<close>

lemma rx_okD:
  assumes "rx_ok n r b" "p < 2"
  shows "rx_num b p = n p" "next_rx_slot b p = (if n p = 0 then 32 else slot_of (n p) p (r p))"
    "0 < n p \<Longrightarrow> q < 2 \<Longrightarrow> 0 < n q \<Longrightarrow> bit (rx_irq_mask b p) (slot_of (n q) q j) \<longleftrightarrow> p = q"
  using assms unfolding rx_ok_def by blast+

lemma rx_slot_pending:
  assumes "blk_ok n ms c r B" "p < 2" "0 < n p"
  shows "bit (tb_rmt_ris B) (slot_of (n p) p (r p)) \<longleftrightarrow> r p < length (ms p)"
proof -
  note b = blk_okD(1-3) [OF assms(1)]
  have "r q \<le> r q \<and> length (ms q) \<le> r q + n q" if "q < 2" for q using b(2) [OF that] by simp
  then show ?thesis using in_slots_iff [where c = r, OF b(1) assms(2)] assms(3) by (simp add: b(3))
qed

lemma take_blk:
  assumes "blk_ok n ms c r B" "p < 2" "r p < length (ms p)" "s = slot_of (n p) p (r p)"
  shows "blk_ok n ms c (r(p := Suc (r p))) (rmt_intclr (2 ^ s) B)"
proof -
  note b = blk_okD [OF assms(1)]
  have hi: "r q \<le> r q \<and> length (ms q) \<le> r q + n q" if "q < 2" for q using b(2) [OF that] by simp
  have sh: "in_slots n (r(p := Suc (r p))) (\<lambda>q. length (ms q)) x \<longleftrightarrow> in_slots n r (\<lambda>q. length (ms q)) x \<and> x \<noteq> s" for x
    using in_slots_shrink [where c = r and lo = r, OF b(1) assms(2) _ assms(3) hi] assms(4) by simp
  have gr: "in_slots n c (r(p := Suc (r p))) x \<longleftrightarrow> in_slots n c r x \<or> x = s" for x
    using in_slots_grow [OF assms(2), of c r] b(2) [OF assms(2)] assms(4) by simp
  have pend: "bit (tb_rmt_ris B) s"
    using rx_slot_pending [OF assms(1,2)] b(2) [OF assms(2)] assms(3,4) by simp
  show ?thesis
    unfolding blk_ok_def
  proof (intro conjI allI impI, goal_cases)
    case (5 x)
    then show ?case by (simp add: rmt_intclr_def b(3) sh)
  next
    case (6 x)
    then show ?case using pend bit_imp_le_length [OF pend] b(3,4) gr by (auto simp: rmt_intclr_def bit_simps)
  next
    case (9 q i j)
    then show ?case using b(7) by (simp add: rmt_intclr_def)
  qed (use b assms(3) in \<open>auto simp: rmt_intclr_def split: if_splits intro: le_SucI\<close>)
qed

definition irq_enable :: "nat \<Rightarrow> transq \<Rightarrow> transq" where
  "irq_enable p c = upd_peer (\<lambda>b. b\<lparr>tb_rmt_intmask := tb_rmt_intmask b OR rx_irq_mask c p\<rparr>) c"

lemma enable_blk:
  assumes "rx_ok n r b" "blk_ok n ms c r (tq_peer b)" "p < 2" "0 < n p"
  shows "blk_ok n ms c r (tq_peer (irq_enable p b))" "rx_ok n r (irq_enable p b)"
    "tq_local (irq_enable p b) = tq_local b" "tq_cfg (irq_enable p b) = tq_cfg b"
    "tb_ldone_intmask (tq_peer (irq_enable p b)) = tb_ldone_intmask (tq_peer b)"
    "tb_slot (tq_peer (irq_enable p b)) = tb_slot (tq_peer b)"
proof -
  note b = blk_okD [OF assms(2)]
  show "blk_ok n ms c r (tq_peer (irq_enable p b))"
    unfolding blk_ok_def
  proof (intro conjI allI impI, goal_cases)
    case (9 q i j)
    then show ?case using b(7) [of q i j] rx_okD(3) [OF assms(1,3,4)] by (simp add: irq_enable_def bit_or_iff)
  qed (use b in \<open>auto simp: irq_enable_def\<close>)
  show "rx_ok n r (irq_enable p b)" using assms(1) by (simp add: irq_enable_def rx_ok_def)
qed (simp_all add: irq_enable_def)

lemma rx_first_ok:
  assumes "rx_ok n r b" "blk_ok n ms c r (tq_peer b)" "p < 2" "0 < n p"
  shows "rx_first p b = (if r p < length (ms p) then (HAL_TRANSQ_RET_OK, ms p ! r p, b)
    else (HAL_TRANSQ_RET_RX_EMPTY, (0, 0), irq_enable p b))"
  using rx_okD(2) [OF assms(1,3)] rx_slot_pending [OF assms(2-4)] blk_okD(6) [OF assms(2,3), of "r p"]
    blk_okD(2) [OF assms(2,3)] assms(4)
  by (simp add: rx_first_def slot_pending_bit irq_enable_def)

lemma rx_next_empty:
  assumes "rx_ok n r b" "blk_ok n ms c r (tq_peer b)" "p < 2" "0 < n p" "r p = length (ms p)"
  shows "rx_next p b = (HAL_TRANSQ_RET_RX_EMPTY, (0, 0), irq_enable p b)"
  using rx_okD(2) [OF assms(1,3)] rx_slot_pending [OF assms(2-4)] assms(4,5)
  by (simp add: rx_next_def slot_pending_bit irq_enable_def Let_def)

lemma rx_next_ok:
  assumes "rx_ok n r b" "blk_ok n ms c r (tq_peer b)" "p < 2" "r p < length (ms p)"
  obtains ret m b' where "rx_next p b = (ret, m, b')" "rx_ok n (r(p := Suc (r p))) b'"
    "blk_ok n ms c (r(p := Suc (r p))) (tq_peer b')" "tq_local b' = tq_local b" "tq_cfg b' = tq_cfg b"
    "tb_ldone_intmask (tq_peer b') = tb_ldone_intmask (tq_peer b)" "tb_slot (tq_peer b') = tb_slot (tq_peer b)"
    "(ret, m) = (if Suc (r p) < length (ms p) then (HAL_TRANSQ_RET_OK, ms p ! Suc (r p)) else (HAL_TRANSQ_RET_RX_EMPTY, (0, 0)))"
proof -
  have np: "0 < n p" using blk_okD(2) [OF assms(2,3)] assms(4) by simp
  define s where "s = slot_of (n p) p (r p)"
  define b1 where "b1 = (upd_peer (rmt_intclr (2 ^ s)) b)\<lparr>next_rx_slot := (next_rx_slot b)(p := slot_of (n p) p (Suc (r p)))\<rparr>"
  have first: "slot_pending (tb_rmt_ris (tq_peer b)) (next_rx_slot b p)" "next_rx_slot b p = s"
    using rx_okD(2) [OF assms(1,3)] rx_slot_pending [OF assms(2,3) np] assms(4) np by (simp_all add: slot_pending_bit s_def)
  have nxt: "get_next_rx_slot p s x = slot_of (n p) p (Suc (r p))" if "tq_cfg x = tq_cfg b" for x
    using slot_next(2) [OF blk_okD(1) [OF assms(2)] assms(3) np, of x "r p"] rx_okD(1) [OF assms(1,3)] that by (simp add: s_def)
  have ok1: "rx_ok n (r(p := Suc (r p))) b1"
    using assms(1) np unfolding rx_ok_def b1_def by simp
  have blk1: "blk_ok n ms c (r(p := Suc (r p))) (tq_peer b1)"
    using take_blk [OF assms(2-4) s_def] by (simp add: b1_def)
  have second: "slot_pending (tb_rmt_ris (tq_peer b1)) (slot_of (n p) p (Suc (r p))) \<longleftrightarrow> Suc (r p) < length (ms p)"
    using rx_slot_pending [OF blk1 assms(3) np] by (simp add: slot_pending_bit)
  have msg: "tb_slot (tq_peer b1) (slot_of (n p) p (Suc (r p))) = ms p ! Suc (r p)" if "Suc (r p) < length (ms p)"
    using blk_okD(6) [OF blk1 assms(3) _ that] blk_okD(2) [OF assms(2,3)] by simp
  have p1: "tq_peer b1 = rmt_intclr (2 ^ s) (tq_peer b)" by (simp add: b1_def)
  have e: "rx_next p b = (if Suc (r p) < length (ms p) then (HAL_TRANSQ_RET_OK, ms p ! Suc (r p), b1)
    else (HAL_TRANSQ_RET_RX_EMPTY, (0, 0), irq_enable p b1))"
    using first second msg p1 by (simp add: rx_next_def Let_def push_bit_u32_one nxt b1_def [symmetric] irq_enable_def)
  show ?thesis
  proof (cases "Suc (r p) < length (ms p)")
    case True
    then show ?thesis by (intro that [OF _ ok1 blk1]) (simp_all add: e b1_def rmt_intclr_def)
  next
    case False
    note en = enable_blk [OF ok1 blk1 assms(3) np]
    show ?thesis using False en(3-) by (intro that [OF _ en(2,1)]) (simp_all add: e b1_def rmt_intclr_def)
  qed
qed


section \<open>The interrupt handlers\<close>

lemma word_any_bit: "(w :: u32) \<noteq> 0 \<longleftrightarrow> (\<exists>i. bit w i)"
  by (metis bit_0_eq bit_eqI bot_apply bot_bool_def)

text \<open>The receiver's handler masks each priority that has messages once, so it returns after two rounds at most.\<close>

definition irq_on :: "counts \<Rightarrow> transq_block \<Rightarrow> nat \<Rightarrow> bool" where
  "irq_on n B p \<longleftrightarrow> 0 < n p \<and> bit (tb_rmt_intmask B) (slot_of (n p) p 0)"

lemma irq_on_bit: "blk_ok n ms c r B \<Longrightarrow> p < 2 \<Longrightarrow> 0 < n p \<Longrightarrow> bit (tb_rmt_intmask B) (slot_of (n p) p j) \<longleftrightarrow> irq_on n B p"
  using blk_okD(7) [of n ms c r B p j 0] by (simp add: irq_on_def)

lemma mis_slot:
  assumes "blk_ok n ms c r B" "p < 2"
  shows "bit (rmt_mis B) (slot_of (n p) p (r p)) \<and> 0 < n p \<longleftrightarrow> r p < length (ms p) \<and> irq_on n B p"
  using rx_slot_pending [OF assms] irq_on_bit [OF assms] blk_okD(2) [OF assms]
  by (auto simp: rmt_mis_def bit_and_iff irq_on_def)

lemma mis_any:
  assumes "blk_ok n ms c r B"
  shows "rmt_mis B \<noteq> 0 \<longleftrightarrow> (\<exists>p < 2. r p < length (ms p) \<and> irq_on n B p)"
proof
  assume "rmt_mis B \<noteq> 0"
  then obtain s where s: "bit (tb_rmt_ris B) s" "bit (tb_rmt_intmask B) s" unfolding word_any_bit by (auto simp: rmt_mis_def bit_and_iff)
  then obtain p j where p: "p < 2" "r p \<le> j" "j < length (ms p)" "s = slot_of (n p) p j"
    using blk_okD(3) [OF assms] by (auto simp: in_slots_def)
  then have "0 < n p" using blk_okD(2) [OF assms p(1)] by simp
  then have "irq_on n B p" using irq_on_bit [OF assms p(1)] s(2) p(4) by simp
  then show "\<exists>p < 2. r p < length (ms p) \<and> irq_on n B p" using p by auto
next
  assume "\<exists>p < 2. r p < length (ms p) \<and> irq_on n B p"
  then show "rmt_mis B \<noteq> 0" using mis_slot [OF assms] unfolding word_any_bit by blast
qed

lemma remote_step_ok:
  assumes "rx_ok n r b" "blk_ok n ms c r (tq_peer b)" "rmt_mis (tq_peer b) \<noteq> 0"
  obtains p b' where "remote_irq_step b = Some b'" "p < 2" "irq_on n (tq_peer b) p" "rx_ok n r b'" "blk_ok n ms c r (tq_peer b')"
    "\<And>q. q < 2 \<Longrightarrow> irq_on n (tq_peer b') q \<longleftrightarrow> irq_on n (tq_peer b) q \<and> q \<noteq> p" "tq_local b' = tq_local b" "tq_cfg b' = tq_cfg b"
    "tq_peer b' = (tq_peer b)\<lparr>tb_rmt_intmask := tb_rmt_intmask (tq_peer b')\<rparr>"
proof -
  define st where "st = rmt_mis (tq_peer b)"
  define P where "P = (\<lambda>p. r p < length (ms p) \<and> irq_on n (tq_peer b) p)"
  have sp: "slot_pending st (next_rx_slot b p) \<longleftrightarrow> P p" if "p < 2" for p
    using mis_slot [OF assms(2) that] rx_okD(2) [OF assms(1) that] bit_imp_le_length [of st 32]
    by (auto simp: slot_pending_bit st_def P_def irq_on_def split: if_splits)
  have any: "P 0 \<or> P 1" using mis_any [OF assms(2)] assms(3) less_2_cases by (auto simp: P_def)
  define p :: nat where "p = (if P 1 then 1 else 0)"
  have p: "p < 2" "P p" using any by (auto simp: p_def)
  define b1 where "b1 = upd_peer (\<lambda>B. B\<lparr>tb_rmt_intmask := tb_rmt_intmask B AND NOT (rx_irq_mask b p)\<rparr>) b"
  define b' where "b' = (if tc_rx_handler (tq_cfg b1) then b1\<lparr>tq_rx_calls := tq_rx_calls b1 @ [p]\<rparr> else b1)"
  have step: "remote_irq_step b = Some b'"
  proof -
    have "(if slot_pending st (next_rx_slot b HAL_TRANSQ_PRI_HIGH) then Some HAL_TRANSQ_PRI_HIGH
        else Option.bind (check (slot_pending st (next_rx_slot b HAL_TRANSQ_PRI_NORMAL))) (\<lambda>_. Some HAL_TRANSQ_PRI_NORMAL)) = Some p"
      using any sp [of 1] sp [of 0] by (auto simp: p_def check_def)
    then show ?thesis by (simp add: remote_irq_step_def Let_def st_def [symmetric] b'_def b1_def)
  qed
  have np: "0 < n p" using p by (simp add: P_def irq_on_def)
  note m = rx_okD(3) [OF assms(1) p(1) np]
  have f: "tq_peer b' = (tq_peer b)\<lparr>tb_rmt_intmask := tb_rmt_intmask (tq_peer b) AND NOT (rx_irq_mask b p)\<rparr>"
    "tq_local b' = tq_local b" "tq_cfg b' = tq_cfg b" "next_rx_slot b' = next_rx_slot b" "rx_irq_mask b' = rx_irq_mask b"
    by (simp_all add: b'_def b1_def)
  have bits: "bit (tb_rmt_intmask (tq_peer b')) (slot_of (n q) q j) \<longleftrightarrow> bit (tb_rmt_intmask (tq_peer b)) (slot_of (n q) q j) \<and> q \<noteq> p"
    if "q < 2" "0 < n q" for q j
    using m [OF that] slot_lt [OF blk_okD(1) [OF assms(2)] that] by (auto simp: f bit_and_iff bit_not_iff)
  note b = blk_okD [OF assms(2)]
  show ?thesis
  proof (rule that [OF step p(1)])
    show "irq_on n (tq_peer b) p" using p by (simp add: P_def)
    show "rx_ok n r b'" using assms(1) by (simp add: rx_ok_def f)
    show "irq_on n (tq_peer b') q \<longleftrightarrow> irq_on n (tq_peer b) q \<and> q \<noteq> p" if "q < 2" for q
      using bits [OF that] by (auto simp: irq_on_def)
    show "blk_ok n ms c r (tq_peer b')"
      unfolding blk_ok_def
    proof (intro conjI allI impI, goal_cases)
      case (9 q i j)
      then show ?case using b(7) [of q i j] bits by simp
    qed (use b in \<open>auto simp: f\<close>)
  qed (simp_all add: f)
qed

lemma remote_irq_ok:
  assumes "rx_ok n r b" "blk_ok n ms c r (tq_peer b)"
  obtains b' where "hal_transq_remote_irq_handler b = Some b'" "rx_ok n r b'" "blk_ok n ms c r (tq_peer b')"
    "tq_local b' = tq_local b" "tq_cfg b' = tq_cfg b" "rmt_mis (tq_peer b') = 0"
    "tq_peer b' = (tq_peer b)\<lparr>tb_rmt_intmask := tb_rmt_intmask (tq_peer b')\<rparr>"
proof -
  have "\<exists>b'. hal_transq_remote_irq_handler b = Some b' \<and> rx_ok n r b' \<and> blk_ok n ms c r (tq_peer b') \<and>
    tq_local b' = tq_local b \<and> tq_cfg b' = tq_cfg b \<and> rmt_mis (tq_peer b') = 0 \<and>
    tq_peer b' = (tq_peer b)\<lparr>tb_rmt_intmask := tb_rmt_intmask (tq_peer b')\<rparr>"
    using assms
  proof (induction "card {p. p < 2 \<and> irq_on n (tq_peer b) p}" arbitrary: b rule: less_induct)
    case less
    show ?case
    proof (cases "rmt_mis (tq_peer b) = 0")
      case True
      then show ?thesis using less.prems by (simp add: hal_transq_remote_irq_handler.simps)
    next
      case False
      obtain p b1 where b1: "remote_irq_step b = Some b1" "p < 2" "irq_on n (tq_peer b) p" "rx_ok n r b1" "blk_ok n ms c r (tq_peer b1)"
        "\<And>q. q < 2 \<Longrightarrow> irq_on n (tq_peer b1) q \<longleftrightarrow> irq_on n (tq_peer b) q \<and> q \<noteq> p" "tq_local b1 = tq_local b" "tq_cfg b1 = tq_cfg b"
        "tq_peer b1 = (tq_peer b)\<lparr>tb_rmt_intmask := tb_rmt_intmask (tq_peer b1)\<rparr>"
        using remote_step_ok [OF less.prems False] by metis
      have "{q. q < 2 \<and> irq_on n (tq_peer b1) q} \<subset> {q. q < 2 \<and> irq_on n (tq_peer b) q}" using b1(2,3,6) by blast
      then have "card {q. q < 2 \<and> irq_on n (tq_peer b1) q} < card {q. q < 2 \<and> irq_on n (tq_peer b) q}"
        by (intro psubset_card_mono) auto
      from less.hyps [OF this b1(4,5)] obtain b' where b': "hal_transq_remote_irq_handler b1 = Some b'" "rx_ok n r b'"
        "blk_ok n ms c r (tq_peer b')" "tq_local b' = tq_local b1" "tq_cfg b' = tq_cfg b1" "rmt_mis (tq_peer b') = 0"
        "tq_peer b' = (tq_peer b1)\<lparr>tb_rmt_intmask := tb_rmt_intmask (tq_peer b')\<rparr>" by blast
      have "tq_peer b' = (tq_peer b)\<lparr>tb_rmt_intmask := tb_rmt_intmask (tq_peer b')\<rparr>" by (subst b'(7), subst b1(9)) simp
      then show ?thesis using False b1 b' by (intro exI [of _ b']) (simp add: hal_transq_remote_irq_handler.simps [of b])
    qed
  qed
  then show ?thesis using that by blast
qed


text \<open>The sender's handler reports every message that the receiver has taken, in order.\<close>

definition calls_of :: "nat \<Rightarrow> transq \<Rightarrow> msg list" where
  "calls_of p a = map snd (filter (\<lambda>x. fst x = p) (tq_tx_calls a))"

definition ldone_on :: "counts \<Rightarrow> transq_block \<Rightarrow> bool" where
  "ldone_on n B \<longleftrightarrow> (\<forall>p < 2. \<forall>j. 0 < n p \<longrightarrow> bit (tb_ldone_intmask B) (slot_of (n p) p j))"

definition send_ok :: "counts \<Rightarrow> (nat \<Rightarrow> msg list) \<Rightarrow> counts \<Rightarrow> counts \<Rightarrow> transq \<Rightarrow> bool" where
  "send_ok n ms c r a \<longleftrightarrow> tx_ok n ms c a \<and> blk_ok n ms c r (tq_local a) \<and>
     (if tc_tx_handler (tq_cfg a) then ldone_on n (tq_local a) \<and> (\<forall>p < 2. calls_of p a = take (c p) (ms p))
      else tb_ldone_intmask (tq_local a) = 0 \<and> tq_tx_calls a = [])"

lemma done_slot:
  assumes "tx_ok n ms c a" "blk_ok n ms c r (tq_local a)" "p < 2"
  shows "active_tx_slot a p < 32 \<and> bit (tb_ldone_ris (tq_local a)) (active_tx_slot a p) \<longleftrightarrow> c p < r p"
proof (cases "c p = length (ms p)")
  case True
  then show ?thesis using tx_okD(5) [OF assms(1,3)] blk_okD(2) [OF assms(2,3)] by simp
next
  case False
  note b = blk_okD [OF assms(2)]
  have np: "0 < n p" using b(2) [OF assms(3)] False by simp
  have hi: "c q \<le> c q \<and> r q \<le> c q + n q" if "q < 2" for q using b(2) [OF that] by simp
  show ?thesis using tx_okD(5) [OF assms(1,3)] False slot_lt [OF b(1) assms(3) np] np
      in_slots_iff [where c = c and lo = c and hi = r, OF b(1) assms(3) _ _ hi, of "c p"] by (simp add: b(4))
qed

lemma active_valid: "tx_ok n ms c a \<Longrightarrow> p < 2 \<Longrightarrow> hal_transq_active_tx_valid p a"
proof -
  assume a: "tx_ok n ms c a" "p < 2"
  note t = tx_okD [OF a]
  have "length (ms p) = c p + n p" if l: "c p \<noteq> length (ms p)" and e: "slot_of (n p) p (c p) = slot_of (n p) p (length (ms p))"
  proof (rule ccontr)
    assume "length (ms p) \<noteq> c p + n p"
    then show False using mod_window [of "c p" "n p" "length (ms p)" "c p"] e t(2,3) l by (simp add: slot_same)
  qed
  then show ?thesis using t by (auto simp: hal_transq_active_tx_valid_def TRANSQ_SLOT_NUM_def)
qed

lemma ldone_any:
  assumes "send_ok n ms c r a"
  shows "ldone_mis (tq_local a) \<noteq> 0 \<longleftrightarrow> tc_tx_handler (tq_cfg a) \<and> (\<exists>p < 2. c p < r p)"
proof (cases "tc_tx_handler (tq_cfg a)")
  case True
  have b: "blk_ok n ms c r (tq_local a)" and on: "ldone_on n (tq_local a)" using assms True by (simp_all add: send_ok_def)
  have np: "0 < n p" if "p < 2" "c p < r p" for p using blk_okD(2) [OF b that(1)] that(2) by simp
  show ?thesis
  proof
    assume "ldone_mis (tq_local a) \<noteq> 0"
    then obtain s where "bit (tb_ldone_ris (tq_local a)) s" unfolding word_any_bit by (auto simp: ldone_mis_def bit_and_iff)
    then show "tc_tx_handler (tq_cfg a) \<and> (\<exists>p < 2. c p < r p)" using True blk_okD(4) [OF b] by (auto simp: in_slots_def)
  next
    assume "tc_tx_handler (tq_cfg a) \<and> (\<exists>p < 2. c p < r p)"
    then obtain p where p: "p < 2" "c p < r p" by blast
    then have "bit (ldone_mis (tq_local a)) (slot_of (n p) p (c p))"
      using on np [OF p] blk_okD(4) [OF b] by (auto simp: ldone_mis_def bit_and_iff ldone_on_def in_slots_def)
    then show "ldone_mis (tq_local a) \<noteq> 0" unfolding word_any_bit by blast
  qed
next
  case False
  then show ?thesis using assms by (simp add: send_ok_def ldone_mis_def)
qed

lemma send_done:
  assumes "send_ok n ms c r a" "p < 2" "c p < r p"
  defines "a' \<equiv> tx_done p (active_tx_slot a p) a"
  shows "tc_tx_handler (tq_cfg a) \<Longrightarrow>
      send_ok n ms (c(p := Suc (c p))) r (a'\<lparr>tq_tx_calls := tq_tx_calls a' @ [(p, tb_slot (tq_local a') (active_tx_slot a p))]\<rparr>)"
    "\<not> tc_tx_handler (tq_cfg a) \<Longrightarrow> send_ok n ms (c(p := Suc (c p))) r a'"
    "tq_cfg a' = tq_cfg a" "tq_peer a' = tq_peer a" "tq_tx_calls a' = tq_tx_calls a"
proof -
  have s: "tx_ok n ms c a" "blk_ok n ms c r (tq_local a)" using assms(1) by (simp_all add: send_ok_def)
  note b = blk_okD(2) [OF s(2) assms(2)]
  have act: "active_tx_slot a p = slot_of (n p) p (c p)" using tx_okD(5) [OF s(1) assms(2)] b assms(3) by simp
  have "a' = tx_done p (slot_of (n p) p (c p)) a" by (simp add: a'_def act)
  note d = tx_done_ok [OF s assms(2,3) this]
  show "tq_cfg a' = tq_cfg a" "tq_peer a' = tq_peer a" "tq_tx_calls a' = tq_tx_calls a" by (rule d(3-5))+
  show "send_ok n ms (c(p := Suc (c p))) r a'" if "\<not> tc_tx_handler (tq_cfg a)"
    using assms(1) d that by (simp add: send_ok_def)
  show "send_ok n ms (c(p := Suc (c p))) r (a'\<lparr>tq_tx_calls := tq_tx_calls a' @ [(p, tb_slot (tq_local a') (active_tx_slot a p))]\<rparr>)"
    (is "send_ok n ms ?c r ?a") if h: "tc_tx_handler (tq_cfg a)"
  proof -
    have m: "tb_slot (tq_local a') (active_tx_slot a p) = ms p ! c p"
      using blk_okD(6) [OF s(2) assms(2), of "c p"] b assms(3) d(6) act by simp
    have "calls_of q ?a = take (?c q) (ms q)" if "q < 2" for q
      using assms(1) h that b assms(3) m by (auto simp: send_ok_def calls_of_def d(5) take_Suc_conv_app_nth)
    moreover have "tx_ok n ms ?c ?a" using d(1) by (simp add: tx_ok_def)
    moreover have "ldone_on n (tq_local ?a)" using assms(1) h d(7) by (simp add: send_ok_def ldone_on_def)
    ultimately show ?thesis using d(2,3) h by (simp add: send_ok_def)
  qed
qed

lemma local_step_ok:
  assumes "send_ok n ms c r a" "ldone_mis (tq_local a) \<noteq> 0"
  obtains p a' where "local_irq_step a = Some a'" "p < 2" "c p < r p" "send_ok n ms (c(p := Suc (c p))) r a'"
    "tq_cfg a' = tq_cfg a" "tq_peer a' = tq_peer a"
proof -
  have h: "tc_tx_handler (tq_cfg a)" using ldone_any [OF assms(1)] assms(2) by simp
  have s: "tx_ok n ms c a" "blk_ok n ms c r (tq_local a)" "ldone_on n (tq_local a)" using assms(1) h by (simp_all add: send_ok_def)
  define st where "st = ldone_mis (tq_local a)"
  have sp: "slot_pending st (active_tx_slot a p) \<longleftrightarrow> c p < r p" if "p < 2" for p
  proof
    assume "slot_pending st (active_tx_slot a p)"
    then have "active_tx_slot a p < 32 \<and> bit (tb_ldone_ris (tq_local a)) (active_tx_slot a p)"
      using bit_imp_le_length [of st] by (auto simp: slot_pending_bit st_def ldone_mis_def bit_and_iff slot_pending_def TRANSQ_SLOT_NUM_def)
    then show "c p < r p" using done_slot [OF s(1,2) that] by simp
  next
    assume cr: "c p < r p"
    then have "0 < n p" "active_tx_slot a p = slot_of (n p) p (c p)"
      using blk_okD(2) [OF s(2) that] tx_okD(5) [OF s(1) that] by auto
    then show "slot_pending st (active_tx_slot a p)"
      using done_slot [OF s(1,2) that] cr s(3) that by (auto simp: slot_pending_bit st_def ldone_mis_def bit_and_iff ldone_on_def)
  qed
  have any: "c 0 < r 0 \<or> c 1 < r 1" using ldone_any [OF assms(1)] assms(2) less_2_cases by auto
  define p :: nat where "p = (if c 1 < r 1 then 1 else 0)"
  have p: "p < 2" "c p < r p" using any by (auto simp: p_def)
  have pick: "(if slot_pending st (active_tx_slot a HAL_TRANSQ_PRI_HIGH) then Some HAL_TRANSQ_PRI_HIGH
      else Option.bind (check (slot_pending st (active_tx_slot a HAL_TRANSQ_PRI_NORMAL))) (\<lambda>_. Some HAL_TRANSQ_PRI_NORMAL)) = Some p"
    using any sp [of 1] sp [of 0] by (auto simp: p_def check_def)
  note d = send_done [OF assms(1) p]
  define a' where "a' = tx_done p (active_tx_slot a p) a"
  have step: "local_irq_step a = Some (a'\<lparr>tq_tx_calls := tq_tx_calls a' @ [(p, tb_slot (tq_local a') (active_tx_slot a p))]\<rparr>)"
    using active_valid [OF s(1)] h pick
    by (simp add: local_irq_step_def Let_def st_def [symmetric] a'_def [symmetric] check_def)
  show ?thesis using d h by (intro that [OF step p]) (simp_all add: a'_def)
qed

lemma local_loop_ok:
  assumes "send_ok n ms c r a"
  obtains c' a' where "local_irq_loop a = Some a'" "send_ok n ms c' r a'" "tq_cfg a' = tq_cfg a" "tq_peer a' = tq_peer a"
    "tc_tx_handler (tq_cfg a) \<Longrightarrow> \<forall>p < 2. c' p = r p"
proof -
  have "\<exists>c' a'. local_irq_loop a = Some a' \<and> send_ok n ms c' r a' \<and> tq_cfg a' = tq_cfg a \<and> tq_peer a' = tq_peer a \<and>
    (tc_tx_handler (tq_cfg a) \<longrightarrow> (\<forall>p < 2. c' p = r p))"
    using assms
  proof (induction "(r 0 - c 0) + (r 1 - c 1)" arbitrary: a c rule: less_induct)
    case less
    show ?case
    proof (cases "ldone_mis (tq_local a) = 0")
      case True
      then have "tc_tx_handler (tq_cfg a) \<longrightarrow> (\<forall>p < 2. \<not> c p < r p)" using ldone_any [OF less.prems] by blast
      moreover have "c p \<le> r p" if "p < 2" for p using less.prems blk_okD(2) that by (auto simp: send_ok_def)
      ultimately have "tc_tx_handler (tq_cfg a) \<longrightarrow> (\<forall>p < 2. c p = r p)" by (meson le_neq_implies_less)
      then show ?thesis using less.prems True by (intro exI [of _ c] exI [of _ a]) (simp add: local_irq_loop.simps)
    next
      case False
      obtain p a1 where a1: "local_irq_step a = Some a1" "p < 2" "c p < r p" "send_ok n ms (c(p := Suc (c p))) r a1"
        "tq_cfg a1 = tq_cfg a" "tq_peer a1 = tq_peer a" using local_step_ok [OF less.prems False] by metis
      have "(r 0 - (c(p := Suc (c p))) 0) + (r 1 - (c(p := Suc (c p))) 1) < (r 0 - c 0) + (r 1 - c 1)"
        using a1(3) pri_cases [OF a1(2)] by auto
      from less.hyps [OF this a1(4)] obtain c' a' where "local_irq_loop a1 = Some a'" "send_ok n ms c' r a'" "tq_cfg a' = tq_cfg a1"
        "tq_peer a' = tq_peer a1" "tc_tx_handler (tq_cfg a1) \<longrightarrow> (\<forall>p < 2. c' p = r p)" by blast
      then show ?thesis using False a1 by (intro exI [of _ c'] exI [of _ a']) (simp add: local_irq_loop.simps [of a])
    qed
  qed
  then show ?thesis using that by blast
qed

end
