(* ===== verification/Transq_Props.thy ===== *)
theory Transq_Props
  imports Transq_Link "HOL-Library.Sublist"
begin

text \<open>
  The queue that two processors share, from the opening on: every state that the sender's and the receiver's
  calls and interrupts can reach, in any order, and what holds in all of them. \<open>sent p\<close> are the messages the
  sender's calls accepted, \<open>got p\<close> those the receiver took.
\<close>

section \<open>Opening\<close>

lemma bit_fold_mask: "bit (fold (\<lambda>i result. result OR 2 ^ i) xs (w :: u32)) k \<longleftrightarrow> bit w k \<or> k < 32 \<and> k \<in> set xs"
  by (induction xs arbitrary: w) (auto simp: bit_or_iff bit_one_bit)

lemma bit_construct_mask: "bit (construct_mask lsb w) k \<longleftrightarrow> lsb \<le> k \<and> k < lsb + w \<and> k < 32"
  by (auto simp: construct_mask_def bit_fold_mask)

lemma bit_slot_masks:
  assumes "slots_ok n" "p < 2" "q < 2" "0 < n q"
  shows "bit (construct_mask (if p = 0 then 0 else 32 - n 1) (n p)) (slot_of (n q) q j) \<longleftrightarrow> p = q"
proof -
  have "j mod n q < n q" using assms(4) by simp
  then show ?thesis using pri_cases [OF assms(2)] pri_cases [OF assms(3)] assms(1)
    by (auto simp: bit_construct_mask slot_of_def slots_ok_def)
qed

lemma update_num_ok:
  assumes "update_num sl c = (HAL_TRANSQ_RET_OK, c')"
  shows "slots_ok (sn_tx_num sl)" "slots_ok (sn_rx_num sl)" "tq_cfg c' = (tq_cfg c)\<lparr>tc_slot := sl\<rparr>"
    "p < 2 \<Longrightarrow> rx_irq_mask c' p = construct_mask (if p = 0 then 0 else 32 - sn_rx_num sl 1) (sn_rx_num sl p)"
    "\<exists>M. (\<forall>p < 2. \<forall>j. 0 < sn_tx_num sl p \<longrightarrow> bit M (slot_of (sn_tx_num sl p) p j)) \<and>
      tq_local c' = (tq_local c)\<lparr>tb_rmt_intmask := M, tb_lerr_intmask := M, tb_ldone_intmask := (if tc_tx_handler (tq_cfg c) then M else 0)\<rparr>"
    "tq_tx_calls c' = tq_tx_calls c"
proof -
  show s: "slots_ok (sn_tx_num sl)" "slots_ok (sn_rx_num sl)"
    using assms by (auto simp: update_num_def slots_ok_def TRANSQ_SLOT_NUM_def split: if_splits)
  show "tq_cfg c' = (tq_cfg c)\<lparr>tc_slot := sl\<rparr>" "tq_tx_calls c' = tq_tx_calls c"
    using assms by (auto simp: update_num_def Let_def split: if_splits)
  show "rx_irq_mask c' p = construct_mask (if p = 0 then 0 else 32 - sn_rx_num sl 1) (sn_rx_num sl p)" if "p < 2"
    using assms pri_cases [OF that] by (auto simp: update_num_def Let_def TRANSQ_SLOT_NUM_def split: if_splits)
  let ?M = "construct_mask 0 (sn_tx_num sl 0) OR construct_mask (32 - sn_tx_num sl 1) (sn_tx_num sl 1)"
  have "bit ?M (slot_of (sn_tx_num sl p) p j)" if "p < 2" "0 < sn_tx_num sl p" for p j
    using bit_slot_masks [OF s(1), of 0 p j] bit_slot_masks [OF s(1), of 1 p j] that pri_cases [OF that(1)]
    by (auto simp: bit_or_iff)
  then show "\<exists>M. (\<forall>p < 2. \<forall>j. 0 < sn_tx_num sl p \<longrightarrow> bit M (slot_of (sn_tx_num sl p) p j)) \<and>
      tq_local c' = (tq_local c)\<lparr>tb_rmt_intmask := M, tb_lerr_intmask := M, tb_ldone_intmask := (if tc_tx_handler (tq_cfg c) then M else 0)\<rparr>"
    using assms by (intro exI [of _ ?M]) (auto simp: update_num_def Let_def TRANSQ_SLOT_NUM_def split: if_splits)
qed

lemma open_split:
  assumes "hal_transq_open qty q (Some cf) S = (HAL_TRANSQ_RET_OK, S')"
  obtains c where "q < qty" "update_num (tc_slot cf) ((S q)\<lparr>tq_cfg := cf\<rparr>) = (HAL_TRANSQ_RET_OK, c)"
    "tq_cfg (S' q) = tq_cfg c" "next_tx_slot (S' q) = next_tx_slot (open_slots (tc_slot cf) c)"
    "active_tx_slot (S' q) = active_tx_slot (open_slots (tc_slot cf) c)" "tx_slot_full (S' q) = tx_slot_full (open_slots (tc_slot cf) c)"
    "next_rx_slot (S' q) = next_rx_slot (open_slots (tc_slot cf) c)" "rx_irq_mask (S' q) = rx_irq_mask c"
    "tq_tx_calls (S' q) = tq_tx_calls c"
    "tq_local (S' q) = (rmt_intclr (NOT 0) (lerr_intclr (NOT 0) (ldone_intclr (NOT 0) (tq_local c))))\<lparr>tb_ctrl := if tc_tx_handler cf then 7 else 5\<rparr>"
proof -
  obtain ret c where u: "update_num (tc_slot cf) ((S q)\<lparr>tq_cfg := cf\<rparr>) = (ret, c)" by force
  have q: "q < qty" using assms by (auto simp: hal_transq_open_def split: if_splits)
  have "ret = HAL_TRANSQ_RET_OK"
    using assms u q by (auto simp: hal_transq_open_def hal_transq_update_num_def Let_def split: if_splits)
  then show ?thesis using assms u q
    by (intro that [of c]) (auto simp: hal_transq_open_def hal_transq_update_num_def Let_def open_slots_def)
qed


lemma send_opened:
  assumes "hal_transq_open qty q (Some cf) S = (HAL_TRANSQ_RET_OK, S')" "tb_rmt_ris (tq_local (S q)) = 0" "tq_tx_calls (S q) = []"
  shows "send_ok (sn_tx_num (tc_slot cf)) (\<lambda>_. []) (\<lambda>_. 0) (\<lambda>_. 0) (S' q)" "tq_cfg (S' q) = cf" "q < qty"
proof -
  let ?n = "sn_tx_num (tc_slot cf)"
  obtain c where c: "q < qty" "update_num (tc_slot cf) ((S q)\<lparr>tq_cfg := cf\<rparr>) = (HAL_TRANSQ_RET_OK, c)"
    "tq_cfg (S' q) = tq_cfg c" "next_tx_slot (S' q) = next_tx_slot (open_slots (tc_slot cf) c)"
    "active_tx_slot (S' q) = active_tx_slot (open_slots (tc_slot cf) c)" "tx_slot_full (S' q) = tx_slot_full (open_slots (tc_slot cf) c)"
    "tq_tx_calls (S' q) = tq_tx_calls c"
    "tq_local (S' q) = (rmt_intclr (NOT 0) (lerr_intclr (NOT 0) (ldone_intclr (NOT 0) (tq_local c))))\<lparr>tb_ctrl := if tc_tx_handler cf then 7 else 5\<rparr>"
    using open_split [OF assms(1)] by metis
  note u = update_num_ok [OF c(2)]
  obtain M where M: "\<And>p j. p < 2 \<Longrightarrow> 0 < ?n p \<Longrightarrow> bit M (slot_of (?n p) p j)"
    "tq_local c = (tq_local (S q))\<lparr>tb_rmt_intmask := M, tb_lerr_intmask := M, tb_ldone_intmask := (if tc_tx_handler cf then M else 0)\<rparr>"
    using u(5) by auto
  show cfg: "tq_cfg (S' q) = cf" using c(3) u(3) by simp
  show "q < qty" by (rule c(1))
  have tx: "tx_ok ?n (\<lambda>_. []) (\<lambda>_. 0) (S' q)"
    unfolding tx_ok_def
  proof (intro allI impI)
    fix p :: nat assume "p < 2"
    then have "p = 0 \<or> p = 1" by auto
    then show "tx_num (S' q) p = ?n p \<and> (0 :: nat) \<le> length [] \<and> length [] \<le> 0 + ?n p \<and>
      next_tx_slot (S' q) p = (if ?n p = 0 then 32 else slot_of (?n p) p (length [])) \<and>
      active_tx_slot (S' q) p = (if 0 = length [] then 32 else slot_of (?n p) p 0) \<and>
      (tx_slot_full (S' q) p \<longleftrightarrow> 0 < ?n p \<and> length [] = 0 + ?n p)"
      by (elim disjE) (simp_all add: c(4-6) cfg open_slots_def slot_of_def TRANSQ_SLOT_NUM_def)
  qed
  have blk: "blk_ok ?n (\<lambda>_. []) (\<lambda>_. 0) (\<lambda>_. 0) (tq_local (S' q))"
    using u(1) assms(2) M by (simp add: blk_ok_def c(8) in_slots_def rmt_intclr_def lerr_intclr_def ldone_intclr_def)
  show "send_ok ?n (\<lambda>_. []) (\<lambda>_. 0) (\<lambda>_. 0) (S' q)"
    using tx blk u(6) assms(3) cfg M
    by (simp add: send_ok_def ldone_on_def calls_of_def c(7,8) rmt_intclr_def lerr_intclr_def ldone_intclr_def)
qed

lemma rcv_opened:
  assumes "hal_transq_open qty q (Some cf) S = (HAL_TRANSQ_RET_OK, S')"
  shows "rx_ok (sn_rx_num (tc_slot cf)) (\<lambda>_. 0) (S' q)"
proof -
  let ?n = "sn_rx_num (tc_slot cf)"
  obtain c where c: "q < qty" "update_num (tc_slot cf) ((S q)\<lparr>tq_cfg := cf\<rparr>) = (HAL_TRANSQ_RET_OK, c)"
    "tq_cfg (S' q) = tq_cfg c" "next_rx_slot (S' q) = next_rx_slot (open_slots (tc_slot cf) c)" "rx_irq_mask (S' q) = rx_irq_mask c"
    using open_split [OF assms(1)] by metis
  note u = update_num_ok [OF c(2)]
  show ?thesis
    unfolding rx_ok_def
  proof (intro allI impI)
    fix p :: nat assume p: "p < 2"
    have "next_rx_slot (S' q) p = (if ?n p = 0 then 32 else slot_of (?n p) p 0)"
      using pri_cases [OF p] by (elim disjE) (simp_all add: c(4) open_slots_def slot_of_def TRANSQ_SLOT_NUM_def)
    then show "rx_num (S' q) p = ?n p \<and> next_rx_slot (S' q) p = (if ?n p = 0 then 32 else slot_of (?n p) p 0) \<and>
      (0 < ?n p \<longrightarrow> (\<forall>q'<2. \<forall>j. 0 < ?n q' \<longrightarrow> bit (rx_irq_mask (S' q) p) (slot_of (?n q') q' j) = (p = q')))"
      using bit_slot_masks [OF u(2) p] u(4) [OF p] by (simp add: c(3,5) u(3))
  qed
qed

section \<open>The two processors\<close>

definition seen_by :: "nat \<Rightarrow> transqs \<Rightarrow> transqs \<Rightarrow> transqs" where
  "seen_by q S R = R(q := (R q)\<lparr>tq_peer := tq_local (S q)\<rparr>)"

definition touched_by :: "nat \<Rightarrow> transqs \<Rightarrow> transqs \<Rightarrow> transqs" where
  "touched_by q R S = S(q := (S q)\<lparr>tq_local := tq_peer (R q)\<rparr>)"

inductive link_reach :: "nat \<Rightarrow> nat \<Rightarrow> transqs \<Rightarrow> transqs \<Rightarrow> (nat \<Rightarrow> msg list) \<Rightarrow> (nat \<Rightarrow> msg list) \<Rightarrow> bool" for qty q where
  opened: "link_reach qty q S (seen_by q S R) (\<lambda>_. []) (\<lambda>_. [])"
    if "hal_transq_open qty q (Some cs) S0 = (HAL_TRANSQ_RET_OK, S)" "tb_rmt_ris (tq_local (S0 q)) = 0" "tq_tx_calls (S0 q) = []"
      "hal_transq_open qty q (Some cr) R0 = (HAL_TRANSQ_RET_OK, R)" "sn_rx_num (tc_slot cr) = sn_tx_num (tc_slot cs)"
| sends: "link_reach qty q S' (seen_by q S' R) (if ret = HAL_TRANSQ_RET_OK then sent(p := sent p @ [m]) else sent) got"
    if "link_reach qty q S R sent got" "hal_transq_tx qty q p m S = (ret, S')"
| looks: "link_reach qty q (touched_by q R' S) R' sent got"
    if "link_reach qty q S R sent got" "hal_transq_rx_first qty q p R = (ret, m, R')"
| takes: "link_reach qty q (touched_by q R' S) R' sent (if ret1 = HAL_TRANSQ_RET_OK then got(p := got p @ [m1]) else got)"
    if "link_reach qty q S R sent got" "hal_transq_rx_first qty q p R = (ret1, m1, R1)" "hal_transq_rx_next qty q p R = (ret, m, R')"
| asks: "link_reach qty q S' (seen_by q S' R) sent got"
    if "link_reach qty q S R sent got" "hal_transq_get_tx_status qty q p S = Some (ret, d, S')"
| rx_irq: "link_reach qty q (touched_by q (R(q := b)) S) (R(q := b)) sent got"
    if "link_reach qty q S R sent got" "hal_transq_remote_irq_handler (R q) = Some b"
| tx_irq: "link_reach qty q (S(q := a)) (seen_by q (S(q := a)) R) sent got"
    if "link_reach qty q S R sent got" "hal_transq_local_irq_handler (S q) = Some a"

text \<open>What every reachable state satisfies, with the counts of the messages confirmed and taken.\<close>

definition link_inv :: "counts \<Rightarrow> counts \<Rightarrow> counts \<Rightarrow> transq \<Rightarrow> transq \<Rightarrow> (nat \<Rightarrow> msg list) \<Rightarrow> (nat \<Rightarrow> msg list) \<Rightarrow> bool" where
  "link_inv n c r a b sent got \<longleftrightarrow> send_ok n sent c r a \<and> rx_ok n r b \<and> tq_peer b = tq_local a \<and>
     (\<forall>p < 2. got p = take (r p) (sent p))"

lemma link_invD:
  assumes "link_inv n c r a b sent got"
  shows "send_ok n sent c r a" "rx_ok n r b" "tx_ok n sent c a" "blk_ok n sent c r (tq_local a)" "blk_ok n sent c r (tq_peer b)"
    "tq_peer b = tq_local a" "p < 2 \<Longrightarrow> got p = take (r p) (sent p)" "p < 2 \<Longrightarrow> length (got p) = r p"
  using assms blk_okD(2) [of n sent c r "tq_local a" p] by (auto simp: link_inv_def send_ok_def)

lemma inv_sender:
  assumes "link_inv n c r a b sent got" "send_ok n sent' c' r a'" "\<And>p. p < 2 \<Longrightarrow> take (r p) (sent' p) = take (r p) (sent p)"
  shows "link_inv n c' r a' (b\<lparr>tq_peer := tq_local a'\<rparr>) sent' got"
  using assms by (simp add: link_inv_def rx_ok_def)

lemma inv_receiver:
  assumes "link_inv n c r a b sent got" "rx_ok n r' b'" "blk_ok n sent c r' (tq_peer b')"
    "tb_ldone_intmask (tq_peer b') = tb_ldone_intmask (tq_peer b)" "\<And>p. p < 2 \<Longrightarrow> got' p = take (r' p) (sent p)"
  shows "link_inv n c r' (a\<lparr>tq_local := tq_peer b'\<rparr>) b' sent got'"
proof -
  have "send_ok n sent c r a" "tq_peer b = tq_local a" using assms(1) by (simp_all add: link_inv_def)
  then have "send_ok n sent c r' (a\<lparr>tq_local := tq_peer b'\<rparr>)"
    using assms(3,4)
    by (cases "tc_tx_handler (tq_cfg a)") (simp_all add: send_ok_def tx_ok_def ldone_on_def calls_of_def)
  then show ?thesis using assms by (simp add: link_inv_def)
qed


lemma seen_triv: "tq_peer (R q) = tq_local (S q) \<Longrightarrow> seen_by q S R = R"
proof -
  assume "tq_peer (R q) = tq_local (S q)"
  then have "(R q)\<lparr>tq_peer := tq_local (S q)\<rparr> = R q" by (cases "R q") simp
  then show ?thesis by (simp add: seen_by_def fun_upd_idem)
qed

lemma touched_triv: "tq_peer (R q) = tq_local (S q) \<Longrightarrow> touched_by q R S = S"
proof -
  assume "tq_peer (R q) = tq_local (S q)"
  then have "(S q)\<lparr>tq_local := tq_peer (R q)\<rparr> = S q" by (cases "S q") simp
  then show ?thesis by (simp add: touched_by_def fun_upd_idem)
qed

lemma inv_tx:
  assumes "link_inv n c r (S q) (R q) sent got" "hal_transq_tx qty q p m S = (ret, S')"
  shows "link_inv n c r (S' q) (seen_by q S' R q) (if ret = HAL_TRANSQ_RET_OK then sent(p := sent p @ [m]) else sent) got"
    "q < qty \<Longrightarrow> p < 2 \<Longrightarrow> 0 < n p \<Longrightarrow> ret = (if length (sent p) = c p + n p then HAL_TRANSQ_RET_TX_FULL else HAL_TRANSQ_RET_OK)"
    "tq_cfg (S' q) = tq_cfg (S q)"
proof -
  note i = link_invD [OF assms(1)]
  have "link_inv n c r (S' q) (seen_by q S' R q) (if ret = HAL_TRANSQ_RET_OK then sent(p := sent p @ [m]) else sent) got \<and>
    (q < qty \<longrightarrow> p < 2 \<longrightarrow> 0 < n p \<longrightarrow> ret = (if length (sent p) = c p + n p then HAL_TRANSQ_RET_TX_FULL else HAL_TRANSQ_RET_OK)) \<and>
    tq_cfg (S' q) = tq_cfg (S q)"
  proof (cases "q < qty \<and> p < 2 \<and> tx_num (S q) p \<noteq> 0")
    case False
    then have "S' = S" "ret \<noteq> HAL_TRANSQ_RET_OK" using assms(2) by (auto simp: hal_transq_tx_def HAL_TRANSQ_PRI_QTY_def split: if_splits)
    then show ?thesis using False i(6) tx_okD(1) [OF i(3)] assms(1) seen_triv [of R q S] by auto
  next
    case True
    then have p: "p < 2" and np: "0 < n p" using tx_okD(1) [OF i(3)] by auto
    obtain c1 where t: "tx p m (S q) = (ret, c1)" "S' = S(q := c1)"
      using True assms(2) by (auto simp: hal_transq_tx_def HAL_TRANSQ_PRI_QTY_def split: prod.splits if_splits)
    show ?thesis
    proof (cases "length (sent p) = c p + n p")
      case full: True
      then show ?thesis using tx_full [OF i(3) p np full, of m] t i(6) assms(1) seen_triv [of R q S] by simp
    next
      case False
      then have room: "length (sent p) < c p + n p" using tx_okD(3) [OF i(3) p] by simp
      obtain a' where a': "tx p m (S q) = (HAL_TRANSQ_RET_OK, a')" "tx_ok n (sent(p := sent p @ [m])) c a'"
        "blk_ok n (sent(p := sent p @ [m])) c r (tq_local a')" "tq_cfg a' = tq_cfg (S q)" "tq_tx_calls a' = tq_tx_calls (S q)"
        "tb_ldone_intmask (tq_local a') = tb_ldone_intmask (tq_local (S q))"
        using tx_room [OF i(3,4) p room] by blast
      have "send_ok n (sent(p := sent p @ [m])) c r a'"
        using i(1) a' tx_okD(2) [OF i(3) p]
        by (cases "tc_tx_handler (tq_cfg (S q))") (simp_all add: send_ok_def ldone_on_def calls_of_def)
      then have "link_inv n c r a' ((R q)\<lparr>tq_peer := tq_local a'\<rparr>) (sent(p := sent p @ [m])) got"
        using blk_okD(2) [OF i(4) p] by (intro inv_sender [OF assms(1)]) auto
      then show ?thesis using t a' False by (simp add: seen_by_def)
    qed
  qed
  then show "link_inv n c r (S' q) (seen_by q S' R q) (if ret = HAL_TRANSQ_RET_OK then sent(p := sent p @ [m]) else sent) got"
    "q < qty \<Longrightarrow> p < 2 \<Longrightarrow> 0 < n p \<Longrightarrow> ret = (if length (sent p) = c p + n p then HAL_TRANSQ_RET_TX_FULL else HAL_TRANSQ_RET_OK)"
    "tq_cfg (S' q) = tq_cfg (S q)" by blast+
qed

lemma rx_call_cases:
  assumes "rx_call f qty q p R = (ret, m, R')"
  obtains "\<not> (q < qty \<and> p < 2 \<and> rx_num (R q) p \<noteq> 0)" "R' = R" "ret \<noteq> HAL_TRANSQ_RET_OK" "ret \<noteq> HAL_TRANSQ_RET_RX_EMPTY"
  | b where "q < qty" "p < 2" "rx_num (R q) p \<noteq> 0" "f p (R q) = (ret, m, b)" "R' = R(q := b)"
  using assms by (auto simp: rx_call_def HAL_TRANSQ_PRI_QTY_def split: if_splits prod.splits)

lemma inv_rx_first:
  assumes "link_inv n c r (S q) (R q) sent got" "hal_transq_rx_first qty q p R = (ret, m, R')"
  shows "link_inv n c r (touched_by q R' S q) (R' q) sent got"
    "q < qty \<Longrightarrow> p < 2 \<Longrightarrow> 0 < n p \<Longrightarrow> (ret, m) = (if r p < length (sent p) then (HAL_TRANSQ_RET_OK, sent p ! r p) else (HAL_TRANSQ_RET_RX_EMPTY, (0, 0)))"
    "ret = HAL_TRANSQ_RET_OK \<Longrightarrow> q < qty \<and> p < 2 \<and> 0 < n p \<and> r p < length (sent p) \<and> m = sent p ! r p"
    "tq_cfg (R' q) = tq_cfg (R q)"
proof -
  note i = link_invD [OF assms(1)]
  have "link_inv n c r (touched_by q R' S q) (R' q) sent got \<and>
    (q < qty \<longrightarrow> p < 2 \<longrightarrow> 0 < n p \<longrightarrow> (ret, m) = (if r p < length (sent p) then (HAL_TRANSQ_RET_OK, sent p ! r p) else (HAL_TRANSQ_RET_RX_EMPTY, (0, 0)))) \<and>
    (ret = HAL_TRANSQ_RET_OK \<longrightarrow> q < qty \<and> p < 2 \<and> 0 < n p \<and> r p < length (sent p) \<and> m = sent p ! r p) \<and> tq_cfg (R' q) = tq_cfg (R q)"
    using assms(2) [unfolded hal_transq_rx_first_def]
  proof (cases rule: rx_call_cases)
    case 1
    then show ?thesis using i(6) rx_okD(1) [OF i(2)] assms(1) touched_triv [of R q S] by auto
  next
    case (2 b)
    then have np: "0 < n p" using rx_okD(1) [OF i(2) 2(2)] by simp
    note en = enable_blk [OF i(2,5) 2(2) np]
    have "link_inv n c r ((S q)\<lparr>tq_local := tq_peer (irq_enable p (R q))\<rparr>) (irq_enable p (R q)) sent got"
      using en i(7) by (intro inv_receiver [OF assms(1)]) auto
    then show ?thesis using rx_first_ok [OF i(2,5) 2(2) np] 2 np en(4) i(6) assms(1) touched_triv [of R q S]
      by (auto simp: touched_by_def split: if_splits)
  qed
  then show "link_inv n c r (touched_by q R' S q) (R' q) sent got"
    "q < qty \<Longrightarrow> p < 2 \<Longrightarrow> 0 < n p \<Longrightarrow> (ret, m) = (if r p < length (sent p) then (HAL_TRANSQ_RET_OK, sent p ! r p) else (HAL_TRANSQ_RET_RX_EMPTY, (0, 0)))"
    "ret = HAL_TRANSQ_RET_OK \<Longrightarrow> q < qty \<and> p < 2 \<and> 0 < n p \<and> r p < length (sent p) \<and> m = sent p ! r p"
    "tq_cfg (R' q) = tq_cfg (R q)"
    by blast+
qed

lemma inv_rx_next:
  assumes "link_inv n c r (S q) (R q) sent got" "hal_transq_rx_next qty q p R = (ret, m, R')"
  shows "q < qty \<Longrightarrow> p < 2 \<Longrightarrow> r p < length (sent p) \<Longrightarrow>
      link_inv n c (r(p := Suc (r p))) (touched_by q R' S q) (R' q) sent (got(p := got p @ [sent p ! r p])) \<and>
      (ret, m) = (if Suc (r p) < length (sent p) then (HAL_TRANSQ_RET_OK, sent p ! Suc (r p)) else (HAL_TRANSQ_RET_RX_EMPTY, (0, 0)))"
    "\<not> (q < qty \<and> p < 2 \<and> r p < length (sent p)) \<Longrightarrow> link_inv n c r (touched_by q R' S q) (R' q) sent got"
    "tq_cfg (R' q) = tq_cfg (R q)"
proof -
  note i = link_invD [OF assms(1)]
  show "link_inv n c (r(p := Suc (r p))) (touched_by q R' S q) (R' q) sent (got(p := got p @ [sent p ! r p])) \<and>
      (ret, m) = (if Suc (r p) < length (sent p) then (HAL_TRANSQ_RET_OK, sent p ! Suc (r p)) else (HAL_TRANSQ_RET_RX_EMPTY, (0, 0)))"
    if p: "q < qty" "p < 2" "r p < length (sent p)"
  proof -
    have np: "0 < n p" using p blk_okD(2) [OF i(4) p(2)] by simp
    obtain b' where b': "rx_next p (R q) = (ret, m, b')" "R' = R(q := b')"
      using assms(2) [unfolded hal_transq_rx_next_def] p np rx_okD(1) [OF i(2) p(2)] by (cases rule: rx_call_cases) auto
    obtain ret2 m2 b2 where n: "rx_next p (R q) = (ret2, m2, b2)" "rx_ok n (r(p := Suc (r p))) b2"
      "blk_ok n sent c (r(p := Suc (r p))) (tq_peer b2)"
      "tb_ldone_intmask (tq_peer b2) = tb_ldone_intmask (tq_peer (R q))"
      "(ret2, m2) = (if Suc (r p) < length (sent p) then (HAL_TRANSQ_RET_OK, sent p ! Suc (r p)) else (HAL_TRANSQ_RET_RX_EMPTY, (0, 0)))"
      using rx_next_ok [OF i(2,5) p(2,3)] by metis
    have "link_inv n c (r(p := Suc (r p))) ((S q)\<lparr>tq_local := tq_peer b2\<rparr>) b2 sent (got(p := got p @ [sent p ! r p]))"
      using i(7) p(3) by (intro inv_receiver [OF assms(1) n(2-4)]) (simp add: take_Suc_conv_app_nth)
    then show ?thesis using b' n(1,5) by (simp add: touched_by_def)
  qed
  have "link_inv n c r (touched_by q R' S q) (R' q) sent got \<and> tq_cfg (R' q) = tq_cfg (R q)"
    if "\<not> (q < qty \<and> p < 2 \<and> r p < length (sent p))"
    using assms(2) [unfolded hal_transq_rx_next_def]
  proof (cases rule: rx_call_cases)
    case 1
    then show ?thesis using i(6) assms(1) touched_triv [of R q S] by auto
  next
    case (2 b)
    then have np: "0 < n p" and e: "r p = length (sent p)" using rx_okD(1) [OF i(2) 2(2)] that blk_okD(2) [OF i(4) 2(2)] by auto
    note en = enable_blk [OF i(2,5) 2(2) np]
    have "link_inv n c r ((S q)\<lparr>tq_local := tq_peer (irq_enable p (R q))\<rparr>) (irq_enable p (R q)) sent got"
      using en i(7) by (intro inv_receiver [OF assms(1)]) auto
    then show ?thesis using rx_next_empty [OF i(2,5) 2(2) np e] 2 en(4) by (simp add: touched_by_def)
  qed
  then show "link_inv n c r (touched_by q R' S q) (R' q) sent got" if "\<not> (q < qty \<and> p < 2 \<and> r p < length (sent p))"
    using that by blast
  show "tq_cfg (R' q) = tq_cfg (R q)"
    using assms(2) [unfolded hal_transq_rx_next_def]
    by (cases rule: rx_call_cases) (auto simp: rx_next_def Let_def split: if_splits)
qed


lemma inv_tx_status:
  assumes "link_inv n c r (S q) (R q) sent got" "hal_transq_get_tx_status qty q p S = Some (ret, d, S')"
  obtains c' where "link_inv n c' r (S' q) (seen_by q S' R q) sent got" "tq_cfg (S' q) = tq_cfg (S q)"
proof -
  note i = link_invD [OF assms(1)]
  show ?thesis
  proof (cases "q < qty \<and> p < 2 \<and> tx_num (S q) p \<noteq> 0 \<and> \<not> tc_tx_handler (tq_cfg (S q))")
    case False
    then have "S' = S" using assms(2) by (auto simp: hal_transq_get_tx_status_def HAL_TRANSQ_PRI_QTY_def split: if_splits)
    then show ?thesis using that [of c] assms(1) seen_triv [of R q S] i(6) by simp
  next
    case True
    then have p: "p < 2" by simp
    obtain a where a: "get_tx_status p (S q) = Some (d, a)" "S' = S(q := a)"
      using assms(2) True by (auto simp: hal_transq_get_tx_status_def HAL_TRANSQ_PRI_QTY_def split: bind_splits)
    show ?thesis
    proof (cases "c p < r p")
      case cr: True
      then have "a = tx_done p (active_tx_slot (S q) p) (S q)"
        using a(1) done_slot [OF i(3,4) p] by (auto simp: get_tx_status_def Let_def check_def split: if_splits bind_splits)
      then have "send_ok n sent (c(p := Suc (c p))) r a" "tq_cfg a = tq_cfg (S q)"
        using send_done(2,3) [OF i(1) p cr] True by simp_all
      then show ?thesis using inv_sender [OF assms(1)] that [of "c(p := Suc (c p))"] a(2) by (simp add: seen_by_def)
    next
      case False
      then have "a = S q"
        using a(1) done_slot [OF i(3,4) p] by (auto simp: get_tx_status_def Let_def check_def split: if_splits bind_splits)
      then show ?thesis using that [of c] assms(1) seen_triv [of R q S] i(6) a(2) by simp
    qed
  qed
qed

lemma local_handler_ok:
  assumes "link_inv n c r a b sent got"
  obtains c' a' where "hal_transq_local_irq_handler a = Some a'" "link_inv n c' r a' (b\<lparr>tq_peer := tq_local a'\<rparr>) sent got"
    "tq_cfg a' = tq_cfg a" "tc_tx_handler (tq_cfg a) \<Longrightarrow> \<forall>p < 2. c' p = r p"
proof -
  note i = link_invD [OF assms(1)]
  obtain c' a' where l: "local_irq_loop a = Some a'" "send_ok n sent c' r a'" "tq_cfg a' = tq_cfg a"
    "tc_tx_handler (tq_cfg a) \<Longrightarrow> \<forall>p < 2. c' p = r p"
    by (rule local_loop_ok [OF i(1)]) blast
  have "lerr_mis (tq_local a) = 0" using blk_okD(5) [OF i(4)] by (simp add: lerr_mis_def)
  then have h: "hal_transq_local_irq_handler a = Some a'" using l(1) by (simp add: hal_transq_local_irq_handler_def check_def)
  show ?thesis by (rule that [OF h inv_sender [OF assms l(2)] l(3)]) (use l(4) in simp_all)
qed

lemma remote_handler_ok:
  assumes "link_inv n c r a b sent got"
  obtains b' where "hal_transq_remote_irq_handler b = Some b'" "link_inv n c r (a\<lparr>tq_local := tq_peer b'\<rparr>) b' sent got"
    "rmt_mis (tq_peer b') = 0" "tq_cfg b' = tq_cfg b"
proof -
  note i = link_invD [OF assms(1)]
  obtain b' where b': "hal_transq_remote_irq_handler b = Some b'" "rx_ok n r b'" "blk_ok n sent c r (tq_peer b')" "tq_cfg b' = tq_cfg b"
    "rmt_mis (tq_peer b') = 0" "tq_peer b' = (tq_peer b)\<lparr>tb_rmt_intmask := tb_rmt_intmask (tq_peer b')\<rparr>"
    using remote_irq_ok [OF i(2,5)] by metis
  have "tb_ldone_intmask (tq_peer b') = tb_ldone_intmask (tq_peer b)" by (subst b'(6)) simp
  then have "link_inv n c r (a\<lparr>tq_local := tq_peer b'\<rparr>) b' sent got" by (rule inv_receiver [OF assms b'(2,3)]) (rule i(7))
  then show ?thesis by (rule that [OF b'(1) _ b'(5,4)])
qed

lemma reach_inv:
  assumes "link_reach qty q S R sent got"
  shows "q < qty \<and> (\<exists>n c r. link_inv n c r (S q) (R q) sent got)"
  using assms
proof induction
  case (opened cs S0 S cr R0 R)
  note s = send_opened [OF opened(1-3)]
  have r: "rx_ok (sn_tx_num (tc_slot cs)) (\<lambda>_. 0) (R q)" using rcv_opened [OF opened(4)] opened(5) by simp
  have "link_inv (sn_tx_num (tc_slot cs)) (\<lambda>_. 0) (\<lambda>_. 0) (S q) (seen_by q S R q) (\<lambda>_. []) (\<lambda>_. [])"
    using s r by (simp add: link_inv_def seen_by_def rx_ok_def)
  then show ?case using s(3) by blast
next
  case (sends S R sent got p m ret S')
  then show ?case using inv_tx(1) by blast
next
  case (looks S R sent got p ret m R')
  then show ?case using inv_rx_first(1) by blast
next
  case (takes S R sent got p ret1 m1 R1 ret m R')
  then obtain n c r where i: "link_inv n c r (S q) (R q) sent got" and q: "q < qty" by blast
  note f = inv_rx_first(2,3) [where S = S and R = R and q = q, OF i takes(2)]
  note x = inv_rx_next(1,2) [where S = S and R = R and q = q, OF i takes(3)]
  show ?case
  proof (cases "ret1 = HAL_TRANSQ_RET_OK")
    case True
    then have m: "m1 = sent p ! r p" "p < 2" "r p < length (sent p)" using f(2) by simp_all
    show ?thesis unfolding if_P [OF True] m(1) using x(1) [OF q m(2,3)] q by blast
  next
    case False
    have "\<not> (p < 2 \<and> r p < length (sent p))"
    proof
      assume a: "p < 2 \<and> r p < length (sent p)"
      then have "0 < n p" using blk_okD(2) [OF link_invD(4) [OF i], of p] by auto
      then show False using f(1) q a False by simp
    qed
    then show ?thesis using x(2) q False by auto
  qed
next
  case (asks S R sent got p ret d S')
  then show ?case using inv_tx_status by metis
next
  case (rx_irq S R sent got b)
  then obtain n c r where i: "link_inv n c r (S q) (R q) sent got" and q: "q < qty" by blast
  show ?case using remote_handler_ok [OF i] rx_irq(2) q by (metis fun_upd_same option.inject touched_by_def)
next
  case (tx_irq S R sent got a)
  then obtain n c r where i: "link_inv n c r (S q) (R q) sent got" and q: "q < qty" by blast
  show ?case using local_handler_ok [OF i] tx_irq(2) q by (metis fun_upd_same option.inject seen_by_def)
qed


section \<open>Properties\<close>

text \<open>C3: In every state that the calls and interrupts of both processors can reach, in any order, the messages the
  receiver has taken of a priority are a prefix of those sent, the ones confirmed through the sender's callback are a
  prefix of those taken, and no more than the configured number of slots are on the way.\<close>

theorem transq_fifo:
  assumes "link_reach qty q S R sent got" "p < HAL_TRANSQ_PRI_QTY"
  shows "prefix (got p) (sent p) \<and> prefix (calls_of p (S q)) (got p) \<and> length (sent p) \<le> length (got p) + tx_num (S q) p"
proof -
  obtain n c r where i: "link_inv n c r (S q) (R q) sent got" using reach_inv [OF assms(1)] by blast
  have p: "p < 2" using assms(2) by (simp add: HAL_TRANSQ_PRI_QTY_def)
  note b = blk_okD(2) [OF link_invD(4) [OF i] p]
  have "calls_of p (S q) = take (c p) (sent p) \<or> calls_of p (S q) = []"
    using link_invD(1) [OF i] p by (auto simp: send_ok_def calls_of_def split: if_splits)
  moreover have "prefix (take (c p) (sent p)) (take (r p) (sent p))"
    using b by (metis min.absorb1 take_is_prefix take_take)
  ultimately show ?thesis
    using b link_invD(7) [OF i p] tx_okD(1) [OF link_invD(3) [OF i] p] by (auto simp: take_is_prefix)
qed

text \<open>C29: In every reachable state both interrupt handlers return without a failed assertion: the receiver's leaves no
  request of its unmasked slots to serve, and the sender's has reported every message the receiver has taken.\<close>

theorem transq_handlers_return:
  assumes "link_reach qty q S R sent got"
  shows "(\<exists>b. hal_transq_remote_irq_handler (R q) = Some b \<and> rmt_mis (tq_peer b) = 0) \<and>
    (\<exists>a. hal_transq_local_irq_handler (S q) = Some a \<and>
       (tc_tx_handler (tq_cfg (S q)) \<longrightarrow> (\<forall>p < HAL_TRANSQ_PRI_QTY. calls_of p a = got p)))"
proof -
  obtain n c r where i: "link_inv n c r (S q) (R q) sent got" using reach_inv [OF assms] by blast
  obtain c' a' where a: "hal_transq_local_irq_handler (S q) = Some a'"
    "link_inv n c' r a' ((R q)\<lparr>tq_peer := tq_local a'\<rparr>) sent got" "tq_cfg a' = tq_cfg (S q)"
    "tc_tx_handler (tq_cfg (S q)) \<Longrightarrow> \<forall>p < 2. c' p = r p"
    using local_handler_ok [OF i] by blast
  have "calls_of p a' = got p" if "tc_tx_handler (tq_cfg (S q))" "p < 2" for p
    using a(4) [OF that(1)] that link_invD(1) [OF a(2)] a(3) link_invD(7) [OF i that(2)] by (simp add: send_ok_def)
  moreover obtain b' where "hal_transq_remote_irq_handler (R q) = Some b'" "rmt_mis (tq_peer b') = 0"
    using remote_handler_ok [OF i] by blast
  ultimately show ?thesis using a(1) by (auto simp: HAL_TRANSQ_PRI_QTY_def)
qed

text \<open>What the calls answer in a reachable state. A sender with a callback is refused exactly when all the slots of
  the priority hold messages not yet reported to it; the receiver's first message is the oldest it has not taken.\<close>

theorem transq_answers:
  assumes "link_reach qty q S R sent got" "p < HAL_TRANSQ_PRI_QTY" "tx_num (S q) p \<noteq> 0" "tc_tx_handler (tq_cfg (S q))"
  shows "fst (hal_transq_tx qty q p m S) =
      (if length (sent p) = length (calls_of p (S q)) + tx_num (S q) p then HAL_TRANSQ_RET_TX_FULL else HAL_TRANSQ_RET_OK) \<and>
    fst (hal_transq_rx_first qty q p R) = (if got p = sent p then HAL_TRANSQ_RET_RX_EMPTY else HAL_TRANSQ_RET_OK) \<and>
    (got p \<noteq> sent p \<longrightarrow> fst (snd (hal_transq_rx_first qty q p R)) = sent p ! length (got p))"
proof -
  obtain n c r where i: "link_inv n c r (S q) (R q) sent got" and q: "q < qty" using reach_inv [OF assms(1)] by blast
  have p: "p < 2" using assms(2) by (simp add: HAL_TRANSQ_PRI_QTY_def)
  have n: "tx_num (S q) p = n p" "0 < n p" using tx_okD(1) [OF link_invD(3) [OF i] p] assms(3) by simp_all
  note b = blk_okD(2) [OF link_invD(4) [OF i] p]
  have calls: "length (calls_of p (S q)) = c p" using link_invD(1) [OF i] assms(4) p b by (simp add: send_ok_def)
  have got: "length (got p) = r p" "got p = sent p \<longleftrightarrow> \<not> r p < length (sent p)"
    using link_invD(7,8) [OF i p] b by (auto simp: not_less)
  obtain ret S' where t: "hal_transq_tx qty q p m S = (ret, S')" by force
  obtain ret1 m1 R1 where f: "hal_transq_rx_first qty q p R = (ret1, m1, R1)" by (metis prod_cases3)
  have "ret = (if length (sent p) = c p + n p then HAL_TRANSQ_RET_TX_FULL else HAL_TRANSQ_RET_OK)"
    by (rule inv_tx(2) [where S = S and R = R and q = q, OF i t q p n(2)])
  moreover have "(ret1, m1) = (if r p < length (sent p) then (HAL_TRANSQ_RET_OK, sent p ! r p) else (HAL_TRANSQ_RET_RX_EMPTY, (0, 0)))"
    by (rule inv_rx_first(2) [where S = S and R = R and q = q, OF i f q p n(2)])
  ultimately show ?thesis using t f got calls n(1) by auto
qed

text \<open>A receiver's loop: it asks for the first message and then for the next until there is none.\<close>

fun rx_loop :: "nat \<Rightarrow> nat \<Rightarrow> nat \<Rightarrow> nat \<Rightarrow> transq_ret \<times> msg \<times> transqs \<Rightarrow> (msg list \<times> transqs) option" where
  "rx_loop 0 qty q p x = None"
| "rx_loop (Suc k) qty q p (ret, m, R) =
     (if ret = HAL_TRANSQ_RET_OK
      then map_option (\<lambda>(ms, R'). (m # ms, R')) (rx_loop k qty q p (hal_transq_rx_next qty q p R))
      else Some ([], R))"

lemma rx_loop_ok:
  assumes "link_inv n c r (S q) (R q) sent got" "q < qty" "p < 2" "0 < n p" "length (sent p) - r p < k"
    "(ret, m) = (if r p < length (sent p) then (HAL_TRANSQ_RET_OK, sent p ! r p) else (HAL_TRANSQ_RET_RX_EMPTY, (0, 0)))"
  shows "\<exists>R'. rx_loop k qty q p (ret, m, R) = Some (drop (r p) (sent p), R')"
  using assms
proof (induction k arbitrary: r S R got ret m)
  case (Suc k)
  show ?case
  proof (cases "r p < length (sent p)")
    case True
    obtain ret2 m2 R2 where x: "hal_transq_rx_next qty q p R = (ret2, m2, R2)" by (metis prod_cases3)
    note y = inv_rx_next(1) [where S = S and R = R and q = q, OF Suc.prems(1) x Suc.prems(2,3) True]
    have "\<exists>R'. rx_loop k qty q p (ret2, m2, R2) = Some (drop ((r(p := Suc (r p))) p) (sent p), R')"
      by (rule Suc.IH [where S = "touched_by q R2 S" and R = R2 and r = "r(p := Suc (r p))", OF conjunct1 [OF y] Suc.prems(2-4)]) (use y Suc.prems(5) True in auto)
    then show ?thesis using True Suc.prems(6) x by (auto simp: Cons_nth_drop_Suc)
  next
    case False
    then show ?thesis using Suc.prems(6) by simp
  qed
qed simp

text \<open>A receiver that asks for the first message and then for the next one until there is none gets, after no more
  calls than there are slots and one, every message on the way, in the order they were sent.\<close>

theorem transq_drains:
  assumes "link_reach qty q S R sent got" "p < HAL_TRANSQ_PRI_QTY" "tx_num (S q) p \<noteq> 0"
  shows "\<exists>ms R'. rx_loop (tx_num (S q) p + 1) qty q p (hal_transq_rx_first qty q p R) = Some (ms, R') \<and> got p @ ms = sent p"
proof -
  obtain n c r where i: "link_inv n c r (S q) (R q) sent got" and q: "q < qty" using reach_inv [OF assms(1)] by blast
  have p: "p < 2" using assms(2) by (simp add: HAL_TRANSQ_PRI_QTY_def)
  have n: "tx_num (S q) p = n p" "0 < n p" using tx_okD(1) [OF link_invD(3) [OF i] p] assms(3) by simp_all
  note b = blk_okD(2) [OF link_invD(4) [OF i] p]
  obtain ret m R1 where f: "hal_transq_rx_first qty q p R = (ret, m, R1)" by (metis prod_cases3)
  have "\<exists>R'. rx_loop (n p + 1) qty q p (ret, m, R1) = Some (drop (r p) (sent p), R')"
  proof (rule rx_loop_ok [where S = "touched_by q R1 S" and R = R1 and q = q and n = n and c = c and r = r and sent = sent and got = got])
    show "link_inv n c r (touched_by q R1 S q) (R1 q) sent got"
      by (rule inv_rx_first(1) [where S = S and R = R and q = q, OF i f])
    show "(ret, m) = (if r p < length (sent p) then (HAL_TRANSQ_RET_OK, sent p ! r p) else (HAL_TRANSQ_RET_RX_EMPTY, 0, 0))"
      by (rule inv_rx_first(2) [where S = S and R = R and q = q, OF i f q p n(2)])
  qed (use b q p n(2) in linarith)+
  then show ?thesis using f n(1) link_invD(7) [OF i p] by auto
qed


definition bad_argument :: "nat \<Rightarrow> nat \<Rightarrow> nat \<Rightarrow> transq_ret \<Rightarrow> transq_ret" where
  "bad_argument qty q p e =
     (if q \<ge> qty then HAL_TRANSQ_RET_BAD_ID else if p \<ge> HAL_TRANSQ_PRI_QTY then HAL_TRANSQ_RET_BAD_PRI else e)"

text \<open>Every call checks its arguments in the order of the code: a bad queue, a bad priority and a priority with
  no slots are each reported by their own code, and the queues are left as they are.\<close>

theorem transq_bad_arguments:
  assumes "q \<ge> qty \<or> p \<ge> HAL_TRANSQ_PRI_QTY \<or> tx_num (S q) p = 0 \<and> rx_num (S q) p = 0"
  shows "hal_transq_tx qty q p m S = (bad_argument qty q p HAL_TRANSQ_RET_BAD_TX_NUM, S) \<and>
    hal_transq_get_tx_status qty q p S = Some (bad_argument qty q p HAL_TRANSQ_RET_BAD_TX_NUM, False, S) \<and>
    hal_transq_rx_first qty q p S = (bad_argument qty q p HAL_TRANSQ_RET_BAD_RX_NUM, (0, 0), S) \<and>
    hal_transq_rx_next qty q p S = (bad_argument qty q p HAL_TRANSQ_RET_BAD_RX_NUM, (0, 0), S) \<and>
    hal_transq_get_rx_status qty q p S = (bad_argument qty q p HAL_TRANSQ_RET_BAD_RX_NUM, False)"
  using assms by (auto simp: bad_argument_def hal_transq_tx_def hal_transq_get_tx_status_def hal_transq_rx_first_def
      hal_transq_rx_next_def rx_call_def hal_transq_get_rx_status_def)

section \<open>A run\<close>

definition reset_block :: transq_block where
  "reset_block = \<lparr>tb_ctrl = 0, tb_rmt_intmask = 0, tb_rmt_ris = 0, tb_ldone_intmask = 0, tb_ldone_ris = 0, tb_lerr_intmask = 0,
     tb_lerr_ris = 0, tb_slot = (\<lambda>_. (0, 0))\<rparr>"

definition run_cfg :: transq_cfg where
  "run_cfg = \<lparr>tc_slot = \<lparr>sn_tx_num = (\<lambda>p. p + 1), sn_rx_num = (\<lambda>p. p + 1)\<rparr>, tc_rx_handler = True, tc_tx_handler = True\<rparr>"

definition reset_transq :: transq where
  "reset_transq = \<lparr>tq_cfg = run_cfg, next_tx_slot = (\<lambda>_. 0), active_tx_slot = (\<lambda>_. 0), tx_slot_full = (\<lambda>_. False),
     next_rx_slot = (\<lambda>_. 0), rx_irq_mask = (\<lambda>_. 0), tq_local = reset_block, tq_peer = reset_block, tq_remote_irq = False,
     tq_local_irq = False, tq_rx_calls = [], tq_tx_calls = []\<rparr>"

definition run_open :: transqs where "run_open = snd (hal_transq_open 1 0 (Some run_cfg) (\<lambda>_. reset_transq))"
definition run_S :: transqs where "run_S = snd (hal_transq_tx 1 0 1 (8, 9) (snd (hal_transq_tx 1 0 1 (5, 7) run_open)))"
definition run_R :: transqs where
  "run_R = seen_by 0 run_S (seen_by 0 (snd (hal_transq_tx 1 0 1 (5, 7) run_open)) (seen_by 0 run_open run_open))"
definition run_R2 :: transqs where "run_R2 = snd (snd (hal_transq_rx_next 1 0 1 run_R))"
definition run_S2 :: transqs where "run_S2 = touched_by 0 run_R2 run_S"

lemma run_facts:
  "fst (hal_transq_open 1 0 (Some run_cfg) (\<lambda>_. reset_transq)) = HAL_TRANSQ_RET_OK"
  "fst (hal_transq_tx 1 0 1 (5, 7) run_open) = HAL_TRANSQ_RET_OK"
  "fst (hal_transq_tx 1 0 1 (8, 9) (snd (hal_transq_tx 1 0 1 (5, 7) run_open))) = HAL_TRANSQ_RET_OK"
  "fst (hal_transq_rx_first 1 0 1 run_R) = HAL_TRANSQ_RET_OK"
  "fst (snd (hal_transq_rx_first 1 0 1 run_R)) = (5, 7)"
  by code_simp+


lemma run_reach: "link_reach 1 0 run_S2 run_R2 (\<lambda>p. if p = 1 then [(5, 7), (8, 9)] else []) (\<lambda>p. if p = 1 then [(5, 7)] else [])"
proof -
  let ?S1 = "snd (hal_transq_tx 1 0 1 (5, 7) run_open)"
  have o: "hal_transq_open 1 0 (Some run_cfg) (\<lambda>_. reset_transq) = (HAL_TRANSQ_RET_OK, run_open)"
    using run_facts(1) by (metis prod.collapse run_open_def)
  have "link_reach 1 0 run_open (seen_by 0 run_open run_open) (\<lambda>_. []) (\<lambda>_. [])"
    by (rule link_reach.opened [OF o _ _ o]) (simp_all add: reset_transq_def reset_block_def run_cfg_def)
  moreover have "hal_transq_tx 1 0 1 (5, 7) run_open = (HAL_TRANSQ_RET_OK, ?S1)"
    using run_facts(2) by (metis prod.collapse)
  ultimately have r1: "link_reach 1 0 ?S1 (seen_by 0 ?S1 (seen_by 0 run_open run_open)) ((\<lambda>_. [])(1 := [(5, 7)])) (\<lambda>_. [])"
    using link_reach.sends by fastforce
  have "hal_transq_tx 1 0 1 (8, 9) ?S1 = (HAL_TRANSQ_RET_OK, run_S)"
    using run_facts(3) by (metis prod.collapse run_S_def)
  from link_reach.sends [OF r1 this]
  have r2: "link_reach 1 0 run_S run_R (((\<lambda>_. [])(1 := [(5, 7)]))(1 := [(5, 7), (8, 9)])) (\<lambda>_. [])"
    by (simp add: run_R_def)
  have f: "hal_transq_rx_first 1 0 1 run_R = (HAL_TRANSQ_RET_OK, (5, 7), snd (snd (hal_transq_rx_first 1 0 1 run_R)))"
    using run_facts(4,5) by (metis prod.collapse)
  have "hal_transq_rx_next 1 0 1 run_R = (fst (hal_transq_rx_next 1 0 1 run_R), fst (snd (hal_transq_rx_next 1 0 1 run_R)), run_R2)"
    by (simp only: run_R2_def prod.collapse)
  from link_reach.takes [OF r2 f this]
  have "link_reach 1 0 run_S2 run_R2 (((\<lambda>_. [])(1 := [(5, 7)]))(1 := [(5, 7), (8, 9)])) ((\<lambda>_. [])(1 := [(5, 7)]))"
    by (simp only: run_S2_def if_True fun_upd_same append.simps refl simp_thms)
  moreover have "((\<lambda>_. [])(1 := [(5 :: u32, 7 :: u32)]))(1 := [(5, 7), (8, 9)]) = (\<lambda>p. if p = (1 :: nat) then [(5, 7), (8, 9)] else [])"
    "((\<lambda>_. [])(1 := [(5 :: u32, 7 :: u32)])) = (\<lambda>p. if p = (1 :: nat) then [(5, 7)] else [])" by auto
  ultimately show ?thesis by (simp only:)
qed

lemma run_cfg_facts: "tx_num (run_S2 0) 1 = 2" "tc_tx_handler (tq_cfg (run_S2 0))" "calls_of 1 (run_S2 0) = []"
  by code_simp+

theorem transq_fifo_witness: "prefix [(5, 7)] [(5 :: u32, 7 :: u32), (8, 9)] \<and> prefix (calls_of 1 (run_S2 0)) [(5, 7)] \<and> 2 \<le> 1 + tx_num (run_S2 0) 1"
  using transq_fifo [OF run_reach, of 1] by (simp add: HAL_TRANSQ_PRI_QTY_def)

theorem transq_handlers_return_witness:
  "\<exists>a. hal_transq_local_irq_handler (run_S2 0) = Some a \<and> calls_of 1 a = [(5, 7)]"
  using transq_handlers_return [OF run_reach] run_cfg_facts(2) by (auto simp: HAL_TRANSQ_PRI_QTY_def)

theorem transq_answers_witness:
  "fst (hal_transq_tx 1 0 1 (1, 2) run_S2) = HAL_TRANSQ_RET_TX_FULL \<and>
    fst (hal_transq_rx_first 1 0 1 run_R2) = HAL_TRANSQ_RET_OK \<and> fst (snd (hal_transq_rx_first 1 0 1 run_R2)) = (8, 9)"
  using transq_answers [OF run_reach, of 1 "(1, 2)"] run_cfg_facts by (simp add: HAL_TRANSQ_PRI_QTY_def)

theorem transq_drains_witness: "\<exists>R'. rx_loop 3 1 0 1 (hal_transq_rx_first 1 0 1 run_R2) = Some ([(8, 9)], R')"
  using transq_drains [OF run_reach, of 1] run_cfg_facts by (simp add: HAL_TRANSQ_PRI_QTY_def)

theorem transq_bad_arguments_witness: "hal_transq_tx 1 1 0 (5, 7) run_S = (HAL_TRANSQ_RET_BAD_ID, run_S)"
  using transq_bad_arguments [of 1 1 0 run_S "(5, 7)"] by (simp add: bad_argument_def)

end
