(* ===== verification/Nv_Heap.thy ===== *)
theory Nv_Heap
  imports Lb_Prelude
begin

text \<open>
  The memory pool of the non-volatile records, \<^verbatim>\<open>services/nvrecord\<close>: a heap of typed objects at 32-bit
  addresses, 0 the null pointer. \<open>pool_malloc\<close> and \<open>pool_free\<close> are macros for the heap of
  \<^verbatim>\<open>utils/heap/multi_heap.c\<close>, whose choice of an address is the parameter \<open>al\<close>; an access to an address that
  holds no object of the expected type, in particular to a freed one, is \<open>None\<close>, and so is freeing twice.
  \<open>owns h cs F\<close> says that the heap consists of exactly the objects \<open>cs\<close> and the rest \<open>F\<close>.
\<close>

section \<open>Objects\<close>

type_synonym addr = u32

datatype free_cb = NVREC_SECTION_FREE | NVREC_ENTRY_FREE

record list_node =
  ln_next :: addr
  ln_data :: addr

record list_t =
  lt_head :: addr
  lt_tail :: addr
  lt_length :: u32
  lt_free_cb :: "free_cb option"

record nvrec_entry =
  ne_key :: addr
  ne_value :: addr

record nvrec_section =
  ns_name :: addr
  ns_entries :: addr

record nvrec_config =
  nc_sections :: addr

record btif_device_record =
  bdAddr :: "u8 list"
  trusted :: bool
  linkKey :: "u8 list"
  keyType :: u8
  pinLen :: u8

record btdevice_volume =
  a2dp_vol :: u8
  hfp_vol :: u8

record btdevice_profile =
  hfp_act :: bool
  hsp_act :: bool
  a2dp_act :: bool
  a2dp_codectype :: u8

record nvrec_btdevicerecord =
  nb_record :: btif_device_record
  nb_volume :: btdevice_volume
  nb_profile :: btdevice_profile

datatype obj = RAW | LIST list_t | NODE list_node | ENTRY nvrec_entry | SECTION nvrec_section | CONFIG nvrec_config
  | BYTES "u8 list" | RECORD nvrec_btdevicerecord

type_synonym nvheap = "addr \<Rightarrow> obj option"

definition get_list :: "addr \<Rightarrow> nvheap \<Rightarrow> list_t option" where
  "get_list p h = (case h p of Some (LIST x) \<Rightarrow> Some x | _ \<Rightarrow> None)"
definition get_node :: "addr \<Rightarrow> nvheap \<Rightarrow> list_node option" where
  "get_node p h = (case h p of Some (NODE x) \<Rightarrow> Some x | _ \<Rightarrow> None)"
definition get_entry :: "addr \<Rightarrow> nvheap \<Rightarrow> nvrec_entry option" where
  "get_entry p h = (case h p of Some (ENTRY x) \<Rightarrow> Some x | _ \<Rightarrow> None)"
definition get_section :: "addr \<Rightarrow> nvheap \<Rightarrow> nvrec_section option" where
  "get_section p h = (case h p of Some (SECTION x) \<Rightarrow> Some x | _ \<Rightarrow> None)"
definition get_config :: "addr \<Rightarrow> nvheap \<Rightarrow> nvrec_config option" where
  "get_config p h = (case h p of Some (CONFIG x) \<Rightarrow> Some x | _ \<Rightarrow> None)"
definition get_bytes :: "addr \<Rightarrow> nvheap \<Rightarrow> u8 list option" where
  "get_bytes p h = (case h p of Some (BYTES x) \<Rightarrow> Some x | _ \<Rightarrow> None)"
definition get_record :: "addr \<Rightarrow> nvheap \<Rightarrow> nvrec_btdevicerecord option" where
  "get_record p h = (case h p of Some (RECORD x) \<Rightarrow> Some x | _ \<Rightarrow> None)"

named_theorems heap_simps "reads of the typed heap"

lemma get_Some [heap_simps]:
  "h p = Some (LIST l) \<Longrightarrow> get_list p h = Some l" "h p = Some (NODE n) \<Longrightarrow> get_node p h = Some n"
  "h p = Some (ENTRY e) \<Longrightarrow> get_entry p h = Some e" "h p = Some (SECTION s) \<Longrightarrow> get_section p h = Some s"
  "h p = Some (CONFIG c) \<Longrightarrow> get_config p h = Some c" "h p = Some (BYTES b) \<Longrightarrow> get_bytes p h = Some b"
  "h p = Some (RECORD r) \<Longrightarrow> get_record p h = Some r"
  by (simp_all add: get_list_def get_node_def get_entry_def get_section_def get_config_def get_bytes_def get_record_def)

section \<open>Allocation\<close>

type_synonym allocator = "nvheap \<Rightarrow> nat \<Rightarrow> addr"

definition pool_malloc :: "allocator \<Rightarrow> nat \<Rightarrow> nvheap \<Rightarrow> addr \<times> nvheap" where
  "pool_malloc al n h = (let p = al h n in if p = 0 then (0, h) else (p, h(p \<mapsto> RAW)))"

definition pool_free :: "addr \<Rightarrow> nvheap \<Rightarrow> nvheap option" where
  "pool_free p h = (if p = 0 then Some h else if h p = None then None else Some (h(p := None)))"

text \<open>What is used of the allocator: it returns a free block, and does so while fewer than \<open>K\<close> are taken.\<close>

definition alloc_ok :: "nat \<Rightarrow> allocator \<Rightarrow> bool" where
  "alloc_ok K al \<longleftrightarrow> (\<forall>h n. (al h n \<noteq> 0 \<longrightarrow> h (al h n) = None) \<and> (card (dom h) < K \<longrightarrow> al h n \<noteq> 0))"

lemma pool_malloc_ok:
  assumes "alloc_ok K al" "card (dom h) < K"
  obtains p where "pool_malloc al n h = (p, h(p \<mapsto> RAW))" "p \<noteq> 0" "h p = None"
  using assms by (auto simp: pool_malloc_def alloc_ok_def Let_def)

section \<open>Ownership\<close>

type_synonym cells = "(addr \<times> obj) list"

definition owns :: "nvheap \<Rightarrow> cells \<Rightarrow> nvheap \<Rightarrow> bool" where
  "owns h cs F \<longleftrightarrow> h = F ++ map_of cs \<and> distinct (map fst cs) \<and> 0 \<notin> fst ` set cs \<and> dom F \<inter> fst ` set cs = {}"

lemma owns_read: "owns h cs F \<Longrightarrow> (a, ob) \<in> set cs \<Longrightarrow> h a = Some ob"
  by (simp add: owns_def map_add_def)

lemma owns_nonzero: "owns h cs F \<Longrightarrow> (a, ob) \<in> set cs \<Longrightarrow> a \<noteq> 0"
  by (force simp: owns_def)

lemma owns_distinct: "owns h cs F \<Longrightarrow> distinct (map fst cs)"
  by (simp add: owns_def)

lemma owns_perm:
  assumes "owns h cs F" "set cs = set cs'" "length cs = length cs'"
  shows "owns h cs' F"
proof -
  have s: "set (map fst cs) = set (map fst cs')" using assms(2) by simp
  then have d: "distinct (map fst cs')" using assms
    by (metis card_distinct distinct_card length_map owns_distinct)
  then have "map_of cs = map_of cs'" using map_of_inject_set [OF owns_distinct [OF assms(1)] d] assms(2) by simp
  then show ?thesis using assms(1,2) d by (simp add: owns_def)
qed

lemma map_of_mid: "a \<notin> fst ` set xs \<Longrightarrow> map_of (xs @ (a, ob) # ys) = (map_of (xs @ ys))(a \<mapsto> ob)"
  by (simp add: map_add_upd_left dom_map_of_conv_image_fst)

lemma owns_mid: "owns h (xs @ (a, ob) # ys) F \<longleftrightarrow> a \<noteq> 0 \<and> a \<notin> fst ` set (xs @ ys) \<and> F a = None \<and>
    (\<exists>h0. owns h0 (xs @ ys) F \<and> h = h0(a \<mapsto> ob))"
proof
  assume "owns h (xs @ (a, ob) # ys) F"
  then have o: "h = F ++ map_of (xs @ (a, ob) # ys)" "a \<noteq> 0" "a \<notin> fst ` set (xs @ ys)" "a \<notin> dom F"
    "owns (F ++ map_of (xs @ ys)) (xs @ ys) F"
    by (auto simp: owns_def)
  then have "h = (F ++ map_of (xs @ ys))(a \<mapsto> ob)" by (subst o(1), subst map_of_mid) (auto simp del: map_of_append)
  with o show "a \<noteq> 0 \<and> a \<notin> fst ` set (xs @ ys) \<and> F a = None \<and> (\<exists>h0. owns h0 (xs @ ys) F \<and> h = h0(a \<mapsto> ob))"
    by blast
next
  assume "a \<noteq> 0 \<and> a \<notin> fst ` set (xs @ ys) \<and> F a = None \<and> (\<exists>h0. owns h0 (xs @ ys) F \<and> h = h0(a \<mapsto> ob))"
  then obtain h0 where o: "a \<noteq> 0" "a \<notin> fst ` set (xs @ ys)" "F a = None" "owns h0 (xs @ ys) F" "h = h0(a \<mapsto> ob)" by blast
  have "a \<notin> fst ` set xs" using o(2) by auto
  then have "h = F ++ map_of (xs @ (a, ob) # ys)" using o(4,5) by (simp add: map_of_mid owns_def del: map_of_append)
  then show "owns h (xs @ (a, ob) # ys) F" using o by (auto simp: owns_def)
qed

lemma owns_write: "owns h (xs @ (a, ob) # ys) F \<Longrightarrow> owns (h(a \<mapsto> ob')) (xs @ (a, ob') # ys) F"
  unfolding owns_mid by fastforce

lemma owns_free: "owns h (xs @ (a, ob) # ys) F \<Longrightarrow> owns (h(a := None)) (xs @ ys) F"
proof -
  assume "owns h (xs @ (a, ob) # ys) F"
  then obtain h0 where o: "a \<notin> fst ` set (xs @ ys)" "F a = None" "owns h0 (xs @ ys) F" "h = h0(a \<mapsto> ob)"
    unfolding owns_mid by blast
  then have "h0 a = None" by (auto simp: owns_def map_add_None map_of_eq_None_iff)
  then have "h(a := None) = h0" using o(4) by (simp add: fun_upd_idem)
  then show ?thesis using o(3) by simp
qed

lemma pool_free_owned: "owns h (xs @ (a, ob) # ys) F \<Longrightarrow> pool_free a h = Some (h(a := None)) \<and> owns (h(a := None)) (xs @ ys) F"
  using owns_free [of h xs a ob ys F] owns_read [of h "xs @ (a, ob) # ys" F a ob] owns_nonzero [of h "xs @ (a, ob) # ys" F a ob]
  by (simp add: pool_free_def)

lemma owns_alloc: "owns h cs F \<Longrightarrow> h p = None \<Longrightarrow> p \<noteq> 0 \<Longrightarrow> owns (h(p \<mapsto> ob)) ((p, ob) # cs) F"
  using owns_mid [of _ "[]" p ob cs F] by (auto simp: owns_def map_add_None map_of_eq_None_iff)

lemma owns_part: "owns h (xs @ ys) F \<Longrightarrow> owns h xs (F ++ map_of ys)"
  by (auto simp: owns_def dom_map_of_conv_image_fst)

lemma owns_join:
  assumes "owns h xs (F ++ map_of ys)" "distinct (map fst ys)" "0 \<notin> fst ` set ys" "dom F \<inter> fst ` set ys = {}"
  shows "owns h (xs @ ys) F"
  using assms by (auto simp: owns_def dom_map_of_conv_image_fst)

text \<open>An operation on part of the heap.\<close>

lemma owns_swap: "owns h (xs @ ys) F \<Longrightarrow> owns h' xs' (F ++ map_of ys) \<Longrightarrow> owns h' (xs' @ ys) F"
  by (rule owns_join) (auto simp: owns_def)

lemma owns_stack: "owns h xs F \<Longrightarrow> owns h' ys h \<Longrightarrow> owns h' (ys @ xs) F"
  by (rule owns_join) (auto simp: owns_def)

lemma owns_rotate: "owns h (xs @ ys) F \<longleftrightarrow> owns h (ys @ xs) F"
  by (auto intro: owns_perm)

lemma finite_heap: "finite (dom (h :: nvheap))"
  by (rule finite_subset [OF subset_UNIV]) simp

lemma owns_card:
  assumes "owns h cs F"
  shows "card (dom h) = card (dom F) + length cs"
proof -
  have "dom h = dom F \<union> fst ` set cs" using assms by (auto simp: owns_def dom_map_of_conv_image_fst)
  moreover have "card (fst ` set cs) = length cs" using assms by (metis distinct_card length_map list.set_map owns_distinct)
  moreover have "dom F \<inter> fst ` set cs = {}" using assms by (simp add: owns_def)
  ultimately show ?thesis using finite_heap [of F] by (simp add: card_Un_disjoint)
qed

lemma owns_Nil [simp]: "owns h [] F \<longleftrightarrow> h = F"
  by (simp add: owns_def)


section \<open>An allocator\<close>

text \<open>The first free of the addresses 1 to 63, for the concrete runs.\<close>

definition first_fit :: allocator where
  "first_fit h n = (case find (\<lambda>a. h a = None) (map of_nat [1..<64]) of None \<Rightarrow> 0 | Some a \<Rightarrow> a)"

lemma first_fit_ok: "alloc_ok 63 first_fit"
proof -
  have inj: "inj_on (of_nat :: nat \<Rightarrow> addr) {1..<64}"
    by (rule inj_onI) (simp add: word_of_nat_eq_iff take_bit_nat_eq_self)
  have nz: "a \<noteq> 0" if "a \<in> set (map of_nat [1..<64])" for a :: addr
    using that by (auto simp: word_of_nat_eq_0_iff dest!: dvd_imp_le)
  have "first_fit h n \<noteq> 0 \<longrightarrow> h (first_fit h n) = None" for h n
    by (auto simp: first_fit_def find_Some_iff split: option.splits)
  moreover have "first_fit h n \<noteq> 0" if "card (dom h) < 63" for h n
  proof
    assume z: "first_fit h n = 0"
    have "find (\<lambda>a. h a = None) (map of_nat [1..<64]) = None"
    proof (rule ccontr)
      assume "find (\<lambda>a. h a = None) (map of_nat [1..<64]) \<noteq> None"
      then obtain a where "find (\<lambda>a. h a = None) (map of_nat [1..<64]) = Some a" by blast
      moreover from this have "a \<in> set (map of_nat [1..<64])" unfolding find_Some_iff by (metis nth_mem)
      ultimately show False using z nz by (simp add: first_fit_def)
    qed
    then have "(of_nat :: nat \<Rightarrow> addr) ` {1..<64} \<subseteq> dom h" by (auto simp: find_None_iff)
    then have "card ((of_nat :: nat \<Rightarrow> addr) ` {1..<64}) \<le> card (dom h)" by (rule card_mono [OF finite_heap])
    then show False using that card_image [OF inj] by simp
  qed
  ultimately show ?thesis by (simp add: alloc_ok_def)
qed

end
