(* ===== verification/List_Ext.thy ===== *)
theory List_Ext
  imports Nv_Heap
begin

text \<open>
  The linked lists of the records, \<^verbatim>\<open>services/nvrecord/list_ext.c\<close>. A list object holds head, tail, length and
  the callback that releases an element; the nodes are blocks of the pool. A failed assertion is \<open>None\<close>.
  \<open>call cb d\<close> runs callback \<open>cb\<close> on element \<open>d\<close>. \<open>list_cells l cb xs\<close> are the objects of the list \<open>l\<close> with
  nodes and elements \<open>xs\<close>; the lemmas say how each operation changes them, whatever else the heap holds.
\<close>

section \<open>Operations\<close>

type_synonym caller = "free_cb \<Rightarrow> addr \<Rightarrow> nvheap \<Rightarrow> nvheap option"

definition zmalloc_ext :: "allocator \<Rightarrow> nat \<Rightarrow> nvheap \<Rightarrow> (addr \<times> nvheap) option" where
  "zmalloc_ext al n h = (let (p, h) = pool_malloc al n h in if p = 0 then None else Some (p, h))"

definition list_new_ext :: "allocator \<Rightarrow> free_cb option \<Rightarrow> nvheap \<Rightarrow> (addr \<times> nvheap) option" where
  "list_new_ext al cb h = do {
     (l, h) \<leftarrow> zmalloc_ext al 16 h;
     Some (l, h(l \<mapsto> LIST \<lparr>lt_head = 0, lt_tail = 0, lt_length = 0, lt_free_cb = cb\<rparr>)) }"

definition list_is_empty_ext :: "addr \<Rightarrow> nvheap \<Rightarrow> bool option" where
  "list_is_empty_ext l h = do { check (l \<noteq> 0); L \<leftarrow> get_list l h; Some (lt_length L = 0) }"

definition list_length_ext :: "addr \<Rightarrow> nvheap \<Rightarrow> u32 option" where
  "list_length_ext l h = do { check (l \<noteq> 0); L \<leftarrow> get_list l h; Some (lt_length L) }"

definition list_front_ext :: "addr \<Rightarrow> nvheap \<Rightarrow> addr option" where
  "list_front_ext l h = do {
     check (l \<noteq> 0); e \<leftarrow> list_is_empty_ext l h; check (\<not> e); L \<leftarrow> get_list l h; N \<leftarrow> get_node (lt_head L) h; Some (ln_data N) }"

definition list_back_ext :: "addr \<Rightarrow> nvheap \<Rightarrow> addr option" where
  "list_back_ext l h = do {
     check (l \<noteq> 0); e \<leftarrow> list_is_empty_ext l h; check (\<not> e); L \<leftarrow> get_list l h; N \<leftarrow> get_node (lt_tail L) h; Some (ln_data N) }"

definition list_insert_after_ext :: "allocator \<Rightarrow> addr \<Rightarrow> addr \<Rightarrow> addr \<Rightarrow> nvheap \<Rightarrow> (bool \<times> nvheap) option" where
  "list_insert_after_ext al l prev d h = do {
     check (l \<noteq> 0); check (prev \<noteq> 0); check (d \<noteq> 0);
     let (node, h) = pool_malloc al 8 h;
     if node = 0 then Some (False, h)
     else do {
       P \<leftarrow> get_node prev h;
       let h = h(node \<mapsto> NODE \<lparr>ln_next = ln_next P, ln_data = d\<rparr>);
       let h = h(prev \<mapsto> NODE (P\<lparr>ln_next := node\<rparr>));
       L \<leftarrow> get_list l h;
       let L = (if lt_tail L = prev then L\<lparr>lt_tail := node\<rparr> else L);
       Some (True, h(l \<mapsto> LIST (L\<lparr>lt_length := lt_length L + 1\<rparr>))) } }"

definition list_prepend_ext :: "allocator \<Rightarrow> addr \<Rightarrow> addr \<Rightarrow> nvheap \<Rightarrow> (bool \<times> nvheap) option" where
  "list_prepend_ext al l d h = do {
     check (l \<noteq> 0); check (d \<noteq> 0);
     (node, h) \<leftarrow> zmalloc_ext al 8 h;
     L \<leftarrow> get_list l h;
     let h = h(node \<mapsto> NODE \<lparr>ln_next = lt_head L, ln_data = d\<rparr>);
     let L = L\<lparr>lt_head := node\<rparr>;
     let L = (if lt_tail L = 0 then L\<lparr>lt_tail := lt_head L\<rparr> else L);
     Some (True, h(l \<mapsto> LIST (L\<lparr>lt_length := lt_length L + 1\<rparr>))) }"

definition list_append_ext :: "allocator \<Rightarrow> addr \<Rightarrow> addr \<Rightarrow> nvheap \<Rightarrow> (bool \<times> nvheap) option" where
  "list_append_ext al l d h = do {
     check (l \<noteq> 0); check (d \<noteq> 0);
     let (node, h) = pool_malloc al 8 h;
     if node = 0 then Some (False, h)
     else do {
       let h = h(node \<mapsto> NODE \<lparr>ln_next = 0, ln_data = d\<rparr>);
       L \<leftarrow> get_list l h;
       (L, h) \<leftarrow> (if lt_tail L = 0 then Some (L\<lparr>lt_head := node, lt_tail := node\<rparr>, h)
         else do {
           T \<leftarrow> get_node (lt_tail L) h;
           Some (L\<lparr>lt_tail := node\<rparr>, h(lt_tail L \<mapsto> NODE (T\<lparr>ln_next := node\<rparr>))) });
       Some (True, h(l \<mapsto> LIST (L\<lparr>lt_length := lt_length L + 1\<rparr>))) } }"

definition list_free_node_ext :: "caller \<Rightarrow> addr \<Rightarrow> addr \<Rightarrow> nvheap \<Rightarrow> (addr \<times> nvheap) option" where
  "list_free_node_ext call l node h = do {
     check (l \<noteq> 0); check (node \<noteq> 0);
     N \<leftarrow> get_node node h;
     L \<leftarrow> get_list l h;
     h \<leftarrow> (case lt_free_cb L of None \<Rightarrow> Some h | Some cb \<Rightarrow> call cb (ln_data N) h);
     h \<leftarrow> pool_free node h;
     L \<leftarrow> get_list l h;
     Some (ln_next N, h(l \<mapsto> LIST (L\<lparr>lt_length := lt_length L - 1\<rparr>))) }"

partial_function (option) list_remove_loop :: "caller \<Rightarrow> addr \<Rightarrow> addr \<Rightarrow> addr \<Rightarrow> addr \<Rightarrow> nvheap \<Rightarrow> (bool \<times> nvheap) option" where
  "list_remove_loop call l d prev node h =
     (if node = 0 then Some (False, h)
      else Option.bind (get_node node h) (\<lambda>N.
        if ln_data N = d then do {
          (nx, h) \<leftarrow> list_free_node_ext call l node h;
          P \<leftarrow> get_node prev h;
          let h = h(prev \<mapsto> NODE (P\<lparr>ln_next := nx\<rparr>));
          L \<leftarrow> get_list l h;
          Some (True, if lt_tail L = node then h(l \<mapsto> LIST (L\<lparr>lt_tail := prev\<rparr>)) else h) }
        else list_remove_loop call l d node (ln_next N) h))"

definition list_remove_ext :: "caller \<Rightarrow> addr \<Rightarrow> addr \<Rightarrow> nvheap \<Rightarrow> (bool \<times> nvheap) option" where
  "list_remove_ext call l d h = do {
     check (l \<noteq> 0); check (d \<noteq> 0);
     e \<leftarrow> list_is_empty_ext l h;
     if e then Some (False, h)
     else do {
       L \<leftarrow> get_list l h;
       H \<leftarrow> get_node (lt_head L) h;
       if ln_data H = d then do {
         (nx, h) \<leftarrow> list_free_node_ext call l (lt_head L) h;
         L \<leftarrow> get_list l h;
         let L = (if lt_tail L = lt_head L then L\<lparr>lt_tail := nx\<rparr> else L);
         Some (True, h(l \<mapsto> LIST (L\<lparr>lt_head := nx\<rparr>))) }
       else list_remove_loop call l d (lt_head L) (ln_next H) h } }"

partial_function (option) list_clear_loop :: "caller \<Rightarrow> addr \<Rightarrow> addr \<Rightarrow> nvheap \<Rightarrow> nvheap option" where
  "list_clear_loop call l node h =
     (if node = 0 then Some h
      else Option.bind (list_free_node_ext call l node h) (\<lambda>r. list_clear_loop call l (fst r) (snd r)))"

definition list_clear_ext :: "caller \<Rightarrow> addr \<Rightarrow> nvheap \<Rightarrow> nvheap option" where
  "list_clear_ext call l h = do {
     check (l \<noteq> 0);
     L \<leftarrow> get_list l h;
     h \<leftarrow> list_clear_loop call l (lt_head L) h;
     L \<leftarrow> get_list l h;
     Some (h(l \<mapsto> LIST (L\<lparr>lt_head := 0, lt_tail := 0, lt_length := 0\<rparr>))) }"

definition list_free_ext :: "caller \<Rightarrow> addr \<Rightarrow> nvheap \<Rightarrow> nvheap option" where
  "list_free_ext call l h = do {
     h \<leftarrow> (if l \<noteq> 0 then list_clear_ext call l h else Some h);
     pool_free l h }"

partial_function (option) list_foreach_loop :: "(addr \<Rightarrow> nvheap \<Rightarrow> nvheap option) \<Rightarrow> addr \<Rightarrow> nvheap \<Rightarrow> nvheap option" where
  "list_foreach_loop f node h =
     (if node = 0 then Some h
      else Option.bind (get_node node h) (\<lambda>N. Option.bind (f (ln_data N) h) (list_foreach_loop f (ln_next N))))"

definition list_foreach_ext :: "(addr \<Rightarrow> nvheap \<Rightarrow> nvheap option) \<Rightarrow> addr \<Rightarrow> nvheap \<Rightarrow> nvheap option" where
  "list_foreach_ext f l h = do { check (l \<noteq> 0); L \<leftarrow> get_list l h; list_foreach_loop f (lt_head L) h }"

definition list_begin_ext :: "addr \<Rightarrow> nvheap \<Rightarrow> addr option" where
  "list_begin_ext l h = do { check (l \<noteq> 0); L \<leftarrow> get_list l h; Some (lt_head L) }"

definition list_end_ext :: "addr \<Rightarrow> nvheap \<Rightarrow> addr option" where
  "list_end_ext l h = do { check (l \<noteq> 0); Some 0 }"

definition list_next_ext :: "addr \<Rightarrow> nvheap \<Rightarrow> addr option" where
  "list_next_ext node h = do { check (node \<noteq> 0); N \<leftarrow> get_node node h; Some (ln_next N) }"

definition list_node_ext :: "addr \<Rightarrow> nvheap \<Rightarrow> addr option" where
  "list_node_ext node h = do { check (node \<noteq> 0); N \<leftarrow> get_node node h; Some (ln_data N) }"

section \<open>The objects of a list\<close>

fun node_cells :: "addr \<Rightarrow> (addr \<times> addr) list \<Rightarrow> cells" where
  "node_cells q [] = []"
| "node_cells q ((a, d) # xs) = (a, NODE \<lparr>ln_next = (case xs of [] \<Rightarrow> q | x # _ \<Rightarrow> fst x), ln_data = d\<rparr>) # node_cells q xs"

definition first_node :: "addr \<Rightarrow> (addr \<times> addr) list \<Rightarrow> addr" where
  "first_node q xs = (case xs of [] \<Rightarrow> q | x # _ \<Rightarrow> fst x)"

definition last_node :: "(addr \<times> addr) list \<Rightarrow> addr" where
  "last_node xs = (if xs = [] then 0 else fst (last xs))"

definition list_cells :: "addr \<Rightarrow> free_cb option \<Rightarrow> (addr \<times> addr) list \<Rightarrow> cells" where
  "list_cells l cb xs = (l, LIST \<lparr>lt_head = first_node 0 xs, lt_tail = last_node xs, lt_length = of_nat (length xs), lt_free_cb = cb\<rparr>) #
     node_cells 0 xs"

lemma first_node_simps [simp]: "first_node q [] = q" "first_node q ((a, d) # xs) = a"
  by (simp_all add: first_node_def)

lemma node_cells_Cons [simp]: "node_cells q ((a, d) # xs) = (a, NODE \<lparr>ln_next = first_node q xs, ln_data = d\<rparr>) # node_cells q xs"
  by (simp add: first_node_def)

declare node_cells.simps(2) [simp del]

lemma first_node_append [simp]: "first_node q (xs @ ys) = first_node (first_node q ys) xs"
  by (cases xs) (auto simp: first_node_def)

lemma node_cells_append: "node_cells q (xs @ ys) = node_cells (first_node q ys) xs @ node_cells q ys"
  by (induction xs) auto

lemma map_fst_node_cells [simp]: "map fst (node_cells q xs) = map fst xs" "length (node_cells q xs) = length xs"
  by (induction xs) auto

lemma fst_node_cells [simp]: "fst ` set (node_cells q xs) = fst ` set xs"
  by (metis list.set_map map_fst_node_cells(1))

lemma last_node_snoc [simp]: "last_node (xs @ [(a, d)]) = a"
  by (simp add: last_node_def)

lemma list_length_bound:
  assumes "owns h (list_cells l cb xs @ cs) F"
  shows "length xs < 2 ^ 32"
proof -
  have "distinct (map fst xs)" "0 \<notin> fst ` set xs" using assms by (simp_all add: owns_def list_cells_def image_Un)
  then have "distinct (0 # map fst xs)" by (metis distinct.simps(2) list.set_map)
  then have "length (0 # map fst xs) \<le> card (UNIV :: addr set)" by (metis card_mono distinct_card finite subset_UNIV)
  then show ?thesis by (simp add: card_word)
qed

lemma owns_list:
  assumes "owns h (list_cells l cb xs @ cs) F"
  shows "l \<noteq> 0" "get_list l h = Some \<lparr>lt_head = first_node 0 xs, lt_tail = last_node xs, lt_length = of_nat (length xs), lt_free_cb = cb\<rparr>"
  using owns_read [OF assms, of l] owns_nonzero [OF assms, of l] by (auto simp: list_cells_def heap_simps)

lemma owns_node:
  assumes "owns h (list_cells l cb (xs @ (a, d) # ys) @ cs) F"
  shows "a \<noteq> 0" "get_node a h = Some \<lparr>ln_next = first_node 0 ys, ln_data = d\<rparr>"
  using owns_read [OF assms, of a] owns_nonzero [OF assms, of a] by (auto simp: list_cells_def node_cells_append heap_simps)

lemma first_node_zero: "owns h (list_cells l cb xs @ cs) F \<Longrightarrow> first_node 0 xs = 0 \<longleftrightarrow> xs = []"
  using owns_node(1) [of h l cb "[]" _ _ "tl xs" cs F] by (cases xs) auto

lemma last_node_zero: "owns h (list_cells l cb xs @ cs) F \<Longrightarrow> last_node xs = 0 \<longleftrightarrow> xs = []"
  using owns_node(1) [of h l cb "butlast xs" "fst (last xs)" "snd (last xs)" "[]" cs F] by (auto simp: last_node_def)

lemma length_zero: "owns h (list_cells l cb xs @ cs) F \<Longrightarrow> (of_nat (length xs) :: u32) = 0 \<longleftrightarrow> xs = []"
  using list_length_bound [of h l cb xs cs F] by (auto simp: word_of_nat_eq_0_iff dest: dvd_imp_le)


section \<open>What the operations do\<close>

lemma list_accessors:
  assumes "owns h (list_cells l cb xs @ cs) F"
  shows "list_is_empty_ext l h = Some (xs = [])" "list_length_ext l h = Some (of_nat (length xs))"
    "list_begin_ext l h = Some (first_node 0 xs)" "list_end_ext l h = Some 0"
    "list_front_ext l h = (case xs of [] \<Rightarrow> None | x # _ \<Rightarrow> Some (snd x))"
    "list_back_ext l h = (if xs = [] then None else Some (snd (last xs)))"
proof -
  note l = owns_list [OF assms] length_zero [OF assms]
  show "list_is_empty_ext l h = Some (xs = [])" "list_length_ext l h = Some (of_nat (length xs))"
    "list_begin_ext l h = Some (first_node 0 xs)" "list_end_ext l h = Some 0"
    using l by (simp_all add: list_is_empty_ext_def list_length_ext_def list_begin_ext_def list_end_ext_def)
  show "list_front_ext l h = (case xs of [] \<Rightarrow> None | x # _ \<Rightarrow> Some (snd x))"
    using l owns_node(2) [of h l cb "[]" _ _ "tl xs" cs F] assms
    by (cases xs) (auto simp: list_front_ext_def list_is_empty_ext_def check_def)
  show "list_back_ext l h = (if xs = [] then None else Some (snd (last xs)))"
    using l owns_node(2) [of h l cb "butlast xs" "fst (last xs)" "snd (last xs)" "[]" cs F] assms
    by (cases "xs = []") (auto simp: list_back_ext_def list_is_empty_ext_def check_def last_node_def)
qed

lemma list_iter:
  assumes "owns h (list_cells l cb (xs @ (a, d) # ys) @ cs) F"
  shows "list_next_ext a h = Some (first_node 0 ys)" "list_node_ext a h = Some d"
  using owns_node [OF assms] by (simp_all add: list_next_ext_def list_node_ext_def)

lemma list_new_ok:
  assumes "alloc_ok K al" "card (dom h) < K"
  shows "\<exists>l h'. list_new_ext al cb h = Some (l, h') \<and> owns h' (list_cells l cb []) h"
proof -
  obtain p where p: "pool_malloc al 16 h = (p, h(p \<mapsto> RAW))" "p \<noteq> 0" "h p = None" using pool_malloc_ok [OF assms] by metis
  then show ?thesis by (auto simp: list_new_ext_def zmalloc_ext_def list_cells_def last_node_def owns_def)
qed

lemma list_append_ok:
  assumes "owns h (list_cells l cb xs) F" "alloc_ok K al" "card (dom h) < K" "d \<noteq> 0"
  shows "\<exists>p h'. list_append_ext al l d h = Some (True, h') \<and> owns h' (list_cells l cb (xs @ [(p, d)])) F"
proof -
  obtain p where p: "pool_malloc al 8 h = (p, h(p \<mapsto> RAW))" "p \<noteq> 0" "h p = None"
    using pool_malloc_ok [OF assms(2,3)] by metis
  define h2 where "h2 = h(p \<mapsto> NODE \<lparr>ln_next = 0, ln_data = d\<rparr>)"
  have o2: "owns h2 ((p, NODE \<lparr>ln_next = 0, ln_data = d\<rparr>) # list_cells l cb xs) F"
    unfolding h2_def by (rule owns_alloc [OF assms(1) p(3,2)])
  then have o2': "owns h2 (list_cells l cb xs @ [(p, NODE \<lparr>ln_next = 0, ln_data = d\<rparr>)]) F" by (rule owns_perm) simp_all
  note l = owns_list [OF o2'] last_node_zero [OF o2']
  let ?L = "\<lparr>lt_head = first_node 0 (xs @ [(p, d)]), lt_tail = p, lt_length = of_nat (length xs) + 1, lt_free_cb = cb\<rparr>"
  show ?thesis
  proof (cases xs rule: rev_cases)
    case Nil
    have "owns (h2(l \<mapsto> LIST ?L)) ([(p, NODE \<lparr>ln_next = 0, ln_data = d\<rparr>)] @ (l, LIST ?L) # []) F"
      using owns_write [of h2 "[(p, NODE \<lparr>ln_next = 0, ln_data = d\<rparr>)]"] o2 by (auto simp: Nil list_cells_def)
    then have "owns (h2(l \<mapsto> LIST ?L)) (list_cells l cb (xs @ [(p, d)])) F"
      by (rule owns_perm) (auto simp: list_cells_def Nil last_node_def)
    moreover have "list_append_ext al l d h = Some (True, h2(l \<mapsto> LIST ?L))"
      using p l assms(4) Nil by (simp add: list_append_ext_def h2_def last_node_def)
    ultimately show ?thesis by blast
  next
    case (snoc zs x)
    obtain a e where x: "x = (a, e)" by (cases x)
    let ?T = "NODE \<lparr>ln_next = p, ln_data = e\<rparr>"
    have "owns h2 ([(p, NODE \<lparr>ln_next = 0, ln_data = d\<rparr>)] @ (l, LIST \<lparr>lt_head = first_node 0 xs, lt_tail = last_node xs, lt_length = of_nat (length xs), lt_free_cb = cb\<rparr>) # node_cells 0 xs) F"
      using o2 by (simp add: list_cells_def)
    then have "owns (h2(l \<mapsto> LIST ?L)) ([(p, NODE \<lparr>ln_next = 0, ln_data = d\<rparr>)] @ (l, LIST ?L) # node_cells 0 xs) F" by (rule owns_write)
    then have "owns (h2(l \<mapsto> LIST ?L)) (([(p, NODE \<lparr>ln_next = 0, ln_data = d\<rparr>), (l, LIST ?L)] @ node_cells a zs) @ (a, NODE \<lparr>ln_next = 0, ln_data = e\<rparr>) # []) F"
      by (simp add: snoc x node_cells_append)
    then have "owns (h2(l \<mapsto> LIST ?L, a \<mapsto> ?T)) (([(p, NODE \<lparr>ln_next = 0, ln_data = d\<rparr>), (l, LIST ?L)] @ node_cells a zs) @ (a, ?T) # []) F"
      by (rule owns_write)
    then have ok: "owns (h2(l \<mapsto> LIST ?L, a \<mapsto> ?T)) (list_cells l cb (xs @ [(p, d)])) F"
      by (rule owns_perm) (auto simp: list_cells_def snoc x node_cells_append add.commute last_node_def)
    have n: "get_node a h2 = Some \<lparr>ln_next = 0, ln_data = e\<rparr>" "a \<noteq> 0" "l \<noteq> a"
      using owns_node [of h2 l cb zs a e "[]" "[(p, NODE \<lparr>ln_next = 0, ln_data = d\<rparr>)]" F] o2' owns_distinct [OF o2']
      by (auto simp: snoc x list_cells_def)
    have "list_append_ext al l d h = Some (True, h2(a \<mapsto> ?T, l \<mapsto> LIST ?L))"
      using p l assms(4) n by (simp add: list_append_ext_def h2_def [symmetric] snoc x)
    then show ?thesis using ok n(3) by (auto simp: fun_upd_twist)
  qed
qed


lemma list_prepend_ok:
  assumes "owns h (list_cells l cb xs) F" "alloc_ok K al" "card (dom h) < K" "d \<noteq> 0"
  shows "\<exists>p h'. list_prepend_ext al l d h = Some (True, h') \<and> owns h' (list_cells l cb ((p, d) # xs)) F"
proof -
  obtain p where p: "pool_malloc al 8 h = (p, h(p \<mapsto> RAW))" "p \<noteq> 0" "h p = None"
    using pool_malloc_ok [OF assms(2,3)] by metis
  have o: "owns h (list_cells l cb xs @ []) F" using assms(1) by simp
  note l = owns_list [OF o] last_node_zero [OF o]
  have ne: "l \<noteq> p" using l(2) p(3) by (auto simp: get_list_def)
  define N where "N = NODE \<lparr>ln_next = first_node 0 xs, ln_data = d\<rparr>"
  let ?L = "\<lparr>lt_head = p, lt_tail = last_node ((p, d) # xs), lt_length = of_nat (length xs) + 1, lt_free_cb = cb\<rparr>"
  have "owns (h(p \<mapsto> N)) ((p, N) # list_cells l cb xs) F" by (rule owns_alloc [OF assms(1) p(3,2)])
  then have "owns (h(p \<mapsto> N, l \<mapsto> LIST ?L)) ([(p, N)] @ (l, LIST ?L) # node_cells 0 xs) F"
    using owns_write [of "h(p \<mapsto> N)" "[(p, N)]"] by (simp add: list_cells_def)
  then have "owns (h(p \<mapsto> N, l \<mapsto> LIST ?L)) (list_cells l cb ((p, d) # xs)) F"
    by (rule owns_perm) (auto simp: list_cells_def N_def add.commute)
  moreover have "list_prepend_ext al l d h = Some (True, h(p \<mapsto> N, l \<mapsto> LIST ?L))"
    using p l assms(4) ne
    by (cases "xs = []") (simp_all add: list_prepend_ext_def zmalloc_ext_def N_def get_list_def last_node_def first_node_def split: option.splits obj.splits)
  ultimately show ?thesis by blast
qed

lemma list_insert_after_ok:
  assumes "owns h (list_cells l cb (xs @ (a, e) # ys)) F" "alloc_ok K al" "card (dom h) < K" "d \<noteq> 0"
  shows "\<exists>p h'. list_insert_after_ext al l a d h = Some (True, h') \<and> owns h' (list_cells l cb (xs @ (a, e) # (p, d) # ys)) F"
proof -
  obtain p where p: "pool_malloc al 8 h = (p, h(p \<mapsto> RAW))" "p \<noteq> 0" "h p = None"
    using pool_malloc_ok [OF assms(2,3)] by metis
  have o: "owns h (list_cells l cb (xs @ (a, e) # ys) @ []) F" using assms(1) by simp
  note l = owns_list [OF o] owns_node [OF o]
  have ne: "l \<noteq> p" "a \<noteq> p" "l \<noteq> a"
    using l(2,4) p(3) owns_distinct [OF assms(1)] by (auto simp: get_list_def get_node_def list_cells_def node_cells_append)
  have tail: "last_node (xs @ (a, e) # ys) = a \<longleftrightarrow> ys = []"
    using owns_distinct [OF assms(1)] by (cases ys rule: rev_cases) (auto simp: last_node_def list_cells_def)
  define N where "N = NODE \<lparr>ln_next = first_node 0 ys, ln_data = d\<rparr>"
  define A where "A = NODE \<lparr>ln_next = p, ln_data = e\<rparr>"
  define L where "L = LIST \<lparr>lt_head = first_node a xs, lt_tail = last_node (xs @ (a, e) # (p, d) # ys), lt_length = of_nat (length xs + length ys) + 2, lt_free_cb = cb\<rparr>"
  have "owns (h(p \<mapsto> N)) ((p, N) # list_cells l cb (xs @ (a, e) # ys)) F" by (rule owns_alloc [OF assms(1) p(3,2)])
  then have "owns (h(p \<mapsto> N)) (((p, N) # (l, LIST \<lparr>lt_head = first_node a xs, lt_tail = last_node (xs @ (a, e) # ys), lt_length = of_nat (length xs + length ys) + 1, lt_free_cb = cb\<rparr>) # node_cells a xs) @ (a, NODE \<lparr>ln_next = first_node 0 ys, ln_data = e\<rparr>) # node_cells 0 ys) F"
    by (simp add: list_cells_def node_cells_append add.commute)
  then have "owns (h(p \<mapsto> N, a \<mapsto> A)) ([(p, N)] @ (l, LIST \<lparr>lt_head = first_node a xs, lt_tail = last_node (xs @ (a, e) # ys), lt_length = of_nat (length xs + length ys) + 1, lt_free_cb = cb\<rparr>) # node_cells a xs @ (a, A) # node_cells 0 ys) F"
    using owns_write [of "h(p \<mapsto> N)" _ a _ "node_cells 0 ys" F A] by fastforce
  then have "owns (h(p \<mapsto> N, a \<mapsto> A, l \<mapsto> L)) ([(p, N)] @ (l, L) # node_cells a xs @ (a, A) # node_cells 0 ys) F" by (rule owns_write)
  then have "owns (h(p \<mapsto> N, a \<mapsto> A, l \<mapsto> L)) (list_cells l cb (xs @ (a, e) # (p, d) # ys)) F"
    by (rule owns_perm) (auto simp: list_cells_def node_cells_append N_def A_def L_def add.commute)
  moreover have "list_insert_after_ext al l a d h = Some (True, h(p \<mapsto> N, a \<mapsto> A, l \<mapsto> L))"
  proof -
    have g: "get_node a (h(p \<mapsto> RAW)) = Some \<lparr>ln_next = first_node 0 ys, ln_data = e\<rparr>" using l(4) ne by (simp add: get_node_def)
    have gl: "get_list l (h(p \<mapsto> N, a \<mapsto> A)) = get_list l h" using ne by (simp add: get_list_def)
    have "last_node (xs @ (a, e) # (p, d) # ys) = (if ys = [] then p else last_node (xs @ (a, e) # ys))"
      by (simp add: last_node_def)
    then show ?thesis using p l(1,2,3) g gl assms(4) tail ne
      by (simp add: list_insert_after_ext_def N_def [symmetric] A_def [symmetric] L_def add.commute)
  qed
  ultimately show ?thesis by blast
qed

section \<open>Releasing elements\<close>

definition releases :: "caller \<Rightarrow> free_cb option \<Rightarrow> addr \<Rightarrow> cells \<Rightarrow> bool" where
  "releases call cb d pd \<longleftrightarrow> (case cb of None \<Rightarrow> pd = [] | Some c \<Rightarrow> \<forall>h F. owns h pd F \<longrightarrow> call c d h = Some F)"

lemma free_node_ok:
  assumes "owns h (((l, LIST L) # ns @ (a, NODE N) # ms) @ pd) F" "releases call (lt_free_cb L) (ln_data N) pd"
  shows "\<exists>h'. list_free_node_ext call l a h = Some (ln_next N, h') \<and> owns h' ((l, LIST (L\<lparr>lt_length := lt_length L - 1\<rparr>)) # ns @ ms) F"
proof -
  let ?cs = "(l, LIST L) # ns @ (a, NODE N) # ms"
  have r: "get_list l h = Some L" "get_node a h = Some N" "l \<noteq> 0" "a \<noteq> 0"
    using owns_read [OF assms(1), of l] owns_read [OF assms(1), of a] owns_nonzero [OF assms(1), of l] owns_nonzero [OF assms(1), of a]
    by (auto simp: heap_simps)
  define h1 where "h1 = F ++ map_of ?cs"
  have o1: "owns h1 ?cs F" unfolding h1_def using assms(1) by (auto simp: owns_def)
  have "owns h pd h1" unfolding h1_def by (rule owns_part) (use assms(1) owns_rotate in blast)
  then have c: "(case lt_free_cb L of None \<Rightarrow> Some h | Some cb \<Rightarrow> call cb (ln_data N) h) = Some h1"
    using assms(2) by (auto simp: releases_def split: option.splits)
  have o2: "owns (h1(a := None)) (((l, LIST L) # ns) @ ms) F" "pool_free a h1 = Some (h1(a := None))"
    using pool_free_owned [of h1 "(l, LIST L) # ns" a "NODE N" ms F] o1 by simp_all
  have gl: "get_list l (h1(a := None)) = Some L" using owns_read [OF o2(1), of l] by (auto simp: heap_simps)
  have "owns ((h1(a := None))(l \<mapsto> LIST (L\<lparr>lt_length := lt_length L - 1\<rparr>))) ([] @ (l, LIST (L\<lparr>lt_length := lt_length L - 1\<rparr>)) # ns @ ms) F"
    by (rule owns_write [where ob = "LIST L"]) (use o2(1) in simp)
  then show ?thesis using r c o2(2) gl by (simp add: list_free_node_ext_def)
qed


lemma clear_loop_ok:
  assumes "owns h (((l, LIST L) # node_cells 0 xs) @ concat (map (\<lambda>x. pay (snd x)) xs)) F"
    "\<forall>x \<in> set xs. releases call (lt_free_cb L) (snd x) (pay (snd x))"
  shows "\<exists>h' L'. list_clear_loop call l (first_node 0 xs) h = Some h' \<and> owns h' [(l, LIST L')] F \<and> lt_free_cb L' = lt_free_cb L"
  using assms
proof (induction xs arbitrary: h L)
  case Nil
  then show ?case by (auto simp: list_clear_loop.simps)
next
  case (Cons x xs)
  obtain a d where x: "x = (a, d)" by (cases x)
  let ?N = "\<lparr>ln_next = first_node 0 xs, ln_data = d\<rparr>"
  let ?rest = "concat (map (\<lambda>x. pay (snd x)) xs)"
  have o: "owns h (((l, LIST L) # [] @ (a, NODE ?N) # node_cells 0 xs @ ?rest) @ pay d) F"
    by (rule owns_perm [OF Cons.prems(1)]) (auto simp: x)
  have r: "releases call (lt_free_cb L) (ln_data ?N) (pay d)" using Cons.prems(2) x by simp
  obtain h1 where h1: "list_free_node_ext call l a h = Some (ln_next ?N, h1)"
    "owns h1 ((l, LIST (L\<lparr>lt_length := lt_length L - 1\<rparr>)) # [] @ node_cells 0 xs @ ?rest) F"
    using free_node_ok [OF o r] by blast
  have o1: "owns h1 (((l, LIST (L\<lparr>lt_length := lt_length L - 1\<rparr>)) # node_cells 0 xs) @ ?rest) F" using h1(2) by simp
  have "\<exists>h' L'. list_clear_loop call l (first_node 0 xs) h1 = Some h' \<and> owns h' [(l, LIST L')] F \<and>
      lt_free_cb L' = lt_free_cb (L\<lparr>lt_length := lt_length L - 1\<rparr>)"
    by (rule Cons.IH [OF o1]) (use Cons.prems(2) in simp)
  moreover have "a \<noteq> 0" using owns_nonzero [OF o, of a "NODE ?N"] by simp
  ultimately show ?case using h1(1) by (simp add: x list_clear_loop.simps [of call l a])
qed

lemma list_clear_ok:
  assumes "owns h (list_cells l cb xs @ concat (map (\<lambda>x. pay (snd x)) xs)) F"
    "\<forall>x \<in> set xs. releases call cb (snd x) (pay (snd x))"
  shows "\<exists>h'. list_clear_ext call l h = Some h' \<and> owns h' (list_cells l cb []) F"
proof -
  let ?L = "\<lparr>lt_head = first_node 0 xs, lt_tail = last_node xs, lt_length = of_nat (length xs), lt_free_cb = cb\<rparr>"
  note l = owns_list [OF assms(1)]
  obtain h1 L1 where h1: "list_clear_loop call l (first_node 0 xs) h = Some h1" "owns h1 [(l, LIST L1)] F" "lt_free_cb L1 = cb"
    using clear_loop_ok [of h l ?L xs pay F call] assms by (auto simp: list_cells_def)
  have g: "get_list l h1 = Some L1" using owns_read [OF h1(2), of l] by (simp add: heap_simps)
  have "owns (h1(l \<mapsto> LIST (L1\<lparr>lt_head := 0, lt_tail := 0, lt_length := 0\<rparr>))) ([] @ (l, LIST (L1\<lparr>lt_head := 0, lt_tail := 0, lt_length := 0\<rparr>)) # []) F"
    by (rule owns_write [where ob = "LIST L1"]) (use h1(2) in simp)
  moreover have "L1\<lparr>lt_head := 0, lt_tail := 0, lt_length := 0\<rparr> = \<lparr>lt_head = 0, lt_tail = 0, lt_length = 0, lt_free_cb = cb\<rparr>"
    using h1(3) by (cases L1) simp
  ultimately show ?thesis using l h1(1) g by (simp add: list_clear_ext_def list_cells_def last_node_def)
qed

lemma list_free_ok:
  assumes "owns h (list_cells l cb xs @ concat (map (\<lambda>x. pay (snd x)) xs)) F"
    "\<forall>x \<in> set xs. releases call cb (snd x) (pay (snd x))"
  shows "list_free_ext call l h = Some F"
proof -
  obtain h1 where h1: "list_clear_ext call l h = Some h1" "owns h1 (list_cells l cb []) F" using list_clear_ok [OF assms] by blast
  have "pool_free l h1 = Some (h1(l := None))" "owns (h1(l := None)) [] F"
    using pool_free_owned [of h1 "[]" l _ "[]" F] h1(2) by (auto simp: list_cells_def)
  then show ?thesis using owns_list(1) [OF assms(1)] h1(1) by (simp add: list_free_ext_def)
qed

lemma remove_loop_skip:
  assumes "owns h (list_cells l cb (xs @ ys @ zs) @ cs) F" "d \<notin> snd ` set ys" "xs \<noteq> []"
  shows "list_remove_loop call l d (fst (last xs)) (first_node (first_node 0 zs) ys) h =
    list_remove_loop call l d (fst (last (xs @ ys))) (first_node 0 zs) h"
  using assms
proof (induction ys arbitrary: xs)
  case (Cons y ys)
  obtain a e where y: "y = (a, e)" by (cases y)
  have o: "owns h (list_cells l cb ((xs @ [(a, e)]) @ ys @ zs) @ cs) F" using Cons.prems(1) by (simp add: y)
  have n: "a \<noteq> 0" "get_node a h = Some \<lparr>ln_next = first_node (first_node 0 zs) ys, ln_data = e\<rparr>"
    using owns_node [of h l cb xs a e "ys @ zs" cs F] Cons.prems(1) by (simp_all add: y)
  have "e \<noteq> d" "d \<notin> snd ` set ys" using Cons.prems(2) by (auto simp: y)
  then show ?case using Cons.IH [OF o] n by (simp add: y list_remove_loop.simps [of _ _ _ _ a])
qed simp

lemma list_remove_absent:
  assumes "owns h (list_cells l cb xs) F" "d \<notin> snd ` set xs" "d \<noteq> 0"
  shows "list_remove_ext call l d h = Some (False, h)"
proof (cases xs)
  case Nil
  then show ?thesis using list_accessors(1) [of h l cb xs "[]" F] owns_list(1) [of h l cb xs "[]" F] assms
    by (simp add: list_remove_ext_def)
next
  case (Cons x ys)
  obtain a e where x: "x = (a, e)" by (cases x)
  have o: "owns h (list_cells l cb ([(a, e)] @ ys @ []) @ []) F" using assms(1) by (simp add: Cons x)
  have "list_remove_loop call l d a (first_node 0 ys) h = Some (False, h)"
    using remove_loop_skip [OF o] assms(2) by (simp add: Cons list_remove_loop.simps [of _ _ _ _ 0])
  moreover have "e \<noteq> d" using assms(2) by (auto simp: Cons x)
  ultimately show ?thesis using list_accessors(1) [of h l cb xs "[]" F] owns_list [of h l cb xs "[]" F] owns_node [of h l cb "[]" a e ys "[]" F] assms
    by (simp add: list_remove_ext_def Cons x)
qed

lemma list_remove_ok:
  assumes "owns h (list_cells l cb (ys @ (a, d) # zs) @ pd) F" "d \<notin> snd ` set ys" "d \<noteq> 0" "releases call cb d pd"
  shows "\<exists>h'. list_remove_ext call l d h = Some (True, h') \<and> owns h' (list_cells l cb (ys @ zs)) F"
proof -
  let ?N = "\<lparr>ln_next = first_node 0 zs, ln_data = d\<rparr>"
  let ?L = "\<lparr>lt_head = first_node a ys, lt_tail = last_node (ys @ (a, d) # zs), lt_length = of_nat (length (ys @ (a, d) # zs)), lt_free_cb = cb\<rparr>"
  let ?L1 = "?L\<lparr>lt_length := lt_length ?L - 1\<rparr>"
  note l = owns_list [OF assms(1)] and n = owns_node [OF assms(1)] and e = list_accessors(1) [OF assms(1)]
  have o: "owns h (((l, LIST ?L) # node_cells a ys @ (a, NODE ?N) # node_cells 0 zs) @ pd) F"
    using assms(1) by (simp add: list_cells_def node_cells_append)
  obtain h1 where h1: "list_free_node_ext call l a h = Some (first_node 0 zs, h1)" "owns h1 ((l, LIST ?L1) # node_cells a ys @ node_cells 0 zs) F"
    using free_node_ok [OF o] assms(4) by auto
  have g: "get_list l h1 = Some ?L1" using owns_read [OF h1(2), of l] by (simp add: heap_simps)
  have len: "lt_length ?L1 = of_nat (length (ys @ zs))" by simp
  show ?thesis
  proof (cases ys rule: rev_cases)
    case Nil
    have t: "lt_tail ?L1 = lt_head ?L1 \<longleftrightarrow> zs = []"
      using owns_distinct [OF o] by (cases zs rule: rev_cases) (auto simp: Nil last_node_def)
    let ?L2 = "\<lparr>lt_head = first_node 0 zs, lt_tail = last_node zs, lt_length = of_nat (length zs), lt_free_cb = cb\<rparr>"
    have "owns (h1(l \<mapsto> LIST ?L2)) ([] @ (l, LIST ?L2) # node_cells 0 zs) F"
      by (rule owns_write [where ob = "LIST ?L1"]) (use h1(2) in \<open>simp add: Nil\<close>)
    moreover have "list_remove_ext call l d h = Some (True, h1(l \<mapsto> LIST ?L2))"
      using e l n h1(1) g t assms(3) by (cases "zs = []") (simp_all add: list_remove_ext_def Nil last_node_def)
    ultimately show ?thesis by (simp add: Nil list_cells_def)
  next
    case (snoc xs y)
    obtain b f where y: "y = (b, f)" by (cases y)
    obtain c g' ws where hd: "ys = (c, g') # ws" using snoc by (metis append_is_Nil_conv list.exhaust not_Cons_self2 surj_pair)
    have nb: "get_node b h1 = Some \<lparr>ln_next = a, ln_data = f\<rparr>"
      using owns_read [OF h1(2), of b] by (auto simp: snoc y node_cells_append heap_simps)
    have ne: "b \<noteq> l" using owns_distinct [OF h1(2)] by (auto simp: snoc y node_cells_append)
    let ?B = "NODE \<lparr>ln_next = first_node 0 zs, ln_data = f\<rparr>"
    let ?L2 = "\<lparr>lt_head = first_node (first_node 0 zs) ys, lt_tail = last_node (ys @ zs), lt_length = of_nat (length (ys @ zs)), lt_free_cb = cb\<rparr>"
    have t: "last_node (ys @ (a, d) # zs) = a \<longleftrightarrow> zs = []"
      using owns_distinct [OF o] by (cases zs rule: rev_cases) (auto simp: last_node_def)
    have o2: "owns (h1(b \<mapsto> ?B)) ([] @ (l, LIST ?L1) # node_cells b xs @ (b, ?B) # node_cells 0 zs) F"
      using owns_write [of h1 "(l, LIST ?L1) # node_cells b xs" b "NODE \<lparr>ln_next = a, ln_data = f\<rparr>" "node_cells 0 zs" F ?B] h1(2)
      by (simp add: snoc y node_cells_append)
    have fin: "owns (h1(b \<mapsto> ?B, l \<mapsto> LIST ?L2)) (list_cells l cb (ys @ zs)) F"
      using owns_write [OF o2, of "LIST ?L2"] by (simp add: list_cells_def snoc y node_cells_append)
    have stay: "h1(b \<mapsto> ?B, l \<mapsto> LIST ?L2) = h1(b \<mapsto> ?B)" if "zs \<noteq> []"
    proof -
      have "?L2 = ?L1" using that by (simp add: hd last_node_def)
      moreover have "(h1(b \<mapsto> ?B)) l = Some (LIST ?L1)" using owns_read [OF o2, of l] by simp
      ultimately show ?thesis by (simp only: fun_upd_idem)
    qed
    have ld: "list_remove_loop call l d b a h = Some (True, h1(b \<mapsto> ?B, l \<mapsto> LIST ?L2))"
    proof -
      have gl: "get_list l (h1(b \<mapsto> ?B)) = Some ?L1" using owns_read [OF o2, of l] by (simp add: heap_simps)
      show ?thesis using n h1(1) nb gl t stay
        by (cases "zs = []") (simp_all add: list_remove_loop.simps [of _ _ _ _ a] snoc y last_node_def)
    qed
    have skip: "list_remove_loop call l d c (first_node a ws) h = list_remove_loop call l d b a h"
      using remove_loop_skip [of h l cb "[(c, g')]" ws "(a, d) # zs" pd F d call] assms(1,2) arg_cong [OF snoc, of last]
      by (simp add: hd y split: if_splits)
    have "get_node c h = Some \<lparr>ln_next = first_node a ws, ln_data = g'\<rparr>"
      using owns_node(2) [of h l cb "[]" c g' "ws @ (a, d) # zs" pd F] assms(1) by (simp add: hd)
    moreover have "g' \<noteq> d" using assms(2) by (auto simp: hd)
    ultimately have "list_remove_ext call l d h = list_remove_loop call l d c (first_node a ws) h"
      using e l assms(2,3) by (simp add: list_remove_ext_def hd)
    then show ?thesis using skip ld fin by simp
  qed
qed


lemma foreach_loop_ok:
  assumes "Q h" "\<And>h. Q h \<Longrightarrow> \<exists>F. owns h (list_cells l cb (ys @ xs)) F"
    "\<And>d h. Q h \<Longrightarrow> d \<in> snd ` set xs \<Longrightarrow> \<exists>h'. f d h = Some h' \<and> Q h'"
  shows "list_foreach_loop f (first_node 0 xs) h = fold (\<lambda>x r. Option.bind r (f (snd x))) xs (Some h)"
  using assms
proof (induction xs arbitrary: ys h)
  case (Cons x xs)
  obtain a d where x: "x = (a, d)" by (cases x)
  obtain F where o: "owns h (list_cells l cb (ys @ (a, d) # xs) @ []) F" using Cons.prems(1,2) x by auto
  obtain h' where h': "f d h = Some h'" "Q h'" using Cons.prems(1,3) x by fastforce
  have "list_foreach_loop f (first_node 0 xs) h' = fold (\<lambda>x r. Option.bind r (f (snd x))) xs (Some h')"
    by (rule Cons.IH [of h' "ys @ [x]"]) (use h'(2) Cons.prems(2,3) in auto)
  then show ?case using owns_node [OF o] h'(1) by (simp add: x list_foreach_loop.simps [of _ a])
qed (simp add: list_foreach_loop.simps)

section \<open>Properties\<close>

text \<open>C34: A list is a sequence: each operation, on a list that shares the pool with anything else, returns and does to
  its sequence what its name says; with room in the pool nothing else of the heap changes but the new node.\<close>

theorem list_ext_refines_sequence:
  assumes "owns h (list_cells l cb xs) F" "alloc_ok K al" "card (dom h) < K" "d \<noteq> 0"
  shows "list_length_ext l h = Some (of_nat (length xs)) \<and> list_is_empty_ext l h = Some (xs = []) \<and>
    list_front_ext l h = (case xs of [] \<Rightarrow> None | x # _ \<Rightarrow> Some (snd x)) \<and>
    list_back_ext l h = (if xs = [] then None else Some (snd (last xs))) \<and>
    (\<exists>p h'. list_append_ext al l d h = Some (True, h') \<and> owns h' (list_cells l cb (xs @ [(p, d)])) F) \<and>
    (\<exists>p h'. list_prepend_ext al l d h = Some (True, h') \<and> owns h' (list_cells l cb ((p, d) # xs)) F) \<and>
    (\<forall>ys a e zs. xs = ys @ (a, e) # zs \<longrightarrow>
       (\<exists>p h'. list_insert_after_ext al l a d h = Some (True, h') \<and> owns h' (list_cells l cb (ys @ (a, e) # (p, d) # zs)) F))"
proof (intro conjI allI impI)
  fix ys a e zs assume "xs = ys @ (a, e) # zs"
  then show "\<exists>p h'. list_insert_after_ext al l a d h = Some (True, h') \<and> owns h' (list_cells l cb (ys @ (a, e) # (p, d) # zs)) F"
    using list_insert_after_ok assms by blast
qed (use list_accessors [of h l cb xs "[]" F] assms(1) list_append_ok [OF assms] list_prepend_ok [OF assms] in simp_all)

text \<open>Removing an element unlinks its first occurrence and releases exactly its node and what its callback owns;
  an element that is not there leaves the heap alone; clearing and freeing release every element, and freeing leaves
  nothing of the list behind. The same node is never freed twice and no freed block is used.\<close>

theorem list_ext_releases:
  assumes "owns h (list_cells l cb (ys @ (a, d) # zs) @ concat (map (\<lambda>x. pay (snd x)) (ys @ (a, d) # zs))) F"
    "\<forall>x \<in> set (ys @ (a, d) # zs). releases call cb (snd x) (pay (snd x))" "d \<notin> snd ` set ys" "d \<noteq> 0"
  shows "list_free_ext call l h = Some F \<and>
    (\<exists>h'. list_clear_ext call l h = Some h' \<and> owns h' (list_cells l cb []) F) \<and>
    (\<exists>h'. list_remove_ext call l d h = Some (True, h') \<and>
       owns h' (list_cells l cb (ys @ zs) @ concat (map (\<lambda>x. pay (snd x)) (ys @ zs))) F)"
proof -
  let ?rest = "concat (map (\<lambda>x. pay (snd x)) (ys @ zs))"
  have "owns h ((list_cells l cb (ys @ (a, d) # zs) @ pay d) @ ?rest) F"
    by (rule owns_perm [OF assms(1)]) auto
  moreover have "releases call cb d (pay d)" using assms(2) by simp
  ultimately obtain h' where "list_remove_ext call l d h = Some (True, h')" "owns h' (list_cells l cb (ys @ zs)) (F ++ map_of ?rest)"
    using list_remove_ok [OF owns_part] assms(3,4) by blast
  moreover have "owns h' (list_cells l cb (ys @ zs) @ ?rest) F"
    using owns_swap \<open>owns h ((list_cells l cb (ys @ (a, d) # zs) @ pay d) @ ?rest) F\<close> calculation(2) by blast
  ultimately show ?thesis using list_free_ok [OF assms(1,2)] list_clear_ok [OF assms(1,2)] by blast
qed


section \<open>A run\<close>

definition run_list :: cells where
  "run_list = list_cells 1 (Some NVREC_ENTRY_FREE) [(2, 10), (3, 11)]"

definition run_free :: caller where
  "run_free cb d h = pool_free d h"

definition run_pay :: "addr \<Rightarrow> cells" where
  "run_pay d = [(d, RAW)]"

lemma run_list_owned: "owns (map_of run_list) run_list Map.empty"
  "owns (map_of (run_list @ run_pay 10 @ run_pay 11)) (run_list @ run_pay 10 @ run_pay 11) Map.empty"
  by (simp_all add: owns_def run_list_def list_cells_def run_pay_def)

lemma run_releases: "d \<noteq> 0 \<Longrightarrow> releases run_free (Some c) d (run_pay d)"
  using pool_free_owned [of _ "[]" d RAW "[]"] by (auto simp: releases_def run_free_def run_pay_def)

theorem list_ext_refines_sequence_witness:
  "\<exists>p h'. list_append_ext first_fit 1 12 (map_of run_list) = Some (True, h') \<and>
     owns h' (list_cells 1 (Some NVREC_ENTRY_FREE) [(2, 10), (3, 11), (p, 12)]) Map.empty"
  using list_ext_refines_sequence [OF run_list_owned(1) [unfolded run_list_def] first_fit_ok, of 12]
    owns_card [OF run_list_owned(1)] by (simp add: run_list_def list_cells_def)

theorem list_ext_releases_witness:
  "list_free_ext run_free 1 (map_of (run_list @ run_pay 10 @ run_pay 11)) = Some Map.empty"
  using list_ext_releases [of "map_of (run_list @ run_pay 10 @ run_pay 11)" 1 "Some NVREC_ENTRY_FREE" "[(2, 10)]" 3 11 "[]" run_pay Map.empty run_free]
    run_list_owned(2) run_releases by (simp add: run_list_def)

end
