(* ===== verification/Nvrec_Config.thy ===== *)
theory Nvrec_Config
  imports List_Ext
begin

text \<open>
  The configuration store of the records, \<^verbatim>\<open>services/nvrecord/nvrec_config.c\<close>: a list of named sections, each a list
  of key and value strings. Strings that callers pass are byte arrays with what follows the terminator; stored
  strings are blocks of the pool. The keys of section \<^verbatim>\<open>ddbrec\<close> are device addresses of 6 bytes, compared
  with \<open>memcmp\<close>; all others are C strings. \<open>sprintf("%d")\<close> and \<open>strtol\<close> with base 0 are written out.
\<close>

section \<open>C strings\<close>

definition c_str :: "u8 list \<Rightarrow> u8 list option" where
  "c_str b = (if 0 \<in> set b then Some (takeWhile (\<lambda>x. x \<noteq> 0) b) else None)"

definition c_string :: "string \<Rightarrow> u8 list" where
  "c_string s = map of_char s @ [0]"

definition strcmp_eq :: "u8 list \<Rightarrow> u8 list \<Rightarrow> bool option" where
  "strcmp_eq a b = do { x \<leftarrow> c_str a; y \<leftarrow> c_str b; Some (x = y) }"

definition BTIF_BD_ADDR_SIZE :: nat where "BTIF_BD_ADDR_SIZE = 6"

definition memcmp_eq :: "u8 list \<Rightarrow> u8 list \<Rightarrow> nat \<Rightarrow> bool option" where
  "memcmp_eq a b n = do { check (n \<le> length a); check (n \<le> length b); Some (take n a = take n b) }"

definition section_name_ddbrec :: "u8 list" where "section_name_ddbrec = c_string ''ddbrec''"

definition key_eq :: "u8 list \<Rightarrow> u8 list \<Rightarrow> u8 list \<Rightarrow> bool option" where
  "key_eq sec a b = do {
     dd \<leftarrow> strcmp_eq sec section_name_ddbrec;
     if dd then memcmp_eq a b BTIF_BD_ADDR_SIZE else strcmp_eq a b }"

text \<open>\<open>sprintf(value_str, "%d", value)\<close>.\<close>

fun dec_digits :: "nat \<Rightarrow> u8 list" where
  "dec_digits n = (if n < 10 then [of_nat (48 + n)] else dec_digits (n div 10) @ [of_nat (48 + n mod 10)])"

declare dec_digits.simps [simp del]

definition sprintf_d :: "int \<Rightarrow> u8 list" where
  "sprintf_d v = (if v < 0 then 45 # dec_digits (nat (- v)) else dec_digits (nat v))"

text \<open>\<open>strtol(s, &endptr, 0)\<close> on a string without its terminator: the value and what is left at \<open>endptr\<close>.\<close>

definition is_space :: "u8 \<Rightarrow> bool" where
  "is_space c \<longleftrightarrow> c = 32 \<or> 9 \<le> unat c \<and> unat c \<le> 13"

definition digit_val :: "u8 \<Rightarrow> nat" where
  "digit_val c = (let n = unat c in
     if 48 \<le> n \<and> n \<le> 57 then n - 48 else if 97 \<le> n \<and> n \<le> 122 then n - 87 else if 65 \<le> n \<and> n \<le> 90 then n - 55 else 36)"

fun digits_val :: "nat \<Rightarrow> nat \<Rightarrow> u8 list \<Rightarrow> nat \<times> u8 list" where
  "digits_val base acc [] = (acc, [])"
| "digits_val base acc (c # cs) =
     (if digit_val c < base then digits_val base (acc * base + digit_val c) cs else (acc, c # cs))"

definition strtol_base :: "u8 list \<Rightarrow> nat \<times> u8 list" where
  "strtol_base s = (case s of
     a # b # c # r \<Rightarrow> if a = 48 \<and> (b = 120 \<or> b = 88) \<and> digit_val c < 16 then (16, c # r) else if a = 48 then (8, s) else (10, s)
   | a # r \<Rightarrow> if a = 48 then (8, s) else (10, s)
   | [] \<Rightarrow> (10, s))"

definition strtol :: "u8 list \<Rightarrow> int \<times> u8 list" where
  "strtol s =
     (let t = dropWhile is_space s;
          (neg, t) = (case t of c # r \<Rightarrow> if c = 45 then (True, r) else if c = 43 then (False, r) else (False, t) | [] \<Rightarrow> (False, t));
          (base, t) = strtol_base t;
          (n, r) = digits_val base 0 t in
      if r = t then (0, s)
      else if neg then (max (- (2 ^ 31)) (- int n), r) else (min (2 ^ 31 - 1) (int n), r))"

section \<open>Memory\<close>

definition cfg_malloc :: "allocator \<Rightarrow> nat \<Rightarrow> nvheap \<Rightarrow> addr \<times> nvheap" where
  "cfg_malloc al n h = (if n = 0 then (0, h) else pool_malloc al n h)"

definition cfg_zmalloc :: "allocator \<Rightarrow> nat \<Rightarrow> nvheap \<Rightarrow> (addr \<times> nvheap) option" where
  "cfg_zmalloc al n h = (let (p, h) = cfg_malloc al n h in if p = 0 then None else Some (p, h))"

definition cfg_free :: "addr \<Rightarrow> nvheap \<Rightarrow> nvheap option" where
  "cfg_free p h = pool_free p h"

definition strdup_ext :: "allocator \<Rightarrow> u8 list option \<Rightarrow> nvheap \<Rightarrow> (addr \<times> nvheap) option" where
  "strdup_ext al v h = (case v of None \<Rightarrow> Some (0, h)
     | Some b \<Rightarrow> do {
         s \<leftarrow> c_str b;
         (p, h) \<leftarrow> zmalloc_ext al (length s + 1) h;
         Some (p, h(p \<mapsto> BYTES (s @ [0]))) })"

definition bdaddrdup :: "allocator \<Rightarrow> u8 list \<Rightarrow> nat \<Rightarrow> nvheap \<Rightarrow> (addr \<times> nvheap) option" where
  "bdaddrdup al string len h = do {
     (p, h) \<leftarrow> cfg_zmalloc al (len + 1) h;
     check (len \<le> length string);
     Some (p, h(p \<mapsto> BYTES (take len string @ [0]))) }"

section \<open>Entries and sections\<close>

definition nvrec_entry_new :: "allocator \<Rightarrow> u8 list \<Rightarrow> u8 list option \<Rightarrow> u8 list \<Rightarrow> nvheap \<Rightarrow> (addr \<times> nvheap) option" where
  "nvrec_entry_new al key value descrip h = do {
     (e, h) \<leftarrow> cfg_zmalloc al 8 h;
     dd \<leftarrow> strcmp_eq descrip section_name_ddbrec;
     (k, h) \<leftarrow> (if dd then bdaddrdup al key BTIF_BD_ADDR_SIZE h else strdup_ext al (Some key) h);
     (v, h) \<leftarrow> strdup_ext al value h;
     Some (e, h(e \<mapsto> ENTRY \<lparr>ne_key = k, ne_value = v\<rparr>)) }"

definition nvrec_entry_free :: "addr \<Rightarrow> nvheap \<Rightarrow> nvheap option" where
  "nvrec_entry_free p h =
     (if p = 0 then Some h
      else do {
        e \<leftarrow> get_entry p h;
        h \<leftarrow> cfg_free (ne_key e) h;
        h \<leftarrow> cfg_free (ne_value e) h;
        cfg_free p h })"

definition entry_caller :: caller where
  "entry_caller cb d h = (case cb of NVREC_ENTRY_FREE \<Rightarrow> nvrec_entry_free d h | NVREC_SECTION_FREE \<Rightarrow> None)"

definition nvrec_section_new :: "allocator \<Rightarrow> u8 list \<Rightarrow> nvheap \<Rightarrow> (addr \<times> nvheap) option" where
  "nvrec_section_new al name h = do {
     (s, h) \<leftarrow> cfg_zmalloc al 8 h;
     (n, h) \<leftarrow> strdup_ext al (Some name) h;
     (l, h) \<leftarrow> list_new_ext al (Some NVREC_ENTRY_FREE) h;
     Some (s, h(s \<mapsto> SECTION \<lparr>ns_name = n, ns_entries = l\<rparr>)) }"

definition nvrec_section_free :: "addr \<Rightarrow> nvheap \<Rightarrow> nvheap option" where
  "nvrec_section_free p h =
     (if p = 0 then Some h
      else do {
        s \<leftarrow> get_section p h;
        h \<leftarrow> cfg_free (ns_name s) h;
        h \<leftarrow> list_free_ext entry_caller (ns_entries s) h;
        cfg_free p h })"

definition section_caller :: caller where
  "section_caller cb d h = (case cb of NVREC_ENTRY_FREE \<Rightarrow> nvrec_entry_free d h | NVREC_SECTION_FREE \<Rightarrow> nvrec_section_free d h)"

partial_function (option) section_find_loop :: "u8 list \<Rightarrow> addr \<Rightarrow> nvheap \<Rightarrow> addr option" where
  "section_find_loop name node h =
     (if node = 0 then Some 0
      else do {
        s \<leftarrow> list_node_ext node h;
        S \<leftarrow> get_section s h;
        n \<leftarrow> get_bytes (ns_name S) h;
        eq \<leftarrow> strcmp_eq n name;
        if eq then Some s
        else do { node \<leftarrow> list_next_ext node h; section_find_loop name node h } })"

definition nvrec_section_find :: "addr \<Rightarrow> u8 list \<Rightarrow> nvheap \<Rightarrow> addr option" where
  "nvrec_section_find config name h = do {
     c \<leftarrow> get_config config h;
     node \<leftarrow> list_begin_ext (nc_sections c) h;
     section_find_loop name node h }"

partial_function (option) entry_find_loop :: "u8 list \<Rightarrow> u8 list \<Rightarrow> addr \<Rightarrow> nvheap \<Rightarrow> addr option" where
  "entry_find_loop sec key node h =
     (if node = 0 then Some 0
      else do {
        e \<leftarrow> list_node_ext node h;
        E \<leftarrow> get_entry e h;
        k \<leftarrow> get_bytes (ne_key E) h;
        eq \<leftarrow> key_eq sec k key;
        if eq then Some e
        else do { node \<leftarrow> list_next_ext node h; entry_find_loop sec key node h } })"

definition nvrec_entry_find :: "addr \<Rightarrow> u8 list \<Rightarrow> u8 list \<Rightarrow> nvheap \<Rightarrow> addr option" where
  "nvrec_entry_find config sec key h = do {
     s \<leftarrow> nvrec_section_find config sec h;
     if s = 0 then Some 0
     else do {
       S \<leftarrow> get_section s h;
       node \<leftarrow> list_begin_ext (ns_entries S) h;
       entry_find_loop sec key node h } }"

section \<open>The interface\<close>

definition nvrec_config_new :: "allocator \<Rightarrow> nvheap \<Rightarrow> (addr \<times> nvheap) option" where
  "nvrec_config_new al h = do {
     (c, h) \<leftarrow> cfg_zmalloc al 4 h;
     (l, h) \<leftarrow> list_new_ext al (Some NVREC_SECTION_FREE) h;
     Some (c, h(c \<mapsto> CONFIG \<lparr>nc_sections = l\<rparr>)) }"

definition nvrec_config_free :: "addr \<Rightarrow> nvheap \<Rightarrow> nvheap option" where
  "nvrec_config_free config h =
     (if config = 0 then Some h
      else do {
        c \<leftarrow> get_config config h;
        h \<leftarrow> list_free_ext section_caller (nc_sections c) h;
        cfg_free config h })"

definition nvrec_config_has_section :: "addr \<Rightarrow> u8 list \<Rightarrow> nvheap \<Rightarrow> bool option" where
  "nvrec_config_has_section config sec h = do { check (config \<noteq> 0); s \<leftarrow> nvrec_section_find config sec h; Some (s \<noteq> 0) }"

definition nvrec_config_has_key :: "addr \<Rightarrow> u8 list \<Rightarrow> u8 list \<Rightarrow> nvheap \<Rightarrow> bool option" where
  "nvrec_config_has_key config sec key h = do { check (config \<noteq> 0); e \<leftarrow> nvrec_entry_find config sec key h; Some (e \<noteq> 0) }"

definition nvrec_config_get_int :: "addr \<Rightarrow> u8 list \<Rightarrow> u8 list \<Rightarrow> int \<Rightarrow> nvheap \<Rightarrow> int option" where
  "nvrec_config_get_int config sec key def_value h = do {
     check (config \<noteq> 0);
     e \<leftarrow> nvrec_entry_find config sec key h;
     if e = 0 then Some def_value
     else do {
       E \<leftarrow> get_entry e h;
       b \<leftarrow> get_bytes (ne_value E) h;
       s \<leftarrow> c_str b;
       let (ret, endptr) = strtol s;
       Some (if endptr = [] then ret else def_value) } }"

definition nvrec_config_get_bool :: "addr \<Rightarrow> u8 list \<Rightarrow> u8 list \<Rightarrow> bool \<Rightarrow> nvheap \<Rightarrow> bool option" where
  "nvrec_config_get_bool config sec key def_value h = do {
     check (config \<noteq> 0);
     e \<leftarrow> nvrec_entry_find config sec key h;
     if e = 0 then Some def_value
     else do {
       E \<leftarrow> get_entry e h;
       b \<leftarrow> get_bytes (ne_value E) h;
       t \<leftarrow> strcmp_eq b (c_string ''true'');
       f \<leftarrow> strcmp_eq b (c_string ''false'');
       Some (if t then True else if f then False else def_value) } }"

definition nvrec_config_get_string :: "addr \<Rightarrow> u8 list \<Rightarrow> u8 list \<Rightarrow> addr \<Rightarrow> nvheap \<Rightarrow> addr option" where
  "nvrec_config_get_string config sec key def_value h = do {
     check (config \<noteq> 0);
     e \<leftarrow> nvrec_entry_find config sec key h;
     if e = 0 then Some def_value
     else do { E \<leftarrow> get_entry e h; Some (ne_value E) } }"

text \<open>The second half of \<open>nvrec_config_set_string\<close>, from the search of section \<open>s\<close> on.\<close>

definition set_in_section :: "allocator \<Rightarrow> u8 list \<Rightarrow> u8 list \<Rightarrow> u8 list option \<Rightarrow> addr \<Rightarrow> nvheap \<Rightarrow> nvheap option" where
  "set_in_section al sec key value s h = do {
     S \<leftarrow> get_section s h;
     node \<leftarrow> list_begin_ext (ns_entries S) h;
     e \<leftarrow> entry_find_loop sec key node h;
     if e \<noteq> 0 then do {
       E \<leftarrow> get_entry e h;
       h \<leftarrow> cfg_free (ne_value E) h;
       (v, h) \<leftarrow> strdup_ext al value h;
       E \<leftarrow> get_entry e h;
       Some (h(e \<mapsto> ENTRY (E\<lparr>ne_value := v\<rparr>))) }
     else do {
       (e, h) \<leftarrow> nvrec_entry_new al key value sec h;
       S \<leftarrow> get_section s h;
       (_, h) \<leftarrow> list_append_ext al (ns_entries S) e h;
       Some h } }"

definition nvrec_config_set_string ::
  "allocator \<Rightarrow> addr \<Rightarrow> u8 list \<Rightarrow> u8 list \<Rightarrow> u8 list option \<Rightarrow> nvheap \<Rightarrow> nvheap option" where
  "nvrec_config_set_string al config sec key value h = do {
     s \<leftarrow> nvrec_section_find config sec h;
     (s, h) \<leftarrow> (if s = 0 then do {
         (s, h) \<leftarrow> nvrec_section_new al sec h;
         c \<leftarrow> get_config config h;
         (_, h) \<leftarrow> list_append_ext al (nc_sections c) s h;
         Some (s, h) }
       else Some (s, h));
     set_in_section al sec key value s h }"

definition nvrec_config_set_int :: "allocator \<Rightarrow> addr \<Rightarrow> u8 list \<Rightarrow> u8 list \<Rightarrow> int \<Rightarrow> nvheap \<Rightarrow> nvheap option" where
  "nvrec_config_set_int al config sec key value h = do {
     check (config \<noteq> 0);
     let value_str = sprintf_d value @ replicate (32 - length (sprintf_d value)) 0;
     nvrec_config_set_string al config sec key (Some value_str) h }"

definition nvrec_config_set_bool :: "allocator \<Rightarrow> addr \<Rightarrow> u8 list \<Rightarrow> u8 list \<Rightarrow> bool \<Rightarrow> nvheap \<Rightarrow> nvheap option" where
  "nvrec_config_set_bool al config sec key value h = do {
     check (config \<noteq> 0);
     nvrec_config_set_string al config sec key (Some (if value then c_string ''true'' else c_string ''false'')) h }"

end
