(* ===== verification/Nvrec_Store.thy ===== *)
theory Nvrec_Store
  imports Nvrec_Config "HOL-Library.AList"
begin

text \<open>
  The configuration store as a finite map of maps. A tree (\<open>cft\<close>, \<open>sct\<close>, \<open>ent\<close>) records a configuration with
  the addresses of its blocks; \<open>cf_cells\<close> are the blocks it consists of, and \<open>cf_abs\<close> the association list of
  sections, keys and values it stands for. Reading operations look up in it and writing ones update it.
\<close>

section \<open>Strings\<close>

definition view :: "u8 list \<Rightarrow> u8 list" where
  "view b = takeWhile (\<lambda>x. x \<noteq> 0) b"

lemma c_str_view: "0 \<in> set b \<Longrightarrow> c_str b = Some (view b)"
  by (simp add: c_str_def view_def)

lemma view_no_zero: "0 \<notin> set (view b)"
  using set_takeWhileD by (fastforce simp: view_def)

lemma view_snoc: "0 \<notin> set s \<Longrightarrow> view (s @ 0 # r) = s"
  by (simp add: view_def takeWhile_append)

lemma view_view [simp]: "view (view b @ [0]) = view b"
  by (rule view_snoc [OF view_no_zero])

definition is_ddb :: "u8 list \<Rightarrow> bool" where
  "is_ddb sec \<longleftrightarrow> view sec = view section_name_ddbrec"

definition keyv :: "u8 list \<Rightarrow> u8 list \<Rightarrow> u8 list" where
  "keyv sec key = (if is_ddb sec then take 6 key else view key)"

definition key_ok :: "u8 list \<Rightarrow> u8 list \<Rightarrow> bool" where
  "key_ok sec key \<longleftrightarrow> (if is_ddb sec then 6 \<le> length key else 0 \<in> set key)"

lemma strcmp_eq_view: "0 \<in> set a \<Longrightarrow> 0 \<in> set b \<Longrightarrow> strcmp_eq a b = Some (view a = view b)"
  by (simp add: strcmp_eq_def c_str_view)

lemma ddb_terminated: "0 \<in> set section_name_ddbrec"
  by (simp add: section_name_ddbrec_def c_string_def)

lemma key_eq_keyv: "0 \<in> set sec \<Longrightarrow> key_ok sec a \<Longrightarrow> key_ok sec b \<Longrightarrow> key_eq sec a b = Some (keyv sec a = keyv sec b)"
  by (auto simp: key_eq_def strcmp_eq_view ddb_terminated keyv_def key_ok_def memcmp_eq_def BTIF_BD_ADDR_SIZE_def is_ddb_def)

lemma keyv_cong: "view s = view t \<Longrightarrow> keyv s = keyv t" "view s = view t \<Longrightarrow> key_ok s = key_ok t"
  by (auto simp: keyv_def key_ok_def is_ddb_def fun_eq_iff)

section \<open>Trees\<close>

record ent =
  en_node :: addr
  en_addr :: addr
  en_kp :: addr
  en_key :: "u8 list"
  en_vp :: addr
  en_val :: "u8 list"

record sct =
  sc_node :: addr
  sc_addr :: addr
  sc_np :: addr
  sc_name :: "u8 list"
  sc_list :: addr
  sc_ents :: "ent list"

record cft =
  cf_addr :: addr
  cf_list :: addr
  cf_secs :: "sct list"

definition ent_items :: "ent list \<Rightarrow> (addr \<times> addr) list" where
  "ent_items es = map (\<lambda>e. (en_node e, en_addr e)) es"

definition sct_items :: "sct list \<Rightarrow> (addr \<times> addr) list" where
  "sct_items ss = map (\<lambda>s. (sc_node s, sc_addr s)) ss"

definition ent_cells :: "ent \<Rightarrow> cells" where
  "ent_cells e = [(en_addr e, ENTRY \<lparr>ne_key = en_kp e, ne_value = en_vp e\<rparr>), (en_kp e, BYTES (en_key e)), (en_vp e, BYTES (en_val e))]"

definition sct_cells :: "sct \<Rightarrow> cells" where
  "sct_cells s = [(sc_addr s, SECTION \<lparr>ns_name = sc_np s, ns_entries = sc_list s\<rparr>), (sc_np s, BYTES (sc_name s))] @
     list_cells (sc_list s) (Some NVREC_ENTRY_FREE) (ent_items (sc_ents s)) @ concat (map ent_cells (sc_ents s))"

definition cf_cells :: "cft \<Rightarrow> cells" where
  "cf_cells T = [(cf_addr T, CONFIG \<lparr>nc_sections = cf_list T\<rparr>)] @
     list_cells (cf_list T) (Some NVREC_SECTION_FREE) (sct_items (cf_secs T)) @ concat (map sct_cells (cf_secs T))"

definition wf_ent :: "u8 list \<Rightarrow> ent \<Rightarrow> bool" where
  "wf_ent name e \<longleftrightarrow> key_ok name (en_key e) \<and> 0 \<in> set (en_val e)"

definition ent_key :: "u8 list \<Rightarrow> ent \<Rightarrow> u8 list" where
  "ent_key name e = keyv name (en_key e)"

definition wf_sct :: "sct \<Rightarrow> bool" where
  "wf_sct s \<longleftrightarrow> 0 \<in> set (sc_name s) \<and> (\<forall>e \<in> set (sc_ents s). wf_ent (sc_name s) e) \<and>
     distinct (map (ent_key (sc_name s)) (sc_ents s))"

definition sct_name :: "sct \<Rightarrow> u8 list" where
  "sct_name s = view (sc_name s)"

definition wf_cft :: "cft \<Rightarrow> bool" where
  "wf_cft T \<longleftrightarrow> (\<forall>s \<in> set (cf_secs T). wf_sct s) \<and> distinct (map sct_name (cf_secs T))"

type_synonym store = "(u8 list \<times> (u8 list \<times> u8 list) list) list"

definition sct_abs :: "sct \<Rightarrow> (u8 list \<times> u8 list) list" where
  "sct_abs s = map (\<lambda>e. (ent_key (sc_name s) e, view (en_val e))) (sc_ents s)"

definition cf_abs :: "cft \<Rightarrow> store" where
  "cf_abs T = map (\<lambda>s. (sct_name s, sct_abs s)) (cf_secs T)"

section \<open>Reading\<close>

lemma map_of_find: "map_of (map (\<lambda>x. (f x, g x)) xs) k = map_option g (find (\<lambda>x. f x = k) xs)"
  by (induction xs) auto

text \<open>What the searches read: the list of sections with their names, and the entries of one section.\<close>

definition holds :: "nvheap \<Rightarrow> cells \<Rightarrow> bool" where
  "holds h cs \<longleftrightarrow> (\<forall>(a, ob) \<in> set cs. h a = Some ob \<and> a \<noteq> 0)"

lemma owns_holds: "owns h cs F \<Longrightarrow> set cs' \<subseteq> set cs \<Longrightarrow> holds h cs'"
  using owns_read owns_nonzero by (fastforce simp: holds_def)

lemma holds_mem: "holds h cs \<Longrightarrow> (a, ob) \<in> set cs \<Longrightarrow> h a = Some ob \<and> a \<noteq> 0"
  by (auto simp: holds_def)

lemma holds_mono: "holds h cs \<Longrightarrow> set cs' \<subseteq> set cs \<Longrightarrow> holds h cs'"
  by (auto simp: holds_def)

lemma node_holds:
  assumes "holds h (node_cells q (xs @ (a, d) # ys))"
  shows "a \<noteq> 0" "list_next_ext a h = Some (first_node q ys)" "list_node_ext a h = Some d"
  using holds_mem [OF assms, of a "NODE \<lparr>ln_next = first_node q ys, ln_data = d\<rparr>"]
  by (auto simp: node_cells_append list_next_ext_def list_node_ext_def heap_simps)

definition sec_skel :: "cft \<Rightarrow> cells" where
  "sec_skel T = (cf_addr T, CONFIG \<lparr>nc_sections = cf_list T\<rparr>) #
     list_cells (cf_list T) (Some NVREC_SECTION_FREE) (sct_items (cf_secs T)) @
     concat (map (\<lambda>s. [(sc_addr s, SECTION \<lparr>ns_name = sc_np s, ns_entries = sc_list s\<rparr>), (sc_np s, BYTES (sc_name s))]) (cf_secs T))"

definition ent_skel :: "ent list \<Rightarrow> cells" where
  "ent_skel es = node_cells 0 (ent_items es) @ concat (map ent_cells es)"

lemma skel_subset: "set (sec_skel T) \<subseteq> set (cf_cells T)" "set (ent_skel (sc_ents s)) \<subseteq> set (sct_cells s)"
  by (auto simp: sec_skel_def cf_cells_def sct_cells_def ent_skel_def list_cells_def)

lemma sec_reads:
  assumes "holds h (sec_skel T)" "cf_secs T = pre @ s # post"
  shows "sc_node s \<noteq> 0" "sc_addr s \<noteq> 0" "list_node_ext (sc_node s) h = Some (sc_addr s)"
    "list_next_ext (sc_node s) h = Some (first_node 0 (sct_items post))"
    "get_section (sc_addr s) h = Some \<lparr>ns_name = sc_np s, ns_entries = sc_list s\<rparr>" "get_bytes (sc_np s) h = Some (sc_name s)"
proof -
  have n: "holds h (node_cells 0 (sct_items pre @ (sc_node s, sc_addr s) # sct_items post))"
    by (rule holds_mono [OF assms(1)]) (auto simp: sec_skel_def list_cells_def assms(2) sct_items_def)
  show "sc_node s \<noteq> 0" "list_node_ext (sc_node s) h = Some (sc_addr s)" "list_next_ext (sc_node s) h = Some (first_node 0 (sct_items post))"
    using node_holds [OF n] by simp_all
  show "sc_addr s \<noteq> 0" "get_section (sc_addr s) h = Some \<lparr>ns_name = sc_np s, ns_entries = sc_list s\<rparr>" "get_bytes (sc_np s) h = Some (sc_name s)"
    using holds_mem [OF assms(1), of "sc_addr s" "SECTION \<lparr>ns_name = sc_np s, ns_entries = sc_list s\<rparr>"]
      holds_mem [OF assms(1), of "sc_np s" "BYTES (sc_name s)"] by (simp_all add: sec_skel_def assms(2) heap_simps)
qed

lemma ent_reads:
  assumes "holds h (ent_skel es)" "es = pre @ e # post"
  shows "en_node e \<noteq> 0" "en_addr e \<noteq> 0" "list_node_ext (en_node e) h = Some (en_addr e)"
    "list_next_ext (en_node e) h = Some (first_node 0 (ent_items post))"
    "get_entry (en_addr e) h = Some \<lparr>ne_key = en_kp e, ne_value = en_vp e\<rparr>" "get_bytes (en_kp e) h = Some (en_key e)"
    "get_bytes (en_vp e) h = Some (en_val e)"
proof -
  have n: "holds h (node_cells 0 (ent_items pre @ (en_node e, en_addr e) # ent_items post))"
    by (rule holds_mono [OF assms(1)]) (auto simp: ent_skel_def assms(2) ent_items_def)
  show "en_node e \<noteq> 0" "list_node_ext (en_node e) h = Some (en_addr e)" "list_next_ext (en_node e) h = Some (first_node 0 (ent_items post))"
    using node_holds [OF n] by simp_all
  have "holds h (ent_cells e)" by (rule holds_mono [OF assms(1)]) (auto simp: ent_skel_def assms(2))
  then show "get_entry (en_addr e) h = Some \<lparr>ne_key = en_kp e, ne_value = en_vp e\<rparr>" "get_bytes (en_kp e) h = Some (en_key e)"
    "get_bytes (en_vp e) h = Some (en_val e)" "en_addr e \<noteq> 0" by (simp_all add: holds_def ent_cells_def heap_simps)
qed

lemma sct_reads:
  assumes "owns h (cf_cells T) F" "cf_secs T = pre @ s # post"
  shows "sc_node s \<noteq> 0" "sc_addr s \<noteq> 0" "list_node_ext (sc_node s) h = Some (sc_addr s)"
    "list_next_ext (sc_node s) h = Some (first_node 0 (sct_items post))"
    "get_section (sc_addr s) h = Some \<lparr>ns_name = sc_np s, ns_entries = sc_list s\<rparr>" "get_bytes (sc_np s) h = Some (sc_name s)"
    "owns h (sct_cells s) (F ++ map_of (list_cells (cf_list T) (Some NVREC_SECTION_FREE) (sct_items (cf_secs T)) @
      [(cf_addr T, CONFIG \<lparr>nc_sections = cf_list T\<rparr>)] @ concat (map sct_cells (pre @ post))))"
    "holds h (ent_skel (sc_ents s))"
proof -
  note r = sec_reads [OF owns_holds [OF assms(1) skel_subset(1)] assms(2)]
  show "sc_node s \<noteq> 0" "sc_addr s \<noteq> 0" "list_node_ext (sc_node s) h = Some (sc_addr s)"
    "list_next_ext (sc_node s) h = Some (first_node 0 (sct_items post))"
    "get_section (sc_addr s) h = Some \<lparr>ns_name = sc_np s, ns_entries = sc_list s\<rparr>" "get_bytes (sc_np s) h = Some (sc_name s)"
    by (rule r)+
  have "owns h (sct_cells s @ list_cells (cf_list T) (Some NVREC_SECTION_FREE) (sct_items (cf_secs T)) @
      [(cf_addr T, CONFIG \<lparr>nc_sections = cf_list T\<rparr>)] @ concat (map sct_cells (pre @ post))) F"
    by (rule owns_perm [OF assms(1)]) (auto simp: assms(2) sct_items_def cf_cells_def)
  then show o: "owns h (sct_cells s) (F ++ map_of (list_cells (cf_list T) (Some NVREC_SECTION_FREE) (sct_items (cf_secs T)) @
      [(cf_addr T, CONFIG \<lparr>nc_sections = cf_list T\<rparr>)] @ concat (map sct_cells (pre @ post))))"
    by (rule owns_part)
  show "holds h (ent_skel (sc_ents s))" by (rule owns_holds [OF o skel_subset(2)])
qed

lemma section_loop_ok:
  assumes "holds h (sec_skel T)" "cf_secs T = pre @ ss" "\<forall>s \<in> set ss. 0 \<in> set (sc_name s)" "0 \<in> set name"
  shows "section_find_loop name (first_node 0 (sct_items ss)) h =
    Some (case find (\<lambda>s. sct_name s = view name) ss of None \<Rightarrow> 0 | Some s \<Rightarrow> sc_addr s)"
  using assms(2,3)
proof (induction ss arbitrary: pre)
  case Nil
  then show ?case by (simp add: section_find_loop.simps sct_items_def)
next
  case (Cons s ss)
  note r = sec_reads [OF assms(1) Cons.prems(1)]
  have "section_find_loop name (first_node 0 (sct_items ss)) h =
      Some (case find (\<lambda>s. sct_name s = view name) ss of None \<Rightarrow> 0 | Some s \<Rightarrow> sc_addr s)"
    by (rule Cons.IH [of "pre @ [s]"]) (use Cons.prems in simp_all)
  moreover have "strcmp_eq (sc_name s) name = Some (sct_name s = view name)"
    using Cons.prems(2) assms(4) by (simp add: strcmp_eq_view sct_name_def)
  ultimately show ?case using r by (simp add: section_find_loop.simps [of name "sc_node s"] sct_items_def)
qed

lemma section_find_holds:
  assumes "holds h (sec_skel T)" "wf_cft T" "0 \<in> set name"
  shows "nvrec_section_find (cf_addr T) name h = Some (case find (\<lambda>s. sct_name s = view name) (cf_secs T) of None \<Rightarrow> 0 | Some s \<Rightarrow> sc_addr s)"
    "get_config (cf_addr T) h = Some \<lparr>nc_sections = cf_list T\<rparr>" "cf_addr T \<noteq> 0"
proof -
  show c: "get_config (cf_addr T) h = Some \<lparr>nc_sections = cf_list T\<rparr>" "cf_addr T \<noteq> 0"
    using holds_mem [OF assms(1), of "cf_addr T" "CONFIG \<lparr>nc_sections = cf_list T\<rparr>"] by (simp_all add: sec_skel_def heap_simps)
  have "list_begin_ext (cf_list T) h = Some (first_node 0 (sct_items (cf_secs T)))"
    using holds_mem [OF assms(1), of "cf_list T" "LIST \<lparr>lt_head = first_node 0 (sct_items (cf_secs T)),
        lt_tail = last_node (sct_items (cf_secs T)), lt_length = of_nat (length (sct_items (cf_secs T))), lt_free_cb = Some NVREC_SECTION_FREE\<rparr>"]
    by (simp add: sec_skel_def list_cells_def list_begin_ext_def heap_simps)
  then show "nvrec_section_find (cf_addr T) name h = Some (case find (\<lambda>s. sct_name s = view name) (cf_secs T) of None \<Rightarrow> 0 | Some s \<Rightarrow> sc_addr s)"
    using section_loop_ok [OF assms(1), of "[]" "cf_secs T" name] c assms(2,3) by (simp add: nvrec_section_find_def wf_cft_def wf_sct_def)
qed

lemmas section_find_ok = section_find_holds [OF owns_holds [OF _ skel_subset(1)]]

lemma entry_loop_ok:
  assumes "holds h (ent_skel ents)" "ents = pre @ es" "\<forall>e \<in> set es. wf_ent name e" "view sec = view name"
    "0 \<in> set sec" "key_ok sec key"
  shows "entry_find_loop sec key (first_node 0 (ent_items es)) h =
    Some (case find (\<lambda>e. ent_key name e = keyv sec key) es of None \<Rightarrow> 0 | Some e \<Rightarrow> en_addr e)"
  using assms(2,3)
proof (induction es arbitrary: pre)
  case Nil
  then show ?case by (simp add: entry_find_loop.simps ent_items_def)
next
  case (Cons e es)
  note r = ent_reads [OF assms(1) Cons.prems(1)]
  have "entry_find_loop sec key (first_node 0 (ent_items es)) h =
      Some (case find (\<lambda>e. ent_key name e = keyv sec key) es of None \<Rightarrow> 0 | Some e \<Rightarrow> en_addr e)"
    by (rule Cons.IH [of "pre @ [e]"]) (use Cons.prems in simp_all)
  moreover have "key_eq sec (en_key e) key = Some (ent_key name e = keyv sec key)"
    using Cons.prems(2) keyv_cong [OF assms(4)] assms(5,6) by (simp add: key_eq_keyv wf_ent_def ent_key_def)
  ultimately show ?case using r by (simp add: entry_find_loop.simps [of sec key "en_node e"] ent_items_def)
qed

lemma sct_begin:
  assumes "owns h (sct_cells s) F"
  shows "list_begin_ext (sc_list s) h = Some (first_node 0 (ent_items (sc_ents s)))"
proof -
  have "owns h (list_cells (sc_list s) (Some NVREC_ENTRY_FREE) (ent_items (sc_ents s)) @
      [(sc_addr s, SECTION \<lparr>ns_name = sc_np s, ns_entries = sc_list s\<rparr>), (sc_np s, BYTES (sc_name s))] @
      concat (map ent_cells (sc_ents s))) F"
    by (rule owns_perm [OF assms]) (auto simp: sct_cells_def)
  then show ?thesis by (rule list_accessors(3))
qed

definition lookup_ent :: "cft \<Rightarrow> u8 list \<Rightarrow> u8 list \<Rightarrow> ent option" where
  "lookup_ent T sec key = Option.bind (find (\<lambda>s. sct_name s = view sec) (cf_secs T))
     (\<lambda>s. find (\<lambda>e. ent_key (sc_name s) e = keyv sec key) (sc_ents s))"

definition store_get :: "store \<Rightarrow> u8 list \<Rightarrow> u8 list \<Rightarrow> u8 list option" where
  "store_get st sec key = Option.bind (map_of st sec) (\<lambda>es. map_of es key)"

lemma store_get_lookup: "store_get (cf_abs T) (view sec) (keyv sec key) = map_option (\<lambda>e. view (en_val e)) (lookup_ent T sec key)"
  by (simp add: store_get_def cf_abs_def map_of_find lookup_ent_def sct_abs_def bind_map_option map_option_bind o_def)

lemma entry_find_ok:
  assumes "owns h (cf_cells T) F" "wf_cft T" "0 \<in> set sec" "key_ok sec key"
  shows "nvrec_entry_find (cf_addr T) sec key h = Some (case lookup_ent T sec key of None \<Rightarrow> 0 | Some e \<Rightarrow> en_addr e)"
    "lookup_ent T sec key = Some e \<Longrightarrow> en_addr e \<noteq> 0 \<and> get_entry (en_addr e) h = Some \<lparr>ne_key = en_kp e, ne_value = en_vp e\<rparr> \<and>
      get_bytes (en_vp e) h = Some (en_val e) \<and> 0 \<in> set (en_val e)"
proof -
  have "nvrec_entry_find (cf_addr T) sec key h = Some (case lookup_ent T sec key of None \<Rightarrow> 0 | Some e \<Rightarrow> en_addr e) \<and>
    (\<forall>e. lookup_ent T sec key = Some e \<longrightarrow> en_addr e \<noteq> 0 \<and> get_entry (en_addr e) h = Some \<lparr>ne_key = en_kp e, ne_value = en_vp e\<rparr> \<and>
      get_bytes (en_vp e) h = Some (en_val e) \<and> 0 \<in> set (en_val e))"
  proof (cases "find (\<lambda>s. sct_name s = view sec) (cf_secs T)")
    case None
    then show ?thesis using section_find_ok [OF assms(1-3)] by (simp add: nvrec_entry_find_def lookup_ent_def)
  next
    case (Some s)
    then have s: "s \<in> set (cf_secs T)" "view sec = view (sc_name s)" by (auto simp: find_Some_iff sct_name_def)
    then obtain pre post where p: "cf_secs T = pre @ s # post" by (meson split_list)
    note r = sct_reads [OF assms(1) p]
    have wf: "wf_sct s" using assms(2) s(1) by (simp add: wf_cft_def)
    have "entry_find_loop sec key (first_node 0 (ent_items (sc_ents s))) h =
        Some (case find (\<lambda>e. ent_key (sc_name s) e = keyv sec key) (sc_ents s) of None \<Rightarrow> 0 | Some e \<Rightarrow> en_addr e)"
      by (rule entry_loop_ok [OF r(8), of "[]"]) (use wf s assms in \<open>simp_all add: wf_sct_def\<close>)
    then have "nvrec_entry_find (cf_addr T) sec key h = Some (case lookup_ent T sec key of None \<Rightarrow> 0 | Some e \<Rightarrow> en_addr e)"
      using section_find_ok [OF assms(1-3)] Some r(2,5) sct_begin [OF r(7)] by (simp add: nvrec_entry_find_def lookup_ent_def)
    moreover have "en_addr e \<noteq> 0 \<and> get_entry (en_addr e) h = Some \<lparr>ne_key = en_kp e, ne_value = en_vp e\<rparr> \<and>
        get_bytes (en_vp e) h = Some (en_val e) \<and> 0 \<in> set (en_val e)" if "lookup_ent T sec key = Some e" for e
    proof -
      have "e \<in> set (sc_ents s)" using that Some by (auto simp: lookup_ent_def find_Some_iff)
      then obtain epre epost where "sc_ents s = epre @ e # epost" by (meson split_list)
      from ent_reads [OF r(8) this] show ?thesis using wf \<open>e \<in> set (sc_ents s)\<close> by (simp add: wf_sct_def wf_ent_def)
    qed
    ultimately show ?thesis by blast
  qed
  then show "nvrec_entry_find (cf_addr T) sec key h = Some (case lookup_ent T sec key of None \<Rightarrow> 0 | Some e \<Rightarrow> en_addr e)"
    "lookup_ent T sec key = Some e \<Longrightarrow> en_addr e \<noteq> 0 \<and> get_entry (en_addr e) h = Some \<lparr>ne_key = en_kp e, ne_value = en_vp e\<rparr> \<and>
      get_bytes (en_vp e) h = Some (en_val e) \<and> 0 \<in> set (en_val e)" by blast+
qed

end
