(* ===== verification/Nvrec_Write.thy ===== *)
theory Nvrec_Write
  imports Nvrec_Store
begin

text \<open>
  Writing to the configuration store: the blocks of a new entry and of a new section, the exchange of a value,
  and that \<open>nvrec_config_set_string\<close> updates the map of maps, keeps the order of what was there, and frees
  and allocates exactly what it should.
\<close>

section \<open>New blocks\<close>

lemma view_terminated [simp]: "0 \<in> set (view b @ [0])"
  by simp

lemma pool_malloc_owned:
  assumes "alloc_ok K al" "card (dom h) < K"
  obtains p where "pool_malloc al n h = (p, h(p \<mapsto> RAW))" "p \<noteq> 0" "h p = None" "\<And>ob. owns (h(p \<mapsto> ob)) [(p, ob)] h"
proof -
  obtain p where p: "pool_malloc al n h = (p, h(p \<mapsto> RAW))" "p \<noteq> 0" "h p = None" using pool_malloc_ok [OF assms] by metis
  have "owns (h(p \<mapsto> ob)) [(p, ob)] h" for ob using owns_alloc [of h "[]" h p ob] p by simp
  then show ?thesis using that p by blast
qed

lemma strdup_ok:
  assumes "alloc_ok K al" "card (dom h) < K" "0 \<in> set b"
  shows "\<exists>p h'. strdup_ext al (Some b) h = Some (p, h') \<and> owns h' [(p, BYTES (view b @ [0]))] h"
proof -
  obtain p where "pool_malloc al (length (view b) + 1) h = (p, h(p \<mapsto> RAW))" "p \<noteq> 0" "\<And>ob. owns (h(p \<mapsto> ob)) [(p, ob)] h"
    using pool_malloc_owned [OF assms(1,2)] by metis
  then show ?thesis using assms(3) by (simp add: strdup_ext_def c_str_view zmalloc_ext_def)
qed

definition new_key :: "u8 list \<Rightarrow> u8 list \<Rightarrow> u8 list" where
  "new_key sec key = keyv sec key @ [0]"

lemma keyv_new_key: "key_ok sec key \<Longrightarrow> keyv sec (new_key sec key) = keyv sec key \<and> key_ok sec (new_key sec key)"
  by (auto simp: new_key_def keyv_def key_ok_def)

lemma strcmp_ddb: "0 \<in> set sec \<Longrightarrow> strcmp_eq sec section_name_ddbrec = Some (is_ddb sec)"
  by (simp add: strcmp_eq_view ddb_terminated is_ddb_def)

lemma key_dup_ok:
  assumes "alloc_ok K al" "card (dom h) < K" "0 \<in> set sec" "key_ok sec key"
  shows "\<exists>p h'. (if is_ddb sec then bdaddrdup al key BTIF_BD_ADDR_SIZE h else strdup_ext al (Some key) h) = Some (p, h') \<and>
    owns h' [(p, BYTES (new_key sec key))] h"
proof (cases "is_ddb sec")
  case True
  obtain p where "pool_malloc al 7 h = (p, h(p \<mapsto> RAW))" "p \<noteq> 0" "\<And>ob. owns (h(p \<mapsto> ob)) [(p, ob)] h"
    using pool_malloc_owned [OF assms(1,2)] by metis
  then show ?thesis using True assms(3,4)
    by (simp add: bdaddrdup_def cfg_zmalloc_def cfg_malloc_def BTIF_BD_ADDR_SIZE_def
        key_ok_def new_key_def keyv_def)
next
  case False
  then show ?thesis using strdup_ok [OF assms(1,2), of key] assms(3,4)
    by (simp add: key_ok_def new_key_def keyv_def)
qed

lemma entry_new_ok:
  assumes "alloc_ok K al" "card (dom h) + 3 \<le> K" "0 \<in> set sec" "key_ok sec key" "0 \<in> set v"
  shows "\<exists>e h'. nvrec_entry_new al key (Some v) sec h = Some (en_addr e, h') \<and> owns h' (ent_cells e) h \<and>
    en_key e = new_key sec key \<and> en_val e = view v @ [0]"
proof -
  have "card (dom h) < K" using assms(2) by simp
  then obtain p where p: "pool_malloc al 8 h = (p, h(p \<mapsto> RAW))" "p \<noteq> 0" "owns (h(p \<mapsto> RAW)) [(p, RAW)] h"
    using pool_malloc_owned [OF assms(1)] by metis
  define h1 where "h1 = h(p \<mapsto> RAW)"
  have c1: "card (dom h1) = card (dom h) + 1" using owns_card [OF p(3)] by (simp add: h1_def)
  obtain k h2 where k: "(if is_ddb sec then bdaddrdup al key BTIF_BD_ADDR_SIZE h1 else strdup_ext al (Some key) h1) = Some (k, h2)"
    "owns h2 [(k, BYTES (new_key sec key))] h1"
    using key_dup_ok [OF assms(1), of h1 sec key] c1 assms(2-4) by auto
  have c2: "card (dom h2) = card (dom h) + 2" using owns_card [OF k(2)] c1 by simp
  obtain q h3 where q: "strdup_ext al (Some v) h2 = Some (q, h3)" "owns h3 [(q, BYTES (view v @ [0]))] h2"
    using strdup_ok [OF assms(1), of h2 v] c2 assms(2,5) by auto
  have "owns h3 ([(q, BYTES (view v @ [0]))] @ [(k, BYTES (new_key sec key))] @ [(p, RAW)]) h"
    by (intro owns_stack [OF owns_stack]) (use p(3) k(2) q(2) in \<open>simp_all add: h1_def\<close>)
  then have "owns (h3(p \<mapsto> ENTRY \<lparr>ne_key = k, ne_value = q\<rparr>))
      ([(q, BYTES (view v @ [0])), (k, BYTES (new_key sec key))] @ (p, ENTRY \<lparr>ne_key = k, ne_value = q\<rparr>) # []) h"
    by (intro owns_write [where ob = RAW]) simp
  then have "owns (h3(p \<mapsto> ENTRY \<lparr>ne_key = k, ne_value = q\<rparr>))
      (ent_cells \<lparr>en_node = 0, en_addr = p, en_kp = k, en_key = new_key sec key, en_vp = q, en_val = view v @ [0]\<rparr>) h"
    by (rule owns_perm) (auto simp: ent_cells_def)
  moreover have "nvrec_entry_new al key (Some v) sec h = Some (p, h3(p \<mapsto> ENTRY \<lparr>ne_key = k, ne_value = q\<rparr>))"
    using p(1,2) k(1) q(1) strcmp_ddb [OF assms(3)] by (cases "is_ddb sec") (simp_all add: nvrec_entry_new_def cfg_zmalloc_def cfg_malloc_def h1_def [symmetric])
  ultimately show ?thesis
    by (intro exI [of _ "\<lparr>en_node = 0, en_addr = p, en_kp = k, en_key = new_key sec key, en_vp = q, en_val = view v @ [0]\<rparr>"] exI) auto
qed

lemma section_new_ok:
  assumes "alloc_ok K al" "card (dom h) + 3 \<le> K" "0 \<in> set sec"
  shows "\<exists>s h'. nvrec_section_new al sec h = Some (sc_addr s, h') \<and> owns h' (sct_cells s) h \<and> sc_name s = view sec @ [0] \<and> sc_ents s = []"
proof -
  have "card (dom h) < K" using assms(2) by simp
  then obtain p where p: "pool_malloc al 8 h = (p, h(p \<mapsto> RAW))" "p \<noteq> 0" "owns (h(p \<mapsto> RAW)) [(p, RAW)] h"
    using pool_malloc_owned [OF assms(1)] by metis
  define h1 where "h1 = h(p \<mapsto> RAW)"
  have c1: "card (dom h1) = card (dom h) + 1" using owns_card [OF p(3)] by (simp add: h1_def)
  obtain k h2 where k: "strdup_ext al (Some sec) h1 = Some (k, h2)" "owns h2 [(k, BYTES (view sec @ [0]))] h1"
    using strdup_ok [OF assms(1), of h1 sec] c1 assms(2,3) by auto
  have c2: "card (dom h2) = card (dom h) + 2" using owns_card [OF k(2)] c1 by simp
  obtain l h3 where l: "list_new_ext al (Some NVREC_ENTRY_FREE) h2 = Some (l, h3)" "owns h3 (list_cells l (Some NVREC_ENTRY_FREE) []) h2"
    using list_new_ok [OF assms(1), of h2] c2 assms(2) by fastforce
  let ?S = "SECTION \<lparr>ns_name = k, ns_entries = l\<rparr>"
  have "owns h3 (list_cells l (Some NVREC_ENTRY_FREE) [] @ [(k, BYTES (view sec @ [0]))] @ [(p, RAW)]) h"
    by (intro owns_stack [OF owns_stack]) (use p(3) k(2) l(2) in \<open>simp_all add: h1_def\<close>)
  then have "owns (h3(p \<mapsto> ?S)) ((list_cells l (Some NVREC_ENTRY_FREE) [] @ [(k, BYTES (view sec @ [0]))]) @ (p, ?S) # []) h"
    by (intro owns_write [where ob = RAW]) simp
  then have "owns (h3(p \<mapsto> ?S)) (sct_cells \<lparr>sc_node = 0, sc_addr = p, sc_np = k, sc_name = view sec @ [0], sc_list = l, sc_ents = []\<rparr>) h"
    by (rule owns_perm) (auto simp: sct_cells_def ent_items_def)
  moreover have "nvrec_section_new al sec h = Some (p, h3(p \<mapsto> ?S))"
    using p(1,2) k(1) l(1) by (simp add: nvrec_section_new_def cfg_zmalloc_def cfg_malloc_def h1_def)
  ultimately show ?thesis
    by (intro exI [of _ "\<lparr>sc_node = 0, sc_addr = p, sc_np = k, sc_name = view sec @ [0], sc_list = l, sc_ents = []\<rparr>"] exI) auto
qed

lemma value_exchange_ok:
  assumes "owns h (ent_cells e) F" "alloc_ok K al" "card (dom h) \<le> K" "0 \<in> set v"
  shows "\<exists>h1 h2 q. cfg_free (en_vp e) h = Some h1 \<and> strdup_ext al (Some v) h1 = Some (q, h2) \<and>
    get_entry (en_addr e) h2 = Some \<lparr>ne_key = en_kp e, ne_value = en_vp e\<rparr> \<and>
    owns (h2(en_addr e \<mapsto> ENTRY \<lparr>ne_key = en_kp e, ne_value = q\<rparr>)) (ent_cells (e\<lparr>en_vp := q, en_val := view v @ [0]\<rparr>)) F"
proof -
  let ?E = "ENTRY \<lparr>ne_key = en_kp e, ne_value = en_vp e\<rparr>"
  have "owns h ([(en_addr e, ?E), (en_kp e, BYTES (en_key e))] @ (en_vp e, BYTES (en_val e)) # []) F"
    using assms(1) by (simp add: ent_cells_def)
  note f = pool_free_owned [OF this]
  define h1 where "h1 = h(en_vp e := None)"
  have o1: "owns h1 [(en_addr e, ?E), (en_kp e, BYTES (en_key e))] F" using f by (simp add: h1_def)
  have "card (dom h1) < K" using owns_card [OF o1] owns_card [OF assms(1)] assms(3) by (simp add: ent_cells_def)
  then obtain q h2 where q: "strdup_ext al (Some v) h1 = Some (q, h2)" "owns h2 [(q, BYTES (view v @ [0]))] h1"
    using strdup_ok [OF assms(2) _ assms(4)] by blast
  have o2: "owns h2 ([(q, BYTES (view v @ [0]))] @ (en_addr e, ?E) # [(en_kp e, BYTES (en_key e))]) F"
    using owns_stack [OF o1 q(2)] by simp
  have "get_entry (en_addr e) h2 = Some \<lparr>ne_key = en_kp e, ne_value = en_vp e\<rparr>"
    using owns_read [OF o2, of "en_addr e" ?E] by (simp add: heap_simps)
  moreover have "owns (h2(en_addr e \<mapsto> ENTRY \<lparr>ne_key = en_kp e, ne_value = q\<rparr>)) (ent_cells (e\<lparr>en_vp := q, en_val := view v @ [0]\<rparr>)) F"
    by (rule owns_perm [OF owns_write [OF o2]]) (auto simp: ent_cells_def)
  ultimately show ?thesis using f q(1) by (auto simp: cfg_free_def h1_def)
qed


section \<open>The store\<close>

definition store_set :: "u8 list \<Rightarrow> u8 list \<Rightarrow> u8 list \<Rightarrow> store \<Rightarrow> store" where
  "store_set sec key v st = AList.update sec (AList.update key v (case map_of st sec of None \<Rightarrow> [] | Some es \<Rightarrow> es)) st"

lemma find_SomeE:
  assumes "find P xs = Some x"
  obtains pre post where "xs = pre @ x # post" "P x" "\<forall>y \<in> set pre. \<not> P y"
  using assms
proof (induction xs arbitrary: thesis)
  case (Cons y ys)
  show ?case
  proof (cases "P y")
    case True
    then show ?thesis using Cons.prems(1) [of "[]" ys] Cons.prems(2) by simp
  next
    case False
    then obtain pre post where "ys = pre @ x # post" "P x" "\<forall>y \<in> set pre. \<not> P y" using Cons.IH Cons.prems(2) by auto
    then show ?thesis using Cons.prems(1) [of "y # pre" post] False by simp
  qed
qed simp

lemma update_mid: "k \<notin> fst ` set xs \<Longrightarrow> AList.update k v (xs @ (k, w) # ys) = xs @ (k, v) # ys"
  by (induction xs) auto

lemma update_end: "k \<notin> fst ` set xs \<Longrightarrow> AList.update k v xs = xs @ [(k, v)]"
  by (induction xs) auto

lemma map_of_mid_abs: "k \<notin> fst ` set xs \<Longrightarrow> map_of (xs @ (k, w) # ys) k = Some w"
  by (induction xs) auto

text \<open>The tree with entries \<open>es\<close> in section \<open>s\<close>.\<close>

definition with_ents :: "cft \<Rightarrow> sct list \<Rightarrow> sct \<Rightarrow> sct list \<Rightarrow> ent list \<Rightarrow> cft" where
  "with_ents T pre s post es = T\<lparr>cf_secs := pre @ s\<lparr>sc_ents := es\<rparr> # post\<rparr>"

lemma with_ents_self: "cf_secs T = pre @ s # post \<Longrightarrow> with_ents T pre s post (sc_ents s) = T"
  by (cases T, cases s) (simp add: with_ents_def)

lemma with_ents_abs:
  assumes "cf_secs T = pre @ s # post" "wf_cft T"
    "map (\<lambda>e. (ent_key (sc_name s) e, view (en_val e))) es = AList.update k v (sct_abs s)"
  shows "cf_abs (with_ents T pre s post es) = store_set (sct_name s) k v (cf_abs T)"
proof -
  have n: "sct_name s \<notin> fst ` set (map (\<lambda>s. (sct_name s, sct_abs s)) pre)"
    using assms(1,2) by (auto simp: wf_cft_def)
  have a: "cf_abs T = map (\<lambda>s. (sct_name s, sct_abs s)) pre @ (sct_name s, sct_abs s) # map (\<lambda>s. (sct_name s, sct_abs s)) post"
    by (simp add: cf_abs_def assms(1))
  have "map_of (cf_abs T) (sct_name s) = Some (sct_abs s)" unfolding a by (rule map_of_mid_abs [OF n])
  then have "store_set (sct_name s) k v (cf_abs T) = map (\<lambda>s. (sct_name s, sct_abs s)) pre @
      (sct_name s, AList.update k v (sct_abs s)) # map (\<lambda>s. (sct_name s, sct_abs s)) post"
    unfolding store_set_def using update_mid [OF n] by (simp add: a del: map_of_append)
  moreover have "sct_abs (s\<lparr>sc_ents := es\<rparr>) = AList.update k v (sct_abs s)" "sct_name (s\<lparr>sc_ents := es\<rparr>) = sct_name s"
    using assms(3) by (simp_all add: sct_abs_def sct_name_def)
  ultimately show ?thesis
    by (simp add: cf_abs_def with_ents_def)
qed

lemma with_ents_wf:
  assumes "cf_secs T = pre @ s # post" "wf_cft T" "\<forall>e \<in> set es. wf_ent (sc_name s) e" "distinct (map (ent_key (sc_name s)) es)"
  shows "wf_cft (with_ents T pre s post es)"
  using assms by (auto simp: wf_cft_def with_ents_def wf_sct_def sct_name_def)

lemma set_existing:
  assumes o: "owns h (cf_cells T) F" and wf: "wf_cft T" and al: "alloc_ok K al" "card (dom h) \<le> K"
    and s: "cf_secs T = pre @ s # post" "view sec = view (sc_name s)" "0 \<in> set sec" "key_ok sec key" "0 \<in> set v"
    and e: "sc_ents s = epre @ e # epost" "find (\<lambda>e. ent_key (sc_name s) e = keyv sec key) (sc_ents s) = Some e"
  defines "e' \<equiv> \<lambda>q. e\<lparr>en_vp := q, en_val := view v @ [0]\<rparr>"
  shows "\<exists>q h'. set_in_section al sec key (Some v) (sc_addr s) h = Some h' \<and> owns h' (cf_cells (with_ents T pre s post (epre @ e' q # epost))) F"
proof -
  let ?rest = "[(cf_addr T, CONFIG \<lparr>nc_sections = cf_list T\<rparr>)] @ list_cells (cf_list T) (Some NVREC_SECTION_FREE) (sct_items (cf_secs T)) @
    [(sc_addr s, SECTION \<lparr>ns_name = sc_np s, ns_entries = sc_list s\<rparr>), (sc_np s, BYTES (sc_name s))] @
    list_cells (sc_list s) (Some NVREC_ENTRY_FREE) (ent_items (sc_ents s)) @ concat (map ent_cells (epre @ epost)) @ concat (map sct_cells (pre @ post))"
  have o1: "owns h (ent_cells e @ ?rest) F"
    by (rule owns_perm [OF o]) (auto simp: s e cf_cells_def sct_cells_def sct_items_def ent_items_def)
  note r = sct_reads [OF o s(1)]
  note re = ent_reads [OF r(8) e(1)]
  have w: "wf_sct s" using wf s(1) by (simp add: wf_cft_def)
  have "entry_find_loop sec key (first_node 0 (ent_items (sc_ents s))) h = Some (en_addr e)"
    using entry_loop_ok [OF r(8), of "[]" "sc_ents s" "sc_name s" sec key] w s e(2) by (simp add: wf_sct_def)
  then obtain h1 h2 q where x: "cfg_free (en_vp e) h = Some h1" "strdup_ext al (Some v) h1 = Some (q, h2)"
    "get_entry (en_addr e) h2 = Some \<lparr>ne_key = en_kp e, ne_value = en_vp e\<rparr>"
    "owns (h2(en_addr e \<mapsto> ENTRY \<lparr>ne_key = en_kp e, ne_value = q\<rparr>)) (ent_cells (e' q)) (F ++ map_of ?rest)"
    "entry_find_loop sec key (first_node 0 (ent_items (sc_ents s))) h = Some (en_addr e)"
    using value_exchange_ok [OF owns_part [OF o1] al s(5)] unfolding e'_def by blast
  have "owns (h2(en_addr e \<mapsto> ENTRY \<lparr>ne_key = en_kp e, ne_value = q\<rparr>)) (ent_cells (e' q) @ ?rest) F"
    by (rule owns_swap [OF o1 x(4)])
  then have "owns (h2(en_addr e \<mapsto> ENTRY \<lparr>ne_key = en_kp e, ne_value = q\<rparr>)) (cf_cells (with_ents T pre s post (epre @ e' q # epost))) F"
    by (rule owns_perm) (auto simp: s e e'_def with_ents_def cf_cells_def sct_cells_def sct_items_def ent_items_def)
  moreover have "set_in_section al sec key (Some v) (sc_addr s) h = Some (h2(en_addr e \<mapsto> ENTRY \<lparr>ne_key = en_kp e, ne_value = q\<rparr>))"
    using r(5) sct_begin [OF r(7)] re(2,5) x(1-3,5) by (simp add: set_in_section_def)
  ultimately show ?thesis by blast
qed

lemma set_missing:
  assumes o: "owns h (cf_cells T) F" and wf: "wf_cft T" and al: "alloc_ok K al" "card (dom h) + 4 \<le> K"
    and s: "cf_secs T = pre @ s # post" "view sec = view (sc_name s)" "0 \<in> set sec" "key_ok sec key" "0 \<in> set v"
    and e: "find (\<lambda>e. ent_key (sc_name s) e = keyv sec key) (sc_ents s) = None"
  shows "\<exists>e h'. set_in_section al sec key (Some v) (sc_addr s) h = Some h' \<and>
    owns h' (cf_cells (with_ents T pre s post (sc_ents s @ [e]))) F \<and> en_key e = new_key sec key \<and> en_val e = view v @ [0]"
proof -
  obtain e h1 where e1: "nvrec_entry_new al key (Some v) sec h = Some (en_addr e, h1)" "owns h1 (ent_cells e) h"
    "en_key e = new_key sec key" "en_val e = view v @ [0]"
    using entry_new_ok [OF al(1) _ s(3-5), of h] al(2) by auto
  let ?l = "list_cells (sc_list s) (Some NVREC_ENTRY_FREE)"
  let ?rest = "ent_cells e @ [(cf_addr T, CONFIG \<lparr>nc_sections = cf_list T\<rparr>)] @ list_cells (cf_list T) (Some NVREC_SECTION_FREE) (sct_items (cf_secs T)) @
    [(sc_addr s, SECTION \<lparr>ns_name = sc_np s, ns_entries = sc_list s\<rparr>), (sc_np s, BYTES (sc_name s))] @
    concat (map ent_cells (sc_ents s)) @ concat (map sct_cells (pre @ post))"
  have o1: "owns h1 (?l (ent_items (sc_ents s)) @ ?rest) F"
    by (rule owns_perm [OF owns_stack [OF o e1(2)]]) (auto simp: s cf_cells_def sct_cells_def sct_items_def ent_items_def)
  note r = sct_reads [OF o s(1)]
  have w: "wf_sct s" using wf s(1) by (simp add: wf_cft_def)
  have f: "entry_find_loop sec key (first_node 0 (ent_items (sc_ents s))) h = Some 0"
    using entry_loop_ok [OF r(8), of "[]" "sc_ents s" "sc_name s" sec key] w s e by (simp add: wf_sct_def)
  have ne: "en_addr e \<noteq> 0" using owns_nonzero [OF o1, of "en_addr e" "ENTRY \<lparr>ne_key = en_kp e, ne_value = en_vp e\<rparr>"] by (simp add: ent_cells_def)
  have gs: "get_section (sc_addr s) h1 = Some \<lparr>ns_name = sc_np s, ns_entries = sc_list s\<rparr>"
    using owns_read [OF o1, of "sc_addr s" "SECTION \<lparr>ns_name = sc_np s, ns_entries = sc_list s\<rparr>"] by (simp add: heap_simps)
  have "card (dom h1) < K" using owns_card [OF e1(2)] al(2) by (simp add: ent_cells_def)
  then obtain p h2 where p: "list_append_ext al (sc_list s) (en_addr e) h1 = Some (True, h2)"
    "owns h2 (?l (ent_items (sc_ents s) @ [(p, en_addr e)])) (F ++ map_of ?rest)"
    using list_append_ok [OF owns_part [OF o1] al(1) _ ne] by blast
  have "owns h2 (?l (ent_items (sc_ents s) @ [(p, en_addr e)]) @ ?rest) F" by (rule owns_swap [OF o1 p(2)])
  then have "owns h2 (cf_cells (with_ents T pre s post (sc_ents s @ [e\<lparr>en_node := p\<rparr>]))) F"
    by (rule owns_perm) (auto simp: s with_ents_def cf_cells_def sct_cells_def sct_items_def ent_items_def ent_cells_def)
  moreover have "set_in_section al sec key (Some v) (sc_addr s) h = Some h2"
    using r(5) sct_begin [OF r(7)] f e1(1) gs p(1) by (simp add: set_in_section_def)
  ultimately show ?thesis using e1(3,4) by (intro exI [of _ "e\<lparr>en_node := p\<rparr>"] exI [of _ h2]) simp
qed

lemma set_in_section_ok:
  assumes o: "owns h (cf_cells T) F" and wf: "wf_cft T" and al: "alloc_ok K al" "card (dom h) + 4 \<le> K"
    and s: "cf_secs T = pre @ s # post" "view sec = view (sc_name s)" "0 \<in> set sec" "key_ok sec key" "0 \<in> set v"
  shows "\<exists>T' h'. set_in_section al sec key (Some v) (sc_addr s) h = Some h' \<and> owns h' (cf_cells T') F \<and> wf_cft T' \<and>
    cf_addr T' = cf_addr T \<and> cf_abs T' = store_set (view sec) (keyv sec key) (view v) (cf_abs T)"
proof -
  have w: "wf_sct s" using wf s(1) by (simp add: wf_cft_def)
  have n: "sct_name s = view sec" by (simp add: sct_name_def s(2))
  have kv: "keyv (sc_name s) = keyv sec" "key_ok (sc_name s) = key_ok sec" using keyv_cong [OF s(2)] by simp_all
  show ?thesis
  proof (cases "find (\<lambda>e. ent_key (sc_name s) e = keyv sec key) (sc_ents s)")
    case None
    obtain e h' where e: "set_in_section al sec key (Some v) (sc_addr s) h = Some h'"
      "owns h' (cf_cells (with_ents T pre s post (sc_ents s @ [e]))) F" "en_key e = new_key sec key" "en_val e = view v @ [0]"
      using set_missing [OF o wf al s None] by blast
    have k: "ent_key (sc_name s) e = keyv sec key" "key_ok (sc_name s) (en_key e)"
      using keyv_new_key [OF s(4)] by (simp_all add: ent_key_def kv e(3))
    have new: "keyv sec key \<notin> ent_key (sc_name s) ` set (sc_ents s)" using None by (auto simp: find_None_iff)
    have "map (\<lambda>e. (ent_key (sc_name s) e, view (en_val e))) (sc_ents s @ [e]) = AList.update (keyv sec key) (view v) (sct_abs s)"
      using new by (subst update_end) (auto simp: sct_abs_def k e(4))
    from with_ents_abs [OF s(1) wf this]
    have "cf_abs (with_ents T pre s post (sc_ents s @ [e])) = store_set (view sec) (keyv sec key) (view v) (cf_abs T)" by (simp add: n)
    moreover have "wf_cft (with_ents T pre s post (sc_ents s @ [e]))"
      by (rule with_ents_wf [OF s(1) wf]) (use w new k e(4) in \<open>auto simp: wf_sct_def wf_ent_def\<close>)
    ultimately show ?thesis using e(1,2) by (intro exI [of _ "with_ents T pre s post (sc_ents s @ [e])"] exI [of _ h']) (simp add: with_ents_def)
  next
    case (Some e)
    then obtain epre epost where p: "sc_ents s = epre @ e # epost" "ent_key (sc_name s) e = keyv sec key"
      "\<forall>y \<in> set epre. ent_key (sc_name s) y \<noteq> keyv sec key" by (rule find_SomeE) blast
    define e' where "e' = (\<lambda>q. e\<lparr>en_vp := q, en_val := view v @ [0]\<rparr>)"
    have "card (dom h) \<le> K" using al(2) by simp
    from set_existing [OF o wf al(1) this s p(1) Some]
    obtain q h' where q: "set_in_section al sec key (Some v) (sc_addr s) h = Some h'"
      "owns h' (cf_cells (with_ents T pre s post (epre @ e' q # epost))) F" unfolding e'_def by blast
    have k: "ent_key (sc_name s) (e' q) = keyv sec key" "en_key (e' q) = en_key e" "view (en_val (e' q)) = view v" "0 \<in> set (en_val (e' q))"
      using p(2) by (simp_all add: ent_key_def e'_def)
    have "map (\<lambda>e. (ent_key (sc_name s) e, view (en_val e))) (epre @ e' q # epost) = AList.update (keyv sec key) (view v) (sct_abs s)"
    proof -
      have "keyv sec key \<notin> fst ` set (map (\<lambda>e. (ent_key (sc_name s) e, view (en_val e))) epre)" using p(3) by auto
      then show ?thesis unfolding sct_abs_def p(1) using p(2) k by (simp add: update_mid)
    qed
    from with_ents_abs [OF s(1) wf this]
    have "cf_abs (with_ents T pre s post (epre @ e' q # epost)) = store_set (view sec) (keyv sec key) (view v) (cf_abs T)" by (simp add: n)
    moreover have "wf_cft (with_ents T pre s post (epre @ e' q # epost))"
      by (rule with_ents_wf [OF s(1) wf]) (use w p k in \<open>auto simp: wf_sct_def wf_ent_def\<close>)
    ultimately show ?thesis using q by (intro exI [of _ "with_ents T pre s post (epre @ e' q # epost)"] exI [of _ h']) (simp add: with_ents_def)
  qed
qed


section \<open>Setting a string\<close>

lemma store_set_new_section: "map_of st sec = None \<Longrightarrow> store_set sec k v (st @ [(sec, [])]) = store_set sec k v st"
proof -
  assume n: "map_of st sec = None"
  then have "sec \<notin> fst ` set st" by (simp add: map_of_eq_None_iff)
  moreover have "([sec \<mapsto> []] ++ map_of st) sec = Some []" using n by (simp add: map_add_def)
  ultimately show ?thesis using n by (simp add: store_set_def update_mid update_end)
qed

lemma add_section_ok:
  assumes o: "owns h (cf_cells T) F" and wf: "wf_cft T" and al: "alloc_ok K al" "card (dom h) + 8 \<le> K" "0 \<in> set sec"
    and n: "find (\<lambda>s. sct_name s = view sec) (cf_secs T) = None"
  obtains s h1 h2 where "nvrec_section_new al sec h = Some (sc_addr s, h1)" "get_config (cf_addr T) h1 = Some \<lparr>nc_sections = cf_list T\<rparr>"
    "list_append_ext al (cf_list T) (sc_addr s) h1 = Some (True, h2)" "sc_ents s = []" "sct_name s = view sec"
    "owns h2 (cf_cells (T\<lparr>cf_secs := cf_secs T @ [s]\<rparr>)) F" "wf_cft (T\<lparr>cf_secs := cf_secs T @ [s]\<rparr>)" "card (dom h2) + 4 \<le> K"
proof -
  obtain s h1 where s: "nvrec_section_new al sec h = Some (sc_addr s, h1)" "owns h1 (sct_cells s) h" "sc_name s = view sec @ [0]" "sc_ents s = []"
    using section_new_ok [OF al(1) _ al(3), of h] al(2) by auto
  let ?l = "list_cells (cf_list T) (Some NVREC_SECTION_FREE)"
  let ?rest = "sct_cells s @ [(cf_addr T, CONFIG \<lparr>nc_sections = cf_list T\<rparr>)] @ concat (map sct_cells (cf_secs T))"
  have o1: "owns h1 (?l (sct_items (cf_secs T)) @ ?rest) F"
    by (rule owns_perm [OF owns_stack [OF o s(2)]]) (auto simp: cf_cells_def)
  have ne: "sc_addr s \<noteq> 0"
    using owns_nonzero [OF o1, of "sc_addr s" "SECTION \<lparr>ns_name = sc_np s, ns_entries = sc_list s\<rparr>"] by (simp add: sct_cells_def)
  have g: "get_config (cf_addr T) h1 = Some \<lparr>nc_sections = cf_list T\<rparr>"
    using owns_read [OF o1, of "cf_addr T" "CONFIG \<lparr>nc_sections = cf_list T\<rparr>"] by (simp add: heap_simps)
  have c1: "card (dom h1) = card (dom h) + 3" using owns_card [OF s(2)] s(4) by (simp add: sct_cells_def list_cells_def ent_items_def)
  then have "card (dom h1) < K" using al(2) by simp
  then obtain p h2 where p: "list_append_ext al (cf_list T) (sc_addr s) h1 = Some (True, h2)"
    "owns h2 (?l (sct_items (cf_secs T) @ [(p, sc_addr s)])) (F ++ map_of ?rest)"
    using list_append_ok [OF owns_part [OF o1] al(1) _ ne] by blast
  let ?s = "s\<lparr>sc_node := p\<rparr>"
  have o2: "owns h2 (?l (sct_items (cf_secs T) @ [(p, sc_addr s)]) @ ?rest) F" by (rule owns_swap [OF o1 p(2)])
  have o3: "owns h2 (cf_cells (T\<lparr>cf_secs := cf_secs T @ [?s]\<rparr>)) F"
    by (rule owns_perm [OF o2]) (auto simp: cf_cells_def sct_items_def sct_cells_def)
  have "card (dom h2) = card (dom h1) + 1" using owns_card [OF o1] owns_card [OF o2] by (simp add: list_cells_def)
  then have c2: "card (dom h2) + 4 \<le> K" using c1 al(2) by simp
  have nm: "sct_name ?s = view sec" by (simp add: sct_name_def s(3))
  have "wf_sct ?s" by (simp add: wf_sct_def s(3,4))
  moreover have "view sec \<notin> sct_name ` set (cf_secs T)" using n by (auto simp: find_None_iff)
  ultimately have "wf_cft (T\<lparr>cf_secs := cf_secs T @ [?s]\<rparr>)" using wf nm by (auto simp: wf_cft_def)
  then show ?thesis using that [of ?s h1 h2] s(1,4) g p(1) nm o3 c2 by simp
qed

lemma set_string_ok:
  assumes o: "owns h (cf_cells T) F" and wf: "wf_cft T" and al: "alloc_ok K al" "card (dom h) + 8 \<le> K"
    and v: "0 \<in> set sec" "key_ok sec key" "0 \<in> set v"
  shows "\<exists>T' h'. nvrec_config_set_string al (cf_addr T) sec key (Some v) h = Some h' \<and> owns h' (cf_cells T') F \<and> wf_cft T' \<and>
    cf_addr T' = cf_addr T \<and> cf_abs T' = store_set (view sec) (keyv sec key) (view v) (cf_abs T)"
proof (cases "find (\<lambda>s. sct_name s = view sec) (cf_secs T)")
  case (Some s)
  then obtain pre post where p: "cf_secs T = pre @ s # post" "sct_name s = view sec" by (rule find_SomeE) blast
  have "sc_addr s \<noteq> 0" using sct_reads(2) [OF o p(1)] .
  then have "nvrec_config_set_string al (cf_addr T) sec key (Some v) h = set_in_section al sec key (Some v) (sc_addr s) h"
    using section_find_ok(1) [OF o wf v(1)] Some by (simp add: nvrec_config_set_string_def)
  moreover have "view sec = view (sc_name s)" using p(2) by (simp add: sct_name_def)
  ultimately show ?thesis using set_in_section_ok [OF o wf al(1) _ p(1) _ v] al(2) by simp
next
  case None
  obtain s h1 h2 where s: "nvrec_section_new al sec h = Some (sc_addr s, h1)" "get_config (cf_addr T) h1 = Some \<lparr>nc_sections = cf_list T\<rparr>"
    "list_append_ext al (cf_list T) (sc_addr s) h1 = Some (True, h2)" "sc_ents s = []" "sct_name s = view sec"
    "owns h2 (cf_cells (T\<lparr>cf_secs := cf_secs T @ [s]\<rparr>)) F" "wf_cft (T\<lparr>cf_secs := cf_secs T @ [s]\<rparr>)" "card (dom h2) + 4 \<le> K"
    by (rule add_section_ok [OF o wf al v(1) None])
  have "nvrec_config_set_string al (cf_addr T) sec key (Some v) h = set_in_section al sec key (Some v) (sc_addr s) h2"
    using section_find_ok(1) [OF o wf v(1)] None s(1-3) by (simp add: nvrec_config_set_string_def)
  moreover have vs: "view sec = view (sc_name s)" using s(5) by (simp add: sct_name_def)
  have "\<exists>T' h'. set_in_section al sec key (Some v) (sc_addr s) h2 = Some h' \<and> owns h' (cf_cells T') F \<and> wf_cft T' \<and>
      cf_addr T' = cf_addr (T\<lparr>cf_secs := cf_secs T @ [s]\<rparr>) \<and>
      cf_abs T' = store_set (view sec) (keyv sec key) (view v) (cf_abs (T\<lparr>cf_secs := cf_secs T @ [s]\<rparr>))"
    by (rule set_in_section_ok [OF s(6,7) al(1) s(8) _ vs v, of "cf_secs T" "[]"]) simp
  moreover have "map_of (cf_abs T) (view sec) = None" using None by (simp add: cf_abs_def map_of_find)
  moreover have "cf_abs (T\<lparr>cf_secs := cf_secs T @ [s]\<rparr>) = cf_abs T @ [(view sec, [])]" by (simp add: cf_abs_def s(4,5) sct_abs_def)
  moreover have "cf_addr (T\<lparr>cf_secs := cf_secs T @ [s]\<rparr>) = cf_addr T" by simp
  ultimately show ?thesis by (simp only: store_set_new_section)
qed

section \<open>Creation and release\<close>

lemma config_new_ok:
  assumes "alloc_ok K al" "card (dom h) + 2 \<le> K"
  shows "\<exists>T h'. nvrec_config_new al h = Some (cf_addr T, h') \<and> owns h' (cf_cells T) h \<and> wf_cft T \<and> cf_abs T = []"
proof -
  have "card (dom h) < K" using assms(2) by simp
  then obtain p where p: "pool_malloc al 4 h = (p, h(p \<mapsto> RAW))" "p \<noteq> 0" "owns (h(p \<mapsto> RAW)) [(p, RAW)] h"
    using pool_malloc_owned [OF assms(1)] by metis
  define h1 where "h1 = h(p \<mapsto> RAW)"
  have "card (dom h1) < K" using owns_card [OF p(3)] assms(2) by (simp add: h1_def)
  then obtain l h2 where l: "list_new_ext al (Some NVREC_SECTION_FREE) h1 = Some (l, h2)" "owns h2 (list_cells l (Some NVREC_SECTION_FREE) []) h1"
    using list_new_ok [OF assms(1)] by blast
  let ?C = "CONFIG \<lparr>nc_sections = l\<rparr>"
  have "owns (h2(p \<mapsto> ?C)) (list_cells l (Some NVREC_SECTION_FREE) [] @ (p, ?C) # []) h"
    by (rule owns_write [where ob = RAW]) (use owns_stack [OF p(3) l(2) [unfolded h1_def]] in simp)
  then have "owns (h2(p \<mapsto> ?C)) (cf_cells \<lparr>cf_addr = p, cf_list = l, cf_secs = []\<rparr>) h"
    by (rule owns_perm) (auto simp: cf_cells_def sct_items_def)
  moreover have "nvrec_config_new al h = Some (p, h2(p \<mapsto> ?C))"
    using p(1,2) l(1) by (simp add: nvrec_config_new_def cfg_zmalloc_def cfg_malloc_def h1_def)
  ultimately show ?thesis
    by (intro exI [of _ "\<lparr>cf_addr = p, cf_list = l, cf_secs = []\<rparr>"] exI) (auto simp: wf_cft_def cf_abs_def)
qed

definition pay_of :: "('a \<Rightarrow> addr) \<Rightarrow> ('a \<Rightarrow> cells) \<Rightarrow> 'a list \<Rightarrow> addr \<Rightarrow> cells" where
  "pay_of f g xs a = (case find (\<lambda>x. f x = a) xs of None \<Rightarrow> [] | Some x \<Rightarrow> g x)"

lemma pay_of_mem: "distinct (map f xs) \<Longrightarrow> x \<in> set xs \<Longrightarrow> pay_of f g xs (f x) = g x"
  by (induction xs) (auto simp: pay_of_def rev_image_eqI split: option.splits)

lemma pay_of_map: "distinct (map f xs) \<Longrightarrow> map (\<lambda>x. pay_of f g xs (f x)) xs = map g xs"
  by (simp add: pay_of_mem cong: map_cong)

lemma distinct_by_cells:
  assumes "distinct (map fst (concat (map g xs)))" "\<And>x. x \<in> set xs \<Longrightarrow> f x \<in> fst ` set (g x)"
  shows "distinct (map f xs)"
  using assms
proof (induction xs)
  case (Cons a xs)
  have "fst ` set (g a) \<inter> fst ` set (concat (map g xs)) = {}" using Cons.prems(1) by simp
  moreover have "f x \<in> fst ` set (concat (map g xs))" if "x \<in> set xs" for x
    using Cons.prems(2) [of x] that by force
  ultimately have "f a \<notin> f ` set xs" using Cons.prems(2) [of a] by force
  moreover have "distinct (map f xs)" by (rule Cons.IH) (use Cons.prems in simp_all)
  ultimately show ?case by simp
qed simp

lemma entry_free_ok: "owns h (ent_cells e) F \<Longrightarrow> nvrec_entry_free (en_addr e) h = Some F"
proof -
  assume o: "owns h (ent_cells e) F"
  let ?E = "(en_addr e, ENTRY \<lparr>ne_key = en_kp e, ne_value = en_vp e\<rparr>)"
  have "owns h ([?E] @ (en_kp e, BYTES (en_key e)) # [(en_vp e, BYTES (en_val e))]) F" using o by (simp add: ent_cells_def)
  note f1 = pool_free_owned [OF this]
  have "owns (h(en_kp e := None)) ([?E] @ (en_vp e, BYTES (en_val e)) # []) F" using f1 by simp
  note f2 = pool_free_owned [OF this]
  have "owns (h(en_kp e := None, en_vp e := None)) ([] @ ?E # []) F" using f2 by simp
  note f3 = pool_free_owned [OF this]
  have "get_entry (en_addr e) h = Some \<lparr>ne_key = en_kp e, ne_value = en_vp e\<rparr>" "en_addr e \<noteq> 0"
    using owns_read [OF o, of "en_addr e"] owns_nonzero [OF o, of "en_addr e"] by (auto simp: ent_cells_def heap_simps)
  then show ?thesis using f1 f2 f3 by (simp add: nvrec_entry_free_def cfg_free_def)
qed

lemma entries_free_ok:
  assumes "owns h (list_cells l (Some NVREC_ENTRY_FREE) (ent_items es) @ concat (map ent_cells es)) F"
  shows "list_free_ext entry_caller l h = Some F"
proof -
  let ?pay = "pay_of en_addr ent_cells es"
  have "distinct (map fst (concat (map ent_cells es)))" using owns_distinct [OF assms] by auto
  then have d: "distinct (map en_addr es)" by (rule distinct_by_cells) (simp add: ent_cells_def)
  have r: "releases entry_caller (Some NVREC_ENTRY_FREE) (en_addr e) (?pay (en_addr e))" if "e \<in> set es" for e
    using that d entry_free_ok by (simp add: releases_def pay_of_mem entry_caller_def)
  have "map (\<lambda>x. ?pay (snd x)) (ent_items es) = map ent_cells es" using pay_of_map [OF d, of ent_cells] by (simp add: ent_items_def o_def)
  then have m: "concat (map (\<lambda>x. ?pay (snd x)) (ent_items es)) = concat (map ent_cells es)" by simp
  show ?thesis
  proof (rule list_free_ok [where pay = ?pay and xs = "ent_items es" and cb = "Some NVREC_ENTRY_FREE"])
    show "owns h (list_cells l (Some NVREC_ENTRY_FREE) (ent_items es) @ concat (map (\<lambda>x. ?pay (snd x)) (ent_items es))) F"
      unfolding m by (rule assms)
    show "\<forall>x \<in> set (ent_items es). releases entry_caller (Some NVREC_ENTRY_FREE) (snd x) (?pay (snd x))"
      using r by (auto simp: ent_items_def)
  qed
qed

lemma distinct_sct_addr: "distinct (map fst (concat (map sct_cells ss))) \<Longrightarrow> distinct (map sc_addr ss)"
  by (rule distinct_by_cells) (simp, simp add: sct_cells_def)

lemma section_free_ok:
  assumes "owns h (sct_cells s) F"
  shows "nvrec_section_free (sc_addr s) h = Some F"
proof -
  let ?S = "(sc_addr s, SECTION \<lparr>ns_name = sc_np s, ns_entries = sc_list s\<rparr>)"
  let ?L = "list_cells (sc_list s) (Some NVREC_ENTRY_FREE) (ent_items (sc_ents s)) @ concat (map ent_cells (sc_ents s))"
  have "owns h ([?S] @ (sc_np s, BYTES (sc_name s)) # ?L) F" using assms by (simp add: sct_cells_def)
  note f1 = pool_free_owned [OF this]
  have o1: "owns (h(sc_np s := None)) (?L @ [?S]) F" using f1 owns_rotate by fastforce
  have f2: "list_free_ext entry_caller (sc_list s) (h(sc_np s := None)) = Some (F ++ map_of [?S])"
    by (rule entries_free_ok) (rule owns_part [OF o1])
  have "owns (F ++ map_of [?S]) ([] @ ?S # []) F" using o1 by (auto simp: owns_def)
  note f3 = pool_free_owned [OF this]
  have "get_section (sc_addr s) h = Some \<lparr>ns_name = sc_np s, ns_entries = sc_list s\<rparr>" "sc_addr s \<noteq> 0"
    using owns_read [OF assms, of "sc_addr s"] owns_nonzero [OF assms, of "sc_addr s"] by (auto simp: sct_cells_def heap_simps)
  then show ?thesis using f1 f2 f3 by (simp add: nvrec_section_free_def cfg_free_def)
qed

lemma config_free_ok:
  assumes "owns h (cf_cells T) F"
  shows "nvrec_config_free (cf_addr T) h = Some F"
proof -
  let ?C = "(cf_addr T, CONFIG \<lparr>nc_sections = cf_list T\<rparr>)"
  let ?pay = "pay_of sc_addr sct_cells (cf_secs T)"
  have "distinct (map fst (concat (map sct_cells (cf_secs T))))" using owns_distinct [OF assms] by (auto simp: cf_cells_def)
  then have d: "distinct (map sc_addr (cf_secs T))" by (rule distinct_sct_addr)
  have r: "releases section_caller (Some NVREC_SECTION_FREE) (sc_addr s) (?pay (sc_addr s))" if "s \<in> set (cf_secs T)" for s
    using that d section_free_ok by (simp add: releases_def pay_of_mem section_caller_def)
  have m: "map (\<lambda>x. ?pay (snd x)) (sct_items (cf_secs T)) = map sct_cells (cf_secs T)"
    using pay_of_map [OF d, of sct_cells] by (simp add: sct_items_def o_def)
  have o1: "owns h ((list_cells (cf_list T) (Some NVREC_SECTION_FREE) (sct_items (cf_secs T)) @ concat (map sct_cells (cf_secs T))) @ [?C]) F"
    by (rule owns_perm [OF assms]) (auto simp: cf_cells_def)
  have f: "list_free_ext section_caller (cf_list T) h = Some (F ++ map_of [?C])"
  proof (rule list_free_ok [where pay = ?pay and xs = "sct_items (cf_secs T)" and cb = "Some NVREC_SECTION_FREE"])
    show "owns h (list_cells (cf_list T) (Some NVREC_SECTION_FREE) (sct_items (cf_secs T)) @
        concat (map (\<lambda>x. ?pay (snd x)) (sct_items (cf_secs T)))) (F ++ map_of [?C])"
      unfolding m by (rule owns_part [OF o1])
    show "\<forall>x \<in> set (sct_items (cf_secs T)). releases section_caller (Some NVREC_SECTION_FREE) (snd x) (?pay (snd x))"
      using r by (auto simp: sct_items_def)
  qed
  have "owns (F ++ map_of [?C]) ([] @ ?C # []) F" using o1 by (auto simp: owns_def)
  note f3 = pool_free_owned [OF this]
  have "get_config (cf_addr T) h = Some \<lparr>nc_sections = cf_list T\<rparr>" "cf_addr T \<noteq> 0"
    using owns_read [OF assms, of "cf_addr T"] owns_nonzero [OF assms, of "cf_addr T"] by (auto simp: cf_cells_def heap_simps)
  then show ?thesis using f f3 by (simp add: nvrec_config_free_def cfg_free_def)
qed

end
