(* ===== verification/Nvrec_Props.thy ===== *)
theory Nvrec_Props
  imports Nvrec_Write
begin

text \<open>
  What the configuration store promises: its reading calls are lookups in the map of maps, its writing calls
  updates; an integer that was set is read back; and a configuration that is freed leaves nothing behind.
\<close>

section \<open>Numbers\<close>

lemma unat_digit: "d < 10 \<Longrightarrow> unat (of_nat (48 + d) :: u8) = 48 + d"
  by (subst unsigned_of_nat) (simp add: take_bit_nat_eq_self)

lemma digit_val_digit: "d < 10 \<Longrightarrow> digit_val (of_nat (48 + d)) = d"
  using unat_digit [of d] by (simp add: digit_val_def Let_def del: of_nat_add)

lemma digits_val_dec: "digits_val 10 acc (dec_digits n @ r) = digits_val 10 (acc * 10 ^ length (dec_digits n) + n) r"
proof (induction n arbitrary: acc r rule: dec_digits.induct)
  case (1 n)
  show ?case
  proof (cases "n < 10")
    case True
    then show ?thesis using digit_val_digit [of n] by (simp add: dec_digits.simps [of n] del: of_nat_add)
  next
    case False
    then have d: "dec_digits n = dec_digits (n div 10) @ [of_nat (48 + n mod 10)]" by (simp add: dec_digits.simps [of n])
    have "digits_val 10 acc (dec_digits n @ r) =
        digits_val 10 (acc * 10 ^ length (dec_digits (n div 10)) + n div 10) (of_nat (48 + n mod 10) # r)"
      using "1.IH" [OF False] by (simp add: d del: of_nat_add)
    also have "\<dots> = digits_val 10 ((acc * 10 ^ length (dec_digits (n div 10)) + n div 10) * 10 + n mod 10) r"
      using digit_val_digit [of "n mod 10"] by (simp del: of_nat_add)
    also have "(acc * 10 ^ length (dec_digits (n div 10)) + n div 10) * 10 + n mod 10 = acc * 10 ^ length (dec_digits n) + n"
      by (simp add: d algebra_simps)
    finally show ?thesis .
  qed
qed

lemma dec_digits_hd: "\<exists>c r. dec_digits n = c # r \<and> 48 \<le> unat c \<and> unat c \<le> 57 \<and> (unat c = 48 \<longrightarrow> n = 0)"
proof (induction n rule: dec_digits.induct)
  case (1 n)
  show ?case
  proof (cases "n < 10")
    case True
    then show ?thesis using unat_digit [of n] by (simp add: dec_digits.simps [of n] del: of_nat_add)
  next
    case False
    then show ?thesis using "1.IH" [OF False] by (auto simp: dec_digits.simps [of n])
  qed
qed

lemma dec_digits_0: "dec_digits 0 = [48]"
  by (simp add: dec_digits.simps [of 0])

lemma dec_digits_bytes: "c \<in> set (dec_digits n) \<Longrightarrow> c \<noteq> 0"
proof (induction n rule: dec_digits.induct)
  case (1 n)
  have "(of_nat (48 + d) :: u8) \<noteq> 0" if "d < 10" for d using unat_digit [OF that] by (metis add_eq_0_iff_both_eq_0 unat_0 zero_neq_numeral)
  then show ?case using 1 by (cases "n < 10") (auto simp: dec_digits.simps [of n] simp del: of_nat_add)
qed

lemma dec_digits_length: "n < 10 ^ Suc k \<Longrightarrow> length (dec_digits n) \<le> Suc k"
proof (induction k arbitrary: n)
  case 0
  then show ?case by (simp add: dec_digits.simps [of n])
next
  case (Suc k)
  show ?case
  proof (cases "n < 10")
    case False
    have "n div 10 < 10 ^ Suc k" using Suc.prems by (simp add: less_mult_imp_div_less)
    from Suc.IH [OF this] show ?thesis using False by (simp add: dec_digits.simps [of n])
  qed (simp add: dec_digits.simps [of n])
qed

lemma strtol_dec:
  assumes "\<not> is_space (hd (pre @ dec_digits n))" "pre = [] \<or> pre = [45]"
  shows "strtol (pre @ dec_digits n) = ((if pre = [] then min (2 ^ 31 - 1) (int n) else max (- (2 ^ 31)) (- int n)), [])"
proof -
  obtain c r where c: "dec_digits n = c # r" "48 \<le> unat c" "unat c \<le> 57" "unat c = 48 \<longrightarrow> n = 0"
    using dec_digits_hd by blast
  have dw: "dropWhile is_space (pre @ dec_digits n) = pre @ dec_digits n" using assms(1) c(1) by (cases pre) auto
  have sign: "c \<noteq> 45" "c \<noteq> 43" using c(2) by auto
  have base: "\<exists>b. strtol_base (dec_digits n) = (b, dec_digits n) \<and> digits_val b 0 (dec_digits n) = (n, [])"
  proof (cases "n = 0")
    case True
    then show ?thesis by (simp add: dec_digits_0 strtol_base_def digit_val_def)
  next
    case False
    then have c48: "(c = 48) = False" using c(4) by auto
    have "digits_val 10 0 (dec_digits n) = (n, [])" using digits_val_dec [of 0 n "[]"] by simp
    moreover have "strtol_base (c # r) = (10, c # r)"
      by (cases r; cases "tl r") (simp_all only: strtol_base_def list.case c48 simp_thms if_False list.sel)
    ultimately show ?thesis using c(1) by metis
  qed
  then obtain b where b: "strtol_base (c # r) = (b, c # r)" "digits_val b 0 (c # r) = (n, [])" unfolding c(1) by blast
  have dw': "dropWhile is_space (pre @ c # r) = pre @ c # r" using dw by (simp only: c(1))
  from assms(2) show ?thesis
  proof
    assume p: "pre = []"
    have "dropWhile is_space (c # r) = c # r" using dw' by (simp only: p append_Nil)
    then show ?thesis unfolding c(1) strtol_def p append_Nil Let_def using sign b by (simp only: list.case if_False if_True prod.case list.distinct simp_thms)
  next
    assume p: "pre = [45]"
    have "dropWhile is_space (45 # c # r) = 45 # c # r" using dw' by (simp only: p append_Cons append_Nil)
    then show ?thesis unfolding c(1) strtol_def p append_Cons append_Nil Let_def using b by (simp only: list.case if_False if_True prod.case list.distinct simp_thms)
  qed
qed

lemma not_space_digit: "48 \<le> unat c \<Longrightarrow> \<not> is_space c"
  by (auto simp: is_space_def)

lemma strtol_sprintf_d:
  assumes "- (2 ^ 31) \<le> v" "v < 2 ^ 31"
  shows "strtol (sprintf_d v) = (v, [])"
proof (cases "v < 0")
  case True
  have "strtol ([45] @ dec_digits (nat (- v))) = (max (- (2 ^ 31)) (- int (nat (- v))), [])"
    using strtol_dec [of "[45]"] by (simp add: is_space_def)
  then show ?thesis using True assms by (simp add: sprintf_d_def)
next
  case False
  have "\<not> is_space (hd (dec_digits (nat v)))" using dec_digits_hd [of "nat v"] not_space_digit by auto
  then have "strtol ([] @ dec_digits (nat v)) = (min (2 ^ 31 - 1) (int (nat v)), [])"
    using strtol_dec [of "[]" "nat v"] by simp
  then show ?thesis using False assms by (simp add: sprintf_d_def)
qed

lemma sprintf_d_buffer:
  assumes "- (2 ^ 31) \<le> v" "v < 2 ^ 31"
  shows "length (sprintf_d v) < 32" "view (sprintf_d v @ replicate (32 - length (sprintf_d v)) 0) = sprintf_d v"
proof -
  have "length (dec_digits (nat (- v))) \<le> Suc 9" "length (dec_digits (nat v)) \<le> Suc 9"
    using assms by (intro dec_digits_length; simp)+
  then show l: "length (sprintf_d v) < 32" by (auto simp: sprintf_d_def)
  have "0 \<notin> set (sprintf_d v)" using dec_digits_bytes by (auto simp: sprintf_d_def)
  moreover obtain k where "32 - length (sprintf_d v) = Suc k" using l by (metis Suc_diff_Suc)
  ultimately show "view (sprintf_d v @ replicate (32 - length (sprintf_d v)) 0) = sprintf_d v"
    using view_snoc [of "sprintf_d v" "replicate k 0"] by simp
qed

section \<open>Lookups\<close>

definition value_int :: "int \<Rightarrow> u8 list \<Rightarrow> int" where
  "value_int d s = (if snd (strtol s) = [] then fst (strtol s) else d)"

definition value_bool :: "bool \<Rightarrow> u8 list \<Rightarrow> bool" where
  "value_bool d s = (if s = view (c_string ''true'') then True else if s = view (c_string ''false'') then False else d)"

lemma config_reads:
  assumes o: "owns h (cf_cells T) F" "wf_cft T" "0 \<in> set sec" "key_ok sec key"
  defines "g \<equiv> store_get (cf_abs T) (view sec) (keyv sec key)"
  shows "nvrec_config_has_section (cf_addr T) sec h = Some (map_of (cf_abs T) (view sec) \<noteq> None)"
    "nvrec_config_has_key (cf_addr T) sec key h = Some (g \<noteq> None)"
    "nvrec_config_get_int (cf_addr T) sec key d h = Some (case g of None \<Rightarrow> d | Some s \<Rightarrow> value_int d s)"
    "nvrec_config_get_bool (cf_addr T) sec key bd h = Some (case g of None \<Rightarrow> bd | Some s \<Rightarrow> value_bool bd s)"
    "\<exists>p. nvrec_config_get_string (cf_addr T) sec key sd h = Some p \<and>
      (case g of None \<Rightarrow> p = sd | Some s \<Rightarrow> \<exists>b. get_bytes p h = Some b \<and> c_str b = Some s)"
proof -
  note s = section_find_ok [OF o(1-3)]
  show "nvrec_config_has_section (cf_addr T) sec h = Some (map_of (cf_abs T) (view sec) \<noteq> None)"
  proof (cases "find (\<lambda>s. sct_name s = view sec) (cf_secs T)")
    case None
    then show ?thesis using s by (simp add: nvrec_config_has_section_def cf_abs_def map_of_find)
  next
    case (Some t)
    then obtain pre post where "cf_secs T = pre @ t # post" by (rule find_SomeE) blast
    from sct_reads(2) [OF o(1) this] show ?thesis using s Some by (simp add: nvrec_config_has_section_def cf_abs_def map_of_find)
  qed
  note f = entry_find_ok [OF o]
  have g: "g = map_option (\<lambda>e. view (en_val e)) (lookup_ent T sec key)" unfolding g_def by (rule store_get_lookup)
  have tf: "0 \<in> set (c_string ''true'')" "0 \<in> set (c_string ''false'')" by (simp_all add: c_string_def)
  show "nvrec_config_has_key (cf_addr T) sec key h = Some (g \<noteq> None)"
    "nvrec_config_get_int (cf_addr T) sec key d h = Some (case g of None \<Rightarrow> d | Some s \<Rightarrow> value_int d s)"
    "nvrec_config_get_bool (cf_addr T) sec key bd h = Some (case g of None \<Rightarrow> bd | Some s \<Rightarrow> value_bool bd s)"
    "\<exists>p. nvrec_config_get_string (cf_addr T) sec key sd h = Some p \<and>
      (case g of None \<Rightarrow> p = sd | Some s \<Rightarrow> \<exists>b. get_bytes p h = Some b \<and> c_str b = Some s)"
    using s(3) f(1) f(2) tf
    by (cases "lookup_ent T sec key";
        simp add: g nvrec_config_has_key_def nvrec_config_get_int_def nvrec_config_get_bool_def nvrec_config_get_string_def
          c_str_view value_int_def value_bool_def strcmp_eq_view case_prod_unfold Let_def)+
qed

lemma store_get_set: "store_get (store_set s k v st) s' k' = (if s' = s \<and> k' = k then Some v else store_get st s' k')"
  by (auto simp: store_get_def store_set_def update_conv' split: option.splits)

definition store_size :: "store \<Rightarrow> nat" where
  "store_size st = 2 + sum_list (map (\<lambda>(n, es). 4 + 4 * length es) st)"

lemma cells_size: "length (cf_cells T) = store_size (cf_abs T)"
proof -
  have e: "length (concat (map ent_cells es)) = 3 * length es" for es by (induction es) (simp_all add: ent_cells_def)
  have s: "length (sct_cells s) = 3 + 4 * length (sc_ents s)" for s by (simp add: sct_cells_def list_cells_def e ent_items_def)
  have "length (concat (map sct_cells ss)) + length ss = sum_list (map (\<lambda>(n, es). 4 + 4 * length es) (map (\<lambda>s. (sct_name s, sct_abs s)) ss))" for ss
    by (induction ss) (simp_all add: s sct_abs_def)
  from this [of "cf_secs T"] show ?thesis
    by (simp add: cf_cells_def list_cells_def sct_items_def store_size_def cf_abs_def add.commute)
qed

lemma update_length: "length (AList.update k v xs) \<le> Suc (length xs)"
  by (induction xs) auto

lemma store_set_size: "store_size (store_set s k v st) \<le> store_size st + 8"
proof (induction st)
  case Nil
  then show ?case using update_length [of k v "[]"] by (simp add: store_size_def store_set_def)
next
  case (Cons x st)
  obtain n es where x: "x = (n, es)" by (cases x)
  show ?case
  proof (cases "n = s")
    case True
    then show ?thesis using update_length [of k v es] by (simp add: x store_size_def store_set_def)
  next
    case False
    then have "store_set s k v (x # st) = x # store_set s k v st" by (simp add: x store_set_def)
    then show ?thesis using Cons by (simp add: store_size_def)
  qed
qed


section \<open>Properties\<close>


lemma set_int_ok:
  assumes "owns h (cf_cells T) F" "wf_cft T" "alloc_ok K al" "card (dom h) + 8 \<le> K" "0 \<in> set sec" "key_ok sec key"
    "- (2 ^ 31) \<le> v" "v < 2 ^ 31"
  shows "\<exists>T' h'. nvrec_config_set_int al (cf_addr T) sec key v h = Some h' \<and> owns h' (cf_cells T') F \<and> wf_cft T' \<and>
       cf_addr T' = cf_addr T \<and> cf_abs T' = store_set (view sec) (keyv sec key) (sprintf_d v) (cf_abs T)"
proof -
  note b = sprintf_d_buffer [OF assms(7,8)]
  have "0 \<in> set (sprintf_d v @ replicate (32 - length (sprintf_d v)) 0)" using b(1) by simp
  from set_string_ok [OF assms(1-6) this] show ?thesis
    using section_find_ok(3) [OF assms(1,2,5)] by (simp add: nvrec_config_set_int_def b(2))
qed

text \<open>C35: Every 32-bit integer that is set is read back, whatever the default, and the integers of all other keys
  are read as before.\<close>

theorem nvrec_int_roundtrip:
  assumes "owns h (cf_cells T) F" "wf_cft T" "alloc_ok K al" "card (dom h) + 8 \<le> K" "0 \<in> set sec" "key_ok sec key"
    "- (2 ^ 31) \<le> v" "v < 2 ^ 31"
  shows "\<exists>h'. nvrec_config_set_int al (cf_addr T) sec key v h = Some h' \<and>
    nvrec_config_get_int (cf_addr T) sec key d h' = Some v \<and>
    (\<forall>sec2 key2. 0 \<in> set sec2 \<and> key_ok sec2 key2 \<and> (view sec2, keyv sec2 key2) \<noteq> (view sec, keyv sec key) \<longrightarrow>
       nvrec_config_get_int (cf_addr T) sec2 key2 d h' = nvrec_config_get_int (cf_addr T) sec2 key2 d h)"
proof -
  obtain T' h' where t: "nvrec_config_set_int al (cf_addr T) sec key v h = Some h'" "owns h' (cf_cells T') F" "wf_cft T'"
    "cf_addr T' = cf_addr T" "cf_abs T' = store_set (view sec) (keyv sec key) (sprintf_d v) (cf_abs T)"
    using set_int_ok [OF assms] by blast
  have "nvrec_config_get_int (cf_addr T) sec key d h' = Some v"
    using config_reads(3) [OF t(2,3) assms(5,6), of d] strtol_sprintf_d [OF assms(7,8)] by (simp add: t(4,5) store_get_set value_int_def)
  moreover have "nvrec_config_get_int (cf_addr T) sec2 key2 d h' = nvrec_config_get_int (cf_addr T) sec2 key2 d h"
    if "0 \<in> set sec2" "key_ok sec2 key2" "(view sec2, keyv sec2 key2) \<noteq> (view sec, keyv sec key)" for sec2 key2
    using config_reads(3) [OF t(2,3) that(1,2), of d] config_reads(3) [OF assms(1,2) that(1,2), of d] that(3)
    by (auto simp: t(4,5) store_get_set)
  ultimately show ?thesis using t(1) by blast
qed

text \<open>A client's calls in order.\<close>

fun set_strings :: "allocator \<Rightarrow> addr \<Rightarrow> (u8 list \<times> u8 list \<times> u8 list) list \<Rightarrow> nvheap \<Rightarrow> nvheap option" where
  "set_strings al c [] h = Some h"
| "set_strings al c ((sec, key, v) # ops) h = do { h \<leftarrow> nvrec_config_set_string al c sec key (Some v) h; set_strings al c ops h }"

lemma set_strings_ok:
  assumes "owns h (cf_cells T) F" "wf_cft T" "alloc_ok K al" "card (dom h) + 8 * length ops \<le> K"
    "\<forall>(sec, key, v) \<in> set ops. 0 \<in> set sec \<and> key_ok sec key \<and> 0 \<in> set v"
  shows "\<exists>T' h'. set_strings al (cf_addr T) ops h = Some h' \<and> owns h' (cf_cells T') F \<and> cf_addr T' = cf_addr T"
  using assms
proof (induction ops arbitrary: h T)
  case (Cons op ops)
  obtain sec key v where op: "op = (sec, key, v)" by (cases op)
  have room: "card (dom h) + 8 \<le> K" using Cons.prems(4) by simp
  have ok: "0 \<in> set sec" "key_ok sec key" "0 \<in> set v" using Cons.prems(5) op by auto
  obtain T' h' where t: "nvrec_config_set_string al (cf_addr T) sec key (Some v) h = Some h'" "owns h' (cf_cells T') F" "wf_cft T'"
    "cf_addr T' = cf_addr T" "cf_abs T' = store_set (view sec) (keyv sec key) (view v) (cf_abs T)"
    using set_string_ok [OF Cons.prems(1,2,3) room ok] by blast
  have "card (dom h') \<le> card (dom h) + 8"
    using owns_card [OF t(2)] owns_card [OF Cons.prems(1)] store_set_size by (simp add: cells_size t(5))
  then have "\<exists>T2 h2. set_strings al (cf_addr T') ops h' = Some h2 \<and> owns h2 (cf_cells T2) F \<and> cf_addr T2 = cf_addr T'"
    using Cons.prems(4,5) by (intro Cons.IH [OF t(2,3) Cons.prems(3)]) auto
  then show ?case using t(1,4) by (simp add: op)
qed auto

text \<open>C36: A configuration leaks nothing: creating one, any sequence of settings and freeing it returns the pool exactly to
  what it was, and on the way no block is freed twice or used after it was freed.\<close>

theorem nvrec_config_lifecycle:
  assumes "alloc_ok K al" "card (dom h) + 2 + 8 * length ops \<le> K"
    "\<forall>(sec, key, v) \<in> set ops. 0 \<in> set sec \<and> key_ok sec key \<and> 0 \<in> set v"
  shows "\<exists>c h1 h2. nvrec_config_new al h = Some (c, h1) \<and> set_strings al c ops h1 = Some h2 \<and> nvrec_config_free c h2 = Some h"
proof -
  have "card (dom h) + 2 \<le> K" using assms(2) by simp
  then obtain T h1 where t: "nvrec_config_new al h = Some (cf_addr T, h1)" "owns h1 (cf_cells T) h" "wf_cft T" "cf_abs T = []"
    using config_new_ok [OF assms(1)] by blast
  have "card (dom h1) = card (dom h) + 2" using owns_card [OF t(2)] by (simp add: cells_size t(4) store_size_def)
  then have "card (dom h1) + 8 * length ops \<le> K" using assms(2) by simp
  then obtain T' h2 where "set_strings al (cf_addr T) ops h1 = Some h2" "owns h2 (cf_cells T') h" "cf_addr T' = cf_addr T"
    using set_strings_ok [OF t(2,3) assms(1) _ assms(3)] by blast
  then show ?thesis using config_free_ok t(1) by metis
qed

section \<open>A run\<close>

definition run_ops :: "(u8 list \<times> u8 list \<times> u8 list) list" where
  "run_ops = [(c_string ''other'', c_string ''env'', c_string ''42''), (section_name_ddbrec, [1, 2, 0, 4, 5, 6, 0], c_string ''7'')]"

definition run_tree :: cft where
  "run_tree = \<lparr>cf_addr = 1, cf_list = 2, cf_secs = []\<rparr>"

lemma run_tree_owned: "owns (map_of (cf_cells run_tree)) (cf_cells run_tree) Map.empty" "wf_cft run_tree"
  by (simp_all add: owns_def run_tree_def cf_cells_def sct_items_def list_cells_def wf_cft_def)


lemma run_tree_room: "card (dom (map_of (cf_cells run_tree))) + 8 \<le> 63"
  using owns_card [OF run_tree_owned(1)] by (simp add: run_tree_def cf_cells_def sct_items_def list_cells_def)

lemma run_key: "0 \<in> set (c_string s)" "key_ok (c_string ''other'') (c_string s)" "key_ok section_name_ddbrec [1, 2, 0, 4, 5, 6, 0]"
proof -
  show z: "0 \<in> set (c_string s)" for s by (simp add: c_string_def)
  have "view (c_string ''other'') = map of_char ''other''" "view section_name_ddbrec = map of_char ''ddbrec''"
    by (simp_all add: c_string_def section_name_ddbrec_def view_def)
  then show "key_ok (c_string ''other'') (c_string s)" using z by (simp add: key_ok_def is_ddb_def)
  show "key_ok section_name_ddbrec [1, 2, 0, 4, 5, 6, 0]" by (simp add: key_ok_def is_ddb_def)
qed


theorem nvrec_int_roundtrip_witness:
  "\<exists>h'. nvrec_config_set_int first_fit 1 (c_string ''other'') (c_string ''env'') (-7) (map_of (cf_cells run_tree)) = Some h' \<and>
     nvrec_config_get_int 1 (c_string ''other'') (c_string ''env'') 0 h' = Some (-7)"
  using nvrec_int_roundtrip [OF run_tree_owned first_fit_ok run_tree_room run_key(1) run_key(2), of "-7" "''env''" 0]
  by (auto simp: run_tree_def)

theorem nvrec_config_lifecycle_witness:
  "\<exists>c h1 h2. nvrec_config_new first_fit Map.empty = Some (c, h1) \<and> set_strings first_fit c run_ops h1 = Some h2 \<and>
     nvrec_config_free c h2 = Some Map.empty"
  using nvrec_config_lifecycle [OF first_fit_ok, of Map.empty run_ops] run_key by (simp add: run_ops_def ddb_terminated)

end
