(* ===== verification/Nvrec_Ddb.thy ===== *)
theory Nvrec_Ddb
  imports Nvrec_Props
begin

text \<open>
  The database of paired devices, \<^verbatim>\<open>services/nvrecord/nvrecord.c\<close>: section \<^verbatim>\<open>ddbrec\<close> of the configuration, whose
  keys are device addresses and whose values are the addresses of records in the pool, written as decimal
  numbers. The head of its list is the oldest device, the tail the latest. A failed assertion, a null pointer
  that is read and a block that is freed twice are \<open>None\<close>. Built without \<^verbatim>\<open>LINK_KEY_ENCRYPT\<close> and
  \<^verbatim>\<open>BTIF_DIP_DEVICE\<close>; tracing is left out.
\<close>

section \<open>State\<close>

datatype bt_status = BT_STS_SUCCESS | BT_STS_FAILED | BT_STS_INVALID_PARM

datatype SECTIONS_ADP_ENUM = section_usrdata_ddbrecord | section_none

definition DDB_RECORD_NUM :: nat where "DDB_RECORD_NUM = 9"

record nv_state =
  nv_heap :: nvheap
  nv_config :: addr
  nv_is_update :: bool

text \<open>The pool with its free space, the size of a record and the default volumes, which the target sets.\<close>

record nv_pool =
  pl_malloc :: allocator
  pl_free_space :: "nvheap \<Rightarrow> nat"
  pl_rec_size :: nat
  pl_volume :: btdevice_volume

definition nv_record_update_runtime_userdata :: "nv_state \<Rightarrow> nv_state" where
  "nv_record_update_runtime_userdata s = (if nv_config s = 0 then s else s\<lparr>nv_is_update := True\<rparr>)"

definition nv_record_touch_cause_flush :: "nv_state \<Rightarrow> int \<times> nv_state" where
  "nv_record_touch_cause_flush s = (0, nv_record_update_runtime_userdata s)"

section \<open>Entries of the database\<close>

definition addr_key :: "u8 list \<Rightarrow> u8 list" where
  "addr_key a = take BTIF_BD_ADDR_SIZE a @ [0]"

definition config_entries_get_ddbrec_length :: "addr \<Rightarrow> u8 list \<Rightarrow> nvheap \<Rightarrow> u32 option" where
  "config_entries_get_ddbrec_length c secname h =
     (if c = 0 then Some 0
      else do {
        s \<leftarrow> nvrec_section_find c secname h;
        if s = 0 then Some 0 else do { S \<leftarrow> get_section s h; L \<leftarrow> get_list (ns_entries S) h; Some (lt_length L) } })"

text \<open>The key of the entry at address \<open>e\<close>, and the integer stored under it.\<close>

definition entry_key :: "addr \<Rightarrow> nvheap \<Rightarrow> u8 list option" where
  "entry_key e h = do { E \<leftarrow> get_entry e h; get_bytes (ne_key E) h }"

definition entry_recaddr :: "addr \<Rightarrow> addr \<Rightarrow> nvheap \<Rightarrow> addr option" where
  "entry_recaddr c e h = do {
     k \<leftarrow> entry_key e h;
     a \<leftarrow> nvrec_config_get_int c section_name_ddbrec k 0 h;
     Some (word_of_int a) }"

definition config_entries_ddbdev_delete_head :: "addr \<Rightarrow> nvheap \<Rightarrow> nvheap option" where
  "config_entries_ddbdev_delete_head c h = do {
     s \<leftarrow> nvrec_section_find c section_name_ddbrec h;
     check (s \<noteq> 0);
     S \<leftarrow> get_section s h;
     let l = ns_entries S;
     head \<leftarrow> list_begin_ext l h;
     if head = 0 then Some h
     else do {
       e \<leftarrow> list_node_ext head h;
       p \<leftarrow> entry_recaddr c e h;
       h \<leftarrow> pool_free p h;
       h \<leftarrow> nvrec_entry_free e h;
       n \<leftarrow> config_entries_get_ddbrec_length c section_name_ddbrec h;
       h \<leftarrow> (if n = 1 then do { L \<leftarrow> get_list l h; Some (h(l \<mapsto> LIST (L\<lparr>lt_head := 0, lt_tail := 0\<rparr>))) }
         else do { nx \<leftarrow> list_next_ext head h; L \<leftarrow> get_list l h; Some (h(l \<mapsto> LIST (L\<lparr>lt_head := nx\<rparr>))) });
       h \<leftarrow> pool_free head h;
       L \<leftarrow> get_list l h;
       Some (h(l \<mapsto> LIST (L\<lparr>lt_length := lt_length L - 1\<rparr>))) } }"

text \<open>\<open>n\<close> steps along the list.\<close>

primrec walk_nodes :: "nat \<Rightarrow> addr \<Rightarrow> nvheap \<Rightarrow> addr option" where
  "walk_nodes 0 node h = Some node"
| "walk_nodes (Suc n) node h = do { node \<leftarrow> list_next_ext node h; walk_nodes n node h }"

definition config_entries_ddbdev_delete_tail :: "addr \<Rightarrow> nvheap \<Rightarrow> nvheap option" where
  "config_entries_ddbdev_delete_tail c h = do {
     s \<leftarrow> nvrec_section_find c section_name_ddbrec h;
     check (s \<noteq> 0);
     S \<leftarrow> get_section s h;
     let l = ns_entries S;
     L \<leftarrow> get_list l h;
     let len = lt_length L - 1;
     let h = h(l \<mapsto> LIST (L\<lparr>lt_length := len\<rparr>));
     node \<leftarrow> list_begin_ext l h;
     node \<leftarrow> walk_nodes (unat len - 1) node h;
     tailnode \<leftarrow> list_next_ext node h;
     e \<leftarrow> list_node_ext tailnode h;
     p \<leftarrow> entry_recaddr c e h;
     h \<leftarrow> pool_free p h;
     h \<leftarrow> nvrec_entry_free e h;
     N \<leftarrow> get_node node h;
     let h = h(node \<mapsto> NODE (N\<lparr>ln_next := 0\<rparr>));
     h \<leftarrow> pool_free (ln_next N) h;
     L \<leftarrow> get_list l h;
     Some (h(l \<mapsto> LIST (L\<lparr>lt_tail := node\<rparr>))) }"

text \<open>The search of \<open>config_entries_ddbdev_delete\<close>: the node of the entry, or null, and its position from 1.\<close>

partial_function (option) delete_find_loop :: "u8 list \<Rightarrow> addr \<Rightarrow> nat \<Rightarrow> nvheap \<Rightarrow> (addr \<times> nat) option" where
  "delete_find_loop a node pos h =
     (if node = 0 then Some (0, pos)
      else do {
        e \<leftarrow> list_node_ext node h;
        k \<leftarrow> entry_key e h;
        eq \<leftarrow> memcmp_eq k a BTIF_BD_ADDR_SIZE;
        if eq then Some (node, pos + 1)
        else do { node \<leftarrow> list_next_ext node h; delete_find_loop a node (pos + 1) h } })"

definition config_entries_ddbdev_delete :: "addr \<Rightarrow> btif_device_record \<Rightarrow> nvheap \<Rightarrow> nvheap option" where
  "config_entries_ddbdev_delete c param_rec h = do {
     s \<leftarrow> nvrec_section_find c section_name_ddbrec h;
     check (s \<noteq> 0);
     S \<leftarrow> get_section s h;
     let l = ns_entries S;
     node \<leftarrow> list_begin_ext l h;
     (entry_del, pos) \<leftarrow> delete_find_loop (bdAddr param_rec) node 0 h;
     if entry_del = 0 then Some h
     else do {
       D \<leftarrow> get_node entry_del h;
       node \<leftarrow> list_begin_ext l h;
       entry_pre \<leftarrow> walk_nodes (pos - 1 - 1) node h;
       e \<leftarrow> list_node_ext entry_del h;
       p \<leftarrow> entry_recaddr c e h;
       check (p \<noteq> 0);
       h \<leftarrow> pool_free p h;
       h \<leftarrow> nvrec_entry_free e h;
       P \<leftarrow> get_node entry_pre h;
       h \<leftarrow> pool_free (ln_next P) h;
       P \<leftarrow> get_node entry_pre h;
       let h = h(entry_pre \<mapsto> NODE (P\<lparr>ln_next := ln_next D\<rparr>));
       L \<leftarrow> get_list l h;
       Some (h(l \<mapsto> LIST (L\<lparr>lt_length := lt_length L - 1\<rparr>))) } }"

definition config_entries_ddbdev_is_head :: "addr \<Rightarrow> btif_device_record \<Rightarrow> nvheap \<Rightarrow> bool option" where
  "config_entries_ddbdev_is_head c param_rec h = do {
     s \<leftarrow> nvrec_section_find c section_name_ddbrec h;
     check (s \<noteq> 0);
     S \<leftarrow> get_section s h;
     head \<leftarrow> list_begin_ext (ns_entries S) h;
     e \<leftarrow> list_node_ext head h;
     k \<leftarrow> entry_key e h;
     memcmp_eq k (bdAddr param_rec) BTIF_BD_ADDR_SIZE }"

partial_function (option) tail_entry_loop :: "addr \<Rightarrow> addr \<Rightarrow> nvheap \<Rightarrow> addr option" where
  "tail_entry_loop entry_temp node h =
     (if node = 0 then Some entry_temp
      else do { e \<leftarrow> list_node_ext node h; node \<leftarrow> list_next_ext node h; tail_entry_loop e node h })"

definition config_entries_ddbdev_is_tail :: "addr \<Rightarrow> btif_device_record \<Rightarrow> nvheap \<Rightarrow> bool option" where
  "config_entries_ddbdev_is_tail c param_rec h = do {
     s \<leftarrow> nvrec_section_find c section_name_ddbrec h;
     check (s \<noteq> 0);
     S \<leftarrow> get_section s h;
     node \<leftarrow> list_begin_ext (ns_entries S) h;
     e \<leftarrow> tail_entry_loop 0 node h;
     check (e \<noteq> 0);
     k \<leftarrow> entry_key e h;
     memcmp_eq k (bdAddr param_rec) BTIF_BD_ADDR_SIZE }"

definition config_specific_entry_value_delete :: "btif_device_record \<Rightarrow> nv_state \<Rightarrow> nv_state option" where
  "config_specific_entry_value_delete param_rec s = do {
     let c = nv_config s;
     hd \<leftarrow> config_entries_ddbdev_is_head c param_rec (nv_heap s);
     h \<leftarrow> (if hd then config_entries_ddbdev_delete_head c (nv_heap s)
       else do {
         tl \<leftarrow> config_entries_ddbdev_is_tail c param_rec (nv_heap s);
         if tl then config_entries_ddbdev_delete_tail c (nv_heap s)
         else config_entries_ddbdev_delete c param_rec (nv_heap s) });
     Some (nv_record_update_runtime_userdata (s\<lparr>nv_heap := h\<rparr>)) }"

section \<open>The interface\<close>

definition same_record :: "btif_device_record \<Rightarrow> btif_device_record \<Rightarrow> bool" where
  "same_record a b \<longleftrightarrow> bdAddr a = bdAddr b \<and> linkKey a = linkKey b \<and> trusted a = trusted b \<and> pinLen a = pinLen b \<and> keyType a = keyType b"

text \<open>The part of \<open>nv_record_ddbrec_add\<close> under \<open>is_flush\<close>.\<close>

definition ddbrec_store ::
  "nv_pool \<Rightarrow> btif_device_record \<Rightarrow> bool \<Rightarrow> btdevice_volume \<Rightarrow> btdevice_profile \<Rightarrow> nv_state \<Rightarrow> (bt_status \<times> nv_state) option" where
  "ddbrec_store pl param_rec ddbrec_exist vol plf s = do {
     let c = nv_config s;
     h \<leftarrow> (if pl_free_space pl (nv_heap s) < pl_rec_size pl then config_entries_ddbdev_delete_head c (nv_heap s) else Some (nv_heap s));
     let (p, h) = pool_malloc (pl_malloc pl) (pl_rec_size pl) h;
     if p = 0 then Some (BT_STS_FAILED, s\<lparr>nv_heap := h\<rparr>)
     else do {
       let h = h(p \<mapsto> RECORD \<lparr>nb_record = param_rec, nb_volume = vol, nb_profile = plf\<rparr>);
       let s = s\<lparr>nv_heap := h\<rparr>;
       s \<leftarrow> (if ddbrec_exist then config_specific_entry_value_delete param_rec s else Some s);
       n \<leftarrow> config_entries_get_ddbrec_length c section_name_ddbrec (nv_heap s);
       h \<leftarrow> (if n = of_nat DDB_RECORD_NUM then config_entries_ddbdev_delete_head c (nv_heap s) else Some (nv_heap s));
       h \<leftarrow> nvrec_config_set_int (pl_malloc pl) c section_name_ddbrec (addr_key (bdAddr param_rec)) (sint p) h;
       Some (BT_STS_SUCCESS, nv_record_update_runtime_userdata (s\<lparr>nv_heap := h\<rparr>)) } }"

definition nv_record_ddbrec_add :: "nv_pool \<Rightarrow> btif_device_record option \<Rightarrow> nv_state \<Rightarrow> (bt_status \<times> nv_state) option" where
  "nv_record_ddbrec_add pl param_rec s = (case param_rec of None \<Rightarrow> Some (BT_STS_FAILED, s)
     | Some r \<Rightarrow> do {
         let c = nv_config s;
         getint \<leftarrow> nvrec_config_get_int c section_name_ddbrec (addr_key (bdAddr r)) 0 (nv_heap s);
         if getint \<noteq> 0 then do {
           R \<leftarrow> get_record (word_of_int getint) (nv_heap s);
           keep \<leftarrow> (if same_record (nb_record R) r then config_entries_ddbdev_is_tail c r (nv_heap s) else Some False);
           if keep then Some (BT_STS_SUCCESS, s) else ddbrec_store pl r True (nb_volume R) (nb_profile R) s }
         else ddbrec_store pl r False (pl_volume pl) \<lparr>hfp_act = False, hsp_act = False, a2dp_act = False, a2dp_codectype = 0\<rparr> s })"

definition nv_record_add :: "nv_pool \<Rightarrow> SECTIONS_ADP_ENUM \<Rightarrow> btif_device_record option \<Rightarrow> nv_state \<Rightarrow> (bt_status \<times> nv_state) option" where
  "nv_record_add pl type record s =
     (if record = None \<or> type = section_none then Some (BT_STS_FAILED, s)
      else case type of section_usrdata_ddbrecord \<Rightarrow> nv_record_ddbrec_add pl record s | _ \<Rightarrow> Some (BT_STS_FAILED, s))"

text \<open>The reading calls return what they store in the caller's buffer; \<open>out\<close> is what it held.\<close>

definition nv_record_ddbrec_find :: "u8 list option \<Rightarrow> btif_device_record option \<Rightarrow> nv_state \<Rightarrow> (bt_status \<times> btif_device_record option) option" where
  "nv_record_ddbrec_find bd_ddr out s =
     (case (bd_ddr, out) of (Some a, Some _) \<Rightarrow>
        if nv_config s = 0 then Some (BT_STS_FAILED, out)
        else do {
          getint \<leftarrow> nvrec_config_get_int (nv_config s) section_name_ddbrec (addr_key a) 0 (nv_heap s);
          if getint = 0 then Some (BT_STS_FAILED, out)
          else do { R \<leftarrow> get_record (word_of_int getint) (nv_heap s); Some (BT_STS_SUCCESS, Some (nb_record R)) } }
      | _ \<Rightarrow> Some (BT_STS_FAILED, out))"

definition nv_record_btdevicerecord_find :: "u8 list option \<Rightarrow> addr option \<Rightarrow> nv_state \<Rightarrow> (int \<times> addr option) option" where
  "nv_record_btdevicerecord_find bd_ddr out s =
     (case (bd_ddr, out) of (Some a, Some _) \<Rightarrow>
        if nv_config s = 0 then Some (-1, out)
        else do {
          getint \<leftarrow> nvrec_config_get_int (nv_config s) section_name_ddbrec (addr_key a) 0 (nv_heap s);
          if getint = 0 then Some (-1, out) else Some (0, Some (word_of_int getint)) }
      | _ \<Rightarrow> Some (-1, out))"

text \<open>The setters take a pointer to a record, or to the volumes or the profiles inside one.\<close>

definition upd_record :: "addr \<Rightarrow> (nvrec_btdevicerecord \<Rightarrow> nvrec_btdevicerecord) \<Rightarrow> nvheap \<Rightarrow> nvheap option" where
  "upd_record p f h = do { R \<leftarrow> get_record p h; Some (h(p \<mapsto> RECORD (f R))) }"

definition nv_record_btdevicevolume_set_a2dp_vol :: "u8 \<Rightarrow> btdevice_volume \<Rightarrow> btdevice_volume" where
  "nv_record_btdevicevolume_set_a2dp_vol vol v = v\<lparr>a2dp_vol := vol\<rparr>"

definition nv_record_btdevicevolume_set_hfp_vol :: "u8 \<Rightarrow> btdevice_volume \<Rightarrow> btdevice_volume" where
  "nv_record_btdevicevolume_set_hfp_vol vol v = v\<lparr>hfp_vol := vol\<rparr>"

definition nv_record_btdevicerecord_set_a2dp_vol :: "addr \<Rightarrow> u8 \<Rightarrow> nvheap \<Rightarrow> nvheap option" where
  "nv_record_btdevicerecord_set_a2dp_vol p vol h = upd_record p (\<lambda>R. R\<lparr>nb_volume := (nb_volume R)\<lparr>a2dp_vol := vol\<rparr>\<rparr>) h"

definition nv_record_btdevicerecord_set_hfp_vol :: "addr \<Rightarrow> u8 \<Rightarrow> nvheap \<Rightarrow> nvheap option" where
  "nv_record_btdevicerecord_set_hfp_vol p vol h = upd_record p (\<lambda>R. R\<lparr>nb_volume := (nb_volume R)\<lparr>hfp_vol := vol\<rparr>\<rparr>) h"

definition nv_record_btdevicerecord_set_a2dp_profile_active_state :: "bool \<Rightarrow> btdevice_profile \<Rightarrow> btdevice_profile" where
  "nv_record_btdevicerecord_set_a2dp_profile_active_state b v = v\<lparr>a2dp_act := b\<rparr>"

definition nv_record_btdevicerecord_set_hfp_profile_active_state :: "bool \<Rightarrow> btdevice_profile \<Rightarrow> btdevice_profile" where
  "nv_record_btdevicerecord_set_hfp_profile_active_state b v = v\<lparr>hfp_act := b\<rparr>"

definition nv_record_btdevicerecord_set_hsp_profile_active_state :: "bool \<Rightarrow> btdevice_profile \<Rightarrow> btdevice_profile" where
  "nv_record_btdevicerecord_set_hsp_profile_active_state b v = v\<lparr>hsp_act := b\<rparr>"

definition nv_record_btdevicerecord_set_a2dp_profile_codec :: "u8 \<Rightarrow> btdevice_profile \<Rightarrow> btdevice_profile" where
  "nv_record_btdevicerecord_set_a2dp_profile_codec c v = v\<lparr>a2dp_codectype := c\<rparr>"

definition nv_record_ddbrec_delete :: "u8 list \<Rightarrow> nv_state \<Rightarrow> (bt_status \<times> nv_state) option" where
  "nv_record_ddbrec_delete bdaddr s = do {
     getint \<leftarrow> nvrec_config_get_int (nv_config s) section_name_ddbrec (addr_key bdaddr) 0 (nv_heap s);
     if getint = 0 then Some (BT_STS_FAILED, s)
     else do {
       R \<leftarrow> get_record (word_of_int getint) (nv_heap s);
       s \<leftarrow> config_specific_entry_value_delete (nb_record R) s;
       Some (BT_STS_SUCCESS, s) } }"

definition nv_record_enum_dev_records :: "nat \<Rightarrow> btif_device_record option \<Rightarrow> nv_state \<Rightarrow> (bt_status \<times> btif_device_record option) option" where
  "nv_record_enum_dev_records index out s =
     (if DDB_RECORD_NUM \<le> index \<or> out = None \<or> nv_config s = 0 then Some (BT_STS_FAILED, out)
      else do {
        sec \<leftarrow> nvrec_section_find (nv_config s) section_name_ddbrec (nv_heap s);
        if sec = 0 then Some (BT_STS_INVALID_PARM, out)
        else do {
          S \<leftarrow> get_section sec (nv_heap s);
          if ns_entries S = 0 then Some (BT_STS_INVALID_PARM, out)
          else do {
            L \<leftarrow> get_list (ns_entries S) (nv_heap s);
            if lt_length L = 0 \<or> unat (lt_length L) \<le> index then Some (BT_STS_FAILED, out)
            else do {
              node \<leftarrow> list_begin_ext (ns_entries S) (nv_heap s);
              node \<leftarrow> walk_nodes index node (nv_heap s);
              e \<leftarrow> list_node_ext node (nv_heap s);
              p \<leftarrow> entry_recaddr (nv_config s) e (nv_heap s);
              if p = 0 then Some (BT_STS_FAILED, out)
              else do { R \<leftarrow> get_record p (nv_heap s); Some (BT_STS_SUCCESS, Some (nb_record R)) } } } } })"

definition zero_record :: btif_device_record where
  "zero_record = \<lparr>bdAddr = replicate 6 0, trusted = False, linkKey = replicate 16 0, keyType = 0, pinLen = 0\<rparr>"

definition nv_record_enum_latest_two_paired_dev ::
  "btif_device_record option \<Rightarrow> btif_device_record option \<Rightarrow> nv_state \<Rightarrow>
   (int \<times> btif_device_record option \<times> btif_device_record option) option" where
  "nv_record_enum_latest_two_paired_dev record1 record2 s =
     (if record1 = None \<or> record2 = None then Some (-1, record1, record2)
      else do {
        sec \<leftarrow> nvrec_section_find (nv_config s) section_name_ddbrec (nv_heap s);
        if sec = 0 then Some (0, record1, record2)
        else do {
          S \<leftarrow> get_section sec (nv_heap s);
          if ns_entries S = 0 then Some (0, record1, record2)
          else do {
            L \<leftarrow> get_list (ns_entries S) (nv_heap s);
            let len = unat (lt_length L);
            if len = 0 then Some (0, record1, record2)
            else if len = 1 then do {
              (ret1, record1) \<leftarrow> nv_record_enum_dev_records 0 record1 s;
              Some (if ret1 = BT_STS_SUCCESS then 1 else -1, record1, record2) }
            else do {
              (ret1, record1) \<leftarrow> nv_record_enum_dev_records ((len - 1) mod 2 ^ 16) record1 s;
              (ret2, record2) \<leftarrow> nv_record_enum_dev_records ((len - 2) mod 2 ^ 16) record2 s;
              Some (if ret1 \<noteq> BT_STS_SUCCESS \<or> ret2 \<noteq> BT_STS_SUCCESS then (-1, Some zero_record, Some zero_record)
                    else (2, record1, record2)) } } } })"

definition nv_record_get_paired_dev_count :: "nv_state \<Rightarrow> int option" where
  "nv_record_get_paired_dev_count s = do {
     sec \<leftarrow> nvrec_section_find (nv_config s) section_name_ddbrec (nv_heap s);
     if sec = 0 then Some 0
     else do {
       S \<leftarrow> get_section sec (nv_heap s);
       if ns_entries S = 0 then Some 0
       else do { L \<leftarrow> get_list (ns_entries S) (nv_heap s); Some (sint (lt_length L)) } } }"

end
