(* ===== verification/Nvrec_Ddb_Rep.thy ===== *)
theory Nvrec_Ddb_Rep
  imports Nvrec_Ddb
begin

text \<open>
  What the heap of a device database consists of: the blocks of the configuration and one record per entry of
  section \<^verbatim>\<open>ddbrec\<close>, whose value is the address of the record. The reading calls of the database over it, and
  the value \<open>entry_recaddr\<close> of each entry.
\<close>

section \<open>Representation\<close>

type_synonym recs = "(addr \<times> nvrec_btdevicerecord) list"

definition rec_addr :: "nvrec_btdevicerecord \<Rightarrow> u8 list" where
  "rec_addr R = bdAddr (nb_record R)"

definition ddb_cells :: "recs \<Rightarrow> cells" where
  "ddb_cells rs = map (\<lambda>(p, R). (p, RECORD R)) rs"

definition ddb_entry :: "addr \<times> nvrec_btdevicerecord \<Rightarrow> u8 list \<times> u8 list" where
  "ddb_entry x = (rec_addr (snd x), sprintf_d (sint (fst x)))"

definition ddb_abs :: "store \<Rightarrow> (u8 list \<times> u8 list) list" where
  "ddb_abs st = (case map_of st (view section_name_ddbrec) of None \<Rightarrow> [] | Some es \<Rightarrow> es)"

definition ddb_ok :: "nv_state \<Rightarrow> cft \<Rightarrow> recs \<Rightarrow> nvheap \<Rightarrow> bool" where
  "ddb_ok s T rs F \<longleftrightarrow> owns (nv_heap s) (cf_cells T @ ddb_cells rs) F \<and> wf_cft T \<and> nv_config s = cf_addr T \<and>
     ddb_abs (cf_abs T) = map ddb_entry rs \<and> length rs \<le> DDB_RECORD_NUM"

lemma ddb_keys [simp]: "is_ddb section_name_ddbrec" "keyv section_name_ddbrec k = take 6 k"
  "key_ok section_name_ddbrec k \<longleftrightarrow> 6 \<le> length k"
  by (simp_all add: is_ddb_def keyv_def key_ok_def)

lemma addr_key: "length a = 6 \<Longrightarrow> take 6 (addr_key a) = a \<and> length (addr_key a) = 7"
  by (simp add: addr_key_def BTIF_BD_ADDR_SIZE_def)

lemma rec_value: "value_int 0 (sprintf_d (sint (p :: addr))) = sint p"
proof -
  have "- (2 ^ 31) \<le> sint p" "sint p < 2 ^ 31" using sint_greater_eq [of p] sint_less [of p] by simp_all
  from strtol_sprintf_d [OF this] show ?thesis by (simp add: value_int_def)
qed

text \<open>The section of the database at \<open>s\<close>, readable in heap \<open>h\<close>.\<close>

definition sec_at :: "nvheap \<Rightarrow> cft \<Rightarrow> sct list \<Rightarrow> sct \<Rightarrow> sct list \<Rightarrow> bool" where
  "sec_at h T pre s post \<longleftrightarrow> cf_secs T = pre @ s # post \<and> wf_cft T \<and> sct_name s = view section_name_ddbrec \<and> holds h (sec_skel T)"

lemma find_mid: "\<forall>y \<in> set pre. \<not> P y \<Longrightarrow> P x \<Longrightarrow> find P (pre @ x # post) = Some x"
  by (induction pre) auto

lemma sec_at_find:
  assumes "sec_at h T pre s post"
  shows "find (\<lambda>s. sct_name s = view section_name_ddbrec) (cf_secs T) = Some s"
proof -
  have "distinct (map sct_name (pre @ s # post))" "sct_name s = view section_name_ddbrec" using assms by (auto simp only: sec_at_def wf_cft_def)
  then have "\<forall>x \<in> set pre. sct_name x \<noteq> view section_name_ddbrec" by (auto simp: image_iff)
  then show ?thesis using assms find_mid [of pre _ s post] by (simp add: sec_at_def)
qed

lemma sec_at_reads:
  assumes "sec_at h T pre s post"
  shows "nvrec_section_find (cf_addr T) section_name_ddbrec h = Some (sc_addr s)" "sc_addr s \<noteq> 0" "cf_addr T \<noteq> 0"
    "get_section (sc_addr s) h = Some \<lparr>ns_name = sc_np s, ns_entries = sc_list s\<rparr>"
proof -
  have a: "cf_secs T = pre @ s # post" "wf_cft T" "holds h (sec_skel T)" using assms by (simp_all add: sec_at_def)
  note f = section_find_holds [OF a(3,2) ddb_terminated]
  show "nvrec_section_find (cf_addr T) section_name_ddbrec h = Some (sc_addr s)" "cf_addr T \<noteq> 0"
    using f(1,3) sec_at_find [OF assms] by simp_all
  show "sc_addr s \<noteq> 0" "get_section (sc_addr s) h = Some \<lparr>ns_name = sc_np s, ns_entries = sc_list s\<rparr>"
    using sec_reads [OF a(3,1)] by simp_all
qed

text \<open>Entries that are readable from the head of the list on.\<close>

definition ents_at :: "nvheap \<Rightarrow> sct \<Rightarrow> bool" where
  "ents_at h s \<longleftrightarrow> list_begin_ext (sc_list s) h = Some (first_node 0 (ent_items (sc_ents s))) \<and> holds h (ent_skel (sc_ents s))"

lemma get_int_at:
  assumes "sec_at h T pre s post" "ents_at h s" "6 \<le> length key"
  shows "nvrec_config_get_int (cf_addr T) section_name_ddbrec key d h =
    Some (case find (\<lambda>e. take 6 (en_key e) = take 6 key) (sc_ents s) of None \<Rightarrow> d | Some e \<Rightarrow> value_int d (view (en_val e)))"
proof -
  note r = sec_at_reads [OF assms(1)]
  have s: "wf_sct s" "view section_name_ddbrec = view (sc_name s)" using assms(1) by (simp_all add: sec_at_def wf_cft_def sct_name_def)
  have k: "ent_key (sc_name s) e = take 6 (en_key e)" for e using keyv_cong(1) [OF s(2)] by (simp add: ent_key_def flip: ddb_keys(2))
  have "entry_find_loop section_name_ddbrec key (first_node 0 (ent_items (sc_ents s))) h =
      Some (case find (\<lambda>e. ent_key (sc_name s) e = keyv section_name_ddbrec key) (sc_ents s) of None \<Rightarrow> 0 | Some e \<Rightarrow> en_addr e)"
    by (rule entry_loop_ok [of h "sc_ents s" "[]"]) (use assms(2,3) s ddb_terminated in \<open>simp_all add: ents_at_def wf_sct_def\<close>)
  then have find: "nvrec_entry_find (cf_addr T) section_name_ddbrec key h =
      Some (case find (\<lambda>e. take 6 (en_key e) = take 6 key) (sc_ents s) of None \<Rightarrow> 0 | Some e \<Rightarrow> en_addr e)"
    using r assms(2) by (simp add: nvrec_entry_find_def ents_at_def k)
  show ?thesis
  proof (cases "find (\<lambda>e. take 6 (en_key e) = take 6 key) (sc_ents s)")
    case None
    then show ?thesis using find r(3) by (simp add: nvrec_config_get_int_def)
  next
    case (Some e)
    then obtain epre epost where e: "sc_ents s = epre @ e # epost" by (rule find_SomeE)
    have "holds h (ent_skel (sc_ents s))" using assms(2) by (simp add: ents_at_def)
    note re = ent_reads [OF this e]
    have "0 \<in> set (en_val e)" using s(1) e by (simp add: wf_sct_def wf_ent_def)
    then show ?thesis using find r(3) Some re by (simp add: nvrec_config_get_int_def c_str_view value_int_def case_prod_unfold Let_def)
  qed
qed

text \<open>The entries of a section and the records they stand for.\<close>

definition ent_rel :: "ent \<Rightarrow> addr \<times> nvrec_btdevicerecord \<Rightarrow> bool" where
  "ent_rel e x \<longleftrightarrow> take 6 (en_key e) = rec_addr (snd x) \<and> view (en_val e) = sprintf_d (sint (fst x))"

abbreviation ents_rel :: "ent list \<Rightarrow> recs \<Rightarrow> bool" where
  "ents_rel \<equiv> list_all2 ent_rel"

lemma ents_rel_map: "ents_rel es rs \<longleftrightarrow> map (\<lambda>e. (take 6 (en_key e), view (en_val e))) es = map ddb_entry rs"
proof -
  have "map (\<lambda>e. (take 6 (en_key e), view (en_val e))) es = map ddb_entry rs \<longleftrightarrow>
      list_all2 (\<lambda>e x. (take 6 (en_key e), view (en_val e)) = ddb_entry x) es rs"
    by (simp only: list.rel_map list.rel_eq [symmetric])
  then show ?thesis by (simp add: ent_rel_def [abs_def] ddb_entry_def)
qed

lemma ents_rel_find:
  assumes "ents_rel es rs"
  shows "(case find (\<lambda>e. take 6 (en_key e) = a) es of None \<Rightarrow> 0 | Some e \<Rightarrow> value_int 0 (view (en_val e))) =
    (case find (\<lambda>x. rec_addr (snd x) = a) rs of None \<Rightarrow> 0 | Some x \<Rightarrow> sint (fst x))"
  using assms by (induction es rs rule: list_all2_induct) (auto simp: ent_rel_def rec_value)


section \<open>Walking the list\<close>

lemma find_distinct: "distinct (map f xs) \<Longrightarrow> x \<in> set xs \<Longrightarrow> find (\<lambda>y. f y = f x) xs = Some x"
  by (induction xs) (auto simp: image_iff)

lemma entry_at:
  assumes "sec_at h T pre s post" "ents_at h s" "sc_ents s = epre @ e # epost"
  shows "entry_key (en_addr e) h = Some (en_key e)" "6 \<le> length (en_key e)" "en_addr e \<noteq> 0" "en_node e \<noteq> 0"
    "list_node_ext (en_node e) h = Some (en_addr e)" "list_next_ext (en_node e) h = Some (first_node 0 (ent_items epost))"
    "ent_rel e x \<Longrightarrow> entry_recaddr (cf_addr T) (en_addr e) h = Some (fst x)"
proof -
  have h: "holds h (ent_skel (sc_ents s))" and w: "wf_sct s" and v: "view (sc_name s) = view section_name_ddbrec"
    using assms(1,2) by (simp_all add: ents_at_def sec_at_def wf_cft_def sct_name_def)
  note r = ent_reads [OF h assms(3)]
  show k: "entry_key (en_addr e) h = Some (en_key e)" using r by (simp add: entry_key_def)
  show "en_addr e \<noteq> 0" "en_node e \<noteq> 0" "list_node_ext (en_node e) h = Some (en_addr e)"
    "list_next_ext (en_node e) h = Some (first_node 0 (ent_items epost))" using r by simp_all
  show l: "6 \<le> length (en_key e)"
    using w keyv_cong(2) [OF v] by (simp add: assms(3) wf_sct_def wf_ent_def)
  have "ent_key (sc_name s) = (\<lambda>e. take 6 (en_key e))" using keyv_cong(1) [OF v] by (simp add: fun_eq_iff ent_key_def)
  then have "distinct (map (\<lambda>e. take 6 (en_key e)) (sc_ents s))" using w by (simp add: wf_sct_def)
  then have "find (\<lambda>y. take 6 (en_key y) = take 6 (en_key e)) (sc_ents s) = Some e"
    using find_distinct [of "\<lambda>e. take 6 (en_key e)" "sc_ents s" e] assms(3) by simp
  then show "ent_rel e x \<Longrightarrow> entry_recaddr (cf_addr T) (en_addr e) h = Some (fst x)"
    using get_int_at [OF assms(1,2) l, of 0] k by (simp add: entry_recaddr_def ent_rel_def rec_value)
qed

lemma walk_nodes_ok: "holds h (node_cells q (xs @ ys)) \<Longrightarrow> walk_nodes (length xs) (first_node q (xs @ ys)) h = Some (first_node q ys)"
proof (induction xs)
  case (Cons x xs)
  obtain a d where x: "x = (a, d)" by (cases x)
  have "holds h (node_cells q ([] @ (a, d) # xs @ ys))" using Cons.prems by (simp add: x)
  note n = node_holds [OF this]
  have "holds h (node_cells q (xs @ ys))" using Cons.prems by (rule holds_mono) (auto simp: x)
  then show ?case using Cons.IH n by (simp add: x)
qed simp

lemma ents_at_nodes: "ents_at h s \<Longrightarrow> holds h (node_cells 0 (ent_items (sc_ents s)))"
  unfolding ents_at_def by (rule holds_mono) (auto simp: ent_skel_def)

lemma tail_loop_ok:
  "holds h (node_cells 0 xs) \<Longrightarrow> tail_entry_loop acc (first_node 0 xs) h = Some (if xs = [] then acc else snd (last xs))"
proof (induction xs arbitrary: acc)
  case (Cons x xs)
  obtain a d where x: "x = (a, d)" by (cases x)
  have "holds h (node_cells 0 ([] @ (a, d) # xs))" using Cons.prems by (simp add: x)
  note n = node_holds [OF this]
  have "holds h (node_cells 0 xs)" using Cons.prems by (rule holds_mono) (auto simp: x)
  then show ?case using Cons.IH n by (simp add: x tail_entry_loop.simps [of _ a])
qed (simp add: tail_entry_loop.simps)

lemma memcmp_addr: "6 \<le> length k \<Longrightarrow> length a = 6 \<Longrightarrow> memcmp_eq k a BTIF_BD_ADDR_SIZE = Some (take 6 k = a)"
  by (simp add: memcmp_eq_def BTIF_BD_ADDR_SIZE_def)

lemma is_head_ok:
  assumes "sec_at h T pre s post" "ents_at h s" "ents_rel (sc_ents s) rs" "rs \<noteq> []" "length (bdAddr r) = 6"
  shows "config_entries_ddbdev_is_head (cf_addr T) r h = Some (rec_addr (snd (hd rs)) = bdAddr r)"
proof -
  obtain e es x xs where x: "sc_ents s = [] @ e # es" "rs = x # xs" "ent_rel e x"
    using assms(3,4) by (metis append_Nil list.rel_cases)
  show ?thesis using sec_at_reads [OF assms(1)] entry_at [OF assms(1,2) x(1)] x(2,3) assms(2,5)
    by (simp add: config_entries_ddbdev_is_head_def memcmp_addr x(1) ents_at_def ent_rel_def ent_items_def)
qed

lemma is_tail_ok:
  assumes "sec_at h T pre s post" "ents_at h s" "ents_rel (sc_ents s) rs" "rs \<noteq> []" "length (bdAddr r) = 6"
  shows "config_entries_ddbdev_is_tail (cf_addr T) r h = Some (rec_addr (snd (last rs)) = bdAddr r)"
proof -
  obtain xs x where r: "rs = xs @ [x]" using assms(4) rev_exhaust by blast
  then obtain es e where x: "sc_ents s = es @ e # []" "ent_rel e x"
    using assms(3) by (auto simp: list_all2_append2 list_all2_Cons2)
  have "tail_entry_loop 0 (first_node 0 (ent_items (sc_ents s))) h = Some (en_addr e)"
    using tail_loop_ok [OF ents_at_nodes [OF assms(2)]] by (simp add: x(1) ent_items_def)
  then show ?thesis using sec_at_reads [OF assms(1)] entry_at [OF assms(1,2) x(1)] x(2) assms(2,5)
    by (simp add: config_entries_ddbdev_is_tail_def memcmp_addr ents_at_def ent_rel_def r)
qed

lemma ddbrec_length_ok:
  assumes "sec_at h T pre s post" "get_list (sc_list s) h = Some L"
  shows "config_entries_get_ddbrec_length (cf_addr T) section_name_ddbrec h = Some (lt_length L)"
  using sec_at_reads [OF assms(1)] assms(2) by (simp add: config_entries_get_ddbrec_length_def)

lemma delete_find_ok:
  assumes "sec_at h T pre s post" "ents_at h s" "length a = 6" "sc_ents s = es1 @ es2"
  shows "delete_find_loop a (first_node 0 (ent_items es2)) n h =
    (case find (\<lambda>e. take 6 (en_key e) = a) es2 of None \<Rightarrow> Some (0, n + length es2)
     | Some e \<Rightarrow> Some (en_node e, n + length (takeWhile (\<lambda>e. take 6 (en_key e) \<noteq> a) es2) + 1))"
  using assms(4)
proof (induction es2 arbitrary: es1 n)
  case Nil
  then show ?case by (simp add: delete_find_loop.simps ent_items_def)
next
  case (Cons e es)
  note r = entry_at [OF assms(1,2) Cons.prems]
  have "delete_find_loop a (first_node 0 (ent_items es)) (n + 1) h =
    (case find (\<lambda>e. take 6 (en_key e) = a) es of None \<Rightarrow> Some (0, n + 1 + length es)
     | Some e \<Rightarrow> Some (en_node e, n + 1 + length (takeWhile (\<lambda>e. take 6 (en_key e) \<noteq> a) es) + 1))"
    by (rule Cons.IH [of "es1 @ [e]"]) (use Cons.prems in simp)
  then show ?case using r assms(3)
    by (simp add: delete_find_loop.simps [of a "en_node e"] ent_items_def memcmp_addr split: option.split)
qed

end
