(* ===== verification/Nvrec_Ddb_Del.thy ===== *)
theory Nvrec_Ddb_Del
  imports Nvrec_Ddb_Rep
begin

text \<open>
  Deleting a device: each of the three ways to unlink an entry (at the head, at the tail, in between) releases
  its record, its key, its value and its node, keeps the other entries in their order and the list well formed.
\<close>

section \<open>Unlinking a node\<close>

abbreviation lst :: "addr \<Rightarrow> list_t \<Rightarrow> (addr \<times> addr) list \<Rightarrow> cells" where
  "lst l L xs \<equiv> (l, LIST L) # node_cells 0 xs"

lemma one_node: "owns h (list_cells l cb ((a, d) # xs) @ cs) F \<Longrightarrow> (of_nat (length ((a, d) # xs)) :: u32) = 1 \<longleftrightarrow> xs = []"
proof -
  assume "owns h (list_cells l cb ((a, d) # xs) @ cs) F"
  then have "length ((a, d) # xs) < 2 ^ 32" by (rule list_length_bound)
  then have "(of_nat (length ((a, d) # xs)) :: u32) = of_nat 1 \<longleftrightarrow> length ((a, d) # xs) = 1"
    unfolding word_of_nat_eq_iff by (simp add: take_bit_nat_eq_self del: length_Cons)
  then show ?thesis by simp
qed

lemma owns_head_list: "owns h ((l, LIST L) # cs) F \<Longrightarrow> get_list l h = Some L"
  using owns_read [of h "(l, LIST L) # cs" F l "LIST L"] by (simp add: heap_simps)

lemma unlink_head:
  assumes "owns h (list_cells l cb ((a, d) # xs) @ cs) F"
  shows "\<exists>h1 h2 L. (if of_nat (length ((a, d) # xs)) = (1 :: u32)
      then do { L \<leftarrow> get_list l h; Some (h(l \<mapsto> LIST (L\<lparr>lt_head := 0, lt_tail := 0\<rparr>))) }
      else do { nx \<leftarrow> list_next_ext a h; L \<leftarrow> get_list l h; Some (h(l \<mapsto> LIST (L\<lparr>lt_head := nx\<rparr>))) }) = Some h1 \<and>
    pool_free a h1 = Some h2 \<and> get_list l h2 = Some L \<and>
    owns (h2(l \<mapsto> LIST (L\<lparr>lt_length := lt_length L - 1\<rparr>))) (list_cells l cb xs @ cs) F"
proof -
  let ?L = "\<lparr>lt_head = first_node 0 xs, lt_tail = last_node xs, lt_length = of_nat (length ((a, d) # xs)), lt_free_cb = cb\<rparr>"
  have n: "list_next_ext a h = Some (first_node 0 xs)"
    using owns_node [of h l cb "[]" a d xs cs F] assms by (simp add: list_next_ext_def)
  have g: "get_list l h = Some \<lparr>lt_head = a, lt_tail = last_node ((a, d) # xs), lt_length = of_nat (length ((a, d) # xs)), lt_free_cb = cb\<rparr>"
    using owns_list(2) [OF assms] by simp
  define h1 where "h1 = h(l \<mapsto> LIST ?L)"
  have "owns h1 ([] @ (l, LIST ?L) # node_cells 0 ((a, d) # xs) @ cs) F"
    unfolding h1_def using assms by (intro owns_write [where ob = "LIST \<lparr>lt_head = a, lt_tail = last_node ((a, d) # xs), lt_length = of_nat (length ((a, d) # xs)), lt_free_cb = cb\<rparr>"])
      (simp add: list_cells_def)
  then have "owns h1 ([(l, LIST ?L)] @ (a, NODE \<lparr>ln_next = first_node 0 xs, ln_data = d\<rparr>) # node_cells 0 xs @ cs) F" by simp
  note f = pool_free_owned [OF this]
  then have "owns (h1(a := None)) ((l, LIST ?L) # node_cells 0 xs @ cs) F" by simp
  note g2 = owns_head_list [OF this]
  have "owns ((h1(a := None))(l \<mapsto> LIST (?L\<lparr>lt_length := lt_length ?L - 1\<rparr>))) ([] @ (l, LIST (?L\<lparr>lt_length := lt_length ?L - 1\<rparr>)) # node_cells 0 xs @ cs) F"
    by (rule owns_write [where ob = "LIST ?L"]) (use f in simp)
  then have o: "owns ((h1(a := None))(l \<mapsto> LIST (?L\<lparr>lt_length := lt_length ?L - 1\<rparr>))) (list_cells l cb xs @ cs) F"
    by (simp add: list_cells_def)
  have s: "(if of_nat (length ((a, d) # xs)) = (1 :: u32)
      then do { L \<leftarrow> get_list l h; Some (h(l \<mapsto> LIST (L\<lparr>lt_head := 0, lt_tail := 0\<rparr>))) }
      else do { nx \<leftarrow> list_next_ext a h; L \<leftarrow> get_list l h; Some (h(l \<mapsto> LIST (L\<lparr>lt_head := nx\<rparr>))) }) = Some h1"
    using g n unfolding one_node [OF assms] h1_def by (cases "xs = []") (simp_all add: last_node_def)
  show ?thesis using s f g2 o by blast
qed

lemma unlink_tail:
  assumes "owns h (lst l L (xs @ [(b, f), (a, d)]) @ cs) F"
  shows "get_node b h = Some \<lparr>ln_next = a, ln_data = f\<rparr>"
    "\<exists>h2. pool_free a (h(b \<mapsto> NODE \<lparr>ln_next = 0, ln_data = f\<rparr>)) = Some h2 \<and> get_list l h2 = Some L \<and>
       owns (h2(l \<mapsto> LIST (L\<lparr>lt_tail := b\<rparr>))) (lst l (L\<lparr>lt_tail := b\<rparr>) (xs @ [(b, f)]) @ cs) F"
proof -
  let ?B = "\<lambda>n. (b, NODE \<lparr>ln_next = n, ln_data = f\<rparr>)"
  have o: "owns h (((l, LIST L) # node_cells b xs) @ ?B a # [(a, NODE \<lparr>ln_next = 0, ln_data = d\<rparr>)] @ cs) F"
    using assms by (simp add: node_cells_append)
  show "get_node b h = Some \<lparr>ln_next = a, ln_data = f\<rparr>" using owns_read [OF o, of b "snd (?B a)"] by (simp add: heap_simps)
  define h1 where "h1 = h(b \<mapsto> NODE \<lparr>ln_next = 0, ln_data = f\<rparr>)"
  have "owns h1 (((l, LIST L) # node_cells b xs) @ ?B 0 # [(a, NODE \<lparr>ln_next = 0, ln_data = d\<rparr>)] @ cs) F"
    unfolding h1_def by (rule owns_write [OF o])
  then have "owns h1 (((l, LIST L) # node_cells b xs @ [?B 0]) @ (a, NODE \<lparr>ln_next = 0, ln_data = d\<rparr>) # cs) F" by simp
  note fr = pool_free_owned [OF this]
  then have o1: "owns (h1(a := None)) ((l, LIST L) # (node_cells b xs @ [?B 0]) @ cs) F" by simp
  have "owns ((h1(a := None))(l \<mapsto> LIST (L\<lparr>lt_tail := b\<rparr>))) ([] @ (l, LIST (L\<lparr>lt_tail := b\<rparr>)) # (node_cells b xs @ [?B 0]) @ cs) F"
    by (rule owns_write [where ob = "LIST L"]) (use o1 in simp)
  then show "\<exists>h2. pool_free a (h(b \<mapsto> NODE \<lparr>ln_next = 0, ln_data = f\<rparr>)) = Some h2 \<and> get_list l h2 = Some L \<and>
       owns (h2(l \<mapsto> LIST (L\<lparr>lt_tail := b\<rparr>))) (lst l (L\<lparr>lt_tail := b\<rparr>) (xs @ [(b, f)]) @ cs) F"
    using fr owns_head_list [OF o1] unfolding h1_def [symmetric] by (intro exI [of _ "h1(a := None)"]) (simp add: node_cells_append)
qed

lemma unlink_after:
  assumes "owns h (lst l L (xs @ (b, f) # (a, d) # ys) @ cs) F"
  defines "h' \<equiv> (h(a := None))(b \<mapsto> NODE \<lparr>ln_next = first_node 0 ys, ln_data = f\<rparr>)"
  shows "get_node b h = Some \<lparr>ln_next = a, ln_data = f\<rparr>" "pool_free a h = Some (h(a := None))"
    "get_node b (h(a := None)) = Some \<lparr>ln_next = a, ln_data = f\<rparr>" "get_list l h' = Some L"
    "owns (h'(l \<mapsto> LIST L')) (lst l L' (xs @ (b, f) # ys) @ cs) F"
proof -
  let ?B = "\<lambda>n. (b, NODE \<lparr>ln_next = n, ln_data = f\<rparr>)"
  have o: "owns h (((l, LIST L) # node_cells b xs @ [?B a]) @ (a, NODE \<lparr>ln_next = first_node 0 ys, ln_data = d\<rparr>) # node_cells 0 ys @ cs) F"
    using assms by (simp add: node_cells_append)
  show "get_node b h = Some \<lparr>ln_next = a, ln_data = f\<rparr>" using owns_read [OF o, of b "snd (?B a)"] by (simp add: heap_simps)
  note fr = pool_free_owned [OF o]
  show "pool_free a h = Some (h(a := None))" using fr by simp
  have o1: "owns (h(a := None)) (((l, LIST L) # node_cells b xs) @ ?B a # node_cells 0 ys @ cs) F" using fr by simp
  show "get_node b (h(a := None)) = Some \<lparr>ln_next = a, ln_data = f\<rparr>" using owns_read [OF o1, of b "snd (?B a)"] by (simp add: heap_simps)
  have o2: "owns h' ([] @ (l, LIST L) # node_cells b xs @ ?B (first_node 0 ys) # node_cells 0 ys @ cs) F"
    unfolding h'_def using owns_write [OF o1, of "snd (?B (first_node 0 ys))"] by simp
  show "get_list l h' = Some L" using owns_read [OF o2, of l "LIST L"] by (simp add: heap_simps)
  show "owns (h'(l \<mapsto> LIST L')) (lst l L' (xs @ (b, f) # ys) @ cs) F"
    using owns_write [OF o2, of "LIST L'"] by (simp add: node_cells_append)
qed


section \<open>The database in a heap\<close>

definition ddb_view :: "nvheap \<Rightarrow> cft \<Rightarrow> sct list \<Rightarrow> sct \<Rightarrow> sct list \<Rightarrow> recs \<Rightarrow> nvheap \<Rightarrow> bool" where
  "ddb_view h T pre s post rs F \<longleftrightarrow> cf_secs T = pre @ s # post \<and> wf_cft T \<and> sct_name s = view section_name_ddbrec \<and>
     ents_rel (sc_ents s) rs \<and> owns h (cf_cells T @ ddb_cells rs) F"

lemma view_at:
  assumes "ddb_view h T pre s post rs F"
  shows "sec_at h T pre s post" "ents_at h s"
    "get_list (sc_list s) h = Some \<lparr>lt_head = first_node 0 (ent_items (sc_ents s)), lt_tail = last_node (ent_items (sc_ents s)),
      lt_length = of_nat (length (sc_ents s)), lt_free_cb = Some NVREC_ENTRY_FREE\<rparr>"
proof -
  have a: "cf_secs T = pre @ s # post" "owns h (cf_cells T) (F ++ map_of (ddb_cells rs))"
    using assms owns_part by (auto simp: ddb_view_def)
  show "sec_at h T pre s post" using assms owns_holds [OF a(2) skel_subset(1)] by (simp add: ddb_view_def sec_at_def)
  note r = sct_reads [OF a(2,1)]
  show "ents_at h s" using r(8) sct_begin [OF r(7)] by (simp add: ents_at_def)
  show "get_list (sc_list s) h = Some \<lparr>lt_head = first_node 0 (ent_items (sc_ents s)), lt_tail = last_node (ent_items (sc_ents s)),
      lt_length = of_nat (length (sc_ents s)), lt_free_cb = Some NVREC_ENTRY_FREE\<rparr>"
    by (rule owns_head_list [OF owns_perm [OF r(7)],
        of _ _ "node_cells 0 (ent_items (sc_ents s)) @ [(sc_addr s, SECTION \<lparr>ns_name = sc_np s, ns_entries = sc_list s\<rparr>), (sc_np s, BYTES (sc_name s))] @
          concat (map ent_cells (sc_ents s))"]) (auto simp: sct_cells_def list_cells_def ent_items_def)
qed

text \<open>All of it but the list of entries, with the entries \<open>es\<close> and the records \<open>rs\<close>.\<close>

definition ddb_rest :: "cft \<Rightarrow> sct list \<Rightarrow> sct \<Rightarrow> sct list \<Rightarrow> ent list \<Rightarrow> recs \<Rightarrow> cells" where
  "ddb_rest T pre s post es rs = [(cf_addr T, CONFIG \<lparr>nc_sections = cf_list T\<rparr>)] @
     list_cells (cf_list T) (Some NVREC_SECTION_FREE) (sct_items (cf_secs T)) @
     [(sc_addr s, SECTION \<lparr>ns_name = sc_np s, ns_entries = sc_list s\<rparr>), (sc_np s, BYTES (sc_name s))] @
     concat (map ent_cells es) @ concat (map sct_cells (pre @ post)) @ ddb_cells rs"

abbreviation ent_list :: "sct \<Rightarrow> ent list \<Rightarrow> cells" where
  "ent_list s es \<equiv> list_cells (sc_list s) (Some NVREC_ENTRY_FREE) (ent_items es)"

lemma view_split:
  assumes "ddb_view h T pre s post (rpre @ (p, R) # rpost) F" "sc_ents s = epre @ e # epost"
  shows "owns h ((p, RECORD R) # ent_cells e @ ent_list s (sc_ents s) @ ddb_rest T pre s post (epre @ epost) (rpre @ rpost)) F"
proof -
  have "cf_secs T = pre @ s # post" "owns h (cf_cells T @ ddb_cells (rpre @ (p, R) # rpost)) F" using assms(1) by (simp_all add: ddb_view_def)
  then show ?thesis
    by (elim owns_perm) (auto simp: ddb_rest_def assms(2) cf_cells_def sct_cells_def sct_items_def ent_items_def ddb_cells_def)
qed

lemma free_pair:
  assumes "owns h ((p, RECORD R) # ent_cells e @ cs) F"
  shows "\<exists>h1 h2. pool_free p h = Some h1 \<and> nvrec_entry_free (en_addr e) h1 = Some h2 \<and> owns h2 cs F"
proof -
  have o: "owns h ([] @ (p, RECORD R) # ent_cells e @ cs) F" using assms by simp
  note f = pool_free_owned [OF o]
  have "owns (h(p := None)) (ent_cells e) (F ++ map_of cs)" using f by (intro owns_part) simp
  from entry_free_ok [OF this] have "nvrec_entry_free (en_addr e) (h(p := None)) = Some (F ++ map_of cs)" .
  moreover have "owns (F ++ map_of cs) cs F" using assms by (auto simp: owns_def)
  ultimately show ?thesis using f by blast
qed

lemma rest_sec_at:
  assumes "ddb_view h T pre s post rs F" "owns h' (cs @ ddb_rest T pre s post es rs') F'"
  shows "sec_at h' T pre s post"
proof -
  have "cf_secs T = pre @ s # post" using assms(1) by (simp add: ddb_view_def)
  then have "set (sec_skel T) \<subseteq> set (cs @ ddb_rest T pre s post es rs')"
    by (auto simp: sec_skel_def ddb_rest_def sct_cells_def)
  from owns_holds [OF assms(2) this] show ?thesis using assms(1) by (simp add: ddb_view_def sec_at_def)
qed

lemma view_drop:
  assumes "ddb_view h T pre s post (rpre @ (p, R) # rpost) F" "sc_ents s = epre @ e # epost" "length epre = length rpre"
    "owns h' (ent_list s (epre @ epost) @ ddb_rest T pre s post (epre @ epost) (rpre @ rpost)) F"
  shows "\<exists>T' s'. ddb_view h' T' pre s' post (rpre @ rpost) F \<and> cf_addr T' = cf_addr T"
proof -
  let ?T = "with_ents T pre s post (epre @ epost)"
  have a: "cf_secs T = pre @ s # post" "wf_cft T" "sct_name s = view section_name_ddbrec" "ents_rel (sc_ents s) (rpre @ (p, R) # rpost)"
    using assms(1) by (simp_all add: ddb_view_def)
  have "owns h' (cf_cells ?T @ ddb_cells (rpre @ rpost)) F"
    by (rule owns_perm [OF assms(4)]) (auto simp: a(1) ddb_rest_def with_ents_def cf_cells_def sct_cells_def sct_items_def ent_items_def ddb_cells_def)
  moreover have "wf_cft ?T" by (rule with_ents_wf [OF a(1,2)]) (use a(1,2) in \<open>auto simp: wf_cft_def wf_sct_def assms(2)\<close>)
  moreover have "ents_rel (epre @ epost) (rpre @ rpost)"
    using a(4) unfolding assms(2) by (simp add: list_all2_append assms(3))
  ultimately show ?thesis using a(3)
    by (intro exI [of _ ?T] exI [of _ "s\<lparr>sc_ents := epre @ epost\<rparr>"]) (simp add: ddb_view_def with_ents_def sct_name_def)
qed

lemma rel_split:
  assumes "ddb_view h T pre s post (rpre @ x # rpost) F"
  obtains epre e epost where "sc_ents s = epre @ e # epost" "length epre = length rpre" "ent_rel e x" "length epost = length rpost"
proof -
  have "ents_rel (sc_ents s) (rpre @ x # rpost)" using assms by (simp add: ddb_view_def)
  then show ?thesis using that by (auto simp: list_all2_append2 list_all2_Cons2 dest: list_all2_lengthD)
qed

section \<open>Deleting\<close>

lemma delete_head_ok:
  assumes "ddb_view h T pre s post ((p, R) # rs) F"
  shows "\<exists>T' s' h'. config_entries_ddbdev_delete_head (cf_addr T) h = Some h' \<and> ddb_view h' T' pre s' post rs F \<and> cf_addr T' = cf_addr T"
proof -
  have v: "ddb_view h T pre s post ([] @ (p, R) # rs) F" using assms by simp
  obtain e es where e: "sc_ents s = [] @ e # es" "ent_rel e (p, R)" using rel_split [OF v] by (metis length_0_conv)
  note at = view_at [OF assms] and rd = sec_at_reads [OF view_at(1) [OF assms]]
  note ea = entry_at [OF at(1,2) e(1)]
  obtain h1 h2 where f: "pool_free p h = Some h1" "nvrec_entry_free (en_addr e) h1 = Some h2"
    "owns h2 (ent_list s (sc_ents s) @ ddb_rest T pre s post ([] @ es) ([] @ rs)) F"
    using free_pair [OF view_split [OF v e(1)]] by blast
  have o: "owns h2 (list_cells (sc_list s) (Some NVREC_ENTRY_FREE) ((en_node e, en_addr e) # ent_items es) @ ddb_rest T pre s post es rs) F"
    using f(3) by (simp add: e(1) ent_items_def)
  obtain h3 h4 L where u: "(if of_nat (length ((en_node e, en_addr e) # ent_items es)) = (1 :: u32)
      then do { L \<leftarrow> get_list (sc_list s) h2; Some (h2(sc_list s \<mapsto> LIST (L\<lparr>lt_head := 0, lt_tail := 0\<rparr>))) }
      else do { nx \<leftarrow> list_next_ext (en_node e) h2; L \<leftarrow> get_list (sc_list s) h2; Some (h2(sc_list s \<mapsto> LIST (L\<lparr>lt_head := nx\<rparr>))) }) = Some h3"
    "pool_free (en_node e) h3 = Some h4" "get_list (sc_list s) h4 = Some L"
    "owns (h4(sc_list s \<mapsto> LIST (L\<lparr>lt_length := lt_length L - 1\<rparr>))) (list_cells (sc_list s) (Some NVREC_ENTRY_FREE) (ent_items es) @ ddb_rest T pre s post es rs) F"
    using unlink_head [OF o] by blast
  have n: "config_entries_get_ddbrec_length (cf_addr T) section_name_ddbrec h2 = Some (of_nat (length ((en_node e, en_addr e) # ent_items es)))"
    using ddbrec_length_ok [OF rest_sec_at [OF assms o] owns_list(2) [OF o]] by simp
  have b: "list_begin_ext (sc_list s) h = Some (en_node e)" using at(2) by (simp add: ents_at_def e(1) ent_items_def)
  have "config_entries_ddbdev_delete_head (cf_addr T) h = Some (h4(sc_list s \<mapsto> LIST (L\<lparr>lt_length := lt_length L - 1\<rparr>)))"
    using rd ea e(2) b f(1,2) n u(1-3) by (simp add: config_entries_ddbdev_delete_head_def del: length_Cons of_nat_Suc)
  then show ?thesis using view_drop [OF v e(1), of "h4(sc_list s \<mapsto> LIST (L\<lparr>lt_length := lt_length L - 1\<rparr>))"] u(4) by simp
qed

lemma pred_length:
  assumes "owns h (list_cells l cb xs @ cs) F" "length xs = Suc (Suc n)"
  shows "unat (of_nat (length xs) - 1 :: u32) = Suc n" "(of_nat (length xs) - 1 :: u32) = of_nat (Suc n)"
proof -
  have "length xs < 2 ^ 32" by (rule list_length_bound [OF assms(1)])
  then have l: "Suc n < 2 ^ 32" using assms(2) by simp
  show w: "(of_nat (length xs) - 1 :: u32) = of_nat (Suc n)" by (simp add: assms(2))
  show "unat (of_nat (length xs) - 1 :: u32) = Suc n" unfolding w unsigned_of_nat using l by (simp add: take_bit_nat_eq_self del: of_nat_Suc)
qed

lemma delete_tail_ok:
  assumes "ddb_view h T pre s post (rs @ [(p, R)]) F" "rs \<noteq> []"
  shows "\<exists>T' s' h'. config_entries_ddbdev_delete_tail (cf_addr T) h = Some h' \<and> ddb_view h' T' pre s' post rs F \<and> cf_addr T' = cf_addr T"
proof -
  have v: "ddb_view h T pre s post (rs @ (p, R) # []) F" using assms by simp
  obtain es' e where e': "sc_ents s = es' @ e # []" "length es' = length rs" "ent_rel e (p, R)" using rel_split [OF v] by (metis length_0_conv)
  then obtain es e0 where e: "sc_ents s = es @ [e0, e]" "es' = es @ [e0]" using assms(2) by (metis append_assoc append_Cons append_Nil length_0_conv rev_exhaust)
  let ?l = "sc_list s"
  let ?it = "ent_items es @ [(en_node e0, en_addr e0), (en_node e, en_addr e)]"
  define L where "L = \<lparr>lt_head = first_node 0 ?it, lt_tail = en_node e, lt_length = of_nat (length ?it), lt_free_cb = Some NVREC_ENTRY_FREE\<rparr>"
  let ?M = "L\<lparr>lt_length := lt_length L - 1\<rparr>"
  let ?rest = "ddb_rest T pre s post es' rs"
  have it: "ent_items (sc_ents s) = ?it" by (simp add: e(1) ent_items_def)
  have o: "owns h (((p, RECORD R) # ent_cells e) @ (?l, LIST L) # node_cells 0 ?it @ ?rest) F"
    using view_split [OF v e'(1)] by (simp add: it list_cells_def last_node_def L_def)
  have "owns h (list_cells ?l (Some NVREC_ENTRY_FREE) ?it @ (((p, RECORD R) # ent_cells e) @ ?rest)) F"
    by (rule owns_perm [OF o]) (auto simp: list_cells_def last_node_def L_def)
  from pred_length [OF this, of "length es"]
  have len: "unat (lt_length L - 1) = Suc (length es)" "lt_length L - 1 = of_nat (Suc (length es))" by (simp_all add: ent_items_def L_def)
  define h0 where "h0 = h(?l \<mapsto> LIST ?M)"
  have o0: "owns h0 ((p, RECORD R) # ent_cells e @ lst ?l ?M ?it @ ?rest) F"
    unfolding h0_def using owns_write [OF o, of "LIST ?M"] by (simp only: append_Cons append_assoc)
  have "owns h0 (((p, RECORD R) # ent_cells e @ lst ?l ?M ?it) @ ?rest) F" using o0 by simp
  note sa = rest_sec_at [OF v this]
  have g0: "get_list ?l h0 = Some ?M" "list_begin_ext ?l h0 = Some (first_node 0 ?it)"
    using owns_read [OF o0, of ?l "LIST ?M"] owns_nonzero [OF o0, of ?l "LIST ?M"] by (simp_all add: heap_simps list_begin_ext_def L_def)
  note rd = sec_at_reads [OF view_at(1) [OF v]]
  have g: "get_list ?l h = Some L" using owns_read [OF o, of ?l "LIST L"] by (simp add: heap_simps)
  have sub: "set (ent_skel (sc_ents s)) \<subseteq> set ((p, RECORD R) # ent_cells e @ lst ?l ?M ?it @ ?rest)"
    unfolding ent_skel_def it by (auto simp: ddb_rest_def e)
  have ea: "ents_at h0 s"
    unfolding ents_at_def it using g0(2) owns_holds [OF o0 sub] by simp
  note x0 = entry_at [OF sa ea e(1)] and x1 = entry_at [OF sa ea e'(1)]
  have w: "walk_nodes (length es) (first_node 0 ?it) h0 = Some (en_node e0)"
    using walk_nodes_ok [OF ents_at_nodes [OF ea, unfolded it]] by (simp add: ent_items_def)
  obtain h1 h2 where f: "pool_free p h0 = Some h1" "nvrec_entry_free (en_addr e) h1 = Some h2" "owns h2 (lst ?l ?M ?it @ ?rest) F"
    using free_pair [OF o0] by blast
  note u = unlink_tail [OF f(3)]
  obtain h3 where h3: "pool_free (en_node e) (h2(en_node e0 \<mapsto> NODE \<lparr>ln_next = 0, ln_data = en_addr e0\<rparr>)) = Some h3" "get_list ?l h3 = Some ?M"
    "owns (h3(?l \<mapsto> LIST (?M\<lparr>lt_tail := en_node e0\<rparr>))) (lst ?l (?M\<lparr>lt_tail := en_node e0\<rparr>) (ent_items es @ [(en_node e0, en_addr e0)]) @ ?rest) F"
    using u(2) by blast
  have "lst ?l (?M\<lparr>lt_tail := en_node e0\<rparr>) (ent_items es @ [(en_node e0, en_addr e0)]) = ent_list s (es' @ [])"
    using len(2) by (simp add: list_cells_def e(2) ent_items_def L_def)
  then have fin: "owns (h3(?l \<mapsto> LIST (?M\<lparr>lt_tail := en_node e0\<rparr>))) (ent_list s (es' @ []) @ ddb_rest T pre s post (es' @ []) (rs @ [])) F"
    using h3(3) by simp
  have nx: "list_next_ext (en_node e0) h0 = Some (en_node e)" using x0(6) by (simp add: ent_items_def)
  have "config_entries_ddbdev_delete_tail (cf_addr T) h = Some (h3(?l \<mapsto> LIST (?M\<lparr>lt_tail := en_node e0\<rparr>)))"
    unfolding config_entries_ddbdev_delete_tail_def
    using rd g len(1) g0(2) w nx x1(5,7) e'(3) f(1,2) u(1) h3(1,2) by (simp add: h0_def [symmetric] Let_def del: length_append)
  then show ?thesis using view_drop [OF v e'(1,2) fin] by auto
qed

lemma view_distinct:
  assumes "ddb_view h T pre s post rs F"
  shows "distinct (map (\<lambda>x. rec_addr (snd x)) rs)" "map (\<lambda>e. take 6 (en_key e)) (sc_ents s) = map (\<lambda>x. rec_addr (snd x)) rs"
proof -
  have r: "ents_rel (sc_ents s) rs" and w: "wf_sct s" and v: "view (sc_name s) = view section_name_ddbrec"
    using assms by (simp_all add: ddb_view_def wf_cft_def sct_name_def)
  show m: "map (\<lambda>e. take 6 (en_key e)) (sc_ents s) = map (\<lambda>x. rec_addr (snd x)) rs"
    using r by (induction rule: list_all2_induct) (simp_all add: ent_rel_def)
  have "ent_key (sc_name s) = (\<lambda>e. take 6 (en_key e))" using keyv_cong(1) [OF v] by (simp add: fun_eq_iff ent_key_def)
  then show "distinct (map (\<lambda>x. rec_addr (snd x)) rs)" using w unfolding m [symmetric] by (simp add: wf_sct_def)
qed

lemma view_key_lengths: "ddb_view h T pre s post rs F \<Longrightarrow> x \<in> set rs \<Longrightarrow> length (rec_addr (snd x)) = 6"
proof -
  assume v: "ddb_view h T pre s post rs F" and x: "x \<in> set rs"
  obtain rpre rpost where "rs = rpre @ x # rpost" using x by (meson split_list)
  with v have "ddb_view h T pre s post (rpre @ x # rpost) F" by simp
  from rel_split [OF this] obtain epre e epost where e: "sc_ents s = epre @ e # epost" "ent_rel e x" by metis
  have "6 \<le> length (en_key e)" by (rule entry_at(2) [OF view_at(1,2) [OF v] e(1)])
  moreover have "take 6 (en_key e) = rec_addr (snd x)" using e(2) by (simp add: ent_rel_def)
  ultimately show ?thesis by (metis length_take min.absorb2)
qed

lemma delete_absent:
  assumes "ddb_view h T pre s post rs F" "bdAddr r \<notin> (\<lambda>x. rec_addr (snd x)) ` set rs" "length (bdAddr r) = 6"
  shows "config_entries_ddbdev_delete (cf_addr T) r h = Some h"
proof -
  note at = view_at [OF assms(1)]
  have nin: "bdAddr r \<notin> set (map (\<lambda>e. take 6 (en_key e)) (sc_ents s))"
    unfolding view_distinct(2) [OF assms(1)] using assms(2) by simp
  have "find (\<lambda>e. take 6 (en_key e) = bdAddr r) (sc_ents s) = None"
    using nin by (auto simp: find_None_iff image_iff)
  then show ?thesis
    using delete_find_ok [OF at(1,2) assms(3), of "[]" "sc_ents s" 0] sec_at_reads [OF at(1)] at(2)
    by (simp add: config_entries_ddbdev_delete_def ents_at_def)
qed

lemma delete_mid_ok:
  assumes "ddb_view h T pre s post (rs @ x0 # (p, R) # rpost) F" "rec_addr R = bdAddr r" "rpost \<noteq> []"
  shows "\<exists>T' s' h'. config_entries_ddbdev_delete (cf_addr T) r h = Some h' \<and> ddb_view h' T' pre s' post (rs @ x0 # rpost) F \<and> cf_addr T' = cf_addr T"
proof -
  have v: "ddb_view h T pre s post ((rs @ [x0]) @ (p, R) # rpost) F" using assms by simp
  obtain es' e epost where e': "sc_ents s = es' @ e # epost" "length es' = length (rs @ [x0])" "ent_rel e (p, R)"
    using rel_split [OF v] by metis
  then obtain es e0 where e: "es' = es @ [e0]" by (metis append_is_Nil_conv length_0_conv not_Cons_self2 rev_exhaust)
  have e1: "sc_ents s = es @ e0 # e # epost" using e'(1) e by simp
  let ?l = "sc_list s" and ?rest = "ddb_rest T pre s post (es' @ epost) ((rs @ [x0]) @ rpost)"
  let ?it = "ent_items es @ (en_node e0, en_addr e0) # (en_node e, en_addr e) # ent_items epost"
  define L where "L = \<lparr>lt_head = first_node 0 ?it, lt_tail = last_node ?it, lt_length = of_nat (length ?it), lt_free_cb = Some NVREC_ENTRY_FREE\<rparr>"
  have it: "ent_items (sc_ents s) = ?it" by (simp add: e1 ent_items_def)
  note at = view_at [OF v] and rd = sec_at_reads [OF view_at(1) [OF v]]
  note x = entry_at [OF at(1,2) e'(1)]
  have o: "owns h ((p, RECORD R) # ent_cells e @ lst ?l L ?it @ ?rest) F"
    using view_split [OF v e'(1)] by (simp add: it list_cells_def L_def)
  have pz: "p \<noteq> 0" using owns_nonzero [OF o, of p "RECORD R"] by simp
  have len: "length (bdAddr r) = 6" using view_key_lengths [OF v, of "(p, R)"] assms(2) by simp
  have key: "take 6 (en_key e) = bdAddr r" using e'(3) assms(2) by (simp add: ent_rel_def)
  have "distinct (map (\<lambda>e. take 6 (en_key e)) (es' @ e # epost))"
    using view_distinct [OF v] e'(1) by simp
  then have ne: "\<forall>y \<in> set es'. take 6 (en_key y) \<noteq> bdAddr r" by (auto simp: key image_iff)
  then have "find (\<lambda>e. take 6 (en_key e) = bdAddr r) (sc_ents s) = Some e"
    "takeWhile (\<lambda>e. take 6 (en_key e) \<noteq> bdAddr r) (sc_ents s) = es'"
    unfolding e'(1) using key by (simp_all add: find_mid takeWhile_append2)
  then have find: "delete_find_loop (bdAddr r) (first_node 0 ?it) 0 h = Some (en_node e, Suc (Suc (length es)))"
    using delete_find_ok [OF at(1,2) len, of "[]" "sc_ents s" 0] by (simp add: it e)
  have w: "walk_nodes (length es) (first_node 0 ?it) h = Some (en_node e0)"
    using walk_nodes_ok [OF ents_at_nodes [OF at(2), unfolded it]] by (simp add: ent_items_def)
  obtain h1 h2 where f: "pool_free p h = Some h1" "nvrec_entry_free (en_addr e) h1 = Some h2" "owns h2 (lst ?l L ?it @ ?rest) F"
    using free_pair [OF o] by blast
  note u = unlink_after [OF f(3)]
  let ?h3 = "(h2(en_node e := None))(en_node e0 \<mapsto> NODE \<lparr>ln_next = first_node 0 (ent_items epost), ln_data = en_addr e0\<rparr>)"
  let ?M = "L\<lparr>lt_length := lt_length L - 1\<rparr>"
  have "length epost = length rpost" using e' arg_cong [OF view_distinct(2) [OF v], of length] by simp
  then have ne2: "epost \<noteq> []" using assms(3) by auto
  have fin: "lst ?l ?M (ent_items es @ (en_node e0, en_addr e0) # ent_items epost) = ent_list s (es' @ epost)"
    using ne2 by (simp add: L_def list_cells_def e ent_items_def last_node_def)
  have D: "get_node (en_node e) h = Some \<lparr>ln_next = first_node 0 (ent_items epost), ln_data = en_addr e\<rparr>"
    using owns_read [OF o, of "en_node e" "NODE \<lparr>ln_next = first_node 0 (ent_items epost), ln_data = en_addr e\<rparr>"]
    by (simp add: node_cells_append heap_simps)
  have g: "list_begin_ext ?l h = Some (first_node 0 ?it)" using at(2) by (simp add: ents_at_def it)
  have "config_entries_ddbdev_delete (cf_addr T) r h = Some (?h3(?l \<mapsto> LIST ?M))"
    unfolding config_entries_ddbdev_delete_def
    using rd g find D w x(4,5,7) e'(3) pz f(1,2) u(1-4) by (simp add: Let_def)
  moreover have "owns (?h3(?l \<mapsto> LIST ?M)) (ent_list s (es' @ epost) @ ?rest) F"
    using u(5) [of ?M] unfolding fin .
  ultimately show ?thesis using view_drop [OF v e'(1,2), of "?h3(?l \<mapsto> LIST ?M)"] by simp
qed

end
