(* ===== verification/Nvrec_Ddb_Ops.thy ===== *)
theory Nvrec_Ddb_Ops
  imports Nvrec_Ddb_Del
begin

text \<open>
  The operations of the device database on \<open>database s rs ot F\<close>: the heap of \<open>s\<close> consists of a configuration whose
  section \<^verbatim>\<open>ddbrec\<close> lists the records \<open>rs\<close>, oldest first, whose other sections are \<open>ot\<close>, of these records, and
  of the rest \<open>F\<close>.
\<close>

section \<open>The database\<close>

definition others :: "store \<Rightarrow> store" where
  "others st = filter (\<lambda>x. fst x \<noteq> view section_name_ddbrec) st"

definition database :: "nv_state \<Rightarrow> recs \<Rightarrow> store \<Rightarrow> nvheap \<Rightarrow> bool" where
  "database s rs ot F \<longleftrightarrow> (\<exists>T. ddb_ok s T rs F \<and> others (cf_abs T) = ot)"

lemma view_abs:
  assumes "ddb_view h T pre s post rs F"
  shows "ddb_abs (cf_abs T) = map ddb_entry rs" "others (cf_abs T) = map (\<lambda>s. (sct_name s, sct_abs s)) (pre @ post)"
proof -
  have a: "cf_secs T = pre @ s # post" "distinct (map sct_name (cf_secs T))" "sct_name s = view section_name_ddbrec" "ents_rel (sc_ents s) rs"
    using assms by (auto simp only: ddb_view_def wf_cft_def)
  have v: "view (sc_name s) = view section_name_ddbrec" using a(3) by (simp add: sct_name_def)
  have n: "view section_name_ddbrec \<notin> sct_name ` set pre \<union> sct_name ` set post" using a(2) unfolding a(1) by (simp add: a(3))
  then have "map_of (cf_abs T) (view section_name_ddbrec) = Some (sct_abs s)"
    unfolding cf_abs_def a(1) using map_of_mid_abs [of "view section_name_ddbrec" "map (\<lambda>s. (sct_name s, sct_abs s)) pre"]
    by (simp add: a(3) image_image del: map_of_append)
  moreover have "sct_abs s = map ddb_entry rs"
    using a(4) keyv_cong(1) [OF v] unfolding ents_rel_map by (simp add: sct_abs_def ent_key_def)
  ultimately show "ddb_abs (cf_abs T) = map ddb_entry rs" by (simp add: ddb_abs_def)
  have "filter (\<lambda>x. fst x \<noteq> view section_name_ddbrec) (map (\<lambda>s. (sct_name s, sct_abs s)) ss) = map (\<lambda>s. (sct_name s, sct_abs s)) ss"
    if "view section_name_ddbrec \<notin> sct_name ` set ss" for ss
    using that by (induction ss) auto
  then show "others (cf_abs T) = map (\<lambda>s. (sct_name s, sct_abs s)) (pre @ post)"
    using n by (simp add: others_def cf_abs_def a(1,3))
qed

lemma database_view:
  assumes "ddb_view h T pre sc post rs F" "length rs \<le> DDB_RECORD_NUM" "nv_heap s = h" "nv_config s = cf_addr T"
  shows "database s rs (map (\<lambda>s. (sct_name s, sct_abs s)) (pre @ post)) F"
  using view_abs [OF assms(1)] assms unfolding database_def ddb_ok_def ddb_view_def by blast

lemma ddb_ok_view:
  assumes "ddb_ok s T rs F"
  shows "rs = [] \<and> find (\<lambda>s. sct_name s = view section_name_ddbrec) (cf_secs T) = None \<or> (\<exists>pre sc post. ddb_view (nv_heap s) T pre sc post rs F)"
proof (cases "find (\<lambda>s. sct_name s = view section_name_ddbrec) (cf_secs T)")
  case None
  then show ?thesis using assms by (simp add: ddb_ok_def ddb_abs_def cf_abs_def map_of_find)
next
  case (Some sc)
  then obtain pre post where p: "cf_secs T = pre @ sc # post" "sct_name sc = view section_name_ddbrec" by (rule find_SomeE) blast
  have v: "view (sc_name sc) = view section_name_ddbrec" using p(2) by (simp add: sct_name_def)
  have "map_of (cf_abs T) (view section_name_ddbrec) = Some (sct_abs sc)" using Some by (simp add: cf_abs_def map_of_find)
  then have "sct_abs sc = map ddb_entry rs" using assms by (simp add: ddb_ok_def ddb_abs_def)
  then have "ents_rel (sc_ents sc) rs"
    unfolding ents_rel_map using keyv_cong(1) [OF v] by (simp add: sct_abs_def ent_key_def)
  then show ?thesis using assms p unfolding ddb_ok_def ddb_view_def by blast
qed

lemma database_Cons:
  assumes "database s rs ot F" "rs \<noteq> []"
  obtains T pre sc post where "ddb_view (nv_heap s) T pre sc post rs F" "nv_config s = cf_addr T" "length rs \<le> DDB_RECORD_NUM"
    "ot = map (\<lambda>s. (sct_name s, sct_abs s)) (pre @ post)"
proof -
  obtain T where t: "ddb_ok s T rs F" "others (cf_abs T) = ot" using assms(1) by (auto simp: database_def)
  obtain pre sc post where v: "ddb_view (nv_heap s) T pre sc post rs F" using ddb_ok_view [OF t(1)] assms(2) by blast
  have "nv_config s = cf_addr T" "length rs \<le> DDB_RECORD_NUM" using t(1) by (simp_all add: ddb_ok_def)
  then show ?thesis using that v view_abs(2) [OF v] t(2) by blast
qed

section \<open>Reading\<close>

lemma store_get_ddb: "store_get st (view section_name_ddbrec) k = map_of (ddb_abs st) k"
  by (simp add: store_get_def ddb_abs_def split: option.split)

lemma map_of_entries: "map_of (map ddb_entry rs) a = map_option (\<lambda>x. sprintf_d (sint (fst x))) (find (\<lambda>x. rec_addr (snd x) = a) rs)"
  by (simp add: ddb_entry_def [abs_def] map_of_find)

definition rec_at :: "recs \<Rightarrow> u8 list \<Rightarrow> (addr \<times> nvrec_btdevicerecord) option" where
  "rec_at rs a = find (\<lambda>x. rec_addr (snd x) = a) rs"

lemma database_get_int:
  assumes "database s rs ot F" "length a = 6"
  shows "nvrec_config_get_int (nv_config s) section_name_ddbrec (addr_key a) 0 (nv_heap s) =
    Some (case rec_at rs a of None \<Rightarrow> 0 | Some x \<Rightarrow> sint (fst x))"
proof -
  obtain T where t: "owns (nv_heap s) (cf_cells T) (F ++ map_of (ddb_cells rs))" "wf_cft T" "nv_config s = cf_addr T"
    "ddb_abs (cf_abs T) = map ddb_entry rs" using assms(1) owns_part unfolding database_def ddb_ok_def by blast
  have "key_ok section_name_ddbrec (addr_key a)" using addr_key [OF assms(2)] by simp
  from config_reads(3) [OF t(1,2) ddb_terminated this, of 0] show ?thesis
    using addr_key [OF assms(2)] by (simp add: t(3) store_get_ddb t(4) map_of_entries rec_at_def rec_value split: option.splits)
qed

lemma database_rec:
  assumes "database s rs ot F" "(p, R) \<in> set rs"
  shows "get_record p (nv_heap s) = Some R" "p \<noteq> 0" "length (rec_addr R) = 6"
proof -
  have ne: "rs \<noteq> []" using assms(2) by auto
  obtain T pre sc post where v: "ddb_view (nv_heap s) T pre sc post rs F" by (rule database_Cons [OF assms(1) ne])
  then have o: "owns (nv_heap s) (cf_cells T @ ddb_cells rs) F" by (simp add: ddb_view_def)
  have m: "(p, RECORD R) \<in> set (cf_cells T @ ddb_cells rs)" using assms(2) by (auto simp: ddb_cells_def)
  show "get_record p (nv_heap s) = Some R" "p \<noteq> 0" using owns_read [OF o m] owns_nonzero [OF o m] by (simp_all add: heap_simps)
  show "length (rec_addr R) = 6" using view_key_lengths [OF v assms(2)] by simp
qed

lemma rec_at_mem: "rec_at rs a = Some x \<Longrightarrow> x \<in> set rs \<and> rec_addr (snd x) = a"
  by (auto simp: rec_at_def find_Some_iff)

lemma sint_zero_iff [simp]: "sint p = 0 \<longleftrightarrow> p = (0 :: addr)"
  by (rule signed_eq_0_iff)

text \<open>The entry at a position of the list.\<close>

lemma database_entry:
  assumes "database s rs ot F" "i < length rs"
  obtains sec sc node e where "nvrec_section_find (nv_config s) section_name_ddbrec (nv_heap s) = Some sec" "sec \<noteq> 0"
    "get_section sec (nv_heap s) = Some sc" "ns_entries sc \<noteq> 0" "\<exists>L. get_list (ns_entries sc) (nv_heap s) = Some L \<and> unat (lt_length L) = length rs"
    "\<exists>b. list_begin_ext (ns_entries sc) (nv_heap s) = Some b \<and> walk_nodes i b (nv_heap s) = Some node"
    "list_node_ext node (nv_heap s) = Some e" "entry_recaddr (nv_config s) e (nv_heap s) = Some (fst (rs ! i))" "nv_config s \<noteq> 0"
proof -
  have ne: "rs \<noteq> []" using assms(2) by auto
  obtain T pre sc post where v: "ddb_view (nv_heap s) T pre sc post rs F" "nv_config s = cf_addr T" "length rs \<le> DDB_RECORD_NUM"
    by (rule database_Cons [OF assms(1) ne])
  note at = view_at [OF v(1)] and rd = sec_at_reads [OF view_at(1) [OF v(1)]]
  obtain epre e epost where e: "sc_ents sc = epre @ e # epost" "length epre = i" "ent_rel e (rs ! i)"
  proof (rule rel_split)
    show "ddb_view (nv_heap s) T pre sc post (take i rs @ (rs ! i) # drop (Suc i) rs) F" using v(1) id_take_nth_drop [OF assms(2)] by simp
  qed (use assms(2) in simp)
  note x = entry_at [OF at(1,2) e(1)]
  have b: "list_begin_ext (sc_list sc) (nv_heap s) = Some (first_node 0 (ent_items (sc_ents sc)))" using at(2) by (simp add: ents_at_def)
  have "walk_nodes i (first_node 0 (ent_items (sc_ents sc))) (nv_heap s) = Some (en_node e)"
    using walk_nodes_ok [of "nv_heap s" 0 "ent_items epre" "ent_items (e # epost)"] ents_at_nodes [OF at(2)] e(2)
    by (simp add: e(1) ent_items_def)
  moreover have len: "length (sc_ents sc) = length rs" using v(1) list_all2_lengthD unfolding ddb_view_def by blast
  moreover have "sc_list sc \<noteq> 0" using b by (auto simp: list_begin_ext_def check_def split: if_splits)
  moreover have "unat (of_nat (length rs) :: u32) = length rs"
    using v(3) unfolding unsigned_of_nat DDB_RECORD_NUM_def by (simp add: take_bit_nat_eq_self)
  ultimately show ?thesis using that [of "sc_addr sc" "\<lparr>ns_name = sc_np sc, ns_entries = sc_list sc\<rparr>" "en_node e" "en_addr e"]
      rd at(3) b x(5,7) e(3) v(2) by simp
qed


section \<open>Deleting\<close>

lemma database_update [simp]: "database (s\<lparr>nv_is_update := b\<rparr>) rs ot F = database s rs ot F"
  by (simp add: database_def ddb_ok_def)

lemma update_runtime:
  assumes "database s rs ot F"
  shows "nv_record_update_runtime_userdata s = s\<lparr>nv_is_update := True\<rparr>"
proof -
  obtain T where t: "owns (nv_heap s) (cf_cells T @ ddb_cells rs) F" "nv_config s = cf_addr T" using assms unfolding database_def ddb_ok_def by blast
  have "cf_addr T \<noteq> 0" by (rule owns_nonzero [OF t(1), of _ "CONFIG \<lparr>nc_sections = cf_list T\<rparr>"]) (simp add: cf_cells_def)
  then show ?thesis by (simp add: nv_record_update_runtime_userdata_def t(2))
qed

lemma after_delete:
  assumes "ddb_view h' T' pre sc' post rs' F" "cf_addr T' = nv_config s" "length rs' \<le> DDB_RECORD_NUM"
  shows "database (s\<lparr>nv_heap := h'\<rparr>) rs' (map (\<lambda>s. (sct_name s, sct_abs s)) (pre @ post)) F"
  using database_view [OF assms(1,3), of "s\<lparr>nv_heap := h'\<rparr>"] assms(2) by simp

lemma database_delete_head:
  assumes "database s (x # rs) ot F"
  shows "\<exists>h'. config_entries_ddbdev_delete_head (nv_config s) (nv_heap s) = Some h' \<and> database (s\<lparr>nv_heap := h'\<rparr>) rs ot F"
proof -
  obtain p R where x: "x = (p, R)" by (cases x)
  obtain T pre sc post where v: "ddb_view (nv_heap s) T pre sc post ((p, R) # rs) F" "nv_config s = cf_addr T" "length (x # rs) \<le> DDB_RECORD_NUM"
    "ot = map (\<lambda>s. (sct_name s, sct_abs s)) (pre @ post)"
    using database_Cons [OF assms] unfolding x by blast
  then show ?thesis using delete_head_ok [OF v(1)] after_delete [of _ _ pre _ post rs F s] by (metis Suc_leD length_Cons)
qed

lemma filter_distinct:
  "distinct (map f (xs @ x # ys)) \<Longrightarrow> filter (\<lambda>y. f y \<noteq> f x) (xs @ x # ys) = xs @ ys"
proof -
  assume "distinct (map f (xs @ x # ys))"
  then have "\<forall>y \<in> set xs. f y \<noteq> f x" "\<forall>y \<in> set ys. f y \<noteq> f x" by (auto simp: image_iff)
  then show ?thesis by simp
qed

lemma delete_cases:
  assumes "x \<in> set xs"
  obtains (head) ys where "xs = x # ys" | (tail) ys where "xs = ys @ [x]" "ys \<noteq> []"
  | (mid) ys y zs where "xs = ys @ y # x # zs" "zs \<noteq> []"
proof -
  obtain as bs where a: "xs = as @ x # bs" using assms by (meson split_list)
  show ?thesis
  proof (cases as rule: rev_cases)
    case Nil
    then show ?thesis using a head by simp
  next
    case (snoc ys y)
    then show ?thesis using a tail mid by (cases "bs = []") auto
  qed
qed

lemma specific_delete_ok:
  assumes "database s rs ot F" "(p, R) \<in> set rs" "rec_addr R = bdAddr r"
  shows "\<exists>h'. config_specific_entry_value_delete r s = Some (s\<lparr>nv_heap := h', nv_is_update := True\<rparr>) \<and>
    database (s\<lparr>nv_heap := h'\<rparr>) (filter (\<lambda>x. rec_addr (snd x) \<noteq> bdAddr r) rs) ot F"
proof -
  have ne: "rs \<noteq> []" using assms(2) by auto
  obtain T pre sc post where v: "ddb_view (nv_heap s) T pre sc post rs F" "nv_config s = cf_addr T" "length rs \<le> DDB_RECORD_NUM"
    and ot: "ot = map (\<lambda>s. (sct_name s, sct_abs s)) (pre @ post)"
    by (rule database_Cons [OF assms(1) ne])
  have d: "distinct (map (\<lambda>x. rec_addr (snd x)) rs)" by (rule view_distinct(1) [OF v(1)])
  have "length (bdAddr r) = 6" using view_key_lengths [OF v(1) assms(2)] assms(3) by simp
  note hd = is_head_ok [OF view_at(1,2) [OF v(1)] _ ne this] and tl = is_tail_ok [OF view_at(1,2) [OF v(1)] _ ne this]
  have rel: "ents_rel (sc_ents sc) rs" using v(1) by (simp add: ddb_view_def)
  have fin: ?thesis if d: "(if rec_addr (snd (hd rs)) = bdAddr r then config_entries_ddbdev_delete_head (cf_addr T) (nv_heap s)
      else if rec_addr (snd (last rs)) = bdAddr r then config_entries_ddbdev_delete_tail (cf_addr T) (nv_heap s)
      else config_entries_ddbdev_delete (cf_addr T) r (nv_heap s)) = Some h'"
    "ddb_view h' T' pre sc' post rs' F" "cf_addr T' = cf_addr T" "filter (\<lambda>x. rec_addr (snd x) \<noteq> bdAddr r) rs = rs'" for h' T' sc' rs'
  proof -
    have "length rs' \<le> DDB_RECORD_NUM" using v(3) length_filter_le [of _ rs] by (metis d(4) le_trans)
    then have db: "database (s\<lparr>nv_heap := h'\<rparr>) rs' ot F" unfolding ot using d(3) v(2) by (intro after_delete [OF d(2)]) simp_all
    have "config_specific_entry_value_delete r s = Some (s\<lparr>nv_heap := h', nv_is_update := True\<rparr>)"
      using hd [OF rel] tl [OF rel] d(1) update_runtime [OF db] by (simp add: config_specific_entry_value_delete_def v(2) Let_def split: if_splits)
    then show ?thesis using db d(4) by blast
  qed
  have keys: "rec_addr (snd y) \<noteq> bdAddr r" if "rs = xs @ ys" "(p, R) \<in> set ys" "y \<in> set xs \<or> y \<in> set ys \<and> y \<noteq> (p, R)" for xs ys y
  proof
    assume "rec_addr (snd y) = bdAddr r"
    then have "y = (p, R)" using d that assms(3) unfolding distinct_map inj_on_def by auto
    then show False using d that by auto
  qed
  from assms(2) show ?thesis
  proof (cases rule: delete_cases)
    case (head ys)
    have v1: "ddb_view (nv_heap s) T pre sc post ((p, R) # ys) F" using v(1) head by simp
    have flt: "filter (\<lambda>x. rec_addr (snd x) \<noteq> bdAddr r) rs = ys"
      using filter_distinct [of "\<lambda>x. rec_addr (snd x)" "[]" "(p, R)" ys] d unfolding head by (simp add: assms(3))
    obtain T' s' h' where dl: "config_entries_ddbdev_delete_head (cf_addr T) (nv_heap s) = Some h'" "ddb_view h' T' pre s' post ys F" "cf_addr T' = cf_addr T"
      using delete_head_ok [OF v1] by blast
    then show ?thesis by (intro fin [OF _ dl(2,3) flt]) (simp add: head assms(3))
  next
    case (tail ys)
    have v1: "ddb_view (nv_heap s) T pre sc post (ys @ [(p, R)]) F" using v(1) tail by simp
    have flt: "filter (\<lambda>x. rec_addr (snd x) \<noteq> bdAddr r) rs = ys"
      using filter_distinct [of "\<lambda>x. rec_addr (snd x)" ys "(p, R)" "[]"] d unfolding tail by (simp add: assms(3))
    have "rec_addr (snd (hd rs)) \<noteq> bdAddr r" using keys [of ys "[(p, R)]" "hd rs"] tail by (cases ys) auto
    moreover obtain T' s' h' where dl: "config_entries_ddbdev_delete_tail (cf_addr T) (nv_heap s) = Some h'" "ddb_view h' T' pre s' post ys F" "cf_addr T' = cf_addr T"
      using delete_tail_ok [OF v1 tail(2)] by blast
    ultimately show ?thesis by (intro fin [OF _ dl(2,3) flt]) (simp add: tail(1) assms(3))
  next
    case (mid ys y zs)
    have v1: "ddb_view (nv_heap s) T pre sc post (ys @ y # (p, R) # zs) F" using v(1) mid by simp
    have flt: "filter (\<lambda>x. rec_addr (snd x) \<noteq> bdAddr r) rs = ys @ y # zs"
      using filter_distinct [of "\<lambda>x. rec_addr (snd x)" "ys @ [y]" "(p, R)" zs] d unfolding mid by (simp add: assms(3))
    have "rec_addr (snd (hd rs)) \<noteq> bdAddr r" using keys [of "ys @ [y]" "(p, R) # zs" "hd rs"] mid by (cases ys) auto
    moreover have "rec_addr (snd (last rs)) \<noteq> bdAddr r"
    proof (rule keys [of "ys @ [y]" "(p, R) # zs"])
      have "distinct rs" using d by (simp only: distinct_map)
      then have "distinct ((p, R) # zs)" using mid by simp
      then show "last rs \<in> set (ys @ [y]) \<or> last rs \<in> set ((p, R) # zs) \<and> last rs \<noteq> (p, R)"
        using mid last_in_set [of zs] by (auto simp del: last_in_set)
    qed (use mid in simp_all)
    moreover obtain T' s' h' where dl: "config_entries_ddbdev_delete (cf_addr T) r (nv_heap s) = Some h'" "ddb_view h' T' pre s' post (ys @ y # zs) F" "cf_addr T' = cf_addr T"
      using delete_mid_ok [OF v1 assms(3) mid(2)] by blast
    ultimately show ?thesis by (intro fin [OF _ dl(2,3) flt]) simp
  qed
qed

end
