(* ===== verification/Nvrec_Ddb_Props.thy ===== *)
theory Nvrec_Ddb_Props
  imports Nvrec_Ddb_Ops
begin

text \<open>
  What the device database promises: adding is an update of a most-recently-used list of at most nine records
  that keeps the volumes and profiles of a known device; deleting, finding and enumerating are what they are on
  that list; nothing outside the database is touched.
\<close>

section \<open>Sizes\<close>

lemma store_size_mid: "store_size (xs @ (n, es) # ys) = store_size (xs @ ys) + 4 + 4 * length es"
  by (simp add: store_size_def)

lemma database_card:
  assumes "database s rs ot F"
  shows "card (dom (nv_heap s)) \<le> card (dom F) + store_size ot + 4 + 5 * length rs"
    "rs \<noteq> [] \<Longrightarrow> card (dom (nv_heap s)) = card (dom F) + store_size ot + 4 + 5 * length rs"
proof -
  obtain T where t: "ddb_ok s T rs F" "others (cf_abs T) = ot" using assms by (auto simp: database_def)
  have c: "card (dom (nv_heap s)) = card (dom F) + store_size (cf_abs T) + length rs"
    using owns_card [of "nv_heap s" "cf_cells T @ ddb_cells rs" F] t(1) by (simp add: ddb_ok_def cells_size ddb_cells_def)
  have view: "card (dom (nv_heap s)) = card (dom F) + store_size ot + 4 + 5 * length rs" if "ddb_view (nv_heap s) T pre sc post rs F" for pre sc post
  proof -
    have a: "cf_abs T = map (\<lambda>s. (sct_name s, sct_abs s)) pre @ (sct_name sc, sct_abs sc) # map (\<lambda>s. (sct_name s, sct_abs s)) post"
      using that by (simp add: ddb_view_def cf_abs_def)
    have "length (sct_abs sc) = length rs" using that list_all2_lengthD unfolding ddb_view_def sct_abs_def by fastforce
    moreover have "ot = map (\<lambda>s. (sct_name s, sct_abs s)) pre @ map (\<lambda>s. (sct_name s, sct_abs s)) post"
      using view_abs(2) [OF that] t(2) by simp
    ultimately show ?thesis using c unfolding a store_size_mid by simp
  qed
  have absent: "others (cf_abs T) = cf_abs T" if "find (\<lambda>s. sct_name s = view section_name_ddbrec) (cf_secs T) = None"
    using that by (auto simp: others_def cf_abs_def find_None_iff filter_id_conv)
  show "card (dom (nv_heap s)) \<le> card (dom F) + store_size ot + 4 + 5 * length rs"
    using ddb_ok_view [OF t(1)] view absent c t(2) by fastforce
  show "rs \<noteq> [] \<Longrightarrow> card (dom (nv_heap s)) = card (dom F) + store_size ot + 4 + 5 * length rs"
    using ddb_ok_view [OF t(1)] view by blast
qed

section \<open>Storing the address of a record\<close>

lemma others_update: "others (AList.update (view section_name_ddbrec) v st) = others st"
  by (induction st) (auto simp: others_def)

lemma others_set: "others (store_set (view section_name_ddbrec) k v st) = others st"
  unfolding store_set_def by (rule others_update)

lemma ddb_abs_set: "ddb_abs (store_set (view section_name_ddbrec) k v st) = AList.update k v (ddb_abs st)"
  by (simp add: ddb_abs_def store_set_def update_conv')

lemma database_set:
  assumes "database s rs ot F" "length rs < DDB_RECORD_NUM" "alloc_ok K al" "card (dom (nv_heap s)) + 8 \<le> K"
    "length a = 6" "a \<notin> (\<lambda>x. rec_addr (snd x)) ` set rs" "F p = Some (RECORD R)" "p \<noteq> 0" "rec_addr R = a"
  shows "\<exists>h'. nvrec_config_set_int al (nv_config s) section_name_ddbrec (addr_key a) (sint p) (nv_heap s) = Some h' \<and>
    database (s\<lparr>nv_heap := h'\<rparr>) (rs @ [(p, R)]) ot (F(p := None))"
proof -
  obtain T where t: "owns (nv_heap s) (cf_cells T @ ddb_cells rs) F" "wf_cft T" "nv_config s = cf_addr T"
    "ddb_abs (cf_abs T) = map ddb_entry rs" "others (cf_abs T) = ot" using assms(1) unfolding database_def ddb_ok_def by blast
  have k: "key_ok section_name_ddbrec (addr_key a)" "take 6 (addr_key a) = a" using addr_key [OF assms(5)] by simp_all
  have "- (2 ^ 31) \<le> sint p" "sint p < 2 ^ 31" using sint_greater_eq [of p] sint_less [of p] by simp_all
  from set_int_ok [OF owns_part [OF t(1)] t(2) assms(3,4) ddb_terminated k(1) this]
  obtain T' h' where u: "nvrec_config_set_int al (cf_addr T) section_name_ddbrec (addr_key a) (sint p) (nv_heap s) = Some h'"
    "owns h' (cf_cells T') (F ++ map_of (ddb_cells rs))" "wf_cft T'" "cf_addr T' = cf_addr T"
    "cf_abs T' = store_set (view section_name_ddbrec) a (sprintf_d (sint p)) (cf_abs T)" using k(2) by auto
  have n: "a \<notin> fst ` set (map ddb_entry rs)" using assms(6) by (force simp: ddb_entry_def)
  have abs: "ddb_abs (cf_abs T') = map ddb_entry (rs @ [(p, R)])" "others (cf_abs T') = ot"
    unfolding u(5) ddb_abs_set others_set t(4,5) update_end [OF n] by (simp_all add: ddb_entry_def assms(9))
  have o: "owns h' (cf_cells T' @ ddb_cells rs) F" by (rule owns_swap [OF t(1) u(2)])
  define F' where "F' = F(p := None)"
  have "F = F' ++ map_of [(p, RECORD R)]" using assms(7) by (auto simp: F'_def fun_eq_iff)
  then have "owns h' (cf_cells T' @ ddb_cells rs) (F' ++ map_of [(p, RECORD R)])" using o by simp
  then have "owns h' ((cf_cells T' @ ddb_cells rs) @ [(p, RECORD R)]) F'"
    by (rule owns_join) (use assms(8) in \<open>auto simp: F'_def\<close>)
  then have "owns h' (cf_cells T' @ ddb_cells (rs @ [(p, R)])) F'" by (simp add: ddb_cells_def)
  then have "ddb_ok (s\<lparr>nv_heap := h'\<rparr>) T' (rs @ [(p, R)]) F'"
    using u(3,4) t(3) abs assms(2) by (simp add: ddb_ok_def)
  then show ?thesis using u(1) abs(2) t(3) unfolding database_def F'_def by metis
qed

section \<open>The list of records\<close>

definition bound_recs :: "'a list \<Rightarrow> 'a list" where
  "bound_recs xs = (if length xs = DDB_RECORD_NUM then tl xs else xs)"

definition without :: "u8 list \<Rightarrow> nvrec_btdevicerecord list \<Rightarrow> nvrec_btdevicerecord list" where
  "without a xs = filter (\<lambda>R. rec_addr R \<noteq> a) xs"

definition new_record :: "btdevice_volume \<Rightarrow> btif_device_record \<Rightarrow> nvrec_btdevicerecord" where
  "new_record vol r = \<lparr>nb_record = r, nb_volume = vol,
     nb_profile = \<lparr>hfp_act = False, hsp_act = False, a2dp_act = False, a2dp_codectype = 0\<rparr>\<rparr>"

definition mru_add :: "btdevice_volume \<Rightarrow> btif_device_record \<Rightarrow> nvrec_btdevicerecord list \<Rightarrow> nvrec_btdevicerecord list" where
  "mru_add vol r xs = (case find (\<lambda>R. rec_addr R = bdAddr r) xs of
     None \<Rightarrow> bound_recs xs @ [new_record vol r]
   | Some R \<Rightarrow> if nb_record R = r \<and> last xs = R then xs else without (bdAddr r) xs @ [R\<lparr>nb_record := r\<rparr>])"

lemma same_record: "same_record a b \<longleftrightarrow> a = b"
  by (cases a; cases b) (auto simp: same_record_def)

lemma map_snd_filter: "map snd (filter (\<lambda>x. rec_addr (snd x) \<noteq> a) rs) = without a (map snd rs)"
  by (simp add: without_def filter_map o_def)

lemma rec_at_find: "find (\<lambda>R. rec_addr R = a) (map snd rs) = map_option snd (rec_at rs a)"
  unfolding rec_at_def by (induction rs) auto

lemma filter_shorter: "x \<in> set xs \<Longrightarrow> \<not> P x \<Longrightarrow> length (filter P xs) < length xs"
  by (induction xs) (auto simp: less_Suc_eq_le)

lemma ddbrec_length:
  assumes "database s rs ot F"
  shows "config_entries_get_ddbrec_length (nv_config s) section_name_ddbrec (nv_heap s) = Some (of_nat (length rs))"
proof (cases "rs = []")
  case False
  obtain T pre sc post where v: "ddb_view (nv_heap s) T pre sc post rs F" "nv_config s = cf_addr T"
    by (rule database_Cons [OF assms False])
  have "length (sc_ents sc) = length rs" using v(1) list_all2_lengthD unfolding ddb_view_def by blast
  then show ?thesis using ddbrec_length_ok [OF view_at(1,3) [OF v(1)]] v(2) by simp
next
  case True
  obtain T where t: "ddb_ok s T rs F" using assms by (auto simp: database_def)
  from ddb_ok_view [OF t] show ?thesis
  proof
    assume n: "rs = [] \<and> find (\<lambda>s. sct_name s = view section_name_ddbrec) (cf_secs T) = None"
    have o: "owns (nv_heap s) (cf_cells T) (F ++ map_of (ddb_cells rs))" "wf_cft T" "nv_config s = cf_addr T"
      using t owns_part unfolding ddb_ok_def by blast+
    show ?thesis using section_find_ok [OF o(1,2) ddb_terminated] n o(3) by (simp add: config_entries_get_ddbrec_length_def)
  next
    assume "\<exists>pre sc post. ddb_view (nv_heap s) T pre sc post rs F"
    then obtain pre sc post where v: "ddb_view (nv_heap s) T pre sc post rs F" by blast
    have "sc_ents sc = []" using v True by (simp add: ddb_view_def)
    then show ?thesis using ddbrec_length_ok [OF view_at(1,3) [OF v]] t True by (simp add: ddb_ok_def)
  qed
qed


section \<open>Adding\<close>

lemma database_length: "database s rs ot F \<Longrightarrow> length rs \<le> DDB_RECORD_NUM"
  by (auto simp: database_def ddb_ok_def)

lemma database_frame:
  assumes "database s rs ot F" "nv_heap s p = None" "p \<noteq> 0"
  shows "F p = None" "database (s\<lparr>nv_heap := (nv_heap s)(p \<mapsto> ob)\<rparr>) rs ot (F(p \<mapsto> ob))"
proof -
  obtain T where t: "ddb_ok s T rs F" "others (cf_abs T) = ot" using assms(1) by (auto simp: database_def)
  then have o: "owns (nv_heap s) (cf_cells T @ ddb_cells rs) F" by (simp add: ddb_ok_def)
  then show "F p = None" using assms(2) by (auto simp: owns_def map_add_None)
  have "owns ((nv_heap s)(p \<mapsto> ob)) ((cf_cells T @ ddb_cells rs) @ [(p, ob)]) F"
    by (rule owns_perm [OF owns_alloc [OF o assms(2,3)]]) auto
  from owns_part [OF this] have "owns ((nv_heap s)(p \<mapsto> ob)) (cf_cells T @ ddb_cells rs) (F(p \<mapsto> ob))" by simp
  then show "database (s\<lparr>nv_heap := (nv_heap s)(p \<mapsto> ob)\<rparr>) rs ot (F(p \<mapsto> ob))"
    using t unfolding database_def ddb_ok_def by (intro exI [of _ T]) simp
qed

lemma full_word: "n \<le> DDB_RECORD_NUM \<Longrightarrow> (of_nat n :: u32) = of_nat DDB_RECORD_NUM \<longleftrightarrow> n = DDB_RECORD_NUM"
  unfolding word_of_nat_eq_iff by (simp add: take_bit_nat_eq_self DDB_RECORD_NUM_def)

lemma bound_ok:
  assumes "database s rs ot F"
  shows "\<exists>h' rs'. (if of_nat (length rs) = (of_nat DDB_RECORD_NUM :: u32) then config_entries_ddbdev_delete_head (nv_config s) (nv_heap s)
      else Some (nv_heap s)) = Some h' \<and> database (s\<lparr>nv_heap := h'\<rparr>) rs' ot F \<and> map snd rs' = bound_recs (map snd rs) \<and>
    set rs' \<subseteq> set rs \<and> length rs' < DDB_RECORD_NUM \<and> card (dom h') \<le> card (dom (nv_heap s))"
proof (cases "length rs = DDB_RECORD_NUM")
  case True
  then obtain x xs where x: "rs = x # xs" by (cases rs) (auto simp: DDB_RECORD_NUM_def)
  obtain h' where h: "config_entries_ddbdev_delete_head (nv_config s) (nv_heap s) = Some h'" "database (s\<lparr>nv_heap := h'\<rparr>) xs ot F"
    using database_delete_head assms unfolding x by blast
  have "card (dom h') \<le> card (dom (nv_heap s))"
    using database_card(1) [OF h(2)] database_card(2) [OF assms] by (simp add: x)
  then show ?thesis using h True by (intro exI [of _ h'] exI [of _ xs]) (auto simp: x bound_recs_def)
next
  case False
  then have "length rs < DDB_RECORD_NUM" using database_length [OF assms] by simp
  then show ?thesis using assms False by (intro exI [of _ "nv_heap s"] exI [of _ rs]) (simp add: full_word bound_recs_def)
qed

lemma known_iff: "rec_at rs a \<noteq> None \<longleftrightarrow> (\<exists>p R. (p, R) \<in> set rs \<and> rec_addr R = a)"
  by (force simp: rec_at_def find_None_iff)

lemma replace_ok:
  assumes "database s rs ot F" "ex \<longleftrightarrow> rec_at rs (bdAddr r) \<noteq> None"
  shows "\<exists>s' rs'. (if ex then config_specific_entry_value_delete r s else Some s) = Some s' \<and> database s' rs' ot F \<and>
    map snd rs' = without (bdAddr r) (map snd rs) \<and> nv_config s' = nv_config s \<and> card (dom (nv_heap s')) \<le> card (dom (nv_heap s))"
proof (cases ex)
  case True
  then obtain p R where m: "(p, R) \<in> set rs" "rec_addr R = bdAddr r" using assms(2) known_iff [of rs] by blast
  obtain h' where h: "config_specific_entry_value_delete r s = Some (s\<lparr>nv_heap := h', nv_is_update := True\<rparr>)"
    "database (s\<lparr>nv_heap := h'\<rparr>) (filter (\<lambda>x. rec_addr (snd x) \<noteq> bdAddr r) rs) ot F"
    using specific_delete_ok [OF assms(1) m] by blast
  have "rs \<noteq> []" using m by auto
  then have "card (dom h') \<le> card (dom (nv_heap s))"
    using database_card(1) [OF h(2)] database_card(2) [OF assms(1)] length_filter_le [of "\<lambda>x. rec_addr (snd x) \<noteq> bdAddr r" rs]
    by (simp del: length_filter_le)
  then show ?thesis using True h by (intro exI [of _ "s\<lparr>nv_heap := h', nv_is_update := True\<rparr>"] exI [of _ "filter (\<lambda>x. rec_addr (snd x) \<noteq> bdAddr r) rs"])
      (simp add: map_snd_filter database_def ddb_ok_def)
next
  case False
  then have "\<forall>x \<in> set rs. rec_addr (snd x) \<noteq> bdAddr r" using assms(2) known_iff [of rs "bdAddr r"] by (metis prod.collapse)
  then have "without (bdAddr r) (map snd rs) = map snd rs" by (simp add: without_def)
  then show ?thesis using False assms(1) by auto
qed

lemma ddbrec_store_ok:
  assumes "database s rs ot F" "alloc_ok K (pl_malloc pl)" "card (dom (nv_heap s)) + 9 \<le> K" "pl_rec_size pl \<le> pl_free_space pl (nv_heap s)"
    "length (bdAddr r) = 6" "ex \<longleftrightarrow> rec_at rs (bdAddr r) \<noteq> None"
  shows "\<exists>s' rs'. ddbrec_store pl r ex vol plf s = Some (BT_STS_SUCCESS, s') \<and> database s' rs' ot F \<and> nv_is_update s' \<and>
    map snd rs' = bound_recs (without (bdAddr r) (map snd rs)) @ [\<lparr>nb_record = r, nb_volume = vol, nb_profile = plf\<rparr>]"
proof -
  let ?R = "\<lparr>nb_record = r, nb_volume = vol, nb_profile = plf\<rparr>"
  have "card (dom (nv_heap s)) < K" using assms(3) by simp
  then obtain p where p: "pool_malloc (pl_malloc pl) (pl_rec_size pl) (nv_heap s) = (p, (nv_heap s)(p \<mapsto> RAW))" "p \<noteq> 0" "nv_heap s p = None"
    using pool_malloc_ok [OF assms(2)] by metis
  define s1 where "s1 = s\<lparr>nv_heap := (nv_heap s)(p \<mapsto> RECORD ?R)\<rparr>"
  define G where "G = F(p \<mapsto> RECORD ?R)"
  have d1: "database s1 rs ot G" and Fp: "F p = None"
    unfolding s1_def G_def using database_frame [OF assms(1) p(3,2)] by blast+
  have c1: "card (dom (nv_heap s1)) + 8 \<le> K" using assms(3) p(3) finite_heap by (simp add: s1_def card_insert_if)
  obtain s2 rs2 where s2: "(if ex then config_specific_entry_value_delete r s1 else Some s1) = Some s2" "database s2 rs2 ot G"
    "map snd rs2 = without (bdAddr r) (map snd rs)" "nv_config s2 = nv_config s1" "card (dom (nv_heap s2)) \<le> card (dom (nv_heap s1))"
    using replace_ok [OF d1 assms(6)] by blast
  obtain h3 rs3 where h3: "(if of_nat (length rs2) = (of_nat DDB_RECORD_NUM :: u32) then config_entries_ddbdev_delete_head (nv_config s2) (nv_heap s2)
      else Some (nv_heap s2)) = Some h3" "database (s2\<lparr>nv_heap := h3\<rparr>) rs3 ot G" "map snd rs3 = bound_recs (map snd rs2)"
    "set rs3 \<subseteq> set rs2" "length rs3 < DDB_RECORD_NUM" "card (dom h3) \<le> card (dom (nv_heap s2))"
    using bound_ok [OF s2(2)] by blast
  have "bdAddr r \<notin> rec_addr ` set (map snd rs2)" unfolding s2(3) by (auto simp: without_def)
  then have new: "bdAddr r \<notin> (\<lambda>x. rec_addr (snd x)) ` set rs3" using h3(4) by auto
  have c3: "card (dom (nv_heap (s2\<lparr>nv_heap := h3\<rparr>))) + 8 \<le> K" using c1 s2(5) h3(6) by simp
  obtain h4 where h4: "nvrec_config_set_int (pl_malloc pl) (nv_config s2) section_name_ddbrec (addr_key (bdAddr r)) (sint p) h3 = Some h4"
    "database (s2\<lparr>nv_heap := h4\<rparr>) (rs3 @ [(p, ?R)]) ot (G(p := None))"
    using database_set [OF h3(2,5) assms(2) c3 assms(5) new, of p ?R] p(2) by (auto simp: G_def rec_addr_def)
  have "G(p := None) = F" using Fp by (simp add: G_def fun_upd_idem)
  then have d4: "database (s2\<lparr>nv_heap := h4\<rparr>) (rs3 @ [(p, ?R)]) ot F" using h4(2) by simp
  have run: "ddbrec_store pl r ex vol plf s = do {
      s \<leftarrow> (if ex then config_specific_entry_value_delete r s1 else Some s1);
      n \<leftarrow> config_entries_get_ddbrec_length (nv_config s1) section_name_ddbrec (nv_heap s);
      h \<leftarrow> (if n = of_nat DDB_RECORD_NUM then config_entries_ddbdev_delete_head (nv_config s1) (nv_heap s) else Some (nv_heap s));
      h \<leftarrow> nvrec_config_set_int (pl_malloc pl) (nv_config s1) section_name_ddbrec (addr_key (bdAddr r)) (sint p) h;
      Some (BT_STS_SUCCESS, nv_record_update_runtime_userdata (s\<lparr>nv_heap := h\<rparr>)) }"
    using p(1,2) assms(4) by (simp add: ddbrec_store_def s1_def Let_def cong: if_cong)
  have "ddbrec_store pl r ex vol plf s = Some (BT_STS_SUCCESS, s2\<lparr>nv_heap := h4, nv_is_update := True\<rparr>)"
    unfolding run using s2(1,4) ddbrec_length [OF s2(2)] h3(1) h4(1) update_runtime [OF d4] by (simp add: s1_def split del: if_split cong: if_cong)
  then show ?thesis using d4 h3(3) s2(3)
    by (intro exI [of _ "s2\<lparr>nv_heap := h4, nv_is_update := True\<rparr>"] exI [of _ "rs3 @ [(p, ?R)]"]) (simp add: database_def ddb_ok_def)
qed


text \<open>Records of a database have distinct addresses.\<close>

lemma database_distinct: "database s rs ot F \<Longrightarrow> distinct (map (\<lambda>x. rec_addr (snd x)) rs)"
proof (cases "rs = []")
  case False
  assume d: "database s rs ot F"
  obtain T pre sc post where v: "ddb_view (nv_heap s) T pre sc post rs F" by (rule database_Cons [OF d False])
  show ?thesis by (rule view_distinct(1) [OF v])
qed simp

lemma database_is_tail:
  assumes "database s rs ot F" "rs \<noteq> []" "length (bdAddr r) = 6"
  shows "config_entries_ddbdev_is_tail (nv_config s) r (nv_heap s) = Some (rec_addr (snd (last rs)) = bdAddr r)"
proof -
  obtain T pre sc post where v: "ddb_view (nv_heap s) T pre sc post rs F" "nv_config s = cf_addr T" by (rule database_Cons [OF assms(1,2)])
  have "ents_rel (sc_ents sc) rs" using v(1) by (simp add: ddb_view_def)
  from is_tail_ok [OF view_at(1,2) [OF v(1)] this assms(2,3)] show ?thesis by (simp add: v(2))
qed

lemma last_is:
  assumes "database s rs ot F" "(p, R) \<in> set rs"
  shows "rec_addr (snd (last rs)) = rec_addr R \<longleftrightarrow> last (map snd rs) = R"
proof
  have ne: "rs \<noteq> []" using assms(2) by auto
  then have "last rs \<in> set rs" by simp
  moreover assume "rec_addr (snd (last rs)) = rec_addr R"
  ultimately have "last rs = (p, R)"
    using database_distinct [OF assms(1)] assms(2) unfolding distinct_map inj_on_def by force
  then show "last (map snd rs) = R" using ne by (simp add: last_map)
next
  have ne: "rs \<noteq> []" using assms(2) by auto
  assume "last (map snd rs) = R"
  then show "rec_addr (snd (last rs)) = rec_addr R" using ne by (simp add: last_map)
qed

lemma without_short:
  assumes "length xs \<le> DDB_RECORD_NUM" "R \<in> set xs" "rec_addr R = a"
  shows "bound_recs (without a xs) = without a xs"
  using filter_shorter [of R xs "\<lambda>R. rec_addr R \<noteq> a"] assms by (simp add: bound_recs_def without_def)

lemma without_none: "find (\<lambda>R. rec_addr R = a) xs = None \<Longrightarrow> without a xs = xs"
  by (auto simp: find_None_iff without_def filter_id_conv)

lemma add_ok:
  assumes "database s rs ot F" "alloc_ok K (pl_malloc pl)" "card (dom (nv_heap s)) + 9 \<le> K"
    "pl_rec_size pl \<le> pl_free_space pl (nv_heap s)" "length (bdAddr r) = 6"
  shows "\<exists>s' rs'. nv_record_add pl section_usrdata_ddbrecord (Some r) s = Some (BT_STS_SUCCESS, s') \<and> database s' rs' ot F \<and>
    map snd rs' = mru_add (pl_volume pl) r (map snd rs) \<and> (s' = s \<or> nv_is_update s')"
proof -
  have gi: "nvrec_config_get_int (nv_config s) section_name_ddbrec (addr_key (bdAddr r)) 0 (nv_heap s) =
      Some (case rec_at rs (bdAddr r) of None \<Rightarrow> 0 | Some x \<Rightarrow> sint (fst x))"
    by (rule database_get_int [OF assms(1,5)])
  have add: "nv_record_add pl section_usrdata_ddbrecord (Some r) s = nv_record_ddbrec_add pl (Some r) s"
    by (simp add: nv_record_add_def)
  show ?thesis
  proof (cases "rec_at rs (bdAddr r)")
    case None
    obtain s' rs' where s': "ddbrec_store pl r False (pl_volume pl) \<lparr>hfp_act = False, hsp_act = False, a2dp_act = False, a2dp_codectype = 0\<rparr> s = Some (BT_STS_SUCCESS, s')"
      "database s' rs' ot F" "nv_is_update s'" "map snd rs' = bound_recs (without (bdAddr r) (map snd rs)) @ [new_record (pl_volume pl) r]"
      using ddbrec_store_ok [OF assms, of False] None unfolding new_record_def by blast
    have f: "find (\<lambda>R. rec_addr R = bdAddr r) (map snd rs) = None" by (simp add: rec_at_find None)
    have "map snd rs' = mru_add (pl_volume pl) r (map snd rs)" using s'(4) f without_none [OF f] by (simp add: mru_add_def)
    then show ?thesis using s'(1-3) gi None unfolding add by (auto simp: nv_record_ddbrec_add_def)
  next
    case (Some x)
    obtain p R where x: "x = (p, R)" by (cases x)
    have m: "(p, R) \<in> set rs" "rec_addr R = bdAddr r" using rec_at_mem [OF Some] by (simp_all add: x)
    have rec: "get_record p (nv_heap s) = Some R" "p \<noteq> 0" using database_rec [OF assms(1) m(1)] by simp_all
    have ne: "rs \<noteq> []" using m(1) by auto
    note tl = database_is_tail [OF assms(1) ne assms(5)] and la = last_is [OF assms(1) m(1)]
    have f: "find (\<lambda>R. rec_addr R = bdAddr r) (map snd rs) = Some R" by (simp add: rec_at_find Some x)
    show ?thesis
    proof (cases "nb_record R = r \<and> last (map snd rs) = R")
      case True
      then have "nv_record_ddbrec_add pl (Some r) s = Some (BT_STS_SUCCESS, s)"
        using gi rec tl la m(2) by (simp add: nv_record_ddbrec_add_def Some x same_record)
      moreover have "mru_add (pl_volume pl) r (map snd rs) = map snd rs" using f True by (simp add: mru_add_def)
      ultimately show ?thesis using assms(1) unfolding add by metis
    next
      case False
      obtain s' rs' where s': "ddbrec_store pl r True (nb_volume R) (nb_profile R) s = Some (BT_STS_SUCCESS, s')"
        "database s' rs' ot F" "nv_is_update s'" "map snd rs' = bound_recs (without (bdAddr r) (map snd rs)) @ [R\<lparr>nb_record := r\<rparr>]"
        using ddbrec_store_ok [OF assms, of True "nb_volume R" "nb_profile R"] Some by (cases R) auto
      have "bound_recs (without (bdAddr r) (map snd rs)) = without (bdAddr r) (map snd rs)"
        by (rule without_short [where R = R]) (use database_length [OF assms(1)] m in force)+
      then have "map snd rs' = mru_add (pl_volume pl) r (map snd rs)" using s'(4) f False by (auto simp: mru_add_def)
      moreover have "nv_record_ddbrec_add pl (Some r) s = Some (BT_STS_SUCCESS, s')"
        using gi rec tl la m(2) s'(1) False by (auto simp: nv_record_ddbrec_add_def Some x same_record)
      ultimately show ?thesis using s'(2,3) unfolding add by metis
    qed
  qed
qed

end
