(* ===== verification/Nvrec_Ddb_Runs.thy ===== *)
theory Nvrec_Ddb_Runs
  imports Nvrec_Ddb_Props
begin

text \<open>
  Deleting, reading and enumerating devices, whole runs of the database from a fresh configuration, and what
  happens when the pool is nearly full.
\<close>

section \<open>Adding\<close>

text \<open>C10: Adding a device refines the most-recently-used list: with room in the pool, it succeeds; a new device goes to
  the end, and when there are nine the oldest goes; a known one moves to the end, with the data it brings and the
  volumes and profiles it had; only a device that is already last with the same data changes nothing. The other
  sections, and all else in the pool, stay, and nothing leaks.\<close>

theorem ddb_add_refines_mru:
  assumes "database s rs ot F" "alloc_ok K (pl_malloc pl)" "card (dom (nv_heap s)) + 9 \<le> K"
    "pl_rec_size pl \<le> pl_free_space pl (nv_heap s)" "length (bdAddr r) = 6"
  shows "\<exists>s' rs'. nv_record_add pl section_usrdata_ddbrecord (Some r) s = Some (BT_STS_SUCCESS, s') \<and> database s' rs' ot F \<and>
    map snd rs' = mru_add (pl_volume pl) r (map snd rs) \<and> (s' = s \<or> nv_is_update s')"
  by (rule add_ok [OF assms])

section \<open>Deleting\<close>

lemma delete_known:
  assumes "database s rs ot F" "length a = 6" "rec_at rs a = Some x"
  shows "\<exists>s' rs'. nv_record_ddbrec_delete a s = Some (BT_STS_SUCCESS, s') \<and> database s' rs' ot F \<and>
    map snd rs' = without a (map snd rs) \<and> nv_is_update s'"
proof -
  obtain p R where x: "x = (p, R)" by (cases x)
  have m: "(p, R) \<in> set rs" "rec_addr R = a" using rec_at_mem [OF assms(3)] by (simp_all add: x)
  note r = database_rec [OF assms(1) m(1)]
  have "rec_addr R = bdAddr (nb_record R)" by (simp add: rec_addr_def)
  then obtain h' where h: "config_specific_entry_value_delete (nb_record R) s = Some (s\<lparr>nv_heap := h', nv_is_update := True\<rparr>)"
    "database (s\<lparr>nv_heap := h'\<rparr>) (filter (\<lambda>x. rec_addr (snd x) \<noteq> a) rs) ot F"
    using specific_delete_ok [OF assms(1) m(1), of "nb_record R"] m(2) by auto
  have "nv_record_ddbrec_delete a s = Some (BT_STS_SUCCESS, s\<lparr>nv_heap := h', nv_is_update := True\<rparr>)"
    using database_get_int [OF assms(1,2)] r(1,2) h(1) by (simp add: nv_record_ddbrec_delete_def assms(3) x)
  then show ?thesis using h(2)
    by (intro exI [of _ "s\<lparr>nv_heap := h', nv_is_update := True\<rparr>"] exI [of _ "filter (\<lambda>x. rec_addr (snd x) \<noteq> a) rs"])
      (simp add: map_snd_filter database_def ddb_ok_def)
qed

lemma delete_unknown:
  assumes "database s rs ot F" "length a = 6" "rec_at rs a = None"
  shows "nv_record_ddbrec_delete a s = Some (BT_STS_FAILED, s)"
  using database_get_int [OF assms(1,2)] assms(3) by (simp add: nv_record_ddbrec_delete_def)

lemma find_none_addr: "find (\<lambda>R. rec_addr R = a) xs = None \<Longrightarrow> a \<notin> rec_addr ` set xs"
  by (auto simp: find_None_iff)

lemma delete_ok:
  assumes "database s rs ot F" "length a = 6"
  shows "\<exists>s' rs'. nv_record_ddbrec_delete a s = Some (if a \<in> rec_addr ` set (map snd rs) then BT_STS_SUCCESS else BT_STS_FAILED, s') \<and>
    database s' rs' ot F \<and> map snd rs' = without a (map snd rs) \<and> (a \<in> rec_addr ` set (map snd rs) \<and> nv_is_update s' \<or> s' = s)"
proof (cases "rec_at rs a")
  case None
  then have f: "find (\<lambda>R. rec_addr R = a) (map snd rs) = None" by (simp add: rec_at_find)
  show ?thesis using delete_unknown [OF assms None] assms(1) without_none [OF f] find_none_addr [OF f] by metis
next
  case (Some x)
  have "a \<in> rec_addr ` set (map snd rs)" using rec_at_mem [OF Some] by force
  then show ?thesis using delete_known [OF assms Some] by auto
qed

text \<open>C37: Deleting a device succeeds exactly if it is known; then it is gone, the others stay in their order with their
  data, and its record, key, value and node are released: the heap is again a database of the others and nothing
  else. A device that is not known leaves everything as it is.\<close>

theorem ddb_delete_removes:
  assumes "database s rs ot F" "length a = 6"
  shows "\<exists>s' rs'. nv_record_ddbrec_delete a s = Some (if a \<in> rec_addr ` set (map snd rs) then BT_STS_SUCCESS else BT_STS_FAILED, s') \<and>
    database s' rs' ot F \<and> map snd rs' = without a (map snd rs) \<and> (a \<in> rec_addr ` set (map snd rs) \<and> nv_is_update s' \<or> s' = s)"
  by (rule delete_ok [OF assms])

section \<open>Reading\<close>

lemma database_config: "database s rs ot F \<Longrightarrow> nv_config s \<noteq> 0"
proof -
  assume "database s rs ot F"
  then obtain T where t: "owns (nv_heap s) (cf_cells T @ ddb_cells rs) F" "nv_config s = cf_addr T"
    unfolding database_def ddb_ok_def by blast
  show ?thesis unfolding t(2)
    by (rule owns_nonzero [OF t(1), of _ "CONFIG \<lparr>nc_sections = cf_list T\<rparr>"]) (simp add: cf_cells_def)
qed

lemma database_empty:
  assumes "database s [] ot F"
  obtains sec where "nvrec_section_find (nv_config s) section_name_ddbrec (nv_heap s) = Some sec" "nv_config s \<noteq> 0"
    "sec \<noteq> 0 \<Longrightarrow> \<exists>sc L. get_section sec (nv_heap s) = Some sc \<and> ns_entries sc \<noteq> 0 \<and> get_list (ns_entries sc) (nv_heap s) = Some L \<and> lt_length L = 0"
proof -
  obtain T where t: "ddb_ok s T [] F" using assms by (auto simp: database_def)
  have o: "owns (nv_heap s) (cf_cells T) (F ++ map_of (ddb_cells []))" "wf_cft T" "nv_config s = cf_addr T"
    using t owns_part unfolding ddb_ok_def by blast+
  note f = section_find_ok [OF o(1,2) ddb_terminated]
  show ?thesis
  proof (cases "find (\<lambda>s. sct_name s = view section_name_ddbrec) (cf_secs T)")
    case None
    then show ?thesis using that [of 0] f o(3) by simp
  next
    case (Some sc)
    then obtain pre post where v: "ddb_view (nv_heap s) T pre sc post [] F" using ddb_ok_view [OF t] sec_at_find view_at(1) by fastforce
    have b: "list_begin_ext (sc_list sc) (nv_heap s) = Some (first_node 0 (ent_items (sc_ents sc)))" using view_at(2) [OF v] by (simp add: ents_at_def)
    have "sc_list sc \<noteq> 0" using b by (auto simp: list_begin_ext_def check_def split: if_splits)
    moreover have "sc_ents sc = []" using v by (simp add: ddb_view_def)
    ultimately show ?thesis using that [of "sc_addr sc"] sec_at_reads [OF view_at(1) [OF v]] view_at(3) [OF v] o(3) by simp
  qed
qed

lemma enum_ok:
  assumes "database s rs ot F" "i < length rs"
  shows "nv_record_enum_dev_records i (Some out) s = Some (BT_STS_SUCCESS, Some (nb_record (snd (rs ! i))))"
proof -
  have "(fst (rs ! i), snd (rs ! i)) \<in> set rs" using assms(2) by simp
  note r = database_rec [OF assms(1) this]
  show ?thesis
    by (rule database_entry [OF assms]) (use r database_length [OF assms(1)] assms(2) in \<open>auto simp: nv_record_enum_dev_records_def\<close>)
qed

lemma enum_beyond:
  assumes "database s rs ot F" "length rs \<le> i"
  shows "\<exists>st. st \<noteq> BT_STS_SUCCESS \<and> nv_record_enum_dev_records i (Some out) s = Some (st, Some out)"
proof (cases "rs = []")
  case True
  then have "database s [] ot F" using assms(1) by simp
  then show ?thesis by (rule database_empty) (auto simp: nv_record_enum_dev_records_def)
next
  case False
  then have "0 < length rs" by simp
  from database_entry [OF assms(1) this] obtain sec sc L where "nvrec_section_find (nv_config s) section_name_ddbrec (nv_heap s) = Some sec" "sec \<noteq> 0"
    "get_section sec (nv_heap s) = Some sc" "ns_entries sc \<noteq> 0" "get_list (ns_entries sc) (nv_heap s) = Some L" "unat (lt_length L) = length rs"
    by metis
  then show ?thesis using assms(2) by (simp add: nv_record_enum_dev_records_def)
qed

lemma count_ok:
  assumes "database s rs ot F"
  shows "nv_record_get_paired_dev_count s = Some (int (length rs))"
proof (cases "rs = []")
  case True
  then have "database s [] ot F" using assms(1) by simp
  then show ?thesis by (rule database_empty) (auto simp: nv_record_get_paired_dev_count_def True)
next
  case False
  then have p: "0 < length rs" by simp
  have "length rs \<le> 9" using database_length [OF assms] by (simp add: DDB_RECORD_NUM_def)
  then have "sint (of_nat (length rs) :: u32) = int (length rs)" by (simp add: signed_of_nat signed_take_bit_int_eq_self)
  moreover from database_entry [OF assms(1) p] obtain sec sc L where
    "nvrec_section_find (nv_config s) section_name_ddbrec (nv_heap s) = Some sec" "sec \<noteq> 0" "get_section sec (nv_heap s) = Some sc"
    "ns_entries sc \<noteq> 0" "get_list (ns_entries sc) (nv_heap s) = Some L" "unat (lt_length L) = length rs"
    by metis
  moreover from this(6) have "lt_length L = of_nat (length rs)" by (metis of_nat_unat ucast_id)
  ultimately show ?thesis by (simp add: nv_record_get_paired_dev_count_def)
qed

lemma latest_two_ok:
  assumes "database s rs ot F"
  shows "nv_record_enum_latest_two_paired_dev (Some o1) (Some o2) s = Some (case rev (map (\<lambda>x. nb_record (snd x)) rs) of
      [] \<Rightarrow> (0, Some o1, Some o2) | [r] \<Rightarrow> (1, Some r, Some o2) | r # r' # _ \<Rightarrow> (2, Some r, Some r'))"
proof (cases "rs = []")
  case True
  then have "database s [] ot F" using assms by simp
  then show ?thesis by (rule database_empty) (auto simp: nv_record_enum_latest_two_paired_dev_def True)
next
  case False
  then have p: "0 < length rs" by simp
  have le: "length rs \<le> 9" using database_length [OF assms] by (simp add: DDB_RECORD_NUM_def)
  from database_entry [OF assms p] obtain sec sc L where
    sec: "nvrec_section_find (nv_config s) section_name_ddbrec (nv_heap s) = Some sec" "sec \<noteq> 0" "get_section sec (nv_heap s) = Some sc"
    "ns_entries sc \<noteq> 0" "get_list (ns_entries sc) (nv_heap s) = Some L" "unat (lt_length L) = length rs"
    by metis
  obtain xs x where x: "rs = xs @ [x]" using False rev_exhaust by blast
  show ?thesis
  proof (cases xs rule: rev_cases)
    case Nil
    then show ?thesis using sec enum_ok [OF assms p, of o1] by (simp add: nv_record_enum_latest_two_paired_dev_def x)
  next
    case (snoc ys y)
    have n: "length rs = Suc (Suc (length ys))" by (simp add: x snoc)
    have e: "nv_record_enum_dev_records (Suc (length ys)) (Some o1) s = Some (BT_STS_SUCCESS, Some (nb_record (snd x)))"
      "nv_record_enum_dev_records (length ys) (Some o2) s = Some (BT_STS_SUCCESS, Some (nb_record (snd y)))"
      using enum_ok [OF assms, of "Suc (length ys)" o1] enum_ok [OF assms, of "length ys" o2] by (simp_all add: x snoc nth_append)
    have m: "Suc (length ys) mod 65536 = Suc (length ys)" "length ys mod 65536 = length ys" using le n by simp_all
    show ?thesis using sec e by (simp add: nv_record_enum_latest_two_paired_dev_def n m Let_def) (simp add: x snoc)
  qed
qed

text \<open>C38: Looking up, counting and enumerating devices read the list: a known address gives the record of that device,
  in the caller's buffer or by its address; enumeration returns the record at each index and fails beyond the end
  without writing the buffer; the two latest are the last two of the list, the latest first.\<close>

theorem ddb_reads_list:
  assumes "database s rs ot F" "length a = 6"
  shows "nv_record_ddbrec_find (Some a) (Some out) s = Some (case rec_at rs a of None \<Rightarrow> (BT_STS_FAILED, Some out)
      | Some x \<Rightarrow> (BT_STS_SUCCESS, Some (nb_record (snd x)))) \<and>
    nv_record_btdevicerecord_find (Some a) (Some q) s = Some (case rec_at rs a of None \<Rightarrow> (-1, Some q) | Some x \<Rightarrow> (0, Some (fst x))) \<and>
    (\<forall>x \<in> set rs. get_record (fst x) (nv_heap s) = Some (snd x)) \<and>
    nv_record_get_paired_dev_count s = Some (int (length rs)) \<and>
    (\<forall>i. if i < length rs then nv_record_enum_dev_records i (Some out) s = Some (BT_STS_SUCCESS, Some (nb_record (snd (rs ! i))))
      else \<exists>st. st \<noteq> BT_STS_SUCCESS \<and> nv_record_enum_dev_records i (Some out) s = Some (st, Some out)) \<and>
    nv_record_enum_latest_two_paired_dev (Some o1) (Some o2) s = Some (case rev (map (\<lambda>x. nb_record (snd x)) rs) of
      [] \<Rightarrow> (0, Some o1, Some o2) | [r] \<Rightarrow> (1, Some r, Some o2) | r # r' # _ \<Rightarrow> (2, Some r, Some r'))"
proof (intro conjI)
  note c = database_config [OF assms(1)]
  note gi = database_get_int [OF assms]
  have r: "get_record (fst x) (nv_heap s) = Some (snd x) \<and> fst x \<noteq> 0" if "x \<in> set rs" for x
    using database_rec [OF assms(1), of "fst x" "snd x"] that by simp
  then show "\<forall>x \<in> set rs. get_record (fst x) (nv_heap s) = Some (snd x)" by blast
  show "nv_record_ddbrec_find (Some a) (Some out) s = Some (case rec_at rs a of None \<Rightarrow> (BT_STS_FAILED, Some out)
      | Some x \<Rightarrow> (BT_STS_SUCCESS, Some (nb_record (snd x))))"
    using gi c r rec_at_mem by (cases "rec_at rs a") (simp_all add: nv_record_ddbrec_find_def)
  show "nv_record_btdevicerecord_find (Some a) (Some q) s = Some (case rec_at rs a of None \<Rightarrow> (-1, Some q) | Some x \<Rightarrow> (0, Some (fst x)))"
    using gi c r rec_at_mem by (cases "rec_at rs a") (simp_all add: nv_record_btdevicerecord_find_def)
qed (use count_ok latest_two_ok enum_ok enum_beyond assms(1) in \<open>simp_all add: not_less\<close>)


section \<open>Updating a record\<close>

lemma database_record_update:
  assumes "database s rs ot F" "(p, R) \<in> set rs" "rec_addr (f R) = rec_addr R"
  shows "\<exists>h'. upd_record p f (nv_heap s) = Some h' \<and> database (s\<lparr>nv_heap := h'\<rparr>) (map (\<lambda>x. if rec_addr (snd x) = rec_addr R then (fst x, f (snd x)) else x) rs) ot F"
proof -
  obtain T where t: "ddb_ok s T rs F" "others (cf_abs T) = ot" using assms(1) by (auto simp: database_def)
  obtain xs ys where rs: "rs = xs @ (p, R) # ys" using assms(2) by (meson split_list)
  let ?g = "\<lambda>x. if rec_addr (snd x) = rec_addr R then (fst x, f (snd x)) else x"
  have "distinct (map (\<lambda>x. rec_addr (snd x)) (xs @ (p, R) # ys))" using database_distinct [OF assms(1)] by (simp add: rs)
  then have "\<forall>x \<in> set xs. rec_addr (snd x) \<noteq> rec_addr R" "\<forall>x \<in> set ys. rec_addr (snd x) \<noteq> rec_addr R" by (auto simp: image_iff)
  then have "map ?g xs = xs" "map ?g ys = ys" by (simp_all add: map_idI)
  then have g: "map ?g rs = xs @ (p, f R) # ys" by (simp add: rs)
  have "owns (nv_heap s) ((cf_cells T @ ddb_cells xs) @ (p, RECORD R) # ddb_cells ys) F" using t(1) by (simp add: ddb_ok_def rs ddb_cells_def)
  from owns_write [OF this, of "RECORD (f R)"]
  have o: "owns ((nv_heap s)(p \<mapsto> RECORD (f R))) (cf_cells T @ ddb_cells (map ?g rs)) F" by (simp add: g ddb_cells_def)
  have "map ddb_entry (map ?g rs) = map ddb_entry rs" by (simp add: g) (simp add: rs ddb_entry_def assms(3))
  then have "ddb_ok (s\<lparr>nv_heap := (nv_heap s)(p \<mapsto> RECORD (f R))\<rparr>) T (map ?g rs) F" using o t(1) by (simp add: ddb_ok_def del: map_map)
  then show ?thesis using database_rec(1) [OF assms(1,2)] t(2) unfolding database_def upd_record_def
    by (intro exI [of _ "(nv_heap s)(p \<mapsto> RECORD (f R))"]) auto
qed

definition with_record :: "u8 list \<Rightarrow> (nvrec_btdevicerecord \<Rightarrow> nvrec_btdevicerecord) \<Rightarrow> nvrec_btdevicerecord list \<Rightarrow> nvrec_btdevicerecord list" where
  "with_record a f xs = map (\<lambda>R. if rec_addr R = a then f R else R) xs"

lemma snd_update: "map snd (map (\<lambda>x. if rec_addr (snd x) = a then (fst x, f (snd x)) else x) rs) = with_record a f (map snd rs)"
  by (simp add: with_record_def if_distrib)

section \<open>Runs\<close>

text \<open>What the Bluetooth services do with the database: add and remove devices, and set the volumes and the profiles
  of one they look up.\<close>

datatype ddb_op = Add btif_device_record | Remove "u8 list" | Volumes "u8 list" u8 u8 | Profiles "u8 list" bool bool bool u8

fun op_addr :: "ddb_op \<Rightarrow> u8 list" where
  "op_addr (Add r) = bdAddr r"
| "op_addr (Remove a) = a"
| "op_addr (Volumes a _ _) = a"
| "op_addr (Profiles a _ _ _ _) = a"

definition on_record :: "u8 list \<Rightarrow> (addr \<Rightarrow> nvheap \<Rightarrow> nvheap option) \<Rightarrow> nv_state \<Rightarrow> nv_state option" where
  "on_record a f s = do {
     (st, q) \<leftarrow> nv_record_btdevicerecord_find (Some a) (Some 0) s;
     p \<leftarrow> q;
     if st \<noteq> 0 then Some s else do { h \<leftarrow> f p (nv_heap s); Some (s\<lparr>nv_heap := h\<rparr>) } }"

definition set_volumes :: "u8 \<Rightarrow> u8 \<Rightarrow> addr \<Rightarrow> nvheap \<Rightarrow> nvheap option" where
  "set_volumes v w p h = do { h \<leftarrow> nv_record_btdevicerecord_set_a2dp_vol p v h; nv_record_btdevicerecord_set_hfp_vol p w h }"

definition set_profiles :: "bool \<Rightarrow> bool \<Rightarrow> bool \<Rightarrow> u8 \<Rightarrow> btdevice_profile \<Rightarrow> btdevice_profile" where
  "set_profiles x y z c P = nv_record_btdevicerecord_set_a2dp_profile_codec c (nv_record_btdevicerecord_set_a2dp_profile_active_state z
     (nv_record_btdevicerecord_set_hsp_profile_active_state y (nv_record_btdevicerecord_set_hfp_profile_active_state x P)))"

fun ddb_step :: "nv_pool \<Rightarrow> ddb_op \<Rightarrow> nv_state \<Rightarrow> nv_state option" where
  "ddb_step pl (Add r) s = map_option snd (nv_record_add pl section_usrdata_ddbrecord (Some r) s)"
| "ddb_step pl (Remove a) s = map_option snd (nv_record_ddbrec_delete a s)"
| "ddb_step pl (Volumes a v w) s = on_record a (set_volumes v w) s"
| "ddb_step pl (Profiles a x y z c) s = on_record a (\<lambda>p. upd_record p (\<lambda>R. R\<lparr>nb_profile := set_profiles x y z c (nb_profile R)\<rparr>)) s"

fun ddb_run :: "nv_pool \<Rightarrow> ddb_op list \<Rightarrow> nv_state \<Rightarrow> nv_state option" where
  "ddb_run pl [] s = Some s"
| "ddb_run pl (op # ops) s = do { s \<leftarrow> ddb_step pl op s; ddb_run pl ops s }"

fun mru_step :: "btdevice_volume \<Rightarrow> ddb_op \<Rightarrow> nvrec_btdevicerecord list \<Rightarrow> nvrec_btdevicerecord list" where
  "mru_step vol (Add r) xs = mru_add vol r xs"
| "mru_step vol (Remove a) xs = without a xs"
| "mru_step vol (Volumes a v w) xs = with_record a (\<lambda>R. R\<lparr>nb_volume := \<lparr>a2dp_vol = v, hfp_vol = w\<rparr>\<rparr>) xs"
| "mru_step vol (Profiles a x y z c) xs =
     with_record a (\<lambda>R. R\<lparr>nb_profile := \<lparr>hfp_act = x, hsp_act = y, a2dp_act = z, a2dp_codectype = c\<rparr>\<rparr>) xs"

definition mru_run :: "btdevice_volume \<Rightarrow> ddb_op list \<Rightarrow> nvrec_btdevicerecord list \<Rightarrow> nvrec_btdevicerecord list" where
  "mru_run vol ops xs = fold (mru_step vol) ops xs"

lemma set_volumes_upd: "set_volumes v w p h = upd_record p (\<lambda>R. R\<lparr>nb_volume := \<lparr>a2dp_vol = v, hfp_vol = w\<rparr>\<rparr>) h"
proof (cases "get_record p h")
  case (Some R)
  then have "get_record p (h(p \<mapsto> RECORD R')) = Some R'" for R' by (simp add: get_record_def)
  then show ?thesis using Some
    by (cases R; cases "nb_volume R") (simp add: set_volumes_def upd_record_def nv_record_btdevicerecord_set_a2dp_vol_def nv_record_btdevicerecord_set_hfp_vol_def)
qed (simp add: set_volumes_def upd_record_def nv_record_btdevicerecord_set_a2dp_vol_def)

lemma set_profiles: "set_profiles x y z c P = \<lparr>hfp_act = x, hsp_act = y, a2dp_act = z, a2dp_codectype = c\<rparr>"
  by (cases P) (simp add: set_profiles_def nv_record_btdevicerecord_set_a2dp_profile_codec_def nv_record_btdevicerecord_set_a2dp_profile_active_state_def
    nv_record_btdevicerecord_set_hsp_profile_active_state_def nv_record_btdevicerecord_set_hfp_profile_active_state_def)

lemma on_record_ok:
  assumes "database s rs ot F" "length a = 6" "\<And>R. rec_addr (f R) = rec_addr R"
  shows "\<exists>s' rs'. on_record a (\<lambda>p. upd_record p f) s = Some s' \<and> database s' rs' ot F \<and> map snd rs' = with_record a f (map snd rs)"
proof -
  have c: "nv_config s \<noteq> 0" using database_config [OF assms(1)] .
  note gi = database_get_int [OF assms(1,2)]
  show ?thesis
  proof (cases "rec_at rs a")
    case None
    then have "\<forall>R \<in> set (map snd rs). rec_addr R \<noteq> a" by (force simp: rec_at_def find_None_iff)
    then have "with_record a f (map snd rs) = map snd rs" by (auto simp: with_record_def intro: map_idI)
    moreover have "on_record a (\<lambda>p. upd_record p f) s = Some s" using gi c None by (simp add: on_record_def nv_record_btdevicerecord_find_def)
    ultimately show ?thesis using assms(1) by metis
  next
    case (Some x)
    obtain p R where x: "x = (p, R)" by (cases x)
    have m: "(p, R) \<in> set rs" "rec_addr R = a" using rec_at_mem [OF Some] by (simp_all add: x)
    obtain h' where h: "upd_record p f (nv_heap s) = Some h'"
      "database (s\<lparr>nv_heap := h'\<rparr>) (map (\<lambda>x. if rec_addr (snd x) = a then (fst x, f (snd x)) else x) rs) ot F"
      using database_record_update [OF assms(1) m(1), of f] assms(3) m(2) by auto
    have "on_record a (\<lambda>p. upd_record p f) s = Some (s\<lparr>nv_heap := h'\<rparr>)"
      using gi c h(1) database_rec(2) [OF assms(1) m(1)] by (simp add: on_record_def nv_record_btdevicerecord_find_def Some x)
    then show ?thesis using h(2)
      by (intro exI [of _ "s\<lparr>nv_heap := h'\<rparr>"] exI [of _ "map (\<lambda>x. if rec_addr (snd x) = a then (fst x, f (snd x)) else x) rs"])
        (simp add: snd_update del: map_map)
  qed
qed

definition pool_ok :: "nat \<Rightarrow> nv_pool \<Rightarrow> bool" where
  "pool_ok K pl \<longleftrightarrow> alloc_ok K (pl_malloc pl) \<and> (\<forall>h. card (dom h) < K \<longrightarrow> pl_rec_size pl \<le> pl_free_space pl h)"

lemma run_ok:
  assumes "database s rs ot F" "pool_ok K pl" "card (dom F) + store_size ot + 58 \<le> K" "\<forall>op \<in> set ops. length (op_addr op) = 6"
  shows "\<exists>s' rs'. ddb_run pl ops s = Some s' \<and> database s' rs' ot F \<and> map snd rs' = mru_run (pl_volume pl) ops (map snd rs)"
  using assms(1,4)
proof (induction ops arbitrary: s rs)
  case (Cons op ops)
  have "\<exists>s' rs'. ddb_step pl op s = Some s' \<and> database s' rs' ot F \<and> map snd rs' = mru_step (pl_volume pl) op (map snd rs)"
  proof (cases op)
    case (Add r)
    have "card (dom (nv_heap s)) + 9 \<le> K"
      using database_card(1) [OF Cons.prems(1)] database_length [OF Cons.prems(1)] assms(3) by (simp add: DDB_RECORD_NUM_def)
    moreover from this have "pl_rec_size pl \<le> pl_free_space pl (nv_heap s)" "alloc_ok K (pl_malloc pl)" using assms(2) by (simp_all add: pool_ok_def)
    moreover have "length (bdAddr r) = 6" using Cons.prems(2) Add by simp
    ultimately obtain s' rs' where "nv_record_add pl section_usrdata_ddbrecord (Some r) s = Some (BT_STS_SUCCESS, s')" "database s' rs' ot F"
      "map snd rs' = mru_add (pl_volume pl) r (map snd rs)" using add_ok [OF Cons.prems(1), of K pl r] by blast
    then show ?thesis by (auto simp: Add)
  next
    case (Remove a)
    then show ?thesis using delete_ok [OF Cons.prems(1), of a] Cons.prems(2) by fastforce
  next
    case (Volumes a v w)
    have "set_volumes v w = (\<lambda>p. upd_record p (\<lambda>R. R\<lparr>nb_volume := \<lparr>a2dp_vol = v, hfp_vol = w\<rparr>\<rparr>))" by (simp add: fun_eq_iff set_volumes_upd)
    then show ?thesis using on_record_ok [OF Cons.prems(1), of a "\<lambda>R. R\<lparr>nb_volume := \<lparr>a2dp_vol = v, hfp_vol = w\<rparr>\<rparr>"] Cons.prems(2)
      by (simp add: Volumes rec_addr_def)
  next
    case (Profiles a x y z c)
    then show ?thesis using on_record_ok [OF Cons.prems(1), of a "\<lambda>R. R\<lparr>nb_profile := \<lparr>hfp_act = x, hsp_act = y, a2dp_act = z, a2dp_codectype = c\<rparr>\<rparr>"] Cons.prems(2)
      by (simp add: set_profiles rec_addr_def)
  qed
  then obtain s' rs' where s': "ddb_step pl op s = Some s'" "database s' rs' ot F" "map snd rs' = mru_step (pl_volume pl) op (map snd rs)"
    by blast
  have "\<exists>s2 rs2. ddb_run pl ops s' = Some s2 \<and> database s2 rs2 ot F \<and> map snd rs2 = mru_run (pl_volume pl) ops (map snd rs')"
    by (rule Cons.IH [OF s'(2)]) (use Cons.prems(2) in simp)
  then show ?case using s'(1,3) by (simp add: mru_run_def)
qed (auto simp: mru_run_def)

lemma database_new:
  assumes "alloc_ok K al" "card (dom h) + 2 \<le> K"
  obtains c h1 where "nvrec_config_new al h = Some (c, h1)" "\<And>b. database \<lparr>nv_heap = h1, nv_config = c, nv_is_update = b\<rparr> [] [] h"
proof -
  obtain T h1 where t: "nvrec_config_new al h = Some (cf_addr T, h1)" "owns h1 (cf_cells T) h" "wf_cft T" "cf_abs T = []"
    using config_new_ok [OF assms] by blast
  then have "ddb_ok \<lparr>nv_heap = h1, nv_config = cf_addr T, nv_is_update = b\<rparr> T [] h \<and> others (cf_abs T) = []" for b
    by (simp add: ddb_ok_def ddb_cells_def ddb_abs_def others_def)
  then show ?thesis using that t(1) unfolding database_def by blast
qed

text \<open>C4: With a pool for sixty blocks, no sequence of additions, deletions and settings of volumes and profiles, however long, fails an assertion, runs
  out of memory, frees a block twice or leaves one behind: from a fresh configuration every run returns, in the state
  the most-recently-used list has after the same operations, with at most nine devices.\<close>

theorem ddb_runs_forever:
  assumes "pool_ok K pl" "card (dom h) + 60 \<le> K" "\<forall>op \<in> set ops. length (op_addr op) = 6"
  shows "\<exists>c h1 s rs. nvrec_config_new (pl_malloc pl) h = Some (c, h1) \<and>
    ddb_run pl ops \<lparr>nv_heap = h1, nv_config = c, nv_is_update = True\<rparr> = Some s \<and> database s rs [] h \<and>
    map snd rs = mru_run (pl_volume pl) ops [] \<and> length rs \<le> DDB_RECORD_NUM"
proof -
  have "alloc_ok K (pl_malloc pl)" "card (dom h) + 2 \<le> K" using assms by (simp_all add: pool_ok_def)
  then obtain c h1 where c: "nvrec_config_new (pl_malloc pl) h = Some (c, h1)" "database \<lparr>nv_heap = h1, nv_config = c, nv_is_update = True\<rparr> [] [] h"
    by (rule database_new) blast
  have "card (dom h) + store_size [] + 58 \<le> K" using assms(2) by (simp add: store_size_def)
  from run_ok [OF c(2) assms(1) this assms(3)] show ?thesis using c(1) database_length by fastforce
qed

section \<open>A nearly full pool\<close>

lemma delete_last_head:
  assumes "database s [(p, R)] ot F"
  shows "\<exists>h'. config_entries_ddbdev_delete_head (nv_config s) (nv_heap s) = Some h' \<and>
    (\<forall>q ob r. h' q = None \<longrightarrow> q \<noteq> 0 \<longrightarrow> config_entries_ddbdev_is_head (nv_config s) r (h'(q \<mapsto> ob)) = None)"
proof -
  obtain T pre sc post where v: "ddb_view (nv_heap s) T pre sc post [(p, R)] F" "nv_config s = cf_addr T"
    using database_Cons [OF assms] by blast
  obtain T' s' h' where d: "config_entries_ddbdev_delete_head (cf_addr T) (nv_heap s) = Some h'" "ddb_view h' T' pre s' post [] F" "cf_addr T' = cf_addr T"
    using delete_head_ok [OF v(1)] by blast
  have "config_entries_ddbdev_is_head (cf_addr T) r (h'(q \<mapsto> ob)) = None" if q: "h' q = None" "q \<noteq> 0" for q ob r
  proof -
    have o: "owns h' (cf_cells T' @ ddb_cells []) F" and w: "cf_secs T' = pre @ s' # post" "wf_cft T'" "sct_name s' = view section_name_ddbrec" "sc_ents s' = []"
      using d(2) by (simp_all add: ddb_view_def)
    have "owns (h'(q \<mapsto> ob)) ((cf_cells T' @ ddb_cells []) @ [(q, ob)]) F" by (rule owns_perm [OF owns_alloc [OF o q]]) auto
    from owns_part [OF this] have "ddb_view (h'(q \<mapsto> ob)) T' pre s' post [] (F ++ map_of [(q, ob)])"
      using w by (simp add: ddb_view_def)
    note at = view_at [OF this]
    show ?thesis using sec_at_reads [OF at(1)] at(2) w(4) d(3)
      by (simp add: config_entries_ddbdev_is_head_def ents_at_def ent_items_def list_node_ext_def check_def)
  qed
  then show ?thesis using d(1) v(2) by auto
qed

text \<open>C21: When the pool has no room for a record, the oldest device is dropped before the new record is made. If that
  was the only one, and is the device that is added, with a new link key, the search for its entry then looks at the
  head of an empty list and the assertion in \<open>list_node_ext\<close> fails.\<close>

theorem ddb_add_nearly_full:
  assumes "database s [(p, R)] ot F" "alloc_ok K (pl_malloc pl)" "card (dom (nv_heap s)) \<le> K"
    "pl_free_space pl (nv_heap s) < pl_rec_size pl" "rec_addr R = bdAddr r" "nb_record R \<noteq> r"
  shows "nv_record_add pl section_usrdata_ddbrecord (Some r) s = None"
proof -
  have m: "(p, R) \<in> set [(p, R)]" by simp
  note r = database_rec [OF assms(1) m]
  have at: "rec_at [(p, R)] (bdAddr r) = Some (p, R)" by (simp add: rec_at_def assms(5))
  have len: "length (bdAddr r) = 6" using r(3) assms(5) by simp
  obtain h' where h': "config_entries_ddbdev_delete_head (nv_config s) (nv_heap s) = Some h'"
    "\<forall>q ob r. h' q = None \<longrightarrow> q \<noteq> 0 \<longrightarrow> config_entries_ddbdev_is_head (nv_config s) r (h'(q \<mapsto> ob)) = None"
    using delete_last_head [OF assms(1)] by blast
  have "database (s\<lparr>nv_heap := h'\<rparr>) [] ot F" using database_delete_head [OF assms(1)] h'(1) by auto
  then have "card (dom h') < K" using database_card(1) [of "s\<lparr>nv_heap := h'\<rparr>"] database_card(2) [OF assms(1)] assms(3) by fastforce
  then obtain q where q: "pool_malloc (pl_malloc pl) (pl_rec_size pl) h' = (q, h'(q \<mapsto> RAW))" "q \<noteq> 0" "h' q = None"
    using pool_malloc_ok [OF assms(2)] by metis
  have "ddbrec_store pl r True (nb_volume R) (nb_profile R) s = None"
    using assms(4) h'(1) q h'(2) by (simp add: ddbrec_store_def config_specific_entry_value_delete_def Let_def)
  then show ?thesis using database_get_int [OF assms(1) len] at r(1,2) assms(6)
    by (simp add: nv_record_add_def nv_record_ddbrec_add_def same_record)
qed

section \<open>A run\<close>

definition sample_dev :: "u8 \<Rightarrow> u8 \<Rightarrow> btif_device_record" where
  "sample_dev i k = \<lparr>bdAddr = [i, 2, 3, 4, 5, 6], trusted = True, linkKey = replicate 16 k, keyType = 4, pinLen = 0\<rparr>"

definition sample_pool :: "nat \<Rightarrow> nv_pool" where
  "sample_pool n = \<lparr>pl_malloc = first_fit, pl_free_space = (\<lambda>_. n), pl_rec_size = 36, pl_volume = \<lparr>a2dp_vol = 10, hfp_vol = 10\<rparr>\<rparr>"

definition sample_rec :: nvrec_btdevicerecord where
  "sample_rec = new_record \<lparr>a2dp_vol = 7, hfp_vol = 8\<rparr> (sample_dev 1 9)"

definition sample_tree :: cft where
  "sample_tree = \<lparr>cf_addr = 1, cf_list = 2, cf_secs = [\<lparr>sc_node = 3, sc_addr = 4, sc_np = 5, sc_name = section_name_ddbrec, sc_list = 6,
     sc_ents = [\<lparr>en_node = 7, en_addr = 8, en_kp = 9, en_key = [1, 2, 3, 4, 5, 6, 0], en_vp = 10, en_val = sprintf_d 11 @ [0]\<rparr>]\<rparr>]\<rparr>"

definition sample_state :: nv_state where
  "sample_state = \<lparr>nv_heap = map_of (cf_cells sample_tree @ ddb_cells [(11, sample_rec)]), nv_config = 1, nv_is_update = False\<rparr>"

lemma sprintf_no_zero: "0 \<notin> set (sprintf_d v)"
  using dec_digits_bytes by (auto simp: sprintf_d_def)

lemma sample_database: "database sample_state [(11, sample_rec)] [] Map.empty"
proof -
  have v: "view (sprintf_d 11 @ [0]) = sprintf_d 11" using view_snoc [OF sprintf_no_zero, of _ "[]"] by simp
  have o: "owns (nv_heap sample_state) (cf_cells sample_tree @ ddb_cells [(11, sample_rec)]) Map.empty"
    by (simp add: owns_def sample_state_def sample_tree_def cf_cells_def sct_cells_def ent_cells_def list_cells_def sct_items_def ent_items_def ddb_cells_def
        del: map_of_append)
  have w: "wf_cft sample_tree"
    by (simp add: wf_cft_def wf_sct_def wf_ent_def sample_tree_def ddb_terminated)
  have a: "cf_abs sample_tree = [(view section_name_ddbrec, [([1, 2, 3, 4, 5, 6], sprintf_d 11)])]"
    by (simp add: cf_abs_def sample_tree_def sct_name_def sct_abs_def ent_key_def v)
  have "ddb_ok sample_state sample_tree [(11, sample_rec)] Map.empty" using o w a
    by (simp add: ddb_ok_def ddb_abs_def ddb_entry_def rec_addr_def sample_rec_def new_record_def sample_dev_def DDB_RECORD_NUM_def)
      (simp add: sample_state_def sample_tree_def)
  then show ?thesis unfolding database_def by (intro exI [of _ sample_tree]) (simp add: a others_def)
qed

lemma sample_card: "card (dom (nv_heap sample_state)) = 11"
  using database_card(2) [OF sample_database] by (simp add: store_size_def)

theorem ddb_add_refines_mru_witness:
  "\<exists>s' rs'. nv_record_add (sample_pool 100) section_usrdata_ddbrecord (Some (sample_dev 1 5)) sample_state = Some (BT_STS_SUCCESS, s') \<and>
     database s' rs' [] Map.empty \<and> map snd rs' = [sample_rec\<lparr>nb_record := sample_dev 1 5\<rparr>]"
proof -
  have m: "mru_add v (sample_dev 1 5) (map snd [(11 :: addr, sample_rec)]) = [sample_rec\<lparr>nb_record := sample_dev 1 5\<rparr>]" for v
    by (simp add: mru_add_def sample_rec_def new_record_def sample_dev_def rec_addr_def without_def)
  have h: "alloc_ok 63 (pl_malloc (sample_pool 100))" "card (dom (nv_heap sample_state)) + 9 \<le> 63"
    "pl_rec_size (sample_pool 100) \<le> pl_free_space (sample_pool 100) (nv_heap sample_state)" "length (bdAddr (sample_dev 1 5)) = 6"
    using first_fit_ok sample_card by (simp_all add: sample_pool_def sample_dev_def)
  from ddb_add_refines_mru [OF sample_database h] show ?thesis unfolding m by (elim exE conjE) (intro exI conjI)
qed

theorem ddb_delete_removes_witness:
  "\<exists>s' rs'. nv_record_ddbrec_delete [1, 2, 3, 4, 5, 6] sample_state = Some (BT_STS_SUCCESS, s') \<and> database s' rs' [] Map.empty \<and> rs' = []"
  using ddb_delete_removes [OF sample_database, of "[1, 2, 3, 4, 5, 6]"]
  by (auto simp: sample_rec_def new_record_def sample_dev_def rec_addr_def without_def)

theorem ddb_reads_list_witness:
  "nv_record_ddbrec_find (Some [1, 2, 3, 4, 5, 6]) (Some zero_record) sample_state = Some (BT_STS_SUCCESS, Some (sample_dev 1 9)) \<and>
   nv_record_get_paired_dev_count sample_state = Some 1"
  using ddb_reads_list [OF sample_database, of "[1, 2, 3, 4, 5, 6]" zero_record 0 zero_record zero_record]
  by (simp add: rec_at_def sample_rec_def new_record_def sample_dev_def rec_addr_def)

theorem ddb_runs_forever_witness:
  "\<exists>c h1 s rs. nvrec_config_new first_fit Map.empty = Some (c, h1) \<and>
     ddb_run (sample_pool 100) [Add (sample_dev 1 9), Add (sample_dev 2 9), Volumes [1, 2, 3, 4, 5, 6] 3 4, Add (sample_dev 1 8), Remove [2, 2, 3, 4, 5, 6]]
       \<lparr>nv_heap = h1, nv_config = c, nv_is_update = True\<rparr> = Some s \<and> database s rs [] Map.empty \<and> map (\<lambda>x. (nb_record (snd x), a2dp_vol (nb_volume (snd x)))) rs = [(sample_dev 1 8, 3)]"
proof -
  let ?ops = "[Add (sample_dev 1 9), Add (sample_dev 2 9), Volumes [1, 2, 3, 4, 5, 6] 3 4, Add (sample_dev 1 8), Remove [2, 2, 3, 4, 5, 6]]"
  have ok: "pool_ok 63 (sample_pool 100)" using first_fit_ok by (simp add: pool_ok_def sample_pool_def)
  have "map (\<lambda>R. (nb_record R, a2dp_vol (nb_volume R))) (mru_run v ?ops []) = [(sample_dev 1 8, 3)]" for v
    by (simp add: mru_run_def mru_add_def sample_dev_def new_record_def rec_addr_def without_def bound_recs_def DDB_RECORD_NUM_def with_record_def)
  moreover have "map (\<lambda>x. (nb_record (snd x), a2dp_vol (nb_volume (snd x)))) rs = map (\<lambda>R. (nb_record R, a2dp_vol (nb_volume R))) (map snd rs)" for rs :: recs
    by simp
  ultimately show ?thesis
    using ddb_runs_forever [OF ok, of Map.empty ?ops] by (fastforce simp: sample_pool_def sample_dev_def simp del: map_map)
qed

theorem ddb_add_nearly_full_witness:
  "nv_record_add (sample_pool 10) section_usrdata_ddbrecord (Some (sample_dev 1 5)) sample_state = None"
  by (rule ddb_add_nearly_full [OF sample_database, where K = 63])
    (use first_fit_ok sample_card in \<open>simp_all add: sample_pool_def sample_rec_def new_record_def sample_dev_def rec_addr_def\<close>)

end
