(* ===== verification/Norflash_Hal.thy ===== *)
theory Norflash_Hal
  imports Lb_Prelude
begin

text \<open>
  Erasing and programming the flash, \<^verbatim>\<open>platform/hal/hal_norflash.c\<close> over the chip commands of
  \<^verbatim>\<open>platform/drivers/norflash/norflash_drv.c\<close>. A command may be suspended when an interrupt is pending, and is
  resumed later: the driver remembers which command is on the way and what remains to be done after it.

  The chip is its memory by offset, and the command that is suspended: where it works and what it will leave there.
  \<open>fl_irqs\<close> is what the environment has in store: one entry per command that may be suspended, \<open>None\<close> if it runs to its
  end, else the content its range shows while it is suspended; when the list is exhausted no interrupt comes. Built
  with \<^verbatim>\<open>FLASH_SUSPEND\<close> and without \<^verbatim>\<open>PUYA_FLASH_ERASE_PAGE_ENABLE\<close>. A failed assertion, a read outside a buffer and a
  command sent to a chip that is suspended are \<open>None\<close>.
\<close>

section \<open>The chip\<close>

datatype HAL_NORFLASH_RET_T = HAL_NORFLASH_OK | HAL_NORFLASH_SUSPENDED | HAL_NORFLASH_ERR | HAL_NORFLASH_BAD_ID
  | HAL_NORFLASH_BAD_DIV | HAL_NORFLASH_BAD_CALIB_ID | HAL_NORFLASH_BAD_CFG | HAL_NORFLASH_BAD_OP
  | HAL_NORFLASH_BAD_CALIB_MAGIC | HAL_NORFLASH_BAD_ADDR | HAL_NORFLASH_BAD_LEN | HAL_NORFLASH_NOT_OPENED
  | HAL_NORFLASH_CFG_NULL

datatype DRV_NORFLASH_ERASE_T = DRV_NORFLASH_ERASE_SECTOR | DRV_NORFLASH_ERASE_BLOCK | DRV_NORFLASH_ERASE_CHIP

datatype SUSPEND_STATE_T = SUSPEND_STATE_NONE | SUSPEND_STATE_ERASE | SUSPEND_STATE_PROGRAM

record norflash_ctx =
  nc_opened :: bool
  nc_total_size :: u32
  nc_block_size :: u32
  nc_sector_size :: u32
  nc_page_size :: u32
  nc_suspend_mode :: bool

text \<open>A pointer to data to be programmed: an offset into one of the sector buffers of the flash service, or what is
  left of the bytes a caller passed.\<close>

datatype data_ptr = Data_Buf nat nat | Caller_Buf "u8 list"

type_synonym data_bufs = "nat \<Rightarrow> nat \<Rightarrow> u8"

definition NORFLASH_API_SECTOR_SIZE :: nat where
  "NORFLASH_API_SECTOR_SIZE = 4096"

fun ptr_len :: "data_ptr \<Rightarrow> nat" where
  "ptr_len (Data_Buf b k) = NORFLASH_API_SECTOR_SIZE - k"
| "ptr_len (Caller_Buf bs) = length bs"

fun ptr_byte :: "data_bufs \<Rightarrow> data_ptr \<Rightarrow> nat \<Rightarrow> u8" where
  "ptr_byte D (Data_Buf b k) i = D b (k + i)"
| "ptr_byte D (Caller_Buf bs) i = bs ! i"

fun ptr_add :: "data_ptr \<Rightarrow> nat \<Rightarrow> data_ptr" where
  "ptr_add (Data_Buf b k) n = Data_Buf b (k + n)"
| "ptr_add (Caller_Buf bs) n = Caller_Buf (drop n bs)"

record flash =
  fl_mem :: "nat \<Rightarrow> u8"
  fl_busy :: "(nat \<times> nat \<times> (nat \<Rightarrow> u8)) option"
  fl_irqs :: "(nat \<Rightarrow> u8) option list"
  suspend_state :: SUSPEND_STATE_T
  op_next_addr :: u32
  op_next_buf :: data_ptr
  op_remain_len :: u32

definition HAL_NORFLASH_ADDR_MASK :: u32 where
  "HAL_NORFLASH_ADDR_MASK = 0x03FFFFFF"

definition flash_offset :: "u32 \<Rightarrow> nat" where
  "flash_offset addr = unat (addr AND HAL_NORFLASH_ADDR_MASK)"

text \<open>\<open>over a n f m\<close> is memory \<open>m\<close> with \<open>f\<close> on the \<open>n\<close> bytes from \<open>a\<close> on.\<close>

definition over :: "nat \<Rightarrow> nat \<Rightarrow> (nat \<Rightarrow> 'a) \<Rightarrow> (nat \<Rightarrow> 'a) \<Rightarrow> nat \<Rightarrow> 'a" where
  "over a n f m = (\<lambda>i. if a \<le> i \<and> i < a + n then f i else m i)"

definition norflash_status_WIP_1_wait ::
    "bool \<Rightarrow> nat \<times> nat \<times> (nat \<Rightarrow> u8) \<Rightarrow> flash \<Rightarrow> HAL_NORFLASH_RET_T \<times> flash" where
  "norflash_status_WIP_1_wait suspend cmd s =
     (let (a, n, f) = cmd;
          done = s\<lparr>fl_mem := over a n f (fl_mem s), fl_busy := None\<rparr>
      in if suspend then
           (case fl_irqs s of
             [] \<Rightarrow> (HAL_NORFLASH_OK, done)
           | None # rs \<Rightarrow> (HAL_NORFLASH_OK, done\<lparr>fl_irqs := rs\<rparr>)
           | Some junk # rs \<Rightarrow> (HAL_NORFLASH_SUSPENDED,
               s\<lparr>fl_mem := over a n junk (fl_mem s), fl_busy := Some cmd, fl_irqs := rs\<rparr>))
         else (HAL_NORFLASH_OK, done))"

definition erase_size :: "norflash_ctx \<Rightarrow> DRV_NORFLASH_ERASE_T \<Rightarrow> nat" where
  "erase_size c type = unat (case type of DRV_NORFLASH_ERASE_SECTOR \<Rightarrow> nc_sector_size c
     | DRV_NORFLASH_ERASE_BLOCK \<Rightarrow> nc_block_size c | DRV_NORFLASH_ERASE_CHIP \<Rightarrow> nc_total_size c)"

definition norflash_erase ::
    "norflash_ctx \<Rightarrow> u32 \<Rightarrow> DRV_NORFLASH_ERASE_T \<Rightarrow> bool \<Rightarrow> flash \<Rightarrow> (HAL_NORFLASH_RET_T \<times> flash) option" where
  "norflash_erase c start_address type suspend s = do {
     check (fl_busy s = None);
     let n = erase_size c type;
     Some (norflash_status_WIP_1_wait suspend (flash_offset start_address div n * n, n, \<lambda>_. 0xff) s) }"

definition norflash_write ::
    "data_bufs \<Rightarrow> u32 \<Rightarrow> data_ptr \<Rightarrow> u32 \<Rightarrow> bool \<Rightarrow> flash \<Rightarrow> (HAL_NORFLASH_RET_T \<times> flash) option" where
  "norflash_write D start_address buffer len suspend s =
     (if 256 < len then Some (HAL_NORFLASH_ERR, s)
      else do {
        check (fl_busy s = None);
        check (unat len \<le> ptr_len buffer);
        let a = flash_offset start_address;
        Some (norflash_status_WIP_1_wait suspend
          (a, unat len, \<lambda>i. fl_mem s i AND ptr_byte D buffer (i - a)) s) })"

definition norflash_erase_resume :: "bool \<Rightarrow> flash \<Rightarrow> HAL_NORFLASH_RET_T \<times> flash" where
  "norflash_erase_resume suspend s =
     (case fl_busy s of None \<Rightarrow> (HAL_NORFLASH_OK, s) | Some cmd \<Rightarrow> norflash_status_WIP_1_wait suspend cmd s)"

definition norflash_write_resume :: "bool \<Rightarrow> flash \<Rightarrow> HAL_NORFLASH_RET_T \<times> flash" where
  "norflash_write_resume suspend s = norflash_erase_resume suspend s"

section \<open>Erasing\<close>

partial_function (option) erase_loop ::
    "norflash_ctx \<Rightarrow> bool \<Rightarrow> HAL_NORFLASH_RET_T \<Rightarrow> u32 \<Rightarrow> u32 \<Rightarrow> flash
       \<Rightarrow> (HAL_NORFLASH_RET_T \<times> u32 \<times> u32 \<times> flash) option" where
  "erase_loop c suspend ret current_address remain_len s =
     (if 0 < remain_len \<and> ret = HAL_NORFLASH_OK then
        (if nc_block_size c \<le> remain_len \<and> current_address AND (nc_block_size c - 1) = 0 then do {
           (ret, s) \<leftarrow> norflash_erase c current_address DRV_NORFLASH_ERASE_BLOCK suspend s;
           erase_loop c suspend ret (current_address + nc_block_size c) (remain_len - nc_block_size c) s }
         else do {
           (ret, s) \<leftarrow> norflash_erase c current_address DRV_NORFLASH_ERASE_SECTOR suspend s;
           erase_loop c suspend ret (current_address + nc_sector_size c)
             (if nc_sector_size c < remain_len then remain_len - nc_sector_size c else 0) s })
      else Some (ret, current_address, remain_len, s))"

definition hal_norflash_erase_int ::
    "norflash_ctx \<Rightarrow> u32 \<Rightarrow> u32 \<Rightarrow> bool \<Rightarrow> flash \<Rightarrow> (HAL_NORFLASH_RET_T \<times> flash) option" where
  "hal_norflash_erase_int c start_address len suspend s =
     (if nc_total_size c \<le> start_address AND HAL_NORFLASH_ADDR_MASK then Some (HAL_NORFLASH_BAD_ADDR, s)
      else if nc_total_size c - (start_address AND HAL_NORFLASH_ADDR_MASK) < len then Some (HAL_NORFLASH_BAD_LEN, s)
      else
        let head = start_address AND (nc_sector_size c - 1);
            start_address = start_address - head;
            len = len + head;
            rest = len AND (nc_sector_size c - 1);
            len = (if rest \<noteq> 0 then len + (nc_sector_size c - rest) else len)
        in do {
          (ret, current_address, remain_len, s) \<leftarrow>
            (if start_address AND HAL_NORFLASH_ADDR_MASK = 0 \<and> nc_total_size c \<le> len then do {
               (ret, s) \<leftarrow> norflash_erase c start_address DRV_NORFLASH_ERASE_CHIP suspend s;
               Some (ret, start_address, len, s) }
             else erase_loop c suspend HAL_NORFLASH_OK start_address len s);
          Some (ret, if ret = HAL_NORFLASH_SUSPENDED
            then s\<lparr>suspend_state := SUSPEND_STATE_ERASE, op_next_addr := current_address, op_remain_len := remain_len\<rparr>
            else s\<lparr>suspend_state := SUSPEND_STATE_NONE\<rparr>) })"

definition hal_norflash_erase_suspend ::
    "norflash_ctx \<Rightarrow> u32 \<Rightarrow> u32 \<Rightarrow> bool \<Rightarrow> flash \<Rightarrow> (HAL_NORFLASH_RET_T \<times> flash) option" where
  "hal_norflash_erase_suspend c start_address len suspend s = do {
     check (nc_opened c);
     if suspend_state s \<noteq> SUSPEND_STATE_NONE then Some (HAL_NORFLASH_BAD_OP, s)
     else hal_norflash_erase_int c start_address len (suspend \<and> nc_suspend_mode c) s }"

definition hal_norflash_erase ::
    "norflash_ctx \<Rightarrow> u32 \<Rightarrow> u32 \<Rightarrow> flash \<Rightarrow> (HAL_NORFLASH_RET_T \<times> flash) option" where
  "hal_norflash_erase c start_address len s = hal_norflash_erase_suspend c start_address len False s"

definition hal_norflash_erase_resume ::
    "norflash_ctx \<Rightarrow> bool \<Rightarrow> flash \<Rightarrow> (HAL_NORFLASH_RET_T \<times> flash) option" where
  "hal_norflash_erase_resume c suspend s = do {
     check (nc_opened c);
     if suspend_state s \<noteq> SUSPEND_STATE_ERASE then Some (HAL_NORFLASH_BAD_OP, s)
     else if \<not> nc_suspend_mode c then Some (HAL_NORFLASH_BAD_OP, s)
     else let (ret, s) = norflash_erase_resume suspend s
          in if ret = HAL_NORFLASH_SUSPENDED then Some (ret, s)
             else hal_norflash_erase_int c (op_next_addr s) (op_remain_len s) suspend s }"

section \<open>Programming\<close>

partial_function (option) write_loop ::
    "norflash_ctx \<Rightarrow> data_bufs \<Rightarrow> bool \<Rightarrow> HAL_NORFLASH_RET_T \<Rightarrow> u32 \<Rightarrow> data_ptr \<Rightarrow> u32 \<Rightarrow> flash
       \<Rightarrow> (HAL_NORFLASH_RET_T \<times> u32 \<times> data_ptr \<times> u32 \<times> flash) option" where
  "write_loop c D suspend ret current_address current_buffer remain_len s =
     (if 0 < remain_len \<and> ret = HAL_NORFLASH_OK then do {
        let write_size = (if nc_page_size c < remain_len then nc_page_size c else remain_len);
        let pp_remain = nc_page_size c - (current_address AND (nc_page_size c - 1));
        let write_size = (if pp_remain < write_size then pp_remain else write_size);
        (ret, s) \<leftarrow> norflash_write D current_address current_buffer write_size suspend s;
        write_loop c D suspend ret (current_address + write_size) (ptr_add current_buffer (unat write_size))
          (remain_len - write_size) s }
      else Some (ret, current_address, current_buffer, remain_len, s))"

definition hal_norflash_write_int ::
    "norflash_ctx \<Rightarrow> data_bufs \<Rightarrow> u32 \<Rightarrow> data_ptr \<Rightarrow> u32 \<Rightarrow> bool \<Rightarrow> flash \<Rightarrow> (HAL_NORFLASH_RET_T \<times> flash) option" where
  "hal_norflash_write_int c D start_address buffer len suspend s =
     (if nc_total_size c \<le> start_address AND HAL_NORFLASH_ADDR_MASK then Some (HAL_NORFLASH_BAD_ADDR, s)
      else if nc_total_size c - (start_address AND HAL_NORFLASH_ADDR_MASK) < len then Some (HAL_NORFLASH_BAD_LEN, s)
      else do {
        (ret, current_address, current_buffer, remain_len, s) \<leftarrow>
          write_loop c D suspend HAL_NORFLASH_OK start_address buffer len s;
        Some (ret, if ret = HAL_NORFLASH_SUSPENDED
          then s\<lparr>suspend_state := SUSPEND_STATE_PROGRAM, op_next_addr := current_address,
                 op_next_buf := current_buffer, op_remain_len := remain_len\<rparr>
          else s\<lparr>suspend_state := SUSPEND_STATE_NONE\<rparr>) })"

definition hal_norflash_write_suspend ::
    "norflash_ctx \<Rightarrow> data_bufs \<Rightarrow> u32 \<Rightarrow> data_ptr \<Rightarrow> u32 \<Rightarrow> bool \<Rightarrow> flash \<Rightarrow> (HAL_NORFLASH_RET_T \<times> flash) option" where
  "hal_norflash_write_suspend c D start_address buffer len suspend s = do {
     check (nc_opened c);
     if suspend_state s \<noteq> SUSPEND_STATE_NONE then Some (HAL_NORFLASH_BAD_OP, s)
     else hal_norflash_write_int c D start_address buffer len (suspend \<and> nc_suspend_mode c) s }"

definition hal_norflash_write ::
    "norflash_ctx \<Rightarrow> data_bufs \<Rightarrow> u32 \<Rightarrow> data_ptr \<Rightarrow> u32 \<Rightarrow> flash \<Rightarrow> (HAL_NORFLASH_RET_T \<times> flash) option" where
  "hal_norflash_write c D start_address buffer len s =
     hal_norflash_write_suspend c D start_address buffer len False s"

definition hal_norflash_write_resume ::
    "norflash_ctx \<Rightarrow> data_bufs \<Rightarrow> bool \<Rightarrow> flash \<Rightarrow> (HAL_NORFLASH_RET_T \<times> flash) option" where
  "hal_norflash_write_resume c D suspend s = do {
     check (nc_opened c);
     if suspend_state s \<noteq> SUSPEND_STATE_PROGRAM then Some (HAL_NORFLASH_BAD_OP, s)
     else if \<not> nc_suspend_mode c then Some (HAL_NORFLASH_BAD_OP, s)
     else let (ret, s) = norflash_write_resume suspend s
          in if ret = HAL_NORFLASH_SUSPENDED then Some (ret, s)
             else hal_norflash_write_int c D (op_next_addr s) (op_next_buf s) (op_remain_len s) suspend s }"

end
