(* ===== verification/Norflash_Suspend.thy ===== *)
theory Norflash_Suspend
  imports Norflash_Hal
begin

text \<open>
  Suspended flash operations come to the same end as those that are not interrupted: what the flash will hold once
  everything that was begun is done (\<open>flash_goal\<close>) is fixed when an operation starts and no interrupt changes it.
\<close>

section \<open>Memory\<close>

lemma over_0 [simp]: "over a 0 f m = m"
  by (auto simp: over_def fun_eq_iff)

lemma over_outside: "i < a \<or> a + n \<le> i \<Longrightarrow> over a n f m i = m i"
  by (auto simp: over_def)

lemma over_inside: "a \<le> i \<Longrightarrow> i < a + n \<Longrightarrow> over a n f m i = f i"
  by (simp add: over_def)

lemma over_append: "over (a + n) k f (over a n f m) = over a (n + k) f m"
  by (auto simp: over_def fun_eq_iff)

lemma over_cong: "(\<And>i. a \<le> i \<Longrightarrow> i < a + n \<Longrightarrow> f i = g i) \<Longrightarrow> over a n f m = over a n g m"
  by (auto simp: over_def fun_eq_iff)

lemma over_same: "over a n f (over a n g m) = over a n f m"
  by (auto simp: over_def fun_eq_iff)

section \<open>Offsets\<close>

lemma unat_and_low:
  fixes x :: u32
  shows "unat (x AND 0xFFF) = unat x mod 4096" "unat (x AND 0x7FFF) = unat x mod 32768"
    "unat (x AND 0xFF) = unat x mod 256" "unat (x AND 0x03FFFFFF) = unat x mod 67108864"
proof -
  have *: "unat (x AND mask k) = unat x mod 2 ^ k" for k
    unfolding take_bit_eq_mask [symmetric] unsigned_take_bit_eq by (rule take_bit_eq_mod)
  show "unat (x AND 0xFFF) = unat x mod 4096" using * [of 12] by (simp add: mask_eq_exp_minus_1)
  show "unat (x AND 0x7FFF) = unat x mod 32768" using * [of 15] by (simp add: mask_eq_exp_minus_1)
  show "unat (x AND 0xFF) = unat x mod 256" using * [of 8] by (simp add: mask_eq_exp_minus_1)
  show "unat (x AND 0x03FFFFFF) = unat x mod 67108864" using * [of 26] by (simp add: mask_eq_exp_minus_1)
qed

lemma flash_offset_mod: "flash_offset x = unat x mod 67108864"
  by (simp add: flash_offset_def HAL_NORFLASH_ADDR_MASK_def unat_and_low)

lemma flash_offset_less [simp]: "flash_offset x < 67108864"
  by (simp add: flash_offset_mod)

lemma offset_mods: "flash_offset x mod 4096 = unat x mod 4096" "flash_offset x mod 32768 = unat x mod 32768"
  "flash_offset x mod 256 = unat x mod 256"
  by (simp_all add: flash_offset_mod mod_mod_cancel)

lemma flash_offset_add:
  assumes "flash_offset x + unat n < 67108864"
  shows "flash_offset (x + n) = flash_offset x + unat n"
proof -
  have "flash_offset (x + n) = (unat x + unat n) mod 67108864"
    by (simp add: flash_offset_mod unat_word_ariths mod_mod_cancel)
  also have "\<dots> = (flash_offset x + unat n) mod 67108864"
    by (simp add: flash_offset_mod mod_simps)
  finally show ?thesis using assms by simp
qed

lemma flash_offset_sub:
  assumes "unat n \<le> flash_offset x"
  shows "flash_offset (x - n) = flash_offset x - unat n"
proof -
  have "unat n \<le> unat x" using assms unfolding flash_offset_mod by (meson le_trans mod_less_eq_dividend)
  then have "flash_offset (x - n) = (unat x - unat n) mod 67108864"
    by (simp add: flash_offset_mod unat_sub_small)
  also have "\<dots> = (flash_offset x - unat n) mod 67108864"
  proof -
    have "unat x - unat n = unat x div 67108864 * 67108864 + (flash_offset x - unat n)"
      using assms div_mult_mod_eq [of "unat x" 67108864] by (simp add: flash_offset_mod)
    then show ?thesis by (metis mod_mult_self3)
  qed
  finally show ?thesis using flash_offset_less [of x] by simp
qed

lemma less_4096: "4096 \<le> unat (n :: u32) \<Longrightarrow> n \<noteq> 4096 \<Longrightarrow> 4096 < n"
  by (simp add: word_less_nat_alt) (metis le_neq_implies_less of_nat_numeral of_nat_unat ucast_id)

section \<open>One command\<close>

text \<open>The memory once the command that is suspended has been finished.\<close>

definition settled :: "flash \<Rightarrow> nat \<Rightarrow> u8" where
  "settled s = (case fl_busy s of None \<Rightarrow> fl_mem s | Some (a, n, f) \<Rightarrow> over a n f (fl_mem s))"

lemma settled_idle [simp]: "fl_busy s = None \<Longrightarrow> settled s = fl_mem s"
  by (simp add: settled_def)

definition same_driver :: "flash \<Rightarrow> flash \<Rightarrow> bool" where
  "same_driver s s' \<longleftrightarrow> suspend_state s' = suspend_state s \<and> op_next_addr s' = op_next_addr s \<and>
     op_next_buf s' = op_next_buf s \<and> op_remain_len s' = op_remain_len s"

text \<open>How a command on the \<open>n\<close> bytes from \<open>a\<close> on ends: finished, or suspended with the rest to come.\<close>

definition ran :: "bool \<Rightarrow> nat \<Rightarrow> nat \<Rightarrow> (nat \<Rightarrow> u8) \<Rightarrow> flash \<Rightarrow> HAL_NORFLASH_RET_T \<Rightarrow> flash \<Rightarrow> bool" where
  "ran susp a n m s ret s' \<longleftrightarrow> same_driver s s' \<and> settled s' = m \<and>
     (ret = HAL_NORFLASH_OK \<and> fl_busy s' = None \<and> length (fl_irqs s') \<le> length (fl_irqs s) \<or>
      ret = HAL_NORFLASH_SUSPENDED \<and> susp \<and> (\<exists>f. fl_busy s' = Some (a, n, f)) \<and>
        length (fl_irqs s') < length (fl_irqs s))"

lemma wait_ran:
  "norflash_status_WIP_1_wait susp (a, n, f) s = (ret, s') \<Longrightarrow> ran susp a n (over a n f (fl_mem s)) s ret s'"
  by (auto simp: norflash_status_WIP_1_wait_def Let_def ran_def same_driver_def settled_def over_same
    split: if_splits list.splits option.splits)

lemma resume_ran:
  assumes "norflash_erase_resume susp s = (ret, s')" "fl_busy s = Some (a, n, f)"
  shows "ran susp a n (settled s) s ret s'"
  using assms wait_ran by (simp add: norflash_erase_resume_def settled_def)

section \<open>The driver\<close>

text \<open>The geometry of the chips of this board.\<close>

definition chip_ok :: "norflash_ctx \<Rightarrow> bool" where
  "chip_ok c \<longleftrightarrow> nc_opened c \<and> nc_sector_size c = 4096 \<and> nc_block_size c = 32768 \<and> nc_page_size c = 256 \<and>
     unat (nc_total_size c) mod 32768 = 0 \<and> unat (nc_total_size c) \<le> 67108864"

lemma chip_okD:
  assumes "chip_ok c"
  shows "nc_opened c" "nc_sector_size c = 4096" "nc_block_size c = 32768" "nc_page_size c = 256"
    "unat (nc_total_size c) mod 32768 = 0" "unat (nc_total_size c) \<le> 67108864" "unat (nc_total_size c) mod 4096 = 0"
  using assms mod_mod_cancel [of 4096 32768 "unat (nc_total_size c)"] by (auto simp: chip_ok_def)

abbreviation ff :: "nat \<Rightarrow> u8" where
  "ff \<equiv> \<lambda>_. 0xff"

lemma erase_ran:
  assumes "fl_busy s = None" "flash_offset x mod erase_size c t = 0"
  shows "\<exists>ret s'. norflash_erase c x t susp s = Some (ret, s') \<and>
    ran susp (flash_offset x) (erase_size c t) (over (flash_offset x) (erase_size c t) ff (fl_mem s)) s ret s'"
proof -
  obtain ret s' where w: "norflash_status_WIP_1_wait susp (flash_offset x, erase_size c t, ff) s = (ret, s')"
    by (cases "norflash_status_WIP_1_wait susp (flash_offset x, erase_size c t, ff) s")
  have "flash_offset x div erase_size c t * erase_size c t = flash_offset x"
    using assms(2) div_mult_mod_eq [of "flash_offset x" "erase_size c t"] by simp
  then have "norflash_erase c x t susp s = Some (ret, s')"
    using w assms(1) by (simp add: norflash_erase_def Let_def)
  then show ?thesis using wait_ran [OF w] by blast
qed

text \<open>What a loop over commands leaves: \<open>k\<close> of the \<open>n\<close> bytes are done or on the way.\<close>

definition loop_ran :: "bool \<Rightarrow> nat \<Rightarrow> nat \<Rightarrow> nat \<Rightarrow> (nat \<Rightarrow> u8) \<Rightarrow> flash \<Rightarrow> HAL_NORFLASH_RET_T \<Rightarrow> flash \<Rightarrow> bool" where
  "loop_ran susp a n k m s ret s' \<longleftrightarrow> same_driver s s' \<and> k \<le> n \<and> settled s' = m \<and>
     (ret = HAL_NORFLASH_OK \<and> k = n \<and> fl_busy s' = None \<and> length (fl_irqs s') \<le> length (fl_irqs s) \<or>
      ret = HAL_NORFLASH_SUSPENDED \<and> susp \<and> 0 < k \<and> (\<exists>b l f. fl_busy s' = Some (b, l, f) \<and> a \<le> b \<and> b + l \<le> a + k) \<and>
        length (fl_irqs s') < length (fl_irqs s))"

lemma erase_loop_ok:
  assumes "chip_ok c" "fl_busy s = None" "flash_offset x mod 4096 = 0" "unat n mod 4096 = 0"
    "flash_offset x + unat n \<le> unat (nc_total_size c)"
  shows "\<exists>ret k s'. erase_loop c susp HAL_NORFLASH_OK x n s = Some (ret, x + of_nat k, n - of_nat k, s') \<and>
    k mod 4096 = 0 \<and> loop_ran susp (flash_offset x) (unat n) k (over (flash_offset x) k ff (fl_mem s)) s ret s'"
  using assms(2-5)
proof (induction "unat n" arbitrary: x n s rule: less_induct)
  case less
  note c = chip_okD [OF assms(1)]
  let ?a = "flash_offset x"
  show ?case
  proof (cases "n = 0")
    case True
    then show ?thesis using less.prems(1)
      by (subst erase_loop.simps) (auto intro!: exI [of _ 0] simp: loop_ran_def same_driver_def)
  next
    case False
    then have n: "0 < n" "4096 \<le> unat n"
      using less.prems(3) by (auto simp: word_greater_zero_iff unat_gt_0 mod_eq_0_iff_dvd dvd_imp_le)
    define t where "t = (if 32768 \<le> n \<and> x AND 0x7FFF = 0 then DRV_NORFLASH_ERASE_BLOCK else DRV_NORFLASH_ERASE_SECTOR)"
    define d :: u32 where "d = (if 32768 \<le> n \<and> x AND 0x7FFF = 0 then 32768 else 4096)"
    have d: "unat d = erase_size c t" "unat d \<le> unat n" "unat d mod 4096 = 0" "0 < unat d"
      using n by (auto simp: d_def t_def erase_size_def c word_le_nat_alt)
    have al: "?a mod erase_size c t = 0"
      using less.prems(2) by (auto simp: t_def erase_size_def c offset_mods unat_and_low [symmetric])
    from erase_ran [OF less.prems(1) al] obtain ret s1 where
      s1: "norflash_erase c x t susp s = Some (ret, s1)"
        "ran susp ?a (unat d) (over ?a (unat d) ff (fl_mem s)) s ret s1" unfolding d(1) by blast
    have "4096 < n" if "n \<noteq> 4096"
      using n(2) that by (rule less_4096)
    then have rest: "(if 4096 < n then n - 4096 else 0) = n - 4096" by auto
    have step: "erase_loop c susp HAL_NORFLASH_OK x n s = erase_loop c susp ret (x + d) (n - d) s1"
      using s1(1) n rest by (subst erase_loop.simps) (auto simp: c d_def t_def)
    have un: "unat (n - d) = unat n - unat d" using d(2) by (rule unat_sub_small)
    show ?thesis
    proof (cases "ret = HAL_NORFLASH_OK")
      case False
      then have "loop_ran susp ?a (unat n) (unat d) (over ?a (unat d) ff (fl_mem s)) s ret s1"
        using s1(2) d by (auto simp: ran_def loop_ran_def)
      moreover have "erase_loop c susp ret (x + d) (n - d) s1 = Some (ret, x + d, n - d, s1)"
        using False by (subst erase_loop.simps) simp
      ultimately show ?thesis using step d(3) by (intro exI [of _ ret] exI [of _ "unat d"] exI [of _ s1]) simp
    next
      case True
      then have b1: "fl_busy s1 = None" "fl_mem s1 = over ?a (unat d) ff (fl_mem s)"
        using s1(2) by (auto simp: ran_def)
      show ?thesis
      proof (cases "n = d")
        case True
        then have "erase_loop c susp ret (x + d) (n - d) s1 = Some (ret, x + d, n - d, s1)"
          by (subst erase_loop.simps) simp
        moreover have "loop_ran susp ?a (unat n) (unat d) (over ?a (unat d) ff (fl_mem s)) s ret s1"
          using s1(2) d \<open>ret = HAL_NORFLASH_OK\<close> True by (auto simp: ran_def loop_ran_def)
        ultimately show ?thesis using step d(3) by (intro exI [of _ ret] exI [of _ "unat d"] exI [of _ s1]) simp
      next
        case neq: False
        then have lt: "unat d < unat n" using d(2) by (simp add: word_unat_eq_iff)
        have off: "flash_offset (x + d) = ?a + unat d"
          using less.prems(4) lt c(6) by (intro flash_offset_add) linarith
        have "\<exists>ret k s'. erase_loop c susp HAL_NORFLASH_OK (x + d) (n - d) s1 = Some (ret, x + d + of_nat k, n - d - of_nat k, s') \<and>
          k mod 4096 = 0 \<and> loop_ran susp (flash_offset (x + d)) (unat (n - d)) k (over (flash_offset (x + d)) k ff (fl_mem s1)) s1 ret s'"
        proof (rule less.hyps)
          show "unat (n - d) < unat n" using d un by linarith
          show "flash_offset (x + d) mod 4096 = 0" using off less.prems(2) d(3) by (metis add_0 mod_add_eq mod_0)
          show "unat (n - d) mod 4096 = 0" using less.prems(3) d(2,3) un by (metis dvd_diff_nat mod_eq_0_iff_dvd)
          show "flash_offset (x + d) + unat (n - d) \<le> unat (nc_total_size c)" using less.prems(4) off un d(2) by linarith
        qed (rule b1)
        then obtain r2 k s2 where s2: "erase_loop c susp HAL_NORFLASH_OK (x + d) (n - d) s1 = Some (r2, x + d + of_nat k, n - d - of_nat k, s2)"
          "k mod 4096 = 0" "loop_ran susp (?a + unat d) (unat n - unat d) k (over (?a + unat d) k ff (fl_mem s1)) s1 r2 s2"
          unfolding off un by (elim exE conjE) (rule that, assumption+)
        have "over (?a + unat d) k ff (fl_mem s1) = over ?a (unat d + k) ff (fl_mem s)"
          by (simp add: b1(2) over_append)
        moreover have "length (fl_irqs s1) \<le> length (fl_irqs s)" "same_driver s s1"
          using s1(2) True by (auto simp: ran_def)
        ultimately have "loop_ran susp ?a (unat n) (unat d + k) (over ?a (unat d + k) ff (fl_mem s)) s r2 s2"
          using s2(3) d(2) by (auto simp: loop_ran_def same_driver_def)
        moreover have "(unat d + k) mod 4096 = 0" using s2(2) d(3) by (metis add_0 mod_add_eq mod_0)
        ultimately show ?thesis using step True s2(1)
          by (intro exI [of _ r2] exI [of _ "unat d + k"] exI [of _ s2]) (simp add: algebra_simps)
      qed
    qed
  qed
qed

section \<open>Programming page by page\<close>

lemma ptr_add_add [simp]: "ptr_add (ptr_add p m) n = ptr_add p (m + n)"
  by (cases p) (auto simp: add.commute)

lemma ptr_len_add [simp]: "ptr_len (ptr_add p n) = ptr_len p - n"
  by (cases p) auto

lemma ptr_byte_add: "n \<le> ptr_len p \<Longrightarrow> ptr_byte D (ptr_add p n) i = ptr_byte D p (n + i)"
  by (cases p) (auto simp: add.assoc)

lemma ptr_add_0 [simp]: "ptr_add p 0 = p"
  by (cases p) auto

text \<open>The memory with the \<open>n\<close> bytes at \<open>p\<close> programmed from \<open>a\<close> on: programming only clears bits.\<close>

definition prog :: "data_bufs \<Rightarrow> data_ptr \<Rightarrow> nat \<Rightarrow> nat \<Rightarrow> (nat \<Rightarrow> u8) \<Rightarrow> nat \<Rightarrow> u8" where
  "prog D p a n m = over a n (\<lambda>i. m i AND ptr_byte D p (i - a)) m"

lemma prog_0 [simp]: "prog D p a 0 m = m"
  by (simp add: prog_def)

lemma prog_append:
  "n \<le> ptr_len p \<Longrightarrow> prog D (ptr_add p n) (a + n) k (prog D p a n m) = prog D p a (n + k) m"
  by (auto simp: prog_def over_def fun_eq_iff ptr_byte_add)

lemma write_ran:
  assumes "fl_busy s = None" "unat n \<le> 256" "unat n \<le> ptr_len p"
  shows "\<exists>ret s'. norflash_write D x p n susp s = Some (ret, s') \<and>
    ran susp (flash_offset x) (unat n) (prog D p (flash_offset x) (unat n) (fl_mem s)) s ret s'"
proof -
  let ?cmd = "(flash_offset x, unat n, \<lambda>i. fl_mem s i AND ptr_byte D p (i - flash_offset x))"
  obtain ret s' where w: "norflash_status_WIP_1_wait susp ?cmd s = (ret, s')"
    by (cases "norflash_status_WIP_1_wait susp ?cmd s")
  have "\<not> 256 < n" using assms(2) by (simp add: word_less_nat_alt)
  then have "norflash_write D x p n susp s = Some (ret, s')"
    using w assms by (simp add: norflash_write_def Let_def)
  then show ?thesis using wait_ran [OF w] unfolding prog_def by blast
qed

lemma write_loop_ok:
  assumes "chip_ok c" "fl_busy s = None" "unat n \<le> ptr_len p" "flash_offset x + unat n \<le> unat (nc_total_size c)"
  shows "\<exists>ret k s'. write_loop c D susp HAL_NORFLASH_OK x p n s =
      Some (ret, x + of_nat k, ptr_add p k, n - of_nat k, s') \<and>
    loop_ran susp (flash_offset x) (unat n) k (prog D p (flash_offset x) k (fl_mem s)) s ret s'"
  using assms(2-4)
proof (induction "unat n" arbitrary: x n p s rule: less_induct)
  case less
  note c = chip_okD [OF assms(1)]
  let ?a = "flash_offset x"
  show ?case
  proof (cases "n = 0")
    case True
    then show ?thesis using less.prems(1)
      by (subst write_loop.simps) (auto intro!: exI [of _ 0] simp: loop_ran_def same_driver_def)
  next
    case False
    then have n: "0 < n" "0 < unat n" by (auto simp: word_greater_zero_iff unat_gt_0)
    define d0 :: u32 where "d0 = (if 256 < n then 256 else n)"
    define pp :: u32 where "pp = 256 - (x AND (256 - 1))"
    define d where "d = (if pp < d0 then pp else d0)"
    have "unat (x AND 0xFF) < 256" by (simp add: unat_and_low)
    then have pp: "0 < unat pp" by (simp add: pp_def unat_sub_small)
    have d0: "0 < unat d0" "unat d0 \<le> 256" "unat d0 \<le> unat n"
      using n by (auto simp: d0_def word_less_nat_alt)
    have d: "0 < unat d" "unat d \<le> 256" "unat d \<le> unat n"
      using pp d0 by (auto simp: d_def word_less_nat_alt)
    have dp: "unat d \<le> ptr_len p" using d less.prems(2) by simp
    from write_ran [OF less.prems(1) d(2) dp] obtain ret s1 where
      s1: "norflash_write D x p d susp s = Some (ret, s1)"
        "ran susp ?a (unat d) (prog D p ?a (unat d) (fl_mem s)) s ret s1" by blast
    have step: "write_loop c D susp HAL_NORFLASH_OK x p n s =
        write_loop c D susp ret (x + d) (ptr_add p (unat d)) (n - d) s1"
      unfolding write_loop.simps [of c D susp HAL_NORFLASH_OK x p n s] Let_def c(4)
        d0_def [symmetric] pp_def [symmetric] d_def [symmetric] using s1(1) n(1) by simp
    have un: "unat (n - d) = unat n - unat d" using d(3) by (rule unat_sub_small)
    show ?thesis
    proof (cases "ret = HAL_NORFLASH_OK \<and> n \<noteq> d")
      case False
      have "write_loop c D susp ret (x + d) (ptr_add p (unat d)) (n - d) s1 =
          Some (ret, x + d, ptr_add p (unat d), n - d, s1)"
        using False by (subst write_loop.simps) auto
      moreover have "loop_ran susp ?a (unat n) (unat d) (prog D p ?a (unat d) (fl_mem s)) s ret s1"
        using s1(2) d False by (auto simp: ran_def loop_ran_def)
      ultimately show ?thesis using step by (intro exI [of _ ret] exI [of _ "unat d"] exI [of _ s1]) simp
    next
      case True
      then have b1: "fl_busy s1 = None" "fl_mem s1 = prog D p ?a (unat d) (fl_mem s)"
        using s1(2) by (auto simp: ran_def)
      have lt: "unat d < unat n" using d(3) True by (simp add: word_unat_eq_iff)
      have off: "flash_offset (x + d) = ?a + unat d"
        using less.prems(3) lt c(6) by (intro flash_offset_add) linarith
      have "\<exists>ret k s'. write_loop c D susp HAL_NORFLASH_OK (x + d) (ptr_add p (unat d)) (n - d) s1 =
          Some (ret, x + d + of_nat k, ptr_add (ptr_add p (unat d)) k, n - d - of_nat k, s') \<and>
        loop_ran susp (flash_offset (x + d)) (unat (n - d)) k
          (prog D (ptr_add p (unat d)) (flash_offset (x + d)) k (fl_mem s1)) s1 ret s'"
      proof (rule less.hyps)
        show "unat (n - d) < unat n" using d un by linarith
        show "unat (n - d) \<le> ptr_len (ptr_add p (unat d))" using un less.prems(2) by simp
        show "flash_offset (x + d) + unat (n - d) \<le> unat (nc_total_size c)" using less.prems(3) off un d(3) by linarith
      qed (rule b1)
      then obtain r2 k s2 where s2: "write_loop c D susp HAL_NORFLASH_OK (x + d) (ptr_add p (unat d)) (n - d) s1 =
          Some (r2, x + d + of_nat k, ptr_add (ptr_add p (unat d)) k, n - d - of_nat k, s2)"
        "loop_ran susp (?a + unat d) (unat n - unat d) k
          (prog D (ptr_add p (unat d)) (?a + unat d) k (fl_mem s1)) s1 r2 s2"
        unfolding off un by (elim exE conjE) (rule that, assumption+)
      have "prog D (ptr_add p (unat d)) (?a + unat d) k (fl_mem s1) = prog D p ?a (unat d + k) (fl_mem s)"
        by (simp add: b1(2) prog_append [OF dp])
      moreover have "length (fl_irqs s1) \<le> length (fl_irqs s)" "same_driver s s1"
        using s1(2) True by (auto simp: ran_def)
      ultimately have "loop_ran susp ?a (unat n) (unat d + k) (prog D p ?a (unat d + k) (fl_mem s)) s r2 s2"
        using s2(2) d(3) by (auto simp: loop_ran_def same_driver_def)
      then show ?thesis using step True s2(1)
        by (intro exI [of _ r2] exI [of _ "unat d + k"] exI [of _ s2]) (simp add: algebra_simps)
    qed
  qed
qed

section \<open>The contract of the driver\<close>

text \<open>The flash once everything that was begun is done; \<open>D\<close> are the buffers the driver reads from.\<close>

definition flash_goal :: "data_bufs \<Rightarrow> flash \<Rightarrow> nat \<Rightarrow> u8" where
  "flash_goal D s = (case suspend_state s of SUSPEND_STATE_NONE \<Rightarrow> fl_mem s
     | SUSPEND_STATE_ERASE \<Rightarrow> over (flash_offset (op_next_addr s)) (unat (op_remain_len s)) ff (settled s)
     | SUSPEND_STATE_PROGRAM \<Rightarrow> prog D (op_next_buf s) (flash_offset (op_next_addr s)) (unat (op_remain_len s)) (settled s))"

text \<open>Nothing is on the way, or an operation whose rest lies within \<open>[lo, hi)\<close>.\<close>

definition flash_ok :: "norflash_ctx \<Rightarrow> nat \<Rightarrow> nat \<Rightarrow> flash \<Rightarrow> bool" where
  "flash_ok c lo hi s \<longleftrightarrow> (case suspend_state s of SUSPEND_STATE_NONE \<Rightarrow> fl_busy s = None
     | st \<Rightarrow> nc_suspend_mode c \<and> hi < unat (nc_total_size c) \<and>
         (\<exists>b l f. fl_busy s = Some (b, l, f) \<and> lo \<le> b \<and> b + l \<le> hi) \<and>
         lo \<le> flash_offset (op_next_addr s) \<and> flash_offset (op_next_addr s) + unat (op_remain_len s) \<le> hi \<and>
         (if st = SUSPEND_STATE_ERASE
          then flash_offset (op_next_addr s) mod 4096 = 0 \<and> unat (op_remain_len s) mod 4096 = 0
          else unat (op_remain_len s) \<le> ptr_len (op_next_buf s)))"

text \<open>An operation that is to leave \<open>goal\<close> ends in one of two ways: it is done, or it is suspended.\<close>

definition flash_ends :: "norflash_ctx \<Rightarrow> data_bufs \<Rightarrow> SUSPEND_STATE_T \<Rightarrow> bool \<Rightarrow> nat \<Rightarrow> nat \<Rightarrow> (nat \<Rightarrow> u8) \<Rightarrow> flash
    \<Rightarrow> HAL_NORFLASH_RET_T \<Rightarrow> flash \<Rightarrow> bool" where
  "flash_ends c D st susp lo hi goal s ret s' \<longleftrightarrow> flash_ok c lo hi s' \<and> flash_goal D s' = goal \<and>
     (ret = HAL_NORFLASH_OK \<and> suspend_state s' = SUSPEND_STATE_NONE \<and> length (fl_irqs s') \<le> length (fl_irqs s) \<or>
      ret = HAL_NORFLASH_SUSPENDED \<and> susp \<and> suspend_state s' = st \<and> length (fl_irqs s') < length (fl_irqs s))"

lemma flash_ok_idle: "suspend_state s = SUSPEND_STATE_NONE \<Longrightarrow> flash_ok c lo hi s \<longleftrightarrow> fl_busy s = None"
  by (simp add: flash_ok_def)

lemma flash_goal_idle: "suspend_state s = SUSPEND_STATE_NONE \<Longrightarrow> flash_goal D s = fl_mem s"
  by (simp add: flash_goal_def)

text \<open>Outside of the range of a suspended operation the flash can be read as it will be.\<close>

lemma flash_goal_outside:
  assumes "flash_ok c lo hi s" "i < lo \<or> hi \<le> i"
  shows "flash_goal D s i = fl_mem s i"
  using assms by (cases "suspend_state s") (auto simp: flash_ok_def flash_goal_def settled_def prog_def over_def)

lemma align_down: "(a :: nat) div 4096 * 4096 + a mod 4096 = a"
  by simp

lemma align_up:
  fixes n :: nat
  shows "(n + 4095) div 4096 * 4096 = (if n mod 4096 = 0 then n else n + (4096 - n mod 4096))"
proof -
  have "(n + 4095) div 4096 = n div 4096 + (n mod 4096 + 4095) div 4096"
    using div_mult_self4 [of 4096 "n div 4096" "n mod 4096 + 4095"] by (simp add: add.assoc [symmetric])
  moreover have "(n mod 4096 + 4095) div 4096 = (if n mod 4096 = 0 then 0 else 1)"
    by (auto intro: div_nat_eqI)
  ultimately have e: "(n + 4095) div 4096 * 4096 = n div 4096 * 4096 + (if n mod 4096 = 0 then 0 else 4096)"
    by simp
  have n: "n div 4096 * 4096 + n mod 4096 = n" "n mod 4096 < 4096" by simp_all
  show ?thesis
  proof (cases "n mod 4096 = 0")
    case True
    then show ?thesis using e n by simp
  next
    case False
    then have "(n + 4095) div 4096 * 4096 = n div 4096 * 4096 + 4096" using e by simp
    then show ?thesis unfolding if_not_P [OF False] using n by linarith
  qed
qed

section \<open>Erasing\<close>

lemma erase_loop_ends:
  assumes "loop_ran susp lo n k (over lo k ff (fl_mem s)) s ret s'" "susp \<longrightarrow> nc_suspend_mode c \<and> lo + n < unat (nc_total_size c)"
    "flash_offset x = lo" "lo mod 4096 = 0" "unat len = n" "n mod 4096 = 0" "k mod 4096 = 0" "lo + n \<le> unat (nc_total_size c)" "chip_ok c"
  shows "flash_ends c D SUSPEND_STATE_ERASE susp lo (lo + n) (over lo n ff (fl_mem s)) s ret
    (if ret = HAL_NORFLASH_SUSPENDED
     then s'\<lparr>suspend_state := SUSPEND_STATE_ERASE, op_next_addr := x + of_nat k, op_remain_len := len - of_nat k\<rparr>
     else s'\<lparr>suspend_state := SUSPEND_STATE_NONE\<rparr>)"
proof (cases "ret = HAL_NORFLASH_OK")
  case True
  then show ?thesis using assms(1) by (auto simp: loop_ran_def flash_ends_def flash_ok_idle flash_goal_idle)
next
  case False
  note r = assms(1) [unfolded loop_ran_def]
  have "unat len < 2 ^ 32" by (rule order_less_le_trans [OF unsigned_less]) simp
  then have k: "k \<le> n" "unat (of_nat k :: u32) = k" "ret = HAL_NORFLASH_SUSPENDED" susp
    using r False assms(5) by (auto simp: unat_of_nat take_bit_nat_eq_self)
  have off: "flash_offset (x + of_nat k) = lo + k"
    using flash_offset_add [of x "of_nat k"] k assms(2,3,8) chip_okD(6) [OF assms(9)] by simp
  have rest: "unat (len - of_nat k) = n - k" using k assms(5) by (simp add: unat_sub_small)
  have "(lo + k) mod 4096 = 0" "(n - k) mod 4096 = 0"
    using assms(4,6,7) k(1) by (auto simp: mod_eq_0_iff_dvd intro: dvd_diff_nat)
  moreover have "over (lo + k) (n - k) ff (over lo k ff (fl_mem s)) = over lo n ff (fl_mem s)"
    using k(1) by (simp add: over_append)
  ultimately show ?thesis using r False assms(2) k off rest
    by (auto simp: flash_ends_def flash_ok_def flash_goal_def settled_def)
qed

text \<open>The range of whole sectors that meets \<open>n\<close> bytes from \<open>a\<close> on.\<close>

definition sectors_lo :: "nat \<Rightarrow> nat" where
  "sectors_lo a = a div 4096 * 4096"

definition sectors_hi :: "nat \<Rightarrow> nat \<Rightarrow> nat" where
  "sectors_hi a n = (a + n + 4095) div 4096 * 4096"

lemma sectors_hi_le: "m mod 4096 = 0 \<Longrightarrow> a + n \<le> m \<Longrightarrow> sectors_hi a n \<le> m"
proof -
  assume m: "m mod 4096 = 0" "a + n \<le> m"
  have "(a + n + 4095) div 4096 \<le> (m + 4095) div 4096" using m(2) by (intro div_le_mono) simp
  then show ?thesis using align_up [of m] m(1) unfolding sectors_hi_def by (metis mult_le_mono1)
qed

lemma sectors_aligned: "a mod 4096 = 0 \<Longrightarrow> n mod 4096 = 0 \<Longrightarrow> sectors_lo a = a \<and> sectors_hi a n = a + n"
  using align_up [of "a + n"] by (auto simp: sectors_lo_def sectors_hi_def mod_eq_0_iff_dvd)

lemma sectors_le: "sectors_lo a \<le> a" "a + n \<le> sectors_hi a n"
  using align_up [of "a + n"] by (auto simp: sectors_lo_def sectors_hi_def split: if_splits)

lemma erase_int_ok:
  assumes c: "chip_ok c" and busy: "fl_busy s = None"
    and range: "flash_offset start < unat (nc_total_size c)" "flash_offset start + unat len \<le> unat (nc_total_size c)"
    and susp: "susp \<longrightarrow> nc_suspend_mode c \<and> sectors_hi (flash_offset start) (unat len) < unat (nc_total_size c)"
    and part: "0 < sectors_lo (flash_offset start) \<or> sectors_hi (flash_offset start) (unat len) < unat (nc_total_size c)"
  shows "\<exists>ret s'. hal_norflash_erase_int c start len susp s = Some (ret, s') \<and>
    flash_ends c D SUSPEND_STATE_ERASE susp (sectors_lo (flash_offset start)) (sectors_hi (flash_offset start) (unat len))
      (over (sectors_lo (flash_offset start)) (sectors_hi (flash_offset start) (unat len) - sectors_lo (flash_offset start)) ff (fl_mem s))
      s ret s'"
proof -
  note C = chip_okD [OF c]
  define a n lo hi where "a = flash_offset start" and "n = unat len" and "lo = sectors_lo a" and "hi = sectors_hi a n"
  define hd' where "hd' = start AND (nc_sector_size c - 1)"
  define st where "st = start - hd'"
  define l1 where "l1 = len + hd'"
  define rest where "rest = l1 AND (nc_sector_size c - 1)"
  define l2 where "l2 = (if rest \<noteq> 0 then l1 + (nc_sector_size c - rest) else l1)"
  have hd': "unat hd' = a mod 4096"
    by (simp add: hd'_def C unat_and_low a_def offset_mods)
  have an: "a + n \<le> 67108864" using range C(6) by (simp add: a_def n_def)
  have am: "a mod 4096 \<le> a" by simp
  have st: "flash_offset st = lo"
    using flash_offset_sub [of hd' start] am minus_mod_eq_div_mult [of a 4096]
    by (simp add: st_def hd' lo_def sectors_lo_def a_def)
  have l1: "unat l1 = n + a mod 4096"
    unfolding l1_def hd' [symmetric] n_def by (rule unat_add_small) (use an am in \<open>simp add: hd' n_def\<close>)
  have lo: "lo + a mod 4096 = a" by (simp add: lo_def sectors_lo_def)
  have lom: "lo mod 4096 = 0" by (simp add: lo_def sectors_lo_def)
  have r: "unat rest = (a + n) mod 4096"
  proof -
    have "(lo + unat l1) mod 4096 = unat l1 mod 4096" using lom by (metis add_0 mod_add_eq mod_mod_trivial)
    moreover have "lo + unat l1 = a + n" using lo l1 by simp
    ultimately show ?thesis by (simp add: rest_def C unat_and_low)
  qed
  have l2: "lo + unat l2 = hi"
  proof (cases "rest = 0")
    case True
    then have "(a + n) mod 4096 = 0" using r by simp
    then have "hi = a + n" using align_up [of "a + n"] by (simp add: hi_def sectors_hi_def)
    then show ?thesis using True lo l1 by (simp add: l2_def)
  next
    case False
    then have r0: "(a + n) mod 4096 \<noteq> 0" using r by (metis unat_eq_zero)
    have sub: "unat (4096 - rest) = 4096 - (a + n) mod 4096" by (subst unat_sub_small) (simp_all add: r less_imp_le)
    have "unat l1 + (4096 - (a + n) mod 4096) < 2 ^ 32" using an l1 am by simp
    then have "unat (l1 + (4096 - rest)) = unat l1 + (4096 - (a + n) mod 4096)"
      using unat_add_small [of l1 "4096 - rest"] by (simp add: sub)
    then have "unat l2 = unat l1 + (4096 - (a + n) mod 4096)" using False by (simp add: l2_def C)
    moreover have "hi = a + n + (4096 - (a + n) mod 4096)" "(a + n) mod 4096 < 4096"
      using r0 align_up [of "a + n"] by (simp_all add: hi_def sectors_hi_def)
    ultimately show ?thesis using lo l1 by linarith
  qed
  have him: "hi mod 4096 = 0" by (simp add: hi_def sectors_hi_def)
  have l2m: "unat l2 mod 4096 = 0" using lom him l2 by (metis add_0 mod_add_eq mod_mod_trivial)
  have hit: "hi \<le> unat (nc_total_size c)" unfolding hi_def
    by (rule sectors_hi_le) (use C(7) range in \<open>simp_all add: a_def n_def\<close>)
  have guards: "\<not> nc_total_size c \<le> start AND HAL_NORFLASH_ADDR_MASK"
    "\<not> nc_total_size c - (start AND HAL_NORFLASH_ADDR_MASK) < len"
    using range by (auto simp: word_le_nat_alt word_less_nat_alt flash_offset_def unat_sub_small not_less)
  have chip: "\<not> (st AND HAL_NORFLASH_ADDR_MASK = 0 \<and> nc_total_size c \<le> l2)"
  proof
    assume "st AND HAL_NORFLASH_ADDR_MASK = 0 \<and> nc_total_size c \<le> l2"
    then have "lo = 0" "unat (nc_total_size c) \<le> unat l2"
      using st by (simp_all add: flash_offset_def word_le_nat_alt)
    then show False using part l2 by (simp add: lo_def hi_def a_def n_def)
  qed
  have "flash_offset st mod 4096 = 0" "flash_offset st + unat l2 \<le> unat (nc_total_size c)"
    using st lom l2 hit by simp_all
  from erase_loop_ok [OF c busy this(1) l2m this(2), of susp, unfolded st] obtain ret k s1 where
    s1: "erase_loop c susp HAL_NORFLASH_OK st l2 s = Some (ret, st + of_nat k, l2 - of_nat k, s1)" "k mod 4096 = 0"
      "loop_ran susp lo (unat l2) k (over lo k ff (fl_mem s)) s ret s1"
    by (elim exE conjE) (rule that, assumption+)
  let ?s' = "if ret = HAL_NORFLASH_SUSPENDED
     then s1\<lparr>suspend_state := SUSPEND_STATE_ERASE, op_next_addr := st + of_nat k, op_remain_len := l2 - of_nat k\<rparr>
     else s1\<lparr>suspend_state := SUSPEND_STATE_NONE\<rparr>"
  have "hal_norflash_erase_int c start len susp s = Some (ret, ?s')"
    unfolding hal_norflash_erase_int_def Let_def hd'_def [symmetric] st_def [symmetric] l1_def [symmetric]
      rest_def [symmetric] l2_def [symmetric] if_not_P [OF chip]
    using guards s1(1) by simp
  moreover have "flash_ends c D SUSPEND_STATE_ERASE susp lo (lo + unat l2) (over lo (unat l2) ff (fl_mem s)) s ret ?s'"
    by (rule erase_loop_ends [OF s1(3) _ st lom refl l2m s1(2) _ c])
      (use susp hit l2 in \<open>simp_all add: hi_def a_def n_def\<close>)
  moreover have "unat l2 = hi - lo" "lo + unat l2 = hi" using l2 by simp_all
  ultimately show ?thesis unfolding lo_def hi_def a_def n_def by auto
qed

lemma flash_ok_mono:
  assumes "flash_ok c lo hi s" "lo' \<le> lo" "hi \<le> hi'" "hi' < unat (nc_total_size c) \<or> suspend_state s = SUSPEND_STATE_NONE"
  shows "flash_ok c lo' hi' s"
  using assms by (cases "suspend_state s") (auto simp: flash_ok_def intro: order_trans)

lemma flash_ends_mono:
  assumes "flash_ends c D st susp lo hi goal s ret s'" "lo' \<le> lo" "hi \<le> hi'"
    "hi' < unat (nc_total_size c) \<or> \<not> susp" "length (fl_irqs s) \<le> length (fl_irqs s0)"
  shows "flash_ends c D st susp lo' hi' goal s0 ret s'"
  using assms by (auto simp: flash_ends_def intro: flash_ok_mono)


lemma erase_suspend_ok:
  assumes "chip_ok c" "suspend_state s = SUSPEND_STATE_NONE" "fl_busy s = None"
    "sectors_hi (flash_offset start) (unat len) < unat (nc_total_size c)"
  shows "\<exists>ret s'. hal_norflash_erase_suspend c start len susp s = Some (ret, s') \<and>
    flash_ends c D SUSPEND_STATE_ERASE susp (sectors_lo (flash_offset start)) (sectors_hi (flash_offset start) (unat len))
      (over (sectors_lo (flash_offset start)) (sectors_hi (flash_offset start) (unat len) - sectors_lo (flash_offset start)) ff (fl_mem s))
      s ret s'"
proof -
  let ?susp = "susp \<and> nc_suspend_mode c"
  note le = sectors_le(1) [of "flash_offset start"] sectors_le(2) [of "flash_offset start" "unat len"]
  from erase_int_ok [OF assms(1,3), where start = start and len = len and susp = ?susp and D = D] le assms(4)
  obtain ret s' where r: "hal_norflash_erase_int c start len ?susp s = Some (ret, s')"
    "flash_ends c D SUSPEND_STATE_ERASE ?susp (sectors_lo (flash_offset start)) (sectors_hi (flash_offset start) (unat len))
      (over (sectors_lo (flash_offset start)) (sectors_hi (flash_offset start) (unat len) - sectors_lo (flash_offset start)) ff (fl_mem s))
      s ret s'" by auto
  then show ?thesis using assms(2) chip_okD(1) [OF assms(1)]
    by (intro exI [of _ ret] exI [of _ s']) (auto simp: hal_norflash_erase_suspend_def flash_ends_def)
qed

lemma resumed:
  assumes "flash_ok c lo hi s" "suspend_state s = st" "st \<noteq> SUSPEND_STATE_NONE" "norflash_erase_resume susp s = (ret, s1)"
  shows "ret = HAL_NORFLASH_OK \<and> fl_busy s1 = None \<and> fl_mem s1 = settled s \<and> same_driver s s1 \<and>
      length (fl_irqs s1) \<le> length (fl_irqs s) \<or>
    ret = HAL_NORFLASH_SUSPENDED \<and> flash_ends c D st susp lo hi (flash_goal D s) s ret s1"
proof -
  obtain b l f where b: "fl_busy s = Some (b, l, f)" "lo \<le> b" "b + l \<le> hi"
    using assms(1-3) by (cases st) (auto simp: flash_ok_def)
  have r: "ran susp b l (settled s) s ret s1" using resume_ran [OF assms(4) b(1)] .
  show ?thesis
  proof (cases "ret = HAL_NORFLASH_OK")
    case True
    then show ?thesis using r by (auto simp: ran_def)
  next
    case False
    then have "ret = HAL_NORFLASH_SUSPENDED" "flash_goal D s1 = flash_goal D s" "flash_ok c lo hi s1"
      using r b assms(1,2,3) by (cases st; auto simp: ran_def same_driver_def flash_goal_def flash_ok_def)+
    then show ?thesis using r assms(2) by (auto simp: ran_def same_driver_def flash_ends_def)
  qed
qed

lemma erase_resume_ok:
  assumes c: "chip_ok c" and ok: "flash_ok c lo hi s" and st: "suspend_state s = SUSPEND_STATE_ERASE"
  shows "\<exists>ret s'. hal_norflash_erase_resume c susp s = Some (ret, s') \<and>
    flash_ends c D SUSPEND_STATE_ERASE susp lo hi (flash_goal D s) s ret s'"
proof -
  obtain ret s1 where r: "norflash_erase_resume susp s = (ret, s1)" by (cases "norflash_erase_resume susp s")
  define a n where "a = flash_offset (op_next_addr s)" and "n = unat (op_remain_len s)"
  have k: "nc_opened c" "nc_suspend_mode c" "hi < unat (nc_total_size c)" "lo \<le> a" "a + n \<le> hi" "a mod 4096 = 0" "n mod 4096 = 0"
    using ok st chip_okD [OF c] by (auto simp: flash_ok_def a_def n_def)
  from resumed [OF ok st _ r, of D] consider
      (susp) "ret = HAL_NORFLASH_SUSPENDED" "flash_ends c D SUSPEND_STATE_ERASE susp lo hi (flash_goal D s) s ret s1"
    | (fin) "ret = HAL_NORFLASH_OK" "fl_busy s1 = None" "fl_mem s1 = settled s" "same_driver s s1"
        "length (fl_irqs s1) \<le> length (fl_irqs s)" by auto
  then show ?thesis
  proof cases
    case susp
    then show ?thesis using r st k
      by (intro exI [of _ ret] exI [of _ s1]) (simp add: hal_norflash_erase_resume_def)
  next
    case fin
    have d: "op_next_addr s1 = op_next_addr s" "op_remain_len s1 = op_remain_len s" using fin(4) by (simp_all add: same_driver_def)
    have al: "sectors_lo a = a" "sectors_hi a n = a + n" using sectors_aligned [OF k(6,7)] by simp_all
    have "\<exists>r2 s2. hal_norflash_erase_int c (op_next_addr s) (op_remain_len s) susp s1 = Some (r2, s2) \<and>
      flash_ends c D SUSPEND_STATE_ERASE susp a (a + n) (over a n ff (fl_mem s1)) s1 r2 s2"
      using erase_int_ok [OF c fin(2), where start = "op_next_addr s" and len = "op_remain_len s" and susp = susp and D = D]
        k al unfolding a_def [symmetric] n_def [symmetric] by auto
    then obtain r2 s2 where s2: "hal_norflash_erase_int c (op_next_addr s) (op_remain_len s) susp s1 = Some (r2, s2)"
      "flash_ends c D SUSPEND_STATE_ERASE susp a (a + n) (over a n ff (fl_mem s1)) s1 r2 s2" by blast
    have "flash_goal D s = over a n ff (fl_mem s1)" using st fin(3) by (simp add: flash_goal_def a_def n_def)
    then have "flash_ends c D SUSPEND_STATE_ERASE susp lo hi (flash_goal D s) s r2 s2"
      using flash_ends_mono [OF s2(2) k(4,5) _ fin(5)] k(3) by simp
    then show ?thesis using r st k s2(1) fin(1) d
      by (intro exI [of _ r2] exI [of _ s2]) (simp add: hal_norflash_erase_resume_def)
  qed
qed

section \<open>Programming\<close>

lemma write_int_ok:
  assumes c: "chip_ok c" and busy: "fl_busy s = None" and len: "unat len \<le> ptr_len p"
    and range: "flash_offset start < unat (nc_total_size c)" "flash_offset start + unat len \<le> unat (nc_total_size c)"
    and susp: "susp \<longrightarrow> nc_suspend_mode c \<and> flash_offset start + unat len < unat (nc_total_size c)"
  shows "\<exists>ret s'. hal_norflash_write_int c D start p len susp s = Some (ret, s') \<and>
    flash_ends c D SUSPEND_STATE_PROGRAM susp (flash_offset start) (flash_offset start + unat len)
      (prog D p (flash_offset start) (unat len) (fl_mem s)) s ret s'"
proof -
  note C = chip_okD [OF c]
  let ?a = "flash_offset start" and ?n = "unat len"
  have guards: "\<not> nc_total_size c \<le> start AND HAL_NORFLASH_ADDR_MASK"
    "\<not> nc_total_size c - (start AND HAL_NORFLASH_ADDR_MASK) < len"
    using range by (auto simp: word_le_nat_alt word_less_nat_alt flash_offset_def unat_sub_small not_less)
  from write_loop_ok [OF c busy len range(2), of D susp] obtain ret k s1 where
    s1: "write_loop c D susp HAL_NORFLASH_OK start p len s = Some (ret, start + of_nat k, ptr_add p k, len - of_nat k, s1)"
      "loop_ran susp ?a ?n k (prog D p ?a k (fl_mem s)) s ret s1"
    by (elim exE conjE) (rule that, assumption+)
  note r = s1(2) [unfolded loop_ran_def]
  let ?s' = "if ret = HAL_NORFLASH_SUSPENDED
     then s1\<lparr>suspend_state := SUSPEND_STATE_PROGRAM, op_next_addr := start + of_nat k,
             op_next_buf := ptr_add p k, op_remain_len := len - of_nat k\<rparr>
     else s1\<lparr>suspend_state := SUSPEND_STATE_NONE\<rparr>"
  have "hal_norflash_write_int c D start p len susp s = Some (ret, ?s')"
    unfolding hal_norflash_write_int_def using guards s1(1) by simp
  moreover have "flash_ends c D SUSPEND_STATE_PROGRAM susp ?a (?a + ?n) (prog D p ?a ?n (fl_mem s)) s ret ?s'"
  proof (cases "ret = HAL_NORFLASH_OK")
    case True
    then show ?thesis using r by (auto simp: flash_ends_def flash_ok_idle flash_goal_idle)
  next
    case False
    have "unat len < 2 ^ 32" by (rule order_less_le_trans [OF unsigned_less]) simp
    then have k: "k \<le> ?n" "unat (of_nat k :: u32) = k" "ret = HAL_NORFLASH_SUSPENDED" susp "k \<le> ptr_len p"
      using r False len by (auto simp: unat_of_nat take_bit_nat_eq_self)
    have off: "flash_offset (start + of_nat k) = ?a + k"
      using flash_offset_add [of start "of_nat k"] k susp C(6) by simp
    have rest: "unat (len - of_nat k) = ?n - k" using k by (simp add: unat_sub_small)
    have "prog D (ptr_add p k) (?a + k) (?n - k) (prog D p ?a k (fl_mem s)) = prog D p ?a ?n (fl_mem s)"
      using k(1) prog_append [OF k(5)] by simp
    then show ?thesis using r False susp len k off rest
      by (auto simp: flash_ends_def flash_ok_def flash_goal_def settled_def)
  qed
  ultimately show ?thesis by blast
qed

lemma write_suspend_ok:
  assumes "chip_ok c" "suspend_state s = SUSPEND_STATE_NONE" "fl_busy s = None" "unat len \<le> ptr_len p"
    "flash_offset start + unat len < unat (nc_total_size c)"
  shows "\<exists>ret s'. hal_norflash_write_suspend c D start p len susp s = Some (ret, s') \<and>
    flash_ends c D SUSPEND_STATE_PROGRAM susp (flash_offset start) (flash_offset start + unat len)
      (prog D p (flash_offset start) (unat len) (fl_mem s)) s ret s'"
proof -
  from write_int_ok [OF assms(1,3,4), where start = start and susp = "susp \<and> nc_suspend_mode c" and D = D] assms(5)
  obtain ret s' where r: "hal_norflash_write_int c D start p len (susp \<and> nc_suspend_mode c) s = Some (ret, s')"
    "flash_ends c D SUSPEND_STATE_PROGRAM (susp \<and> nc_suspend_mode c) (flash_offset start) (flash_offset start + unat len)
      (prog D p (flash_offset start) (unat len) (fl_mem s)) s ret s'" by auto
  then show ?thesis using assms(2) chip_okD(1) [OF assms(1)]
    by (intro exI [of _ ret] exI [of _ s']) (auto simp: hal_norflash_write_suspend_def flash_ends_def)
qed

lemma write_resume_ok:
  assumes c: "chip_ok c" and ok: "flash_ok c lo hi s" and st: "suspend_state s = SUSPEND_STATE_PROGRAM"
  shows "\<exists>ret s'. hal_norflash_write_resume c D susp s = Some (ret, s') \<and>
    flash_ends c D SUSPEND_STATE_PROGRAM susp lo hi (flash_goal D s) s ret s'"
proof -
  obtain ret s1 where r: "norflash_write_resume susp s = (ret, s1)" by (cases "norflash_write_resume susp s")
  then have r': "norflash_erase_resume susp s = (ret, s1)" by (simp add: norflash_write_resume_def)
  define a n p where "a = flash_offset (op_next_addr s)" and "n = unat (op_remain_len s)" and "p = op_next_buf s"
  have k: "nc_opened c" "nc_suspend_mode c" "hi < unat (nc_total_size c)" "lo \<le> a" "a + n \<le> hi" "n \<le> ptr_len p"
    using ok st chip_okD [OF c] by (auto simp: flash_ok_def a_def n_def p_def)
  from resumed [OF ok st _ r', of D] consider
      (susp) "ret = HAL_NORFLASH_SUSPENDED" "flash_ends c D SUSPEND_STATE_PROGRAM susp lo hi (flash_goal D s) s ret s1"
    | (fin) "ret = HAL_NORFLASH_OK" "fl_busy s1 = None" "fl_mem s1 = settled s" "same_driver s s1"
        "length (fl_irqs s1) \<le> length (fl_irqs s)" by auto
  then show ?thesis
  proof cases
    case susp
    then show ?thesis using r st k
      by (intro exI [of _ ret] exI [of _ s1]) (simp add: hal_norflash_write_resume_def)
  next
    case fin
    have d: "op_next_addr s1 = op_next_addr s" "op_remain_len s1 = op_remain_len s" "op_next_buf s1 = op_next_buf s"
      using fin(4) by (simp_all add: same_driver_def)
    have "\<exists>r2 s2. hal_norflash_write_int c D (op_next_addr s) p (op_remain_len s) susp s1 = Some (r2, s2) \<and>
      flash_ends c D SUSPEND_STATE_PROGRAM susp a (a + n) (prog D p a n (fl_mem s1)) s1 r2 s2"
      unfolding a_def n_def by (rule write_int_ok [OF c fin(2)]) (use k in \<open>simp_all add: a_def n_def\<close>)
    then obtain r2 s2 where s2: "hal_norflash_write_int c D (op_next_addr s) p (op_remain_len s) susp s1 = Some (r2, s2)"
      "flash_ends c D SUSPEND_STATE_PROGRAM susp a (a + n) (prog D p a n (fl_mem s1)) s1 r2 s2" by blast
    have "flash_goal D s = prog D p a n (fl_mem s1)" using st fin(3) by (simp add: flash_goal_def a_def n_def p_def)
    then have "flash_ends c D SUSPEND_STATE_PROGRAM susp lo hi (flash_goal D s) s r2 s2"
      using flash_ends_mono [OF s2(2) k(4,5) _ fin(5)] k(3) by simp
    then show ?thesis using r st k s2(1) fin(1) d
      by (intro exI [of _ r2] exI [of _ s2]) (simp add: hal_norflash_write_resume_def p_def)
  qed
qed

end
