(* ===== verification/Norflash_Api.thy ===== *)
theory Norflash_Api
  imports Norflash_Suspend Links
begin

text \<open>
  The flash service, \<^verbatim>\<open>services/norflash_api/norflash_api.cpp\<close>: its clients (modules) erase and write the flash either
  synchronously or by queueing an operation that is carried out later, when the system is about to sleep. Queued
  operations live in a pool of six slots and, for the data of a write, one buffer of a sector; a module's queue is a
  linked list with the newest operation at its head, carried out from its tail. Reads look into the queue first.

  Modules, operations and buffers are named by their index in the static arrays; a freed slot keeps its contents. Built as
  the repository builds it: \<^verbatim>\<open>FLASH_SUSPEND\<close> and \<^verbatim>\<open>FLASH_API_NORMAL\<close> defined, \<^verbatim>\<open>FLASH_REMAP\<close>, \<^verbatim>\<open>FLASH_API_SIMPLE\<close> and
  \<^verbatim>\<open>PUYA_FLASH_ERASE_PAGE_ENABLE\<close> not. \<open>na_allow\<close> is what the callback that may postpone flushing will answer (always
  allowed once the list is exhausted); calls of a module's completion callback are recorded in \<open>na_done\<close>. A failed
  assertion, an access outside an array or buffer, a division by zero and a loop that does not end are \<open>None\<close>.
\<close>

section \<open>Data\<close>

datatype NORFLASH_API_OPRATION_TYPE = NORFLASH_API_WRITTING | NORFLASH_API_ERASING | NORFLASH_API_ALL

datatype NORFLASH_API_RET_T = NORFLASH_API_OK | NORFLASH_API_BUFFER_FULL | NORFLASH_API_BAD_DEV_ID
  | NORFLASH_API_BAD_MOD_ID | NORFLASH_API_BAD_BUFF_LEN | NORFLASH_API_BAD_ADDR | NORFLASH_API_BAD_LEN
  | NORFLASH_API_ERR_UNINIT | NORFLASH_API_ERR_HASINIT | NORFLASH_API_ERR

datatype NORFLASH_API_STATE = NORFLASH_API_STATE_UNINITED | NORFLASH_API_STATE_IDLE | NORFLASH_API_STATE_WRITTING
  | NORFLASH_API_STATE_WRITTING_SUSPEND | NORFLASH_API_STATE_WRITTING_RESUME | NORFLASH_API_STATE_ERASE
  | NORFLASH_API_STATE_ERASE_SUSPEND | NORFLASH_API_STATE_ERASE_RESUME

definition NORFLASH_API_MODULE_ID_COUNT :: nat where
  "NORFLASH_API_MODULE_ID_COUNT = 12"

definition HAL_NORFLASH_ID_NUM :: nat where
  "HAL_NORFLASH_ID_NUM = 1"

definition NORFLASH_API_WRITE_BUFF_LEN :: nat where
  "NORFLASH_API_WRITE_BUFF_LEN = 1"

definition NORFLASH_API_OPRA_LIST_LEN :: nat where
  "NORFLASH_API_OPRA_LIST_LEN = (NORFLASH_API_WRITE_BUFF_LEN + 1) * 3"

record opra_info =
  oi_type :: NORFLASH_API_OPRATION_TYPE
  oi_addr :: u32
  oi_len :: u32
  oi_w_offs :: u32
  oi_w_len :: u32
  oi_buff :: "nat option"
  oi_lock :: bool
  oi_next :: "nat option"

record module_info =
  mi_is_inited :: bool
  mi_dev_id :: nat
  mi_mod_id :: nat
  mi_base_addr :: u32
  mi_len :: u32
  mi_block_len :: u32
  mi_sector_len :: u32
  mi_page_len :: u32
  mi_buff_len :: u32
  mi_cb_func :: u32
  mi_opera :: "nat option"
  mi_cur :: "nat option"
  mi_state :: NORFLASH_API_STATE

record opera_result =
  or_type :: NORFLASH_API_OPRATION_TYPE
  or_addr :: u32
  or_len :: u32
  or_remain_num :: u32
  or_result :: NORFLASH_API_RET_T

record norflash_api =
  na_is_inited :: bool
  na_mod_info :: "nat \<Rightarrow> module_info"
  na_cur_mod_id :: nat
  na_cur_mod :: "nat option"
  na_allowed_cb :: u32
  na_opera_used :: "nat \<Rightarrow> bool"
  na_opera :: "nat \<Rightarrow> opra_info"
  na_data_used :: "nat \<Rightarrow> bool"
  na_data :: data_bufs
  na_flash :: flash
  na_allow :: "bool list"
  na_done :: "(u32 \<times> opera_result) list"

definition upd_mod :: "nat \<Rightarrow> (module_info \<Rightarrow> module_info) \<Rightarrow> norflash_api \<Rightarrow> norflash_api" where
  "upd_mod m f s = s\<lparr>na_mod_info := (na_mod_info s)(m := f (na_mod_info s m))\<rparr>"

definition upd_opera :: "nat \<Rightarrow> (opra_info \<Rightarrow> opra_info) \<Rightarrow> norflash_api \<Rightarrow> norflash_api" where
  "upd_opera p f s = s\<lparr>na_opera := (na_opera s)(p := f (na_opera s p))\<rparr>"

definition upd_data :: "nat \<Rightarrow> ((nat \<Rightarrow> u8) \<Rightarrow> nat \<Rightarrow> u8) \<Rightarrow> norflash_api \<Rightarrow> norflash_api" where
  "upd_data b f s = s\<lparr>na_data := (na_data s)(b := f (na_data s b))\<rparr>"

text \<open>The flash as the processor reads it at an address.\<close>

definition flash_at :: "norflash_api \<Rightarrow> u32 \<Rightarrow> u8" where
  "flash_at s a = fl_mem (na_flash s) (flash_offset a)"

section \<open>The pool\<close>

definition malloc_opera :: "norflash_api \<Rightarrow> nat option \<times> norflash_api" where
  "malloc_opera s = (case find (\<lambda>i. \<not> na_opera_used s i) [0..<NORFLASH_API_OPRA_LIST_LEN] of
     None \<Rightarrow> (None, s) | Some i \<Rightarrow> (Some i, s\<lparr>na_opera_used := (na_opera_used s)(i := True)\<rparr>))"

definition malloc_data :: "u32 \<Rightarrow> norflash_api \<Rightarrow> (nat option \<times> norflash_api) option" where
  "malloc_data n s =
     (if unat n \<noteq> NORFLASH_API_SECTOR_SIZE then None
      else case find (\<lambda>i. \<not> na_data_used s i) [0..<NORFLASH_API_WRITE_BUFF_LEN] of
        None \<Rightarrow> Some (None, s) | Some i \<Rightarrow> Some (Some i, s\<lparr>na_data_used := (na_data_used s)(i := True)\<rparr>))"

definition free_opera :: "nat \<Rightarrow> norflash_api \<Rightarrow> norflash_api option" where
  "free_opera p s = (if p < NORFLASH_API_OPRA_LIST_LEN then Some (s\<lparr>na_opera_used := (na_opera_used s)(p := False)\<rparr>)
     else None)"

definition free_data :: "nat \<Rightarrow> norflash_api \<Rightarrow> norflash_api option" where
  "free_data b s = (if b < NORFLASH_API_WRITE_BUFF_LEN then Some (s\<lparr>na_data_used := (na_data_used s)(b := False)\<rparr>)
     else None)"

section \<open>The queue of a module\<close>

partial_function (option) get_tail_loop ::
    "(nat \<Rightarrow> opra_info) \<Rightarrow> nat option \<Rightarrow> nat option \<Rightarrow> nat option \<Rightarrow> (nat option \<times> nat option) option" where
  "get_tail_loop nd tmp opera_node pre_node = (case tmp of
     None \<Rightarrow> Some (opera_node, pre_node)
   | Some p \<Rightarrow> let tmp = oi_next (nd p)
       in get_tail_loop nd tmp (Some p) (if tmp \<noteq> None then Some p else pre_node))"

definition get_tail :: "nat \<Rightarrow> bool \<Rightarrow> norflash_api \<Rightarrow> (nat option \<times> norflash_api) option" where
  "get_tail m is_remove s = do {
     let head = mi_opera (na_mod_info s m);
     (opera_node, pre_node) \<leftarrow> get_tail_loop (na_opera s) head None head;
     let s = (case pre_node of Some p \<Rightarrow> if is_remove then upd_opera p (\<lambda>n. n\<lparr>oi_next := None\<rparr>) s else s | None \<Rightarrow> s);
     let s = (case opera_node of Some p \<Rightarrow> upd_opera p (\<lambda>n. n\<lparr>oi_lock := True\<rparr>) s | None \<Rightarrow> s);
     Some (opera_node, s) }"

partial_function (option) opera_del_loop ::
    "nat \<Rightarrow> nat \<Rightarrow> nat option \<Rightarrow> nat option \<Rightarrow> norflash_api \<Rightarrow> norflash_api option" where
  "opera_del_loop m node tmp pre_node s = (case tmp of
     None \<Rightarrow> Some s
   | Some p \<Rightarrow>
       if p = node then do {
         s \<leftarrow> (if mi_opera (na_mod_info s m) = Some p then Some (upd_mod m (\<lambda>i. i\<lparr>mi_opera := None\<rparr>) s)
              else case pre_node of Some q \<Rightarrow> Some (upd_opera q (\<lambda>n. n\<lparr>oi_next := None\<rparr>) s) | None \<Rightarrow> None);
         s \<leftarrow> (case oi_buff (na_opera s node) of Some b \<Rightarrow> free_data b s | None \<Rightarrow> Some s);
         free_opera node s }
       else
         let tmp = oi_next (na_opera s p)
         in opera_del_loop m node tmp (if tmp \<noteq> None then Some p else pre_node) s)"

definition opera_del :: "nat \<Rightarrow> nat \<Rightarrow> norflash_api \<Rightarrow> norflash_api option" where
  "opera_del m node s =
     (let head = mi_opera (na_mod_info s m) in opera_del_loop m node head head s)"

partial_function (option) count_loop ::
    "(opra_info \<Rightarrow> bool) \<Rightarrow> (nat \<Rightarrow> opra_info) \<Rightarrow> nat option \<Rightarrow> u32 \<Rightarrow> u32 option" where
  "count_loop P nd tmp count = (case tmp of
     None \<Rightarrow> Some count
   | Some p \<Rightarrow> count_loop P nd (oi_next (nd p)) (if P (nd p) then count + 1 else count))"

definition get_ew_count :: "nat \<Rightarrow> norflash_api \<Rightarrow> u32 option" where
  "get_ew_count m s = count_loop (\<lambda>_. True) (na_opera s) (mi_opera (na_mod_info s m)) 0"

definition get_w_count :: "nat \<Rightarrow> norflash_api \<Rightarrow> u32 option" where
  "get_w_count m s = count_loop (\<lambda>n. oi_type n = NORFLASH_API_WRITTING) (na_opera s) (mi_opera (na_mod_info s m)) 0"

definition get_e_count :: "nat \<Rightarrow> norflash_api \<Rightarrow> u32 option" where
  "get_e_count m s = count_loop (\<lambda>n. oi_type n = NORFLASH_API_ERASING) (na_opera s) (mi_opera (na_mod_info s m)) 0"

fun cur_mod_scan :: "nat \<Rightarrow> nat \<Rightarrow> norflash_api \<Rightarrow> nat option option" where
  "cur_mod_scan 0 tmp_mod_id s = Some None"
| "cur_mod_scan (Suc i) tmp_mod_id s = do {
     let tmp_mod_id = (if NORFLASH_API_MODULE_ID_COUNT \<le> tmp_mod_id + 1 then 0 else tmp_mod_id + 1);
     if mi_is_inited (na_mod_info s tmp_mod_id) then do {
       count \<leftarrow> get_ew_count tmp_mod_id s;
       if 0 < count then Some (Some tmp_mod_id) else cur_mod_scan i tmp_mod_id s }
     else cur_mod_scan i tmp_mod_id s }"

definition get_cur_mod :: "norflash_api \<Rightarrow> nat option option" where
  "get_cur_mod s = (case na_cur_mod s of Some m \<Rightarrow> Some (Some m)
     | None \<Rightarrow> cur_mod_scan NORFLASH_API_MODULE_ID_COUNT (na_cur_mod_id s) s)"

section \<open>Reading\<close>

text \<open>The first operation in the queue on the sector at \<open>sec_start\<close>.\<close>

partial_function (option) read_find :: "(nat \<Rightarrow> opra_info) \<Rightarrow> u32 \<Rightarrow> nat option \<Rightarrow> nat option option" where
  "read_find nd sec_start tmp = (case tmp of
     None \<Rightarrow> Some None
   | Some p \<Rightarrow> if oi_addr (nd p) = sec_start then Some (Some p) else read_find nd sec_start (oi_next (nd p)))"

definition opera_read :: "nat \<Rightarrow> u32 \<Rightarrow> u32 \<Rightarrow> norflash_api \<Rightarrow> u8 list option" where
  "opera_read m addr len s = do {
     let sec_len = mi_sector_len (na_mod_info s m);
     check (sec_len \<noteq> 0);
     let sec_start = addr div sec_len * sec_len;
     node \<leftarrow> read_find (na_opera s) sec_start (mi_opera (na_mod_info s m));
     case node of
       None \<Rightarrow> Some (map (\<lambda>i. flash_at s (addr + of_nat i)) [0..<unat len])
     | Some p \<Rightarrow>
         if oi_type (na_opera s p) = NORFLASH_API_WRITTING then do {
           b \<leftarrow> oi_buff (na_opera s p);
           let r_offs = addr - sec_start;
           check (unat r_offs + unat len \<le> NORFLASH_API_SECTOR_SIZE);
           Some (map (\<lambda>i. na_data s b (unat r_offs + i)) [0..<unat len]) }
         else Some (replicate (unat len) 0xff) }"

section \<open>Queueing an erase\<close>

text \<open>Drops the queued operations on the sector at \<open>addr\<close>; the flag says that an erase of it is on the way already.\<close>

partial_function (option) e_opera_drop ::
    "nat \<Rightarrow> u32 \<Rightarrow> nat option \<Rightarrow> nat option \<Rightarrow> norflash_api \<Rightarrow> (bool \<times> norflash_api) option" where
  "e_opera_drop m addr tmp pre_node s = (case tmp of
     None \<Rightarrow> Some (False, s)
   | Some p \<Rightarrow>
       let n = na_opera s p; tmp = oi_next n; pre' = (if tmp \<noteq> None then Some p else pre_node)
       in if oi_addr n = addr then
            (if \<not> oi_lock n then do {
               s \<leftarrow> (if mi_opera (na_mod_info s m) = Some p then Some (upd_mod m (\<lambda>i. i\<lparr>mi_opera := tmp\<rparr>) s)
                    else case pre_node of Some q \<Rightarrow> Some (upd_opera q (\<lambda>n. n\<lparr>oi_next := tmp\<rparr>) s) | None \<Rightarrow> None);
               s \<leftarrow> (if oi_type n = NORFLASH_API_WRITTING
                    then case oi_buff n of Some b \<Rightarrow> free_data b s | None \<Rightarrow> Some s else Some s);
               s \<leftarrow> free_opera p s;
               e_opera_drop m addr tmp pre' s }
             else if oi_type n = NORFLASH_API_ERASING then Some (True, s)
             else e_opera_drop m addr tmp pre' s)
          else e_opera_drop m addr tmp pre' s)"

definition e_opera_add :: "nat \<Rightarrow> u32 \<Rightarrow> u32 \<Rightarrow> norflash_api \<Rightarrow> (nat \<times> norflash_api) option" where
  "e_opera_add m addr len s = do {
     let head = mi_opera (na_mod_info s m);
     (merged, s) \<leftarrow> e_opera_drop m addr head head s;
     if merged then Some (0, s)
     else case malloc_opera s of
       (None, s) \<Rightarrow> Some (1, s)
     | (Some p, s) \<Rightarrow>
         let head = mi_opera (na_mod_info s m);
             s = upd_opera p (\<lambda>_. \<lparr>oi_type = NORFLASH_API_ERASING, oi_addr = addr, oi_len = len, oi_w_offs = 0,
               oi_w_len = 0, oi_buff = None, oi_lock = False, oi_next = head\<rparr>) s
         in Some (0, upd_mod m (\<lambda>i. i\<lparr>mi_opera := Some p\<rparr>) s) }"

section \<open>Queueing a write\<close>

text \<open>The queued write of the sector that the new bytes can join, and the erase of the sector that comes before it.\<close>

partial_function (option) w_opera_find ::
    "(nat \<Rightarrow> opra_info) \<Rightarrow> u32 \<Rightarrow> nat option \<Rightarrow> (nat option \<times> nat option) option" where
  "w_opera_find nd sec_start tmp = (case tmp of
     None \<Rightarrow> Some (None, None)
   | Some p \<Rightarrow>
       if oi_addr (nd p) = sec_start then
         (if oi_type (nd p) = NORFLASH_API_WRITTING then
            (if \<not> oi_lock (nd p) then Some (Some p, None) else w_opera_find nd sec_start (oi_next (nd p)))
          else Some (None, Some p))
       else w_opera_find nd sec_start (oi_next (nd p)))"

definition copy_in :: "nat \<Rightarrow> nat \<Rightarrow> u8 list \<Rightarrow> norflash_api \<Rightarrow> norflash_api option" where
  "copy_in b off bs s = (if off + length bs \<le> NORFLASH_API_SECTOR_SIZE
     then Some (upd_data b (over off (length bs) (\<lambda>i. bs ! (i - off))) s) else None)"

definition w_opera_join :: "nat \<Rightarrow> u32 \<Rightarrow> u8 list \<Rightarrow> norflash_api \<Rightarrow> norflash_api option" where
  "w_opera_join p w_offs buff s = do {
     let w_len = of_nat (length buff);
     b \<leftarrow> oi_buff (na_opera s p);
     s \<leftarrow> copy_in b (unat w_offs) buff s;
     let n = na_opera s p;
     let w_start = (if oi_w_offs n \<le> w_offs then oi_w_offs n else w_offs);
     let w_end1 = oi_w_offs n + oi_w_len n;
     let w_end2 = w_offs + w_len;
     let w_end = (if w_end2 \<le> w_end1 then w_end1 else w_end2);
     Some (upd_opera p (\<lambda>n. n\<lparr>oi_w_offs := w_start, oi_w_len := w_end - w_start\<rparr>) s) }"

definition w_opera_new :: "nat \<Rightarrow> u32 \<Rightarrow> u32 \<Rightarrow> bool \<Rightarrow> u8 list \<Rightarrow> norflash_api \<Rightarrow> (nat \<times> norflash_api) option" where
  "w_opera_new m sec_start w_offs erased buff s =
     (case malloc_opera s of
        (None, s) \<Rightarrow> Some (1, s)
      | (Some p, s) \<Rightarrow> do {
          let sec_len = mi_sector_len (na_mod_info s m);
          (b, s) \<leftarrow> malloc_data sec_len s;
          let s = upd_opera p (\<lambda>n. n\<lparr>oi_type := NORFLASH_API_WRITTING, oi_addr := sec_start, oi_len := sec_len,
            oi_w_offs := w_offs, oi_w_len := of_nat (length buff), oi_buff := b\<rparr>) s;
          case b of
            None \<Rightarrow> do { s \<leftarrow> free_opera p s; Some (1, s) }
          | Some b \<Rightarrow> do {
              let s = upd_data b (over 0 (unat sec_len) (\<lambda>i. if erased then 0xff else flash_at s (sec_start + of_nat i))) s;
              s \<leftarrow> copy_in b (unat w_offs) buff s;
              let s = upd_opera p (\<lambda>n. n\<lparr>oi_lock := False, oi_next := mi_opera (na_mod_info s m)\<rparr>) s;
              Some (0, upd_mod m (\<lambda>i. i\<lparr>mi_opera := Some p\<rparr>) s) } })"

definition w_opera_add :: "nat \<Rightarrow> u32 \<Rightarrow> u8 list \<Rightarrow> norflash_api \<Rightarrow> (nat \<times> norflash_api) option" where
  "w_opera_add m addr buff s = do {
     let sec_len = mi_sector_len (na_mod_info s m);
     check (sec_len \<noteq> 0);
     let sec_start = addr div sec_len * sec_len;
     let w_offs = addr - sec_start;
     (w_node, e_node) \<leftarrow> w_opera_find (na_opera s) sec_start (mi_opera (na_mod_info s m));
     case w_node of
       Some p \<Rightarrow> do { s \<leftarrow> w_opera_join p w_offs buff s; Some (0, s) }
     | None \<Rightarrow> w_opera_new m sec_start w_offs (e_node \<noteq> None) buff s }"

section \<open>Carrying out an operation\<close>

text \<open>What an answer of the driver means: \<open>Some True\<close> the operation is complete, \<open>Some False\<close> it is suspended.\<close>

definition flush_result ::
    "nat \<Rightarrow> NORFLASH_API_STATE \<Rightarrow> HAL_NORFLASH_RET_T \<times> flash \<Rightarrow> norflash_api \<Rightarrow> (bool \<times> norflash_api) option" where
  "flush_result m suspended r s =
     (case r of (result, fl) \<Rightarrow>
        let s = s\<lparr>na_flash := fl\<rparr>
        in if result = HAL_NORFLASH_OK then Some (True, s)
           else if result = HAL_NORFLASH_SUSPENDED then Some (False, upd_mod m (\<lambda>i. i\<lparr>mi_state := suspended\<rparr>) s)
           else None)"

definition flush_write :: "norflash_ctx \<Rightarrow> nat \<Rightarrow> nat \<Rightarrow> bool \<Rightarrow> norflash_api \<Rightarrow> (bool \<times> norflash_api) option" where
  "flush_write c m p suspend s =
     (let n = na_opera s p; st = mi_state (na_mod_info s m)
      in if st = NORFLASH_API_STATE_IDLE then do {
           r \<leftarrow> (if 0 < oi_w_len n then do {
                  b \<leftarrow> oi_buff n;
                  hal_norflash_write_suspend c (na_data s) (oi_addr n + oi_w_offs n) (Data_Buf b (unat (oi_w_offs n)))
                    (oi_w_len n) suspend (na_flash s) }
                else Some (HAL_NORFLASH_OK, na_flash s));
           flush_result m NORFLASH_API_STATE_WRITTING_SUSPEND r s }
         else if st = NORFLASH_API_STATE_WRITTING_SUSPEND then do {
           r \<leftarrow> hal_norflash_write_resume c (na_data s) suspend (na_flash s);
           flush_result m NORFLASH_API_STATE_WRITTING_SUSPEND r s }
         else None)"

definition flush_erase :: "norflash_ctx \<Rightarrow> nat \<Rightarrow> nat \<Rightarrow> bool \<Rightarrow> norflash_api \<Rightarrow> (bool \<times> norflash_api) option" where
  "flush_erase c m p suspend s =
     (let n = na_opera s p; st = mi_state (na_mod_info s m)
      in if st = NORFLASH_API_STATE_IDLE then do {
           r \<leftarrow> hal_norflash_erase_suspend c (oi_addr n) (oi_len n) suspend (na_flash s);
           flush_result m NORFLASH_API_STATE_ERASE_SUSPEND r s }
         else if st = NORFLASH_API_STATE_ERASE_SUSPEND then do {
           r \<leftarrow> hal_norflash_erase_resume c suspend (na_flash s);
           flush_result m NORFLASH_API_STATE_ERASE_SUSPEND r s }
         else None)"

definition flush_notify :: "nat \<Rightarrow> nat \<Rightarrow> bool \<Rightarrow> norflash_api \<Rightarrow> norflash_api option" where
  "flush_notify m p nosuspend s =
     (let n = na_opera s p; cb = mi_cb_func (na_mod_info s m)
      in if \<not> nosuspend \<and> cb \<noteq> 0 \<and> (0 < oi_w_len n \<and> oi_type n = NORFLASH_API_WRITTING \<or>
            0 < oi_len n \<and> oi_type n = NORFLASH_API_ERASING)
         then do {
           count \<leftarrow> get_ew_count m s;
           let (addr, len) = (if oi_type n = NORFLASH_API_WRITTING then (oi_addr n + oi_w_offs n, oi_w_len n)
             else (oi_addr n, oi_len n));
           let r = \<lparr>or_type = oi_type n, or_addr = addr, or_len = len, or_remain_num = count - 1,
             or_result = NORFLASH_API_OK\<rparr>;
           Some (s\<lparr>na_done := na_done s @ [(cb, r)]\<rparr>) }
         else Some s)"

definition opera_flush :: "norflash_ctx \<Rightarrow> nat \<Rightarrow> bool \<Rightarrow> norflash_api \<Rightarrow> (bool \<times> norflash_api) option" where
  "opera_flush c m nosuspend s = do {
     s \<leftarrow> (if mi_cur (na_mod_info s m) = None then do {
            (tail, s) \<leftarrow> get_tail m False s;
            Some (upd_mod m (\<lambda>i. i\<lparr>mi_cur := tail\<rparr>) s) }
          else Some s);
     case mi_cur (na_mod_info s m) of
       None \<Rightarrow> Some (False, s)
     | Some p \<Rightarrow> do {
         (opera_is_completed, s) \<leftarrow>
           (if oi_type (na_opera s p) = NORFLASH_API_WRITTING then flush_write c m p (\<not> nosuspend) s
            else flush_erase c m p (\<not> nosuspend) s);
         if opera_is_completed then do {
           let s = upd_mod m (\<lambda>i. i\<lparr>mi_state := NORFLASH_API_STATE_IDLE\<rparr>) s;
           s \<leftarrow> flush_notify m p nosuspend s;
           s \<leftarrow> opera_del m p s;
           Some (True, upd_mod m (\<lambda>i. i\<lparr>mi_cur := None\<rparr>) s) }
         else Some (True, s) } }"

definition flush_is_allowed :: "norflash_api \<Rightarrow> bool \<times> norflash_api" where
  "flush_is_allowed s =
     (if na_allowed_cb s \<noteq> 0 then
        (case na_allow s of
           False # as \<Rightarrow> (False, s\<lparr>na_allow := as\<rparr>)
         | as \<Rightarrow> (True, s\<lparr>na_allow := tl as, na_allowed_cb := 0\<rparr>))
      else (True, s))"

section \<open>The interface\<close>

definition module_zero :: module_info where
  "module_zero = \<lparr>mi_is_inited = False, mi_dev_id = 0, mi_mod_id = 0, mi_base_addr = 0, mi_len = 0, mi_block_len = 0,
     mi_sector_len = 0, mi_page_len = 0, mi_buff_len = 0, mi_cb_func = 0, mi_opera = None, mi_cur = None,
     mi_state = NORFLASH_API_STATE_UNINITED\<rparr>"

definition norflash_api_init :: "norflash_api \<Rightarrow> NORFLASH_API_RET_T \<times> norflash_api" where
  "norflash_api_init s = (NORFLASH_API_OK, s\<lparr>na_is_inited := True, na_mod_info := (\<lambda>_. module_zero),
     na_cur_mod_id := NORFLASH_API_MODULE_ID_COUNT, na_cur_mod := None, na_allowed_cb := 0\<rparr>)"

text \<open>The macro \<open>API_IS_ALIGN\<close>.\<close>

definition api_is_align :: "u32 \<Rightarrow> u32 \<Rightarrow> bool option" where
  "api_is_align v n = (if n = 0 then None else Some (v div n * n = v))"

definition norflash_api_register :: "nat \<Rightarrow> nat \<Rightarrow> u32 \<Rightarrow> u32 \<Rightarrow> u32 \<Rightarrow> u32 \<Rightarrow> u32 \<Rightarrow> u32 \<Rightarrow> u32 \<Rightarrow> norflash_api
    \<Rightarrow> (NORFLASH_API_RET_T \<times> norflash_api) option" where
  "norflash_api_register mod_id dev_id mod_base_addr mod_len mod_block_len mod_sector_len mod_page_len buffer_len cb_func s =
     (if \<not> na_is_inited s then Some (NORFLASH_API_ERR_UNINIT, s)
      else if NORFLASH_API_MODULE_ID_COUNT \<le> mod_id then Some (NORFLASH_API_BAD_MOD_ID, s)
      else if HAL_NORFLASH_ID_NUM \<le> dev_id then Some (NORFLASH_API_BAD_DEV_ID, s)
      else do {
        bad \<leftarrow> (if buffer_len < mod_sector_len then Some True
               else map_option Not (api_is_align buffer_len mod_sector_len));
        if bad then Some (NORFLASH_API_BAD_BUFF_LEN, s)
        else if mi_is_inited (na_mod_info s mod_id) then Some (NORFLASH_API_OK, s)
        else Some (NORFLASH_API_OK, upd_mod mod_id (\<lambda>_. \<lparr>mi_is_inited = True, mi_dev_id = dev_id, mi_mod_id = mod_id,
          mi_base_addr = mod_base_addr, mi_len = mod_len, mi_block_len = mod_block_len, mi_sector_len = mod_sector_len,
          mi_page_len = mod_page_len, mi_buff_len = buffer_len, mi_cb_func = cb_func, mi_opera = None, mi_cur = None,
          mi_state = NORFLASH_API_STATE_IDLE\<rparr>) s) })"

definition out_of_range :: "module_info \<Rightarrow> u32 \<Rightarrow> u32 \<Rightarrow> bool" where
  "out_of_range i start_addr len \<longleftrightarrow> start_addr < mi_base_addr i \<or> mi_base_addr i + mi_len i < start_addr + len"

definition norflash_api_read :: "nat \<Rightarrow> u32 \<Rightarrow> u32 \<Rightarrow> norflash_api \<Rightarrow> (NORFLASH_API_RET_T \<times> u8 list) option" where
  "norflash_api_read mod_id start_addr len s =
     (if \<not> na_is_inited s then Some (NORFLASH_API_ERR_UNINIT, [])
      else if NORFLASH_API_MODULE_ID_COUNT \<le> mod_id then Some (NORFLASH_API_BAD_MOD_ID, [])
      else let i = na_mod_info s mod_id
        in if \<not> mi_is_inited i then Some (NORFLASH_API_ERR_UNINIT, [])
           else if out_of_range i start_addr len then Some (NORFLASH_API_BAD_ADDR, [])
           else if len = 0 then Some (NORFLASH_API_BAD_LEN, [])
           else do { bs \<leftarrow> opera_read mod_id start_addr len s; Some (NORFLASH_API_OK, bs) })"

definition norflash_sync_read :: "nat \<Rightarrow> u32 \<Rightarrow> u32 \<Rightarrow> norflash_api \<Rightarrow> NORFLASH_API_RET_T \<times> u8 list" where
  "norflash_sync_read mod_id start_addr len s =
     (if \<not> na_is_inited s then (NORFLASH_API_ERR_UNINIT, [])
      else if NORFLASH_API_MODULE_ID_COUNT \<le> mod_id then (NORFLASH_API_BAD_MOD_ID, [])
      else let i = na_mod_info s mod_id
        in if \<not> mi_is_inited i then (NORFLASH_API_ERR_UNINIT, [])
           else if out_of_range i start_addr len then (NORFLASH_API_BAD_ADDR, [])
           else if len = 0 then (NORFLASH_API_BAD_LEN, [])
           else (NORFLASH_API_OK, map (\<lambda>i. flash_at s (start_addr + of_nat i)) [0..<unat len]))"

text \<open>A synchronous operation first completes what another module has suspended, then carries out the whole queue of its
  own module; the flag is the C variable \<open>bresult\<close>.\<close>

partial_function (option) finish_suspended ::
    "norflash_ctx \<Rightarrow> nat \<Rightarrow> bool \<Rightarrow> norflash_api \<Rightarrow> (bool \<times> norflash_api) option" where
  "finish_suspended c cur bresult s =
     (if mi_state (na_mod_info s cur) \<noteq> NORFLASH_API_STATE_IDLE then
        (let (allowed, s) = flush_is_allowed s
         in if \<not> allowed then finish_suspended c cur bresult s
            else do {
              (bresult, s) \<leftarrow> opera_flush c cur True s;
              finish_suspended c cur bresult (if bresult then s else s\<lparr>na_cur_mod := None\<rparr>) })
      else Some (bresult, s))"

partial_function (option) flush_queue ::
    "norflash_ctx \<Rightarrow> nat \<Rightarrow> bool \<Rightarrow> norflash_api \<Rightarrow> norflash_api option" where
  "flush_queue c m bresult s =
     (let (allowed, s) = flush_is_allowed s
      in if \<not> allowed then (if bresult then flush_queue c m bresult s else Some s)
         else do {
           (bresult, s) \<leftarrow> opera_flush c m True s;
           if bresult then flush_queue c m bresult s else Some s })"

definition sync_prepare :: "norflash_ctx \<Rightarrow> nat \<Rightarrow> norflash_api \<Rightarrow> norflash_api option" where
  "sync_prepare c m s = do {
     (bresult, s) \<leftarrow> (case na_cur_mod s of
         Some cur \<Rightarrow> if m \<noteq> cur then finish_suspended c cur False s else Some (False, s)
       | None \<Rightarrow> Some (False, s));
     flush_queue c m bresult s }"

definition sync_result :: "HAL_NORFLASH_RET_T \<times> flash \<Rightarrow> norflash_api \<Rightarrow> NORFLASH_API_RET_T \<times> norflash_api" where
  "sync_result r s = (case r of (result, fl) \<Rightarrow>
     (if result = HAL_NORFLASH_OK then NORFLASH_API_OK
      else if result = HAL_NORFLASH_BAD_ADDR then NORFLASH_API_BAD_ADDR
      else if result = HAL_NORFLASH_BAD_LEN then NORFLASH_API_BAD_LEN
      else NORFLASH_API_ERR, s\<lparr>na_flash := fl\<rparr>))"

definition norflash_api_erase ::
    "norflash_ctx \<Rightarrow> nat \<Rightarrow> u32 \<Rightarrow> u32 \<Rightarrow> bool \<Rightarrow> norflash_api \<Rightarrow> (NORFLASH_API_RET_T \<times> norflash_api) option" where
  "norflash_api_erase c mod_id start_addr len async s =
     (if \<not> na_is_inited s then Some (NORFLASH_API_ERR_UNINIT, s)
      else if NORFLASH_API_MODULE_ID_COUNT \<le> mod_id then Some (NORFLASH_API_BAD_MOD_ID, s)
      else let i = na_mod_info s mod_id
        in if \<not> mi_is_inited i then Some (NORFLASH_API_ERR_UNINIT, s)
           else if out_of_range i start_addr len then Some (NORFLASH_API_BAD_ADDR, s)
           else do {
             aligned \<leftarrow> api_is_align start_addr (mi_sector_len i);
             if \<not> aligned then Some (NORFLASH_API_BAD_ADDR, s)
             else if len \<noteq> mi_sector_len i \<and> len \<noteq> mi_block_len i then Some (NORFLASH_API_BAD_LEN, s)
             else if async then do {
               (result, s) \<leftarrow> e_opera_add mod_id start_addr len s;
               Some (if result = 0 then NORFLASH_API_OK else NORFLASH_API_BUFFER_FULL, s) }
             else do {
               s \<leftarrow> sync_prepare c mod_id s;
               r \<leftarrow> hal_norflash_erase c start_addr len (na_flash s);
               Some (sync_result r s) } })"

definition norflash_api_write ::
    "norflash_ctx \<Rightarrow> nat \<Rightarrow> u32 \<Rightarrow> u8 list \<Rightarrow> bool \<Rightarrow> norflash_api \<Rightarrow> (NORFLASH_API_RET_T \<times> norflash_api) option" where
  "norflash_api_write c mod_id start_addr buffer async s =
     (if \<not> na_is_inited s then Some (NORFLASH_API_ERR_UNINIT, s)
      else if NORFLASH_API_MODULE_ID_COUNT < mod_id then Some (NORFLASH_API_BAD_MOD_ID, s)
      else if mod_id = NORFLASH_API_MODULE_ID_COUNT then None
      else let i = na_mod_info s mod_id; len = of_nat (length buffer)
        in if \<not> mi_is_inited i then Some (NORFLASH_API_ERR_UNINIT, s)
           else if out_of_range i start_addr len then Some (NORFLASH_API_BAD_ADDR, s)
           else if len = 0 then Some (NORFLASH_API_BAD_LEN, s)
           else if async then do {
             (result, s) \<leftarrow> w_opera_add mod_id start_addr buffer s;
             Some (if result = 0 then NORFLASH_API_OK else NORFLASH_API_BUFFER_FULL, s) }
           else do {
             s \<leftarrow> sync_prepare c mod_id s;
             r \<leftarrow> hal_norflash_write c (na_data s) start_addr (Caller_Buf buffer) len (na_flash s);
             Some (sync_result r s) })"

definition norflash_api_flush :: "norflash_ctx \<Rightarrow> norflash_api \<Rightarrow> (int \<times> norflash_api) option" where
  "norflash_api_flush c s =
     (if \<not> na_is_inited s then Some (- 1, s)
      else let (allowed, s) = flush_is_allowed s
        in if \<not> allowed then Some (0, s)
           else do {
             cur \<leftarrow> get_cur_mod s;
             case cur of
               None \<Rightarrow> Some (0, s)
             | Some m \<Rightarrow> do {
                 let s = s\<lparr>na_cur_mod_id := m, na_cur_mod := Some m\<rparr>;
                 (bret, s) \<leftarrow> opera_flush c m False s;
                 Some (1, if bret then s else s\<lparr>na_cur_mod := None\<rparr>) } })"

definition norflash_api_buffer_is_free :: "nat \<Rightarrow> norflash_api \<Rightarrow> bool option" where
  "norflash_api_buffer_is_free mod_id s = do {
     check (mod_id < NORFLASH_API_MODULE_ID_COUNT);
     check (mi_is_inited (na_mod_info s mod_id));
     count \<leftarrow> get_ew_count mod_id s;
     Some (\<not> 0 < count) }"

text \<open>The tests \<open>type & NORFLASH_API_WRITTING\<close> and \<open>type & NORFLASH_API_ERASING\<close> on the values 1, 2 and 3 of the enumeration.\<close>

definition counts_writes :: "NORFLASH_API_OPRATION_TYPE \<Rightarrow> bool" where
  "counts_writes type \<longleftrightarrow> type \<noteq> NORFLASH_API_ERASING"

definition counts_erases :: "NORFLASH_API_OPRATION_TYPE \<Rightarrow> bool" where
  "counts_erases type \<longleftrightarrow> type \<noteq> NORFLASH_API_WRITTING"

definition norflash_api_get_used_buffer_count :: "nat \<Rightarrow> NORFLASH_API_OPRATION_TYPE \<Rightarrow> norflash_api \<Rightarrow> u32 option" where
  "norflash_api_get_used_buffer_count mod_id type s = do {
     check (mod_id < NORFLASH_API_MODULE_ID_COUNT);
     check (mi_is_inited (na_mod_info s mod_id));
     count \<leftarrow> (if counts_writes type then get_w_count mod_id s else Some 0);
     if counts_erases type then do { e \<leftarrow> get_e_count mod_id s; Some (count + e) } else Some count }"

fun used_count_loop :: "(nat \<Rightarrow> norflash_api \<Rightarrow> u32 option) \<Rightarrow> nat list \<Rightarrow> norflash_api \<Rightarrow> u32 \<Rightarrow> u32 option" where
  "used_count_loop f [] s used_count = Some used_count"
| "used_count_loop f (i # is) s used_count =
     (if mi_is_inited (na_mod_info s i) then do { n \<leftarrow> f i s; used_count_loop f is s (used_count + n) }
      else used_count_loop f is s used_count)"

definition norflash_api_get_free_buffer_count :: "NORFLASH_API_OPRATION_TYPE \<Rightarrow> norflash_api \<Rightarrow> u32 option" where
  "norflash_api_get_free_buffer_count type s = do {
     let len = of_nat NORFLASH_API_OPRA_LIST_LEN;
     (used_count, free_count) \<leftarrow> (if counts_writes type then do {
         used_count \<leftarrow> used_count_loop get_w_count [0..<NORFLASH_API_MODULE_ID_COUNT] s 0;
         check (used_count \<le> len);
         Some (used_count, len - used_count) }
       else Some (0, 0));
     if counts_erases type then do {
       used_count \<leftarrow> used_count_loop get_e_count [0..<NORFLASH_API_MODULE_ID_COUNT] s used_count;
       check (used_count \<le> len);
       Some (free_count + (len - used_count)) }
     else Some free_count }"

definition norflash_api_flush_disable :: "nat \<Rightarrow> u32 \<Rightarrow> norflash_api \<Rightarrow> norflash_api option" where
  "norflash_api_flush_disable user_id cb s =
     (if \<not> na_is_inited s then Some s else do { check (user_id < 1); Some (s\<lparr>na_allowed_cb := cb\<rparr>) })"

definition norflash_api_flush_enable :: "nat \<Rightarrow> norflash_api \<Rightarrow> norflash_api option" where
  "norflash_api_flush_enable user_id s =
     (if \<not> na_is_inited s then Some s else do { check (user_id < 1); Some (s\<lparr>na_allowed_cb := 0\<rparr>) })"

definition norflash_api_flush_enable_all :: "norflash_api \<Rightarrow> norflash_api" where
  "norflash_api_flush_enable_all s = (if \<not> na_is_inited s then s else s\<lparr>na_allowed_cb := 0\<rparr>)"

partial_function (option) flush_all_loop :: "norflash_ctx \<Rightarrow> norflash_api \<Rightarrow> norflash_api option" where
  "flush_all_loop c s = do { (ret, s) \<leftarrow> norflash_api_flush c s; if ret = 1 then flush_all_loop c s else Some s }"

definition norflash_api_flush_all :: "norflash_ctx \<Rightarrow> norflash_api \<Rightarrow> norflash_api option" where
  "norflash_api_flush_all c s = flush_all_loop c (norflash_api_flush_enable_all s)"

definition norflash_api_get_state :: "nat \<Rightarrow> norflash_api \<Rightarrow> NORFLASH_API_STATE option" where
  "norflash_api_get_state mod_id s = do {
     check (mod_id < NORFLASH_API_MODULE_ID_COUNT);
     Some (mi_state (na_mod_info s mod_id)) }"

definition norflash_flush_all_pending_op :: "norflash_ctx \<Rightarrow> norflash_api \<Rightarrow> norflash_api option" where
  "norflash_flush_all_pending_op c s = norflash_api_flush_all c s"

section \<open>The helpers for applications\<close>

partial_function (option) app_flush_pending_flash_op ::
    "norflash_ctx \<Rightarrow> nat \<Rightarrow> NORFLASH_API_OPRATION_TYPE \<Rightarrow> norflash_api \<Rightarrow> norflash_api option" where
  "app_flush_pending_flash_op c module type s = do {
     (_, s) \<leftarrow> norflash_api_flush c s;
     finished \<leftarrow> (if NORFLASH_API_ALL \<noteq> type
       then do { n \<leftarrow> norflash_api_get_used_buffer_count module type s; Some (n = 0) }
       else norflash_api_buffer_is_free module s);
     if finished then Some s else app_flush_pending_flash_op c module type s }"

definition FLASH_NC_BASE :: u32 where
  "FLASH_NC_BASE = 0x38000000"

definition flash_word :: "norflash_api \<Rightarrow> u32 \<Rightarrow> u32" where
  "flash_word s a = ucast (flash_at s a) OR push_bit 8 (ucast (flash_at s (a + 1)))
     OR push_bit 16 (ucast (flash_at s (a + 2))) OR push_bit 24 (ucast (flash_at s (a + 3)))"

partial_function (option) page_erase_loop :: "norflash_ctx \<Rightarrow> nat \<Rightarrow> u32 \<Rightarrow> norflash_api \<Rightarrow> norflash_api option" where
  "page_erase_loop c module addr s = do {
     (ret, s) \<leftarrow> norflash_api_erase c module addr 4096 True s;
     if ret = NORFLASH_API_OK then Some s
     else if ret = NORFLASH_API_BUFFER_FULL then do {
       s \<leftarrow> app_flush_pending_flash_op c module NORFLASH_API_ERASING s;
       page_erase_loop c module addr s }
     else None }"

definition app_flash_page_erase :: "norflash_ctx \<Rightarrow> nat \<Rightarrow> u32 \<Rightarrow> norflash_api \<Rightarrow> norflash_api option" where
  "app_flash_page_erase c module flashOffset s =
     (if list_all (\<lambda>index. flash_word s (FLASH_NC_BASE + flashOffset + 4 * of_nat index) = 0xFFFFFFFF) [0..<1024]
      then Some s
      else page_erase_loop c module (FLASH_NC_BASE + (flashOffset AND 0xFFFFFF)) s)"

partial_function (option) page_program_loop ::
    "norflash_ctx \<Rightarrow> nat \<Rightarrow> u32 \<Rightarrow> u8 list \<Rightarrow> bool \<Rightarrow> norflash_api \<Rightarrow> norflash_api option" where
  "page_program_loop c module addr buffer is_async s = do {
     (ret, s) \<leftarrow> norflash_api_write c module addr buffer is_async s;
     if ret = NORFLASH_API_OK then Some s
     else if ret = NORFLASH_API_BUFFER_FULL then do {
       s \<leftarrow> app_flush_pending_flash_op c module NORFLASH_API_WRITTING s;
       page_program_loop c module addr buffer is_async s }
     else None }"

definition app_flash_page_program ::
    "norflash_ctx \<Rightarrow> nat \<Rightarrow> u32 \<Rightarrow> u8 list \<Rightarrow> bool \<Rightarrow> norflash_api \<Rightarrow> norflash_api option" where
  "app_flash_page_program c module flashOffset buffer synWrite s =
     page_program_loop c module (FLASH_NC_BASE + (flashOffset AND 0xFFFFFF)) buffer (\<not> synWrite) s"

end
