(* ===== verification/Norflash_Rep.thy ===== *)
theory Norflash_Rep
  imports Norflash_Api
begin

text \<open>
  What a state of the flash service stands for: \<open>service c s qs L\<close> says that the modules' queues are the lists of slots
  \<open>qs\<close>, and that \<open>L\<close> is the content their clients see, which is what the flash holds once every queued operation is
  carried out.
\<close>

section \<open>Sectors\<close>

definition mod_ok :: "norflash_ctx \<Rightarrow> module_info \<Rightarrow> bool" where
  "mod_ok c i \<longleftrightarrow> mi_sector_len i = 4096 \<and> unat (mi_base_addr i) mod 4096 = 0 \<and> unat (mi_len i) mod 4096 = 0 \<and>
     unat (mi_base_addr i) + unat (mi_len i) < 2 ^ 32 \<and>
     flash_offset (mi_base_addr i) + unat (mi_len i) < unat (nc_total_size c)"

definition in_range :: "module_info \<Rightarrow> nat \<Rightarrow> bool" where
  "in_range i x \<longleftrightarrow> flash_offset (mi_base_addr i) \<le> x \<and> x < flash_offset (mi_base_addr i) + unat (mi_len i)"

text \<open>The address \<open>a\<close> is the start of a sector of the module.\<close>

definition sector_in :: "module_info \<Rightarrow> u32 \<Rightarrow> bool" where
  "sector_in i a \<longleftrightarrow> unat a mod 4096 = 0 \<and> unat (mi_base_addr i) \<le> unat a \<and>
     unat a + 4096 \<le> unat (mi_base_addr i) + unat (mi_len i)"

definition in_sector :: "u32 \<Rightarrow> nat \<Rightarrow> bool" where
  "in_sector a x \<longleftrightarrow> flash_offset a \<le> x \<and> x < flash_offset a + 4096"

lemma range_offset:
  assumes "chip_ok c" "mod_ok c i" "unat (mi_base_addr i) \<le> unat a" "unat a \<le> unat (mi_base_addr i) + unat (mi_len i)"
  shows "flash_offset a = flash_offset (mi_base_addr i) + (unat a - unat (mi_base_addr i))"
proof -
  let ?d = "a - mi_base_addr i"
  have d: "unat ?d = unat a - unat (mi_base_addr i)" using assms(3) by (rule unat_sub_small)
  have "unat a - unat (mi_base_addr i) \<le> unat (mi_len i)" using assms(4) by simp
  moreover have "flash_offset (mi_base_addr i) + unat (mi_len i) < 67108864"
    using assms(2) chip_okD(6) [OF assms(1)] by (simp add: mod_ok_def)
  ultimately have "flash_offset (mi_base_addr i + ?d) = flash_offset (mi_base_addr i) + unat ?d"
    by (intro flash_offset_add) (simp add: d)
  then show ?thesis by (simp add: d)
qed

lemma sector_offset:
  assumes "chip_ok c" "mod_ok c i" "sector_in i a"
  shows "flash_offset a mod 4096 = 0" "flash_offset (mi_base_addr i) \<le> flash_offset a"
    "flash_offset a + 4096 \<le> flash_offset (mi_base_addr i) + unat (mi_len i)"
    "flash_offset a + 4096 < unat (nc_total_size c)"
proof -
  show "flash_offset a mod 4096 = 0" using assms(3) by (simp add: sector_in_def offset_mods)
  have "flash_offset a = flash_offset (mi_base_addr i) + (unat a - unat (mi_base_addr i))"
    using assms(3) by (intro range_offset [OF assms(1,2)]) (simp_all add: sector_in_def)
  then show "flash_offset (mi_base_addr i) \<le> flash_offset a"
    "flash_offset a + 4096 \<le> flash_offset (mi_base_addr i) + unat (mi_len i)"
    "flash_offset a + 4096 < unat (nc_total_size c)"
    using assms(2,3) by (auto simp: sector_in_def mod_ok_def)
qed

lemma in_sector_range:
  "chip_ok c \<Longrightarrow> mod_ok c i \<Longrightarrow> sector_in i a \<Longrightarrow> in_sector a x \<Longrightarrow> in_range i x"
  using sector_offset by (fastforce simp: in_sector_def in_range_def)

lemma sectors_apart_nat:
  fixes a b x :: nat
  assumes "a mod 4096 = 0" "b mod 4096 = 0" "a \<le> x" "x < a + 4096" "b \<le> x" "x < b + 4096"
  shows "a = b"
proof -
  have "a div 4096 = x div 4096" "b div 4096 = x div 4096"
    using assms by (auto intro!: div_nat_eqI [symmetric] simp: mod_eq_0_iff_dvd elim!: dvdE)
  then show ?thesis using assms(1,2) by (metis div_mult_mod_eq)
qed

lemma sectors_apart:
  assumes "chip_ok c" "mod_ok c i" "sector_in i a" "sector_in i b" "in_sector a x" "in_sector b x"
  shows "a = b"
proof -
  have "flash_offset a = flash_offset b"
    using sectors_apart_nat [of "flash_offset a" "flash_offset b" x] sector_offset(1) [OF assms(1,2)] assms(3-6)
    by (simp add: in_sector_def)
  have y: "flash_offset y = flash_offset (mi_base_addr i) + (unat y - unat (mi_base_addr i))"
    "unat (mi_base_addr i) \<le> unat y" if "sector_in i y" for y
    by (rule range_offset [OF assms(1,2)]; use that in \<open>simp add: sector_in_def\<close>)
      (use that in \<open>simp add: sector_in_def\<close>)
  have "unat a = unat b"
    using \<open>flash_offset a = flash_offset b\<close> y [OF assms(3)] y [OF assms(4)] by linarith
  then show ?thesis by (simp add: word_unat_eq_iff)
qed

text \<open>The sector of an address.\<close>

definition sec_of :: "u32 \<Rightarrow> u32" where
  "sec_of a = a div 4096 * 4096"

lemma unat_sec_of: "unat (sec_of a) = unat a div 4096 * 4096"
proof -
  have "unat a div 4096 * 4096 \<le> unat a" by simp
  from this have "unat a div 4096 * 4096 < 2 ^ 32" by (rule le_less_trans) (rule order_less_le_trans [OF unsigned_less], simp)
  moreover have "unat (sec_of a) = unat a div 4096 * 4096 mod 2 ^ 32"
    unfolding sec_of_def unat_word_ariths unat_div by (simp add: mod_mult_left_eq)
  ultimately show ?thesis by (simp only: mod_less)
qed

lemma unat_sec_offs: "unat (a - sec_of a) = unat a mod 4096"
proof -
  have "unat (a - sec_of a) = unat a - unat a div 4096 * 4096"
    by (subst unat_sub_small) (simp_all add: unat_sec_of)
  then show ?thesis by (simp add: minus_div_mult_eq_mod)
qed

lemma sec_of_id: "unat a mod 4096 = 0 \<Longrightarrow> sec_of a = a"
  using unat_sec_of [of a] div_mult_mod_eq [of "unat a" 4096] by (simp add: word_unat_eq_iff)

lemma sec_of_in:
  assumes "mod_ok c i" "unat (mi_base_addr i) \<le> unat a" "unat a < unat (mi_base_addr i) + unat (mi_len i)"
  shows "sector_in i (sec_of a)"
proof -
  let ?b = "unat (mi_base_addr i)" and ?n = "unat (mi_len i)" and ?q = "unat a div 4096"
  have b: "?b div 4096 * 4096 = ?b" using assms(1) by (auto simp: mod_ok_def)
  have "(?b + ?n) mod 4096 = 0" using assms(1) by (simp add: mod_ok_def mod_eq_0_iff_dvd)
  then have e: "(?b + ?n) div 4096 * 4096 = ?b + ?n" by auto
  have "?b div 4096 \<le> ?q" using assms(2) by (rule div_le_mono)
  then have 1: "?b \<le> ?q * 4096" using b by (metis mult_le_mono1)
  have "?q < (?b + ?n) div 4096" using assms(3) e
    by (metis div_less_iff_less_mult zero_less_numeral)
  then have "(?q + 1) * 4096 \<le> (?b + ?n) div 4096 * 4096" by (intro mult_le_mono1) simp
  then show ?thesis using 1 e by (simp add: sector_in_def unat_sec_of)
qed

section \<open>The effect of the queued operations\<close>

definition op_effect :: "data_bufs \<Rightarrow> opra_info \<Rightarrow> (nat \<Rightarrow> u8) \<Rightarrow> nat \<Rightarrow> u8" where
  "op_effect D n m =
     (if oi_type n = NORFLASH_API_WRITTING
      then prog D (Data_Buf (the (oi_buff n)) (unat (oi_w_offs n))) (flash_offset (oi_addr n) + unat (oi_w_offs n))
        (unat (oi_w_len n)) m
      else over (flash_offset (oi_addr n)) 4096 ff m)"

fun pend :: "data_bufs \<Rightarrow> (nat \<Rightarrow> opra_info) \<Rightarrow> nat list \<Rightarrow> (nat \<Rightarrow> u8) \<Rightarrow> nat \<Rightarrow> u8" where
  "pend D nd [] m = m"
| "pend D nd (p # ps) m = op_effect D (nd p) (pend D nd ps m)"

definition op_ok :: "data_bufs \<Rightarrow> module_info \<Rightarrow> opra_info \<Rightarrow> (nat \<Rightarrow> u8) \<Rightarrow> bool" where
  "op_ok D i n m \<longleftrightarrow> sector_in i (oi_addr n) \<and> oi_len n = 4096 \<and>
     (if oi_type n = NORFLASH_API_WRITTING
      then oi_buff n = Some 0 \<and> 0 < unat (oi_w_len n) \<and> unat (oi_w_offs n) + unat (oi_w_len n) \<le> 4096 \<and>
        (\<forall>k < 4096. D 0 k = op_effect D n m (flash_offset (oi_addr n) + k))
      else oi_type n = NORFLASH_API_ERASING \<and> oi_buff n = None)"

fun ops_ok :: "data_bufs \<Rightarrow> (nat \<Rightarrow> opra_info) \<Rightarrow> module_info \<Rightarrow> nat list \<Rightarrow> (nat \<Rightarrow> u8) \<Rightarrow> bool" where
  "ops_ok D nd i [] m \<longleftrightarrow> True"
| "ops_ok D nd i (p # ps) m \<longleftrightarrow> op_ok D i (nd p) (pend D nd ps m) \<and> ops_ok D nd i ps m"

lemma op_effect_point: "m x = m' x \<Longrightarrow> op_effect D n m x = op_effect D n m' x"
  by (simp add: op_effect_def prog_def over_def)

lemma op_effect_idem: "op_effect D n (op_effect D n m) = op_effect D n m"
  by (auto simp: op_effect_def prog_def over_def fun_eq_iff word_bw_assocs)

lemma op_effect_outside:
  "op_ok D i n m' \<Longrightarrow> \<not> in_sector (oi_addr n) x \<Longrightarrow> op_effect D n m x = m x"
  by (auto simp: op_ok_def op_effect_def prog_def over_def in_sector_def split: if_splits)

lemma pend_point: "m x = m' x \<Longrightarrow> pend D nd ps m x = pend D nd ps m' x"
  by (induction ps) (auto intro: op_effect_point)

lemma pend_append: "pend D nd (ps @ qs) m = pend D nd ps (pend D nd qs m)"
  by (induction ps) auto

lemma pend_cong: "(\<And>p. p \<in> set ps \<Longrightarrow> op_effect D (nd p) = op_effect D' (nd' p)) \<Longrightarrow> pend D nd ps m = pend D' nd' ps m"
  by (induction ps) auto

lemma ops_ok_append:
  "ops_ok D nd i (ps @ qs) m \<longleftrightarrow> ops_ok D nd i ps (pend D nd qs m) \<and> ops_ok D nd i qs m"
  by (induction ps) (auto simp: pend_append)

lemma ops_ok_member: "ops_ok D nd i ps m \<Longrightarrow> p \<in> set ps \<Longrightarrow> \<exists>m'. op_ok D i (nd p) m'"
  by (induction ps) auto

lemma ops_ok_sector: "ops_ok D nd i ps m \<Longrightarrow> p \<in> set ps \<Longrightarrow> sector_in i (oi_addr (nd p))"
  using ops_ok_member by (fastforce simp: op_ok_def)

lemma pend_outside:
  "ops_ok D nd i ps m' \<Longrightarrow> (\<And>p. p \<in> set ps \<Longrightarrow> \<not> in_sector (oi_addr (nd p)) x) \<Longrightarrow> pend D nd ps m x = m x"
  by (induction ps) (auto simp: op_effect_outside)

text \<open>The soundness of an operation depends on what lies below it only within its sector.\<close>

lemma op_ok_point:
  assumes "op_ok D i n m" "\<And>x. in_sector (oi_addr n) x \<Longrightarrow> m x = m' x"
  shows "op_ok D i n m'"
  using assms op_effect_point [of m _ m' D n] by (auto simp: op_ok_def in_sector_def)

lemma ops_ok_point:
  assumes "ops_ok D nd i ps m" "\<And>x. in_range i x \<Longrightarrow> m x = m' x" "chip_ok c" "mod_ok c i"
  shows "ops_ok D nd i ps m'"
  using assms
proof (induction ps)
  case (Cons p ps)
  then have "sector_in i (oi_addr (nd p))" by (simp add: op_ok_def)
  then have "pend D nd ps m x = pend D nd ps m' x" if "in_sector (oi_addr (nd p)) x" for x
    using that Cons.prems(2) in_sector_range [OF Cons.prems(3,4)] by (blast intro: pend_point)
  with Cons show ?case by (auto intro: op_ok_point)
qed simp

section \<open>The service\<close>

lemma pool_sizes [simp]: "NORFLASH_API_OPRA_LIST_LEN = 6" "NORFLASH_API_WRITE_BUFF_LEN = Suc 0"
  "NORFLASH_API_MODULE_ID_COUNT = 12" "NORFLASH_API_SECTOR_SIZE = 4096"
  by (simp_all add: NORFLASH_API_OPRA_LIST_LEN_def NORFLASH_API_WRITE_BUFF_LEN_def NORFLASH_API_MODULE_ID_COUNT_def
    NORFLASH_API_SECTOR_SIZE_def)

definition nxt :: "(nat \<Rightarrow> opra_info) \<Rightarrow> nat \<Rightarrow> nat option" where
  "nxt nd = (\<lambda>p. oi_next (nd p))"

lemma nxt_upd [simp]: "nxt (nd(p := n)) = (nxt nd)(p := oi_next n)"
  by (auto simp: nxt_def)

abbreviation writing :: "opra_info \<Rightarrow> bool" where
  "writing n \<equiv> oi_type n = NORFLASH_API_WRITTING"

definition queue_rep :: "data_bufs \<Rightarrow> (nat \<Rightarrow> opra_info) \<Rightarrow> module_info \<Rightarrow> nat list \<Rightarrow> (nat \<Rightarrow> u8) \<Rightarrow> bool" where
  "queue_rep D nd i ns m \<longleftrightarrow>
     lpath (nxt nd) (mi_opera i) ns \<and> distinct ns \<and> set ns \<subseteq> {..<6} \<and> ops_ok D nd i ns m \<and>
     (\<forall>p \<in> set ns. oi_lock (nd p) \<longleftrightarrow> mi_cur i = Some p) \<and>
     (\<forall>p. mi_cur i = Some p \<longrightarrow> ns \<noteq> [] \<and> last ns = p) \<and>
     (\<forall>p \<in> set ns. \<forall>q \<in> set ns. \<not> oi_lock (nd p) \<and> \<not> oi_lock (nd q) \<and> \<not> writing (nd p) \<and> \<not> writing (nd q) \<and>
        oi_addr (nd p) = oi_addr (nd q) \<longrightarrow> p = q) \<and>
     (mi_state i = NORFLASH_API_STATE_IDLE \<or>
      (\<exists>p. mi_cur i = Some p \<and> op_effect D (nd p) m = m \<and>
         mi_state i = (if writing (nd p) then NORFLASH_API_STATE_WRITTING_SUSPEND else NORFLASH_API_STATE_ERASE_SUSPEND)))"

definition pool_rep :: "norflash_api \<Rightarrow> (nat \<Rightarrow> nat list) \<Rightarrow> bool" where
  "pool_rep s qs \<longleftrightarrow>
     (\<forall>m m'. m \<noteq> m' \<longrightarrow> set (qs m) \<inter> set (qs m') = {}) \<and>
     (\<forall>p < 6. na_opera_used s p \<longleftrightarrow> (\<exists>m. p \<in> set (qs m))) \<and>
     (na_data_used s 0 \<longleftrightarrow> (\<exists>m. \<exists>p \<in> set (qs m). writing (na_opera s p))) \<and>
     (\<forall>m p m' p'. p \<in> set (qs m) \<and> p' \<in> set (qs m') \<and> writing (na_opera s p) \<and> writing (na_opera s p') \<longrightarrow> p = p')"

definition driver_rep :: "norflash_ctx \<Rightarrow> norflash_api \<Rightarrow> bool" where
  "driver_rep c s \<longleftrightarrow> (case suspend_state (na_flash s) of
       SUSPEND_STATE_NONE \<Rightarrow> fl_busy (na_flash s) = None \<and>
         (\<forall>m. mi_is_inited (na_mod_info s m) \<longrightarrow> mi_state (na_mod_info s m) = NORFLASH_API_STATE_IDLE)
     | st \<Rightarrow> (\<exists>m p. na_cur_mod s = Some m \<and> mi_is_inited (na_mod_info s m) \<and> mi_cur (na_mod_info s m) = Some p \<and>
         mi_state (na_mod_info s m) \<noteq> NORFLASH_API_STATE_IDLE \<and> (st = SUSPEND_STATE_PROGRAM \<longleftrightarrow> writing (na_opera s p)) \<and>
         (\<forall>m'. mi_is_inited (na_mod_info s m') \<and> m' \<noteq> m \<longrightarrow> mi_state (na_mod_info s m') = NORFLASH_API_STATE_IDLE) \<and>
         flash_ok c (flash_offset (oi_addr (na_opera s p))) (flash_offset (oi_addr (na_opera s p)) + 4096) (na_flash s)))"

definition modules_ok :: "norflash_ctx \<Rightarrow> norflash_api \<Rightarrow> bool" where
  "modules_ok c s \<longleftrightarrow> chip_ok c \<and> na_is_inited s \<and>
     (\<forall>m. mi_is_inited (na_mod_info s m) \<longrightarrow> m < 12 \<and> mod_ok c (na_mod_info s m)) \<and>
     (\<forall>m m' x. mi_is_inited (na_mod_info s m) \<and> mi_is_inited (na_mod_info s m') \<and>
        in_range (na_mod_info s m) x \<and> in_range (na_mod_info s m') x \<longrightarrow> m = m') \<and>
     (\<forall>m. na_cur_mod s = Some m \<longrightarrow> mi_is_inited (na_mod_info s m))"

abbreviation goal :: "norflash_api \<Rightarrow> nat \<Rightarrow> u8" where
  "goal s \<equiv> flash_goal (na_data s) (na_flash s)"

definition service :: "norflash_ctx \<Rightarrow> norflash_api \<Rightarrow> (nat \<Rightarrow> nat list) \<Rightarrow> (nat \<Rightarrow> u8) \<Rightarrow> bool" where
  "service c s qs L \<longleftrightarrow> modules_ok c s \<and> pool_rep s qs \<and> driver_rep c s \<and>
     (\<forall>m. \<not> mi_is_inited (na_mod_info s m) \<longrightarrow> qs m = []) \<and>
     (\<forall>m. mi_is_inited (na_mod_info s m) \<longrightarrow> queue_rep (na_data s) (na_opera s) (na_mod_info s m) (qs m) (goal s) \<and>
        (\<forall>x. in_range (na_mod_info s m) x \<longrightarrow> L x = pend (na_data s) (na_opera s) (qs m) (goal s) x))"

lemma modules_okD:
  assumes "modules_ok c s"
  shows "chip_ok c" "na_is_inited s" "mi_is_inited (na_mod_info s m) \<Longrightarrow> m < 12"
    "mi_is_inited (na_mod_info s m) \<Longrightarrow> mod_ok c (na_mod_info s m)"
    "mi_is_inited (na_mod_info s m) \<Longrightarrow> mi_is_inited (na_mod_info s m') \<Longrightarrow> in_range (na_mod_info s m) x \<Longrightarrow>
       in_range (na_mod_info s m') x \<Longrightarrow> m = m'"
  using assms by (auto simp: modules_ok_def)

lemma serviceD:
  assumes "service c s qs L"
  shows "modules_ok c s" "pool_rep s qs" "driver_rep c s"
    "\<not> mi_is_inited (na_mod_info s m) \<Longrightarrow> qs m = []"
    "mi_is_inited (na_mod_info s m) \<Longrightarrow> queue_rep (na_data s) (na_opera s) (na_mod_info s m) (qs m) (goal s)"
    "mi_is_inited (na_mod_info s m) \<Longrightarrow> in_range (na_mod_info s m) x \<Longrightarrow>
       L x = pend (na_data s) (na_opera s) (qs m) (goal s) x"
  using assms by (auto simp: service_def)

lemma queue_repD:
  assumes "queue_rep D nd i ns m"
  shows "lpath (nxt nd) (mi_opera i) ns" "distinct ns" "set ns \<subseteq> {..<6}" "ops_ok D nd i ns m"
    "p \<in> set ns \<Longrightarrow> oi_lock (nd p) \<longleftrightarrow> mi_cur i = Some p"
    "mi_cur i = Some p \<Longrightarrow> ns \<noteq> [] \<and> last ns = p \<and> p \<in> set ns"
    "p \<in> set ns \<Longrightarrow> q \<in> set ns \<Longrightarrow> \<not> oi_lock (nd p) \<Longrightarrow> \<not> oi_lock (nd q) \<Longrightarrow> \<not> writing (nd p) \<Longrightarrow> \<not> writing (nd q) \<Longrightarrow>
        oi_addr (nd p) = oi_addr (nd q) \<Longrightarrow> p = q"
  using assms by (auto simp: queue_rep_def)

text \<open>Outside of the sector that a suspended operation works on, the flash reads as it will be.\<close>

lemma goal_outside:
  assumes s: "service c s qs L" and m: "mi_is_inited (na_mod_info s m)" and x: "in_range (na_mod_info s m) x"
    and no: "\<And>p. p \<in> set (qs m) \<Longrightarrow> \<not> in_sector (oi_addr (na_opera s p)) x"
  shows "goal s x = fl_mem (na_flash s) x"
proof (cases "suspend_state (na_flash s) = SUSPEND_STATE_NONE")
  case True
  then show ?thesis by (simp add: flash_goal_idle)
next
  case False
  then obtain m0 p where p: "mi_is_inited (na_mod_info s m0)" "mi_cur (na_mod_info s m0) = Some p"
    "flash_ok c (flash_offset (oi_addr (na_opera s p))) (flash_offset (oi_addr (na_opera s p)) + 4096) (na_flash s)"
    using serviceD(3) [OF s] by (cases "suspend_state (na_flash s)") (auto simp: driver_rep_def)
  note M = modules_okD [OF serviceD(1) [OF s]]
  note q = queue_repD [OF serviceD(5) [OF s p(1)]]
  have mem: "p \<in> set (qs m0)" using q(6) [OF p(2)] by blast
  have "\<not> in_sector (oi_addr (na_opera s p)) x"
  proof (cases "m0 = m")
    case True
    then show ?thesis using no mem by blast
  next
    case neq: False
    then show ?thesis
      using in_sector_range [OF M(1) M(4) [OF p(1)] ops_ok_sector [OF q(4) mem]] M(5) [OF p(1) m] x by blast
  qed
  then show ?thesis using flash_goal_outside [OF p(3), of x] by (auto simp: in_sector_def not_le not_less)
qed

lemma read_find_path:
  "lpath (nxt nd) tmp ns \<Longrightarrow> read_find nd a tmp = Some (find (\<lambda>p. oi_addr (nd p) = a) ns)"
proof (induction ns arbitrary: tmp)
  case Nil
  then show ?case by (subst read_find.simps) simp
next
  case (Cons p ns)
  then show ?case by (subst read_find.simps) (auto simp: nxt_def)
qed

text \<open>The first operation on a sector decides what it will contain.\<close>

lemma pend_first:
  assumes "ops_ok D nd i ns m" "find (\<lambda>p. oi_addr (nd p) = a) ns = Some p" "chip_ok c" "mod_ok c i" "in_sector a x"
  shows "\<exists>m'. op_ok D i (nd p) m' \<and> pend D nd ns m x = op_effect D (nd p) m' x \<and> oi_addr (nd p) = a"
  using assms(1,2)
proof (induction ns)
  case (Cons q ns)
  show ?case
  proof (cases "oi_addr (nd q) = a")
    case True
    then show ?thesis using Cons.prems by auto
  next
    case False
    have q: "op_ok D i (nd q) (pend D nd ns m)" "find (\<lambda>p. oi_addr (nd p) = a) ns = Some p" "ops_ok D nd i ns m"
      using Cons.prems False by simp_all
    obtain m' where m': "op_ok D i (nd p) m'" "pend D nd ns m x = op_effect D (nd p) m' x" "oi_addr (nd p) = a"
      using Cons.IH [OF q(3,2)] by blast
    have "\<not> in_sector (oi_addr (nd q)) x"
      using sectors_apart [OF assms(3,4)] q(1) m'(1,3) False assms(5) by (metis op_ok_def)
    then show ?thesis using m' op_effect_outside [OF q(1)] by (intro exI [of _ m']) simp
  qed
qed simp

lemma pend_none:
  assumes "ops_ok D nd i ns m" "find (\<lambda>p. oi_addr (nd p) = a) ns = None" "chip_ok c" "mod_ok c i" "in_sector a x" "sector_in i a"
  shows "pend D nd ns m x = m x" "p \<in> set ns \<Longrightarrow> \<not> in_sector (oi_addr (nd p)) x"
proof -
  have out: "\<not> in_sector (oi_addr (nd p)) x" if "p \<in> set ns" for p
    using sectors_apart [OF assms(3,4) ops_ok_sector [OF assms(1) that] assms(6) _ assms(5)] assms(2) that
    by (auto simp: find_None_iff)
  then show "pend D nd ns m x = m x" using pend_outside [OF assms(1)] by blast
  show "p \<in> set ns \<Longrightarrow> \<not> in_sector (oi_addr (nd p)) x" using out by blast
qed

end
