(* ===== verification/Norflash_Ops.thy ===== *)
theory Norflash_Ops
  imports Norflash_Rep
begin

text \<open>
  The operations of the flash service that do not touch the flash: reading, queueing an erase, queueing a write. What
  each does to the queue, and that it keeps the representation.
\<close>

section \<open>Addresses\<close>

text \<open>The \<open>n\<close> bytes at \<open>a\<close> lie in one sector of the module.\<close>

definition within :: "module_info \<Rightarrow> u32 \<Rightarrow> nat \<Rightarrow> bool" where
  "within i a n \<longleftrightarrow> 0 < n \<and> unat (mi_base_addr i) \<le> unat a \<and> unat a + n \<le> unat (mi_base_addr i) + unat (mi_len i) \<and>
     unat a mod 4096 + n \<le> 4096"

lemma within_sector:
  assumes "chip_ok c" "mod_ok c i" "within i a n"
  shows "sector_in i (sec_of a)" "flash_offset a = flash_offset (sec_of a) + unat a mod 4096"
    "\<And>k. k < n \<Longrightarrow> in_sector (sec_of a) (flash_offset a + k)"
    "\<And>k. k < n \<Longrightarrow> flash_offset (a + of_nat k) = flash_offset a + k"
    "\<And>k. k < n \<Longrightarrow> in_range i (flash_offset a + k)" "n < 2 ^ 32"
proof -
  have w: "0 < n" "unat (mi_base_addr i) \<le> unat a" "unat a + n \<le> unat (mi_base_addr i) + unat (mi_len i)"
    "unat a mod 4096 + n \<le> 4096" using assms(3) by (auto simp: within_def)
  show sec: "sector_in i (sec_of a)" by (rule sec_of_in [OF assms(2) w(2)]) (use w in simp)
  have s: "unat (mi_base_addr i) \<le> unat (sec_of a)" "unat (sec_of a) \<le> unat (mi_base_addr i) + unat (mi_len i)"
    using sec by (auto simp: sector_in_def)
  have e: "unat (sec_of a) + unat a mod 4096 = unat a" by (simp add: unat_sec_of)
  have "flash_offset (sec_of a) = flash_offset (mi_base_addr i) + (unat (sec_of a) - unat (mi_base_addr i))"
    by (rule range_offset [OF assms(1,2) s])
  moreover have "flash_offset a = flash_offset (mi_base_addr i) + (unat a - unat (mi_base_addr i))"
    by (rule range_offset [OF assms(1,2) w(2)]) (use w in simp)
  ultimately show off: "flash_offset a = flash_offset (sec_of a) + unat a mod 4096" using e s w by linarith
  show in_sec: "in_sector (sec_of a) (flash_offset a + k)" if "k < n" for k
    using off that w(4) by (simp add: in_sector_def)
  show "in_range i (flash_offset a + k)" if "k < n" for k
    using in_sector_range [OF assms(1,2) sec in_sec [OF that]] .
  show n: "n < 2 ^ 32" using w(4) by simp
  show "flash_offset (a + of_nat k) = flash_offset a + k" if "k < n" for k
  proof -
    have "unat (of_nat k :: u32) = k" using that w(4) by (simp add: unat_of_nat take_bit_nat_eq_self)
    moreover have "flash_offset a + k < 67108864"
      using sector_offset(4) [OF assms(1,2) sec] in_sec [OF that] chip_okD(6) [OF assms(1)] by (simp add: in_sector_def)
    ultimately show ?thesis using flash_offset_add [of a "of_nat k"] by simp
  qed
qed

lemma in_range_guard:
  assumes "mod_ok c i" "within i a n" "unat len = n"
  shows "\<not> out_of_range i a len" "len \<noteq> 0"
proof -
  have w: "unat (mi_base_addr i) \<le> unat a" "unat a + n \<le> unat (mi_base_addr i) + unat (mi_len i)"
    "unat (mi_base_addr i) + unat (mi_len i) < 2 ^ 32" "0 < n"
    using assms by (auto simp: within_def mod_ok_def)
  have "unat (a + len) = unat a + n" "unat (mi_base_addr i + mi_len i) = unat (mi_base_addr i) + unat (mi_len i)"
    using w assms(3) by (simp_all add: unat_add_small)
  then show "\<not> out_of_range i a len" using w by (simp add: out_of_range_def word_less_nat_alt not_less)
  show "len \<noteq> 0" using w(4) assms(3) by auto
qed

section \<open>Reading\<close>

text \<open>A sector without a queued operation reads as the flash does.\<close>

lemma raw_content:
  assumes s: "service c s qs L" and m: "mi_is_inited (na_mod_info s m)" and a: "sector_in (na_mod_info s m) a"
    and none: "find (\<lambda>p. oi_addr (na_opera s p) = a) (qs m) = None" and x: "in_sector a x"
  shows "fl_mem (na_flash s) x = L x"
proof -
  note M = modules_okD [OF serviceD(1) [OF s]]
  note pe = pend_none [OF queue_repD(4) [OF serviceD(5) [OF s m]] none M(1) M(4) [OF m] x a]
  have "in_range (na_mod_info s m) x" using in_sector_range [OF M(1) M(4) [OF m] a x] .
  then show ?thesis using goal_outside [OF s m _ pe(2)] serviceD(6) [OF s m] pe(1) by metis
qed

lemma read_ok:
  assumes s: "service c s qs L" and m: "mi_is_inited (na_mod_info s m)"
    and w: "within (na_mod_info s m) a n" and n: "unat len = n"
  shows "norflash_api_read m a len s = Some (NORFLASH_API_OK, map L [flash_offset a..<flash_offset a + n])"
proof -
  let ?i = "na_mod_info s m" and ?a = "flash_offset a"
  note M = modules_okD [OF serviceD(1) [OF s]]
  note q = queue_repD [OF serviceD(5) [OF s m]]
  note W = within_sector [OF M(1) M(4) [OF m] w]
  have len: "mi_sector_len ?i = 4096" using M(4) [OF m] by (simp add: mod_ok_def)
  have find: "read_find (na_opera s) (sec_of a) (mi_opera ?i) = Some (find (\<lambda>p. oi_addr (na_opera s p) = sec_of a) (qs m))"
    using q(1) by (rule read_find_path)
  have L: "L (?a + k) = pend (na_data s) (na_opera s) (qs m) (goal s) (?a + k)" if "k < n" for k
    using serviceD(6) [OF s m W(5) [OF that]] .
  have map_eq: "map f [0..<n] = map L [?a..<?a + n]" if "\<And>k. k < n \<Longrightarrow> f k = L (?a + k)" for f
    by (rule nth_equalityI) (use that in auto)
  have "opera_read m a len s = Some (map L [?a..<?a + n])"
  proof (cases "find (\<lambda>p. oi_addr (na_opera s p) = sec_of a) (qs m)")
    case None
    have "flash_at s (a + of_nat k) = L (?a + k)" if "k < n" for k
      using raw_content [OF s m W(1) None W(3) [OF that]] by (simp add: flash_at_def W(4) [OF that])
    then have "map (\<lambda>k. flash_at s (a + of_nat k)) [0..<n] = map L [?a..<?a + n]" by (rule map_eq)
    then show ?thesis using find None n len by (simp add: opera_read_def sec_of_def Let_def)
  next
    case (Some p)
    have first: "\<exists>m'. op_ok (na_data s) ?i (na_opera s p) m' \<and>
      L (?a + k) = op_effect (na_data s) (na_opera s p) m' (?a + k) \<and> oi_addr (na_opera s p) = sec_of a" if "k < n" for k
      unfolding L [OF that] by (rule pend_first [OF q(4) Some M(1) M(4) [OF m] W(3) [OF that]])
    have "0 < n" using w by (simp add: within_def)
    then obtain m0 where m0: "op_ok (na_data s) ?i (na_opera s p) m0" "oi_addr (na_opera s p) = sec_of a" using first by blast
    show ?thesis
    proof (cases "writing (na_opera s p)")
      case True
      have b: "oi_buff (na_opera s p) = Some 0" using m0 True by (simp add: op_ok_def)
      have "na_data s 0 (unat a mod 4096 + k) = L (?a + k)" if "k < n" for k
      proof -
        note fk = first [OF that]
        obtain m' where m': "op_ok (na_data s) ?i (na_opera s p) m'"
          "L (?a + k) = op_effect (na_data s) (na_opera s p) m' (?a + k)" using fk by blast
        have "unat a mod 4096 + k < 4096" using w that by (simp add: within_def)
        then have "na_data s 0 (unat a mod 4096 + k) = op_effect (na_data s) (na_opera s p) m' (?a + k)"
          using m'(1) True m0(2) unfolding op_ok_def W(2) by (simp add: add.assoc)
        then show ?thesis using m'(2) by simp
      qed
      then have "map (\<lambda>k. na_data s 0 (unat a mod 4096 + k)) [0..<n] = map L [?a..<?a + n]" by (rule map_eq)
      moreover have "unat a mod 4096 + n \<le> 4096" using w by (simp add: within_def)
      ultimately show ?thesis using find Some n len True b
        by (simp add: opera_read_def sec_of_def [symmetric] Let_def unat_sec_offs)
    next
      case False
      have "L (?a + k) = 0xff" if "k < n" for k
        using first [OF that] False W(3) [OF that] by (auto simp: op_effect_def over_def in_sector_def)
      then have "replicate n 0xff = map L [?a..<?a + n]" by (intro nth_equalityI) auto
      then show ?thesis using find Some n len False
        by (simp add: opera_read_def sec_of_def [symmetric] Let_def)
    qed
  qed
  then show ?thesis using M(2) M(3) [of m] m in_range_guard [OF M(4) [OF m] w n]
    by (simp add: norflash_api_read_def Let_def)
qed

section \<open>Dropping what an erase makes void\<close>

text \<open>Operations that differ in their links only.\<close>

definition same_ops :: "(nat \<Rightarrow> opra_info) \<Rightarrow> (nat \<Rightarrow> opra_info) \<Rightarrow> bool" where
  "same_ops nd nd' \<longleftrightarrow> (\<forall>p. (nd' p)\<lparr>oi_next := None\<rparr> = (nd p)\<lparr>oi_next := None\<rparr>)"

lemma same_opsD:
  assumes "same_ops nd nd'"
  shows "oi_type (nd' p) = oi_type (nd p)" "oi_addr (nd' p) = oi_addr (nd p)" "oi_len (nd' p) = oi_len (nd p)"
    "oi_w_offs (nd' p) = oi_w_offs (nd p)" "oi_w_len (nd' p) = oi_w_len (nd p)" "oi_buff (nd' p) = oi_buff (nd p)"
    "oi_lock (nd' p) = oi_lock (nd p)"
proof -
  have "(nd' p)\<lparr>oi_next := None\<rparr> = (nd p)\<lparr>oi_next := None\<rparr>" using assms by (simp add: same_ops_def)
  then show "oi_type (nd' p) = oi_type (nd p)" "oi_addr (nd' p) = oi_addr (nd p)" "oi_len (nd' p) = oi_len (nd p)"
    "oi_w_offs (nd' p) = oi_w_offs (nd p)" "oi_w_len (nd' p) = oi_w_len (nd p)" "oi_buff (nd' p) = oi_buff (nd p)"
    "oi_lock (nd' p) = oi_lock (nd p)"
    by (cases "nd p"; cases "nd' p"; simp)+
qed

lemma same_ops_refl [simp]: "same_ops nd nd"
  by (simp add: same_ops_def)

lemma same_ops_trans: "same_ops nd nd' \<Longrightarrow> same_ops nd' nd'' \<Longrightarrow> same_ops nd nd''"
  by (simp add: same_ops_def)

lemma same_ops_link [simp]: "same_ops nd (nd(p := (nd p)\<lparr>oi_next := x\<rparr>))"
  by (simp add: same_ops_def)

lemma op_effect_same: "same_ops nd nd' \<Longrightarrow> op_effect D (nd' p) = op_effect D (nd p)"
  by (simp add: op_effect_def same_opsD fun_eq_iff)

lemma pend_same: "same_ops nd nd' \<Longrightarrow> pend D nd' ps m = pend D nd ps m"
  by (rule pend_cong) (simp add: op_effect_same)

lemma ops_ok_same: "same_ops nd nd' \<Longrightarrow> ops_ok D nd' i ps m = ops_ok D nd i ps m"
  by (induction ps) (simp_all add: op_ok_def same_opsD op_effect_same pend_same)

text \<open>From \<open>s\<close> to \<open>s'\<close> the operations \<open>X\<close> were taken out of the queue of module \<open>m\<close> and released.\<close>

definition dropped :: "nat \<Rightarrow> nat set \<Rightarrow> norflash_api \<Rightarrow> norflash_api \<Rightarrow> bool" where
  "dropped m X s s' \<longleftrightarrow> (\<exists>h nd'. same_ops (na_opera s) nd' \<and>
     s' = s\<lparr>na_mod_info := (na_mod_info s)(m := (na_mod_info s m)\<lparr>mi_opera := h\<rparr>), na_opera := nd',
       na_opera_used := (\<lambda>p. na_opera_used s p \<and> p \<notin> X),
       na_data_used := (\<lambda>b. na_data_used s b \<and> \<not> (b = 0 \<and> (\<exists>p \<in> X. writing (na_opera s p))))\<rparr>)"

lemma dropped_refl: "dropped m {} s s"
  unfolding dropped_def by (intro exI [of _ "mi_opera (na_mod_info s m)"] exI [of _ "na_opera s"]) simp

lemma dropped_trans:
  assumes "dropped m X s s1" "dropped m Y s1 s2"
  shows "dropped m (X \<union> Y) s s2"
proof -
  obtain h nd1 where 1: "same_ops (na_opera s) nd1"
     "s1 = s\<lparr>na_mod_info := (na_mod_info s)(m := (na_mod_info s m)\<lparr>mi_opera := h\<rparr>), na_opera := nd1,
       na_opera_used := (\<lambda>p. na_opera_used s p \<and> p \<notin> X),
       na_data_used := (\<lambda>b. na_data_used s b \<and> \<not> (b = 0 \<and> (\<exists>p \<in> X. writing (na_opera s p))))\<rparr>"
    using assms(1) by (auto simp: dropped_def)
  obtain h2 nd2 where 2: "same_ops (na_opera s1) nd2"
     "s2 = s1\<lparr>na_mod_info := (na_mod_info s1)(m := (na_mod_info s1 m)\<lparr>mi_opera := h2\<rparr>), na_opera := nd2,
       na_opera_used := (\<lambda>p. na_opera_used s1 p \<and> p \<notin> Y),
       na_data_used := (\<lambda>b. na_data_used s1 b \<and> \<not> (b = 0 \<and> (\<exists>p \<in> Y. writing (na_opera s1 p))))\<rparr>"
    using assms(2) by (auto simp: dropped_def)
  have "same_ops (na_opera s) nd2" using same_ops_trans [OF 1(1)] 2(1) by (simp add: 1(2))
  moreover have "(\<lambda>p. na_opera_used s1 p \<and> p \<notin> Y) = (\<lambda>p. na_opera_used s p \<and> p \<notin> X \<union> Y)"
    by (auto simp: 1(2))
  moreover have "(\<lambda>b. na_data_used s1 b \<and> \<not> (b = 0 \<and> (\<exists>p \<in> Y. writing (na_opera s1 p)))) =
      (\<lambda>b. na_data_used s b \<and> \<not> (b = 0 \<and> (\<exists>p \<in> X \<union> Y. writing (na_opera s p))))"
    using same_opsD(1) [OF 1(1)] by (auto simp: 1(2))
  ultimately show ?thesis
    unfolding dropped_def 2(2) by (intro exI [of _ h2] exI [of _ nd2]) (simp add: 1(2))
qed

fun isolated :: "('a \<Rightarrow> bool) \<Rightarrow> 'a list \<Rightarrow> bool" where
  "isolated P (x # y # zs) \<longleftrightarrow> \<not> (P x \<and> P y) \<and> isolated P (y # zs)"
| "isolated P zs \<longleftrightarrow> True"

lemma isolated_tl: "isolated P (x # xs) \<Longrightarrow> isolated P xs"
  by (cases xs) auto

lemma isolated_hd: "isolated P (x # xs) \<Longrightarrow> P x \<Longrightarrow> xs = [] \<or> \<not> P (hd xs)"
  by (cases xs) auto

definition void :: "(nat \<Rightarrow> opra_info) \<Rightarrow> u32 \<Rightarrow> nat \<Rightarrow> bool" where
  "void nd a p \<longleftrightarrow> oi_addr (nd p) = a \<and> \<not> oi_lock (nd p)"

lemma void_same: "same_ops nd nd' \<Longrightarrow> void nd' a = void nd a"
  by (simp add: void_def same_opsD fun_eq_iff)

text \<open>Taking one operation out.\<close>

definition unlink :: "nat \<Rightarrow> nat option \<Rightarrow> nat \<Rightarrow> norflash_api \<Rightarrow> norflash_api option" where
  "unlink m pre p s = do {
     let n = na_opera s p;
     s \<leftarrow> (if mi_opera (na_mod_info s m) = Some p then Some (upd_mod m (\<lambda>i. i\<lparr>mi_opera := oi_next n\<rparr>) s)
          else case pre of Some q \<Rightarrow> Some (upd_opera q (\<lambda>k. k\<lparr>oi_next := oi_next n\<rparr>) s) | None \<Rightarrow> None);
     s \<leftarrow> (if oi_type n = NORFLASH_API_WRITTING
          then case oi_buff n of Some b \<Rightarrow> free_data b s | None \<Rightarrow> Some s else Some s);
     free_opera p s }"

lemma e_opera_drop_step:
  "e_opera_drop m a (Some p) pre s =
     (let n = na_opera s p; pre' = (if oi_next n \<noteq> None then Some p else pre)
      in if oi_addr n = a then
           (if \<not> oi_lock n then do { s \<leftarrow> unlink m pre p s; e_opera_drop m a (oi_next n) pre' s }
            else if oi_type n = NORFLASH_API_ERASING then Some (True, s)
            else e_opera_drop m a (oi_next n) pre' s)
         else e_opera_drop m a (oi_next n) pre' s)"
  by (subst e_opera_drop.simps) (simp add: unlink_def Let_def)

lemma unlink_ok:
  assumes path: "lpath (nxt (na_opera s)) (mi_opera (na_mod_info s m)) (ks @ p # rs)"
    and d: "distinct (ks @ p # rs)" and p: "p < 6"
    and pre: "ks \<noteq> [] \<Longrightarrow> pre = Some (last ks)"
    and buff: "writing (na_opera s p) \<Longrightarrow> oi_buff (na_opera s p) = Some 0"
  shows "\<exists>s'. unlink m pre p s = Some s' \<and> dropped m {p} s s' \<and> (\<forall>q. q \<notin> set ks \<longrightarrow> na_opera s' q = na_opera s q) \<and>
    lpath (nxt (na_opera s')) (mi_opera (na_mod_info s' m)) (ks @ rs)"
proof -
  have nx: "oi_next (na_opera s p) = link rs" using lseg_next [OF path] by (simp add: nxt_def)
  define s1 where "s1 = (if ks = [] then upd_mod m (\<lambda>i. i\<lparr>mi_opera := link rs\<rparr>) s
    else upd_opera (last ks) (\<lambda>k. k\<lparr>oi_next := link rs\<rparr>) s)"
  define s2 where "s2 = (if writing (na_opera s p) then s1\<lparr>na_data_used := (na_data_used s1)(0 := False)\<rparr> else s1)"
  define s3 where "s3 = s2\<lparr>na_opera_used := (na_opera_used s2)(p := False)\<rparr>"
  have hd: "mi_opera (na_mod_info s m) = Some p \<longleftrightarrow> ks = []"
    using path d by (cases ks) auto
  have eq: "unlink m pre p s = Some s3"
    using hd pre p buff by (auto simp: unlink_def Let_def nx s1_def s2_def s3_def free_data_def free_opera_def)
  have path': "lpath (nxt (na_opera s3)) (mi_opera (na_mod_info s3 m)) (ks @ rs)"
  proof (cases "ks = []")
    case True
    then show ?thesis using path nx by (auto simp: s1_def s2_def s3_def upd_mod_def nxt_def dest: lpath_link)
  next
    case False
    then show ?thesis using lpath_remove [OF path False d] by (auto simp: s1_def s2_def s3_def upd_opera_def)
  qed
  have "same_ops (na_opera s) (na_opera s1)" by (simp add: s1_def upd_mod_def upd_opera_def)
  then have "dropped m {p} s s3"
    unfolding dropped_def
    by (intro exI [of _ "mi_opera (na_mod_info s1 m)"] exI [of _ "na_opera s1"])
      (auto simp: s1_def s2_def s3_def upd_mod_def upd_opera_def fun_eq_iff)
  moreover have "\<forall>q. q \<notin> set ks \<longrightarrow> na_opera s3 q = na_opera s q"
    by (auto simp: s1_def s2_def s3_def upd_mod_def upd_opera_def)
  ultimately show ?thesis using eq path' by blast
qed

lemma drop_loop:
  assumes "lpath (nxt (na_opera s)) (mi_opera (na_mod_info s m)) (ks @ rs)" "distinct (ks @ rs)" "set rs \<subseteq> {..<6}"
    "\<forall>p \<in> set rs. oi_lock (na_opera s p) \<longrightarrow> p = last rs"
    "\<forall>p \<in> set rs. writing (na_opera s p) \<longrightarrow> oi_buff (na_opera s p) = Some 0"
    "\<forall>p \<in> set rs. oi_type (na_opera s p) \<noteq> NORFLASH_API_ALL"
    "ks \<noteq> [] \<Longrightarrow> pre = Some (last ks) \<or> rs = [] \<or> \<not> void (na_opera s) a (hd rs)"
    "isolated (void (na_opera s) a) (if ks = [] then dropWhile (void (na_opera s) a) rs else rs)"
  shows "\<exists>s'. e_opera_drop m a (link rs) pre s =
      Some (\<exists>p \<in> set rs. oi_addr (na_opera s p) = a \<and> oi_lock (na_opera s p) \<and> \<not> writing (na_opera s p), s') \<and>
    dropped m {p \<in> set rs. void (na_opera s) a p} s s' \<and>
    (\<forall>q. q \<notin> set (ks @ rs) \<longrightarrow> na_opera s' q = na_opera s q) \<and>
    lpath (nxt (na_opera s')) (mi_opera (na_mod_info s' m)) (ks @ filter (\<lambda>p. \<not> void (na_opera s) a p) rs)"
  using assms
proof (induction rs arbitrary: ks pre s)
  case Nil
  then show ?case using dropped_refl by (subst e_opera_drop.simps) simp
next
  case (Cons p rs)
  have nx: "oi_next (na_opera s p) = link rs" using lseg_next [OF Cons.prems(1)] by (simp add: nxt_def)
  let ?pre = "if rs \<noteq> [] then Some p else pre"
  have pre': "(if oi_next (na_opera s p) \<noteq> None then Some p else pre) = ?pre" by (simp add: nx)
  have lock: "\<forall>q \<in> set rs. oi_lock (na_opera s q) \<longrightarrow> q = last rs" using Cons.prems(4) by (cases rs) auto
  show ?case
  proof (cases "void (na_opera s) a p")
    case True
    have pre: "ks \<noteq> [] \<Longrightarrow> pre = Some (last ks)" using Cons.prems(7) True by auto
    from unlink_ok [OF Cons.prems(1,2) _ pre] Cons.prems(3,5)
    obtain s1 where s1: "unlink m pre p s = Some s1" "dropped m {p} s s1"
      "\<forall>q. q \<notin> set ks \<longrightarrow> na_opera s1 q = na_opera s q" "lpath (nxt (na_opera s1)) (mi_opera (na_mod_info s1 m)) (ks @ rs)" by auto
    have same: "same_ops (na_opera s) (na_opera s1)" using s1(2) by (auto simp: dropped_def)
    note f = same_opsD [OF same] void_same [OF same]
    have iso: "isolated (void (na_opera s) a) (if ks = [] then dropWhile (void (na_opera s) a) rs else rs)"
      using Cons.prems(8) True isolated_tl by (auto split: if_splits)
    have "\<exists>s'. e_opera_drop m a (link rs) ?pre s1 =
        Some (\<exists>p \<in> set rs. oi_addr (na_opera s1 p) = a \<and> oi_lock (na_opera s1 p) \<and> \<not> writing (na_opera s1 p), s') \<and>
      dropped m {p \<in> set rs. void (na_opera s1) a p} s1 s' \<and>
      (\<forall>q. q \<notin> set (ks @ rs) \<longrightarrow> na_opera s' q = na_opera s1 q) \<and>
      lpath (nxt (na_opera s')) (mi_opera (na_mod_info s' m)) (ks @ filter (\<lambda>p. \<not> void (na_opera s1) a p) rs)"
    proof (rule Cons.IH [OF s1(4)])
      show "ks \<noteq> [] \<Longrightarrow> ?pre = Some (last ks) \<or> rs = [] \<or> \<not> void (na_opera s1) a (hd rs)"
        using Cons.prems(8) True isolated_hd by (fastforce simp: f)
      show "isolated (void (na_opera s1) a) (if ks = [] then dropWhile (void (na_opera s1) a) rs else rs)"
        using iso by (simp only: f)
    qed (use Cons.prems lock in \<open>auto simp: f\<close>)
    then obtain s2 where s2: "e_opera_drop m a (link rs) ?pre s1 =
        Some (\<exists>p \<in> set rs. oi_addr (na_opera s p) = a \<and> oi_lock (na_opera s p) \<and> \<not> writing (na_opera s p), s2)"
      "dropped m {p \<in> set rs. void (na_opera s) a p} s1 s2"
      "\<forall>q. q \<notin> set (ks @ rs) \<longrightarrow> na_opera s2 q = na_opera s1 q"
      "lpath (nxt (na_opera s2)) (mi_opera (na_mod_info s2 m)) (ks @ filter (\<lambda>p. \<not> void (na_opera s) a p) rs)"
      unfolding f by blast
    have "e_opera_drop m a (link (p # rs)) pre s = e_opera_drop m a (link rs) ?pre s1"
      using True s1(1) unfolding link.simps e_opera_drop_step pre' Let_def by (simp add: void_def nx)
    moreover have "(\<exists>q \<in> set (p # rs). oi_addr (na_opera s q) = a \<and> oi_lock (na_opera s q) \<and> \<not> writing (na_opera s q)) \<longleftrightarrow>
        (\<exists>q \<in> set rs. oi_addr (na_opera s q) = a \<and> oi_lock (na_opera s q) \<and> \<not> writing (na_opera s q))"
      using True by (auto simp: void_def)
    moreover have "{q \<in> set (p # rs). void (na_opera s) a q} = {p} \<union> {q \<in> set rs. void (na_opera s) a q}"
      using True by auto
    ultimately show ?thesis using s2 s1(3) dropped_trans [OF s1(2) s2(2)] True by simp
  next
    case False
    show ?thesis
    proof (cases "oi_addr (na_opera s p) = a \<and> oi_lock (na_opera s p) \<and> \<not> writing (na_opera s p)")
      case merged: True
      then have "rs = []" using Cons.prems(2,4) by (cases rs rule: rev_cases) auto
      moreover have "oi_type (na_opera s p) = NORFLASH_API_ERASING"
        using merged Cons.prems(6) by (cases "oi_type (na_opera s p)") auto
      moreover have none: "{q. q = p \<and> void (na_opera s) a q} = {}" using False by auto
      have "dropped m {q. q = p \<and> void (na_opera s) a q} s s" unfolding none by (rule dropped_refl)
      ultimately show ?thesis using merged False Cons.prems(1)
        unfolding link.simps e_opera_drop_step Let_def by simp
    next
      case skip: False
      have "e_opera_drop m a (link (p # rs)) pre s = e_opera_drop m a (link rs) ?pre s"
        using False skip unfolding link.simps e_opera_drop_step pre' Let_def by (auto simp: void_def nx)
      moreover have "\<exists>s'. e_opera_drop m a (link rs) ?pre s =
          Some (\<exists>p \<in> set rs. oi_addr (na_opera s p) = a \<and> oi_lock (na_opera s p) \<and> \<not> writing (na_opera s p), s') \<and>
        dropped m {p \<in> set rs. void (na_opera s) a p} s s' \<and>
        (\<forall>q. q \<notin> set ((ks @ [p]) @ rs) \<longrightarrow> na_opera s' q = na_opera s q) \<and>
        lpath (nxt (na_opera s')) (mi_opera (na_mod_info s' m)) ((ks @ [p]) @ filter (\<lambda>p. \<not> void (na_opera s) a p) rs)"
      proof (rule Cons.IH)
        show "isolated (void (na_opera s) a) (if ks @ [p] = [] then dropWhile (void (na_opera s) a) rs else rs)"
          using Cons.prems(8) False isolated_tl by (auto split: if_splits)
      qed (use Cons.prems lock in auto)
      moreover have "{q \<in> set (p # rs). void (na_opera s) a q} = {q \<in> set rs. void (na_opera s) a q}" using False by auto
      moreover have "(\<exists>q \<in> set (p # rs). oi_addr (na_opera s q) = a \<and> oi_lock (na_opera s q) \<and> \<not> writing (na_opera s q)) \<longleftrightarrow>
          (\<exists>q \<in> set rs. oi_addr (na_opera s q) = a \<and> oi_lock (na_opera s q) \<and> \<not> writing (na_opera s q))"
        using skip by auto
      ultimately show ?thesis using False by simp
    qed
  qed
qed

section \<open>Changing the queue of one module\<close>

lemma queue_rep_cong:
  assumes "queue_rep D nd i ns m" "\<forall>p \<in> set ns. nd' p = nd p" "D' = D \<or> (\<forall>p \<in> set ns. \<not> writing (nd p))"
  shows "queue_rep D' nd' i ns m" "pend D' nd' ns m = pend D nd ns m"
proof -
  have e: "op_effect D' (nd' p) = op_effect D (nd p)" if "p \<in> set ns" for p
    using assms(3)
  proof
    assume "\<forall>p \<in> set ns. \<not> writing (nd p)"
    then show ?thesis using assms(2) that by (simp add: op_effect_def fun_eq_iff)
  qed (use assms(2) that in simp)
  then show pe: "pend D' nd' ns m = pend D nd ns m" by (intro pend_cong) simp
  have "ops_ok D' nd' i ks m = ops_ok D nd i ks m" if "set ks \<subseteq> set ns" for ks
    using that
  proof (induction ks)
    case (Cons k ks)
    have "pend D' nd' ks m = pend D nd ks m" using e Cons.prems by (intro pend_cong) auto
    then show ?case using Cons e [of k] assms(2,3) by (auto simp: op_ok_def)
  qed simp
  then have ops: "ops_ok D' nd' i ns m" using queue_repD(4) [OF assms(1)] by blast
  have path: "lpath (nxt nd') (mi_opera i) ns = lpath (nxt nd) (mi_opera i) ns"
    by (rule lseg_cong) (use assms(2) in \<open>simp add: nxt_def\<close>)
  have cur: "nd' p = nd p" "op_effect D' (nd p) = op_effect D (nd p)" if "mi_cur i = Some p" for p
    using queue_repD(6) [OF assms(1) that] assms(2) e by auto
  note q = assms(1) [unfolded queue_rep_def]
  show "queue_rep D' nd' i ns m"
    unfolding queue_rep_def path
  proof (intro conjI)
    show "mi_state i = NORFLASH_API_STATE_IDLE \<or> (\<exists>p. mi_cur i = Some p \<and> op_effect D' (nd' p) m = m \<and>
        mi_state i = (if writing (nd' p) then NORFLASH_API_STATE_WRITTING_SUSPEND else NORFLASH_API_STATE_ERASE_SUSPEND))"
      using q cur by auto
  qed (use q ops assms(2) in simp_all)
qed

definition same_module :: "module_info \<Rightarrow> module_info \<Rightarrow> bool" where
  "same_module i i' \<longleftrightarrow> i'\<lparr>mi_opera := None\<rparr> = i\<lparr>mi_opera := None\<rparr>"

lemma same_moduleD:
  assumes "same_module i i'"
  shows "mi_is_inited i' = mi_is_inited i" "mi_cur i' = mi_cur i" "mi_state i' = mi_state i" "mod_ok c i' = mod_ok c i"
    "in_range i' x = in_range i x" "sector_in i' a = sector_in i a" "mi_sector_len i' = mi_sector_len i"
  using assms by (cases i; cases i'; simp add: same_module_def mod_ok_def in_range_def sector_in_def)+

lemma service_upd:
  assumes s: "service c s qs L" and m: "mi_is_inited (na_mod_info s m)"
    and same: "na_is_inited s' = na_is_inited s" "na_cur_mod s' = na_cur_mod s" "na_flash s' = na_flash s"
      "\<forall>m'. m' \<noteq> m \<longrightarrow> na_mod_info s' m' = na_mod_info s m'" "same_module (na_mod_info s m) (na_mod_info s' m)"
    and goal: "goal s' = goal s"
    and others: "\<forall>m'. m' \<noteq> m \<longrightarrow> (\<forall>p \<in> set (qs m'). na_opera s' p = na_opera s p)"
    and D: "na_data s' = na_data s \<or> (\<forall>m'. m' \<noteq> m \<longrightarrow> (\<forall>p \<in> set (qs m'). \<not> writing (na_opera s p)))"
    and cur: "\<forall>p. mi_cur (na_mod_info s m) = Some p \<longrightarrow> oi_addr (na_opera s' p) = oi_addr (na_opera s p) \<and>
        oi_type (na_opera s' p) = oi_type (na_opera s p)"
    and q: "queue_rep (na_data s') (na_opera s') (na_mod_info s' m) ns (goal s)"
    and pool: "pool_rep s' (qs(m := ns))"
    and L: "\<forall>x. in_range (na_mod_info s m) x \<longrightarrow> L' x = pend (na_data s') (na_opera s') ns (goal s) x"
      "\<forall>x. \<not> in_range (na_mod_info s m) x \<longrightarrow> L' x = L x"
  shows "service c s' (qs(m := ns)) L'"
proof -
  note S = serviceD [OF s]
  note sm = same_moduleD [OF same(5)]
  have ini: "mi_is_inited (na_mod_info s' k) = mi_is_inited (na_mod_info s k)" for k
    using same(4) sm by (cases "k = m") auto
  have rng: "in_range (na_mod_info s' k) x = in_range (na_mod_info s k) x" for k x
    using same(4) sm by (cases "k = m") auto
  have cur': "mi_cur (na_mod_info s' k) = mi_cur (na_mod_info s k)" "mi_state (na_mod_info s' k) = mi_state (na_mod_info s k)" for k
    using same(4) sm by (cases "k = m"; simp)+
  have mods: "modules_ok c s'"
    using S(1) same(1,2) ini rng sm same(4) unfolding modules_ok_def by (metis (no_types, lifting))
  have nodes: "oi_addr (na_opera s' p) = oi_addr (na_opera s p) \<and> oi_type (na_opera s' p) = oi_type (na_opera s p)"
    if "mi_is_inited (na_mod_info s k)" "mi_cur (na_mod_info s k) = Some p" for k p
    using that others cur queue_repD(6) [OF S(5) [OF that(1)] that(2)] by (cases "k = m") auto
  have "driver_rep c s'"
  proof (cases "suspend_state (na_flash s) = SUSPEND_STATE_NONE")
    case True
    then show ?thesis using S(3) by (simp add: driver_rep_def same(3) ini cur')
  next
    case False
    then obtain k p where k: "na_cur_mod s = Some k" "mi_is_inited (na_mod_info s k)" "mi_cur (na_mod_info s k) = Some p"
      using S(3) by (cases "suspend_state (na_flash s)") (auto simp: driver_rep_def)
    from nodes [OF k(2,3)] show ?thesis using S(3) False k
      by (cases "suspend_state (na_flash s)") (auto simp: driver_rep_def same(2,3) ini cur')
  qed
  moreover have "queue_rep (na_data s') (na_opera s') (na_mod_info s' k) (qs k) (goal s') \<and>
      pend (na_data s') (na_opera s') (qs k) (goal s') = pend (na_data s) (na_opera s) (qs k) (goal s)"
    if "mi_is_inited (na_mod_info s k)" "k \<noteq> m" for k
    using queue_rep_cong [OF S(5) [OF that(1)], of "na_opera s'" "na_data s'"] that others D same(4) goal by auto
  moreover have "L' x = L x" if "mi_is_inited (na_mod_info s k)" "k \<noteq> m" "in_range (na_mod_info s k) x" for k x
    using L(2) modules_okD(5) [OF S(1) that(1) m that(3)] that(2) by blast
  ultimately show ?thesis
    using mods pool q L(1) S(4,6) m goal unfolding service_def ini rng by auto
qed

lemma service_same: "service c s qs L \<Longrightarrow> (\<And>m x. mi_is_inited (na_mod_info s m) \<Longrightarrow> in_range (na_mod_info s m) x \<Longrightarrow> L' x = L x) \<Longrightarrow>
    service c s qs L'"
  by (auto simp: service_def)

end
