(* ===== verification/Norflash_Queue.thy ===== *)
theory Norflash_Queue
  imports Norflash_Ops
begin

text \<open>
  Queueing an erase and queueing a write: the content the clients see is updated at once, nothing else changes, and a
  request that finds no room changes nothing at all.
\<close>

section \<open>Erasing\<close>

lemma find_Some_in: "find P xs = Some x \<Longrightarrow> x \<in> set xs \<and> P x"
  by (auto simp: find_Some_iff)

lemma isolated_one: "distinct xs \<Longrightarrow> \<forall>x \<in> set xs. P x \<longrightarrow> x = z \<Longrightarrow> isolated P xs"
  by (induction P xs rule: isolated.induct) auto

lemma isolated_queue:
  assumes "distinct ns" "\<And>p q. p \<in> set ns \<Longrightarrow> q \<in> set ns \<Longrightarrow> P p \<Longrightarrow> P q \<Longrightarrow> p \<noteq> hd ns \<Longrightarrow> q \<noteq> hd ns \<Longrightarrow> p = q"
  shows "isolated P (dropWhile P ns)"
proof (cases ns)
  case (Cons h t)
  have t: "p = q" if "p \<in> set t" "q \<in> set t" "P p" "P q" for p q
    using assms Cons that by auto
  have "\<exists>z. \<forall>x \<in> set t. P x \<longrightarrow> x = z"
    by (cases "\<exists>x \<in> set t. P x") (use t in blast)+
  then obtain z where z: "\<forall>x \<in> set t. P x \<longrightarrow> x = z" ..
  show ?thesis
  proof (cases "P h")
    case True
    have "isolated P (dropWhile P t)"
      by (rule isolated_one [of _ _ z]) (use assms(1) Cons z in \<open>auto dest: set_dropWhileD\<close>)
    then show ?thesis using Cons True by simp
  next
    case False
    have "isolated P (h # t)" by (rule isolated_one [of _ _ z]) (use assms(1) Cons False z in auto)
    then show ?thesis using Cons False by simp
  qed
qed simp

lemma filter_ops:
  assumes "ops_ok D nd i ns m" "chip_ok c" "mod_ok c i" "sector_in i a" "\<forall>p \<in> set ns. oi_lock (nd p) \<longrightarrow> p = last ns" "distinct ns"
  shows "ops_ok D nd i (filter (\<lambda>p. \<not> void nd a p) ns) m \<and>
    (\<forall>x. \<not> in_sector a x \<longrightarrow> pend D nd (filter (\<lambda>p. \<not> void nd a p) ns) m x = pend D nd ns m x)"
  using assms(1,5,6)
proof (induction ns)
  case (Cons p ns)
  let ?f = "filter (\<lambda>p. \<not> void nd a p) ns"
  have p: "op_ok D i (nd p) (pend D nd ns m)" "ops_ok D nd i ns m" using Cons.prems by simp_all
  have ih: "ops_ok D nd i ?f m" "\<And>x. \<not> in_sector a x \<Longrightarrow> pend D nd ?f m x = pend D nd ns m x"
    using Cons.IH [OF p(2)] Cons.prems by (cases ns; auto)+
  show ?case
  proof (cases "void nd a p")
    case True
    then have "oi_addr (nd p) = a" by (simp add: void_def)
    then show ?thesis using True ih op_effect_outside [OF p(1)] by simp
  next
    case False
    show ?thesis
    proof (cases "oi_addr (nd p) = a")
      case True
      then have "oi_lock (nd p)" using False by (simp add: void_def)
      then have "ns = []" using Cons.prems by (cases ns rule: rev_cases) auto
      then show ?thesis using Cons.prems False by simp
    next
      case neq: False
      have "sector_in i (oi_addr (nd p))" using p(1) by (simp add: op_ok_def)
      then have "\<not> in_sector a x" if "in_sector (oi_addr (nd p)) x" for x
        using sectors_apart [OF assms(2,3) _ assms(4) that] neq by blast
      then have "op_ok D i (nd p) (pend D nd ?f m)"
        using op_ok_point [OF p(1), of "pend D nd ?f m"] ih(2) by simp
      moreover have "op_effect D (nd p) (pend D nd ?f m) x = op_effect D (nd p) (pend D nd ns m) x" if "\<not> in_sector a x" for x
        using ih(2) [OF that] by (rule op_effect_point)
      ultimately show ?thesis using False ih by simp
    qed
  qed
qed simp

lemma pool_drop:
  assumes "pool_rep s qs" "dropped m X s s'" "X \<subseteq> set (qs m)" "set ns = set (qs m) - X"
  shows "pool_rep s' (qs(m := ns))"
proof -
  obtain h nd where d: "same_ops (na_opera s) nd"
     "s' = s\<lparr>na_mod_info := (na_mod_info s)(m := (na_mod_info s m)\<lparr>mi_opera := h\<rparr>), na_opera := nd,
       na_opera_used := (\<lambda>p. na_opera_used s p \<and> p \<notin> X),
       na_data_used := (\<lambda>b. na_data_used s b \<and> \<not> (b = 0 \<and> (\<exists>p \<in> X. writing (na_opera s p))))\<rparr>"
    using assms(2) by (auto simp: dropped_def)
  note P = assms(1) [unfolded pool_rep_def]
  have disj: "m \<noteq> m' \<Longrightarrow> set (qs m) \<inter> set (qs m') = {}" for m m' using P by blast
  have w: "writing (nd p) = writing (na_opera s p)" for p using same_opsD(1) [OF d(1)] by simp
  have mem: "p \<in> set ((qs(m := ns)) k) \<longleftrightarrow> p \<in> set (qs k) \<and> p \<notin> X" for p k
    using assms(3,4) disj [of m k] by (cases "k = m") auto
  show ?thesis
    unfolding pool_rep_def
  proof (intro conjI)
    show "\<forall>k k'. k \<noteq> k' \<longrightarrow> set ((qs(m := ns)) k) \<inter> set ((qs(m := ns)) k') = {}"
      using disj mem by fast
    show "\<forall>p<6. na_opera_used s' p = (\<exists>k. p \<in> set ((qs(m := ns)) k))"
      using P mem by (auto simp: d(2))
    show "na_data_used s' 0 = (\<exists>k. \<exists>p\<in>set ((qs(m := ns)) k). writing (na_opera s' p))"
    proof -
      have u: "na_data_used s 0 = (\<exists>k. \<exists>p\<in>set (qs k). writing (na_opera s p))" using P by blast
      have one: "p = p'" if "p \<in> set (qs k)" "p' \<in> set (qs k')" "writing (na_opera s p)" "writing (na_opera s p')" for k k' p p'
        using P that by blast
      have x: "p \<in> set (qs m)" if "p \<in> X" for p using assms(3) that by blast
      show ?thesis using u one x unfolding Bex_def mem by (simp add: d(2) w) metis
    qed
    show "\<forall>k p k' p'. p \<in> set ((qs(m := ns)) k) \<and> p' \<in> set ((qs(m := ns)) k') \<and> writing (na_opera s' p) \<and>
        writing (na_opera s' p') \<longrightarrow> p = p'"
      using P unfolding mem by (simp add: d(2) w) blast
  qed
qed

lemma opera_unused:
  assumes "pool_rep s qs" "find (\<lambda>i. \<not> na_opera_used s i) [0..<6] = Some p"
  shows "p < 6" "p \<notin> set (qs m)" "\<not> na_opera_used s p"
proof -
  show u: "p < 6" "\<not> na_opera_used s p" using assms(2) by (auto simp: find_Some_iff)
  then show "p \<notin> set (qs m)" using assms(1) unfolding pool_rep_def by blast
qed

text \<open>The operation \<open>p\<close> is put in front of the queue of \<open>m\<close>.\<close>

lemma queue_rep_push:
  assumes q: "queue_rep D nd i ns m" and p: "p < 6" "p \<notin> set ns"
    and n: "oi_next n = mi_opera i" "\<not> oi_lock n" "op_ok D' i n (pend D nd ns m)"
    and D: "D' = D \<or> (\<forall>p \<in> set ns. \<not> writing (nd p))"
    and single: "writing n \<or> (\<forall>q \<in> set ns. oi_addr (nd q) = oi_addr n \<longrightarrow> oi_lock (nd q) \<or> writing (nd q))"
  shows "queue_rep D' (nd(p := n)) (i\<lparr>mi_opera := Some p\<rparr>) (p # ns) m"
    "pend D' (nd(p := n)) (p # ns) m = op_effect D' n (pend D nd ns m)"
proof -
  have nodes: "\<forall>q \<in> set ns. (nd(p := n)) q = nd q" using p(2) by simp
  note q' = queue_rep_cong [where nd' = "nd(p := n)", OF q nodes D]
  note Q = queue_repD [OF q'(1)]
  show pe: "pend D' (nd(p := n)) (p # ns) m = op_effect D' n (pend D nd ns m)" by (simp add: q'(2))
  have cur: "mi_cur i \<noteq> Some p" using Q(6) [of p] p(2) by blast
  have ops: "ops_ok D' (nd(p := n)) (i\<lparr>mi_opera := Some p\<rparr>) ks m = ops_ok D' (nd(p := n)) i ks m" for ks
    by (induction ks) (auto simp: op_ok_def sector_in_def)
  have okn: "op_ok D' (i\<lparr>mi_opera := Some p\<rparr>) n (pend D nd ns m)" using n(3) by (simp add: op_ok_def sector_in_def)
  have sg: "q = r" if "q \<in> set ns" "r \<in> set ns" "\<not> oi_lock (nd q)" "\<not> oi_lock (nd r)" "\<not> writing (nd q)" "\<not> writing (nd r)"
    "oi_addr (nd q) = oi_addr (nd r)" for q r using queue_repD(7) [OF q] that by blast
  show "queue_rep D' (nd(p := n)) (i\<lparr>mi_opera := Some p\<rparr>) (p # ns) m"
    unfolding queue_rep_def
  proof (intro conjI)
    show "lpath (nxt (nd(p := n))) (mi_opera (i\<lparr>mi_opera := Some p\<rparr>)) (p # ns)"
      using queue_repD(1) [OF q] p n(1) by simp
    show "ops_ok D' (nd(p := n)) (i\<lparr>mi_opera := Some p\<rparr>) (p # ns) m"
      using okn Q(4) q'(2) by (simp add: ops)
    show "\<forall>q\<in>set (p # ns). oi_lock ((nd(p := n)) q) = (mi_cur (i\<lparr>mi_opera := Some p\<rparr>) = Some q)"
      using n(2) cur queue_repD(5) [OF q] p(2) by auto
    show "\<forall>q. mi_cur (i\<lparr>mi_opera := Some p\<rparr>) = Some q \<longrightarrow> p # ns \<noteq> [] \<and> last (p # ns) = q"
      using Q(6) by auto
    show "\<forall>q\<in>set (p # ns). \<forall>r\<in>set (p # ns). \<not> oi_lock ((nd(p := n)) q) \<and> \<not> oi_lock ((nd(p := n)) r) \<and>
        \<not> writing ((nd(p := n)) q) \<and> \<not> writing ((nd(p := n)) r) \<and>
        oi_addr ((nd(p := n)) q) = oi_addr ((nd(p := n)) r) \<longrightarrow> q = r"
      using p(2) single sg by (auto split: if_splits)
    show "mi_state (i\<lparr>mi_opera := Some p\<rparr>) = NORFLASH_API_STATE_IDLE \<or>
      (\<exists>q. mi_cur (i\<lparr>mi_opera := Some p\<rparr>) = Some q \<and> op_effect D' ((nd(p := n)) q) m = m \<and>
        mi_state (i\<lparr>mi_opera := Some p\<rparr>) = (if writing ((nd(p := n)) q) then NORFLASH_API_STATE_WRITTING_SUSPEND
          else NORFLASH_API_STATE_ERASE_SUSPEND))"
      using q'(1) unfolding queue_rep_def by simp
  qed (use Q p in auto)
qed

lemma last_filter: "xs \<noteq> [] \<Longrightarrow> P (last xs) \<Longrightarrow> filter P xs \<noteq> [] \<and> last (filter P xs) = last xs"
  by (cases xs rule: rev_cases) auto

lemma queue_rep_filter:
  assumes q: "queue_rep D nd i ns m" and same: "same_ops nd nd'" "same_module i i'"
    and path: "lpath (nxt nd') (mi_opera i') (filter P ns)" and ops: "ops_ok D nd i (filter P ns) m"
    and P: "\<And>p. p \<in> set ns \<Longrightarrow> oi_lock (nd p) \<Longrightarrow> P p"
  shows "queue_rep D nd' i' (filter P ns) m"
proof -
  note Q = queue_repD [OF q]
  note f = same_opsD [OF same(1)] op_effect_same [OF same(1)] and i' = same_moduleD [OF same(2)]
  have ops': "ops_ok D nd' i' ks m = ops_ok D nd i ks m" for ks
    by (induction ks) (simp_all add: op_ok_def f i' pend_same [OF same(1)])
  have cur: "filter P ns \<noteq> [] \<and> last (filter P ns) = p" if "mi_cur i = Some p" for p
    using Q(5,6) [OF _] Q(6) [OF that] that last_filter [of ns P] P by (metis Q(5))
  show ?thesis
    unfolding queue_rep_def
  proof (intro conjI)
    show "mi_state i' = NORFLASH_API_STATE_IDLE \<or> (\<exists>p. mi_cur i' = Some p \<and> op_effect D (nd' p) m = m \<and>
        mi_state i' = (if writing (nd' p) then NORFLASH_API_STATE_WRITTING_SUSPEND else NORFLASH_API_STATE_ERASE_SUSPEND))"
      using q unfolding queue_rep_def by (simp add: f i')
    show "\<forall>p\<in>set (filter P ns). \<forall>r\<in>set (filter P ns). \<not> oi_lock (nd' p) \<and> \<not> oi_lock (nd' r) \<and> \<not> writing (nd' p) \<and>
        \<not> writing (nd' r) \<and> oi_addr (nd' p) = oi_addr (nd' r) \<longrightarrow> p = r"
      using Q(7) by (simp add: f)
    show "\<forall>p\<in>set (filter P ns). oi_lock (nd' p) = (mi_cur i' = Some p)" using Q(5) by (simp add: f i')
    show "\<forall>p. mi_cur i' = Some p \<longrightarrow> filter P ns \<noteq> [] \<and> last (filter P ns) = p" using cur by (simp add: i')
  qed (use path Q(2,3) ops ops' in auto)
qed

lemma queue_nodes:
  assumes "queue_rep D nd i ns m" "p \<in> set ns"
  shows "sector_in i (oi_addr (nd p))" "writing (nd p) \<Longrightarrow> oi_buff (nd p) = Some 0" "oi_type (nd p) \<noteq> NORFLASH_API_ALL"
    "oi_lock (nd p) \<Longrightarrow> p = last ns" "oi_len (nd p) = 4096"
proof -
  obtain m' where "op_ok D i (nd p) m'" using ops_ok_member [OF queue_repD(4) [OF assms(1)] assms(2)] by blast
  then show "sector_in i (oi_addr (nd p))" "writing (nd p) \<Longrightarrow> oi_buff (nd p) = Some 0" "oi_type (nd p) \<noteq> NORFLASH_API_ALL"
    "oi_len (nd p) = 4096"
    by (auto simp: op_ok_def split: if_splits)
  show "oi_lock (nd p) \<Longrightarrow> p = last ns" using queue_repD(5,6) [OF assms(1)] assms(2) by auto
qed

definition buried_write :: "(nat \<Rightarrow> opra_info) \<Rightarrow> nat list \<Rightarrow> u32 \<Rightarrow> bool" where
  "buried_write nd ns a \<longleftrightarrow> (\<exists>p \<in> set ns. writing (nd p) \<and> void nd a p \<and> p \<noteq> hd ns)"

lemma e_drop_ok:
  assumes s: "service c s qs L" and m: "mi_is_inited (na_mod_info s m)" and a: "sector_in (na_mod_info s m) a"
    and top: "\<not> buried_write (na_opera s) (qs m) a"
  shows "\<exists>merged s1 L1. e_opera_drop m a (mi_opera (na_mod_info s m)) (mi_opera (na_mod_info s m)) s = Some (merged, s1) \<and>
    service c s1 (qs(m := filter (\<lambda>p. \<not> void (na_opera s) a p) (qs m))) L1 \<and> (\<forall>x. \<not> in_sector a x \<longrightarrow> L1 x = L x) \<and>
    (merged \<longrightarrow> (\<forall>x. in_sector a x \<longrightarrow> L1 x = 0xff)) \<and> dropped m {p \<in> set (qs m). void (na_opera s) a p} s s1 \<and>
    ({p \<in> set (qs m). void (na_opera s) a p} = {} \<longrightarrow> L1 = L)"
proof -
  let ?i = "na_mod_info s m" and ?nd = "na_opera s" and ?P = "\<lambda>p. \<not> void (na_opera s) a p"
  let ?ns = "filter ?P (qs m)" and ?X = "{p \<in> set (qs m). void (na_opera s) a p}"
  let ?merged = "\<exists>p \<in> set (qs m). oi_addr (?nd p) = a \<and> oi_lock (?nd p) \<and> \<not> writing (?nd p)"
  note M = modules_okD [OF serviceD(1) [OF s]]
  note q = serviceD(5) [OF s m]
  note Q = queue_repD [OF q] and N = queue_nodes [OF q]
  have head: "mi_opera ?i = link (qs m)" using Q(1) by (rule lpath_link)
  have iso: "isolated (void ?nd a) (dropWhile (void ?nd a) (qs m))"
  proof (rule isolated_queue [OF Q(2)])
    fix p r assume p: "p \<in> set (qs m)" "r \<in> set (qs m)" "void ?nd a p" "void ?nd a r" "p \<noteq> hd (qs m)" "r \<noteq> hd (qs m)"
    then have "\<not> writing (?nd p)" "\<not> writing (?nd r)" using top by (auto simp: buried_write_def)
    then show "p = r" using p Q(7) [of p r] by (simp add: void_def)
  qed
  have "\<exists>s1. e_opera_drop m a (link (qs m)) (mi_opera ?i) s = Some (?merged, s1) \<and> dropped m ?X s s1 \<and>
    (\<forall>q. q \<notin> set ([] @ qs m) \<longrightarrow> na_opera s1 q = ?nd q) \<and>
    lpath (nxt (na_opera s1)) (mi_opera (na_mod_info s1 m)) ([] @ ?ns)"
    by (rule drop_loop) (use Q(1,2,3) N iso in auto)
  then obtain s1 where s1: "e_opera_drop m a (mi_opera ?i) (mi_opera ?i) s = Some (?merged, s1)"
    "dropped m ?X s s1" "\<forall>q. q \<notin> set (qs m) \<longrightarrow> na_opera s1 q = ?nd q"
    "lpath (nxt (na_opera s1)) (mi_opera (na_mod_info s1 m)) ?ns"
    unfolding head by auto
  obtain h nd' where d: "same_ops ?nd nd'"
     "s1 = s\<lparr>na_mod_info := (na_mod_info s)(m := ?i\<lparr>mi_opera := h\<rparr>), na_opera := nd',
       na_opera_used := (\<lambda>p. na_opera_used s p \<and> p \<notin> ?X),
       na_data_used := (\<lambda>b. na_data_used s b \<and> \<not> (b = 0 \<and> (\<exists>p \<in> ?X. writing (?nd p))))\<rparr>"
    using s1(2) by (auto simp: dropped_def)
  have fo: "ops_ok (na_data s) ?nd ?i ?ns (goal s)"
    "\<And>x. \<not> in_sector a x \<Longrightarrow> pend (na_data s) ?nd ?ns (goal s) x = pend (na_data s) ?nd (qs m) (goal s) x"
    using filter_ops [OF Q(4) M(1) M(4) [OF m] a _ Q(2)] N(4) by auto
  define L1 where "L1 = (\<lambda>x. if in_range ?i x then pend (na_data s) ?nd ?ns (goal s) x else L x)"
  have out: "L1 x = L x" if "\<not> in_sector a x" for x
    using fo(2) [OF that] serviceD(6) [OF s m] by (simp add: L1_def)
  have fl: "na_flash s1 = na_flash s" "na_data s1 = na_data s" by (simp_all add: d(2))
  have "service c s1 (qs(m := ?ns)) L1"
  proof (rule service_upd [OF s m])
    show "queue_rep (na_data s1) (na_opera s1) (na_mod_info s1 m) ?ns (goal s)"
      using queue_rep_filter [OF q _ _ s1(4) fo(1)] d by (simp add: void_def same_module_def)
    show "pool_rep s1 (qs(m := ?ns))" by (rule pool_drop [OF serviceD(2) [OF s] s1(2)]) auto
    show "\<forall>m'. m' \<noteq> m \<longrightarrow> (\<forall>p\<in>set (qs m'). na_opera s1 p = na_opera s p)"
      using s1(3) serviceD(2) [OF s] unfolding pool_rep_def by blast
    show "\<forall>x. in_range ?i x \<longrightarrow> L1 x = pend (na_data s1) (na_opera s1) ?ns (goal s) x"
      using pend_same [OF d(1)] by (simp add: L1_def d(2))
    show "\<forall>p. mi_cur (na_mod_info s m) = Some p \<longrightarrow> oi_addr (na_opera s1 p) = oi_addr (na_opera s p) \<and>
        oi_type (na_opera s1 p) = oi_type (na_opera s p)" using same_opsD [OF d(1)] by (simp add: d(2))
  qed (simp_all add: d(2) L1_def same_module_def)
  moreover have "L1 x = 0xff" if mg: ?merged and x: "in_sector a x" for x
  proof -
    obtain p where p: "p \<in> set (qs m)" "oi_addr (?nd p) = a" "oi_lock (?nd p)" "\<not> writing (?nd p)" using mg by blast
    have "p \<in> set ?ns" using p by (simp add: void_def)
    then obtain r where r: "find (\<lambda>p. oi_addr (?nd p) = a) ?ns = Some r"
      using p(2) by (cases "find (\<lambda>p. oi_addr (?nd p) = a) ?ns") (auto simp: find_None_iff)
    then have "r \<in> set ?ns" "oi_addr (?nd r) = a" using find_Some_in [OF r] by blast+
    then have "r = p" using N(4) [of r] N(4) [of p] p by (auto simp: void_def)
    then obtain m' where "pend (na_data s) ?nd ?ns (goal s) x = op_effect (na_data s) (?nd p) m' x"
      using pend_first [OF fo(1) r M(1) M(4) [OF m] x] by blast
    then show ?thesis using p x in_sector_range [OF M(1) M(4) [OF m] a x]
      by (simp add: L1_def op_effect_def over_def in_sector_def)
  qed
  moreover have "L1 = L" if "?X = {}"
  proof -
    have "?ns = qs m" using that by (intro filter_True) blast
    then show ?thesis using serviceD(6) [OF s m] by (auto simp: L1_def)
  qed
  ultimately show ?thesis using s1(1,2) out by (intro exI [of _ ?merged] exI [of _ s1] exI [of _ L1]) blast
qed

definition geom :: "module_info \<Rightarrow> bool \<times> u32 \<times> u32 \<times> u32" where
  "geom i = (mi_is_inited i, mi_base_addr i, mi_len i, mi_sector_len i)"

definition keeps_modules :: "norflash_api \<Rightarrow> norflash_api \<Rightarrow> bool" where
  "keeps_modules s s' \<longleftrightarrow> (\<forall>k. geom (na_mod_info s' k) = geom (na_mod_info s k))"

text \<open>Queueing leaves alone what decides how much work there is, and the sectors of the operations that are queued grow by
  that of the request only.\<close>

definition same_work :: "norflash_api \<Rightarrow> norflash_api \<Rightarrow> bool" where
  "same_work s s' \<longleftrightarrow> na_flash s' = na_flash s \<and> na_cur_mod s' = na_cur_mod s \<and> na_allowed_cb s' = na_allowed_cb s"

definition op_addrs :: "norflash_api \<Rightarrow> nat list \<Rightarrow> u32 set" where
  "op_addrs s ns = (\<lambda>p. oi_addr (na_opera s p)) ` set ns"

definition only_adds :: "nat \<Rightarrow> u32 set \<Rightarrow> norflash_api \<Rightarrow> (nat \<Rightarrow> nat list) \<Rightarrow> norflash_api \<Rightarrow> (nat \<Rightarrow> nat list) \<Rightarrow> bool" where
  "only_adds m X s qs s' qs' \<longleftrightarrow> (\<forall>k. op_addrs s' (qs' k) \<subseteq> op_addrs s (qs k) \<union> (if k = m then X else {}))"

lemma same_work_refl [simp]: "same_work s s"
  by (simp add: same_work_def)

lemma only_addsI:
  assumes "\<And>k p. p \<in> set (qs' k) \<Longrightarrow> p \<in> set (qs k) \<and> oi_addr (na_opera s' p) = oi_addr (na_opera s p) \<or>
    k = m \<and> oi_addr (na_opera s' p) \<in> X"
  shows "only_adds m X s qs s' qs'"
  unfolding only_adds_def
proof (intro allI subsetI)
  fix k a assume "a \<in> op_addrs s' (qs' k)"
  then obtain p where p: "p \<in> set (qs' k)" "a = oi_addr (na_opera s' p)" by (auto simp: op_addrs_def)
  show "a \<in> op_addrs s (qs k) \<union> (if k = m then X else {})"
  proof (cases "k = m \<and> oi_addr (na_opera s' p) \<in> X")
    case True
    then show ?thesis using p(2) by simp
  next
    case False
    then have "p \<in> set (qs k)" "a = oi_addr (na_opera s p)" using assms [OF p(1)] p(2) by auto
    then show ?thesis by (simp add: op_addrs_def)
  qed
qed

lemma only_adds_trans:
  "only_adds m X s qs s1 qs1 \<Longrightarrow> only_adds m Y s1 qs1 s2 qs2 \<Longrightarrow> only_adds m (X \<union> Y) s qs s2 qs2"
  unfolding only_adds_def by (simp split: if_splits) blast

lemma only_adds_refl [simp]: "only_adds m X s qs s qs"
  by (simp add: only_adds_def)

lemma only_adds_none: "only_adds m {} s qs s' qs' \<longleftrightarrow> (\<forall>k. op_addrs s' (qs' k) \<subseteq> op_addrs s (qs k))"
  by (simp add: only_adds_def)

lemma pool_push:
  assumes P: "pool_rep s qs" and p: "p < 6" "\<not> na_opera_used s p"
    and s': "na_opera_used s' = (na_opera_used s)(p := True)" "na_opera s' = (na_opera s)(p := n)"
      "na_data_used s' 0 = (na_data_used s 0 \<or> writing n)" "writing n \<Longrightarrow> \<not> na_data_used s 0"
  shows "pool_rep s' (qs(m := p # qs m))"
proof -
  note P' = P [unfolded pool_rep_def]
  have new: "p \<notin> set (qs k)" for k using P' p by blast
  have mem: "r \<in> set ((qs(m := p # qs m)) k) \<longleftrightarrow> r \<in> set (qs k) \<or> (r = p \<and> k = m)" for r k by auto
  have w: "writing (na_opera s' r) = (if r = p then writing n else writing (na_opera s r))" for r by (simp add: s'(2))
  have none: "\<not> writing (na_opera s r)" if "writing n" "r \<in> set (qs k)" for r k using s'(4) P' that by blast
  show ?thesis
    unfolding pool_rep_def
  proof (intro conjI)
    show "\<forall>k k'. k \<noteq> k' \<longrightarrow> set ((qs(m := p # qs m)) k) \<inter> set ((qs(m := p # qs m)) k') = {}"
    proof (intro allI impI equals0I)
      fix k k' r assume k: "k \<noteq> k'" "r \<in> set ((qs(m := p # qs m)) k) \<inter> set ((qs(m := p # qs m)) k')"
      then have "r \<in> set (qs k) \<inter> set (qs k')" using new by (auto split: if_splits)
      then show False using P' k(1) by blast
    qed
    show "\<forall>r<6. na_opera_used s' r = (\<exists>k. r \<in> set ((qs(m := p # qs m)) k))"
      using P' unfolding mem by (simp add: s'(1)) blast
    show "na_data_used s' 0 = (\<exists>k. \<exists>r\<in>set ((qs(m := p # qs m)) k). writing (na_opera s' r))"
    proof -
      have "na_data_used s 0 \<longleftrightarrow> (\<exists>k. \<exists>r\<in>set (qs k). writing (na_opera s r))" using P' by blast
      then show ?thesis unfolding Bex_def mem s'(3) w using new by (metis (no_types, lifting))
    qed
    show "\<forall>k r k' r'. r \<in> set ((qs(m := p # qs m)) k) \<and> r' \<in> set ((qs(m := p # qs m)) k') \<and> writing (na_opera s' r) \<and>
        writing (na_opera s' r') \<longrightarrow> r = r'"
      unfolding mem w
    proof (intro allI impI)
      fix k r k' r'
      assume a: "(r \<in> set (qs k) \<or> r = p \<and> k = m) \<and> (r' \<in> set (qs k') \<or> r' = p \<and> k' = m) \<and>
        (if r = p then writing n else writing (na_opera s r)) \<and> (if r' = p then writing n else writing (na_opera s r'))"
      show "r = r'"
      proof (cases "r = p \<or> r' = p")
        case True
        then show ?thesis using a new none by metis
      next
        case False
        then show ?thesis using a P' by metis
      qed
    qed
  qed
qed

lemma e_add_ok:
  assumes s: "service c s qs L" and m: "mi_is_inited (na_mod_info s m)" and a: "sector_in (na_mod_info s m) a"
    and top: "\<not> buried_write (na_opera s) (qs m) a"
  shows "\<exists>r s' qs'. e_opera_add m a 4096 s = Some (r, s') \<and> keeps_modules s s' \<and>
    same_work s s' \<and> only_adds m {a} s qs s' qs' \<and>
    (r = 0 \<and> service c s' qs' (over (flash_offset a) 4096 ff L) \<or>
     r = 1 \<and> qs' = qs \<and> service c s' qs L \<and> (\<forall>p < 6. na_opera_used s p))"
proof -
  let ?ns = "filter (\<lambda>p. \<not> void (na_opera s) a p) (qs m)" and ?X = "{p \<in> set (qs m). void (na_opera s) a p}"
  from e_drop_ok [OF s m a top] obtain merged s1 L1 where
    s1: "e_opera_drop m a (mi_opera (na_mod_info s m)) (mi_opera (na_mod_info s m)) s = Some (merged, s1)"
      "service c s1 (qs(m := ?ns)) L1" "\<forall>x. \<not> in_sector a x \<longrightarrow> L1 x = L x"
      "merged \<longrightarrow> (\<forall>x. in_sector a x \<longrightarrow> L1 x = 0xff)" "dropped m ?X s s1" "?X = {} \<longrightarrow> L1 = L" by blast
  have km: "keeps_modules s s1" using s1(5) by (auto simp: dropped_def keeps_modules_def geom_def split: if_splits)
  have sw: "same_work s s1" using s1(5) by (auto simp: dropped_def same_work_def)
  have same: "same_ops (na_opera s) (na_opera s1)" using s1(5) by (auto simp: dropped_def)
  have oa1: "only_adds m {a} s qs s1 (qs(m := ?ns))" "qs(m := ?ns) = qs \<Longrightarrow> only_adds m {a} s qs s1 qs"
    by (rule only_addsI; simp add: same_opsD [OF same] split: if_splits)+
  have gm: "mi_is_inited (na_mod_info s1 m)" "sector_in (na_mod_info s1 m) a"
    using km m a by (auto simp: keeps_modules_def geom_def sector_in_def)
  have eL: "over (flash_offset a) 4096 ff L1 = over (flash_offset a) 4096 ff L"
    using s1(3) by (auto simp: over_def in_sector_def fun_eq_iff)
  show ?thesis
  proof (cases merged)
    case True
    have "L1 = over (flash_offset a) 4096 ff L" using s1(3,4) True by (auto simp: over_def in_sector_def fun_eq_iff)
    then show ?thesis using s1(1,2) km sw oa1(1) True
      by (intro exI [of _ 0] exI [of _ s1] exI [of _ "qs(m := ?ns)"]) (simp add: e_opera_add_def)
  next
    case nm: False
    show ?thesis
    proof (cases "find (\<lambda>i. \<not> na_opera_used s1 i) [0..<6]")
      case None
      then have full: "\<forall>p < 6. na_opera_used s1 p" by (auto simp: find_None_iff)
      have used: "na_opera_used s1 = (\<lambda>p. na_opera_used s p \<and> p \<notin> ?X)" using s1(5) by (auto simp: dropped_def)
      have "set (qs m) \<subseteq> {..<6}" using queue_repD(3) [OF serviceD(5) [OF s m]] .
      then have "?X = {}" using full unfolding used by blast
      then have "qs(m := ?ns) = qs" "L1 = L" using s1(6) by (auto intro!: filter_True)
      then show ?thesis using s1(1,2) km sw oa1(2) nm None full used
        by (intro exI [of _ "1 :: nat"] exI [of _ s1] exI [of _ qs]) (simp add: e_opera_add_def malloc_opera_def)
    next
      case (Some p)
      define n where "n = \<lparr>oi_type = NORFLASH_API_ERASING, oi_addr = a, oi_len = 4096, oi_w_offs = 0,
        oi_w_len = 0, oi_buff = None, oi_lock = False, oi_next = mi_opera (na_mod_info s1 m)\<rparr>"
      define s2 where "s2 = upd_mod m (\<lambda>i. i\<lparr>mi_opera := Some p\<rparr>)
        (upd_opera p (\<lambda>_. n) (s1\<lparr>na_opera_used := (na_opera_used s1)(p := True)\<rparr>))"
      note p = opera_unused [OF serviceD(2) [OF s1(2)] Some]
      have pm: "p \<notin> set ?ns" using p(2) [of m] by simp
      note q1 = serviceD(5) [OF s1(2) gm(1), simplified]
      have op: "op_ok (na_data s1) (na_mod_info s1 m) n (pend (na_data s1) (na_opera s1) ?ns (goal s1))"
        using gm(2) by (simp add: op_ok_def n_def)
      have sg: "writing n \<or> (\<forall>r \<in> set ?ns. oi_addr (na_opera s1 r) = oi_addr n \<longrightarrow> oi_lock (na_opera s1 r) \<or> writing (na_opera s1 r))"
        by (simp add: void_def n_def same_opsD [OF same])
      have nn: "oi_next n = mi_opera (na_mod_info s1 m)" "\<not> oi_lock n" by (simp_all add: n_def)
      note push = queue_rep_push [OF q1 p(1) pm nn op _ sg]
      have eff: "op_effect (na_data s1) n = over (flash_offset a) 4096 ff" by (simp add: op_effect_def n_def fun_eq_iff)
      have "service c s2 ((qs(m := ?ns))(m := p # ?ns)) (over (flash_offset a) 4096 ff L1)"
      proof (rule service_upd [OF s1(2) gm(1)])
        show "queue_rep (na_data s2) (na_opera s2) (na_mod_info s2 m) (p # ?ns) (goal s1)"
          using push(1) by (simp add: s2_def upd_mod_def upd_opera_def)
        show "pool_rep s2 ((qs(m := ?ns))(m := p # ?ns))"
          using pool_push [OF serviceD(2) [OF s1(2)] p(1,3), of s2 n m]
          by (simp add: s2_def upd_mod_def upd_opera_def n_def)
        show "\<forall>m'. m' \<noteq> m \<longrightarrow> (\<forall>r\<in>set ((qs(m := ?ns)) m'). na_opera s2 r = na_opera s1 r)"
        proof (intro allI impI ballI)
          fix m' r assume "m' \<noteq> m" "r \<in> set ((qs(m := ?ns)) m')"
          then have "r \<noteq> p" using p(2) [of m'] by auto
          then show "na_opera s2 r = na_opera s1 r" by (simp add: s2_def upd_mod_def upd_opera_def)
        qed
        have "mi_cur (na_mod_info s1 m) \<noteq> Some p" using queue_repD(6) [OF q1, of p] pm by blast
        then show "\<forall>r. mi_cur (na_mod_info s1 m) = Some r \<longrightarrow> oi_addr (na_opera s2 r) = oi_addr (na_opera s1 r) \<and>
          oi_type (na_opera s2 r) = oi_type (na_opera s1 r)" by (auto simp: s2_def upd_mod_def upd_opera_def)
        show "\<forall>x. in_range (na_mod_info s1 m) x \<longrightarrow> over (flash_offset a) 4096 ff L1 x =
          pend (na_data s2) (na_opera s2) (p # ?ns) (goal s1) x"
        proof (intro allI impI)
          fix x assume "in_range (na_mod_info s1 m) x"
          then have "L1 x = pend (na_data s1) (na_opera s1) ?ns (goal s1) x" using serviceD(6) [OF s1(2) gm(1)] by simp
          moreover have "pend (na_data s2) (na_opera s2) (p # ?ns) (goal s1) =
              over (flash_offset a) 4096 ff (pend (na_data s1) (na_opera s1) ?ns (goal s1))"
            using push(2) eff by (simp add: s2_def upd_mod_def upd_opera_def)
          ultimately show "over (flash_offset a) 4096 ff L1 x = pend (na_data s2) (na_opera s2) (p # ?ns) (goal s1) x"
            by (simp add: over_def)
        qed
        show "\<forall>x. \<not> in_range (na_mod_info s1 m) x \<longrightarrow> over (flash_offset a) 4096 ff L1 x = L1 x"
          using in_sector_range [OF modules_okD(1) [OF serviceD(1) [OF s1(2)]] modules_okD(4) [OF serviceD(1) [OF s1(2)] gm(1)] gm(2)]
          by (auto simp: over_def in_sector_def)
      qed (simp_all add: s2_def upd_mod_def upd_opera_def same_module_def)
      moreover have "e_opera_add m a 4096 s = Some (0, s2)"
        using s1(1) nm Some by (simp add: e_opera_add_def malloc_opera_def s2_def n_def Let_def)
      moreover have "same_work s s2" using sw by (simp add: same_work_def s2_def upd_mod_def upd_opera_def)
      moreover have "only_adds m {a} s qs s2 ((qs(m := ?ns))(m := p # ?ns))"
      proof (rule only_addsI)
        fix k r assume r: "r \<in> set (((qs(m := ?ns))(m := p # ?ns)) k)"
        show "r \<in> set (qs k) \<and> oi_addr (na_opera s2 r) = oi_addr (na_opera s r) \<or> k = m \<and> oi_addr (na_opera s2 r) \<in> {a}"
          using r p(2) [of k] by (cases "r = p") (auto simp: s2_def upd_mod_def upd_opera_def n_def same_opsD [OF same] split: if_splits)
      qed
      moreover have "keeps_modules s s2" using km by (simp add: keeps_modules_def geom_def s2_def upd_mod_def upd_opera_def)
      ultimately show ?thesis unfolding eL by blast
    qed
  qed
qed

end
