(* ===== verification/Norflash_Write.thy ===== *)
theory Norflash_Write
  imports Norflash_Queue
begin

text \<open>
  Queueing a write. The bytes must be writable without an erase: a programmed bit is not set back. Then the new content
  is visible at once, whether the bytes join the queued write of their sector or become an operation of their own.
\<close>

section \<open>Finding the operation to join\<close>

lemma w_find_path:
  assumes "lpath (nxt nd) tmp ns" "\<forall>p \<in> set ns. oi_lock (nd p) \<longrightarrow> p = last ns" "distinct ns"
  shows "w_opera_find nd a tmp = Some (case find (\<lambda>p. oi_addr (nd p) = a) ns of None \<Rightarrow> (None, None)
    | Some p \<Rightarrow> if writing (nd p) then if oi_lock (nd p) then (None, None) else (Some p, None) else (None, Some p))"
  using assms
proof (induction ns arbitrary: tmp)
  case Nil
  then show ?case by (subst w_opera_find.simps) simp
next
  case (Cons p ns)
  have path: "lpath (nxt nd) (oi_next (nd p)) ns" using Cons.prems(1) by (simp add: nxt_def)
  show ?case
  proof (cases "oi_addr (nd p) = a \<and> writing (nd p) \<and> oi_lock (nd p)")
    case True
    then have "ns = []" using Cons.prems(2,3) by (cases ns rule: rev_cases) auto
    moreover have "w_opera_find nd a None = Some (None, None)" by (subst w_opera_find.simps) simp
    ultimately show ?thesis using True Cons.prems(1) path by (subst w_opera_find.simps) simp
  next
    case False
    have "\<forall>q \<in> set ns. oi_lock (nd q) \<longrightarrow> q = last ns" using Cons.prems(2) by (cases ns) auto
    from Cons.IH [OF path this] Cons.prems(1,3) False show ?thesis
      by (subst w_opera_find.simps) auto
  qed
qed

section \<open>Bits that are cleared\<close>

definition writable :: "(nat \<Rightarrow> u8) \<Rightarrow> nat \<Rightarrow> u8 list \<Rightarrow> bool" where
  "writable L a bs \<longleftrightarrow> (\<forall>k < length bs. L (a + k) AND bs ! k = bs ! k)"

definition put :: "nat \<Rightarrow> u8 list \<Rightarrow> (nat \<Rightarrow> u8) \<Rightarrow> nat \<Rightarrow> u8" where
  "put a bs = over a (length bs) (\<lambda>i. bs ! (i - a))"

lemma goal_data: "suspend_state fl \<noteq> SUSPEND_STATE_PROGRAM \<Longrightarrow> flash_goal D' fl = flash_goal D fl"
  by (cases "suspend_state fl") (simp_all add: flash_goal_def)

lemma program_writing:
  assumes "service c s qs L" "suspend_state (na_flash s) = SUSPEND_STATE_PROGRAM"
  shows "\<exists>m p. p \<in> set (qs m) \<and> writing (na_opera s p) \<and> oi_lock (na_opera s p)"
proof -
  obtain m p where p: "mi_is_inited (na_mod_info s m)" "mi_cur (na_mod_info s m) = Some p" "writing (na_opera s p)"
    using serviceD(3) [OF assms(1)] assms(2) by (auto simp: driver_rep_def)
  note q = queue_repD [OF serviceD(5) [OF assms(1) p(1)]]
  have "p \<in> set (qs m)" using q(6) [OF p(2)] by blast
  then show ?thesis using q(5) p by blast
qed

lemma op_effect_in:
  assumes "op_ok D i n m" "writing n" "k < 4096"
  shows "op_effect D n m (flash_offset (oi_addr n) + k) = D 0 k" "m (flash_offset (oi_addr n) + k) AND D 0 k = D 0 k"
    "\<not> (unat (oi_w_offs n) \<le> k \<and> k < unat (oi_w_offs n) + unat (oi_w_len n)) \<Longrightarrow> m (flash_offset (oi_addr n) + k) = D 0 k"
proof -
  have n: "oi_buff n = Some 0" "D 0 k = op_effect D n m (flash_offset (oi_addr n) + k)"
    using assms by (auto simp: op_ok_def)
  then show "op_effect D n m (flash_offset (oi_addr n) + k) = D 0 k" by simp
  have e: "op_effect D n m (flash_offset (oi_addr n) + k) =
      (if unat (oi_w_offs n) \<le> k \<and> k < unat (oi_w_offs n) + unat (oi_w_len n)
       then m (flash_offset (oi_addr n) + k) AND D 0 k else m (flash_offset (oi_addr n) + k))"
    using assms(2) n(1) by (simp add: op_effect_def prog_def over_def)
  show "m (flash_offset (oi_addr n) + k) = D 0 k"
    if h: "\<not> (unat (oi_w_offs n) \<le> k \<and> k < unat (oi_w_offs n) + unat (oi_w_len n))"
    using n(2) trans [OF e if_not_P [OF h]] by simp
  show "m (flash_offset (oi_addr n) + k) AND D 0 k = D 0 k" using n(2) e by (auto split: if_splits)
qed

section \<open>Joining\<close>

lemma join_op:
  assumes ok: "op_ok D i n m" and w: "writing n" and fit: "off + length bs \<le> 4096" "0 < length bs"
    and wr: "\<forall>k < length bs. D 0 (off + k) AND bs ! k = bs ! k"
    and D': "D' 0 = put off bs (D 0)"
    and n': "n' = n\<lparr>oi_w_offs := ws, oi_w_len := wl\<rparr>" "unat ws = min (unat (oi_w_offs n)) off"
      "unat ws + unat wl = max (unat (oi_w_offs n) + unat (oi_w_len n)) (off + length bs)"
  shows "op_ok D' i n' m"
proof -
  let ?a = "flash_offset (oi_addr n)"
  have n: "oi_buff n = Some 0" "0 < unat (oi_w_len n)" "unat (oi_w_offs n) + unat (oi_w_len n) \<le> 4096"
    "sector_in i (oi_addr n)" "oi_len n = 4096"
    using ok w by (auto simp: op_ok_def)
  have e: "op_effect D' n' m (?a + k) =
      (if unat ws \<le> k \<and> k < unat ws + unat wl then m (?a + k) AND D' 0 k else m (?a + k))" for k
    using w n(1) by (simp add: op_effect_def prog_def over_def n'(1))
  have d: "D' 0 k = (if off \<le> k \<and> k < off + length bs then bs ! (k - off) else D 0 k)" for k
    by (simp add: D' put_def over_def)
  have "D' 0 k = op_effect D' n' m (?a + k)" if k: "k < 4096" for k
  proof (cases "off \<le> k \<and> k < off + length bs")
    case True
    then have "D 0 k AND bs ! (k - off) = bs ! (k - off)" using wr by (auto simp: less_diff_conv2 dest: spec [of _ "k - off"])
    then have "m (?a + k) AND bs ! (k - off) = bs ! (k - off)"
      using op_effect_in(2) [OF ok w k] by (metis word_bw_assocs(1))
    moreover have "unat ws \<le> k \<and> k < unat ws + unat wl" using True n'(2,3) by auto
    ultimately show ?thesis using True by (simp add: e d)
  next
    case False
    show ?thesis
    proof (cases "unat ws \<le> k \<and> k < unat ws + unat wl")
      case True
      then show ?thesis using op_effect_in(2) [OF ok w k] unfolding e d if_not_P [OF False] if_P [OF True] by simp
    next
      case out: False
      have "m (?a + k) = D 0 k" by (rule op_effect_in(3) [OF ok w k]) (use out n'(2,3) in auto)
      then show ?thesis unfolding e d if_not_P [OF False] if_not_P [OF out] by simp
    qed
  qed
  moreover have "0 < unat wl" "unat ws + unat wl \<le> 4096" using n'(2,3) fit n(2,3) by linarith+
  ultimately show ?thesis using w n by (simp add: op_ok_def n'(1))
qed

lemma writing_elsewhere:
  assumes "pool_rep s qs" "p \<in> set (qs m)" "writing (na_opera s p)"
  shows "r \<in> set (qs k) \<Longrightarrow> r \<noteq> p \<Longrightarrow> \<not> writing (na_opera s r)"
  using assms unfolding pool_rep_def by blast

text \<open>Exchanging the only write of a queue for one with the same place and lock.\<close>

lemma queue_rep_exchange:
  assumes q: "queue_rep D nd i ns m" and p: "p \<in> set ns" "writing (nd p)" "\<not> oi_lock (nd p)"
    and others: "\<forall>r \<in> set ns. r \<noteq> p \<longrightarrow> \<not> writing (nd r)"
    and n': "oi_addr n' = oi_addr (nd p)" "writing n'" "\<not> oi_lock n'" "oi_next n' = oi_next (nd p)"
    and ok: "\<forall>m'. op_ok D i (nd p) m' \<longrightarrow> op_ok D' i n' m'"
  shows "queue_rep D' (nd(p := n')) i ns m"
    "chip_ok c \<Longrightarrow> mod_ok c i \<Longrightarrow> \<not> in_sector (oi_addr n') x \<Longrightarrow> pend D' (nd(p := n')) ns m x = pend D nd ns m x"
proof -
  note Q = queue_repD [OF q]
  define nd' where "nd' = nd(p := n')"
  have ndp: "nd' p = n'" by (simp add: nd'_def)
  have e: "op_effect D' (nd r) = op_effect D (nd r)" if "r \<in> set ns" "r \<noteq> p" for r
    using others that by (simp add: op_effect_def fun_eq_iff)
  obtain xs ys where xy: "ns = xs @ p # ys" using p(1) by (auto simp: in_set_conv_decomp)
  then have np: "p \<notin> set xs" "p \<notin> set ys" using Q(2) by auto
  have ndr: "nd' r = nd r" if "r \<noteq> p" for r using that by (simp add: nd'_def)
  have er: "op_effect D (nd r) = op_effect D' (nd' r)" if "r \<in> set xs \<union> set ys" for r
  proof -
    have "r \<in> set ns" "r \<noteq> p" using that np xy by auto
    then show ?thesis using e ndr by simp
  qed
  have ys: "pend D' nd' ys m' = pend D nd ys m'" for m'
    by (rule pend_cong [symmetric]) (rule er, simp)
  have plain: "op_ok D' i (nd' r) m' = op_ok D i (nd r) m''" if "r \<in> set ns" "r \<noteq> p" for r m' m''
    using others that ndr by (simp add: op_ok_def)
  have other: "ops_ok D' nd' i ks m' \<longleftrightarrow> ops_ok D nd i ks m''" if "set ks \<subseteq> set ns - {p}" for ks m' m''
    using that
  proof (induction ks)
    case (Cons r ks)
    then show ?case using plain [of r "pend D' nd' ks m'" "pend D nd ks m''"] by simp
  qed simp
  have "op_ok D i (nd p) (pend D nd ys m)" using Q(4) unfolding xy by (simp add: ops_ok_append)
  then have okp: "op_ok D' i n' (pend D' nd' ys m)" using ok ys by simp
  have ops: "ops_ok D' nd' i ns m"
    using Q(4) okp np other [of xs "pend D' nd' (p # ys) m" "pend D nd (p # ys) m"] other [of ys m m]
    unfolding xy by (simp add: ops_ok_append ndp)
  show "queue_rep D' (nd(p := n')) i ns m"
    unfolding queue_rep_def nd'_def [symmetric]
  proof (intro conjI)
    have "nxt nd' = nxt nd" using n'(4) by (auto simp: nxt_def nd'_def)
    then show "lpath (nxt nd') (mi_opera i) ns" using Q(1) by simp
    show "mi_state i = NORFLASH_API_STATE_IDLE \<or> (\<exists>r. mi_cur i = Some r \<and> op_effect D' (nd' r) m = m \<and>
        mi_state i = (if writing (nd' r) then NORFLASH_API_STATE_WRITTING_SUSPEND else NORFLASH_API_STATE_ERASE_SUSPEND))"
    proof (cases "mi_state i = NORFLASH_API_STATE_IDLE")
      case False
      then obtain r where r: "mi_cur i = Some r" "op_effect D (nd r) m = m"
        "mi_state i = (if writing (nd r) then NORFLASH_API_STATE_WRITTING_SUSPEND else NORFLASH_API_STATE_ERASE_SUSPEND)"
        using q unfolding queue_rep_def by blast
      have "r \<in> set ns" "r \<noteq> p" using Q(6) [OF r(1)] Q(5) [of p] p r(1) by auto
      then show ?thesis using r e [of r] ndr [of r] by auto
    qed simp
    show "\<forall>r\<in>set ns. oi_lock (nd' r) = (mi_cur i = Some r)" using Q(5) p n'(3) by (auto simp: nd'_def)
    show "\<forall>r\<in>set ns. \<forall>t\<in>set ns. \<not> oi_lock (nd' r) \<and> \<not> oi_lock (nd' t) \<and> \<not> writing (nd' r) \<and> \<not> writing (nd' t) \<and>
        oi_addr (nd' r) = oi_addr (nd' t) \<longrightarrow> r = t"
      using Q(7) n'(2) by (auto simp: nd'_def)
  qed (use Q ops in auto)
  show "pend D' (nd(p := n')) ns m x = pend D nd ns m x" if c: "chip_ok c" "mod_ok c i" and x: "\<not> in_sector (oi_addr n') x"
  proof -
    have at: "pend D' nd' (p # ys) m x = pend D nd (p # ys) m x"
      using op_effect_outside [OF okp x, of "pend D' nd' ys m"] op_effect_outside [of D i "nd p" "pend D nd ys m" x "pend D nd ys m"]
        Q(4) x n'(1) ys unfolding xy by (simp add: ops_ok_append ndp)
    have xs: "pend D' nd' xs m' = pend D nd xs m'" for m'
      by (rule pend_cong [symmetric]) (rule er, simp)
    show ?thesis unfolding xy pend_append nd'_def [symmetric] xs by (rule pend_point) (rule at)
  qed
qed

lemma put_outside: "\<not> in_sector a x \<Longrightarrow> off + length bs \<le> 4096 \<Longrightarrow> put (flash_offset a + off) bs L x = L x"
  by (auto simp: put_def over_def in_sector_def)

lemma put_at: "put (a + off) bs L (a + k) = (if off \<le> k \<and> k < off + length bs then bs ! (k - off) else L (a + k))"
  by (auto simp: put_def over_def)

lemma in_sector_at: "in_sector a x \<longleftrightarrow> (\<exists>k < 4096. x = flash_offset a + k)"
proof
  assume "in_sector a x"
  then show "\<exists>k < 4096. x = flash_offset a + k"
    by (intro exI [of _ "x - flash_offset a"]) (auto simp: in_sector_def)
qed (auto simp: in_sector_def)

lemma pool_cong:
  assumes P: "pool_rep s qs" and same: "na_opera_used s' = na_opera_used s" "na_data_used s' = na_data_used s"
    and w: "\<And>k r. r \<in> set (qs k) \<Longrightarrow> writing (na_opera s' r) = writing (na_opera s r)"
  shows "pool_rep s' qs"
proof -
  note P' = P [unfolded pool_rep_def]
  show ?thesis
    unfolding pool_rep_def same
  proof (intro conjI)
    show "na_data_used s 0 = (\<exists>k. \<exists>p\<in>set (qs k). writing (na_opera s' p))" using P' w by simp
    show "\<forall>k p k' p'. p \<in> set (qs k) \<and> p' \<in> set (qs k') \<and> writing (na_opera s' p) \<and> writing (na_opera s' p') \<longrightarrow> p = p'"
    proof (intro allI impI, elim conjE)
      fix k p k' p' assume a: "p \<in> set (qs k)" "p' \<in> set (qs k')" "writing (na_opera s' p)" "writing (na_opera s' p')"
      then have "writing (na_opera s p)" "writing (na_opera s p')" using w by blast+
      then show "p = p'" using writing_elsewhere [OF P a(1) _ a(2)] by blast
    qed
  qed (use P' in blast)+
qed

lemma join_ok:
  assumes s: "service c s qs L" and m: "mi_is_inited (na_mod_info s m)"
    and p: "p \<in> set (qs m)" "find (\<lambda>p. oi_addr (na_opera s p) = a) (qs m) = Some p" "writing (na_opera s p)" "\<not> oi_lock (na_opera s p)"
    and fit: "unat off + length bs \<le> 4096" "0 < length bs" and wr: "writable L (flash_offset a + unat off) bs"
  shows "\<exists>s'. w_opera_join p off bs s = Some s' \<and> keeps_modules s s' \<and> same_work s s' \<and> only_adds m {a} s qs s' qs \<and>
    service c s' qs (put (flash_offset a + unat off) bs L)"
proof -
  let ?i = "na_mod_info s m" and ?n = "na_opera s p"
  note M = modules_okD [OF serviceD(1) [OF s]]
  note q = serviceD(5) [OF s m]
  note Q = queue_repD [OF q]
  have adr: "oi_addr ?n = a" using find_Some_in [OF p(2)] by blast
  have one: "\<not> writing (na_opera s r)" if "r \<in> set (qs k)" "r \<noteq> p" for r k
    using writing_elsewhere [OF serviceD(2) [OF s] p(1,3) that] .
  have first: "\<exists>m'. op_ok (na_data s) ?i ?n m' \<and> L x = op_effect (na_data s) ?n m' x" if "in_sector a x" for x
  proof -
    have "in_range ?i x" using in_sector_range [OF M(1) M(4) [OF m] _ that] queue_nodes(1) [OF q p(1)] adr by simp
    from serviceD(6) [OF s m this] pend_first [OF Q(4) p(2) M(1) M(4) [OF m] that] show ?thesis by auto
  qed
  have LD: "L (flash_offset a + k) = na_data s 0 k" if "k < 4096" for k
  proof -
    have "in_sector a (flash_offset a + k)" using that by (simp add: in_sector_def)
    from first [OF this] obtain m' where "op_ok (na_data s) ?i ?n m'" "L (flash_offset a + k) = op_effect (na_data s) ?n m' (flash_offset a + k)"
      by blast
    then show ?thesis using op_effect_in(1) [OF _ p(3) that] adr by metis
  qed
  have b: "oi_buff ?n = Some 0" "unat (oi_w_offs ?n) + unat (oi_w_len ?n) \<le> 4096"
    using ops_ok_member [OF Q(4) p(1)] p(3) by (auto simp: op_ok_def)
  define len :: u32 where "len = of_nat (length bs)"
  have len: "unat len = length bs" using fit by (simp add: len_def unat_of_nat take_bit_nat_eq_self)
  define ws where "ws = (if oi_w_offs ?n \<le> off then oi_w_offs ?n else off)"
  define e1 where "e1 = oi_w_offs ?n + oi_w_len ?n"
  define e2 where "e2 = off + len"
  define we where "we = (if e2 \<le> e1 then e1 else e2)"
  have e: "unat e1 = unat (oi_w_offs ?n) + unat (oi_w_len ?n)" "unat e2 = unat off + length bs"
    unfolding e1_def e2_def using b fit len by (simp_all add: unat_add_small)
  have ws: "unat ws = min (unat (oi_w_offs ?n)) (unat off)" by (simp add: ws_def word_le_nat_alt min_def)
  have we: "unat we = max (unat (oi_w_offs ?n) + unat (oi_w_len ?n)) (unat off + length bs)"
    using e by (simp add: we_def word_le_nat_alt max_def)
  have wl: "unat ws + unat (we - ws) = max (unat (oi_w_offs ?n) + unat (oi_w_len ?n)) (unat off + length bs)"
    using ws we by (subst unat_sub_small) auto
  define n' where "n' = ?n\<lparr>oi_w_offs := ws, oi_w_len := we - ws\<rparr>"
  define D' where "D' = (na_data s)(0 := put (unat off) bs (na_data s 0))"
  define s' where "s' = upd_opera p (\<lambda>_. n') (s\<lparr>na_data := D'\<rparr>)"
  have run: "w_opera_join p off bs s = Some s'"
    using b fit unfolding w_opera_join_def copy_in_def Let_def len_def [symmetric] s'_def n'_def D'_def
    by (simp add: upd_data_def upd_opera_def put_def ws_def we_def e1_def e2_def)
  have jo: "\<forall>m'. op_ok (na_data s) ?i ?n m' \<longrightarrow> op_ok D' ?i n' m'"
  proof (intro allI impI)
    fix m' assume ok: "op_ok (na_data s) ?i ?n m'"
    show "op_ok D' ?i n' m'"
    proof (rule join_op [OF ok p(3) fit])
    have "na_data s 0 (unat off + k) AND bs ! k = bs ! k" if k: "k < length bs" for k
    proof -
      have "unat off + k < 4096" using k fit by simp
      then have "na_data s 0 (unat off + k) = L (flash_offset a + unat off + k)" using LD by (simp add: add.assoc)
      then show ?thesis using wr k by (simp add: writable_def)
    qed
    then show "\<forall>k<length bs. na_data s 0 (unat off + k) AND bs ! k = bs ! k" by blast
    qed (simp add: D'_def, rule n'_def, rule ws, rule wl)
  qed
  have nn: "oi_addr n' = oi_addr ?n" "writing n'" "\<not> oi_lock n'" "oi_next n' = oi_next ?n"
    using p by (simp_all add: n'_def)
  have oth: "\<forall>r \<in> set (qs m). r \<noteq> p \<longrightarrow> \<not> writing (na_opera s r)" using one by blast
  note ex = queue_rep_exchange [OF q p(1,3,4) oth nn jo]
  have np: "suspend_state (na_flash s) \<noteq> SUSPEND_STATE_PROGRAM"
    using program_writing [OF s] one p(4) by metis
  have "service c s' (qs(m := qs m)) (put (flash_offset a + unat off) bs L)"
  proof (rule service_upd [OF s m])
    show "goal s' = goal s" using goal_data [OF np] by (simp add: s'_def upd_opera_def)
    show "\<forall>m'. m' \<noteq> m \<longrightarrow> (\<forall>r\<in>set (qs m'). na_opera s' r = na_opera s r)"
      using serviceD(2) [OF s] p(1) unfolding pool_rep_def s'_def upd_opera_def by auto
    show "na_data s' = na_data s \<or> (\<forall>m'. m' \<noteq> m \<longrightarrow> (\<forall>r\<in>set (qs m'). \<not> writing (na_opera s r)))"
      using one serviceD(2) [OF s] p(1) unfolding pool_rep_def by blast
    show "queue_rep (na_data s') (na_opera s') (na_mod_info s' m) (qs m) (goal s)"
      using ex(1) by (simp add: s'_def upd_opera_def)
    show "pool_rep s' (qs(m := qs m))"
      unfolding fun_upd_triv
      by (rule pool_cong [OF serviceD(2) [OF s]]) (use nn(2) p(3) in \<open>auto simp: s'_def upd_opera_def\<close>)
    show "\<forall>r. mi_cur ?i = Some r \<longrightarrow> oi_addr (na_opera s' r) = oi_addr (na_opera s r) \<and>
        oi_type (na_opera s' r) = oi_type (na_opera s r)"
      using nn p(3) by (simp add: s'_def upd_opera_def)
    show "\<forall>x. in_range ?i x \<longrightarrow> put (flash_offset a + unat off) bs L x = pend (na_data s') (na_opera s') (qs m) (goal s) x"
    proof (intro allI impI)
      fix x assume x: "in_range ?i x"
      have st: "na_data s' = D'" "na_opera s' = (na_opera s)(p := n')" by (simp_all add: s'_def upd_opera_def)
      show "put (flash_offset a + unat off) bs L x = pend (na_data s') (na_opera s') (qs m) (goal s) x"
      proof (cases "in_sector a x")
        case False
        then show ?thesis using ex(2) [OF M(1) M(4) [OF m], of x] adr nn(1) serviceD(6) [OF s m x] put_outside [OF False fit(1)]
          unfolding st by simp
      next
        case True
        then obtain k where k: "k < 4096" "x = flash_offset a + k" by (auto simp: in_sector_at)
        have ext: "(\<lambda>r. oi_addr (((na_opera s)(p := n')) r) = a) = (\<lambda>r. oi_addr (na_opera s r) = a)"
          using nn(1) by auto
        have "find (\<lambda>r. oi_addr (((na_opera s)(p := n')) r) = a) (qs m) = Some p" using p(2) unfolding ext .
        from pend_first [OF queue_repD(4) [OF ex(1)] this M(1) M(4) [OF m] True]
        obtain m' where m': "op_ok D' ?i n' m'" "pend D' ((na_opera s)(p := n')) (qs m) (goal s) x = op_effect D' n' m' x"
          unfolding fun_upd_same by blast
        have "op_effect D' n' m' x = D' 0 k" using op_effect_in(1) [OF m'(1) nn(2) k(1)] nn(1) adr k(2) by simp
        also have "\<dots> = put (flash_offset a + unat off) bs L x"
          using LD [OF k(1)] unfolding k(2) put_at by (simp add: D'_def put_def over_def)
        finally show ?thesis using m'(2) unfolding st by simp
      qed
    qed
    show "\<forall>x. \<not> in_range ?i x \<longrightarrow> put (flash_offset a + unat off) bs L x = L x"
      using put_outside [OF _ fit(1)] in_sector_range [OF M(1) M(4) [OF m], of a] queue_nodes(1) [OF q p(1)] adr by blast
  qed (simp_all add: s'_def upd_opera_def same_module_def)
  moreover have "only_adds m {a} s qs s' qs" by (rule only_addsI) (simp add: s'_def upd_opera_def nn(1))
  ultimately show ?thesis using run by (auto simp: keeps_modules_def geom_def s'_def upd_opera_def same_work_def)
qed

section \<open>A write of its own\<close>

lemma sector_within: "sector_in i a \<Longrightarrow> within i a 4096"
  by (auto simp: sector_in_def within_def)

lemma w_new_ok:
  assumes s: "service c s qs L" and m: "mi_is_inited (na_mod_info s m)" and a: "sector_in (na_mod_info s m) a"
    and fit: "unat off + length bs \<le> 4096" "0 < length bs" and wr: "writable L (flash_offset a + unat off) bs"
    and er: "\<And>p. find (\<lambda>p. oi_addr (na_opera s p) = a) (qs m) = Some p \<Longrightarrow> \<not> writing (na_opera s p) \<Longrightarrow> erased"
      "erased \<Longrightarrow> \<exists>p. find (\<lambda>p. oi_addr (na_opera s p) = a) (qs m) = Some p \<and> \<not> writing (na_opera s p)"
  shows "\<exists>r s' qs'. w_opera_new m a off erased bs s = Some (r, s') \<and> keeps_modules s s' \<and>
    same_work s s' \<and> only_adds m {a} s qs s' qs' \<and>
    (r = 0 \<and> service c s' qs' (put (flash_offset a + unat off) bs L) \<or>
     r = 1 \<and> qs' = qs \<and> service c s' qs L \<and> ((\<forall>p < 6. na_opera_used s p) \<or> na_data_used s 0))"
proof (cases "find (\<lambda>i. \<not> na_opera_used s i) [0..<6]")
  case None
  then have "\<forall>p < 6. na_opera_used s p" by (auto simp: find_None_iff)
  then show ?thesis using None s
    by (intro exI [of _ "1 :: nat"] exI [of _ s] exI [of _ qs]) (simp add: w_opera_new_def malloc_opera_def keeps_modules_def)
next
  case (Some p)
  let ?i = "na_mod_info s m"
  note M = modules_okD [OF serviceD(1) [OF s]]
  note q = serviceD(5) [OF s m]
  note Q = queue_repD [OF q]
  note pp = opera_unused [OF serviceD(2) [OF s] Some]
  have sl: "mi_sector_len ?i = 4096" using M(4) [OF m] by (simp add: mod_ok_def)
  define len :: u32 where "len = of_nat (length bs)"
  have len: "unat len = length bs" using fit by (simp add: len_def unat_of_nat take_bit_nat_eq_self)
  show ?thesis
  proof (cases "na_data_used s 0")
    case True
    define s' where "s' = upd_opera p (\<lambda>n. n\<lparr>oi_type := NORFLASH_API_WRITTING, oi_addr := a, oi_len := 4096,
      oi_w_offs := off, oi_w_len := len, oi_buff := None\<rparr>) s"
    have run: "w_opera_new m a off erased bs s = Some (1, s')"
      using Some True pp(1,3) by (simp add: w_opera_new_def malloc_opera_def malloc_data_def sl s'_def free_opera_def
        upd_opera_def Let_def len_def fun_upd_idem)
    have nodes: "na_opera s' r = na_opera s r" if "r \<in> set (qs k)" for r k
      using pp(2) [of k] that by (auto simp: s'_def upd_opera_def)
    have "service c s' (qs(m := qs m)) L"
    proof (rule service_upd [OF s m])
      show "queue_rep (na_data s') (na_opera s') (na_mod_info s' m) (qs m) (goal s)"
        using queue_rep_cong(1) [OF q, of "na_opera s'" "na_data s'"] nodes by (simp add: s'_def upd_opera_def)
      show "pool_rep s' (qs(m := qs m))" unfolding fun_upd_triv
        by (rule pool_cong [OF serviceD(2) [OF s]]) (use nodes in \<open>auto simp: s'_def upd_opera_def\<close>)
      show "\<forall>r. mi_cur ?i = Some r \<longrightarrow> oi_addr (na_opera s' r) = oi_addr (na_opera s r) \<and>
          oi_type (na_opera s' r) = oi_type (na_opera s r)"
        using Q(6) nodes by metis
      show "\<forall>x. in_range ?i x \<longrightarrow> L x = pend (na_data s') (na_opera s') (qs m) (goal s) x"
        using queue_rep_cong(2) [OF q, of "na_opera s'" "na_data s'"] nodes serviceD(6) [OF s m]
        by (simp add: s'_def upd_opera_def)
    qed (use nodes in \<open>simp_all add: s'_def upd_opera_def same_module_def\<close>)
    moreover have "only_adds m {a} s qs s' qs" by (rule only_addsI) (simp add: nodes)
    ultimately show ?thesis using run True
      by (intro exI [of _ "1 :: nat"] exI [of _ s'] exI [of _ qs]) (simp add: keeps_modules_def same_work_def s'_def upd_opera_def)
  next
    case False
    have none: "\<not> writing (na_opera s r)" if "r \<in> set (qs k)" for r k
      using False that serviceD(2) [OF s] unfolding pool_rep_def by blast
    define B where "B = (\<lambda>i. if erased then 0xff else flash_at s (a + of_nat i))"
    define D' where "D' = (na_data s)(0 := put (unat off) bs (over 0 4096 B (na_data s 0)))"
    define n where "n = (na_opera s p)\<lparr>oi_type := NORFLASH_API_WRITTING, oi_addr := a, oi_len := 4096,
      oi_w_offs := off, oi_w_len := len, oi_buff := Some 0, oi_lock := False, oi_next := mi_opera ?i\<rparr>"
    define s' where "s' = upd_mod m (\<lambda>i. i\<lparr>mi_opera := Some p\<rparr>) (s\<lparr>na_opera_used := (na_opera_used s)(p := True),
      na_data_used := (na_data_used s)(0 := True), na_data := D', na_opera := (na_opera s)(p := n)\<rparr>)"
    have run: "w_opera_new m a off erased bs s = Some (0, s')"
      using Some False fit(1) by (simp add: w_opera_new_def malloc_opera_def malloc_data_def sl copy_in_def Let_def
        upd_data_def upd_opera_def upd_mod_def s'_def n_def D'_def put_def B_def len_def flash_at_def cong: if_cong)
    have B: "B k = L (flash_offset a + k)" if k: "k < 4096" for k
    proof -
      have x: "in_sector a (flash_offset a + k)" using k by (simp add: in_sector_def)
      note rng = in_sector_range [OF M(1) M(4) [OF m] a x]
      show ?thesis
      proof (cases "find (\<lambda>p. oi_addr (na_opera s p) = a) (qs m)")
        case None
        then have "\<not> erased" using er(2) by auto
        then show ?thesis using raw_content [OF s m a None x] within_sector(4) [OF M(1) M(4) [OF m] sector_within [OF a] k]
          by (simp add: B_def flash_at_def)
      next
        case (Some r)
        then have "\<not> writing (na_opera s r)" using none find_Some_in [OF Some] by blast
        moreover obtain m' where m': "op_ok (na_data s) ?i (na_opera s r) m'"
          "pend (na_data s) (na_opera s) (qs m) (goal s) (flash_offset a + k) = op_effect (na_data s) (na_opera s r) m' (flash_offset a + k)"
          "oi_addr (na_opera s r) = a"
          using pend_first [OF Q(4) Some M(1) M(4) [OF m] x] by blast
        ultimately have "L (flash_offset a + k) = 0xff"
          using serviceD(6) [OF s m rng] k by (simp add: op_effect_def over_def)
        then show ?thesis using er(1) [OF Some] \<open>\<not> writing (na_opera s r)\<close> by (simp add: B_def)
      qed
    qed
    have d: "D' 0 k = put (flash_offset a + unat off) bs L (flash_offset a + k)" if "k < 4096" for k
      using B [OF that] that unfolding put_at by (simp add: D'_def put_def over_def)
    have eff: "op_effect D' n m' (flash_offset a + k) =
        (if unat off \<le> k \<and> k < unat off + length bs then m' (flash_offset a + k) AND D' 0 k else m' (flash_offset a + k))" for m' k
      by (simp add: op_effect_def prog_def over_def n_def len)
    have Lp: "L (flash_offset a + k) = pend (na_data s) (na_opera s) (qs m) (goal s) (flash_offset a + k)" if "k < 4096" for k
      by (rule serviceD(6) [OF s m in_sector_range [OF M(1) M(4) [OF m] a]]) (use that in \<open>simp add: in_sector_def\<close>)
    have val: "op_effect D' n (pend (na_data s) (na_opera s) (qs m) (goal s)) (flash_offset a + k) = D' 0 k" if k: "k < 4096" for k
    proof (cases "unat off \<le> k \<and> k < unat off + length bs")
      case True
      then have "L (flash_offset a + k) AND bs ! (k - unat off) = bs ! (k - unat off)"
        using wr by (auto simp: writable_def less_diff_conv2 dest: spec [of _ "k - unat off"])
      then show ?thesis unfolding eff if_P [OF True] Lp [OF k, symmetric] d [OF k] put_at .
    next
      case False
      show ?thesis unfolding eff if_not_P [OF False] Lp [OF k, symmetric] d [OF k] put_at ..
    qed
    have op: "op_ok D' ?i n (pend (na_data s) (na_opera s) (qs m) (goal s))"
      using a fit val len by (simp add: op_ok_def n_def)
    have nn: "oi_next n = mi_opera ?i" "\<not> oi_lock n" "writing n" "oi_addr n = a" by (simp_all add: n_def)
    have DD: "D' = na_data s \<or> (\<forall>r \<in> set (qs m). \<not> writing (na_opera s r))" using none by blast
    have sg: "writing n \<or> (\<forall>r \<in> set (qs m). oi_addr (na_opera s r) = oi_addr n \<longrightarrow> oi_lock (na_opera s r) \<or> writing (na_opera s r))"
      using nn(3) by simp
    note push = queue_rep_push [OF q pp(1,2) nn(1,2) op DD sg]
    have np: "suspend_state (na_flash s) \<noteq> SUSPEND_STATE_PROGRAM" using program_writing [OF s] none by blast
    have st: "na_data s' = D'" "na_opera s' = (na_opera s)(p := n)" "na_mod_info s' m = ?i\<lparr>mi_opera := Some p\<rparr>"
      "na_flash s' = na_flash s" by (simp_all add: s'_def upd_mod_def)
    have "service c s' (qs(m := p # qs m)) (put (flash_offset a + unat off) bs L)"
    proof (rule service_upd [OF s m])
      show "goal s' = goal s" using goal_data [OF np] by (simp add: st)
      show "queue_rep (na_data s') (na_opera s') (na_mod_info s' m) (p # qs m) (goal s)" using push(1) by (simp only: st)
      show "pool_rep s' (qs(m := p # qs m))"
        by (rule pool_push [OF serviceD(2) [OF s] pp(1,3)]) (use False nn in \<open>simp_all add: s'_def upd_mod_def\<close>)
      show "\<forall>m'. m' \<noteq> m \<longrightarrow> (\<forall>r\<in>set (qs m'). na_opera s' r = na_opera s r)"
      proof (intro allI impI ballI)
        fix m' r assume "m' \<noteq> m" "r \<in> set (qs m')"
        then have "r \<noteq> p" using pp(2) [of m'] by auto
        then show "na_opera s' r = na_opera s r" by (simp add: st)
      qed
      have "mi_cur ?i \<noteq> Some p" using Q(6) [of p] pp(2) [of m] by blast
      then show "\<forall>r. mi_cur ?i = Some r \<longrightarrow> oi_addr (na_opera s' r) = oi_addr (na_opera s r) \<and>
          oi_type (na_opera s' r) = oi_type (na_opera s r)" by (auto simp: st)
      show "na_data s' = na_data s \<or> (\<forall>m'. m' \<noteq> m \<longrightarrow> (\<forall>r\<in>set (qs m'). \<not> writing (na_opera s r)))" using none by blast
      show "\<forall>x. in_range ?i x \<longrightarrow> put (flash_offset a + unat off) bs L x = pend (na_data s') (na_opera s') (p # qs m) (goal s) x"
      proof (intro allI impI)
        fix x assume x: "in_range ?i x"
        show "put (flash_offset a + unat off) bs L x = pend (na_data s') (na_opera s') (p # qs m) (goal s) x"
          unfolding st push(2)
        proof (cases "in_sector a x")
          case True
          then obtain k where k: "k < 4096" "x = flash_offset a + k" by (auto simp: in_sector_at)
          show "put (flash_offset a + unat off) bs L x = op_effect D' n (pend (na_data s) (na_opera s) (qs m) (goal s)) x"
            unfolding k(2) val [OF k(1)] d [OF k(1)] ..
        next
          case out: False
          have "op_effect D' n (pend (na_data s) (na_opera s) (qs m) (goal s)) x = pend (na_data s) (na_opera s) (qs m) (goal s) x"
            by (rule op_effect_outside [OF op]) (use out nn(4) in simp)
          then show "put (flash_offset a + unat off) bs L x = op_effect D' n (pend (na_data s) (na_opera s) (qs m) (goal s)) x"
            using put_outside [OF out fit(1)] serviceD(6) [OF s m x] by simp
        qed
      qed
      show "\<forall>x. \<not> in_range ?i x \<longrightarrow> put (flash_offset a + unat off) bs L x = L x"
        using put_outside [OF _ fit(1)] in_sector_range [OF M(1) M(4) [OF m] a] by blast
    qed (simp_all add: s'_def upd_mod_def same_module_def)
    moreover have "only_adds m {a} s qs s' (qs(m := p # qs m))"
      by (rule only_addsI) (use pp(2) in \<open>auto simp: st nn(4) split: if_splits\<close>)
    ultimately show ?thesis using run
      by (intro exI [of _ 0] exI [of _ s'] exI [of _ "qs(m := p # qs m)"])
        (simp add: keeps_modules_def geom_def same_work_def s'_def upd_mod_def)
  qed
qed

lemma w_add_ok:
  assumes s: "service c s qs L" and m: "mi_is_inited (na_mod_info s m)" and w: "within (na_mod_info s m) a (length bs)"
    and wr: "writable L (flash_offset a) bs"
  shows "\<exists>r s' qs'. w_opera_add m a bs s = Some (r, s') \<and> keeps_modules s s' \<and>
    same_work s s' \<and> only_adds m {sec_of a} s qs s' qs' \<and>
    (r = 0 \<and> service c s' qs' (put (flash_offset a) bs L) \<or>
     r = 1 \<and> qs' = qs \<and> service c s' qs L \<and> ((\<forall>p < 6. na_opera_used s p) \<or> na_data_used s 0))"
proof -
  let ?i = "na_mod_info s m" and ?f = "find (\<lambda>p. oi_addr (na_opera s p) = sec_of a) (qs m)"
  note M = modules_okD [OF serviceD(1) [OF s]]
  note q = serviceD(5) [OF s m]
  note Q = queue_repD [OF q]
  note W = within_sector [OF M(1) M(4) [OF m] w]
  have sl: "mi_sector_len ?i = 4096" using M(4) [OF m] by (simp add: mod_ok_def)
  have fit: "unat (a - sec_of a) + length bs \<le> 4096" "0 < length bs" using w by (auto simp: within_def unat_sec_offs)
  have off: "flash_offset (sec_of a) + unat (a - sec_of a) = flash_offset a" using W(2) by (simp add: unat_sec_offs)
  have wr': "writable L (flash_offset (sec_of a) + unat (a - sec_of a)) bs" using wr off by simp
  have "\<forall>p \<in> set (qs m). oi_lock (na_opera s p) \<longrightarrow> p = last (qs m)" using queue_nodes(4) [OF q] by blast
  note fd = w_find_path [OF Q(1) this Q(2), of "sec_of a"]
  have add: "w_opera_add m a bs s = (case ?f of
      Some p \<Rightarrow> if writing (na_opera s p) \<and> \<not> oi_lock (na_opera s p)
        then do { s \<leftarrow> w_opera_join p (a - sec_of a) bs s; Some (0, s) }
        else w_opera_new m (sec_of a) (a - sec_of a) (\<not> writing (na_opera s p)) bs s
    | None \<Rightarrow> w_opera_new m (sec_of a) (a - sec_of a) False bs s)"
    using fd sl by (cases ?f) (simp_all add: w_opera_add_def sec_of_def [symmetric] Let_def)
  show ?thesis
  proof (cases "\<exists>p. ?f = Some p \<and> writing (na_opera s p) \<and> \<not> oi_lock (na_opera s p)")
    case True
    then obtain p where p: "?f = Some p" "writing (na_opera s p)" "\<not> oi_lock (na_opera s p)" by blast
    have "p \<in> set (qs m)" using find_Some_in [OF p(1)] by blast
    from join_ok [OF s m this p fit wr'] show ?thesis using add p unfolding off by auto
  next
    case False
    define erased where "erased \<longleftrightarrow> (\<exists>p. ?f = Some p \<and> \<not> writing (na_opera s p))"
    have "w_opera_add m a bs s = w_opera_new m (sec_of a) (a - sec_of a) erased bs s"
      using add False by (cases ?f) (auto simp: erased_def)
    then show ?thesis using w_new_ok [OF s m W(1) fit wr', of erased] unfolding off by (auto simp: erased_def)
  qed
qed

end
