(* ===== verification/Norflash_Flush.thy ===== *)
theory Norflash_Flush
  imports Norflash_Write
begin

text \<open>
  Carrying out the oldest operation of a queue. Whether it completes, is suspended or is resumed, the content the
  clients see does not change: the flash catches up with it.
\<close>

section \<open>Walking the queue\<close>

lemma tail_path:
  assumes "lpath (nxt nd) tmp ns"
  shows "\<exists>pre'. get_tail_loop nd tmp x pre = Some (if ns = [] then x else Some (last ns), pre')"
  using assms
proof (induction ns arbitrary: tmp x pre)
  case Nil
  then show ?case by (subst get_tail_loop.simps) simp
next
  case (Cons p ns)
  have "lpath (nxt nd) (oi_next (nd p)) ns" using Cons.prems by (simp add: nxt_def)
  from Cons.IH [OF this, of "Some p" "if oi_next (nd p) \<noteq> None then Some p else pre"] Cons.prems
  show ?case by (subst get_tail_loop.simps) (auto simp: Let_def)
qed

lemma get_tail_ok:
  assumes "lpath (nxt (na_opera s)) (mi_opera (na_mod_info s m)) ns"
  shows "get_tail m False s = Some (if ns = [] then (None, s)
    else (Some (last ns), upd_opera (last ns) (\<lambda>n. n\<lparr>oi_lock := True\<rparr>) s))"
proof -
  obtain pre where "get_tail_loop (na_opera s) (mi_opera (na_mod_info s m)) None (mi_opera (na_mod_info s m)) =
      Some (if ns = [] then None else Some (last ns), pre)"
    using tail_path [OF assms] by blast
  then show ?thesis by (simp add: get_tail_def split: option.split)
qed

lemma count_path:
  assumes "lpath (nxt nd) tmp ns"
  shows "count_loop P nd tmp k = Some (k + of_nat (length (filter (\<lambda>p. P (nd p)) ns)))"
  using assms
proof (induction ns arbitrary: tmp k)
  case Nil
  then show ?case by (subst count_loop.simps) simp
next
  case (Cons p ns)
  have "lpath (nxt nd) (oi_next (nd p)) ns" using Cons.prems by (simp add: nxt_def)
  from Cons.IH [OF this] Cons.prems show ?case by (subst count_loop.simps) simp
qed

text \<open>The end of the list is cut off after \<open>xs\<close>, and the operation released.\<close>

definition cut :: "nat \<Rightarrow> nat list \<Rightarrow> norflash_api \<Rightarrow> norflash_api" where
  "cut m xs s = (if xs = [] then upd_mod m (\<lambda>i. i\<lparr>mi_opera := None\<rparr>) s
     else upd_opera (last xs) (\<lambda>n. n\<lparr>oi_next := None\<rparr>) s)"

definition release :: "nat \<Rightarrow> norflash_api \<Rightarrow> norflash_api option" where
  "release p s = do {
     s \<leftarrow> (case oi_buff (na_opera s p) of Some b \<Rightarrow> free_data b s | None \<Rightarrow> Some s);
     free_opera p s }"

lemma del_path:
  assumes "lpath (nxt (na_opera s)) tmp (zs @ [p])" "distinct (xs @ zs @ [p])" "mi_opera (na_mod_info s m) = link (xs @ zs @ [p])"
    "pre = (if xs = [] then tmp else Some (last xs))"
  shows "opera_del_loop m p tmp pre s = release p (cut m (xs @ zs) s)"
  using assms
proof (induction zs arbitrary: tmp pre xs)
  case Nil
  have "mi_opera (na_mod_info s m) = Some p \<longleftrightarrow> xs = []" using Nil by (cases xs) auto
  moreover have "tmp = Some p" using Nil by simp
  ultimately show ?case unfolding append_Nil2 using Nil(4)
    by (subst opera_del_loop.simps) (simp add: release_def cut_def)
next
  case (Cons z zs)
  have z: "tmp = Some z" "lpath (nxt (na_opera s)) (oi_next (na_opera s z)) (zs @ [p])" "z \<noteq> p"
    using Cons.prems(1,2) by (auto simp: nxt_def)
  then have nn: "oi_next (na_opera s z) \<noteq> None" by (cases zs) auto
  have "opera_del_loop m p tmp pre s = opera_del_loop m p (oi_next (na_opera s z)) (Some z) s"
    using z nn by (subst opera_del_loop.simps) (simp add: Let_def)
  also have "\<dots> = release p (cut m ((xs @ [z]) @ zs) s)"
    by (rule Cons.IH [OF z(2)]) (use Cons.prems in auto)
  finally show ?case by simp
qed

lemma opera_del_ok:
  assumes path: "lpath (nxt (na_opera s)) (mi_opera (na_mod_info s m)) (xs @ [p])" and d: "distinct (xs @ [p])" and p: "p < 6"
    and b: "oi_buff (na_opera s p) = (if writing (na_opera s p) then Some 0 else None)"
  shows "\<exists>s'. opera_del m p s = Some s' \<and> dropped m {p} s s' \<and> (\<forall>q. q \<notin> set xs \<longrightarrow> na_opera s' q = na_opera s q) \<and>
    lpath (nxt (na_opera s')) (mi_opera (na_mod_info s' m)) xs"
proof -
  define s1 where "s1 = cut m xs s"
  define s2 where "s2 = (if writing (na_opera s p) then s1\<lparr>na_data_used := (na_data_used s1)(0 := False)\<rparr> else s1)"
  define s3 where "s3 = s2\<lparr>na_opera_used := (na_opera_used s2)(p := False)\<rparr>"
  note s1_def = s1_def [unfolded cut_def]
  have np: "p \<notin> set xs" using d by simp
  then have n1: "na_opera s1 p = na_opera s p" by (cases "xs = []") (auto simp: s1_def upd_mod_def upd_opera_def)
  have "opera_del m p s = release p (cut m ([] @ xs) s)"
    unfolding opera_del_def Let_def by (rule del_path) (use path d lpath_link [OF path] in simp_all)
  also have "\<dots> = release p s1" by (simp add: s1_def cut_def)
  also have "\<dots> = Some s3" using b p n1 by (simp add: release_def s2_def s3_def free_data_def free_opera_def)
  finally have "opera_del m p s = Some s3" .
  moreover have "dropped m {p} s s3"
  proof -
    have "same_ops (na_opera s) (na_opera s1)" by (simp add: s1_def upd_mod_def upd_opera_def)
    then show ?thesis unfolding dropped_def
      by (intro exI [of _ "mi_opera (na_mod_info s1 m)"] exI [of _ "na_opera s1"])
        (auto simp: s1_def s2_def s3_def upd_mod_def upd_opera_def fun_eq_iff)
  qed
  moreover have "\<forall>q. q \<notin> set xs \<longrightarrow> na_opera s3 q = na_opera s q"
    by (auto simp: s1_def s2_def s3_def upd_mod_def upd_opera_def)
  moreover have "lpath (nxt (na_opera s3)) (mi_opera (na_mod_info s3 m)) xs"
  proof (cases "xs = []")
    case True
    then show ?thesis by (simp add: s1_def s2_def s3_def upd_mod_def)
  next
    case False
    then show ?thesis using lpath_remove [OF path False d] by (simp add: s1_def s2_def s3_def upd_opera_def)
  qed
  ultimately show ?thesis by blast
qed

section \<open>The flash catches up\<close>

lemma queue_catch_up:
  assumes "ops_ok D nd i ns m" "ns \<noteq> []"
  shows "ops_ok D nd i ns (op_effect D (nd (last ns)) m)" "pend D nd ns (op_effect D (nd (last ns)) m) = pend D nd ns m"
    "ops_ok D nd i (butlast ns) (op_effect D (nd (last ns)) m)"
    "pend D nd (butlast ns) (op_effect D (nd (last ns)) m) = pend D nd ns m"
proof -
  obtain xs p where ns: "ns = xs @ [p]" using assms(2) by (cases ns rule: rev_cases) auto
  then show "ops_ok D nd i ns (op_effect D (nd (last ns)) m)" "pend D nd ns (op_effect D (nd (last ns)) m) = pend D nd ns m"
    "ops_ok D nd i (butlast ns) (op_effect D (nd (last ns)) m)"
    "pend D nd (butlast ns) (op_effect D (nd (last ns)) m) = pend D nd ns m"
    using assms(1) by (auto simp: ops_ok_append pend_append op_effect_idem op_ok_def)
qed

lemma queue_rep_point:
  assumes "queue_rep D nd i ns m" "mi_state i = NORFLASH_API_STATE_IDLE" "\<And>x. in_range i x \<Longrightarrow> m x = m' x"
    "chip_ok c" "mod_ok c i"
  shows "queue_rep D nd i ns m'" "in_range i x \<Longrightarrow> pend D nd ns m' x = pend D nd ns m x"
proof -
  have "ops_ok D nd i ns m'" using ops_ok_point [OF queue_repD(4) [OF assms(1)] assms(3,4,5)] .
  then show "queue_rep D nd i ns m'" using assms(1,2) unfolding queue_rep_def by simp
  show "in_range i x \<Longrightarrow> pend D nd ns m' x = pend D nd ns m x" using assms(3) by (auto intro: pend_point [symmetric])
qed

lemma service_env:
  "service c (s\<lparr>na_done := d\<rparr>) qs L = service c s qs L" "service c (s\<lparr>na_allow := w\<rparr>) qs L = service c s qs L"
  "service c (s\<lparr>na_allowed_cb := cb\<rparr>) qs L = service c s qs L" "service c (s\<lparr>na_cur_mod_id := k\<rparr>) qs L = service c s qs L"
  by (simp_all add: service_def modules_ok_def pool_rep_def driver_rep_def cong: SUSPEND_STATE_T.case_cong)

lemma geomD:
  assumes "geom i' = geom i"
  shows "mi_is_inited i' = mi_is_inited i" "mod_ok c i' = mod_ok c i" "in_range i' x = in_range i x" "sector_in i' a = sector_in i a"
  using assms by (simp_all add: geom_def mod_ok_def in_range_def sector_in_def)

lemma service_change:
  assumes s: "service c s qs L" and m: "mi_is_inited (na_mod_info s m)"
    and same: "na_is_inited s' = na_is_inited s" "\<forall>k. na_cur_mod s' = Some k \<longrightarrow> mi_is_inited (na_mod_info s k)"
      "\<forall>k. k \<noteq> m \<longrightarrow> na_mod_info s' k = na_mod_info s k" "geom (na_mod_info s' m) = geom (na_mod_info s m)"
      "na_data s' = na_data s" "\<forall>k. k \<noteq> m \<longrightarrow> (\<forall>p \<in> set (qs k). na_opera s' p = na_opera s p)"
    and goal: "goal s' = goal s \<or> (\<forall>k. mi_is_inited (na_mod_info s k) \<and> k \<noteq> m \<longrightarrow> mi_state (na_mod_info s k) = NORFLASH_API_STATE_IDLE)"
      "\<forall>x. \<not> in_range (na_mod_info s m) x \<longrightarrow> goal s' x = goal s x"
    and driver: "driver_rep c s'"
    and q: "queue_rep (na_data s) (na_opera s') (na_mod_info s' m) ns (goal s')"
    and pool: "pool_rep s' (qs(m := ns))"
    and L: "\<forall>x. in_range (na_mod_info s m) x \<longrightarrow> L' x = pend (na_data s) (na_opera s') ns (goal s') x"
      "\<forall>x. \<not> in_range (na_mod_info s m) x \<longrightarrow> L' x = L x"
  shows "service c s' (qs(m := ns)) L'"
proof -
  note S = serviceD [OF s] and M = modules_okD [OF serviceD(1) [OF s]]
  have g: "geom (na_mod_info s' k) = geom (na_mod_info s k)" for k using same(3,4) by (cases "k = m") auto
  note gd = geomD [OF g]
  have mods: "modules_ok c s'" using S(1) same(1,2) unfolding modules_ok_def gd by blast
  have oth: "queue_rep (na_data s') (na_opera s') (na_mod_info s' k) (qs k) (goal s') \<and>
      (\<forall>x. in_range (na_mod_info s k) x \<longrightarrow> L' x = pend (na_data s') (na_opera s') (qs k) (goal s') x)"
    if k: "mi_is_inited (na_mod_info s k)" "k \<noteq> m" for k
  proof -
    have nodes: "\<forall>p \<in> set (qs k). na_opera s' p = na_opera s p" using same(6) k(2) by blast
    note c1 = queue_rep_cong [OF S(5) [OF k(1)] nodes, of "na_data s'"]
    have out: "goal s x = goal s' x" if "in_range (na_mod_info s k) x" for x
      using goal(2) M(5) [OF k(1) m that] k(2) by metis
    have c2: "queue_rep (na_data s') (na_opera s') (na_mod_info s k) (qs k) (goal s') \<and>
      (\<forall>x. in_range (na_mod_info s k) x \<longrightarrow> pend (na_data s') (na_opera s') (qs k) (goal s') x = pend (na_data s') (na_opera s') (qs k) (goal s) x)"
      using goal(1)
    proof
      assume "goal s' = goal s"
      then show ?thesis using c1 same(5) by simp
    next
      assume "\<forall>k. mi_is_inited (na_mod_info s k) \<and> k \<noteq> m \<longrightarrow> mi_state (na_mod_info s k) = NORFLASH_API_STATE_IDLE"
      then have idle: "mi_state (na_mod_info s k) = NORFLASH_API_STATE_IDLE" using k by blast
      have "queue_rep (na_data s') (na_opera s') (na_mod_info s k) (qs k) (goal s)" using c1(1) same(5) by simp
      from queue_rep_point [OF this idle out M(1) M(4) [OF k(1)]] show ?thesis by blast
    qed
    moreover have "L' x = L x" if "in_range (na_mod_info s k) x" for x
      using L(2) M(5) [OF k(1) m that] k(2) by blast
    ultimately show ?thesis using c1(2) same(3,5) k S(6) [OF k(1)] by simp
  qed
  show ?thesis
    unfolding service_def gd
  proof (intro conjI allI impI)
    fix k assume "\<not> mi_is_inited (na_mod_info s k)"
    then show "(qs(m := ns)) k = []" using S(4) m by auto
  next
    fix k assume "mi_is_inited (na_mod_info s k)"
    then show "queue_rep (na_data s') (na_opera s') (na_mod_info s' k) ((qs(m := ns)) k) (goal s')"
      using oth q same(5) by (cases "k = m") auto
  next
    fix k x assume "mi_is_inited (na_mod_info s k)" "in_range (na_mod_info s k) x"
    then show "L' x = pend (na_data s') (na_opera s') ((qs(m := ns)) k) (goal s') x"
      using oth L(1) same(5) by (cases "k = m") auto
  qed (use mods pool driver in auto)
qed

definition others_idle :: "nat \<Rightarrow> norflash_api \<Rightarrow> bool" where
  "others_idle m s \<longleftrightarrow> (\<forall>k. mi_is_inited (na_mod_info s k) \<and> k \<noteq> m \<longrightarrow> mi_state (na_mod_info s k) = NORFLASH_API_STATE_IDLE)"

lemma driver_idle:
  assumes "driver_rep c s" "others_idle m s" "mi_state (na_mod_info s m) = NORFLASH_API_STATE_IDLE"
  shows "suspend_state (na_flash s) = SUSPEND_STATE_NONE \<and> fl_busy (na_flash s) = None"
proof (cases "suspend_state (na_flash s) = SUSPEND_STATE_NONE")
  case True
  then show ?thesis using assms(1) by (simp add: driver_rep_def)
next
  case False
  then obtain k where "mi_is_inited (na_mod_info s k)" "mi_state (na_mod_info s k) \<noteq> NORFLASH_API_STATE_IDLE"
    using assms(1) by (cases "suspend_state (na_flash s)") (auto simp: driver_rep_def)
  then show ?thesis using assms(2,3) unfolding others_idle_def by metis
qed

lemma driver_busy:
  assumes "driver_rep c s" "others_idle m s" "mi_is_inited (na_mod_info s m)" "mi_state (na_mod_info s m) \<noteq> NORFLASH_API_STATE_IDLE"
  shows "\<exists>p. na_cur_mod s = Some m \<and> mi_cur (na_mod_info s m) = Some p \<and>
    suspend_state (na_flash s) = (if writing (na_opera s p) then SUSPEND_STATE_PROGRAM else SUSPEND_STATE_ERASE) \<and>
    flash_ok c (flash_offset (oi_addr (na_opera s p))) (flash_offset (oi_addr (na_opera s p)) + 4096) (na_flash s)"
proof -
  have "suspend_state (na_flash s) \<noteq> SUSPEND_STATE_NONE" using assms(1,3,4) by (auto simp: driver_rep_def)
  then obtain k p where k: "na_cur_mod s = Some k" "mi_is_inited (na_mod_info s k)" "mi_cur (na_mod_info s k) = Some p"
    "mi_state (na_mod_info s k) \<noteq> NORFLASH_API_STATE_IDLE"
    "suspend_state (na_flash s) = (if writing (na_opera s p) then SUSPEND_STATE_PROGRAM else SUSPEND_STATE_ERASE)"
    "flash_ok c (flash_offset (oi_addr (na_opera s p))) (flash_offset (oi_addr (na_opera s p)) + 4096) (na_flash s)"
    using assms(1) by (cases "suspend_state (na_flash s)") (auto simp: driver_rep_def)
  then have "k = m" using assms(2) unfolding others_idle_def by blast
  then show ?thesis using k by blast
qed

lemma driver_cong:
  assumes d: "driver_rep c s" and same: "na_flash s' = na_flash s" "na_cur_mod s' = na_cur_mod s"
    and mods: "\<And>k. mi_is_inited (na_mod_info s' k) = mi_is_inited (na_mod_info s k)"
      "\<And>k. mi_state (na_mod_info s' k) = mi_state (na_mod_info s k)"
      "\<And>k. mi_state (na_mod_info s k) \<noteq> NORFLASH_API_STATE_IDLE \<Longrightarrow> mi_cur (na_mod_info s' k) = mi_cur (na_mod_info s k)"
    and nodes: "\<And>p. oi_addr (na_opera s' p) = oi_addr (na_opera s p)" "\<And>p. writing (na_opera s' p) = writing (na_opera s p)"
  shows "driver_rep c s'"
proof (cases "suspend_state (na_flash s) = SUSPEND_STATE_NONE")
  case True
  then show ?thesis using d by (simp add: driver_rep_def same mods(1,2))
next
  case False
  then obtain m p where m: "na_cur_mod s = Some m" "mi_is_inited (na_mod_info s m)" "mi_cur (na_mod_info s m) = Some p"
    "mi_state (na_mod_info s m) \<noteq> NORFLASH_API_STATE_IDLE"
    "suspend_state (na_flash s) = SUSPEND_STATE_PROGRAM \<longleftrightarrow> writing (na_opera s p)"
    "\<forall>k. mi_is_inited (na_mod_info s k) \<and> k \<noteq> m \<longrightarrow> mi_state (na_mod_info s k) = NORFLASH_API_STATE_IDLE"
    "flash_ok c (flash_offset (oi_addr (na_opera s p))) (flash_offset (oi_addr (na_opera s p)) + 4096) (na_flash s)"
    using d by (cases "suspend_state (na_flash s)") (auto simp: driver_rep_def)
  have "mi_cur (na_mod_info s' m) = Some p" using mods(3) [OF m(4)] m(3) by simp
  then show ?thesis using False m
    by (cases "suspend_state (na_flash s)") (simp_all add: driver_rep_def same mods(1,2) nodes)
qed

text \<open>Taking up the oldest operation.\<close>

definition taken :: "nat \<Rightarrow> nat \<Rightarrow> norflash_api \<Rightarrow> norflash_api" where
  "taken m p s = (if mi_cur (na_mod_info s m) = None
     then upd_mod m (\<lambda>i. i\<lparr>mi_cur := Some p\<rparr>) (upd_opera p (\<lambda>n. n\<lparr>oi_lock := True\<rparr>) s) else s)"

lemma taken_ok:
  assumes s: "service c s qs L" and m: "mi_is_inited (na_mod_info s m)" and ne: "qs m \<noteq> []"
  shows "service c (taken m (last (qs m)) s) qs L" "mi_cur (na_mod_info (taken m (last (qs m)) s) m) = Some (last (qs m))"
proof -
  let ?p = "last (qs m)" and ?i = "na_mod_info s m"
  note q = serviceD(5) [OF s m]
  note Q = queue_repD [OF q]
  show "mi_cur (na_mod_info (taken m ?p s) m) = Some ?p"
    using Q(6) by (cases "mi_cur ?i") (auto simp: taken_def upd_mod_def)
  show "service c (taken m ?p s) qs L"
  proof (cases "mi_cur ?i")
    case (Some r)
    then show ?thesis using s by (simp add: taken_def)
  next
    case None
    define nd where "nd = (na_opera s)(?p := (na_opera s ?p)\<lparr>oi_lock := True\<rparr>)"
    define s' where "s' = taken m ?p s"
    have st: "na_opera s' = nd" "na_mod_info s' = (na_mod_info s)(m := ?i\<lparr>mi_cur := Some ?p\<rparr>)" "na_flash s' = na_flash s"
      "na_data s' = na_data s" "na_is_inited s' = na_is_inited s" "na_cur_mod s' = na_cur_mod s"
      "na_opera_used s' = na_opera_used s" "na_data_used s' = na_data_used s"
      using None by (simp_all add: s'_def taken_def upd_mod_def upd_opera_def nd_def)
    have idle: "mi_state ?i = NORFLASH_API_STATE_IDLE" using q None unfolding queue_rep_def by simp
    have f: "oi_addr (nd r) = oi_addr (na_opera s r)" "writing (nd r) = writing (na_opera s r)"
      "op_effect D (nd r) = op_effect D (na_opera s r)" "op_ok D i (nd r) mm = op_ok D i (na_opera s r) mm" for r D i mm
      by (auto simp: nd_def op_effect_def op_ok_def fun_eq_iff)
    have pe: "pend D nd ps mm = pend D (na_opera s) ps mm" for D ps mm by (rule pend_cong) (simp add: f)
    have op_geom: "op_ok D (?i\<lparr>mi_cur := x\<rparr>) n mm = op_ok D ?i n mm" for D x n mm
      by (simp add: op_ok_def sector_in_def)
    have ops: "ops_ok D nd (?i\<lparr>mi_cur := Some ?p\<rparr>) ps mm = ops_ok D (na_opera s) ?i ps mm" for D ps mm
      by (induction ps) (simp_all add: f pe op_geom)
    have unl: "\<not> oi_lock (na_opera s r)" if "r \<in> set (qs m)" for r using Q(5) [OF that] None by simp
    have "service c s' (qs(m := qs m)) L"
    proof (rule service_change [OF s m])
      show "queue_rep (na_data s) (na_opera s') (na_mod_info s' m) (qs m) (goal s')"
        unfolding queue_rep_def st fun_upd_same
      proof (intro conjI)
        have "nxt nd = nxt (na_opera s)" by (auto simp: nxt_def nd_def)
        then show "lpath (nxt nd) (mi_opera (?i\<lparr>mi_cur := Some ?p\<rparr>)) (qs m)" using Q(1) by simp
        show "ops_ok (na_data s) nd (?i\<lparr>mi_cur := Some ?p\<rparr>) (qs m) (goal s)" using Q(4) ops by simp
        show "\<forall>r\<in>set (qs m). oi_lock (nd r) = (mi_cur (?i\<lparr>mi_cur := Some ?p\<rparr>) = Some r)"
          using unl by (auto simp: nd_def)
        show "\<forall>r\<in>set (qs m). \<forall>t\<in>set (qs m). \<not> oi_lock (nd r) \<and> \<not> oi_lock (nd t) \<and> \<not> writing (nd r) \<and> \<not> writing (nd t) \<and>
            oi_addr (nd r) = oi_addr (nd t) \<longrightarrow> r = t"
          using Q(7) unl by (simp add: f)
      qed (use Q ne idle in auto)
      show "pool_rep s' (qs(m := qs m))" unfolding fun_upd_triv
        by (rule pool_cong [OF serviceD(2) [OF s]]) (simp_all add: st f)
      have om: "other k \<Longrightarrow> r \<in> set (qs k) \<Longrightarrow> k \<noteq> m \<Longrightarrow> r \<noteq> ?p" for k r and other :: "nat \<Rightarrow> bool"
        using serviceD(2) [OF s] ne last_in_set [OF ne] unfolding pool_rep_def by blast
      then show "\<forall>k. k \<noteq> m \<longrightarrow> (\<forall>r\<in>set (qs k). na_opera s' r = na_opera s r)"
        unfolding st by (metis nd_def fun_upd_other)
      show "driver_rep c s'"
        by (rule driver_cong [OF serviceD(3) [OF s]]) (use idle f(1,2) in \<open>auto simp: st\<close>)
      show "\<forall>k. na_cur_mod s' = Some k \<longrightarrow> mi_is_inited (na_mod_info s k)"
        using serviceD(1) [OF s] by (simp add: st modules_ok_def)
      show "\<forall>x. in_range ?i x \<longrightarrow> L x = pend (na_data s) (na_opera s') (qs m) (goal s') x"
        using serviceD(6) [OF s m] by (simp add: st pe)
    qed (simp_all add: st geom_def)
    then show ?thesis by (simp add: s'_def)
  qed
qed

end
