(* ===== verification/Norflash_Step.thy ===== *)
theory Norflash_Step
  imports Norflash_Flush
begin

text \<open>
  One step of flushing: the oldest operation of a module is started or resumed, and ends or is suspended. The content the
  clients see stays as it is, and either the queue becomes shorter or an interrupt was served.
\<close>

section \<open>What the driver does\<close>

lemma flush_driver:
  assumes s: "service c s qs L" and m: "mi_is_inited (na_mod_info s m)" and idle: "others_idle m s"
    and cur: "mi_cur (na_mod_info s m) = Some p"
  shows "\<exists>ret fl. (if writing (na_opera s p) then flush_write c m p susp s else flush_erase c m p susp s) =
      flush_result m (if writing (na_opera s p) then NORFLASH_API_STATE_WRITTING_SUSPEND else NORFLASH_API_STATE_ERASE_SUSPEND) (ret, fl) s \<and>
    flash_ends c (na_data s) (if writing (na_opera s p) then SUSPEND_STATE_PROGRAM else SUSPEND_STATE_ERASE) susp
      (flash_offset (oi_addr (na_opera s p))) (flash_offset (oi_addr (na_opera s p)) + 4096)
      (op_effect (na_data s) (na_opera s p) (goal s)) (na_flash s) ret fl"
proof -
  let ?n = "na_opera s p" and ?D = "na_data s"
  let ?a = "flash_offset (oi_addr ?n)"
  note M = modules_okD [OF serviceD(1) [OF s]]
  note q = serviceD(5) [OF s m]
  note Q = queue_repD [OF q]
  have p: "p \<in> set (qs m)" using Q(6) [OF cur] by blast
  obtain m' where ok: "op_ok ?D (na_mod_info s m) ?n m'" using ops_ok_member [OF Q(4) p] by blast
  have sec: "sector_in (na_mod_info s m) (oi_addr ?n)" and len: "oi_len ?n = 4096" using ok by (auto simp: op_ok_def)
  note O = sector_offset [OF M(1) M(4) [OF m] sec]
  show ?thesis
  proof (cases "mi_state (na_mod_info s m) = NORFLASH_API_STATE_IDLE")
    case st: True
    have fl: "suspend_state (na_flash s) = SUSPEND_STATE_NONE" "fl_busy (na_flash s) = None"
      using driver_idle [OF serviceD(3) [OF s] idle st] by blast+
    have g: "goal s = fl_mem (na_flash s)" using flash_goal_idle [OF fl(1)] .
    show ?thesis
    proof (cases "writing ?n")
      case True
      have n: "oi_buff ?n = Some 0" "0 < unat (oi_w_len ?n)" "unat (oi_w_offs ?n) + unat (oi_w_len ?n) \<le> 4096"
        using ok True by (auto simp: op_ok_def)
      have off: "flash_offset (oi_addr ?n + oi_w_offs ?n) = ?a + unat (oi_w_offs ?n)"
        using O(4) n chip_okD(6) [OF M(1)] by (intro flash_offset_add) simp
      let ?ptr = "Data_Buf 0 (unat (oi_w_offs ?n))"
      have "unat (oi_w_len ?n) \<le> ptr_len ?ptr" "flash_offset (oi_addr ?n + oi_w_offs ?n) + unat (oi_w_len ?n) < unat (nc_total_size c)"
        using n O(4) off by simp_all
      from write_suspend_ok [OF M(1) fl this, of ?D susp] obtain ret f where
        f: "hal_norflash_write_suspend c ?D (oi_addr ?n + oi_w_offs ?n) ?ptr (oi_w_len ?n) susp (na_flash s) = Some (ret, f)"
          "flash_ends c ?D SUSPEND_STATE_PROGRAM susp (?a + unat (oi_w_offs ?n)) (?a + unat (oi_w_offs ?n) + unat (oi_w_len ?n))
            (op_effect ?D ?n (goal s)) (na_flash s) ret f"
        unfolding off using True n(1) g by (auto simp: op_effect_def)
      have "flash_ends c ?D SUSPEND_STATE_PROGRAM susp ?a (?a + 4096) (op_effect ?D ?n (goal s)) (na_flash s) ret f"
        by (rule flash_ends_mono [OF f(2)]) (use n O(4) in auto)
      moreover have "0 < oi_w_len ?n" using n(2) by (simp add: word_less_nat_alt)
      ultimately show ?thesis using f(1) True st n(1) by (auto simp: flush_write_def Let_def)
    next
      case False
      have e: "sectors_lo ?a = ?a" "sectors_hi ?a (unat (4096 :: u32)) = ?a + 4096"
        using sectors_aligned [OF O(1), of 4096] by simp_all
      have "sectors_hi ?a (unat (4096 :: u32)) < unat (nc_total_size c)" using O(4) e by simp
      from erase_suspend_ok [OF M(1) fl this, of susp ?D] obtain ret f where
        f: "hal_norflash_erase_suspend c (oi_addr ?n) 4096 susp (na_flash s) = Some (ret, f)"
          "flash_ends c ?D SUSPEND_STATE_ERASE susp ?a (?a + 4096) (op_effect ?D ?n (goal s)) (na_flash s) ret f"
        unfolding e using False g by (auto simp: op_effect_def)
      then show ?thesis using False st len by (auto simp: flush_erase_def Let_def)
    qed
  next
    case st: False
    obtain r where r: "mi_cur (na_mod_info s m) = Some r" "suspend_state (na_flash s) =
        (if writing (na_opera s r) then SUSPEND_STATE_PROGRAM else SUSPEND_STATE_ERASE)"
      "flash_ok c (flash_offset (oi_addr (na_opera s r))) (flash_offset (oi_addr (na_opera s r)) + 4096) (na_flash s)"
      using driver_busy [OF serviceD(3) [OF s] idle m st] by blast
    have rp: "r = p" using r(1) cur by simp
    have susp: "mi_state (na_mod_info s m) = (if writing ?n then NORFLASH_API_STATE_WRITTING_SUSPEND else NORFLASH_API_STATE_ERASE_SUSPEND)"
      "op_effect ?D ?n (goal s) = goal s"
      using q st cur unfolding queue_rep_def by auto
    show ?thesis
    proof (cases "writing ?n")
      case True
      then have "suspend_state (na_flash s) = SUSPEND_STATE_PROGRAM" using r(2) rp by simp
      then obtain ret f where f: "hal_norflash_write_resume c ?D susp (na_flash s) = Some (ret, f)"
        "flash_ends c ?D SUSPEND_STATE_PROGRAM susp ?a (?a + 4096) (goal s) (na_flash s) ret f"
        using write_resume_ok [OF M(1) r(3), of ?D susp] unfolding rp by blast
      show ?thesis
        by (intro exI [of _ ret] exI [of _ f]) (use True susp f in \<open>simp add: flush_write_def Let_def\<close>)
    next
      case False
      then have "suspend_state (na_flash s) = SUSPEND_STATE_ERASE" using r(2) rp by simp
      then obtain ret f where f: "hal_norflash_erase_resume c susp (na_flash s) = Some (ret, f)"
        "flash_ends c ?D SUSPEND_STATE_ERASE susp ?a (?a + 4096) (goal s) (na_flash s) ret f"
        using erase_resume_ok [OF M(1) r(3), of susp ?D] unfolding rp by blast
      show ?thesis
        by (intro exI [of _ ret] exI [of _ f]) (use False susp f in \<open>simp add: flush_erase_def Let_def\<close>)
    qed
  qed
qed

section \<open>Afterwards\<close>

lemma goal_catch_up:
  assumes s: "service c s qs L" and m: "mi_is_inited (na_mod_info s m)" and p: "p \<in> set (qs m)"
    and x: "\<not> in_range (na_mod_info s m) x"
  shows "op_effect (na_data s) (na_opera s p) (goal s) x = goal s x"
proof -
  note M = modules_okD [OF serviceD(1) [OF s]]
  obtain m' where ok: "op_ok (na_data s) (na_mod_info s m) (na_opera s p) m'"
    using ops_ok_member [OF queue_repD(4) [OF serviceD(5) [OF s m]] p] by blast
  then have "\<not> in_sector (oi_addr (na_opera s p)) x"
    using in_sector_range [OF M(1) M(4) [OF m]] x by (auto simp: op_ok_def)
  then show ?thesis using op_effect_outside [OF ok] by simp
qed

lemma suspended_ok:
  assumes s: "service c s qs L" and m: "mi_is_inited (na_mod_info s m)" and idle: "others_idle m s"
    and cur: "mi_cur (na_mod_info s m) = Some p" "na_cur_mod s = Some m"
    and fl: "flash_ok c (flash_offset (oi_addr (na_opera s p))) (flash_offset (oi_addr (na_opera s p)) + 4096) fl"
      "flash_goal (na_data s) fl = op_effect (na_data s) (na_opera s p) (goal s)"
      "suspend_state fl = (if writing (na_opera s p) then SUSPEND_STATE_PROGRAM else SUSPEND_STATE_ERASE)"
    and s': "s' = upd_mod m (\<lambda>i. i\<lparr>mi_state := if writing (na_opera s p) then NORFLASH_API_STATE_WRITTING_SUSPEND
        else NORFLASH_API_STATE_ERASE_SUSPEND\<rparr>) (s\<lparr>na_flash := fl\<rparr>)"
  shows "service c s' qs L"
proof -
  let ?i = "na_mod_info s m" and ?n = "na_opera s p"
  let ?st = "if writing ?n then NORFLASH_API_STATE_WRITTING_SUSPEND else NORFLASH_API_STATE_ERASE_SUSPEND"
  note q = serviceD(5) [OF s m]
  note Q = queue_repD [OF q]
  have p: "qs m \<noteq> []" "last (qs m) = p" "p \<in> set (qs m)" using Q(6) [OF cur(1)] by auto
  have st: "na_opera s' = na_opera s" "na_mod_info s' = (na_mod_info s)(m := ?i\<lparr>mi_state := ?st\<rparr>)" "na_flash s' = fl"
    "na_data s' = na_data s" "na_is_inited s' = na_is_inited s" "na_cur_mod s' = na_cur_mod s"
    "na_opera_used s' = na_opera_used s" "na_data_used s' = na_data_used s"
    by (simp_all add: s' upd_mod_def)
  note cu = queue_catch_up [OF Q(4) p(1), unfolded p(2)]
  have op_geom: "op_ok D (?i\<lparr>mi_state := x\<rparr>) n mm = op_ok D ?i n mm" for D x n mm by (simp add: op_ok_def sector_in_def)
  have ops: "ops_ok D nd (?i\<lparr>mi_state := x\<rparr>) ps mm = ops_ok D nd ?i ps mm" for D nd x ps mm
    by (induction ps) (simp_all add: op_geom)
  have "service c s' (qs(m := qs m)) L"
  proof (rule service_change [OF s m])
    show "queue_rep (na_data s) (na_opera s') (na_mod_info s' m) (qs m) (goal s')"
      unfolding queue_rep_def st fl(2) fun_upd_same ops
    proof (intro conjI)
      show "mi_state (?i\<lparr>mi_state := ?st\<rparr>) = NORFLASH_API_STATE_IDLE \<or>
        (\<exists>r. mi_cur (?i\<lparr>mi_state := ?st\<rparr>) = Some r \<and> op_effect (na_data s) (na_opera s r) (op_effect (na_data s) ?n (goal s)) =
          op_effect (na_data s) ?n (goal s) \<and> mi_state (?i\<lparr>mi_state := ?st\<rparr>) =
          (if writing (na_opera s r) then NORFLASH_API_STATE_WRITTING_SUSPEND else NORFLASH_API_STATE_ERASE_SUSPEND))"
        using cur(1) op_effect_idem by simp
      show "\<forall>r\<in>set (qs m). \<forall>t\<in>set (qs m). \<not> oi_lock (na_opera s r) \<and> \<not> oi_lock (na_opera s t) \<and>
          \<not> writing (na_opera s r) \<and> \<not> writing (na_opera s t) \<and> oi_addr (na_opera s r) = oi_addr (na_opera s t) \<longrightarrow> r = t"
        using Q(7) by blast
    qed (use Q cu(1) in auto)
    show "driver_rep c s'"
    proof -
      have "mi_state (na_mod_info s k) = NORFLASH_API_STATE_IDLE" if "mi_is_inited (na_mod_info s k)" "k \<noteq> m" for k
        using idle that unfolding others_idle_def by blast
      then have "na_cur_mod s' = Some m \<and> mi_is_inited (na_mod_info s' m) \<and> mi_cur (na_mod_info s' m) = Some p \<and>
         mi_state (na_mod_info s' m) \<noteq> NORFLASH_API_STATE_IDLE \<and> (suspend_state fl = SUSPEND_STATE_PROGRAM \<longleftrightarrow> writing (na_opera s' p)) \<and>
         (\<forall>m'. mi_is_inited (na_mod_info s' m') \<and> m' \<noteq> m \<longrightarrow> mi_state (na_mod_info s' m') = NORFLASH_API_STATE_IDLE) \<and>
         flash_ok c (flash_offset (oi_addr (na_opera s' p))) (flash_offset (oi_addr (na_opera s' p)) + 4096) (na_flash s')"
        using cur m fl(1,3) by (auto simp: st)
      then show ?thesis using fl(3) unfolding driver_rep_def st(3) by (cases "writing ?n") (auto simp: st(3))
    qed
    show "pool_rep s' (qs(m := qs m))" unfolding fun_upd_triv
      by (rule pool_cong [OF serviceD(2) [OF s]]) (simp_all add: st)
    show "\<forall>x. in_range ?i x \<longrightarrow> L x = pend (na_data s) (na_opera s') (qs m) (goal s') x"
      using serviceD(6) [OF s m] cu(2) by (simp add: st fl(2))
    show "\<forall>x. \<not> in_range ?i x \<longrightarrow> goal s' x = goal s x" using goal_catch_up [OF s m p(3)] by (simp add: st fl(2))
    show "goal s' = goal s \<or> (\<forall>k. mi_is_inited (na_mod_info s k) \<and> k \<noteq> m \<longrightarrow> mi_state (na_mod_info s k) = NORFLASH_API_STATE_IDLE)"
      using idle by (simp add: others_idle_def)
    show "\<forall>k. na_cur_mod s' = Some k \<longrightarrow> mi_is_inited (na_mod_info s k)" using m cur(2) by (simp add: st)
  qed (simp_all add: st geom_def)
  then show ?thesis by simp
qed

lemma completed_ok:
  assumes s: "service c s qs L" and m: "mi_is_inited (na_mod_info s m)" and idle: "others_idle m s"
    and cur: "mi_cur (na_mod_info s m) = Some p"
    and fl: "fl_busy fl = None" "suspend_state fl = SUSPEND_STATE_NONE"
      "flash_goal (na_data s) fl = op_effect (na_data s) (na_opera s p) (goal s)"
    and s1: "s1 = upd_mod m (\<lambda>i. i\<lparr>mi_state := NORFLASH_API_STATE_IDLE\<rparr>) (s\<lparr>na_flash := fl, na_done := dn\<rparr>)"
  shows "\<exists>s2. opera_del m p s1 = Some s2 \<and> service c (upd_mod m (\<lambda>i. i\<lparr>mi_cur := None\<rparr>) s2) (qs(m := butlast (qs m))) L \<and>
    dropped m {p} s1 s2"
proof -
  let ?i = "na_mod_info s m" and ?n = "na_opera s p"
  note q = serviceD(5) [OF s m]
  note Q = queue_repD [OF q]
  have p: "qs m \<noteq> []" "last (qs m) = p" "p \<in> set (qs m)" using Q(6) [OF cur] by auto
  define xs where "xs = butlast (qs m)"
  have qm: "qs m = xs @ [p]" using append_butlast_last_id [OF p(1)] p(2) by (simp add: xs_def)
  note cu = queue_catch_up [OF Q(4) p(1), unfolded p(2) xs_def [symmetric]]
  have st: "na_opera s1 = na_opera s" "na_mod_info s1 = (na_mod_info s)(m := ?i\<lparr>mi_state := NORFLASH_API_STATE_IDLE\<rparr>)" "na_flash s1 = fl"
    "na_data s1 = na_data s" "na_is_inited s1 = na_is_inited s" "na_cur_mod s1 = na_cur_mod s"
    "na_opera_used s1 = na_opera_used s" "na_data_used s1 = na_data_used s"
    by (simp_all add: s1 upd_mod_def)
  have b: "oi_buff ?n = (if writing ?n then Some 0 else None)"
    using ops_ok_member [OF Q(4) p(3)] by (auto simp: op_ok_def split: if_splits)
  have "\<exists>s2. opera_del m p s1 = Some s2 \<and> dropped m {p} s1 s2 \<and> (\<forall>q. q \<notin> set xs \<longrightarrow> na_opera s2 q = na_opera s1 q) \<and>
    lpath (nxt (na_opera s2)) (mi_opera (na_mod_info s2 m)) xs"
    by (rule opera_del_ok) (use Q(1,2,3) qm b p(3) in \<open>auto simp: st\<close>)
  then obtain s2 where s2: "opera_del m p s1 = Some s2" "dropped m {p} s1 s2" "\<forall>q. q \<notin> set xs \<longrightarrow> na_opera s2 q = na_opera s q"
    "lpath (nxt (na_opera s2)) (mi_opera (na_mod_info s2 m)) xs" by (auto simp: st)
  obtain h nd where d: "same_ops (na_opera s) nd" "na_opera s2 = nd" "na_mod_info s2 = (na_mod_info s)(m := ?i\<lparr>mi_state := NORFLASH_API_STATE_IDLE, mi_opera := h\<rparr>)"
     "na_flash s2 = fl" "na_data s2 = na_data s" "na_is_inited s2 = na_is_inited s" "na_cur_mod s2 = na_cur_mod s"
    using s2(2) by (auto simp: dropped_def st)
  define s3 where "s3 = upd_mod m (\<lambda>i. i\<lparr>mi_cur := None\<rparr>) s2"
  define i3 where "i3 = ?i\<lparr>mi_state := NORFLASH_API_STATE_IDLE, mi_opera := h, mi_cur := None\<rparr>"
  have st3: "na_opera s3 = nd" "na_mod_info s3 = (na_mod_info s)(m := i3)" "na_flash s3 = fl" "na_data s3 = na_data s"
    "na_is_inited s3 = na_is_inited s" "na_cur_mod s3 = na_cur_mod s"
    by (simp_all add: s3_def upd_mod_def d i3_def)
  have path: "lpath (nxt nd) (mi_opera i3) xs" using s2(4) by (simp add: d i3_def)
  note f = same_opsD [OF d(1)] op_effect_same [OF d(1)] pend_same [OF d(1)]
  have op_geom: "op_ok D i3 n mm = op_ok D ?i n mm" for D n mm by (simp add: op_ok_def sector_in_def i3_def)
  have ops: "ops_ok D (na_opera s) i3 ps mm = ops_ok D (na_opera s) ?i ps mm" for D ps mm
    by (induction ps) (simp_all add: op_geom)
  have unl: "\<not> oi_lock (na_opera s r)" if "r \<in> set xs" for r
    using Q(2) Q(5) [of r] that cur unfolding qm by auto
  have "service c s3 (qs(m := xs)) L"
  proof (rule service_change [OF s m])
    show "queue_rep (na_data s) (na_opera s3) (na_mod_info s3 m) xs (goal s3)"
      unfolding queue_rep_def st3 fl(3) fun_upd_same
    proof (intro conjI)
      show "ops_ok (na_data s) nd i3 xs (op_effect (na_data s) ?n (goal s))"
        using cu(3) unfolding ops_ok_same [OF d(1)] ops .
      show "\<forall>r\<in>set xs. oi_lock (nd r) = (mi_cur i3 = Some r)" using unl by (simp add: f i3_def)
      show "\<forall>r\<in>set xs. \<forall>t\<in>set xs. \<not> oi_lock (nd r) \<and> \<not> oi_lock (nd t) \<and>
          \<not> writing (nd r) \<and> \<not> writing (nd t) \<and> oi_addr (nd r) = oi_addr (nd t) \<longrightarrow> r = t"
        using Q(7) unfolding qm f by simp
    qed (use path Q(2,3) qm in \<open>auto simp: i3_def\<close>)
    show "driver_rep c s3" using idle fl(1,2) by (auto simp: driver_rep_def st3 others_idle_def i3_def)
    have "pool_rep s1 qs" by (rule pool_cong [OF serviceD(2) [OF s]]) (simp_all add: st)
    then have "pool_rep s2 (qs(m := xs))" by (rule pool_drop [OF _ s2(2)]) (use Q(2) qm in auto)
    then show "pool_rep s3 (qs(m := xs))" by (rule pool_cong) (simp_all add: s3_def upd_mod_def)
    show "\<forall>x. in_range ?i x \<longrightarrow> L x = pend (na_data s) (na_opera s3) xs (goal s3) x"
      using serviceD(6) [OF s m] cu(4) by (simp add: st3 fl(3) f)
    show "\<forall>x. \<not> in_range ?i x \<longrightarrow> goal s3 x = goal s x" using goal_catch_up [OF s m p(3)] by (simp add: st3 fl(3))
    show "goal s3 = goal s \<or> (\<forall>k. mi_is_inited (na_mod_info s k) \<and> k \<noteq> m \<longrightarrow> mi_state (na_mod_info s k) = NORFLASH_API_STATE_IDLE)"
      using idle by (simp add: others_idle_def)
    show "\<forall>k. na_cur_mod s3 = Some k \<longrightarrow> mi_is_inited (na_mod_info s k)"
      using serviceD(1) [OF s] by (simp add: st3 modules_ok_def)
    show "\<forall>k. k \<noteq> m \<longrightarrow> (\<forall>r\<in>set (qs k). na_opera s3 r = na_opera s r)"
    proof (intro allI impI ballI)
      fix k r assume "k \<noteq> m" "r \<in> set (qs k)"
      then have "r \<notin> set (qs m)" using serviceD(2) [OF s] unfolding pool_rep_def by blast
      then show "na_opera s3 r = na_opera s r" using s2(3) qm by (simp add: st3 d(2))
    qed
  qed (simp_all add: st3 geom_def i3_def)
  then show ?thesis using s2(1,2) unfolding s3_def xs_def by blast
qed

end
