(* ===== verification/Norflash_Drain.thy ===== *)
theory Norflash_Drain
  imports Norflash_Step
begin

text \<open>
  One call of the function that carries out the oldest operation of a module, whole: which state it leaves, and what it
  makes smaller.
\<close>

definition irqs :: "norflash_api \<Rightarrow> nat" where
  "irqs s = length (fl_irqs (na_flash s))"

definition same_control :: "norflash_api \<Rightarrow> norflash_api \<Rightarrow> bool" where
  "same_control s s' \<longleftrightarrow> na_cur_mod s' = na_cur_mod s \<and> na_cur_mod_id s' = na_cur_mod_id s \<and> na_allow s' = na_allow s \<and>
     na_allowed_cb s' = na_allowed_cb s \<and> na_is_inited s' = na_is_inited s"

definition flushed :: "norflash_ctx \<Rightarrow> nat \<Rightarrow> bool \<Rightarrow> norflash_api \<Rightarrow> (nat \<Rightarrow> nat list) \<Rightarrow> norflash_api \<Rightarrow> (nat \<Rightarrow> nat list)
    \<Rightarrow> (nat \<Rightarrow> u8) \<Rightarrow> bool" where
  "flushed c m nosuspend s qs s' qs' L \<longleftrightarrow> service c s' qs' L \<and> keeps_modules s s' \<and> others_idle m s' \<and> same_control s s' \<and>
     irqs s' \<le> irqs s \<and> only_adds m {} s qs s' qs' \<and>
     (qs' = qs(m := butlast (qs m)) \<and> mi_state (na_mod_info s' m) = NORFLASH_API_STATE_IDLE \<or>
      \<not> nosuspend \<and> qs' = qs \<and> irqs s' < irqs s)"

lemma keeps_modules_refl [simp]: "keeps_modules s s"
  by (simp add: keeps_modules_def)

lemma keeps_modules_trans: "keeps_modules s s' \<Longrightarrow> keeps_modules s' s'' \<Longrightarrow> keeps_modules s s''"
  by (simp add: keeps_modules_def)

lemma keeps_modulesD:
  assumes "keeps_modules s s'"
  shows "mi_is_inited (na_mod_info s' k) = mi_is_inited (na_mod_info s k)" "in_range (na_mod_info s' k) x = in_range (na_mod_info s k) x"
    "sector_in (na_mod_info s' k) a = sector_in (na_mod_info s k) a"
  using assms geomD [of "na_mod_info s' k" "na_mod_info s k"] by (simp_all add: keeps_modules_def)

lemma flush_notify_ok:
  assumes "lpath (nxt (na_opera s)) (mi_opera (na_mod_info s m)) ns"
  shows "\<exists>dn. flush_notify m p nosuspend s = Some (s\<lparr>na_done := dn\<rparr>)"
proof -
  have same: "s\<lparr>na_done := na_done s\<rparr> = s" by simp
  obtain k where k: "get_ew_count m s = Some k" using count_path [OF assms] by (auto simp: get_ew_count_def)
  let ?n = "na_opera s p"
  show ?thesis
  proof (cases "\<not> nosuspend \<and> mi_cb_func (na_mod_info s m) \<noteq> 0 \<and> (0 < oi_w_len ?n \<and> oi_type ?n = NORFLASH_API_WRITTING \<or>
      0 < oi_len ?n \<and> oi_type ?n = NORFLASH_API_ERASING)")
    case True
    obtain a n where an: "(if oi_type ?n = NORFLASH_API_WRITTING then (oi_addr ?n + oi_w_offs ?n, oi_w_len ?n)
        else (oi_addr ?n, oi_len ?n)) = (a, n)" by (cases "oi_type ?n = NORFLASH_API_WRITTING") auto
    show ?thesis unfolding flush_notify_def Let_def if_P [OF True] k an by (rule exI) simp
  next
    case False
    show ?thesis unfolding flush_notify_def Let_def if_not_P [OF False] by (rule exI [of _ "na_done s"]) (simp add: same)
  qed
qed

lemma opera_flush_empty:
  assumes s: "service c s qs L" and m: "mi_is_inited (na_mod_info s m)" and e: "qs m = []"
  shows "opera_flush c m nosuspend s = Some (False, s)" "mi_state (na_mod_info s m) = NORFLASH_API_STATE_IDLE"
proof -
  note q = serviceD(5) [OF s m]
  note Q = queue_repD [OF q]
  have cur: "mi_cur (na_mod_info s m) = None" using Q(6) e by (cases "mi_cur (na_mod_info s m)") auto
  show "mi_state (na_mod_info s m) = NORFLASH_API_STATE_IDLE" using q cur unfolding queue_rep_def by simp
  have "upd_mod m (\<lambda>i. i\<lparr>mi_cur := None\<rparr>) s = s" using cur by (cases s; simp add: upd_mod_def fun_upd_idem)
  then show "opera_flush c m nosuspend s = Some (False, s)"
    using get_tail_ok [OF Q(1)] e cur by (simp add: opera_flush_def)
qed

lemma opera_flush_take:
  assumes s: "service c s qs L" and m: "mi_is_inited (na_mod_info s m)" and ne: "qs m \<noteq> []"
  shows "opera_flush c m nosuspend s = do {
    let p = last (qs m); let s = taken m p s;
    (opera_is_completed, s) \<leftarrow> (if writing (na_opera s p) then flush_write c m p (\<not> nosuspend) s
      else flush_erase c m p (\<not> nosuspend) s);
    if opera_is_completed then do {
      s \<leftarrow> flush_notify m p nosuspend (upd_mod m (\<lambda>i. i\<lparr>mi_state := NORFLASH_API_STATE_IDLE\<rparr>) s);
      s \<leftarrow> opera_del m p s;
      Some (True, upd_mod m (\<lambda>i. i\<lparr>mi_cur := None\<rparr>) s) }
    else Some (True, s) }"
proof -
  let ?p = "last (qs m)"
  note Q = queue_repD [OF serviceD(5) [OF s m]]
  note cur = taken_ok(2) [OF s m ne]
  have "(if mi_cur (na_mod_info s m) = None then do {
            (tail, s) \<leftarrow> get_tail m False s;
            Some (upd_mod m (\<lambda>i. i\<lparr>mi_cur := tail\<rparr>) s) }
          else Some s) = Some (taken m ?p s)"
    using get_tail_ok [OF Q(1)] ne by (auto simp: taken_def)
  then show ?thesis unfolding opera_flush_def Let_def by (simp add: cur)
qed

lemma flush_completed:
  assumes s: "service c s qs L" and m: "mi_is_inited (na_mod_info s m)" and idle: "others_idle m s"
    and cur: "mi_cur (na_mod_info s m) = Some p"
    and fl: "fl_busy fl = None" "suspend_state fl = SUSPEND_STATE_NONE" "length (fl_irqs fl) \<le> irqs s"
      "flash_goal (na_data s) fl = op_effect (na_data s) (na_opera s p) (goal s)"
  shows "\<exists>s'. do {
      s \<leftarrow> flush_notify m p nosuspend (upd_mod m (\<lambda>i. i\<lparr>mi_state := NORFLASH_API_STATE_IDLE\<rparr>) (s\<lparr>na_flash := fl\<rparr>));
      s \<leftarrow> opera_del m p s;
      Some (True, upd_mod m (\<lambda>i. i\<lparr>mi_cur := None\<rparr>) s) } = Some (True, s') \<and>
    flushed c m nosuspend s qs s' (qs(m := butlast (qs m))) L"
proof -
  let ?s1 = "upd_mod m (\<lambda>i. i\<lparr>mi_state := NORFLASH_API_STATE_IDLE\<rparr>) (s\<lparr>na_flash := fl\<rparr>)"
  have "lpath (nxt (na_opera ?s1)) (mi_opera (na_mod_info ?s1 m)) (qs m)"
    using queue_repD(1) [OF serviceD(5) [OF s m]] by (simp add: upd_mod_def)
  from flush_notify_ok [OF this] obtain dn where dn: "flush_notify m p nosuspend ?s1 = Some (?s1\<lparr>na_done := dn\<rparr>)" by blast
  define s1 where "s1 = ?s1\<lparr>na_done := dn\<rparr>"
  have s1: "s1 = upd_mod m (\<lambda>i. i\<lparr>mi_state := NORFLASH_API_STATE_IDLE\<rparr>) (s\<lparr>na_flash := fl, na_done := dn\<rparr>)"
    by (simp add: s1_def upd_mod_def)
  from completed_ok [OF s m idle cur fl(1,2,4) s1] obtain s2 where
    s2: "opera_del m p s1 = Some s2" "service c (upd_mod m (\<lambda>i. i\<lparr>mi_cur := None\<rparr>) s2) (qs(m := butlast (qs m))) L"
      "dropped m {p} s1 s2" by blast
  have "others_idle m (upd_mod m (\<lambda>i. i\<lparr>mi_cur := None\<rparr>) s2)" "keeps_modules s (upd_mod m (\<lambda>i. i\<lparr>mi_cur := None\<rparr>) s2)"
    "same_control s (upd_mod m (\<lambda>i. i\<lparr>mi_cur := None\<rparr>) s2)" "irqs (upd_mod m (\<lambda>i. i\<lparr>mi_cur := None\<rparr>) s2) \<le> irqs s"
    "mi_state (na_mod_info (upd_mod m (\<lambda>i. i\<lparr>mi_cur := None\<rparr>) s2) m) = NORFLASH_API_STATE_IDLE"
    using s2(3) idle fl(3) by (auto simp: dropped_def s1 upd_mod_def others_idle_def keeps_modules_def geom_def
      same_control_def irqs_def)
  moreover have "only_adds m {} s qs (upd_mod m (\<lambda>i. i\<lparr>mi_cur := None\<rparr>) s2) (qs(m := butlast (qs m)))"
  proof -
    have same: "same_ops (na_opera s) (na_opera s2)" using s2(3) by (auto simp: dropped_def s1 upd_mod_def)
    show ?thesis by (rule only_addsI) (auto simp: upd_mod_def same_opsD [OF same] dest: in_set_butlastD split: if_splits)
  qed
  ultimately show ?thesis using dn s2(1,2) by (simp add: flushed_def s1_def)
qed

lemma opera_flush_ok:
  assumes s: "service c s qs L" and m: "mi_is_inited (na_mod_info s m)" and idle: "others_idle m s"
    and cur: "nosuspend \<or> na_cur_mod s = Some m"
  shows "\<exists>s' qs'. opera_flush c m nosuspend s = Some (qs m \<noteq> [], s') \<and> flushed c m nosuspend s qs s' qs' L"
proof (cases "qs m = []")
  case True
  note e = opera_flush_empty [OF s m True]
  have "flushed c m nosuspend s qs s qs L" using e(2) s idle True
    by (simp add: flushed_def same_control_def fun_upd_idem)
  then show ?thesis using e(1) [of nosuspend] True by (intro exI [of _ s] exI [of _ qs]) simp
next
  case ne: False
  define p where "p = last (qs m)"
  define s1 where "s1 = taken m p s"
  have km: "keeps_modules s s1" by (simp add: s1_def taken_def keeps_modules_def geom_def upd_mod_def upd_opera_def)
  have sc: "same_control s s1" "irqs s1 = irqs s"
    by (simp_all add: s1_def taken_def same_control_def irqs_def upd_mod_def upd_opera_def)
  note t = taken_ok [OF s m ne, folded p_def, folded s1_def]
  have m1: "mi_is_inited (na_mod_info s1 m)" using m keeps_modulesD(1) [OF km] by simp
  have idle1: "others_idle m s1" using idle by (simp add: others_idle_def s1_def taken_def upd_mod_def upd_opera_def)
  let ?st = "if writing (na_opera s1 p) then NORFLASH_API_STATE_WRITTING_SUSPEND else NORFLASH_API_STATE_ERASE_SUSPEND"
  obtain ret fl where r: "(if writing (na_opera s1 p) then flush_write c m p (\<not> nosuspend) s1 else flush_erase c m p (\<not> nosuspend) s1) =
      flush_result m ?st (ret, fl) s1"
    "flash_ends c (na_data s1) (if writing (na_opera s1 p) then SUSPEND_STATE_PROGRAM else SUSPEND_STATE_ERASE) (\<not> nosuspend)
      (flash_offset (oi_addr (na_opera s1 p))) (flash_offset (oi_addr (na_opera s1 p)) + 4096)
      (op_effect (na_data s1) (na_opera s1 p) (goal s1)) (na_flash s1) ret fl"
    using flush_driver [OF t(1) m1 idle1 t(2), of "\<not> nosuspend"] by blast
  note op = opera_flush_take [where nosuspend = nosuspend, OF s m ne, folded p_def, unfolded Let_def, folded s1_def, unfolded r(1)]
  have adr: "oi_addr (na_opera s1 r) = oi_addr (na_opera s r)" for r by (simp add: s1_def taken_def upd_mod_def upd_opera_def)
  have oa: "only_adds m {} s qs s1 qs" by (rule only_addsI) (simp add: adr)
  have trans: "flushed c m nosuspend s qs s' qs' L" if "flushed c m nosuspend s1 qs s' qs' L" for s' qs'
    using that keeps_modules_trans [OF km] sc only_adds_trans [OF oa, of "{}" s' qs'] by (auto simp: flushed_def same_control_def)
  show ?thesis
  proof (cases "ret = HAL_NORFLASH_OK")
    case True
    then have fl: "fl_busy fl = None" "suspend_state fl = SUSPEND_STATE_NONE" "length (fl_irqs fl) \<le> irqs s1"
      "flash_goal (na_data s1) fl = op_effect (na_data s1) (na_opera s1 p) (goal s1)"
      using r(2) by (auto simp: flash_ends_def flash_ok_idle irqs_def)
    show ?thesis using flush_completed [OF t(1) m1 idle1 t(2) fl, of nosuspend] True trans ne
      by (auto simp: op flush_result_def Let_def)
  next
    case False
    then have fl: "ret = HAL_NORFLASH_SUSPENDED" "\<not> nosuspend" "length (fl_irqs fl) < irqs s1"
      "flash_ok c (flash_offset (oi_addr (na_opera s1 p))) (flash_offset (oi_addr (na_opera s1 p)) + 4096) fl"
      "flash_goal (na_data s1) fl = op_effect (na_data s1) (na_opera s1 p) (goal s1)"
      "suspend_state fl = (if writing (na_opera s1 p) then SUSPEND_STATE_PROGRAM else SUSPEND_STATE_ERASE)"
      using r(2) by (auto simp: flash_ends_def irqs_def)
    define s2 where "s2 = upd_mod m (\<lambda>i. i\<lparr>mi_state := ?st\<rparr>) (s1\<lparr>na_flash := fl\<rparr>)"
    have "na_cur_mod s1 = Some m" using cur fl(2) sc(1) by (simp add: same_control_def)
    from suspended_ok [OF t(1) m1 idle1 t(2) this fl(4,5,6) s2_def] have sv: "service c s2 qs L" .
    have "flushed c m nosuspend s1 qs s2 qs L"
      unfolding flushed_def
    proof (intro conjI disjI2)
      show "others_idle m s2" using idle1 by (simp add: s2_def others_idle_def upd_mod_def)
    qed (use fl sv in \<open>simp_all add: s2_def same_control_def irqs_def upd_mod_def keeps_modules_def geom_def only_adds_def op_addrs_def\<close>)
    moreover have "opera_flush c m nosuspend s = Some (True, s2)"
      using fl(1) by (simp add: op flush_result_def s2_def Let_def)
    ultimately show ?thesis using ne trans by auto
  qed
qed

end
