(* ===== verification/Norflash_Service.thy ===== *)
theory Norflash_Service
  imports Norflash_Drain
begin

text \<open>
  The operations of the service that carry out what is queued: one step of flushing, flushing everything, and the
  synchronous operations. Each comes back, and keeps the content that the clients see.
\<close>

section \<open>The module that is being flushed\<close>

lemma service_cur_mod:
  assumes s: "service c s qs L" and x: "\<And>k. x = Some k \<Longrightarrow> mi_is_inited (na_mod_info s k)"
    and idle: "suspend_state (na_flash s) = SUSPEND_STATE_NONE \<or> x = na_cur_mod s"
  shows "service c (s\<lparr>na_cur_mod := x\<rparr>) qs L"
proof -
  have "modules_ok c (s\<lparr>na_cur_mod := x\<rparr>)" using serviceD(1) [OF s] x by (simp add: modules_ok_def)
  moreover have "pool_rep (s\<lparr>na_cur_mod := x\<rparr>) qs" by (rule pool_cong [OF serviceD(2) [OF s]]) simp_all
  moreover have "driver_rep c (s\<lparr>na_cur_mod := x\<rparr>)" using idle
  proof
    assume "suspend_state (na_flash s) = SUSPEND_STATE_NONE"
    then show ?thesis using serviceD(3) [OF s] by (simp add: driver_rep_def)
  qed (use serviceD(3) [OF s] in simp)
  ultimately show ?thesis using s by (simp add: service_def)
qed

lemma current_others_idle:
  assumes "service c s qs L" "na_cur_mod s = None \<or> na_cur_mod s = Some m"
  shows "others_idle m s"
  using serviceD(3) [OF assms(1)] assms(2)
  by (cases "suspend_state (na_flash s)") (auto simp: driver_rep_def others_idle_def)

lemma no_current_idle:
  assumes "service c s qs L" "na_cur_mod s = None"
  shows "suspend_state (na_flash s) = SUSPEND_STATE_NONE"
  using serviceD(3) [OF assms(1)] assms(2) by (cases "suspend_state (na_flash s)") (auto simp: driver_rep_def)

lemma ew_count_ok:
  assumes "service c s qs L" "mi_is_inited (na_mod_info s m)"
  shows "get_ew_count m s = Some (of_nat (length (qs m)))" "(0 :: u32) < of_nat (length (qs m)) \<longleftrightarrow> qs m \<noteq> []" "length (qs m) \<le> 6"
proof -
  note Q = queue_repD [OF serviceD(5) [OF assms]]
  show "get_ew_count m s = Some (of_nat (length (qs m)))"
    using count_path [OF Q(1), of "\<lambda>_. True" 0] by (simp add: get_ew_count_def)
  have "length (qs m) = card (set (qs m))" using Q(2) by (simp add: distinct_card)
  also have "\<dots> \<le> card {..<6 :: nat}" using Q(3) by (intro card_mono) simp_all
  finally show l: "length (qs m) \<le> 6" by simp
  then have "unat (of_nat (length (qs m)) :: u32) = length (qs m)" by (simp add: unat_of_nat take_bit_nat_eq_self)
  then show "(0 :: u32) < of_nat (length (qs m)) \<longleftrightarrow> qs m \<noteq> []" by (simp add: word_less_nat_alt)
qed

lemma cur_mod_scan_ok:
  assumes s: "service c s qs L"
  shows "\<exists>r. cur_mod_scan i k s = Some r \<and> (\<forall>m. r = Some m \<longrightarrow> mi_is_inited (na_mod_info s m) \<and> qs m \<noteq> []) \<and>
    (r = None \<longrightarrow> (\<forall>j < i. qs (((if 12 \<le> k + 1 then 0 else k + 1) + j) mod 12) = []))"
proof (induction i arbitrary: k)
  case 0
  show ?case by simp
next
  case (Suc i)
  define f where "f = (if 12 \<le> k + 1 then 0 else k + 1)"
  have f: "f < 12" by (auto simp: f_def)
  have step: "cur_mod_scan (Suc i) k s = (if mi_is_inited (na_mod_info s f) \<and> qs f \<noteq> [] then Some (Some f) else cur_mod_scan i f s)"
    using ew_count_ok(1,2) [OF s, of f] by (auto simp: f_def Let_def)
  show ?case
  proof (cases "mi_is_inited (na_mod_info s f) \<and> qs f \<noteq> []")
    case True
    then show ?thesis unfolding step by simp
  next
    case False
    then have e: "qs f = []" using serviceD(4) [OF s] by blast
    obtain r where r: "cur_mod_scan i f s = Some r" "\<forall>m. r = Some m \<longrightarrow> mi_is_inited (na_mod_info s m) \<and> qs m \<noteq> []"
      "r = None \<longrightarrow> (\<forall>j < i. qs (((if 12 \<le> f + 1 then 0 else f + 1) + j) mod 12) = [])"
      using Suc.IH [of f] by blast
    have "qs ((f + j) mod 12) = []" if "r = None" "j < Suc i" for j
    proof (cases j)
      case 0
      then show ?thesis using f e by simp
    next
      case (Suc j')
      have "(f + j) mod 12 = ((if 12 \<le> f + 1 then 0 else f + 1) + j') mod 12"
      proof (cases "f = 11")
        case True
        then have "f + j = 12 + j'" using Suc by simp
        then show ?thesis using True by (simp only: mod_add_self1) simp
      qed (use f Suc in simp)
      then show ?thesis using r(3) that Suc by simp
    qed
    then show ?thesis using r(1,2) unfolding step if_not_P [OF False] f_def [symmetric] by blast
  qed
qed

lemma get_cur_mod_ok:
  assumes s: "service c s qs L"
  shows "\<exists>r. get_cur_mod s = Some r \<and> (\<forall>m. r = Some m \<longrightarrow> mi_is_inited (na_mod_info s m) \<and>
      (na_cur_mod s = None \<and> qs m \<noteq> [] \<or> na_cur_mod s = Some m)) \<and>
    (r = None \<longrightarrow> na_cur_mod s = None \<and> qs = (\<lambda>_. []))"
proof (cases "na_cur_mod s")
  case (Some m)
  then show ?thesis using serviceD(1) [OF s] by (auto simp: get_cur_mod_def modules_ok_def)
next
  case None
  define f where "f = (if 12 \<le> na_cur_mod_id s + 1 then 0 else na_cur_mod_id s + 1)"
  obtain r where r: "cur_mod_scan 12 (na_cur_mod_id s) s = Some r" "\<forall>m. r = Some m \<longrightarrow> mi_is_inited (na_mod_info s m) \<and> qs m \<noteq> []"
    "r = None \<longrightarrow> (\<forall>j < 12. qs ((f + j) mod 12) = [])"
    using cur_mod_scan_ok [OF s, of 12 "na_cur_mod_id s"] unfolding f_def by blast
  have "qs m = []" if "r = None" for m
  proof (cases "m < 12")
    case True
    have "f < 12" by (auto simp: f_def)
    then have "(f + (m + 12 - f) mod 12) mod 12 = m" using True by (simp add: mod_add_right_eq)
    moreover have "(m + 12 - f) mod 12 < 12" by simp
    ultimately show ?thesis using r(3) that by metis
  next
    case False
    then have "\<not> mi_is_inited (na_mod_info s m)" using modules_okD(3) [OF serviceD(1) [OF s]] by blast
    then show ?thesis using serviceD(4) [OF s] by blast
  qed
  then show ?thesis using r(1,2) None by (auto simp: get_cur_mod_def)
qed

section \<open>One step\<close>

definition work :: "(nat \<Rightarrow> nat list) \<Rightarrow> norflash_api \<Rightarrow> nat" where
  "work qs s = 2 * ((\<Sum>m < 12. length (qs m)) + irqs s) + (if na_cur_mod s = None then 0 else 1)"

lemma queued_shorter:
  assumes "qs m \<noteq> []" "m < 12"
  shows "(\<Sum>k < 12. length ((qs(m := butlast (qs m))) k)) < (\<Sum>k < (12 :: nat). length (qs k))"
proof (rule sum_strict_mono_ex1)
  show "\<exists>k \<in> {..<12}. length ((qs(m := butlast (qs m))) k) < length (qs k)"
    using assms by (intro bexI [of _ m]) auto
qed auto

lemma flush_is_allowed_same:
  assumes "flush_is_allowed s = (al, s')"
  shows "service c s' qs L = service c s qs L" "na_mod_info s' = na_mod_info s" "na_cur_mod s' = na_cur_mod s" "irqs s' = irqs s"
    "na_flash s' = na_flash s" "al \<Longrightarrow> na_allowed_cb s' = 0" "na_allowed_cb s = 0 \<Longrightarrow> al" "na_is_inited s' = na_is_inited s"
  using assms service_env by (auto simp: flush_is_allowed_def irqs_def split: if_splits list.splits bool.splits)

lemma api_flush_ok:
  assumes s: "service c s qs L"
  shows "\<exists>r s' qs'. norflash_api_flush c s = Some (r, s') \<and> service c s' qs' L \<and> keeps_modules s s' \<and>
    (\<forall>k. op_addrs s' (qs' k) \<subseteq> op_addrs s (qs k)) \<and>
    (r = 0 \<and> na_allowed_cb s \<noteq> 0 \<and> qs' = qs \<and> na_flash s' = na_flash s \<or>
     r = 0 \<and> na_allowed_cb s' = 0 \<and> qs = (\<lambda>_. []) \<and> qs' = (\<lambda>_. []) \<and> na_cur_mod s' = None \<or>
     r = 1 \<and> na_allowed_cb s' = 0 \<and> work qs' s' < work qs s)"
proof -
  obtain al s1 where al: "flush_is_allowed s = (al, s1)" by (cases "flush_is_allowed s")
  note A = flush_is_allowed_same [OF al]
  have s1: "service c s1 qs L" using A(1) s by simp
  have km: "keeps_modules s s1" by (simp add: keeps_modules_def A)
  have ini: "na_is_inited s" using modules_okD(2) [OF serviceD(1) [OF s]] .
  have w1: "work qs s1 = work qs s" by (simp add: work_def A)
  have ad: "op_addrs s1 = op_addrs s"
    using al by (auto simp: op_addrs_def fun_eq_iff flush_is_allowed_def split: if_splits list.splits bool.splits)
  show ?thesis
  proof (cases al)
    case False
    then have "na_allowed_cb s \<noteq> 0" using A(7) by blast
    then show ?thesis using False al ini s1 km A(5) ad
      by (intro exI [of _ 0] exI [of _ s1] exI [of _ qs]) (simp add: norflash_api_flush_def)
  next
    case al': True
    obtain r where r: "get_cur_mod s1 = Some r" "\<forall>m. r = Some m \<longrightarrow> mi_is_inited (na_mod_info s1 m) \<and>
        (na_cur_mod s1 = None \<and> qs m \<noteq> [] \<or> na_cur_mod s1 = Some m)"
      "r = None \<longrightarrow> na_cur_mod s1 = None \<and> qs = (\<lambda>_. [])" using get_cur_mod_ok [OF s1] by blast
    show ?thesis
    proof (cases r)
      case None
      then show ?thesis using al al' ini r s1 km A(6) ad
        by (intro exI [of _ 0] exI [of _ s1] exI [of _ qs]) (simp add: norflash_api_flush_def)
    next
      case (Some m)
      have m: "mi_is_inited (na_mod_info s1 m)" "na_cur_mod s1 = None \<and> qs m \<noteq> [] \<or> na_cur_mod s1 = Some m"
        using r(2) Some by auto
      define s2 where "s2 = s1\<lparr>na_cur_mod_id := m, na_cur_mod := Some m\<rparr>"
      have "suspend_state (na_flash s1) = SUSPEND_STATE_NONE \<or> Some m = na_cur_mod s1"
        using m(2) no_current_idle [OF s1] by auto
      then have "service c (s1\<lparr>na_cur_mod := Some m\<rparr>) qs L" using m(1) by (intro service_cur_mod [OF s1]) auto
      moreover have "s2 = (s1\<lparr>na_cur_mod := Some m\<rparr>)\<lparr>na_cur_mod_id := m\<rparr>" by (simp add: s2_def)
      ultimately have s2: "service c s2 qs L" by (simp only: service_env(4))
      have m2: "mi_is_inited (na_mod_info s2 m)" "na_cur_mod s2 = Some m" "irqs s2 = irqs s1" using m(1) by (simp_all add: s2_def irqs_def)
      have idle2: "others_idle m s2" using current_others_idle [OF s2] m2(2) by blast
      obtain s3 qs' where s3: "opera_flush c m False s2 = Some (qs m \<noteq> [], s3)" "flushed c m False s2 qs s3 qs' L"
        using opera_flush_ok [OF s2 m2(1) idle2, of False] m2(2) by blast
      have m12: "m < 12" using modules_okD(3) [OF serviceD(1) [OF s1] m(1)] .
      have km3: "keeps_modules s s3"
        using km s3(2) by (auto simp: flushed_def keeps_modules_def s2_def)
      have ad3: "op_addrs s3 (qs' k) \<subseteq> op_addrs s (qs k)" for k
        using s3(2) ad by (simp add: flushed_def only_adds_none) (simp add: s2_def op_addrs_def fun_eq_iff)
      have S3: "service c s3 qs' L" "na_cur_mod s3 = Some m" "na_allowed_cb s3 = 0" "irqs s3 \<le> irqs s1"
        using s3(2) A(6) al' m2 by (auto simp: flushed_def same_control_def s2_def)
      show ?thesis
      proof (cases "qs m = []")
        case True
        then have qs': "qs' = qs \<and> mi_state (na_mod_info s3 m) = NORFLASH_API_STATE_IDLE"
        proof -
          note e = opera_flush_empty [OF s2 m2(1) True]
          have "s3 = s2" using e(1) [of False] s3(1) by simp
          then show ?thesis using s3(2) e(2) True unfolding flushed_def by auto
        qed
        have "suspend_state (na_flash s3) = SUSPEND_STATE_NONE"
          using driver_idle [OF serviceD(3) [OF S3(1)] current_others_idle [OF S3(1)]] S3(2) qs' by blast
        then have "service c (s3\<lparr>na_cur_mod := None\<rparr>) qs L" using qs' by (intro service_cur_mod) (use S3(1) in auto)
        moreover have "work qs (s3\<lparr>na_cur_mod := None\<rparr>) < work qs s"
          using S3(4) m(2) True w1 [symmetric] by (auto simp: work_def irqs_def)
        ultimately show ?thesis using al al' ini r(1) Some s3(1) True S3(3) km3 ad3 qs'
          by (intro exI [of _ 1] exI [of _ "s3\<lparr>na_cur_mod := None\<rparr>"] exI [of _ qs])
            (simp add: norflash_api_flush_def s2_def keeps_modules_def op_addrs_def)
      next
        case False
        have "(\<Sum>k < 12. length (qs' k)) + irqs s3 < (\<Sum>k < 12. length (qs k)) + irqs s1"
        proof (cases "qs' = qs(m := butlast (qs m))")
          case True
          show ?thesis using queued_shorter [of qs m] False m12 S3(4) unfolding True by linarith
        next
          case neq: False
          then show ?thesis using s3(2) m2(3) unfolding flushed_def by simp
        qed
        then have "work qs' s3 < work qs s1" by (auto simp: work_def)
        then have "work qs' s3 < work qs s" using w1 by simp
        then show ?thesis using al al' ini r(1) Some s3(1) False S3 km3 ad3
          by (intro exI [of _ 1] exI [of _ s3] exI [of _ qs']) (simp add: norflash_api_flush_def s2_def)
      qed
    qed
  qed
qed

section \<open>Everything\<close>

lemma drained_content:
  assumes s: "service c s (\<lambda>_. []) L" and n: "na_cur_mod s = None" and m: "mi_is_inited (na_mod_info s m)" "in_range (na_mod_info s m) x"
  shows "fl_mem (na_flash s) x = L x"
  using serviceD(6) [OF s m] flash_goal_idle [OF no_current_idle [OF s n]] by simp

lemma flush_all_loop_ok:
  assumes "service c s qs L" "na_allowed_cb s = 0"
  shows "\<exists>s'. flush_all_loop c s = Some s' \<and> service c s' (\<lambda>_. []) L \<and> keeps_modules s s' \<and> na_cur_mod s' = None"
  using assms
proof (induction "work qs s" arbitrary: s qs rule: less_induct)
  case less
  obtain r s' qs' where r: "norflash_api_flush c s = Some (r, s')" "service c s' qs' L" "keeps_modules s s'"
    "r = 0 \<and> qs' = (\<lambda>_. []) \<and> na_cur_mod s' = None \<or> r = 1 \<and> na_allowed_cb s' = 0 \<and> work qs' s' < work qs s"
    using api_flush_ok [OF less.prems(1)] less.prems(2) by blast
  show ?case
  proof (cases "r = 1")
    case True
    then have "work qs' s' < work qs s" "na_allowed_cb s' = 0" using r(4) by auto
    from less.hyps [OF this(1) r(2) this(2)] show ?thesis
      using r(1) True keeps_modules_trans [OF r(3)] by (subst flush_all_loop.simps) auto
  next
    case False
    then show ?thesis using r by (subst flush_all_loop.simps) auto
  qed
qed

lemma flush_all_ok:
  assumes "service c s qs L"
  shows "\<exists>s'. norflash_api_flush_all c s = Some s' \<and> service c s' (\<lambda>_. []) L \<and> keeps_modules s s' \<and> na_cur_mod s' = None"
proof -
  have "na_is_inited s" using modules_okD(2) [OF serviceD(1) [OF assms]] .
  then have e: "norflash_api_flush_enable_all s = s\<lparr>na_allowed_cb := 0\<rparr>" by (simp add: norflash_api_flush_enable_all_def)
  have "service c (s\<lparr>na_allowed_cb := 0\<rparr>) qs L" using assms service_env(3) by simp
  from flush_all_loop_ok [OF this] show ?thesis by (simp add: norflash_api_flush_all_def e keeps_modules_def)
qed

section \<open>The synchronous operations\<close>

lemma finish_suspended_ok:
  assumes s: "service c s qs L" and m: "mi_is_inited (na_mod_info s k)" and cur: "na_cur_mod s = Some k" and cb: "na_allowed_cb s = 0"
  shows "\<exists>b' s' qs'. finish_suspended c k b s = Some (b', s') \<and> service c s' qs' L \<and> keeps_modules s s' \<and>
    suspend_state (na_flash s') = SUSPEND_STATE_NONE \<and> na_allowed_cb s' = 0"
proof -
  note idle = current_others_idle [OF s disjI2 [OF cur]]
  show ?thesis
  proof (cases "mi_state (na_mod_info s k) = NORFLASH_API_STATE_IDLE")
    case True
    then have "suspend_state (na_flash s) = SUSPEND_STATE_NONE" using driver_idle [OF serviceD(3) [OF s] idle] by blast
    then show ?thesis using True s cb by (subst finish_suspended.simps) auto
  next
    case False
    have ne: "qs k \<noteq> []" using opera_flush_empty(2) [OF s m] False by blast
    obtain s' qs' where f: "opera_flush c k True s = Some (qs k \<noteq> [], s')" "flushed c k True s qs s' qs' L"
      using opera_flush_ok [OF s m idle, of True] by blast
    have s': "service c s' qs' L" "mi_state (na_mod_info s' k) = NORFLASH_API_STATE_IDLE" "keeps_modules s s'" "na_allowed_cb s' = 0"
      "others_idle k s'" using f(2) cb by (auto simp: flushed_def same_control_def)
    have "flush_is_allowed s = (True, s)" using cb by (simp add: flush_is_allowed_def)
    then have "finish_suspended c k b s = finish_suspended c k True s'"
      using False f(1) ne by (subst finish_suspended.simps) simp
    also have "\<dots> = Some (True, s')" using s'(2) by (subst finish_suspended.simps) simp
    finally show ?thesis using s' driver_idle [OF serviceD(3) [OF s'(1)] s'(5,2)] by blast
  qed
qed

lemma flush_queue_ok:
  assumes "service c s qs L" "mi_is_inited (na_mod_info s m)" "others_idle m s" "na_allowed_cb s = 0"
  shows "\<exists>s' qs'. flush_queue c m b s = Some s' \<and> service c s' qs' L \<and> qs' m = [] \<and> keeps_modules s s' \<and>
    suspend_state (na_flash s') = SUSPEND_STATE_NONE \<and> na_allowed_cb s' = 0"
  using assms
proof (induction "length (qs m)" arbitrary: s qs b rule: less_induct)
  case less
  note idle = less.prems(3) and s = less.prems(1) and m = less.prems(2)
  obtain s' qs' where f: "opera_flush c m True s = Some (qs m \<noteq> [], s')" "flushed c m True s qs s' qs' L"
    using opera_flush_ok [OF s m idle, of True] by blast
  have s': "service c s' qs' L" "mi_state (na_mod_info s' m) = NORFLASH_API_STATE_IDLE" "keeps_modules s s'" "na_allowed_cb s' = 0"
    "others_idle m s'" "qs' = qs(m := butlast (qs m))" using f(2) less.prems(4) by (auto simp: flushed_def same_control_def)
  have al: "flush_is_allowed s = (True, s)" using less.prems(4) by (simp add: flush_is_allowed_def)
  show ?case
  proof (cases "qs m = []")
    case True
    then have "flush_queue c m b s = Some s'" using al f(1) by (subst flush_queue.simps) simp
    then show ?thesis using s' True driver_idle [OF serviceD(3) [OF s'(1)] s'(5,2)]
      by (intro exI [of _ s'] exI [of _ qs']) simp
  next
    case False
    then have "length (qs' m) < length (qs m)" using s'(6) by simp
    moreover have "mi_is_inited (na_mod_info s' m)" using m keeps_modulesD(1) [OF s'(3)] by simp
    ultimately obtain s2 qs2 where r: "flush_queue c m True s' = Some s2" "service c s2 qs2 L" "qs2 m = []" "keeps_modules s' s2"
      "suspend_state (na_flash s2) = SUSPEND_STATE_NONE" "na_allowed_cb s2 = 0"
      using less.hyps [of qs' s' True] s'(1,4,5) by blast
    have "flush_queue c m b s = flush_queue c m True s'" using al f(1) False by (subst flush_queue.simps) simp
    then show ?thesis using r keeps_modules_trans [OF s'(3) r(4)] by auto
  qed
qed

lemma sync_prepare_ok:
  assumes s: "service c s qs L" and m: "mi_is_inited (na_mod_info s m)" and cb: "na_allowed_cb s = 0"
  shows "\<exists>s' qs'. sync_prepare c m s = Some s' \<and> service c s' qs' L \<and> qs' m = [] \<and> keeps_modules s s' \<and>
    suspend_state (na_flash s') = SUSPEND_STATE_NONE \<and> na_allowed_cb s' = 0"
proof (cases "na_cur_mod s = None \<or> na_cur_mod s = Some m")
  case True
  have "sync_prepare c m s = flush_queue c m False s" using True by (auto simp: sync_prepare_def)
  then show ?thesis using flush_queue_ok [OF s m current_others_idle [OF s True] cb, of False] by auto
next
  case False
  then obtain k where k: "na_cur_mod s = Some k" "m \<noteq> k" by auto
  then have "mi_is_inited (na_mod_info s k)" using serviceD(1) [OF s] by (simp add: modules_ok_def)
  from finish_suspended_ok [OF s this k(1) cb, of False] obtain b s1 qs1 where
    f: "finish_suspended c k False s = Some (b, s1)" "service c s1 qs1 L" "keeps_modules s s1"
      "suspend_state (na_flash s1) = SUSPEND_STATE_NONE" "na_allowed_cb s1 = 0" by blast
  have "mi_is_inited (na_mod_info s1 m)" "others_idle m s1"
    using m keeps_modulesD(1) [OF f(3)] f(4) serviceD(3) [OF f(2)] by (auto simp: others_idle_def driver_rep_def)
  from flush_queue_ok [OF f(2) this f(5), of b] obtain s2 qs2 where
    r: "flush_queue c m b s1 = Some s2" "service c s2 qs2 L" "qs2 m = []" "keeps_modules s1 s2"
      "suspend_state (na_flash s2) = SUSPEND_STATE_NONE" "na_allowed_cb s2 = 0" by blast
  have "sync_prepare c m s = Some s2" using k f(1) r(1) by (simp add: sync_prepare_def)
  then show ?thesis using r(2-6) keeps_modules_trans [OF f(3) r(4)] by blast
qed

text \<open>With nothing queued for a module and the driver idle, its part of the flash can be changed directly.\<close>

lemma service_direct:
  assumes s: "service c s qs L" and m: "mi_is_inited (na_mod_info s m)" and e: "qs m = []"
    and idle: "suspend_state (na_flash s) = SUSPEND_STATE_NONE"
    and fl: "suspend_state fl = SUSPEND_STATE_NONE" "fl_busy fl = None" "fl_mem fl = M'"
    and M': "\<And>x. in_range (na_mod_info s m) x \<Longrightarrow> M' x = L' x" "\<And>x. \<not> in_range (na_mod_info s m) x \<Longrightarrow> M' x = fl_mem (na_flash s) x"
      "\<And>x. \<not> in_range (na_mod_info s m) x \<Longrightarrow> L' x = L x"
  shows "service c (s\<lparr>na_flash := fl\<rparr>) qs L'"
proof -
  note q = serviceD(5) [OF s m]
  have st: "mi_state (na_mod_info s k) = NORFLASH_API_STATE_IDLE" if "mi_is_inited (na_mod_info s k)" for k
    using serviceD(3) [OF s] idle that by (simp add: driver_rep_def)
  have g: "goal (s\<lparr>na_flash := fl\<rparr>) = M'" "goal s = fl_mem (na_flash s)"
    using flash_goal_idle [OF fl(1)] flash_goal_idle [OF idle] fl(3) by simp_all
  have "service c (s\<lparr>na_flash := fl\<rparr>) (qs(m := [])) L'"
  proof (rule service_change [OF s m])
    show "queue_rep (na_data s) (na_opera (s\<lparr>na_flash := fl\<rparr>)) (na_mod_info (s\<lparr>na_flash := fl\<rparr>) m) [] (goal (s\<lparr>na_flash := fl\<rparr>))"
      using q e st [OF m] by (simp add: queue_rep_def)
    show "driver_rep c (s\<lparr>na_flash := fl\<rparr>)" using st fl by (simp add: driver_rep_def)
    have "pool_rep (s\<lparr>na_flash := fl\<rparr>) qs" by (rule pool_cong [OF serviceD(2) [OF s]]) simp_all
    then show "pool_rep (s\<lparr>na_flash := fl\<rparr>) (qs(m := []))" using e by (simp add: fun_upd_idem)
    show "\<forall>x. \<not> in_range (na_mod_info s m) x \<longrightarrow> goal (s\<lparr>na_flash := fl\<rparr>) x = goal s x" using M'(2) by (simp only: g) blast
    show "\<forall>x. in_range (na_mod_info s m) x \<longrightarrow> L' x = pend (na_data s) (na_opera (s\<lparr>na_flash := fl\<rparr>)) [] (goal (s\<lparr>na_flash := fl\<rparr>)) x"
      using M'(1) by (simp only: g pend.simps) metis
    show "goal (s\<lparr>na_flash := fl\<rparr>) = goal s \<or> (\<forall>k. mi_is_inited (na_mod_info s k) \<and> k \<noteq> m \<longrightarrow> mi_state (na_mod_info s k) = NORFLASH_API_STATE_IDLE)"
      using st by blast
    show "\<forall>k. na_cur_mod (s\<lparr>na_flash := fl\<rparr>) = Some k \<longrightarrow> mi_is_inited (na_mod_info s k)"
      using serviceD(1) [OF s] by (simp add: modules_ok_def)
  qed (use M'(3) in simp_all)
  then show ?thesis using e by (simp add: fun_upd_idem)
qed

lemma sync_erase_ok:
  assumes s: "service c s qs L" and m: "mi_is_inited (na_mod_info s m)" and cb: "na_allowed_cb s = 0"
    and a: "unat a mod 4096 = 0" "unat (mi_base_addr (na_mod_info s m)) \<le> unat a"
      "unat a + unat len \<le> unat (mi_base_addr (na_mod_info s m)) + unat (mi_len (na_mod_info s m))"
    and len: "len = mi_sector_len (na_mod_info s m) \<or> len = mi_block_len (na_mod_info s m)" "unat len mod 4096 = 0"
  shows "\<exists>s' qs'. norflash_api_erase c m a len False s = Some (NORFLASH_API_OK, s') \<and>
    service c s' qs' (over (flash_offset a) (unat len) ff L) \<and> keeps_modules s s' \<and> qs' m = [] \<and> na_allowed_cb s' = 0"
proof -
  let ?i = "na_mod_info s m" and ?a = "flash_offset a" and ?n = "unat len"
  note M = modules_okD [OF serviceD(1) [OF s]]
  note mo = M(4) [OF m]
  obtain s1 qs1 where p: "sync_prepare c m s = Some s1" "service c s1 qs1 L" "qs1 m = []" "keeps_modules s s1"
    "suspend_state (na_flash s1) = SUSPEND_STATE_NONE" "na_allowed_cb s1 = 0" using sync_prepare_ok [OF s m cb] by blast
  have busy: "fl_busy (na_flash s1) = None" using serviceD(3) [OF p(2)] p(5) by (simp add: driver_rep_def)
  have off: "?a = flash_offset (mi_base_addr ?i) + (unat a - unat (mi_base_addr ?i))"
    by (rule range_offset [OF M(1) mo]) (use a in auto)
  then have hi: "?a + ?n \<le> flash_offset (mi_base_addr ?i) + unat (mi_len ?i)" using a by simp
  then have tot: "?a + ?n < unat (nc_total_size c)" using mo by (simp add: mod_ok_def)
  have al: "?a mod 4096 = 0" using a(1) by (simp add: offset_mods)
  have e: "sectors_lo ?a = ?a" "sectors_hi ?a ?n = ?a + ?n" using sectors_aligned [OF al len(2)] by simp_all
  have "sectors_hi ?a ?n < unat (nc_total_size c)" using e tot by simp
  from erase_suspend_ok [OF M(1) p(5) busy this, of False "na_data s1"] obtain fl where
    fl: "hal_norflash_erase c a len (na_flash s1) = Some (HAL_NORFLASH_OK, fl)" "suspend_state fl = SUSPEND_STATE_NONE"
      "fl_busy fl = None" "fl_mem fl = over ?a ?n ff (fl_mem (na_flash s1))"
    unfolding e by (auto simp: flash_ends_def hal_norflash_erase_def flash_ok_idle flash_goal_idle)
  have ini: "mi_is_inited (na_mod_info s1 m)" and r1: "in_range (na_mod_info s1 m) = in_range ?i"
    using m keeps_modulesD [OF p(4)] by auto
  have L: "fl_mem (na_flash s1) x = L x" if "in_range ?i x" for x
    using serviceD(6) [OF p(2) ini, of x] that r1 p(3,5) by (simp add: flash_goal_idle)
  have out: "\<not> (?a \<le> x \<and> x < ?a + ?n)" if "\<not> in_range ?i x" for x using that hi off by (auto simp: in_range_def)
  have "service c (s1\<lparr>na_flash := fl\<rparr>) qs1 (over ?a ?n ff L)"
    by (rule service_direct [OF p(2) ini p(3,5) fl(2,3,4)]) (use L out in \<open>auto simp: r1 over_def\<close>)
  moreover have "\<not> out_of_range ?i a len"
  proof -
    have "unat (mi_base_addr ?i) + unat (mi_len ?i) < 2 ^ 32" using mo by (simp add: mod_ok_def)
    then have "unat (a + len) = unat a + unat len" "unat (mi_base_addr ?i + mi_len ?i) = unat (mi_base_addr ?i) + unat (mi_len ?i)"
      using a by (simp_all add: unat_word_ariths)
    then show ?thesis using a by (simp add: out_of_range_def word_less_nat_alt not_less)
  qed
  moreover have "api_is_align a (mi_sector_len ?i) = Some True"
    using mo sec_of_id [OF a(1)] by (simp add: api_is_align_def mod_ok_def sec_of_def)
  moreover have "m < 12" "na_is_inited s" using M(3) [OF m] M(2) by blast+
  ultimately have "norflash_api_erase c m a len False s = Some (NORFLASH_API_OK, s1\<lparr>na_flash := fl\<rparr>)"
    "service c (s1\<lparr>na_flash := fl\<rparr>) qs1 (over ?a ?n ff L)"
    using m len(1) p(1) fl(1) by (auto simp: norflash_api_erase_def Let_def sync_result_def)
  then show ?thesis using p(3,4,6) by (intro exI [of _ "s1\<lparr>na_flash := fl\<rparr>"] exI [of _ qs1]) (simp add: keeps_modules_def)
qed

lemma sync_write_ok:
  assumes s: "service c s qs L" and m: "mi_is_inited (na_mod_info s m)" and cb: "na_allowed_cb s = 0"
    and a: "0 < length bs" "unat (mi_base_addr (na_mod_info s m)) \<le> unat a"
      "unat a + length bs \<le> unat (mi_base_addr (na_mod_info s m)) + unat (mi_len (na_mod_info s m))"
    and wr: "writable L (flash_offset a) bs"
  shows "\<exists>s' qs'. norflash_api_write c m a bs False s = Some (NORFLASH_API_OK, s') \<and>
    service c s' qs' (put (flash_offset a) bs L) \<and> keeps_modules s s' \<and> qs' m = []"
proof -
  let ?i = "na_mod_info s m" and ?a = "flash_offset a" and ?n = "length bs" and ?len = "of_nat (length bs) :: u32"
  note M = modules_okD [OF serviceD(1) [OF s]]
  note mo = M(4) [OF m]
  have w: "unat (mi_base_addr ?i) + unat (mi_len ?i) < 2 ^ 32" using mo by (simp add: mod_ok_def)
  then have len: "unat ?len = ?n" using a by (simp add: unat_of_nat take_bit_nat_eq_self)
  obtain s1 qs1 where p: "sync_prepare c m s = Some s1" "service c s1 qs1 L" "qs1 m = []" "keeps_modules s s1"
    "suspend_state (na_flash s1) = SUSPEND_STATE_NONE" using sync_prepare_ok [OF s m cb] by blast
  have busy: "fl_busy (na_flash s1) = None" using serviceD(3) [OF p(2)] p(5) by (simp add: driver_rep_def)
  have off: "?a = flash_offset (mi_base_addr ?i) + (unat a - unat (mi_base_addr ?i))"
    by (rule range_offset [OF M(1) mo]) (use a in auto)
  then have hi: "?a + ?n \<le> flash_offset (mi_base_addr ?i) + unat (mi_len ?i)" using a by simp
  then have tot: "?a + unat ?len < unat (nc_total_size c)" using mo len by (simp add: mod_ok_def)
  have "unat ?len \<le> ptr_len (Caller_Buf bs)" using len by simp
  from write_suspend_ok [OF M(1) p(5) busy this tot, of "na_data s1" False] obtain fl where
    fl: "hal_norflash_write c (na_data s1) a (Caller_Buf bs) ?len (na_flash s1) = Some (HAL_NORFLASH_OK, fl)"
      "suspend_state fl = SUSPEND_STATE_NONE" "fl_busy fl = None"
      "fl_mem fl = prog (na_data s1) (Caller_Buf bs) ?a ?n (fl_mem (na_flash s1))"
    unfolding len by (auto simp: flash_ends_def hal_norflash_write_def flash_ok_idle flash_goal_idle)
  have ini: "mi_is_inited (na_mod_info s1 m)" and r1: "in_range (na_mod_info s1 m) = in_range ?i"
    using m keeps_modulesD [OF p(4)] by auto
  have L: "fl_mem (na_flash s1) x = L x" if "in_range ?i x" for x
    using serviceD(6) [OF p(2) ini, of x] that r1 p(3,5) by (simp add: flash_goal_idle)
  have out: "\<not> (?a \<le> x \<and> x < ?a + ?n)" if "\<not> in_range ?i x" for x using that hi off by (auto simp: in_range_def)
  have wr': "L x AND bs ! (x - ?a) = bs ! (x - ?a)" if "?a \<le> x" "x < ?a + ?n" for x
  proof -
    have "x - ?a < length bs" "?a + (x - ?a) = x" using that by simp_all
    then show ?thesis using wr unfolding writable_def by metis
  qed
  have "service c (s1\<lparr>na_flash := fl\<rparr>) qs1 (put ?a bs L)"
    by (rule service_direct [OF p(2) ini p(3,5) fl(2,3,4)]) (use L out wr' in \<open>auto simp: r1 prog_def put_def over_def\<close>)
  moreover have "\<not> out_of_range ?i a ?len"
  proof -
    have "unat (a + ?len) = unat a + ?n" "unat (mi_base_addr ?i + mi_len ?i) = unat (mi_base_addr ?i) + unat (mi_len ?i)"
      using a w len by (simp_all add: unat_word_ariths)
    then show ?thesis using a by (simp add: out_of_range_def word_less_nat_alt not_less)
  qed
  moreover have "?len \<noteq> 0" using len a(1) by auto
  moreover have "m < 12" "na_is_inited s" using M(3) [OF m] M(2) by blast+
  ultimately have "norflash_api_write c m a bs False s = Some (NORFLASH_API_OK, s1\<lparr>na_flash := fl\<rparr>)"
    "service c (s1\<lparr>na_flash := fl\<rparr>) qs1 (put ?a bs L)"
    using m p(1) fl(1) by (auto simp: norflash_api_write_def Let_def sync_result_def)
  then show ?thesis using p(3,4) by (intro exI [of _ "s1\<lparr>na_flash := fl\<rparr>"] exI [of _ qs1]) (simp add: keeps_modules_def)
qed

section \<open>The asynchronous operations\<close>

lemma async_erase_ok:
  assumes s: "service c s qs L" and m: "mi_is_inited (na_mod_info s m)" and a: "sector_in (na_mod_info s m) a"
    and top: "\<not> buried_write (na_opera s) (qs m) a"
  shows "\<exists>r s' qs'. norflash_api_erase c m a 4096 True s = Some (r, s') \<and> keeps_modules s s' \<and>
    same_work s s' \<and> only_adds m {a} s qs s' qs' \<and>
    (r = NORFLASH_API_OK \<and> service c s' qs' (over (flash_offset a) 4096 ff L) \<or>
     r = NORFLASH_API_BUFFER_FULL \<and> qs' = qs \<and> service c s' qs L \<and> (\<forall>p < 6. na_opera_used s p))"
proof -
  let ?i = "na_mod_info s m"
  note M = modules_okD [OF serviceD(1) [OF s]]
  note mo = M(4) [OF m]
  have w: "unat (mi_base_addr ?i) + unat (mi_len ?i) < 2 ^ 32" using mo by (simp add: mod_ok_def)
  have a': "unat (mi_base_addr ?i) \<le> unat a" "unat a + 4096 \<le> unat (mi_base_addr ?i) + unat (mi_len ?i)" "unat a mod 4096 = 0"
    using a by (simp_all add: sector_in_def)
  have "unat (a + 4096) = unat a + 4096" "unat (mi_base_addr ?i + mi_len ?i) = unat (mi_base_addr ?i) + unat (mi_len ?i)"
    using a' w by (simp_all add: unat_word_ariths)
  then have "\<not> out_of_range ?i a 4096" using a' by (simp add: out_of_range_def word_less_nat_alt not_less)
  moreover have "api_is_align a (mi_sector_len ?i) = Some True"
    using mo sec_of_id [OF a'(3)] by (simp add: api_is_align_def mod_ok_def sec_of_def)
  moreover have "m < 12" "na_is_inited s" "mi_sector_len ?i = 4096" using M(3) [OF m] M(2) mo by (auto simp: mod_ok_def)
  moreover obtain r s' qs' where e: "e_opera_add m a 4096 s = Some (r, s')" "keeps_modules s s'"
    "same_work s s' \<and> only_adds m {a} s qs s' qs'"
    "r = 0 \<and> service c s' qs' (over (flash_offset a) 4096 ff L) \<or> r = 1 \<and> qs' = qs \<and> service c s' qs L \<and> (\<forall>p < 6. na_opera_used s p)"
    using e_add_ok [OF s m a top] by blast
  ultimately have "norflash_api_erase c m a 4096 True s = Some (if r = 0 then NORFLASH_API_OK else NORFLASH_API_BUFFER_FULL, s')"
    using m by (simp add: norflash_api_erase_def Let_def)
  then show ?thesis using e(2-4)
    by (intro exI [of _ "if r = 0 then NORFLASH_API_OK else NORFLASH_API_BUFFER_FULL"] exI [of _ s'] exI [of _ qs']) auto
qed

lemma async_write_ok:
  assumes s: "service c s qs L" and m: "mi_is_inited (na_mod_info s m)" and w: "within (na_mod_info s m) a (length bs)"
    and wr: "writable L (flash_offset a) bs"
  shows "\<exists>r s' qs'. norflash_api_write c m a bs True s = Some (r, s') \<and> keeps_modules s s' \<and>
    same_work s s' \<and> only_adds m {sec_of a} s qs s' qs' \<and>
    (r = NORFLASH_API_OK \<and> service c s' qs' (put (flash_offset a) bs L) \<or>
     r = NORFLASH_API_BUFFER_FULL \<and> qs' = qs \<and> service c s' qs L \<and> ((\<forall>p < 6. na_opera_used s p) \<or> na_data_used s 0))"
proof -
  let ?i = "na_mod_info s m" and ?len = "of_nat (length bs) :: u32"
  note M = modules_okD [OF serviceD(1) [OF s]]
  note mo = M(4) [OF m]
  have "unat ?len = length bs" using within_sector(6) [OF M(1) mo w] by (simp add: unat_of_nat take_bit_nat_eq_self)
  note g = in_range_guard [OF mo w this]
  obtain r s' qs' where e: "w_opera_add m a bs s = Some (r, s')" "keeps_modules s s'"
    "same_work s s' \<and> only_adds m {sec_of a} s qs s' qs'"
    "r = 0 \<and> service c s' qs' (put (flash_offset a) bs L) \<or>
     r = 1 \<and> qs' = qs \<and> service c s' qs L \<and> ((\<forall>p < 6. na_opera_used s p) \<or> na_data_used s 0)"
    using w_add_ok [OF s m w wr] by blast
  have "m < 12" "na_is_inited s" using M(3) [OF m] M(2) by blast+
  then have "norflash_api_write c m a bs True s = Some (if r = 0 then NORFLASH_API_OK else NORFLASH_API_BUFFER_FULL, s')"
    using m e(1) g by (simp add: norflash_api_write_def Let_def)
  then show ?thesis using e(2-4)
    by (intro exI [of _ "if r = 0 then NORFLASH_API_OK else NORFLASH_API_BUFFER_FULL"] exI [of _ s'] exI [of _ qs']) auto
qed

end
