(* ===== verification/Norflash_Runs.thy ===== *)
theory Norflash_Runs
  imports Norflash_Service
begin

text \<open>
  The states the flash service can be in when its clients use it as it is meant to be used, together with the content
  they have put, \<open>served c s L\<close>: start-up, registration of the modules, and any sequence of calls and interrupts.
\<close>

section \<open>The queue of a module, as a list\<close>

fun queue_list :: "(nat \<Rightarrow> opra_info) \<Rightarrow> nat \<Rightarrow> nat option \<Rightarrow> nat list" where
  "queue_list nd (Suc k) (Some p) = p # queue_list nd k (oi_next (nd p))"
| "queue_list nd k tmp = []"

definition queue :: "norflash_api \<Rightarrow> nat \<Rightarrow> nat list" where
  "queue s m = queue_list (na_opera s) NORFLASH_API_OPRA_LIST_LEN (mi_opera (na_mod_info s m))"

text \<open>A write of the sector is queued, not yet begun, and not the newest operation of its module.\<close>

definition buried :: "norflash_api \<Rightarrow> nat \<Rightarrow> u32 \<Rightarrow> bool" where
  "buried s m a \<longleftrightarrow> (\<exists>p \<in> set (queue s m). oi_type (na_opera s p) = NORFLASH_API_WRITTING \<and> oi_addr (na_opera s p) = a \<and>
     \<not> oi_lock (na_opera s p) \<and> p \<noteq> hd (queue s m))"

lemma queue_list_path: "lpath (nxt nd) tmp ns \<Longrightarrow> length ns \<le> k \<Longrightarrow> queue_list nd k tmp = ns"
proof (induction ns arbitrary: tmp k)
  case Nil
  then show ?case by (cases k) simp_all
next
  case (Cons p ns)
  then obtain k' where "k = Suc k'" by (cases k) auto
  then show ?case using Cons by (simp add: nxt_def)
qed

lemma queue_ok:
  assumes "service c s qs L" "mi_is_inited (na_mod_info s m)"
  shows "queue s m = qs m"
  using queue_list_path [OF queue_repD(1) [OF serviceD(5) [OF assms]]] ew_count_ok(3) [OF assms] by (simp add: queue_def)

lemma buried_ok:
  assumes "service c s qs L" "mi_is_inited (na_mod_info s m)"
  shows "buried s m a = buried_write (na_opera s) (qs m) a"
  unfolding buried_def buried_write_def queue_ok [OF assms] void_def by blast

section \<open>Starting up\<close>

definition pool_free :: "norflash_api \<Rightarrow> bool" where
  "pool_free s \<longleftrightarrow> (\<forall>p < NORFLASH_API_OPRA_LIST_LEN. \<not> na_opera_used s p) \<and>
     (\<forall>b < NORFLASH_API_WRITE_BUFF_LEN. \<not> na_data_used s b) \<and> suspend_state (na_flash s) = SUSPEND_STATE_NONE \<and> fl_busy (na_flash s) = None"

lemma init_ok:
  assumes "chip_ok c" "pool_free s" "norflash_api_init s = (r, s')"
  shows "r = NORFLASH_API_OK \<and> service c s' (\<lambda>_. []) L"
  using assms by (auto simp: norflash_api_init_def module_zero_def service_def modules_ok_def pool_rep_def driver_rep_def pool_free_def)

text \<open>The region of a new module: whole sectors of the chip, apart from the regions of the other modules.\<close>

definition free_region :: "norflash_ctx \<Rightarrow> u32 \<Rightarrow> u32 \<Rightarrow> norflash_api \<Rightarrow> bool" where
  "free_region c base len s \<longleftrightarrow> mod_ok c (module_zero\<lparr>mi_base_addr := base, mi_len := len, mi_sector_len := 4096\<rparr>) \<and>
     (\<forall>m < NORFLASH_API_MODULE_ID_COUNT. mi_is_inited (na_mod_info s m) \<longrightarrow>
        flash_offset base + unat len \<le> flash_offset (mi_base_addr (na_mod_info s m)) \<or>
        flash_offset (mi_base_addr (na_mod_info s m)) + unat (mi_len (na_mod_info s m)) \<le> flash_offset base)"

definition new_content :: "u32 \<Rightarrow> u32 \<Rightarrow> norflash_api \<Rightarrow> (nat \<Rightarrow> u8) \<Rightarrow> nat \<Rightarrow> u8" where
  "new_content base len s L = over (flash_offset base) (unat len) (fl_mem (na_flash s)) L"

lemma register_ok:
  assumes s: "service c s qs L" and new: "\<not> mi_is_inited (na_mod_info s m)" and reg: "free_region c base len s"
    and call: "norflash_api_register m dev base len blk 4096 page buf cb s = Some (NORFLASH_API_OK, s')"
  shows "service c s' qs (new_content base len s L)"
proof -
  define i where "i = \<lparr>mi_is_inited = True, mi_dev_id = dev, mi_mod_id = m, mi_base_addr = base, mi_len = len, mi_block_len = blk,
    mi_sector_len = 4096, mi_page_len = page, mi_buff_len = buf, mi_cb_func = cb, mi_opera = None, mi_cur = None,
    mi_state = NORFLASH_API_STATE_IDLE\<rparr>"
  let ?L = "new_content base len s L"
  note M = modules_okD [OF serviceD(1) [OF s]]
  have call': "m < 12" "s' = upd_mod m (\<lambda>_. i) s"
    using call new by (auto simp: norflash_api_register_def i_def api_is_align_def split: if_splits)
  then have st: "na_mod_info s' = (na_mod_info s)(m := i)" "na_opera s' = na_opera s" "na_data s' = na_data s" "na_flash s' = na_flash s"
    "na_cur_mod s' = na_cur_mod s" "na_is_inited s' = na_is_inited s" "na_opera_used s' = na_opera_used s" "na_data_used s' = na_data_used s"
    by (simp_all add: upd_mod_def)
  have mi: "mod_ok c i" using reg by (simp add: free_region_def mod_ok_def i_def)
  have apart: "\<not> in_range i x" if "mi_is_inited (na_mod_info s k)" "in_range (na_mod_info s k) x" for k x
    using reg M(3) [OF that(1)] that unfolding free_region_def in_range_def by (fastforce simp: i_def)
  have qm: "qs m = []" using serviceD(4) [OF s new] .
  have "modules_ok c s'"
    unfolding modules_ok_def st
  proof (intro conjI allI impI)
    fix k k' x
    assume k: "mi_is_inited (((na_mod_info s)(m := i)) k) \<and> mi_is_inited (((na_mod_info s)(m := i)) k') \<and>
      in_range (((na_mod_info s)(m := i)) k) x \<and> in_range (((na_mod_info s)(m := i)) k') x"
    show "k = k'" using k apart [of k x] apart [of k' x] M(5) [of k k' x] by (auto split: if_splits)
  next
    fix k assume "na_cur_mod s = Some k"
    then have "mi_is_inited (na_mod_info s k)" using serviceD(1) [OF s] by (simp add: modules_ok_def)
    then show "mi_is_inited (((na_mod_info s)(m := i)) k)" by (simp add: i_def)
  qed (use M mi call'(1) in \<open>auto split: if_splits\<close>)
  moreover have "pool_rep s' qs" by (rule pool_cong [OF serviceD(2) [OF s]]) (simp_all add: st)
  moreover have "driver_rep c s'"
  proof (cases "suspend_state (na_flash s) = SUSPEND_STATE_NONE")
    case True
    then show ?thesis using serviceD(3) [OF s] by (simp add: driver_rep_def st i_def)
  next
    case False
    then obtain k p where k: "na_cur_mod s = Some k" "mi_is_inited (na_mod_info s k)" "mi_cur (na_mod_info s k) = Some p"
      "mi_state (na_mod_info s k) \<noteq> NORFLASH_API_STATE_IDLE"
      "suspend_state (na_flash s) = SUSPEND_STATE_PROGRAM \<longleftrightarrow> writing (na_opera s p)"
      "\<forall>k'. mi_is_inited (na_mod_info s k') \<and> k' \<noteq> k \<longrightarrow> mi_state (na_mod_info s k') = NORFLASH_API_STATE_IDLE"
      "flash_ok c (flash_offset (oi_addr (na_opera s p))) (flash_offset (oi_addr (na_opera s p)) + 4096) (na_flash s)"
      using serviceD(3) [OF s] by (cases "suspend_state (na_flash s)") (auto simp: driver_rep_def)
    then have "k \<noteq> m" using new by blast
    then show ?thesis using False k
      by (cases "suspend_state (na_flash s)") (simp_all add: driver_rep_def st i_def)
  qed
  moreover have "queue_rep (na_data s) (na_opera s) (na_mod_info s' k) (qs k) (goal s) \<and>
      (\<forall>x. in_range (na_mod_info s' k) x \<longrightarrow> ?L x = pend (na_data s) (na_opera s) (qs k) (goal s) x)"
    if k: "mi_is_inited (na_mod_info s' k)" for k
  proof (cases "k = m")
    case True
    have "goal s x = fl_mem (na_flash s) x" if x: "in_range i x" for x
    proof (cases "suspend_state (na_flash s) = SUSPEND_STATE_NONE")
      case True
      then show ?thesis by (simp add: flash_goal_idle)
    next
      case False
      then obtain k' p where p: "mi_is_inited (na_mod_info s k')" "mi_cur (na_mod_info s k') = Some p"
        "flash_ok c (flash_offset (oi_addr (na_opera s p))) (flash_offset (oi_addr (na_opera s p)) + 4096) (na_flash s)"
        using serviceD(3) [OF s] by (cases "suspend_state (na_flash s)") (auto simp: driver_rep_def)
      note q = queue_repD [OF serviceD(5) [OF s p(1)]]
      have "p \<in> set (qs k')" using q(6) [OF p(2)] by blast
      then have "\<not> in_sector (oi_addr (na_opera s p)) x"
        using in_sector_range [OF M(1) M(4) [OF p(1)] ops_ok_sector [OF q(4)]] apart [OF p(1)] x by blast
      then show ?thesis using flash_goal_outside [OF p(3), of x] by (auto simp: in_sector_def not_le not_less)
    qed
    moreover have "?L x = fl_mem (na_flash s) x" if "in_range i x" for x
      using that by (simp add: new_content_def over_def in_range_def i_def)
    ultimately show ?thesis using True qm by (simp add: st queue_rep_def i_def [symmetric]) (simp add: i_def)
  next
    case False
    then have k': "mi_is_inited (na_mod_info s k)" using k by (simp add: st)
    have "?L x = L x" if "in_range (na_mod_info s k) x" for x
      using apart [OF k' that] by (auto simp: new_content_def over_def in_range_def i_def)
    then show ?thesis using serviceD(5,6) [OF s k'] False by (simp add: st)
  qed
  moreover have "qs k = []" if "\<not> mi_is_inited (na_mod_info s' k)" for k
    using that serviceD(4) [OF s, of k] by (cases "k = m") (simp_all add: st i_def)
  ultimately show ?thesis unfolding service_def st(2,3,4) by blast
qed

lemma environment_ok:
  assumes "service c s qs L"
  shows "service c (s\<lparr>na_allow := w, na_flash := (na_flash s)\<lparr>fl_irqs := js\<rparr>\<rparr>) qs L"
proof -
  define fl where "fl = (na_flash s)\<lparr>fl_irqs := js\<rparr>"
  have f: "flash_goal D fl = flash_goal D (na_flash s)" "flash_ok c lo hi fl = flash_ok c lo hi (na_flash s)"
    "suspend_state fl = suspend_state (na_flash s)" "fl_busy fl = fl_busy (na_flash s)" for D lo hi
    by (simp_all add: fl_def flash_goal_def flash_ok_def settled_def cong: SUSPEND_STATE_T.case_cong option.case_cong)
  have "modules_ok c (s\<lparr>na_flash := fl\<rparr>)" using serviceD(1) [OF assms] by (simp add: modules_ok_def)
  moreover have "pool_rep (s\<lparr>na_flash := fl\<rparr>) qs" by (rule pool_cong [OF serviceD(2) [OF assms]]) simp_all
  moreover have "driver_rep c (s\<lparr>na_flash := fl\<rparr>)"
    using serviceD(3) [OF assms] by (simp add: driver_rep_def f cong: SUSPEND_STATE_T.case_cong)
  ultimately have "service c (s\<lparr>na_flash := fl\<rparr>) qs L" using serviceD(4-6) [OF assms] by (simp add: service_def f)
  moreover have "s\<lparr>na_allow := w, na_flash := fl\<rparr> = (s\<lparr>na_flash := fl\<rparr>)\<lparr>na_allow := w\<rparr>" by simp
  ultimately show ?thesis unfolding fl_def [symmetric] by (simp only: service_env(2))
qed

section \<open>Runs\<close>

definition span :: "module_info \<Rightarrow> u32 \<Rightarrow> nat \<Rightarrow> bool" where
  "span i a n \<longleftrightarrow> 0 < n \<and> unat (mi_base_addr i) \<le> unat a \<and> unat a + n \<le> unat (mi_base_addr i) + unat (mi_len i)"

definition erased :: "u32 \<Rightarrow> nat \<Rightarrow> (nat \<Rightarrow> u8) \<Rightarrow> nat \<Rightarrow> u8" where
  "erased a n L = over (flash_offset a) n (\<lambda>_. 0xff) L"

text \<open>The clients' part: regions of their own, whole sectors erased, writes that stay in a sector and only clear bits, no
  erase of a sector with a buried write, and synchronous operations only when nobody postpones flushing. In between, the
  environment decides which interrupts come and when flushing is allowed.\<close>

inductive served :: "norflash_ctx \<Rightarrow> norflash_api \<Rightarrow> (nat \<Rightarrow> u8) \<Rightarrow> bool" for c where
  served_init: "chip_ok c \<Longrightarrow> pool_free s \<Longrightarrow> norflash_api_init s = (r, s') \<Longrightarrow> served c s' (fl_mem (na_flash s))"
| served_register: "served c s L \<Longrightarrow> \<not> mi_is_inited (na_mod_info s m) \<Longrightarrow> free_region c base len s \<Longrightarrow>
    norflash_api_register m dev base len blk 4096 page buf cb s = Some (NORFLASH_API_OK, s') \<Longrightarrow>
    served c s' (new_content base len s L)"
| served_erase: "served c s L \<Longrightarrow> mi_is_inited (na_mod_info s m) \<Longrightarrow> sector_in (na_mod_info s m) a \<Longrightarrow> \<not> buried s m a \<Longrightarrow>
    norflash_api_erase c m a 4096 True s = Some (r, s') \<Longrightarrow> served c s' (if r = NORFLASH_API_OK then erased a 4096 L else L)"
| served_write: "served c s L \<Longrightarrow> mi_is_inited (na_mod_info s m) \<Longrightarrow> within (na_mod_info s m) a (length bs) \<Longrightarrow>
    writable L (flash_offset a) bs \<Longrightarrow> norflash_api_write c m a bs True s = Some (r, s') \<Longrightarrow>
    served c s' (if r = NORFLASH_API_OK then put (flash_offset a) bs L else L)"
| served_sync_erase: "served c s L \<Longrightarrow> mi_is_inited (na_mod_info s m) \<Longrightarrow> na_allowed_cb s = 0 \<Longrightarrow>
    span (na_mod_info s m) a (unat len) \<Longrightarrow> unat a mod 4096 = 0 \<Longrightarrow> unat len mod 4096 = 0 \<Longrightarrow>
    len = mi_sector_len (na_mod_info s m) \<or> len = mi_block_len (na_mod_info s m) \<Longrightarrow>
    norflash_api_erase c m a len False s = Some (r, s') \<Longrightarrow> served c s' (erased a (unat len) L)"
| served_sync_write: "served c s L \<Longrightarrow> mi_is_inited (na_mod_info s m) \<Longrightarrow> na_allowed_cb s = 0 \<Longrightarrow>
    span (na_mod_info s m) a (length bs) \<Longrightarrow> writable L (flash_offset a) bs \<Longrightarrow>
    norflash_api_write c m a bs False s = Some (r, s') \<Longrightarrow> served c s' (put (flash_offset a) bs L)"
| served_flush: "served c s L \<Longrightarrow> norflash_api_flush c s = Some (n, s') \<Longrightarrow> served c s' L"
| served_flush_all: "served c s L \<Longrightarrow> norflash_api_flush_all c s = Some s' \<Longrightarrow> served c s' L"
| served_disable: "served c s L \<Longrightarrow> norflash_api_flush_disable u cb s = Some s' \<Longrightarrow> served c s' L"
| served_enable: "served c s L \<Longrightarrow> norflash_api_flush_enable u s = Some s' \<Longrightarrow> served c s' L"
| served_environment: "served c s L \<Longrightarrow> served c (s\<lparr>na_allow := w, na_flash := (na_flash s)\<lparr>fl_irqs := js\<rparr>\<rparr>) L"

lemma served_service: "served c s L \<Longrightarrow> \<exists>qs. service c s qs L"
proof (induction rule: served.induct)
  case (served_init s r s')
  then show ?case using init_ok by blast
next
  case (served_register s L m base len dev blk page buf cb s')
  then show ?case using register_ok by blast
next
  case (served_erase s L m a r s')
  then obtain qs where s: "service c s qs L" by blast
  have "\<not> buried_write (na_opera s) (qs m) a" using served_erase.hyps buried_ok [OF s] by simp
  from async_erase_ok [OF s served_erase.hyps(2,3) this] served_erase.hyps(5) show ?case
    by (auto simp: erased_def)
next
  case (served_write s L m a bs r s')
  then obtain qs where s: "service c s qs L" by blast
  from async_write_ok [OF s served_write.hyps(2-4)] served_write.hyps(5) show ?case by auto
next
  case (served_sync_erase s L m a len r s')
  then obtain qs where s: "service c s qs L" by blast
  from sync_erase_ok [OF s served_sync_erase.hyps(2,3,5) _ _ served_sync_erase.hyps(7,6)] served_sync_erase.hyps(4,8)
  show ?case by (auto simp: erased_def span_def)
next
  case (served_sync_write s L m a bs r s')
  then obtain qs where s: "service c s qs L" by blast
  from sync_write_ok [OF s served_sync_write.hyps(2,3) _ _ _ served_sync_write.hyps(5)] served_sync_write.hyps(4,6)
  show ?case by (auto simp: span_def)
next
  case (served_flush s L n s')
  then obtain qs where s: "service c s qs L" by blast
  from api_flush_ok [OF s] served_flush.hyps show ?case by auto
next
  case (served_flush_all s L s')
  then obtain qs where s: "service c s qs L" by blast
  from flush_all_ok [OF s] served_flush_all.hyps show ?case by auto
next
  case (served_disable s L u cb s')
  then show ?case by (cases "u = 0") (auto simp: norflash_api_flush_disable_def service_env check_def split: if_splits)
next
  case (served_enable s L u s')
  then show ?case by (cases "u = 0") (auto simp: norflash_api_flush_enable_def service_env check_def split: if_splits)
next
  case (served_environment s L w js)
  then show ?case using environment_ok by blast
qed

section \<open>Programming a page\<close>

text \<open>The helper of the applications retries until the service takes the write, flushing in between; every flush leaves
  less to do, and a service with nothing to do takes it.\<close>

lemma used_writes_ok:
  assumes "service c s qs L" "mi_is_inited (na_mod_info s m)"
  shows "norflash_api_get_used_buffer_count m NORFLASH_API_WRITTING s = Some (of_nat (length (filter (\<lambda>p. writing (na_opera s p)) (qs m))))"
  using count_path [OF queue_repD(1) [OF serviceD(5) [OF assms]], of "\<lambda>n. writing n" 0] assms(2)
    modules_okD(3) [OF serviceD(1) [OF assms(1)] assms(2)]
  by (simp add: norflash_api_get_used_buffer_count_def counts_writes_def counts_erases_def get_w_count_def)

lemma flush_pending_ok:
  assumes "service c s qs L" "mi_is_inited (na_mod_info s m)" "na_allowed_cb s = 0"
  shows "\<exists>s' qs'. app_flush_pending_flash_op c m NORFLASH_API_WRITTING s = Some s' \<and> service c s' qs' L \<and> keeps_modules s s' \<and>
    na_allowed_cb s' = 0 \<and> (work qs' s' < work qs s \<or> qs' = (\<lambda>_. []))"
  using assms
proof (induction "work qs s" arbitrary: s qs rule: less_induct)
  case less
  obtain r s1 qs1 where f: "norflash_api_flush c s = Some (r, s1)" "service c s1 qs1 L" "keeps_modules s s1"
    "na_allowed_cb s1 = 0" "qs1 = (\<lambda>_. []) \<or> work qs1 s1 < work qs s"
    using api_flush_ok [OF less.prems(1)] less.prems(3) by blast
  have ini: "mi_is_inited (na_mod_info s1 m)" using less.prems(2) keeps_modulesD(1) [OF f(3)] by simp
  note u = used_writes_ok [OF f(2) ini]
  show ?case
  proof (cases "norflash_api_get_used_buffer_count m NORFLASH_API_WRITTING s1 = Some 0")
    case True
    then have "app_flush_pending_flash_op c m NORFLASH_API_WRITTING s = Some s1"
      using f(1) by (subst app_flush_pending_flash_op.simps) simp
    then show ?thesis using f by blast
  next
    case False
    then have ne: "qs1 m \<noteq> []" using u by auto
    then have "work qs1 s1 < work qs s" using f(5) by auto
    from less.hyps [OF this f(2) ini f(4)] obtain s2 qs2 where
      r: "app_flush_pending_flash_op c m NORFLASH_API_WRITTING s1 = Some s2" "service c s2 qs2 L" "keeps_modules s1 s2"
        "na_allowed_cb s2 = 0" "work qs2 s2 < work qs1 s1 \<or> qs2 = (\<lambda>_. [])" by blast
    have "app_flush_pending_flash_op c m NORFLASH_API_WRITTING s = app_flush_pending_flash_op c m NORFLASH_API_WRITTING s1"
      using f(1) False u by (subst app_flush_pending_flash_op.simps) auto
    then show ?thesis using r keeps_modules_trans [OF f(3) r(3)] \<open>work qs1 s1 < work qs s\<close> by auto
  qed
qed

lemma empty_takes_write:
  assumes "service c s (\<lambda>_. []) L"
  shows "\<not> na_opera_used s 0" "\<not> na_data_used s 0"
  using serviceD(2) [OF assms] by (auto simp: pool_rep_def)

lemma page_program_ok:
  assumes "service c s qs L" "mi_is_inited (na_mod_info s m)" "within (na_mod_info s m) a (length bs)" "writable L (flash_offset a) bs"
    "na_allowed_cb s = 0"
  shows "\<exists>s' qs'. page_program_loop c m a bs async s = Some s' \<and> service c s' qs' (put (flash_offset a) bs L) \<and> keeps_modules s s'"
  using assms
proof (induction "work qs s" arbitrary: s qs rule: less_induct)
  case less
  note s = less.prems(1) and m = less.prems(2) and w = less.prems(3)
  show ?case
  proof (cases async)
    case False
    have w': "0 < length bs" "unat (mi_base_addr (na_mod_info s m)) \<le> unat a"
      "unat a + length bs \<le> unat (mi_base_addr (na_mod_info s m)) + unat (mi_len (na_mod_info s m))"
      using w by (auto simp: within_def)
    from sync_write_ok [OF s m less.prems(5) w' less.prems(4)] False show ?thesis
      by (subst page_program_loop.simps) auto
  next
    case True
    obtain r s1 qs1 where r: "norflash_api_write c m a bs True s = Some (r, s1)" "keeps_modules s s1" "same_work s s1"
      "r = NORFLASH_API_OK \<and> service c s1 qs1 (put (flash_offset a) bs L) \<or>
       r = NORFLASH_API_BUFFER_FULL \<and> service c s1 qs L \<and> ((\<forall>p < 6. na_opera_used s p) \<or> na_data_used s 0)"
      using async_write_ok [OF s m w less.prems(4)] by blast
    show ?thesis
    proof (cases "r = NORFLASH_API_OK")
      case True
      then show ?thesis using r \<open>async\<close> by (subst page_program_loop.simps) auto
    next
      case False
      then have full: "r = NORFLASH_API_BUFFER_FULL" "service c s1 qs L" "(\<forall>p < 6. na_opera_used s p) \<or> na_data_used s 0"
        using r(4) by auto
      note same = r(3) [unfolded same_work_def]
      have m1: "mi_is_inited (na_mod_info s1 m)" using m keeps_modulesD(1) [OF r(2)] by simp
      obtain s2 qs2 where f: "app_flush_pending_flash_op c m NORFLASH_API_WRITTING s1 = Some s2" "service c s2 qs2 L"
        "keeps_modules s1 s2" "na_allowed_cb s2 = 0" "work qs2 s2 < work qs s1 \<or> qs2 = (\<lambda>_. [])"
        using flush_pending_ok [OF full(2) m1] same less.prems(5) by auto
      have g: "geom (na_mod_info s2 m) = geom (na_mod_info s m)" using r(2) f(3) by (simp add: keeps_modules_def)
      then have w2: "within (na_mod_info s2 m) a (length bs)" "mi_is_inited (na_mod_info s2 m)"
        using w m by (simp_all add: within_def geom_def)
      have step: "page_program_loop c m a bs async s = page_program_loop c m a bs async s2"
        using r(1) full(1) f(1) \<open>async\<close> by (subst page_program_loop.simps) simp
      have km: "keeps_modules s s2" using keeps_modules_trans [OF r(2) f(3)] .
      show ?thesis
      proof (cases "qs2 = (\<lambda>_. [])")
        case True
        then have "\<not> na_opera_used s2 0" "\<not> na_data_used s2 0" using empty_takes_write [of c s2 L] f(2) by simp_all
        then have "\<not> ((\<forall>p < 6. na_opera_used s2 p) \<or> na_data_used s2 0)" by (auto intro!: exI [of _ 0])
        with async_write_ok [OF f(2) w2(2,1) less.prems(4)] obtain s3 qs3 where
          "norflash_api_write c m a bs True s2 = Some (NORFLASH_API_OK, s3)" "keeps_modules s2 s3"
          "service c s3 qs3 (put (flash_offset a) bs L)" by blast
        then show ?thesis using \<open>async\<close> keeps_modules_trans [OF km]
          unfolding step by (subst page_program_loop.simps) auto
      next
        case False
        have "work qs s1 = work qs s" using same by (simp add: work_def irqs_def)
        then have "work qs2 s2 < work qs s" using f(5) False by simp
        from less.hyps [OF this f(2) w2(2,1) less.prems(4) f(4)] show ?thesis
          unfolding step using keeps_modules_trans [OF km] by blast
      qed
    qed
  qed
qed

end
