(* ===== verification/Norflash_Hal_Props.thy ===== *)
theory Norflash_Hal_Props
  imports Norflash_Suspend
begin

text \<open>The properties of the flash driver.\<close>

text \<open>What a caller does that lets operations be suspended: it resumes until the driver reports the end.\<close>

partial_function (option) to_end ::
    "(flash \<Rightarrow> (HAL_NORFLASH_RET_T \<times> flash) option) \<Rightarrow> HAL_NORFLASH_RET_T \<Rightarrow> flash \<Rightarrow> (HAL_NORFLASH_RET_T \<times> flash) option" where
  "to_end resume ret s =
     (if ret = HAL_NORFLASH_SUSPENDED then do { (ret, s) \<leftarrow> resume s; to_end resume ret s } else Some (ret, s))"

lemma to_end_ok:
  assumes resume: "\<And>s. flash_ok c lo hi s \<Longrightarrow> suspend_state s = st \<Longrightarrow>
      \<exists>ret s'. resume s = Some (ret, s') \<and> flash_ends c D st True lo hi (flash_goal D s) s ret s'"
    and "flash_ends c D st True lo hi goal s0 ret s"
  shows "\<exists>s'. to_end resume ret s = Some (HAL_NORFLASH_OK, s') \<and> suspend_state s' = SUSPEND_STATE_NONE \<and>
    fl_busy s' = None \<and> fl_mem s' = goal"
  using assms(2)
proof (induction "length (fl_irqs s)" arbitrary: s s0 ret rule: less_induct)
  case less
  have fin: ?case if "ret \<noteq> HAL_NORFLASH_SUSPENDED"
    using less.prems that by (subst to_end.simps) (auto simp: flash_ends_def flash_ok_idle flash_goal_idle)
  show ?case
  proof (cases "ret = HAL_NORFLASH_SUSPENDED")
    case True
    then have k: "flash_ok c lo hi s" "suspend_state s = st" "flash_goal D s = goal"
      using less.prems by (auto simp: flash_ends_def)
    from resume [OF k(1,2)] obtain r s1 where
      s1: "resume s = Some (r, s1)" "flash_ends c D st True lo hi goal s r s1"
      unfolding k(3) by blast
    have "\<exists>s'. to_end resume r s1 = Some (HAL_NORFLASH_OK, s') \<and> suspend_state s' = SUSPEND_STATE_NONE \<and>
      fl_busy s' = None \<and> fl_mem s' = goal"
    proof (cases "r = HAL_NORFLASH_SUSPENDED")
      case True
      then have "length (fl_irqs s1) < length (fl_irqs s)" using s1(2) by (auto simp: flash_ends_def)
      from less.hyps [OF this s1(2)] show ?thesis .
    next
      case False
      then show ?thesis using s1(2) by (subst to_end.simps) (auto simp: flash_ends_def flash_ok_idle flash_goal_idle)
    qed
    then show ?thesis using True s1(1) by (subst to_end.simps) simp
  qed (rule fin)
qed

text \<open>C13: However often interrupts suspend it, an erase that is resumed until it ends has erased exactly the sectors
  that meet its range, and a write has programmed exactly its bytes, by clearing bits; both end without an error and
  leave the driver idle. The range must end below the end of the chip.\<close>

theorem flash_suspension_is_invisible:
  assumes "chip_ok c" "suspend_state s = SUSPEND_STATE_NONE" "fl_busy s = None"
    "sectors_hi (flash_offset start) (unat len) < unat (nc_total_size c)" "unat len \<le> ptr_len p"
  shows "(\<exists>s1. do { (ret, s) \<leftarrow> hal_norflash_erase_suspend c start len True s; to_end (hal_norflash_erase_resume c True) ret s } = Some (HAL_NORFLASH_OK, s1) \<and>
      suspend_state s1 = SUSPEND_STATE_NONE \<and> fl_busy s1 = None \<and>
      fl_mem s1 = (\<lambda>i. if sectors_lo (flash_offset start) \<le> i \<and> i < sectors_hi (flash_offset start) (unat len)
        then 0xff else fl_mem s i)) \<and>
    (\<exists>s2. do { (ret, s) \<leftarrow> hal_norflash_write_suspend c D start p len True s; to_end (hal_norflash_write_resume c D True) ret s } = Some (HAL_NORFLASH_OK, s2) \<and>
      suspend_state s2 = SUSPEND_STATE_NONE \<and> fl_busy s2 = None \<and>
      fl_mem s2 = (\<lambda>i. if flash_offset start \<le> i \<and> i < flash_offset start + unat len
        then fl_mem s i AND ptr_byte D p (i - flash_offset start) else fl_mem s i))"
proof
  let ?a = "flash_offset start" and ?n = "unat len"
  have le: "sectors_lo ?a \<le> ?a" "?a + ?n \<le> sectors_hi ?a ?n" by (rule sectors_le)+
  have lohi: "over (sectors_lo ?a) (sectors_hi ?a ?n - sectors_lo ?a) ff (fl_mem s) =
      (\<lambda>i. if sectors_lo ?a \<le> i \<and> i < sectors_hi ?a ?n then 0xff else fl_mem s i)"
    using le by (auto simp: over_def fun_eq_iff)
  from erase_suspend_ok [OF assms(1-4), of True D] obtain r s1 where
    r: "hal_norflash_erase_suspend c start len True s = Some (r, s1)"
      "flash_ends c D SUSPEND_STATE_ERASE True (sectors_lo ?a) (sectors_hi ?a ?n)
        (\<lambda>i. if sectors_lo ?a \<le> i \<and> i < sectors_hi ?a ?n then 0xff else fl_mem s i) s r s1"
    unfolding lohi by blast
  from to_end_ok [where resume = "hal_norflash_erase_resume c True", OF erase_resume_ok [OF assms(1)] r(2)] r(1)
  show "\<exists>s1. do { (ret, s) \<leftarrow> hal_norflash_erase_suspend c start len True s; to_end (hal_norflash_erase_resume c True) ret s } = Some (HAL_NORFLASH_OK, s1) \<and>
      suspend_state s1 = SUSPEND_STATE_NONE \<and> fl_busy s1 = None \<and>
      fl_mem s1 = (\<lambda>i. if sectors_lo ?a \<le> i \<and> i < sectors_hi ?a ?n then 0xff else fl_mem s i)" by simp
  have "?a + ?n < unat (nc_total_size c)" using le assms(4) by simp
  from write_suspend_ok [OF assms(1-3,5) this, of D True] obtain r2 s2 where
    r2: "hal_norflash_write_suspend c D start p len True s = Some (r2, s2)"
      "flash_ends c D SUSPEND_STATE_PROGRAM True ?a (?a + ?n) (prog D p ?a ?n (fl_mem s)) s r2 s2" by blast
  from to_end_ok [where resume = "hal_norflash_write_resume c D True", OF write_resume_ok [OF assms(1)] r2(2)] r2(1)
  show "\<exists>s2. do { (ret, s) \<leftarrow> hal_norflash_write_suspend c D start p len True s; to_end (hal_norflash_write_resume c D True) ret s } = Some (HAL_NORFLASH_OK, s2) \<and>
      suspend_state s2 = SUSPEND_STATE_NONE \<and> fl_busy s2 = None \<and>
      fl_mem s2 = (\<lambda>i. if ?a \<le> i \<and> i < ?a + ?n then fl_mem s i AND ptr_byte D p (i - ?a) else fl_mem s i)"
    by (simp add: prog_def over_def)
qed

text \<open>A chip of 4 MB that is idle.\<close>

definition chip4 :: norflash_ctx where
  "chip4 = \<lparr>nc_opened = True, nc_total_size = 0x400000, nc_block_size = 0x8000, nc_sector_size = 0x1000,
     nc_page_size = 0x100, nc_suspend_mode = True\<rparr>"

definition idle_flash :: "(nat \<Rightarrow> u8) option list \<Rightarrow> flash" where
  "idle_flash irqs = \<lparr>fl_mem = \<lambda>_. 0, fl_busy = None, fl_irqs = irqs, suspend_state = SUSPEND_STATE_NONE,
     op_next_addr = 0, op_next_buf = Caller_Buf [], op_remain_len = 0\<rparr>"

lemma chip4_ok: "chip_ok chip4"
  by (simp add: chip_ok_def chip4_def)

theorem flash_suspension_is_invisible_witness:
  "\<exists>s1. do { (ret, s) \<leftarrow> hal_norflash_erase_suspend chip4 0x3C001234 3 True (idle_flash [Some (\<lambda>_. 1), Some (\<lambda>_. 2)]);
      to_end (hal_norflash_erase_resume chip4 True) ret s }
      = Some (HAL_NORFLASH_OK, s1) \<and> fl_mem s1 0x1fff = 0xff"
proof -
  have off: "flash_offset 0x3C001234 = 0x1234" by (simp add: flash_offset_mod)
  have "sectors_hi (flash_offset 0x3C001234) (unat (3 :: u32)) = 0x2000" "sectors_lo (flash_offset 0x3C001234) = 0x1000"
    by (simp_all add: off sectors_hi_def sectors_lo_def)
  then show ?thesis
    using conjunct1 [OF flash_suspension_is_invisible [OF chip4_ok, of "idle_flash [Some (\<lambda>_. 1), Some (\<lambda>_. 2)]" "0x3C001234" 3 "Caller_Buf [1, 2, 3]"]]
    by (force simp: idle_flash_def chip4_def)
qed

text \<open>C19: On a chip smaller than the 64 MB the driver can address, an erase whose last sector is the last one of the
  chip cannot be resumed: if it is suspended in this sector, resuming it finishes the sector, but reports a bad address and
  does not note that nothing is suspended any more, so that every later erase and write is refused.\<close>

theorem flash_resume_at_chip_end:
  assumes "chip_ok c" "nc_suspend_mode c" "unat (nc_total_size c) < 0x4000000"
    "flash_offset start + 4096 = unat (nc_total_size c)"
    "suspend_state s = SUSPEND_STATE_NONE" "fl_busy s = None" "fl_irqs s = [Some junk]"
  shows "\<exists>s1 s2. hal_norflash_erase_suspend c start 4096 True s = Some (HAL_NORFLASH_SUSPENDED, s1) \<and>
    hal_norflash_erase_resume c susp s1 = Some (HAL_NORFLASH_BAD_ADDR, s2) \<and>
    fl_mem s2 = (\<lambda>i. if flash_offset start \<le> i \<and> i < flash_offset start + 4096 then 0xff else fl_mem s i) \<and>
    (\<forall>x n. hal_norflash_erase c x n s2 = Some (HAL_NORFLASH_BAD_OP, s2)) \<and>
    (\<forall>D x p n. hal_norflash_write c D x p n s2 = Some (HAL_NORFLASH_BAD_OP, s2))"
proof -
  note C = chip_okD [OF assms(1)]
  let ?a = "flash_offset start" and ?t = "nc_total_size c"
  have am: "?a mod 4096 = 0" using assms(4) C(7) by (metis mod_add_self2)
  then have "unat (start AND (4096 - 1)) = 0" by (simp add: unat_and_low offset_mods)
  then have head: "start AND (4096 - 1) = 0" by (metis unat_eq_zero)
  have guards: "\<not> ?t \<le> start AND HAL_NORFLASH_ADDR_MASK" "\<not> ?t - (start AND HAL_NORFLASH_ADDR_MASK) < 4096"
    using assms(4) by (auto simp: word_le_nat_alt word_less_nat_alt flash_offset_def unat_sub_small)
  have "32768 \<le> unat ?t" using C(5) assms(4) by (metis add_gr_0 dvd_imp_le mod_eq_0_iff_dvd zero_less_numeral)
  then have chip: "\<not> ?t \<le> 4096" by (simp add: word_le_nat_alt)
  define s1 where "s1 = s\<lparr>fl_mem := over ?a 4096 junk (fl_mem s), fl_busy := Some (?a, 4096, ff), fl_irqs := [],
    suspend_state := SUSPEND_STATE_ERASE, op_next_addr := start + 4096, op_remain_len := 0\<rparr>"
  have al: "?a div 4096 * 4096 = ?a" using am div_mult_mod_eq [of ?a 4096] by simp
  have er: "norflash_erase c start DRV_NORFLASH_ERASE_SECTOR True s = Some (HAL_NORFLASH_SUSPENDED,
      s\<lparr>fl_mem := over ?a 4096 junk (fl_mem s), fl_busy := Some (?a, 4096, ff), fl_irqs := []\<rparr>)"
    using assms(6,7) al by (simp add: norflash_erase_def erase_size_def C norflash_status_WIP_1_wait_def)
  have stop: "erase_loop c True HAL_NORFLASH_SUSPENDED x n t = Some (HAL_NORFLASH_SUSPENDED, x, n, t)" for x n t
    by (subst erase_loop.simps) simp
  have lp: "erase_loop c True HAL_NORFLASH_OK start 4096 s = Some (HAL_NORFLASH_SUSPENDED, start + 4096, 0,
      s\<lparr>fl_mem := over ?a 4096 junk (fl_mem s), fl_busy := Some (?a, 4096, ff), fl_irqs := []\<rparr>)"
    using stop by (subst erase_loop.simps) (simp add: er C)
  have e1: "hal_norflash_erase_suspend c start 4096 True s = Some (HAL_NORFLASH_SUSPENDED, s1)"
    using assms(2,5) guards chip head lp
    by (simp add: hal_norflash_erase_suspend_def hal_norflash_erase_int_def C Let_def s1_def)
  define s2 where "s2 = s1\<lparr>fl_mem := over ?a 4096 ff (fl_mem s1), fl_busy := None\<rparr>"
  have w: "norflash_erase_resume susp s1 = (HAL_NORFLASH_OK, s2)"
    by (simp add: norflash_erase_resume_def norflash_status_WIP_1_wait_def Let_def s1_def s2_def)
  have "flash_offset (start + 4096) = unat ?t" using flash_offset_add [of start 4096] assms(3,4) by simp
  then have "?t \<le> (start + 4096) AND HAL_NORFLASH_ADDR_MASK" by (simp add: word_le_nat_alt flash_offset_def)
  then have e2: "hal_norflash_erase_resume c susp s1 = Some (HAL_NORFLASH_BAD_ADDR, s2)"
    using assms(2) w by (simp add: hal_norflash_erase_resume_def hal_norflash_erase_int_def C) (simp add: s1_def s2_def)
  have st: "suspend_state s2 = SUSPEND_STATE_ERASE" by (simp add: s2_def s1_def)
  have mem: "fl_mem s2 = (\<lambda>i. if ?a \<le> i \<and> i < ?a + 4096 then 0xff else fl_mem s i)"
    by (auto simp: s2_def s1_def over_def fun_eq_iff)
  have "hal_norflash_erase c x n s2 = Some (HAL_NORFLASH_BAD_OP, s2)"
    "hal_norflash_write c D x p n s2 = Some (HAL_NORFLASH_BAD_OP, s2)" for D x p n
    using st C(1) by (simp_all add: hal_norflash_erase_def hal_norflash_write_def
      hal_norflash_erase_suspend_def hal_norflash_write_suspend_def)
  then show ?thesis using e1 e2 mem by blast
qed

theorem flash_resume_at_chip_end_witness:
  "\<exists>s1 s2. hal_norflash_erase_suspend chip4 0x3C3FF000 4096 True (idle_flash [Some (\<lambda>_. 1)]) = Some (HAL_NORFLASH_SUSPENDED, s1) \<and>
    hal_norflash_erase_resume chip4 False s1 = Some (HAL_NORFLASH_BAD_ADDR, s2) \<and>
    hal_norflash_erase chip4 0x3C000000 4096 s2 = Some (HAL_NORFLASH_BAD_OP, s2)"
proof -
  have "flash_offset 0x3C3FF000 + 4096 = unat (nc_total_size chip4)" by (simp add: flash_offset_mod chip4_def)
  from flash_resume_at_chip_end [OF chip4_ok _ _ this, where s = "idle_flash [Some (\<lambda>_. 1)]" and susp = False and junk = "\<lambda>_. 1"]
  show ?thesis by (simp add: chip4_def idle_flash_def) blast
qed

end
