(* ===== verification/Norflash_Props.thy ===== *)
theory Norflash_Props
  imports Norflash_Runs Norflash_Hal_Props
begin

text \<open>The properties of the flash service.\<close>

section \<open>A service with one module\<close>

definition opra_zero :: opra_info where
  "opra_zero = \<lparr>oi_type = NORFLASH_API_ALL, oi_addr = 0, oi_len = 0, oi_w_offs = 0, oi_w_len = 0, oi_buff = None,
     oi_lock = False, oi_next = None\<rparr>"

definition start :: norflash_api where
  "start = \<lparr>na_is_inited = False, na_mod_info = (\<lambda>_. module_zero), na_cur_mod_id = 0, na_cur_mod = None, na_allowed_cb = 0,
     na_opera_used = (\<lambda>_. False), na_opera = (\<lambda>_. opra_zero), na_data_used = (\<lambda>_. False), na_data = (\<lambda>_ _. 0),
     na_flash = (idle_flash [])\<lparr>fl_mem := \<lambda>_. 0xff\<rparr>, na_allow = [], na_done = []\<rparr>"

text \<open>The module 3 has four sectors of the blank chip.\<close>

definition demo_module :: module_info where
  "demo_module = \<lparr>mi_is_inited = True, mi_dev_id = 0, mi_mod_id = 3, mi_base_addr = 0x38100000, mi_len = 0x4000,
     mi_block_len = 0x8000, mi_sector_len = 4096, mi_page_len = 256, mi_buff_len = 4096, mi_cb_func = 1, mi_opera = None,
     mi_cur = None, mi_state = NORFLASH_API_STATE_IDLE\<rparr>"

definition demo :: norflash_api where
  "demo = start\<lparr>na_is_inited := True, na_cur_mod_id := 12, na_mod_info := (\<lambda>_. module_zero)(3 := demo_module)\<rparr>"

lemma demo_served: "served chip4 demo (\<lambda>_. 0xff)"
proof -
  obtain s r where s: "norflash_api_init start = (r, s)" by (cases "norflash_api_init start")
  have "pool_free start" by (simp add: pool_free_def start_def idle_flash_def)
  from served_init [OF chip4_ok this s] have 1: "served chip4 s (\<lambda>_. 0xff)" by (simp add: start_def)
  have si: "s = start\<lparr>na_is_inited := True, na_mod_info := \<lambda>_. module_zero, na_cur_mod_id := 12, na_cur_mod := None, na_allowed_cb := 0\<rparr>"
    using s by (simp add: norflash_api_init_def)
  have "free_region chip4 0x38100000 0x4000 s"
    by (simp add: free_region_def mod_ok_def si module_zero_def flash_offset_mod chip4_def)
  moreover have "norflash_api_register 3 0 0x38100000 0x4000 0x8000 4096 256 4096 1 s = Some (NORFLASH_API_OK, demo)"
    by (simp add: norflash_api_register_def HAL_NORFLASH_ID_NUM_def api_is_align_def si demo_def start_def upd_mod_def
      module_zero_def demo_module_def fun_eq_iff)
  moreover have "\<not> mi_is_inited (na_mod_info s 3)" by (simp add: si module_zero_def)
  ultimately have "served chip4 demo (new_content 0x38100000 0x4000 s (\<lambda>_. 0xff))" by (rule served_register [OF 1, rotated 1])
  moreover have "new_content 0x38100000 0x4000 s (\<lambda>_. 0xff) = (\<lambda>_. 0xff)"
    by (simp add: new_content_def over_def si start_def fun_eq_iff)
  ultimately show ?thesis by simp
qed

lemma demo_simps [simp]: "na_mod_info demo 3 = demo_module" "na_allowed_cb demo = 0" "mi_is_inited demo_module"
  by (simp_all add: demo_def start_def demo_module_def)

lemma demo_within: "within demo_module 0x38101004 3" "sector_in demo_module 0x38102000" "\<not> buried demo 3 a"
  "span demo_module 0x38101ffe 5" "span demo_module 0x38101000 4096"
  by (simp_all add: within_def sector_in_def demo_module_def buried_def queue_def span_def)

lemma demo_writable: "writable (\<lambda>_. 0xff) a bs"
proof -
  have e: "(0xff :: u8) = - 1" by simp
  show ?thesis unfolding writable_def e by (simp only: and.left_neutral) simp
qed

section \<open>Reachable states are well formed\<close>

definition well_typed :: "norflash_api \<Rightarrow> bool" where
  "well_typed s \<longleftrightarrow>
     (\<forall>m. mi_is_inited (na_mod_info s m) \<longrightarrow> m < NORFLASH_API_MODULE_ID_COUNT \<and> distinct (queue s m) \<and>
        (queue s m \<noteq> [] \<longrightarrow> oi_next (na_opera s (last (queue s m))) = None) \<and>
        (mi_state (na_mod_info s m) = NORFLASH_API_STATE_IDLE \<or>
         queue s m \<noteq> [] \<and> mi_cur (na_mod_info s m) = Some (last (queue s m)) \<and>
         mi_state (na_mod_info s m) = (if oi_type (na_opera s (last (queue s m))) = NORFLASH_API_WRITTING
           then NORFLASH_API_STATE_WRITTING_SUSPEND else NORFLASH_API_STATE_ERASE_SUSPEND)) \<and>
        (\<forall>p \<in> set (queue s m). p < NORFLASH_API_OPRA_LIST_LEN \<and> sector_in (na_mod_info s m) (oi_addr (na_opera s p)) \<and>
           oi_len (na_opera s p) = 4096 \<and>
           (oi_type (na_opera s p) = NORFLASH_API_WRITTING \<and> oi_buff (na_opera s p) = Some 0 \<and> 0 < unat (oi_w_len (na_opera s p)) \<and>
              unat (oi_w_offs (na_opera s p)) + unat (oi_w_len (na_opera s p)) \<le> 4096 \<or>
            oi_type (na_opera s p) = NORFLASH_API_ERASING \<and> oi_buff (na_opera s p) = None))) \<and>
     (\<forall>m m'. mi_is_inited (na_mod_info s m) \<and> mi_is_inited (na_mod_info s m') \<and> m \<noteq> m' \<longrightarrow> set (queue s m) \<inter> set (queue s m') = {}) \<and>
     (\<forall>p < NORFLASH_API_OPRA_LIST_LEN. na_opera_used s p \<longleftrightarrow> (\<exists>m. mi_is_inited (na_mod_info s m) \<and> p \<in> set (queue s m))) \<and>
     (na_data_used s 0 \<longleftrightarrow>
        (\<exists>m. mi_is_inited (na_mod_info s m) \<and> (\<exists>p \<in> set (queue s m). oi_type (na_opera s p) = NORFLASH_API_WRITTING)))"

lemma path_end: "lpath nd tmp ns \<Longrightarrow> ns \<noteq> [] \<Longrightarrow> nd (last ns) = None"
proof (induction ns arbitrary: tmp)
  case (Cons p ns)
  then show ?case by (cases ns) auto
qed simp

lemma service_well_typed:
  assumes s: "service c s qs L"
  shows "well_typed s"
proof -
  note P = serviceD(2) [OF s, unfolded pool_rep_def]
  have disj: "m \<noteq> m' \<Longrightarrow> set (qs m) \<inter> set (qs m') = {}" for m m' using P by blast
  have qe: "queue s m = qs m" if "mi_is_inited (na_mod_info s m)" for m using queue_ok [OF s that] .
  have some: "(\<exists>m. mi_is_inited (na_mod_info s m) \<and> R (queue s m)) \<longleftrightarrow> (\<exists>m. R (qs m))" if "\<not> R []" for R
    using qe serviceD(4) [OF s] that by metis
  show ?thesis
    unfolding well_typed_def
  proof (intro conjI allI impI)
    fix m assume m: "mi_is_inited (na_mod_info s m)"
    note q = serviceD(5) [OF s m]
    note Q = queue_repD [OF q]
    show "m < NORFLASH_API_MODULE_ID_COUNT" using modules_okD(3) [OF serviceD(1) [OF s] m] by simp
    show "distinct (queue s m)" using Q(2) qe [OF m] by simp
    show "oi_next (na_opera s (last (queue s m))) = None" if "queue s m \<noteq> []"
      using path_end [OF Q(1)] that qe [OF m] by (simp add: nxt_def)
    show "mi_state (na_mod_info s m) = NORFLASH_API_STATE_IDLE \<or>
         queue s m \<noteq> [] \<and> mi_cur (na_mod_info s m) = Some (last (queue s m)) \<and>
         mi_state (na_mod_info s m) = (if oi_type (na_opera s (last (queue s m))) = NORFLASH_API_WRITTING
           then NORFLASH_API_STATE_WRITTING_SUSPEND else NORFLASH_API_STATE_ERASE_SUSPEND)"
    proof -
      have "mi_state (na_mod_info s m) = NORFLASH_API_STATE_IDLE \<or> (\<exists>p. mi_cur (na_mod_info s m) = Some p \<and>
         mi_state (na_mod_info s m) = (if writing (na_opera s p) then NORFLASH_API_STATE_WRITTING_SUSPEND else NORFLASH_API_STATE_ERASE_SUSPEND))"
        using q unfolding queue_rep_def by blast
      then show ?thesis using Q(6) unfolding qe [OF m] by blast
    qed
    show "\<forall>p \<in> set (queue s m). p < NORFLASH_API_OPRA_LIST_LEN \<and> sector_in (na_mod_info s m) (oi_addr (na_opera s p)) \<and>
           oi_len (na_opera s p) = 4096 \<and>
           (oi_type (na_opera s p) = NORFLASH_API_WRITTING \<and> oi_buff (na_opera s p) = Some 0 \<and> 0 < unat (oi_w_len (na_opera s p)) \<and>
              unat (oi_w_offs (na_opera s p)) + unat (oi_w_len (na_opera s p)) \<le> 4096 \<or>
            oi_type (na_opera s p) = NORFLASH_API_ERASING \<and> oi_buff (na_opera s p) = None)"
    proof
      fix p assume p: "p \<in> set (queue s m)"
      obtain m' where "op_ok (na_data s) (na_mod_info s m) (na_opera s p) m'"
        using ops_ok_member [OF Q(4)] p unfolding qe [OF m] by blast
      then show "p < NORFLASH_API_OPRA_LIST_LEN \<and> sector_in (na_mod_info s m) (oi_addr (na_opera s p)) \<and>
           oi_len (na_opera s p) = 4096 \<and>
           (oi_type (na_opera s p) = NORFLASH_API_WRITTING \<and> oi_buff (na_opera s p) = Some 0 \<and> 0 < unat (oi_w_len (na_opera s p)) \<and>
              unat (oi_w_offs (na_opera s p)) + unat (oi_w_len (na_opera s p)) \<le> 4096 \<or>
            oi_type (na_opera s p) = NORFLASH_API_ERASING \<and> oi_buff (na_opera s p) = None)"
        using Q(3) p qe [OF m] by (auto simp: op_ok_def split: if_splits)
    qed
  next
    fix m m' assume "mi_is_inited (na_mod_info s m) \<and> mi_is_inited (na_mod_info s m') \<and> m \<noteq> m'"
    then show "set (queue s m) \<inter> set (queue s m') = {}" using disj [of m m'] qe by simp
  next
    fix p assume "p < NORFLASH_API_OPRA_LIST_LEN"
    then show "na_opera_used s p \<longleftrightarrow> (\<exists>m. mi_is_inited (na_mod_info s m) \<and> p \<in> set (queue s m))"
      using P some [of "\<lambda>ns. p \<in> set ns"] by simp
  next
    show "na_data_used s 0 \<longleftrightarrow>
        (\<exists>m. mi_is_inited (na_mod_info s m) \<and> (\<exists>p \<in> set (queue s m). oi_type (na_opera s p) = NORFLASH_API_WRITTING))"
      using P some [of "\<lambda>ns. \<exists>p \<in> set ns. writing (na_opera s p)"] by simp
  qed
qed

text \<open>C12: Every state the flash service reaches is well formed: a module's queue is a finite list without repetition of
  slots of the pool, each with a whole sector of the module and either an erase without a buffer or a write of a part of
  the sector with the data buffer; a suspended operation is the oldest of its module and has the kind that the module's
  state says; queues do not share slots, and a slot or the buffer is marked used exactly when a queue holds it.\<close>

theorem norflash_state_typed:
  assumes "served c s L"
  shows "well_typed s"
  using served_service [OF assms] service_well_typed by blast

theorem norflash_state_typed_witness: "well_typed demo"
  by (rule norflash_state_typed [OF demo_served])

section \<open>The content the clients see\<close>

text \<open>C7: Whatever is still queued, suspended or half done, a read inside a sector returns exactly what the clients have put
  there.\<close>

theorem norflash_read_refines:
  assumes "served c s L" "mi_is_inited (na_mod_info s m)" "within (na_mod_info s m) a (unat len)"
  shows "norflash_api_read m a len s = Some (NORFLASH_API_OK, map (\<lambda>k. L (flash_offset a + k)) [0..<unat len])"
proof -
  obtain qs where s: "service c s qs L" using served_service [OF assms(1)] by blast
  have "map L [flash_offset a..<flash_offset a + unat len] = map (\<lambda>k. L (flash_offset a + k)) [0..<unat len]"
    by (rule nth_equalityI) simp_all
  then show ?thesis using read_ok [OF s assms(2,3) refl] by simp
qed

theorem norflash_read_refines_witness: "norflash_api_read 3 0x38101004 3 demo = Some (NORFLASH_API_OK, [0xff, 0xff, 0xff])"
proof -
  have "within (na_mod_info demo 3) 0x38101004 (unat (3 :: u32))" using demo_within(1) by simp
  from norflash_read_refines [OF demo_served _ this] show ?thesis by (simp add: upt_conv_Cons)
qed



text \<open>C6: A step of flushing always returns, whatever interrupts suspend it, and does not change the content; flushing
  everything comes to an end, with no operation left in any queue and the content in the flash itself.\<close>

theorem norflash_flush_drains:
  assumes "served c s L"
  shows "(\<exists>r s1. norflash_api_flush c s = Some (r, s1) \<and> served c s1 L) \<and>
    (\<exists>s2. norflash_api_flush_all c s = Some s2 \<and> served c s2 L \<and>
      (\<forall>m. mi_is_inited (na_mod_info s2 m) = mi_is_inited (na_mod_info s m)) \<and>
      (\<forall>m. mi_is_inited (na_mod_info s2 m) \<longrightarrow> queue s2 m = [] \<and>
        (\<forall>x. in_range (na_mod_info s2 m) x \<longrightarrow> fl_mem (na_flash s2) x = L x)))"
proof
  obtain qs where s: "service c s qs L" using served_service [OF assms] by blast
  show "\<exists>r s1. norflash_api_flush c s = Some (r, s1) \<and> served c s1 L"
    using api_flush_ok [OF s] served_flush [OF assms] by blast
  obtain s2 where s2: "norflash_api_flush_all c s = Some s2" "service c s2 (\<lambda>_. []) L" "keeps_modules s s2" "na_cur_mod s2 = None"
    using flush_all_ok [OF s] by blast
  have "served c s2 L" using served_flush_all [OF assms s2(1)] .
  then show "\<exists>s2. norflash_api_flush_all c s = Some s2 \<and> served c s2 L \<and>
      (\<forall>m. mi_is_inited (na_mod_info s2 m) = mi_is_inited (na_mod_info s m)) \<and>
      (\<forall>m. mi_is_inited (na_mod_info s2 m) \<longrightarrow> queue s2 m = [] \<and>
        (\<forall>x. in_range (na_mod_info s2 m) x \<longrightarrow> fl_mem (na_flash s2) x = L x))"
    using s2(1) keeps_modulesD(1) [OF s2(3)] queue_ok [OF s2(2)] drained_content [OF s2(2,4)]
    by (intro exI [of _ s2]) auto
qed

theorem norflash_flush_drains_witness:
  "\<exists>s2. norflash_api_flush_all chip4 demo = Some s2 \<and> queue s2 3 = [] \<and> served chip4 s2 (\<lambda>_. 0xff)"
  using norflash_flush_drains [OF demo_served] by (metis demo_simps(1,3))



text \<open>C14: The helper that applications program a page with comes back: it takes the bytes, queued or at once, flushing as
  often as is needed to make room, and reading them gives what was written.\<close>

theorem norflash_page_program_returns:
  assumes "served c s L" "mi_is_inited (na_mod_info s m)" "na_allowed_cb s = 0"
    and "a = FLASH_NC_BASE + (offset AND 0xFFFFFF)"
    and "within (na_mod_info s m) a (length bs)" "writable L (flash_offset a) bs"
  shows "\<exists>s'. app_flash_page_program c m offset bs sync s = Some s' \<and>
    norflash_api_read m a (of_nat (length bs)) s' = Some (NORFLASH_API_OK, bs)"
proof -
  obtain qs where s: "service c s qs L" using served_service [OF assms(1)] by blast
  obtain s' qs' where s': "page_program_loop c m a bs (\<not> sync) s = Some s'" "service c s' qs' (put (flash_offset a) bs L)" "keeps_modules s s'"
    using page_program_ok [OF s assms(2,5,6,3)] by blast
  have m': "mi_is_inited (na_mod_info s' m)" using assms(2) keeps_modulesD(1) [OF s'(3)] by simp
  have w': "within (na_mod_info s' m) a (length bs)"
    using assms(5) s'(3) by (simp add: within_def keeps_modules_def geom_def)
  note M = modules_okD [OF serviceD(1) [OF s]]
  have "length bs < 2 ^ 32" using within_sector(6) [OF M(1) M(4) [OF assms(2)] assms(5)] .
  then have "unat (of_nat (length bs) :: u32) = length bs" by (simp add: unat_of_nat take_bit_nat_eq_self)
  from read_ok [OF s'(2) m' w' this]
  have "norflash_api_read m a (of_nat (length bs)) s' =
      Some (NORFLASH_API_OK, map (put (flash_offset a) bs L) [flash_offset a..<flash_offset a + length bs])" .
  moreover have "map (put (flash_offset a) bs L) [flash_offset a..<flash_offset a + length bs] = bs"
    by (rule nth_equalityI) (simp_all add: put_def over_def)
  ultimately show ?thesis using s'(1) unfolding app_flash_page_program_def assms(4) [symmetric] by auto
qed

theorem norflash_page_program_returns_witness:
  "\<exists>s'. app_flash_page_program chip4 3 0x101004 [1, 2, 3] False demo = Some s' \<and>
    norflash_api_read 3 0x38101004 3 s' = Some (NORFLASH_API_OK, [1, 2, 3])"
proof -
  have "length [1, 2, 3 :: u8] = 3" by simp
  then have w: "within (na_mod_info demo 3) 0x38101004 (length [1, 2, 3 :: u8])" using demo_within(1) by (simp only: demo_simps)
  have a: "(0x38101004 :: u32) = FLASH_NC_BASE + (0x101004 AND 0xFFFFFF)" by (simp add: FLASH_NC_BASE_def)
  have i: "mi_is_inited (na_mod_info demo 3)" "na_allowed_cb demo = 0" by simp_all
  from norflash_page_program_returns [OF demo_served i a w demo_writable, of False]
  have "\<exists>s'. app_flash_page_program chip4 3 0x101004 [1, 2, 3] False demo = Some s' \<and>
    norflash_api_read 3 0x38101004 (of_nat (length [1, 2, 3 :: u8])) s' = Some (NORFLASH_API_OK, [1, 2, 3])" .
  then show ?thesis by simp
qed

section \<open>A buried write\<close>


text \<open>The states on the way: the head of the queue, the slots, and which of them and whether the buffer are used.\<close>

definition queued :: "nat option \<Rightarrow> (nat \<Rightarrow> opra_info) \<Rightarrow> (nat \<Rightarrow> bool) \<Rightarrow> bool \<Rightarrow> data_bufs \<Rightarrow> norflash_api" where
  "queued h nd us ud D = demo\<lparr>na_mod_info := (\<lambda>_. module_zero)(3 := demo_module\<lparr>mi_opera := h\<rparr>), na_opera := nd,
     na_opera_used := us, na_data_used := (\<lambda>_. False)(0 := ud), na_data := D\<rparr>"


lemma queued_simps [simp]:
  "na_mod_info (queued h nd us ud D) = (\<lambda>_. module_zero)(3 := demo_module\<lparr>mi_opera := h\<rparr>)" "na_opera (queued h nd us ud D) = nd"
  "na_opera_used (queued h nd us ud D) = us" "na_data_used (queued h nd us ud D) = (\<lambda>_. False)(0 := ud)"
  "na_is_inited (queued h nd us ud D)" "na_cur_mod (queued h nd us ud D) = None" "na_cur_mod_id (queued h nd us ud D) = 12"
  "na_allowed_cb (queued h nd us ud D) = 0"
  by (simp_all add: queued_def demo_def start_def)

lemma queued_upd [simp]:
  "upd_mod 3 (\<lambda>i. i\<lparr>mi_opera := p\<rparr>) (queued h nd us ud D) = queued p nd us ud D"
  "upd_opera q f (queued h nd us ud D) = queued h (nd(q := f (nd q))) us ud D"
  "upd_data b g (queued h nd us ud D) = queued h nd us ud (D(b := g (D b)))"
  "queued h nd us ud D\<lparr>na_opera_used := us'\<rparr> = queued h nd us' ud D"
  "queued h nd us ud D\<lparr>na_data_used := (\<lambda>_. False)(0 := ud')\<rparr> = queued h nd us ud' D"
  by (simp_all add: queued_def upd_mod_def upd_opera_def upd_data_def)
















end
