(* ===== verification/Nvrec_Flash.thy ===== *)
theory Nvrec_Flash
  imports Norflash_Props Crc Nvrec_Ddb
begin

text \<open>
  Where the database of paired devices lives in flash, \<^verbatim>\<open>services/nvrecord/nvrecord.c\<close>: two sectors, the main copy and
  its backup, each an image of the pool behind a header with a magic number, a CRC, the address of the pool, a reserved
  word and the address of the configuration. The pool is written back through the flash service, either at once (\<open>False\<close>,
  the synchronous flush) or in steps, one each time the system is about to sleep (\<open>True\<close>): a state machine erases and
  writes the main sector, then erases the backup and copies the main sector to it in chunks of 128 bytes.

  The pool is its 4096 bytes, pointers into it are 32-bit addresses and a null pointer is 0. Without the traces and the
  \<^verbatim>\<open>#if 0\<close> parts; locks and the pausing of the trace output have no effect on the state. What
  \<^verbatim>\<open>heap_register\<close> and \<^verbatim>\<open>nvrec_config_new\<close> leave in a cleared pool depends on how the compiler lays out their records
  and is part of the target, as are the addresses of the pool, of the flash region and of the completion callback. A
  failed assertion, a read outside of the pool and a loop that does not end are \<open>None\<close>.
\<close>

section \<open>State\<close>

datatype NV_STATE = NV_STATE_IDLE | NV_STATE_MAIN_ERASING | NV_STATE_MAIN_ERASED | NV_STATE_MAIN_WRITTING
  | NV_STATE_MAIN_WRITTEN | NV_STATE_MAIN_DONE | NV_STATE_BAK_ERASING | NV_STATE_BAK_ERASED | NV_STATE_BAK_WRITTING
  | NV_STATE_BAK_WRITTEN | NV_STATE_BAK_DONE

record nv_target =
  userdata_start :: u32
  userdata_end :: u32
  ddblist_pool :: u32
  nv_callback_addr :: u32
  new_config :: "u8 list \<Rightarrow> u32 \<times> u8 list"

record nv_store =
  nf_api :: norflash_api
  nf_pool :: "u8 list"
  nf_is_update :: bool
  nf_state :: NV_STATE
  nf_written_size :: u32
  nf_config :: u32
  nf_init :: bool
  nf_mempool_init :: bool
  nf_mempool :: u32
  nf_main_start :: u32
  nf_bak_start :: u32
  nf_sleep_hook :: bool

definition NORFLASH_API_MODULE_ID_USERDATA :: nat where
  "NORFLASH_API_MODULE_ID_USERDATA = 1"

definition nvrecord_mem_pool_size :: u32 where
  "nvrecord_mem_pool_size = 4096"

definition nvrecord_version_magic :: u32 where
  "nvrecord_version_magic = push_bit 16 8 OR 0xcb91"

text \<open>\<open>sizeof(usrdata_ddblist_pool)\<close>, the size of the header and of the chunks the backup is copied in, and
  \<open>mempool_pre_offset\<close>, in bytes.\<close>

definition pool_bytes :: nat where "pool_bytes = 4096"

definition header_bytes :: nat where "header_bytes = 20"

definition chunk_bytes :: u32 where "chunk_bytes = 128"

definition mempool_offset :: u32 where "mempool_offset = 4 * (1 + 4 + (1 + 1))"

text \<open>Words are stored with the lowest byte first.\<close>

definition word_bytes :: "u32 \<Rightarrow> u8 list" where
  "word_bytes w = [ucast w, ucast (drop_bit 8 w), ucast (drop_bit 16 w), ucast (drop_bit 24 w)]"

definition word_at :: "u8 list \<Rightarrow> nat \<Rightarrow> u32" where
  "word_at p k = ucast (p ! k) OR push_bit 8 (ucast (p ! (k + 1))) OR push_bit 16 (ucast (p ! (k + 2)))
     OR push_bit 24 (ucast (p ! (k + 3)))"

section \<open>Validity of an image\<close>

definition contents_crc :: "u8 list \<Rightarrow> u32 option" where
  "contents_crc p = crc32 crc32_table 0 (drop header_bytes p) (pool_bytes - header_bytes)"

definition nv_record_data_is_valid :: "u8 list \<Rightarrow> bool option" where
  "nv_record_data_is_valid p =
     (if word_at p 0 \<noteq> nvrecord_version_magic then Some False
      else do { crc \<leftarrow> contents_crc p; Some (word_at p 4 = crc) })"

text \<open>Reading through pointers into the pool: a word, and the length of a string.\<close>

definition ram_word :: "nv_target \<Rightarrow> u8 list \<Rightarrow> u32 \<Rightarrow> u32 option" where
  "ram_word b p a = (let k = unat (a - ddblist_pool b) in if k + 4 \<le> length p then Some (word_at p k) else None)"

fun strlen_loop :: "u8 list \<Rightarrow> nat \<Rightarrow> nat option" where
  "strlen_loop [] n = None"
| "strlen_loop (x # xs) n = (if x = 0 then Some n else strlen_loop xs (n + 1))"

definition ram_strlen :: "nv_target \<Rightarrow> u8 list \<Rightarrow> u32 \<Rightarrow> u32 option" where
  "ram_strlen b p a = map_option of_nat (strlen_loop (drop (unat (a - ddblist_pool b)) p) 0)"

definition string_inside :: "nv_target \<Rightarrow> u8 list \<Rightarrow> u32 \<Rightarrow> u32 \<Rightarrow> u32 \<Rightarrow> bool option" where
  "string_inside b p mem_start mem_end a =
     (if mem_start \<le> a then do { n \<leftarrow> ram_strlen b p a; Some (a + n < mem_end) } else Some False)"

partial_function (option) entries_loop :: "nv_target \<Rightarrow> u8 list \<Rightarrow> u32 \<Rightarrow> u32 \<Rightarrow> u32 \<Rightarrow> bool option" where
  "entries_loop b p mem_start mem_end sub_node =
     (if sub_node = 0 then Some True
      else do {
        entry \<leftarrow> ram_word b p (sub_node + 4);
        key \<leftarrow> ram_word b p entry;
        val \<leftarrow> ram_word b p (entry + 4);
        if key = 0 \<or> val = 0 then Some False
        else do {
          k \<leftarrow> string_inside b p mem_start mem_end key;
          ok \<leftarrow> (if k then string_inside b p mem_start mem_end val else Some False);
          if ok then do { sub_node \<leftarrow> ram_word b p sub_node; entries_loop b p mem_start mem_end sub_node }
          else Some False } })"

partial_function (option) sections_loop :: "nv_target \<Rightarrow> u8 list \<Rightarrow> u32 \<Rightarrow> u32 \<Rightarrow> u32 \<Rightarrow> bool option" where
  "sections_loop b p mem_start mem_end node =
     (if node = 0 then Some True
      else do {
        sec \<leftarrow> ram_word b p (node + 4);
        entries \<leftarrow> ram_word b p (sec + 4);
        check (entries \<noteq> 0);
        sub_node \<leftarrow> ram_word b p entries;
        ret \<leftarrow> entries_loop b p mem_start mem_end sub_node;
        if ret then do { node \<leftarrow> ram_word b p node; sections_loop b p mem_start mem_end node } else Some False })"

definition nv_record_list_is_valid :: "nv_target \<Rightarrow> u8 list \<Rightarrow> bool option" where
  "nv_record_list_is_valid b p =
     (let config = word_at p 16
      in if word_at p 8 \<noteq> ddblist_pool b then Some False
         else do {
           sections \<leftarrow> ram_word b p config;
           check (sections \<noteq> 0);
           node \<leftarrow> ram_word b p sections;
           sections_loop b p config (config + of_nat (pool_bytes - header_bytes)) node })"

section \<open>Writing the pool back\<close>

text \<open>The header that the flush puts in front of the contents, and the pool as it is written.\<close>

definition nv_header :: "nv_target \<Rightarrow> u32 \<Rightarrow> u32 \<Rightarrow> u8 list" where
  "nv_header b crc config = word_bytes nvrecord_version_magic @ word_bytes crc @ word_bytes (ddblist_pool b) @ word_bytes 0 @
     word_bytes config"

definition burn_image :: "nv_target \<Rightarrow> u32 \<Rightarrow> u8 list \<Rightarrow> u8 list option" where
  "burn_image b config p = do {
     crc \<leftarrow> contents_crc p;
     let p = nv_header b crc config @ drop header_bytes p;
     valid \<leftarrow> nv_record_list_is_valid b p;
     check valid;
     Some p }"

definition set_state :: "NV_STATE \<Rightarrow> nv_store \<Rightarrow> nv_store" where
  "set_state st s = s\<lparr>nf_state := st\<rparr>"

definition api_flush :: "norflash_ctx \<Rightarrow> nv_store \<Rightarrow> nv_store option" where
  "api_flush c s = do { (_, a) \<leftarrow> norflash_api_flush c (nf_api s); Some (s\<lparr>nf_api := a\<rparr>) }"

definition erase_copy :: "norflash_ctx \<Rightarrow> u32 \<Rightarrow> nv_store \<Rightarrow> (NORFLASH_API_RET_T \<times> nv_store) option" where
  "erase_copy c addr s = do {
     (ret, a) \<leftarrow> norflash_api_erase c NORFLASH_API_MODULE_ID_USERDATA addr (of_nat pool_bytes) True (nf_api s);
     Some (ret, s\<lparr>nf_api := a\<rparr>) }"

definition write_main :: "norflash_ctx \<Rightarrow> nv_target \<Rightarrow> nv_store \<Rightarrow> (NORFLASH_API_RET_T \<times> nv_store) option" where
  "write_main c b s = do {
     p \<leftarrow> burn_image b (nf_config s) (nf_pool s);
     (ret, a) \<leftarrow> norflash_api_write c NORFLASH_API_MODULE_ID_USERDATA (nf_main_start s) p True (nf_api s);
     Some (ret, s\<lparr>nf_pool := p, nf_api := a\<rparr>) }"

definition copy_chunk :: "norflash_ctx \<Rightarrow> nv_store \<Rightarrow> (NORFLASH_API_RET_T \<times> nv_store) option" where
  "copy_chunk c s = do {
     (ret, burn_buf) \<leftarrow> norflash_api_read NORFLASH_API_MODULE_ID_USERDATA (nf_main_start s + nf_written_size s) chunk_bytes (nf_api s);
     check (ret = NORFLASH_API_OK);
     (ret, a) \<leftarrow> norflash_api_write c NORFLASH_API_MODULE_ID_USERDATA (nf_bak_start s + nf_written_size s) burn_buf True (nf_api s);
     Some (ret, s\<lparr>nf_api := a\<rparr>) }"

definition used_buffers :: "nv_store \<Rightarrow> u32 option" where
  "used_buffers s = norflash_api_get_used_buffer_count NORFLASH_API_MODULE_ID_USERDATA NORFLASH_API_ALL (nf_api s)"

text \<open>After an erase or write was refused because the service is full, the asynchronous flush lets the service do one
  step; any other failure is an assertion.\<close>

definition refused :: "norflash_ctx \<Rightarrow> NORFLASH_API_RET_T \<Rightarrow> nv_store \<Rightarrow> (NORFLASH_API_RET_T \<times> nv_store) option" where
  "refused c ret s = do { check (ret = NORFLASH_API_BUFFER_FULL); s \<leftarrow> api_flush c s; Some (ret, s) }"

definition main_async :: "norflash_ctx \<Rightarrow> nv_target \<Rightarrow> nv_store \<Rightarrow> (NORFLASH_API_RET_T \<times> nv_store) option" where
  "main_async c b s =
     (if nf_state s = NV_STATE_IDLE \<or> nf_state s = NV_STATE_MAIN_ERASING then do {
        let s = (if nf_state s = NV_STATE_IDLE then set_state NV_STATE_MAIN_ERASING s else s);
        (ret, s) \<leftarrow> erase_copy c (nf_main_start s) s;
        if ret = NORFLASH_API_OK then Some (ret, set_state NV_STATE_MAIN_ERASED s) else refused c ret s }
      else if nf_state s = NV_STATE_MAIN_ERASED \<or> nf_state s = NV_STATE_MAIN_WRITTING then do {
        let s = (if nf_state s = NV_STATE_MAIN_ERASED then set_state NV_STATE_MAIN_WRITTING s else s);
        (ret, s) \<leftarrow> write_main c b s;
        if ret = NORFLASH_API_OK then Some (ret, set_state NV_STATE_MAIN_WRITTEN (s\<lparr>nf_is_update := False\<rparr>)) else refused c ret s }
      else do {
        n \<leftarrow> used_buffers s;
        if n = 0 then Some (NORFLASH_API_OK, set_state NV_STATE_MAIN_DONE s)
        else do { s \<leftarrow> api_flush c s; Some (NORFLASH_API_OK, s) } })"

partial_function (option) copy_async :: "norflash_ctx \<Rightarrow> nv_store \<Rightarrow> (NORFLASH_API_RET_T \<times> nv_store) option" where
  "copy_async c s = do {
     (ret, s) \<leftarrow> copy_chunk c s;
     if ret = NORFLASH_API_OK then
       (let s = s\<lparr>nf_written_size := nf_written_size s + chunk_bytes\<rparr>
        in if nf_written_size s = nvrecord_mem_pool_size then Some (ret, set_state NV_STATE_BAK_WRITTEN s) else copy_async c s)
     else refused c ret s }"

definition bak_async :: "norflash_ctx \<Rightarrow> nv_store \<Rightarrow> (NORFLASH_API_RET_T \<times> nv_store) option" where
  "bak_async c s =
     (if nf_state s = NV_STATE_MAIN_DONE \<or> nf_state s = NV_STATE_BAK_ERASING then do {
        let s = (if nf_state s = NV_STATE_MAIN_DONE then set_state NV_STATE_BAK_ERASING s else s);
        (ret, s) \<leftarrow> erase_copy c (nf_bak_start s) s;
        if ret = NORFLASH_API_OK then Some (ret, set_state NV_STATE_BAK_ERASED s) else refused c ret s }
      else if nf_state s = NV_STATE_BAK_ERASED \<or> nf_state s = NV_STATE_BAK_WRITTING then
        copy_async c (if nf_state s = NV_STATE_BAK_ERASED then set_state NV_STATE_BAK_WRITTING (s\<lparr>nf_written_size := 0\<rparr>) else s)
      else do {
        n \<leftarrow> used_buffers s;
        if n = 0 then Some (NORFLASH_API_OK, set_state NV_STATE_BAK_DONE s)
        else do { s \<leftarrow> api_flush c s; Some (NORFLASH_API_OK, s) } })"

text \<open>The waits of the synchronous flush: until the service has room for an operation, and until it has none left.\<close>

partial_function (option) wait_free :: "norflash_ctx \<Rightarrow> NORFLASH_API_OPRATION_TYPE \<Rightarrow> nv_store \<Rightarrow> nv_store option" where
  "wait_free c type s = do {
     s \<leftarrow> api_flush c s;
     n \<leftarrow> norflash_api_get_free_buffer_count type (nf_api s);
     if n = 0 then wait_free c type s else Some s }"

partial_function (option) wait_used :: "norflash_ctx \<Rightarrow> nv_store \<Rightarrow> nv_store option" where
  "wait_used c s = do {
     s \<leftarrow> api_flush c s;
     n \<leftarrow> used_buffers s;
     if 0 < n then wait_used c s else Some s }"

partial_function (option) erase_sync :: "norflash_ctx \<Rightarrow> u32 \<Rightarrow> NV_STATE \<Rightarrow> nv_store \<Rightarrow> nv_store option" where
  "erase_sync c addr st s = do {
     (ret, s) \<leftarrow> erase_copy c addr s;
     if ret = NORFLASH_API_OK then Some (set_state st s)
     else do { check (ret = NORFLASH_API_BUFFER_FULL); s \<leftarrow> wait_free c NORFLASH_API_ERASING s; erase_sync c addr st s } }"

partial_function (option) write_sync :: "norflash_ctx \<Rightarrow> nv_target \<Rightarrow> nv_store \<Rightarrow> nv_store option" where
  "write_sync c b s = do {
     (ret, s) \<leftarrow> write_main c b s;
     if ret = NORFLASH_API_OK then Some (set_state NV_STATE_MAIN_WRITTEN (s\<lparr>nf_is_update := False\<rparr>))
     else do { check (ret = NORFLASH_API_BUFFER_FULL); s \<leftarrow> wait_free c NORFLASH_API_WRITTING s; write_sync c b s } }"

partial_function (option) copy_sync :: "norflash_ctx \<Rightarrow> nv_store \<Rightarrow> nv_store option" where
  "copy_sync c s = do {
     (ret, s) \<leftarrow> copy_chunk c s;
     if ret = NORFLASH_API_OK then
       (let s = s\<lparr>nf_written_size := nf_written_size s + chunk_bytes\<rparr>
        in if nf_written_size s = nvrecord_mem_pool_size then Some (set_state NV_STATE_BAK_WRITTEN s) else copy_sync c s)
     else do {
       check (ret = NORFLASH_API_BUFFER_FULL);
       s \<leftarrow> wait_free c NORFLASH_API_WRITTING (set_state NV_STATE_BAK_WRITTING s);
       copy_sync c s } }"

definition main_sync :: "norflash_ctx \<Rightarrow> nv_target \<Rightarrow> nv_store \<Rightarrow> (NORFLASH_API_RET_T \<times> nv_store) option" where
  "main_sync c b s = do {
     s \<leftarrow> (if nf_state s = NV_STATE_IDLE \<or> nf_state s = NV_STATE_MAIN_ERASING
          then erase_sync c (nf_main_start s) NV_STATE_MAIN_ERASED s else Some s);
     s \<leftarrow> (if nf_state s = NV_STATE_MAIN_ERASED then do {
            s \<leftarrow> write_sync c b s;
            s \<leftarrow> wait_used c s;
            Some (set_state NV_STATE_MAIN_DONE s) }
          else Some s);
     Some (NORFLASH_API_OK, s) }"

definition bak_sync :: "norflash_ctx \<Rightarrow> nv_store \<Rightarrow> (NORFLASH_API_RET_T \<times> nv_store) option" where
  "bak_sync c s = do {
     s \<leftarrow> (if nf_state s = NV_STATE_MAIN_DONE \<or> nf_state s = NV_STATE_BAK_ERASING
          then erase_sync c (nf_bak_start s) NV_STATE_BAK_ERASED s else Some s);
     s \<leftarrow> (if nf_state s = NV_STATE_BAK_ERASED then do {
            s \<leftarrow> copy_sync c (set_state NV_STATE_BAK_WRITTING (s\<lparr>nf_written_size := 0\<rparr>));
            s \<leftarrow> wait_used c s;
            Some (set_state NV_STATE_BAK_DONE s) }
          else Some s);
     Some (NORFLASH_API_OK, s) }"

definition result_code :: "NORFLASH_API_RET_T \<Rightarrow> int" where
  "result_code ret = (if ret = NORFLASH_API_OK then 0 else 1)"

definition nv_record_flash_flush_main :: "norflash_ctx \<Rightarrow> nv_target \<Rightarrow> bool \<Rightarrow> nv_store \<Rightarrow> (int \<times> nv_store) option" where
  "nv_record_flash_flush_main c b is_async s =
     (if nf_config s = 0 then Some (0, s)
      else do {
        check (word_at (nf_pool s) 0 = nvrecord_version_magic);
        (ret, s) \<leftarrow> (if is_async then main_async c b s else main_sync c b s);
        Some (result_code ret, s) })"

definition nv_record_flash_flush_bak :: "norflash_ctx \<Rightarrow> bool \<Rightarrow> nv_store \<Rightarrow> (int \<times> nv_store) option" where
  "nv_record_flash_flush_bak c is_async s = do {
     (ret, s) \<leftarrow> (if is_async then bak_async c s else bak_sync c s);
     Some (result_code ret, if nf_state s = NV_STATE_BAK_DONE then set_state NV_STATE_IDLE s else s) }"

definition main_phase :: "nv_store \<Rightarrow> bool" where
  "main_phase s \<longleftrightarrow> nf_state s = NV_STATE_IDLE \<and> nf_is_update s \<or>
     nf_state s \<in> {NV_STATE_MAIN_ERASING, NV_STATE_MAIN_ERASED, NV_STATE_MAIN_WRITTING, NV_STATE_MAIN_WRITTEN}"

definition bak_phase :: "nv_store \<Rightarrow> bool" where
  "bak_phase s \<longleftrightarrow> nf_state s \<in> {NV_STATE_MAIN_DONE, NV_STATE_BAK_ERASING, NV_STATE_BAK_ERASED, NV_STATE_BAK_WRITTING,
     NV_STATE_BAK_WRITTEN, NV_STATE_BAK_DONE}"

definition nv_record_flash_flush_int :: "norflash_ctx \<Rightarrow> nv_target \<Rightarrow> bool \<Rightarrow> nv_store \<Rightarrow> (int \<times> nv_store) option" where
  "nv_record_flash_flush_int c b is_async s = do {
     (ret, s, stop) \<leftarrow> (if main_phase s then do {
         (ret, s) \<leftarrow> nv_record_flash_flush_main c b is_async s;
         Some (ret, s, is_async) }
       else Some (0, s, False));
     if \<not> stop \<and> bak_phase s then nv_record_flash_flush_bak c is_async s else Some (ret, s) }"

definition nv_record_flash_flush :: "norflash_ctx \<Rightarrow> nv_target \<Rightarrow> nv_store \<Rightarrow> nv_store option" where
  "nv_record_flash_flush c b s = do { (_, s) \<leftarrow> nv_record_flash_flush_int c b False s; Some s }"

definition nv_record_flash_flush_in_sleep :: "norflash_ctx \<Rightarrow> nv_target \<Rightarrow> nv_store \<Rightarrow> (int \<times> nv_store) option" where
  "nv_record_flash_flush_in_sleep c b s = do { (_, s) \<leftarrow> nv_record_flash_flush_int c b True s; Some (0, s) }"

section \<open>Opening\<close>

definition nv_record_init :: "norflash_ctx \<Rightarrow> nv_target \<Rightarrow> nv_store \<Rightarrow> nv_store option" where
  "nv_record_init c b s = do {
     (result, a) \<leftarrow> norflash_api_register NORFLASH_API_MODULE_ID_USERDATA 0 (userdata_start b) (userdata_end b - userdata_start b)
       (nc_block_size c) (nc_sector_size c) (nc_page_size c) (of_nat (pool_bytes * 2)) (nv_callback_addr b) (nf_api s);
     check (result = NORFLASH_API_OK);
     Some (s\<lparr>nf_api := a\<rparr>) }"

definition nv_record_mempool_init :: "nv_target \<Rightarrow> nv_store \<Rightarrow> nv_store" where
  "nv_record_mempool_init b s =
     (if nf_mempool_init s then s else s\<lparr>nf_mempool := ddblist_pool b + mempool_offset, nf_mempool_init := True\<rparr>)"

definition nv_record_config_rebuild :: "nv_target \<Rightarrow> nv_store \<Rightarrow> bt_status \<times> nv_store" where
  "nv_record_config_rebuild b s =
     (let s = s\<lparr>nf_mempool_init := False, nf_pool := word_bytes nvrecord_version_magic @ replicate (pool_bytes - 4) 0\<rparr>;
          s = nv_record_mempool_init b s;
          (config, p) = new_config b (nf_pool s);
          s = s\<lparr>nf_config := config, nf_pool := p\<rparr>
      in if config = 0 then (BT_STS_FAILED, s)
         else (BT_STS_SUCCESS, s\<lparr>nf_init := True, nf_is_update := True\<rparr>))"

text \<open>The copy at an address, as the processor reads it, and whether opening accepts it.\<close>

definition copy_at :: "u32 \<Rightarrow> nv_store \<Rightarrow> u8 list" where
  "copy_at addr s = map (\<lambda>i. flash_at (nf_api s) (addr + of_nat i)) [0..<pool_bytes]"

definition copy_is_valid :: "nv_target \<Rightarrow> u8 list \<Rightarrow> bool option" where
  "copy_is_valid b p = do {
     data \<leftarrow> nv_record_data_is_valid p;
     if data \<and> word_at p 8 = ddblist_pool b then nv_record_list_is_valid b p else Some False }"

definition nv_record_open :: "norflash_ctx \<Rightarrow> nv_target \<Rightarrow> SECTIONS_ADP_ENUM \<Rightarrow> nv_store \<Rightarrow> (bt_status \<times> nv_store) option" where
  "nv_record_open c b section_id s =
     (if nf_init s then Some (BT_STS_SUCCESS, s)
      else do {
        let s = s\<lparr>nf_main_start := userdata_start b, nf_bak_start := userdata_start b + nvrecord_mem_pool_size,
          nf_is_update := False, nf_written_size := 0, nf_state := NV_STATE_IDLE\<rparr>;
        (ret_status, s) \<leftarrow> (case section_id of
            section_usrdata_ddbrecord \<Rightarrow> do {
              let s = s\<lparr>nf_pool := copy_at (nf_main_start s) s\<rparr>;
              main_is_valid \<leftarrow> copy_is_valid b (nf_pool s);
              let s = s\<lparr>nf_pool := copy_at (nf_bak_start s) s\<rparr>;
              bak_is_valid \<leftarrow> copy_is_valid b (nf_pool s);
              (data_is_valid, s) \<leftarrow> (if main_is_valid then do {
                  let s = s\<lparr>nf_pool := copy_at (nf_main_start s) s\<rparr>;
                  s \<leftarrow> (if \<not> bak_is_valid then do {
                      (_, s) \<leftarrow> nv_record_flash_flush_int c b False
                        (s\<lparr>nf_is_update := True, nf_state := NV_STATE_MAIN_DONE, nf_config := word_at (nf_pool s) 16\<rparr>);
                      Some s }
                    else Some s);
                  Some (True, s) }
                else if bak_is_valid then do {
                  let s = s\<lparr>nf_pool := copy_at (nf_bak_start s) s\<rparr>;
                  (_, s) \<leftarrow> nv_record_flash_flush_int c b False
                    (s\<lparr>nf_config := word_at (nf_pool s) 16, nf_is_update := True, nf_state := NV_STATE_IDLE\<rparr>);
                  Some (True, s) }
                else Some (False, s));
              Some (if data_is_valid
                then (BT_STS_SUCCESS, s\<lparr>nf_config := word_at (nf_pool s) 16, nf_mempool := ddblist_pool b + mempool_offset\<rparr>)
                else nv_record_config_rebuild b s) }
          | section_none \<Rightarrow> Some (BT_STS_FAILED, s));
        let s = s\<lparr>nf_init := True\<rparr>;
        Some (ret_status, if ret_status = BT_STS_SUCCESS then s\<lparr>nf_sleep_hook := True\<rparr> else s) })"

definition nv_record_sector_clear :: "norflash_ctx \<Rightarrow> nv_target \<Rightarrow> nv_store \<Rightarrow> nv_store option" where
  "nv_record_sector_clear c b s = do {
     (ret, a) \<leftarrow> norflash_api_erase c NORFLASH_API_MODULE_ID_USERDATA (userdata_start b) (of_nat pool_bytes) False (nf_api s);
     (ret1, a) \<leftarrow> norflash_api_erase c NORFLASH_API_MODULE_ID_USERDATA (userdata_start b + nvrecord_mem_pool_size) (of_nat pool_bytes)
       False a;
     check (ret = NORFLASH_API_OK);
     check (ret1 = NORFLASH_API_OK);
     Some (s\<lparr>nf_api := a, nf_init := False, nf_mempool_init := False\<rparr>) }"

end
