(* ===== verification/Nvrec_Image.thy ===== *)
theory Nvrec_Image
  imports Nvrec_Flash
begin

text \<open>
  Images of the pool: what the flush writes is accepted by the check that opening makes, and what the two sectors hold.
\<close>

section \<open>Words and bytes\<close>

lemma word_bytes_length [simp]: "length (word_bytes w) = 4"
  by (simp add: word_bytes_def)

lemma word_at_skip [simp]: "length xs \<le> k \<Longrightarrow> word_at (xs @ p) k = word_at p (k - length xs)"
  by (simp add: word_at_def nth_append Suc_diff_le)

lemma word_at_word_bytes [simp]: "word_at (word_bytes w @ p) 0 = w"
proof (rule bit_word_eqI)
  fix n :: nat assume n: "n < LENGTH(32)"
  then consider "n < 8" | "8 \<le> n \<and> n < 16" | "16 \<le> n \<and> n < 24" | "24 \<le> n" by linarith
  then show "bit (word_at (word_bytes w @ p) 0) n = bit w n"
    using n by cases (auto simp: word_at_def word_bytes_def bit_simps)
qed

section \<open>Images\<close>

definition burnt :: "nv_target \<Rightarrow> u8 list \<Rightarrow> bool" where
  "burnt b v \<longleftrightarrow> length v = pool_bytes \<and> word_at v 16 \<noteq> 0 \<and> burn_image b (word_at v 16) v = Some v"

lemma header_length [simp]: "length (nv_header b crc config) = 20"
  by (simp add: nv_header_def)

lemma header_words [simp]:
  "word_at (nv_header b crc config @ p) 0 = nvrecord_version_magic" "word_at (nv_header b crc config @ p) 4 = crc"
  "word_at (nv_header b crc config @ p) 8 = ddblist_pool b" "word_at (nv_header b crc config @ p) 16 = config"
  by (simp_all add: nv_header_def)

lemma contents_crc_ok: "length p = pool_bytes \<Longrightarrow> \<exists>crc. contents_crc p = Some crc"
  by (simp add: contents_crc_def crc32_foldl)

lemma burn_image_Some:
  assumes "burn_image b config p = Some q"
  shows "\<exists>crc. contents_crc p = Some crc \<and> q = nv_header b crc config @ drop 20 p \<and> nv_record_list_is_valid b q = Some True"
  using assms by (auto simp: burn_image_def bind_simps Let_def header_bytes_def)

lemma burn_image_facts:
  assumes "burn_image b config p = Some q" "length p = pool_bytes"
  shows "length q = pool_bytes" "word_at q 0 = nvrecord_version_magic" "word_at q 16 = config" "drop 20 q = drop 20 p"
    "burn_image b config q = Some q" "copy_is_valid b q = Some True" "config \<noteq> 0 \<Longrightarrow> burnt b q"
proof -
  obtain crc where q: "contents_crc p = Some crc" "q = nv_header b crc config @ drop 20 p" "nv_record_list_is_valid b q = Some True"
    using burn_image_Some [OF assms(1)] by blast
  show l: "length q = pool_bytes" and "word_at q 0 = nvrecord_version_magic" and c: "word_at q 16 = config" and d: "drop 20 q = drop 20 p"
    using q(2) assms(2) by (simp_all add: pool_bytes_def)
  then have crc: "contents_crc q = Some crc" using q(1) by (simp add: contents_crc_def header_bytes_def)
  then show b: "burn_image b config q = Some q" using d q(2,3) by (simp add: burn_image_def header_bytes_def Let_def)
  show "copy_is_valid b q = Some True" using q(2,3) crc by (simp add: copy_is_valid_def nv_record_data_is_valid_def)
  show "burnt b q" if "config \<noteq> 0" using that l c b by (simp add: burnt_def)
qed

lemma burntD:
  assumes "burnt b v"
  shows "length v = pool_bytes" "word_at v 0 = nvrecord_version_magic" "copy_is_valid b v = Some True"
    "word_at v 16 \<noteq> 0" "burn_image b (word_at v 16) v = Some v"
  using assms burn_image_facts [of b "word_at v 16" v v] by (auto simp: burnt_def)

section \<open>Sectors\<close>

definition sect :: "(nat \<Rightarrow> u8) \<Rightarrow> u32 \<Rightarrow> u8 list" where
  "sect L a = map (\<lambda>k. L (flash_offset a + k)) [0..<pool_bytes]"

definition blank :: "nat \<Rightarrow> u8 list" where
  "blank n = replicate n 0xff"

lemma sect_length [simp]: "length (sect L a) = pool_bytes"
  by (simp add: sect_def)

lemma sect_cong: "(\<And>x. in_sector a x \<Longrightarrow> L x = L' x) \<Longrightarrow> sect L a = sect L' a"
  by (simp add: sect_def in_sector_def pool_bytes_def)

lemma sect_erased: "sect (over (flash_offset a) 4096 ff L) a = blank pool_bytes"
  by (rule nth_equalityI) (simp_all add: sect_def over_def blank_def pool_bytes_def)

lemma sect_put: "length q = pool_bytes \<Longrightarrow> sect (put (flash_offset a) q L) a = q"
  by (rule nth_equalityI) (simp_all add: sect_def put_def over_def)

lemma blank_writable:
  assumes "\<And>k. k < length bs \<Longrightarrow> L (a + k) = 0xff"
  shows "writable L a bs"
proof -
  have e: "(0xff :: u8) = - 1" by simp
  show ?thesis using assms unfolding writable_def e by simp
qed

lemma sect_blank:
  assumes "sect L a = take n w @ blank (pool_bytes - n)" "n \<le> k" "k < pool_bytes" "length w = pool_bytes"
  shows "L (flash_offset a + k) = 0xff"
proof -
  have "L (flash_offset a + k) = sect L a ! k" using assms(3) by (simp add: sect_def)
  also have "\<dots> = 0xff" using assms by (simp add: nth_append blank_def)
  finally show ?thesis .
qed

lemma sect_put_chunk:
  assumes "sect L a = take n w @ blank (pool_bytes - n)" "length w = pool_bytes" "n + m \<le> pool_bytes"
  shows "sect (put (flash_offset a + n) (take m (drop n w)) L) a = take (n + m) w @ blank (pool_bytes - (n + m))"
proof (rule nth_equalityI)
  fix k assume "k < length (sect (put (flash_offset a + n) (take m (drop n w)) L) a)"
  then have k: "k < pool_bytes" by simp
  have l: "length (take m (drop n w)) = m" using assms(2,3) by simp
  have old: "L (flash_offset a + k) = (take n w @ blank (pool_bytes - n)) ! k"
    using k assms(1) [symmetric] by (simp add: sect_def)
  have "sect (put (flash_offset a + n) (take m (drop n w)) L) a ! k =
      (if n \<le> k \<and> k < n + m then w ! k else (take n w @ blank (pool_bytes - n)) ! k)"
    using k assms(2,3) old by (auto simp: sect_def put_at l less_diff_conv2)
  then show "sect (put (flash_offset a + n) (take m (drop n w)) L) a ! k = (take (n + m) w @ blank (pool_bytes - (n + m))) ! k"
    using k assms(2,3) by (auto simp: nth_append blank_def)
qed (use assms in \<open>simp add: blank_def\<close>)

end
