(* ===== verification/Nvrec_Flash_Steps.thy ===== *)
theory Nvrec_Flash_Steps
  imports Nvrec_Image
begin

text \<open>
  What the calls that the flush makes to the flash service do to the two copies, and the loops in which it waits for the
  service.
\<close>

section \<open>The module of the database\<close>

abbreviation UD :: nat where "UD \<equiv> NORFLASH_API_MODULE_ID_USERDATA"

abbreviation main_copy :: "nv_target \<Rightarrow> u32" where "main_copy b \<equiv> userdata_start b"

abbreviation bak_copy :: "nv_target \<Rightarrow> u32" where "bak_copy b \<equiv> userdata_start b + nvrecord_mem_pool_size"

definition region_ok :: "nv_target \<Rightarrow> module_info \<Rightarrow> bool" where
  "region_ok b i \<longleftrightarrow> mi_is_inited i \<and> sector_in i (main_copy b) \<and> sector_in i (bak_copy b)"

definition homed :: "norflash_ctx \<Rightarrow> nv_target \<Rightarrow> norflash_api \<Rightarrow> (nat \<Rightarrow> nat list) \<Rightarrow> (nat \<Rightarrow> u8) \<Rightarrow> bool" where
  "homed c b a qs L \<longleftrightarrow> service c a qs L \<and> region_ok b (na_mod_info a UD)"

abbreviation busy_sectors :: "norflash_api \<Rightarrow> (nat \<Rightarrow> nat list) \<Rightarrow> u32 set" where
  "busy_sectors a qs \<equiv> op_addrs a (qs UD)"

lemma op_addrs_Nil [simp]: "op_addrs a [] = {}"
  by (simp add: op_addrs_def)

lemma op_addrs_empty [simp]: "op_addrs a ns = {} \<longleftrightarrow> ns = []"
  by (simp add: op_addrs_def)

lemma homedD:
  assumes "homed c b a qs L"
  shows "service c a qs L" "mi_is_inited (na_mod_info a UD)" "sector_in (na_mod_info a UD) (main_copy b)"
    "sector_in (na_mod_info a UD) (bak_copy b)" "chip_ok c" "mod_ok c (na_mod_info a UD)"
  using assms modules_okD [OF serviceD(1)] by (auto simp: homed_def region_ok_def)

lemma homed_keep:
  assumes "homed c b a qs L" "service c a' qs' L'" "keeps_modules a a'"
  shows "homed c b a' qs' L'"
  using assms keeps_modulesD [OF assms(3)] by (auto simp: homed_def region_ok_def)

lemma copies_apart:
  assumes h: "homed c b a qs L" and x: "in_sector (main_copy b) x"
  shows "\<not> in_sector (bak_copy b) x"
proof
  assume "in_sector (bak_copy b) x"
  from sectors_apart [OF homedD(5,6,3,4) [OF h] x this] show False by (simp add: nvrecord_mem_pool_size_def)
qed

lemma copies_frame:
  assumes "homed c b a qs L"
  shows "(\<And>x. \<not> in_sector (main_copy b) x \<Longrightarrow> L' x = L x) \<Longrightarrow> sect L' (bak_copy b) = sect L (bak_copy b)"
    "(\<And>x. \<not> in_sector (bak_copy b) x \<Longrightarrow> L' x = L x) \<Longrightarrow> sect L' (main_copy b) = sect L (main_copy b)"
  using copies_apart [OF assms] by (blast intro: sect_cong)+

text \<open>A sector without queued operations is in flash what the clients see.\<close>

lemma raw_copy:
  assumes h: "homed c b a qs L" and x: "addr = main_copy b \<or> addr = bak_copy b" and q: "addr \<notin> busy_sectors a qs"
  shows "map (\<lambda>i. flash_at a (addr + of_nat i)) [0..<pool_bytes] = sect L addr"
proof -
  have sec: "sector_in (na_mod_info a UD) addr" using homedD(3,4) [OF h] x by blast
  have none: "find (\<lambda>p. oi_addr (na_opera a p) = addr) (qs UD) = None" using q by (auto simp: find_None_iff op_addrs_def)
  note W = within_sector [OF homedD(5,6) [OF h] sector_within [OF sec]]
  have "flash_at a (addr + of_nat i) = L (flash_offset addr + i)" if "i < 4096" for i
    using raw_content [OF homedD(1,2) [OF h] sec none, of "flash_offset addr + i"] W(4) [OF that] that
    by (simp add: flash_at_def in_sector_def)
  then show ?thesis by (simp add: sect_def pool_bytes_def)
qed

section \<open>Calls of the service\<close>

lemma sector_plus:
  assumes "sector_in i a" "mod_ok c i" "n < 4096"
  shows "unat (a + of_nat n) = unat a + n" "(unat a + n) mod 4096 = n"
proof -
  have "unat (of_nat n :: u32) = n" using assms(3) by (simp add: unat_of_nat take_bit_nat_eq_self)
  moreover have "unat a + 4096 \<le> unat (mi_base_addr i) + unat (mi_len i)" "unat (mi_base_addr i) + unat (mi_len i) < 2 ^ 32"
    using assms by (auto simp: sector_in_def mod_ok_def)
  ultimately show "unat (a + of_nat n) = unat a + n" using assms(3) by (subst unat_add_small) simp_all
  have "unat a mod 4096 = 0" using assms(1) by (simp add: sector_in_def)
  then have "(unat a + n) mod 4096 = n mod 4096" by (metis add.left_neutral mod_add_left_eq)
  then show "(unat a + n) mod 4096 = n" using assms(3) by simp
qed

lemma flush_step:
  assumes h: "homed c b a qs L"
  shows "\<exists>r a' qs'. norflash_api_flush c a = Some (r, a') \<and> homed c b a' qs' L \<and> busy_sectors a' qs' \<subseteq> busy_sectors a qs \<and>
    (na_allowed_cb a = 0 \<longrightarrow> na_allowed_cb a' = 0 \<and> (qs = (\<lambda>_. []) \<and> qs' = (\<lambda>_. []) \<or> work qs' a' < work qs a))"
proof -
  from api_flush_ok [OF homedD(1) [OF h]] obtain r a' qs' where
    f: "norflash_api_flush c a = Some (r, a')" "service c a' qs' L" "keeps_modules a a'" "\<forall>k. op_addrs a' (qs' k) \<subseteq> op_addrs a (qs k)"
      "r = 0 \<and> na_allowed_cb a \<noteq> 0 \<and> qs' = qs \<and> na_flash a' = na_flash a \<or>
       r = 0 \<and> na_allowed_cb a' = 0 \<and> qs = (\<lambda>_. []) \<and> qs' = (\<lambda>_. []) \<and> na_cur_mod a' = None \<or>
       r = 1 \<and> na_allowed_cb a' = 0 \<and> work qs' a' < work qs a" by blast
  then show ?thesis using homed_keep [OF h f(2,3)] by blast
qed

lemma some_queued:
  assumes "service c a qs L" "(\<forall>p < 6. na_opera_used a p) \<or> na_data_used a 0"
  shows "qs \<noteq> (\<lambda>_. [])"
proof
  assume "qs = (\<lambda>_. [])"
  then show False using empty_takes_write [of c a L] assms by auto
qed

lemma erase_step:
  assumes h: "homed c b a qs L" and x: "addr = main_copy b \<or> addr = bak_copy b" and e: "qs UD = []"
  shows "\<exists>ret a' qs'. norflash_api_erase c UD addr 4096 True a = Some (ret, a') \<and> same_work a a' \<and>
    (ret = NORFLASH_API_OK \<and> homed c b a' qs' (over (flash_offset addr) 4096 ff L) \<and> busy_sectors a' qs' \<subseteq> {addr} \<or>
     ret = NORFLASH_API_BUFFER_FULL \<and> homed c b a' qs L \<and> qs \<noteq> (\<lambda>_. []))"
proof -
  have sec: "sector_in (na_mod_info a UD) addr" using homedD(3,4) [OF h] x by blast
  have "\<not> buried_write (na_opera a) (qs UD) addr" by (simp add: buried_write_def e)
  from async_erase_ok [OF homedD(1,2) [OF h] sec this] obtain r a' qs' where
    f: "norflash_api_erase c UD addr 4096 True a = Some (r, a')" "keeps_modules a a'" "same_work a a'" "only_adds UD {addr} a qs a' qs'"
      "r = NORFLASH_API_OK \<and> service c a' qs' (over (flash_offset addr) 4096 ff L) \<or>
       r = NORFLASH_API_BUFFER_FULL \<and> qs' = qs \<and> service c a' qs L \<and> (\<forall>p < 6. na_opera_used a p)" by blast
  have "busy_sectors a' qs' \<subseteq> {addr}" using f(4) [unfolded only_adds_def, rule_format, of UD] e by simp
  then show ?thesis using f(1,3,5) homed_keep [OF h _ f(2)] some_queued [OF homedD(1) [OF h]] by blast
qed

lemma write_step:
  assumes h: "homed c b a qs L" and x: "addr = main_copy b \<or> addr = bak_copy b"
    and fit: "0 < length bs" "n + length bs \<le> 4096" and wr: "writable L (flash_offset addr + n) bs"
  shows "\<exists>ret a' qs'. norflash_api_write c UD (addr + of_nat n) bs True a = Some (ret, a') \<and> same_work a a' \<and>
    (ret = NORFLASH_API_OK \<and> homed c b a' qs' (put (flash_offset addr + n) bs L) \<and> busy_sectors a' qs' \<subseteq> insert addr (busy_sectors a qs) \<or>
     ret = NORFLASH_API_BUFFER_FULL \<and> homed c b a' qs L \<and> busy_sectors a' qs \<subseteq> insert addr (busy_sectors a qs) \<and> qs \<noteq> (\<lambda>_. []))"
proof -
  let ?i = "na_mod_info a UD"
  have sec: "sector_in ?i addr" using homedD(3,4) [OF h] x by blast
  have n: "n < 4096" using fit by (cases bs) simp_all
  note un = sector_plus(1) [OF sec homedD(6) [OF h] n] and m2 = sector_plus(2) [OF sec homedD(6) [OF h] n]
  have w: "within ?i (addr + of_nat n) (length bs)"
    using sec fit unfolding within_def un m2 by (auto simp: sector_in_def)
  have so: "sec_of (addr + of_nat n) = addr"
  proof -
    have "(unat addr + n) div 4096 * 4096 = unat addr"
      using m2 by (metis add_diff_cancel_right' minus_mod_eq_div_mult)
    then show ?thesis by (simp add: word_unat_eq_iff unat_sec_of un)
  qed
  have off: "flash_offset (addr + of_nat n) = flash_offset addr + n"
    using within_sector(2) [OF homedD(5,6) [OF h] w] so by (simp add: un m2)
  from async_write_ok [OF homedD(1,2) [OF h] w] wr [folded off] obtain r a' qs' where
    f: "norflash_api_write c UD (addr + of_nat n) bs True a = Some (r, a')" "keeps_modules a a'" "same_work a a'"
      "only_adds UD {addr} a qs a' qs'"
      "r = NORFLASH_API_OK \<and> service c a' qs' (put (flash_offset addr + n) bs L) \<or>
       r = NORFLASH_API_BUFFER_FULL \<and> qs' = qs \<and> service c a' qs L \<and> ((\<forall>p < 6. na_opera_used a p) \<or> na_data_used a 0)"
    unfolding so off by blast
  have "busy_sectors a' qs' \<subseteq> insert addr (busy_sectors a qs)" using f(4) [unfolded only_adds_def, rule_format, of UD] by simp
  then show ?thesis using f(1,3,5) homed_keep [OF h _ f(2)] some_queued [OF homedD(1) [OF h]] by blast
qed

lemma read_step:
  assumes h: "homed c b a qs L" and n: "n + 128 \<le> 4096"
  shows "norflash_api_read UD (main_copy b + of_nat n) 128 a = Some (NORFLASH_API_OK, take 128 (drop n (sect L (main_copy b))))"
proof -
  let ?i = "na_mod_info a UD" and ?a = "main_copy b"
  have sec: "sector_in ?i ?a" using homedD(3) [OF h] .
  note W = within_sector [OF homedD(5,6) [OF h] sector_within [OF sec]]
  have n': "n < 4096" using n by simp
  note un = sector_plus(1) [OF sec homedD(6) [OF h] n'] and m2 = sector_plus(2) [OF sec homedD(6) [OF h] n']
  have w: "within ?i (?a + of_nat n) 128" using sec n unfolding within_def un m2 by (auto simp: sector_in_def)
  have off: "flash_offset (?a + of_nat n) = flash_offset ?a + n" by (rule W(4)) (use n in simp)
  have "map L [flash_offset ?a + n..<flash_offset ?a + n + 128] = take 128 (drop n (sect L ?a))"
    by (rule nth_equalityI) (use n in \<open>simp_all add: sect_def pool_bytes_def add.assoc\<close>)
  then show ?thesis using read_ok [OF homedD(1,2) [OF h] w, of 128] off by simp
qed

section \<open>Counting operations\<close>

lemma used_all_ok:
  assumes h: "homed c b a qs L"
  shows "norflash_api_get_used_buffer_count UD NORFLASH_API_ALL a = Some (of_nat (length (qs UD)))"
    "(of_nat (length (qs UD)) :: u32) = 0 \<longleftrightarrow> qs UD = []" "(0 :: u32) < of_nat (length (qs UD)) \<longleftrightarrow> qs UD \<noteq> []"
proof -
  let ?nd = "na_opera a" and ?ns = "qs UD"
  note q = serviceD(5) [OF homedD(1,2) [OF h]]
  have "filter (\<lambda>p. oi_type (?nd p) = NORFLASH_API_ERASING) ?ns = filter (\<lambda>p. \<not> writing (?nd p)) ?ns"
    by (rule filter_cong) (use queue_nodes(3) [OF q] in \<open>auto intro: NORFLASH_API_OPRATION_TYPE.exhaust\<close>)
  then have "length (filter (\<lambda>p. writing (?nd p)) ?ns) + length (filter (\<lambda>p. oi_type (?nd p) = NORFLASH_API_ERASING) ?ns) = length ?ns"
    using sum_length_filter_compl by metis
  then have "(of_nat (length (filter (\<lambda>p. writing (?nd p)) ?ns)) :: u32) +
      of_nat (length (filter (\<lambda>p. oi_type (?nd p) = NORFLASH_API_ERASING) ?ns)) = of_nat (length ?ns)"
    by (simp flip: of_nat_add)
  then show "norflash_api_get_used_buffer_count UD NORFLASH_API_ALL a = Some (of_nat (length ?ns))"
    using count_path [OF queue_repD(1) [OF q], where k = 0] homedD(2) [OF h]
    by (simp add: norflash_api_get_used_buffer_count_def counts_writes_def counts_erases_def get_w_count_def get_e_count_def
      NORFLASH_API_MODULE_ID_USERDATA_def)
  show pos: "(0 :: u32) < of_nat (length ?ns) \<longleftrightarrow> ?ns \<noteq> []" using ew_count_ok(2) [OF homedD(1,2) [OF h]] .
  show "(of_nat (length ?ns) :: u32) = 0 \<longleftrightarrow> ?ns = []" using pos by (auto simp: word_neq_0_conv [symmetric])
qed

lemma used_count_loop_ok:
  assumes s: "service c a qs L" and f: "\<And>m. mi_is_inited (na_mod_info a m) \<Longrightarrow> f m a = Some (of_nat (length (filter (R m) (qs m))))"
  shows "used_count_loop f ms a k = Some (k + of_nat (\<Sum>m \<leftarrow> ms. length (filter (R m) (qs m))))"
proof (induction ms arbitrary: k)
  case (Cons m ms)
  then show ?case using f [of m] serviceD(4) [OF s, of m] by (simp add: add.assoc)
qed simp

lemma queued_bound:
  assumes s: "service c a qs L"
  shows "(\<Sum>m \<leftarrow> [0..<12]. length (qs m)) \<le> 6"
proof -
  have inj: "m \<noteq> m' \<Longrightarrow> set (qs m) \<inter> set (qs m') = {}" for m m' using serviceD(2) [OF s] unfolding pool_rep_def by blast
  have q: "distinct (qs m) \<and> set (qs m) \<subseteq> {..<6}" for m
    using queue_repD(2,3) [OF serviceD(5) [OF s, of m]] serviceD(4) [OF s, of m] by (cases "mi_is_inited (na_mod_info a m)") auto
  have "(\<Sum>m \<leftarrow> [0..<12]. length (qs m)) = (\<Sum>m < 12. length (qs m))" by (simp add: sum_list_distinct_conv_sum_set atLeast0LessThan)
  also have "\<dots> = (\<Sum>m < 12. card (set (qs m)))" using q by (simp add: distinct_card)
  also have "\<dots> = card (\<Union>m < 12. set (qs m))" using inj by (subst card_UN_disjoint) auto
  also have "\<dots> \<le> card {..<6 :: nat}" using q by (intro card_mono) auto
  finally show ?thesis by simp
qed

lemma free_count_ok:
  assumes h: "homed c b a qs L" and t: "type = NORFLASH_API_WRITTING \<or> type = NORFLASH_API_ERASING"
  shows "\<exists>n. norflash_api_get_free_buffer_count type a = Some n \<and> (n = 0 \<longrightarrow> qs \<noteq> (\<lambda>_. []))"
proof -
  note s = homedD(1) [OF h]
  define k where "k = (\<Sum>m \<leftarrow> [0..<12]. length (filter (\<lambda>p. oi_type (na_opera a p) = type) (qs m)))"
  have "k \<le> (\<Sum>m \<leftarrow> [0..<12]. length (qs m))" unfolding k_def by (rule sum_list_mono) (rule length_filter_le)
  then have k: "k \<le> 6" using queued_bound [OF s] by simp
  then have uk: "unat (of_nat k :: u32) = k" by (simp add: unat_of_nat take_bit_nat_eq_self)
  have cnt: "count_loop (\<lambda>n. oi_type n = type) (na_opera a) (mi_opera (na_mod_info a m)) 0 =
      Some (of_nat (length (filter (\<lambda>p. oi_type (na_opera a p) = type) (qs m))))" if "mi_is_inited (na_mod_info a m)" for m
    using count_path [OF queue_repD(1) [OF serviceD(5) [OF s that]], where k = 0] by simp
  have "norflash_api_get_free_buffer_count type a = Some (6 - of_nat k)"
    using t
  proof
    assume t: "type = NORFLASH_API_WRITTING"
    have "used_count_loop get_w_count [0..<12] a 0 = Some (0 + of_nat k)" unfolding k_def
      by (rule used_count_loop_ok [OF s]) (use cnt t in \<open>simp add: get_w_count_def\<close>)
    then show ?thesis using t k uk
      by (simp add: norflash_api_get_free_buffer_count_def counts_writes_def counts_erases_def Let_def word_le_nat_alt)
  next
    assume t: "type = NORFLASH_API_ERASING"
    have "used_count_loop get_e_count [0..<12] a 0 = Some (0 + of_nat k)" unfolding k_def
      by (rule used_count_loop_ok [OF s]) (use cnt t in \<open>simp add: get_e_count_def\<close>)
    then show ?thesis using t k uk
      by (simp add: norflash_api_get_free_buffer_count_def counts_writes_def counts_erases_def Let_def word_le_nat_alt)
  qed
  moreover have "qs \<noteq> (\<lambda>_. [])" if "(6 :: u32) - of_nat k = 0"
  proof
    assume "qs = (\<lambda>_. [])"
    then have "k = 0" by (simp add: k_def)
    then show False using that by simp
  qed
  ultimately show ?thesis by blast
qed

section \<open>Waiting for the service\<close>

lemma api_flush_ok':
  assumes "norflash_api_flush c (nf_api s) = Some (r, a)"
  shows "api_flush c s = Some (s\<lparr>nf_api := a\<rparr>)"
  using assms by (simp add: api_flush_def)

lemma wait_free_ok:
  assumes "homed c b (nf_api s) qs L" "na_allowed_cb (nf_api s) = 0" "type = NORFLASH_API_WRITTING \<or> type = NORFLASH_API_ERASING"
  shows "\<exists>a qs'. wait_free c type s = Some (s\<lparr>nf_api := a\<rparr>) \<and> homed c b a qs' L \<and> na_allowed_cb a = 0 \<and>
    busy_sectors a qs' \<subseteq> busy_sectors (nf_api s) qs \<and> (qs \<noteq> (\<lambda>_. []) \<longrightarrow> work qs' a < work qs (nf_api s))"
  using assms
proof (induction "work qs (nf_api s)" arbitrary: s qs rule: less_induct)
  case less
  obtain r a qs1 where f: "norflash_api_flush c (nf_api s) = Some (r, a)" "homed c b a qs1 L"
    "busy_sectors a qs1 \<subseteq> busy_sectors (nf_api s) qs" "na_allowed_cb a = 0"
    "qs = (\<lambda>_. []) \<and> qs1 = (\<lambda>_. []) \<or> work qs1 a < work qs (nf_api s)"
    using flush_step [OF less.prems(1)] less.prems(2) by blast
  obtain n where n: "norflash_api_get_free_buffer_count type a = Some n" "n = 0 \<longrightarrow> qs1 \<noteq> (\<lambda>_. [])"
    using free_count_ok [OF f(2) less.prems(3)] by blast
  have step: "wait_free c type s = (if n = 0 then wait_free c type (s\<lparr>nf_api := a\<rparr>) else Some (s\<lparr>nf_api := a\<rparr>))"
    by (subst wait_free.simps) (simp add: api_flush_ok' [OF f(1)] n(1))
  show ?case
  proof (cases "n = 0")
    case True
    then have w: "work qs1 a < work qs (nf_api s)" using n(2) f(5) by blast
    have "\<exists>a' qs'. wait_free c type (s\<lparr>nf_api := a\<rparr>) = Some ((s\<lparr>nf_api := a\<rparr>)\<lparr>nf_api := a'\<rparr>) \<and> homed c b a' qs' L \<and>
      na_allowed_cb a' = 0 \<and> busy_sectors a' qs' \<subseteq> busy_sectors (nf_api (s\<lparr>nf_api := a\<rparr>)) qs1 \<and>
      (qs1 \<noteq> (\<lambda>_. []) \<longrightarrow> work qs' a' < work qs1 (nf_api (s\<lparr>nf_api := a\<rparr>)))"
      by (rule less.hyps) (use w f less.prems(3) in simp_all)
    then obtain a' qs' where r: "wait_free c type (s\<lparr>nf_api := a\<rparr>) = Some (s\<lparr>nf_api := a'\<rparr>)" "homed c b a' qs' L"
      "na_allowed_cb a' = 0" "busy_sectors a' qs' \<subseteq> busy_sectors a qs1" "work qs' a' < work qs1 a"
      using n(2) True by auto
    have "busy_sectors a' qs' \<subseteq> busy_sectors (nf_api s) qs" "work qs' a' < work qs (nf_api s)" using r(4,5) f(3) w by auto
    then show ?thesis using r(1-3) True unfolding step by auto
  next
    case False
    then show ?thesis using f unfolding step by (intro exI [of _ a] exI [of _ qs1]) auto
  qed
qed

lemma wait_used_ok:
  assumes "homed c b (nf_api s) qs L" "na_allowed_cb (nf_api s) = 0"
  shows "\<exists>a qs'. wait_used c s = Some (s\<lparr>nf_api := a\<rparr>) \<and> homed c b a qs' L \<and> na_allowed_cb a = 0 \<and> qs' UD = []"
  using assms
proof (induction "work qs (nf_api s)" arbitrary: s qs rule: less_induct)
  case less
  obtain r a qs1 where f: "norflash_api_flush c (nf_api s) = Some (r, a)" "homed c b a qs1 L" "na_allowed_cb a = 0"
    "qs = (\<lambda>_. []) \<and> qs1 = (\<lambda>_. []) \<or> work qs1 a < work qs (nf_api s)"
    using flush_step [OF less.prems(1)] less.prems(2) by blast
  have step: "wait_used c s = (if qs1 UD \<noteq> [] then wait_used c (s\<lparr>nf_api := a\<rparr>) else Some (s\<lparr>nf_api := a\<rparr>))"
    by (subst wait_used.simps) (simp add: api_flush_ok' [OF f(1)] used_buffers_def used_all_ok [OF f(2)])
  show ?case
  proof (cases "qs1 UD = []")
    case True
    then show ?thesis using f(2,3) unfolding step by auto
  next
    case False
    then have "work qs1 (nf_api (s\<lparr>nf_api := a\<rparr>)) < work qs (nf_api s)" using f(4) by auto
    from less.hyps [OF this] f(2,3) show ?thesis using False unfolding step by auto
  qed
qed

end
