(* ===== verification/Nvrec_Flash_Flush.thy ===== *)
theory Nvrec_Flash_Flush
  imports Nvrec_Flash_Steps
begin

text \<open>
  The pieces of the flush: erasing a copy, writing the main copy, copying it to the backup, each once and as the
  synchronous flush repeats it until the service takes it.
\<close>

definition starts :: "nv_target \<Rightarrow> nv_store \<Rightarrow> bool" where
  "starts b s \<longleftrightarrow> nf_main_start s = main_copy b \<and> nf_bak_start s = bak_copy b"

lemma pool_bytes_word [simp]: "of_nat pool_bytes = (4096 :: u32)"
  by (simp add: pool_bytes_def)

section \<open>Once\<close>

lemma erase_copy_ok:
  assumes h: "homed c b (nf_api s) qs L" and x: "addr = main_copy b \<or> addr = bak_copy b" and e: "qs UD = []"
  shows "\<exists>ret a. erase_copy c addr s = Some (ret, s\<lparr>nf_api := a\<rparr>) \<and> same_work (nf_api s) a \<and>
    (ret = NORFLASH_API_OK \<and> (\<exists>qs' L'. homed c b a qs' L' \<and> busy_sectors a qs' \<subseteq> {addr} \<and> sect L' addr = blank pool_bytes \<and>
       (addr = main_copy b \<longrightarrow> sect L' (bak_copy b) = sect L (bak_copy b)) \<and>
       (addr = bak_copy b \<longrightarrow> sect L' (main_copy b) = sect L (main_copy b))) \<or>
     ret = NORFLASH_API_BUFFER_FULL \<and> homed c b a qs L \<and> qs \<noteq> (\<lambda>_. []))"
proof -
  let ?L = "over (flash_offset addr) 4096 ff L"
  have out: "?L x = L x" if "\<not> in_sector addr x" for x using that by (auto simp: over_def in_sector_def)
  obtain ret a qs' where f: "norflash_api_erase c UD addr 4096 True (nf_api s) = Some (ret, a)" "same_work (nf_api s) a"
    "ret = NORFLASH_API_OK \<and> homed c b a qs' ?L \<and> busy_sectors a qs' \<subseteq> {addr} \<or>
     ret = NORFLASH_API_BUFFER_FULL \<and> homed c b a qs L \<and> qs \<noteq> (\<lambda>_. [])"
    using erase_step [OF h x e] by blast
  have "erase_copy c addr s = Some (ret, s\<lparr>nf_api := a\<rparr>)" using f(1) by (simp add: erase_copy_def)
  moreover have "sect ?L addr = blank pool_bytes" by (rule sect_erased)
  moreover have "addr = main_copy b \<longrightarrow> sect ?L (bak_copy b) = sect L (bak_copy b)"
    "addr = bak_copy b \<longrightarrow> sect ?L (main_copy b) = sect L (main_copy b)"
    using copies_frame [OF h, of ?L] out by blast+
  ultimately show ?thesis using f(2,3) by blast
qed

lemma write_main_ok:
  assumes h: "homed c b (nf_api s) qs L" and st: "starts b s" and p: "length (nf_pool s) = pool_bytes"
    and q: "burn_image b (nf_config s) (nf_pool s) = Some q" and e: "sect L (main_copy b) = blank pool_bytes"
  shows "\<exists>ret a. write_main c b s = Some (ret, s\<lparr>nf_pool := q, nf_api := a\<rparr>) \<and> same_work (nf_api s) a \<and>
    (ret = NORFLASH_API_OK \<and> (\<exists>qs' L'. homed c b a qs' L' \<and> busy_sectors a qs' \<subseteq> insert (main_copy b) (busy_sectors (nf_api s) qs) \<and>
       sect L' (main_copy b) = q \<and> sect L' (bak_copy b) = sect L (bak_copy b)) \<or>
     ret = NORFLASH_API_BUFFER_FULL \<and> homed c b a qs L \<and> busy_sectors a qs \<subseteq> insert (main_copy b) (busy_sectors (nf_api s) qs) \<and>
       qs \<noteq> (\<lambda>_. []))"
proof -
  note lq = burn_image_facts(1) [OF q p]
  let ?L = "put (flash_offset (main_copy b)) q L"
  have "writable L (flash_offset (main_copy b)) q"
    by (rule blank_writable) (use sect_blank [of L "main_copy b" 0 q] e lq in simp)
  then obtain ret a qs' where f: "norflash_api_write c UD (main_copy b) q True (nf_api s) = Some (ret, a)" "same_work (nf_api s) a"
    "ret = NORFLASH_API_OK \<and> homed c b a qs' ?L \<and> busy_sectors a qs' \<subseteq> insert (main_copy b) (busy_sectors (nf_api s) qs) \<or>
     ret = NORFLASH_API_BUFFER_FULL \<and> homed c b a qs L \<and> busy_sectors a qs \<subseteq> insert (main_copy b) (busy_sectors (nf_api s) qs) \<and>
       qs \<noteq> (\<lambda>_. [])"
    using write_step [OF h disjI1 [OF refl], of q 0] lq by (auto simp: pool_bytes_def)
  have "write_main c b s = Some (ret, s\<lparr>nf_pool := q, nf_api := a\<rparr>)"
    using f(1) q st by (simp add: write_main_def starts_def)
  moreover have "sect ?L (main_copy b) = q" by (rule sect_put [OF lq])
  moreover have "sect ?L (bak_copy b) = sect L (bak_copy b)"
  proof (rule copies_frame(1) [OF h])
    fix x assume "\<not> in_sector (main_copy b) x"
    then show "?L x = L x" using put_outside [of "main_copy b" x 0 q L] lq by (simp add: pool_bytes_def)
  qed
  ultimately show ?thesis using f(2,3) by blast
qed

text \<open>The first \<open>n\<close> bytes of the main copy, which is \<open>w\<close>, are in the backup; the rest of the backup is erased.\<close>

definition copied :: "nv_target \<Rightarrow> u8 list \<Rightarrow> nat \<Rightarrow> (nat \<Rightarrow> u8) \<Rightarrow> bool" where
  "copied b w n L \<longleftrightarrow> sect L (main_copy b) = w \<and> sect L (bak_copy b) = take n w @ blank (pool_bytes - n)"

definition chunks :: "nat \<Rightarrow> nv_store \<Rightarrow> bool" where
  "chunks n s \<longleftrightarrow> nf_written_size s = of_nat n \<and> n mod 128 = 0 \<and> n < pool_bytes"

lemma chunks_next:
  assumes "chunks n s"
  shows "n + 128 \<le> pool_bytes" "nf_written_size s + chunk_bytes = of_nat (n + 128)"
    "nf_written_size s + chunk_bytes = nvrecord_mem_pool_size \<longleftrightarrow> n + 128 = pool_bytes"
proof -
  have n: "nf_written_size s = of_nat n" "n mod 128 = 0" "n < 4096" using assms by (simp_all add: chunks_def pool_bytes_def)
  from n(2) obtain j where "n = 128 * j" by (auto simp: mod_eq_0_iff_dvd elim: dvdE)
  then show le: "n + 128 \<le> pool_bytes" using n(3) by (simp add: pool_bytes_def)
  show e: "nf_written_size s + chunk_bytes = of_nat (n + 128)" using n(1) by (simp add: chunk_bytes_def)
  have "unat (of_nat k :: u32) = k" if "k \<le> 4096" for k using that by (simp add: unat_of_nat take_bit_nat_eq_self)
  from this [of "n + 128"] have "unat (of_nat (n + 128) :: u32) = n + 128" using le by (simp only: pool_bytes_def)
  then show "nf_written_size s + chunk_bytes = nvrecord_mem_pool_size \<longleftrightarrow> n + 128 = pool_bytes"
    unfolding e by (simp only: nvrecord_mem_pool_size_def word_unat_eq_iff pool_bytes_def) simp
qed

lemma copy_chunk_ok:
  assumes h: "homed c b (nf_api s) qs L" and st: "starts b s" and n: "chunks n s" and cp: "copied b w n L"
  shows "\<exists>ret a. copy_chunk c s = Some (ret, s\<lparr>nf_api := a\<rparr>) \<and> same_work (nf_api s) a \<and>
    (ret = NORFLASH_API_OK \<and> (\<exists>qs' L'. homed c b a qs' L' \<and> busy_sectors a qs' \<subseteq> insert (bak_copy b) (busy_sectors (nf_api s) qs) \<and>
       copied b w (n + 128) L') \<or>
     ret = NORFLASH_API_BUFFER_FULL \<and> homed c b a qs L \<and> busy_sectors a qs \<subseteq> insert (bak_copy b) (busy_sectors (nf_api s) qs) \<and>
       qs \<noteq> (\<lambda>_. []))"
proof -
  note le = chunks_next(1) [OF n]
  define bs where "bs = take 128 (drop n w)"
  let ?L = "put (flash_offset (bak_copy b) + n) bs L"
  have w: "length w = pool_bytes" using cp by (auto simp: copied_def)
  have lb: "length bs = 128" using w le by (simp add: bs_def)
  have rd: "norflash_api_read UD (main_copy b + of_nat n) 128 (nf_api s) = Some (NORFLASH_API_OK, bs)"
    using read_step [OF h, of n] le cp by (simp add: copied_def bs_def pool_bytes_def)
  have "writable L (flash_offset (bak_copy b) + n) bs"
  proof (rule blank_writable)
    fix k assume "k < length bs"
    then show "L (flash_offset (bak_copy b) + n + k) = 0xff"
      using sect_blank [of L "bak_copy b" n w "n + k"] cp le w lb by (simp add: copied_def add.assoc)
  qed
  then obtain ret a qs' where f: "norflash_api_write c UD (bak_copy b + of_nat n) bs True (nf_api s) = Some (ret, a)" "same_work (nf_api s) a"
    "ret = NORFLASH_API_OK \<and> homed c b a qs' ?L \<and> busy_sectors a qs' \<subseteq> insert (bak_copy b) (busy_sectors (nf_api s) qs) \<or>
     ret = NORFLASH_API_BUFFER_FULL \<and> homed c b a qs L \<and> busy_sectors a qs \<subseteq> insert (bak_copy b) (busy_sectors (nf_api s) qs) \<and>
       qs \<noteq> (\<lambda>_. [])"
    using write_step [OF h disjI2 [OF refl], of bs n] lb le by (auto simp: pool_bytes_def)
  have "copy_chunk c s = Some (ret, s\<lparr>nf_api := a\<rparr>)"
    using rd f(1) st n by (simp add: copy_chunk_def starts_def chunks_def chunk_bytes_def)
  moreover have "copied b w (n + 128) ?L"
  proof -
    have "sect ?L (main_copy b) = sect L (main_copy b)"
    proof (rule copies_frame(2) [OF h])
      fix x assume "\<not> in_sector (bak_copy b) x"
      then show "?L x = L x" by (rule put_outside) (use lb le in \<open>simp add: pool_bytes_def\<close>)
    qed
    then show ?thesis using sect_put_chunk [of L "bak_copy b" n w 128] cp w le by (simp add: copied_def bs_def)
  qed
  ultimately show ?thesis using f(2,3) by blast
qed

section \<open>Until it is done\<close>

lemma erase_sync_ok:
  assumes "homed c b (nf_api s) qs L" "addr = main_copy b \<or> addr = bak_copy b" "qs UD = []" "na_allowed_cb (nf_api s) = 0"
  shows "\<exists>a qs' L'. erase_sync c addr st s = Some (s\<lparr>nf_api := a, nf_state := st\<rparr>) \<and> homed c b a qs' L' \<and> na_allowed_cb a = 0 \<and>
    busy_sectors a qs' \<subseteq> {addr} \<and> sect L' addr = blank pool_bytes \<and>
    (addr = bak_copy b \<longrightarrow> sect L' (main_copy b) = sect L (main_copy b))"
  using assms
proof (induction "work qs (nf_api s)" arbitrary: s qs rule: less_induct)
  case less
  obtain ret a where e: "erase_copy c addr s = Some (ret, s\<lparr>nf_api := a\<rparr>)" "same_work (nf_api s) a"
    "ret = NORFLASH_API_OK \<and> (\<exists>qs' L'. homed c b a qs' L' \<and> busy_sectors a qs' \<subseteq> {addr} \<and> sect L' addr = blank pool_bytes \<and>
       (addr = main_copy b \<longrightarrow> sect L' (bak_copy b) = sect L (bak_copy b)) \<and>
       (addr = bak_copy b \<longrightarrow> sect L' (main_copy b) = sect L (main_copy b))) \<or>
     ret = NORFLASH_API_BUFFER_FULL \<and> homed c b a qs L \<and> qs \<noteq> (\<lambda>_. [])"
    using erase_copy_ok [OF less.prems(1,2,3)] by blast
  have cb: "na_allowed_cb a = 0" and wk: "work qs a = work qs (nf_api s)"
    using e(2) less.prems(4) by (simp_all add: same_work_def work_def irqs_def)
  show ?case
  proof (cases "ret = NORFLASH_API_OK")
    case True
    then have "erase_sync c addr st s = Some (s\<lparr>nf_api := a, nf_state := st\<rparr>)"
      using e(1) by (subst erase_sync.simps) (simp add: set_state_def)
    then show ?thesis using True e(3) cb by auto
  next
    case False
    then have full: "ret = NORFLASH_API_BUFFER_FULL" "homed c b a qs L" "qs \<noteq> (\<lambda>_. [])" using e(3) by auto
    obtain a2 qs2 where w: "wait_free c NORFLASH_API_ERASING (s\<lparr>nf_api := a\<rparr>) = Some (s\<lparr>nf_api := a2\<rparr>)" "homed c b a2 qs2 L"
      "na_allowed_cb a2 = 0" "busy_sectors a2 qs2 \<subseteq> busy_sectors a qs" "work qs2 a2 < work qs a"
      using wait_free_ok [of c b "s\<lparr>nf_api := a\<rparr>" qs L NORFLASH_API_ERASING] full cb by auto
    have "qs2 UD = []" using w(4) less.prems(3) by simp
    with less.hyps [of qs2 "s\<lparr>nf_api := a2\<rparr>"] w(2,3,5) less.prems(2) wk
    have "\<exists>a qs' L'. erase_sync c addr st (s\<lparr>nf_api := a2\<rparr>) = Some (s\<lparr>nf_api := a, nf_state := st\<rparr>) \<and> homed c b a qs' L' \<and>
        na_allowed_cb a = 0 \<and> busy_sectors a qs' \<subseteq> {addr} \<and> sect L' addr = blank pool_bytes \<and>
        (addr = bak_copy b \<longrightarrow> sect L' (main_copy b) = sect L (main_copy b))" by simp
    moreover have "erase_sync c addr st s = erase_sync c addr st (s\<lparr>nf_api := a2\<rparr>)"
      using e(1) full(1) w(1) by (subst erase_sync.simps) simp
    ultimately show ?thesis by simp
  qed
qed

lemma write_sync_ok:
  assumes "homed c b (nf_api s) qs L" "starts b s" "length (nf_pool s) = pool_bytes" "burn_image b (nf_config s) (nf_pool s) = Some q"
    "sect L (main_copy b) = blank pool_bytes" "na_allowed_cb (nf_api s) = 0"
  shows "\<exists>a qs' L'. write_sync c b s = Some (s\<lparr>nf_pool := q, nf_api := a, nf_is_update := False, nf_state := NV_STATE_MAIN_WRITTEN\<rparr>) \<and>
    homed c b a qs' L' \<and> na_allowed_cb a = 0 \<and> sect L' (main_copy b) = q"
  using assms
proof (induction "work qs (nf_api s)" arbitrary: s qs rule: less_induct)
  case less
  obtain ret a where e: "write_main c b s = Some (ret, s\<lparr>nf_pool := q, nf_api := a\<rparr>)" "same_work (nf_api s) a"
    "ret = NORFLASH_API_OK \<and> (\<exists>qs' L'. homed c b a qs' L' \<and> busy_sectors a qs' \<subseteq> insert (main_copy b) (busy_sectors (nf_api s) qs) \<and>
       sect L' (main_copy b) = q \<and> sect L' (bak_copy b) = sect L (bak_copy b)) \<or>
     ret = NORFLASH_API_BUFFER_FULL \<and> homed c b a qs L \<and> qs \<noteq> (\<lambda>_. [])"
    using write_main_ok [OF less.prems(1-5)] by blast
  have cb: "na_allowed_cb a = 0" and wk: "work qs a = work qs (nf_api s)"
    using e(2) less.prems(6) by (simp_all add: same_work_def work_def irqs_def)
  show ?case
  proof (cases "ret = NORFLASH_API_OK")
    case True
    then have "write_sync c b s = Some (s\<lparr>nf_pool := q, nf_api := a, nf_is_update := False, nf_state := NV_STATE_MAIN_WRITTEN\<rparr>)"
      using e(1) by (subst write_sync.simps) (simp add: set_state_def)
    then show ?thesis using True e(3) cb by auto
  next
    case False
    then have full: "ret = NORFLASH_API_BUFFER_FULL" "homed c b a qs L" "qs \<noteq> (\<lambda>_. [])" using e(3) by auto
    let ?s = "\<lambda>a. s\<lparr>nf_pool := q, nf_api := a\<rparr>"
    obtain a2 qs2 where w: "wait_free c NORFLASH_API_WRITTING (?s a) = Some (?s a2)" "homed c b a2 qs2 L"
      "na_allowed_cb a2 = 0" "work qs2 a2 < work qs a"
      using wait_free_ok [of c b "?s a" qs L NORFLASH_API_WRITTING] full cb by auto
    note bf = burn_image_facts [OF less.prems(4,3)]
    have "\<exists>a' qs' L'. write_sync c b (?s a2) = Some (?s a2\<lparr>nf_pool := q, nf_api := a', nf_is_update := False, nf_state := NV_STATE_MAIN_WRITTEN\<rparr>) \<and>
      homed c b a' qs' L' \<and> na_allowed_cb a' = 0 \<and> sect L' (main_copy b) = q"
      by (rule less.hyps [of qs2]) (use w wk less.prems bf in \<open>simp_all add: starts_def\<close>)
    moreover have "write_sync c b s = write_sync c b (?s a2)"
      using e(1) full(1) w(1) by (subst write_sync.simps) simp
    ultimately show ?thesis by simp
  qed
qed

lemma copy_sync_ok:
  assumes "homed c b (nf_api s) qs L" "starts b s" "chunks n s" "copied b w n L" "na_allowed_cb (nf_api s) = 0"
  shows "\<exists>a qs' L'. copy_sync c s = Some (s\<lparr>nf_api := a, nf_written_size := nvrecord_mem_pool_size, nf_state := NV_STATE_BAK_WRITTEN\<rparr>) \<and>
    homed c b a qs' L' \<and> na_allowed_cb a = 0 \<and> copied b w pool_bytes L'"
  using assms
proof (induction "(pool_bytes - n, work qs (nf_api s))" arbitrary: s qs L n
    rule: wf_induct_rule [OF wf_lex_prod [OF wf_less_than wf_less_than], case_names less])
  case less
  let ?goal = "\<lambda>s'. \<exists>a qs' L'. copy_sync c s' = Some (s\<lparr>nf_api := a, nf_written_size := nvrecord_mem_pool_size,
    nf_state := NV_STATE_BAK_WRITTEN\<rparr>) \<and> homed c b a qs' L' \<and> na_allowed_cb a = 0 \<and> copied b w pool_bytes L'"
  obtain ret a where e: "copy_chunk c s = Some (ret, s\<lparr>nf_api := a\<rparr>)" "same_work (nf_api s) a"
    "ret = NORFLASH_API_OK \<and> (\<exists>qs' L'. homed c b a qs' L' \<and> copied b w (n + 128) L') \<or>
     ret = NORFLASH_API_BUFFER_FULL \<and> homed c b a qs L \<and> qs \<noteq> (\<lambda>_. [])"
    using copy_chunk_ok [OF less.prems(1-4)] by blast
  have cb: "na_allowed_cb a = 0" and wk: "work qs a = work qs (nf_api s)"
    using e(2) less.prems(5) by (simp_all add: same_work_def work_def irqs_def)
  note nx = chunks_next [OF less.prems(3)]
  show ?case
  proof (cases "ret = NORFLASH_API_OK")
    case True
    then obtain qs' L' where r: "homed c b a qs' L'" "copied b w (n + 128) L'" using e(3) by auto
    let ?s = "s\<lparr>nf_api := a, nf_written_size := nf_written_size s + chunk_bytes\<rparr>"
    have step: "copy_sync c s = (if n + 128 = pool_bytes then Some (set_state NV_STATE_BAK_WRITTEN ?s) else copy_sync c ?s)"
      using e(1) True nx(3) by (subst copy_sync.simps) simp
    show ?thesis
    proof (cases "n + 128 = pool_bytes")
      case True
      then show ?thesis using r cb nx(3) unfolding step by (auto simp: set_state_def)
    next
      case False
      have lt: "pool_bytes - (n + 128) < pool_bytes - n" using nx(1) by linarith
      have ch: "chunks (n + 128) ?s"
        using less.prems(3) nx(1,2) False by (simp add: chunks_def mod_add_eq [symmetric])
      have "\<exists>a qs' L'. copy_sync c ?s = Some (?s\<lparr>nf_api := a, nf_written_size := nvrecord_mem_pool_size,
        nf_state := NV_STATE_BAK_WRITTEN\<rparr>) \<and> homed c b a qs' L' \<and> na_allowed_cb a = 0 \<and> copied b w pool_bytes L'"
        by (rule less.hyps [OF _ _ _ ch])
          (use r cb less.prems lt in \<open>simp_all add: starts_def\<close>)
      then show ?thesis using False unfolding step by simp
    qed
  next
    case False
    then have full: "ret = NORFLASH_API_BUFFER_FULL" "homed c b a qs L" "qs \<noteq> (\<lambda>_. [])" using e(3) by auto
    let ?s = "\<lambda>a. s\<lparr>nf_state := NV_STATE_BAK_WRITTING, nf_api := a\<rparr>"
    have st: "set_state NV_STATE_BAK_WRITTING (s\<lparr>nf_api := a\<rparr>) = ?s a" by (simp add: set_state_def)
    obtain a2 qs2 where w: "wait_free c NORFLASH_API_WRITTING (?s a) = Some (?s a2)" "homed c b a2 qs2 L"
      "na_allowed_cb a2 = 0" "work qs2 a2 < work qs a"
      using wait_free_ok [of c b "?s a" qs L NORFLASH_API_WRITTING] full cb by auto
    have "\<exists>a qs' L'. copy_sync c (?s a2) = Some (?s a2\<lparr>nf_api := a, nf_written_size := nvrecord_mem_pool_size,
        nf_state := NV_STATE_BAK_WRITTEN\<rparr>) \<and> homed c b a qs' L' \<and> na_allowed_cb a = 0 \<and> copied b w pool_bytes L'"
      by (rule less.hyps [of n qs2 "?s a2" L]) (use w wk less.prems in \<open>simp_all add: starts_def chunks_def\<close>)
    moreover have "copy_sync c s = copy_sync c (?s a2)"
      using e(1) full(1) w(1) st by (subst copy_sync.simps) simp
    ultimately show ?thesis by simp
  qed
qed

end
