(* ===== verification/Nvrec_Flash_Inv.thy ===== *)
theory Nvrec_Flash_Inv
  imports Nvrec_Flash_Flush
begin

text \<open>
  What holds between two calls of the flush, state by state, and that every step of the asynchronous flush keeps it and
  comes nearer to the end.
\<close>

section \<open>The invariant\<close>

definition pool_ok :: "nv_target \<Rightarrow> nv_store \<Rightarrow> bool" where
  "pool_ok b s \<longleftrightarrow> length (nf_pool s) = pool_bytes \<and> word_at (nf_pool s) 0 = nvrecord_version_magic \<and> nf_config s \<noteq> 0 \<and>
     (\<exists>q. burn_image b (nf_config s) (nf_pool s) = Some q)"

text \<open>\<open>W\<close> is the image that was last written to the main copy, \<open>V\<close> the one that is safe, if there is one; \<open>Q\<close> are the sectors
  with queued operations.\<close>

definition phase :: "nv_target \<Rightarrow> nv_store \<Rightarrow> u8 list \<Rightarrow> u8 list option \<Rightarrow> u32 set \<Rightarrow> (nat \<Rightarrow> u8) \<Rightarrow> bool" where
  "phase b s W V Q L \<longleftrightarrow> (let bak_kept = (\<forall>v. V = Some v \<longrightarrow> sect L (bak_copy b) = v) in case nf_state s of
       NV_STATE_IDLE \<Rightarrow> Q = {} \<and> bak_kept
     | NV_STATE_MAIN_ERASING \<Rightarrow> Q = {} \<and> bak_kept
     | NV_STATE_MAIN_ERASED \<Rightarrow> Q \<subseteq> {main_copy b} \<and> sect L (main_copy b) = blank pool_bytes \<and> bak_kept
     | NV_STATE_MAIN_WRITTING \<Rightarrow> Q \<subseteq> {main_copy b} \<and> sect L (main_copy b) = blank pool_bytes \<and> bak_kept
     | NV_STATE_MAIN_WRITTEN \<Rightarrow> Q \<subseteq> {main_copy b} \<and> sect L (main_copy b) = W \<and> burnt b W \<and> bak_kept
     | NV_STATE_MAIN_DONE \<Rightarrow> Q = {} \<and> V = Some W \<and> sect L (main_copy b) = W
     | NV_STATE_BAK_ERASING \<Rightarrow> Q = {} \<and> V = Some W \<and> sect L (main_copy b) = W
     | NV_STATE_BAK_ERASED \<Rightarrow> Q \<subseteq> {bak_copy b} \<and> V = Some W \<and> copied b W 0 L
     | NV_STATE_BAK_WRITTING \<Rightarrow> Q \<subseteq> {bak_copy b} \<and> V = Some W \<and> (\<exists>n. chunks n s \<and> copied b W n L)
     | NV_STATE_BAK_WRITTEN \<Rightarrow> Q \<subseteq> {bak_copy b} \<and> V = Some W \<and> copied b W pool_bytes L
     | NV_STATE_BAK_DONE \<Rightarrow> False)"

definition nv_inv :: "norflash_ctx \<Rightarrow> nv_target \<Rightarrow> u8 list \<Rightarrow> u8 list option \<Rightarrow> (nat \<Rightarrow> nat list) \<Rightarrow> (nat \<Rightarrow> u8) \<Rightarrow> nv_store \<Rightarrow> bool" where
  "nv_inv c b W V qs L s \<longleftrightarrow> homed c b (nf_api s) qs L \<and> starts b s \<and> pool_ok b s \<and> (\<forall>v. V = Some v \<longrightarrow> burnt b v) \<and>
     phase b s W V (busy_sectors (nf_api s) qs) L"

text \<open>How \<open>W\<close> and \<open>V\<close> change with a call of the flush.\<close>

definition burned :: "nv_store \<Rightarrow> nv_store \<Rightarrow> u8 list \<Rightarrow> u8 list" where
  "burned s s' W = (if main_phase s \<and> nf_state s \<noteq> NV_STATE_MAIN_WRITTEN \<and> nf_state s' \<in> {NV_STATE_MAIN_WRITTEN, NV_STATE_IDLE}
     then nf_pool s' else W)"

definition kept :: "nv_store \<Rightarrow> nv_store \<Rightarrow> u8 list \<Rightarrow> u8 list option \<Rightarrow> u8 list option" where
  "kept s s' W V = (if bak_phase s' \<or> main_phase s \<and> nf_state s' = NV_STATE_IDLE then Some (burned s s' W) else V)"

lemma copied_full: "copied b w pool_bytes L \<longleftrightarrow> sect L (main_copy b) = w \<and> sect L (bak_copy b) = w"
  by (auto simp: copied_def blank_def)

lemma copied_none: "copied b w 0 L \<longleftrightarrow> sect L (main_copy b) = w \<and> sect L (bak_copy b) = blank pool_bytes"
  by (simp add: copied_def)

section \<open>Coming nearer\<close>

fun rank :: "NV_STATE \<Rightarrow> nat" where
  "rank NV_STATE_IDLE = 10" | "rank NV_STATE_MAIN_ERASING = 9" | "rank NV_STATE_MAIN_ERASED = 8"
| "rank NV_STATE_MAIN_WRITTING = 7" | "rank NV_STATE_MAIN_WRITTEN = 6" | "rank NV_STATE_MAIN_DONE = 5"
| "rank NV_STATE_BAK_ERASING = 4" | "rank NV_STATE_BAK_ERASED = 3" | "rank NV_STATE_BAK_WRITTING = 2"
| "rank NV_STATE_BAK_WRITTEN = 1" | "rank NV_STATE_BAK_DONE = 0"

definition togo :: "nv_store \<Rightarrow> (nat \<Rightarrow> nat list) \<Rightarrow> nat \<times> nat \<times> nat" where
  "togo s qs = (rank (nf_state s), (if nf_state s = NV_STATE_BAK_WRITTING then pool_bytes - unat (nf_written_size s) else 0),
     work qs (nf_api s))"

abbreviation before :: "((nat \<times> nat \<times> nat) \<times> nat \<times> nat \<times> nat) set" where
  "before \<equiv> less_than <*lex*> less_than <*lex*> less_than"

definition nearer :: "(nat \<Rightarrow> nat list) \<Rightarrow> nv_store \<Rightarrow> (nat \<Rightarrow> nat list) \<Rightarrow> nv_store \<Rightarrow> bool" where
  "nearer qs s qs' s' \<longleftrightarrow> (na_allowed_cb (nf_api s) = 0 \<longrightarrow> na_allowed_cb (nf_api s') = 0 \<and>
     (nf_state s' = NV_STATE_IDLE \<or> (togo s' qs', togo s qs) \<in> before))"

lemma nearer_rank:
  assumes "rank (nf_state s') < rank (nf_state s)" "na_allowed_cb (nf_api s) = 0 \<Longrightarrow> na_allowed_cb (nf_api s') = 0"
  shows "nearer qs s qs' s'"
  using assms by (simp add: nearer_def togo_def)

lemma nearer_work:
  assumes "nf_state s' = nf_state s" "nf_written_size s' = nf_written_size s"
    "na_allowed_cb (nf_api s) = 0 \<Longrightarrow> na_allowed_cb (nf_api s') = 0 \<and> work qs' (nf_api s') < work qs (nf_api s)"
  shows "nearer qs s qs' s'"
  using assms by (simp add: nearer_def togo_def)

section \<open>The asynchronous flush\<close>

lemma refused_ok:
  assumes h: "homed c b (nf_api s) qs L" and ne: "qs \<noteq> (\<lambda>_. [])"
  shows "\<exists>a qs'. refused c NORFLASH_API_BUFFER_FULL s = Some (NORFLASH_API_BUFFER_FULL, s\<lparr>nf_api := a\<rparr>) \<and> homed c b a qs' L \<and>
    busy_sectors a qs' \<subseteq> busy_sectors (nf_api s) qs \<and>
    (na_allowed_cb (nf_api s) = 0 \<longrightarrow> na_allowed_cb a = 0 \<and> work qs' a < work qs (nf_api s))"
  using flush_step [OF h] ne api_flush_ok' by (fastforce simp: refused_def)

lemma step_until_empty:
  assumes h: "homed c b (nf_api s) qs L"
  shows "\<exists>a qs'. do { n \<leftarrow> used_buffers s;
      if n = 0 then Some (NORFLASH_API_OK, set_state st s)
      else do { s \<leftarrow> api_flush c s; Some (NORFLASH_API_OK, s) } } =
    Some (NORFLASH_API_OK, if qs UD = [] then set_state st s else s\<lparr>nf_api := a\<rparr>) \<and>
    (qs UD \<noteq> [] \<longrightarrow> homed c b a qs' L \<and> busy_sectors a qs' \<subseteq> busy_sectors (nf_api s) qs \<and>
      (na_allowed_cb (nf_api s) = 0 \<longrightarrow> na_allowed_cb a = 0 \<and> work qs' a < work qs (nf_api s)))"
proof (cases "qs UD = []")
  case True
  then show ?thesis using used_all_ok [OF h] by (simp add: used_buffers_def)
next
  case False
  then obtain r a qs' where f: "norflash_api_flush c (nf_api s) = Some (r, a)" "homed c b a qs' L"
    "busy_sectors a qs' \<subseteq> busy_sectors (nf_api s) qs"
    "na_allowed_cb (nf_api s) = 0 \<longrightarrow> na_allowed_cb a = 0 \<and> work qs' a < work qs (nf_api s)"
    using flush_step [OF h] by fastforce
  then show ?thesis using False used_all_ok [OF h] api_flush_ok' [OF f(1)] by (auto simp: used_buffers_def)
qed

lemma copy_async_ok:
  assumes "homed c b (nf_api s) qs L" "starts b s" "chunks n s" "copied b w n L"
  shows "\<exists>ret a k st qs' L'. copy_async c s = Some (ret, s\<lparr>nf_api := a, nf_written_size := of_nat k, nf_state := st\<rparr>) \<and>
    homed c b a qs' L' \<and> busy_sectors a qs' \<subseteq> insert (bak_copy b) (busy_sectors (nf_api s) qs) \<and> copied b w k L' \<and>
    (na_allowed_cb (nf_api s) = 0 \<longrightarrow> na_allowed_cb a = 0) \<and>
    (st = NV_STATE_BAK_WRITTEN \<and> k = pool_bytes \<or>
     st = nf_state s \<and> k mod 128 = 0 \<and> k < pool_bytes \<and>
       (n < k \<or> n = k \<and> (na_allowed_cb (nf_api s) = 0 \<longrightarrow> work qs' a < work qs (nf_api s))))"
  using assms
proof (induction "pool_bytes - n" arbitrary: s qs L n rule: less_induct)
  case less
  obtain ret a where e: "copy_chunk c s = Some (ret, s\<lparr>nf_api := a\<rparr>)" "same_work (nf_api s) a"
    "ret = NORFLASH_API_OK \<and> (\<exists>qs' L'. homed c b a qs' L' \<and> busy_sectors a qs' \<subseteq> insert (bak_copy b) (busy_sectors (nf_api s) qs) \<and>
       copied b w (n + 128) L') \<or>
     ret = NORFLASH_API_BUFFER_FULL \<and> homed c b a qs L \<and> busy_sectors a qs \<subseteq> insert (bak_copy b) (busy_sectors (nf_api s) qs) \<and>
       qs \<noteq> (\<lambda>_. [])"
    using copy_chunk_ok [OF less.prems] by blast
  have cb: "na_allowed_cb a = na_allowed_cb (nf_api s)" and wk: "work qs a = work qs (nf_api s)"
    using e(2) by (simp_all add: same_work_def work_def irqs_def)
  note nx = chunks_next [OF less.prems(3)]
  have ns: "nf_written_size s = of_nat n" "n mod 128 = 0" "n < pool_bytes" using less.prems(3) by (simp_all add: chunks_def)
  show ?case
  proof (cases "ret = NORFLASH_API_OK")
    case True
    then obtain qs' L' where r: "homed c b a qs' L'" "busy_sectors a qs' \<subseteq> insert (bak_copy b) (busy_sectors (nf_api s) qs)"
      "copied b w (n + 128) L'" using e(3) by auto
    let ?s = "s\<lparr>nf_api := a, nf_written_size := nf_written_size s + chunk_bytes\<rparr>"
    have step: "copy_async c s = (if n + 128 = pool_bytes then Some (ret, set_state NV_STATE_BAK_WRITTEN ?s) else copy_async c ?s)"
      using e(1) True nx(3) by (subst copy_async.simps) simp
    show ?thesis
    proof (cases "n + 128 = pool_bytes")
      case True
      have "set_state NV_STATE_BAK_WRITTEN ?s = s\<lparr>nf_api := a, nf_written_size := of_nat (n + 128), nf_state := NV_STATE_BAK_WRITTEN\<rparr>"
        unfolding set_state_def nx(2) ..
      then have "copy_async c s = Some (ret, s\<lparr>nf_api := a, nf_written_size := of_nat (n + 128), nf_state := NV_STATE_BAK_WRITTEN\<rparr>)"
        using True unfolding step by simp
      then show ?thesis using r cb True by metis
    next
      case False
      have lt: "pool_bytes - (n + 128) < pool_bytes - n" using nx(1) by linarith
      have ch: "chunks (n + 128) ?s" using ns nx(1,2) False by (simp add: chunks_def mod_add_eq [symmetric])
      have "homed c b (nf_api ?s) qs' L'" "starts b ?s" using r(1) less.prems(2) by (simp_all add: starts_def)
      from less.hyps [OF lt this ch r(3)] obtain ret2 a2 k st qs2 L2 where
        i: "copy_async c ?s = Some (ret2, ?s\<lparr>nf_api := a2, nf_written_size := of_nat k, nf_state := st\<rparr>)"
          "homed c b a2 qs2 L2" "busy_sectors a2 qs2 \<subseteq> insert (bak_copy b) (busy_sectors (nf_api ?s) qs')" "copied b w k L2"
          "na_allowed_cb (nf_api ?s) = 0 \<longrightarrow> na_allowed_cb a2 = 0"
          "st = NV_STATE_BAK_WRITTEN \<and> k = pool_bytes \<or> st = nf_state ?s \<and> k mod 128 = 0 \<and> k < pool_bytes \<and>
             (n + 128 < k \<or> n + 128 = k \<and> (na_allowed_cb (nf_api ?s) = 0 \<longrightarrow> work qs2 a2 < work qs' (nf_api ?s)))"
        by (elim exE conjE) (rule that, assumption+)
      have "copy_async c s = Some (ret2, s\<lparr>nf_api := a2, nf_written_size := of_nat k, nf_state := st\<rparr>)"
        using i(1) False unfolding step by simp
      moreover have "busy_sectors a2 qs2 \<subseteq> insert (bak_copy b) (busy_sectors (nf_api s) qs)" using i(3) r(2) by auto
      moreover have "na_allowed_cb (nf_api s) = 0 \<longrightarrow> na_allowed_cb a2 = 0" using i(5) cb by simp
      moreover have "st = NV_STATE_BAK_WRITTEN \<and> k = pool_bytes \<or> st = nf_state s \<and> k mod 128 = 0 \<and> k < pool_bytes \<and> n < k"
        using i(6) by auto
      ultimately show ?thesis using i(2,4)
        by (intro exI [of _ ret2] exI [of _ a2] exI [of _ k] exI [of _ st] exI [of _ qs2] exI [of _ L2]) blast
    qed
  next
    case False
    then have full: "ret = NORFLASH_API_BUFFER_FULL" "homed c b a qs L" "qs \<noteq> (\<lambda>_. [])"
      "busy_sectors a qs \<subseteq> insert (bak_copy b) (busy_sectors (nf_api s) qs)" using e(3) by auto
    obtain a2 qs2 where f: "refused c NORFLASH_API_BUFFER_FULL (s\<lparr>nf_api := a\<rparr>) = Some (NORFLASH_API_BUFFER_FULL, s\<lparr>nf_api := a2\<rparr>)"
      "homed c b a2 qs2 L" "busy_sectors a2 qs2 \<subseteq> busy_sectors a qs"
      "na_allowed_cb a = 0 \<longrightarrow> na_allowed_cb a2 = 0 \<and> work qs2 a2 < work qs a"
      using refused_ok [of c b "s\<lparr>nf_api := a\<rparr>" qs L] full by auto
    have "copy_async c s = Some (NORFLASH_API_BUFFER_FULL, s\<lparr>nf_api := a2, nf_written_size := of_nat n, nf_state := nf_state s\<rparr>)"
      using e(1) f(1) full(1) ns(1) by (subst copy_async.simps) simp
    moreover have "busy_sectors a2 qs2 \<subseteq> insert (bak_copy b) (busy_sectors (nf_api s) qs)" using f(3) full(4) by auto
    moreover have "na_allowed_cb (nf_api s) = 0 \<longrightarrow> na_allowed_cb a2 = 0 \<and> work qs2 a2 < work qs (nf_api s)" using f(4) cb wk by simp
    ultimately show ?thesis using f(2) less.prems(4) ns
      by (intro exI [of _ NORFLASH_API_BUFFER_FULL] exI [of _ a2] exI [of _ n] exI [of _ "nf_state s"] exI [of _ qs2] exI [of _ L]) blast
  qed
qed

end
