(* ===== verification/Nvrec_Flash_Async.thy ===== *)
theory Nvrec_Flash_Async
  imports Nvrec_Flash_Inv
begin

text \<open>One call of the asynchronous flush, in each of its states.\<close>

lemma nv_invD:
  assumes "nv_inv c b W V qs L s"
  shows "homed c b (nf_api s) qs L" "starts b s" "pool_ok b s" "V = Some v \<Longrightarrow> burnt b v"
    "phase b s W V (busy_sectors (nf_api s) qs) L"
  using assms by (auto simp: nv_inv_def)

lemma pool_okD:
  assumes "pool_ok b s"
  shows "length (nf_pool s) = pool_bytes" "word_at (nf_pool s) 0 = nvrecord_version_magic" "nf_config s \<noteq> 0"
    "\<exists>q. burn_image b (nf_config s) (nf_pool s) = Some q"
  using assms by (auto simp: pool_ok_def)

lemma same_work_cb: "same_work a a' \<Longrightarrow> na_allowed_cb a' = na_allowed_cb a \<and> work qs a' = work qs a"
  by (simp add: same_work_def work_def irqs_def)

definition same_contents :: "nv_store \<Rightarrow> nv_store \<Rightarrow> bool" where
  "same_contents s s' \<longleftrightarrow> drop header_bytes (nf_pool s') = drop header_bytes (nf_pool s)"

lemmas inv_defs = nv_inv_def phase_def starts_def pool_ok_def burned_def kept_def main_phase_def bak_phase_def

lemma main_erase_step:
  assumes i: "nv_inv c b W V qs L s" and st: "nf_state s = NV_STATE_IDLE \<or> nf_state s = NV_STATE_MAIN_ERASING"
  shows "\<exists>ret s' qs' L'. main_async c b s = Some (ret, s') \<and> nv_inv c b (burned s s' W) (kept s s' W V) qs' L' s' \<and> nearer qs s qs' s' \<and>
    same_contents s s' \<and> nf_state s' \<in> {NV_STATE_MAIN_ERASING, NV_STATE_MAIN_ERASED}"
proof -
  note I = nv_invD [OF i]
  define s0 where "s0 = s\<lparr>nf_state := NV_STATE_MAIN_ERASING\<rparr>"
  have bak: "\<forall>v. V = Some v \<longrightarrow> sect L (bak_copy b) = v" and e: "qs UD = []" using I(5) st by (auto simp: phase_def)
  have h0: "homed c b (nf_api s0) qs L" using I(1) by (simp add: s0_def)
  from erase_copy_ok [OF h0 disjI1 [OF refl] e] obtain ret a where
    f: "erase_copy c (main_copy b) s0 = Some (ret, s0\<lparr>nf_api := a\<rparr>)" "same_work (nf_api s0) a"
    "ret = NORFLASH_API_OK \<and> (\<exists>qs' L'. homed c b a qs' L' \<and> busy_sectors a qs' \<subseteq> {main_copy b} \<and>
       sect L' (main_copy b) = blank pool_bytes \<and> sect L' (bak_copy b) = sect L (bak_copy b)) \<or>
     ret = NORFLASH_API_BUFFER_FULL \<and> homed c b a qs L \<and> qs \<noteq> (\<lambda>_. [])" by blast
  have start: "(if nf_state s = NV_STATE_IDLE then set_state NV_STATE_MAIN_ERASING s else s) = s0"
    using st by (auto simp: s0_def set_state_def)
  have ms: "nf_main_start s0 = main_copy b" using I(2) by (simp add: starts_def s0_def)
  have run: "main_async c b s = (if ret = NORFLASH_API_OK then Some (ret, s0\<lparr>nf_api := a, nf_state := NV_STATE_MAIN_ERASED\<rparr>)
      else refused c ret (s0\<lparr>nf_api := a\<rparr>))"
    using f(1) st ms start by (simp add: main_async_def Let_def set_state_def)
  note cb = same_work_cb [OF f(2), of qs]
  show ?thesis
  proof (cases "ret = NORFLASH_API_OK")
    case True
    then obtain qs' L' where r: "homed c b a qs' L'" "busy_sectors a qs' \<subseteq> {main_copy b}" "sect L' (main_copy b) = blank pool_bytes"
      "sect L' (bak_copy b) = sect L (bak_copy b)" using f(3) by auto
    define s' where "s' = s0\<lparr>nf_api := a, nf_state := NV_STATE_MAIN_ERASED\<rparr>"
    have "nv_inv c b (burned s s' W) (kept s s' W V) qs' L' s'"
      using i r bak by (auto simp: inv_defs s'_def s0_def)
    moreover have "nearer qs s qs' s'" by (rule nearer_rank) (use st cb in \<open>auto simp: s'_def s0_def\<close>)
    moreover have "same_contents s s'" by (simp add: same_contents_def s'_def s0_def)
    ultimately show ?thesis using run True s'_def by auto
  next
    case False
    then have full: "ret = NORFLASH_API_BUFFER_FULL" "homed c b a qs L" "qs \<noteq> (\<lambda>_. [])" using f(3) by auto
    obtain a2 qs2 where g: "refused c NORFLASH_API_BUFFER_FULL (s0\<lparr>nf_api := a\<rparr>) = Some (NORFLASH_API_BUFFER_FULL, s0\<lparr>nf_api := a2\<rparr>)"
      "homed c b a2 qs2 L" "busy_sectors a2 qs2 \<subseteq> busy_sectors a qs"
      "na_allowed_cb a = 0 \<longrightarrow> na_allowed_cb a2 = 0 \<and> work qs2 a2 < work qs a"
      using refused_ok [of c b "s0\<lparr>nf_api := a\<rparr>" qs L] full by auto
    define s' where "s' = s0\<lparr>nf_api := a2\<rparr>"
    have "busy_sectors a2 qs2 = {}" using g(3) e by simp
    then have "nv_inv c b (burned s s' W) (kept s s' W V) qs2 L s'"
      using i g(2) bak by (auto simp: inv_defs s'_def s0_def)
    moreover have "nearer qs s qs2 s'"
    proof (cases "nf_state s = NV_STATE_IDLE")
      case True
      show ?thesis by (rule nearer_rank) (use True cb g(4) in \<open>auto simp: s'_def s0_def\<close>)
    next
      case False
      show ?thesis by (rule nearer_work) (use False st cb g(4) in \<open>auto simp: s'_def s0_def\<close>)
    qed
    moreover have "same_contents s s'" by (simp add: same_contents_def s'_def s0_def)
    ultimately show ?thesis using run full(1) g(1) s'_def s0_def by auto
  qed
qed

lemma main_write_step:
  assumes i: "nv_inv c b W V qs L s" and st: "nf_state s = NV_STATE_MAIN_ERASED \<or> nf_state s = NV_STATE_MAIN_WRITTING"
  shows "\<exists>ret s' qs' L'. main_async c b s = Some (ret, s') \<and> nv_inv c b (burned s s' W) (kept s s' W V) qs' L' s' \<and> nearer qs s qs' s' \<and>
    same_contents s s' \<and> nf_state s' \<in> {NV_STATE_MAIN_WRITTING, NV_STATE_MAIN_WRITTEN}"
proof -
  note I = nv_invD [OF i]
  note P = pool_okD [OF I(3)]
  define s0 where "s0 = s\<lparr>nf_state := NV_STATE_MAIN_WRITTING\<rparr>"
  have bak: "\<forall>v. V = Some v \<longrightarrow> sect L (bak_copy b) = v" and A: "sect L (main_copy b) = blank pool_bytes"
    and Q: "busy_sectors (nf_api s) qs \<subseteq> {main_copy b}" using I(5) st by (auto simp: phase_def)
  obtain q where q: "burn_image b (nf_config s) (nf_pool s) = Some q" using P(4) by blast
  note B = burn_image_facts [OF q P(1)]
  have "homed c b (nf_api s0) qs L" "starts b s0" "length (nf_pool s0) = pool_bytes" "burn_image b (nf_config s0) (nf_pool s0) = Some q"
    using I(1,2) P(1) q by (simp_all add: s0_def starts_def)
  from write_main_ok [OF this A] obtain ret a where
    f: "write_main c b s0 = Some (ret, s0\<lparr>nf_pool := q, nf_api := a\<rparr>)" "same_work (nf_api s0) a"
    "ret = NORFLASH_API_OK \<and> (\<exists>qs' L'. homed c b a qs' L' \<and> busy_sectors a qs' \<subseteq> insert (main_copy b) (busy_sectors (nf_api s0) qs) \<and>
       sect L' (main_copy b) = q \<and> sect L' (bak_copy b) = sect L (bak_copy b)) \<or>
     ret = NORFLASH_API_BUFFER_FULL \<and> homed c b a qs L \<and> busy_sectors a qs \<subseteq> insert (main_copy b) (busy_sectors (nf_api s0) qs) \<and>
       qs \<noteq> (\<lambda>_. [])" by blast
  have start: "(if nf_state s = NV_STATE_MAIN_ERASED then set_state NV_STATE_MAIN_WRITTING s else s) = s0"
    using st by (auto simp: s0_def set_state_def)
  have run: "main_async c b s = (if ret = NORFLASH_API_OK
      then Some (ret, s0\<lparr>nf_pool := q, nf_api := a, nf_is_update := False, nf_state := NV_STATE_MAIN_WRITTEN\<rparr>)
      else refused c ret (s0\<lparr>nf_pool := q, nf_api := a\<rparr>))"
    using f(1) st start by (auto simp: main_async_def Let_def set_state_def)
  note cb = same_work_cb [OF f(2), of qs]
  show ?thesis
  proof (cases "ret = NORFLASH_API_OK")
    case True
    then obtain qs' L' where r: "homed c b a qs' L'" "busy_sectors a qs' \<subseteq> {main_copy b}" "sect L' (main_copy b) = q"
      "sect L' (bak_copy b) = sect L (bak_copy b)" using f(3) Q by (auto simp: s0_def)
    define s' where "s' = s0\<lparr>nf_pool := q, nf_api := a, nf_is_update := False, nf_state := NV_STATE_MAIN_WRITTEN\<rparr>"
    have "nv_inv c b (burned s s' W) (kept s s' W V) qs' L' s'"
      using i r bak B(1,2,5) B(7) [OF P(3)] st by (auto simp: inv_defs s'_def s0_def)
    moreover have "nearer qs s qs' s'" by (rule nearer_rank) (use st cb in \<open>auto simp: s'_def s0_def\<close>)
    moreover have "same_contents s s'" by (simp add: same_contents_def s'_def s0_def B(4) header_bytes_def)
    ultimately show ?thesis using run True s'_def by auto
  next
    case False
    then have full: "ret = NORFLASH_API_BUFFER_FULL" "homed c b a qs L" "qs \<noteq> (\<lambda>_. [])" "busy_sectors a qs \<subseteq> {main_copy b}"
      using f(3) Q by (auto simp: s0_def)
    let ?s = "\<lambda>a. s0\<lparr>nf_pool := q, nf_api := a\<rparr>"
    obtain a2 qs2 where g: "refused c NORFLASH_API_BUFFER_FULL (?s a) = Some (NORFLASH_API_BUFFER_FULL, ?s a2)"
      "homed c b a2 qs2 L" "busy_sectors a2 qs2 \<subseteq> busy_sectors a qs"
      "na_allowed_cb a = 0 \<longrightarrow> na_allowed_cb a2 = 0 \<and> work qs2 a2 < work qs a"
      using refused_ok [of c b "?s a" qs L] full by auto
    define s' where "s' = ?s a2"
    have "busy_sectors a2 qs2 \<subseteq> {main_copy b}" using g(3) full(4) by blast
    then have "nv_inv c b (burned s s' W) (kept s s' W V) qs2 L s'"
      using i g(2) bak A B(1,2,5) st by (auto simp: inv_defs s'_def s0_def)
    moreover have "nearer qs s qs2 s'"
    proof (cases "nf_state s = NV_STATE_MAIN_ERASED")
      case True
      show ?thesis by (rule nearer_rank) (use True cb g(4) in \<open>auto simp: s'_def s0_def\<close>)
    next
      case False
      show ?thesis by (rule nearer_work) (use False st cb g(4) in \<open>auto simp: s'_def s0_def\<close>)
    qed
    moreover have "same_contents s s'" by (simp add: same_contents_def s'_def s0_def B(4) header_bytes_def)
    ultimately show ?thesis using run full(1) g(1) s'_def s0_def by auto
  qed
qed

lemma main_wait_step:
  assumes i: "nv_inv c b W V qs L s" and st: "nf_state s = NV_STATE_MAIN_WRITTEN"
  shows "\<exists>ret s' qs' L'. main_async c b s = Some (ret, s') \<and> nv_inv c b (burned s s' W) (kept s s' W V) qs' L' s' \<and> nearer qs s qs' s' \<and>
    same_contents s s' \<and> nf_state s' \<in> {NV_STATE_MAIN_WRITTEN, NV_STATE_MAIN_DONE}"
proof -
  note I = nv_invD [OF i]
  have P: "busy_sectors (nf_api s) qs \<subseteq> {main_copy b}" "sect L (main_copy b) = W" "burnt b W"
    "\<forall>v. V = Some v \<longrightarrow> sect L (bak_copy b) = v" using I(5) st by (auto simp: phase_def)
  from step_until_empty [OF I(1), where st = NV_STATE_MAIN_DONE] obtain a qs' where
    f: "main_async c b s = Some (NORFLASH_API_OK, if qs UD = [] then set_state NV_STATE_MAIN_DONE s else s\<lparr>nf_api := a\<rparr>)"
      "qs UD \<noteq> [] \<longrightarrow> homed c b a qs' L \<and> busy_sectors a qs' \<subseteq> busy_sectors (nf_api s) qs \<and>
        (na_allowed_cb (nf_api s) = 0 \<longrightarrow> na_allowed_cb a = 0 \<and> work qs' a < work qs (nf_api s))"
    using st unfolding main_async_def by auto
  show ?thesis
  proof (cases "qs UD = []")
    case True
    have "nv_inv c b (burned s (set_state NV_STATE_MAIN_DONE s) W) (kept s (set_state NV_STATE_MAIN_DONE s) W V) qs L (set_state NV_STATE_MAIN_DONE s)"
      using i P True st by (auto simp: inv_defs set_state_def)
    moreover have "nearer qs s qs (set_state NV_STATE_MAIN_DONE s)" by (rule nearer_rank) (use st in \<open>simp_all add: set_state_def\<close>)
    ultimately show ?thesis using f(1) True by (auto simp: same_contents_def set_state_def)
  next
    case False
    have "nv_inv c b (burned s (s\<lparr>nf_api := a\<rparr>) W) (kept s (s\<lparr>nf_api := a\<rparr>) W V) qs' L (s\<lparr>nf_api := a\<rparr>)"
      using i P f(2) False st by (auto simp: inv_defs)
    moreover have "nearer qs s qs' (s\<lparr>nf_api := a\<rparr>)" by (rule nearer_work) (use f(2) False in simp_all)
    ultimately show ?thesis using f(1) False by (auto simp: same_contents_def st)
  qed
qed

lemma bak_erase_step:
  assumes i: "nv_inv c b W V qs L s" and st: "nf_state s = NV_STATE_MAIN_DONE \<or> nf_state s = NV_STATE_BAK_ERASING"
  shows "\<exists>ret s' qs' L'. bak_async c s = Some (ret, s') \<and> nf_state s' \<in> {NV_STATE_BAK_ERASING, NV_STATE_BAK_ERASED} \<and>
    nv_inv c b W V qs' L' s' \<and> nearer qs s qs' s' \<and>
    same_contents s s'"
proof -
  note I = nv_invD [OF i]
  define s0 where "s0 = s\<lparr>nf_state := NV_STATE_BAK_ERASING\<rparr>"
  have P: "V = Some W" "sect L (main_copy b) = W" and e: "qs UD = []" using I(5) st by (auto simp: phase_def)
  have h0: "homed c b (nf_api s0) qs L" using I(1) by (simp add: s0_def)
  from erase_copy_ok [OF h0 disjI2 [OF refl] e] obtain ret a where
    f: "erase_copy c (bak_copy b) s0 = Some (ret, s0\<lparr>nf_api := a\<rparr>)" "same_work (nf_api s0) a"
    "ret = NORFLASH_API_OK \<and> (\<exists>qs' L'. homed c b a qs' L' \<and> busy_sectors a qs' \<subseteq> {bak_copy b} \<and>
       sect L' (bak_copy b) = blank pool_bytes \<and> sect L' (main_copy b) = sect L (main_copy b)) \<or>
     ret = NORFLASH_API_BUFFER_FULL \<and> homed c b a qs L \<and> qs \<noteq> (\<lambda>_. [])" by blast
  have start: "(if nf_state s = NV_STATE_MAIN_DONE then set_state NV_STATE_BAK_ERASING s else s) = s0"
    using st by (auto simp: s0_def set_state_def)
  have ms: "nf_bak_start s0 = bak_copy b" using I(2) by (simp add: starts_def s0_def)
  have run: "bak_async c s = (if ret = NORFLASH_API_OK then Some (ret, s0\<lparr>nf_api := a, nf_state := NV_STATE_BAK_ERASED\<rparr>)
      else refused c ret (s0\<lparr>nf_api := a\<rparr>))"
    using f(1) st ms start by (simp add: bak_async_def Let_def set_state_def)
  note cb = same_work_cb [OF f(2), of qs]
  show ?thesis
  proof (cases "ret = NORFLASH_API_OK")
    case True
    then obtain qs' L' where r: "homed c b a qs' L'" "busy_sectors a qs' \<subseteq> {bak_copy b}" "sect L' (bak_copy b) = blank pool_bytes"
      "sect L' (main_copy b) = sect L (main_copy b)" using f(3) by auto
    define s' where "s' = s0\<lparr>nf_api := a, nf_state := NV_STATE_BAK_ERASED\<rparr>"
    have "nv_inv c b W V qs' L' s'" using i r P by (auto simp: inv_defs copied_none s'_def s0_def)
    moreover have "nearer qs s qs' s'" by (rule nearer_rank) (use st cb in \<open>auto simp: s'_def s0_def\<close>)
    moreover have "same_contents s s'" by (simp add: same_contents_def s'_def s0_def)
    ultimately show ?thesis using run True s'_def by auto
  next
    case False
    then have full: "ret = NORFLASH_API_BUFFER_FULL" "homed c b a qs L" "qs \<noteq> (\<lambda>_. [])" using f(3) by auto
    obtain a2 qs2 where g: "refused c NORFLASH_API_BUFFER_FULL (s0\<lparr>nf_api := a\<rparr>) = Some (NORFLASH_API_BUFFER_FULL, s0\<lparr>nf_api := a2\<rparr>)"
      "homed c b a2 qs2 L" "busy_sectors a2 qs2 \<subseteq> busy_sectors a qs"
      "na_allowed_cb a = 0 \<longrightarrow> na_allowed_cb a2 = 0 \<and> work qs2 a2 < work qs a"
      using refused_ok [of c b "s0\<lparr>nf_api := a\<rparr>" qs L] full by auto
    define s' where "s' = s0\<lparr>nf_api := a2\<rparr>"
    have "busy_sectors a2 qs2 = {}" using g(3) e by simp
    then have "nv_inv c b W V qs2 L s'" using i g(2) P by (auto simp: inv_defs s'_def s0_def)
    moreover have "nearer qs s qs2 s'"
    proof (cases "nf_state s = NV_STATE_MAIN_DONE")
      case True
      show ?thesis by (rule nearer_rank) (use True cb g(4) in \<open>auto simp: s'_def s0_def\<close>)
    next
      case False
      show ?thesis by (rule nearer_work) (use False st cb g(4) in \<open>auto simp: s'_def s0_def\<close>)
    qed
    moreover have "same_contents s s'" by (simp add: same_contents_def s'_def s0_def)
    ultimately show ?thesis using run full(1) g(1) s'_def s0_def by auto
  qed
qed

lemma bak_copy_step:
  assumes i: "nv_inv c b W V qs L s" and st: "nf_state s = NV_STATE_BAK_ERASED \<or> nf_state s = NV_STATE_BAK_WRITTING"
  shows "\<exists>ret s' qs' L'. bak_async c s = Some (ret, s') \<and> nf_state s' \<in> {NV_STATE_BAK_WRITTING, NV_STATE_BAK_WRITTEN} \<and>
    nv_inv c b W V qs' L' s' \<and> nearer qs s qs' s' \<and>
    same_contents s s'"
proof -
  note I = nv_invD [OF i]
  have V: "V = Some W" and Q: "busy_sectors (nf_api s) qs \<subseteq> {bak_copy b}" using I(5) st by (auto simp: phase_def)
  define s0 where "s0 = (if nf_state s = NV_STATE_BAK_ERASED then set_state NV_STATE_BAK_WRITTING (s\<lparr>nf_written_size := 0\<rparr>) else s)"
  obtain n where n: "chunks n s0" "copied b W n L" "nf_state s = NV_STATE_BAK_WRITTING \<Longrightarrow> chunks n s"
  proof (cases "nf_state s = NV_STATE_BAK_ERASED")
    case True
    then show ?thesis using that [of 0] I(5) by (auto simp: phase_def chunks_def s0_def set_state_def pool_bytes_def)
  next
    case False
    then show ?thesis using that I(5) st by (auto simp: phase_def s0_def)
  qed
  have s0: "nf_api s0 = nf_api s" "nf_state s0 = NV_STATE_BAK_WRITTING" "starts b s0" "pool_ok b s0"
    using st I(2,3) by (auto simp: s0_def set_state_def starts_def pool_ok_def)
  have h0: "homed c b (nf_api s0) qs L" using I(1) s0(1) by simp
  from copy_async_ok [OF h0 s0(3) n(1,2)] obtain ret a k st' qs' L' where
    f: "copy_async c s0 = Some (ret, s0\<lparr>nf_api := a, nf_written_size := of_nat k, nf_state := st'\<rparr>)"
      "homed c b a qs' L'" "busy_sectors a qs' \<subseteq> insert (bak_copy b) (busy_sectors (nf_api s0) qs)" "copied b W k L'"
      "na_allowed_cb (nf_api s0) = 0 \<longrightarrow> na_allowed_cb a = 0"
      "st' = NV_STATE_BAK_WRITTEN \<and> k = pool_bytes \<or>
       st' = nf_state s0 \<and> k mod 128 = 0 \<and> k < pool_bytes \<and>
         (n < k \<or> n = k \<and> (na_allowed_cb (nf_api s0) = 0 \<longrightarrow> work qs' a < work qs (nf_api s0)))"
    by (elim exE conjE) (rule that, assumption+)
  define s' where "s' = s0\<lparr>nf_api := a, nf_written_size := of_nat k, nf_state := st'\<rparr>"
  have run: "bak_async c s = Some (ret, s')" using st f(1) by (auto simp: bak_async_def s0_def s'_def)
  have "busy_sectors a qs' \<subseteq> {bak_copy b}" using f(3) Q s0(1) by auto
  moreover have "st' = NV_STATE_BAK_WRITTING \<Longrightarrow> chunks k s'" using f(6) by (auto simp: chunks_def s'_def)
  moreover have "st' = NV_STATE_BAK_WRITTEN \<and> k = pool_bytes \<or> st' = NV_STATE_BAK_WRITTING" using f(6) s0(2) by auto
  moreover have "starts b s'" "pool_ok b s'" using s0(3,4) by (simp_all add: s'_def starts_def pool_ok_def)
  ultimately have "nv_inv c b W V qs' L' s'"
    using f(2,4) V I(4) unfolding nv_inv_def phase_def by (auto simp: s'_def)
  moreover have "nearer qs s qs' s'"
  proof (cases "st' = NV_STATE_BAK_WRITTEN \<or> nf_state s = NV_STATE_BAK_ERASED")
    case True
    show ?thesis by (rule nearer_rank) (use True st f(5,6) s0(1,2) in \<open>auto simp: s'_def\<close>)
  next
    case False
    then have s: "nf_state s = NV_STATE_BAK_WRITTING" "nf_written_size s = of_nat n" "n < pool_bytes"
      using st n(3) by (auto simp: chunks_def)
    have k: "st' = NV_STATE_BAK_WRITTING" "k < pool_bytes" "n < k \<or> n = k \<and> (na_allowed_cb (nf_api s) = 0 \<longrightarrow> work qs' a < work qs (nf_api s))"
      using f(6) False s0(1,2) by auto
    have un: "unat (of_nat j :: u32) = j" if "j < pool_bytes" for j
      using that by (simp add: pool_bytes_def unat_of_nat take_bit_nat_eq_self)
    have "pool_bytes - k < pool_bytes - n" if "n < k" using that s(3) by linarith
    then have "(togo s' qs', togo s qs) \<in> before" if "na_allowed_cb (nf_api s) = 0"
      using k that by (auto simp: togo_def s'_def s(1,2) un [OF s(3)] un [OF k(2)])
    then show ?thesis using f(5) s0(1) by (simp add: nearer_def s'_def)
  qed
  moreover have "nf_state s' \<in> {NV_STATE_BAK_WRITTING, NV_STATE_BAK_WRITTEN}" using f(6) s0(2) by (auto simp: s'_def)
  moreover have "same_contents s s'" by (simp add: same_contents_def s'_def s0_def set_state_def)
  ultimately show ?thesis using run by blast
qed

lemma bak_wait_step:
  assumes i: "nv_inv c b W V qs L s" and st: "nf_state s = NV_STATE_BAK_WRITTEN"
  shows "\<exists>ret s' qs'. bak_async c s = Some (ret, s') \<and>
    (nf_state s' = NV_STATE_BAK_WRITTEN \<and> nv_inv c b W V qs' L s' \<and> nearer qs s qs' s' \<and> same_contents s s' \<or>
     s' = set_state NV_STATE_BAK_DONE s \<and> qs UD = [])"
proof -
  note I = nv_invD [OF i]
  have P: "busy_sectors (nf_api s) qs \<subseteq> {bak_copy b}" "V = Some W" "copied b W pool_bytes L" using I(5) st by (auto simp: phase_def)
  from step_until_empty [OF I(1), where st = NV_STATE_BAK_DONE] obtain a qs' where
    f: "bak_async c s = Some (NORFLASH_API_OK, if qs UD = [] then set_state NV_STATE_BAK_DONE s else s\<lparr>nf_api := a\<rparr>)"
      "qs UD \<noteq> [] \<longrightarrow> homed c b a qs' L \<and> busy_sectors a qs' \<subseteq> busy_sectors (nf_api s) qs \<and>
        (na_allowed_cb (nf_api s) = 0 \<longrightarrow> na_allowed_cb a = 0 \<and> work qs' a < work qs (nf_api s))"
    using st unfolding bak_async_def by auto
  show ?thesis
  proof (cases "qs UD = []")
    case True
    then show ?thesis using f(1) by auto
  next
    case False
    have "nv_inv c b W V qs' L (s\<lparr>nf_api := a\<rparr>)" using i P f(2) False st by (auto simp: inv_defs)
    moreover have "nearer qs s qs' (s\<lparr>nf_api := a\<rparr>)" by (rule nearer_work) (use f(2) False in simp_all)
    ultimately show ?thesis using f(1) False st by (auto simp: same_contents_def)
  qed
qed

end
