(* ===== verification/Nvrec_Flash_Calls.thy ===== *)
theory Nvrec_Flash_Calls
  imports Nvrec_Flash_Async
begin

text \<open>The whole calls: a step of the flush when the system is about to sleep, and the synchronous flush.\<close>

section \<open>Before sleeping\<close>

lemma main_phase_cases:
  assumes "main_phase s"
  obtains "nf_state s = NV_STATE_IDLE \<or> nf_state s = NV_STATE_MAIN_ERASING"
  | "nf_state s = NV_STATE_MAIN_ERASED \<or> nf_state s = NV_STATE_MAIN_WRITTING" | "nf_state s = NV_STATE_MAIN_WRITTEN"
  using assms by (auto simp: main_phase_def)

lemma phases_apart: "main_phase s \<Longrightarrow> \<not> bak_phase s"
  by (auto simp: main_phase_def bak_phase_def)

lemma flush_bak_keeps:
  assumes "nv_inv c b W V qs L s" "bak_phase s"
  shows "V = Some W" "burned s s' W = W" "bak_phase s' \<or> nf_state s' = NV_STATE_IDLE \<Longrightarrow> kept s s' W V = V"
proof -
  show V: "V = Some W" using nv_invD(5) [OF assms(1)] assms(2) by (auto simp: bak_phase_def phase_def)
  show bu: "burned s s' W = W" using phases_apart [of s] assms(2) by (auto simp: burned_def)
  show "bak_phase s' \<or> nf_state s' = NV_STATE_IDLE \<Longrightarrow> kept s s' W V = V"
    using phases_apart [of s] assms(2) V bu by (auto simp: kept_def)
qed

lemma bak_finished:
  assumes i: "nv_inv c b W V qs L s" and w: "copied b W pool_bytes L'" "homed c b a qs' L'" "qs' UD = []" "V = Some W"
  shows "nv_inv c b W V qs' L' (s\<lparr>nf_api := a, nf_state := NV_STATE_IDLE\<rparr>)"
  using i w by (auto simp: inv_defs copied_full)

lemma sleep_step:
  assumes i: "nv_inv c b W V qs L s"
  shows "\<exists>s' qs' L'. nv_record_flash_flush_in_sleep c b s = Some (0, s') \<and>
    nv_inv c b (burned s s' W) (kept s s' W V) qs' L' s' \<and>
    (nf_state s = NV_STATE_IDLE \<and> \<not> nf_is_update s \<and> s' = s \<or> nearer qs s qs' s') \<and>
    (bak_phase s \<and> nf_state s' = NV_STATE_IDLE \<longrightarrow> copied b W pool_bytes L' \<and> qs' UD = []) \<and> same_contents s s' \<and>
    (main_phase s \<longrightarrow> nf_state s' \<noteq> NV_STATE_IDLE \<and> (bak_phase s' \<longrightarrow> nf_state s = NV_STATE_MAIN_WRITTEN))"
proof (cases "main_phase s")
  case True
  then have "\<exists>ret s' qs' L'. main_async c b s = Some (ret, s') \<and> nv_inv c b (burned s s' W) (kept s s' W V) qs' L' s' \<and> nearer qs s qs' s' \<and>
      same_contents s s' \<and> nf_state s' \<noteq> NV_STATE_IDLE \<and> (bak_phase s' \<longrightarrow> nf_state s = NV_STATE_MAIN_WRITTEN)"
    by (rule main_phase_cases)
      (use main_erase_step [OF i] main_write_step [OF i] main_wait_step [OF i] in \<open>fastforce simp: bak_phase_def\<close>)+
  then obtain ret s' qs' L' where r: "main_async c b s = Some (ret, s')" "nv_inv c b (burned s s' W) (kept s s' W V) qs' L' s'"
    "nearer qs s qs' s'" "same_contents s s'" "nf_state s' \<noteq> NV_STATE_IDLE" "bak_phase s' \<longrightarrow> nf_state s = NV_STATE_MAIN_WRITTEN" by blast
  have "nv_record_flash_flush_in_sleep c b s = Some (0, s')"
    using True r(1) pool_okD(2,3) [OF nv_invD(3) [OF i]]
    by (simp add: nv_record_flash_flush_in_sleep_def nv_record_flash_flush_int_def nv_record_flash_flush_main_def)
  then show ?thesis using r(2-6) phases_apart [OF True] by blast
next
  case nm: False
  show ?thesis
  proof (cases "bak_phase s")
    case False
    have "nf_state s = NV_STATE_IDLE \<and> \<not> nf_is_update s" using nm False by (cases "nf_state s") (auto simp: main_phase_def bak_phase_def)
    moreover have "nv_record_flash_flush_in_sleep c b s = Some (0, s)"
      using nm False by (simp add: nv_record_flash_flush_in_sleep_def nv_record_flash_flush_int_def)
    moreover have "burned s s W = W" "kept s s W V = V" using nm False by (simp_all add: burned_def kept_def)
    ultimately show ?thesis using i False nm by (auto simp: same_contents_def)
  next
    case True
    note K = flush_bak_keeps [OF i True]
    have call: "nv_record_flash_flush_in_sleep c b s = Some (0, if nf_state s' = NV_STATE_BAK_DONE then set_state NV_STATE_IDLE s' else s')"
      if "bak_async c s = Some (ret, s')" for ret s'
      using nm True that
      by (simp add: nv_record_flash_flush_in_sleep_def nv_record_flash_flush_int_def nv_record_flash_flush_bak_def)
    have fin: ?thesis if r: "bak_async c s = Some (ret, s')" "nf_state s' \<in> S" "nv_inv c b W V qs' L' s'" "nearer qs s qs' s' \<and> same_contents s s'"
      and S: "S \<subseteq> {NV_STATE_BAK_ERASING, NV_STATE_BAK_ERASED, NV_STATE_BAK_WRITTING, NV_STATE_BAK_WRITTEN}" for ret s' qs' L' S
    proof -
      have b: "bak_phase s'" "nf_state s' \<noteq> NV_STATE_BAK_DONE" "nf_state s' \<noteq> NV_STATE_IDLE" using r(2) S by (auto simp: bak_phase_def)
      then show ?thesis using call [OF r(1)] r(3,4) K nm by auto
    qed
    have "nf_state s \<noteq> NV_STATE_BAK_DONE" using nv_invD(5) [OF i] by (auto simp: phase_def)
    then consider "nf_state s = NV_STATE_MAIN_DONE \<or> nf_state s = NV_STATE_BAK_ERASING"
      | "nf_state s = NV_STATE_BAK_ERASED \<or> nf_state s = NV_STATE_BAK_WRITTING" | "nf_state s = NV_STATE_BAK_WRITTEN"
      using True by (auto simp: bak_phase_def)
    then show ?thesis
    proof cases
      case 1
      from bak_erase_step [OF i this] show ?thesis using fin [of _ _ "{NV_STATE_BAK_ERASING, NV_STATE_BAK_ERASED}"] by blast
    next
      case 2
      from bak_copy_step [OF i this] show ?thesis using fin [of _ _ "{NV_STATE_BAK_WRITTING, NV_STATE_BAK_WRITTEN}"] by blast
    next
      case 3
      from bak_wait_step [OF i 3] obtain ret s' qs' where r: "bak_async c s = Some (ret, s')"
        "nf_state s' = NV_STATE_BAK_WRITTEN \<and> nv_inv c b W V qs' L s' \<and> nearer qs s qs' s' \<and> same_contents s s' \<or>
         s' = set_state NV_STATE_BAK_DONE s \<and> qs UD = []" by blast
      show ?thesis
      proof (cases "nf_state s' = NV_STATE_BAK_WRITTEN")
        case True
        then show ?thesis using fin [OF r(1), of "{NV_STATE_BAK_WRITTEN}" qs' L] r(2) by (auto simp: set_state_def)
      next
        case False
        then have f: "s' = set_state NV_STATE_BAK_DONE s" "qs UD = []" using r(2) by auto
        let ?s = "s\<lparr>nf_state := NV_STATE_IDLE\<rparr>"
        have cp: "copied b W pool_bytes L" using nv_invD(5) [OF i] 3 by (simp add: phase_def)
        have same: "s\<lparr>nf_api := nf_api s, nf_state := NV_STATE_IDLE\<rparr> = ?s" by simp
        have "nv_inv c b W V qs L ?s" using bak_finished [OF i cp nv_invD(1) [OF i] f(2) K(1)] unfolding same .
        moreover have "nv_record_flash_flush_in_sleep c b s = Some (0, ?s)" using call [OF r(1)] f(1) by (simp add: set_state_def)
        moreover have "nearer qs s qs ?s" by (simp add: nearer_def)
        moreover have "burned s ?s W = W" "kept s ?s W V = V" using K(2,3) [of ?s] by simp_all
        moreover have "same_contents s ?s" by (simp add: same_contents_def)
        ultimately show ?thesis using cp f(2) nm by (intro exI [of _ ?s] exI [of _ qs] exI [of _ L]) simp
      qed
    qed
  qed
qed

section \<open>At once\<close>

lemma main_sync_ok:
  assumes i: "nv_inv c b W V qs L s" and cb: "na_allowed_cb (nf_api s) = 0"
    and st: "nf_state s \<in> {NV_STATE_IDLE, NV_STATE_MAIN_ERASING, NV_STATE_MAIN_ERASED}"
  shows "\<exists>q a qs' L'. burn_image b (nf_config s) (nf_pool s) = Some q \<and>
    main_sync c b s = Some (NORFLASH_API_OK, s\<lparr>nf_pool := q, nf_api := a, nf_is_update := False, nf_state := NV_STATE_MAIN_DONE\<rparr>) \<and>
    homed c b a qs' L' \<and> na_allowed_cb a = 0 \<and> qs' UD = [] \<and> sect L' (main_copy b) = q"
proof -
  note I = nv_invD [OF i]
  note P = pool_okD [OF I(3)]
  obtain q where q: "burn_image b (nf_config s) (nf_pool s) = Some q" using P(4) by blast
  have "\<exists>a qs1 L1. (if nf_state s = NV_STATE_IDLE \<or> nf_state s = NV_STATE_MAIN_ERASING
      then erase_sync c (nf_main_start s) NV_STATE_MAIN_ERASED s else Some s) = Some (s\<lparr>nf_api := a, nf_state := NV_STATE_MAIN_ERASED\<rparr>) \<and>
    homed c b a qs1 L1 \<and> na_allowed_cb a = 0 \<and> sect L1 (main_copy b) = blank pool_bytes"
  proof (cases "nf_state s = NV_STATE_MAIN_ERASED")
    case True
    have "s\<lparr>nf_api := nf_api s, nf_state := NV_STATE_MAIN_ERASED\<rparr> = s" using True [symmetric] by simp
    then show ?thesis using True I(1,5) cb
      by (intro exI [of _ "nf_api s"] exI [of _ qs] exI [of _ L]) (simp add: phase_def)
  next
    case False
    then have e: "qs UD = []" and m: "nf_main_start s = main_copy b" using I(2,5) st by (auto simp: phase_def starts_def)
    from erase_sync_ok [OF I(1) disjI1 [OF refl] e cb, of NV_STATE_MAIN_ERASED] show ?thesis using False st m by fastforce
  qed
  then obtain a qs1 L1 where e: "(if nf_state s = NV_STATE_IDLE \<or> nf_state s = NV_STATE_MAIN_ERASING
      then erase_sync c (nf_main_start s) NV_STATE_MAIN_ERASED s else Some s) = Some (s\<lparr>nf_api := a, nf_state := NV_STATE_MAIN_ERASED\<rparr>)"
    "homed c b a qs1 L1" "na_allowed_cb a = 0" "sect L1 (main_copy b) = blank pool_bytes" by blast
  let ?s1 = "s\<lparr>nf_api := a, nf_state := NV_STATE_MAIN_ERASED\<rparr>"
  have "homed c b (nf_api ?s1) qs1 L1" "starts b ?s1" "length (nf_pool ?s1) = pool_bytes"
    "burn_image b (nf_config ?s1) (nf_pool ?s1) = Some q" "na_allowed_cb (nf_api ?s1) = 0"
    using e I(2) P(1) q by (simp_all add: starts_def)
  from write_sync_ok [OF this(1-4) e(4) this(5)] obtain a2 qs2 L2 where
    w: "write_sync c b ?s1 = Some (?s1\<lparr>nf_pool := q, nf_api := a2, nf_is_update := False, nf_state := NV_STATE_MAIN_WRITTEN\<rparr>)"
      "homed c b a2 qs2 L2" "na_allowed_cb a2 = 0" "sect L2 (main_copy b) = q" by blast
  let ?s2 = "\<lambda>a. s\<lparr>nf_pool := q, nf_is_update := False, nf_state := NV_STATE_MAIN_WRITTEN, nf_api := a\<rparr>"
  have s2: "?s1\<lparr>nf_pool := q, nf_api := a2, nf_is_update := False, nf_state := NV_STATE_MAIN_WRITTEN\<rparr> = ?s2 a2" by simp
  have "homed c b (nf_api (?s2 a2)) qs2 L2" "na_allowed_cb (nf_api (?s2 a2)) = 0" using w by simp_all
  from wait_used_ok [OF this] obtain a3 qs3 where
    u: "wait_used c (?s2 a2) = Some (?s2 a3)" "homed c b a3 qs3 L2" "na_allowed_cb a3 = 0" "qs3 UD = []" by auto
  have "main_sync c b s = Some (NORFLASH_API_OK, set_state NV_STATE_MAIN_DONE (?s2 a3))"
    unfolding main_sync_def e(1) using w(1) u(1) unfolding s2 by simp
  moreover have "set_state NV_STATE_MAIN_DONE (?s2 a3) =
      s\<lparr>nf_pool := q, nf_api := a3, nf_is_update := False, nf_state := NV_STATE_MAIN_DONE\<rparr>" by (simp add: set_state_def)
  ultimately show ?thesis using q u(2-4) w(4) by auto
qed

lemma bak_sync_ok:
  assumes h: "homed c b (nf_api s) qs L" and sts: "starts b s" and cb: "na_allowed_cb (nf_api s) = 0" and A: "sect L (main_copy b) = w"
    and st: "nf_state s \<in> {NV_STATE_MAIN_DONE, NV_STATE_BAK_ERASING} \<and> qs UD = [] \<or>
      nf_state s = NV_STATE_BAK_ERASED \<and> sect L (bak_copy b) = blank pool_bytes"
  shows "\<exists>a qs' L'. bak_sync c s = Some (NORFLASH_API_OK, s\<lparr>nf_api := a, nf_written_size := nvrecord_mem_pool_size, nf_state := NV_STATE_BAK_DONE\<rparr>) \<and>
    homed c b a qs' L' \<and> na_allowed_cb a = 0 \<and> qs' UD = [] \<and> copied b w pool_bytes L'"
proof -
  have "\<exists>a qs1 L1. (if nf_state s = NV_STATE_MAIN_DONE \<or> nf_state s = NV_STATE_BAK_ERASING
      then erase_sync c (nf_bak_start s) NV_STATE_BAK_ERASED s else Some s) = Some (s\<lparr>nf_api := a, nf_state := NV_STATE_BAK_ERASED\<rparr>) \<and>
    homed c b a qs1 L1 \<and> na_allowed_cb a = 0 \<and> copied b w 0 L1"
  proof (cases "nf_state s = NV_STATE_BAK_ERASED")
    case True
    have "s\<lparr>nf_api := nf_api s, nf_state := NV_STATE_BAK_ERASED\<rparr> = s" using True [symmetric] by simp
    then show ?thesis using True h st cb A
      by (intro exI [of _ "nf_api s"] exI [of _ qs] exI [of _ L]) (simp add: copied_none)
  next
    case False
    then have e: "qs UD = []" and m: "nf_bak_start s = bak_copy b" using sts st by (auto simp: starts_def)
    from erase_sync_ok [OF h disjI2 [OF refl] e cb, of NV_STATE_BAK_ERASED] show ?thesis using False st m A by (fastforce simp: copied_none)
  qed
  then obtain a qs1 L1 where e: "(if nf_state s = NV_STATE_MAIN_DONE \<or> nf_state s = NV_STATE_BAK_ERASING
      then erase_sync c (nf_bak_start s) NV_STATE_BAK_ERASED s else Some s) = Some (s\<lparr>nf_api := a, nf_state := NV_STATE_BAK_ERASED\<rparr>)"
    "homed c b a qs1 L1" "na_allowed_cb a = 0" "copied b w 0 L1" by blast
  let ?s1 = "s\<lparr>nf_api := a, nf_state := NV_STATE_BAK_WRITTING, nf_written_size := 0\<rparr>"
  have "homed c b (nf_api ?s1) qs1 L1" "starts b ?s1" "chunks 0 ?s1" "na_allowed_cb (nf_api ?s1) = 0"
    using e sts by (simp_all add: starts_def chunks_def pool_bytes_def)
  from copy_sync_ok [OF this(1-3) e(4) this(4)] obtain a2 qs2 L2 where
    k: "copy_sync c ?s1 = Some (?s1\<lparr>nf_api := a2, nf_written_size := nvrecord_mem_pool_size, nf_state := NV_STATE_BAK_WRITTEN\<rparr>)"
      "homed c b a2 qs2 L2" "na_allowed_cb a2 = 0" "copied b w pool_bytes L2" by blast
  let ?s2 = "\<lambda>a. s\<lparr>nf_written_size := nvrecord_mem_pool_size, nf_state := NV_STATE_BAK_WRITTEN, nf_api := a\<rparr>"
  have s2: "?s1\<lparr>nf_api := a2, nf_written_size := nvrecord_mem_pool_size, nf_state := NV_STATE_BAK_WRITTEN\<rparr> = ?s2 a2" by simp
  have "homed c b (nf_api (?s2 a2)) qs2 L2" "na_allowed_cb (nf_api (?s2 a2)) = 0" using k by simp_all
  from wait_used_ok [OF this] obtain a3 qs3 where
    u: "wait_used c (?s2 a2) = Some (?s2 a3)" "homed c b a3 qs3 L2" "na_allowed_cb a3 = 0" "qs3 UD = []" by auto
  have s1: "set_state NV_STATE_BAK_WRITTING (s\<lparr>nf_api := a, nf_state := NV_STATE_BAK_ERASED, nf_written_size := 0\<rparr>) = ?s1"
    by (simp add: set_state_def)
  have "bak_sync c s = Some (NORFLASH_API_OK, set_state NV_STATE_BAK_DONE (?s2 a3))"
    unfolding bak_sync_def e(1) using s1 k(1) u(1) unfolding s2 by simp
  moreover have "set_state NV_STATE_BAK_DONE (?s2 a3) =
      s\<lparr>nf_api := a3, nf_written_size := nvrecord_mem_pool_size, nf_state := NV_STATE_BAK_DONE\<rparr>" by (simp add: set_state_def)
  ultimately show ?thesis using u(2-4) k(4) by auto
qed

lemma flush_bak_sync:
  assumes "bak_sync c s = Some (NORFLASH_API_OK, s')" "nf_state s' = NV_STATE_BAK_DONE"
  shows "nv_record_flash_flush_bak c False s = Some (0, set_state NV_STATE_IDLE s')"
  using assms by (simp add: nv_record_flash_flush_bak_def result_code_def)

text \<open>A synchronous flush that finds the main copy safe finishes the backup.\<close>

lemma bak_flush_ok:
  assumes i: "nv_inv c b W V qs L s" and cb: "na_allowed_cb (nf_api s) = 0"
    and st: "nf_state s \<in> {NV_STATE_MAIN_DONE, NV_STATE_BAK_ERASING, NV_STATE_BAK_ERASED}"
  shows "\<exists>s' qs' L'. nv_record_flash_flush_bak c False s = Some (0, s') \<and> nv_inv c b W V qs' L' s' \<and> nf_state s' = NV_STATE_IDLE \<and>
    nf_is_update s' = nf_is_update s \<and> nf_pool s' = nf_pool s \<and> nf_config s' = nf_config s \<and> nf_init s' = nf_init s \<and>
    na_allowed_cb (nf_api s') = 0 \<and> qs' UD = [] \<and> copied b W pool_bytes L'"
proof -
  note I = nv_invD [OF i]
  have V: "V = Some W" and A: "sect L (main_copy b) = W"
    and st': "nf_state s \<in> {NV_STATE_MAIN_DONE, NV_STATE_BAK_ERASING} \<and> qs UD = [] \<or>
      nf_state s = NV_STATE_BAK_ERASED \<and> sect L (bak_copy b) = blank pool_bytes"
    using I(5) st by (auto simp: phase_def copied_none)
  from bak_sync_ok [OF I(1,2) cb A st'] obtain a qs' L' where
    r: "bak_sync c s = Some (NORFLASH_API_OK, s\<lparr>nf_api := a, nf_written_size := nvrecord_mem_pool_size, nf_state := NV_STATE_BAK_DONE\<rparr>)"
      "homed c b a qs' L'" "na_allowed_cb a = 0" "qs' UD = []" "copied b W pool_bytes L'" by blast
  let ?s = "s\<lparr>nf_api := a, nf_written_size := nvrecord_mem_pool_size, nf_state := NV_STATE_IDLE\<rparr>"
  have "nv_record_flash_flush_bak c False s = Some (0, ?s)" using flush_bak_sync [OF r(1)] by (simp add: set_state_def)
  moreover have "nv_inv c b W V qs' L' ?s" using i r V by (auto simp: inv_defs copied_full)
  ultimately show ?thesis using r(3-5) by (intro exI [of _ ?s] exI [of _ qs'] exI [of _ L']) simp
qed

text \<open>A synchronous flush from the beginning, or after the main copy was erased, writes both copies.\<close>

lemma main_flush_ok:
  assumes i: "nv_inv c b W V qs L s" and cb: "na_allowed_cb (nf_api s) = 0"
    and st: "nf_state s = NV_STATE_IDLE \<and> nf_is_update s \<or> nf_state s \<in> {NV_STATE_MAIN_ERASING, NV_STATE_MAIN_ERASED}"
  shows "\<exists>s' qs' L'. nv_record_flash_flush_int c b False s = Some (0, s') \<and>
    burn_image b (nf_config s) (nf_pool s) = Some (nf_pool s') \<and> nv_inv c b (nf_pool s') (Some (nf_pool s')) qs' L' s' \<and>
    nf_state s' = NV_STATE_IDLE \<and> \<not> nf_is_update s' \<and> nf_config s' = nf_config s \<and> nf_init s' = nf_init s \<and>
    na_allowed_cb (nf_api s') = 0 \<and> qs' UD = [] \<and> copied b (nf_pool s') pool_bytes L'"
proof -
  note I = nv_invD [OF i]
  note P = pool_okD [OF I(3)]
  have "nf_state s \<in> {NV_STATE_IDLE, NV_STATE_MAIN_ERASING, NV_STATE_MAIN_ERASED}" using st by auto
  from main_sync_ok [OF i cb this] obtain q a qs1 L1 where
    m: "burn_image b (nf_config s) (nf_pool s) = Some q"
      "main_sync c b s = Some (NORFLASH_API_OK, s\<lparr>nf_pool := q, nf_api := a, nf_is_update := False, nf_state := NV_STATE_MAIN_DONE\<rparr>)"
      "homed c b a qs1 L1" "na_allowed_cb a = 0" "qs1 UD = []" "sect L1 (main_copy b) = q" by blast
  let ?s1 = "s\<lparr>nf_pool := q, nf_api := a, nf_is_update := False, nf_state := NV_STATE_MAIN_DONE\<rparr>"
  note B = burn_image_facts [OF m(1) P(1)]
  have i1: "nv_inv c b q (Some q) qs1 L1 ?s1" using i m B(1,2,5) B(7) [OF P(3)] by (auto simp: inv_defs)
  have "na_allowed_cb (nf_api ?s1) = 0" "nf_state ?s1 \<in> {NV_STATE_MAIN_DONE, NV_STATE_BAK_ERASING, NV_STATE_BAK_ERASED}" using m(4) by simp_all
  from bak_flush_ok [OF i1 this] obtain s' qs' L' where
    r: "nv_record_flash_flush_bak c False ?s1 = Some (0, s')" "nv_inv c b q (Some q) qs' L' s'" "nf_state s' = NV_STATE_IDLE"
      "nf_is_update s' = nf_is_update ?s1" "nf_pool s' = nf_pool ?s1" "nf_config s' = nf_config ?s1" "nf_init s' = nf_init ?s1"
      "na_allowed_cb (nf_api s') = 0" "qs' UD = []" "copied b q pool_bytes L'" by blast
  have "main_phase s" using st by (auto simp: main_phase_def)
  moreover have "bak_phase ?s1" by (simp add: bak_phase_def)
  moreover have "nv_record_flash_flush_main c b False s = Some (0, ?s1)"
    using m(2) P(2,3) by (simp add: nv_record_flash_flush_main_def result_code_def)
  ultimately have "nv_record_flash_flush_int c b False s = Some (0, s')"
    using r(1) by (simp add: nv_record_flash_flush_int_def)
  then show ?thesis using r m(1) by (intro exI [of _ s'] exI [of _ qs'] exI [of _ L']) simp
qed

text \<open>In four states a synchronous flush does nothing.\<close>

lemma flush_skips:
  assumes "nf_state s \<in> {NV_STATE_MAIN_WRITTING, NV_STATE_MAIN_WRITTEN, NV_STATE_BAK_WRITTING, NV_STATE_BAK_WRITTEN}"
    "word_at (nf_pool s) 0 = nvrecord_version_magic"
  shows "nv_record_flash_flush c b s = Some s"
  using assms
  by (auto simp: nv_record_flash_flush_def nv_record_flash_flush_int_def nv_record_flash_flush_main_def nv_record_flash_flush_bak_def
    main_phase_def bak_phase_def main_sync_def bak_sync_def)

lemma sync_step:
  assumes i: "nv_inv c b W V qs L s" and cb: "na_allowed_cb (nf_api s) = 0"
  shows "\<exists>s' qs' L'. nv_record_flash_flush c b s = Some s' \<and> nv_inv c b (burned s s' W) (kept s s' W V) qs' L' s'"
proof -
  note I = nv_invD [OF i]
  have nb: "nf_state s \<noteq> NV_STATE_BAK_DONE" using I(5) by (auto simp: phase_def)
  consider "nf_state s = NV_STATE_IDLE \<and> nf_is_update s \<or> nf_state s \<in> {NV_STATE_MAIN_ERASING, NV_STATE_MAIN_ERASED}"
    | "nf_state s \<in> {NV_STATE_MAIN_DONE, NV_STATE_BAK_ERASING, NV_STATE_BAK_ERASED}"
    | "nf_state s = NV_STATE_IDLE" "\<not> nf_is_update s"
    | "nf_state s \<in> {NV_STATE_MAIN_WRITTING, NV_STATE_MAIN_WRITTEN, NV_STATE_BAK_WRITTING, NV_STATE_BAK_WRITTEN}"
    using nb by (cases "nf_state s") auto
  then show ?thesis
  proof cases
    case 1
    from main_flush_ok [OF i cb 1] obtain s' qs' L' where r: "nv_record_flash_flush_int c b False s = Some (0, s')"
      "nv_inv c b (nf_pool s') (Some (nf_pool s')) qs' L' s'" "nf_state s' = NV_STATE_IDLE" by blast
    have "main_phase s" "nf_state s \<noteq> NV_STATE_MAIN_WRITTEN" using 1 by (auto simp: main_phase_def)
    then show ?thesis using r by (auto simp: nv_record_flash_flush_def burned_def kept_def)
  next
    case 2
    from bak_flush_ok [OF i cb 2] obtain s' qs' L' where r: "nv_record_flash_flush_bak c False s = Some (0, s')"
      "nv_inv c b W V qs' L' s'" "nf_state s' = NV_STATE_IDLE" by blast
    have b: "bak_phase s" "\<not> main_phase s" using 2 by (auto simp: bak_phase_def main_phase_def)
    then show ?thesis using r flush_bak_keeps(2,3) [OF i b(1), of s']
      by (auto simp: nv_record_flash_flush_def nv_record_flash_flush_int_def)
  next
    case 3
    then have "\<not> main_phase s" "\<not> bak_phase s" by (auto simp: bak_phase_def main_phase_def)
    then show ?thesis using i by (auto simp: nv_record_flash_flush_def nv_record_flash_flush_int_def burned_def kept_def)
  next
    case 4
    have "burned s s W = W" using 4 by (auto simp: burned_def)
    moreover have "kept s s W V = V"
      using 4 I(5) \<open>burned s s W = W\<close> by (auto simp: kept_def bak_phase_def phase_def)
    ultimately show ?thesis using i flush_skips [OF 4 pool_okD(2) [OF I(3)]] by auto
  qed
qed

end
