(* ===== verification/Nvrec_Flash_Runs.thy ===== *)
theory Nvrec_Flash_Runs
  imports Nvrec_Flash_Calls
begin

text \<open>
  Opening the database, what the other clients of the flash service do meanwhile, and the states a system can be in
  between opening the database and losing power.
\<close>

section \<open>Opening\<close>

text \<open>A copy that the check refuses, or that was written by the flush: the check does not accept anything else.\<close>

definition intact :: "nv_target \<Rightarrow> u8 list \<Rightarrow> bool" where
  "intact b p \<longleftrightarrow> copy_is_valid b p = Some False \<or> burnt b p"

lemma intact_valid: "intact b p \<Longrightarrow> copy_is_valid b p = Some (burnt b p)"
  using burntD(3) by (auto simp: intact_def)

lemma copy_raw:
  assumes "homed c b (nf_api s) qs L" "addr = main_copy b \<or> addr = bak_copy b" "addr \<notin> busy_sectors (nf_api s) qs"
  shows "copy_at addr s = sect L addr"
  using raw_copy [OF assms] by (simp add: copy_at_def)

text \<open>The state in which opening begins, and with what it ends when it found a copy.\<close>

definition open_start :: "nv_target \<Rightarrow> nv_store \<Rightarrow> nv_store" where
  "open_start b s = s\<lparr>nf_main_start := main_copy b, nf_bak_start := bak_copy b, nf_is_update := False, nf_written_size := 0,
     nf_state := NV_STATE_IDLE\<rparr>"

definition opened :: "nv_target \<Rightarrow> nv_store \<Rightarrow> nv_store" where
  "opened b s = s\<lparr>nf_config := word_at (nf_pool s) 16, nf_mempool := ddblist_pool b + mempool_offset, nf_init := True,
     nf_sleep_hook := True\<rparr>"

lemma copy_at_upd [simp]:
  "copy_at addr (open_start b s) = copy_at addr s" "copy_at addr (s\<lparr>nf_pool := p\<rparr>) = copy_at addr s"
  by (simp_all add: copy_at_def open_start_def)

lemma open_cases:
  assumes "\<not> nf_init s" "copy_is_valid b (copy_at (main_copy b) s) = Some m" "copy_is_valid b (copy_at (bak_copy b) s) = Some k"
  shows "nv_record_open c b section_usrdata_ddbrecord s =
    (if m then
       if k then Some (BT_STS_SUCCESS, opened b ((open_start b s)\<lparr>nf_pool := copy_at (main_copy b) s\<rparr>))
       else do {
         (_, s') \<leftarrow> nv_record_flash_flush_int c b False ((open_start b s)\<lparr>nf_pool := copy_at (main_copy b) s, nf_is_update := True,
           nf_state := NV_STATE_MAIN_DONE, nf_config := word_at (copy_at (main_copy b) s) 16\<rparr>);
         Some (BT_STS_SUCCESS, opened b s') }
     else if k then do {
         (_, s') \<leftarrow> nv_record_flash_flush_int c b False ((open_start b s)\<lparr>nf_pool := copy_at (bak_copy b) s,
           nf_config := word_at (copy_at (bak_copy b) s) 16, nf_is_update := True, nf_state := NV_STATE_IDLE\<rparr>);
         Some (BT_STS_SUCCESS, opened b s') }
     else let (r, s') = nv_record_config_rebuild b ((open_start b s)\<lparr>nf_pool := copy_at (bak_copy b) s\<rparr>); s' = s'\<lparr>nf_init := True\<rparr>
       in Some (r, if r = BT_STS_SUCCESS then s'\<lparr>nf_sleep_hook := True\<rparr> else s'))"
proof -
  have o: "s\<lparr>nf_main_start := main_copy b, nf_bak_start := bak_copy b, nf_is_update := False, nf_written_size := 0,
     nf_state := NV_STATE_IDLE\<rparr> = open_start b s" by (simp add: open_start_def)
  have st: "nf_main_start (open_start b s) = main_copy b" "nf_bak_start (open_start b s) = bak_copy b" by (simp_all add: open_start_def)
  show ?thesis
    using assms unfolding nv_record_open_def Let_def o
    by (cases m; cases k) (simp_all add: st opened_def bind_assoc case_prod_unfold cong: option.case_cong)
qed

lemma nv_inv_opened:
  "nv_inv c b W V qs L s \<Longrightarrow> word_at (nf_pool s) 16 = nf_config s \<Longrightarrow> nv_inv c b W V qs L (opened b s)"
  by (auto simp: nv_inv_def opened_def starts_def pool_ok_def phase_def chunks_def cong: NV_STATE.case_cong)

lemma pool_ok_burnt: "burnt b (nf_pool s) \<Longrightarrow> nf_config s = word_at (nf_pool s) 16 \<Longrightarrow> pool_ok b s"
  using burntD [of b "nf_pool s"] by (auto simp: pool_ok_def)

lemma nv_open_ok:
  assumes h: "homed c b (nf_api s) qs L" and e: "qs UD = []" and cb: "na_allowed_cb (nf_api s) = 0" and ini: "\<not> nf_init s"
    and int: "intact b (copy_at (main_copy b) s)" "intact b (copy_at (bak_copy b) s)"
    and one: "burnt b (copy_at (main_copy b) s) \<or> burnt b (copy_at (bak_copy b) s)"
  shows "\<exists>s' qs' L'. nv_record_open c b section_usrdata_ddbrecord s = Some (BT_STS_SUCCESS, s') \<and>
    nf_pool s' = (if burnt b (copy_at (main_copy b) s) then copy_at (main_copy b) s else copy_at (bak_copy b) s) \<and>
    nf_state s' = NV_STATE_IDLE \<and> nf_init s' \<and> na_allowed_cb (nf_api s') = 0 \<and> qs' UD = [] \<and>
    burnt b (copy_at (main_copy b) s') \<and> nv_inv c b (nf_pool s') (Some (copy_at (bak_copy b) s')) qs' L' s'"
proof -
  let ?A = "copy_at (main_copy b) s" and ?B = "copy_at (bak_copy b) s"
  have raw: "?A = sect L (main_copy b)" "?B = sect L (bak_copy b)" using copy_raw [OF h] e by simp_all
  have keep: "burnt b (copy_at (main_copy b) (opened b s')) \<and> nv_inv c b (nf_pool s') (Some (copy_at (bak_copy b) (opened b s'))) qs' L' (opened b s')"
    if i: "nv_inv c b (nf_pool s') (Some (sect L' (bak_copy b))) qs' L' s'" "word_at (nf_pool s') 16 = nf_config s'" "qs' UD = []"
      "burnt b (sect L' (main_copy b))" for s' qs' L'
  proof -
    have "homed c b (nf_api (opened b s')) qs' L'" using nv_invD(1) [OF i(1)] by (simp add: opened_def)
    note cr = copy_raw [OF this]
    have "copy_at (main_copy b) (opened b s') = sect L' (main_copy b)" "copy_at (bak_copy b) (opened b s') = sect L' (bak_copy b)"
      by (rule cr; use i(3) in simp)+
    then show ?thesis using nv_inv_opened [OF i(1,2)] i(4) by simp
  qed
  note oc = open_cases [OF ini intact_valid [OF int(1)] intact_valid [OF int(2)], of c]
  show ?thesis
  proof (cases "burnt b ?A")
    case A: True
    show ?thesis
    proof (cases "burnt b ?B")
      case True
      let ?s = "(open_start b s)\<lparr>nf_pool := ?A\<rparr>" and ?r = "opened b ((open_start b s)\<lparr>nf_pool := ?A\<rparr>)"
      have h1: "homed c b (nf_api ?r) qs L" using h by (simp add: open_start_def opened_def)
      have "burnt b (nf_pool ?r)" "nf_config ?r = word_at (nf_pool ?r) 16" using A by (simp_all add: opened_def)
      note P = pool_ok_burnt [OF this]
      have B: "copy_at (bak_copy b) ?r = ?B" "copy_at (main_copy b) ?r = ?A" by (simp_all add: opened_def open_start_def copy_at_def)
      have "nv_inv c b (nf_pool ?r) (Some (copy_at (bak_copy b) ?r)) qs L ?r"
        using h1 P True e raw(2) unfolding B nv_inv_def by (simp add: starts_def phase_def opened_def open_start_def)
      moreover have "nv_record_open c b section_usrdata_ddbrecord s = Some (BT_STS_SUCCESS, ?r)" using oc A True by simp
      ultimately show ?thesis using A B(2) cb e
        by (intro exI [of _ ?r] exI [of _ qs] exI [of _ L]) (simp add: opened_def open_start_def)
    next
      case False
      let ?s = "(open_start b s)\<lparr>nf_pool := ?A, nf_is_update := True, nf_state := NV_STATE_MAIN_DONE, nf_config := word_at ?A 16\<rparr>"
      have "nv_inv c b ?A (Some ?A) qs L ?s"
        using h A e raw(1) pool_ok_burnt [of b ?s] unfolding nv_inv_def by (simp add: starts_def phase_def open_start_def)
      from bak_flush_ok [OF this] cb obtain s' qs' L' where
        r: "nv_record_flash_flush_bak c False ?s = Some (0, s')" "nv_inv c b ?A (Some ?A) qs' L' s'" "nf_state s' = NV_STATE_IDLE"
          "nf_pool s' = ?A" "nf_config s' = word_at ?A 16" "na_allowed_cb (nf_api s') = 0" "qs' UD = []" "copied b ?A pool_bytes L'"
        by (auto simp: open_start_def)
      have f: "nv_record_flash_flush_int c b False ?s = Some (0, s')"
        using r(1) by (simp add: nv_record_flash_flush_int_def main_phase_def bak_phase_def)
      have run: "nv_record_open c b section_usrdata_ddbrecord s = Some (BT_STS_SUCCESS, opened b s')" using oc A False f by simp
      have "nv_inv c b (nf_pool s') (Some (sect L' (bak_copy b))) qs' L' s'" using r(2,4,8) by (simp add: copied_full)
      moreover have "word_at (nf_pool s') 16 = nf_config s'" "burnt b (sect L' (main_copy b))" using r(4,5,8) A by (simp_all add: copied_full)
      ultimately show ?thesis using keep [of s' L' qs'] run r(3-7) A
        by (intro exI [of _ "opened b s'"] exI [of _ qs'] exI [of _ L']) (simp add: opened_def)
    qed
  next
    case A: False
    then have B: "burnt b ?B" using one by blast
    let ?s = "(open_start b s)\<lparr>nf_pool := ?B, nf_config := word_at ?B 16, nf_is_update := True, nf_state := NV_STATE_IDLE\<rparr>"
    have "nv_inv c b ?B (Some ?B) qs L ?s"
      using h B e raw(2) pool_ok_burnt [of b ?s] unfolding nv_inv_def by (simp add: starts_def phase_def open_start_def)
    from main_flush_ok [OF this] cb obtain s' qs' L' where
      r: "nv_record_flash_flush_int c b False ?s = Some (0, s')" "burn_image b (word_at ?B 16) ?B = Some (nf_pool s')"
        "nv_inv c b (nf_pool s') (Some (nf_pool s')) qs' L' s'" "nf_state s' = NV_STATE_IDLE"
        "nf_config s' = word_at ?B 16" "na_allowed_cb (nf_api s') = 0" "qs' UD = []" "copied b (nf_pool s') pool_bytes L'"
      by (auto simp: open_start_def)
    have p: "nf_pool s' = ?B" using r(2) burntD(5) [OF B] by simp
    have run: "nv_record_open c b section_usrdata_ddbrecord s = Some (BT_STS_SUCCESS, opened b s')" using oc A B r(1) by simp
    have "nv_inv c b (nf_pool s') (Some (sect L' (bak_copy b))) qs' L' s'" using r(3,8) by (simp add: copied_full)
    moreover have "word_at (nf_pool s') 16 = nf_config s'" "burnt b (sect L' (main_copy b))" using r(5,8) p B by (simp_all add: copied_full)
    ultimately show ?thesis using keep [of s' L' qs'] run r(4-7) A p
      by (intro exI [of _ "opened b s'"] exI [of _ qs'] exI [of _ L']) (simp add: opened_def)
  qed
qed

text \<open>With no copy to be found, the pool is built anew.\<close>

lemma open_new_ok:
  assumes h: "homed c b (nf_api s) qs L" and e: "qs UD = []" and ini: "\<not> nf_init s"
    and none: "copy_is_valid b (copy_at (main_copy b) s) = Some False" "copy_is_valid b (copy_at (bak_copy b) s) = Some False"
    and run: "nv_record_open c b section_usrdata_ddbrecord s = Some (BT_STS_SUCCESS, s')" and p: "pool_ok b s'"
  shows "nv_inv c b W None qs L s'"
proof -
  obtain r s1 where r: "nv_record_config_rebuild b ((open_start b s)\<lparr>nf_pool := copy_at (bak_copy b) s\<rparr>) = (r, s1)"
    by (cases "nv_record_config_rebuild b ((open_start b s)\<lparr>nf_pool := copy_at (bak_copy b) s\<rparr>)")
  then have "s' = s1\<lparr>nf_init := True, nf_sleep_hook := True\<rparr>" using run open_cases [OF ini none, of c] by (auto simp: Let_def split: if_splits)
  moreover have "nf_api s1 = nf_api s" "nf_state s1 = NV_STATE_IDLE" "starts b s1"
    using r by (auto simp: nv_record_config_rebuild_def nv_record_mempool_init_def open_start_def starts_def Let_def
      split: prod.splits if_splits)
  ultimately show ?thesis using h e p by (simp add: nv_inv_def starts_def phase_def)
qed

section \<open>The other clients\<close>

text \<open>What else happens to the flash service: other modules queue erases, and writes that only clear bits of what they read,
  anyone flushes or postpones flushing, interrupts come.\<close>

inductive other_call :: "norflash_ctx \<Rightarrow> norflash_api \<Rightarrow> norflash_api \<Rightarrow> bool" for c where
  other_erase: "k \<noteq> UD \<Longrightarrow> mi_is_inited (na_mod_info a k) \<Longrightarrow> sector_in (na_mod_info a k) addr \<Longrightarrow> \<not> buried a k addr \<Longrightarrow>
    norflash_api_erase c k addr 4096 True a = Some (r, a') \<Longrightarrow> other_call c a a'"
| other_write: "k \<noteq> UD \<Longrightarrow> mi_is_inited (na_mod_info a k) \<Longrightarrow> within (na_mod_info a k) addr (length bs) \<Longrightarrow>
    norflash_api_read k addr (of_nat (length bs)) a = Some (NORFLASH_API_OK, old) \<Longrightarrow>
    list_all2 (\<lambda>x y. x AND y = y) old bs \<Longrightarrow> norflash_api_write c k addr bs True a = Some (r, a') \<Longrightarrow> other_call c a a'"
| other_flush: "norflash_api_flush c a = Some (n, a') \<Longrightarrow> other_call c a a'"
| other_disable: "norflash_api_flush_disable u cb a = Some a' \<Longrightarrow> other_call c a a'"
| other_enable: "norflash_api_flush_enable u a = Some a' \<Longrightarrow> other_call c a a'"
| other_environment: "other_call c a (a\<lparr>na_allow := w, na_flash := (na_flash a)\<lparr>fl_irqs := js\<rparr>\<rparr>)"

definition copies_keep :: "nv_target \<Rightarrow> (nat \<Rightarrow> u8) \<Rightarrow> (nat \<Rightarrow> u8) \<Rightarrow> bool" where
  "copies_keep b L L' \<longleftrightarrow> sect L' (main_copy b) = sect L (main_copy b) \<and> sect L' (bak_copy b) = sect L (bak_copy b)"

lemma copies_keep_refl [simp]: "copies_keep b L L"
  by (simp add: copies_keep_def)

lemma copies_keepI:
  assumes h: "homed c b a qs L" and out: "\<And>x. in_range (na_mod_info a UD) x \<Longrightarrow> L' x = L x"
  shows "copies_keep b L L'"
  using in_sector_range [OF homedD(5,6,3) [OF h]] in_sector_range [OF homedD(5,6,4) [OF h]] out
  unfolding copies_keep_def by (blast intro: sect_cong)

lemma only_adds_other: "only_adds k X a qs a' qs' \<Longrightarrow> k \<noteq> m \<Longrightarrow> op_addrs a' (qs' m) \<subseteq> op_addrs a (qs m)"
  unfolding only_adds_def by (drule spec [of _ m]) simp

lemma other_ok:
  assumes h: "homed c b a qs L" and o: "other_call c a a'"
  shows "\<exists>qs' L'. homed c b a' qs' L' \<and> busy_sectors a' qs' \<subseteq> busy_sectors a qs \<and> copies_keep b L L'"
  using o
proof cases
  case (other_erase k addr r)
  note s = homedD(1) [OF h]
  note M = modules_okD [OF serviceD(1) [OF s]]
  have "\<not> buried_write (na_opera a) (qs k) addr" using other_erase(4) buried_ok [OF s other_erase(2)] by simp
  from async_erase_ok [OF s other_erase(2,3) this] obtain r' a2 qs' where
    f: "norflash_api_erase c k addr 4096 True a = Some (r', a2)" "keeps_modules a a2" "only_adds k {addr} a qs a2 qs'"
      "service c a2 qs' (over (flash_offset addr) 4096 ff L) \<or> qs' = qs \<and> service c a2 qs L" by blast
  have "over (flash_offset addr) 4096 ff L x = L x" if "in_range (na_mod_info a UD) x" for x
    using in_sector_range [OF M(1) M(4) [OF other_erase(2)] other_erase(3), of x]
      M(5) [OF other_erase(2) homedD(2) [OF h], of x] other_erase(1) that by (auto simp: over_def in_sector_def)
  then have "copies_keep b L (over (flash_offset addr) 4096 ff L)" by (rule copies_keepI [OF h])
  moreover have "busy_sectors a2 qs' \<subseteq> busy_sectors a qs" using only_adds_other [OF f(3)] other_erase(1) by blast
  moreover have "a2 = a'" using f(1) other_erase(5) by simp
  ultimately show ?thesis using f(4) homed_keep [OF h _ f(2)] copies_keep_refl by metis
next
  case (other_write k addr bs old r)
  note s = homedD(1) [OF h]
  note M = modules_okD [OF serviceD(1) [OF s]]
  note W = within_sector [OF M(1) M(4) [OF other_write(2)] other_write(3)]
  have "unat (of_nat (length bs) :: u32) = length bs" using W(6) by (simp add: unat_of_nat take_bit_nat_eq_self)
  then have old: "old = map L [flash_offset addr..<flash_offset addr + length bs]"
    using read_ok [OF s other_write(2,3)] other_write(4) by simp
  have "writable L (flash_offset addr) bs"
    using other_write(5) by (simp add: writable_def old list_all2_conv_all_nth)
  from async_write_ok [OF s other_write(2,3) this] obtain r' a2 qs' where
    f: "norflash_api_write c k addr bs True a = Some (r', a2)" "keeps_modules a a2" "only_adds k {sec_of addr} a qs a2 qs'"
      "service c a2 qs' (put (flash_offset addr) bs L) \<or> qs' = qs \<and> service c a2 qs L" by blast
  have "put (flash_offset addr) bs L x = L x" if "in_range (na_mod_info a UD) x" for x
  proof (cases "flash_offset addr \<le> x \<and> x < flash_offset addr + length bs")
    case True
    then have "x - flash_offset addr < length bs" "flash_offset addr + (x - flash_offset addr) = x" by linarith+
    then have "in_range (na_mod_info a k) x" using W(5) [of "x - flash_offset addr"] by simp
    then show ?thesis using M(5) [OF other_write(2) homedD(2) [OF h], of x] other_write(1) that by blast
  qed (auto simp: put_def over_def)
  then have "copies_keep b L (put (flash_offset addr) bs L)" by (rule copies_keepI [OF h])
  moreover have "busy_sectors a2 qs' \<subseteq> busy_sectors a qs" using only_adds_other [OF f(3)] other_write(1) by blast
  moreover have "a2 = a'" using f(1) other_write(6) by simp
  ultimately show ?thesis using f(4) homed_keep [OF h _ f(2)] copies_keep_refl by metis
next
  case (other_flush n)
  from flush_step [OF h] other_flush show ?thesis using copies_keep_refl by fastforce
next
  case (other_disable u cb)
  then have "a' = a \<or> (\<exists>x. a' = a\<lparr>na_allowed_cb := x\<rparr>)" by (auto simp: norflash_api_flush_disable_def check_def split: if_splits)
  moreover have "homed c b (a\<lparr>na_allowed_cb := x\<rparr>) qs L" for x using h by (simp add: homed_def service_env)
  ultimately have "homed c b a' qs L" "na_opera a' = na_opera a" using h by auto
  then show ?thesis by (intro exI [of _ qs] exI [of _ L]) (simp add: op_addrs_def)
next
  case (other_enable u)
  then have "a' = a \<or> (\<exists>x. a' = a\<lparr>na_allowed_cb := x\<rparr>)" by (auto simp: norflash_api_flush_enable_def check_def split: if_splits)
  moreover have "homed c b (a\<lparr>na_allowed_cb := x\<rparr>) qs L" for x using h by (simp add: homed_def service_env)
  ultimately have "homed c b a' qs L" "na_opera a' = na_opera a" using h by auto
  then show ?thesis by (intro exI [of _ qs] exI [of _ L]) (simp add: op_addrs_def)
next
  case (other_environment w js)
  have "homed c b a' qs L" using h environment_ok [OF homedD(1) [OF h]] unfolding other_environment by (simp add: homed_def)
  then show ?thesis unfolding other_environment by (intro exI [of _ qs] exI [of _ L]) (simp add: op_addrs_def)
qed

lemma others_inv:
  assumes i: "nv_inv c b W V qs L s" and o: "other_call c (nf_api s) a"
  shows "\<exists>qs' L'. nv_inv c b W V qs' L' (s\<lparr>nf_api := a\<rparr>)"
proof -
  from other_ok [OF nv_invD(1) [OF i] o] obtain qs' L' where
    r: "homed c b a qs' L'" "busy_sectors a qs' \<subseteq> busy_sectors (nf_api s) qs" "copies_keep b L L'" by blast
  have "copied b W n L' = copied b W n L" "chunks n (s\<lparr>nf_api := a\<rparr>) = chunks n s" for n
    using r(3) by (simp_all add: copied_def copies_keep_def chunks_def)
  then have "phase b (s\<lparr>nf_api := a\<rparr>) W V (busy_sectors a qs') L'"
    using nv_invD(5) [OF i] r(2,3) unfolding phase_def copies_keep_def
    by (cases "nf_state s") (auto simp: Let_def)
  then show ?thesis using i r(1) unfolding nv_inv_def by (auto simp: starts_def pool_ok_def)
qed

section \<open>Runs\<close>

text \<open>The system restarted: the flash service serves its modules, that of the database among them, nothing is queued for it
  and nobody postpones flushing.\<close>

definition restarted :: "norflash_ctx \<Rightarrow> nv_target \<Rightarrow> nv_store \<Rightarrow> bool" where
  "restarted c b s \<longleftrightarrow> (\<exists>L. served c (nf_api s) L) \<and> region_ok b (na_mod_info (nf_api s) UD) \<and> queue (nf_api s) UD = [] \<and>
     na_allowed_cb (nf_api s) = 0 \<and> \<not> nf_init s"

lemma restarted_homed:
  assumes "restarted c b s"
  shows "\<exists>qs L. homed c b (nf_api s) qs L \<and> qs UD = []"
proof -
  obtain L where L: "served c (nf_api s) L" "region_ok b (na_mod_info (nf_api s) UD)" "queue (nf_api s) UD = []"
    using assms by (auto simp: restarted_def)
  obtain qs where qs: "service c (nf_api s) qs L" using served_service [OF L(1)] by blast
  then have "qs UD = []" using queue_ok [OF qs] L(2,3) by (simp add: region_ok_def)
  then show ?thesis using qs L(2) by (auto simp: homed_def)
qed

text \<open>\<open>nv_run c b s W V\<close>: after opening and any sequence of changes of the pool, steps of the flush before sleeping,
  synchronous flushes and calls of other clients, the state is \<open>s\<close>; the image last written to the main copy is \<open>W\<close>, and \<open>V\<close>
  the one that is to survive a loss of power.\<close>

inductive nv_run :: "norflash_ctx \<Rightarrow> nv_target \<Rightarrow> nv_store \<Rightarrow> u8 list \<Rightarrow> u8 list option \<Rightarrow> bool" for c b where
  run_open: "restarted c b s \<Longrightarrow> intact b (copy_at (main_copy b) s) \<Longrightarrow> intact b (copy_at (bak_copy b) s) \<Longrightarrow>
    burnt b (copy_at (main_copy b) s) \<or> burnt b (copy_at (bak_copy b) s) \<Longrightarrow>
    nv_record_open c b section_usrdata_ddbrecord s = Some (r, s') \<Longrightarrow> nv_run c b s' (nf_pool s') (Some (copy_at (bak_copy b) s'))"
| run_new: "restarted c b s \<Longrightarrow> copy_is_valid b (copy_at (main_copy b) s) = Some False \<Longrightarrow>
    copy_is_valid b (copy_at (bak_copy b) s) = Some False \<Longrightarrow>
    nv_record_open c b section_usrdata_ddbrecord s = Some (BT_STS_SUCCESS, s') \<Longrightarrow> pool_ok b s' \<Longrightarrow> nv_run c b s' (nf_pool s') None"
| run_change: "nv_run c b s W V \<Longrightarrow> pool_ok b (s\<lparr>nf_pool := p\<rparr>) \<Longrightarrow> nv_run c b (s\<lparr>nf_pool := p, nf_is_update := True\<rparr>) W V"
| run_sleep: "nv_run c b s W V \<Longrightarrow> nv_record_flash_flush_in_sleep c b s = Some (r, s') \<Longrightarrow>
    nv_run c b s' (burned s s' W) (kept s s' W V)"
| run_flush: "nv_run c b s W V \<Longrightarrow> na_allowed_cb (nf_api s) = 0 \<Longrightarrow> nv_record_flash_flush c b s = Some s' \<Longrightarrow>
    nv_run c b s' (burned s s' W) (kept s s' W V)"
| run_others: "nv_run c b s W V \<Longrightarrow> other_call c (nf_api s) a \<Longrightarrow> nv_run c b (s\<lparr>nf_api := a\<rparr>) W V"

lemma nv_run_inv: "nv_run c b s W V \<Longrightarrow> \<exists>qs L. nv_inv c b W V qs L s"
proof (induction rule: nv_run.induct)
  case (run_open s r s')
  obtain qs L where h: "homed c b (nf_api s) qs L" "qs UD = []" using restarted_homed [OF run_open(1)] by blast
  have "na_allowed_cb (nf_api s) = 0" "\<not> nf_init s" using run_open(1) by (simp_all add: restarted_def)
  from nv_open_ok [OF h this run_open(2-4)] obtain s2 qs' L' where
    "nv_record_open c b section_usrdata_ddbrecord s = Some (BT_STS_SUCCESS, s2)"
    "nv_inv c b (nf_pool s2) (Some (copy_at (bak_copy b) s2)) qs' L' s2" by blast
  then show ?case using run_open(5) by auto
next
  case (run_new s s')
  obtain qs L where h: "homed c b (nf_api s) qs L" "qs UD = []" using restarted_homed [OF run_new(1)] by blast
  have "\<not> nf_init s" using run_new(1) by (simp add: restarted_def)
  from open_new_ok [OF h this run_new(2-5)] show ?case by blast
next
  case (run_change s W V p)
  then obtain qs L where "nv_inv c b W V qs L s" by blast
  then have "nv_inv c b W V qs L (s\<lparr>nf_pool := p, nf_is_update := True\<rparr>)"
    using run_change(2) unfolding nv_inv_def phase_def
    by (cases "nf_state s") (simp_all add: starts_def pool_ok_def chunks_def Let_def)
  then show ?case by blast
next
  case (run_sleep s W V r s')
  then obtain qs L where "nv_inv c b W V qs L s" by blast
  from sleep_step [OF this] run_sleep(2) show ?case by auto
next
  case (run_flush s W V s')
  then obtain qs L where "nv_inv c b W V qs L s" by blast
  from sync_step [OF this run_flush(2)] run_flush(3) show ?case by auto
next
  case (run_others s W V a)
  then show ?case using others_inv by blast
qed

end
