(* ===== verification/Nvrec_Flash_Props.thy ===== *)
theory Nvrec_Flash_Props
  imports Nvrec_Flash_Runs
begin

text \<open>The properties of the storage of the database in flash.\<close>

section \<open>A target with both copies\<close>

definition demo_target :: nv_target where
  "demo_target = \<lparr>userdata_start = 0x38100000, userdata_end = 0x38102000, ddblist_pool = 0x20040000, nv_callback_addr = 1,
     new_config = \<lambda>p. (0, p)\<rparr>"

text \<open>A configuration without sections: its record at byte 28 of the pool points to an empty list at byte 32.\<close>

definition demo_contents :: "u8 list" where
  "demo_contents = replicate 8 0 @ word_bytes 0x20040020 @ replicate 4064 0"

definition demo_image :: "u8 list" where
  "demo_image = nv_header demo_target (the (contents_crc (replicate 20 0 @ demo_contents))) 0x2004001c @ demo_contents"

lemma demo_contents_length [simp]: "length demo_contents = 4076"
  by (simp add: demo_contents_def)

lemma demo_words: "word_at demo_contents 8 = 0x20040020" "word_at demo_contents 12 = 0"
proof -
  show "word_at demo_contents 8 = 0x20040020" by (simp add: demo_contents_def)
  have "word_at (replicate 4064 0) 0 = 0" by (simp add: word_at_def)
  then show "word_at demo_contents 12 = 0" by (simp add: demo_contents_def)
qed

lemma demo_list_valid: "nv_record_list_is_valid demo_target (nv_header demo_target crc 0x2004001c @ demo_contents) = Some True"
proof -
  let ?p = "nv_header demo_target crc 0x2004001c @ demo_contents"
  have "word_at ?p 28 = 0x20040020" "word_at ?p 32 = 0" using demo_words by simp_all
  then have "ram_word demo_target ?p 0x2004001c = Some 0x20040020" "ram_word demo_target ?p 0x20040020 = Some 0"
    by (simp_all add: ram_word_def demo_target_def)
  moreover have "sections_loop b p lo hi 0 = Some True" for b p lo hi by (subst sections_loop.simps) simp
  ultimately show ?thesis unfolding nv_record_list_is_valid_def header_words(3,4) Let_def
    by (simp add: demo_target_def)
qed

lemma demo_burnt: "burnt demo_target demo_image"
proof -
  have l: "length (replicate 20 (0 :: u8) @ demo_contents) = pool_bytes" by (simp add: pool_bytes_def)
  obtain crc where crc: "contents_crc (replicate 20 0 @ demo_contents) = Some crc" using contents_crc_ok [OF l] by blast
  have "burn_image demo_target 0x2004001c (replicate 20 0 @ demo_contents) = Some demo_image"
    using crc demo_list_valid [of crc] by (simp add: burn_image_def demo_image_def header_bytes_def Let_def)
  from burn_image_facts(7) [OF this l] show ?thesis by simp
qed

definition demo_memory :: "nat \<Rightarrow> u8" where
  "demo_memory = over 0x100000 8192 (\<lambda>x. demo_image ! ((x - 0x100000) mod 4096)) (\<lambda>_. 0xff)"

definition demo_start :: norflash_api where
  "demo_start = start\<lparr>na_flash := (idle_flash [])\<lparr>fl_mem := demo_memory\<rparr>\<rparr>"

definition demo_db_module :: module_info where
  "demo_db_module = \<lparr>mi_is_inited = True, mi_dev_id = 0, mi_mod_id = 1, mi_base_addr = 0x38100000, mi_len = 0x2000,
     mi_block_len = nc_block_size chip4, mi_sector_len = 4096, mi_page_len = nc_page_size chip4, mi_buff_len = 8192, mi_cb_func = 1,
     mi_opera = None, mi_cur = None, mi_state = NORFLASH_API_STATE_IDLE\<rparr>"

definition demo_api :: norflash_api where
  "demo_api = demo_start\<lparr>na_is_inited := True, na_cur_mod_id := 12, na_mod_info := (\<lambda>_. module_zero)(1 := demo_db_module)\<rparr>"

definition demo_store :: "norflash_api \<Rightarrow> nv_store" where
  "demo_store a = \<lparr>nf_api = a, nf_pool = replicate 4096 0, nf_is_update = False, nf_state = NV_STATE_IDLE, nf_written_size = 0,
     nf_config = 0, nf_init = False, nf_mempool_init = False, nf_mempool = 0, nf_main_start = 0, nf_bak_start = 0,
     nf_sleep_hook = False\<rparr>"

lemma demo_api_served: "\<exists>L. served chip4 demo_api L"
proof -
  obtain s r where s: "norflash_api_init demo_start = (r, s)" by (cases "norflash_api_init demo_start")
  have "Norflash_Runs.pool_free demo_start" by (simp add: Norflash_Runs.pool_free_def demo_start_def start_def idle_flash_def)
  note 1 = served_init [OF chip4_ok this s]
  have si: "s = demo_start\<lparr>na_is_inited := True, na_mod_info := \<lambda>_. module_zero, na_cur_mod_id := 12, na_cur_mod := None, na_allowed_cb := 0\<rparr>"
    using s by (simp add: norflash_api_init_def)
  have "free_region chip4 0x38100000 0x2000 s"
    by (simp add: free_region_def mod_ok_def si module_zero_def flash_offset_mod chip4_def)
  moreover have "nv_record_init chip4 demo_target (demo_store s) = Some (demo_store demo_api)"
    "norflash_api_register 1 0 0x38100000 0x2000 (nc_block_size chip4) 4096 (nc_page_size chip4) 8192 1 s = Some (NORFLASH_API_OK, demo_api)"
    by (simp_all add: nv_record_init_def norflash_api_register_def HAL_NORFLASH_ID_NUM_def api_is_align_def si demo_api_def demo_start_def
      start_def upd_mod_def module_zero_def demo_db_module_def fun_eq_iff demo_store_def demo_target_def pool_bytes_def
      NORFLASH_API_MODULE_ID_USERDATA_def chip4_def)
  moreover have "\<not> mi_is_inited (na_mod_info s 1)" by (simp add: si module_zero_def)
  ultimately show ?thesis using served_register [OF 1] by blast
qed

lemma demo_region: "na_mod_info demo_api UD = demo_db_module" "region_ok demo_target demo_db_module"
  by (simp_all add: demo_api_def NORFLASH_API_MODULE_ID_USERDATA_def region_ok_def sector_in_def demo_db_module_def demo_target_def
    nvrecord_mem_pool_size_def)

lemma demo_restarted: "restarted chip4 demo_target (demo_store demo_api)"
  using demo_api_served demo_region
  by (simp add: restarted_def demo_store_def queue_def) (simp add: demo_api_def demo_start_def start_def demo_db_module_def)

lemma demo_copies:
  assumes "addr = main_copy demo_target \<or> addr = bak_copy demo_target" "nf_api s = demo_api"
  shows "copy_at addr s = demo_image"
proof -
  have o: "flash_offset addr = 0x100000 \<or> flash_offset addr = 0x101000"
    using assms(1) by (auto simp: demo_target_def nvrecord_mem_pool_size_def flash_offset_mod)
  have "flash_at demo_api (addr + of_nat i) = demo_image ! i" if i: "i < 4096" for i
  proof -
    have "unat (of_nat i :: u32) = i" using i by (simp add: unat_of_nat take_bit_nat_eq_self)
    then have "flash_offset (addr + of_nat i) = flash_offset addr + i" using o i flash_offset_add [of addr "of_nat i"] by auto
    then show ?thesis using o i
      by (auto simp: flash_at_def demo_api_def demo_start_def demo_memory_def over_def mod_add_left_eq [symmetric])
  qed
  then show ?thesis using assms(2) burntD(1) [OF demo_burnt]
    by (intro nth_equalityI) (simp_all add: copy_at_def pool_bytes_def)
qed

definition demo_opened :: nv_store where
  "demo_opened = opened demo_target ((open_start demo_target (demo_store demo_api))\<lparr>nf_pool := demo_image\<rparr>)"

lemma demo_opened_simps:
  "nf_api demo_opened = demo_api" "nf_pool demo_opened = demo_image" "nf_state demo_opened = NV_STATE_IDLE" "\<not> nf_is_update demo_opened"
  "nf_config demo_opened = word_at demo_image 16"
  by (simp_all add: demo_opened_def opened_def open_start_def demo_store_def)

lemma demo_run: "nv_run chip4 demo_target demo_opened demo_image (Some demo_image)"
proof -
  have c: "copy_at (main_copy demo_target) (demo_store demo_api) = demo_image" "copy_at (bak_copy demo_target) (demo_store demo_api) = demo_image"
    "copy_at (bak_copy demo_target) demo_opened = demo_image"
    by (rule demo_copies; simp add: demo_store_def demo_opened_simps)+
  have v: "copy_is_valid demo_target demo_image = Some True" using burntD(3) [OF demo_burnt] .
  have int: "intact demo_target demo_image" using demo_burnt by (simp add: intact_def)
  have ni: "\<not> nf_init (demo_store demo_api)" by (simp add: demo_store_def)
  from open_cases [OF ni, of demo_target True True chip4] v
  have "nv_record_open chip4 demo_target section_usrdata_ddbrecord (demo_store demo_api) = Some (BT_STS_SUCCESS, demo_opened)"
    unfolding c demo_opened_def by simp
  from run_open [OF demo_restarted _ _ _ this] show ?thesis unfolding c demo_opened_simps using int demo_burnt by simp
qed

lemma demo_pool_ok: "pool_ok demo_target demo_opened"
  using pool_ok_burnt [of demo_target demo_opened] demo_burnt demo_opened_simps by simp

definition demo_changed :: nv_store where
  "demo_changed = demo_opened\<lparr>nf_pool := demo_image, nf_is_update := True\<rparr>"

lemma demo_changed_run: "nv_run chip4 demo_target demo_changed demo_image (Some demo_image)"
  unfolding demo_changed_def
  by (rule run_change [OF demo_run]) (use demo_pool_ok in \<open>simp add: demo_opened_simps pool_ok_def\<close>)

lemma demo_changed_simps:
  "nf_api demo_changed = demo_api" "nf_pool demo_changed = demo_image" "nf_state demo_changed = NV_STATE_IDLE" "nf_is_update demo_changed"
  "na_allowed_cb (nf_api demo_changed) = 0"
  by (simp_all add: demo_changed_def demo_opened_simps) (simp add: demo_api_def demo_start_def start_def)

section \<open>Loss of power\<close>

lemma phase_main:
  "phase b s W V Q L \<Longrightarrow> \<not> bak_phase s \<Longrightarrow> Q \<subseteq> {main_copy b} \<and> (\<forall>v. V = Some v \<longrightarrow> sect L (bak_copy b) = v)"
  by (cases "nf_state s") (simp_all add: phase_def bak_phase_def Let_def)

lemma phase_bak:
  "phase b s W (Some v) Q L \<Longrightarrow> bak_phase s \<Longrightarrow> Q \<subseteq> {bak_copy b} \<and> sect L (main_copy b) = v"
  by (cases "nf_state s") (auto simp: phase_def bak_phase_def copied_def)

lemma nv_run_raw:
  assumes "nv_inv c b W (Some v) qs L s"
  shows "burnt b v" "copy_at (if bak_phase s then main_copy b else bak_copy b) s = v"
proof -
  note I = nv_invD [OF assms]
  show "burnt b v" using I(4) by blast
  have ne: "main_copy b \<noteq> bak_copy b" by (simp add: nvrecord_mem_pool_size_def)
  note cr = copy_raw [OF I(1)]
  show "copy_at (if bak_phase s then main_copy b else bak_copy b) s = v"
  proof (cases "bak_phase s")
    case True
    note p = phase_bak [OF I(5) True]
    have "main_copy b \<notin> busy_sectors (nf_api s) qs" using p ne by blast
    from cr [OF disjI1 [OF refl] this] p show ?thesis unfolding if_P [OF True] by argo
  next
    case False
    have p: "busy_sectors (nf_api s) qs \<subseteq> {main_copy b}" "sect L (bak_copy b) = v" using phase_main [OF I(5) False] by auto
    have "bak_copy b \<notin> busy_sectors (nf_api s) qs"
    proof
      assume "bak_copy b \<in> busy_sectors (nf_api s) qs"
      then have "bak_copy b = main_copy b" using p(1) by (rule singletonD [OF subsetD, rotated])
      then show False using ne by (rule notE [rotated, OF sym])
    qed
    from cr [OF disjI2 [OF refl] this] p(2) show ?thesis unfolding if_not_P [OF False] by argo
  qed
qed

text \<open>C1: One of the two copies is always whole: from the moment one copy has been written or found, in every state of the
  flush between two calls, however often its requests are refused, its erases and writes suspended half done, and whatever
  the other modules do, the backup while the main copy is rewritten, and the main copy while the backup is, holds in
  flash exactly the image that was last safe, and the check at the next start accepts it.\<close>

theorem nv_copy_survives:
  assumes "nv_run c b s W (Some v)"
  shows "copy_at (if bak_phase s then main_copy b else bak_copy b) s = v \<and> copy_is_valid b v = Some True"
proof -
  obtain qs L where "nv_inv c b W (Some v) qs L s" using nv_run_inv [OF assms] by blast
  from nv_run_raw [OF this] show ?thesis using burntD(3) by simp
qed

theorem nv_copy_survives_witness: "copy_at (bak_copy demo_target) demo_opened = demo_image \<and> copy_is_valid demo_target demo_image = Some True"
proof -
  have "\<not> bak_phase demo_opened" by (simp add: bak_phase_def demo_opened_simps)
  then show ?thesis using nv_copy_survives [OF demo_run] by simp
qed

text \<open>C5: After a loss of power in any such state, opening the database succeeds without building a new one: it comes back
  with the image that was safe, or, if the main copy was being rewritten and its new image got there whole, with that
  one; and the system is again in a state from which the copies survive. The check must refuse a half-written copy.\<close>

theorem nv_power_loss_recovers:
  assumes "nv_run c b s W (Some v)" "restarted c b r" "fl_mem (na_flash (nf_api r)) = fl_mem (na_flash (nf_api s))"
    and "intact b (copy_at (main_copy b) r)" "intact b (copy_at (bak_copy b) r)"
  shows "\<exists>r'. nv_record_open c b section_usrdata_ddbrecord r = Some (BT_STS_SUCCESS, r') \<and>
    (nf_pool r' = v \<or> \<not> bak_phase s \<and> nf_pool r' = copy_at (main_copy b) s \<and> burnt b (nf_pool r')) \<and>
    nv_run c b r' (nf_pool r') (Some (copy_at (bak_copy b) r'))"
proof -
  obtain qs0 L0 where "nv_inv c b W (Some v) qs0 L0 s" using nv_run_inv [OF assms(1)] by blast
  note S = nv_run_raw [OF this]
  have same: "copy_at addr r = copy_at addr s" for addr using assms(3) by (simp add: copy_at_def flash_at_def)
  have one: "burnt b (copy_at (main_copy b) r) \<or> burnt b (copy_at (bak_copy b) r)" using S by (auto simp: same split: if_splits)
  obtain qs L where h: "homed c b (nf_api r) qs L" "qs UD = []" using restarted_homed [OF assms(2)] by blast
  have "na_allowed_cb (nf_api r) = 0" "\<not> nf_init r" using assms(2) by (simp_all add: restarted_def)
  from nv_open_ok [OF h this assms(4,5) one] obtain r' where
    o: "nv_record_open c b section_usrdata_ddbrecord r = Some (BT_STS_SUCCESS, r')"
      "nf_pool r' = (if burnt b (copy_at (main_copy b) r) then copy_at (main_copy b) r else copy_at (bak_copy b) r)" by blast
  have "nf_pool r' = v \<or> \<not> bak_phase s \<and> nf_pool r' = copy_at (main_copy b) s \<and> burnt b (nf_pool r')"
    using S o(2) unfolding same by (auto split: if_splits)
  then show ?thesis using o(1) run_open [OF assms(2,4,5) one o(1)] by blast
qed

theorem nv_power_loss_recovers_witness:
  "\<exists>r'. nv_record_open chip4 demo_target section_usrdata_ddbrecord (demo_store demo_api) = Some (BT_STS_SUCCESS, r') \<and>
    (nf_pool r' = demo_image \<or> nf_pool r' = copy_at (main_copy demo_target) demo_changed)"
proof -
  have c: "copy_at (main_copy demo_target) (demo_store demo_api) = demo_image" "copy_at (bak_copy demo_target) (demo_store demo_api) = demo_image"
    by (rule demo_copies; simp add: demo_store_def)+
  have int: "intact demo_target demo_image" using demo_burnt by (simp add: intact_def)
  have "fl_mem (na_flash (nf_api (demo_store demo_api))) = fl_mem (na_flash (nf_api demo_changed))"
    by (simp add: demo_changed_simps) (simp add: demo_store_def)
  from nv_power_loss_recovers [OF demo_changed_run demo_restarted this] show ?thesis using int unfolding c by blast
qed

section \<open>Flushing\<close>



text \<open>The database is flushed step by step, each time the system is about to sleep.\<close>

fun nv_sleeps :: "norflash_ctx \<Rightarrow> nv_target \<Rightarrow> nat \<Rightarrow> nv_store \<Rightarrow> nv_store option" where
  "nv_sleeps c b 0 s = Some s"
| "nv_sleeps c b (Suc n) s = do { (_, s) \<leftarrow> nv_record_flash_flush_in_sleep c b s; nv_sleeps c b n s }"

definition flushing :: "u8 list \<Rightarrow> u8 list \<Rightarrow> nv_store \<Rightarrow> bool" where
  "flushing X W s \<longleftrightarrow> (main_phase s \<and> nf_state s \<noteq> NV_STATE_MAIN_WRITTEN \<longrightarrow> drop header_bytes (nf_pool s) = X) \<and>
     (nf_state s = NV_STATE_MAIN_WRITTEN \<or> bak_phase s \<longrightarrow> drop header_bytes W = X)"

lemma sleeps_finish:
  assumes "nv_inv c b W V qs L s" "na_allowed_cb (nf_api s) = 0" "main_phase s \<or> bak_phase s" "flushing X W s"
  shows "\<exists>n s' w. nv_sleeps c b n s = Some s' \<and> nf_state s' = NV_STATE_IDLE \<and> burnt b w \<and> drop header_bytes w = X \<and>
    copy_at (main_copy b) s' = w \<and> copy_at (bak_copy b) s' = w"
  using assms
proof (induction "togo s qs" arbitrary: s qs W V L
    rule: wf_induct_rule [OF wf_lex_prod [OF wf_less_than wf_lex_prod [OF wf_less_than wf_less_than]], case_names less])
  case less
  obtain s' qs' L' where r: "nv_record_flash_flush_in_sleep c b s = Some (0, s')"
    "nv_inv c b (burned s s' W) (kept s s' W V) qs' L' s'"
    "nf_state s = NV_STATE_IDLE \<and> \<not> nf_is_update s \<and> s' = s \<or> nearer qs s qs' s'"
    "bak_phase s \<and> nf_state s' = NV_STATE_IDLE \<longrightarrow> copied b W pool_bytes L' \<and> qs' UD = []" "same_contents s s'"
    "main_phase s \<longrightarrow> nf_state s' \<noteq> NV_STATE_IDLE \<and> (bak_phase s' \<longrightarrow> nf_state s = NV_STATE_MAIN_WRITTEN)"
    using sleep_step [OF less.prems(1)] by blast
  have "\<not> (nf_state s = NV_STATE_IDLE \<and> \<not> nf_is_update s)" using less.prems(3) by (auto simp: main_phase_def bak_phase_def)
  then have n: "nearer qs s qs' s'" using r(3) by blast
  show ?case
  proof (cases "nf_state s' = NV_STATE_IDLE")
    case True
    then have b: "bak_phase s" using r(6) less.prems(3) by blast
    then have k: "copied b W pool_bytes L'" "qs' UD = []" using r(4) True by auto
    have cr: "copy_at addr s' = sect L' addr" if "addr = main_copy b \<or> addr = bak_copy b" for addr
      using copy_raw [OF nv_invD(1) [OF r(2)] that] k(2) by simp
    have "drop header_bytes W = X" using less.prems(4) b by (simp add: flushing_def)
    moreover have "burnt b W" using nv_invD(4) [OF less.prems(1)] flush_bak_keeps(1) [OF less.prems(1) b] by blast
    moreover have "copy_at (main_copy b) s' = W" "copy_at (bak_copy b) s' = W" using k(1) cr by (simp_all add: copied_full)
    moreover have "nv_sleeps c b 1 s = Some s'" using r(1) by simp
    ultimately show ?thesis using True by blast
  next
    case False
    have cb: "na_allowed_cb (nf_api s') = 0" and lt: "(togo s' qs', togo s qs) \<in> before"
      using n less.prems(2) False by (auto simp: nearer_def)
    have ph: "main_phase s' \<or> bak_phase s'"
      using False by (cases "nf_state s'") (auto simp: main_phase_def bak_phase_def)
    have "flushing X (burned s s' W) s'"
    proof (cases "main_phase s \<and> nf_state s \<noteq> NV_STATE_MAIN_WRITTEN")
      case True
      then have "drop header_bytes (nf_pool s') = X" using less.prems(4) r(5) by (simp add: flushing_def same_contents_def)
      moreover have "\<not> bak_phase s'" using r(6) True by blast
      ultimately show ?thesis using True by (simp add: flushing_def burned_def)
    next
      case nm: False
      then have "drop header_bytes W = X" using less.prems(3,4) by (auto simp: flushing_def)
      moreover have "burned s s' W = W" using nm by (auto simp: burned_def)
      moreover have "\<not> (main_phase s' \<and> nf_state s' \<noteq> NV_STATE_MAIN_WRITTEN)"
      proof
        assume m: "main_phase s' \<and> nf_state s' \<noteq> NV_STATE_MAIN_WRITTEN"
        have "rank (nf_state s) < rank (nf_state s')"
          using m nm less.prems(3) by (auto simp: main_phase_def bak_phase_def)
        then show False using lt by (auto simp: togo_def)
      qed
      ultimately show ?thesis by (auto simp: flushing_def)
    qed
    from less.hyps [OF lt r(2) cb ph this] obtain n s2 w where
      "nv_sleeps c b n s' = Some s2" "nf_state s2 = NV_STATE_IDLE" "burnt b w" "drop header_bytes w = X"
      "copy_at (main_copy b) s2 = w" "copy_at (bak_copy b) s2 = w" by blast
    moreover from this(1) have "nv_sleeps c b (Suc n) s = Some s2" using r(1) by simp
    ultimately show ?thesis by blast
  qed
qed

text \<open>C17: The asynchronous flush finishes: when nobody postpones flushing, a changed database is in both copies after finitely
  many steps, whatever interrupts suspend the flash meanwhile, as one valid image with the contents the pool had.\<close>

theorem nv_sleeps_finish:
  assumes "nv_run c b s W V" "na_allowed_cb (nf_api s) = 0" "nf_state s = NV_STATE_IDLE" "nf_is_update s"
  shows "\<exists>n s' w. nv_sleeps c b n s = Some s' \<and> nf_state s' = NV_STATE_IDLE \<and> copy_is_valid b w = Some True \<and>
    drop header_bytes w = drop header_bytes (nf_pool s) \<and> copy_at (main_copy b) s' = w \<and> copy_at (bak_copy b) s' = w"
proof -
  obtain qs L where i: "nv_inv c b W V qs L s" using nv_run_inv [OF assms(1)] by blast
  have "main_phase s" using assms(3,4) by (simp add: main_phase_def)
  moreover have "flushing (drop header_bytes (nf_pool s)) W s" using assms(3) by (simp add: flushing_def bak_phase_def)
  ultimately show ?thesis using sleeps_finish [OF i assms(2)] burntD(3) by blast
qed

theorem nv_sleeps_finish_witness:
  "\<exists>n s' w. nv_sleeps chip4 demo_target n demo_changed = Some s' \<and> drop header_bytes w = drop header_bytes demo_image \<and>
    copy_at (main_copy demo_target) s' = w \<and> copy_at (bak_copy demo_target) s' = w"
  using nv_sleeps_finish [OF demo_changed_run demo_changed_simps(5,3,4)] unfolding demo_changed_simps by blast

section \<open>A flush that does nothing\<close>

lemma sleep_reaches_write:
  assumes i: "nv_inv c b W V qs L s" and st: "nf_state s = NV_STATE_IDLE" "nf_is_update s" and e: "qs = (\<lambda>_. [])"
  shows "\<exists>s1 s2. nv_record_flash_flush_in_sleep c b s = Some (0, s1) \<and> nv_record_flash_flush_in_sleep c b s1 = Some (0, s2) \<and>
    nf_state s2 \<in> {NV_STATE_MAIN_WRITTING, NV_STATE_MAIN_WRITTEN}"
proof -
  note I = nv_invD [OF i]
  let ?s0 = "set_state NV_STATE_MAIN_ERASING s"
  have "homed c b (nf_api ?s0) qs L" using I(1) by (simp add: set_state_def)
  from erase_copy_ok [OF this disjI1 [OF refl]] e obtain a where
    f: "erase_copy c (main_copy b) ?s0 = Some (NORFLASH_API_OK, ?s0\<lparr>nf_api := a\<rparr>)" by auto
  have m: "main_phase s" using st by (simp add: main_phase_def)
  obtain s1 qs1 L1 where 1: "nv_record_flash_flush_in_sleep c b s = Some (0, s1)" "nv_inv c b (burned s s1 W) (kept s s1 W V) qs1 L1 s1"
    using sleep_step [OF i] by blast
  have "main_async c b s = Some (NORFLASH_API_OK, set_state NV_STATE_MAIN_ERASED (?s0\<lparr>nf_api := a\<rparr>))"
    using f st I(2) by (simp add: main_async_def starts_def set_state_def)
  then have s1: "nf_state s1 = NV_STATE_MAIN_ERASED"
    using 1(1) m pool_okD(2,3) [OF I(3)]
    by (auto simp: nv_record_flash_flush_in_sleep_def nv_record_flash_flush_int_def nv_record_flash_flush_main_def set_state_def)
  from main_write_step [OF 1(2) disjI1 [OF this]] obtain ret s2 where
    2: "main_async c b s1 = Some (ret, s2)" "nf_state s2 \<in> {NV_STATE_MAIN_WRITTING, NV_STATE_MAIN_WRITTEN}" by blast
  have "nv_record_flash_flush_in_sleep c b s1 = Some (0, s2)"
    using 2(1) s1 pool_okD(2,3) [OF nv_invD(3) [OF 1(2)]]
    by (simp add: nv_record_flash_flush_in_sleep_def nv_record_flash_flush_int_def nv_record_flash_flush_main_def main_phase_def)
  then show ?thesis using 1(1) 2(2) by blast
qed

text \<open>C20: A synchronous flush does nothing while the asynchronous one is writing a copy or waits for it to be written, although
  the database may have been changed again: what the caller relies on being in flash before the system goes down is not.\<close>

theorem nv_flush_skipped:
  assumes "nv_run c b s W V"
    and "nf_state s \<in> {NV_STATE_MAIN_WRITTING, NV_STATE_MAIN_WRITTEN, NV_STATE_BAK_WRITTING, NV_STATE_BAK_WRITTEN}"
  shows "nv_record_flash_flush c b s = Some s"
proof -
  obtain qs L where i: "nv_inv c b W V qs L s" using nv_run_inv [OF assms(1)] by blast
  from flush_skips [OF assms(2) pool_okD(2) [OF nv_invD(3) [OF i]]] show ?thesis .
qed

theorem nv_flush_skipped_witness:
  "\<exists>s W V. nv_run chip4 demo_target s W V \<and> nf_is_update s \<and> nv_record_flash_flush chip4 demo_target s = Some s"
proof -
  obtain L where L: "served chip4 demo_api L" using demo_api_served by blast
  obtain qs where qs: "service chip4 demo_api qs L" using served_service [OF L] by blast
  obtain qs0 L0 where i0: "nv_inv chip4 demo_target demo_image (Some demo_image) qs0 L0 demo_changed" using nv_run_inv [OF demo_changed_run] by blast
  have sv: "service chip4 demo_api qs0 L0" using homedD(1) [OF nv_invD(1) [OF i0]] by (simp add: demo_changed_simps)
  have "qs0 k = []" for k
  proof (cases "k = 1")
    case True
    have "busy_sectors demo_api qs0 = {}" using nv_invD(5) [OF i0] by (simp add: phase_def demo_changed_simps)
    then show ?thesis using True by (simp add: NORFLASH_API_MODULE_ID_USERDATA_def)
  next
    case False
    then have "\<not> mi_is_inited (na_mod_info demo_api k)" by (simp add: demo_api_def module_zero_def)
    then show ?thesis using serviceD(4) [OF sv] by blast
  qed
  then have e: "qs0 = (\<lambda>_. [])" by auto
  from sleep_reaches_write [OF i0 demo_changed_simps(3,4) e] obtain s1 s2 where
    r: "nv_record_flash_flush_in_sleep chip4 demo_target demo_changed = Some (0, s1)"
      "nv_record_flash_flush_in_sleep chip4 demo_target s1 = Some (0, s2)" "nf_state s2 \<in> {NV_STATE_MAIN_WRITTING, NV_STATE_MAIN_WRITTEN}"
    by blast
  obtain W V where run: "nv_run chip4 demo_target s2 W V" using run_sleep [OF run_sleep [OF demo_changed_run r(1)] r(2)] by blast
  obtain qs L where "nv_inv chip4 demo_target W V qs L s2" using nv_run_inv [OF run] by blast
  note P = nv_invD(3) [OF this]
  let ?s = "s2\<lparr>nf_pool := nf_pool s2, nf_is_update := True\<rparr>"
  have "pool_ok demo_target (s2\<lparr>nf_pool := nf_pool s2\<rparr>)" using P by simp
  note run2 = run_change [OF run this]
  have "nf_state ?s \<in> {NV_STATE_MAIN_WRITTING, NV_STATE_MAIN_WRITTEN, NV_STATE_BAK_WRITTING, NV_STATE_BAK_WRITTEN}" using r(3) by auto
  from nv_flush_skipped [OF run2 this] show ?thesis using run2 by (intro exI [of _ ?s] exI [of _ W] exI [of _ V]) simp
qed

section \<open>Clearing\<close>

lemma blank_invalid: "copy_is_valid b (blank pool_bytes) = Some False"
  by (simp add: copy_is_valid_def nv_record_data_is_valid_def word_at_def blank_def pool_bytes_def nvrecord_version_magic_def)

lemma sync_erase_copy:
  assumes h: "homed c b a qs L" and x: "addr = main_copy b \<or> addr = bak_copy b" and cb: "na_allowed_cb a = 0"
  shows "\<exists>a' qs' L'. norflash_api_erase c UD addr 4096 False a = Some (NORFLASH_API_OK, a') \<and> homed c b a' qs' L' \<and>
    na_allowed_cb a' = 0 \<and> qs' UD = [] \<and> sect L' addr = blank pool_bytes \<and>
    (addr = bak_copy b \<longrightarrow> sect L' (main_copy b) = sect L (main_copy b))"
proof -
  let ?L = "over (flash_offset addr) 4096 ff L"
  have sec: "sector_in (na_mod_info a UD) addr" using homedD(3,4) [OF h] x by blast
  have "unat addr mod 4096 = 0" "unat (mi_base_addr (na_mod_info a UD)) \<le> unat addr"
    "unat addr + unat (4096 :: u32) \<le> unat (mi_base_addr (na_mod_info a UD)) + unat (mi_len (na_mod_info a UD))"
    "4096 = mi_sector_len (na_mod_info a UD) \<or> 4096 = mi_block_len (na_mod_info a UD)" "unat (4096 :: u32) mod 4096 = 0"
    using sec homedD(6) [OF h] by (auto simp: sector_in_def mod_ok_def)
  from sync_erase_ok [OF homedD(1,2) [OF h] cb this] obtain a' qs' where
    f: "norflash_api_erase c UD addr 4096 False a = Some (NORFLASH_API_OK, a')" "service c a' qs' ?L" "keeps_modules a a'"
      "qs' UD = []" "na_allowed_cb a' = 0" by auto
  have "?L x = L x" if "\<not> in_sector addr x" for x using that by (auto simp: over_def in_sector_def)
  then have "addr = bak_copy b \<longrightarrow> sect ?L (main_copy b) = sect L (main_copy b)" using copies_frame(2) [OF h, of ?L] by blast
  then show ?thesis using f(1,4,5) homed_keep [OF h f(2,3)] sect_erased by blast
qed

text \<open>Clearing the two sectors comes back, when nobody postpones flushing, whatever was queued; then both copies are erased
  and neither is accepted, so that opening builds a new database.\<close>

theorem nv_clear_forgets:
  assumes "served c (nf_api s) L" "region_ok b (na_mod_info (nf_api s) UD)" "na_allowed_cb (nf_api s) = 0"
  shows "\<exists>s'. nv_record_sector_clear c b s = Some s' \<and> \<not> nf_init s' \<and>
    copy_at (main_copy b) s' = replicate pool_bytes 0xff \<and> copy_at (bak_copy b) s' = replicate pool_bytes 0xff \<and>
    (\<exists>r s''. nv_record_open c b section_usrdata_ddbrecord s' = Some (r, s'') \<and>
       nf_config s'' = fst (new_config b (word_bytes nvrecord_version_magic @ replicate (pool_bytes - 4) 0)))"
proof -
  obtain qs where "service c (nf_api s) qs L" using served_service [OF assms(1)] by blast
  then have h: "homed c b (nf_api s) qs L" using assms(2) by (simp add: homed_def)
  obtain a1 qs1 L1 where 1: "norflash_api_erase c UD (main_copy b) 4096 False (nf_api s) = Some (NORFLASH_API_OK, a1)"
    "homed c b a1 qs1 L1" "na_allowed_cb a1 = 0" "sect L1 (main_copy b) = blank pool_bytes"
    using sync_erase_copy [OF h disjI1 [OF refl] assms(3)] by blast
  obtain a2 qs2 L2 where 2: "norflash_api_erase c UD (bak_copy b) 4096 False a1 = Some (NORFLASH_API_OK, a2)"
    "homed c b a2 qs2 L2" "qs2 UD = []" "sect L2 (bak_copy b) = blank pool_bytes" "sect L2 (main_copy b) = sect L1 (main_copy b)"
    using sync_erase_copy [OF 1(2) disjI2 [OF refl] 1(3)] by blast
  let ?s = "s\<lparr>nf_api := a2, nf_init := False, nf_mempool_init := False\<rparr>"
  have run: "nv_record_sector_clear c b s = Some ?s" using 1(1) 2(1) by (simp add: nv_record_sector_clear_def)
  have h2: "homed c b (nf_api ?s) qs2 L2" using 2(2) by simp
  have c: "copy_at (main_copy b) ?s = blank pool_bytes" "copy_at (bak_copy b) ?s = blank pool_bytes"
    using copy_raw [OF h2, of "main_copy b"] copy_raw [OF h2, of "bak_copy b"] 1(4) 2(3-5) by simp_all
  have ni: "\<not> nf_init ?s" by simp
  obtain r1 s1 where r1: "nv_record_config_rebuild b ((open_start b ?s)\<lparr>nf_pool := copy_at (bak_copy b) ?s\<rparr>) = (r1, s1)"
    by (cases "nv_record_config_rebuild b ((open_start b ?s)\<lparr>nf_pool := copy_at (bak_copy b) ?s\<rparr>)")
  have "copy_is_valid b (copy_at (main_copy b) ?s) = Some False" "copy_is_valid b (copy_at (bak_copy b) ?s) = Some False"
    unfolding c by (rule blank_invalid)+
  from open_cases [OF ni this, of c] r1 have "\<exists>r s''. nv_record_open c b section_usrdata_ddbrecord ?s = Some (r, s'') \<and> nf_config s'' = nf_config s1"
    by (simp add: Let_def)
  moreover have "nf_config s1 = fst (new_config b (word_bytes nvrecord_version_magic @ replicate (pool_bytes - 4) 0))"
    using r1 by (auto simp: nv_record_config_rebuild_def nv_record_mempool_init_def Let_def split: prod.splits if_splits)
  ultimately have "\<exists>r s''. nv_record_open c b section_usrdata_ddbrecord ?s = Some (r, s'') \<and>
      nf_config s'' = fst (new_config b (word_bytes nvrecord_version_magic @ replicate (pool_bytes - 4) 0))" by simp
  then show ?thesis using run c by (intro exI [of _ ?s]) (simp add: blank_def)
qed

theorem nv_clear_forgets_witness:
  "\<exists>s. nv_record_sector_clear chip4 demo_target demo_changed = Some s \<and>
    copy_at (main_copy demo_target) s = replicate pool_bytes 0xff \<and> copy_at (bak_copy demo_target) s = replicate pool_bytes 0xff"
proof -
  obtain L where "served chip4 (nf_api demo_changed) L" using demo_api_served unfolding demo_changed_simps by blast
  from nv_clear_forgets [OF this, of demo_target] demo_region demo_changed_simps(5) show ?thesis unfolding demo_changed_simps by auto
qed

end
