(* ===== verification/Spec2Isabelle.thy ===== *)
theory Spec2Isabelle
  imports Cqueue Cp_Queue Kfifo Crc Sysfreq Hwtimer_Props Key_Props Key_Adc Transq_Props Nvrec_Ddb_Runs Nvrec_Flash_Props
begin

text \<open>
  A verification of the core services of the little-buddy earbud firmware: the parts of the C program that
  keep state of their own, below the closed Bluetooth stack and above the registers of the chip.

  \<^bold>\<open>The program.\<close> The firmware runs on a 32-bit ARM microcontroller with a second processor for Bluetooth.
  Bytes travel between tasks, interrupts and processors in queues (\<^verbatim>\<open>utils/cqueue\<close>, \<^verbatim>\<open>utils/kfifo\<close>,
  \<^verbatim>\<open>services/cp_accel\<close>), messages between processors in slots of shared hardware (\<^verbatim>\<open>platform/hal/hal_transq.c\<close>),
  and images and records are guarded by checksums (\<^verbatim>\<open>utils/crc16\<close>, \<^verbatim>\<open>utils/crc32\<close>). All software timers share
  one hardware timer (\<^verbatim>\<open>utils/hwtimer_list\<close> over \<^verbatim>\<open>platform/hal/hal_timer.c\<close>); the key driver
  (\<^verbatim>\<open>platform/hal/hal_key.c\<close>) is a client of it. Every module files a vote for the system clock
  (\<^verbatim>\<open>platform/hal/hal_sysfreq.c\<close>). The paired devices are kept in a database (\<^verbatim>\<open>services/nvrecord/nvrecord.c\<close>) on top of a
  store of sections and keys (\<^verbatim>\<open>nvrec_config.c\<close>), on top of linked lists (\<^verbatim>\<open>list_ext.c\<close>), in a memory pool, and the
  pool is written back to two sectors of the flash. Everything that is kept in flash goes through a service (\<^verbatim>\<open>services/norflash_api\<close>) that queues
  erases and writes and carries them out when the system idles, over a driver (\<^verbatim>\<open>platform/hal/hal_norflash.c\<close>) whose
  operations interrupts may suspend.

  \<^bold>\<open>Shared theories.\<close> \<^verbatim>\<open>Lb_Prelude\<close>: \<open>u8\<close>, \<open>u16\<close>, \<open>u32\<close> as machine words (every C integer has its width, \<open>+\<close> wraps),
  byte buffers with checked access, ring-buffer arithmetic, lemma collections. \<^verbatim>\<open>Byte_Fifo\<close>: the locale of a byte queue
  and what a client concludes from it. \<^verbatim>\<open>Links\<close>: chains through a \<open>next\<close> field. \<^verbatim>\<open>Bit_Loops\<close>: the loops over
  the bits of a map. \<^verbatim>\<open>Nv_Heap\<close>: the memory pool as a heap of typed objects with ownership.
  Throughout, \<open>None\<close> is what a correct program must not do: undefined behaviour in C (an access outside an object or
  to a freed one, a null pointer read), a failed assertion, or a loop that does not end. That an operation gives
  \<open>Some\<close> is therefore its memory safety and its termination, and is part of what is proved. Loops are recursive
  with a measure where they always end and \<open>partial_function (option)\<close> where that has to be proved; no
  definition has fuel.

  \<^bold>\<open>Byte queues.\<close> \<^verbatim>\<open>Cqueue\<close> (\<open>EnCQueue\<close>, \<open>EnCQueueFront\<close>, \<open>EnCQueue_AI\<close>, \<open>DeCQueue\<close>, the peeks), \<^verbatim>\<open>Cp_Queue\<close> (its copy on
  the co-processor, proved equivalent) and \<^verbatim>\<open>Kfifo\<close> (free-running indices, power-of-two size). State: the indices of
  the C structure and the buffer as a list of bytes. Each interprets \<open>byte_fifo\<close>; the theorems say that
  operations refine those of a bounded list and that any sequence of puts and gets transports a stream, also across
  index wrap-around. The buffers are at most \<open>2 ^ 31\<close> bytes, so that no \<open>int\<close> comparison changes sign.

  \<^bold>\<open>Checksums.\<close> \<^verbatim>\<open>Crc\<close>: the tables as they stand in the source, the byte loops, the computed table. One locale
  proves the algebra for every width; both checksums are proved equal to serial division and to detect short bursts.

  \<^bold>\<open>Clock.\<close> \<^verbatim>\<open>Sysfreq\<close>: the votes of the users, the cached top user, and the events sent to the clock and supply
  drivers; after any calls the clock is the maximum of the votes and the floor, and the supply is raised before the clock.

  \<^bold>\<open>Timers.\<close> \<^verbatim>\<open>Hwtimer\<close> is the code; \<^verbatim>\<open>Hwtimer_Lists\<close>, \<^verbatim>\<open>Hwtimer_Ops\<close>, \<^verbatim>\<open>Hwtimer_Stop\<close>, \<^verbatim>\<open>Hwtimer_Head\<close>, \<^verbatim>\<open>Hwtimer_Irq\<close>
  prove each path of each operation against the list of (timer, due time); \<^verbatim>\<open>Hwtimer_Safety\<close> closes them under
  reachability, for any calls at any times and callbacks that start and stop timers; \<^verbatim>\<open>Hwtimer_Props\<close> states the
  properties. A timer is an index of the static array, the hardware counter a function of the time since it was
  loaded. Assumed of the environment: the interrupt is served before the counter has run through all 32 bits.

  \<^bold>\<open>Keys.\<close> \<^verbatim>\<open>Hal_Key\<close> is the driver: interrupt handlers of pins, power key and ADC, and the tick of the debounce
  timer. \<^verbatim>\<open>Key_Track\<close> and \<^verbatim>\<open>Key_Gpio\<close> show that each pin is in exactly one place (its interrupt or one of three
  maps), \<^verbatim>\<open>Key_Status\<close> what the reports mean, \<^verbatim>\<open>Key_Safety\<close> the reachable states, \<^verbatim>\<open>Key_Gestures\<close> whole gestures,
  \<^verbatim>\<open>Key_Adc\<close> the resistor ladder, \<^verbatim>\<open>Key_Props\<close> the properties. The board's tables are a parameter
  (\<open>key_cfg\<close>), and so is what each handler reads from pins and converter.

  \<^bold>\<open>Messages between processors.\<close> \<^verbatim>\<open>Transq\<close> is the code over a model of the registers (set and clear registers
  with the effect their use in the code implies); \<^verbatim>\<open>Transq_Ring\<close> numbers the messages of a priority and states
  the invariant that links both sides, \<^verbatim>\<open>Transq_Link\<close> the operations on it, \<^verbatim>\<open>Transq_Props\<close> that in every
  interleaving of the two processors messages arrive in order and exactly once, that handlers return, and the errors.

  \<^bold>\<open>Records.\<close> \<^verbatim>\<open>List_Ext\<close>: every operation of the list, with the frame of what it leaves alone. \<^verbatim>\<open>Nvrec_Config\<close>,
  \<^verbatim>\<open>Nvrec_Store\<close>, \<^verbatim>\<open>Nvrec_Write\<close>, \<^verbatim>\<open>Nvrec_Props\<close>: the configuration store with \<open>sprintf\<close> and \<open>strtol\<close> written out,
  refined to a map of maps. \<^verbatim>\<open>Nvrec_Ddb\<close> to \<^verbatim>\<open>Nvrec_Ddb_Runs\<close>: the device database, refined to a most-recently-used
  list of at most nine devices: the head of the C list is the oldest, the tail the latest. The choice of an address
  by the pool is the parameter \<open>al\<close> with the law \<open>alloc_ok\<close> (a fresh address that is not null); what the pool reports
  as free is a parameter too. For whole runs the pool is assumed to serve sixty blocks, which is what nine devices,
  a tenth one while it is exchanged, and the sections need. The database is built without \<^verbatim>\<open>LINK_KEY_ENCRYPT\<close> and
  \<^verbatim>\<open>BTIF_DIP_DEVICE\<close>. \<^verbatim>\<open>nvrecord.c\<close> is what the build with \<^verbatim>\<open>NEW_NV_RECORD_ENABLED=0\<close> uses; the build with 1 takes the
  database of \<^verbatim>\<open>services/nv_section\<close> instead.

  \<^bold>\<open>Flash.\<close> \<^verbatim>\<open>Norflash_Hal\<close> is the driver's erase and write paths over a model of the chip: a memory by offset, where an
  erase sets bytes and programming clears bits, and a list \<open>fl_irqs\<close> of the environment that says which commands are
  suspended and what the range reads meanwhile. \<^verbatim>\<open>Norflash_Suspend\<close> shows that suspending and resuming leads to the same
  memory; \<^verbatim>\<open>Norflash_Hal_Props\<close> states it. \<^verbatim>\<open>Norflash_Api\<close> is the service: modules, a pool of six operations and one sector
  buffer, and every operation of \<^verbatim>\<open>norflash_api.cpp\<close>. \<^verbatim>\<open>Norflash_Rep\<close> relates a state to the content \<open>L\<close> that the
  clients see: what the flash holds once everything queued is carried out. \<^verbatim>\<open>Norflash_Ops\<close> (reads, removing operations),
  \<^verbatim>\<open>Norflash_Queue\<close> (erases), \<^verbatim>\<open>Norflash_Write\<close>, \<^verbatim>\<open>Norflash_Flush\<close>, \<^verbatim>\<open>Norflash_Step\<close>, \<^verbatim>\<open>Norflash_Drain\<close> (one step of flushing)
  and \<^verbatim>\<open>Norflash_Service\<close> (flushing everything, the synchronous operations) prove each operation against \<open>L\<close>;
  \<^verbatim>\<open>Norflash_Runs\<close> closes them under \<open>served\<close>, the states reached by start-up, registration, calls and interrupts, and
  \<^verbatim>\<open>Norflash_Props\<close> states the properties. Assumed of the clients: regions of whole sectors that are apart from each other
  and end below the end of the chip, queued erases of one sector, reads and queued writes inside a sector, writes that only
  clear bits, synchronous operations only while nobody postpones flushing, and no erase of a sector with a \<open>buried\<close> write,
  which makes the code hang. Built as the repository builds it: \<^verbatim>\<open>FLASH_API_NORMAL\<close>, \<^verbatim>\<open>FLASH_SUSPEND\<close>, no remapping. The
  callback that postpones flushing answers from the list \<open>na_allow\<close>; completion callbacks are recorded and do not call back.

  \<^bold>\<open>Records in flash.\<close> \<^verbatim>\<open>Nvrec_Flash\<close> is the other half of \<^verbatim>\<open>nvrecord.c\<close>: opening the database from its main sector or
  the backup, the synchronous and the asynchronous flush, clearing. Its state \<open>nv_store\<close> holds the flash service, the pool
  as its 4096 bytes and \<open>nv_record_config\<close>. \<^verbatim>\<open>Nvrec_Image\<close>: the header and CRC of an image; \<open>burnt b p\<close> says that the
  check at start-up accepts \<open>p\<close>. \<^verbatim>\<open>Nvrec_Flash_Steps\<close> and \<^verbatim>\<open>Nvrec_Flash_Flush\<close> prove each request to the service and each loop
  of the synchronous flush against the content \<open>L\<close> of the service, \<^verbatim>\<open>Nvrec_Flash_Inv\<close> the invariant \<open>nv_inv c b W V qs L s\<close>
  with the image \<open>W\<close> that was burnt last and the image \<open>V\<close> that is safe, \<^verbatim>\<open>Nvrec_Flash_Async\<close> one step of the asynchronous
  flush, \<^verbatim>\<open>Nvrec_Flash_Calls\<close> opening, flushing and the calls of other modules. \<^verbatim>\<open>Nvrec_Flash_Runs\<close> closes them under
  \<open>nv_run c b s W V\<close>, the states between calls, and \<^verbatim>\<open>Nvrec_Flash_Props\<close> states the properties: one copy is always whole, a loss
  of power is survived, both flushes finish with two equal valid copies, clearing erases both, and a synchronous flush
  during an asynchronous one does nothing. What the record store leaves in a cleared pool is the parameter \<open>new_config\<close>, for its
  layout is the compiler's; changes of the database are any change of the contents that keeps the list of sections valid.
  Assumed: a half-written copy does not pass the check (\<open>intact\<close>), as no 32-bit checksum can exclude it, and the
  region of the database is apart from those of the other modules.

  \<^bold>\<open>Not modelled.\<close> The RTOS, CMSIS, the Bluetooth and BLE stacks and profiles (vendor code, partly only as binaries),
  audio codecs and signal processing, the register drivers of the chip (their meaning is in the hardware), the C++ glue
  of the applications around the closed stack, test patterns and tables. Of the modelled files: tracing, the delay
  and calibration loops of \<^verbatim>\<open>hal_timer.c\<close>, which spin on hardware, opening, calibration and security registers of
  \<^verbatim>\<open>hal_norflash.c\<close>, and, of \<^verbatim>\<open>nvrecord.c\<close>, the
  parts for \<^verbatim>\<open>NVREC_BAIDU_DATA_SECTION\<close>, which no build defines, the factory sector and the check in \<^verbatim>\<open>nv_callback\<close>.
  Interrupts are modelled at the granularity of the critical sections: what runs under \<open>int_lock\<close> is one step.
\<close>

end
